(* ===== verification/Prelude.thy ===== *)
theory Prelude
  imports Main "HOL-Library.Word" "HOL-Library.Monad_Syntax"
begin

text \<open>
  Vocabulary shared by every component of the model.

  Machine types of the LP64 build of the program: \<open>size_t\<close>, \<open>uintptr_t\<close>, \<open>uint64_t\<close> and
  every object pointer are 64-bit words, \<open>uint32_t\<close> and \<open>unsigned int\<close> 32-bit words,
  \<open>uint16_t\<close> 16-bit words. C arithmetic on them is word arithmetic, wrap-around included.
  A local \<open>int\<close> that the code only uses as a small counter or index is a HOL \<open>int\<close> or
  \<open>nat\<close>; wherever the code narrows a \<open>size_t\<close> to an \<open>int\<close> the model goes through
  \<open>to_int32\<close>, which keeps the low 32 bits and reads them as signed.

  Effects: a function of the program that reads or writes state is a function from the state
  to \<open>('result \<times> 'state) option\<close>. \<open>None\<close> is abnormal termination: a failed \<open>ASSERT\<close> or
  \<open>CHECK_CONDITION\<close> (which calls \<open>abort()\<close>), an explicit \<open>abort()\<close>, an access through a null
  pointer or outside an array, or a loop that never ends. A theorem that concludes
  \<open>f s = Some r\<close> therefore says that none of these happens.
\<close>

unbundle bit_operations_syntax

type_synonym u64 = "64 word"
type_synonym u32 = "32 word"
type_synonym u16 = "16 word"
type_synonym u8 = "8 word"

named_theorems option_monad \<open>unfolding the failure monad\<close>
named_theorems word_arith \<open>moving word arithmetic to the natural numbers\<close>

subsection \<open>Failure\<close>

definition ASSERT :: "bool \<Rightarrow> unit option" where
  "ASSERT c = (if c then Some () else None)"

lemma ASSERT_simps [simp]: "ASSERT True = Some ()" "ASSERT False = None"
  by (simp_all add: ASSERT_def)

lemma ASSERT_eq_Some [simp]: "ASSERT c = Some u \<longleftrightarrow> c"
  by (simp add: ASSERT_def)

lemma ASSERT_bind_eq_Some [simp]:
  "Option.bind (ASSERT c) f = Some r \<longleftrightarrow> c \<and> f () = Some r"
  by (simp add: ASSERT_def)

lemma bind_SomeE:
  assumes "Option.bind m f = Some r"
  obtains a where "m = Some a" "f a = Some r"
  using assms by (auto simp: Option.bind_eq_Some_conv)

lemma bind_SomeI: "m = Some a \<Longrightarrow> f a = r \<Longrightarrow> Option.bind m f = r"
  by simp

declare Option.bind_eq_Some_conv [option_monad]

text \<open>For evaluation in order: the rest of a sequence is not touched before its first step has a value.\<close>

lemma bind_weak_cong: "m = m' \<Longrightarrow> Option.bind m f = Option.bind m' f"
  by simp

subsection \<open>Narrowing to \<open>int\<close>\<close>

definition to_int32 :: "u64 \<Rightarrow> int" where
  "to_int32 x = sint (ucast x :: 32 word)"

lemma to_int32_small:
  assumes "unat x < 2 ^ 31"
  shows "to_int32 x = int (unat x)"
proof -
  have "unat x < 2147483648"
    using assms by simp
  then have "int (unat x) < 2147483648"
    by linarith
  then have ux: "uint x < 2 ^ 31"
    by (simp add: uint_nat del: of_nat_unat int_nat_eq)
  have u32: "uint (ucast x :: 32 word) = uint x"
    unfolding unsigned_ucast_eq by (rule take_bit_int_eq_self) (use ux in simp_all)
  have ge: "- 2147483648 \<le> uint x"
    using uint_ge_0 [of x] by linarith
  have "signed_take_bit (LENGTH(32) - Suc 0) (uint x) = uint x"
    by (rule signed_take_bit_int_eq_self) (use ux ge in simp_all)
  then show ?thesis
    unfolding to_int32_def sint_uint u32 by simp
qed

subsection \<open>Words as natural numbers\<close>

lemma unat_plus_no_wrap [word_arith]:
  fixes a b :: "'a::len word"
  shows "unat a + unat b < 2 ^ LENGTH('a) \<Longrightarrow> unat (a + b) = unat a + unat b"
  by (simp add: unat_word_ariths)

lemma unat_minus_no_wrap [word_arith]:
  fixes a b :: "'a::len word"
  shows "unat b \<le> unat a \<Longrightarrow> unat (a - b) = unat a - unat b"
  by (simp add: unat_sub word_le_nat_alt)

lemma unat_mult_no_wrap [word_arith]:
  fixes a b :: "'a::len word"
  shows "unat a * unat b < 2 ^ LENGTH('a) \<Longrightarrow> unat (a * b) = unat a * unat b"
  by (simp add: unat_word_ariths)

lemma unat_u64_less [simp]: "unat (x :: u64) < 18446744073709551616"
  using unsigned_less [of x] by simp

lemma unat_drop_bit_div:
  fixes x :: "'a::len word"
  shows "unat (drop_bit n x) = unat x div 2 ^ n"
  by (rule trans [OF unat_drop_bit_eq drop_bit_eq_div])

lemma unat_push_bit_no_wrap:
  fixes x :: "'a::len word"
  assumes "unat x * 2 ^ n < 2 ^ LENGTH('a)"
  shows "unat (push_bit n x) = unat x * 2 ^ n"
  unfolding unsigned_push_bit_eq using assms
  by (simp only: push_bit_eq_mult take_bit_nat_eq_self)

lemma word_eq_iff_unat: "(a :: 'a::len word) = b \<longleftrightarrow> unat a = unat b"
  by (simp add: word_unat_eq_iff)

lemma unat_ucast_wider:
  fixes x :: "'a::len word"
  assumes "LENGTH('a) \<le> LENGTH('b::len)"
  shows "unat (ucast x :: 'b word) = unat x"
proof -
  have "unat x < 2 ^ LENGTH('a)" by (rule unsigned_less)
  also have "(2::nat) ^ LENGTH('a) \<le> 2 ^ LENGTH('b)" using assms by simp
  finally show ?thesis
    unfolding unsigned_ucast_eq by (rule take_bit_nat_eq_self)
qed

lemma unat_2p:
  assumes "a < 64"
  shows "unat (2 ^ a :: u64) = 2 ^ a"
proof -
  have "(2::nat) ^ a < 2 ^ 64"
    by (rule power_strict_increasing) (use assms in simp_all)
  then have "unat (push_bit a 1 :: u64) = unat (1 :: u64) * 2 ^ a"
    by (intro unat_push_bit_no_wrap) simp
  then show ?thesis by simp
qed

lemma sint_u64_small:
  assumes "unat (x :: u64) < 2 ^ 63"
  shows "sint x = int (unat x)"
proof -
  have "unat x < 9223372036854775808"
    using assms by simp
  then have "int (unat x) < 9223372036854775808"
    by linarith
  then have ux: "uint x < 9223372036854775808"
    by (simp add: uint_nat del: of_nat_unat int_nat_eq)
  have ge: "- 9223372036854775808 \<le> uint x"
    using uint_ge_0 [of x] by linarith
  have "signed_take_bit (LENGTH(64) - Suc 0) (uint x) = uint x"
    by (rule signed_take_bit_int_eq_self) (use ux ge in simp_all)
  then show ?thesis unfolding sint_uint by simp
qed

end
