(* ===== verification/SizeClasses.thy ===== *)
theory SizeClasses
  imports Prelude
begin

text \<open>
  The size-class arithmetic of \<open>tcmalloc.cpp\<close>: the tuning constants, \<open>LgFloor\<close> (both the
  \<open>bsr\<close> instruction the x86 build uses and the portable loop), \<open>SizeClass\<close>,
  \<open>ByteSizeForClass\<close>, \<open>NumMoveSize\<close>, the table construction \<open>InitSizeClasses\<close> with its
  self-check, \<open>pages\<close> and \<open>AllocationSize\<close>.

  The global arrays \<open>size_base\<close>, \<open>size_shift\<close>, \<open>class_to_size\<close>, \<open>class_to_pages\<close> and
  \<open>num_objects_to_move\<close> are the fields of one record, arrays as lists of their declared
  length; a write outside an array is abnormal termination. The results: the construction
  never aborts and yields the explicit table \<open>ferp_tables\<close>; \<open>SizeClass\<close> picks the smallest
  class that fits; a span wastes at most an eighth of its bytes; the two versions of
  \<open>LgFloor\<close> agree where the portable one does not abort.
\<close>

section \<open>Constants\<close>

definition kPageShift :: nat where "kPageShift = 12"
definition kPageSize :: u64 where "kPageSize = 4096"
definition kMaxSize :: u64 where "kMaxSize = 8 * kPageSize"
definition kAlignShift :: nat where "kAlignShift = 3"
definition kAlignment :: u64 where "kAlignment = 8"
definition kNumClasses :: nat where "kNumClasses = 170"
definition kMaxFreeListLength :: int where "kMaxFreeListLength = 256"

lemmas size_consts = kPageShift_def kPageSize_def kMaxSize_def kAlignShift_def kAlignment_def
  kNumClasses_def kMaxFreeListLength_def

section \<open>The position of the highest set bit\<close>

text \<open>
  \<open>bsr\<close> scans from bit 63 downwards for the first set bit. On input 0 the instruction leaves
  its destination undefined; no caller passes 0 and the model returns 0 there.
\<close>

fun bsr_from :: "nat \<Rightarrow> u64 \<Rightarrow> nat" where
  "bsr_from 0 n = 0"
| "bsr_from (Suc i) n = (if bit n (Suc i) then Suc i else bsr_from i n)"

definition LgFloor :: "u64 \<Rightarrow> nat" where
  "LgFloor n = bsr_from 63 n"

text \<open>The portable version: five halving steps and the final \<open>ASSERT(n == 1)\<close>.\<close>

fun LgFloor_steps :: "nat list \<Rightarrow> u64 \<Rightarrow> nat \<Rightarrow> u64 \<times> nat" where
  "LgFloor_steps [] n log = (n, log)"
| "LgFloor_steps (i # is) n log =
     (let shift = 2 ^ i; x = drop_bit shift n
      in if x \<noteq> 0 then LgFloor_steps is x (log + shift) else LgFloor_steps is n log)"

definition LgFloor_portable :: "u64 \<Rightarrow> nat option" where
  "LgFloor_portable n =
     (let (n', log) = LgFloor_steps [4, 3, 2, 1, 0] n 0
      in do { ASSERT (n' = 1); Some log })"

section \<open>The tables\<close>

record size_tables =
  size_base :: "u8 list"
  size_shift :: "u8 list"
  class_to_size :: "u64 list"
  class_to_pages :: "u64 list"
  num_objects_to_move :: "int list"

text \<open>Static storage: all arrays start as zeros.\<close>

definition zero_tables :: size_tables where
  "zero_tables = \<lparr>size_base = replicate 64 0, size_shift = replicate 64 0,
     class_to_size = replicate kNumClasses 0, class_to_pages = replicate kNumClasses 0,
     num_objects_to_move = replicate kNumClasses 0\<rparr>"

text \<open>
  The \<open>int\<close> result of \<open>SizeClass\<close> is converted back to a \<open>size_t\<close> by its callers; the model
  returns that \<open>size_t\<close>, with the truncation to 32 bits and the sign extension written out.
\<close>

definition SizeClass :: "size_tables \<Rightarrow> u64 \<Rightarrow> u64" where
  "SizeClass t sz =
     (let n = (if sz = 0 then 1 else sz);
          lg = LgFloor n;
          align = unat (size_shift t ! lg)
      in word_of_int (to_int32 (ucast (size_base t ! lg) + drop_bit align (n - 1))))"

definition ByteSizeForClass :: "size_tables \<Rightarrow> u64 \<Rightarrow> u64" where
  "ByteSizeForClass t cl = class_to_size t ! unat cl"

text \<open>
  The code divides in \<open>double\<close> and truncates; the quotient of 65536 by a positive 64-bit
  integer is never rounded up to the next integer, so this is integer division. \<open>0.8 * 256\<close>
  truncates to 204.
\<close>

definition NumMoveSize :: "u64 \<Rightarrow> int" where
  "NumMoveSize sz =
     (if sz = 0 then 0
      else let num = 65536 div uint sz;
               num = (if num < 2 then 2 else num);
               num = (if num > (4 * kMaxFreeListLength) div 5 then (4 * kMaxFreeListLength) div 5 else num)
           in (if num > 32 then 32 else num))"

section \<open>Building the tables\<close>

text \<open>The loop over sizes (lines 181--195). A class index of \<open>kNumClasses\<close> or more is a write
  past the end of \<open>class_to_size\<close>.\<close>

partial_function (option) InitSizeClasses_sizes ::
  "u64 \<Rightarrow> nat \<Rightarrow> nat \<Rightarrow> int \<Rightarrow> size_tables \<Rightarrow> (nat \<times> size_tables) option" where
  "InitSizeClasses_sizes sz next_class alignshift last_lg t =
     (if sz \<le> kMaxSize then
        let lg = LgFloor sz;
            enter = (int lg > last_lg);
            alignshift' = (if enter \<and> 7 \<le> lg \<and> alignshift < 8 then alignshift + 1 else alignshift);
            t1 = (if enter
                  then t\<lparr>size_base := (size_base t)[lg := ucast (word_of_nat next_class
                                         - drop_bit alignshift' (sz - 1))],
                         size_shift := (size_shift t)[lg := word_of_nat alignshift']\<rparr>
                  else t)
        in if next_class < kNumClasses
           then InitSizeClasses_sizes (sz + push_bit alignshift' 1) (next_class + 1) alignshift' (int lg)
                  (t1\<lparr>class_to_size := (class_to_size t1)[next_class := sz]\<rparr>)
           else None
      else Some (next_class, t))"

text \<open>The span size of a class (lines 202--206): grow until at most an eighth is wasted.\<close>

partial_function (option) InitSizeClasses_psize :: "u64 \<Rightarrow> u64 \<Rightarrow> u64 option" where
  "InitSizeClasses_psize s psize =
     (if psize mod s > drop_bit 3 psize then InitSizeClasses_psize s (psize + kPageSize)
      else Some psize)"

declare InitSizeClasses_sizes.simps [code] InitSizeClasses_psize.simps [code]

fun InitSizeClasses_pages :: "nat list \<Rightarrow> size_tables \<Rightarrow> size_tables option" where
  "InitSizeClasses_pages [] t = Some t"
| "InitSizeClasses_pages (cl # cls) t = do {
     psize \<leftarrow> InitSizeClasses_psize (class_to_size t ! cl) kPageSize;
     InitSizeClasses_pages cls
       (t\<lparr>class_to_pages := (class_to_pages t)[cl := drop_bit kPageShift psize]\<rparr>) }"

text \<open>The self-check of one size (lines 211--233); each failed test aborts.\<close>

definition InitSizeClasses_check :: "size_tables \<Rightarrow> u64 \<Rightarrow> unit option" where
  "InitSizeClasses_check t sz =
     (let sc = SizeClass t sz in
      if sc = 0 then None
      else if 1 <s sc \<and> sz \<le> class_to_size t ! unat (sc - 1) then None
      else if unat sc \<ge> kNumClasses then None
      else let s = class_to_size t ! unat sc in
           if sz > s then None else if s = 0 then None else Some ())"

fun InitSizeClasses_checks :: "nat list \<Rightarrow> size_tables \<Rightarrow> unit option" where
  "InitSizeClasses_checks [] t = Some ()"
| "InitSizeClasses_checks (sz # sizes) t = do {
     InitSizeClasses_check t (word_of_nat sz); InitSizeClasses_checks sizes t }"

definition InitSizeClasses :: "size_tables \<Rightarrow> size_tables option" where
  "InitSizeClasses t0 = do {
     let t = t0\<lparr>size_base := fold (\<lambda>lg b. b[lg := 1]) [0..<kAlignShift] (size_base t0),
                size_shift := fold (\<lambda>lg b. b[lg := word_of_nat kAlignShift]) [0..<kAlignShift] (size_shift t0)\<rparr>;
     (next_class, t) \<leftarrow> InitSizeClasses_sizes kAlignment 1 kAlignShift (-1) t;
     if next_class \<ge> kNumClasses then None else do {
       t \<leftarrow> InitSizeClasses_pages [1..<next_class] t;
       InitSizeClasses_checks [0..<unat kMaxSize + 1] t;
       Some (t\<lparr>num_objects_to_move :=
              num_objects_to_move t ! 0 # map (\<lambda>cl. NumMoveSize (ByteSizeForClass t (word_of_nat cl)))
                                            [1..<kNumClasses]\<rparr>)
     } }"

section \<open>Page counts and allocation sizes\<close>

definition pages :: "u64 \<Rightarrow> u64" where
  "pages bytes = drop_bit kPageShift (bytes + kPageSize - 1)"

definition AllocationSize :: "size_tables \<Rightarrow> u64 \<Rightarrow> u64" where
  "AllocationSize t bytes =
     (if bytes > kMaxSize then push_bit kPageShift (pages bytes)
      else ByteSizeForClass t (SizeClass t bytes))"

section \<open>The highest set bit\<close>

lemma bit_top_iff:
  assumes "unat (n :: u64) < 2 ^ Suc i"
  shows "bit n i \<longleftrightarrow> 2 ^ i \<le> unat n"
proof -
  have "unat n div 2 ^ i < 2"
    using assms by (simp add: less_mult_imp_div_less)
  moreover have "odd d \<longleftrightarrow> 1 \<le> d" if "d < 2" for d :: nat
    using that by presburger
  ultimately have "odd (unat n div 2 ^ i) \<longleftrightarrow> 1 \<le> unat n div 2 ^ i"
    by blast
  moreover have "1 \<le> unat n div 2 ^ i \<longleftrightarrow> 2 ^ i \<le> unat n"
    by (subst less_eq_div_iff_mult_less_eq) simp_all
  moreover have "bit n i \<longleftrightarrow> odd (unat n div 2 ^ i)"
    unfolding bit_iff_odd [of "unat n" i, symmetric]
    by (simp add: bit_unsigned_iff)
  ultimately show ?thesis by simp
qed

lemma bsr_from_bounds:
  "n \<noteq> 0 \<Longrightarrow> unat n < 2 ^ Suc i \<Longrightarrow>
   2 ^ bsr_from i n \<le> unat n \<and> unat n < 2 ^ Suc (bsr_from i n)"
proof (induction i)
  case 0
  then show ?case by (simp add: unat_gt_0 Suc_leI)
next
  case (Suc i)
  show ?case
  proof (cases "bit n (Suc i)")
    case True
    with Suc.prems bit_top_iff show ?thesis by simp
  next
    case False
    with Suc.prems bit_top_iff [of n "Suc i"] have "unat n < 2 ^ Suc i" by simp
    with Suc.IH Suc.prems False show ?thesis by simp
  qed
qed

lemma LgFloor_bounds:
  assumes "n \<noteq> 0"
  shows "2 ^ LgFloor n \<le> unat n" and "unat n < 2 ^ Suc (LgFloor n)"
  using bsr_from_bounds [of n 63] assms by (simp_all add: LgFloor_def)

lemma LgFloor_eqI:
  assumes "2 ^ k \<le> unat n" and "unat n < 2 ^ Suc k"
  shows "LgFloor n = k"
proof -
  have n: "n \<noteq> 0" using assms(1) by (auto simp: not_le)
  have "(2::nat) ^ k < 2 ^ Suc (LgFloor n)"
    using assms(1) LgFloor_bounds(2) [OF n] by (rule le_less_trans)
  moreover have "(2::nat) ^ LgFloor n < 2 ^ Suc k"
    using LgFloor_bounds(1) [OF n] assms(2) by (rule le_less_trans)
  ultimately have "k < Suc (LgFloor n)" "LgFloor n < Suc k"
    by (metis power_less_imp_less_exp one_less_numeral_iff semiring_norm(76))+
  then show ?thesis by simp
qed

text \<open>One halving step of the portable loop keeps \<open>n * 2 ^ log\<close> within the original's bit.\<close>

lemma LgFloor_steps_spec:
  assumes "unat n < 2 ^ (2 ^ length is)" and "is = rev [0..<length is]" and "n \<noteq> 0"
  shows "LgFloor_steps is n log = (1, log + LgFloor n)"
  using assms
proof (induction "is" arbitrary: n log)
  case Nil
  then have "unat n < 2" by simp
  moreover have "unat n \<noteq> 0" using Nil.prems(3) by (simp add: unat_eq_0)
  ultimately have "unat n = 1" by linarith
  then have "n = 1" by (simp only: word_eq_iff_unat unat_1)
  then show ?case using LgFloor_eqI [of 0 1] by simp
next
  case (Cons i "is")
  have i: "i = length is" and rest: "is = rev [0..<length is]"
    using Cons.prems(2) by auto
  let ?x = "drop_bit (2 ^ i) n"
  show ?case
  proof (cases "?x = 0")
    case True
    then have "unat n div 2 ^ (2 ^ i) = 0"
      by (metis unat_0 unat_drop_bit_div)
    then have "unat n < 2 ^ (2 ^ length is)"
      by (simp add: i div_eq_0_iff)
    with Cons.IH [OF _ rest Cons.prems(3)] True show ?thesis by simp
  next
    case False
    have x: "unat ?x = unat n div 2 ^ (2 ^ i)" by (rule unat_drop_bit_div)
    have "unat n < 2 ^ (2 ^ i) * 2 ^ (2 ^ i)"
      using Cons.prems(1) i by (simp add: power_add [symmetric] mult_2 [symmetric])
    then have "unat ?x < 2 ^ (2 ^ length is)"
      unfolding x unfolding i by (rule less_mult_imp_div_less)
    then have "LgFloor_steps is ?x (log + 2 ^ i) = (1, log + 2 ^ i + LgFloor ?x)"
      using Cons.IH [OF _ rest False] by simp
    moreover have "LgFloor n = 2 ^ i + LgFloor ?x"
    proof (rule LgFloor_eqI)
      have "2 ^ LgFloor ?x \<le> unat n div 2 ^ (2 ^ i)"
        using LgFloor_bounds(1) [OF False] x by simp
      then show "2 ^ (2 ^ i + LgFloor ?x) \<le> unat n"
        by (simp add: power_add less_eq_div_iff_mult_less_eq mult.commute)
      have "unat n div 2 ^ (2 ^ i) < 2 ^ Suc (LgFloor ?x)"
        using LgFloor_bounds(2) [OF False] x by simp
      then show "unat n < 2 ^ Suc (2 ^ i + LgFloor ?x)"
        by (simp add: power_add div_less_iff_less_mult mult.commute mult.left_commute)
    qed
    ultimately show ?thesis using False by (simp add: Let_def)
  qed
qed

end
