(* ===== verification/SizeTables.thy ===== *)
theory SizeTables
  imports SizeClasses
begin

text \<open>
  The tables \<open>InitSizeClasses\<close> builds, in closed form, and what they guarantee: every test of
  the start-up self-check passes, \<open>SizeClass\<close> returns the smallest class that fits, every span
  of a class holds at least one object, wastes at most an eighth of its bytes and holds fewer
  objects than the 11-bit \<open>refcount\<close> of a span can count.
\<close>

section \<open>The tables in closed form\<close>

text \<open>Bytes of a class, and the class of a size, as functions on natural numbers.\<close>

definition csize :: "nat \<Rightarrow> nat" where
  "csize cl =
     (if cl \<le> 16 then 8 * cl else if cl \<le> 24 then 16 * (cl - 8)
      else if cl \<le> 32 then 32 * (cl - 16) else if cl \<le> 40 then 64 * (cl - 24)
      else if cl \<le> 48 then 128 * (cl - 32) else 256 * (cl - 40))"

definition cclass :: "nat \<Rightarrow> nat" where
  "cclass n =
     (if n = 0 then 1
      else if n < 128 then 1 + (n - 1) div 8 else if n < 256 then 9 + (n - 1) div 16
      else if n < 512 then 17 + (n - 1) div 32 else if n < 1024 then 25 + (n - 1) div 64
      else if n < 2048 then 33 + (n - 1) div 128 else 41 + (n - 1) div 256)"

definition ferp_pages :: "u64 list" where
    "ferp_pages = [0] @ replicate 34 1 @ [2, 1, 2, 1, 1, 1, 2, 1, 3, 2, 3, 1, 1, 1, 3, 2, 3, 3, 5,
     1, 1, 1, 6, 5, 4, 4] @ replicate 4 3 @ [5, 5, 7] @ replicate 5 2 @ [7, 7] @ replicate 6 5 @ [8]
     @ replicate 7 3 @ replicate 7 7 @ replicate 9 4 @ replicate 5 9 @ replicate 11 5 @ [11, 11, 11]
     @ replicate 13 6 @ [13] @ replicate 15 7 @ replicate 16 8 @ [0]"

definition ferp_tables :: size_tables where
  "ferp_tables = \<lparr>
     size_base = [1, 1, 1, 1, 1, 1, 1, 9, 17, 25, 33, 41, 41, 41, 41, 41] @ replicate 48 0,
     size_shift = [3, 3, 3, 3, 3, 3, 3, 4, 5, 6, 7, 8, 8, 8, 8, 8] @ replicate 48 0,
     class_to_size = map (\<lambda>cl. word_of_nat (csize cl)) [0..<169] @ [0],
     class_to_pages = ferp_pages,
     num_objects_to_move = map (\<lambda>cl. if cl < 169 then NumMoveSize (word_of_nat (csize cl)) else 0) [0..<170]\<rparr>"

section \<open>The size of a class and the class of a size\<close>

lemma csize_mono: "a < b \<Longrightarrow> csize a < csize b"
  unfolding csize_def by (auto split: if_splits)

lemma div_interval:
  fixes n k :: nat
  assumes "0 < n" "0 < k"
  shows "k * ((n - 1) div k) < n \<and> n \<le> k * ((n - 1) div k) + k"
proof -
  have "(n - 1) mod k < k" using assms by simp
  moreover have "k * ((n - 1) div k) + (n - 1) mod k = n - 1" by simp
  ultimately show ?thesis using assms(1) by linarith
qed

lemma csize_cclass_both: "n \<le> csize (cclass n) \<and> (1 < cclass n \<longrightarrow> csize (cclass n - 1) < n)"
proof -
  consider "n = 0" | "0 < n" "n < 128" | "128 \<le> n" "n < 256" | "256 \<le> n" "n < 512"
    | "512 \<le> n" "n < 1024" | "1024 \<le> n" "n < 2048" | "2048 \<le> n" by linarith
  then show ?thesis
  proof cases
    case 1
    then show ?thesis by (simp add: csize_def cclass_def)
  next
    case 2
    then show ?thesis using div_interval [of n 8] by (auto simp: csize_def cclass_def)
  next
    case 3
    then show ?thesis using div_interval [of n 16] by (auto simp: csize_def cclass_def)
  next
    case 4
    then show ?thesis using div_interval [of n 32] by (auto simp: csize_def cclass_def)
  next
    case 5
    then show ?thesis using div_interval [of n 64] by (auto simp: csize_def cclass_def)
  next
    case 6
    then show ?thesis using div_interval [of n 128] by (auto simp: csize_def cclass_def)
  next
    case 7
    then show ?thesis using div_interval [of n 256] by (auto simp: csize_def cclass_def)
  qed
qed
lemma csize_cclass: "n \<le> csize (cclass n)"
  and csize_pred_cclass: "1 < cclass n \<Longrightarrow> csize (cclass n - 1) < n"
  using csize_cclass_both by blast+

lemma cclass_pos: "0 < cclass n"
  by (simp add: cclass_def)

lemma cclass_bound: "n \<le> 32768 \<Longrightarrow> cclass n \<le> 168"
  unfolding cclass_def by (auto split: if_splits)

lemma csize_bound: "cl \<le> 168 \<Longrightarrow> csize cl \<le> 32768"
  unfolding csize_def by (auto split: if_splits)

lemma csize_pos: "0 < cl \<Longrightarrow> 0 < csize cl"
  unfolding csize_def by (simp split: if_splits)

section \<open>Reading the closed-form tables\<close>

lemma length_ferp_tables [simp]:
  "length (class_to_size ferp_tables) = 170" "length (class_to_pages ferp_tables) = 170"
  "length (num_objects_to_move ferp_tables) = 170"
  by (simp_all add: ferp_tables_def ferp_pages_def)

lemma class_to_size_ferp: "cl < 169 \<Longrightarrow> class_to_size ferp_tables ! cl = word_of_nat (csize cl)"
  by (simp add: ferp_tables_def nth_append)

lemma unat_class_to_size_ferp: "cl \<le> 168 \<Longrightarrow> unat (class_to_size ferp_tables ! cl) = csize cl"
  using csize_bound [of cl] by (simp add: class_to_size_ferp unat_of_nat)

lemma SizeClass_unat:
  assumes "lg = LgFloor n" and "n \<noteq> 0"
    and "unat (size_base t ! lg) + (unat n - 1) div 2 ^ unat (size_shift t ! lg) < 2 ^ 31"
  shows "SizeClass t n =
    word_of_nat (unat (size_base t ! lg) + (unat n - 1) div 2 ^ unat (size_shift t ! lg))"
proof -
  let ?x = "ucast (size_base t ! lg) + drop_bit (unat (size_shift t ! lg)) (n - 1) :: u64"
  have n1: "unat (n - 1) = unat n - 1"
    using assms(2) by (simp add: unat_minus_one)
  have b: "unat (ucast (size_base t ! lg) :: u64) = unat (size_base t ! lg)"
    by (rule unat_ucast_wider) simp
  have x: "unat ?x = unat (size_base t ! lg) + (unat n - 1) div 2 ^ unat (size_shift t ! lg)"
    using assms(3) by (subst unat_plus_no_wrap) (simp_all add: b unat_drop_bit_div n1)
  have "to_int32 ?x = int (unat ?x)"
    by (rule to_int32_small) (use assms(3) x in simp)
  then show ?thesis
    using assms(1,2) unfolding SizeClass_def Let_def x by simp
qed

text \<open>The class the code computes is the closed form's, on every size the tables cover.\<close>

lemma SizeClass_ferp_pos:
  assumes "0 < n" "n \<le> 32768"
  shows "SizeClass ferp_tables (word_of_nat n) = word_of_nat (cclass n)"
proof -
  let ?w = "word_of_nat n :: u64"
  have u: "unat ?w = n" using assms by (simp add: unat_of_nat)
  have w: "?w \<noteq> 0" using u assms by auto
  define k where "k = LgFloor ?w"
  have lo: "2 ^ k \<le> n" and hi: "n < 2 ^ Suc k"
    using LgFloor_bounds [OF w] by (simp_all add: u k_def)
  have "(2::nat) ^ k < 2 ^ 16" using lo assms(2) by simp
  then have "k < 16" by (rule power_less_imp_less_exp [rotated]) simp
  then have cases: "k = 0 \<or> k = 1 \<or> k = 2 \<or> k = 3 \<or> k = 4 \<or> k = 5 \<or> k = 6 \<or> k = 7 \<or> k = 8 \<or>
    k = 9 \<or> k = 10 \<or> k = 11 \<or> k = 12 \<or> k = 13 \<or> k = 14 \<or> k = 15"
    by (simp add: numeral_eq_Suc less_Suc_eq)
  have "unat (size_base ferp_tables ! k) + (n - 1) div 2 ^ unat (size_shift ferp_tables ! k)
      = cclass n \<and> cclass n < 2 ^ 31"
    using cases lo hi cclass_bound [OF assms(2)]
    by (elim disjE) (simp_all add: ferp_tables_def cclass_def split: if_splits)
  then show ?thesis
    using SizeClass_unat [OF k_def w, of ferp_tables] u by simp
qed

lemma SizeClass_ferp:
  assumes "unat sz \<le> 32768"
  shows "SizeClass ferp_tables sz = word_of_nat (cclass (unat sz))"
proof (cases "sz = 0")
  case True
  then have "SizeClass ferp_tables sz = SizeClass ferp_tables (word_of_nat 1)"
    by (simp add: SizeClass_def)
  then show ?thesis using True SizeClass_ferp_pos [of 1] by (simp add: cclass_def)
next
  case False
  then show ?thesis using SizeClass_ferp_pos [of "unat sz"] assms
    by (simp add: unat_gt_0)
qed

section \<open>The start-up construction\<close>

text \<open>
  The loop over sizes, one run of equally spaced classes at a time: \<open>run_classes\<close> is the array
  after \<open>n\<close> consecutive writes starting at class \<open>nc\<close>.
\<close>

definition run_classes :: "u64 list \<Rightarrow> nat \<Rightarrow> u64 \<Rightarrow> nat \<Rightarrow> nat \<Rightarrow> u64 list" where
  "run_classes c nc sz a n =
     take nc c @ map (\<lambda>j. sz + word_of_nat (j * 2 ^ a)) [0..<n] @ drop (nc + n) c"

lemma run_classes_0: "run_classes c nc sz a 0 = c"
  by (simp add: run_classes_def)

lemma run_classes_Suc:
  assumes "nc < length c"
  shows "run_classes (c[nc := sz]) (Suc nc) (sz + push_bit a 1) a n = run_classes c nc sz a (Suc n)"
proof -
  have "map (\<lambda>j. sz + push_bit a 1 + word_of_nat (j * 2 ^ a)) [0..<n]
      = map (\<lambda>j. sz + word_of_nat (j * 2 ^ a)) (map Suc [0..<n])"
    by (simp add: push_bit_eq_mult algebra_simps)
  then show ?thesis
    using assms unfolding run_classes_def
    by (simp add: take_Suc_conv_app_nth map_Suc_upt upt_conv_Cons del: upt_Suc map_map)
qed

lemma InitSizeClasses_sizes_stay:
  assumes "LgFloor sz = lg" and "sz \<le> kMaxSize" and "nc < kNumClasses"
  shows "InitSizeClasses_sizes sz nc a (int lg) t =
    InitSizeClasses_sizes (sz + push_bit a 1) (nc + 1) a (int lg)
      (t\<lparr>class_to_size := (class_to_size t)[nc := sz]\<rparr>)"
  by (subst InitSizeClasses_sizes.simps) (simp only: assms Let_def if_True less_irrefl simp_thms if_False)

lemma InitSizeClasses_sizes_enter:
  assumes "LgFloor sz = lg" and "sz \<le> kMaxSize" and "nc < kNumClasses" and "last_lg < int lg"
    and "a' = (if 7 \<le> lg \<and> a < 8 then a + 1 else a)"
  shows "InitSizeClasses_sizes sz nc a last_lg t = InitSizeClasses_sizes sz nc a' (int lg)
      (t\<lparr>size_base := (size_base t)[lg := ucast (word_of_nat nc - drop_bit a' (sz - 1))],
         size_shift := (size_shift t)[lg := word_of_nat a']\<rparr>)"
  unfolding InitSizeClasses_sizes_stay [OF assms(1-3)]
  by (subst InitSizeClasses_sizes.simps)
    (simp only: assms(1-4) assms(5) [symmetric] Let_def if_True simp_thms size_tables.simps)

lemma InitSizeClasses_sizes_run:
  assumes "2 ^ lg \<le> unat sz" and "unat sz + n * 2 ^ a \<le> 2 ^ Suc lg" and "lg \<le> 14"
    and "a < 63" and "nc + n \<le> 169" and "length (class_to_size t) = 170"
  shows "InitSizeClasses_sizes sz nc a (int lg) t =
    InitSizeClasses_sizes (sz + word_of_nat (n * 2 ^ a)) (nc + n) a (int lg)
      (t\<lparr>class_to_size := run_classes (class_to_size t) nc sz a n\<rparr>)"
  using assms
proof (induction n arbitrary: sz nc t)
  case 0
  then show ?case by (simp add: run_classes_0)
next
  case (Suc n)
  let ?t = "t\<lparr>class_to_size := (class_to_size t)[nc := sz]\<rparr>"
  have pow: "(2::nat) ^ Suc lg \<le> 2 ^ 15"
    by (rule power_increasing) (use Suc.prems(3) in simp_all)
  have s: "unat sz < 2 ^ Suc lg"
  proof -
    have "unat sz + (2 ^ a + n * 2 ^ a) \<le> 2 ^ Suc lg" using Suc.prems(2) by simp
    moreover have "(0::nat) < 2 ^ a" by simp
    ultimately show ?thesis by linarith
  qed
  have lg: "LgFloor sz = lg" by (rule LgFloor_eqI [OF Suc.prems(1) s])
  have le: "sz \<le> kMaxSize"
    using s pow by (simp add: word_le_nat_alt kMaxSize_def kPageSize_def)
  have u: "unat (sz + push_bit a 1) = unat sz + 2 ^ a"
    using Suc.prems(2) pow unat_2p [of a] Suc.prems(4) by (subst unat_plus_no_wrap) simp_all
  have "InitSizeClasses_sizes sz nc a (int lg) t =
      InitSizeClasses_sizes (sz + push_bit a 1) (nc + 1) a (int lg) ?t"
    by (rule InitSizeClasses_sizes_stay [OF lg le]) (use Suc.prems(5) in \<open>simp add: kNumClasses_def\<close>)
  also have "\<dots> = InitSizeClasses_sizes (sz + push_bit a 1 + word_of_nat (n * 2 ^ a)) (nc + 1 + n) a (int lg)
      (?t\<lparr>class_to_size := run_classes (class_to_size ?t) (nc + 1) (sz + push_bit a 1) a n\<rparr>)"
    by (rule Suc.IH) (use Suc.prems u in simp_all)
  also have "run_classes (class_to_size ?t) (nc + 1) (sz + push_bit a 1) a n
      = run_classes (class_to_size t) nc sz a (Suc n)"
    using run_classes_Suc [of nc "class_to_size t" sz a n] Suc.prems(5,6) by simp
  finally show ?case by (simp add: push_bit_eq_mult algebra_simps)
qed

text \<open>One power of two: the entry that sets \<open>size_base\<close> and \<open>size_shift\<close>, then the run.\<close>

lemma InitSizeClasses_sizes_bucket:
  assumes "last_lg < int lg" and "lg \<le> 14"
    and a': "a' = (if 7 \<le> lg \<and> a < 8 then a + 1 else a)"
    and n: "n * 2 ^ a' = 2 ^ lg" and "a' < 63" and "nc + n \<le> 169"
    and "length (class_to_size t) = 170"
  shows "InitSizeClasses_sizes (2 ^ lg) nc a last_lg t =
    InitSizeClasses_sizes (2 ^ Suc lg) (nc + n) a' (int lg)
      (t\<lparr>size_base := (size_base t)[lg := ucast (word_of_nat nc - drop_bit a' (2 ^ lg - 1 :: u64))],
         size_shift := (size_shift t)[lg := word_of_nat a'],
         class_to_size := run_classes (class_to_size t) nc (2 ^ lg) a' n\<rparr>)"
proof -
  let ?sz = "2 ^ lg :: u64"
  let ?t = "t\<lparr>size_base := (size_base t)[lg := ucast (word_of_nat nc - drop_bit a' (?sz - 1))],
         size_shift := (size_shift t)[lg := word_of_nat a']\<rparr>"
  have pow: "(2::nat) ^ lg \<le> 2 ^ 14"
    by (rule power_increasing) (use assms(2) in simp_all)
  have u: "unat ?sz = 2 ^ lg" by (rule unat_2p) (use assms(2) in simp)
  have lg: "LgFloor ?sz = lg" by (rule LgFloor_eqI) (simp_all only: u power_Suc, simp)
  have le: "?sz \<le> kMaxSize"
    unfolding word_le_nat_alt u using pow by (simp add: kMaxSize_def kPageSize_def)
  have n1: "0 < n" using n by (cases n) auto
  have "InitSizeClasses_sizes ?sz nc a last_lg t = InitSizeClasses_sizes ?sz nc a' (int lg) ?t"
    by (rule InitSizeClasses_sizes_enter [OF lg le _ assms(1) a'])
      (use n1 assms(6) in \<open>simp add: kNumClasses_def\<close>)
  also have "\<dots> = InitSizeClasses_sizes (?sz + word_of_nat (n * 2 ^ a')) (nc + n) a' (int lg)
      (?t\<lparr>class_to_size := run_classes (class_to_size ?t) nc ?sz a' n\<rparr>)"
    by (rule InitSizeClasses_sizes_run) (use assms u in simp_all)
  also have "?sz + word_of_nat (n * 2 ^ a') = 2 ^ Suc lg"
    unfolding n by simp
  finally show ?thesis by simp
qed

lemma length_run_classes [simp]:
  "nc + n \<le> length c \<Longrightarrow> length (run_classes c nc sz a n) = length c"
  by (simp add: run_classes_def)

text \<open>The twelve powers of two from 8 to 16384.\<close>

lemmas init_buckets =
  InitSizeClasses_sizes_bucket [where lg = 3 and n = 1 and a = 3 and a' = 3 and nc = 1 and last_lg = "-1", simplified, unfolded numeral_2_eq_2 [symmetric]]
  InitSizeClasses_sizes_bucket [where lg = 4 and n = 2 and a = 3 and a' = 3 and nc = 2 and last_lg = "3", simplified]
  InitSizeClasses_sizes_bucket [where lg = 5 and n = 4 and a = 3 and a' = 3 and nc = 4 and last_lg = "4", simplified]
  InitSizeClasses_sizes_bucket [where lg = 6 and n = 8 and a = 3 and a' = 3 and nc = 8 and last_lg = "5", simplified]
  InitSizeClasses_sizes_bucket [where lg = 7 and n = 8 and a = 3 and a' = 4 and nc = 16 and last_lg = "6", simplified]
  InitSizeClasses_sizes_bucket [where lg = 8 and n = 8 and a = 4 and a' = 5 and nc = 24 and last_lg = "7", simplified]
  InitSizeClasses_sizes_bucket [where lg = 9 and n = 8 and a = 5 and a' = 6 and nc = 32 and last_lg = "8", simplified]
  InitSizeClasses_sizes_bucket [where lg = 10 and n = 8 and a = 6 and a' = 7 and nc = 40 and last_lg = "9", simplified]
  InitSizeClasses_sizes_bucket [where lg = 11 and n = 8 and a = 7 and a' = 8 and nc = 48 and last_lg = "10", simplified]
  InitSizeClasses_sizes_bucket [where lg = 12 and n = 16 and a = 8 and a' = 8 and nc = 56 and last_lg = "11", simplified]
  InitSizeClasses_sizes_bucket [where lg = 13 and n = 32 and a = 8 and a' = 8 and nc = 72 and last_lg = "12", simplified]
  InitSizeClasses_sizes_bucket [where lg = 14 and n = 64 and a = 8 and a' = 8 and nc = 104 and last_lg = "13", simplified]

lemma init_last:
  "length (class_to_size t) = 170 \<Longrightarrow>
   InitSizeClasses_sizes 32768 168 8 14 t = Some (169,
     t\<lparr>size_base := (size_base t)[15 := 41], size_shift := (size_shift t)[15 := 8],
       class_to_size := (class_to_size t)[168 := 32768]\<rparr>)"
proof -
  assume "length (class_to_size t) = 170"
  have lg: "LgFloor 32768 = 15" by (rule LgFloor_eqI) simp_all
  show ?thesis
    by (subst InitSizeClasses_sizes.simps, subst InitSizeClasses_sizes.simps)
      (simp add: lg kMaxSize_def kPageSize_def kNumClasses_def)
qed

lemma init_all_buckets:
  assumes "length (class_to_size t) = 170"
  shows "InitSizeClasses_sizes 8 1 3 (-1) t = Some (169,
    t\<lparr>size_base := (size_base t)[3 := 1, 4 := 1, 5 := 1, 6 := 1, 7 := 9, 8 := 17, 9 := 25,
            10 := 33, 11 := 41, 12 := 41, 13 := 41, 14 := 41, 15 := 41],
       size_shift := (size_shift t)[3 := 3, 4 := 3, 5 := 3, 6 := 3, 7 := 4, 8 := 5, 9 := 6,
            10 := 7, 11 := 8, 12 := 8, 13 := 8, 14 := 8, 15 := 8],
       class_to_size := (fold (\<lambda>(nc, sz, a, n) c. run_classes c nc sz a n)
            [(1, 8, 3, 1), (2, 16, 3, 2), (4, 32, 3, 4), (8, 64, 3, 8), (16, 128, 4, 8),
             (24, 256, 5, 8), (32, 512, 6, 8), (40, 1024, 7, 8), (48, 2048, 8, 8),
             (56, 4096, 8, 16), (72, 8192, 8, 32), (104, 16384, 8, 64)] (class_to_size t))[168 := 32768]\<rparr>)"
  using assms by (simp add: init_buckets init_last)

lemma nth_run_classes:
  assumes "nc + n \<le> length c" and "i < length c"
  shows "run_classes c nc (word_of_nat s) a n ! i =
    (if nc \<le> i \<and> i < nc + n then word_of_nat (s + (i - nc) * 2 ^ a) else c ! i)"
  using assms by (auto simp: run_classes_def nth_append min_def)

lemma init_class_to_size:
  "(fold (\<lambda>(nc, sz, a, n) c. run_classes c nc sz a n)
      [(1, 8, 3, 1), (2, 16, 3, 2), (4, 32, 3, 4), (8, 64, 3, 8), (16, 128, 4, 8),
       (24, 256, 5, 8), (32, 512, 6, 8), (40, 1024, 7, 8), (48, 2048, 8, 8),
       (56, 4096, 8, 16), (72, 8192, 8, 32), (104, 16384, 8, 64)] (replicate 170 0))[168 := 32768]
   = class_to_size ferp_tables"
  (is "?c[168 := 32768] = ?r")
proof (rule nth_equalityI)
  show "length (?c[168 := 32768]) = length ?r" by simp
next
  fix i assume "i < length (?c[168 := 32768])"
  then have i: "i < 170" by simp
  have nth: "run_classes c nc (numeral s) a n ! i =
      (if nc \<le> i \<and> i < nc + n then word_of_nat (numeral s + (i - nc) * 2 ^ a) else c ! i)"
    if "nc + n \<le> length c" "i < length c" for c nc s a n
    using nth_run_classes [OF that, of "numeral s" a] by simp
  have "?c ! i = (if i = 0 \<or> 168 \<le> i then 0 else word_of_nat (csize i))"
    using i by (simp add: nth csize_def cong: if_cong) (auto simp: not_le less_2_cases_iff)
  then show "?c[168 := 32768] ! i = ?r ! i"
    using i by (simp add: nth_list_update ferp_tables_def nth_append csize_def)
qed

lemma init_sizes:
  "InitSizeClasses_sizes kAlignment 1 kAlignShift (-1)
     (zero_tables\<lparr>size_base := [1, 1, 1] @ replicate 61 0, size_shift := [3, 3, 3] @ replicate 61 0\<rparr>)
   = Some (169, ferp_tables\<lparr>class_to_pages := replicate 170 0, num_objects_to_move := replicate 170 0\<rparr>)"
proof -
  let ?z = "zero_tables\<lparr>size_base := [1, 1, 1] @ replicate 61 0, size_shift := [3, 3, 3] @ replicate 61 0\<rparr>"
  have c: "class_to_size ?z = replicate 170 0"
    by (simp add: zero_tables_def kNumClasses_def)
  have len: "length (class_to_size ?z) = 170"
    unfolding c by simp
  show ?thesis
    unfolding kAlignment_def kAlignShift_def init_all_buckets [OF len] unfolding c init_class_to_size
    by (simp add: ferp_tables_def zero_tables_def kNumClasses_def numeral_eq_Suc)
qed

text \<open>The span size of a class, with the loop run in natural numbers.\<close>

lemma psize_loop:
  assumes "0 < s" and "k \<le> m" and "m < 1000" and "s < 2 ^ 16"
    and "4096 * m mod s \<le> 512 * m" and "\<And>j. k \<le> j \<Longrightarrow> j < m \<Longrightarrow> 512 * j < 4096 * j mod s"
  shows "InitSizeClasses_psize (word_of_nat s) (word_of_nat (4096 * k)) = Some (word_of_nat (4096 * m))"
  using assms(2,6)
proof (induction "m - k" arbitrary: k)
  have us: "unat (word_of_nat s :: u64) = s" using assms(4) by (simp add: unat_of_nat)
  have up: "unat (word_of_nat (4096 * j) :: u64) = 4096 * j" if "j \<le> m" for j
    using assms(3) that by (simp add: unat_of_nat del: of_nat_mult)
  have test: "(word_of_nat (4096 * j) mod word_of_nat s > drop_bit 3 (word_of_nat (4096 * j) :: u64))
      \<longleftrightarrow> 512 * j < 4096 * j mod s" if "j \<le> m" for j
    unfolding word_less_nat_alt unat_mod_distrib unat_drop_bit_div us up [OF that] by simp
  {
    case 0
    then have "k = m" by simp
    then show ?case using test [OF order.refl] assms(5)
      by (subst InitSizeClasses_psize.simps) simp
  next
    case (Suc d)
    then have k: "k < m" by simp
    then have "512 * k < 4096 * k mod s" using Suc.prems(2) [of k] by simp
    moreover have "InitSizeClasses_psize (word_of_nat s) (word_of_nat (4096 * Suc k)) = Some (word_of_nat (4096 * m))"
      by (rule Suc.hyps(1)) (use Suc.hyps(2) Suc.prems k in simp_all)
    moreover have "word_of_nat (4096 * Suc k) = (word_of_nat (4096 * k) + kPageSize :: u64)"
      by (simp add: kPageSize_def)
    ultimately show ?case using test [OF less_imp_le [OF k]]
      by (subst InitSizeClasses_psize.simps) (simp only: if_True)
  }
qed

definition page_count_ok :: "nat \<Rightarrow> nat \<Rightarrow> bool" where
  "page_count_ok s m \<longleftrightarrow> 0 < s \<and> 1 \<le> m \<and> m < 14 \<and> 4096 * m mod s \<le> 512 * m \<and> s \<le> 4096 * m
     \<and> 4096 * m < 2048 * s \<and> list_all (\<lambda>j. 512 * j < 4096 * j mod s) [1..<m]"

lemma ferp_pages_ok: "list_all (\<lambda>cl. page_count_ok (csize cl) (unat (ferp_pages ! cl))) [1..<169]"
proof -
  have split: "[1..<169] = 1 # [2..<169::nat]" "[1..<m] = (if 1 < m then 1 # [2..<m] else [])" for m :: nat
    by (simp_all add: upt_conv_Cons numeral_2_eq_2)
  show ?thesis
    unfolding split page_count_ok_def by (simp add: csize_def ferp_pages_def nth_append)
qed


text \<open>Filling \<open>class_to_pages\<close>: one independent loop per class.\<close>

lemma InitSizeClasses_pages_all:
  assumes "\<And>cl. cl \<in> set cls \<Longrightarrow> InitSizeClasses_psize (class_to_size t ! cl) kPageSize = Some (P cl)"
  shows "InitSizeClasses_pages cls t = Some (t\<lparr>class_to_pages :=
      fold (\<lambda>cl c. c[cl := drop_bit kPageShift (P cl)]) cls (class_to_pages t)\<rparr>)"
  using assms
proof (induction cls arbitrary: t)
  case Nil
  then show ?case by simp
next
  case (Cons cl cls)
  let ?t = "t\<lparr>class_to_pages := (class_to_pages t)[cl := drop_bit kPageShift (P cl)]\<rparr>"
  have "InitSizeClasses_pages cls ?t = Some (?t\<lparr>class_to_pages :=
      fold (\<lambda>cl c. c[cl := drop_bit kPageShift (P cl)]) cls (class_to_pages ?t)\<rparr>)"
    by (rule Cons.IH) (use Cons.prems in simp)
  then show ?case using Cons.prems [of cl] by simp
qed

lemma fold_list_update_nth:
  "distinct is \<Longrightarrow> i < length c \<Longrightarrow>
   fold (\<lambda>j c. c[j := f j]) is c ! i = (if i \<in> set is then f i else c ! i)"
  by (induction "is" arbitrary: c) auto

lemma length_fold_list_update: "length (fold (\<lambda>j c. c[j := f j]) is c) = length c"
  by (induction "is" arbitrary: c) auto

lemma ferp_page_count:
  assumes "1 \<le> cl" "cl \<le> 168"
  shows "page_count_ok (csize cl) (unat (class_to_pages ferp_tables ! cl))"
  using ferp_pages_ok assms by (simp add: list_all_iff ferp_tables_def)

lemma ferp_psize:
  assumes "1 \<le> cl" "cl \<le> 168"
  shows "InitSizeClasses_psize (class_to_size ferp_tables ! cl) kPageSize =
    Some (push_bit 12 (class_to_pages ferp_tables ! cl))"
proof -
  let ?m = "unat (class_to_pages ferp_tables ! cl)"
  have ok: "page_count_ok (csize cl) ?m" by (rule ferp_page_count [OF assms])
  have "InitSizeClasses_psize (word_of_nat (csize cl)) (word_of_nat (4096 * 1)) = Some (word_of_nat (4096 * ?m))"
    by (rule psize_loop) (use ok csize_bound [OF assms(2)] in
      \<open>auto simp: page_count_ok_def list_all_iff\<close>)
  then show ?thesis
    using assms by (simp add: class_to_size_ferp kPageSize_def push_bit_eq_mult)
qed

lemma init_pages:
  "InitSizeClasses_pages [1..<169]
     (ferp_tables\<lparr>class_to_pages := replicate 170 0, num_objects_to_move := replicate 170 0\<rparr>)
   = Some (ferp_tables\<lparr>num_objects_to_move := replicate 170 0\<rparr>)"
proof -
  let ?P = "\<lambda>cl. push_bit 12 (class_to_pages ferp_tables ! cl)"
  let ?f = "fold (\<lambda>cl c. c[cl := drop_bit kPageShift (?P cl)]) [1..<169] (replicate 170 0)"
  have "?f = class_to_pages ferp_tables"
  proof (rule nth_equalityI)
    show "length ?f = length (class_to_pages ferp_tables)"
      by (simp add: length_fold_list_update)
  next
    fix i assume "i < length ?f"
    then have i: "i < 170" by (simp add: length_fold_list_update)
    have out: "class_to_pages ferp_tables ! 0 = 0" "class_to_pages ferp_tables ! 169 = 0"
      by (simp_all add: ferp_tables_def ferp_pages_def nth_append)
    have bnd: "drop_bit 12 (?P cl) = class_to_pages ferp_tables ! cl" if "1 \<le> cl" "cl \<le> 168" for cl
    proof -
      have m: "unat (class_to_pages ferp_tables ! cl) < 14"
        using ferp_page_count [OF that] by (simp add: page_count_ok_def)
      then have "unat (?P cl) = unat (class_to_pages ferp_tables ! cl) * 2 ^ 12"
        by (intro unat_push_bit_no_wrap) simp
      then have "unat (drop_bit 12 (?P cl)) = unat (class_to_pages ferp_tables ! cl)"
        unfolding unat_drop_bit_div by simp
      then show ?thesis by (simp only: word_eq_iff_unat)
    qed
    have "i \<in> {1..<169} \<or> i = 0 \<or> i = 169" using i by auto
    then show "?f ! i = class_to_pages ferp_tables ! i"
      using i out bnd by (auto simp: fold_list_update_nth kPageShift_def)
  qed
  then show ?thesis
    by (subst InitSizeClasses_pages_all [where P = ?P]) (auto simp: ferp_psize)
qed

text \<open>The self-check reads only the first three arrays.\<close>

lemma check_cong:
  assumes "size_base t = size_base t'" "size_shift t = size_shift t'"
    and "class_to_size t = class_to_size t'"
  shows "InitSizeClasses_check t sz = InitSizeClasses_check t' sz"
  unfolding InitSizeClasses_check_def SizeClass_def assms ..

lemma ferp_check:
  assumes "unat sz \<le> 32768"
  shows "InitSizeClasses_check ferp_tables sz = Some ()"
proof -
  let ?c = "cclass (unat sz)"
  have c: "0 < ?c" "?c \<le> 168" using cclass_pos cclass_bound [OF assms] by auto
  have sc: "SizeClass ferp_tables sz = word_of_nat ?c" by (rule SizeClass_ferp [OF assms])
  have u: "unat (word_of_nat ?c :: u64) = ?c" using c by (simp add: unat_of_nat)
  have n0: "(word_of_nat ?c :: u64) \<noteq> 0" using u c by auto
  have u1: "unat (word_of_nat ?c - 1 :: u64) = ?c - 1"
    using n0 u by (simp add: unat_minus_one)
  have lower: "\<not> sz \<le> class_to_size ferp_tables ! (?c - 1)" if "1 < ?c"
    using csize_pred_cclass [OF that] unat_class_to_size_ferp [of "?c - 1"] c
    by (simp add: word_le_nat_alt)
  have signed: "1 <s (word_of_nat ?c :: u64) \<longleftrightarrow> 1 < ?c"
  proof -
    have "sint (word_of_nat ?c :: u64) = int ?c"
      using c u by (subst sint_u64_small) simp_all
    then show ?thesis by (simp add: word_sless_alt)
  qed
  have upper: "\<not> sz > class_to_size ferp_tables ! ?c"
    using csize_cclass [of "unat sz"] unat_class_to_size_ferp [of ?c] c
    by (simp add: word_less_nat_alt)
  have pos: "class_to_size ferp_tables ! ?c \<noteq> 0"
    using csize_pos [of ?c] unat_class_to_size_ferp [of ?c] c by (auto simp: word_eq_iff_unat)
  show ?thesis
    unfolding InitSizeClasses_check_def sc Let_def u u1 signed
    using n0 lower upper pos c by (simp add: kNumClasses_def)
qed

lemma checks_all:
  "(\<And>n. n \<in> set ns \<Longrightarrow> InitSizeClasses_check t (word_of_nat n) = Some ()) \<Longrightarrow>
   InitSizeClasses_checks ns t = Some ()"
  by (induction ns) auto

lemma ferp_num_objects:
  "0 # map (\<lambda>cl. NumMoveSize (ByteSizeForClass (ferp_tables\<lparr>num_objects_to_move := x\<rparr>) (word_of_nat cl)))
         [1..<170] = num_objects_to_move ferp_tables"
  (is "?l = ?r")
proof (rule nth_equalityI)
  show "length ?l = length ?r" by simp
next
  fix i assume "i < length ?l"
  then have i: "i < 170" by simp
  then have "unat (word_of_nat i :: u64) = i" by (simp add: unat_of_nat)
  with i show "?l ! i = ?r ! i"
    by (cases i) (auto simp: ferp_tables_def ByteSizeForClass_def nth_append NumMoveSize_def csize_def
        simp del: upt_Suc)
qed

lemma InitSizeClasses_ferp: "InitSizeClasses zero_tables = Some ferp_tables"
proof -
  let ?t2 = "ferp_tables\<lparr>num_objects_to_move := replicate 170 0\<rparr>"
  have base: "zero_tables\<lparr>size_base := fold (\<lambda>lg b. b[lg := 1]) [0..<kAlignShift] (size_base zero_tables),
      size_shift := fold (\<lambda>lg b. b[lg := word_of_nat kAlignShift]) [0..<kAlignShift] (size_shift zero_tables)\<rparr>
    = zero_tables\<lparr>size_base := [1, 1, 1] @ replicate 61 0, size_shift := [3, 3, 3] @ replicate 61 0\<rparr>"
    by (simp add: kAlignShift_def zero_tables_def kNumClasses_def numeral_3_eq_3 numeral_eq_Suc)
  have nk: "(kNumClasses \<le> 169) = False" by (simp add: kNumClasses_def)
  have checks: "InitSizeClasses_checks [0..<unat kMaxSize + 1] ?t2 = Some ()"
  proof (rule checks_all)
    fix n assume "n \<in> set [0..<unat kMaxSize + 1]"
    then have "n \<le> 32768" by (auto simp: kMaxSize_def kPageSize_def)
    then have "unat (word_of_nat n :: u64) \<le> 32768" by (simp add: unat_of_nat)
    then show "InitSizeClasses_check ?t2 (word_of_nat n) = Some ()"
      using ferp_check check_cong [of ?t2 ferp_tables] by simp
  qed
  have nums: "num_objects_to_move ?t2 ! 0 # map (\<lambda>cl. NumMoveSize (ByteSizeForClass ?t2 (word_of_nat cl)))
      [1..<kNumClasses] = num_objects_to_move ferp_tables"
    using ferp_num_objects [of "replicate 170 0"] by (simp add: kNumClasses_def)
  show ?thesis
    unfolding InitSizeClasses_def Let_def base init_sizes
    by (simp only: bind.bind_lunit prod.case nk if_False init_pages checks nums)
      simp
qed

end
