(* ===== verification/SizeSpec.thy ===== *)
theory SizeSpec
  imports SizeTables
begin

text \<open>
  The properties of the size-class arithmetic, over the closed form of the tables that
  \<open>SizeTables\<close> derives from \<open>InitSizeClasses\<close>.
\<close>

section \<open>Start-up\<close>

text \<open>
  C30. Start-up never aborts: on zeroed static storage \<open>InitSizeClasses\<close> runs both table loops,
  uses 169 of the 170 classes, passes all 32769 iterations of its self-check, and leaves the
  closed-form tables.
\<close>

theorem InitSizeClasses_builds_tables: "InitSizeClasses zero_tables = Some ferp_tables"
  by (rule InitSizeClasses_ferp)

section \<open>What the tables guarantee\<close>

text \<open>
  C32. For every request up to \<open>kMaxSize\<close> the class chosen through \<open>LgFloor\<close>, \<open>size_base\<close> and
  \<open>size_shift\<close> is a valid class whose objects are large enough, and every smaller class is too
  small: the lookup returns the smallest class that fits.
\<close>

theorem SizeClass_smallest_fit:
  assumes "sz \<le> kMaxSize" and "InitSizeClasses zero_tables = Some t"
  shows "let cl = unat (SizeClass t sz) in
           0 < cl \<and> cl < 169 \<and> sz \<le> class_to_size t ! cl
           \<and> list_all (\<lambda>c. class_to_size t ! c < sz) [1..<cl]"
proof -
  have t: "t = ferp_tables" using assms(2) InitSizeClasses_ferp by simp
  let ?c = "cclass (unat sz)"
  have sz: "unat sz \<le> 32768"
    using assms(1) by (simp add: word_le_nat_alt kMaxSize_def kPageSize_def)
  have c: "0 < ?c" "?c \<le> 168" using cclass_pos cclass_bound [OF sz] by auto
  have u: "unat (SizeClass t sz) = ?c"
    using c by (simp add: t SizeClass_ferp [OF sz] unat_of_nat)
  have "class_to_size ferp_tables ! k < sz" if "k \<in> set [1..<?c]" for k
  proof -
    have "csize k \<le> csize (?c - 1)"
      using that csize_mono [of k "?c - 1"]
      by (cases "k = ?c - 1") (use that in \<open>auto intro!: less_imp_le\<close>)
    with csize_pred_cclass [of "unat sz"] that have "csize k < unat sz" by simp
    then show ?thesis
      using that c unat_class_to_size_ferp [of k] by (simp add: word_less_nat_alt)
  qed
  then show ?thesis
    using c csize_cclass [of "unat sz"] unat_class_to_size_ferp [of ?c]
    unfolding u Let_def by (simp add: t word_le_nat_alt list_all_iff)
qed

lemma SizeClass_smallest_fit_witness:
  "(100 :: u64) \<le> kMaxSize \<and> 100 \<le> class_to_size ferp_tables ! unat (SizeClass ferp_tables 100)"
  using SizeClass_smallest_fit [OF _ InitSizeClasses_ferp, of 100]
  by (simp add: Let_def kMaxSize_def kPageSize_def)

text \<open>
  C33. A span of a class holds at least one object, loses at most an eighth of its bytes to the
  remainder, and holds fewer than 2048 objects, so the 11-bit \<open>refcount\<close> of the span never
  overflows.
\<close>

theorem class_span_geometry:
  assumes "1 \<le> cl" and "cl \<le> 168" and "InitSizeClasses zero_tables = Some t"
  shows "let s = unat (ByteSizeForClass t (word_of_nat cl));
             b = 4096 * unat (class_to_pages t ! cl)
         in 0 < s \<and> s \<le> b \<and> b mod s \<le> b div 8 \<and> b div s < 2048"
proof -
  have t: "t = ferp_tables" using assms(3) InitSizeClasses_ferp by simp
  have "unat (word_of_nat cl :: u64) = cl" using assms(2) by (simp add: unat_of_nat)
  then have s: "unat (ByteSizeForClass t (word_of_nat cl)) = csize cl"
    by (simp add: t ByteSizeForClass_def unat_class_to_size_ferp [OF assms(2)])
  have ok: "page_count_ok (csize cl) (unat (class_to_pages t ! cl))"
    unfolding t by (rule ferp_page_count [OF assms(1,2)])
  then show ?thesis
    unfolding s Let_def page_count_ok_def by (auto simp: div_less_iff_less_mult)
qed

lemma class_span_geometry_witness:
  "let s = unat (ByteSizeForClass ferp_tables (word_of_nat 36));
       b = 4096 * unat (class_to_pages ferp_tables ! 36)
   in 0 < s \<and> s \<le> b \<and> b mod s \<le> b div 8 \<and> b div s < 2048"
  by (rule class_span_geometry [OF _ _ InitSizeClasses_ferp]) simp_all

lemma LgFloor_steps_fst: "unat (fst (LgFloor_steps is n log)) \<noteq> 0 \<or> n = 0"
proof (induction "is" arbitrary: n log)
  case Nil
  then show ?case by (simp add: unat_eq_0)
next
  case (Cons i "is")
  then show ?case by (auto simp: Let_def)
qed

lemma LgFloor_steps_not_one:
  assumes "\<not> (n \<noteq> 0 \<and> unat n < 2 ^ 32)"
  shows "fst (LgFloor_steps [4, 3, 2, 1, 0] n log) \<noteq> 1"
proof (cases "n = 0")
  case True
  then show ?thesis by (simp add: Let_def)
next
  case False
  then have n: "2 ^ 32 \<le> unat n" using assms by simp
  have nz: "drop_bit s n \<noteq> 0" if "s \<le> 32" for s
  proof -
    have "(2::nat) ^ s \<le> 2 ^ 32" using that by (intro power_increasing) simp_all
    then have "unat (drop_bit s n) \<noteq> 0"
      using n unfolding unat_drop_bit_div by (simp add: div_eq_0_iff)
    then show ?thesis by auto
  qed
  have "LgFloor_steps [4, 3, 2, 1, 0] n log = (drop_bit 31 n, log + 31)"
    using nz by (simp add: Let_def)
  moreover have "drop_bit 31 n \<noteq> 1"
  proof
    assume "drop_bit 31 n = 1"
    then have "unat n div 2 ^ 31 = 1" using unat_drop_bit_div [of 31 n] by simp
    with n show False by simp
  qed
  ultimately show ?thesis by (simp del: LgFloor_steps.simps)
qed

text \<open>
  The portable \<open>LgFloor\<close> returns what the \<open>bsr\<close> version returns on every non-zero value
  below \<open>2 ^ 32\<close>, and aborts on all others: its five halving steps only cover 32 bits.
\<close>

theorem LgFloor_portable_agrees:
  "LgFloor_portable n = (if n \<noteq> 0 \<and> unat n < 2 ^ 32 then Some (LgFloor n) else None)"
proof (cases "n \<noteq> 0 \<and> unat n < 2 ^ 32")
  case True
  have "[4, 3, 2, 1, 0] = rev [0..<5::nat]" by (simp add: upt_rec)
  then have "LgFloor_steps [4, 3, 2, 1, 0] n 0 = (1, 0 + LgFloor n)"
    using True by (intro LgFloor_steps_spec) simp_all
  with True show ?thesis by (simp add: LgFloor_portable_def)
next
  case False
  have "fst (LgFloor_steps [4, 3, 2, 1, 0] n 0) \<noteq> 1"
    by (rule LgFloor_steps_not_one [OF False])
  with False show ?thesis by (simp add: LgFloor_portable_def case_prod_beta)
qed

lemma mod_after_wrap:
  fixes b k M :: nat
  assumes "b < M" and "\<not> b + k < M" and "k \<le> M"
  shows "(b + k) mod M = b + k - M"
  using assms by (simp add: le_mod_geq)

lemma pages_unat:
  "unat (pages bytes) = (if unat bytes + 4095 < 2 ^ 64 then (unat bytes + 4095) div 4096 else 0)"
proof -
  have e: "bytes + kPageSize - 1 = bytes + 4095" by (simp add: kPageSize_def)
  have lt: "unat bytes < 2 ^ 64" by simp
  have u: "unat (bytes + 4095) = (unat bytes + 4095) mod 2 ^ 64"
    by (simp add: unat_word_ariths)
  have "(unat bytes + 4095) mod 2 ^ 64 div 4096 =
      (if unat bytes + 4095 < 2 ^ 64 then (unat bytes + 4095) div 4096 else 0)"
  proof (cases "unat bytes + 4095 < 2 ^ 64")
    case False
    then have "(unat bytes + 4095) mod 2 ^ 64 = unat bytes + 4095 - 2 ^ 64"
      by (intro mod_after_wrap [OF lt]) simp_all
    moreover have "unat bytes + 4095 - 2 ^ 64 < 4096"
      using unat_u64_less [of bytes] by (simp del: unat_u64_less)
    ultimately show ?thesis using False by simp
  qed simp
  then show ?thesis
    unfolding pages_def e unat_drop_bit_div kPageShift_def u by simp
qed

text \<open>
  \<open>pages\<close> is the exact number of pages that cover a request, except for the last 4095
  sizes of the address space, where the rounding addition wraps and the result is 0.
\<close>

theorem pages_exact:
  "unat (pages bytes) = (if unat bytes + 4095 < 2 ^ 64 then (unat bytes + 4095) div 4096 else 0)"
  by (rule pages_unat)

text \<open>
  The usable size reported for a request is never below the request, and for requests
  served by the page heap it exceeds it by less than a page.
\<close>

theorem AllocationSize_covers:
  assumes "unat bytes + 4095 < 2 ^ 64" and "InitSizeClasses zero_tables = Some t"
  shows "bytes \<le> AllocationSize t bytes \<and>
    (kMaxSize < bytes \<longrightarrow> unat (AllocationSize t bytes) < unat bytes + 4096)"
proof (cases "kMaxSize < bytes")
  case True
  have p: "unat (pages bytes) = (unat bytes + 4095) div 4096"
    using assms(1) by (simp add: pages_unat)
  have "unat (pages bytes) * 2 ^ 12 < 2 ^ 64"
    using assms(1) div_times_less_eq_dividend [of "unat bytes + 4095" 4096] unfolding p by (simp del: div_times_less_eq_dividend)
  then have u: "unat (push_bit 12 (pages bytes)) = unat (pages bytes) * 2 ^ 12"
    by (intro unat_push_bit_no_wrap) simp
  have "unat bytes \<le> (unat bytes + 4095) div 4096 * 4096
      \<and> (unat bytes + 4095) div 4096 * 4096 < unat bytes + 4096" by linarith
  then show ?thesis using True u p
    by (simp add: AllocationSize_def kPageShift_def word_le_nat_alt)
next
  case False
  have t: "t = ferp_tables" using assms(2) InitSizeClasses_ferp by simp
  have sz: "unat bytes \<le> 32768"
    using False by (simp add: word_less_nat_alt kMaxSize_def kPageSize_def)
  have "cclass (unat bytes) \<le> 168" by (rule cclass_bound [OF sz])
  then have "unat (AllocationSize t bytes) = csize (cclass (unat bytes))"
    using False by (simp add: AllocationSize_def t SizeClass_ferp [OF sz] ByteSizeForClass_def
        unat_of_nat unat_class_to_size_ferp)
  then show ?thesis using False csize_cclass [of "unat bytes"] by (simp add: word_le_nat_alt)
qed

lemma AllocationSize_covers_witness:
  "(50000 :: u64) \<le> AllocationSize ferp_tables 50000"
  using AllocationSize_covers [OF _ InitSizeClasses_ferp, of 50000] by simp

end
