(* ===== verification/PageMap.thy ===== *)
theory PageMap
  imports Prelude
begin

text \<open>
  The page maps of \<open>pagemap.hpp\<close>: \<open>TCMalloc_PageMap1\<close> (a flat array), \<open>TCMalloc_PageMap2\<close>
  (a root array of leaves) and \<open>TCMalloc_PageMap3\<close> (root, interior nodes, leaves), for any key
  width \<open>BITS\<close>.

  An array is a function of its index; a pointer to a node or leaf is an \<open>option\<close>, \<open>None\<close>
  for \<open>NULL\<close>, so that a \<open>get\<close> or \<open>set\<close> through a missing leaf is abnormal termination, as
  is an index outside an array. Stored values have the null pointer as \<open>0\<close>. The allocator the
  maps are constructed with is a function \<open>alloc :: u64 \<Rightarrow> 's \<Rightarrow> u64 \<times> 's\<close> from the byte
  count to an address, 0 for failure, and the new state of the allocator.

  The locale \<open>page_map\<close> is the interface the page heap relies on; all three maps implement it.
\<close>

section \<open>The interface\<close>

locale page_map =
  fixes get :: "'m \<Rightarrow> u64 \<Rightarrow> 'v option"
    and set :: "'m \<Rightarrow> u64 \<Rightarrow> 'v \<Rightarrow> 'm option"
  assumes set_None_iff: "set pm k v = None \<longleftrightarrow> get pm k = None"
    and get_set: "set pm k v = Some pm' \<Longrightarrow> get pm' j = (if j = k then Some v else get pm j)"
begin

lemma set_Some: "get pm k \<noteq> None \<Longrightarrow> \<exists>pm'. set pm k v = Some pm'"
  using set_None_iff [of pm k v] by auto

lemma dom_set: "set pm k v = Some pm' \<Longrightarrow> dom (get pm') = dom (get pm)"
  using set_None_iff [of pm k v] by (auto simp: dom_def get_set)

text \<open>Writing one value at every key of a list, as \<open>RegisterSizeClass\<close> does.\<close>

fun set_all :: "u64 list \<Rightarrow> 'v \<Rightarrow> 'm \<Rightarrow> 'm option" where
  "set_all [] v pm = Some pm"
| "set_all (k # ks) v pm = Option.bind (set pm k v) (set_all ks v)"

lemma set_all_Some: "\<forall>k \<in> List.set ks. get pm k \<noteq> None \<Longrightarrow> \<exists>pm'. set_all ks v pm = Some pm'"
proof (induction ks arbitrary: pm)
  case (Cons k ks)
  then obtain pm1 where pm1: "set pm k v = Some pm1" using set_Some by fastforce
  then have "\<forall>k \<in> List.set ks. get pm1 k \<noteq> None"
    using Cons.prems get_set by auto
  with Cons.IH pm1 show ?case by simp
qed simp

lemma get_set_all:
  "set_all ks v pm = Some pm' \<Longrightarrow>
   get pm' j = (if j \<in> List.set ks then Some v else get pm j)"
  by (induction ks arbitrary: pm) (auto simp: get_set Option.bind_eq_Some_conv)

end

section \<open>Index arithmetic\<close>

lemma and_mask_take_bit: "(x :: u64) AND (2 ^ n - 1) = take_bit n x"
  by (simp add: take_bit_eq_mask mask_eq_exp_minus_1)

lemma eq_by_parts:
  "drop_bit n (j :: u64) = drop_bit n k \<Longrightarrow> take_bit n j = take_bit n k \<Longrightarrow> j = k"
  by (metis bits_ident)

lemma drop_bit_eq_0_iff: "drop_bit n (k :: u64) = 0 \<longleftrightarrow> unat k < 2 ^ n"
  unfolding word_eq_iff_unat unat_drop_bit_div by (simp add: div_eq_0_iff)

lemma drop_bit_small:
  assumes "drop_bit (m + n) (k :: u64) = 0"
  shows "unat (drop_bit n k) < 2 ^ m"
  using assms unfolding drop_bit_eq_0_iff unat_drop_bit_div
  by (simp add: power_add less_mult_imp_div_less)

section \<open>The flat map\<close>

record 'v PageMap1 =
  array_1 :: "u64 \<Rightarrow> 'v"

definition PageMap1_init :: "(u64 \<Rightarrow> 's \<Rightarrow> u64 \<times> 's) \<Rightarrow> nat \<Rightarrow> 's \<Rightarrow> ('v::zero PageMap1 \<times> 's) option" where
  "PageMap1_init alloc BITS s =
     (let (p, s) = alloc (push_bit BITS 8) s
      in do { ASSERT (p \<noteq> 0); Some (\<lparr>array_1 = \<lambda>_. 0\<rparr>, s) })"

definition PageMap1_get :: "nat \<Rightarrow> 'v PageMap1 \<Rightarrow> u64 \<Rightarrow> 'v option" where
  "PageMap1_get BITS pm k = do { ASSERT (unat k < 2 ^ BITS); Some (array_1 pm k) }"

definition PageMap1_set :: "nat \<Rightarrow> 'v PageMap1 \<Rightarrow> u64 \<Rightarrow> 'v \<Rightarrow> 'v PageMap1 option" where
  "PageMap1_set BITS pm k v =
     do { ASSERT (unat k < 2 ^ BITS); Some (pm\<lparr>array_1 := (array_1 pm)(k := v)\<rparr>) }"

definition PageMap1_Ensure :: "u64 \<Rightarrow> u64 \<Rightarrow> 'v PageMap1 \<Rightarrow> 's \<Rightarrow> (bool \<times> 'v PageMap1 \<times> 's) option" where
  "PageMap1_Ensure x n pm s = Some (True, pm, s)"

definition PageMap1_PreallocateMoreMemory :: "'v PageMap1 \<Rightarrow> 's \<Rightarrow> ('v PageMap1 \<times> 's) option" where
  "PageMap1_PreallocateMoreMemory pm s = Some (pm, s)"

interpretation pm1: page_map "PageMap1_get BITS" "PageMap1_set BITS" for BITS
  by unfold_locales (auto simp: PageMap1_get_def PageMap1_set_def ASSERT_def split: if_splits)

section \<open>The loop of \<open>Ensure\<close>\<close>

text \<open>
  \<open>Ensure\<close> of the two- and three-level maps visits the first key of the range and then the
  first key of each following leaf, while the key is at most \<open>start + n - 1\<close>. The body of the
  loop makes the leaf of one key exist; it returns \<open>False\<close> when the allocator fails.
\<close>

partial_function (option) Ensure_loop ::
  "(u64 \<Rightarrow> 'st \<Rightarrow> (bool \<times> 'st) option) \<Rightarrow> nat \<Rightarrow> u64 \<Rightarrow> u64 \<Rightarrow> 'st \<Rightarrow> (bool \<times> 'st) option" where
  "Ensure_loop body LEAF_BITS key lst st =
     (if key \<le> lst then
        Option.bind (body key st) (\<lambda>(ok, st).
          if ok then Ensure_loop body LEAF_BITS (push_bit LEAF_BITS (drop_bit LEAF_BITS key + 1)) lst st
          else Some (False, st))
      else Some (True, st))"

declare Ensure_loop.simps [code]

section \<open>The two-level map\<close>

record 'v PageMap2 =
  root_2 :: "u64 \<Rightarrow> (u64 \<Rightarrow> 'v) option"

definition ROOT_BITS :: nat where "ROOT_BITS = 5"
definition LEAF_BITS_2 :: "nat \<Rightarrow> nat" where "LEAF_BITS_2 BITS = BITS - ROOT_BITS"

definition PageMap2_init :: "'v PageMap2" where
  "PageMap2_init = \<lparr>root_2 = \<lambda>_. None\<rparr>"

definition PageMap2_get :: "nat \<Rightarrow> 'v PageMap2 \<Rightarrow> u64 \<Rightarrow> 'v option" where
  "PageMap2_get BITS pm k = do {
     ASSERT (drop_bit BITS k = 0);
     let i1 = drop_bit (LEAF_BITS_2 BITS) k;
     let i2 = k AND (push_bit (LEAF_BITS_2 BITS) 1 - 1);
     leaf \<leftarrow> root_2 pm i1;
     Some (leaf i2) }"

definition PageMap2_set :: "nat \<Rightarrow> 'v PageMap2 \<Rightarrow> u64 \<Rightarrow> 'v \<Rightarrow> 'v PageMap2 option" where
  "PageMap2_set BITS pm k v = do {
     ASSERT (drop_bit BITS k = 0);
     let i1 = drop_bit (LEAF_BITS_2 BITS) k;
     let i2 = k AND (push_bit (LEAF_BITS_2 BITS) 1 - 1);
     leaf \<leftarrow> root_2 pm i1;
     Some (pm\<lparr>root_2 := (root_2 pm)(i1 := Some (leaf(i2 := v)))\<rparr>) }"

definition PageMap2_Ensure_body ::
  "(u64 \<Rightarrow> 's \<Rightarrow> u64 \<times> 's) \<Rightarrow> nat \<Rightarrow> u64 \<Rightarrow> 'v::zero PageMap2 \<times> 's \<Rightarrow> (bool \<times> 'v PageMap2 \<times> 's) option" where
  "PageMap2_Ensure_body alloc BITS key = (\<lambda>(pm, s). do {
     let i1 = drop_bit (LEAF_BITS_2 BITS) key;
     ASSERT (unat i1 < 2 ^ ROOT_BITS);
     case root_2 pm i1 of
       Some leaf \<Rightarrow> Some (True, pm, s)
     | None \<Rightarrow>
         (let (p, s) = alloc (push_bit (LEAF_BITS_2 BITS) 8) s
          in if p = 0 then Some (False, pm, s)
             else Some (True, pm\<lparr>root_2 := (root_2 pm)(i1 := Some (\<lambda>_. 0))\<rparr>, s)) })"

definition PageMap2_Ensure ::
  "(u64 \<Rightarrow> 's \<Rightarrow> u64 \<times> 's) \<Rightarrow> nat \<Rightarrow> u64 \<Rightarrow> u64 \<Rightarrow> 'v::zero PageMap2 \<Rightarrow> 's \<Rightarrow>
   (bool \<times> 'v PageMap2 \<times> 's) option" where
  "PageMap2_Ensure alloc BITS start n pm s =
     Ensure_loop (PageMap2_Ensure_body alloc BITS) (LEAF_BITS_2 BITS) start (start + n - 1) (pm, s)"

definition PageMap2_PreallocateMoreMemory ::
  "(u64 \<Rightarrow> 's \<Rightarrow> u64 \<times> 's) \<Rightarrow> nat \<Rightarrow> 'v::zero PageMap2 \<Rightarrow> 's \<Rightarrow> ('v PageMap2 \<times> 's) option" where
  "PageMap2_PreallocateMoreMemory alloc BITS pm s =
     map_option snd (PageMap2_Ensure alloc BITS 0 (push_bit BITS 1) pm s)"

interpretation pm2: page_map "PageMap2_get BITS" "PageMap2_set BITS" for BITS
proof unfold_locales
  show "PageMap2_set BITS pm k v = None \<longleftrightarrow> PageMap2_get BITS pm k = None" for pm :: "'v PageMap2" and k v
    by (simp add: PageMap2_get_def PageMap2_set_def ASSERT_def Let_def Option.bind_eq_None_conv)
next
  fix pm pm' :: "'v PageMap2" and k v j
  assume "PageMap2_set BITS pm k v = Some pm'"
  then show "PageMap2_get BITS pm' j = (if j = k then Some v else PageMap2_get BITS pm j)"
    using eq_by_parts [of "LEAF_BITS_2 BITS" j k]
    by (auto simp: PageMap2_get_def PageMap2_set_def and_mask_take_bit ASSERT_def Let_def Option.bind_eq_Some_conv
        split: if_splits)
qed

section \<open>The three-level map\<close>

record 'v PageMap3 =
  root_3 :: "(u64 \<Rightarrow> (u64 \<Rightarrow> (u64 \<Rightarrow> 'v) option) option) option"

definition INTERIOR_BITS :: "nat \<Rightarrow> nat" where "INTERIOR_BITS BITS = (BITS + 2) div 3"
definition LEAF_BITS_3 :: "nat \<Rightarrow> nat" where "LEAF_BITS_3 BITS = BITS - 2 * INTERIOR_BITS BITS"

definition PageMap3_NewNode ::
  "(u64 \<Rightarrow> 's \<Rightarrow> u64 \<times> 's) \<Rightarrow> nat \<Rightarrow> 's \<Rightarrow> (u64 \<Rightarrow> 'a option) option \<times> 's" where
  "PageMap3_NewNode alloc BITS s =
     (let (result, s) = alloc (push_bit (INTERIOR_BITS BITS) 8) s
      in (if result \<noteq> 0 then Some (\<lambda>_. None) else None, s))"

definition PageMap3_init :: "(u64 \<Rightarrow> 's \<Rightarrow> u64 \<times> 's) \<Rightarrow> nat \<Rightarrow> 's \<Rightarrow> 'v PageMap3 \<times> 's" where
  "PageMap3_init alloc BITS s =
     (let (root, s) = PageMap3_NewNode alloc BITS s in (\<lparr>root_3 = root\<rparr>, s))"

definition PageMap3_get :: "nat \<Rightarrow> 'v PageMap3 \<Rightarrow> u64 \<Rightarrow> 'v option" where
  "PageMap3_get BITS pm k = do {
     ASSERT (drop_bit BITS k = 0);
     let i1 = drop_bit (LEAF_BITS_3 BITS + INTERIOR_BITS BITS) k;
     let i2 = drop_bit (LEAF_BITS_3 BITS) k AND (push_bit (INTERIOR_BITS BITS) 1 - 1);
     let i3 = k AND (push_bit (LEAF_BITS_3 BITS) 1 - 1);
     root \<leftarrow> root_3 pm;
     node \<leftarrow> root i1;
     leaf \<leftarrow> node i2;
     Some (leaf i3) }"

definition PageMap3_set :: "nat \<Rightarrow> 'v PageMap3 \<Rightarrow> u64 \<Rightarrow> 'v \<Rightarrow> 'v PageMap3 option" where
  "PageMap3_set BITS pm k v = do {
     ASSERT (drop_bit BITS k = 0);
     let i1 = drop_bit (LEAF_BITS_3 BITS + INTERIOR_BITS BITS) k;
     let i2 = drop_bit (LEAF_BITS_3 BITS) k AND (push_bit (INTERIOR_BITS BITS) 1 - 1);
     let i3 = k AND (push_bit (LEAF_BITS_3 BITS) 1 - 1);
     root \<leftarrow> root_3 pm;
     node \<leftarrow> root i1;
     leaf \<leftarrow> node i2;
     Some (pm\<lparr>root_3 := Some (root(i1 := Some (node(i2 := Some (leaf(i3 := v))))))\<rparr>) }"

definition PageMap3_Ensure_body ::
  "(u64 \<Rightarrow> 's \<Rightarrow> u64 \<times> 's) \<Rightarrow> nat \<Rightarrow> u64 \<Rightarrow> 'v::zero PageMap3 \<times> 's \<Rightarrow> (bool \<times> 'v PageMap3 \<times> 's) option" where
  "PageMap3_Ensure_body alloc BITS key = (\<lambda>(pm, s). do {
     let i1 = drop_bit (LEAF_BITS_3 BITS + INTERIOR_BITS BITS) key;
     let i2 = drop_bit (LEAF_BITS_3 BITS) key AND (push_bit (INTERIOR_BITS BITS) 1 - 1);
     root \<leftarrow> root_3 pm;
     ASSERT (unat i1 < 2 ^ INTERIOR_BITS BITS);
     let (n, s) = (case root i1 of Some n \<Rightarrow> (Some n, s) | None \<Rightarrow> PageMap3_NewNode alloc BITS s);
     case n of
       None \<Rightarrow> Some (False, pm, s)
     | Some node \<Rightarrow>
         (case node i2 of
            Some leaf \<Rightarrow> Some (True, pm\<lparr>root_3 := Some (root(i1 := Some node))\<rparr>, s)
          | None \<Rightarrow>
              (let (p, s) = alloc (push_bit (LEAF_BITS_3 BITS) 8) s
               in if p = 0 then Some (False, pm\<lparr>root_3 := Some (root(i1 := Some node))\<rparr>, s)
                  else Some (True, pm\<lparr>root_3 := Some (root(i1 := Some (node(i2 := Some (\<lambda>_. 0)))))\<rparr>, s))) })"

definition PageMap3_Ensure ::
  "(u64 \<Rightarrow> 's \<Rightarrow> u64 \<times> 's) \<Rightarrow> nat \<Rightarrow> u64 \<Rightarrow> u64 \<Rightarrow> 'v::zero PageMap3 \<Rightarrow> 's \<Rightarrow>
   (bool \<times> 'v PageMap3 \<times> 's) option" where
  "PageMap3_Ensure alloc BITS start n pm s =
     Ensure_loop (PageMap3_Ensure_body alloc BITS) (LEAF_BITS_3 BITS) start (start + n - 1) (pm, s)"

definition PageMap3_PreallocateMoreMemory :: "'v PageMap3 \<Rightarrow> 's \<Rightarrow> ('v PageMap3 \<times> 's) option" where
  "PageMap3_PreallocateMoreMemory pm s = Some (pm, s)"

lemma PageMap3_index_eq:
  "drop_bit (LEAF_BITS_3 BITS + INTERIOR_BITS BITS) j = drop_bit (LEAF_BITS_3 BITS + INTERIOR_BITS BITS) k \<Longrightarrow>
   take_bit (INTERIOR_BITS BITS) (drop_bit (LEAF_BITS_3 BITS) j) = take_bit (INTERIOR_BITS BITS) (drop_bit (LEAF_BITS_3 BITS) k) \<Longrightarrow>
   take_bit (LEAF_BITS_3 BITS) j = take_bit (LEAF_BITS_3 BITS) k \<Longrightarrow> j = (k :: u64)"
  by (rule eq_by_parts [of "LEAF_BITS_3 BITS"], rule eq_by_parts [of "INTERIOR_BITS BITS"])
    (simp_all add: add.commute)

lemma PageMap3_setE:
  assumes "PageMap3_set BITS pm k v = Some pm'"
  defines "i1 \<equiv> drop_bit (LEAF_BITS_3 BITS + INTERIOR_BITS BITS)"
    and "i2 \<equiv> \<lambda>k. take_bit (INTERIOR_BITS BITS) (drop_bit (LEAF_BITS_3 BITS) k)"
    and "i3 \<equiv> take_bit (LEAF_BITS_3 BITS)"
  obtains root node leaf where "drop_bit BITS k = 0" "root_3 pm = Some root" "root (i1 k) = Some node"
    "node (i2 k) = Some leaf"
    "root_3 pm' = Some (root(i1 k := Some (node(i2 k := Some (leaf(i3 k := v))))))"
  using assms(1) that unfolding PageMap3_set_def i1_def i2_def i3_def
  by (auto simp: Let_def and_mask_take_bit Option.bind_eq_Some_conv)

lemma PageMap3_get_take_bit:
  "PageMap3_get BITS pm k = (if drop_bit BITS k = 0 then
     Option.bind (root_3 pm) (\<lambda>root.
     Option.bind (root (drop_bit (LEAF_BITS_3 BITS + INTERIOR_BITS BITS) k)) (\<lambda>node.
     Option.bind (node (take_bit (INTERIOR_BITS BITS) (drop_bit (LEAF_BITS_3 BITS) k))) (\<lambda>leaf.
     Some (leaf (take_bit (LEAF_BITS_3 BITS) k))))) else None)"
  by (simp add: PageMap3_get_def Let_def and_mask_take_bit ASSERT_def)

interpretation pm3: page_map "PageMap3_get BITS" "PageMap3_set BITS" for BITS
proof unfold_locales
  show "PageMap3_set BITS pm k v = None \<longleftrightarrow> PageMap3_get BITS pm k = None" for pm :: "'v PageMap3" and k v
    by (simp add: PageMap3_get_def PageMap3_set_def ASSERT_def Let_def Option.bind_eq_None_conv)
next
  fix pm pm' :: "'v PageMap3" and k v j
  assume set: "PageMap3_set BITS pm k v = Some pm'"
  show "PageMap3_get BITS pm' j = (if j = k then Some v else PageMap3_get BITS pm j)"
  proof (cases "j = k")
    case True
    with set show ?thesis
      by (elim PageMap3_setE) (simp add: PageMap3_get_take_bit)
  next
    case False
    with set show ?thesis
      using PageMap3_index_eq [of BITS j k]
      by (elim PageMap3_setE) (simp only: PageMap3_get_take_bit fun_upd_apply bind.simps split: if_split, fastforce)
  qed
qed


section \<open>What \<open>Ensure\<close> guarantees\<close>

text \<open>
  A map after \<open>Ensure\<close>: every stored value is kept, and a key that had no leaf either still
  has none or reads as null.
\<close>

definition extends_zero :: "(u64 \<Rightarrow> 'v::zero option) \<Rightarrow> (u64 \<Rightarrow> 'v option) \<Rightarrow> bool" where
  "extends_zero g g' \<longleftrightarrow> (\<forall>k. g' k = g k \<or> (g k = None \<and> g' k = Some 0))"

lemma extends_zero_refl [simp]: "extends_zero g g"
  by (simp add: extends_zero_def)

lemma extends_zero_trans: "extends_zero g h \<Longrightarrow> extends_zero h i \<Longrightarrow> extends_zero g i"
  unfolding extends_zero_def by metis

lemma extends_zero_keeps: "extends_zero g g' \<Longrightarrow> g k = Some v \<Longrightarrow> g' k = Some v"
  unfolding extends_zero_def by (metis option.distinct(1))

text \<open>
  The loop as a whole, from what one iteration does: \<open>R\<close> is an invariant of the state, \<open>S\<close>
  relates the states before and after, \<open>C\<close> says that the leaf of a key is there.
\<close>

lemma next_leaf:
  fixes key :: u64
  assumes "unat key < 2 ^ 63" and "lb \<le> 62"
  defines "nxt \<equiv> push_bit lb (drop_bit lb key + 1)"
  shows "unat nxt = (unat key div 2 ^ lb + 1) * 2 ^ lb" and "key < nxt"
    and "k \<ge> key \<Longrightarrow> k < nxt \<Longrightarrow> drop_bit lb k = drop_bit lb key"
proof -
  have p: "(2::nat) ^ lb \<le> 2 ^ 62" using assms(2) by (intro power_increasing) simp_all
  have d: "unat (drop_bit lb key + 1) = unat key div 2 ^ lb + 1"
    using assms(1) div_le_dividend [of "unat key" "2 ^ lb"]
    by (subst unat_plus_no_wrap) (simp_all add: unat_drop_bit_div del: div_le_dividend, linarith?)
  have m: "unat key div 2 ^ lb * 2 ^ lb \<le> unat key" by simp
  have b: "(unat key div 2 ^ lb + 1) * 2 ^ lb < 2 ^ 64"
    using m p assms(1) unfolding distrib_right mult_1 by (simp del: div_times_less_eq_dividend)
  show u: "unat nxt = (unat key div 2 ^ lb + 1) * 2 ^ lb"
    using b unat_push_bit_no_wrap [of "drop_bit lb key + 1" lb] unfolding nxt_def d by simp
  have lt: "unat key < (unat key div 2 ^ lb + 1) * 2 ^ lb"
    using dividend_less_div_times [of "2 ^ lb" "unat key"] by (simp add: algebra_simps)
  then show "key < nxt" by (simp add: word_less_nat_alt u)
  show "drop_bit lb k = drop_bit lb key" if "k \<ge> key" "k < nxt"
  proof -
    have k: "unat key \<le> unat k" "unat k < (unat key div 2 ^ lb + 1) * 2 ^ lb"
      using that by (simp_all add: word_le_nat_alt word_less_nat_alt u)
    have "unat key div 2 ^ lb \<le> unat k div 2 ^ lb" using k(1) by (rule div_le_mono)
    moreover have "unat k div 2 ^ lb < unat key div 2 ^ lb + 1"
      using k(2) by (rule less_mult_imp_div_less)
    ultimately show ?thesis by (simp add: word_eq_iff_unat unat_drop_bit_div)
  qed
qed

lemma Ensure_loop_spec:
  assumes body: "\<And>key st. R st \<Longrightarrow> key \<le> lst \<Longrightarrow>
      \<exists>ok st'. body key st = Some (ok, st') \<and> R st' \<and> S st st' \<and> (ok \<longrightarrow> C st' (drop_bit lb key))"
    and refl: "\<And>st. S st st" and trans: "\<And>a b c. S a b \<Longrightarrow> S b c \<Longrightarrow> S a c"
    and mono: "\<And>a b q. S a b \<Longrightarrow> C a q \<Longrightarrow> C b q"
    and lst: "unat lst < 2 ^ 63" and lb: "lb \<le> 62" and R: "R st"
  shows "\<exists>ok st'. Ensure_loop body lb key lst st = Some (ok, st') \<and> R st' \<and> S st st'
    \<and> (ok \<longrightarrow> (\<forall>k. key \<le> k \<and> k \<le> lst \<longrightarrow> C st' (drop_bit lb k)))"
  using R
proof (induction "unat lst + 1 - unat key" arbitrary: key st rule: less_induct)
  case less
  show ?case
  proof (cases "key \<le> lst")
    case False
    then show ?thesis
      by (subst Ensure_loop.simps) (use less.prems refl in \<open>auto dest: order_trans\<close>)
  next
    case True
    let ?nxt = "push_bit lb (drop_bit lb key + 1)"
    obtain ok st1 where b: "body key st = Some (ok, st1)" "R st1" "S st st1"
      "ok \<Longrightarrow> C st1 (drop_bit lb key)" using body [OF less.prems True] by blast
    have key: "unat key < 2 ^ 63" using True lst by (simp add: word_le_nat_alt)
    note nl = next_leaf [OF key lb]
    show ?thesis
    proof (cases ok)
      case False
      then show ?thesis using b True by (subst Ensure_loop.simps) auto
    next
      case True': True
      have "unat lst + 1 - unat ?nxt < unat lst + 1 - unat key"
        using nl(2) True by (simp add: word_less_nat_alt word_le_nat_alt)
      from less.hyps [OF this b(2)] obtain ok' st' where
        l: "Ensure_loop body lb ?nxt lst st1 = Some (ok', st')" "R st'" "S st1 st'"
          "ok' \<Longrightarrow> \<forall>k. ?nxt \<le> k \<and> k \<le> lst \<longrightarrow> C st' (drop_bit lb k)" by blast
      have c: "C st' (drop_bit lb k)" if "ok'" "key \<le> k" "k \<le> lst" for k
      proof (cases "?nxt \<le> k")
        case False
        then have "drop_bit lb k = drop_bit lb key" using nl(3) [OF that(2)] by (simp only: not_le)
        then show ?thesis using mono [OF l(3) b(4) [OF True']] by (simp only:)
      qed (use l(4) that in blast)
      have e: "Ensure_loop body lb key lst st = Some (ok', st')"
        using l(1) True' by (subst Ensure_loop.simps) (simp add: b(1) True)
      have "S st st'" by (rule trans [OF b(3) l(3)])
      with e c l(2) show ?thesis by blast
    qed
  qed
qed

lemma bits_3: "2 \<le> BITS \<Longrightarrow> LEAF_BITS_3 BITS + INTERIOR_BITS BITS + INTERIOR_BITS BITS = BITS"
  unfolding LEAF_BITS_3_def INTERIOR_BITS_def by linarith

text \<open>The sizes that \<open>Ensure\<close> asks the allocator for.\<close>

definition node_sizes :: "nat \<Rightarrow> u64 set" where
  "node_sizes BITS = {push_bit (INTERIOR_BITS BITS) 8, push_bit (LEAF_BITS_3 BITS) 8}"

lemma PageMap3_Ensure_body_spec:
  fixes pm :: "'v::zero PageMap3" and s :: 's
  assumes bits: "2 \<le> BITS" and key: "drop_bit BITS key = 0" and root: "root_3 pm \<noteq> None"
    and P: "\<And>n s. n \<in> node_sizes BITS \<Longrightarrow> P s \<Longrightarrow> P (snd (alloc n s))" "P s"
  shows "\<exists>ok pm' s'. PageMap3_Ensure_body alloc BITS key (pm, s) = Some (ok, pm', s')
    \<and> root_3 pm' \<noteq> None \<and> P s' \<and> extends_zero (PageMap3_get BITS pm) (PageMap3_get BITS pm')
    \<and> (ok \<longrightarrow> (\<forall>k. drop_bit (LEAF_BITS_3 BITS) k = drop_bit (LEAF_BITS_3 BITS) key \<longrightarrow>
          drop_bit BITS k = 0 \<longrightarrow> PageMap3_get BITS pm' k \<noteq> None))"
proof -
  define i1 where "i1 = (\<lambda>k::u64. drop_bit (LEAF_BITS_3 BITS + INTERIOR_BITS BITS) k)"
  define i2 where "i2 = (\<lambda>k::u64. take_bit (INTERIOR_BITS BITS) (drop_bit (LEAF_BITS_3 BITS) k))"
  obtain r where r: "root_3 pm = Some r" using root by blast
  have i1: "unat (i1 key) < 2 ^ INTERIOR_BITS BITS"
    unfolding i1_def using key bits_3 [OF bits]
    by (intro drop_bit_small) (simp add: add.commute add.left_commute)
  have same: "i1 k = i1 key \<and> i2 k = i2 key"
    if "drop_bit (LEAF_BITS_3 BITS) k = drop_bit (LEAF_BITS_3 BITS) key" for k
  proof -
    have "drop_bit (INTERIOR_BITS BITS) (drop_bit (LEAF_BITS_3 BITS) k)
      = drop_bit (INTERIOR_BITS BITS) (drop_bit (LEAF_BITS_3 BITS) key)" by (simp only: that)
    then have "drop_bit (LEAF_BITS_3 BITS + INTERIOR_BITS BITS) k
      = drop_bit (LEAF_BITS_3 BITS + INTERIOR_BITS BITS) key"
      unfolding drop_bit_drop_bit by (simp only: add.commute)
    then show ?thesis unfolding i1_def i2_def that by simp
  qed
  have get: "PageMap3_get BITS q k = (if drop_bit BITS k = 0 then
     Option.bind (root_3 q) (\<lambda>root. Option.bind (root (i1 k)) (\<lambda>node. Option.bind (node (i2 k)) (\<lambda>leaf.
     Some (leaf (take_bit (LEAF_BITS_3 BITS) k))))) else None)" for q :: "'v PageMap3" and k
    unfolding i1_def i2_def by (rule PageMap3_get_take_bit)
  have body: "PageMap3_Ensure_body alloc BITS key (pm, s) =
    (let (n, s) = (case r (i1 key) of Some n \<Rightarrow> (Some n, s) | None \<Rightarrow> PageMap3_NewNode alloc BITS s) in
     case n of None \<Rightarrow> Some (False, pm, s)
     | Some node \<Rightarrow>
         (case node (i2 key) of
            Some leaf \<Rightarrow> Some (True, pm\<lparr>root_3 := Some (r(i1 key := Some node))\<rparr>, s)
          | None \<Rightarrow>
              (let (p, s) = alloc (push_bit (LEAF_BITS_3 BITS) 8) s
               in if p = 0 then Some (False, pm\<lparr>root_3 := Some (r(i1 key := Some node))\<rparr>, s)
                  else Some (True, pm\<lparr>root_3 := Some (r(i1 key := Some (node(i2 key := Some (\<lambda>_. 0)))))\<rparr>, s))))"
    using r i1 unfolding i1_def i2_def
    by (simp add: PageMap3_Ensure_body_def Let_def and_mask_take_bit)
  have new: "P (snd (PageMap3_NewNode alloc BITS s' :: (u64 \<Rightarrow> (u64 \<Rightarrow> 'v) option) option \<times> 's))" if "P s'" for s'
    using P(1) [OF _ that] by (simp add: PageMap3_NewNode_def node_sizes_def case_prod_beta)
  obtain n s1 where n: "(case r (i1 key) of Some n \<Rightarrow> (Some n, s) | None \<Rightarrow> PageMap3_NewNode alloc BITS s) = (n, s1)"
    by fastforce
  have s1: "P s1" using n P(2) new [OF P(2)] by (cases "r (i1 key)") simp_all
  show ?thesis
  proof (cases n)
    case None
    then show ?thesis using body n r s1 by auto
  next
    case (Some node)
    have fresh: "r (i1 key) = Some node \<or> r (i1 key) = None \<and> node = (\<lambda>_. None)"
      using n Some by (auto simp: PageMap3_NewNode_def case_prod_beta split: option.splits if_splits)
    obtain p s2 where a: "alloc (push_bit (LEAF_BITS_3 BITS) 8) s1 = (p, s2)" by fastforce
    have s2: "P s2" using P(1) [OF _ s1, of "push_bit (LEAF_BITS_3 BITS) 8"] a by (simp add: node_sizes_def)
    let ?q = "pm\<lparr>root_3 := Some (r(i1 key := Some node))\<rparr>"
    let ?q' = "pm\<lparr>root_3 := Some (r(i1 key := Some (node(i2 key := Some (\<lambda>_. 0)))))\<rparr>"
    have ext: "extends_zero (PageMap3_get BITS pm) (PageMap3_get BITS ?q)"
      unfolding extends_zero_def using fresh r by (auto simp: get)
    show ?thesis
    proof (cases "node (i2 key)")
      case (Some leaf)
      then have b: "PageMap3_Ensure_body alloc BITS key (pm, s) = Some (True, ?q, s1)"
        using body n \<open>n = Some node\<close> by simp
      have "PageMap3_get BITS ?q k \<noteq> None"
        if "drop_bit (LEAF_BITS_3 BITS) k = drop_bit (LEAF_BITS_3 BITS) key" "drop_bit BITS k = 0" for k
        using same [OF that(1)] that(2) Some by (simp add: get)
      moreover have "root_3 ?q \<noteq> None" by simp
      ultimately show ?thesis using b ext s1 by blast
    next
      case None
      have ext': "extends_zero (PageMap3_get BITS pm) (PageMap3_get BITS ?q')"
        unfolding extends_zero_def using fresh r None by (auto simp: get)
      have b: "PageMap3_Ensure_body alloc BITS key (pm, s) =
          (if p = 0 then Some (False, ?q, s2) else Some (True, ?q', s2))"
        using body n \<open>n = Some node\<close> None a by simp
      have "PageMap3_get BITS ?q' k \<noteq> None"
        if "drop_bit (LEAF_BITS_3 BITS) k = drop_bit (LEAF_BITS_3 BITS) key" "drop_bit BITS k = 0" for k
        using same [OF that(1)] that(2) by (simp add: get)
      moreover have "root_3 ?q \<noteq> None" "root_3 ?q' \<noteq> None" by simp_all
      ultimately show ?thesis using b ext ext' s2 by (cases "p = 0") auto
    qed
  qed
qed

lemma PageMap3_Ensure_inv:
  fixes pm :: "'v::zero PageMap3"
  assumes bits: "2 \<le> BITS" "BITS \<le> 60" and root: "root_3 pm \<noteq> None"
    and range: "0 < unat n" "unat start + unat n \<le> 2 ^ BITS"
    and P: "\<And>n s. n \<in> node_sizes BITS \<Longrightarrow> P s \<Longrightarrow> P (snd (alloc n s))" "P s"
  shows "\<exists>ok pm' s'. PageMap3_Ensure alloc BITS start n pm s = Some (ok, pm', s')
    \<and> root_3 pm' \<noteq> None \<and> P s' \<and> extends_zero (PageMap3_get BITS pm) (PageMap3_get BITS pm')
    \<and> (ok \<longrightarrow> (\<forall>k. start \<le> k \<and> k \<le> start + n - 1 \<longrightarrow> PageMap3_get BITS pm' k \<noteq> None))"
proof -
  let ?lst = "start + n - 1"
  have pw: "(2::nat) ^ BITS \<le> 2 ^ 60" using bits(2) by (intro power_increasing) simp_all
  have sn: "unat (start + n) = unat start + unat n"
    using range(2) pw by (intro unat_plus_no_wrap) simp
  have "unat ?lst = unat start + unat n - 1"
    using range(1) by (subst unat_minus_no_wrap) (simp_all add: sn)
  then have lst: "unat ?lst < 2 ^ BITS" using range by linarith
  have in_bits: "drop_bit BITS k = 0" if "k \<le> ?lst" for k
    using that lst by (simp add: drop_bit_eq_0_iff word_le_nat_alt)
  let ?R = "\<lambda>(pm :: 'v PageMap3, s). root_3 pm \<noteq> None \<and> P s"
  let ?S = "\<lambda>(pm :: 'v PageMap3, s) (pm' :: 'v PageMap3, s'). extends_zero (PageMap3_get BITS pm) (PageMap3_get BITS pm')"
  let ?C = "\<lambda>(pm :: 'v PageMap3, s) q. \<forall>k. drop_bit (LEAF_BITS_3 BITS) k = q \<longrightarrow> drop_bit BITS k = 0 \<longrightarrow> PageMap3_get BITS pm k \<noteq> None"
  have "\<exists>ok st'. Ensure_loop (PageMap3_Ensure_body alloc BITS) (LEAF_BITS_3 BITS) start ?lst (pm, s) = Some (ok, st')
      \<and> ?R st' \<and> ?S (pm, s) st' \<and>
      (ok \<longrightarrow> (\<forall>k. start \<le> k \<and> k \<le> ?lst \<longrightarrow> ?C st' (drop_bit (LEAF_BITS_3 BITS) k)))"
  proof (rule Ensure_loop_spec)
    fix key st assume "?R st" "key \<le> ?lst"
    then show "\<exists>ok st'. PageMap3_Ensure_body alloc BITS key st = Some (ok, st') \<and> ?R st' \<and> ?S st st'
      \<and> (ok \<longrightarrow> ?C st' (drop_bit (LEAF_BITS_3 BITS) key))"
      using PageMap3_Ensure_body_spec [OF bits(1) in_bits, of key "fst st" P alloc "snd st"] P(1)
      by (cases st) fastforce
  next
    show "?S a b \<Longrightarrow> ?S b c \<Longrightarrow> ?S a c" for a b c
      by (auto intro: extends_zero_trans split: prod.splits)
    show "?S a b \<Longrightarrow> ?C a q \<Longrightarrow> ?C b q" for a b q
      by (auto simp: extends_zero_def split: prod.splits) (metis option.distinct(1))
    show "unat ?lst < 2 ^ 63" using lst pw by simp
    show "LEAF_BITS_3 BITS \<le> 62" using bits(2) by (simp add: LEAF_BITS_3_def)
    show "?R (pm, s)" using root P(2) by simp
  qed (auto split: prod.splits)
  then show ?thesis
    unfolding PageMap3_Ensure_def using in_bits by (fastforce split: prod.splits)
qed


text \<open>
  A write to the three-level page map is read back at its key and nowhere else; a read or
  write is abnormal termination exactly when the key's leaf is missing.
\<close>

theorem PageMap3_get_after_set:
  "(case PageMap3_set BITS pm k v of
      None \<Rightarrow> PageMap3_get BITS pm k = None
    | Some pm' \<Rightarrow> PageMap3_get BITS pm k \<noteq> None \<and>
        PageMap3_get BITS pm' = (PageMap3_get BITS pm)(k := Some v))"
  using pm3.set_None_iff [of BITS pm k v] pm3.get_set [of BITS pm k v]
  by (cases "PageMap3_set BITS pm k v") (simp_all add: fun_eq_iff)

text \<open>
  C34. \<open>Ensure\<close> on a range inside the map always returns, whatever the allocator does; it never
  loses a stored value, and when it returns true every key of the range can be read and written.
\<close>

theorem PageMap3_Ensure_covers:
  fixes pm :: "'v::zero PageMap3"
  assumes "2 \<le> BITS" "BITS \<le> 60" and "root_3 pm \<noteq> None"
    and "0 < unat n" "unat start + unat n \<le> 2 ^ BITS"
  shows "\<exists>ok pm' s'. PageMap3_Ensure alloc BITS start n pm s = Some (ok, pm', s')
    \<and> extends_zero (PageMap3_get BITS pm) (PageMap3_get BITS pm')
    \<and> (ok \<longrightarrow> (\<forall>k. start \<le> k \<and> k \<le> start + n - 1 \<longrightarrow> PageMap3_get BITS pm' k \<noteq> None))"
  using PageMap3_Ensure_inv [OF assms(1-3) assms(4,5), of "\<lambda>_. True" alloc s] by blast

lemma PageMap3_Ensure_covers_witness:
  "\<exists>ok pm' s'. PageMap3_Ensure (\<lambda>n s. (s, s + n)) 52 65530 10 (\<lparr>root_3 = Some (\<lambda>_. None)\<rparr> :: nat PageMap3) (4096 :: u64)
     = Some (ok, pm', s') \<and>
   (ok \<longrightarrow> (\<forall>k. 65530 \<le> k \<and> k \<le> 65530 + 10 - 1 \<longrightarrow> PageMap3_get 52 pm' k \<noteq> None))"
  using PageMap3_Ensure_covers [of 52 "\<lparr>root_3 = Some (\<lambda>_. None)\<rparr> :: nat PageMap3" 10 65530
      "\<lambda>n s. (s, s + n)" "4096 :: u64"] by auto

end
