(* ===== verification/SysAlloc.thy ===== *)
theory SysAlloc
  imports Prelude
begin

text \<open>
  \<open>TCMalloc_SystemAlloc\<close> of \<open>systemalloc.cpp\<close> with its three sources of memory: \<open>/dev/mem\<close>,
  \<open>sbrk\<close> and \<open>mmap\<close>.

  The kernel is a parameter: a function \<open>kernel\<close> from the calls made so far, with their
  results, and the next call to the result of that call. Which sources are compiled in, the
  flags and the page size are the other parameters. The state holds the file's static variables
  and the trace of kernel calls, latest first.

  The theorem: whatever the kernel does within its documented behaviour, a non-null result is
  aligned as asked, the bytes of the request are all mapped, none of them was mapped before the
  call, and nothing mapped before the call has been unmapped.
\<close>

section \<open>The kernel and the state\<close>

datatype kcall = Sbrk u64 | Mmap u64 | MmapDevMem u64 u64 | Munmap u64 u64 | OpenDevMem

record sys_config =
  HAVE_SBRK :: bool
  HAVE_MMAP :: bool
  FLAGS_malloc_devmem_start :: int
  FLAGS_malloc_devmem_limit :: int
  page_size :: u64
  kernel :: "(kcall \<times> u64) list \<Rightarrow> kcall \<Rightarrow> u64"

record sys_state =
  pagesize :: u64
  use_devmem :: bool
  use_sbrk :: bool
  use_mmap :: bool
  devmem_failure :: bool
  sbrk_failure :: bool
  mmap_failure :: bool
  devmem_initialized :: bool
  physmem_base :: u64
  physmem_limit :: u64
  physmem_fd :: u64
  sys_trace :: "(kcall \<times> u64) list"

definition sys_init :: sys_state where
  "sys_init = \<lparr>pagesize = 0, use_devmem = True, use_sbrk = True, use_mmap = True,
     devmem_failure = False, sbrk_failure = False, mmap_failure = False,
     devmem_initialized = False, physmem_base = 0, physmem_limit = 0, physmem_fd = 0, sys_trace = []\<rparr>"

definition syscall :: "sys_config \<Rightarrow> kcall \<Rightarrow> sys_state \<Rightarrow> u64 \<times> sys_state" where
  "syscall cfg c st =
     (let r = kernel cfg (sys_trace st) c in (r, st\<lparr>sys_trace := (c, r) # sys_trace st\<rparr>))"

text \<open>\<open>(void *) -1\<close>, the failure of \<open>sbrk\<close> and \<open>mmap\<close>.\<close>

definition MAP_FAILED :: u64 where "MAP_FAILED = - 1"

section \<open>The allocators\<close>

definition round_up :: "u64 \<Rightarrow> u64 \<Rightarrow> u64" where
  "round_up sz alignment = ((sz + alignment - 1) div alignment) * alignment"

definition TrySbrk :: "sys_config \<Rightarrow> u64 \<Rightarrow> u64 \<Rightarrow> sys_state \<Rightarrow> u64 \<times> sys_state" where
  "TrySbrk cfg sz alignment st =
     (if sz + alignment <s 0 then (0, st)
      else let sz = round_up sz alignment;
               (result, st) = syscall cfg (Sbrk sz) st
           in if result = MAP_FAILED then (0, st\<lparr>sbrk_failure := True\<rparr>)
              else if result AND (alignment - 1) = 0 then (result, st)
              else let ptr = result;
                       extra = alignment - (ptr AND (alignment - 1));
                       (r2, st) = syscall cfg (Sbrk extra) st
                   in if r2 = ptr + sz then (ptr + extra, st)
                      else let (result, st) = syscall cfg (Sbrk (sz + alignment - 1)) st
                           in if result = MAP_FAILED then (0, st\<lparr>sbrk_failure := True\<rparr>)
                              else let ptr = result
                                   in (if ptr AND (alignment - 1) \<noteq> 0
                                       then ptr + (alignment - (ptr AND (alignment - 1))) else ptr, st))"

text \<open>The end of \<open>TryMmap\<close> and \<open>TryDevMem\<close>: give back what lies before and after the aligned part.\<close>

definition trim_mapping ::
  "sys_config \<Rightarrow> u64 \<Rightarrow> u64 \<Rightarrow> u64 \<Rightarrow> u64 \<Rightarrow> sys_state \<Rightarrow> (u64 \<times> u64) \<times> sys_state" where
  "trim_mapping cfg ptr sz alignment extra st =
     (let adjust = (if ptr AND (alignment - 1) \<noteq> 0 then alignment - (ptr AND (alignment - 1)) else 0);
          st = (if adjust > 0 then snd (syscall cfg (Munmap ptr adjust) st) else st);
          st = (if adjust < extra then snd (syscall cfg (Munmap (ptr + adjust + sz) (extra - adjust)) st) else st)
      in ((ptr + adjust, adjust), st))"

definition TryMmap :: "sys_config \<Rightarrow> u64 \<Rightarrow> u64 \<Rightarrow> sys_state \<Rightarrow> u64 \<times> sys_state" where
  "TryMmap cfg sz alignment st =
     (let st = (if pagesize st = 0 then st\<lparr>pagesize := page_size cfg\<rparr> else st);
          alignment = (if alignment < pagesize st then pagesize st else alignment);
          sz = round_up sz alignment;
          extra = (if alignment > pagesize st then alignment - pagesize st else 0);
          (result, st) = syscall cfg (Mmap (sz + extra)) st
      in if result = MAP_FAILED then (0, st\<lparr>mmap_failure := True\<rparr>)
         else let ((ptr, adjust), st) = trim_mapping cfg result sz alignment extra st in (ptr, st))"

definition TryDevMem_open :: "sys_config \<Rightarrow> sys_state \<Rightarrow> bool \<times> sys_state" where
  "TryDevMem_open cfg st =
     (if devmem_initialized st then (True, st)
      else let (fd, st) = syscall cfg OpenDevMem st;
               st = st\<lparr>physmem_fd := fd\<rparr>
           in if fd <s 0 then (False, st\<lparr>devmem_failure := True\<rparr>)
              else (True, st\<lparr>physmem_base := word_of_int (FLAGS_malloc_devmem_start cfg * 1024 * 1024),
                            physmem_limit := word_of_int (FLAGS_malloc_devmem_limit cfg * 1024 * 1024),
                            devmem_initialized := True\<rparr>))"

definition TryDevMem_map :: "sys_config \<Rightarrow> u64 \<Rightarrow> u64 \<Rightarrow> sys_state \<Rightarrow> u64 \<times> sys_state" where
  "TryDevMem_map cfg sz alignment st =
     (let st = (if pagesize st = 0 then st\<lparr>pagesize := page_size cfg\<rparr> else st);
          alignment = (if alignment < pagesize st then pagesize st else alignment);
          sz = round_up sz alignment;
          extra = (if alignment > pagesize st then alignment - pagesize st else 0)
      in if physmem_limit st \<noteq> 0 \<and> sz + extra > physmem_limit st - physmem_base st
         then (0, st\<lparr>devmem_failure := True\<rparr>)
         else let (result, st) = syscall cfg (MmapDevMem (sz + extra) (physmem_base st)) st
              in if result = MAP_FAILED then (0, st\<lparr>devmem_failure := True\<rparr>)
                 else let ((ptr, adjust), st) = trim_mapping cfg result sz alignment extra st
                      in (ptr, st\<lparr>physmem_base := physmem_base st + (adjust + sz)\<rparr>))"

definition TryDevMem :: "sys_config \<Rightarrow> u64 \<Rightarrow> u64 \<Rightarrow> sys_state \<Rightarrow> u64 \<times> sys_state" where
  "TryDevMem cfg sz alignment st =
     (if FLAGS_malloc_devmem_start cfg = 0 then (0, st)
      else let (ok, st) = TryDevMem_open cfg st
           in if \<not> ok then (0, st) else TryDevMem_map cfg sz alignment st)"

text \<open>One pass over the sources, in the order of the code; a null result means the next source.\<close>

definition SystemAlloc_pass :: "sys_config \<Rightarrow> u64 \<Rightarrow> u64 \<Rightarrow> sys_state \<Rightarrow> u64 \<times> sys_state" where
  "SystemAlloc_pass cfg sz alignment st =
     (let (r, st) = (if use_devmem st \<and> \<not> devmem_failure st then TryDevMem cfg sz alignment st else (0, st))
      in if r \<noteq> 0 then (r, st) else
      let (r, st) = (if HAVE_SBRK cfg \<and> use_sbrk st \<and> \<not> sbrk_failure st then TrySbrk cfg sz alignment st else (0, st))
      in if r \<noteq> 0 then (r, st) else
      let (r, st) = (if HAVE_MMAP cfg \<and> use_mmap st \<and> \<not> mmap_failure st then TryMmap cfg sz alignment st else (0, st))
      in if r \<noteq> 0 then (r, st)
         else (0, st\<lparr>devmem_failure := False, sbrk_failure := False, mmap_failure := False\<rparr>))"

definition TCMalloc_SystemAlloc :: "sys_config \<Rightarrow> u64 \<Rightarrow> u64 \<Rightarrow> sys_state \<Rightarrow> u64 \<times> sys_state" where
  "TCMalloc_SystemAlloc cfg sz alignment st =
     (if sz + alignment < sz then (0, st)
      else let alignment = (if alignment < 8 then 8 else alignment);
               (r, st) = SystemAlloc_pass cfg sz alignment st
           in if r \<noteq> 0 then (r, st) else SystemAlloc_pass cfg sz alignment st)"

section \<open>What the kernel grants\<close>

text \<open>The addresses mapped by the calls of a trace.\<close>

definition span_of :: "u64 \<Rightarrow> u64 \<Rightarrow> nat set" where
  "span_of p n = {unat p ..< unat p + unat n}"

definition grant :: "kcall \<Rightarrow> u64 \<Rightarrow> nat set" where
  "grant c r = (if r = MAP_FAILED then {} else
     (case c of Sbrk n \<Rightarrow> span_of r n | Mmap n \<Rightarrow> span_of r n | MmapDevMem n off \<Rightarrow> span_of r n | _ \<Rightarrow> {}))"

fun mapped :: "(kcall \<times> u64) list \<Rightarrow> nat set" where
  "mapped [] = {}"
| "mapped ((c, r) # t) = (case c of Munmap p n \<Rightarrow> mapped t - span_of p n | _ \<Rightarrow> mapped t \<union> grant c r)"

text \<open>
  The documented behaviour relied on: memory is granted below \<open>2 ^ 47\<close>, never at the zero page,
  never on top of memory that is mapped, and mappings are page aligned and not empty.
\<close>

definition kernel_ok :: "sys_config \<Rightarrow> bool" where
  "kernel_ok cfg \<longleftrightarrow> page_size cfg = 4096 \<and> (\<forall>t c.
     let r = kernel cfg t c in
     grant c r \<inter> mapped t = {} \<and>
     (r \<noteq> MAP_FAILED \<longrightarrow> (case c of
        Sbrk n \<Rightarrow> 4096 \<le> unat r \<and> unat r + unat n < 2 ^ 47
      | Mmap n \<Rightarrow> 0 < n \<and> 4096 \<le> unat r \<and> unat r + unat n < 2 ^ 47 \<and> unat r mod 4096 = 0
      | MmapDevMem n off \<Rightarrow> 0 < n \<and> 4096 \<le> unat r \<and> unat r + unat n < 2 ^ 47 \<and> unat r mod 4096 = 0
      | _ \<Rightarrow> True)))"

text \<open>The page size is unknown or 4096, and everything mapped is below \<open>2 ^ 47\<close>.\<close>

definition sys_ok :: "sys_state \<Rightarrow> bool" where
  "sys_ok st \<longleftrightarrow> (pagesize st = 0 \<or> pagesize st = 4096) \<and> mapped (sys_trace st) \<subseteq> {..<2 ^ 47}"

text \<open>What an allocator promises of a result \<open>p\<close> for a request.\<close>

definition alloc_ok :: "u64 \<Rightarrow> u64 \<Rightarrow> sys_state \<Rightarrow> u64 \<Rightarrow> sys_state \<Rightarrow> bool" where
  "alloc_ok sz alignment st p st' \<longleftrightarrow>
     sys_ok st' \<and> mapped (sys_trace st) \<subseteq> mapped (sys_trace st') \<and>
     (p \<noteq> 0 \<longrightarrow> unat p mod unat alignment = 0 \<and> 4096 \<le> unat p \<and> unat p + unat sz < 2 ^ 47 \<and>
        span_of p sz \<subseteq> mapped (sys_trace st') - mapped (sys_trace st))"

section \<open>Arithmetic of alignments\<close>

lemma and_align:
  assumes "alignment = 2 ^ k" and "k < 64"
  shows "unat (x AND (alignment - 1) :: u64) = unat x mod unat alignment"
proof -
  have "x AND (alignment - 1) = take_bit k x"
    unfolding assms(1) by (simp add: take_bit_eq_mask mask_eq_exp_minus_1)
  then show ?thesis
    unfolding assms(1) unat_2p [OF assms(2)]
    by (simp only: trans [OF unsigned_take_bit_eq take_bit_eq_mod])
qed

lemma round_up_spec:
  assumes "0 < unat alignment" and "unat sz + unat alignment < 2 ^ 63"
  shows "unat (round_up sz alignment) mod unat alignment = 0"
    and "unat sz \<le> unat (round_up sz alignment)"
    and "unat (round_up sz alignment) < unat sz + unat alignment"
proof -
  let ?n = "unat sz + unat alignment - 1"
  have sum: "unat (sz + alignment) = unat sz + unat alignment"
    using assms(2) by (intro unat_plus_no_wrap) simp
  have n: "unat (sz + alignment - 1) = ?n"
    using assms(1) by (subst unat_minus_no_wrap) (simp_all add: sum)
  have le: "?n div unat alignment * unat alignment \<le> ?n" by simp
  then have r: "unat (round_up sz alignment) = ?n div unat alignment * unat alignment"
    unfolding round_up_def using assms(2)
    by (subst unat_mult_no_wrap) (simp_all add: n unat_div_distrib del: div_times_less_eq_dividend)
  show "unat (round_up sz alignment) mod unat alignment = 0" unfolding r by simp
  show "unat (round_up sz alignment) < unat sz + unat alignment"
    unfolding r using le assms(1) by linarith
  have "?n < ?n div unat alignment * unat alignment + unat alignment"
    using dividend_less_div_times [OF assms(1), of ?n] by simp
  then show "unat sz \<le> unat (round_up sz alignment)" unfolding r using assms(1) by linarith
qed

lemma align_up_nat: "0 < (a::nat) \<Longrightarrow> p mod a \<noteq> 0 \<Longrightarrow> (p + (a - p mod a)) mod a = 0"
  by (metis add.commute le_add_diff_inverse2 mod_add_right_eq mod_le_divisor mod_self mod_add_left_eq)

text \<open>The distance to the next aligned address.\<close>

lemma adjust_spec:
  fixes p alignment :: u64
  assumes "alignment = 2 ^ k" "k < 63" and "unat p < 2 ^ 62"
  defines "adjust \<equiv> (if p AND (alignment - 1) \<noteq> 0 then alignment - (p AND (alignment - 1)) else 0)"
  shows "unat adjust = (if unat p mod unat alignment = 0 then 0 else unat alignment - unat p mod unat alignment)"
    and "unat (p + adjust) = unat p + unat adjust"
    and "(unat p + unat adjust) mod unat alignment = 0"
    and "unat adjust < unat alignment"
proof -
  have k: "k < 64" using assms(2) by simp
  note al = and_align [OF assms(1) k]
  have a: "0 < unat alignment" "unat alignment \<le> 2 ^ 62"
    unfolding assms(1) unat_2p [OF k] using assms(2) by (simp, intro power_increasing) simp_all
  have z: "p AND (alignment - 1) = 0 \<longleftrightarrow> unat p mod unat alignment = 0"
    using al [of p] by (simp add: word_eq_iff_unat)
  have m: "unat p mod unat alignment < unat alignment" using a(1) by simp
  show adj: "unat adjust = (if unat p mod unat alignment = 0 then 0 else unat alignment - unat p mod unat alignment)"
    unfolding adjust_def z using m by (simp add: unat_minus_no_wrap al less_imp_le)
  then show lt: "unat adjust < unat alignment" using a by (auto split: if_splits)
  show "unat (p + adjust) = unat p + unat adjust"
    using assms(3) lt a(2) by (intro unat_plus_no_wrap) simp
  show "(unat p + unat adjust) mod unat alignment = 0"
    unfolding adj using align_up_nat [OF a(1), of "unat p"] by simp
qed

section \<open>One kernel call\<close>

lemma syscall_trace:
  "syscall cfg c st = (r, st') \<Longrightarrow> st' = st\<lparr>sys_trace := (c, r) # sys_trace st\<rparr>"
  by (auto simp: syscall_def Let_def)

lemma syscall_ok:
  assumes K: "kernel_ok cfg" and S: "sys_ok st" and run: "syscall cfg c st = (r, st')"
  shows "sys_ok st'"
proof -
  have r: "r = kernel cfg (sys_trace st) c" using run by (auto simp: syscall_def Let_def)
  have "r \<noteq> MAP_FAILED \<longrightarrow> (case c of
        Sbrk n \<Rightarrow> 4096 \<le> unat r \<and> unat r + unat n < 2 ^ 47
      | Mmap n \<Rightarrow> 0 < n \<and> 4096 \<le> unat r \<and> unat r + unat n < 2 ^ 47 \<and> unat r mod 4096 = 0
      | MmapDevMem n off \<Rightarrow> 0 < n \<and> 4096 \<le> unat r \<and> unat r + unat n < 2 ^ 47 \<and> unat r mod 4096 = 0
      | _ \<Rightarrow> True)"
    using K unfolding kernel_ok_def r Let_def by blast
  then have "grant c r \<subseteq> {..<2 ^ 47}" by (auto simp: grant_def span_of_def split: kcall.splits simp del: power_numeral)
  moreover have "mapped (sys_trace st') \<subseteq> mapped (sys_trace st) \<union> grant c r"
    unfolding syscall_trace [OF run] by (auto split: kcall.splits)
  ultimately show ?thesis using S syscall_trace [OF run] by (auto simp: sys_ok_def)
qed

definition grows :: "kcall \<Rightarrow> u64 \<Rightarrow> bool" where
  "grows c n \<longleftrightarrow> c = Sbrk n \<or> 0 < n \<and> (c = Mmap n \<or> (\<exists>off. c = MmapDevMem n off))"

lemma syscall_grant:
  assumes "kernel_ok cfg" and "syscall cfg c st = (r, st')" and "c = Sbrk n \<or> c = Mmap n \<or> c = MmapDevMem n off"
    and "r \<noteq> MAP_FAILED"
  shows "4096 \<le> unat r" and "unat r + unat n < 2 ^ 47"
    and "mapped (sys_trace st') = mapped (sys_trace st) \<union> span_of r n"
    and "span_of r n \<inter> mapped (sys_trace st) = {}"
    and "c \<noteq> Sbrk n \<Longrightarrow> unat r mod 4096 = 0"
proof -
  have r: "r = kernel cfg (sys_trace st) c" using assms(2) by (auto simp: syscall_def Let_def)
  have k: "grant c r \<inter> mapped (sys_trace st) = {}"
    "(case c of
        Sbrk n \<Rightarrow> 4096 \<le> unat r \<and> unat r + unat n < 2 ^ 47
      | Mmap n \<Rightarrow> 0 < n \<and> 4096 \<le> unat r \<and> unat r + unat n < 2 ^ 47 \<and> unat r mod 4096 = 0
      | MmapDevMem n off \<Rightarrow> 0 < n \<and> 4096 \<le> unat r \<and> unat r + unat n < 2 ^ 47 \<and> unat r mod 4096 = 0
      | _ \<Rightarrow> True)"
    using assms(1,4) unfolding kernel_ok_def r Let_def by blast+
  have g: "grant c r = span_of r n" using assms(3,4) by (auto simp: grant_def)
  show "4096 \<le> unat r" "unat r + unat n < 2 ^ 47" using k(2) assms(3) by (auto simp del: power_numeral)
  show "c \<noteq> Sbrk n \<Longrightarrow> unat r mod 4096 = 0" using k(2) assms(3) by (auto simp del: power_numeral)
  show "span_of r n \<inter> mapped (sys_trace st) = {}" using k(1) g by simp
  show "mapped (sys_trace st') = mapped (sys_trace st) \<union> span_of r n"
    unfolding syscall_trace [OF assms(2)] using assms(3) g by auto
qed

lemma mapped_Failed: "c \<noteq> Munmap p n \<Longrightarrow> (\<forall>p n. c \<noteq> Munmap p n) \<Longrightarrow> mapped ((c, MAP_FAILED) # t) = mapped t"
  by (cases c) (simp_all add: grant_def)

lemma mapped_mono: "(\<forall>p n. c \<noteq> Munmap p n) \<Longrightarrow> mapped t \<subseteq> mapped ((c, r) # t)"
  by (cases c) simp_all

lemma span_of_sub: "unat p \<le> unat q \<Longrightarrow> unat q + unat m \<le> unat p + unat n \<Longrightarrow> span_of q m \<subseteq> span_of p n"
  by (auto simp: span_of_def)

section \<open>The sources are safe\<close>

lemma TrySbrk_ok:
  assumes K: "kernel_ok cfg" and S: "sys_ok st" and al: "alignment = 2 ^ k" "k < 60"
    and big: "unat sz + unat alignment < 2 ^ 61" and run: "TrySbrk cfg sz alignment st = (p, st')"
  shows "alloc_ok sz alignment st p st'"
proof -
  have k: "k < 64" using al(2) by simp
  have a: "0 < unat alignment" unfolding al(1) unat_2p [OF k] by simp
  define z where "z = round_up sz alignment"
  have z: "unat sz \<le> unat z" "unat z < unat sz + unat alignment"
    unfolding z_def using round_up_spec [OF a] big by simp_all
  obtain r1 st1 where c1: "syscall cfg (Sbrk z) st = (r1, st1)" by fastforce
  note t1 = syscall_trace [OF c1]
  show ?thesis
  proof (cases "sz + alignment <s 0 \<or> r1 = MAP_FAILED")
    case True
    then have "p = 0" "mapped (sys_trace st) \<subseteq> mapped (sys_trace st')" "sys_ok st'"
      using run c1 t1 syscall_ok [OF K S c1] unfolding TrySbrk_def z_def [symmetric]
      by (auto simp: Let_def sys_ok_def grant_def split: if_splits)
    then show ?thesis by (simp add: alloc_ok_def)
  next
    case False
    then have r1: "r1 \<noteq> MAP_FAILED" by simp
    note g1 = syscall_grant [OF K c1 _ r1, of z]
    have b1: "4096 \<le> unat r1" "unat r1 + unat z < 2 ^ 47" using g1(1,2) by simp_all
    have S1: "sys_ok st1" by (rule syscall_ok [OF K S c1])
    have r1_62: "unat r1 < 2 ^ 62" using b1 by simp
    have al63: "k < 63" using al(2) by simp
    note adj1 = adjust_spec [OF al(1) al63 r1_62]
    show ?thesis
    proof (cases "r1 AND (alignment - 1) = 0")
      case True
      then have "p = r1" "st' = st1"
        using run False c1 unfolding TrySbrk_def z_def [symmetric] by (simp_all add: Let_def)
      then show ?thesis
        using g1 b1 z S1 adj1(3) True span_of_sub [of r1 r1 sz z] unfolding alloc_ok_def by auto
    next
      case mis: False
      define extra where "extra = alignment - (r1 AND (alignment - 1))"
      have e: "unat (r1 + extra) = unat r1 + unat extra" "(unat r1 + unat extra) mod unat alignment = 0"
        "unat extra < unat alignment"
        using adj1(2-4) mis unfolding extra_def by simp_all
      obtain r2 st2 where c2: "syscall cfg (Sbrk extra) st1 = (r2, st2)" by fastforce
      note t2 = syscall_trace [OF c2]
      have m2: "mapped (sys_trace st1) \<subseteq> mapped (sys_trace st2)" unfolding t2 by simp
      have S2: "sys_ok st2" by (rule syscall_ok [OF K S1 c2])
      show ?thesis
      proof (cases "r2 = r1 + z")
        case True
        have u2: "unat r2 = unat r1 + unat z" unfolding True
          using b1(2) by (intro unat_plus_no_wrap) simp
        have r2: "r2 \<noteq> MAP_FAILED"
        proof
          assume "r2 = MAP_FAILED"
          then have "unat r2 = 2 ^ 64 - 1" by (simp add: MAP_FAILED_def unsigned_minus_1_eq_mask mask_eq_exp_minus_1)
          with u2 b1(2) show False by simp
        qed
        note g2 = syscall_grant [OF K c2 _ r2, of extra]
        have p: "p = r1 + extra" "st' = st2"
          using run False c1 mis c2 True unfolding TrySbrk_def z_def [symmetric] extra_def
          by (simp_all add: Let_def)
        have "unat r2 + unat extra < 2 ^ 47" using g2(2) by simp
        then have bound: "unat p + unat sz < 2 ^ 47" using e(1) u2 z(1) p(1) by simp
        have "span_of p sz \<subseteq> span_of r1 z \<union> span_of r2 extra"
          using u2 z(1) e(1) p(1) unfolding span_of_def by auto
        then show ?thesis
          using g1(3,4) g2(3,4) p S2 bound e b1 unfolding alloc_ok_def by auto
      next
        case other: False
        obtain r3 st3 where c3: "syscall cfg (Sbrk (z + alignment - 1)) st2 = (r3, st3)" by fastforce
        note t3 = syscall_trace [OF c3]
        have m3: "mapped (sys_trace st2) \<subseteq> mapped (sys_trace st3)" unfolding t3 by simp
        have S3: "sys_ok st3" by (rule syscall_ok [OF K S2 c3])
        show ?thesis
        proof (cases "r3 = MAP_FAILED")
          case True
          have "p = 0" "sys_trace st' = sys_trace st3" "sys_ok st'"
            using run False c1 mis c2 other c3 True S3 unfolding TrySbrk_def z_def [symmetric] extra_def
            by (auto simp: Let_def sys_ok_def)
          then show ?thesis using m2 m3 g1(3) by (auto simp: alloc_ok_def)
        next
          case r3: False
          note g3 = syscall_grant [OF K c3 _ r3, of "z + alignment - 1"]
          have za: "unat (z + alignment) = unat z + unat alignment"
            using z big by (intro unat_plus_no_wrap) simp
          have w: "unat (z + alignment - 1) = unat z + unat alignment - 1"
            using a za by (subst unat_minus_no_wrap) simp_all
          have b3: "4096 \<le> unat r3" "unat r3 + (unat z + unat alignment - 1) < 2 ^ 47"
            using g3(1,2) w by simp_all
          have "unat r3 < 2 ^ 62" using b3 by simp
          note adj3 = adjust_spec [OF al(1) al63 this]
          define q where "q = r3 + (if r3 AND (alignment - 1) \<noteq> 0 then alignment - (r3 AND (alignment - 1)) else 0)"
          have p: "p = q" "st' = st3"
            using run False c1 mis c2 other c3 r3 unfolding TrySbrk_def z_def [symmetric] extra_def q_def
            by (auto simp: Let_def)
          have q: "unat q mod unat alignment = 0" "unat r3 \<le> unat q" "unat q < unat r3 + unat alignment"
            using adj3 unfolding q_def by simp_all
          have "span_of q sz \<subseteq> span_of r3 (z + alignment - 1)"
            by (rule span_of_sub) (use q z w in linarith)+
          moreover have "unat q + unat sz < 2 ^ 47" "4096 \<le> unat q" using q z b3 by linarith+
          ultimately show ?thesis
            using g1(3) m2 m3 g3(3,4) p S3 q unfolding alloc_ok_def by auto
        qed
      qed
    qed
  qed
qed

text \<open>The mapping of \<open>mmap\<close>, cut down to its aligned middle.\<close>

lemma trim_mapping_spec:
  assumes al: "alignment = 2 ^ k" "12 \<le> k" "k < 60"
    and r: "unat r mod 4096 = 0" "4096 \<le> unat r" "unat r + unat (z + extra) < 2 ^ 47"
    and extra: "unat extra = unat alignment - 4096" "unat (z + extra) = unat z + unat extra"
    and fresh: "span_of r (z + extra) \<inter> M = {}"
    and m: "mapped (sys_trace st) = M \<union> span_of r (z + extra)" and S: "sys_ok st"
    and run: "trim_mapping cfg r z alignment extra st = ((p, adjust), st')"
  shows "sys_ok st'" and "M \<subseteq> mapped (sys_trace st')" and "unat p mod unat alignment = 0"
    and "4096 \<le> unat p" and "unat p + unat z < 2 ^ 47"
    and "span_of p z \<subseteq> mapped (sys_trace st') - M"
proof -
  have k: "k < 64" "k < 63" using al(3) by simp_all
  have ua: "unat alignment = 4096 * 2 ^ (k - 12)"
    unfolding al(1) unat_2p [OF k(1)] using al(2) power_add [of "2::nat" 12 "k - 12"] by simp
  have "unat r < 2 ^ 62" using r by simp
  note adj = adjust_spec [OF al(1) k(2) this]
  define ad where "ad = (if r AND (alignment - 1) \<noteq> 0 then alignment - (r AND (alignment - 1)) else 0)"
  note adj = adj [folded ad_def]
  have le: "unat ad \<le> unat extra"
  proof (cases "unat r mod unat alignment = 0")
    case False
    have "unat r mod unat alignment mod 4096 = 0"
      unfolding ua using r(1) by (simp add: mod_mod_cancel)
    with False have "4096 \<le> unat r mod unat alignment"
      by (metis dvd_imp_le mod_0_imp_dvd neq0_conv)
    then show ?thesis unfolding adj(1) extra(1) by simp
  qed (simp add: adj(1))
  have pe: "p = r + ad" using run unfolding trim_mapping_def Let_def ad_def by auto
  have p: "unat p = unat r + unat ad" unfolding pe by (rule adj(2))
  have pz: "unat (r + ad + z) = unat r + unat ad + unat z"
    using r(3) extra(2) le adj(2) by (subst unat_plus_no_wrap) simp_all
  have ex: "unat (extra - ad) = unat extra - unat ad" using le by (rule unat_minus_no_wrap)
  have A: "mapped (sys_trace (if ad > 0 then snd (syscall cfg (Munmap r ad) st) else st))
      = mapped (sys_trace st) - span_of r ad" (is "mapped (sys_trace ?s) = _")
    by (auto simp: syscall_def Let_def span_of_def word_less_nat_alt)
  have st': "st' = (if ad < extra then snd (syscall cfg (Munmap (r + ad + z) (extra - ad)) ?s) else ?s)"
    using run unfolding trim_mapping_def Let_def ad_def by (auto split: prod.splits)
  have B: "mapped (sys_trace st') = mapped (sys_trace ?s) - span_of (r + ad + z) (extra - ad)"
  proof (cases "ad < extra")
    case False
    then have "span_of (r + ad + z) (extra - ad) = {}"
      unfolding span_of_def ex using le by (simp add: word_less_nat_alt)
    with False show ?thesis unfolding st' by simp
  qed (simp add: st' syscall_def Let_def)
  have sub: "span_of r ad \<subseteq> span_of r (z + extra)" "span_of (r + ad + z) (extra - ad) \<subseteq> span_of r (z + extra)"
    using le pz ex extra(2) unfolding span_of_def by auto
  have out: "span_of p z \<inter> span_of r ad = {}" "span_of p z \<inter> span_of (r + ad + z) (extra - ad) = {}"
    "span_of p z \<subseteq> span_of r (z + extra)"
    using le pz ex extra(2) p unfolding span_of_def by auto
  show "M \<subseteq> mapped (sys_trace st')" unfolding A B m using sub fresh by blast
  show "span_of p z \<subseteq> mapped (sys_trace st') - M" unfolding A B m using out fresh by blast
  show "unat p mod unat alignment = 0" unfolding p by (rule adj(3))
  show "4096 \<le> unat p" "unat p + unat z < 2 ^ 47" using r extra(2) le p by linarith+
  show "sys_ok st'" using S A B unfolding sys_ok_def by (auto simp: st' syscall_def Let_def split: if_splits)
qed

lemma page_setup:
  assumes "kernel_ok cfg" "sys_ok st"
  shows "pagesize (if pagesize st = 0 then st\<lparr>pagesize := page_size cfg\<rparr> else st) = 4096"
  using assms by (auto simp: sys_ok_def kernel_ok_def)

lemma page_align:
  assumes "alignment = 2 ^ k" "k < 60"
  obtains k' where "(if alignment < 4096 then 4096 else alignment :: u64) = 2 ^ k'" "12 \<le> k'" "k' < 60"
    "unat alignment dvd unat (2 ^ k' :: u64)" "unat (2 ^ k' :: u64) \<le> unat alignment + 4096"
proof (cases "k < 12")
  case True
  have k: "k < 64" using assms(2) by simp
  have "(2::nat) ^ k < 2 ^ 12" using True by (intro power_strict_increasing) simp_all
  then have "alignment < 4096" unfolding assms(1) word_less_nat_alt unat_2p [OF k] by simp
  moreover have "unat alignment dvd 4096"
    unfolding assms(1) unat_2p [OF k] using True le_imp_power_dvd [of k 12 "2::nat"] by simp
  ultimately show thesis using that [of 12] by simp
next
  case False
  have k: "k < 64" using assms(2) by simp
  have "(2::nat) ^ 12 \<le> 2 ^ k" using False by (intro power_increasing) simp_all
  then have "\<not> alignment < 4096" unfolding assms(1) word_less_nat_alt unat_2p [OF k] by simp
  then show thesis using that [of k] False assms by simp
qed

text \<open>The part \<open>TryMmap\<close> and \<open>TryDevMem\<close> share: map, then trim.\<close>

lemma map_and_trim:
  assumes K: "kernel_ok cfg" and S: "sys_ok st" and al: "alignment = 2 ^ k" "k < 60"
    and big: "unat sz + unat alignment < 2 ^ 61"
    and ps: "al' = (if alignment < 4096 then 4096 else alignment)"
    and z: "z = round_up sz al'" and extra: "extra = (if al' > 4096 then al' - 4096 else 0)"
    and c: "c = Mmap (z + extra) \<or> c = MmapDevMem (z + extra) off"
    and call: "syscall cfg c st = (r, st1)" and r: "r \<noteq> MAP_FAILED"
    and run: "trim_mapping cfg r z al' extra st1 = ((p, adjust), st')"
  shows "alloc_ok sz alignment st p st'"
proof -
  obtain k' where kk: "(if alignment < 4096 then 4096 else alignment :: u64) = 2 ^ k'" "12 \<le> k'" "k' < 60"
    "unat alignment dvd unat (2 ^ k' :: u64)" "unat (2 ^ k' :: u64) \<le> unat alignment + 4096"
    by (rule page_align [OF al])
  have a': "al' = 2 ^ k'" using kk(1) unfolding ps .
  note k' = a' kk(2,3)
  note dv = kk(4) [folded a'] and le = kk(5) [folded a']
  have ge: "4096 \<le> unat al'" unfolding ps by (auto simp: word_less_nat_alt)
  have big': "unat sz + unat al' < 2 ^ 63" using big le by simp
  have zz: "unat sz \<le> unat z" "unat z < unat sz + unat al'"
    unfolding z using round_up_spec [OF _ big'] ge by simp_all
  have e: "unat extra = unat al' - 4096"
    unfolding extra using ge by (auto simp: word_less_nat_alt unat_minus_no_wrap)
  have ze: "unat (z + extra) = unat z + unat extra"
    using zz big' ge by (intro unat_plus_no_wrap) (simp add: e)
  have c': "c = Sbrk (z + extra) \<or> c = Mmap (z + extra) \<or> c = MmapDevMem (z + extra) off" using c by blast
  note g = syscall_grant [OF K call c' r]
  have "c \<noteq> Sbrk (z + extra)" using c by auto
  note t = trim_mapping_spec [OF k' g(5) [OF this] g(1,2) e ze g(4,3) _ run]
  have "sys_ok st1" by (rule syscall_ok [OF K S call])
  note t = t [OF this]
  have "unat p mod unat alignment = 0" using t(3) dv by (meson dvd_trans mod_0_imp_dvd dvd_imp_mod_0)
  moreover have "span_of p sz \<subseteq> span_of p z" by (rule span_of_sub) (use zz in simp_all)
  moreover have "unat p + unat sz < 2 ^ 47" using t(5) zz by linarith
  ultimately show ?thesis using t unfolding alloc_ok_def by blast
qed

lemma alloc_ok_null: "sys_ok st' \<Longrightarrow> mapped (sys_trace st) \<subseteq> mapped (sys_trace st') \<Longrightarrow> alloc_ok sz alignment st 0 st'"
  by (simp add: alloc_ok_def)

lemma alloc_ok_pre:
  "alloc_ok sz alignment st p st' \<Longrightarrow> sys_trace s = sys_trace st \<Longrightarrow> alloc_ok sz alignment s p st'"
  by (simp add: alloc_ok_def)

lemma alloc_ok_post:
  "alloc_ok sz alignment st p st' \<Longrightarrow> sys_trace s = sys_trace st' \<Longrightarrow> pagesize s = pagesize st' \<Longrightarrow>
   alloc_ok sz alignment st p s"
  by (simp add: alloc_ok_def sys_ok_def)

lemma TryMmap_ok:
  assumes K: "kernel_ok cfg" and S: "sys_ok st" and al: "alignment = 2 ^ k" "k < 60"
    and big: "unat sz + unat alignment < 2 ^ 61" and run: "TryMmap cfg sz alignment st = (p, st')"
  shows "alloc_ok sz alignment st p st'"
proof -
  define s0 where "s0 = (if pagesize st = 0 then st\<lparr>pagesize := page_size cfg\<rparr> else st)"
  have s0: "pagesize s0 = 4096" "sys_trace s0 = sys_trace st" unfolding s0_def using page_setup [OF K S] by simp_all
  define al' z extra where "al' = (if alignment < 4096 then 4096 else alignment)"
    and "z = round_up sz al'" and "extra = (if al' > 4096 then al' - 4096 else 0)"
  note defs = this
  obtain r st1 where c: "syscall cfg (Mmap (z + extra)) s0 = (r, st1)" by fastforce
  obtain p1 ad st2 where t: "trim_mapping cfg r z al' extra st1 = ((p1, ad), st2)" by (metis surj_pair)
  have R: "(p, st') = (if r = MAP_FAILED then (0, st1\<lparr>mmap_failure := True\<rparr>) else (p1, st2))"
    using run c t unfolding TryMmap_def s0_def [symmetric] Let_def s0(1) defs [symmetric]
    by (simp split: if_splits)
  have S0: "sys_ok s0" using s0 S by (simp add: sys_ok_def)
  show ?thesis
  proof (cases "r = MAP_FAILED")
    case True
    then show ?thesis using R syscall_ok [OF K S0 c] syscall_trace [OF c] s0 mapped_mono [of "Mmap (z + extra)" "sys_trace st" r]
      by (auto intro!: alloc_ok_null simp: sys_ok_def)
  next
    case False
    have "alloc_ok sz alignment s0 p1 st2"
      by (rule map_and_trim [OF K S0 al big defs _ c False t]) simp
    then show ?thesis using R False s0 by (auto intro: alloc_ok_pre)
  qed
qed

lemma TryDevMem_open_frame:
  assumes "TryDevMem_open cfg st = (ok, st')"
  shows "pagesize st' = pagesize st" and "mapped (sys_trace st') = mapped (sys_trace st)"
  using assms unfolding TryDevMem_open_def
  by (auto simp: syscall_def Let_def grant_def split: if_splits)

lemma TryDevMem_map_ok:
  assumes K: "kernel_ok cfg" and S: "sys_ok st" and al: "alignment = 2 ^ k" "k < 60"
    and big: "unat sz + unat alignment < 2 ^ 61" and run: "TryDevMem_map cfg sz alignment st = (p, st')"
  shows "alloc_ok sz alignment st p st'"
proof -
  define s0 where "s0 = (if pagesize st = 0 then st\<lparr>pagesize := page_size cfg\<rparr> else st)"
  have s0: "pagesize s0 = 4096" "sys_trace s0 = sys_trace st" unfolding s0_def using page_setup [OF K S] by simp_all
  define al' z extra where "al' = (if alignment < 4096 then 4096 else alignment)"
    and "z = round_up sz al'" and "extra = (if al' > 4096 then al' - 4096 else 0)"
  note defs = this
  let ?c = "MmapDevMem (z + extra) (physmem_base s0)"
  obtain r st1 where c: "syscall cfg ?c s0 = (r, st1)" by fastforce
  obtain p1 ad st2 where t: "trim_mapping cfg r z al' extra st1 = ((p1, ad), st2)" by (metis surj_pair)
  have R: "(p, st') = (if physmem_limit s0 \<noteq> 0 \<and> z + extra > physmem_limit s0 - physmem_base s0
        then (0, s0\<lparr>devmem_failure := True\<rparr>)
      else if r = MAP_FAILED then (0, st1\<lparr>devmem_failure := True\<rparr>)
      else (p1, st2\<lparr>physmem_base := physmem_base st2 + (ad + z)\<rparr>))"
    using run c t unfolding TryDevMem_map_def s0_def [symmetric] Let_def s0(1) defs [symmetric]
    by (auto split: if_splits)
  have S0: "sys_ok s0" using s0 S by (simp add: sys_ok_def)
  show ?thesis
  proof (cases "(physmem_limit s0 \<noteq> 0 \<and> z + extra > physmem_limit s0 - physmem_base s0) \<or> r = MAP_FAILED")
    case True
    then show ?thesis using R S0 syscall_ok [OF K S0 c] s0 syscall_trace [OF c] mapped_mono [of ?c "sys_trace st" r]
      by (auto intro!: alloc_ok_null simp: sys_ok_def split: if_splits)
  next
    case False
    have "alloc_ok sz alignment s0 p1 st2"
      by (rule map_and_trim [OF K S0 al big defs _ c _ t]) (use False in simp_all)
    then show ?thesis using R False s0 by (auto simp: alloc_ok_def sys_ok_def)
  qed
qed

lemma TryDevMem_ok:
  assumes K: "kernel_ok cfg" and S: "sys_ok st" and al: "alignment = 2 ^ k" "k < 60"
    and big: "unat sz + unat alignment < 2 ^ 61" and run: "TryDevMem cfg sz alignment st = (p, st')"
  shows "alloc_ok sz alignment st p st'"
proof (cases "FLAGS_malloc_devmem_start cfg = 0")
  case True
  then show ?thesis using run S by (simp add: TryDevMem_def alloc_ok_def)
next
  case dev: False
  obtain ok so where o: "TryDevMem_open cfg st = (ok, so)" by fastforce
  note fo = TryDevMem_open_frame [OF o]
  have So: "sys_ok so" using S fo by (simp add: sys_ok_def)
  have "alloc_ok sz alignment so p st'"
    using run dev o TryDevMem_map_ok [OF K So al big] So
    by (auto simp: TryDevMem_def intro: alloc_ok_null split: if_splits)
  then show ?thesis unfolding alloc_ok_def fo(2) .
qed

section \<open>The whole allocator\<close>

lemma alloc_ok_skip:
  assumes "alloc_ok sz alignment st 0 st1" and "alloc_ok sz alignment st1 p st2"
  shows "alloc_ok sz alignment st p st2"
  using assms unfolding alloc_ok_def by blast

lemma SystemAlloc_pass_ok:
  assumes K: "kernel_ok cfg" and S: "sys_ok st" and al: "alignment = 2 ^ k" "k < 60"
    and big: "unat sz + unat alignment < 2 ^ 61" and run: "SystemAlloc_pass cfg sz alignment st = (p, st')"
  shows "alloc_ok sz alignment st p st'"
proof -
  have src: "alloc_ok sz alignment s q s'"
    if "(if c then X else (0, s)) = (q, s')" "sys_ok s"
      "\<And>q s'. X = (q, s') \<Longrightarrow> alloc_ok sz alignment s q s'" for c X s q s'
    using that by (auto split: if_splits intro: alloc_ok_null)
  obtain r1 s1 where c1: "(if use_devmem st \<and> \<not> devmem_failure st then TryDevMem cfg sz alignment st else (0, st)) = (r1, s1)"
    by fastforce
  have a1: "alloc_ok sz alignment st r1 s1"
    by (rule src [OF c1 S]) (rule TryDevMem_ok [OF K S al big])
  then have S1: "sys_ok s1" by (simp add: alloc_ok_def)
  obtain r2 s2 where c2: "(if HAVE_SBRK cfg \<and> use_sbrk s1 \<and> \<not> sbrk_failure s1 then TrySbrk cfg sz alignment s1 else (0, s1)) = (r2, s2)"
    by fastforce
  have a2: "alloc_ok sz alignment s1 r2 s2"
    by (rule src [OF c2 S1]) (rule TrySbrk_ok [OF K S1 al big])
  then have S2: "sys_ok s2" by (simp add: alloc_ok_def)
  obtain r3 s3 where c3: "(if HAVE_MMAP cfg \<and> use_mmap s2 \<and> \<not> mmap_failure s2 then TryMmap cfg sz alignment s2 else (0, s2)) = (r3, s3)"
    by fastforce
  have a3: "alloc_ok sz alignment s2 r3 s3"
    by (rule src [OF c3 S2]) (rule TryMmap_ok [OF K S2 al big])
  let ?fin = "s3\<lparr>devmem_failure := False, sbrk_failure := False, mmap_failure := False\<rparr>"
  have "(p, st') = (if r1 \<noteq> 0 then (r1, s1) else if r2 \<noteq> 0 then (r2, s2) else if r3 \<noteq> 0 then (r3, s3) else (0, ?fin))"
    using run unfolding SystemAlloc_pass_def Let_def c1 case_prod_conv
    by (simp add: c2 c3 split: if_splits)
  then show ?thesis
    using a1 a2 a3 alloc_ok_post [OF a3, of ?fin]
    by (auto intro: alloc_ok_skip split: if_splits)
qed

lemma SystemAlloc_ok:
  assumes K: "kernel_ok cfg" and S: "sys_ok st" and al: "alignment = 2 ^ k" "3 \<le> k" "k < 60"
    and big: "unat sz + unat alignment < 2 ^ 61" and run: "TCMalloc_SystemAlloc cfg sz alignment st = (p, st')"
  shows "alloc_ok sz alignment st p st'"
proof (cases "sz + alignment < sz")
  case True
  then show ?thesis using run S by (simp add: TCMalloc_SystemAlloc_def alloc_ok_def)
next
  case False
  have k: "k < 64" using al(3) by simp
  have "(2::nat) ^ 3 \<le> 2 ^ k" using al(2) by (intro power_increasing) simp_all
  then have "\<not> alignment < 8" unfolding al(1) word_less_nat_alt unat_2p [OF k] by simp
  obtain r1 s1 where c1: "SystemAlloc_pass cfg sz alignment st = (r1, s1)" by fastforce
  have a1: "alloc_ok sz alignment st r1 s1" by (rule SystemAlloc_pass_ok [OF K S al(1,3) big c1])
  have R: "(if r1 \<noteq> 0 then (r1, s1) else SystemAlloc_pass cfg sz alignment s1) = (p, st')"
    using run False \<open>\<not> alignment < 8\<close> c1 unfolding TCMalloc_SystemAlloc_def by (simp add: Let_def)
  show ?thesis
  proof (cases "r1 = 0")
    case True
    have "sys_ok s1" using a1 by (simp add: alloc_ok_def)
    from SystemAlloc_pass_ok [OF K this al(1,3) big] R True
    have "alloc_ok sz alignment s1 p st'" by simp
    then show ?thesis using a1 True by (auto intro: alloc_ok_skip)
  qed (use R a1 in simp)
qed

text \<open>
  C11. Memory from the system is sound: under the documented behaviour of the kernel and for a
  power-of-two alignment of at least 8, a non-null result is aligned, every byte of the request
  is mapped after the call and none was before it, and the call unmaps nothing that was mapped.
\<close>

theorem TCMalloc_SystemAlloc_safe:
  assumes "kernel_ok cfg" and "sys_ok st" and "alignment = 2 ^ k" "3 \<le> k" "k < 60"
    and "unat sz + unat alignment < 2 ^ 61" and "TCMalloc_SystemAlloc cfg sz alignment st = (p, st')"
  shows "mapped (sys_trace st) \<subseteq> mapped (sys_trace st') \<and>
    (p \<noteq> 0 \<longrightarrow> unat p mod unat alignment = 0 \<and>
      {unat p ..< unat p + unat sz} \<subseteq> mapped (sys_trace st') - mapped (sys_trace st))"
  using SystemAlloc_ok [OF assms] by (auto simp: alloc_ok_def span_of_def)

text \<open>A kernel that grants one misaligned break and refuses everything after.\<close>

definition one_grant :: "(kcall \<times> u64) list \<Rightarrow> kcall \<Rightarrow> u64" where
  "one_grant t c = (case c of
     Sbrk n \<Rightarrow> if t = [] \<and> unat n < 2 ^ 40 then 0x10008 else
               if length t = 1 \<and> t = [(Sbrk 0x2000, 0x10008)] \<and> unat n < 2 ^ 40 then 0x12008 else - 1
   | _ \<Rightarrow> - 1)"

definition one_cfg :: sys_config where
  "one_cfg = \<lparr>HAVE_SBRK = True, HAVE_MMAP = True, FLAGS_malloc_devmem_start = 0,
     FLAGS_malloc_devmem_limit = 0, page_size = 4096, kernel = one_grant\<rparr>"

lemma one_cfg_ok: "kernel_ok one_cfg"
  by (auto simp: kernel_ok_def one_cfg_def one_grant_def grant_def MAP_FAILED_def span_of_def
      split: kcall.splits)

lemma one_run:
  "TCMalloc_SystemAlloc one_cfg 0x2000 0x1000 sys_init =
    (0x11000, sys_init\<lparr>sys_trace := [(Sbrk 0xff8, 0x12008), (Sbrk 0x2000, 0x10008)]\<rparr>)"
  by (simp add: TCMalloc_SystemAlloc_def SystemAlloc_pass_def TryDevMem_def TrySbrk_def one_cfg_def
      one_grant_def sys_init_def syscall_def round_up_def MAP_FAILED_def Let_def word_sless_alt)

lemma TCMalloc_SystemAlloc_safe_witness:
  "TCMalloc_SystemAlloc one_cfg 0x2000 0x1000 sys_init =
    (0x11000, sys_init\<lparr>sys_trace := [(Sbrk 0xff8, 0x12008), (Sbrk 0x2000, 0x10008)]\<rparr>) \<and>
   {0x11000 ..< 0x13000} \<subseteq> mapped [(Sbrk 0xff8, 0x12008), (Sbrk 0x2000, 0x10008)]"
proof -
  have "sys_ok sys_init" by (simp add: sys_ok_def sys_init_def)
  from TCMalloc_SystemAlloc_safe [OF one_cfg_ok this _ _ _ _ one_run, of 12]
  show ?thesis using one_run by (simp add: sys_init_def)
qed

text \<open>
  The overflow test of \<open>TCMalloc_SystemAlloc\<close> comes before the alignment is raised to 8: a
  request of \<open>2 ^ 64 - 4\<close> bytes with alignment 1 passes it, \<open>TrySbrk\<close> rounds the size to 0,
  and the break is returned as if it were the memory asked for.
\<close>

lemma SystemAlloc_wraps:
  "TCMalloc_SystemAlloc one_cfg (- 4) 1 sys_init =
    (0x10008, sys_init\<lparr>sys_trace := [(Sbrk 0, 0x10008)]\<rparr>) \<and> unat (- 4 :: u64) = 2 ^ 64 - 4"
  by (simp add: TCMalloc_SystemAlloc_def SystemAlloc_pass_def TryDevMem_def TrySbrk_def one_cfg_def
      one_grant_def sys_init_def syscall_def round_up_def MAP_FAILED_def Let_def word_sless_alt)

end
