(* ===== verification/Spans.thy ===== *)
theory Spans
  imports SizeClasses PageMap SysAlloc
begin

text \<open>
  Spans, the metadata allocator \<open>PageHeapAllocator\<close>, and the circular doubly linked lists of
  spans (\<open>DLL_Init\<close> to \<open>DLL_InsertOrdered\<close>) of \<open>tcmalloc.cpp\<close>.

  A \<open>Span *\<close> is null, the address of a span handed out by \<open>span_allocator\<close>, or one of the list
  heads that are embedded in other objects: \<open>free_[n]\<close> and \<open>large_\<close> of the page heap,
  \<open>empty_\<close> and \<open>nonempty_\<close> of a central free list, \<open>sampled_objects\<close>. The contents of all spans,
  heads included, are one store from these references to records; reading or writing through
  null is abnormal termination.
\<close>

section \<open>Spans\<close>

datatype sref = Null | Obj u64 | FreeHead nat | LargeHead | EmptyHead nat | NonemptyHead nat | SampledHead

instantiation sref :: zero
begin

definition zero_sref :: sref where "zero_sref = Null"

instance ..

end

record span =
  span_start :: u64
  span_length :: u64
  span_next :: sref
  span_prev :: sref
  span_objects :: u64
  span_free :: bool
  span_sample :: bool
  span_sizeclass :: u8
  span_refcount :: "11 word"

type_synonym spans = "sref \<Rightarrow> span"

definition zero_span :: span where
  "zero_span = \<lparr>span_start = 0, span_length = 0, span_next = Null, span_prev = Null, span_objects = 0,
     span_free = False, span_sample = False, span_sizeclass = 0, span_refcount = 0\<rparr>"

text \<open>The bytes \<open>0x3f\<close> that \<open>DeleteSpan\<close> writes, read back as fields.\<close>

definition poison_word :: u64 where "poison_word = 0x3f3f3f3f3f3f3f3f"

definition poison_span :: span where
  "poison_span = \<lparr>span_start = poison_word, span_length = poison_word, span_next = Obj poison_word,
     span_prev = Obj poison_word, span_objects = poison_word, span_free = True, span_sample = True,
     span_sizeclass = 0xcf, span_refcount = 0x7cf\<rparr>"

definition rd :: "sref \<Rightarrow> spans \<Rightarrow> span option" where
  "rd s \<sigma> = do { ASSERT (s \<noteq> Null); Some (\<sigma> s) }"

definition wr :: "sref \<Rightarrow> (span \<Rightarrow> span) \<Rightarrow> spans \<Rightarrow> spans option" where
  "wr s f \<sigma> = do { ASSERT (s \<noteq> Null); Some (\<sigma>(s := f (\<sigma> s))) }"

section \<open>The metadata allocator\<close>

text \<open>
  \<open>PageHeapAllocator<T>\<close> carves objects of the rounded size of \<open>T\<close> off chunks of 128 KB and keeps
  the freed ones in a list threaded through their first word (\<open>pha_link\<close>).
\<close>

record pha =
  free_area :: u64
  free_avail :: u64
  pha_free_list :: u64
  inuse :: int
  pha_link :: "u64 \<Rightarrow> u64"

definition kAllocIncrement :: u64 where "kAllocIncrement = push_bit 10 128"

definition kAlignedSize :: "u64 \<Rightarrow> u64" where
  "kAlignedSize sizeof_T = ((sizeof_T + kAlignment - 1) div kAlignment) * kAlignment"

definition sizeof_Span :: u64 where "sizeof_Span = 48"
definition sizeof_StackTrace :: u64 where "sizeof_StackTrace = 264"

text \<open>The system memory and \<open>metadata_system_bytes\<close>.\<close>

record meta_state =
  sys :: sys_state
  metadata_system_bytes :: u64

definition MetaDataAlloc :: "sys_config \<Rightarrow> u64 \<Rightarrow> meta_state \<Rightarrow> u64 \<times> meta_state" where
  "MetaDataAlloc cfg bytes ms =
     (let (result, s) = TCMalloc_SystemAlloc cfg bytes 0 (sys ms);
          ms = ms\<lparr>sys := s\<rparr>
      in (result, if result \<noteq> 0 then ms\<lparr>metadata_system_bytes := metadata_system_bytes ms + bytes\<rparr> else ms))"

definition PHA_New :: "sys_config \<Rightarrow> u64 \<Rightarrow> pha \<Rightarrow> meta_state \<Rightarrow> (u64 \<times> pha \<times> meta_state) option" where
  "PHA_New cfg sizeof_T a ms =
     (if pha_free_list a \<noteq> 0 then
        let result = pha_free_list a
        in Some (result, a\<lparr>pha_free_list := pha_link a result, inuse := inuse a + 1\<rparr>, ms)
      else do {
        (a, ms) \<leftarrow> (if free_avail a < kAlignedSize sizeof_T then
                       let (area, ms) = MetaDataAlloc cfg kAllocIncrement ms
                       in if area = 0 then None
                          else Some (a\<lparr>free_area := area, free_avail := kAllocIncrement\<rparr>, ms)
                     else Some (a, ms));
        let result = free_area a;
        Some (result, a\<lparr>free_area := free_area a + kAlignedSize sizeof_T,
                        free_avail := free_avail a - kAlignedSize sizeof_T, inuse := inuse a + 1\<rparr>, ms) })"

definition PHA_Delete :: "u64 \<Rightarrow> pha \<Rightarrow> pha option" where
  "PHA_Delete p a = do {
     ASSERT (p \<noteq> 0);
     Some (a\<lparr>pha_link := (pha_link a)(p := pha_free_list a), pha_free_list := p, inuse := inuse a - 1\<rparr>) }"

definition PHA_Init :: "sys_config \<Rightarrow> u64 \<Rightarrow> pha \<Rightarrow> meta_state \<Rightarrow> (pha \<times> meta_state) option" where
  "PHA_Init cfg sizeof_T a ms = do {
     ASSERT (kAlignedSize sizeof_T \<le> kAllocIncrement);
     let a = a\<lparr>inuse := 0, free_area := 0, free_avail := 0, pha_free_list := 0\<rparr>;
     (p, a, ms) \<leftarrow> PHA_New cfg sizeof_T a ms;
     a \<leftarrow> PHA_Delete p a;
     Some (a, ms) }"

section \<open>Lists of spans\<close>

definition DLL_Init :: "sref \<Rightarrow> spans \<Rightarrow> spans option" where
  "DLL_Init list \<sigma> = wr list (\<lambda>x. x\<lparr>span_next := list, span_prev := list\<rparr>) \<sigma>"

definition DLL_Remove :: "sref \<Rightarrow> spans \<Rightarrow> spans option" where
  "DLL_Remove s \<sigma> = do {
     x \<leftarrow> rd s \<sigma>;
     \<sigma> \<leftarrow> wr (span_prev x) (\<lambda>y. y\<lparr>span_next := span_next x\<rparr>) \<sigma>;
     x \<leftarrow> rd s \<sigma>;
     \<sigma> \<leftarrow> wr (span_next x) (\<lambda>y. y\<lparr>span_prev := span_prev x\<rparr>) \<sigma>;
     wr s (\<lambda>x. x\<lparr>span_prev := Null, span_next := Null\<rparr>) \<sigma> }"

definition DLL_IsEmpty :: "sref \<Rightarrow> spans \<Rightarrow> bool" where
  "DLL_IsEmpty list \<sigma> \<longleftrightarrow> span_next (\<sigma> list) = list"

partial_function (option) DLL_Length_loop :: "spans \<Rightarrow> sref \<Rightarrow> sref \<Rightarrow> nat \<Rightarrow> nat option" where
  "DLL_Length_loop \<sigma> list s result =
     (if s = list then Some result
      else Option.bind (rd s \<sigma>) (\<lambda>x. DLL_Length_loop \<sigma> list (span_next x) (Suc result)))"

definition DLL_Length :: "sref \<Rightarrow> spans \<Rightarrow> nat option" where
  "DLL_Length list \<sigma> = Option.bind (rd list \<sigma>) (\<lambda>x. DLL_Length_loop \<sigma> list (span_next x) 0)"

text \<open>Linking \<open>s\<close> in after \<open>x\<close>, the four assignments that both insertions end with.\<close>

definition DLL_link :: "sref \<Rightarrow> sref \<Rightarrow> spans \<Rightarrow> spans option" where
  "DLL_link x s \<sigma> = do {
     a \<leftarrow> rd x \<sigma>;
     \<sigma> \<leftarrow> wr s (\<lambda>y. y\<lparr>span_next := span_next a, span_prev := x\<rparr>) \<sigma>;
     a \<leftarrow> rd x \<sigma>;
     \<sigma> \<leftarrow> wr (span_next a) (\<lambda>y. y\<lparr>span_prev := s\<rparr>) \<sigma>;
     wr x (\<lambda>y. y\<lparr>span_next := s\<rparr>) \<sigma> }"

definition DLL_Prepend :: "sref \<Rightarrow> sref \<Rightarrow> spans \<Rightarrow> spans option" where
  "DLL_Prepend list s \<sigma> = do {
     y \<leftarrow> rd s \<sigma>;
     ASSERT (span_next y = Null);
     ASSERT (span_prev y = Null);
     DLL_link list s \<sigma> }"

partial_function (option) DLL_find_place :: "spans \<Rightarrow> sref \<Rightarrow> u64 \<Rightarrow> sref \<Rightarrow> sref option" where
  "DLL_find_place \<sigma> list st x =
     Option.bind (rd x \<sigma>) (\<lambda>a.
       if span_next a = list then Some x
       else Option.bind (rd (span_next a) \<sigma>) (\<lambda>b.
         if span_start b < st then DLL_find_place \<sigma> list st (span_next a) else Some x))"

definition DLL_InsertOrdered :: "sref \<Rightarrow> sref \<Rightarrow> spans \<Rightarrow> spans option" where
  "DLL_InsertOrdered list s \<sigma> = do {
     y \<leftarrow> rd s \<sigma>;
     ASSERT (span_next y = Null);
     ASSERT (span_prev y = Null);
     x \<leftarrow> DLL_find_place \<sigma> list (span_start y) list;
     DLL_link x s \<sigma> }"

declare DLL_Length_loop.simps [code] DLL_find_place.simps [code]

end
