(* ===== verification/PageHeap.thy ===== *)
theory PageHeap
  imports Spans
begin

text \<open>
  \<open>TCMalloc_PageHeap\<close> of \<open>tcmalloc.cpp\<close>: spans of pages, free lists by length, coalescing, growth.

  The state is one record: the system state with the metadata counter, the allocators of spans
  and stack traces with the objects they own, and the page heap's own fields. Later components
  extend this record, so every operation here runs unchanged on the state of the whole program.

  \<open>tc_config\<close> holds what the program is linked against: the kernel, and \<open>GetStackTrace\<close> as a
  function of the number of the call, giving the frames it returns; and the sampling flag.
\<close>

section \<open>State\<close>

record tc_config =
  sys_cfg :: sys_config
  GetStackTrace :: "nat \<Rightarrow> u64 list"
  FLAGS_tcmalloc_sample_parameter :: int

definition kMinSystemAlloc :: u64 where "kMinSystemAlloc = push_bit (20 - kPageShift) 1"
definition kMaxPages :: u64 where "kMaxPages = kMinSystemAlloc"
definition kPageMapBigAllocationThreshold :: u64 where "kPageMapBigAllocationThreshold = push_bit 20 128"
definition kMaxStackDepth :: nat where "kMaxStackDepth = 31"

text \<open>The width of the page map on a 64-bit build: \<open>MapSelector<64>\<close>.\<close>

definition PM_BITS :: nat where "PM_BITS = 64 - kPageShift"

record stack_trace =
  st_size :: u64
  st_depth :: nat
  st_stack :: "nat \<Rightarrow> u64"

record page_heap =
  meta :: meta_state
  span_allocator :: pha
  stacktrace_allocator :: pha
  spans_of :: spans
  traces :: "u64 \<Rightarrow> stack_trace"
  trace_calls :: nat
  pagemap :: "sref PageMap3"
  free_pages :: u64
  system_bytes :: u64

section \<open>Access to the parts\<close>

text \<open>Running an operation on the spans, and reading and writing the page map.\<close>

definition on_spans :: "(spans \<Rightarrow> spans option) \<Rightarrow> 'a page_heap_scheme \<Rightarrow> 'a page_heap_scheme option" where
  "on_spans f h = do { \<sigma> \<leftarrow> f (spans_of h); Some (h\<lparr>spans_of := \<sigma>\<rparr>) }"

definition pagemap_get :: "u64 \<Rightarrow> 'a page_heap_scheme \<Rightarrow> sref option" where
  "pagemap_get p h = PageMap3_get PM_BITS (pagemap h) p"

definition pagemap_set :: "u64 \<Rightarrow> sref \<Rightarrow> 'a page_heap_scheme \<Rightarrow> 'a page_heap_scheme option" where
  "pagemap_set p s h = do { pm \<leftarrow> PageMap3_set PM_BITS (pagemap h) p s; Some (h\<lparr>pagemap := pm\<rparr>) }"

definition GetDescriptor :: "u64 \<Rightarrow> 'a page_heap_scheme \<Rightarrow> sref option" where
  "GetDescriptor p h = pagemap_get p h"

definition NewSpan :: "tc_config \<Rightarrow> u64 \<Rightarrow> u64 \<Rightarrow> 'a page_heap_scheme \<Rightarrow> (sref \<times> 'a page_heap_scheme) option" where
  "NewSpan cfg p len h = do {
     (result, a, ms) \<leftarrow> PHA_New (sys_cfg cfg) sizeof_Span (span_allocator h) (meta h);
     ASSERT (result \<noteq> 0);
     Some (Obj result, h\<lparr>span_allocator := a, meta := ms,
       spans_of := (spans_of h)(Obj result := zero_span\<lparr>span_start := p, span_length := len\<rparr>)\<rparr>) }"

definition DeleteSpan :: "sref \<Rightarrow> 'a page_heap_scheme \<Rightarrow> 'a page_heap_scheme option" where
  "DeleteSpan s h = (case s of
     Obj a \<Rightarrow> do {
       h \<leftarrow> on_spans (wr s (\<lambda>_. poison_span)) h;
       al \<leftarrow> PHA_Delete a (span_allocator h);
       Some (h\<lparr>span_allocator := al\<rparr>) }
   | _ \<Rightarrow> None)"

definition RecordSpan :: "sref \<Rightarrow> 'a page_heap_scheme \<Rightarrow> 'a page_heap_scheme option" where
  "RecordSpan s h = do {
     x \<leftarrow> rd s (spans_of h);
     h \<leftarrow> pagemap_set (span_start x) s h;
     if span_length x > 1 then pagemap_set (span_start x + span_length x - 1) s h else Some h }"

section \<open>The self-check\<close>

partial_function (option) CheckList_loop ::
  "'a page_heap_scheme \<Rightarrow> sref \<Rightarrow> u64 \<Rightarrow> u64 \<Rightarrow> sref \<Rightarrow> unit option" where
  "CheckList_loop h list min_pages max_pages s =
     (if s = list then Some ()
      else Option.bind (rd s (spans_of h)) (\<lambda>x.
           Option.bind (GetDescriptor (span_start x) h) (\<lambda>d1.
           Option.bind (GetDescriptor (span_start x + span_length x - 1) h) (\<lambda>d2.
             if span_free x \<and> min_pages \<le> span_length x \<and> span_length x \<le> max_pages \<and> d1 = s \<and> d2 = s
             then CheckList_loop h list min_pages max_pages (span_next x) else None))))"

declare CheckList_loop.simps [code]

definition CheckList :: "'a page_heap_scheme \<Rightarrow> sref \<Rightarrow> u64 \<Rightarrow> u64 \<Rightarrow> unit option" where
  "CheckList h list min_pages max_pages =
     Option.bind (rd list (spans_of h)) (\<lambda>x. CheckList_loop h list min_pages max_pages (span_next x))"

fun CheckLists :: "'a page_heap_scheme \<Rightarrow> nat list \<Rightarrow> unit option" where
  "CheckLists h [] = Some ()"
| "CheckLists h (s # ss) =
     Option.bind (CheckList h (FreeHead s) (word_of_nat s) (word_of_nat s)) (\<lambda>_. CheckLists h ss)"

definition PH_Check :: "'a page_heap_scheme \<Rightarrow> unit option" where
  "PH_Check h = do {
     ASSERT (span_next (spans_of h (FreeHead 0)) = FreeHead 0);
     CheckList h LargeHead kMaxPages 1000000000;
     CheckLists h [1..<unat kMaxPages] }"

section \<open>Construction\<close>

fun init_heads :: "sref list \<Rightarrow> spans \<Rightarrow> spans option" where
  "init_heads [] \<sigma> = Some \<sigma>"
| "init_heads (l # ls) \<sigma> = Option.bind (DLL_Init l \<sigma>) (init_heads ls)"

definition PageHeap_init :: "tc_config \<Rightarrow> 'a page_heap_scheme \<Rightarrow> 'a page_heap_scheme option" where
  "PageHeap_init cfg h = do {
     let (pm, ms) = PageMap3_init (MetaDataAlloc (sys_cfg cfg)) PM_BITS (meta h);
     on_spans (init_heads (LargeHead # map FreeHead [0..<unat kMaxPages]))
       (h\<lparr>pagemap := pm, meta := ms, free_pages := 0, system_bytes := 0\<rparr>) }"

section \<open>Allocation and release\<close>

text \<open>Putting a free span on the list of its length.\<close>

definition add_to_free_list :: "sref \<Rightarrow> u64 \<Rightarrow> 'a page_heap_scheme \<Rightarrow> 'a page_heap_scheme option" where
  "add_to_free_list s len h =
     (if len < kMaxPages then on_spans (DLL_Prepend (FreeHead (unat len)) s) h
      else on_spans (DLL_InsertOrdered LargeHead s) h)"

text \<open>\<open>extra\<close> is an \<open>int\<close> in \<open>Carve\<close> and \<open>Split\<close>.\<close>

definition Carve :: "tc_config \<Rightarrow> sref \<Rightarrow> u64 \<Rightarrow> 'a page_heap_scheme \<Rightarrow> 'a page_heap_scheme option" where
  "Carve cfg s n h = do {
     ASSERT (n > 0);
     h \<leftarrow> on_spans (DLL_Remove s) h;
     h \<leftarrow> on_spans (wr s (\<lambda>x. x\<lparr>span_free := False\<rparr>)) h;
     x \<leftarrow> rd s (spans_of h);
     let extra = to_int32 (span_length x - n);
     ASSERT (extra \<ge> 0);
     if extra > 0 then do {
       (leftover, h) \<leftarrow> NewSpan cfg (span_start x + n) (word_of_int extra) h;
       h \<leftarrow> on_spans (wr leftover (\<lambda>y. y\<lparr>span_free := True\<rparr>)) h;
       h \<leftarrow> RecordSpan leftover h;
       h \<leftarrow> add_to_free_list leftover (word_of_int extra) h;
       h \<leftarrow> on_spans (wr s (\<lambda>x. x\<lparr>span_length := n\<rparr>)) h;
       pagemap_set (span_start x + n - 1) s h }
     else Some h }"

definition Split :: "tc_config \<Rightarrow> sref \<Rightarrow> u64 \<Rightarrow> 'a page_heap_scheme \<Rightarrow> (sref \<times> 'a page_heap_scheme) option" where
  "Split cfg s n h = do {
     x \<leftarrow> rd s (spans_of h);
     ASSERT (0 < n);
     ASSERT (n < span_length x);
     ASSERT (\<not> span_free x);
     ASSERT (span_sizeclass x = 0);
     let extra = to_int32 (span_length x - n);
     (leftover, h) \<leftarrow> NewSpan cfg (span_start x + n) (word_of_int extra) h;
     h \<leftarrow> RecordSpan leftover h;
     h \<leftarrow> pagemap_set (span_start x + n - 1) s h;
     h \<leftarrow> on_spans (wr s (\<lambda>x. x\<lparr>span_length := n\<rparr>)) h;
     Some (leftover, h) }"

text \<open>The two coalescing steps of \<open>Delete\<close>.\<close>

definition Delete_merge_prev :: "sref \<Rightarrow> u64 \<Rightarrow> 'a page_heap_scheme \<Rightarrow> 'a page_heap_scheme option" where
  "Delete_merge_prev s p h = do {
     prev \<leftarrow> GetDescriptor (p - 1) h;
     if prev \<noteq> Null \<and> span_free (spans_of h prev) then do {
       y \<leftarrow> rd prev (spans_of h);
       ASSERT (span_start y + span_length y = p);
       let len = span_length y;
       h \<leftarrow> on_spans (DLL_Remove prev) h;
       h \<leftarrow> DeleteSpan prev h;
       h \<leftarrow> on_spans (wr s (\<lambda>x. x\<lparr>span_start := span_start x - len, span_length := span_length x + len\<rparr>)) h;
       x \<leftarrow> rd s (spans_of h);
       pagemap_set (span_start x) s h }
     else Some h }"

definition Delete_merge_next :: "sref \<Rightarrow> u64 \<Rightarrow> 'a page_heap_scheme \<Rightarrow> 'a page_heap_scheme option" where
  "Delete_merge_next s q h = do {
     next \<leftarrow> GetDescriptor q h;
     if next \<noteq> Null \<and> span_free (spans_of h next) then do {
       y \<leftarrow> rd next (spans_of h);
       ASSERT (span_start y = q);
       let len = span_length y;
       h \<leftarrow> on_spans (DLL_Remove next) h;
       h \<leftarrow> DeleteSpan next h;
       h \<leftarrow> on_spans (wr s (\<lambda>x. x\<lparr>span_length := span_length x + len\<rparr>)) h;
       x \<leftarrow> rd s (spans_of h);
       pagemap_set (span_start x + span_length x - 1) s h }
     else Some h }"

definition PH_Delete :: "sref \<Rightarrow> 'a page_heap_scheme \<Rightarrow> 'a page_heap_scheme option" where
  "PH_Delete s h = do {
     PH_Check h;
     x \<leftarrow> rd s (spans_of h);
     ASSERT (\<not> span_free x);
     ASSERT (span_length x > 0);
     d1 \<leftarrow> GetDescriptor (span_start x) h;
     ASSERT (d1 = s);
     d2 \<leftarrow> GetDescriptor (span_start x + span_length x - 1) h;
     ASSERT (d2 = s);
     h \<leftarrow> on_spans (wr s (\<lambda>x. x\<lparr>span_sizeclass := 0, span_sample := False\<rparr>)) h;
     let p = span_start x;
     let n = span_length x;
     h \<leftarrow> Delete_merge_prev s p h;
     h \<leftarrow> Delete_merge_next s (p + n) h;
     h \<leftarrow> on_spans (wr s (\<lambda>x. x\<lparr>span_free := True\<rparr>)) h;
     x \<leftarrow> rd s (spans_of h);
     h \<leftarrow> add_to_free_list s (span_length x) h;
     let h = h\<lparr>free_pages := free_pages h + n\<rparr>;
     PH_Check h;
     Some h }"

text \<open>\<open>RegisterSizeClass\<close> maps the interior pages; the bound \<open>length - 1\<close> wraps only for length 0.\<close>

fun register_pages :: "nat list \<Rightarrow> sref \<Rightarrow> u64 \<Rightarrow> 'a page_heap_scheme \<Rightarrow> 'a page_heap_scheme option" where
  "register_pages [] s start h = Some h"
| "register_pages (i # is) s start h =
     Option.bind (pagemap_set (start + word_of_nat i) s h) (register_pages is s start)"

definition RegisterSizeClass :: "sref \<Rightarrow> u64 \<Rightarrow> 'a page_heap_scheme \<Rightarrow> 'a page_heap_scheme option" where
  "RegisterSizeClass s sc h = do {
     x \<leftarrow> rd s (spans_of h);
     ASSERT (\<not> span_free x);
     d1 \<leftarrow> GetDescriptor (span_start x) h;
     ASSERT (d1 = s);
     d2 \<leftarrow> GetDescriptor (span_start x + span_length x - 1) h;
     ASSERT (d2 = s);
     h \<leftarrow> on_spans (wr s (\<lambda>x. x\<lparr>span_sizeclass := ucast sc\<rparr>)) h;
     register_pages [1..<unat (span_length x - 1)] s (span_start x) h }"

section \<open>Growth\<close>

text \<open>\<open>GetStackTrace\<close> writes the frames into the array it is given and leaves the rest.\<close>

definition fill_stack :: "u64 list \<Rightarrow> (nat \<Rightarrow> u64) \<Rightarrow> nat \<Rightarrow> u64" where
  "fill_stack frames old = (\<lambda>i. if i < length frames then frames ! i else old i)"

text \<open>
  \<open>RecordGrowth\<close> fills in a new stack trace; its last assignment goes to the parameter
  \<open>growth\<close>, so no list of growth traces is built.
\<close>

definition RecordGrowth :: "tc_config \<Rightarrow> u64 \<Rightarrow> 'a page_heap_scheme \<Rightarrow> 'a page_heap_scheme option" where
  "RecordGrowth cfg growth h = do {
     (t, a, ms) \<leftarrow> PHA_New (sys_cfg cfg) sizeof_StackTrace (stacktrace_allocator h) (meta h);
     ASSERT (t \<noteq> 0);
     let frames = take (kMaxStackDepth - 1) (GetStackTrace cfg (trace_calls h));
     Some (h\<lparr>stacktrace_allocator := a, meta := ms, trace_calls := Suc (trace_calls h),
             traces := (traces h)(t := \<lparr>st_size = growth, st_depth = length frames,
               st_stack = (fill_stack frames (st_stack (traces h t)))(kMaxStackDepth - 1 := growth)\<rparr>)\<rparr>) }"

definition sys_alloc :: "tc_config \<Rightarrow> u64 \<Rightarrow> u64 \<Rightarrow> 'a page_heap_scheme \<Rightarrow> u64 \<times> 'a page_heap_scheme" where
  "sys_alloc cfg bytes alignment h =
     (let (ptr, s) = TCMalloc_SystemAlloc (sys_cfg cfg) bytes alignment (sys (meta h))
      in (ptr, h\<lparr>meta := (meta h)\<lparr>sys := s\<rparr>\<rparr>))"

definition GrowHeap_map :: "tc_config \<Rightarrow> u64 \<Rightarrow> u64 \<Rightarrow> 'a page_heap_scheme \<Rightarrow> (bool \<times> 'a page_heap_scheme) option" where
  "GrowHeap_map cfg ptr ask h = do {
     h \<leftarrow> RecordGrowth cfg (push_bit kPageShift ask) h;
     let old_system_bytes = system_bytes h;
     let h = h\<lparr>system_bytes := system_bytes h + push_bit kPageShift ask\<rparr>;
     let p = drop_bit kPageShift ptr;
     ASSERT (p > 0);
     (pm, ms) \<leftarrow> (if old_system_bytes < kPageMapBigAllocationThreshold
                      \<and> system_bytes h \<ge> kPageMapBigAllocationThreshold
                   then PageMap3_PreallocateMoreMemory (pagemap h) (meta h)
                   else Some (pagemap h, meta h));
     (ok, pm, ms) \<leftarrow> PageMap3_Ensure (MetaDataAlloc (sys_cfg cfg)) PM_BITS (p - 1) (ask + 2) pm ms;
     let h = h\<lparr>pagemap := pm, meta := ms\<rparr>;
     if ok then do {
       (s, h) \<leftarrow> NewSpan cfg p ask h;
       h \<leftarrow> RecordSpan s h;
       h \<leftarrow> PH_Delete s h;
       PH_Check h;
       Some (True, h) }
     else Some (False, h) }"

definition GrowHeap :: "tc_config \<Rightarrow> u64 \<Rightarrow> 'a page_heap_scheme \<Rightarrow> (bool \<times> 'a page_heap_scheme) option" where
  "GrowHeap cfg n h = do {
     ASSERT (kMaxPages \<ge> kMinSystemAlloc);
     let ask = (if n > kMinSystemAlloc then n else kMinSystemAlloc);
     let (ptr, h) = sys_alloc cfg (push_bit kPageShift ask) kPageSize h;
     if ptr = 0 then
       if n < ask then
         let ask = n; (ptr, h) = sys_alloc cfg (push_bit kPageShift ask) kPageSize h
         in if ptr = 0 then Some (False, h) else GrowHeap_map cfg ptr ask h
       else Some (False, h)
     else GrowHeap_map cfg ptr ask h }"

section \<open>New\<close>

fun first_nonempty :: "nat list \<Rightarrow> spans \<Rightarrow> nat option" where
  "first_nonempty [] \<sigma> = None"
| "first_nonempty (s # ss) \<sigma> = (if \<not> DLL_IsEmpty (FreeHead s) \<sigma> then Some s else first_nonempty ss \<sigma>)"

text \<open>Best fit in \<open>large_\<close>: the shortest span of at least \<open>n\<close> pages, the first of equals.\<close>

partial_function (option) best_fit :: "spans \<Rightarrow> u64 \<Rightarrow> sref \<Rightarrow> sref \<Rightarrow> sref option" where
  "best_fit \<sigma> n s best =
     (if s = LargeHead then Some best
      else Option.bind (rd s \<sigma>) (\<lambda>x.
        best_fit \<sigma> n (span_next x)
          (if span_length x \<ge> n \<and> (best = Null \<or> span_length x < span_length (\<sigma> best)) then s else best)))"

declare best_fit.simps [code]

definition New_take :: "tc_config \<Rightarrow> sref \<Rightarrow> u64 \<Rightarrow> 'a page_heap_scheme \<Rightarrow> (sref \<times> 'a page_heap_scheme) option" where
  "New_take cfg s n h = do {
     h \<leftarrow> Carve cfg s n h;
     PH_Check h;
     Some (s, h\<lparr>free_pages := free_pages h - n\<rparr>) }"

text \<open>One round over \<open>large_\<close>; \<open>Null\<close> when nothing fits.\<close>

definition New_large :: "tc_config \<Rightarrow> u64 \<Rightarrow> 'a page_heap_scheme \<Rightarrow> (sref \<times> 'a page_heap_scheme) option" where
  "New_large cfg n h = do {
     best \<leftarrow> best_fit (spans_of h) n (span_next (spans_of h LargeHead)) Null;
     if best \<noteq> Null then New_take cfg best n h else Some (Null, h) }"

definition PH_New :: "tc_config \<Rightarrow> u64 \<Rightarrow> 'a page_heap_scheme \<Rightarrow> (sref \<times> 'a page_heap_scheme) option" where
  "PH_New cfg n h = do {
     PH_Check h;
     if n = 0 then Some (Null, h)
     else case first_nonempty [unat n..<unat kMaxPages] (spans_of h) of
       Some s \<Rightarrow> New_take cfg (span_next (spans_of h (FreeHead s))) n h
     | None \<Rightarrow> do {
         (s, h) \<leftarrow> New_large cfg n h;
         if s \<noteq> Null then Some (s, h)
         else do {
           (ok, h) \<leftarrow> GrowHeap cfg n h;
           if \<not> ok then do { PH_Check h; Some (Null, h) }
           else New_large cfg n h } } }"

definition FreeBytes :: "'a page_heap_scheme \<Rightarrow> u64" where
  "FreeBytes h = push_bit kPageShift (free_pages h)"

end
