(* ===== verification/Memory.thy ===== *)
theory Memory
  imports Prelude
begin

text \<open>
  Byte memory and the singly linked lists of \<open>tcmalloc.cpp\<close> (\<open>SLL_Next\<close> to \<open>SLL_Size\<close>), which
  thread the free objects of a size class through their first word.

  Memory is a function from addresses to bytes; a pointer-sized load or store touches eight of
  them, least significant first. Address 0 is the null pointer: a load or store there is
  abnormal termination. The predicate \<open>sll m p xs\<close> says that the list that starts at \<open>p\<close> holds
  the objects \<open>xs\<close>, in this order, and ends in a null link.
\<close>

section \<open>Loads and stores\<close>

type_synonym mem = "u64 \<Rightarrow> u8"

definition store64 :: "u64 \<Rightarrow> u64 \<Rightarrow> mem \<Rightarrow> mem" where
  "store64 a v m = (\<lambda>x. if x - a < 8 then ucast (drop_bit (8 * unat (x - a)) v) else m x)"

definition load64 :: "mem \<Rightarrow> u64 \<Rightarrow> u64" where
  "load64 m a = ucast (m a) OR push_bit 8 (ucast (m (a + 1))) OR push_bit 16 (ucast (m (a + 2)))
     OR push_bit 24 (ucast (m (a + 3))) OR push_bit 32 (ucast (m (a + 4))) OR push_bit 40 (ucast (m (a + 5)))
     OR push_bit 48 (ucast (m (a + 6))) OR push_bit 56 (ucast (m (a + 7)))"

definition memset :: "u64 \<Rightarrow> u8 \<Rightarrow> u64 \<Rightarrow> mem \<Rightarrow> mem" where
  "memset p c n m = (\<lambda>x. if x - p < n then c else m x)"

definition memcpy :: "u64 \<Rightarrow> u64 \<Rightarrow> u64 \<Rightarrow> mem \<Rightarrow> mem" where
  "memcpy dst src n m = (\<lambda>x. if x - dst < n then m (src + (x - dst)) else m x)"

text \<open>Objects that share no byte of their first words.\<close>

definition apart :: "u64 \<Rightarrow> u64 \<Rightarrow> bool" where
  "apart a b \<longleftrightarrow> 8 \<le> a - b \<and> 8 \<le> b - a"

lemma apart_sym: "apart a b \<longleftrightarrow> apart b a"
  by (auto simp: apart_def)

lemma load64_cong:
  assumes "\<And>i. i < 8 \<Longrightarrow> m (a + i) = m' (a + i)"
  shows "load64 m a = load64 m' a"
  using assms [of 0] by (simp add: load64_def assms)

lemma byte_of_word: "ucast (ucast (x :: u64) :: u8) = (take_bit 8 x :: u64)"
  by (rule bit_word_eqI) (auto simp: bit_simps)

lemma bytes_join:
  "take_bit 8 v OR push_bit 8 (take_bit 8 (drop_bit 8 v)) OR push_bit 16 (take_bit 8 (drop_bit 16 v))
   OR push_bit 24 (take_bit 8 (drop_bit 24 v)) OR push_bit 32 (take_bit 8 (drop_bit 32 v))
   OR push_bit 40 (take_bit 8 (drop_bit 40 v)) OR push_bit 48 (take_bit 8 (drop_bit 48 v))
   OR push_bit 56 (take_bit 8 (drop_bit 56 v)) = (v :: u64)"
proof (rule bit_word_eqI)
  fix n assume "n < LENGTH(64)"
  then consider "n < 8" | "8 \<le> n" "n < 16" | "16 \<le> n" "n < 24" | "24 \<le> n" "n < 32" | "32 \<le> n" "n < 40"
    | "40 \<le> n" "n < 48" | "48 \<le> n" "n < 56" | "56 \<le> n" "n < 64" by fastforce
  then show "bit (take_bit 8 v OR push_bit 8 (take_bit 8 (drop_bit 8 v)) OR push_bit 16 (take_bit 8 (drop_bit 16 v))
   OR push_bit 24 (take_bit 8 (drop_bit 24 v)) OR push_bit 32 (take_bit 8 (drop_bit 32 v))
   OR push_bit 40 (take_bit 8 (drop_bit 40 v)) OR push_bit 48 (take_bit 8 (drop_bit 48 v))
   OR push_bit 56 (take_bit 8 (drop_bit 56 v))) n = bit v n"
    by cases (simp_all add: bit_simps less_diff_conv2)
qed

lemma load_store_same [simp]: "load64 (store64 a v m) a = v"
proof -
  have "load64 (store64 a v m) a = take_bit 8 v OR push_bit 8 (take_bit 8 (drop_bit 8 v)) OR push_bit 16 (take_bit 8 (drop_bit 16 v))
   OR push_bit 24 (take_bit 8 (drop_bit 24 v)) OR push_bit 32 (take_bit 8 (drop_bit 32 v))
   OR push_bit 40 (take_bit 8 (drop_bit 40 v)) OR push_bit 48 (take_bit 8 (drop_bit 48 v))
   OR push_bit 56 (take_bit 8 (drop_bit 56 v))"
    by (simp add: load64_def store64_def byte_of_word)
  then show ?thesis by (simp only: bytes_join)
qed

lemma within_word:
  fixes a b i :: u64
  assumes "apart a b" and "i < 8"
  shows "\<not> b + i - a < 8"
proof -
  have d: "8 \<le> unat (b - a)" "8 \<le> unat (a - b)"
    using assms(1) by (simp_all add: apart_def word_le_nat_alt)
  have "(unat (b - a) + unat (a - b)) mod 2 ^ 64 = unat (b - a + (a - b))"
    by (simp only: unat_word_ariths) simp
  then have z: "(unat (b - a) + unat (a - b)) mod 2 ^ 64 = 0" by simp
  have s: "unat (b - a) + unat (a - b) = 2 ^ 64"
  proof -
    from z obtain q where q: "unat (b - a) + unat (a - b) = 2 ^ 64 * q" by (auto simp: mod_eq_0_iff_dvd)
    have "2 ^ 64 * q < 2 ^ 64 * 2" unfolding q [symmetric]
      using add_strict_mono [OF unat_u64_less [of "b - a"] unat_u64_less [of "a - b"]] by simp
    moreover have "0 < 2 ^ 64 * q" unfolding q [symmetric] using d(1) by simp
    ultimately have "q = 1" by simp
    then show ?thesis using q by simp
  qed
  have i: "unat i < 8" using assms(2) by (simp add: word_less_nat_alt)
  have "unat (b - a) + unat i < 2 ^ 64" using d(2) i unfolding s [symmetric] by linarith
  then have "unat (b - a + i) = unat (b - a) + unat i" by (intro unat_plus_no_wrap) simp
  moreover have e: "b + i - a = b - a + i" by simp
  ultimately show ?thesis using d(1) unfolding e word_less_nat_alt by simp
qed

lemma load_store_apart [simp]: "apart a b \<Longrightarrow> load64 (store64 a v m) b = load64 m b"
  by (rule load64_cong) (simp add: store64_def within_word)

section \<open>The list operations\<close>

definition SLL_Next :: "u64 \<Rightarrow> mem \<Rightarrow> u64 option" where
  "SLL_Next t m = do { ASSERT (t \<noteq> 0); Some (load64 m t) }"

definition SLL_SetNext :: "u64 \<Rightarrow> u64 \<Rightarrow> mem \<Rightarrow> mem option" where
  "SLL_SetNext t n m = do { ASSERT (t \<noteq> 0); Some (store64 t n m) }"

text \<open>The head pointer a function updates through its \<open>void **\<close> argument is passed and returned.\<close>

definition SLL_Push :: "u64 \<Rightarrow> u64 \<Rightarrow> mem \<Rightarrow> (u64 \<times> mem) option" where
  "SLL_Push list element m = do { m \<leftarrow> SLL_SetNext element list m; Some (element, m) }"

definition SLL_Pop :: "u64 \<Rightarrow> mem \<Rightarrow> (u64 \<times> u64) option" where
  "SLL_Pop list m = do { rest \<leftarrow> SLL_Next list m; Some (list, rest) }"

primrec SLL_skip :: "nat \<Rightarrow> u64 \<Rightarrow> mem \<Rightarrow> u64 option" where
  "SLL_skip 0 tmp m = Some tmp"
| "SLL_skip (Suc i) tmp m = do { tmp \<leftarrow> SLL_Next tmp m; SLL_skip i tmp m }"

text \<open>Results: \<open>start\<close>, \<open>end\<close>, the new head and the memory.\<close>

definition SLL_PopRange :: "u64 \<Rightarrow> int \<Rightarrow> mem \<Rightarrow> (u64 \<times> u64 \<times> u64 \<times> mem) option" where
  "SLL_PopRange head N m =
     (if N = 0 then Some (0, 0, head, m)
      else do {
        tmp \<leftarrow> SLL_skip (nat (N - 1)) head m;
        rest \<leftarrow> SLL_Next tmp m;
        m \<leftarrow> SLL_SetNext tmp 0 m;
        Some (head, tmp, rest, m) })"

definition SLL_PushRange :: "u64 \<Rightarrow> u64 \<Rightarrow> u64 \<Rightarrow> mem \<Rightarrow> (u64 \<times> mem) option" where
  "SLL_PushRange head start fin m =
     (if start = 0 then Some (head, m)
      else do { m \<leftarrow> SLL_SetNext fin head m; Some (start, m) })"

text \<open>\<open>count\<close> is an \<open>int\<close>; the loop does not end on a cyclic list.\<close>

partial_function (option) SLL_Size_loop :: "mem \<Rightarrow> u64 \<Rightarrow> u32 \<Rightarrow> u32 option" where
  "SLL_Size_loop m head count =
     (if head = 0 then Some count else SLL_Size_loop m (load64 m head) (count + 1))"

declare SLL_Size_loop.simps [code]

definition SLL_Size :: "u64 \<Rightarrow> mem \<Rightarrow> u64 option" where
  "SLL_Size head m = map_option scast (SLL_Size_loop m head 0)"

section \<open>Lists of objects\<close>

text \<open>Free objects: not null, and far enough apart for their links not to overlap.\<close>

fun objs :: "u64 list \<Rightarrow> bool" where
  "objs [] = True"
| "objs (x # xs) = (x \<noteq> 0 \<and> list_all (apart x) xs \<and> objs xs)"

fun sll :: "mem \<Rightarrow> u64 \<Rightarrow> u64 list \<Rightarrow> bool" where
  "sll m p [] = (p = 0)"
| "sll m p (x # xs) = (p = x \<and> x \<noteq> 0 \<and> sll m (load64 m x) xs)"

lemma objs_append:
  "objs (xs @ ys) \<longleftrightarrow> objs xs \<and> objs ys \<and> (\<forall>x \<in> set xs. \<forall>y \<in> set ys. apart x y)"
  by (induction xs) (auto simp: list_all_iff)

lemma sll_cong: "(\<And>x. x \<in> set xs \<Longrightarrow> load64 m x = load64 m' x) \<Longrightarrow> sll m p xs = sll m' p xs"
  by (induction xs arbitrary: p) auto

lemma sll_store:
  "list_all (apart a) xs \<Longrightarrow> sll (store64 a v m) p xs = sll m p xs"
  by (rule sll_cong) (auto simp: list_all_iff)

lemma sll_0: "sll m 0 xs \<longleftrightarrow> xs = []"
  by (cases xs) auto

text \<open>A list segment: from \<open>p\<close> through the objects \<open>xs\<close> to \<open>q\<close>.\<close>

fun seg :: "mem \<Rightarrow> u64 \<Rightarrow> u64 list \<Rightarrow> u64 \<Rightarrow> bool" where
  "seg m p [] q = (p = q)"
| "seg m p (x # xs) q = (p = x \<and> x \<noteq> 0 \<and> seg m (load64 m x) xs q)"

lemma seg_append: "seg m p (xs @ ys) q \<longleftrightarrow> (\<exists>r. seg m p xs r \<and> seg m r ys q)"
  by (induction xs arbitrary: p) auto

lemma sll_seg: "sll m p xs \<longleftrightarrow> seg m p xs 0"
  by (induction xs arbitrary: p) auto

lemma seg_cong: "(\<And>x. x \<in> set xs \<Longrightarrow> load64 m x = load64 m' x) \<Longrightarrow> seg m p xs q = seg m' p xs q"
  by (induction xs arbitrary: p) auto

lemma SLL_skip_seg:
  "seg m p xs q \<Longrightarrow> SLL_skip (length xs) p m = Some q"
  by (induction xs arbitrary: p) (auto simp: SLL_Next_def)

section \<open>What the operations do to a list\<close>

lemma SLL_Push_spec:
  assumes "sll m p xs" and "objs (x # xs)"
  shows "\<exists>m'. SLL_Push p x m = Some (x, m') \<and> sll m' x (x # xs) \<and>
    (\<forall>b. apart x b \<longrightarrow> load64 m' b = load64 m b)"
  using assms by (simp add: SLL_Push_def SLL_SetNext_def sll_store)

lemma SLL_Pop_spec:
  assumes "sll m p (x # xs)"
  shows "\<exists>q. SLL_Pop p m = Some (x, q) \<and> sll m q xs"
  using assms by (simp add: SLL_Pop_def SLL_Next_def)

lemma SLL_PopRange_spec:
  assumes "sll m p (xs @ ys)" and "objs (xs @ ys)" and "xs \<noteq> []"
  shows "\<exists>q m'. SLL_PopRange p (int (length xs)) m = Some (p, last xs, q, m') \<and> hd xs = p \<and>
    sll m' p xs \<and> sll m' q ys \<and> (\<forall>b. apart (last xs) b \<longrightarrow> load64 m' b = load64 m b)"
proof -
  obtain zs z where xs: "xs = zs @ [z]" using assms(3) by (metis append_butlast_last_id)
  from assms(1) obtain q where q: "seg m p zs z" "z \<noteq> 0" "load64 m z = q" "sll m q ys"
    by (auto simp: xs sll_seg seg_append)
  have ap: "list_all (apart z) zs" "list_all (apart z) ys"
    using assms(2) apart_sym by (auto simp: xs objs_append list_all_iff)
  have "SLL_skip (nat (int (length xs) - 1)) p m = Some z"
    using SLL_skip_seg [OF q(1)] by (simp add: xs)
  moreover have "seg (store64 z 0 m) p zs z"
    using q(1) seg_cong [of zs m "store64 z 0 m" p z] ap(1) by (simp add: list_all_iff)
  moreover have "hd xs = p" using q(1) xs by (cases zs) auto
  ultimately show ?thesis
    using q ap(2) by (simp add: SLL_PopRange_def SLL_Next_def SLL_SetNext_def xs sll_seg seg_append)
      (simp add: sll_store flip: sll_seg)
qed

lemma SLL_PushRange_spec:
  assumes "sll m s xs" and "sll m p ys" and "objs (xs @ ys)" and "xs \<noteq> []"
  shows "\<exists>m'. SLL_PushRange p s (last xs) m = Some (s, m') \<and> sll m' s (xs @ ys) \<and>
    (\<forall>b. apart (last xs) b \<longrightarrow> load64 m' b = load64 m b)"
proof -
  obtain zs z where xs: "xs = zs @ [z]" using assms(4) by (metis append_butlast_last_id)
  have s: "seg m s zs z" "z \<noteq> 0" using assms(1) by (auto simp: xs sll_seg seg_append)
  have ap: "list_all (apart z) zs" "list_all (apart z) ys"
    using assms(3) apart_sym by (auto simp: xs objs_append list_all_iff)
  have "seg (store64 z p m) s zs z"
    using s(1) seg_cong [of zs m "store64 z p m" s z] ap(1) by (simp add: list_all_iff)
  moreover have "sll (store64 z p m) p ys" using assms(2) ap(2) by (simp add: sll_store)
  moreover have "s \<noteq> 0" using s by (cases zs) auto
  ultimately show ?thesis using s(2)
    by (simp add: SLL_PushRange_def SLL_SetNext_def xs sll_seg seg_append)
qed

lemma SLL_Size_loop_sll:
  "sll m p xs \<Longrightarrow> SLL_Size_loop m p c = Some (c + word_of_nat (length xs))"
proof (induction xs arbitrary: p c)
  case Nil
  then show ?case by (subst SLL_Size_loop.simps) simp
next
  case (Cons x xs)
  then show ?case by (subst SLL_Size_loop.simps) (simp add: algebra_simps)
qed

text \<open>
  C36. \<open>SLL_PopRange\<close> splits a list of free objects in two: the first \<open>N\<close> objects become a
  null-terminated list of their own with the reported first and last object, the rest stays in
  order, and \<open>SLL_PushRange\<close> of the detached range puts back the original list.
\<close>

theorem SLL_PopRange_PushRange:
  assumes "sll m p (xs @ ys)" and "objs (xs @ ys)" and "xs \<noteq> []"
  shows "\<exists>q m1 m2. SLL_PopRange p (int (length xs)) m = Some (hd xs, last xs, q, m1) \<and>
    sll m1 (hd xs) xs \<and> sll m1 q ys \<and>
    SLL_PushRange q (hd xs) (last xs) m1 = Some (p, m2) \<and> sll m2 p (xs @ ys)"
proof -
  obtain q m1 where 1: "SLL_PopRange p (int (length xs)) m = Some (p, last xs, q, m1)" "hd xs = p"
    "sll m1 p xs" "sll m1 q ys" using SLL_PopRange_spec [OF assms] by blast
  from SLL_PushRange_spec [OF 1(3,4) assms(2,3)] obtain m2 where
    "SLL_PushRange q p (last xs) m1 = Some (p, m2)" "sll m2 p (xs @ ys)" by blast
  with 1 show ?thesis by auto
qed

lemma SLL_PopRange_PushRange_witness:
  "\<exists>q m1 m2. SLL_PopRange 16 2 (store64 16 32 (store64 32 48 (store64 48 0 (\<lambda>_. 0)))) = Some (16, 32, q, m1) \<and>
     sll m1 q [48] \<and> SLL_PushRange q 16 32 m1 = Some (16, m2) \<and> sll m2 16 [16, 32, 48]"
proof -
  have "sll (store64 16 32 (store64 32 48 (store64 48 0 (\<lambda>_. 0)))) 16 ([16, 32] @ [48])"
    "objs ([16, 32] @ [48])" by (simp_all add: apart_def)
  from SLL_PopRange_PushRange [OF this] show ?thesis by auto
qed

end
