(* ===== verification/MThreads.thy ===== *)
theory MThreads
  imports Prelude
begin

text \<open>
  \<open>mthreads.cpp\<close>: thread-specific data that works whether or not the thread library is linked
  in. When it is, a key of \<open>pthread_key_create\<close> names one value per thread, null at first; when
  it is not, there is one thread and the file keeps up to 16 values in an array.
\<close>

definition MAX_PERTHREAD_VALS :: nat where "MAX_PERTHREAD_VALS = 16"

record mthreads =
  pthread_linked :: bool
  pthread_keys :: nat
  pthread_vals :: "nat \<Rightarrow> u64 \<Rightarrow> u64"
  next_key :: nat
  specific_vals :: "nat \<Rightarrow> u64"

definition mthreads_init :: "bool \<Rightarrow> mthreads" where
  "mthreads_init linked = \<lparr>pthread_linked = linked, pthread_keys = 0, pthread_vals = \<lambda>_ _. 0,
     next_key = 0, specific_vals = \<lambda>_. 0\<rparr>"

text \<open>
  The key, or \<open>None\<close> for an error code: the library has \<open>PTHREAD_KEYS_MAX\<close> keys and returns \<open>EAGAIN\<close> when they
  are all taken. Without it, one key too many is a failed \<open>assert\<close>.
\<close>

definition PTHREAD_KEYS_MAX :: nat where "PTHREAD_KEYS_MAX = 1024"

definition perftools_pthread_key_create :: "mthreads \<Rightarrow> (nat option \<times> mthreads) option" where
  "perftools_pthread_key_create s =
     (if pthread_linked s then
        Some (if pthread_keys s < PTHREAD_KEYS_MAX then (Some (pthread_keys s), s\<lparr>pthread_keys := Suc (pthread_keys s)\<rparr>)
              else (None, s))
      else do { ASSERT (next_key s < MAX_PERTHREAD_VALS);
                Some (Some (next_key s), s\<lparr>next_key := Suc (next_key s)\<rparr>) })"

definition perftools_pthread_getspecific :: "u64 \<Rightarrow> nat \<Rightarrow> mthreads \<Rightarrow> u64 option" where
  "perftools_pthread_getspecific me key s =
     (if pthread_linked s then Some (pthread_vals s key me)
      else do { ASSERT (key < MAX_PERTHREAD_VALS); Some (specific_vals s key) })"

definition perftools_pthread_setspecific :: "u64 \<Rightarrow> nat \<Rightarrow> u64 \<Rightarrow> mthreads \<Rightarrow> mthreads option" where
  "perftools_pthread_setspecific me key val s =
     (if pthread_linked s
      then Some (s\<lparr>pthread_vals := (pthread_vals s)(key := (pthread_vals s key)(me := val))\<rparr>)
      else do { ASSERT (key < MAX_PERTHREAD_VALS);
                Some (s\<lparr>specific_vals := (specific_vals s)(key := val)\<rparr>) })"

text \<open>
  \<open>perftools_pthread_once\<close>: the control word is 0 before the first call. The thread library's
  \<open>pthread_once\<close> runs the routine at the first call as well.
\<close>

definition perftools_pthread_once :: "('s \<Rightarrow> 's) \<Rightarrow> int \<times> 's \<Rightarrow> int \<times> 's" where
  "perftools_pthread_once init_routine = (\<lambda>(ctl, s). if ctl = 0 then (1, init_routine s) else (ctl, s))"

text \<open>
  Thread-specific values are read back: a value set under a key a previous
  \<open>perftools_pthread_key_create\<close> returned is what the same thread reads under that key, a later
  key never shares its slot, and with the thread library another thread does not see it.
\<close>

theorem getspecific_after_setspecific:
  assumes "perftools_pthread_key_create s = Some (Some key, s1)"
    and "perftools_pthread_key_create s1 = Some (Some key2, s2)"
    and "perftools_pthread_setspecific me key v s2 = Some s3"
  shows "perftools_pthread_getspecific me key s3 = Some v \<and>
    perftools_pthread_getspecific t key2 s3 = perftools_pthread_getspecific t key2 s2 \<and>
    (pthread_linked s \<and> t \<noteq> me \<longrightarrow>
      perftools_pthread_getspecific t key s3 = perftools_pthread_getspecific t key s2)"
  using assms
  by (auto simp: perftools_pthread_key_create_def perftools_pthread_setspecific_def
      perftools_pthread_getspecific_def split: if_splits)

lemma getspecific_after_setspecific_witness:
  "\<exists>s1 s2 s3. perftools_pthread_key_create (mthreads_init False) = Some (Some 0, s1) \<and>
     perftools_pthread_key_create s1 = Some (Some 1, s2) \<and>
     perftools_pthread_setspecific 7 0 4096 s2 = Some s3 \<and>
     perftools_pthread_getspecific 7 0 s3 = Some 4096"
  using getspecific_after_setspecific [where s = "mthreads_init False" and me = 7 and v = 4096 and key = 0 and ?key2.0 = 1]
  by (simp add: mthreads_init_def perftools_pthread_key_create_def perftools_pthread_setspecific_def
      MAX_PERTHREAD_VALS_def)

end
