(* ===== verification/CentralCache.thy ===== *)
theory CentralCache
  imports PageHeap Memory MThreads
begin

text \<open>
  The state of the whole allocator, and \<open>TCMalloc_Central_FreeList\<close>: the free objects of one
  size class shared by all threads, kept in spans and in a transfer cache of ready-made lists.

  The state extends the page heap's record. \<open>central_cache[cl]\<close> is \<open>central h cl\<close> with its
  two span lists headed by \<open>EmptyHead cl\<close> and \<open>NonemptyHead cl\<close>. Locks are not part of the
  state: every operation is one step of a single-threaded execution.
\<close>

section \<open>State\<close>

definition kNumTransferEntries :: int where "kNumTransferEntries = 170"

record central_free_list =
  size_class :: u64
  counter :: u64
  tc_slots :: "nat \<Rightarrow> u64 \<times> u64"
  used_slots :: int
  cache_size :: int

record free_list =
  fl_list :: u64
  fl_length :: u16
  fl_lowater :: u16

record thread_cache =
  tc_size :: u64
  tc_tid :: u64
  in_setspecific :: bool
  tc_list :: "nat \<Rightarrow> free_list"
  rnd :: u32
  bytes_until_sample :: u64
  tc_next :: u64
  tc_prev :: u64

datatype hook_event = NewEvent u64 u64 u64 | DeleteEvent u64 u64

record tcmalloc = page_heap +
  tables :: size_tables
  mem :: mem
  central :: "nat \<Rightarrow> central_free_list"
  race_counter :: int
  caches :: "u64 \<Rightarrow> thread_cache"
  threadheap_allocator :: pha
  thread_heaps :: u64
  thread_heap_count :: int
  overall_thread_cache_size :: u64
  per_thread_cache_size :: u64
  tsd_inited :: bool
  phinited :: bool
  heap_key :: nat
  mth :: mthreads
  sample_period :: u64
  last_flag_value :: int
  errno :: int
  valloc_pagesize :: u64
  new_hook :: u64
  delete_hook :: u64
  hook_trace :: "hook_event list"

abbreviation upd_central :: "nat \<Rightarrow> (central_free_list \<Rightarrow> central_free_list) \<Rightarrow> 'a tcmalloc_scheme \<Rightarrow> 'a tcmalloc_scheme" where
  "upd_central cl f h \<equiv> h\<lparr>central := (central h)(cl := f (central h cl))\<rparr>"

text \<open>The number of objects a transfer moves for the class of this list.\<close>

definition batch_of :: "nat \<Rightarrow> 'a tcmalloc_scheme \<Rightarrow> int" where
  "batch_of cl h = num_objects_to_move (tables h) ! unat (size_class (central h cl))"

definition Central_Init :: "nat \<Rightarrow> 'a tcmalloc_scheme \<Rightarrow> 'a tcmalloc_scheme option" where
  "Central_Init cl h = do {
     h \<leftarrow> on_spans (DLL_Init (EmptyHead cl)) h;
     h \<leftarrow> on_spans (DLL_Init (NonemptyHead cl)) h;
     Some (upd_central cl (\<lambda>c. c\<lparr>size_class := word_of_nat cl, counter := 0, cache_size := 1, used_slots := 0\<rparr>) h) }"

section \<open>Objects back to their spans\<close>

definition ReleaseToSpans :: "nat \<Rightarrow> u64 \<Rightarrow> 'a tcmalloc_scheme \<Rightarrow> 'a tcmalloc_scheme option" where
  "ReleaseToSpans cl object h = do {
     s \<leftarrow> GetDescriptor (drop_bit kPageShift object) h;
     ASSERT (s \<noteq> Null);
     x \<leftarrow> rd s (spans_of h);
     ASSERT (span_refcount x > 0);
     h \<leftarrow> (if span_objects x = 0
           then do { h \<leftarrow> on_spans (DLL_Remove s) h; on_spans (DLL_Prepend (NonemptyHead cl) s) h }
           else Some h);
     let h = upd_central cl (\<lambda>c. c\<lparr>counter := counter c + 1\<rparr>) h;
     h \<leftarrow> on_spans (wr s (\<lambda>x. x\<lparr>span_refcount := span_refcount x - 1\<rparr>)) h;
     x \<leftarrow> rd s (spans_of h);
     if span_refcount x = 0 then do {
       let object_size = ByteSizeForClass (tables h) (ucast (span_sizeclass x));
       ASSERT (object_size \<noteq> 0);
       let h = upd_central cl (\<lambda>c. c\<lparr>counter := counter c - push_bit kPageShift (span_length x) div object_size\<rparr>) h;
       h \<leftarrow> on_spans (DLL_Remove s) h;
       PH_Delete s h }
     else do {
       m \<leftarrow> SLL_SetNext object (span_objects x) (mem h);
       on_spans (wr s (\<lambda>x. x\<lparr>span_objects := object\<rparr>)) (h\<lparr>mem := m\<rparr>) } }"

partial_function (option) ReleaseListToSpans :: "nat \<Rightarrow> u64 \<Rightarrow> 'a tcmalloc_scheme \<Rightarrow> 'a tcmalloc_scheme option" where
  "ReleaseListToSpans cl start h =
     (if start = 0 then Some h
      else Option.bind (SLL_Next start (mem h)) (\<lambda>next.
           Option.bind (ReleaseToSpans cl start h) (\<lambda>h.
           ReleaseListToSpans cl next h)))"

declare ReleaseListToSpans.simps [code]

section \<open>The transfer cache\<close>

definition ShrinkCache :: "nat \<Rightarrow> bool \<Rightarrow> 'a tcmalloc_scheme \<Rightarrow> (bool \<times> 'a tcmalloc_scheme) option" where
  "ShrinkCache cl force h =
     (if cache_size (central h cl) = 0 then Some (False, h)
      else if \<not> force \<and> used_slots (central h cl) = cache_size (central h cl) then Some (False, h)
      else do {
        ASSERT (used_slots (central h cl) \<le> cache_size (central h cl));
        ASSERT (0 \<le> cache_size (central h cl));
        if cache_size (central h cl) = 0 then Some (False, h)
        else if used_slots (central h cl) = cache_size (central h cl) then
          if \<not> force then Some (False, h)
          else do {
            let h = upd_central cl (\<lambda>c. c\<lparr>cache_size := cache_size c - 1, used_slots := used_slots c - 1\<rparr>) h;
            h \<leftarrow> ReleaseListToSpans cl (fst (tc_slots (central h cl) (nat (used_slots (central h cl))))) h;
            Some (True, h) }
        else Some (True, upd_central cl (\<lambda>c. c\<lparr>cache_size := cache_size c - 1\<rparr>) h) })"

text \<open>
  \<open>race_counter\<close> is a static of \<open>EvictRandomSizeClass\<close>. The loop that subtracts \<open>kNumClasses\<close>
  while the counter is too large is the remainder.
\<close>

definition EvictRandomSizeClass :: "u64 \<Rightarrow> bool \<Rightarrow> 'a tcmalloc_scheme \<Rightarrow> (bool \<times> 'a tcmalloc_scheme) option" where
  "EvictRandomSizeClass locked_size_class force h = do {
     let t = race_counter h;
     let h = h\<lparr>race_counter := t + 1\<rparr>;
     let (t, h) = (if t \<ge> int kNumClasses
                   then (t mod int kNumClasses, h\<lparr>race_counter := t mod int kNumClasses\<rparr>) else (t, h));
     ASSERT (t \<ge> 0);
     ASSERT (t < int kNumClasses);
     if t = to_int32 locked_size_class then Some (False, h) else ShrinkCache (nat t) force h }"

definition MakeCacheSpace :: "nat \<Rightarrow> 'a tcmalloc_scheme \<Rightarrow> (bool \<times> 'a tcmalloc_scheme) option" where
  "MakeCacheSpace cl h =
     (if used_slots (central h cl) < cache_size (central h cl) then Some (True, h)
      else if cache_size (central h cl) = kNumTransferEntries then Some (False, h)
      else do {
        (ok, h) \<leftarrow> EvictRandomSizeClass (size_class (central h cl)) False h;
        (ok, h) \<leftarrow> (if ok then Some (True, h) else EvictRandomSizeClass (size_class (central h cl)) True h);
        if ok then Some (True, upd_central cl (\<lambda>c. c\<lparr>cache_size := cache_size c + 1\<rparr>) h)
        else Some (False, h) })"

definition InsertRange :: "nat \<Rightarrow> u64 \<Rightarrow> u64 \<Rightarrow> int \<Rightarrow> 'a tcmalloc_scheme \<Rightarrow> 'a tcmalloc_scheme option" where
  "InsertRange cl start fin N h = do {
     (room, h) \<leftarrow> (if N = batch_of cl h then MakeCacheSpace cl h else Some (False, h));
     if room then do {
       let slot = used_slots (central h cl);
       let h = upd_central cl (\<lambda>c. c\<lparr>used_slots := used_slots c + 1\<rparr>) h;
       ASSERT (slot \<ge> 0);
       ASSERT (slot < kNumTransferEntries);
       Some (upd_central cl (\<lambda>c. c\<lparr>tc_slots := (tc_slots c)(nat slot := (start, fin))\<rparr>) h) }
     else ReleaseListToSpans cl start h }"

section \<open>Objects from spans\<close>

definition FetchFromSpans :: "nat \<Rightarrow> 'a tcmalloc_scheme \<Rightarrow> (u64 \<times> 'a tcmalloc_scheme) option" where
  "FetchFromSpans cl h =
     (if DLL_IsEmpty (NonemptyHead cl) (spans_of h) then Some (0, h)
      else do {
        let s = span_next (spans_of h (NonemptyHead cl));
        x \<leftarrow> rd s (spans_of h);
        ASSERT (span_objects x \<noteq> 0);
        h \<leftarrow> on_spans (wr s (\<lambda>x. x\<lparr>span_refcount := span_refcount x + 1\<rparr>)) h;
        let result = span_objects x;
        rest \<leftarrow> SLL_Next result (mem h);
        h \<leftarrow> on_spans (wr s (\<lambda>x. x\<lparr>span_objects := rest\<rparr>)) h;
        h \<leftarrow> (if rest = 0
              then do { h \<leftarrow> on_spans (DLL_Remove s) h; on_spans (DLL_Prepend (EmptyHead cl) s) h }
              else Some h);
        Some (result, upd_central cl (\<lambda>c. c\<lparr>counter := counter c - 1\<rparr>) h) })"

text \<open>
  Cutting a fresh span into objects. \<open>tail\<close> is the word the next object's address goes to: at
  first \<open>span->objects\<close> (here \<open>None\<close>), then the first word of the last object.
\<close>

definition put_tail :: "u64 option \<Rightarrow> u64 \<Rightarrow> u64 \<times> mem \<Rightarrow> (u64 \<times> mem) option" where
  "put_tail tail v = (\<lambda>(objects, m). case tail of
      None \<Rightarrow> Some (v, m)
    | Some a \<Rightarrow> map_option (Pair objects) (SLL_SetNext a v m))"

partial_function (option) Populate_loop ::
  "u64 \<Rightarrow> u64 \<Rightarrow> u64 \<Rightarrow> u64 option \<Rightarrow> u64 \<times> mem \<Rightarrow> nat \<Rightarrow> (u64 \<times> u64 option \<times> (u64 \<times> mem) \<times> nat) option" where
  "Populate_loop sz limit ptr tail st num =
     (if ptr + sz \<le> limit
      then Option.bind (put_tail tail ptr st) (\<lambda>st. Populate_loop sz limit (ptr + sz) (Some ptr) st (Suc num))
      else Some (ptr, tail, st, num))"

declare Populate_loop.simps [code]

definition Populate :: "nat \<Rightarrow> tc_config \<Rightarrow> 'a tcmalloc_scheme \<Rightarrow> 'a tcmalloc_scheme option" where
  "Populate cl cfg h = do {
     let npages = class_to_pages (tables h) ! unat (size_class (central h cl));
     (s, h) \<leftarrow> PH_New cfg npages h;
     h \<leftarrow> (if s \<noteq> Null then RegisterSizeClass s (size_class (central h cl)) h else Some h);
     if s = Null then Some h
     else do {
       x \<leftarrow> rd s (spans_of h);
       let ptr = push_bit kPageShift (span_start x);
       let limit = ptr + push_bit kPageShift npages;
       let sz = ByteSizeForClass (tables h) (size_class (central h cl));
       (ptr, tail, st, num) \<leftarrow> Populate_loop sz limit ptr None (span_objects x, mem h) 0;
       ASSERT (ptr \<le> limit);
       (objects, m) \<leftarrow> put_tail tail 0 st;
       h \<leftarrow> on_spans (wr s (\<lambda>x. x\<lparr>span_objects := objects, span_refcount := 0\<rparr>)) (h\<lparr>mem := m\<rparr>);
       h \<leftarrow> on_spans (DLL_Prepend (NonemptyHead cl) s) h;
       Some (upd_central cl (\<lambda>c. c\<lparr>counter := counter c + word_of_nat num\<rparr>) h) } }"

definition FetchFromSpansSafe :: "nat \<Rightarrow> tc_config \<Rightarrow> 'a tcmalloc_scheme \<Rightarrow> (u64 \<times> 'a tcmalloc_scheme) option" where
  "FetchFromSpansSafe cl cfg h = do {
     (t, h) \<leftarrow> FetchFromSpans cl h;
     if t = 0 then do { h \<leftarrow> Populate cl cfg h; FetchFromSpans cl h } else Some (t, h) }"

fun RemoveRange_loop :: "nat \<Rightarrow> nat \<Rightarrow> u64 \<Rightarrow> int \<Rightarrow> 'a tcmalloc_scheme \<Rightarrow> (u64 \<times> int \<times> 'a tcmalloc_scheme) option" where
  "RemoveRange_loop 0 cl head count h = Some (head, count, h)"
| "RemoveRange_loop (Suc n) cl head count h = do {
     (t, h) \<leftarrow> FetchFromSpans cl h;
     if t = 0 then Some (head, count, h)
     else do {
       (head, m) \<leftarrow> SLL_Push head t (mem h);
       RemoveRange_loop n cl head (count + 1) (h\<lparr>mem := m\<rparr>) } }"

text \<open>Results: \<open>start\<close>, \<open>end\<close> and \<open>N\<close>. The loop fetches at most \<open>num - 1\<close> further objects.\<close>

definition RemoveRange :: "nat \<Rightarrow> tc_config \<Rightarrow> int \<Rightarrow> 'a tcmalloc_scheme \<Rightarrow> (u64 \<times> u64 \<times> int \<times> 'a tcmalloc_scheme) option" where
  "RemoveRange cl cfg num h = do {
     ASSERT (num > 0);
     if num = batch_of cl h \<and> used_slots (central h cl) > 0 then do {
       let h = upd_central cl (\<lambda>c. c\<lparr>used_slots := used_slots c - 1\<rparr>) h;
       let slot = used_slots (central h cl);
       ASSERT (slot \<ge> 0);
       let (head, tail) = tc_slots (central h cl) (nat slot);
       Some (head, tail, num, h) }
     else do {
       (tail, h) \<leftarrow> FetchFromSpansSafe cl cfg h;
       if tail = 0 then Some (0, 0, 0, h)
       else do {
         m \<leftarrow> SLL_SetNext tail 0 (mem h);
         (head, count, h) \<leftarrow> RemoveRange_loop (nat (num - 1)) cl tail 1 (h\<lparr>mem := m\<rparr>);
         Some (head, tail, count, h) } } }"

definition Central_length :: "nat \<Rightarrow> 'a tcmalloc_scheme \<Rightarrow> int" where
  "Central_length cl h = to_int32 (counter (central h cl))"

definition Central_tc_length :: "nat \<Rightarrow> 'a tcmalloc_scheme \<Rightarrow> int" where
  "Central_tc_length cl h = used_slots (central h cl) * batch_of cl h"

end
