(* ===== verification/SpanLists.thy ===== *)
theory SpanLists
  imports Spans
begin

text \<open>
  The circular doubly linked lists of spans, as lists.

  \<open>dll \<sigma> l xs\<close> says that in the store \<open>\<sigma>\<close> the list with the head \<open>l\<close> holds the spans \<open>xs\<close> in
  this order, with every \<open>next\<close> and \<open>prev\<close> consistent. Each list operation of \<open>tcmalloc.cpp\<close> is
  shown to return, to do on the list what its name says, and to leave alone every span outside
  the list and every field but the two links (\<open>span_data\<close>).
\<close>

fun chain :: "spans \<Rightarrow> sref \<Rightarrow> sref list \<Rightarrow> sref \<Rightarrow> bool" where
  "chain \<sigma> a [] b \<longleftrightarrow> span_next (\<sigma> a) = b \<and> span_prev (\<sigma> b) = a"
| "chain \<sigma> a (x # xs) b \<longleftrightarrow> span_next (\<sigma> a) = x \<and> span_prev (\<sigma> x) = a \<and> chain \<sigma> x xs b"

definition dll :: "spans \<Rightarrow> sref \<Rightarrow> sref list \<Rightarrow> bool" where
  "dll \<sigma> l xs \<longleftrightarrow> chain \<sigma> l xs l \<and> distinct (l # xs) \<and> Null \<notin> set (l # xs)"

definition span_data :: "span \<Rightarrow> span" where
  "span_data x = x\<lparr>span_next := Null, span_prev := Null\<rparr>"

lemma span_data_eqD:
  assumes "span_data x = span_data y"
  shows "span_start x = span_start y" "span_length x = span_length y" "span_free x = span_free y"
    "span_sizeclass x = span_sizeclass y" "span_objects x = span_objects y"
    "span_sample x = span_sample y" "span_refcount x = span_refcount y"
proof -
  have "\<And>f. f (span_data x) = f (span_data y)" using assms by simp
  from this [of span_start] this [of span_length] this [of span_free] this [of span_sizeclass]
    this [of span_objects] this [of span_sample] this [of span_refcount]
  show "span_start x = span_start y" "span_length x = span_length y" "span_free x = span_free y"
    "span_sizeclass x = span_sizeclass y" "span_objects x = span_objects y"
    "span_sample x = span_sample y" "span_refcount x = span_refcount y"
    by (simp_all add: span_data_def)
qed

text \<open>Two stores that differ only in links of the spans in \<open>X\<close>.\<close>

definition relinked :: "sref set \<Rightarrow> spans \<Rightarrow> spans \<Rightarrow> bool" where
  "relinked X \<sigma> \<sigma>' \<longleftrightarrow> (\<forall>x. span_data (\<sigma>' x) = span_data (\<sigma> x)) \<and> (\<forall>x. x \<notin> X \<longrightarrow> \<sigma>' x = \<sigma> x)"

lemma relinked_data:
  assumes "relinked X \<sigma> \<sigma>'"
  shows "span_start (\<sigma>' x) = span_start (\<sigma> x)" "span_length (\<sigma>' x) = span_length (\<sigma> x)"
    "span_free (\<sigma>' x) = span_free (\<sigma> x)" "span_sizeclass (\<sigma>' x) = span_sizeclass (\<sigma> x)"
    "span_sample (\<sigma>' x) = span_sample (\<sigma> x)" "span_objects (\<sigma>' x) = span_objects (\<sigma> x)"
    "span_refcount (\<sigma>' x) = span_refcount (\<sigma> x)"
  using assms span_data_eqD [of "\<sigma>' x" "\<sigma> x"] by (simp_all add: relinked_def)

lemma relinked_other: "relinked X \<sigma> \<sigma>' \<Longrightarrow> x \<notin> X \<Longrightarrow> \<sigma>' x = \<sigma> x"
  by (simp add: relinked_def)

lemma relinked_mono: "relinked X \<sigma> \<sigma>' \<Longrightarrow> X \<subseteq> Y \<Longrightarrow> relinked Y \<sigma> \<sigma>'"
  by (auto simp: relinked_def)

section \<open>Chains\<close>

lemma chain_append: "chain \<sigma> a (xs @ y # ys) b \<longleftrightarrow> chain \<sigma> a xs y \<and> chain \<sigma> y ys b"
  by (induction xs arbitrary: a) auto

lemma chain_prev: "chain \<sigma> a xs b \<Longrightarrow> span_prev (\<sigma> b) = last (a # xs)"
  by (induction xs arbitrary: a) auto

lemma chain_next: "chain \<sigma> a xs b \<Longrightarrow> span_next (\<sigma> a) = hd (xs @ [b])"
  by (cases xs) auto

lemma chain_cong:
  "chain \<sigma> a xs b \<Longrightarrow> (\<And>x. x \<in> set (a # xs) \<Longrightarrow> span_next (\<sigma>' x) = span_next (\<sigma> x)) \<Longrightarrow>
   (\<And>x. x \<in> set (xs @ [b]) \<Longrightarrow> span_prev (\<sigma>' x) = span_prev (\<sigma> x)) \<Longrightarrow> chain \<sigma>' a xs b"
  by (induction xs arbitrary: a) auto

lemma chain_end:
  "chain \<sigma> a xs b \<Longrightarrow> (\<And>x. x \<in> set (butlast (a # xs)) \<Longrightarrow> span_next (\<sigma>' x) = span_next (\<sigma> x)) \<Longrightarrow>
   (\<And>x. x \<in> set xs \<Longrightarrow> span_prev (\<sigma>' x) = span_prev (\<sigma> x)) \<Longrightarrow>
   span_next (\<sigma>' (last (a # xs))) = c \<Longrightarrow> span_prev (\<sigma>' c) = last (a # xs) \<Longrightarrow> chain \<sigma>' a xs c"
  by (induction xs arbitrary: a) (auto split: if_splits)

lemma dll_cong:
  "dll \<sigma> l xs \<Longrightarrow> (\<And>x. x \<in> set (l # xs) \<Longrightarrow> span_next (\<sigma>' x) = span_next (\<sigma> x) \<and> span_prev (\<sigma>' x) = span_prev (\<sigma> x)) \<Longrightarrow>
   dll \<sigma>' l xs"
  unfolding dll_def by (auto elim!: chain_cong)

lemma dll_relinked: "dll \<sigma> l xs \<Longrightarrow> relinked X \<sigma> \<sigma>' \<Longrightarrow> X \<inter> set (l # xs) = {} \<Longrightarrow> dll \<sigma>' l xs"
  by (erule dll_cong) (auto simp: relinked_def)

lemma dll_update:
  "dll \<sigma> l xs \<Longrightarrow> span_next y = span_next (\<sigma> s) \<Longrightarrow> span_prev y = span_prev (\<sigma> s) \<Longrightarrow> dll (\<sigma>(s := y)) l xs"
  by (erule dll_cong) auto

lemma dll_next: "dll \<sigma> l xs \<Longrightarrow> span_next (\<sigma> l) = hd (xs @ [l])"
  by (auto simp: dll_def dest: chain_next)

lemma DLL_IsEmpty_dll: "dll \<sigma> l xs \<Longrightarrow> DLL_IsEmpty l \<sigma> \<longleftrightarrow> xs = []"
  by (cases xs) (auto simp: DLL_IsEmpty_def dll_def)

section \<open>The operations\<close>

lemma DLL_Init_spec:
  "l \<noteq> Null \<Longrightarrow> \<exists>\<sigma>'. DLL_Init l \<sigma> = Some \<sigma>' \<and> dll \<sigma>' l [] \<and> relinked {l} \<sigma> \<sigma>'"
  by (simp add: DLL_Init_def wr_def dll_def relinked_def span_data_def)

lemma last_not_butlast: "distinct zs \<Longrightarrow> zs \<noteq> [] \<Longrightarrow> last zs \<notin> set (butlast zs)"
  by (induction zs rule: rev_induct) auto

lemma DLL_Remove_spec:
  assumes D: "dll \<sigma> l (xs @ s # ys)"
  shows "\<exists>\<sigma>'. DLL_Remove s \<sigma> = Some \<sigma>' \<and> dll \<sigma>' l (xs @ ys) \<and> relinked (set (l # xs @ s # ys)) \<sigma> \<sigma>' \<and>
    span_next (\<sigma>' s) = Null \<and> span_prev (\<sigma>' s) = Null"
proof -
  obtain p n where p': "p = last (l # xs)" and n': "n = hd (ys @ [l])" by blast
  have c: "chain \<sigma> l xs s" "chain \<sigma> s ys l" and di: "distinct (l # xs @ s # ys)"
    and nn: "Null \<notin> set (l # xs @ s # ys)"
    using D by (auto simp: dll_def chain_append)
  have p: "span_prev (\<sigma> s) = p" and n: "span_next (\<sigma> s) = n"
    using chain_prev [OF c(1)] chain_next [OF c(2)] by (simp_all only: p' n')
  have ps: "p \<in> set (l # xs)" unfolding p' by (rule last_in_set) simp
  have ns: "n \<in> set (l # ys)" unfolding n' by (cases ys) auto
  have ne: "s \<noteq> p" "s \<noteq> n" using di ps ns by auto
  have nul: "s \<noteq> Null" "p \<noteq> Null" "n \<noteq> Null" using nn ps ns by auto
  define \<sigma>1 where "\<sigma>1 = \<sigma>(p := (\<sigma> p)\<lparr>span_next := n\<rparr>)"
  define \<sigma>2 where "\<sigma>2 = \<sigma>1(n := (\<sigma>1 n)\<lparr>span_prev := p\<rparr>)"
  define \<sigma>3 where "\<sigma>3 = \<sigma>2(s := (\<sigma>2 s)\<lparr>span_prev := Null, span_next := Null\<rparr>)"
  have run: "DLL_Remove s \<sigma> = Some \<sigma>3"
    using ne nul by (simp add: DLL_Remove_def rd_def wr_def \<sigma>3_def \<sigma>2_def \<sigma>1_def p n)
  have nx: "span_next (\<sigma>3 x) = (if x = s then Null else if x = p then n else span_next (\<sigma> x))" for x
    by (simp add: \<sigma>3_def \<sigma>2_def \<sigma>1_def)
  have pv: "span_prev (\<sigma>3 x) = (if x = s then Null else if x = n then p else span_prev (\<sigma> x))" for x
    by (simp add: \<sigma>3_def \<sigma>2_def \<sigma>1_def)
  have "p \<notin> set (butlast (l # xs))" unfolding p' by (rule last_not_butlast) (use di in auto)
  moreover have "s \<notin> set (butlast (l # xs))" using di by (auto dest!: in_set_butlastD simp del: butlast.simps)
  ultimately have bl: "p \<notin> set (butlast (l # xs))" "s \<notin> set (butlast (l # xs))" by blast+
  have pnx: "span_next (\<sigma>3 p) = n" and npv: "span_prev (\<sigma>3 n) = p"
    using ne by (simp_all add: nx pv)
  have left: "chain \<sigma>3 l xs n"
  proof (rule chain_end [OF c(1)])
    show "span_next (\<sigma>3 x) = span_next (\<sigma> x)" if "x \<in> set (butlast (l # xs))" for x
      using that bl by (auto simp: nx simp del: butlast.simps)
    show "span_prev (\<sigma>3 x) = span_prev (\<sigma> x)" if "x \<in> set xs" for x
      using that ns di by (auto simp: pv)
  qed (use pnx npv in \<open>simp_all only: p'\<close>)
  have "chain \<sigma>3 l (xs @ ys) l"
  proof (cases ys)
    case Nil
    then show ?thesis using left by (simp add: n')
  next
    case (Cons y ys')
    have "chain \<sigma>3 y ys' l"
      by (rule chain_cong [where \<sigma> = \<sigma>]) (use c(2) di ps in \<open>auto simp: Cons nx pv n'\<close>)
    then show ?thesis using left by (simp add: Cons n' chain_append)
  qed
  then have "dll \<sigma>3 l (xs @ ys)" using di nn by (auto simp: dll_def)
  moreover have "relinked (set (l # xs @ s # ys)) \<sigma> \<sigma>3"
    using ps ns by (auto simp: relinked_def span_data_def \<sigma>3_def \<sigma>2_def \<sigma>1_def)
  ultimately show ?thesis using run by (auto simp: nx pv)
qed

lemma DLL_link_spec:
  assumes D: "dll \<sigma> l (xs @ ys)" and x: "x = last (l # xs)" and s: "s \<notin> set (l # xs @ ys)" "s \<noteq> Null"
  shows "\<exists>\<sigma>'. DLL_link x s \<sigma> = Some \<sigma>' \<and> dll \<sigma>' l (xs @ s # ys) \<and> relinked (insert s (set (l # xs @ ys))) \<sigma> \<sigma>'"
proof -
  obtain n where n': "n = hd (ys @ [l])" by blast
  have di: "distinct (l # xs @ ys)" and nn: "Null \<notin> set (l # xs @ ys)"
    using D by (auto simp: dll_def)
  have c: "chain \<sigma> l xs n \<and> (ys \<noteq> [] \<longrightarrow> chain \<sigma> n (tl ys) l)"
    using D by (cases ys) (auto simp: dll_def chain_append n')
  have xs: "x \<in> set (l # xs)" unfolding x by (rule last_in_set) simp
  have ns: "n \<in> set (l # ys)" unfolding n' by (cases ys) auto
  have n: "span_next (\<sigma> x) = n"
    using c by (cases xs rule: rev_cases) (auto simp: x chain_append)
  have ne: "s \<noteq> x" "s \<noteq> n" and nul: "x \<noteq> Null" "n \<noteq> Null" using s xs ns nn by auto
  define \<sigma>1 where "\<sigma>1 = \<sigma>(s := (\<sigma> s)\<lparr>span_next := n, span_prev := x\<rparr>)"
  define \<sigma>2 where "\<sigma>2 = \<sigma>1(n := (\<sigma>1 n)\<lparr>span_prev := s\<rparr>)"
  define \<sigma>3 where "\<sigma>3 = \<sigma>2(x := (\<sigma>2 x)\<lparr>span_next := s\<rparr>)"
  have run: "DLL_link x s \<sigma> = Some \<sigma>3"
    using ne nul s n by (auto simp: DLL_link_def rd_def wr_def \<sigma>3_def \<sigma>2_def \<sigma>1_def)
  have nx: "span_next (\<sigma>3 z) = (if z = x then s else if z = s then n else span_next (\<sigma> z))" for z
    using ne by (simp add: \<sigma>3_def \<sigma>2_def \<sigma>1_def)
  have pv: "span_prev (\<sigma>3 z) = (if z = n then s else if z = s then x else span_prev (\<sigma> z))" for z
    using ne by (simp add: \<sigma>3_def \<sigma>2_def \<sigma>1_def)
  have "x \<notin> set (butlast (l # xs))" unfolding x by (rule last_not_butlast) (use di in auto)
  moreover have "s \<notin> set (butlast (l # xs))" using di s by (auto dest!: in_set_butlastD simp del: butlast.simps)
  ultimately have bl: "x \<notin> set (butlast (l # xs))" "s \<notin> set (butlast (l # xs))" by blast+
  have left: "chain \<sigma>3 l xs s"
  proof (rule chain_end [OF conjunct1 [OF c]])
    show "span_next (\<sigma>3 z) = span_next (\<sigma> z)" if "z \<in> set (butlast (l # xs))" for z
      using that bl by (auto simp: nx simp del: butlast.simps)
    show "span_prev (\<sigma>3 z) = span_prev (\<sigma> z)" if "z \<in> set xs" for z
      using that ns di s by (auto simp: pv)
    show "span_next (\<sigma>3 (last (l # xs))) = s" by (simp only: nx x [symmetric]) simp
    show "span_prev (\<sigma>3 s) = last (l # xs)" using ne by (simp only: pv x [symmetric]) simp
  qed
  have right: "chain \<sigma>3 s ys l"
  proof (cases ys)
    case Nil
    then show ?thesis using ne by (simp add: nx pv n')
  next
    case (Cons y ys')
    have "chain \<sigma>3 y ys' l"
      by (rule chain_cong [where \<sigma> = \<sigma>]) (use c di xs s in \<open>auto simp: Cons nx pv n'\<close>)
    then show ?thesis using ne by (simp add: Cons nx pv n')
  qed
  have "dll \<sigma>3 l (xs @ s # ys)" using left right di nn s by (auto simp: dll_def chain_append)
  moreover have "relinked (insert s (set (l # xs @ ys))) \<sigma> \<sigma>3"
    using xs ns by (auto simp: relinked_def span_data_def \<sigma>3_def \<sigma>2_def \<sigma>1_def)
  ultimately show ?thesis using run by blast
qed

lemma DLL_Prepend_spec:
  assumes "dll \<sigma> l xs" "s \<notin> set (l # xs)" "s \<noteq> Null" "span_next (\<sigma> s) = Null" "span_prev (\<sigma> s) = Null"
  shows "\<exists>\<sigma>'. DLL_Prepend l s \<sigma> = Some \<sigma>' \<and> dll \<sigma>' l (s # xs) \<and> relinked (insert s (set (l # xs))) \<sigma> \<sigma>'"
  using DLL_link_spec [of \<sigma> l "[]" xs l s] assms by (simp add: DLL_Prepend_def rd_def)

text \<open>Ordered insertion walks past the spans that start before the new one.\<close>

lemma DLL_find_place_chain:
  assumes "chain \<sigma> x ys l" and "l \<notin> set ys" and "Null \<notin> set (x # ys)"
  shows "DLL_find_place \<sigma> l st x = Some (last (x # takeWhile (\<lambda>z. span_start (\<sigma> z) < st) ys))"
  using assms
proof (induction ys arbitrary: x)
  case Nil
  then show ?case by (subst DLL_find_place.simps) (simp add: rd_def)
next
  case (Cons y ys)
  then show ?case by (subst DLL_find_place.simps) (auto simp: rd_def)
qed

lemma DLL_InsertOrdered_spec:
  assumes D: "dll \<sigma> l xs" and s: "s \<notin> set (l # xs)" "s \<noteq> Null" "span_next (\<sigma> s) = Null" "span_prev (\<sigma> s) = Null"
  shows "\<exists>\<sigma>'. DLL_InsertOrdered l s \<sigma> = Some \<sigma>' \<and>
    dll \<sigma>' l (takeWhile (\<lambda>z. span_start (\<sigma> z) < span_start (\<sigma> s)) xs @ s #
              dropWhile (\<lambda>z. span_start (\<sigma> z) < span_start (\<sigma> s)) xs) \<and>
    relinked (insert s (set (l # xs))) \<sigma> \<sigma>'"
proof -
  let ?P = "\<lambda>z. span_start (\<sigma> z) < span_start (\<sigma> s)"
  have "DLL_find_place \<sigma> l (span_start (\<sigma> s)) l = Some (last (l # takeWhile ?P xs))"
    by (rule DLL_find_place_chain) (use D in \<open>auto simp: dll_def\<close>)
  moreover have "dll \<sigma> l (takeWhile ?P xs @ dropWhile ?P xs)" using D by simp
  note DLL_link_spec [OF this refl, of s]
  ultimately show ?thesis using s by (simp add: DLL_InsertOrdered_def rd_def)
qed

lemma DLL_Length_dll:
  assumes D: "dll \<sigma> l xs"
  shows "DLL_Length l \<sigma> = Some (length xs)"
proof -
  have "chain \<sigma> x ys l \<Longrightarrow> l \<notin> set ys \<Longrightarrow> Null \<notin> set ys \<Longrightarrow>
    DLL_Length_loop \<sigma> l (span_next (\<sigma> x)) n = Some (n + length ys)" for x ys n
  proof (induction ys arbitrary: x n)
    case Nil
    then show ?case by (subst DLL_Length_loop.simps) simp
  next
    case (Cons y ys)
    then show ?case by (subst DLL_Length_loop.simps) (auto simp: rd_def)
  qed
  from this [of l xs 0] D show ?thesis by (auto simp: DLL_Length_def dll_def rd_def)
qed

end
