(* ===== verification/MetaAlloc.thy ===== *)
theory MetaAlloc
  imports Spans
begin

text \<open>
  What \<open>PageHeapAllocator\<close> guarantees: the objects it has handed out and the ones on its free list
  never overlap, neither each other nor the chunk it is carving, and all lie in memory that it
  got from the system and that nobody else has.

  \<open>pha_ok sz a U M\<close>: the allocator \<open>a\<close> of objects of \<open>sz\<close> bytes has handed out exactly the
  objects \<open>U\<close> and owns the bytes \<open>M\<close>.
\<close>

fun pha_chain :: "(u64 \<Rightarrow> u64) \<Rightarrow> u64 \<Rightarrow> u64 list \<Rightarrow> bool" where
  "pha_chain lk p [] \<longleftrightarrow> p = 0"
| "pha_chain lk p (x # xs) \<longleftrightarrow> p = x \<and> x \<noteq> 0 \<and> pha_chain lk (lk x) xs"

lemma pha_chain_cong: "(\<And>x. x \<in> set xs \<Longrightarrow> lk' x = lk x) \<Longrightarrow> pha_chain lk' p xs = pha_chain lk p xs"
  by (induction xs arbitrary: p) auto

lemma pha_chain_unique: "pha_chain lk p xs \<Longrightarrow> pha_chain lk p ys \<Longrightarrow> xs = ys"
proof (induction xs arbitrary: p ys)
  case Nil
  then show ?case by (cases ys) auto
next
  case (Cons x xs)
  then show ?case by (cases ys) auto
qed

definition objects_ok :: "u64 \<Rightarrow> u64 set \<Rightarrow> u64 \<Rightarrow> u64 \<Rightarrow> nat set \<Rightarrow> bool" where
  "objects_ok sz Obs ar av M \<longleftrightarrow>
     (\<forall>p\<in>Obs. 4096 \<le> unat p \<and> unat p + unat sz < 2 ^ 47 \<and> span_of p sz \<subseteq> M \<and> span_of p sz \<inter> span_of ar av = {}) \<and>
     (\<forall>p\<in>Obs. \<forall>q\<in>Obs. p \<noteq> q \<longrightarrow> span_of p sz \<inter> span_of q sz = {}) \<and>
     (0 < av \<longrightarrow> 4096 \<le> unat ar \<and> unat ar + unat av < 2 ^ 47) \<and> span_of ar av \<subseteq> M"

definition pha_ok :: "u64 \<Rightarrow> pha \<Rightarrow> u64 set \<Rightarrow> nat set \<Rightarrow> bool" where
  "pha_ok sz a U M \<longleftrightarrow> (\<exists>xs. pha_chain (pha_link a) (pha_free_list a) xs \<and> distinct xs \<and> set xs \<inter> U = {} \<and>
     objects_ok sz (set xs \<union> U) (free_area a) (free_avail a) M)"

text \<open>\<open>k\<close> objects can be had without asking the system.\<close>

definition pha_room :: "u64 \<Rightarrow> pha \<Rightarrow> nat \<Rightarrow> bool" where
  "pha_room sz a k \<longleftrightarrow> (\<exists>xs. pha_chain (pha_link a) (pha_free_list a) xs \<and>
     k \<le> length xs + unat (free_avail a) div unat (kAlignedSize sz))"

definition object_size :: "u64 \<Rightarrow> bool" where
  "object_size sz \<longleftrightarrow> 0 < sz \<and> kAlignedSize sz = sz \<and> sz \<le> kAllocIncrement"

lemma object_size_Span: "object_size sizeof_Span"
  and object_size_StackTrace: "object_size sizeof_StackTrace"
  by (simp_all add: object_size_def sizeof_Span_def sizeof_StackTrace_def kAlignedSize_def kAlignment_def
      kAlignShift_def kAllocIncrement_def)

section \<open>Chunks\<close>

text \<open>What every operation here does to the system state.\<close>

definition sys_step :: "meta_state \<Rightarrow> meta_state \<Rightarrow> bool" where
  "sys_step ms ms' \<longleftrightarrow> (sys_ok (sys ms) \<longrightarrow> sys_ok (sys ms')) \<and>
     mapped (sys_trace (sys ms)) \<subseteq> mapped (sys_trace (sys ms'))"

abbreviation bytes_mapped :: "meta_state \<Rightarrow> nat set" where
  "bytes_mapped ms \<equiv> mapped (sys_trace (sys ms))"

lemma sys_step_refl [simp]: "sys_step ms ms"
  by (simp add: sys_step_def)

lemma sys_step_trans: "sys_step a b \<Longrightarrow> sys_step b c \<Longrightarrow> sys_step a c"
  by (auto simp: sys_step_def)

lemma MetaDataAlloc_ok:
  assumes K: "kernel_ok cfg" and S: "sys_ok (sys ms)" and b: "unat bytes < 2 ^ 60"
    and run: "MetaDataAlloc cfg bytes ms = (p, ms')"
  shows "sys_step ms ms' \<and> (p \<noteq> 0 \<longrightarrow> 4096 \<le> unat p \<and> unat p + unat bytes < 2 ^ 47 \<and>
    span_of p bytes \<subseteq> bytes_mapped ms' - bytes_mapped ms)"
proof -
  obtain r s where r: "TCMalloc_SystemAlloc cfg bytes 0 (sys ms) = (r, s)" by fastforce
  have "unat (bytes + 8) = unat bytes + unat (8 :: u64)"
    by (rule unat_plus_no_wrap) (use b in simp)
  then have "\<not> bytes + 8 < bytes" by (simp add: word_less_nat_alt)
  then have "TCMalloc_SystemAlloc cfg bytes (2 ^ 3) (sys ms) = (r, s)"
    using r by (simp add: TCMalloc_SystemAlloc_def)
  from SystemAlloc_ok [OF K S refl _ _ _ this] b
  have "alloc_ok bytes (2 ^ 3) (sys ms) r s" by simp
  moreover have "p = r" "sys ms' = s" using run r by (auto simp: MetaDataAlloc_def Let_def)
  ultimately show ?thesis by (auto simp: alloc_ok_def sys_step_def)
qed

section \<open>Objects\<close>

lemma span_of_split: "unat p + unat n < 2 ^ 64 \<Longrightarrow> unat m \<le> unat n \<Longrightarrow>
   span_of (p + m) (n - m) \<subseteq> span_of p n \<and> span_of p m \<subseteq> span_of p n \<and>
   span_of p m \<inter> span_of (p + m) (n - m) = {} \<and> unat (p + m) = unat p + unat m \<and> unat (n - m) = unat n - unat m"
proof -
  assume a: "unat p + unat n < 2 ^ 64" "unat m \<le> unat n"
  have 1: "unat (p + m) = unat p + unat m" by (rule unat_plus_no_wrap) (use a in simp)
  have 2: "unat (n - m) = unat n - unat m" by (rule unat_minus_no_wrap) (use a in simp)
  show ?thesis using a by (auto simp: span_of_def 1 2)
qed

lemma objects_ok_new_area:
  assumes "objects_ok sz Obs ar av M" and "span_of p n \<inter> M = {}" and "4096 \<le> unat p" "unat p + unat n < 2 ^ 47"
  shows "objects_ok sz Obs p n (M \<union> span_of p n)"
  using assms unfolding objects_ok_def by blast

lemma objects_ok_carve:
  assumes ok: "objects_ok sz Obs ar av M" and le: "unat sz \<le> unat av" and pos: "0 < sz"
  shows "objects_ok sz (insert ar Obs) (ar + sz) (av - sz) M" and "ar \<notin> Obs" "ar \<noteq> 0"
proof -
  have av: "0 < av" using le pos by (simp add: word_less_nat_alt)
  then have b: "4096 \<le> unat ar" "unat ar + unat av < 2 ^ 47" using ok by (auto simp: objects_ok_def)
  have "unat ar + unat av < 2 ^ 64" by (rule order.strict_trans [OF b(2)]) simp
  note sp = span_of_split [OF this le]
  have me: "unat ar \<in> span_of ar av" using av by (simp add: span_of_def word_less_nat_alt)
  show "ar \<notin> Obs"
  proof
    assume "ar \<in> Obs"
    then have "span_of ar sz \<inter> span_of ar av = {}" using ok by (auto simp: objects_ok_def)
    moreover have "unat ar \<in> span_of ar sz" using pos by (simp add: span_of_def word_less_nat_alt)
    ultimately show False using me by blast
  qed
  show "ar \<noteq> 0" using b by auto
  have sub: "span_of ar av \<subseteq> M" and obs: "\<And>p. p \<in> Obs \<Longrightarrow> span_of p sz \<inter> span_of ar av = {}"
    using ok by (auto simp: objects_ok_def)
  have "unat ar + unat sz < 2 ^ 47" using b le by linarith
  moreover have "0 < av - sz \<longrightarrow> 4096 \<le> unat (ar + sz) \<and> unat (ar + sz) + unat (av - sz) < 2 ^ 47"
    using b sp le by linarith
  ultimately show "objects_ok sz (insert ar Obs) (ar + sz) (av - sz) M"
    using ok b sub sp obs unfolding objects_ok_def by blast
qed

lemma PHA_New_ok:
  assumes K: "kernel_ok cfg" and S: "sys_ok (sys ms)" and ok: "pha_ok sz a U M" and M: "M \<subseteq> bytes_mapped ms"
    and sz: "object_size sz" and run: "PHA_New cfg sz a ms = Some (r, a', ms')"
  shows "r \<noteq> 0 \<and> r \<notin> U \<and> sys_step ms ms' \<and>
    (\<exists>G. G \<subseteq> bytes_mapped ms' - bytes_mapped ms \<and> pha_ok sz a' (insert r U) (M \<union> G))"
proof -
  obtain xs where xs: "pha_chain (pha_link a) (pha_free_list a) xs" "distinct xs" "set xs \<inter> U = {}"
    "objects_ok sz (set xs \<union> U) (free_area a) (free_avail a) M"
    using ok by (auto simp: pha_ok_def)
  have sz': "0 < sz" "kAlignedSize sz = sz" "sz \<le> kAllocIncrement" using sz by (auto simp: object_size_def)
  show ?thesis
  proof (cases "pha_free_list a = 0")
    case False
    then obtain x xs' where x: "xs = x # xs'" using xs(1) by (cases xs) auto
    have r: "r = x" "ms' = ms" "a' = a\<lparr>pha_free_list := pha_link a x, inuse := inuse a + 1\<rparr>"
      using run False xs(1) by (auto simp: PHA_New_def x Let_def)
    have "pha_ok sz a' (insert r U) M"
      unfolding pha_ok_def by (rule exI [of _ xs']) (use xs in \<open>auto simp: r x insert_commute\<close>)
    then show ?thesis using xs by (auto simp: r x intro!: exI [of _ "{}"])
  next
    case True
    then have nil: "xs = []" using xs(1) by (cases xs) auto
    show ?thesis
    proof (cases "free_avail a < kAlignedSize sz")
      case False
      then have av: "unat sz \<le> unat (free_avail a)" by (simp add: sz' word_less_nat_alt)
      have r: "r = free_area a" "ms' = ms" "a' = a\<lparr>free_area := free_area a + sz, free_avail := free_avail a - sz, inuse := inuse a + 1\<rparr>"
        using run True False by (auto simp: PHA_New_def Let_def sz')
      have "pha_ok sz a' (insert r U) M"
        unfolding pha_ok_def
        by (rule exI [of _ "[]"]) (use objects_ok_carve(1) [OF xs(4) av sz'(1)] True in \<open>simp add: r nil\<close>)
      then show ?thesis using objects_ok_carve(2,3) [OF xs(4) av sz'(1)]
        by (auto simp: r intro!: exI [of _ "{}"])
    next
      case avail: True
      obtain p ms1 where p: "MetaDataAlloc cfg kAllocIncrement ms = (p, ms1)" by fastforce
      have r: "p \<noteq> 0" "r = p" "ms' = ms1" "a' = a\<lparr>free_area := p + sz, free_avail := kAllocIncrement - sz, inuse := inuse a + 1\<rparr>"
        using run True avail by (auto simp: PHA_New_def Let_def sz' p split: if_splits)
      have kb: "unat kAllocIncrement < 2 ^ 60" by (simp add: kAllocIncrement_def)
      have g: "sys_step ms ms1" "4096 \<le> unat p" "unat p + unat kAllocIncrement < 2 ^ 47"
        "span_of p kAllocIncrement \<subseteq> bytes_mapped ms1 - bytes_mapped ms"
        using MetaDataAlloc_ok [OF K S kb p] r by blast+
      let ?G = "span_of p kAllocIncrement"
      have fresh: "?G \<inter> M = {}" using g M by blast
      have av: "unat sz \<le> unat kAllocIncrement" using sz' by (simp add: word_le_nat_alt)
      note new = objects_ok_carve [OF objects_ok_new_area [OF xs(4) fresh g(2,3)] av sz'(1)]
      have "pha_ok sz a' (insert r U) (M \<union> ?G)"
        unfolding pha_ok_def
        by (rule exI [of _ "[]"]) (use new(1) True in \<open>simp add: r nil\<close>)
      then show ?thesis using new(2,3) g r by (auto simp: nil)
    qed
  qed
qed

lemma PHA_New_room:
  assumes room: "pha_room sz a (Suc k)" and sz: "object_size sz"
  shows "\<exists>r a'. PHA_New cfg sz a ms = Some (r, a', ms) \<and> pha_room sz a' k"
proof -
  obtain xs where xs: "pha_chain (pha_link a) (pha_free_list a) xs"
    "Suc k \<le> length xs + unat (free_avail a) div unat (kAlignedSize sz)"
    using room by (auto simp: pha_room_def)
  have sz': "0 < unat sz" "kAlignedSize sz = sz"
    using sz by (auto simp: object_size_def word_less_nat_alt)
  show ?thesis
  proof (cases "pha_free_list a = 0")
    case False
    then obtain x xs' where x: "xs = x # xs'" using xs(1) by (cases xs) auto
    have "pha_room sz (a\<lparr>pha_free_list := pha_link a x, inuse := inuse a + 1\<rparr>) k"
      unfolding pha_room_def by (rule exI [of _ xs']) (use xs in \<open>simp add: x\<close>)
    then show ?thesis using xs(1) False by (simp add: PHA_New_def x Let_def)
  next
    case True
    then have nil: "xs = []" using xs(1) by (cases xs) auto
    have "Suc k \<le> unat (free_avail a) div unat sz" using xs(2) by (simp add: nil sz')
    then have le: "unat sz * Suc k \<le> unat (free_avail a)"
      using sz' by (simp only: less_eq_div_iff_mult_less_eq mult.commute)
    have sle: "unat sz \<le> unat (free_avail a)" using le by (rule order.trans [rotated]) simp
    have "k \<le> (unat (free_avail a) - unat sz) div unat sz"
      using le sz' by (simp add: less_eq_div_iff_mult_less_eq algebra_simps)
    then have "pha_room sz (a\<lparr>free_area := free_area a + sz, free_avail := free_avail a - sz, inuse := inuse a + 1\<rparr>) k"
      unfolding pha_room_def
      by (intro exI [of _ "[]"]) (use True in \<open>simp add: sz' unat_minus_no_wrap [OF sle]\<close>)
    then show ?thesis using True sle by (simp add: PHA_New_def sz' Let_def word_less_nat_alt)
  qed
qed

lemma PHA_Delete_ok:
  assumes ok: "pha_ok sz a U M" and p: "p \<in> U"
  shows "\<exists>a'. PHA_Delete p a = Some a' \<and> pha_ok sz a' (U - {p}) M \<and> (\<forall>k. pha_room sz a k \<longrightarrow> pha_room sz a' (Suc k))"
proof -
  obtain xs where xs: "pha_chain (pha_link a) (pha_free_list a) xs" "distinct xs" "set xs \<inter> U = {}"
    "objects_ok sz (set xs \<union> U) (free_area a) (free_avail a) M"
    using ok by (auto simp: pha_ok_def)
  have "4096 \<le> unat p" using xs(4) p unfolding objects_ok_def by blast
  then have p0: "p \<noteq> 0" by auto
  let ?a = "a\<lparr>pha_link := (pha_link a)(p := pha_free_list a), pha_free_list := p, inuse := inuse a - 1\<rparr>"
  have pn: "p \<notin> set xs" using p xs(3) by blast
  have chain: "pha_chain (pha_link ?a) (pha_free_list ?a) (p # xs)"
  proof -
    have "pha_chain ((pha_link a)(p := pha_free_list a)) (pha_free_list a) xs = pha_chain (pha_link a) (pha_free_list a) xs"
      by (rule pha_chain_cong) (use pn in auto)
    then show ?thesis using xs(1) p0 by simp
  qed
  have "set (p # xs) \<union> (U - {p}) = set xs \<union> U" using p by auto
  then have "pha_ok sz ?a (U - {p}) M"
    unfolding pha_ok_def using chain xs pn by (intro exI [of _ "p # xs"]) auto
  moreover have "pha_room sz ?a (Suc k)" if rm: "pha_room sz a k" for k
  proof -
    obtain ys where ys: "pha_chain (pha_link a) (pha_free_list a) ys"
      "k \<le> length ys + unat (free_avail a) div unat (kAlignedSize sz)"
      using rm unfolding pha_room_def by blast
    have "ys = xs" by (rule pha_chain_unique [OF ys(1) xs(1)])
    then show ?thesis unfolding pha_room_def using chain ys(2) by (intro exI [of _ "p # xs"]) simp
  qed
  ultimately show ?thesis using p0 by (simp add: PHA_Delete_def)
qed

text \<open>\<open>Init\<close> leaves one object on the free list, or aborts when the system refuses the first chunk.\<close>

lemma PHA_Init_ok:
  assumes K: "kernel_ok cfg" and S: "sys_ok (sys ms)" and sz: "object_size sz"
    and run: "PHA_Init cfg sz a ms = Some (a', ms')"
  shows "sys_step ms ms' \<and> (\<exists>M. M \<subseteq> bytes_mapped ms' - bytes_mapped ms \<and> pha_ok sz a' {} M) \<and> pha_room sz a' 1"
proof -
  let ?a = "a\<lparr>inuse := 0, free_area := 0, free_avail := 0, pha_free_list := 0\<rparr>"
  have "pha_ok sz ?a {} {}"
    unfolding pha_ok_def by (rule exI [of _ "[]"]) (simp add: objects_ok_def span_of_def)
  moreover obtain p a1 where n: "PHA_New cfg sz ?a ms = Some (p, a1, ms')" "PHA_Delete p a1 = Some a'"
    using run by (auto simp: PHA_Init_def option_monad Let_def)
  ultimately obtain G where g: "sys_step ms ms'" "G \<subseteq> bytes_mapped ms' - bytes_mapped ms" "pha_ok sz a1 {p} G"
    using PHA_New_ok [OF K S, of sz ?a "{}" "{}" p a1 ms'] sz by auto
  have "pha_room sz a1 0"
    using g(3) by (auto simp: pha_ok_def pha_room_def)
  then show ?thesis using PHA_Delete_ok [OF g(3), of p] n(2) g by auto
qed

end
