(* ===== verification/PageHeapInv.thy ===== *)
theory PageHeapInv
  imports PageHeap SpanLists MetaAlloc
begin

text \<open>
  The state invariant of \<open>TCMalloc_PageHeap\<close>.

  Ghost state: \<open>A\<close> is the set of spans in the hands of the callers, \<open>fl\<close> gives for every list head
  the spans on its list, \<open>P\<close> is the set of page numbers the heap owns. The parts of the invariant:

  \<^item> \<open>tiling\<close>: the spans partition the owned pages; the page map takes the first and the last
    page of a span to the span, is defined on these and on the pages around, and is null
    outside the owned pages;
  \<^item> \<open>coloring\<close>: the free flags are right, and no two free spans touch;
  \<^item> \<open>lists_ok\<close>: every free list is a well-formed circular list of exactly the free spans of its
    length, and \<open>large_\<close> is sorted by address;
  \<^item> \<open>mem_ok\<close>: spans, stack traces and pages lie in mapped memory and nowhere overlap.
\<close>

section \<open>Spans as intervals of pages\<close>

definition sst :: "spans \<Rightarrow> sref \<Rightarrow> nat" where "sst \<sigma> s = unat (span_start (\<sigma> s))"
definition sln :: "spans \<Rightarrow> sref \<Rightarrow> nat" where "sln \<sigma> s = unat (span_length (\<sigma> s))"
definition pages_of :: "spans \<Rightarrow> sref \<Rightarrow> nat set" where "pages_of \<sigma> s = {sst \<sigma> s ..< sst \<sigma> s + sln \<sigma> s}"

lemma card_pages_of [simp]: "card (pages_of \<sigma> s) = sln \<sigma> s"
  and finite_pages_of [simp]: "finite (pages_of \<sigma> s)"
  by (simp_all add: pages_of_def)

text \<open>The page map by page numbers; it knows pages below \<open>2 ^ 52\<close>.\<close>

definition pmap :: "'a page_heap_scheme \<Rightarrow> nat \<Rightarrow> sref option" where
  "pmap h k = (if k < 2 ^ 52 then GetDescriptor (word_of_nat k) h else None)"

definition tiling :: "spans \<Rightarrow> (nat \<Rightarrow> sref option) \<Rightarrow> sref set \<Rightarrow> nat set \<Rightarrow> bool" where
  "tiling \<sigma> g L P \<longleftrightarrow> finite L \<and> L \<subseteq> range Obj \<and> P = (\<Union>s\<in>L. pages_of \<sigma> s) \<and>
     (\<forall>s\<in>L. 1 \<le> sln \<sigma> s \<and> 1 \<le> sst \<sigma> s \<and>
        (\<forall>k. sst \<sigma> s - 1 \<le> k \<and> k \<le> sst \<sigma> s + sln \<sigma> s \<longrightarrow> g k \<noteq> None) \<and>
        g (sst \<sigma> s) = Some s \<and> g (sst \<sigma> s + sln \<sigma> s - 1) = Some s) \<and>
     (\<forall>s\<in>L. \<forall>t\<in>L. s \<noteq> t \<longrightarrow> pages_of \<sigma> s \<inter> pages_of \<sigma> t = {}) \<and>
     (\<forall>k d. g k = Some d \<longrightarrow> d \<noteq> Null \<longrightarrow> k \<in> P)"

definition coloring :: "spans \<Rightarrow> sref set \<Rightarrow> sref set \<Rightarrow> bool" where
  "coloring \<sigma> A F \<longleftrightarrow> (\<forall>s\<in>A. \<not> span_free (\<sigma> s)) \<and>
     (\<forall>s\<in>F. span_free (\<sigma> s) \<and> span_sizeclass (\<sigma> s) = 0 \<and> \<not> span_sample (\<sigma> s)) \<and>
     (\<forall>s\<in>F. \<forall>t\<in>F. sst \<sigma> s + sln \<sigma> s \<noteq> sst \<sigma> t)"

lemma tiling_parts:
  assumes "tiling \<sigma> g L P"
  shows "P = (\<Union>s\<in>L. pages_of \<sigma> s)"
    and "\<forall>s\<in>L. \<forall>t\<in>L. s \<noteq> t \<longrightarrow> pages_of \<sigma> s \<inter> pages_of \<sigma> t = {}"
    and "\<forall>k d. g k = Some d \<longrightarrow> d \<noteq> Null \<longrightarrow> k \<in> P"
  by (rule assms [unfolded tiling_def, THEN conjunct2, THEN conjunct2, THEN conjunct1]
      assms [unfolded tiling_def, THEN conjunct2, THEN conjunct2, THEN conjunct2, THEN conjunct2, THEN conjunct1]
      assms [unfolded tiling_def, THEN conjunct2, THEN conjunct2, THEN conjunct2, THEN conjunct2, THEN conjunct2])+

lemma tilingD:
  assumes "tiling \<sigma> g L P" and "s \<in> L"
  shows "1 \<le> sln \<sigma> s" "1 \<le> sst \<sigma> s" "g (sst \<sigma> s) = Some s" "g (sst \<sigma> s + sln \<sigma> s - 1) = Some s"
    "sst \<sigma> s - 1 \<le> k \<Longrightarrow> k \<le> sst \<sigma> s + sln \<sigma> s \<Longrightarrow> g k \<noteq> None" "s \<noteq> Null" "pages_of \<sigma> s \<subseteq> P"
proof -
  have a: "1 \<le> sln \<sigma> s \<and> 1 \<le> sst \<sigma> s \<and> (\<forall>k. sst \<sigma> s - 1 \<le> k \<and> k \<le> sst \<sigma> s + sln \<sigma> s \<longrightarrow> g k \<noteq> None) \<and>
     g (sst \<sigma> s) = Some s \<and> g (sst \<sigma> s + sln \<sigma> s - 1) = Some s"
    and b: "P = (\<Union>s\<in>L. pages_of \<sigma> s)" "L \<subseteq> range Obj"
    using assms unfolding tiling_def by simp_all
  show "1 \<le> sln \<sigma> s" "1 \<le> sst \<sigma> s" "g (sst \<sigma> s) = Some s" "g (sst \<sigma> s + sln \<sigma> s - 1) = Some s"
    using a by blast+
  show "sst \<sigma> s - 1 \<le> k \<Longrightarrow> k \<le> sst \<sigma> s + sln \<sigma> s \<Longrightarrow> g k \<noteq> None" using a by blast
  show "s \<noteq> Null" "pages_of \<sigma> s \<subseteq> P" using b assms(2) by auto
qed

lemma tiling_finite:
  assumes "tiling \<sigma> g L P"
  shows "finite L" "finite P" "L \<subseteq> range Obj"
  using assms unfolding tiling_def by auto

lemma tiling_len:
  assumes T: "tiling \<sigma> g L P" and s: "s \<in> L"
  shows "sln \<sigma> s \<le> card P"
  using card_mono [OF tiling_finite(2) [OF T] tilingD(7) [OF T s]] by simp

lemma tiling_disjoint:
  assumes "tiling \<sigma> g L P" and "s \<in> L" "t \<in> L" "k \<in> pages_of \<sigma> s" "k \<in> pages_of \<sigma> t"
  shows "s = t"
proof (rule ccontr)
  assume "s \<noteq> t"
  then have "pages_of \<sigma> s \<inter> pages_of \<sigma> t = {}" using tiling_parts(2) [OF assms(1)] assms(2,3) by simp
  then show False using assms(4,5) by auto
qed

lemma tiling_owner:
  assumes "tiling \<sigma> g L P" and "g k = Some d" "d \<noteq> Null"
  obtains u where "u \<in> L" "k \<in> pages_of \<sigma> u"
proof -
  have "k \<in> P" using tiling_parts(3) [OF assms(1)] assms(2,3) by simp
  then have "k \<in> (\<Union>s\<in>L. pages_of \<sigma> s)" using tiling_parts(1) [OF assms(1)] by simp
  then show thesis using that by auto
qed

lemma tiling_start_inj:
  assumes T: "tiling \<sigma> g L P" and st: "s \<in> L" "t \<in> L" "sst \<sigma> s = sst \<sigma> t"
  shows "s = t"
proof -
  have "g (sst \<sigma> s) = Some t" unfolding st(3) by (rule tilingD(3) [OF T st(2)])
  then show ?thesis using tilingD(3) [OF T st(1)] by simp
qed

text \<open>What the page map says of the pages next to a span.\<close>

lemma tiling_prev:
  assumes T: "tiling \<sigma> g L P" and s: "s \<in> L" and g: "g (sst \<sigma> s - 1) = Some t" and t: "t \<noteq> Null"
  shows "t \<in> L \<and> sst \<sigma> t + sln \<sigma> t = sst \<sigma> s"
proof -
  obtain u where u: "u \<in> L" "sst \<sigma> s - 1 \<in> pages_of \<sigma> u" by (rule tiling_owner [OF T g t])
  have s1: "1 \<le> sln \<sigma> s" "1 \<le> sst \<sigma> s" by (rule tilingD [OF T s])+
  have "u \<noteq> s" using u(2) s1 by (auto simp: pages_of_def)
  then have "sst \<sigma> s \<notin> pages_of \<sigma> u"
    using tiling_disjoint [OF T u(1) s, of "sst \<sigma> s"] s1 by (auto simp: pages_of_def)
  then have "sst \<sigma> u + sln \<sigma> u = sst \<sigma> s" using u(2) s1 by (auto simp: pages_of_def)
  then show ?thesis using tilingD(4) [OF T u(1)] g u(1) by simp
qed

lemma tiling_next:
  assumes T: "tiling \<sigma> g L P" and s: "s \<in> L" and g: "g (sst \<sigma> s + sln \<sigma> s) = Some t" and t: "t \<noteq> Null"
  shows "t \<in> L \<and> sst \<sigma> t = sst \<sigma> s + sln \<sigma> s"
proof -
  obtain u where u: "u \<in> L" "sst \<sigma> s + sln \<sigma> s \<in> pages_of \<sigma> u" by (rule tiling_owner [OF T g t])
  have s1: "1 \<le> sln \<sigma> s" "1 \<le> sst \<sigma> s" by (rule tilingD [OF T s])+
  have "u \<noteq> s" using u(2) s1 by (auto simp: pages_of_def)
  moreover have "sst \<sigma> s + sln \<sigma> s - 1 \<in> pages_of \<sigma> s" using s1 by (simp add: pages_of_def)
  ultimately have "sst \<sigma> s + sln \<sigma> s - 1 \<notin> pages_of \<sigma> u"
    using tiling_disjoint [OF T u(1) s] by blast
  then have "sst \<sigma> u = sst \<sigma> s + sln \<sigma> s" using u(2) s1 by (auto simp: pages_of_def)
  then show ?thesis using tilingD(3) [OF T u(1)] g u(1) by simp
qed

text \<open>Replacing some spans by others that cover the same pages.\<close>

lemma tiling_replace:
  assumes T: "tiling \<sigma> g L P" and R: "R \<subseteq> L" and Q: "finite Q" "Q \<subseteq> range Obj" "Q \<inter> (L - R) = {}"
    and same: "(\<Union>q\<in>Q. pages_of \<sigma>' q) = (\<Union>r\<in>R. pages_of \<sigma> r)"
    and q: "\<And>q. q \<in> Q \<Longrightarrow> 1 \<le> sln \<sigma>' q \<and> g' (sst \<sigma>' q) = Some q \<and> g' (sst \<sigma>' q + sln \<sigma>' q - 1) = Some q"
    and qq: "\<And>q r. q \<in> Q \<Longrightarrow> r \<in> Q \<Longrightarrow> q \<noteq> r \<Longrightarrow> pages_of \<sigma>' q \<inter> pages_of \<sigma>' r = {}"
    and rest: "\<And>x. x \<in> L - R \<Longrightarrow> sst \<sigma>' x = sst \<sigma> x \<and> sln \<sigma>' x = sln \<sigma> x"
    and g: "\<And>k. k \<notin> (\<Union>r\<in>R. pages_of \<sigma> r) \<Longrightarrow> g' k = g k" "\<And>k. g' k = None \<longleftrightarrow> g k = None"
  shows "tiling \<sigma>' g' ((L - R) \<union> Q) P"
proof -
  let ?U = "\<Union>r\<in>R. pages_of \<sigma> r"
  have rp: "pages_of \<sigma>' x = pages_of \<sigma> x" if "x \<in> L - R" for x
    using rest [OF that] by (simp add: pages_of_def)
  have P: "P = (\<Union>s\<in>L. pages_of \<sigma> s)" by (rule tiling_parts(1) [OF T])
  also have "\<dots> = (\<Union>s\<in>L - R. pages_of \<sigma> s) \<union> ?U" using R by blast
  also have "\<dots> = (\<Union>s\<in>(L - R) \<union> Q. pages_of \<sigma>' s)" using rp same by auto
  finally have P': "P = (\<Union>s\<in>(L - R) \<union> Q. pages_of \<sigma>' s)" .
  have apart: "k \<notin> ?U" if "x \<in> L - R" "k \<in> pages_of \<sigma> x" for x k
    using tiling_disjoint [OF T] that R by blast
  have old: "1 \<le> sln \<sigma>' s \<and> 1 \<le> sst \<sigma>' s \<and> (\<forall>k. sst \<sigma>' s - 1 \<le> k \<and> k \<le> sst \<sigma>' s + sln \<sigma>' s \<longrightarrow> g' k \<noteq> None) \<and>
      g' (sst \<sigma>' s) = Some s \<and> g' (sst \<sigma>' s + sln \<sigma>' s - 1) = Some s" if s: "s \<in> L - R" for s
  proof -
    note d = tilingD [OF T, of s]
    have "sst \<sigma> s \<in> pages_of \<sigma> s" "sst \<sigma> s + sln \<sigma> s - 1 \<in> pages_of \<sigma> s"
      using d(1) s by (auto simp: pages_of_def)
    then have "g' (sst \<sigma> s) = g (sst \<sigma> s)" "g' (sst \<sigma> s + sln \<sigma> s - 1) = g (sst \<sigma> s + sln \<sigma> s - 1)"
      using apart [OF s] g(1) by blast+
    then show ?thesis using d s g(2) rest [OF s] by auto
  qed
  have new: "1 \<le> sln \<sigma>' s \<and> 1 \<le> sst \<sigma>' s \<and> (\<forall>k. sst \<sigma>' s - 1 \<le> k \<and> k \<le> sst \<sigma>' s + sln \<sigma>' s \<longrightarrow> g' k \<noteq> None) \<and>
      g' (sst \<sigma>' s) = Some s \<and> g' (sst \<sigma>' s + sln \<sigma>' s - 1) = Some s" if s: "s \<in> Q" for s
  proof -
    have near: "k \<noteq> 0 \<and> g (k - 1) \<noteq> None \<and> g k \<noteq> None \<and> g (Suc k) \<noteq> None" if k: "k \<in> pages_of \<sigma>' s" for k
    proof -
      from k s have "k \<in> ?U" using same by blast
      then obtain r where r: "r \<in> L" "k \<in> pages_of \<sigma> r" using R by blast
      then show ?thesis using tilingD(2,5) [OF T r(1)] by (auto simp: pages_of_def)
    qed
    have "g' k \<noteq> None" if k: "sst \<sigma>' s - 1 \<le> k" "k \<le> sst \<sigma>' s + sln \<sigma>' s" for k
    proof -
      consider "k \<in> pages_of \<sigma>' s" | "Suc k \<in> pages_of \<sigma>' s" | "k = 0 \<and> sst \<sigma>' s = 0" | "k - 1 \<in> pages_of \<sigma>' s \<and> k \<noteq> 0"
        using k q [OF s] by (force simp: pages_of_def)
      then show ?thesis
      proof cases
        case 1 then show ?thesis using near g(2) by blast
      next
        case 2 then show ?thesis using near [of "Suc k"] g(2) by auto
      next
        case 3 then show ?thesis using near [of 0] q [OF s] by (auto simp: pages_of_def)
      next
        case 4 then show ?thesis using near [of "k - 1"] g(2) by auto
      qed
    qed
    moreover have "1 \<le> sst \<sigma>' s" using near [of "sst \<sigma>' s"] q [OF s] by (auto simp: pages_of_def)
    ultimately show ?thesis using q [OF s] by blast
  qed
  have mix: "pages_of \<sigma>' x \<inter> pages_of \<sigma>' y = {}" if "x \<in> L - R" "y \<in> Q" for x y
    using apart [OF that(1)] rp [OF that(1)] same that(2) by blast
  have olds: "pages_of \<sigma>' x \<inter> pages_of \<sigma>' y = {}" if "x \<in> L - R" "y \<in> L - R" "x \<noteq> y" for x y
    using tiling_disjoint [OF T, of x y] rp that by blast
  have dis: "\<forall>s\<in>(L - R) \<union> Q. \<forall>t\<in>(L - R) \<union> Q. s \<noteq> t \<longrightarrow> pages_of \<sigma>' s \<inter> pages_of \<sigma>' t = {}"
    using mix olds qq by (metis Un_iff inf_commute)
  have own: "\<forall>k d. g' k = Some d \<longrightarrow> d \<noteq> Null \<longrightarrow> k \<in> P"
  proof (intro allI impI)
    fix k d assume a: "g' k = Some d" "d \<noteq> Null"
    show "k \<in> P"
    proof (cases "k \<in> ?U")
      case True then show ?thesis using P R by blast
    next
      case False then show ?thesis using g(1) a tiling_parts(3) [OF T] by auto
    qed
  qed
  have fin: "finite ((L - R) \<union> Q)" "(L - R) \<union> Q \<subseteq> range Obj" using Q tiling_finite [OF T] by auto
  show ?thesis
    unfolding tiling_def using fin P' dis own old new by (simp only: Un_iff) blast
qed

section \<open>The free lists\<close>

definition heads :: "sref set" where
  "heads = insert LargeHead (FreeHead ` {..<unat kMaxPages})"

definition head_of :: "nat \<Rightarrow> sref" where
  "head_of n = (if n < unat kMaxPages then FreeHead n else LargeHead)"

definition frees :: "(sref \<Rightarrow> sref list) \<Rightarrow> sref set" where
  "frees fl = (\<Union>l\<in>heads. set (fl l))"

definition lists_ok :: "spans \<Rightarrow> (sref \<Rightarrow> sref list) \<Rightarrow> bool" where
  "lists_ok \<sigma> fl \<longleftrightarrow>
     (\<forall>l\<in>heads. dll \<sigma> l (fl l) \<and> (\<forall>s\<in>set (fl l). s \<in> range Obj \<and> head_of (sln \<sigma> s) = l \<and> span_free (\<sigma> s))) \<and>
     sorted_wrt (\<lambda>s t. sst \<sigma> s < sst \<sigma> t) (fl LargeHead)"

lemma kMaxPages_256: "unat kMaxPages = 256"
  by (simp add: kMaxPages_def kMinSystemAlloc_def kPageShift_def)

lemma head_of_heads [simp]: "head_of n \<in> heads"
  by (simp add: head_of_def heads_def)

lemma heads_not_Obj [simp]: "Obj a \<notin> heads" "Null \<notin> heads"
  by (auto simp: heads_def)

lemma lists_okD:
  assumes "lists_ok \<sigma> fl" and "l \<in> heads"
  shows "dll \<sigma> l (fl l)" "s \<in> set (fl l) \<Longrightarrow> s \<in> range Obj" "s \<in> set (fl l) \<Longrightarrow> head_of (sln \<sigma> s) = l"
    "s \<in> set (fl l) \<Longrightarrow> span_free (\<sigma> s)"
  using assms unfolding lists_ok_def by simp_all

lemma lists_ok_sorted: "lists_ok \<sigma> fl \<Longrightarrow> sorted_wrt (\<lambda>s t. sst \<sigma> s < sst \<sigma> t) (fl LargeHead)"
  by (simp add: lists_ok_def)

lemma frees_iff: "lists_ok \<sigma> fl \<Longrightarrow> s \<in> frees fl \<longleftrightarrow> s \<in> set (fl (head_of (sln \<sigma> s)))"
  using lists_okD(3) by (fastforce simp: frees_def)

lemma frees_Obj: "lists_ok \<sigma> fl \<Longrightarrow> frees fl \<subseteq> range Obj"
  using lists_okD(2) by (fastforce simp: frees_def)

lemma frees_free: "lists_ok \<sigma> fl \<Longrightarrow> s \<in> frees fl \<Longrightarrow> span_free (\<sigma> s)"
  using lists_okD(4) by (fastforce simp: frees_def)

lemma head_not_free: "lists_ok \<sigma> fl \<Longrightarrow> l \<in> heads \<Longrightarrow> l \<notin> frees fl"
  using frees_Obj by fastforce

lemma finite_frees [simp]: "finite (frees fl)"
  by (simp add: frees_def heads_def)

lemma list_frees: "l \<in> heads \<Longrightarrow> set (fl l) \<subseteq> frees fl"
  by (auto simp: frees_def)

lemma frees_insert:
  assumes "l \<in> heads" and "set ys = insert s (set (fl l))"
  shows "frees (fl(l := ys)) = insert s (frees fl)"
proof -
  have "frees (fl(l := ys)) = (\<Union>m\<in>heads - {l}. set (fl m)) \<union> set ys"
    using assms(1) by (auto simp: frees_def split: if_splits)
  also have "\<dots> = insert s ((\<Union>m\<in>heads - {l}. set (fl m)) \<union> set (fl l))" using assms(2) by simp
  also have "(\<Union>m\<in>heads - {l}. set (fl m)) \<union> set (fl l) = frees fl" using assms(1) by (auto simp: frees_def)
  finally show ?thesis .
qed

lemma lists_ok_cong:
  assumes ok: "lists_ok \<sigma> fl" and same: "\<And>x. x \<in> frees fl \<or> x \<in> heads \<Longrightarrow> \<sigma>' x = \<sigma> x"
  shows "lists_ok \<sigma>' fl"
proof -
  have *: "\<sigma>' x = \<sigma> x" if "l \<in> heads" "x \<in> set (l # fl l)" for l x
    using that same by (auto simp: frees_def)
  have "dll \<sigma>' l (fl l)" if "l \<in> heads" for l
    by (rule dll_cong [OF lists_okD(1) [OF ok that]]) (simp add: * [OF that])
  moreover have "s \<in> range Obj \<and> head_of (sln \<sigma>' s) = l \<and> span_free (\<sigma>' s)" if "l \<in> heads" "s \<in> set (fl l)" for l s
    using lists_okD(2-4) [OF ok that(1)] that * [OF that(1), of s] by (simp add: sln_def)
  moreover have "sorted_wrt (\<lambda>s t. sst \<sigma>' s < sst \<sigma>' t) (fl LargeHead)"
    using lists_ok_sorted [OF ok] * [of LargeHead]
    by (auto simp: sst_def heads_def elim!: sorted_wrt_mono_rel [rotated])
  ultimately show ?thesis unfolding lists_ok_def by blast
qed

text \<open>A change of links on one list, the lists of \<open>fl'\<close> being the same elsewhere.\<close>

lemma lists_ok_relink:
  assumes ok: "lists_ok \<sigma> fl" and l: "l \<in> heads" and dl: "dll \<sigma>' l ys"
    and R: "relinked X \<sigma> \<sigma>'" and X: "X \<subseteq> insert s (set (l # fl l))" and s: "s \<notin> frees fl - set (fl l)" "s \<in> range Obj"
    and ys: "\<And>x. x \<in> set ys \<Longrightarrow> x \<in> range Obj \<and> head_of (sln \<sigma> x) = l \<and> span_free (\<sigma> x)"
    and so: "l = LargeHead \<Longrightarrow> sorted_wrt (\<lambda>s t. sst \<sigma> s < sst \<sigma> t) ys"
  shows "lists_ok \<sigma>' (fl(l := ys))"
proof -
  note d = relinked_data [OF R]
  have other: "dll \<sigma>' m (fl m)" if m: "m \<in> heads" "m \<noteq> l" for m
  proof (rule dll_relinked [OF lists_okD(1) [OF ok m(1)] R])
    have "x \<notin> set (m # fl m)" if "x \<in> insert s (set (l # fl l))" for x
    proof
      assume x: "x \<in> set (m # fl m)"
      have mO: "m \<notin> range Obj" "l \<notin> range Obj" using m l by auto
      from that consider "x = s" | "x = l" | "x \<in> set (fl l)" by auto
      then show False
      proof cases
        case 1
        then have "s \<in> set (fl m)" using x s(2) mO by auto
        moreover have "s \<notin> set (fl l)"
          using lists_okD(3) [OF ok m(1) \<open>s \<in> set (fl m)\<close>] lists_okD(3) [OF ok l] m(2) by blast
        ultimately show False using s(1) m(1) by (auto simp: frees_def)
      next
        case 2
        then show False using x m(2) lists_okD(2) [OF ok m(1), of l] mO by auto
      next
        case 3
        then have "x \<noteq> m" using lists_okD(2) [OF ok l 3] mO by auto
        then show False using x lists_okD(3) [OF ok l 3] lists_okD(3) [OF ok m(1), of x] m(2) by auto
      qed
    qed
    then show "X \<inter> set (m # fl m) = {}" using X by blast
  qed
  have sl: "sln \<sigma>' = sln \<sigma>" "sst \<sigma>' = sst \<sigma>" using d by (simp_all add: fun_eq_iff sln_def sst_def)
  show ?thesis
    unfolding lists_ok_def
  proof (intro conjI ballI)
    fix m assume m: "m \<in> heads"
    show "dll \<sigma>' m ((fl(l := ys)) m)" using other [OF m] dl by simp
    fix x assume x: "x \<in> set ((fl(l := ys)) m)"
    then show "x \<in> range Obj" "head_of (sln \<sigma>' x) = m" "span_free (\<sigma>' x)"
      using ys [of x] lists_okD(2-4) [OF ok m, of x] d(3) by (simp_all add: sl split: if_splits)
  next
    show "sorted_wrt (\<lambda>s t. sst \<sigma>' s < sst \<sigma>' t) ((fl(l := ys)) LargeHead)"
      using so lists_ok_sorted [OF ok] by (simp add: sl)
  qed
qed

lemma lists_remove:
  assumes ok: "lists_ok \<sigma> fl" and t: "t \<in> frees fl"
  shows "\<exists>\<sigma>' fl'. DLL_Remove t \<sigma> = Some \<sigma>' \<and> lists_ok \<sigma>' fl' \<and> frees fl' = frees fl - {t} \<and>
    relinked (frees fl \<union> heads) \<sigma> \<sigma>' \<and> span_next (\<sigma>' t) = Null \<and> span_prev (\<sigma>' t) = Null"
proof -
  let ?l = "head_of (sln \<sigma> t)"
  have tl: "t \<in> set (fl ?l)" using frees_iff [OF ok] t by blast
  then obtain xs ys where f: "fl ?l = xs @ t # ys" by (meson split_list)
  have l: "?l \<in> heads" by simp
  have D: "dll \<sigma> ?l (xs @ t # ys)" using lists_okD(1) [OF ok l] f by simp
  obtain \<sigma>' where r: "DLL_Remove t \<sigma> = Some \<sigma>'" "dll \<sigma>' ?l (xs @ ys)" "relinked (set (?l # xs @ t # ys)) \<sigma> \<sigma>'"
    "span_next (\<sigma>' t) = Null" "span_prev (\<sigma>' t) = Null"
    using DLL_Remove_spec [OF D] by blast
  have tn: "t \<notin> set (xs @ ys)" using D by (auto simp: dll_def)
  have ok': "lists_ok \<sigma>' (fl(?l := xs @ ys))"
  proof (rule lists_ok_relink [OF ok l r(2,3), where s = t])
    show "set (?l # xs @ t # ys) \<subseteq> insert t (set (?l # fl ?l))" by (auto simp: f)
    show "t \<notin> frees fl - set (fl ?l)" "t \<in> range Obj" using tl frees_Obj [OF ok] t by auto
    show "x \<in> range Obj \<and> head_of (sln \<sigma> x) = ?l \<and> span_free (\<sigma> x)" if "x \<in> set (xs @ ys)" for x
      using lists_okD(2-4) [OF ok l, of x] that f by auto
    show "sorted_wrt (\<lambda>s t. sst \<sigma> s < sst \<sigma> t) (xs @ ys)" if "?l = LargeHead"
      using lists_ok_sorted [OF ok] f that by (simp add: sorted_wrt_append)
  qed
  have "frees (fl(?l := xs @ ys)) = frees fl - {t}"
  proof -
    have "x \<in> set ((fl(?l := xs @ ys)) m) \<longleftrightarrow> x \<in> set (fl m) \<and> x \<noteq> t" if m: "m \<in> heads" for m x
    proof (cases "m = ?l")
      case True
      have "x \<in> set (xs @ ys) \<longleftrightarrow> x \<in> set (xs @ t # ys) \<and> x \<noteq> t" using tn by auto
      then show ?thesis using f True by simp
    next
      case False
      then have "t \<notin> set (fl m)" using lists_okD(3) [OF ok m, of t] by metis
      then show ?thesis using False by auto
    qed
    then have "(\<Union>m\<in>heads. set ((fl(?l := xs @ ys)) m)) = (\<Union>m\<in>heads. set (fl m)) - {t}" by blast
    then show ?thesis by (simp only: frees_def)
  qed
  moreover have "relinked (frees fl \<union> heads) \<sigma> \<sigma>'"
    by (rule relinked_mono [OF r(3)]) (use f l list_frees [OF l, of fl] in auto)
  ultimately show ?thesis using r ok' by blast
qed

lemma sorted_insert_before:
  assumes "sorted_wrt (\<lambda>s t. (f s :: nat) < f t) xs" and "\<And>x. x \<in> set xs \<Longrightarrow> f x \<noteq> f a"
  shows "sorted_wrt (\<lambda>s t. f s < f t) (takeWhile (\<lambda>z. f z < f a) xs @ a # dropWhile (\<lambda>z. f z < f a) xs)"
  using assms
proof (induction xs)
  case (Cons x xs)
  let ?t = "takeWhile (\<lambda>z. f z < f a) xs" and ?d = "dropWhile (\<lambda>z. f z < f a) xs"
  have big: "\<forall>y\<in>set xs. f x < f y" using Cons.prems(1) by simp
  have ne: "f x \<noteq> f a" using Cons.prems(2) by simp
  show ?case
  proof (cases "f x < f a")
    case True
    have "sorted_wrt (\<lambda>s t. f s < f t) (?t @ a # ?d)" using Cons by simp
    moreover have "\<forall>y\<in>set (?t @ a # ?d). f x < f y"
      using big True set_takeWhileD [of _ _ xs] set_dropWhileD [of _ _ xs] by auto
    ultimately show ?thesis using True by simp
  next
    case False
    then have ax: "f a < f x" using ne by linarith
    then have "\<forall>y\<in>set (x # xs). f a < f y" using big by (auto intro: less_trans)
    then show ?thesis using Cons.prems(1) False by simp
  qed
qed simp

lemma set_take_drop: "set (takeWhile Q xs) \<union> set (dropWhile Q xs) = set xs"
  by (metis set_append takeWhile_dropWhile_id)

lemma lists_add:
  assumes ok: "lists_ok (spans_of h) fl" and s: "s \<notin> frees fl" "s \<in> range Obj" "span_free (spans_of h s)"
    "span_next (spans_of h s) = Null" "span_prev (spans_of h s) = Null"
    and len: "len = span_length (spans_of h s)"
    and start: "\<And>x. x \<in> frees fl \<Longrightarrow> sst (spans_of h) x \<noteq> sst (spans_of h) s"
  shows "\<exists>\<sigma>' fl'. add_to_free_list s len h = Some (h\<lparr>spans_of := \<sigma>'\<rparr>) \<and> lists_ok \<sigma>' fl' \<and>
    frees fl' = insert s (frees fl) \<and> relinked (insert s (frees fl \<union> heads)) (spans_of h) \<sigma>'"
proof -
  let ?\<sigma> = "spans_of h" and ?l = "head_of (unat len)"
  have l: "?l \<in> heads" by simp
  note D = lists_okD(1) [OF ok l]
  have "s \<notin> heads" using s(2) by auto
  then have sl: "s \<notin> set (?l # fl ?l)" "s \<noteq> Null" using s l by (auto simp: frees_def)
  let ?P = "\<lambda>z. span_start (?\<sigma> z) < span_start (?\<sigma> s)"
  define ys where "ys = (if unat len < unat kMaxPages then s # fl ?l else takeWhile ?P (fl ?l) @ s # dropWhile ?P (fl ?l))"
  have set_ys: "set ys = insert s (set (fl ?l))"
    using set_take_drop [of ?P "fl ?l"] by (auto simp: ys_def)
  obtain \<sigma>' where r: "add_to_free_list s len h = Some (h\<lparr>spans_of := \<sigma>'\<rparr>)" "dll \<sigma>' ?l ys"
    "relinked (insert s (set (?l # fl ?l))) ?\<sigma> \<sigma>'"
  proof (cases "unat len < unat kMaxPages")
    case True
    have hl: "?l = FreeHead (unat len)" and yl: "ys = s # fl ?l" using True by (simp_all add: head_of_def ys_def)
    obtain \<sigma>' where "DLL_Prepend ?l s ?\<sigma> = Some \<sigma>'" "dll \<sigma>' ?l ys" "relinked (insert s (set (?l # fl ?l))) ?\<sigma> \<sigma>'"
      using DLL_Prepend_spec [OF D sl s(4,5)] unfolding yl by blast
    moreover have "add_to_free_list s len h = on_spans (DLL_Prepend ?l s) h"
      using True unfolding hl by (simp add: add_to_free_list_def word_less_nat_alt)
    ultimately show ?thesis using that by (simp add: on_spans_def)
  next
    case False
    have hl: "?l = LargeHead" and yl: "ys = takeWhile ?P (fl ?l) @ s # dropWhile ?P (fl ?l)"
      using False by (simp_all add: head_of_def ys_def)
    obtain \<sigma>' where "DLL_InsertOrdered ?l s ?\<sigma> = Some \<sigma>'" "dll \<sigma>' ?l ys" "relinked (insert s (set (?l # fl ?l))) ?\<sigma> \<sigma>'"
      using DLL_InsertOrdered_spec [OF D sl s(4,5)] unfolding yl by blast
    moreover have "add_to_free_list s len h = on_spans (DLL_InsertOrdered ?l s) h"
      using False unfolding hl by (simp add: add_to_free_list_def word_less_nat_alt)
    ultimately show ?thesis using that by (simp add: on_spans_def)
  qed
  have ok': "lists_ok \<sigma>' (fl(?l := ys))"
  proof (rule lists_ok_relink [OF ok l r(2,3) order_refl _ s(2)])
    show "s \<notin> frees fl - set (fl ?l)" using s by blast
    show "x \<in> range Obj \<and> head_of (sln ?\<sigma> x) = ?l \<and> span_free (?\<sigma> x)" if "x \<in> set ys" for x
      using that lists_okD(2-4) [OF ok l, of x] s(2,3) len by (auto simp: set_ys sln_def)
    show "sorted_wrt (\<lambda>s t. sst ?\<sigma> s < sst ?\<sigma> t) ys" if "?l = LargeHead"
    proof -
      have "ys = takeWhile (\<lambda>z. sst ?\<sigma> z < sst ?\<sigma> s) (fl ?l) @ s # dropWhile (\<lambda>z. sst ?\<sigma> z < sst ?\<sigma> s) (fl ?l)"
        using that by (simp add: ys_def head_of_def sst_def word_less_nat_alt split: if_splits)
      moreover have "sst ?\<sigma> x \<noteq> sst ?\<sigma> s" if "x \<in> set (fl ?l)" for x
        by (rule start) (use that l in \<open>auto simp: frees_def\<close>)
      ultimately show ?thesis
        using sorted_insert_before [of "sst ?\<sigma>" "fl ?l" s] lists_ok_sorted [OF ok] that by simp
    qed
  qed
  have "frees (fl(?l := ys)) = insert s (frees fl)"
    by (rule frees_insert) (use l set_ys in simp_all)
  moreover have "relinked (insert s (frees fl \<union> heads)) ?\<sigma> \<sigma>'"
    by (rule relinked_mono [OF r(3)]) (use l list_frees [OF l, of fl] in auto)
  ultimately show ?thesis using r(1) ok' by blast
qed

section \<open>Reading and writing the page map\<close>

lemma GetDescriptor_pmap: "pmap h k = Some v \<Longrightarrow> GetDescriptor (word_of_nat k) h = Some v"
  by (simp add: pmap_def split: if_splits)

lemma GetDescriptor_start: "pmap h (sst \<sigma> s) = Some v \<Longrightarrow> GetDescriptor (span_start (\<sigma> s)) h = Some v"
  using GetDescriptor_pmap [of h "sst \<sigma> s" v] by (simp add: sst_def)

lemma last_page_word: "1 \<le> sln \<sigma> s \<Longrightarrow> span_start (\<sigma> s) + span_length (\<sigma> s) - 1 = word_of_nat (sst \<sigma> s + sln \<sigma> s - 1)"
  by (simp add: sst_def sln_def of_nat_diff)

lemma GetDescriptor_last:
  "1 \<le> sln \<sigma> s \<Longrightarrow> pmap h (sst \<sigma> s + sln \<sigma> s - 1) = Some v \<Longrightarrow>
   GetDescriptor (span_start (\<sigma> s) + span_length (\<sigma> s) - 1) h = Some v"
  by (simp only: last_page_word GetDescriptor_pmap)

lemma upd_order: "h\<lparr>span_allocator := al, spans_of := \<sigma>\<rparr> = h\<lparr>spans_of := \<sigma>, span_allocator := al\<rparr>"
  "h\<lparr>pagemap := pm, spans_of := \<sigma>\<rparr> = h\<lparr>spans_of := \<sigma>, pagemap := pm\<rparr>"
  by simp_all

lemma pmap_cong: "pagemap h = pagemap h' \<Longrightarrow> pmap h = pmap h'"
  by (simp add: fun_eq_iff pmap_def GetDescriptor_def pagemap_get_def)

lemma pmap_simps [simp]:
  "pmap (h\<lparr>spans_of := \<sigma>\<rparr>) = pmap h" "pmap (h\<lparr>span_allocator := a\<rparr>) = pmap h" "pmap (h\<lparr>meta := ms\<rparr>) = pmap h"
  "pmap (h\<lparr>free_pages := n\<rparr>) = pmap h" "pmap (h\<lparr>system_bytes := n\<rparr>) = pmap h"
  "pmap (h\<lparr>stacktrace_allocator := b\<rparr>) = pmap h" "pmap (h\<lparr>traces := tr\<rparr>) = pmap h" "pmap (h\<lparr>trace_calls := c\<rparr>) = pmap h"
  by (simp_all add: fun_eq_iff pmap_def GetDescriptor_def pagemap_get_def)

lemma pmap_set:
  assumes k: "pmap h k \<noteq> None"
  shows "\<exists>pm. pagemap_set (word_of_nat k) s h = Some (h\<lparr>pagemap := pm\<rparr>) \<and>
    pmap (h\<lparr>pagemap := pm\<rparr>) = (pmap h)(k := Some s) \<and> (root_3 (pagemap h) \<noteq> None \<longrightarrow> root_3 pm \<noteq> None)"
proof -
  have k52: "k < 2 ^ 52" and g: "PageMap3_get PM_BITS (pagemap h) (word_of_nat k) \<noteq> None"
    using k by (auto simp: pmap_def GetDescriptor_def pagemap_get_def split: if_splits)
  obtain pm where pm: "PageMap3_set PM_BITS (pagemap h) (word_of_nat k) s = Some pm"
    using pm3.set_Some [OF g, of s] by blast
  have inj: "(word_of_nat j = (word_of_nat k :: u64)) = (j = k)" if "j < 2 ^ 52" for j
    using that k52 by (auto simp: of_nat_inverse dest!: arg_cong [where f = unat])
  have pj: "pmap (h\<lparr>pagemap := pm\<rparr>) j = ((pmap h)(k := Some s)) j" for j
    using pm3.get_set [OF pm] inj [of j] k52 by (simp add: pmap_def GetDescriptor_def pagemap_get_def)
  moreover have "root_3 pm \<noteq> None"
    using pm by (auto simp: PageMap3_set_def option_monad Let_def)
  ultimately show ?thesis
    using pm by (intro exI [of _ pm] conjI ext) (simp_all add: pagemap_set_def)
qed

lemma pmap_set_start: "pmap h (sst \<sigma> s) \<noteq> None \<Longrightarrow> \<exists>pm. pagemap_set (span_start (\<sigma> s)) d h = Some (h\<lparr>pagemap := pm\<rparr>) \<and>
    pmap (h\<lparr>pagemap := pm\<rparr>) = (pmap h)(sst \<sigma> s := Some d) \<and> (root_3 (pagemap h) \<noteq> None \<longrightarrow> root_3 pm \<noteq> None)"
  using pmap_set [of h "sst \<sigma> s" d] by (simp add: sst_def)

section \<open>The self-check\<close>

definition list_entry_ok :: "'a page_heap_scheme \<Rightarrow> u64 \<Rightarrow> u64 \<Rightarrow> sref \<Rightarrow> bool" where
  "list_entry_ok h a b s \<longleftrightarrow> span_free (spans_of h s) \<and> a \<le> span_length (spans_of h s) \<and> span_length (spans_of h s) \<le> b \<and>
     pmap h (sst (spans_of h) s) = Some s \<and> pmap h (sst (spans_of h) s + sln (spans_of h) s - 1) = Some s \<and> 1 \<le> sln (spans_of h) s"

lemma CheckList_ok:
  assumes D: "dll (spans_of h) l xs" and e: "\<And>s. s \<in> set xs \<Longrightarrow> list_entry_ok h a b s"
  shows "CheckList h l a b = Some ()"
proof -
  have "chain (spans_of h) x ys l \<Longrightarrow> l \<notin> set ys \<Longrightarrow> Null \<notin> set ys \<Longrightarrow> \<forall>s\<in>set ys. list_entry_ok h a b s \<Longrightarrow>
    CheckList_loop h l a b (span_next (spans_of h x)) = Some ()" for x ys
  proof (induction ys arbitrary: x)
    case Nil
    then show ?case by (subst CheckList_loop.simps) simp
  next
    case (Cons y ys)
    then have y: "list_entry_ok h a b y" by simp
    then show ?case
      using Cons GetDescriptor_start [of h "spans_of h" y y] GetDescriptor_last [of "spans_of h" y h y]
      by (subst CheckList_loop.simps) (auto simp: rd_def list_entry_ok_def)
  qed
  from this [of l xs] D e show ?thesis by (auto simp: CheckList_def dll_def rd_def)
qed

lemma CheckLists_all: "(\<And>n. n \<in> set ns \<Longrightarrow> CheckList h (FreeHead n) (word_of_nat n) (word_of_nat n) = Some ()) \<Longrightarrow>
   CheckLists h ns = Some ()"
  by (induction ns) auto

lemma PH_Check_ok:
  assumes ok: "lists_ok (spans_of h) fl" and T: "tiling (spans_of h) (pmap h) L P" and F: "frees fl \<subseteq> L"
    and card: "card P \<le> 1000000000"
  shows "PH_Check h = Some ()"
proof -
  let ?\<sigma> = "spans_of h"
  have entry: "list_entry_ok h a b s" if "l \<in> heads" "s \<in> set (fl l)" "a \<le> span_length (?\<sigma> s)" "span_length (?\<sigma> s) \<le> b" for l s a b
  proof -
    have "s \<in> L" using that list_frees F by blast
    then show ?thesis using that lists_okD(4) [OF ok that(1,2)] tilingD(1,3,4) [OF T] by (simp add: list_entry_ok_def)
  qed
  have zero: "fl (FreeHead 0) = []"
  proof (rule ccontr)
    assume "fl (FreeHead 0) \<noteq> []"
    then obtain s where s: "s \<in> set (fl (FreeHead 0))" by (cases "fl (FreeHead 0)") auto
    have h0: "FreeHead 0 \<in> heads" by (simp add: heads_def kMaxPages_256)
    have "head_of (sln ?\<sigma> s) = FreeHead 0" by (rule lists_okD(3) [OF ok h0 s])
    then have "sln ?\<sigma> s = 0" by (simp add: head_of_def split: if_splits)
    moreover have "s \<in> L" using s h0 list_frees F by blast
    ultimately show False using tilingD(1) [OF T] by fastforce
  qed
  have "DLL_IsEmpty (FreeHead 0) ?\<sigma>"
    using DLL_IsEmpty_dll [OF lists_okD(1) [OF ok, of "FreeHead 0"]] zero by (simp add: heads_def kMaxPages_256)
  moreover have "CheckList h LargeHead kMaxPages 1000000000 = Some ()"
  proof (rule CheckList_ok)
    have lh: "LargeHead \<in> heads" by (simp add: heads_def)
    show "dll ?\<sigma> LargeHead (fl LargeHead)" by (rule lists_okD(1) [OF ok lh])
    fix s assume s: "s \<in> set (fl LargeHead)"
    have "unat kMaxPages \<le> sln ?\<sigma> s"
      using lists_okD(3) [OF ok lh s] by (simp add: head_of_def split: if_splits)
    moreover have "sln ?\<sigma> s \<le> 1000000000"
      using tiling_len [OF T, of s] card s lh list_frees F by fastforce
    ultimately show "list_entry_ok h kMaxPages 1000000000 s"
      by (intro entry [OF lh s]) (simp_all add: sln_def word_le_nat_alt)
  qed
  moreover have "CheckLists h [1..<unat kMaxPages] = Some ()"
  proof (rule CheckLists_all)
    fix n assume n: "n \<in> set [1..<unat kMaxPages]"
    then have nh: "FreeHead n \<in> heads" by (simp add: heads_def)
    show "CheckList h (FreeHead n) (word_of_nat n) (word_of_nat n) = Some ()"
    proof (rule CheckList_ok)
      show "dll ?\<sigma> (FreeHead n) (fl (FreeHead n))" by (rule lists_okD(1) [OF ok nh])
      fix s assume s: "s \<in> set (fl (FreeHead n))"
      have "sln ?\<sigma> s = n"
        using lists_okD(3) [OF ok nh s] by (simp add: head_of_def split: if_splits)
      then have "span_length (?\<sigma> s) = word_of_nat n" by (auto simp: sln_def)
      then show "list_entry_ok h (word_of_nat n) (word_of_nat n) s" by (intro entry [OF nh s]) simp_all
    qed
  qed
  ultimately show ?thesis by (simp add: PH_Check_def DLL_IsEmpty_def)
qed

section \<open>The invariant\<close>

definition page_bytes :: "nat set \<Rightarrow> nat set" where
  "page_bytes P = {a. a div 4096 \<in> P}"

text \<open>\<open>U\<close>: the addresses of the spans in use.\<close>

definition mem_ok :: "'a page_heap_scheme \<Rightarrow> u64 set \<Rightarrow> nat set \<Rightarrow> bool" where
  "mem_ok h U P \<longleftrightarrow> sys_ok (sys (meta h)) \<and> (\<exists>M N T.
     pha_ok sizeof_Span (span_allocator h) U M \<and> pha_ok sizeof_StackTrace (stacktrace_allocator h) T N \<and>
     M \<union> N \<union> page_bytes P \<subseteq> bytes_mapped (meta h) \<and>
     M \<inter> N = {} \<and> M \<inter> page_bytes P = {} \<and> N \<inter> page_bytes P = {})"

definition addrs :: "sref set \<Rightarrow> u64 set" where
  "addrs L = {a. Obj a \<in> L}"

definition kMaxHeapPages :: nat where "kMaxHeapPages = 1000000000"

definition ph_inv :: "'a page_heap_scheme \<Rightarrow> sref set \<Rightarrow> (sref \<Rightarrow> sref list) \<Rightarrow> nat set \<Rightarrow> bool" where
  "ph_inv h A fl P \<longleftrightarrow> lists_ok (spans_of h) fl \<and> tiling (spans_of h) (pmap h) (A \<union> frees fl) P \<and>
     coloring (spans_of h) A (frees fl) \<and> mem_ok h (addrs (A \<union> frees fl)) P \<and> root_3 (pagemap h) \<noteq> None \<and>
     4096 * card P \<le> unat (system_bytes h) \<and> unat (system_bytes h) \<le> 4096 * kMaxHeapPages"

lemma ph_invD:
  assumes "ph_inv h A fl P"
  shows "lists_ok (spans_of h) fl" "tiling (spans_of h) (pmap h) (A \<union> frees fl) P" "coloring (spans_of h) A (frees fl)"
    "mem_ok h (addrs (A \<union> frees fl)) P" "root_3 (pagemap h) \<noteq> None" "4096 * card P \<le> unat (system_bytes h)"
    "unat (system_bytes h) \<le> 4096 * kMaxHeapPages" "card P \<le> kMaxHeapPages"
  using assms by (auto simp: ph_inv_def)

lemma ph_inv_Check: "ph_inv h A fl P \<Longrightarrow> PH_Check h = Some ()"
  by (rule PH_Check_ok [OF ph_invD(1,2)]) (auto dest: ph_invD(8) simp: kMaxHeapPages_def)

lemma ph_inv_disjoint: "ph_inv h A fl P \<Longrightarrow> s \<in> A \<Longrightarrow> s \<notin> frees fl"
  by (auto simp: ph_inv_def coloring_def)

lemma tiling_bound:
  assumes T: "tiling \<sigma> (pmap h) L P" and s: "s \<in> L"
  shows "sst \<sigma> s + sln \<sigma> s < 2 ^ 52"
proof -
  have "pmap h (sst \<sigma> s + sln \<sigma> s) \<noteq> None" by (rule tilingD(5) [OF T s]) simp_all
  then show ?thesis by (auto simp: pmap_def split: if_splits)
qed

lemma tiling_same:
  assumes T: "tiling \<sigma> g L P" and rest: "\<And>x. x \<in> L \<Longrightarrow> sst \<sigma>' x = sst \<sigma> x \<and> sln \<sigma>' x = sln \<sigma> x"
  shows "tiling \<sigma>' g L P"
  using tiling_replace [OF T, of "{}" "{}" \<sigma>' g] rest by simp

text \<open>A change of fields that the heap does not look at, of spans in use.\<close>

lemma ph_inv_spans_cong:
  assumes I: "ph_inv h A fl P" and f: "\<And>x. x \<in> frees fl \<or> x \<in> heads \<Longrightarrow> \<sigma>' x = spans_of h x"
    and a: "\<And>x. x \<in> A \<Longrightarrow> span_start (\<sigma>' x) = span_start (spans_of h x) \<and>
      span_length (\<sigma>' x) = span_length (spans_of h x) \<and> span_free (\<sigma>' x) = span_free (spans_of h x)"
  shows "ph_inv (h\<lparr>spans_of := \<sigma>'\<rparr>) A fl P"
proof -
  have d: "sst \<sigma>' x = sst (spans_of h) x \<and> sln \<sigma>' x = sln (spans_of h) x \<and> span_free (\<sigma>' x) = span_free (spans_of h x)"
    if "x \<in> A \<union> frees fl" for x
    using that f a by (cases "x \<in> A") (auto simp: sst_def sln_def)
  have "span_sizeclass (\<sigma>' x) = span_sizeclass (spans_of h x) \<and> span_sample (\<sigma>' x) = span_sample (spans_of h x)"
    if "x \<in> frees fl" for x
    using that f by simp
  then have "coloring \<sigma>' A (frees fl)"
    using ph_invD(3) [OF I] d unfolding coloring_def by auto
  moreover have "lists_ok \<sigma>' fl" by (rule lists_ok_cong [OF ph_invD(1) [OF I] f])
  moreover have "tiling \<sigma>' (pmap h) (A \<union> frees fl) P" by (rule tiling_same [OF ph_invD(2) [OF I]]) (simp add: d)
  ultimately show ?thesis using I unfolding ph_inv_def mem_ok_def by simp
qed

lemma ph_inv_update_used:
  assumes "ph_inv h A fl P" and "s \<in> A" and "span_start y = span_start (spans_of h s)"
    "span_length y = span_length (spans_of h s)" "span_free y = span_free (spans_of h s)"
  shows "ph_inv (h\<lparr>spans_of := (spans_of h)(s := y)\<rparr>) A fl P"
proof (rule ph_inv_spans_cong [OF assms(1)])
  have "s \<in> range Obj" using tiling_finite(3) [OF ph_invD(2) [OF assms(1)]] assms(2) by blast
  then show "((spans_of h)(s := y)) x = spans_of h x" if "x \<in> frees fl \<or> x \<in> heads" for x
    using that ph_inv_disjoint [OF assms(1,2)] by auto
qed (use assms in auto)

end
