(* ===== verification/PageHeapDelete.thy ===== *)
theory PageHeapDelete
  imports PageHeapInv
begin

text \<open>
  \<open>Delete\<close> of the page heap: the two coalescing steps keep the invariant with the span still in
  the caller's hands, the last step moves it to the free list of its length. No assertion of
  the code fails on the way, the self-checks before and after included.
\<close>

text \<open>What the page heap leaves alone: everything but the span \<open>s\<close> and the free spans.\<close>

definition ph_frame :: "sref set \<Rightarrow> 'a page_heap_scheme \<Rightarrow> 'a page_heap_scheme \<Rightarrow> bool" where
  "ph_frame B h h' \<longleftrightarrow> page_heap.more h' = page_heap.more h \<and>
     (\<forall>x. x \<in> B \<or> (x \<notin> range Obj \<and> x \<notin> heads) \<longrightarrow> spans_of h' x = spans_of h x) \<and>
     (\<forall>x\<in>B. \<forall>k\<in>pages_of (spans_of h) x. pmap h' k = pmap h k)"

lemma ph_frame_refl [simp]: "ph_frame B h h"
  by (simp add: ph_frame_def)

lemma ph_frame_trans:
  assumes "ph_frame B h h'" "ph_frame B h' h''"
  shows "ph_frame B h h''"
proof -
  have "pages_of (spans_of h') x = pages_of (spans_of h) x" if "x \<in> B" for x
    using assms(1) that by (simp add: ph_frame_def pages_of_def sst_def sln_def)
  then show ?thesis using assms unfolding ph_frame_def by simp
qed

lemma ph_frame_mono: "ph_frame B h h' \<Longrightarrow> C \<subseteq> B \<Longrightarrow> ph_frame C h h'"
  by (auto simp: ph_frame_def)

text \<open>The rest of the state, which \<open>Delete\<close> does not touch.\<close>

definition del_same :: "'a page_heap_scheme \<Rightarrow> 'a page_heap_scheme \<Rightarrow> bool" where
  "del_same h h' \<longleftrightarrow> meta h' = meta h \<and> stacktrace_allocator h' = stacktrace_allocator h \<and>
     traces h' = traces h \<and> trace_calls h' = trace_calls h \<and> system_bytes h' = system_bytes h \<and>
     (\<forall>k. pha_room sizeof_Span (span_allocator h) k \<longrightarrow> pha_room sizeof_Span (span_allocator h') k)"

lemma del_same_trans: "del_same h h' \<Longrightarrow> del_same h' h'' \<Longrightarrow> del_same h h''"
  by (simp add: del_same_def)

lemma pha_room_Suc: "pha_room sz a (Suc k) \<Longrightarrow> pha_room sz a k"
  unfolding pha_room_def using Suc_leD by blast

lemma addrs_remove: "addrs L - {a} = addrs (L - {Obj a})"
  by (auto simp: addrs_def)

section \<open>Absorbing a free neighbour\<close>

lemma absorb:
  assumes I: "ph_inv h A fl P" and s: "s \<in> A" and t: "t \<in> frees fl"
    and adj: "sst (spans_of h) t + sln (spans_of h) t = sst (spans_of h) s \<and> a = sst (spans_of h) t \<and> k = a \<or>
      sst (spans_of h) s + sln (spans_of h) s = sst (spans_of h) t \<and> a = sst (spans_of h) s \<and>
      k = a + sln (spans_of h) s + sln (spans_of h) t - 1"
  obtains \<sigma>1 fl1 al where "DLL_Remove t (spans_of h) = Some \<sigma>1"
    "DeleteSpan t (h\<lparr>spans_of := \<sigma>1\<rparr>) = Some (h\<lparr>spans_of := \<sigma>1(t := poison_span), span_allocator := al\<rparr>)"
    "\<sigma>1 s = spans_of h s" "s \<noteq> t" "pmap h k \<noteq> None" "frees fl1 = frees fl - {t}"
    and "\<And>y pm. unat (span_start y) = a \<Longrightarrow> unat (span_length y) = sln (spans_of h) s + sln (spans_of h) t \<Longrightarrow>
      \<not> span_free y \<Longrightarrow> pmap (h\<lparr>pagemap := pm\<rparr>) = (pmap h)(k := Some s) \<Longrightarrow> root_3 pm \<noteq> None \<Longrightarrow>
      (let h' = h\<lparr>spans_of := \<sigma>1(t := poison_span, s := y), span_allocator := al, pagemap := pm\<rparr>
       in ph_inv h' A fl1 P \<and>
         (\<Sum>u\<in>frees fl1. sln (spans_of h') u) + sln (spans_of h) t = (\<Sum>u\<in>frees fl. sln (spans_of h) u) \<and>
         (\<forall>u\<in>frees fl1. sst (spans_of h') u = sst (spans_of h) u \<and> sln (spans_of h') u = sln (spans_of h) u) \<and>
         ph_frame (A - {s}) h h' \<and> del_same h h')"
proof -
  let ?\<sigma> = "spans_of h" and ?L = "A \<union> frees fl"
  note ok = ph_invD(1) [OF I] and T = ph_invD(2) [OF I] and C = ph_invD(3) [OF I] and M = ph_invD(4) [OF I]
  have sL: "s \<in> ?L" and tL: "t \<in> ?L" using s t by auto
  have sf: "s \<notin> frees fl" by (rule ph_inv_disjoint [OF I s])
  then have st: "s \<noteq> t" using t by blast
  have ObjL: "?L \<subseteq> range Obj" by (rule tiling_finite [OF T])
  obtain b where b: "t = Obj b" using tL ObjL by auto
  obtain \<sigma>1 fl1 where r: "DLL_Remove t ?\<sigma> = Some \<sigma>1" "lists_ok \<sigma>1 fl1" "frees fl1 = frees fl - {t}"
    "relinked (frees fl \<union> heads) ?\<sigma> \<sigma>1"
    using lists_remove [OF ok t] by blast
  have s1: "\<sigma>1 s = ?\<sigma> s"
    by (rule relinked_other [OF r(4)]) (use sf sL ObjL in auto)
  obtain N T' M' where mm: "sys_ok (sys (meta h))" "pha_ok sizeof_Span (span_allocator h) (addrs ?L) M'"
    "pha_ok sizeof_StackTrace (stacktrace_allocator h) T' N" "M' \<union> N \<union> page_bytes P \<subseteq> bytes_mapped (meta h)"
    "M' \<inter> N = {}" "M' \<inter> page_bytes P = {}" "N \<inter> page_bytes P = {}"
    using M unfolding mem_ok_def by blast
  have "b \<in> addrs ?L" using tL b by (simp add: addrs_def)
  from PHA_Delete_ok [OF mm(2) this] obtain al where al: "PHA_Delete b (span_allocator h) = Some al"
    "pha_ok sizeof_Span al (addrs ?L - {b}) M'" "\<forall>k. pha_room sizeof_Span (span_allocator h) k \<longrightarrow> pha_room sizeof_Span al (Suc k)"
    by blast
  have tA: "t \<notin> A" using ph_inv_disjoint [OF I] t by blast
  have Lt: "?L - {t} = A \<union> frees fl1" using r(3) tA by auto
  have addr: "addrs ?L - {b} = addrs (A \<union> frees fl1)" using addrs_remove [of ?L b] Lt b by simp
  have run: "DeleteSpan t (h\<lparr>spans_of := \<sigma>1\<rparr>) = Some (h\<lparr>spans_of := \<sigma>1(t := poison_span), span_allocator := al\<rparr>)"
    using al(1) by (simp add: b DeleteSpan_def on_spans_def wr_def)
  have "k \<in> pages_of ?\<sigma> s \<union> pages_of ?\<sigma> t"
    using adj tilingD(1) [OF T sL] tilingD(1) [OF T tL] by (auto simp: pages_of_def)
  then have kd: "pmap h k \<noteq> None"
    using tilingD(5) [OF T sL, of k] tilingD(5) [OF T tL, of k] by (auto simp: pages_of_def)
  note d = relinked_data [OF r(4)]
  have goal: "let h' = h\<lparr>spans_of := \<sigma>1(t := poison_span, s := y), span_allocator := al, pagemap := pm\<rparr>
       in ph_inv h' A fl1 P \<and>
         (\<Sum>u\<in>frees fl1. sln (spans_of h') u) + sln ?\<sigma> t = (\<Sum>u\<in>frees fl. sln ?\<sigma> u) \<and>
         (\<forall>u\<in>frees fl1. sst (spans_of h') u = sst ?\<sigma> u \<and> sln (spans_of h') u = sln ?\<sigma> u) \<and>
         ph_frame (A - {s}) h h' \<and> del_same h h'"
    if y: "unat (span_start y) = a" "unat (span_length y) = sln ?\<sigma> s + sln ?\<sigma> t" "\<not> span_free y"
      and pm: "pmap (h\<lparr>pagemap := pm\<rparr>) = (pmap h)(k := Some s)" "root_3 pm \<noteq> None" for y pm
  proof -
    define h' where "h' = h\<lparr>spans_of := \<sigma>1(t := poison_span, s := y), span_allocator := al, pagemap := pm\<rparr>"
    let ?\<sigma>' = "\<sigma>1(t := poison_span, s := y)"
    have "pmap h' = pmap (h\<lparr>pagemap := pm\<rparr>)" by (rule pmap_cong) (simp add: h'_def)
    then have pm': "pmap h' = (pmap h)(k := Some s)" using pm(1) by simp
    have rest: "sst ?\<sigma>' x = sst ?\<sigma> x \<and> sln ?\<sigma>' x = sln ?\<sigma> x" if "x \<noteq> s" "x \<noteq> t" for x
      using that d by (simp add: sst_def sln_def)
    have rest1: "sst ?\<sigma>' x = sst ?\<sigma> x \<and> sln ?\<sigma>' x = sln ?\<sigma> x" if "x \<in> frees fl1" for x
    proof -
      have "x \<noteq> s" "x \<noteq> t" using that sf r(3) by auto
      then show ?thesis by (rule rest)
    qed
    have s': "sst ?\<sigma>' s = a" "sln ?\<sigma>' s = sln ?\<sigma> s + sln ?\<sigma> t" using y by (simp_all add: sst_def sln_def)
    have ps: "pages_of ?\<sigma>' s = pages_of ?\<sigma> s \<union> pages_of ?\<sigma> t"
      using adj unfolding pages_of_def s' by auto
    have notf: "s \<notin> frees fl1 \<and> t \<notin> frees fl1" using sf r(3) by auto
    have nh: "s \<notin> heads" "t \<notin> heads" using sL tL ObjL by auto
    have ok': "lists_ok ?\<sigma>' fl1"
      by (rule lists_ok_cong [OF r(2)]) (use notf nh in auto)
    have T': "tiling ?\<sigma>' (pmap h') ((?L - {s, t}) \<union> {s}) P"
    proof (rule tiling_replace [OF T])
      show "{s, t} \<subseteq> ?L" using sL tL by blast
      show "{s} \<subseteq> range Obj" using sL ObjL by blast
      show "(\<Union>q\<in>{s}. pages_of ?\<sigma>' q) = (\<Union>r\<in>{s, t}. pages_of ?\<sigma> r)" using ps by simp
      show "1 \<le> sln ?\<sigma>' q \<and> pmap h' (sst ?\<sigma>' q) = Some q \<and> pmap h' (sst ?\<sigma>' q + sln ?\<sigma>' q - 1) = Some q" if "q \<in> {s}" for q
        using that adj tilingD(1,3,4) [OF T sL] tilingD(1,3,4) [OF T tL]
        unfolding pm' s' by (auto simp: s' algebra_simps)
      show "sst ?\<sigma>' x = sst ?\<sigma> x \<and> sln ?\<sigma>' x = sln ?\<sigma> x" if "x \<in> ?L - {s, t}" for x
        using rest [of x] that by simp
      show "pmap h' j = pmap h j" if "j \<notin> (\<Union>r\<in>{s, t}. pages_of ?\<sigma> r)" for j
        using that \<open>k \<in> pages_of ?\<sigma> s \<union> pages_of ?\<sigma> t\<close> by (auto simp: pm')
      show "(pmap h' j = None) = (pmap h j = None)" for j using kd by (simp add: pm')
    qed auto
    have "(?L - {s, t}) \<union> {s} = A \<union> frees fl1" using Lt s st by auto
    then have T'': "tiling ?\<sigma>' (pmap h') (A \<union> frees fl1) P" using T' by simp
    have A': "\<not> span_free (?\<sigma>' x)" if "x \<in> A" for x
      using that y(3) C d tA by (auto simp: coloring_def)
    have C': "coloring ?\<sigma>' A (frees fl1)"
    proof -
      have "sst ?\<sigma>' u + sln ?\<sigma>' u \<noteq> sst ?\<sigma>' v" if "u \<in> frees fl1" "v \<in> frees fl1" for u v
      proof -
        have "u \<noteq> s" "u \<noteq> t" "v \<noteq> s" "v \<noteq> t" using that notf by auto
        moreover have "sst ?\<sigma> u + sln ?\<sigma> u \<noteq> sst ?\<sigma> v" using C that r(3) by (simp add: coloring_def)
        ultimately show ?thesis using rest by metis
      qed
      moreover have "span_free (?\<sigma>' u) \<and> span_sizeclass (?\<sigma>' u) = 0 \<and> \<not> span_sample (?\<sigma>' u)" if "u \<in> frees fl1" for u
      proof -
        have "u \<in> frees fl" "u \<noteq> s" "u \<noteq> t" using that r(3) notf by auto
        then show ?thesis using C d by (simp add: coloring_def)
      qed
      ultimately show ?thesis using A' unfolding coloring_def by blast
    qed
    have M'': "mem_ok h' (addrs (A \<union> frees fl1)) P"
      unfolding mem_ok_def h'_def using mm al(2) addr by auto
    have inv: "ph_inv h' A fl1 P"
      using ok' T'' C' M'' pm(2) ph_invD(6,7) [OF I] unfolding ph_inv_def by (simp add: h'_def)
    have sum: "(\<Sum>u\<in>frees fl1. sln ?\<sigma>' u) + sln ?\<sigma> t = (\<Sum>u\<in>frees fl. sln ?\<sigma> u)"
    proof -
      have "(\<Sum>u\<in>frees fl1. sln ?\<sigma>' u) = (\<Sum>u\<in>frees fl1. sln ?\<sigma> u)"
        by (rule sum.cong) (simp_all add: rest1)
      also have "\<dots> + sln ?\<sigma> t = (\<Sum>u\<in>frees fl. sln ?\<sigma> u)"
        unfolding r(3) using sum.remove [OF finite_frees t, of "sln ?\<sigma>"] by simp
      finally show ?thesis .
    qed
    have fr: "ph_frame (A - {s}) h h'"
    proof -
      have "?\<sigma>' x = ?\<sigma> x" if "x \<in> A - {s} \<or> (x \<notin> range Obj \<and> x \<notin> heads)" for x
      proof -
        have "x \<notin> frees fl \<union> heads" using that ph_inv_disjoint [OF I] frees_Obj [OF ok] ObjL by auto
        moreover have "x \<noteq> s" "x \<noteq> t" using that sL tL ObjL tA by auto
        ultimately show ?thesis using relinked_other [OF r(4)] by simp
      qed
      moreover have "pmap h' j = pmap h j" if "x \<in> A - {s}" "j \<in> pages_of ?\<sigma> x" for x j
      proof -
        have "j \<noteq> k"
        proof
          assume "j = k"
          then have "x = s \<or> x = t"
            using tiling_disjoint [OF T, of x _ j] that sL tL \<open>k \<in> pages_of ?\<sigma> s \<union> pages_of ?\<sigma> t\<close> by auto
          then show False using that tA by auto
        qed
        then show ?thesis by (simp add: pm')
      qed
      ultimately show ?thesis unfolding ph_frame_def h'_def by simp
    qed
    have "del_same h h'" using al(3) pha_room_Suc by (auto simp: del_same_def h'_def)
    moreover have "\<forall>u\<in>frees fl1. sst ?\<sigma>' u = sst ?\<sigma> u \<and> sln ?\<sigma>' u = sln ?\<sigma> u"
      using rest1 by blast
    moreover have "spans_of h' = ?\<sigma>'" by (simp add: h'_def)
    ultimately show ?thesis using inv sum fr unfolding h'_def [symmetric] by (simp add: Let_def)
  qed
  show thesis by (rule that [OF r(1) run s1 st kd r(3) goal])
qed

text \<open>What a coalescing step of \<open>Delete\<close> promises.\<close>

definition merge_ok :: "sref set \<Rightarrow> nat set \<Rightarrow> sref \<Rightarrow> 'a page_heap_scheme \<Rightarrow> (sref \<Rightarrow> sref list) \<Rightarrow>
    'a page_heap_scheme \<Rightarrow> (sref \<Rightarrow> sref list) \<Rightarrow> bool" where
  "merge_ok A P s h fl h' fl' \<longleftrightarrow> ph_inv h' A fl' P \<and> ph_frame (A - {s}) h h' \<and> del_same h h' \<and> free_pages h' = free_pages h \<and>
     span_next (spans_of h' s) = span_next (spans_of h s) \<and> span_prev (spans_of h' s) = span_prev (spans_of h s) \<and>
     span_sizeclass (spans_of h' s) = span_sizeclass (spans_of h s) \<and> span_sample (spans_of h' s) = span_sample (spans_of h s) \<and>
     (\<Sum>u\<in>frees fl'. sln (spans_of h') u) + sln (spans_of h') s = (\<Sum>u\<in>frees fl. sln (spans_of h) u) + sln (spans_of h) s \<and>
     frees fl' \<subseteq> frees fl \<and> sln (spans_of h) s \<le> sln (spans_of h') s \<and>
     (\<forall>u\<in>frees fl'. sst (spans_of h') u = sst (spans_of h) u \<and> sln (spans_of h') u = sln (spans_of h) u)"

lemma merge_ok_refl: "ph_inv h A fl P \<Longrightarrow> merge_ok A P s h fl h fl"
  by (simp add: merge_ok_def del_same_def)

lemma pmap_word:
  assumes "pmap h k = Some v" and "w = word_of_nat k"
  shows "GetDescriptor w h = Some v"
  using GetDescriptor_pmap [OF assms(1)] assms(2) by simp

lemma word_sum: "span_start (\<sigma> s) + span_length (\<sigma> s) = word_of_nat (sst \<sigma> s + sln \<sigma> s)"
  by (simp add: sst_def sln_def)

lemma Delete_merge_prev_ok:
  assumes I: "ph_inv h A fl P" and s: "s \<in> A"
  shows "\<exists>h' fl'. Delete_merge_prev s (span_start (spans_of h s)) h = Some h' \<and> merge_ok A P s h fl h' fl' \<and>
    sst (spans_of h') s + sln (spans_of h') s = sst (spans_of h) s + sln (spans_of h) s \<and>
    (\<forall>u\<in>frees fl'. sst (spans_of h') u + sln (spans_of h') u \<noteq> sst (spans_of h') s)"
proof -
  let ?\<sigma> = "spans_of h"
  note ok = ph_invD(1) [OF I] and T = ph_invD(2) [OF I] and C = ph_invD(3) [OF I]
  have sL: "s \<in> A \<union> frees fl" using s by blast
  note ts = tilingD [OF T sL]
  have "pmap h (sst ?\<sigma> s - 1) \<noteq> None" by (rule ts(5)) (use ts(1,2) in auto)
  then obtain t where pt: "pmap h (sst ?\<sigma> s - 1) = Some t" by blast
  have gd: "GetDescriptor (span_start (?\<sigma> s) - 1) h = Some t"
    by (rule pmap_word [OF pt]) (use ts(2) in \<open>simp add: sst_def of_nat_diff\<close>)
  show ?thesis
  proof (cases "t \<noteq> Null \<and> span_free (?\<sigma> t)")
    case False
    have "sst ?\<sigma> u + sln ?\<sigma> u \<noteq> sst ?\<sigma> s" if u: "u \<in> frees fl" for u
    proof
      assume e: "sst ?\<sigma> u + sln ?\<sigma> u = sst ?\<sigma> s"
      have "pmap h (sst ?\<sigma> u + sln ?\<sigma> u - 1) = Some u" using tilingD(4) [OF T, of u] u by blast
      then have "t = u" using pt e by simp
      then show False using False u frees_free [OF ok u] frees_Obj [OF ok] by auto
    qed
    moreover have "Delete_merge_prev s (span_start (?\<sigma> s)) h = Some h"
      unfolding Delete_merge_prev_def gd using False by auto
    ultimately show ?thesis using merge_ok_refl [OF I] by blast
  next
    case True
    have tt: "t \<in> A \<union> frees fl \<and> sst ?\<sigma> t + sln ?\<sigma> t = sst ?\<sigma> s"
      by (rule tiling_prev [OF T sL pt]) (use True in blast)
    then have tf: "t \<in> frees fl" using True C by (auto simp: coloring_def)
    have adj: "sst ?\<sigma> t + sln ?\<sigma> t = sst ?\<sigma> s \<and> sst ?\<sigma> t = sst ?\<sigma> t \<and> sst ?\<sigma> t = sst ?\<sigma> t \<or>
      sst ?\<sigma> s + sln ?\<sigma> s = sst ?\<sigma> t \<and> sst ?\<sigma> t = sst ?\<sigma> s \<and> sst ?\<sigma> t = sst ?\<sigma> t + sln ?\<sigma> s + sln ?\<sigma> t - 1"
      using tt by blast
    obtain \<sigma>1 fl1 al where a: "DLL_Remove t ?\<sigma> = Some \<sigma>1"
      "DeleteSpan t (h\<lparr>spans_of := \<sigma>1\<rparr>) = Some (h\<lparr>spans_of := \<sigma>1(t := poison_span), span_allocator := al\<rparr>)"
      "\<sigma>1 s = ?\<sigma> s" "s \<noteq> t" "pmap h (sst ?\<sigma> t) \<noteq> None" "frees fl1 = frees fl - {t}" and
      b: "\<And>y pm. unat (span_start y) = sst ?\<sigma> t \<Longrightarrow> unat (span_length y) = sln ?\<sigma> s + sln ?\<sigma> t \<Longrightarrow>
      \<not> span_free y \<Longrightarrow> pmap (h\<lparr>pagemap := pm\<rparr>) = (pmap h)(sst ?\<sigma> t := Some s) \<Longrightarrow> root_3 pm \<noteq> None \<Longrightarrow>
      (let h' = h\<lparr>spans_of := \<sigma>1(t := poison_span, s := y), span_allocator := al, pagemap := pm\<rparr>
       in ph_inv h' A fl1 P \<and>
         (\<Sum>u\<in>frees fl1. sln (spans_of h') u) + sln ?\<sigma> t = (\<Sum>u\<in>frees fl. sln ?\<sigma> u) \<and>
         (\<forall>u\<in>frees fl1. sst (spans_of h') u = sst ?\<sigma> u \<and> sln (spans_of h') u = sln ?\<sigma> u) \<and>
         ph_frame (A - {s}) h h' \<and> del_same h h')"
      by (rule absorb [OF I s tf adj]) (rule that)
    define y where "y = (?\<sigma> s)\<lparr>span_start := span_start (?\<sigma> s) - span_length (?\<sigma> t), span_length := span_length (?\<sigma> s) + span_length (?\<sigma> t)\<rparr>"
    have ys: "unat (span_start y) = sst ?\<sigma> t"
      using tt by (auto simp: y_def sst_def sln_def unat_minus_no_wrap)
    have "sst ?\<sigma> s + sln ?\<sigma> s < 2 ^ 52" by (rule tiling_bound [OF T sL])
    then have "unat (span_length (?\<sigma> s)) + unat (span_length (?\<sigma> t)) < 2 ^ 64" using tt by (simp add: sst_def sln_def)
    then have yl: "unat (span_length y) = sln ?\<sigma> s + sln ?\<sigma> t"
      by (simp add: y_def sln_def unat_plus_no_wrap)
    have yf: "\<not> span_free y" using C s by (simp add: y_def coloring_def)
    let ?h3 = "h\<lparr>spans_of := \<sigma>1(t := poison_span, s := y), span_allocator := al\<rparr>"
    have p3: "pmap ?h3 = pmap h" by (rule pmap_cong) simp
    have kw: "span_start y = word_of_nat (sst ?\<sigma> t)" unfolding ys [symmetric] by simp
    obtain pm where pm: "pagemap_set (span_start y) s ?h3 = Some (?h3\<lparr>pagemap := pm\<rparr>)"
      "pmap (?h3\<lparr>pagemap := pm\<rparr>) = (pmap h)(sst ?\<sigma> t := Some s)" "root_3 pm \<noteq> None"
      using pmap_set [of ?h3 "sst ?\<sigma> t" s] a(5) ph_invD(5) [OF I] unfolding p3 kw by auto
    have pm2: "pmap (h\<lparr>pagemap := pm\<rparr>) = (pmap h)(sst ?\<sigma> t := Some s)"
      unfolding pm(2) [symmetric] by (rule pmap_cong) simp
    let ?h' = "?h3\<lparr>pagemap := pm\<rparr>"
    have sums: "span_start (?\<sigma> t) + span_length (?\<sigma> t) = span_start (?\<sigma> s)"
      using tt by (auto simp: word_eq_iff_unat unat_word_ariths sst_def sln_def)
    have run: "Delete_merge_prev s (span_start (?\<sigma> s)) h = Some ?h'"
      unfolding Delete_merge_prev_def gd using True a(1,2,3,4) sL ph_inv_disjoint [OF I s] sums pm(1) ts(6)
      by (simp add: rd_def on_spans_def wr_def y_def Let_def upd_order)
    note res = b [OF ys yl yf pm2 pm(3), unfolded Let_def]
    have m: "merge_ok A P s h fl ?h' fl1"
      using res a(3,4,6) yl by (auto simp: merge_ok_def y_def sln_def)
    have "sst (spans_of ?h') s + sln (spans_of ?h') s = sst ?\<sigma> s + sln ?\<sigma> s"
      using ys yl tt by (simp add: sst_def sln_def)
    moreover have "sst (spans_of ?h') u + sln (spans_of ?h') u \<noteq> sst (spans_of ?h') s" if u: "u \<in> frees fl1" for u
    proof -
      have "sst ?\<sigma> u + sln ?\<sigma> u \<noteq> sst ?\<sigma> t" using C u tf a(6) by (simp add: coloring_def)
      then show ?thesis using res u ys by (simp add: sst_def sln_def)
    qed
    ultimately show ?thesis using run m by blast
  qed
qed

lemma Delete_merge_next_ok:
  assumes I: "ph_inv h A fl P" and s: "s \<in> A"
  shows "\<exists>h' fl'. Delete_merge_next s (span_start (spans_of h s) + span_length (spans_of h s)) h = Some h' \<and>
    merge_ok A P s h fl h' fl' \<and> sst (spans_of h') s = sst (spans_of h) s \<and>
    (\<forall>u\<in>frees fl'. sst (spans_of h') u \<noteq> sst (spans_of h') s + sln (spans_of h') s)"
proof -
  let ?\<sigma> = "spans_of h"
  note ok = ph_invD(1) [OF I] and T = ph_invD(2) [OF I] and C = ph_invD(3) [OF I]
  have sL: "s \<in> A \<union> frees fl" using s by blast
  note ts = tilingD [OF T sL]
  have "pmap h (sst ?\<sigma> s + sln ?\<sigma> s) \<noteq> None" by (rule ts(5)) auto
  then obtain t where pt: "pmap h (sst ?\<sigma> s + sln ?\<sigma> s) = Some t" by blast
  have gd: "GetDescriptor (span_start (?\<sigma> s) + span_length (?\<sigma> s)) h = Some t"
    by (rule pmap_word [OF pt]) (simp add: sst_def sln_def)
  show ?thesis
  proof (cases "t \<noteq> Null \<and> span_free (?\<sigma> t)")
    case False
    have "sst ?\<sigma> u \<noteq> sst ?\<sigma> s + sln ?\<sigma> s" if u: "u \<in> frees fl" for u
    proof
      assume e: "sst ?\<sigma> u = sst ?\<sigma> s + sln ?\<sigma> s"
      have "pmap h (sst ?\<sigma> u) = Some u" using tilingD(3) [OF T, of u] u by blast
      then have "t = u" using pt e by simp
      then show False using False u frees_free [OF ok u] frees_Obj [OF ok] by auto
    qed
    moreover have "Delete_merge_next s (span_start (?\<sigma> s) + span_length (?\<sigma> s)) h = Some h"
      unfolding Delete_merge_next_def gd using False by auto
    ultimately show ?thesis using merge_ok_refl [OF I] by blast
  next
    case True
    have tt: "t \<in> A \<union> frees fl \<and> sst ?\<sigma> t = sst ?\<sigma> s + sln ?\<sigma> s"
      by (rule tiling_next [OF T sL pt]) (use True in blast)
    then have tf: "t \<in> frees fl" using True C by (auto simp: coloring_def)
    let ?k = "sst ?\<sigma> s + sln ?\<sigma> s + sln ?\<sigma> t - 1"
    have adj: "sst ?\<sigma> t + sln ?\<sigma> t = sst ?\<sigma> s \<and> sst ?\<sigma> s = sst ?\<sigma> t \<and> ?k = sst ?\<sigma> s \<or>
      sst ?\<sigma> s + sln ?\<sigma> s = sst ?\<sigma> t \<and> sst ?\<sigma> s = sst ?\<sigma> s \<and> ?k = sst ?\<sigma> s + sln ?\<sigma> s + sln ?\<sigma> t - 1"
      using tt by simp
    obtain \<sigma>1 fl1 al where a: "DLL_Remove t ?\<sigma> = Some \<sigma>1"
      "DeleteSpan t (h\<lparr>spans_of := \<sigma>1\<rparr>) = Some (h\<lparr>spans_of := \<sigma>1(t := poison_span), span_allocator := al\<rparr>)"
      "\<sigma>1 s = ?\<sigma> s" "s \<noteq> t" "pmap h ?k \<noteq> None" "frees fl1 = frees fl - {t}" and
      b: "\<And>y pm. unat (span_start y) = sst ?\<sigma> s \<Longrightarrow> unat (span_length y) = sln ?\<sigma> s + sln ?\<sigma> t \<Longrightarrow>
      \<not> span_free y \<Longrightarrow> pmap (h\<lparr>pagemap := pm\<rparr>) = (pmap h)(?k := Some s) \<Longrightarrow> root_3 pm \<noteq> None \<Longrightarrow>
      (let h' = h\<lparr>spans_of := \<sigma>1(t := poison_span, s := y), span_allocator := al, pagemap := pm\<rparr>
       in ph_inv h' A fl1 P \<and>
         (\<Sum>u\<in>frees fl1. sln (spans_of h') u) + sln ?\<sigma> t = (\<Sum>u\<in>frees fl. sln ?\<sigma> u) \<and>
         (\<forall>u\<in>frees fl1. sst (spans_of h') u = sst ?\<sigma> u \<and> sln (spans_of h') u = sln ?\<sigma> u) \<and>
         ph_frame (A - {s}) h h' \<and> del_same h h')"
      by (rule absorb [OF I s tf adj]) (rule that)
    define y where "y = (?\<sigma> s)\<lparr>span_length := span_length (?\<sigma> s) + span_length (?\<sigma> t)\<rparr>"
    have ys: "unat (span_start y) = sst ?\<sigma> s" by (simp add: y_def sst_def)
    have tL: "t \<in> A \<union> frees fl" using tf by blast
    have "sst ?\<sigma> t + sln ?\<sigma> t < 2 ^ 52" by (rule tiling_bound [OF T tL])
    then have "unat (span_length (?\<sigma> s)) + unat (span_length (?\<sigma> t)) < 2 ^ 64" using tt by (simp add: sst_def sln_def)
    then have yl: "unat (span_length y) = sln ?\<sigma> s + sln ?\<sigma> t"
      by (simp add: y_def sln_def unat_plus_no_wrap)
    have yf: "\<not> span_free y" using C s by (simp add: y_def coloring_def)
    let ?h3 = "h\<lparr>spans_of := \<sigma>1(t := poison_span, s := y), span_allocator := al\<rparr>"
    have p3: "pmap ?h3 = pmap h" by (rule pmap_cong) simp
    have kw: "span_start y + span_length y - 1 = word_of_nat ?k"
      using ts(1) by (simp add: y_def sst_def sln_def of_nat_diff)
    obtain pm where pm: "pagemap_set (span_start y + span_length y - 1) s ?h3 = Some (?h3\<lparr>pagemap := pm\<rparr>)"
      "pmap (?h3\<lparr>pagemap := pm\<rparr>) = (pmap h)(?k := Some s)" "root_3 pm \<noteq> None"
      using pmap_set [of ?h3 ?k s] a(5) ph_invD(5) [OF I] unfolding p3 kw by auto
    have pm2: "pmap (h\<lparr>pagemap := pm\<rparr>) = (pmap h)(?k := Some s)"
      unfolding pm(2) [symmetric] by (rule pmap_cong) simp
    let ?h' = "?h3\<lparr>pagemap := pm\<rparr>"
    have sums: "span_start (?\<sigma> t) = span_start (?\<sigma> s) + span_length (?\<sigma> s)"
    proof -
      have "span_start (?\<sigma> t) = word_of_nat (sst ?\<sigma> t)" by (simp add: sst_def)
      also have "\<dots> = word_of_nat (sst ?\<sigma> s + sln ?\<sigma> s)" using tt by simp
      finally show ?thesis by (simp only: word_sum)
    qed
    have run: "Delete_merge_next s (span_start (?\<sigma> s) + span_length (?\<sigma> s)) h = Some ?h'"
      unfolding Delete_merge_next_def gd using True a(1,2,3,4) sums pm(1) ts(6)
      by (simp add: rd_def on_spans_def wr_def y_def Let_def upd_order)
    note res = b [OF ys yl yf pm2 pm(3), unfolded Let_def]
    have m: "merge_ok A P s h fl ?h' fl1"
      using res a(3,4,6) yl by (auto simp: merge_ok_def y_def sln_def)
    have "sst (spans_of ?h') s = sst ?\<sigma> s" using ys by (simp add: sst_def)
    moreover have "sst (spans_of ?h') u \<noteq> sst (spans_of ?h') s + sln (spans_of ?h') s" if u: "u \<in> frees fl1" for u
    proof -
      have "sst ?\<sigma> t + sln ?\<sigma> t \<noteq> sst ?\<sigma> u" using C u tf a(6) by (simp add: coloring_def)
      then show ?thesis using res u ys yl tt by (simp add: sst_def sln_def)
    qed
    ultimately show ?thesis using run m by blast
  qed
qed

section \<open>Release\<close>

lemma release:
  assumes I: "ph_inv h A fl P" and s: "s \<in> A" and nul: "span_next (spans_of h s) = Null" "span_prev (spans_of h s) = Null"
    and pre: "\<And>u. u \<in> frees fl \<Longrightarrow> sst (spans_of h) u + sln (spans_of h) u \<noteq> sst (spans_of h) s"
    and nxt: "\<And>u. u \<in> frees fl \<Longrightarrow> sst (spans_of h) u \<noteq> sst (spans_of h) s + sln (spans_of h) s"
    and cl: "span_sizeclass (spans_of h s) = 0" "\<not> span_sample (spans_of h s)"
  shows "\<exists>\<sigma>' fl'. add_to_free_list s (span_length (spans_of h s))
      (h\<lparr>spans_of := (spans_of h)(s := (spans_of h s)\<lparr>span_free := True\<rparr>)\<rparr>) = Some (h\<lparr>spans_of := \<sigma>'\<rparr>) \<and>
    ph_inv (h\<lparr>spans_of := \<sigma>'\<rparr>) (A - {s}) fl' P \<and> frees fl' = insert s (frees fl) \<and>
    (\<forall>x. sst \<sigma>' x = sst (spans_of h) x \<and> sln \<sigma>' x = sln (spans_of h) x) \<and>
    ph_frame (A - {s}) h (h\<lparr>spans_of := \<sigma>'\<rparr>)"
proof -
  let ?\<sigma> = "spans_of h"
  define \<sigma>1 where "\<sigma>1 = ?\<sigma>(s := (?\<sigma> s)\<lparr>span_free := True\<rparr>)"
  note ok = ph_invD(1) [OF I] and T = ph_invD(2) [OF I] and C = ph_invD(3) [OF I]
  have sL: "s \<in> A \<union> frees fl" using s by blast
  have sO: "s \<in> range Obj" using tiling_finite(3) [OF T] s by blast
  have sf: "s \<notin> frees fl" by (rule ph_inv_disjoint [OF I s])
  have d1: "sst \<sigma>1 x = sst ?\<sigma> x" "sln \<sigma>1 x = sln ?\<sigma> x" for x by (simp_all add: \<sigma>1_def sst_def sln_def)
  have ok1: "lists_ok \<sigma>1 fl" by (rule lists_ok_cong [OF ok]) (use sf sO in \<open>auto simp: \<sigma>1_def\<close>)
  have "\<exists>\<sigma>' fl'. add_to_free_list s (span_length (?\<sigma> s)) (h\<lparr>spans_of := \<sigma>1\<rparr>) = Some (h\<lparr>spans_of := \<sigma>1\<rparr>\<lparr>spans_of := \<sigma>'\<rparr>) \<and>
    lists_ok \<sigma>' fl' \<and> frees fl' = insert s (frees fl) \<and> relinked (insert s (frees fl \<union> heads)) (spans_of (h\<lparr>spans_of := \<sigma>1\<rparr>)) \<sigma>'"
  proof (rule lists_add)
    show "sst (spans_of (h\<lparr>spans_of := \<sigma>1\<rparr>)) x \<noteq> sst (spans_of (h\<lparr>spans_of := \<sigma>1\<rparr>)) s" if "x \<in> frees fl" for x
      using tiling_start_inj [OF T, of x s] that sL sf by (auto simp: d1)
  qed (use ok1 sf sO nul in \<open>simp_all add: \<sigma>1_def\<close>)
  then obtain \<sigma>' fl' where a: "add_to_free_list s (span_length (?\<sigma> s)) (h\<lparr>spans_of := \<sigma>1\<rparr>) = Some (h\<lparr>spans_of := \<sigma>'\<rparr>)"
    "lists_ok \<sigma>' fl'" "frees fl' = insert s (frees fl)" "relinked (insert s (frees fl \<union> heads)) \<sigma>1 \<sigma>'"
    by auto
  have d: "sst \<sigma>' x = sst ?\<sigma> x \<and> sln \<sigma>' x = sln ?\<sigma> x" for x
    using relinked_data [OF a(4)] d1 by (simp add: sst_def sln_def)
  have L: "(A - {s}) \<union> frees fl' = A \<union> frees fl" using a(3) s by auto
  have T': "tiling \<sigma>' (pmap h) ((A - {s}) \<union> frees fl') P" unfolding L by (rule tiling_same [OF T]) (simp add: d)
  have C': "coloring \<sigma>' (A - {s}) (frees fl')"
    unfolding coloring_def
  proof (intro conjI ballI)
    fix x assume x: "x \<in> A - {s}"
    then show "\<not> span_free (\<sigma>' x)" using C relinked_data(3) [OF a(4)] by (auto simp: coloring_def \<sigma>1_def)
  next
    fix x assume x: "x \<in> frees fl'"
    then show "span_free (\<sigma>' x)" by (rule frees_free [OF a(2)])
    show "span_sizeclass (\<sigma>' x) = 0" "\<not> span_sample (\<sigma>' x)"
      using x C cl relinked_data(4,5) [OF a(4)] unfolding a(3) by (auto simp: coloring_def \<sigma>1_def)
  next
    fix x y assume "x \<in> frees fl'" "y \<in> frees fl'"
    then show "sst \<sigma>' x + sln \<sigma>' x \<noteq> sst \<sigma>' y"
      using C pre [of x] nxt [of y] tilingD(1) [OF T sL] unfolding a(3) by (auto simp: d coloring_def)
  qed
  have inv: "ph_inv (h\<lparr>spans_of := \<sigma>'\<rparr>) (A - {s}) fl' P"
    using a(2) T' C' L I unfolding ph_inv_def mem_ok_def by simp
  have "\<sigma>' x = ?\<sigma> x" if x: "x \<in> A - {s} \<or> (x \<notin> range Obj \<and> x \<notin> heads)" for x
  proof -
    have "x \<notin> insert s (frees fl \<union> heads)"
      using x sO ph_inv_disjoint [OF I] frees_Obj [OF ok] tiling_finite(3) [OF T] by auto
    then show ?thesis using relinked_other [OF a(4)] by (simp add: \<sigma>1_def)
  qed
  then have "ph_frame (A - {s}) h (h\<lparr>spans_of := \<sigma>'\<rparr>)" by (simp add: ph_frame_def)
  then show ?thesis using a(1,3) inv d unfolding \<sigma>1_def by blast
qed

section \<open>\<open>Delete\<close>\<close>

definition free_sum :: "'a page_heap_scheme \<Rightarrow> (sref \<Rightarrow> sref list) \<Rightarrow> nat" where
  "free_sum h fl = (\<Sum>u\<in>frees fl. sln (spans_of h) u)"

text \<open>The invariant between the operations: \<open>free_pages_\<close> counts the pages of the free spans.\<close>

definition ph_ok :: "'a page_heap_scheme \<Rightarrow> sref set \<Rightarrow> nat set \<Rightarrow> bool" where
  "ph_ok h A P \<longleftrightarrow> (\<exists>fl. ph_inv h A fl P \<and> free_pages h = word_of_nat (free_sum h fl))"

lemma Delete_inv:
  assumes I: "ph_inv h A fl P" and s: "s \<in> A" and nul: "span_next (spans_of h s) = Null" "span_prev (spans_of h s) = Null"
  shows "\<exists>h' fl'. PH_Delete s h = Some h' \<and> ph_inv h' (A - {s}) fl' P \<and>
    free_pages h' = free_pages h + span_length (spans_of h s) \<and>
    free_sum h' fl' = free_sum h fl + sln (spans_of h) s \<and>
    s \<in> frees fl' \<and> sln (spans_of h) s \<le> sln (spans_of h') s \<and>
    ph_frame (A - {s}) h h' \<and> del_same h h'"
proof -
  let ?\<sigma> = "spans_of h"
  note T = ph_invD(2) [OF I]
  have sL: "s \<in> A \<union> frees fl" using s by blast
  note ts = tilingD [OF T sL]
  have nf: "\<not> span_free (?\<sigma> s)" using ph_invD(3) [OF I] s by (simp add: coloring_def)
  have g1: "GetDescriptor (span_start (?\<sigma> s)) h = Some s" by (rule GetDescriptor_start [OF ts(3)])
  have g2: "GetDescriptor (span_start (?\<sigma> s) + span_length (?\<sigma> s) - 1) h = Some s" by (rule GetDescriptor_last [OF ts(1,4)])
  have sf: "s \<notin> frees fl" by (rule ph_inv_disjoint [OF I s])
  define h1 where "h1 = h\<lparr>spans_of := ?\<sigma>(s := (?\<sigma> s)\<lparr>span_sizeclass := 0, span_sample := False\<rparr>)\<rparr>"
  have I1: "ph_inv h1 A fl P" unfolding h1_def by (rule ph_inv_update_used [OF I s]) simp_all
  have p1: "span_start (spans_of h1 s) = span_start (?\<sigma> s)" by (simp add: h1_def)
  obtain h2 fl2 where h2: "Delete_merge_prev s (span_start (?\<sigma> s)) h1 = Some h2" "merge_ok A P s h1 fl h2 fl2"
    "sst (spans_of h2) s + sln (spans_of h2) s = sst (spans_of h1) s + sln (spans_of h1) s"
    "\<forall>u\<in>frees fl2. sst (spans_of h2) u + sln (spans_of h2) u \<noteq> sst (spans_of h2) s"
    using Delete_merge_prev_ok [OF I1 s] unfolding p1 by blast
  have I2: "ph_inv h2 A fl2 P" using h2(2) by (simp add: merge_ok_def)
  have p2: "span_start (?\<sigma> s) + span_length (?\<sigma> s) = span_start (spans_of h2 s) + span_length (spans_of h2 s)"
    unfolding word_sum h2(3) by (simp add: h1_def sst_def sln_def)
  obtain h3 fl3 where h3: "Delete_merge_next s (span_start (?\<sigma> s) + span_length (?\<sigma> s)) h2 = Some h3" "merge_ok A P s h2 fl2 h3 fl3"
    "sst (spans_of h3) s = sst (spans_of h2) s" "\<forall>u\<in>frees fl3. sst (spans_of h3) u \<noteq> sst (spans_of h3) s + sln (spans_of h3) s"
    using Delete_merge_next_ok [OF I2 s] unfolding p2 by blast
  have I3: "ph_inv h3 A fl3 P" using h3(2) by (simp add: merge_ok_def)
  have nul3: "span_next (spans_of h3 s) = Null" "span_prev (spans_of h3 s) = Null"
    using h2(2) h3(2) nul by (simp_all add: merge_ok_def h1_def)
  have cl3: "span_sizeclass (spans_of h3 s) = 0" "\<not> span_sample (spans_of h3 s)"
    using h2(2) h3(2) by (simp_all add: merge_ok_def h1_def)
  have pre: "sst (spans_of h3) u + sln (spans_of h3) u \<noteq> sst (spans_of h3) s" if "u \<in> frees fl3" for u
    using that h2(4) h3(2,3) by (auto simp: merge_ok_def)
  have nxt: "sst (spans_of h3) u \<noteq> sst (spans_of h3) s + sln (spans_of h3) s" if "u \<in> frees fl3" for u
    using that h3(4) by blast
  let ?h4 = "h3\<lparr>spans_of := (spans_of h3)(s := (spans_of h3 s)\<lparr>span_free := True\<rparr>)\<rparr>"
  obtain \<sigma>' fl' where r: "add_to_free_list s (span_length (spans_of h3 s)) ?h4 = Some (h3\<lparr>spans_of := \<sigma>'\<rparr>)"
    "ph_inv (h3\<lparr>spans_of := \<sigma>'\<rparr>) (A - {s}) fl' P" "frees fl' = insert s (frees fl3)"
    "\<forall>x. sst \<sigma>' x = sst (spans_of h3) x \<and> sln \<sigma>' x = sln (spans_of h3) x"
    "ph_frame (A - {s}) h3 (h3\<lparr>spans_of := \<sigma>'\<rparr>)"
    using release [OF I3 s nul3 pre nxt cl3] by blast
  let ?h' = "h3\<lparr>spans_of := \<sigma>', free_pages := free_pages h3 + span_length (?\<sigma> s)\<rparr>"
  have I': "ph_inv ?h' (A - {s}) fl' P" using r(2) by (simp add: ph_inv_def mem_ok_def)
  have fp: "free_pages h3 = free_pages h" using h2(2) h3(2) by (simp add: merge_ok_def h1_def)
  have run: "PH_Delete s h = Some ?h'"
    unfolding PH_Delete_def ph_inv_Check [OF I] Let_def
    using nf g1 g2 ts(1,6) h2(1) h3(1) r(1) ph_inv_Check [OF I']
    by (simp add: rd_def on_spans_def wr_def h1_def sln_def word_less_nat_alt)
  have sf3: "s \<notin> frees fl3" using sf h2(2) h3(2) by (auto simp: merge_ok_def)
  have "free_sum ?h' fl' = sln (spans_of h3) s + (\<Sum>u\<in>frees fl3. sln (spans_of h3) u)"
    using r(3,4) sf3 by (simp add: free_sum_def)
  also have "\<dots> = sln (spans_of h1) s + (\<Sum>u\<in>frees fl. sln (spans_of h1) u)"
  proof -
    have "(\<Sum>u\<in>frees fl2. sln (spans_of h2) u) + sln (spans_of h2) s = (\<Sum>u\<in>frees fl. sln (spans_of h1) u) + sln (spans_of h1) s"
      "(\<Sum>u\<in>frees fl3. sln (spans_of h3) u) + sln (spans_of h3) s = (\<Sum>u\<in>frees fl2. sln (spans_of h2) u) + sln (spans_of h2) s"
      using h2(2) h3(2) unfolding merge_ok_def by blast+
    then show ?thesis by linarith
  qed
  also have "\<dots> = free_sum h fl + sln ?\<sigma> s"
  proof -
    have "sln (spans_of h1) = sln ?\<sigma>" by (simp add: fun_eq_iff h1_def sln_def)
    then show ?thesis by (simp add: free_sum_def)
  qed
  finally have sum: "free_sum ?h' fl' = free_sum h fl + sln ?\<sigma> s" .
  have f1: "ph_frame (A - {s}) h h1"
  proof -
    have "s \<in> range Obj" using tiling_finite(3) [OF T] s by blast
    then show ?thesis by (auto simp: ph_frame_def h1_def)
  qed
  have f3: "ph_frame (A - {s}) h h3"
    using ph_frame_trans [OF f1] h2(2) h3(2) ph_frame_trans by (meson merge_ok_def)
  then have "ph_frame (A - {s}) h ?h'" using ph_frame_trans [OF f3 r(5)] by (simp add: ph_frame_def)
  moreover have "del_same h ?h'"
    using h2(2) h3(2) by (simp add: merge_ok_def del_same_def h1_def)
  moreover have "sln ?\<sigma> s \<le> sln (spans_of h3) s"
    using h2(2) h3(2) le_trans [of "sln (spans_of h1) s"] by (auto simp: merge_ok_def h1_def sln_def)
  ultimately show ?thesis using run I' fp sum r(3,4) by (intro exI [of _ ?h'] exI [of _ fl']) simp
qed

end
