(* ===== verification/PageHeapNew.thy ===== *)
theory PageHeapNew
  imports PageHeapDelete
begin

text \<open>
  \<open>Carve\<close>, \<open>Split\<close>, \<open>GrowHeap\<close> and \<open>New\<close> of the page heap. They can only abort when the metadata
  allocator is refused its next chunk by the system; otherwise they return with the invariant
  kept and the span of the result in the hands of the caller.
\<close>

lemma to_int32_diff:
  assumes "unat b \<le> unat a" "unat a \<le> kMaxHeapPages"
  shows "to_int32 (a - b) = int (unat a - unat b)"
proof -
  have "unat (a - b) = unat a - unat b" by (rule unat_minus_no_wrap [OF assms(1)])
  moreover have "unat a - unat b < 2 ^ 31" using assms(2) by (simp add: kMaxHeapPages_def)
  ultimately show ?thesis using to_int32_small [of "a - b"] by simp
qed

section \<open>New spans\<close>

lemma NewSpan_ok:
  assumes K: "kernel_ok (sys_cfg cfg)" and M: "mem_ok h U P"
    and new: "PHA_New (sys_cfg cfg) sizeof_Span (span_allocator h) (meta h) = Some (r, a, ms)"
  shows "NewSpan cfg p len h = Some (Obj r, h\<lparr>span_allocator := a, meta := ms,
      spans_of := (spans_of h)(Obj r := zero_span\<lparr>span_start := p, span_length := len\<rparr>)\<rparr>) \<and> r \<notin> U \<and>
    mem_ok (h\<lparr>span_allocator := a, meta := ms\<rparr>) (insert r U) P \<and> sys_step (meta h) ms"
proof -
  obtain M N T where m: "sys_ok (sys (meta h))" "pha_ok sizeof_Span (span_allocator h) U M"
    "pha_ok sizeof_StackTrace (stacktrace_allocator h) T N" "M \<union> N \<union> page_bytes P \<subseteq> bytes_mapped (meta h)"
    "M \<inter> N = {}" "M \<inter> page_bytes P = {}" "N \<inter> page_bytes P = {}"
    using M unfolding mem_ok_def by blast
  have "M \<subseteq> bytes_mapped (meta h)" using m(4) by blast
  from PHA_New_ok [OF K m(1,2) this object_size_Span new] obtain G where g: "r \<noteq> 0" "r \<notin> U" "sys_step (meta h) ms"
    "G \<subseteq> bytes_mapped ms - bytes_mapped (meta h)" "pha_ok sizeof_Span a (insert r U) (M \<union> G)"
    by blast
  have s: "sys_ok (sys ms)" "bytes_mapped (meta h) \<subseteq> bytes_mapped ms" using g(3) m(1) by (simp_all add: sys_step_def)
  have "mem_ok (h\<lparr>span_allocator := a, meta := ms\<rparr>) (insert r U) P"
    unfolding mem_ok_def
  proof (intro conjI exI)
    show "pha_ok sizeof_Span (span_allocator (h\<lparr>span_allocator := a, meta := ms\<rparr>)) (insert r U) (M \<union> G)" using g by simp
    show "pha_ok sizeof_StackTrace (stacktrace_allocator (h\<lparr>span_allocator := a, meta := ms\<rparr>)) T N" using m by simp
    show "(M \<union> G) \<union> N \<union> page_bytes P \<subseteq> bytes_mapped (meta (h\<lparr>span_allocator := a, meta := ms\<rparr>))"
      using m(4) g(4) s(2) by auto
    show "(M \<union> G) \<inter> N = {}" "(M \<union> G) \<inter> page_bytes P = {}" using m(4-7) g(4) by blast+
  qed (use s m in simp_all)
  then show ?thesis using g new by (simp add: NewSpan_def)
qed

lemma RecordSpan_ok:
  assumes s: "s \<noteq> Null" and one: "1 \<le> sln (spans_of h) s"
    and g: "pmap h (sst (spans_of h) s) \<noteq> None" "pmap h (sst (spans_of h) s + sln (spans_of h) s - 1) \<noteq> None"
    and root: "root_3 (pagemap h) \<noteq> None"
  shows "\<exists>pm. RecordSpan s h = Some (h\<lparr>pagemap := pm\<rparr>) \<and> root_3 pm \<noteq> None \<and>
    pmap (h\<lparr>pagemap := pm\<rparr>) = (pmap h)(sst (spans_of h) s := Some s, sst (spans_of h) s + sln (spans_of h) s - 1 := Some s)"
proof -
  let ?\<sigma> = "spans_of h"
  obtain pm where pm: "pagemap_set (span_start (?\<sigma> s)) s h = Some (h\<lparr>pagemap := pm\<rparr>)"
    "pmap (h\<lparr>pagemap := pm\<rparr>) = (pmap h)(sst ?\<sigma> s := Some s)" "root_3 pm \<noteq> None"
    using pmap_set_start [OF g(1)] root by blast
  show ?thesis
  proof (cases "span_length (?\<sigma> s) > 1")
    case True
    have "pmap (h\<lparr>pagemap := pm\<rparr>) (sst ?\<sigma> s + sln ?\<sigma> s - 1) \<noteq> None" using g(2) by (simp add: pm(2))
    from pmap_set [OF this, of s] obtain pm' where pm': "pagemap_set (word_of_nat (sst ?\<sigma> s + sln ?\<sigma> s - 1)) s (h\<lparr>pagemap := pm\<rparr>) =
      Some (h\<lparr>pagemap := pm'\<rparr>)" "pmap (h\<lparr>pagemap := pm'\<rparr>) = (pmap (h\<lparr>pagemap := pm\<rparr>))(sst ?\<sigma> s + sln ?\<sigma> s - 1 := Some s)"
      "root_3 pm' \<noteq> None"
      using pm(3) by auto
    have "RecordSpan s h = Some (h\<lparr>pagemap := pm'\<rparr>)"
      using s True pm(1) pm'(1) last_page_word [OF one] by (simp add: RecordSpan_def rd_def)
    then show ?thesis using pm' pm(2) by auto
  next
    case False
    then have "sln ?\<sigma> s = 1" using one by (simp add: sln_def word_less_nat_alt)
    moreover have "RecordSpan s h = Some (h\<lparr>pagemap := pm\<rparr>)"
      using s False pm(1) by (simp add: RecordSpan_def rd_def)
    ultimately show ?thesis using pm by auto
  qed
qed

text \<open>What is left alone by the operations that take spans.\<close>

definition new_same :: "'a page_heap_scheme \<Rightarrow> 'a page_heap_scheme \<Rightarrow> bool" where
  "new_same h h' \<longleftrightarrow> stacktrace_allocator h' = stacktrace_allocator h \<and> traces h' = traces h \<and>
     trace_calls h' = trace_calls h \<and> system_bytes h' = system_bytes h \<and> sys_step (meta h) (meta h') \<and>
     (\<forall>k. pha_room sizeof_Span (span_allocator h) (Suc k) \<longrightarrow> pha_room sizeof_Span (span_allocator h') k)"

lemma new_room: "pha_room sizeof_Span (span_allocator h) (Suc k) \<Longrightarrow>
  PHA_New cfg sizeof_Span (span_allocator h) ms = Some (r, a, ms') \<Longrightarrow> pha_room sizeof_Span a k"
  using PHA_New_room [OF _ object_size_Span, of "span_allocator h" k cfg ms] by force

section \<open>Cutting a span in two\<close>

text \<open>The tiling after the span \<open>s\<close> has been cut after \<open>n\<close> pages and the rest is \<open>lo\<close>.\<close>

lemma tiling_cut:
  assumes T: "tiling \<sigma> g L P" and s: "s \<in> L" and n: "0 < n" "n < sln \<sigma> s" and lo: "lo \<notin> L" "lo \<in> range Obj"
    and s': "sst \<sigma>' s = sst \<sigma> s" "sln \<sigma>' s = n" and lo': "sst \<sigma>' lo = sst \<sigma> s + n" "sln \<sigma>' lo = sln \<sigma> s - n"
    and rest: "\<And>x. x \<in> L \<Longrightarrow> x \<noteq> s \<Longrightarrow> sst \<sigma>' x = sst \<sigma> x \<and> sln \<sigma>' x = sln \<sigma> x"
    and g': "g' = g(sst \<sigma> s + n := Some lo, sst \<sigma> s + sln \<sigma> s - 1 := Some lo, sst \<sigma> s + n - 1 := Some s)"
  shows "tiling \<sigma>' g' (insert lo L) P"
proof -
  have sl: "s \<noteq> lo" using s lo by blast
  note ts = tilingD [OF T s]
  have gn: "g k \<noteq> None" if "k \<in> pages_of \<sigma> s" for k
    by (rule ts(5)) (use that in \<open>auto simp: pages_of_def\<close>)
  have in_s: "sst \<sigma> s + n \<in> pages_of \<sigma> s" "sst \<sigma> s + sln \<sigma> s - 1 \<in> pages_of \<sigma> s" "sst \<sigma> s + n - 1 \<in> pages_of \<sigma> s"
    using n by (auto simp: pages_of_def)
  have "tiling \<sigma>' g' ((L - {s}) \<union> {s, lo}) P"
  proof (rule tiling_replace [OF T])
    show "{s} \<subseteq> L" "finite {s, lo}" using s by auto
    show "{s, lo} \<subseteq> range Obj" using tiling_finite(3) [OF T] s lo by auto
    show "{s, lo} \<inter> (L - {s}) = {}" using lo by auto
    show "(\<Union>q\<in>{s, lo}. pages_of \<sigma>' q) = (\<Union>r\<in>{s}. pages_of \<sigma> r)"
    proof -
      have "{a..<a + n} \<union> {a + n..<a + n + (b - n)} = {a..<a + b}" if "n < b" for a b :: nat
        using that by auto
      from this [OF n(2)] show ?thesis by (simp add: pages_of_def s' lo')
    qed
    show "1 \<le> sln \<sigma>' q \<and> g' (sst \<sigma>' q) = Some q \<and> g' (sst \<sigma>' q + sln \<sigma>' q - 1) = Some q" if "q \<in> {s, lo}" for q
    proof (cases "q = s")
      case True
      then show ?thesis using n ts(3) unfolding True s' g' by auto
    next
      case False
      then have "q = lo" using that by blast
      then show ?thesis using n unfolding \<open>q = lo\<close> lo' g' by auto
    qed
    show "pages_of \<sigma>' q \<inter> pages_of \<sigma>' r = {}" if "q \<in> {s, lo}" "r \<in> {s, lo}" "q \<noteq> r" for q r
      using that by (auto simp: pages_of_def s' lo')
    show "sst \<sigma>' x = sst \<sigma> x \<and> sln \<sigma>' x = sln \<sigma> x" if "x \<in> L - {s}" for x using rest that by blast
    show "g' k = g k" if "k \<notin> (\<Union>r\<in>{s}. pages_of \<sigma> r)" for k using that in_s by (auto simp: g')
    show "(g' k = None) = (g k = None)" for k using gn in_s by (auto simp: g')
  qed
  moreover have "(L - {s}) \<union> {s, lo} = insert lo L" using s by auto
  ultimately show ?thesis by simp
qed

text \<open>The page map writes stay inside the pages of the span that is cut.\<close>

lemma cut_frame:
  assumes T: "tiling \<sigma> g L P" and s: "s \<in> L" and x: "x \<in> L" "x \<noteq> s" "k \<in> pages_of \<sigma> x" and n: "0 < n" "n < sln \<sigma> s"
    and g': "g' = g(sst \<sigma> s + n := Some lo, sst \<sigma> s + sln \<sigma> s - 1 := Some lo, sst \<sigma> s + n - 1 := Some s)"
  shows "g' k = g k"
proof -
  have "k \<notin> pages_of \<sigma> s" using tiling_disjoint [OF T x(1) s x(3)] x(2) by blast
  then show ?thesis using n by (auto simp: g' pages_of_def)
qed

section \<open>\<open>Carve\<close>\<close>

definition carved :: "sref set \<Rightarrow> nat set \<Rightarrow> sref \<Rightarrow> nat \<Rightarrow> 'a page_heap_scheme \<Rightarrow> (sref \<Rightarrow> sref list) \<Rightarrow>
    'a page_heap_scheme \<Rightarrow> (sref \<Rightarrow> sref list) \<Rightarrow> bool" where
  "carved A P s n h fl h' fl' \<longleftrightarrow> ph_inv h' (insert s A) fl' P \<and> ph_frame A h h' \<and> new_same h h' \<and>
     free_pages h' = free_pages h \<and> free_sum h' fl' + n = free_sum h fl \<and>
     sst (spans_of h') s = sst (spans_of h) s \<and> sln (spans_of h') s = n \<and>
     span_next (spans_of h' s) = Null \<and> span_prev (spans_of h' s) = Null \<and>
     span_sizeclass (spans_of h' s) = 0 \<and> \<not> span_sample (spans_of h' s)"

text \<open>Taking a free span off its list.\<close>

lemma unlist:
  assumes I: "ph_inv h A fl P" and s: "s \<in> frees fl"
  obtains \<sigma>1 fl1 where "DLL_Remove s (spans_of h) = Some \<sigma>1" "frees fl1 = frees fl - {s}"
    "ph_inv (h\<lparr>spans_of := \<sigma>1(s := (\<sigma>1 s)\<lparr>span_free := False\<rparr>)\<rparr>) (insert s A) fl1 P"
    "ph_frame A h (h\<lparr>spans_of := \<sigma>1(s := (\<sigma>1 s)\<lparr>span_free := False\<rparr>)\<rparr>)"
    "\<And>x. sst \<sigma>1 x = sst (spans_of h) x \<and> sln \<sigma>1 x = sln (spans_of h) x"
    "span_next (\<sigma>1 s) = Null" "span_prev (\<sigma>1 s) = Null" "span_sizeclass (\<sigma>1 s) = 0" "\<not> span_sample (\<sigma>1 s)"
proof -
  let ?\<sigma> = "spans_of h"
  note ok = ph_invD(1) [OF I] and T = ph_invD(2) [OF I] and C = ph_invD(3) [OF I]
  obtain \<sigma>1 fl1 where r: "DLL_Remove s ?\<sigma> = Some \<sigma>1" "lists_ok \<sigma>1 fl1" "frees fl1 = frees fl - {s}"
    "relinked (frees fl \<union> heads) ?\<sigma> \<sigma>1" "span_next (\<sigma>1 s) = Null" "span_prev (\<sigma>1 s) = Null"
    using lists_remove [OF ok s] by blast
  note d = relinked_data [OF r(4)]
  let ?\<sigma>2 = "\<sigma>1(s := (\<sigma>1 s)\<lparr>span_free := False\<rparr>)"
  have sO: "s \<in> range Obj" using frees_Obj [OF ok] s by blast
  have sA: "s \<notin> A" using ph_inv_disjoint [OF I] s by blast
  have d1: "sst \<sigma>1 x = sst ?\<sigma> x \<and> sln \<sigma>1 x = sln ?\<sigma> x" for x using d by (simp add: sst_def sln_def)
  then have d2: "sst ?\<sigma>2 x = sst ?\<sigma> x \<and> sln ?\<sigma>2 x = sln ?\<sigma> x" for x by (simp add: sst_def sln_def)
  have L: "insert s A \<union> frees fl1 = A \<union> frees fl" unfolding r(3) using s by blast
  have sn: "s \<notin> frees fl1" "s \<notin> heads" using sO by (auto simp: r(3))
  have ok2: "lists_ok ?\<sigma>2 fl1" by (rule lists_ok_cong [OF r(2)]) (use sn in auto)
  have T2: "tiling ?\<sigma>2 (pmap h) (insert s A \<union> frees fl1) P" unfolding L by (rule tiling_same [OF T]) (rule d2)
  have C2: "coloring ?\<sigma>2 (insert s A) (frees fl1)"
    unfolding coloring_def
  proof (intro conjI ballI)
    show "\<not> span_free (?\<sigma>2 x)" if "x \<in> insert s A" for x using that C sA d(3) by (auto simp: coloring_def)
    fix x assume x: "x \<in> frees fl1"
    then have "x \<in> frees fl" "x \<noteq> s" using r(3) by auto
    then show "span_free (?\<sigma>2 x)" "span_sizeclass (?\<sigma>2 x) = 0" "\<not> span_sample (?\<sigma>2 x)"
      using C d by (auto simp: coloring_def)
    fix y assume "y \<in> frees fl1"
    then have "y \<in> frees fl" using r(3) by auto
    then have "sst ?\<sigma> x + sln ?\<sigma> x \<noteq> sst ?\<sigma> y" using C \<open>x \<in> frees fl\<close> by (simp add: coloring_def)
    then show "sst ?\<sigma>2 x + sln ?\<sigma>2 x \<noteq> sst ?\<sigma>2 y" using d2 [of x] d2 [of y] by simp
  qed
  have inv: "ph_inv (h\<lparr>spans_of := ?\<sigma>2\<rparr>) (insert s A) fl1 P"
    using ok2 T2 C2 I L unfolding ph_inv_def mem_ok_def by simp
  have "?\<sigma>2 x = ?\<sigma> x" if x: "x \<in> A \<or> (x \<notin> range Obj \<and> x \<notin> heads)" for x
  proof -
    have "x \<notin> frees fl \<union> heads" "x \<noteq> s"
      using x sO sA ph_inv_disjoint [OF I] frees_Obj [OF ok] tiling_finite(3) [OF T] by auto
    then show ?thesis using relinked_other [OF r(4)] by simp
  qed
  then have fr: "ph_frame A h (h\<lparr>spans_of := ?\<sigma>2\<rparr>)" unfolding ph_frame_def by simp
  have "span_sizeclass (\<sigma>1 s) = 0" "\<not> span_sample (\<sigma>1 s)" using C s d by (simp_all add: coloring_def)
  then show thesis using that [OF r(1,3) inv fr d1 r(5,6)] by blast
qed

lemma Carve_ok:
  assumes K: "kernel_ok (sys_cfg cfg)" and I: "ph_inv h A fl P" and s: "s \<in> frees fl"
    and n: "0 < n" "unat n \<le> sln (spans_of h) s"
  shows "Carve cfg s n h = None \<and> \<not> pha_room sizeof_Span (span_allocator h) 1 \<or>
    (\<exists>h' fl'. Carve cfg s n h = Some h' \<and> carved A P s (unat n) h fl h' fl')"
proof -
  let ?\<sigma> = "spans_of h"
  obtain \<sigma>1 fl1 where u: "DLL_Remove s ?\<sigma> = Some \<sigma>1" "frees fl1 = frees fl - {s}"
    "ph_inv (h\<lparr>spans_of := \<sigma>1(s := (\<sigma>1 s)\<lparr>span_free := False\<rparr>)\<rparr>) (insert s A) fl1 P"
    "ph_frame A h (h\<lparr>spans_of := \<sigma>1(s := (\<sigma>1 s)\<lparr>span_free := False\<rparr>)\<rparr>)"
    "\<And>x. sst \<sigma>1 x = sst ?\<sigma> x \<and> sln \<sigma>1 x = sln ?\<sigma> x"
    "span_next (\<sigma>1 s) = Null" "span_prev (\<sigma>1 s) = Null" "span_sizeclass (\<sigma>1 s) = 0" "\<not> span_sample (\<sigma>1 s)"
    using unlist [OF I s] by metis
  define h1 where "h1 = h\<lparr>spans_of := \<sigma>1\<rparr>"
  define h2 where "h2 = h\<lparr>spans_of := \<sigma>1(s := (\<sigma>1 s)\<lparr>span_free := False\<rparr>)\<rparr>"
  define x where "x = (\<sigma>1 s)\<lparr>span_free := False\<rparr>"
  have sL: "s \<in> A \<union> frees fl" using s by blast
  have sN: "s \<noteq> Null" by (rule tilingD(6) [OF ph_invD(2) [OF I] sL])
  have I2: "ph_inv h2 (insert s A) fl1 P" and f2: "ph_frame A h h2" using u(3,4) by (simp_all add: h2_def)
  have x2: "spans_of h2 s = x" by (simp add: h2_def x_def)
  have d2: "sst (spans_of h2) y = sst ?\<sigma> y \<and> sln (spans_of h2) y = sln ?\<sigma> y" for y
    using u(5) [of y] by (auto simp: h2_def sst_def sln_def)
  have c1: "on_spans (DLL_Remove s) h = Some h1" using u(1) by (simp add: on_spans_def h1_def)
  have c2: "on_spans (wr s (\<lambda>x. x\<lparr>span_free := False\<rparr>)) h1 = Some h2"
    using sN by (simp add: on_spans_def wr_def h1_def h2_def)
  have c3: "rd s (spans_of h2) = Some x" using sN by (simp add: rd_def x2)
  have xl: "unat (span_length x) = sln ?\<sigma> s" and xs: "unat (span_start x) = sst ?\<sigma> s"
    using d2 [of s] by (simp_all add: sln_def sst_def x2)
  have "unat (span_length x) \<le> kMaxHeapPages"
    unfolding xl using tiling_len [OF ph_invD(2) [OF I] sL] ph_invD(8) [OF I] by simp
  with n(2) have ex: "to_int32 (span_length x - n) = int (sln ?\<sigma> s - unat n)"
    using to_int32_diff [of n "span_length x"] by (simp add: xl)
  have fs2: "free_sum h2 fl1 + sln ?\<sigma> s = free_sum h fl"
  proof -
    have "free_sum h2 fl1 = (\<Sum>u\<in>frees fl - {s}. sln ?\<sigma> u)" by (simp add: free_sum_def d2 u(2))
    then show ?thesis using sum.remove [OF finite_frees s, of "sln ?\<sigma>"] by (simp add: free_sum_def)
  qed
  show ?thesis
  proof (cases "unat n = sln ?\<sigma> s")
    case True
    have "Carve cfg s n h = Some h2"
      using n(1) c1 c2 c3 ex True by (simp add: Carve_def Let_def word_gt_0)
    moreover have "carved A P s (unat n) h fl h2 fl1"
      using I2 f2 fs2 d2 [of s] True u(6-9) x2 pha_room_Suc
      by (auto simp: carved_def new_same_def h2_def)
    ultimately show ?thesis by blast
  next
    case False
    then have lt: "unat n < sln ?\<sigma> s" using n(2) by simp
    let ?m = "sln ?\<sigma> s - unat n"
    let ?len = "word_of_nat ?m :: u64"
    obtain m where m: "m = ?m" "0 < m" using lt by simp
    show ?thesis
    proof (cases "PHA_New (sys_cfg cfg) sizeof_Span (span_allocator h2) (meta h2)")
      case None
      then have "NewSpan cfg (span_start x + n) ?len h2 = None" by (simp add: NewSpan_def)
      then have "Carve cfg s n h = None"
        using n(1) c1 c2 c3 ex m(2) unfolding m(1) [symmetric]
        by (simp add: Carve_def Let_def word_gt_0)
      moreover have "\<not> pha_room sizeof_Span (span_allocator h) 1"
        using PHA_New_room [OF _ object_size_Span, of "span_allocator h" 0 "sys_cfg cfg" "meta h"] None by (auto simp: h2_def)
      ultimately show ?thesis by blast
    next
      case (Some res)
      then obtain r a ms where pn: "PHA_New (sys_cfg cfg) sizeof_Span (span_allocator h2) (meta h2) = Some (r, a, ms)"
        by (cases res) auto
    let ?z = "zero_span\<lparr>span_start := span_start x + n, span_length := ?len\<rparr>"
    define h3 where "h3 = h2\<lparr>span_allocator := a, meta := ms, spans_of := (spans_of h2)(Obj r := ?z)\<rparr>"
    define \<sigma>4 where "\<sigma>4 = (spans_of h2)(Obj r := ?z\<lparr>span_free := True\<rparr>)"
    define h4 where "h4 = h2\<lparr>span_allocator := a, meta := ms, spans_of := \<sigma>4\<rparr>"
    note T2 = ph_invD(2) [OF I2] and ok2 = ph_invD(1) [OF I2] and C2 = ph_invD(3) [OF I2]
    have L: "insert s A \<union> frees fl1 = A \<union> frees fl" unfolding u(2) using s by blast
    obtain c4: "NewSpan cfg (span_start x + n) ?len h2 = Some (Obj r, h3)" and rU: "r \<notin> addrs (A \<union> frees fl)"
      and M4: "mem_ok (h2\<lparr>span_allocator := a, meta := ms\<rparr>) (insert r (addrs (A \<union> frees fl))) P" and st: "sys_step (meta h2) ms"
      using NewSpan_ok [OF K ph_invD(4) [OF I2] pn, of "span_start x + n" ?len] unfolding L h3_def by blast
    have loL: "Obj r \<notin> A \<union> frees fl" using rU by (simp add: addrs_def)
    then have los: "Obj r \<noteq> s" "Obj r \<notin> frees fl1" "Obj r \<notin> A" using sL u(2) by auto
    have c5: "on_spans (wr (Obj r) (\<lambda>y. y\<lparr>span_free := True\<rparr>)) h3 = Some h4"
      by (simp add: on_spans_def wr_def h3_def h4_def \<sigma>4_def)
    have m1: "1 \<le> ?m" using lt by simp
    have bound: "sst ?\<sigma> s + sln ?\<sigma> s < 2 ^ 52" by (rule tiling_bound [OF ph_invD(2) [OF I] sL])
    have z: "sst \<sigma>4 (Obj r) = sst ?\<sigma> s + unat n" "sln \<sigma>4 (Obj r) = ?m"
    proof -
      have "unat (span_start x) + unat n < 2 ^ 64" using bound lt unfolding xs by simp
      then show "sst \<sigma>4 (Obj r) = sst ?\<sigma> s + unat n"
        by (simp add: sst_def \<sigma>4_def unat_plus_no_wrap) (simp add: sst_def [symmetric] xs)
      have "?m < 2 ^ 64" using bound by simp
      then show "sln \<sigma>4 (Obj r) = ?m" by (simp add: sln_def \<sigma>4_def of_nat_inverse)
    qed
    have p4: "pmap h4 = pmap h" by (rule pmap_cong) (simp add: h4_def h2_def)
    have pd: "pmap h k \<noteq> None" if "sst ?\<sigma> s - 1 \<le> k" "k \<le> sst ?\<sigma> s + sln ?\<sigma> s" for k
      by (rule tilingD(5) [OF ph_invD(2) [OF I] sL that])
    have root4: "root_3 (pagemap h4) \<noteq> None" using ph_invD(5) [OF I] by (simp add: h4_def h2_def)
    have s4: "spans_of h4 = \<sigma>4" by (simp add: h4_def)
    have zl: "sst ?\<sigma> s + unat n + ?m - 1 = sst ?\<sigma> s + sln ?\<sigma> s - 1" using lt by simp
    obtain pm where c6: "RecordSpan (Obj r) h4 = Some (h4\<lparr>pagemap := pm\<rparr>)" and root5: "root_3 pm \<noteq> None" and
      p5: "pmap (h4\<lparr>pagemap := pm\<rparr>) = (pmap h)(sst ?\<sigma> s + unat n := Some (Obj r), sst ?\<sigma> s + sln ?\<sigma> s - 1 := Some (Obj r))"
      using RecordSpan_ok [of "Obj r" h4] m1 pd [of "sst ?\<sigma> s + unat n"] pd [of "sst ?\<sigma> s + sln ?\<sigma> s - 1"] lt root4
      unfolding s4 z p4 zl by auto
    define h5 where "h5 = h4\<lparr>pagemap := pm\<rparr>"
    have s5: "spans_of h5 = \<sigma>4" by (simp add: h5_def h4_def)
    have f4: "\<sigma>4 y = spans_of h2 y" if "y \<noteq> Obj r" for y using that by (simp add: \<sigma>4_def)
    have ok4: "lists_ok \<sigma>4 fl1"
      by (rule lists_ok_cong [OF ok2]) (use los in \<open>auto simp: f4 \<sigma>4_def\<close>)
    have "\<exists>\<sigma>' fl'. add_to_free_list (Obj r) ?len h5 = Some (h5\<lparr>spans_of := \<sigma>'\<rparr>) \<and> lists_ok \<sigma>' fl' \<and>
      frees fl' = insert (Obj r) (frees fl1) \<and> relinked (insert (Obj r) (frees fl1 \<union> heads)) (spans_of h5) \<sigma>'"
    proof (rule lists_add)
      show "sst (spans_of h5) y \<noteq> sst (spans_of h5) (Obj r)" if y: "y \<in> frees fl1" for y
      proof
        assume e: "sst (spans_of h5) y = sst (spans_of h5) (Obj r)"
        have yL: "y \<in> A \<union> frees fl" "y \<noteq> s" "y \<noteq> Obj r" using y u(2) los by auto
        have "sst ?\<sigma> y = sst ?\<sigma> s + unat n" using e d2 [of y] yL(3) z by (simp add: s5 sst_def f4)
        then have "sst ?\<sigma> y \<in> pages_of ?\<sigma> s" using lt by (simp add: pages_of_def)
        moreover have "sst ?\<sigma> y \<in> pages_of ?\<sigma> y"
          using tilingD(1) [OF ph_invD(2) [OF I] yL(1)] by (simp add: pages_of_def)
        ultimately show False using tiling_disjoint [OF ph_invD(2) [OF I] yL(1) sL] yL(2) by blast
      qed
    qed (use ok4 los in \<open>simp_all add: s5 \<sigma>4_def zero_span_def\<close>)
    then obtain \<sigma>5 fl2 where c7: "add_to_free_list (Obj r) ?len h5 = Some (h5\<lparr>spans_of := \<sigma>5\<rparr>)" and ok5: "lists_ok \<sigma>5 fl2"
      and fl2: "frees fl2 = insert (Obj r) (frees fl1)" and R5: "relinked (insert (Obj r) (frees fl1 \<union> heads)) \<sigma>4 \<sigma>5"
      unfolding s5 by blast
    note r5 = relinked_data [OF R5]
    have sO: "s \<in> range Obj" using tiling_finite(3) [OF ph_invD(2) [OF I]] sL by blast
    have "s \<notin> frees fl1" "s \<notin> heads" using sO by (auto simp: u(2))
    then have sn2: "s \<notin> insert (Obj r) (frees fl1 \<union> heads)" using los(1) by auto
    have s5x: "\<sigma>5 s = x" using relinked_other [OF R5 sn2] f4 [of s] los(1) x2 by auto
    define \<sigma>6 where "\<sigma>6 = \<sigma>5(s := x\<lparr>span_length := n\<rparr>)"
    define h7 where "h7 = h5\<lparr>spans_of := \<sigma>6\<rparr>"
    have c8: "on_spans (wr s (\<lambda>x. x\<lparr>span_length := n\<rparr>)) (h5\<lparr>spans_of := \<sigma>5\<rparr>) = Some h7"
      using sN by (simp add: on_spans_def wr_def h7_def \<sigma>6_def s5x)
    have p7: "pmap h7 = (pmap h)(sst ?\<sigma> s + unat n := Some (Obj r), sst ?\<sigma> s + sln ?\<sigma> s - 1 := Some (Obj r))"
      unfolding p5 [symmetric] by (rule pmap_cong) (simp add: h7_def h5_def)
    have kw: "span_start x + n - 1 = word_of_nat (sst ?\<sigma> s + unat n - 1)"
      using n(1) xs by (simp add: of_nat_diff word_less_nat_alt flip: xs)
    have "pmap h7 (sst ?\<sigma> s + unat n - 1) \<noteq> None"
      using pd [of "sst ?\<sigma> s + unat n - 1"] lt unfolding p7 by auto
    from pmap_set [OF this, of s] obtain pm' where c9: "pagemap_set (span_start x + n - 1) s h7 = Some (h7\<lparr>pagemap := pm'\<rparr>)"
      and p8: "pmap (h7\<lparr>pagemap := pm'\<rparr>) = (pmap h7)(sst ?\<sigma> s + unat n - 1 := Some s)" and root8: "root_3 pm' \<noteq> None"
      using root5 by (auto simp: kw h7_def h5_def)
    define h8 where "h8 = h7\<lparr>pagemap := pm'\<rparr>"
    have run: "Carve cfg s n h = Some h8"
      using n(1) c1 c2 c3 ex m(2) c4 c5 c6 c7 c8 c9
      unfolding h5_def [symmetric] h8_def [symmetric] m(1) [symmetric]
      by (simp add: Carve_def Let_def word_gt_0)
    have s8: "spans_of h8 = \<sigma>6" by (simp add: h8_def h7_def)
    have lo6: "sst \<sigma>6 (Obj r) = sst ?\<sigma> s + unat n" "sln \<sigma>6 (Obj r) = ?m"
      using r5(1,2) z los(1) by (simp_all add: \<sigma>6_def sst_def sln_def)
    have s6: "sst \<sigma>6 s = sst ?\<sigma> s" "sln \<sigma>6 s = unat n" using xs by (simp_all add: \<sigma>6_def sst_def sln_def)
    have r6: "sst \<sigma>6 y = sst ?\<sigma> y \<and> sln \<sigma>6 y = sln ?\<sigma> y \<and> span_free (\<sigma>6 y) = span_free (spans_of h2 y) \<and>
        span_sizeclass (\<sigma>6 y) = span_sizeclass (spans_of h2 y) \<and> span_sample (\<sigma>6 y) = span_sample (spans_of h2 y)"
      if "y \<noteq> s" "y \<noteq> Obj r" for y
      using that r5 [of y] f4 [of y] d2 [of y] by (simp add: \<sigma>6_def sst_def sln_def)
    have p8': "pmap h8 = (pmap h)(sst ?\<sigma> s + unat n := Some (Obj r), sst ?\<sigma> s + sln ?\<sigma> s - 1 := Some (Obj r),
        sst ?\<sigma> s + unat n - 1 := Some s)"
      using p8 by (simp add: h8_def p7)
    have n0: "0 < unat n" using n(1) by (simp add: word_less_nat_alt)
    have T8: "tiling \<sigma>6 (pmap h8) (insert (Obj r) (A \<union> frees fl)) P"
      by (rule tiling_cut [OF ph_invD(2) [OF I] sL n0 lt loL _ s6 lo6 _ p8']) (use r6 loL in auto)
    have L8: "insert (Obj r) (A \<union> frees fl) = insert s A \<union> frees fl2" by (simp only: fl2 Un_insert_right L)
    have ok8: "lists_ok \<sigma>6 fl2"
      by (rule lists_ok_cong [OF ok5]) (use sn2 fl2 in \<open>auto simp: \<sigma>6_def\<close>)
    have C8: "coloring \<sigma>6 (insert s A) (frees fl2)"
      unfolding coloring_def
    proof (intro conjI ballI)
      fix y assume y: "y \<in> insert s A"
      have "\<not> span_free x" by (simp add: x_def)
      then show "\<not> span_free (\<sigma>6 y)"
        using y C2 r6 [of y] los(3) by (cases "y = s") (auto simp: \<sigma>6_def coloring_def)
    next
      fix y assume y: "y \<in> frees fl2"
      show "span_free (\<sigma>6 y)" by (rule frees_free [OF ok8 y])
      have "span_sizeclass (\<sigma>6 y) = 0 \<and> \<not> span_sample (\<sigma>6 y)"
      proof (cases "y = Obj r")
        case True
        then show ?thesis using r5(4,5) los(1) by (simp add: \<sigma>6_def \<sigma>4_def zero_span_def)
      next
        case False
        then have "y \<in> frees fl1" "y \<noteq> s" using y fl2 u(2) by auto
        then show ?thesis using r6 [of y] False C2 by (simp add: coloring_def)
      qed
      then show "span_sizeclass (\<sigma>6 y) = 0" "\<not> span_sample (\<sigma>6 y)" by blast+
      fix w assume w: "w \<in> frees fl2"
      have adj: "sst ?\<sigma> p + sln ?\<sigma> p \<noteq> sst ?\<sigma> q" if "p \<in> frees fl" "q \<in> frees fl" for p q
        using ph_invD(3) [OF I] that by (simp add: coloring_def)
      have lof: "sst ?\<sigma> q + sln ?\<sigma> q \<noteq> sst ?\<sigma> s + unat n" if q: "q \<in> frees fl" "q \<noteq> s" for q
      proof
        assume e: "sst ?\<sigma> q + sln ?\<sigma> q = sst ?\<sigma> s + unat n"
        have qL: "q \<in> A \<union> frees fl" using q by blast
        have "sst ?\<sigma> s + unat n - 1 \<in> pages_of ?\<sigma> q"
          using e n0 tilingD(1) [OF ph_invD(2) [OF I] qL] by (auto simp: pages_of_def)
        moreover have "sst ?\<sigma> s + unat n - 1 \<in> pages_of ?\<sigma> s" using n0 lt by (auto simp: pages_of_def)
        ultimately show False using tiling_disjoint [OF ph_invD(2) [OF I] qL sL] q(2) by blast
      qed
      have old: "q \<in> frees fl \<and> q \<noteq> s \<and> q \<noteq> Obj r" if "q \<in> frees fl2" "q \<noteq> Obj r" for q
        using that fl2 u(2) by auto
      show "sst \<sigma>6 y + sln \<sigma>6 y \<noteq> sst \<sigma>6 w"
      proof (cases "y = Obj r")
        case yr: True
        show ?thesis
        proof (cases "w = Obj r")
          case True
          then show ?thesis using lo6 m1 yr by simp
        next
          case False
          then show ?thesis using lo6 lt yr old [OF w] r6 [of w] adj [OF s, of w] by auto
        qed
      next
        case yr: False
        then have yo: "y \<in> frees fl" "y \<noteq> s" using old [OF y] by auto
        show ?thesis
        proof (cases "w = Obj r")
          case True
          then show ?thesis using lof [OF yo] lo6(1) r6 [OF yo(2) yr] by simp
        next
          case False
          then show ?thesis using old [OF w] adj [OF yo(1), of w] r6 [OF yo(2) yr] r6 [of w] by simp
        qed
      qed
    qed
    have addr: "insert r (addrs (A \<union> frees fl)) = addrs (insert s A \<union> frees fl2)"
      unfolding L8 [symmetric] by (auto simp: addrs_def)
    have M8: "mem_ok h8 (addrs (insert s A \<union> frees fl2)) P"
      using M4 unfolding addr mem_ok_def by (simp add: h8_def h7_def h5_def h4_def)
    have inv: "ph_inv h8 (insert s A) fl2 P"
      using ok8 T8 C8 M8 root8 ph_invD(6,7) [OF I] unfolding ph_inv_def L8 s8
      by (simp add: h8_def h7_def h5_def h4_def h2_def)
    have fr: "ph_frame A h h8"
    proof -
      have "\<sigma>6 y = ?\<sigma> y" if y: "y \<in> A \<or> (y \<notin> range Obj \<and> y \<notin> heads)" for y
      proof -
        have "y \<noteq> s" using y sO ph_inv_disjoint [OF I] s by auto
        moreover have "y \<noteq> Obj r" using y los(3) by auto
        moreover have "y \<notin> frees fl1 \<union> heads"
          using y ph_inv_disjoint [OF I] frees_Obj [OF ph_invD(1) [OF I]] tiling_finite(3) [OF ph_invD(2) [OF I]] u(2) by auto
        ultimately have "\<sigma>6 y = spans_of h2 y" using relinked_other [OF R5, of y] f4 [of y] by (simp add: \<sigma>6_def)
        also have "\<dots> = ?\<sigma> y" using f2 y unfolding ph_frame_def by blast
        finally show ?thesis .
      qed
      moreover have "pmap h8 k = pmap h k" if "y \<in> A" "k \<in> pages_of ?\<sigma> y" for y k
        by (rule cut_frame [OF ph_invD(2) [OF I] sL _ _ that(2) n0 lt p8']) (use that ph_inv_disjoint [OF I] s in auto)
      ultimately show ?thesis unfolding ph_frame_def s8 by (simp add: h8_def h7_def h5_def h4_def h2_def)
    qed
    have sum: "free_sum h8 fl2 + unat n = free_sum h fl"
    proof -
      have "free_sum h8 fl2 = ?m + (\<Sum>q\<in>frees fl1. sln \<sigma>6 q)"
        using los(2) lo6(2) by (simp add: free_sum_def s8 fl2)
      also have "(\<Sum>q\<in>frees fl1. sln \<sigma>6 q) = free_sum h2 fl1"
        unfolding free_sum_def
      proof (rule sum.cong [OF refl])
        fix q assume "q \<in> frees fl1"
        then have "q \<noteq> s" "q \<noteq> Obj r" using u(2) los(2) by auto
        then show "sln \<sigma>6 q = sln (spans_of h2) q" using r6 [of q] d2 [of q] by simp
      qed
      finally show ?thesis using fs2 lt by linarith
    qed
    have "new_same h h8"
      using st new_room [of h2 _ "sys_cfg cfg" "meta h2" r a ms] pn
      by (simp add: new_same_def h8_def h7_def h5_def h4_def h2_def)
    then have "carved A P s (unat n) h fl h8 fl2"
      using inv fr sum s6 u(6-9) unfolding carved_def s8
      by (simp add: h8_def h7_def h5_def h4_def h2_def \<sigma>6_def x_def)
    then show ?thesis using run by blast
    qed
  qed
qed

section \<open>\<open>Split\<close>\<close>

definition split_ok :: "sref set \<Rightarrow> nat set \<Rightarrow> sref \<Rightarrow> nat \<Rightarrow> sref \<Rightarrow> 'a page_heap_scheme \<Rightarrow> (sref \<Rightarrow> sref list) \<Rightarrow>
    'a page_heap_scheme \<Rightarrow> bool" where
  "split_ok A P s n lo h fl h' \<longleftrightarrow> lo \<notin> A \<and> ph_inv h' (insert lo A) fl P \<and> ph_frame (A - {s}) h h' \<and> new_same h h' \<and>
     free_pages h' = free_pages h \<and> free_sum h' fl = free_sum h fl \<and>
     spans_of h' s = (spans_of h s)\<lparr>span_length := word_of_nat n\<rparr> \<and>
     spans_of h' lo = zero_span\<lparr>span_start := word_of_nat (sst (spans_of h) s + n), span_length := word_of_nat (sln (spans_of h) s - n)\<rparr>"

lemma Split_ok:
  assumes K: "kernel_ok (sys_cfg cfg)" and I: "ph_inv h A fl P" and s: "s \<in> A"
    and n: "0 < n" "unat n < sln (spans_of h) s" and cl: "span_sizeclass (spans_of h s) = 0"
  shows "Split cfg s n h = None \<and> \<not> pha_room sizeof_Span (span_allocator h) 1 \<or>
    (\<exists>lo h'. Split cfg s n h = Some (lo, h') \<and> split_ok A P s (unat n) lo h fl h')"
proof -
  let ?\<sigma> = "spans_of h"
  let ?x = "?\<sigma> s" and ?m = "sln ?\<sigma> s - unat n"
  let ?len = "word_of_nat ?m :: u64"
  note ok = ph_invD(1) [OF I] and T = ph_invD(2) [OF I] and C = ph_invD(3) [OF I]
  have sL: "s \<in> A \<union> frees fl" using s by blast
  have sN: "s \<noteq> Null" by (rule tilingD(6) [OF T sL])
  have sO: "s \<in> range Obj" using tiling_finite(3) [OF T] s by blast
  have nf: "\<not> span_free ?x" using C s by (simp add: coloring_def)
  have "unat (span_length ?x) \<le> kMaxHeapPages"
    using tiling_len [OF T sL] ph_invD(8) [OF I] by (simp add: sln_def)
  then have ex: "to_int32 (span_length ?x - n) = int ?m"
    using to_int32_diff [of n "span_length ?x"] n(2) by (simp add: sln_def)
  have c3: "rd s ?\<sigma> = Some ?x" using sN by (simp add: rd_def)
  have lw: "n < span_length ?x" using n(2) by (simp add: sln_def word_less_nat_alt)
  obtain m where m: "m = ?m" by simp
  show ?thesis
  proof (cases "PHA_New (sys_cfg cfg) sizeof_Span (span_allocator h) (meta h)")
    case None
    then have "NewSpan cfg (span_start ?x + n) ?len h = None" by (simp add: NewSpan_def)
    then have "Split cfg s n h = None"
      using n(1) c3 ex lw nf cl unfolding m [symmetric] by (simp add: Split_def Let_def word_gt_0)
    moreover have "\<not> pha_room sizeof_Span (span_allocator h) 1"
      using PHA_New_room [OF _ object_size_Span, of "span_allocator h" 0 "sys_cfg cfg" "meta h"] None by auto
    ultimately show ?thesis by blast
  next
    case (Some res)
    then obtain r a ms where pn: "PHA_New (sys_cfg cfg) sizeof_Span (span_allocator h) (meta h) = Some (r, a, ms)"
      by (cases res) auto
    let ?z = "zero_span\<lparr>span_start := span_start ?x + n, span_length := ?len\<rparr>"
    define \<sigma>3 where "\<sigma>3 = ?\<sigma>(Obj r := ?z)"
    define h3 where "h3 = h\<lparr>span_allocator := a, meta := ms, spans_of := \<sigma>3\<rparr>"
    obtain c4: "NewSpan cfg (span_start ?x + n) ?len h = Some (Obj r, h3)" and rU: "r \<notin> addrs (A \<union> frees fl)"
      and M4: "mem_ok (h\<lparr>span_allocator := a, meta := ms\<rparr>) (insert r (addrs (A \<union> frees fl))) P" and st: "sys_step (meta h) ms"
      using NewSpan_ok [OF K ph_invD(4) [OF I] pn, of "span_start ?x + n" ?len] unfolding h3_def \<sigma>3_def by blast
    have loL: "Obj r \<notin> A \<union> frees fl" using rU by (simp add: addrs_def)
    then have los: "Obj r \<noteq> s" "Obj r \<notin> frees fl" "Obj r \<notin> A" using sL by auto
    have m1: "1 \<le> ?m" and n0: "0 < unat n" using n by (simp_all add: word_less_nat_alt)
    have bound: "sst ?\<sigma> s + sln ?\<sigma> s < 2 ^ 52" by (rule tiling_bound [OF T sL])
    have zs: "span_start ?x + n = word_of_nat (sst ?\<sigma> s + unat n)" by (simp add: sst_def)
    have z: "sst \<sigma>3 (Obj r) = sst ?\<sigma> s + unat n" "sln \<sigma>3 (Obj r) = ?m"
    proof -
      have "unat (span_start ?x) + unat n < 2 ^ 64" using bound n(2) by (simp add: sst_def)
      then have "unat (span_start ?x + n) = sst ?\<sigma> s + unat n" by (simp add: unat_plus_no_wrap sst_def)
      then show "sst \<sigma>3 (Obj r) = sst ?\<sigma> s + unat n" by (simp add: sst_def \<sigma>3_def)
      have "?m < 2 ^ 64" using bound by simp
      then show "sln \<sigma>3 (Obj r) = ?m" by (simp add: sln_def \<sigma>3_def of_nat_inverse)
    qed
    have p3: "pmap h3 = pmap h" by (rule pmap_cong) (simp add: h3_def)
    have pd: "pmap h k \<noteq> None" if "sst ?\<sigma> s - 1 \<le> k" "k \<le> sst ?\<sigma> s + sln ?\<sigma> s" for k
      by (rule tilingD(5) [OF T sL that])
    have root3: "root_3 (pagemap h3) \<noteq> None" using ph_invD(5) [OF I] by (simp add: h3_def)
    have s3: "spans_of h3 = \<sigma>3" by (simp add: h3_def)
    have zl: "sst ?\<sigma> s + unat n + ?m - 1 = sst ?\<sigma> s + sln ?\<sigma> s - 1" using n(2) by simp
    obtain pm where c6: "RecordSpan (Obj r) h3 = Some (h3\<lparr>pagemap := pm\<rparr>)" and root5: "root_3 pm \<noteq> None" and
      p5: "pmap (h3\<lparr>pagemap := pm\<rparr>) = (pmap h)(sst ?\<sigma> s + unat n := Some (Obj r), sst ?\<sigma> s + sln ?\<sigma> s - 1 := Some (Obj r))"
      using RecordSpan_ok [of "Obj r" h3] m1 pd [of "sst ?\<sigma> s + unat n"] pd [of "sst ?\<sigma> s + sln ?\<sigma> s - 1"] n(2) root3
      unfolding s3 z p3 zl by auto
    define h5 where "h5 = h3\<lparr>pagemap := pm\<rparr>"
    have kw: "span_start ?x + n - 1 = word_of_nat (sst ?\<sigma> s + unat n - 1)"
      using n0 by (simp add: of_nat_diff sst_def)
    have "pmap h5 (sst ?\<sigma> s + unat n - 1) \<noteq> None"
      using pd [of "sst ?\<sigma> s + unat n - 1"] n(2) unfolding h5_def p5 by auto
    from pmap_set [OF this, of s] obtain pm' where c9: "pagemap_set (span_start ?x + n - 1) s h5 = Some (h5\<lparr>pagemap := pm'\<rparr>)"
      and p8: "pmap (h5\<lparr>pagemap := pm'\<rparr>) = (pmap h5)(sst ?\<sigma> s + unat n - 1 := Some s)" and root8: "root_3 pm' \<noteq> None"
      using root5 by (auto simp: kw h5_def)
    define h7 where "h7 = h5\<lparr>pagemap := pm'\<rparr>"
    define \<sigma>6 where "\<sigma>6 = \<sigma>3(s := ?x\<lparr>span_length := n\<rparr>)"
    define h8 where "h8 = h7\<lparr>spans_of := \<sigma>6\<rparr>"
    have c8: "on_spans (wr s (\<lambda>x. x\<lparr>span_length := n\<rparr>)) h7 = Some h8"
      using sN los(1) by (simp add: on_spans_def wr_def h8_def \<sigma>6_def h7_def h5_def h3_def \<sigma>3_def)
    have run: "Split cfg s n h = Some (Obj r, h8)"
      using n(1) c3 ex lw nf cl c4 c6 c9 c8 unfolding h5_def [symmetric] h7_def [symmetric] m [symmetric]
      by (simp add: Split_def Let_def word_gt_0)
    have s8: "spans_of h8 = \<sigma>6" by (simp add: h8_def)
    have p8': "pmap h8 = (pmap h)(sst ?\<sigma> s + unat n := Some (Obj r), sst ?\<sigma> s + sln ?\<sigma> s - 1 := Some (Obj r),
        sst ?\<sigma> s + unat n - 1 := Some s)"
    proof -
      have "pmap h8 = pmap h7" by (rule pmap_cong) (simp add: h8_def)
      then show ?thesis unfolding h7_def p8 unfolding h5_def p5 by simp
    qed
    have lo6: "sst \<sigma>6 (Obj r) = sst ?\<sigma> s + unat n" "sln \<sigma>6 (Obj r) = ?m"
      using z los(1) by (simp_all add: \<sigma>6_def sst_def sln_def)
    have s6: "sst \<sigma>6 s = sst ?\<sigma> s" "sln \<sigma>6 s = unat n" by (simp_all add: \<sigma>6_def sst_def sln_def)
    have r6: "\<sigma>6 y = ?\<sigma> y" if "y \<noteq> s" "y \<noteq> Obj r" for y
      using that by (simp add: \<sigma>6_def \<sigma>3_def)
    have r6': "sst \<sigma>6 y = sst ?\<sigma> y \<and> sln \<sigma>6 y = sln ?\<sigma> y" if "y \<in> A \<union> frees fl" "y \<noteq> s" for y
    proof -
      have "y \<noteq> Obj r" using that(1) loL by blast
      then show ?thesis using r6 [OF that(2)] by (simp add: sst_def sln_def)
    qed
    have T8: "tiling \<sigma>6 (pmap h8) (insert (Obj r) (A \<union> frees fl)) P"
      by (rule tiling_cut [OF T sL n0 n(2) loL _ s6 lo6 r6' p8']) simp_all
    have L8: "insert (Obj r) (A \<union> frees fl) = insert (Obj r) A \<union> frees fl" by simp
    have sf: "s \<notin> frees fl" by (rule ph_inv_disjoint [OF I s])
    have keep: "\<sigma>6 y = ?\<sigma> y" if "y \<in> frees fl \<or> y \<in> heads" for y
      by (rule r6) (use that sf sO los(2) in auto)
    have ok8: "lists_ok \<sigma>6 fl" by (rule lists_ok_cong [OF ok keep])
    have C8: "coloring \<sigma>6 (insert (Obj r) A) (frees fl)"
    proof -
      have "\<not> span_free (\<sigma>6 y)" if "y \<in> insert (Obj r) A" for y
        using that C nf los(1) by (cases "y = s"; cases "y = Obj r") (auto simp: \<sigma>6_def \<sigma>3_def zero_span_def coloring_def)
      then show ?thesis using C keep unfolding coloring_def sst_def sln_def by simp
    qed
    have addr: "insert r (addrs (A \<union> frees fl)) = addrs (insert (Obj r) A \<union> frees fl)" by (auto simp: addrs_def)
    have M8: "mem_ok h8 (addrs (insert (Obj r) A \<union> frees fl)) P"
      using M4 unfolding addr mem_ok_def by (simp add: h8_def h7_def h5_def h3_def)
    have inv: "ph_inv h8 (insert (Obj r) A) fl P"
      using ok8 T8 C8 M8 root8 ph_invD(6,7) [OF I] unfolding ph_inv_def L8 s8
      by (simp add: h8_def h7_def h5_def h3_def)
    have "\<sigma>6 y = ?\<sigma> y" if y: "y \<in> A - {s} \<or> (y \<notin> range Obj \<and> y \<notin> heads)" for y
      by (rule r6) (use y sO los(3) in auto)
    moreover have "pmap h8 k = pmap h k" if "y \<in> A - {s}" "k \<in> pages_of ?\<sigma> y" for y k
      by (rule cut_frame [OF T sL _ _ that(2) n0 n(2) p8']) (use that in auto)
    ultimately have fr: "ph_frame (A - {s}) h h8"
      unfolding ph_frame_def s8 by (simp add: h8_def h7_def h5_def h3_def)
    have "free_sum h8 fl = free_sum h fl"
      unfolding free_sum_def by (rule sum.cong) (simp_all add: s8 keep sln_def)
    moreover have "new_same h h8"
      using st new_room [of h _ "sys_cfg cfg" "meta h" r a ms] pn
      by (simp add: new_same_def h8_def h7_def h5_def h3_def)
    moreover have "\<sigma>6 s = ?x\<lparr>span_length := word_of_nat (unat n)\<rparr>" by (simp add: \<sigma>6_def)
    moreover have "\<sigma>6 (Obj r) = zero_span\<lparr>span_start := word_of_nat (sst ?\<sigma> s + unat n), span_length := ?len\<rparr>"
      using los(1) by (simp add: \<sigma>6_def \<sigma>3_def zs)
    ultimately have "split_ok A P s (unat n) (Obj r) h fl h8"
      using inv fr los(3) unfolding split_ok_def s8 by (simp add: h8_def h7_def h5_def h3_def)
    then show ?thesis using run by blast
  qed
qed

end
