(* ===== verification/PageHeapGrow.thy ===== *)
theory PageHeapGrow
  imports PageHeapNew
begin

text \<open>
  Growing the heap, and \<open>New\<close> as a whole: which span it takes, and that the pages it gets from
  the system are disjoint from everything the heap or its metadata own.
\<close>

section \<open>Which span \<open>New\<close> takes\<close>

text \<open>The shortest span of at least \<open>n\<close> pages on a list, \<open>Null\<close> if there is none.\<close>

definition fits :: "spans \<Rightarrow> u64 \<Rightarrow> sref set \<Rightarrow> sref \<Rightarrow> bool" where
  "fits \<sigma> n X b \<longleftrightarrow> (if b = Null then \<forall>s\<in>X. sln \<sigma> s < unat n
     else b \<in> X \<and> unat n \<le> sln \<sigma> b \<and> (\<forall>s\<in>X. unat n \<le> sln \<sigma> s \<longrightarrow> sln \<sigma> b \<le> sln \<sigma> s))"

lemma fits_insert:
  assumes b: "fits \<sigma> n X b" and x: "x \<noteq> Null" and nX: "Null \<notin> X"
  shows "fits \<sigma> n (insert x X) (if n \<le> span_length (\<sigma> x) \<and> (b = Null \<or> span_length (\<sigma> x) < span_length (\<sigma> b)) then x else b)"
proof -
  have w: "n \<le> span_length (\<sigma> x) \<longleftrightarrow> unat n \<le> sln \<sigma> x" "span_length (\<sigma> x) < span_length (\<sigma> b) \<longleftrightarrow> sln \<sigma> x < sln \<sigma> b"
    by (simp_all add: sln_def word_le_nat_alt word_less_nat_alt)
  show ?thesis using assms unfolding w fits_def by (auto split: if_splits)
qed

lemma best_fit_chain:
  assumes "chain \<sigma> x ys LargeHead" and "LargeHead \<notin> set ys" and "Null \<notin> set ys" and "fits \<sigma> n X b" and "Null \<notin> X"
  shows "\<exists>r. best_fit \<sigma> n (span_next (\<sigma> x)) b = Some r \<and> fits \<sigma> n (X \<union> set ys) r"
  using assms
proof (induction ys arbitrary: x X b)
  case Nil
  then show ?case by (subst best_fit.simps) simp
next
  case (Cons y ys)
  let ?b = "if n \<le> span_length (\<sigma> y) \<and> (b = Null \<or> span_length (\<sigma> y) < span_length (\<sigma> b)) then y else b"
  have y: "span_next (\<sigma> x) = y" "chain \<sigma> y ys LargeHead" "y \<noteq> LargeHead" "y \<noteq> Null" using Cons.prems by auto
  have f: "fits \<sigma> n (insert y X) ?b" by (rule fits_insert [OF Cons.prems(4) y(4) Cons.prems(5)])
  have "\<exists>r. best_fit \<sigma> n (span_next (\<sigma> y)) ?b = Some r \<and> fits \<sigma> n (insert y X \<union> set ys) r"
    by (rule Cons.IH [OF y(2) _ _ f]) (use Cons.prems y in auto)
  moreover have "best_fit \<sigma> n (span_next (\<sigma> x)) b = best_fit \<sigma> n (span_next (\<sigma> y)) ?b"
    using y by (subst best_fit.simps) (auto simp: rd_def)
  ultimately show ?case by simp
qed

lemma best_fit_large:
  assumes ok: "lists_ok \<sigma> fl"
  shows "\<exists>r. best_fit \<sigma> n (span_next (\<sigma> LargeHead)) Null = Some r \<and> fits \<sigma> n (set (fl LargeHead)) r"
proof -
  have "LargeHead \<in> heads" by (simp add: heads_def)
  from lists_okD(1) [OF ok this] have "chain \<sigma> LargeHead (fl LargeHead) LargeHead" "LargeHead \<notin> set (fl LargeHead)"
    "Null \<notin> set (fl LargeHead)" by (auto simp: dll_def)
  from best_fit_chain [OF this, of n "{}" Null] show ?thesis by (simp add: fits_def)
qed

lemma first_nonempty_spec:
  "case first_nonempty ns \<sigma> of
     None \<Rightarrow> \<forall>m\<in>set ns. DLL_IsEmpty (FreeHead m) \<sigma>
   | Some m \<Rightarrow> \<exists>as bs. ns = as @ m # bs \<and> \<not> DLL_IsEmpty (FreeHead m) \<sigma> \<and> (\<forall>k\<in>set as. DLL_IsEmpty (FreeHead k) \<sigma>)"
proof (induction ns)
  case (Cons k ns)
  show ?case
  proof (cases "DLL_IsEmpty (FreeHead k) \<sigma>")
    case True
    then show ?thesis using Cons
      by (auto split: option.splits) (metis append_Cons set_ConsD)
  next
    case False
    then have "\<exists>as bs. k # ns = as @ k # bs \<and> \<not> DLL_IsEmpty (FreeHead k) \<sigma> \<and> (\<forall>j\<in>set as. DLL_IsEmpty (FreeHead j) \<sigma>)"
      by (intro exI [of _ "[]"] exI [of _ ns]) simp
    then show ?thesis using False by simp
  qed
qed simp

text \<open>\<open>New\<close> searches the lists of \<open>n\<close>, \<open>n + 1\<close>, \dots pages and then \<open>large_\<close>: a best fit overall.\<close>

definition select :: "spans \<Rightarrow> u64 \<Rightarrow> sref option" where
  "select \<sigma> n = (case first_nonempty [unat n..<unat kMaxPages] \<sigma> of
     Some m \<Rightarrow> Some (span_next (\<sigma> (FreeHead m)))
   | None \<Rightarrow> best_fit \<sigma> n (span_next (\<sigma> LargeHead)) Null)"

lemma small_first:
  assumes ok: "lists_ok \<sigma> fl" and f: "first_nonempty [unat n..<unat kMaxPages] \<sigma> = Some m"
  shows "span_next (\<sigma> (FreeHead m)) \<in> frees fl \<and> sln \<sigma> (span_next (\<sigma> (FreeHead m))) = m \<and> unat n \<le> m \<and>
    (\<forall>s\<in>frees fl. unat n \<le> sln \<sigma> s \<longrightarrow> m \<le> sln \<sigma> s)"
proof -
  have "\<exists>as bs. [unat n..<unat kMaxPages] = as @ m # bs \<and> \<not> DLL_IsEmpty (FreeHead m) \<sigma> \<and> (\<forall>k\<in>set as. DLL_IsEmpty (FreeHead k) \<sigma>)"
    using first_nonempty_spec [of "[unat n..<unat kMaxPages]" \<sigma>] f by simp
  then obtain as bs where ab: "[unat n..<unat kMaxPages] = as @ m # bs" "\<not> DLL_IsEmpty (FreeHead m) \<sigma>"
    "\<forall>k\<in>set as. DLL_IsEmpty (FreeHead k) \<sigma>" by blast
  have "m \<in> set [unat n..<unat kMaxPages]" unfolding ab(1) by simp
  then have m: "unat n \<le> m" "m < unat kMaxPages" by auto
  have mh: "FreeHead k \<in> heads" if "k < unat kMaxPages" for k using that by (simp add: heads_def)
  note D = lists_okD(1) [OF ok mh [OF m(2)]]
  have ne: "fl (FreeHead m) \<noteq> []" using DLL_IsEmpty_dll [OF D] ab(2) by blast
  then obtain x xs where x: "fl (FreeHead m) = x # xs" by (cases "fl (FreeHead m)") auto
  have nx: "span_next (\<sigma> (FreeHead m)) = x" using dll_next [OF D] by (simp add: x)
  have xin: "x \<in> set (fl (FreeHead m))" by (simp add: x)
  have "x \<in> frees fl" using list_frees [OF mh [OF m(2)], of fl] xin by blast
  moreover have xm: "sln \<sigma> x = m"
    using lists_okD(3) [OF ok mh [OF m(2)] xin] by (simp add: head_of_def split: if_splits)
  moreover have "m \<le> sln \<sigma> s" if s: "s \<in> frees fl" "unat n \<le> sln \<sigma> s" for s
  proof (rule ccontr)
    assume "\<not> m \<le> sln \<sigma> s"
    then have lt: "sln \<sigma> s < m" by simp
    then have k: "sln \<sigma> s < unat kMaxPages" using m by simp
    have "s \<in> set (fl (FreeHead (sln \<sigma> s)))" using frees_iff [OF ok] s(1) k by (simp add: head_of_def)
    then have "\<not> DLL_IsEmpty (FreeHead (sln \<sigma> s)) \<sigma>" using DLL_IsEmpty_dll [OF lists_okD(1) [OF ok mh [OF k]]] by auto
    moreover have "sln \<sigma> s \<in> set as"
    proof -
      have "sorted_wrt (<) (as @ m # bs)" unfolding ab(1) [symmetric] by simp
      moreover have "sln \<sigma> s \<in> set (as @ m # bs)" unfolding ab(1) [symmetric] using s(2) k by simp
      ultimately show ?thesis using lt by (auto simp: sorted_wrt_append)
    qed
    ultimately show False using ab(3) by blast
  qed
  ultimately show ?thesis using m(1) unfolding nx by blast
qed

lemma no_small:
  assumes ok: "lists_ok \<sigma> fl" and f: "first_nonempty [unat n..<unat kMaxPages] \<sigma> = None"
    and s: "s \<in> frees fl" "unat n \<le> sln \<sigma> s"
  shows "s \<in> set (fl LargeHead)"
proof (cases "sln \<sigma> s < unat kMaxPages")
  case True
  have "DLL_IsEmpty (FreeHead (sln \<sigma> s)) \<sigma>"
    using first_nonempty_spec [of "[unat n..<unat kMaxPages]" \<sigma>] f s(2) True by simp
  moreover have "FreeHead (sln \<sigma> s) \<in> heads" using True by (simp add: heads_def)
  ultimately have "fl (FreeHead (sln \<sigma> s)) = []" using DLL_IsEmpty_dll lists_okD(1) [OF ok] by blast
  then show ?thesis using frees_iff [OF ok, of s] s(1) True by (simp add: head_of_def)
next
  case False
  then show ?thesis using frees_iff [OF ok, of s] s(1) by (simp add: head_of_def)
qed

lemma fits_frees:
  assumes ok: "lists_ok \<sigma> fl" and f: "first_nonempty [unat n..<unat kMaxPages] \<sigma> = None"
    and b: "fits \<sigma> n (set (fl LargeHead)) b"
  shows "fits \<sigma> n (frees fl) b"
proof -
  have "set (fl LargeHead) \<subseteq> frees fl" by (rule list_frees) (simp add: heads_def)
  then show ?thesis using b no_small [OF ok f] unfolding fits_def by (auto split: if_splits) (meson not_le)+
qed

lemma select_best:
  assumes ok: "lists_ok \<sigma> fl"
  shows "\<exists>b. select \<sigma> n = Some b \<and> fits \<sigma> n (frees fl) b"
proof (cases "first_nonempty [unat n..<unat kMaxPages] \<sigma>")
  case None
  then show ?thesis using best_fit_large [OF ok, of n] fits_frees [OF ok None] by (auto simp: select_def)
next
  case (Some m)
  then show ?thesis using small_first [OF ok Some] frees_Obj [OF ok]
    by (auto simp: select_def fits_def)
qed

section \<open>Growing\<close>

lemma tiling_extend:
  assumes T: "tiling \<sigma> g L P" and s: "s \<notin> L" "s \<in> range Obj" and fresh: "pages_of \<sigma>' s \<inter> P = {}"
    and len: "1 \<le> sln \<sigma>' s" "1 \<le> sst \<sigma>' s" and rest: "\<And>x. x \<in> L \<Longrightarrow> sst \<sigma>' x = sst \<sigma> x \<and> sln \<sigma>' x = sln \<sigma> x"
    and ends: "g' (sst \<sigma>' s) = Some s" "g' (sst \<sigma>' s + sln \<sigma>' s - 1) = Some s"
    and dom: "\<And>k. sst \<sigma>' s - 1 \<le> k \<Longrightarrow> k \<le> sst \<sigma>' s + sln \<sigma>' s \<Longrightarrow> g' k \<noteq> None"
    and old: "\<And>k v. k \<notin> pages_of \<sigma>' s \<Longrightarrow> g k = Some v \<Longrightarrow> g' k = Some v"
    and new: "\<And>k. k \<notin> pages_of \<sigma>' s \<Longrightarrow> g k = None \<Longrightarrow> g' k = None \<or> g' k = Some Null"
    and old_in: "\<And>k. k \<in> pages_of \<sigma>' s \<Longrightarrow> g' k \<noteq> None"
  shows "tiling \<sigma>' g' (insert s L) (P \<union> pages_of \<sigma>' s)"
proof -
  have rp: "pages_of \<sigma>' x = pages_of \<sigma> x" if "x \<in> L" for x using rest [OF that] by (simp add: pages_of_def)
  have P: "P = (\<Union>x\<in>L. pages_of \<sigma> x)" by (rule tiling_parts(1) [OF T])
  have P': "P \<union> pages_of \<sigma>' s = (\<Union>x\<in>insert s L. pages_of \<sigma>' x)" unfolding P using rp by auto
  have each: "1 \<le> sln \<sigma>' x \<and> 1 \<le> sst \<sigma>' x \<and> (\<forall>k. sst \<sigma>' x - 1 \<le> k \<and> k \<le> sst \<sigma>' x + sln \<sigma>' x \<longrightarrow> g' k \<noteq> None) \<and>
      g' (sst \<sigma>' x) = Some x \<and> g' (sst \<sigma>' x + sln \<sigma>' x - 1) = Some x" if x: "x \<in> insert s L" for x
  proof (cases "x = s")
    case True
    then show ?thesis using len ends dom by blast
  next
    case False
    then have xL: "x \<in> L" using x by blast
    note d = tilingD [OF T xL]
    have keep: "g' k = Some v" if "k \<in> pages_of \<sigma> x" "g k = Some v" for k v
    proof (rule old [OF _ that(2)])
      show "k \<notin> pages_of \<sigma>' s" using fresh that(1) d(7) by blast
    qed
    have "sst \<sigma> x \<in> pages_of \<sigma> x" "sst \<sigma> x + sln \<sigma> x - 1 \<in> pages_of \<sigma> x" using d(1) by (auto simp: pages_of_def)
    then have "g' (sst \<sigma> x) = Some x" "g' (sst \<sigma> x + sln \<sigma> x - 1) = Some x" using keep d(3,4) by blast+
    moreover have "g' k \<noteq> None" if kk: "sst \<sigma> x - 1 \<le> k" "k \<le> sst \<sigma> x + sln \<sigma> x" for k
    proof (cases "k \<in> pages_of \<sigma>' s")
      case True then show ?thesis by (rule old_in)
    next
      case False
      obtain v where "g k = Some v" using d(5) [OF kk] by blast
      then show ?thesis using old [OF False] by simp
    qed
    ultimately show ?thesis using d(1,2) rest [OF xL] by simp
  qed
  have dis: "\<forall>x\<in>insert s L. \<forall>y\<in>insert s L. x \<noteq> y \<longrightarrow> pages_of \<sigma>' x \<inter> pages_of \<sigma>' y = {}"
  proof (intro ballI impI)
    fix x y assume xy: "x \<in> insert s L" "y \<in> insert s L" "x \<noteq> y"
    have new_old: "pages_of \<sigma>' s \<inter> pages_of \<sigma>' z = {}" if "z \<in> L" for z
      using fresh tilingD(7) [OF T that] rp [OF that] by blast
    consider "x = s" "y \<in> L" | "y = s" "x \<in> L" | "x \<in> L" "y \<in> L" using xy by blast
    then show "pages_of \<sigma>' x \<inter> pages_of \<sigma>' y = {}"
    proof cases
      case 1 then show ?thesis using new_old by simp
    next
      case 2 then show ?thesis using new_old [of x] by (simp add: Int_commute)
    next
      case 3 then show ?thesis using tiling_parts(2) [OF T] xy(3) rp by simp
    qed
  qed
  have own: "\<forall>k d. g' k = Some d \<longrightarrow> d \<noteq> Null \<longrightarrow> k \<in> P \<union> pages_of \<sigma>' s"
  proof (intro allI impI)
    fix k d assume a: "g' k = Some d" "d \<noteq> Null"
    show "k \<in> P \<union> pages_of \<sigma>' s"
    proof (cases "k \<in> pages_of \<sigma>' s")
      case False
      show ?thesis
      proof (cases "g k")
        case None then show ?thesis using new [OF False] a by auto
      next
        case (Some v)
        then have "v = d" using old [OF False Some] a(1) by simp
        then show ?thesis using tiling_parts(3) [OF T] Some a(2) by blast
      qed
    qed blast
  qed
  have fin: "finite (insert s L)" "insert s L \<subseteq> range Obj" using tiling_finite [OF T] s by auto
  show ?thesis
    unfolding tiling_def
    by (rule conjI [OF fin(1) conjI [OF fin(2) conjI [OF P' conjI [OF _ conjI [OF dis own]]]]]) (rule ballI, rule each)
qed

lemma mem_ok_meta:
  assumes M: "mem_ok h U P" and st: "sys_step (meta h) ms"
  shows "mem_ok (h\<lparr>meta := ms\<rparr>) U P"
proof -
  obtain M' N T where m: "sys_ok (sys (meta h))" "pha_ok sizeof_Span (span_allocator h) U M'"
    "pha_ok sizeof_StackTrace (stacktrace_allocator h) T N" "M' \<union> N \<union> page_bytes P \<subseteq> bytes_mapped (meta h)"
    "M' \<inter> N = {}" "M' \<inter> page_bytes P = {}" "N \<inter> page_bytes P = {}"
    using M unfolding mem_ok_def by blast
  have "M' \<union> N \<union> page_bytes P \<subseteq> bytes_mapped ms" using m(4) st by (auto simp: sys_step_def)
  then show ?thesis unfolding mem_ok_def using m st by (intro conjI exI [of _ M'] exI [of _ N] exI [of _ T]) (simp_all add: sys_step_def)
qed

lemma page_bytes_Un: "page_bytes (P \<union> Q) = page_bytes P \<union> page_bytes Q"
  by (auto simp: page_bytes_def)

lemma page_bytes_range:
  assumes "unat ptr mod 4096 = 0" and "unat bytes = 4096 * n"
  shows "page_bytes {unat ptr div 4096..<unat ptr div 4096 + n} = span_of ptr bytes"
proof -
  obtain q where q: "unat ptr = 4096 * q" using assms(1) by (metis dvd_def mod_0_imp_dvd)
  have iff: "a div 4096 \<in> {q..<q + n} \<longleftrightarrow> a \<in> {4096 * q..<4096 * q + 4096 * n}" for a :: nat
  proof -
    have "q \<le> a div 4096 \<longleftrightarrow> 4096 * q \<le> a" by (simp add: less_eq_div_iff_mult_less_eq mult.commute)
    moreover have "a div 4096 < q + n \<longleftrightarrow> a < 4096 * q + 4096 * n" by (simp add: div_less_iff_less_mult algebra_simps)
    ultimately show ?thesis by simp
  qed
  have "page_bytes {q..<q + n} = {4096 * q..<4096 * q + 4096 * n}"
    unfolding page_bytes_def by (simp only: iff Collect_mem_eq)
  then show ?thesis by (simp add: span_of_def q assms(2))
qed

text \<open>Memory for \<open>ask\<close> pages, straight from the system.\<close>

lemma sys_alloc_ok:
  assumes K: "kernel_ok (sys_cfg cfg)" and M: "mem_ok h U P" and ask: "1 \<le> unat ask" "unat ask \<le> kMaxHeapPages"
    and run: "sys_alloc cfg (push_bit kPageShift ask) kPageSize h = (ptr, h1)"
  shows "(\<exists>ms. h1 = h\<lparr>meta := ms\<rparr> \<and> sys_step (meta h) ms) \<and> mem_ok h1 U P \<and> (ptr \<noteq> 0 \<longrightarrow>
    (let p = unat (drop_bit kPageShift ptr) in
      1 \<le> p \<and> p + unat ask < 2 ^ 35 \<and> mem_ok h1 U (P \<union> {p..<p + unat ask}) \<and> {p..<p + unat ask} \<inter> P = {}))"
proof -
  obtain s where s: "TCMalloc_SystemAlloc (sys_cfg cfg) (push_bit kPageShift ask) kPageSize (sys (meta h)) = (ptr, s)"
    and h1: "h1 = h\<lparr>meta := (meta h)\<lparr>sys := s\<rparr>\<rparr>"
    using run by (auto simp: sys_alloc_def split: prod.splits)
  have a9: "unat ask \<le> 1000000000" using ask(2) by (simp add: kMaxHeapPages_def)
  have by': "unat (push_bit kPageShift ask) = 4096 * unat ask"
    using unat_push_bit_no_wrap [of ask 12] a9 by (simp add: kPageShift_def)
  have S: "sys_ok (sys (meta h))" using M by (simp add: mem_ok_def)
  have ps: "kPageSize = 2 ^ 12" by (simp add: kPageSize_def kPageShift_def)
  have big: "unat (push_bit kPageShift ask) + unat (kPageSize :: u64) < 2 ^ 61"
    using a9 unfolding by' by (simp add: kPageSize_def kPageShift_def)
  have A: "alloc_ok (push_bit kPageShift ask) kPageSize (sys (meta h)) ptr s"
    by (rule SystemAlloc_ok [OF K S ps _ _ big s]) simp_all
  have step: "sys_step (meta h) ((meta h)\<lparr>sys := s\<rparr>)" using A by (simp add: alloc_ok_def sys_step_def)
  have M1: "mem_ok h1 U P" unfolding h1 by (rule mem_ok_meta [OF M step])
  have "let p = unat (drop_bit kPageShift ptr) in
      1 \<le> p \<and> p + unat ask < 2 ^ 35 \<and> mem_ok h1 U (P \<union> {p..<p + unat ask}) \<and> {p..<p + unat ask} \<inter> P = {}"
    if nz: "ptr \<noteq> 0"
  proof -
    let ?p = "unat ptr div 4096"
    have f: "unat ptr mod 4096 = 0" "4096 \<le> unat ptr" "unat ptr + 4096 * unat ask < 2 ^ 47"
      "span_of ptr (push_bit kPageShift ask) \<subseteq> mapped (sys_trace s) - mapped (sys_trace (sys (meta h)))"
      using A nz unfolding alloc_ok_def by' ps by simp_all
    have p: "unat (drop_bit kPageShift ptr) = ?p" by (simp add: unat_drop_bit_div kPageShift_def)
    have pb: "page_bytes {?p..<?p + unat ask} = span_of ptr (push_bit kPageShift ask)"
      by (rule page_bytes_range [OF f(1) by'])
    obtain M' N T where m: "pha_ok sizeof_Span (span_allocator h) U M'"
      "pha_ok sizeof_StackTrace (stacktrace_allocator h) T N" "M' \<union> N \<union> page_bytes P \<subseteq> bytes_mapped (meta h)"
      "M' \<inter> N = {}" "M' \<inter> page_bytes P = {}" "N \<inter> page_bytes P = {}"
      using M unfolding mem_ok_def by blast
    have fresh: "page_bytes {?p..<?p + unat ask} \<inter> bytes_mapped (meta h) = {}" using f(4) unfolding pb by blast
    have "mem_ok h1 U (P \<union> {?p..<?p + unat ask})"
      unfolding mem_ok_def
    proof (intro conjI exI)
      show "sys_ok (sys (meta h1))" using M1 by (simp add: mem_ok_def)
      show "pha_ok sizeof_Span (span_allocator h1) U M'" "pha_ok sizeof_StackTrace (stacktrace_allocator h1) T N"
        using m by (simp_all add: h1)
      show "M' \<union> N \<union> page_bytes (P \<union> {?p..<?p + unat ask}) \<subseteq> bytes_mapped (meta h1)"
        using m(3) f(4) step unfolding page_bytes_Un pb by (auto simp: h1 sys_step_def)
      show "M' \<inter> N = {}" by (rule m(4))
      show "M' \<inter> page_bytes (P \<union> {?p..<?p + unat ask}) = {}" "N \<inter> page_bytes (P \<union> {?p..<?p + unat ask}) = {}"
        using m(3,5,6) fresh unfolding page_bytes_Un by blast+
    qed
    moreover have "{?p..<?p + unat ask} \<inter> P = {}"
    proof -
      have "False" if k: "k \<in> {?p..<?p + unat ask}" "k \<in> P" for k
      proof -
        have "4096 * k \<in> page_bytes {?p..<?p + unat ask}" "4096 * k \<in> page_bytes P" using k by (simp_all add: page_bytes_def)
        then show False using fresh m(3) by blast
      qed
      then show ?thesis by blast
    qed
    moreover have "1 \<le> ?p" using f(2) by simp
    moreover have "?p + unat ask < 2 ^ 35" using f(3) by simp
    ultimately show ?thesis unfolding Let_def p by blast
  qed
  then show ?thesis using step M1 h1 by blast
qed

lemma RecordGrowth_ok:
  assumes K: "kernel_ok (sys_cfg cfg)" and M: "mem_ok h U P"
  shows "RecordGrowth cfg g h = None \<and> \<not> pha_room sizeof_StackTrace (stacktrace_allocator h) 1 \<or>
    (\<exists>h' a ms tr. RecordGrowth cfg g h = Some h' \<and> mem_ok h' U P \<and> sys_step (meta h) ms \<and>
      h' = h\<lparr>stacktrace_allocator := a, meta := ms, trace_calls := Suc (trace_calls h), traces := tr\<rparr>)"
proof (cases "PHA_New (sys_cfg cfg) sizeof_StackTrace (stacktrace_allocator h) (meta h)")
  case None
  then have "\<not> pha_room sizeof_StackTrace (stacktrace_allocator h) 1"
    using PHA_New_room [OF _ object_size_StackTrace, of "stacktrace_allocator h" 0 "sys_cfg cfg" "meta h"] by auto
  then show ?thesis using None by (simp add: RecordGrowth_def)
next
  case (Some res)
  obtain t a ms where pn: "PHA_New (sys_cfg cfg) sizeof_StackTrace (stacktrace_allocator h) (meta h) = Some (t, a, ms)"
    using Some by (cases res) auto
  obtain M' N T where m: "sys_ok (sys (meta h))" "pha_ok sizeof_Span (span_allocator h) U M'"
    "pha_ok sizeof_StackTrace (stacktrace_allocator h) T N" "M' \<union> N \<union> page_bytes P \<subseteq> bytes_mapped (meta h)"
    "M' \<inter> N = {}" "M' \<inter> page_bytes P = {}" "N \<inter> page_bytes P = {}"
    using M unfolding mem_ok_def by blast
  have "N \<subseteq> bytes_mapped (meta h)" using m(4) by blast
  from PHA_New_ok [OF K m(1,3) this object_size_StackTrace pn] obtain G where g: "t \<noteq> 0" "sys_step (meta h) ms"
    "G \<subseteq> bytes_mapped ms - bytes_mapped (meta h)" "pha_ok sizeof_StackTrace a (insert t T) (N \<union> G)"
    by blast
  have s: "sys_ok (sys ms)" "bytes_mapped (meta h) \<subseteq> bytes_mapped ms" using g(2) m(1) by (simp_all add: sys_step_def)
  define tr where "tr = (traces h)(t := \<lparr>st_size = g, st_depth = length (take (kMaxStackDepth - 1) (GetStackTrace cfg (trace_calls h))),
     st_stack = (fill_stack (take (kMaxStackDepth - 1) (GetStackTrace cfg (trace_calls h))) (st_stack (traces h t)))(kMaxStackDepth - 1 := g)\<rparr>)"
  let ?h' = "h\<lparr>stacktrace_allocator := a, meta := ms, trace_calls := Suc (trace_calls h), traces := tr\<rparr>"
  have "mem_ok ?h' U P"
    unfolding mem_ok_def
  proof (intro conjI exI)
    show "pha_ok sizeof_Span (span_allocator ?h') U M'" using m by simp
    show "pha_ok sizeof_StackTrace (stacktrace_allocator ?h') (insert t T) (N \<union> G)" using g by simp
    show "M' \<union> (N \<union> G) \<union> page_bytes P \<subseteq> bytes_mapped (meta ?h')" using m(4) g(3) s(2) by auto
    show "M' \<inter> (N \<union> G) = {}" "(N \<union> G) \<inter> page_bytes P = {}" using m(4-7) g(3) by blast+
  qed (use s m in simp_all)
  moreover have "RecordGrowth cfg g h = Some ?h'" using pn g(1) by (simp add: RecordGrowth_def Let_def tr_def)
  ultimately show ?thesis using g(2) by blast
qed

lemma Ensure_ok:
  assumes K: "kernel_ok (sys_cfg cfg)" and S: "sys_ok (sys ms)" and root: "root_3 pm \<noteq> None"
    and n: "0 < unat n" "unat start + unat n \<le> 2 ^ 52"
  shows "\<exists>ok pm' ms'. PageMap3_Ensure (MetaDataAlloc (sys_cfg cfg)) PM_BITS start n pm ms = Some (ok, pm', ms') \<and>
    root_3 pm' \<noteq> None \<and> sys_step ms ms' \<and> extends_zero (PageMap3_get PM_BITS pm) (PageMap3_get PM_BITS pm') \<and>
    (ok \<longrightarrow> (\<forall>k. start \<le> k \<and> k \<le> start + n - 1 \<longrightarrow> PageMap3_get PM_BITS pm' k \<noteq> None))"
proof -
  let ?P = "\<lambda>m. sys_ok (sys m) \<and> bytes_mapped ms \<subseteq> bytes_mapped m"
  have "\<exists>ok pm' ms'. PageMap3_Ensure (MetaDataAlloc (sys_cfg cfg)) PM_BITS start n pm ms = Some (ok, pm', ms')
    \<and> root_3 pm' \<noteq> None \<and> ?P ms' \<and> extends_zero (PageMap3_get PM_BITS pm) (PageMap3_get PM_BITS pm')
    \<and> (ok \<longrightarrow> (\<forall>k. start \<le> k \<and> k \<le> start + n - 1 \<longrightarrow> PageMap3_get PM_BITS pm' k \<noteq> None))"
  proof (rule PageMap3_Ensure_inv [OF _ _ root n(1)])
    show "2 \<le> PM_BITS" "PM_BITS \<le> 60" "unat start + unat n \<le> 2 ^ PM_BITS"
      using n(2) by (simp_all add: PM_BITS_def kPageShift_def)
    show "?P ms" using S by simp
    fix b m assume b: "b \<in> node_sizes PM_BITS" and m: "?P m"
    have "unat b < 2 ^ 60"
      using b by (auto simp: node_sizes_def PM_BITS_def kPageShift_def INTERIOR_BITS_def LEAF_BITS_3_def)
    then show "?P (snd (MetaDataAlloc (sys_cfg cfg) b m))"
      using MetaDataAlloc_ok [OF K _ _ prod.collapse [symmetric], of m b] m by (auto simp: sys_step_def)
  qed
  then show ?thesis using S by (auto simp: sys_step_def)
qed

text \<open>What \<open>GrowHeap\<close> promises; \<open>k\<close> pages were asked for.\<close>

definition grown :: "sref set \<Rightarrow> nat set \<Rightarrow> nat \<Rightarrow> 'a page_heap_scheme \<Rightarrow> bool \<Rightarrow> 'a page_heap_scheme \<Rightarrow>
    (sref \<Rightarrow> sref list) \<Rightarrow> nat set \<Rightarrow> bool" where
  "grown A P k h b h' fl' P' \<longleftrightarrow> ph_inv h' A fl' P' \<and> free_pages h' = word_of_nat (free_sum h' fl') \<and> P \<subseteq> P' \<and>
     ph_frame A h h' \<and> unat (system_bytes h') \<le> unat (system_bytes h) + 4096 * k \<and>
     (b \<longrightarrow> (\<exists>s\<in>frees fl'. k \<le> sln (spans_of h') s)) \<and>
     (\<forall>j. pha_room sizeof_Span (span_allocator h) (Suc j) \<longrightarrow> pha_room sizeof_Span (span_allocator h') j)"

lemma extends_zero_pmap:
  assumes "extends_zero (PageMap3_get PM_BITS (pagemap h)) (PageMap3_get PM_BITS pm)"
  shows "pmap (h\<lparr>pagemap := pm\<rparr>) k = pmap h k \<or> pmap h k = None \<and> pmap (h\<lparr>pagemap := pm\<rparr>) k = Some Null"
  using assms unfolding extends_zero_def pmap_def GetDescriptor_def pagemap_get_def
  by (auto simp: zero_sref_def)

lemma GrowHeap_map_ok:
  assumes K: "kernel_ok (sys_cfg cfg)" and I: "ph_inv h A fl P" and fp: "free_pages h = word_of_nat (free_sum h fl)"
    and p: "p = unat (drop_bit kPageShift ptr)" "1 \<le> p" "p + unat ask < 2 ^ 35" "1 \<le> unat ask"
    and M: "mem_ok h (addrs (A \<union> frees fl)) (P \<union> {p..<p + unat ask})" and fresh: "{p..<p + unat ask} \<inter> P = {}"
    and lim: "unat (system_bytes h) + 4096 * unat ask \<le> 4096 * kMaxHeapPages"
  shows "GrowHeap_map cfg ptr ask h = None \<and>
      \<not> (pha_room sizeof_Span (span_allocator h) 1 \<and> pha_room sizeof_StackTrace (stacktrace_allocator h) 1) \<or>
    (\<exists>b h' fl' P'. GrowHeap_map cfg ptr ask h = Some (b, h') \<and> grown A P (unat ask) h b h' fl' P')"
proof -
  let ?g = "push_bit kPageShift ask" and ?p = "drop_bit kPageShift ptr"
  let ?N = "{p..<p + unat ask}" and ?L = "A \<union> frees fl"
  note ok = ph_invD(1) [OF I] and T = ph_invD(2) [OF I] and C = ph_invD(3) [OF I]
  have a9: "unat ask \<le> 1000000000" and l9: "unat (system_bytes h) + 4096 * unat ask \<le> 4096000000000"
    using lim by (simp_all add: kMaxHeapPages_def)
  have gn: "unat ?g = 4096 * unat ask"
    using unat_push_bit_no_wrap [of ask 12] a9 by (simp add: kPageShift_def)
  consider (abort) "RecordGrowth cfg ?g h = None" "\<not> pha_room sizeof_StackTrace (stacktrace_allocator h) 1"
    | (go) h1 a ms tr where "RecordGrowth cfg ?g h = Some h1" "mem_ok h1 (addrs ?L) (P \<union> ?N)" "sys_step (meta h) ms"
      "h1 = h\<lparr>stacktrace_allocator := a, meta := ms, trace_calls := Suc (trace_calls h), traces := tr\<rparr>"
    using RecordGrowth_ok [OF K M, of ?g] by (elim disjE conjE exE) metis+
  then show ?thesis
  proof cases
    case abort
    then show ?thesis by (simp add: GrowHeap_map_def)
  next
    case go
    define h2 where "h2 = h1\<lparr>system_bytes := system_bytes h1 + ?g\<rparr>"
    have "unat (system_bytes h) + unat ?g < 2 ^ 64" using l9 unfolding gn by simp
    then have sb: "unat (system_bytes h2) = unat (system_bytes h) + 4096 * unat ask"
      by (simp add: h2_def go(4) unat_plus_no_wrap gn)
    have M2: "mem_ok h2 (addrs ?L) (P \<union> ?N)" using go(2) unfolding mem_ok_def by (simp add: h2_def)
    have S2: "sys_ok (sys (meta h2))" using M2 by (simp add: mem_ok_def)
    have r2: "root_3 (pagemap h2) \<noteq> None" using ph_invD(5) [OF I] by (simp add: h2_def go(4))
    have pw: "?p = word_of_nat p" unfolding p(1) by simp
    have start: "unat (?p - 1) = p - 1" using p(1,2) by (simp add: unat_minus_no_wrap)
    have num: "unat (ask + 2) = unat ask + 2" using a9 unat_plus_no_wrap [of ask 2] by simp
    have "0 < unat (ask + 2)" "unat (?p - 1) + unat (ask + 2) \<le> 2 ^ 52" using p(2,3) unfolding start num by simp_all
    from Ensure_ok [OF K S2 r2 this] obtain b pm ms' where e: "PageMap3_Ensure (MetaDataAlloc (sys_cfg cfg)) PM_BITS (?p - 1) (ask + 2) (pagemap h2) (meta h2) = Some (b, pm, ms')"
      "root_3 pm \<noteq> None" "sys_step (meta h2) ms'" "extends_zero (PageMap3_get PM_BITS (pagemap h2)) (PageMap3_get PM_BITS pm)"
      "b \<longrightarrow> (\<forall>k. ?p - 1 \<le> k \<and> k \<le> ?p - 1 + (ask + 2) - 1 \<longrightarrow> PageMap3_get PM_BITS pm k \<noteq> None)"
      by blast
    define h3 where "h3 = h2\<lparr>pagemap := pm, meta := ms'\<rparr>"
    have M3: "mem_ok h3 (addrs ?L) (P \<union> ?N)"
      using mem_ok_meta [OF M2 e(3)] unfolding mem_ok_def by (simp add: h3_def)
    have s3: "spans_of h3 = spans_of h" by (simp add: h3_def h2_def go(4))
    have p3: "pmap h3 k = pmap h k \<or> pmap h k = None \<and> pmap h3 k = Some Null" for k
    proof -
      have "pmap h3 = pmap (h2\<lparr>pagemap := pm\<rparr>)" "pmap h2 = pmap h"
        by (rule pmap_cong; simp add: h3_def h2_def go(4))+
      then show ?thesis using extends_zero_pmap [OF e(4), of k] by simp
    qed
    have same3: "pmap h3 k = pmap h k" if "pmap h k \<noteq> None" for k using p3 [of k] that by auto
    have T3: "tiling (spans_of h) (pmap h3) ?L P"
    proof -
      have t: "pmap h3 (sst (spans_of h) x) = Some x" "pmap h3 (sst (spans_of h) x + sln (spans_of h) x - 1) = Some x"
        "sst (spans_of h) x - 1 \<le> k \<Longrightarrow> k \<le> sst (spans_of h) x + sln (spans_of h) x \<Longrightarrow> pmap h3 k \<noteq> None" if x: "x \<in> ?L" for x k
        using tilingD(3,4) [OF T x] tilingD(5) [OF T x, of k] same3 [of k] same3 [of "sst (spans_of h) x"]
          same3 [of "sst (spans_of h) x + sln (spans_of h) x - 1"] by auto
      have own: "k \<in> P" if "pmap h3 k = Some d" "d \<noteq> Null" for k d
      proof -
        have "pmap h k = Some d" using p3 [of k] that by simp
        then show ?thesis using tiling_parts(3) [OF T] that(2) by blast
      qed
      show ?thesis
        unfolding tiling_def
        by (rule conjI [OF tiling_finite(1) [OF T] conjI [OF tiling_finite(3) [OF T] conjI [OF tiling_parts(1) [OF T] conjI [OF _ conjI [OF tiling_parts(2) [OF T]]]]]])
          (use t own tilingD(1,2) [OF T] in blast)+
    qed
    have I3: "ph_inv h3 A fl P"
    proof -
      have "mem_ok h3 (addrs ?L) P"
      proof -
        have "page_bytes P \<subseteq> page_bytes (P \<union> ?N)" by (auto simp: page_bytes_def)
        then show ?thesis using M3 unfolding mem_ok_def by blast
      qed
      then show ?thesis using I T3 e(2) lim sb unfolding ph_inv_def s3 by (simp add: h3_def)
    qed
    have f3: "ph_frame A h h3"
    proof -
      have "pmap h3 k = pmap h k" if "x \<in> A" "k \<in> pages_of (spans_of h) x" for x k
        by (rule same3) (use tilingD(5) [OF T, of x k] that in \<open>auto simp: pages_of_def\<close>)
      then show ?thesis unfolding ph_frame_def s3 by (simp add: h3_def h2_def go(4))
    qed
    have fs3: "free_sum h3 fl = free_sum h fl" by (simp add: free_sum_def s3)
    have fp3: "free_pages h3 = free_pages h" by (simp add: h3_def h2_def go(4))
    have al3: "span_allocator h3 = span_allocator h" by (simp add: h3_def h2_def go(4))
    have p0: "?p > 0" using p(1,2) by (simp add: word_less_nat_alt)
    have run3: "GrowHeap_map cfg ptr ask h = (if b then Option.bind (NewSpan cfg ?p ask h3) (\<lambda>(s, h).
        Option.bind (RecordSpan s h) (\<lambda>h. Option.bind (PH_Delete s h) (\<lambda>h. Option.bind (PH_Check h) (\<lambda>_. Some (True, h)))))
      else Some (False, h3))"
      unfolding GrowHeap_map_def go(1) Let_def
      using p0 e(1) by (simp add: PageMap3_PreallocateMoreMemory_def h3_def h2_def)
    show ?thesis
    proof (cases b)
      case False
      have "grown A P (unat ask) h False h3 fl P"
        using I3 f3 fp fs3 fp3 sb al3 pha_room_Suc by (auto simp: grown_def h3_def)
      then show ?thesis using run3 False by auto
    next
      case True
      show ?thesis
      proof (cases "PHA_New (sys_cfg cfg) sizeof_Span (span_allocator h3) (meta h3)")
        case None
        then have "\<not> pha_room sizeof_Span (span_allocator h) 1"
          using PHA_New_room [OF _ object_size_Span, of "span_allocator h3" 0 "sys_cfg cfg" "meta h3"] al3 by auto
        moreover have "NewSpan cfg ?p ask h3 = None" using None by (simp add: NewSpan_def)
        ultimately show ?thesis using run3 True by simp
      next
        case (Some res)
        obtain r al ms4 where pn: "PHA_New (sys_cfg cfg) sizeof_Span (span_allocator h3) (meta h3) = Some (r, al, ms4)"
          using Some by (cases res) auto
        let ?z = "zero_span\<lparr>span_start := ?p, span_length := ask\<rparr>"
        define \<sigma>4 where "\<sigma>4 = (spans_of h)(Obj r := ?z)"
        define h4 where "h4 = h3\<lparr>span_allocator := al, meta := ms4, spans_of := \<sigma>4\<rparr>"
        obtain c4: "NewSpan cfg ?p ask h3 = Some (Obj r, h4)" and rU: "r \<notin> addrs ?L"
          and M4: "mem_ok (h3\<lparr>span_allocator := al, meta := ms4\<rparr>) (insert r (addrs ?L)) (P \<union> ?N)"
          using NewSpan_ok [OF K M3 pn, of ?p ask] unfolding h4_def \<sigma>4_def s3 by blast
        have lo: "Obj r \<notin> ?L" using rU by (simp add: addrs_def)
        have z: "sst \<sigma>4 (Obj r) = p" "sln \<sigma>4 (Obj r) = unat ask" by (simp_all add: sst_def sln_def \<sigma>4_def p(1))
        have pz: "pages_of \<sigma>4 (Obj r) = ?N" by (simp add: pages_of_def z)
        have s4: "spans_of h4 = \<sigma>4" by (simp add: h4_def)
        have p4: "pmap h4 = pmap h3" by (rule pmap_cong) (simp add: h4_def)
        have def3: "pmap h3 k \<noteq> None" if k: "p - 1 \<le> k" "k \<le> p + unat ask" for k
        proof -
          have k35: "k < 2 ^ 35" using k(2) p(3) by simp
          have "k < 2 ^ LENGTH(64)" by (rule less_trans [OF k35]) simp
          then have uk: "unat (word_of_nat k :: u64) = k" by (rule of_nat_inverse [OF refl])
          have "?p - 1 \<le> word_of_nat k" using k(1) unfolding word_le_nat_alt start uk .
          moreover have "?p - 1 + (ask + 2) - 1 = ?p + ask" by simp
          moreover have "word_of_nat k \<le> ?p + ask"
          proof -
            have "unat (?p + ask) = p + unat ask"
              using p(3) by (subst unat_plus_no_wrap) (simp_all add: p(1))
            then show ?thesis using k(2) unfolding word_le_nat_alt uk by simp
          qed
          ultimately have "PageMap3_get PM_BITS pm (word_of_nat k) \<noteq> None" using e(5) True by metis
          then show ?thesis using k35 by (simp add: pmap_def GetDescriptor_def pagemap_get_def h3_def)
        qed
        have root4: "root_3 (pagemap h4) \<noteq> None" using e(2) by (simp add: h4_def h3_def)
        have "1 \<le> sln (spans_of h4) (Obj r)" "pmap h4 (sst (spans_of h4) (Obj r)) \<noteq> None"
          "pmap h4 (sst (spans_of h4) (Obj r) + sln (spans_of h4) (Obj r) - 1) \<noteq> None"
          unfolding s4 z p4 using p(4) def3 by simp_all
        from RecordSpan_ok [OF _ this root4] obtain pm5 where c5: "RecordSpan (Obj r) h4 = Some (h4\<lparr>pagemap := pm5\<rparr>)" and
          root5: "root_3 pm5 \<noteq> None" and p5: "pmap (h4\<lparr>pagemap := pm5\<rparr>) = (pmap h3)(p := Some (Obj r), p + unat ask - 1 := Some (Obj r))"
          unfolding s4 z p4 by auto
        define h5 where "h5 = h4\<lparr>pagemap := pm5\<rparr>"
        have s5: "spans_of h5 = \<sigma>4" by (simp add: h5_def h4_def)
        have p5': "pmap h5 = (pmap h3)(p := Some (Obj r), p + unat ask - 1 := Some (Obj r))" using p5 by (simp add: h5_def)
        have in_N: "p \<in> ?N" "p + unat ask - 1 \<in> ?N" using p(4) by auto
        have T5: "tiling \<sigma>4 (pmap h5) (insert (Obj r) ?L) (P \<union> ?N)"
        proof -
          have "tiling \<sigma>4 (pmap h5) (insert (Obj r) ?L) (P \<union> pages_of \<sigma>4 (Obj r))"
          proof (rule tiling_extend [OF T3 lo])
            show "pages_of \<sigma>4 (Obj r) \<inter> P = {}" unfolding pz by (rule fresh)
            show "1 \<le> sln \<sigma>4 (Obj r)" "1 \<le> sst \<sigma>4 (Obj r)" using p(2,4) by (simp_all add: z)
            show "sst \<sigma>4 x = sst (spans_of h) x \<and> sln \<sigma>4 x = sln (spans_of h) x" if "x \<in> ?L" for x
            proof -
              have "x \<noteq> Obj r" using that lo by blast
              then show ?thesis by (simp add: \<sigma>4_def sst_def sln_def)
            qed
            show "pmap h5 (sst \<sigma>4 (Obj r)) = Some (Obj r)" "pmap h5 (sst \<sigma>4 (Obj r) + sln \<sigma>4 (Obj r) - 1) = Some (Obj r)"
              by (simp_all add: z p5')
            show "pmap h5 k \<noteq> None" if "sst \<sigma>4 (Obj r) - 1 \<le> k" "k \<le> sst \<sigma>4 (Obj r) + sln \<sigma>4 (Obj r)" for k
              using def3 [of k] that unfolding z by (simp add: p5')
            show "pmap h5 k \<noteq> None" if "k \<in> pages_of \<sigma>4 (Obj r)" for k
            proof -
              have "p - 1 \<le> k" "k \<le> p + unat ask" using that unfolding pz by auto
              then show ?thesis using def3 [of k] by (simp add: p5')
            qed
            show "pmap h5 k = Some v" if "k \<notin> pages_of \<sigma>4 (Obj r)" "pmap h3 k = Some v" for k v
              using that in_N unfolding pz by (auto simp: p5')
            show "pmap h5 k = None \<or> pmap h5 k = Some Null" if "k \<notin> pages_of \<sigma>4 (Obj r)" "pmap h3 k = None" for k
              using that in_N unfolding pz by (auto simp: p5')
          qed simp
          then show ?thesis unfolding pz .
        qed
        have keep: "\<sigma>4 y = spans_of h y" if "y \<noteq> Obj r" for y using that by (simp add: \<sigma>4_def)
        have lof: "Obj r \<notin> frees fl" "Obj r \<notin> A" using lo by auto
        have keepf: "\<sigma>4 y = spans_of h y" if "y \<in> frees fl \<or> y \<in> heads" for y by (rule keep) (use that lof in auto)
        have ok5: "lists_ok \<sigma>4 fl" by (rule lists_ok_cong [OF ok keepf])
        have C5: "coloring \<sigma>4 (insert (Obj r) A) (frees fl)"
        proof -
          have "\<not> span_free (\<sigma>4 y)" if "y \<in> insert (Obj r) A" for y
            using that C by (cases "y = Obj r") (auto simp: \<sigma>4_def zero_span_def coloring_def)
          then show ?thesis using C keepf unfolding coloring_def sst_def sln_def by simp
        qed
        have addr: "insert r (addrs ?L) = addrs (insert (Obj r) A \<union> frees fl)" by (auto simp: addrs_def)
        have M5: "mem_ok h5 (addrs (insert (Obj r) A \<union> frees fl)) (P \<union> ?N)"
          using M4 unfolding addr mem_ok_def by (simp add: h5_def h4_def)
        have fin: "finite P" by (rule tiling_finite(2) [OF T])
        have card: "card (P \<union> ?N) = card P + unat ask"
          using card_Un_disjoint [OF fin, of ?N] fresh by (simp add: Int_commute)
        have sb5: "system_bytes h5 = system_bytes h2" by (simp add: h5_def h4_def h3_def)
        have I5: "ph_inv h5 (insert (Obj r) A) fl (P \<union> ?N)"
          unfolding ph_inv_def s5 sb5 card
          using ok5 T5 C5 M5 root5 sb lim ph_invD(6) [OF I] by (simp add: h5_def)
        have nul: "span_next (spans_of h5 (Obj r)) = Null" "span_prev (spans_of h5 (Obj r)) = Null"
          by (simp_all add: s5 \<sigma>4_def zero_span_def)
        obtain h6 fl6 where d: "PH_Delete (Obj r) h5 = Some h6" "ph_inv h6 (insert (Obj r) A - {Obj r}) fl6 (P \<union> ?N)"
          "free_pages h6 = free_pages h5 + span_length (spans_of h5 (Obj r))"
          "free_sum h6 fl6 = free_sum h5 fl + sln (spans_of h5) (Obj r)" "Obj r \<in> frees fl6"
          "sln (spans_of h5) (Obj r) \<le> sln (spans_of h6) (Obj r)" "ph_frame (insert (Obj r) A - {Obj r}) h5 h6" "del_same h5 h6"
          using Delete_inv [OF I5 _ nul] by blast
        have A: "insert (Obj r) A - {Obj r} = A" using lof(2) by simp
        have I6: "ph_inv h6 A fl6 (P \<union> ?N)" using d(2) unfolding A .
        have run: "GrowHeap_map cfg ptr ask h = Some (True, h6)"
          unfolding run3 using True c4 c5 d(1) ph_inv_Check [OF I6] by (simp add: h5_def [symmetric])
        have f5: "ph_frame A h3 h5"
        proof -
          have "spans_of h5 x = spans_of h3 x" if "x \<in> A \<or> (x \<notin> range Obj \<and> x \<notin> heads)" for x
            unfolding s5 s3 by (rule keep) (use that lof in auto)
          moreover have "pmap h5 k = pmap h3 k" if "x \<in> A" "k \<in> pages_of (spans_of h3) x" for x k
          proof -
            have "k \<in> P" using that tilingD(7) [OF T, of x] unfolding s3 by blast
            then have "k \<notin> ?N" using fresh by blast
            then show ?thesis using in_N by (auto simp: p5')
          qed
          ultimately show ?thesis unfolding ph_frame_def by (simp add: h5_def h4_def)
        qed
        have fr: "ph_frame A h h6" using ph_frame_trans [OF ph_frame_trans [OF f3 f5]] d(7) unfolding A by blast
        have "free_sum h5 fl = free_sum h fl"
          unfolding free_sum_def s5 by (rule sum.cong) (simp_all add: keepf sln_def)
        then have fp6: "free_pages h6 = word_of_nat (free_sum h6 fl6)"
          unfolding d(3,4) using fp fp3 by (simp add: s5 sln_def \<sigma>4_def h5_def h4_def)
        have sb6: "system_bytes h6 = system_bytes h2" using d(8) sb5 by (simp add: del_same_def)
        have "pha_room sizeof_Span (span_allocator h6) j" if "pha_room sizeof_Span (span_allocator h) (Suc j)" for j
          using d(8) new_room [OF _ pn, of j] that al3 by (simp add: del_same_def h5_def h4_def)
        moreover have "unat ask \<le> sln (spans_of h6) (Obj r)" using d(6) unfolding s5 z .
        ultimately have "grown A P (unat ask) h True h6 fl6 (P \<union> ?N)"
          using I6 fp6 fr d(5) sb unfolding grown_def sb6 by auto
        then show ?thesis using run by blast
      qed
    qed
  qed
qed

lemma ph_inv_meta:
  assumes I: "ph_inv h A fl P" and st: "sys_step (meta h) ms"
  shows "ph_inv (h\<lparr>meta := ms\<rparr>) A fl P"
  using I mem_ok_meta [OF ph_invD(4) [OF I] st] unfolding ph_inv_def by simp

lemma kMinSystemAlloc_256: "unat kMinSystemAlloc = 256"
  by (simp add: kMinSystemAlloc_def kPageShift_def)

definition rooms :: "'a page_heap_scheme \<Rightarrow> bool" where
  "rooms h \<longleftrightarrow> pha_room sizeof_Span (span_allocator h) 1 \<and> pha_room sizeof_StackTrace (stacktrace_allocator h) 1"

text \<open>One request to the system, of \<open>ask\<close> pages.\<close>

lemma ask_system:
  assumes K: "kernel_ok (sys_cfg cfg)" and I: "ph_inv h A fl P" and fp: "free_pages h = word_of_nat (free_sum h fl)"
    and ask: "1 \<le> unat ask" "unat (system_bytes h) + 4096 * unat ask \<le> 4096 * kMaxHeapPages"
    and run: "sys_alloc cfg (push_bit kPageShift ask) kPageSize h = (ptr, h1)"
  shows "grown A P (unat ask) h False h1 fl P \<and> system_bytes h1 = system_bytes h \<and> rooms h1 = rooms h \<and>
    (ptr \<noteq> 0 \<longrightarrow> GrowHeap_map cfg ptr ask h1 = None \<and> \<not> rooms h \<or>
      (\<exists>b h' fl' P'. GrowHeap_map cfg ptr ask h1 = Some (b, h') \<and> grown A P (unat ask) h b h' fl' P'))"
proof -
  have le: "unat ask \<le> kMaxHeapPages" using ask(2) by simp
  obtain ms where h1: "h1 = h\<lparr>meta := ms\<rparr>" "sys_step (meta h) ms" and
    res: "ptr \<noteq> 0 \<longrightarrow> (let p = unat (drop_bit kPageShift ptr) in
      1 \<le> p \<and> p + unat ask < 2 ^ 35 \<and> mem_ok h1 (addrs (A \<union> frees fl)) (P \<union> {p..<p + unat ask}) \<and> {p..<p + unat ask} \<inter> P = {})"
    using sys_alloc_ok [OF K ph_invD(4) [OF I] ask(1) le run] by blast
  have I1: "ph_inv h1 A fl P" unfolding h1(1) by (rule ph_inv_meta [OF I h1(2)])
  have fs: "free_sum h1 fl = free_sum h fl" by (simp add: free_sum_def h1(1))
  have f1: "ph_frame A h h1" by (simp add: ph_frame_def h1(1))
  have g1: "grown A P (unat ask) h False h1 fl P"
    using I1 f1 fp fs pha_room_Suc by (auto simp: grown_def h1(1))
  have r: "rooms h1 = rooms h" by (simp add: rooms_def h1(1))
  have "GrowHeap_map cfg ptr ask h1 = None \<and> \<not> rooms h \<or>
      (\<exists>b h' fl' P'. GrowHeap_map cfg ptr ask h1 = Some (b, h') \<and> grown A P (unat ask) h b h' fl' P')" if nz: "ptr \<noteq> 0"
  proof -
    let ?p = "unat (drop_bit kPageShift ptr)"
    have q: "1 \<le> ?p" "?p + unat ask < 2 ^ 35" "mem_ok h1 (addrs (A \<union> frees fl)) (P \<union> {?p..<?p + unat ask})"
      "{?p..<?p + unat ask} \<inter> P = {}"
      using res nz unfolding Let_def by blast+
    have fp1: "free_pages h1 = word_of_nat (free_sum h1 fl)" using fp fs by (simp add: h1(1))
    have lim: "unat (system_bytes h1) + 4096 * unat ask \<le> 4096 * kMaxHeapPages" using ask(2) by (simp add: h1(1))
    from GrowHeap_map_ok [OF K I1 fp1 refl q(1,2) ask(1) q(3,4) lim]
    consider "GrowHeap_map cfg ptr ask h1 = None" "\<not> rooms h1"
      | b h' fl' P' where "GrowHeap_map cfg ptr ask h1 = Some (b, h')" "grown A P (unat ask) h1 b h' fl' P'"
      unfolding rooms_def by (elim disjE conjE exE) metis+
    then show ?thesis
    proof cases
      case 1 then show ?thesis using r by simp
    next
      case 2
      have "grown A P (unat ask) h b h' fl' P'"
        using 2(2) ph_frame_trans [OF f1] unfolding grown_def by (simp add: h1(1))
      then show ?thesis using 2(1) by blast
    qed
  qed
  then show ?thesis using g1 r by (simp add: h1(1))
qed

lemma GrowHeap_ok:
  assumes K: "kernel_ok (sys_cfg cfg)" and I: "ph_inv h A fl P" and fp: "free_pages h = word_of_nat (free_sum h fl)"
    and n: "1 \<le> unat n" and lim: "unat (system_bytes h) + 4096 * max (unat n) 256 \<le> 4096 * kMaxHeapPages"
  shows "GrowHeap cfg n h = None \<and> \<not> rooms h \<or>
    (\<exists>b h' fl' P' k. GrowHeap cfg n h = Some (b, h') \<and> unat n \<le> k \<and> k \<le> max (unat n) 256 \<and> grown A P k h b h' fl' P')"
proof -
  define ask where "ask = (if n > kMinSystemAlloc then n else kMinSystemAlloc)"
  have ua: "unat ask = max (unat n) 256"
    by (simp add: ask_def word_less_nat_alt kMinSystemAlloc_256 max_def)
  obtain ptr h1 where s1: "sys_alloc cfg (push_bit kPageShift ask) kPageSize h = (ptr, h1)" by fastforce
  have a1: "1 \<le> unat ask" "unat (system_bytes h) + 4096 * unat ask \<le> 4096 * kMaxHeapPages" using n lim by (simp_all add: ua)
  note A1 = ask_system [OF K I fp a1 s1]
  obtain ptr2 h2 where s2: "sys_alloc cfg (push_bit kPageShift n) kPageSize h1 = (ptr2, h2)" by fastforce
  have run: "GrowHeap cfg n h = (if ptr = 0 then
       if n < ask then if ptr2 = 0 then Some (False, h2) else GrowHeap_map cfg ptr2 n h2
       else Some (False, h1)
     else GrowHeap_map cfg ptr ask h1)"
    unfolding GrowHeap_def Let_def ask_def [symmetric] s1
    by (simp add: s2 kMaxPages_def)
  show ?thesis
  proof (cases "ptr = 0")
    case False
    have R: "GrowHeap cfg n h = GrowHeap_map cfg ptr ask h1" using run False by simp
    have k: "unat n \<le> unat ask" "unat ask \<le> max (unat n) 256" by (simp_all add: ua)
    show ?thesis using A1 False k unfolding R by blast
  next
    case True
    show ?thesis
    proof (cases "n < ask")
      case False
      have R: "GrowHeap cfg n h = Some (False, h1)" using run True False by simp
      have "grown A P (unat ask) h False h1 fl P" using A1 by blast
      moreover have "unat n \<le> unat ask" "unat ask \<le> max (unat n) 256" by (simp_all add: ua)
      ultimately show ?thesis using R by blast
    next
      case lt: True
      have I1: "ph_inv h1 A fl P" and fp1: "free_pages h1 = word_of_nat (free_sum h1 fl)" using A1 by (auto simp: grown_def)
      have "unat (system_bytes h) + 4096 * unat n \<le> unat (system_bytes h) + 4096 * max (unat n) 256" by simp
      then have a2: "unat (system_bytes h1) + 4096 * unat n \<le> 4096 * kMaxHeapPages" using lim A1 by simp
      note A2 = ask_system [OF K I1 fp1 n a2 s2]
      have lift: "grown A P (unat n) h b h' fl' P'" if g: "grown A P (unat n) h1 b h' fl' P'" for b h' fl' P'
      proof -
        have "ph_frame A h h1" using A1 by (simp add: grown_def)
        then have "ph_frame A h h'" using g ph_frame_trans unfolding grown_def by blast
        moreover have "span_allocator h1 = span_allocator h"
          using s1 by (auto simp: sys_alloc_def split: prod.splits)
        ultimately show ?thesis using g A1 unfolding grown_def by simp
      qed
      have R: "GrowHeap cfg n h = (if ptr2 = 0 then Some (False, h2) else GrowHeap_map cfg ptr2 n h2)"
        using run True lt by simp
      have rm: "rooms h1 = rooms h" using A1 by blast
      have out: "GrowHeap cfg n h = None \<and> \<not> rooms h \<or>
          (\<exists>b h' fl' P'. GrowHeap cfg n h = Some (b, h') \<and> grown A P (unat n) h b h' fl' P')"
        using A2 R lift rm by (cases "ptr2 = 0") (simp_all, blast+)
      then show ?thesis using le_refl [of "unat n"] max.cobounded1 [of "unat n" 256] by blast
    qed
  qed
qed

section \<open>\<open>New\<close>\<close>

text \<open>
  The result of \<open>New\<close>: a span of exactly \<open>n\<close> pages, not in use before and not overlapping any
  span in use, unlinked, unsampled and without a size class; nothing the callers own has changed.
\<close>

definition allocated :: "sref set \<Rightarrow> nat set \<Rightarrow> nat \<Rightarrow> 'a page_heap_scheme \<Rightarrow> sref \<Rightarrow> 'a page_heap_scheme \<Rightarrow> nat set \<Rightarrow> bool" where
  "allocated A P n h s h' P' \<longleftrightarrow> s \<noteq> Null \<and> s \<notin> A \<and> ph_ok h' (insert s A) P' \<and> P \<subseteq> P' \<and> ph_frame A h h' \<and>
     sln (spans_of h') s = n \<and> span_next (spans_of h' s) = Null \<and> span_prev (spans_of h' s) = Null \<and>
     span_sizeclass (spans_of h' s) = 0 \<and> \<not> span_sample (spans_of h' s)"

lemma New_take_ok:
  assumes K: "kernel_ok (sys_cfg cfg)" and I: "ph_inv h A fl P" and fp: "free_pages h = word_of_nat (free_sum h fl)"
    and s: "s \<in> frees fl" and n: "0 < n" "unat n \<le> sln (spans_of h) s"
  shows "New_take cfg s n h = None \<and> \<not> pha_room sizeof_Span (span_allocator h) 1 \<or>
    (\<exists>h'. New_take cfg s n h = Some (s, h') \<and> allocated A P (unat n) h s h' P \<and> sst (spans_of h') s = sst (spans_of h) s)"
proof -
  consider "Carve cfg s n h = None" "\<not> pha_room sizeof_Span (span_allocator h) 1"
    | h1 fl1 where "Carve cfg s n h = Some h1" "carved A P s (unat n) h fl h1 fl1"
    using Carve_ok [OF K I s n] by (elim disjE conjE exE) metis+
  then show ?thesis
  proof cases
    case 1 then show ?thesis by (simp add: New_take_def)
  next
    case 2
    have I1: "ph_inv h1 (insert s A) fl1 P" and fs: "free_sum h1 fl1 + unat n = free_sum h fl"
      and fp1: "free_pages h1 = free_pages h" using 2(2) by (simp_all add: carved_def)
    let ?h' = "h1\<lparr>free_pages := free_pages h1 - n\<rparr>"
    have "ph_inv ?h' (insert s A) fl1 P" using I1 unfolding ph_inv_def mem_ok_def by simp
    moreover have "free_pages ?h' = word_of_nat (free_sum ?h' fl1)"
    proof -
      have "word_of_nat (free_sum h fl) = (word_of_nat (free_sum h1 fl1) + n :: u64)"
        unfolding fs [symmetric] by simp
      then show ?thesis using fp fp1 by (simp add: free_sum_def)
    qed
    ultimately have ok: "ph_ok ?h' (insert s A) P" unfolding ph_ok_def by blast
    have sN: "s \<noteq> Null" "s \<notin> A" using frees_Obj [OF ph_invD(1) [OF I]] s ph_inv_disjoint [OF I] by auto
    have "ph_frame A h ?h'" using 2(2) by (simp add: carved_def ph_frame_def)
    then have "allocated A P (unat n) h s ?h' P" using 2(2) ok sN by (simp add: allocated_def carved_def)
    moreover have "New_take cfg s n h = Some (s, ?h')"
      using 2(1) ph_inv_Check [OF I1] by (simp add: New_take_def)
    moreover have "sst (spans_of ?h') s = sst (spans_of h) s" using 2(2) by (simp add: carved_def)
    ultimately show ?thesis by blast
  qed
qed

lemma New_large_ok:
  assumes K: "kernel_ok (sys_cfg cfg)" and I: "ph_inv h A fl P" and fp: "free_pages h = word_of_nat (free_sum h fl)"
    and n: "0 < n"
  obtains b where "best_fit (spans_of h) n (span_next (spans_of h LargeHead)) Null = Some b"
    "fits (spans_of h) n (set (fl LargeHead)) b"
    "b = Null \<Longrightarrow> New_large cfg n h = Some (Null, h)"
    "b \<noteq> Null \<Longrightarrow> New_large cfg n h = None \<and> \<not> pha_room sizeof_Span (span_allocator h) 1 \<or>
      (\<exists>h'. New_large cfg n h = Some (b, h') \<and> allocated A P (unat n) h b h' P \<and> sst (spans_of h') b = sst (spans_of h) b)"
proof -
  obtain b where b: "best_fit (spans_of h) n (span_next (spans_of h LargeHead)) Null = Some b"
    "fits (spans_of h) n (set (fl LargeHead)) b"
    using best_fit_large [OF ph_invD(1) [OF I]] by blast
  have nul: "New_large cfg n h = Some (Null, h)" if "b = Null"
    using b(1) that by (simp add: New_large_def)
  have "New_large cfg n h = None \<and> \<not> pha_room sizeof_Span (span_allocator h) 1 \<or>
      (\<exists>h'. New_large cfg n h = Some (b, h') \<and> allocated A P (unat n) h b h' P \<and> sst (spans_of h') b = sst (spans_of h) b)"
    if nz: "b \<noteq> Null"
  proof -
    have "b \<in> set (fl LargeHead)" "unat n \<le> sln (spans_of h) b" using b(2) nz by (simp_all add: fits_def)
    moreover have "set (fl LargeHead) \<subseteq> frees fl" by (rule list_frees) (simp add: heads_def)
    ultimately have "b \<in> frees fl" "unat n \<le> sln (spans_of h) b" by blast+
    from New_take_ok [OF K I fp this(1) n this(2)] show ?thesis using b(1) nz by (simp add: New_large_def)
  qed
  with b nul show thesis by (rule that)
qed

text \<open>When a free span is long enough, \<open>New\<close> takes the best fit and does not grow the heap.\<close>

lemma New_fit_ok:
  assumes K: "kernel_ok (sys_cfg cfg)" and I: "ph_inv h A fl P" and fp: "free_pages h = word_of_nat (free_sum h fl)"
    and n: "0 < n" and ex: "t \<in> frees fl" "unat n \<le> sln (spans_of h) t"
  shows "PH_New cfg n h = None \<and> \<not> pha_room sizeof_Span (span_allocator h) 1 \<or>
    (\<exists>s h'. PH_New cfg n h = Some (s, h') \<and> allocated A P (unat n) h s h' P \<and> sst (spans_of h') s = sst (spans_of h) s \<and>
      s \<in> frees fl \<and> (\<forall>u\<in>frees fl. unat n \<le> sln (spans_of h) u \<longrightarrow> sln (spans_of h) s \<le> sln (spans_of h) u))"
proof -
  note ok = ph_invD(1) [OF I] and chk = ph_inv_Check [OF I]
  have n0: "n \<noteq> 0" using n by (simp add: word_gt_0)
  show ?thesis
  proof (cases "first_nonempty [unat n..<unat kMaxPages] (spans_of h)")
    case (Some m)
    let ?s = "span_next (spans_of h (FreeHead m))"
    have s: "?s \<in> frees fl" "sln (spans_of h) ?s = m" "unat n \<le> m" "\<forall>u\<in>frees fl. unat n \<le> sln (spans_of h) u \<longrightarrow> m \<le> sln (spans_of h) u"
      using small_first [OF ok Some] by blast+
    have R: "PH_New cfg n h = New_take cfg ?s n h" using chk n0 Some by (simp add: PH_New_def)
    have "unat n \<le> sln (spans_of h) ?s" using s(2,3) by simp
    from New_take_ok [OF K I fp s(1) n this] show ?thesis unfolding R using s(1,2,4) by auto
  next
    case None
    obtain b where b: "fits (spans_of h) n (set (fl LargeHead)) b"
      "b \<noteq> Null \<Longrightarrow> New_large cfg n h = None \<and> \<not> pha_room sizeof_Span (span_allocator h) 1 \<or>
      (\<exists>h'. New_large cfg n h = Some (b, h') \<and> allocated A P (unat n) h b h' P \<and> sst (spans_of h') b = sst (spans_of h) b)"
      by (rule New_large_ok [OF K I fp n]) (rule that)
    have f: "fits (spans_of h) n (frees fl) b" by (rule fits_frees [OF ok None b(1)])
    have bz: "b \<noteq> Null"
    proof
      assume "b = Null"
      then have "sln (spans_of h) t < unat n" using f ex(1) by (simp add: fits_def)
      then show False using ex(2) by simp
    qed
    have bf: "b \<in> frees fl" "\<forall>u\<in>frees fl. unat n \<le> sln (spans_of h) u \<longrightarrow> sln (spans_of h) b \<le> sln (spans_of h) u"
      using f bz by (simp_all add: fits_def)
    have R: "PH_New cfg n h = New_large cfg n h" if "New_large cfg n h = None \<or> (\<exists>h'. New_large cfg n h = Some (b, h'))"
      using that chk n0 None bz by (auto simp: PH_New_def)
    show ?thesis using b(2) [OF bz] R bf by auto
  qed
qed

lemma New_ok:
  assumes K: "kernel_ok (sys_cfg cfg)" and ok: "ph_ok h A P" and n: "0 < n"
    and lim: "unat (system_bytes h) + 4096 * max (unat n) 256 \<le> 4096 * kMaxHeapPages"
  shows "PH_New cfg n h = None \<and>
      \<not> (pha_room sizeof_Span (span_allocator h) 2 \<and> pha_room sizeof_StackTrace (stacktrace_allocator h) 1) \<or>
    (\<exists>s h' P'. PH_New cfg n h = Some (s, h') \<and>
      (s = Null \<and> ph_ok h' A P' \<and> P \<subseteq> P' \<and> ph_frame A h h' \<or> allocated A P (unat n) h s h' P'))"
proof -
  obtain fl where I: "ph_inv h A fl P" and fp: "free_pages h = word_of_nat (free_sum h fl)"
    using ok unfolding ph_ok_def by blast
  have n0: "n \<noteq> 0" using n by (simp add: word_gt_0)
  have n1: "1 \<le> unat n" using n by (simp add: word_less_nat_alt)
  have two: "pha_room sizeof_Span (span_allocator h) 1" if "pha_room sizeof_Span (span_allocator h) 2"
    using that pha_room_Suc [of _ _ 1] by (simp add: numeral_2_eq_2)
  show ?thesis
  proof (cases "\<exists>t\<in>frees fl. unat n \<le> sln (spans_of h) t")
    case True
    then show ?thesis using New_fit_ok [OF K I fp n] two by blast
  next
    case False
    have none: "first_nonempty [unat n..<unat kMaxPages] (spans_of h) = None"
    proof (rule ccontr)
      assume "first_nonempty [unat n..<unat kMaxPages] (spans_of h) \<noteq> None"
      then obtain m where "first_nonempty [unat n..<unat kMaxPages] (spans_of h) = Some m" by blast
      from small_first [OF ph_invD(1) [OF I] this] False show False by auto
    qed
    obtain b where b: "fits (spans_of h) n (set (fl LargeHead)) b" "b = Null \<Longrightarrow> New_large cfg n h = Some (Null, h)"
      by (rule New_large_ok [OF K I fp n]) (rule that)
    have lf: "set (fl LargeHead) \<subseteq> frees fl" by (rule list_frees) (simp add: heads_def)
    have bN: "b = Null"
    proof (rule ccontr)
      assume "b \<noteq> Null"
      then have "b \<in> set (fl LargeHead)" "unat n \<le> sln (spans_of h) b" using b(1) by (simp_all add: fits_def)
      then show False using False lf by blast
    qed
    have R: "PH_New cfg n h = Option.bind (GrowHeap cfg n h) (\<lambda>(ok, h).
        if \<not> ok then Option.bind (PH_Check h) (\<lambda>_. Some (Null, h)) else New_large cfg n h)"
      using ph_inv_Check [OF I] n0 none b(2) [OF bN] by (simp add: PH_New_def)
    consider (abort) "GrowHeap cfg n h = None" "\<not> rooms h"
      | (grow) b h1 fl1 P1 k where "GrowHeap cfg n h = Some (b, h1)" "unat n \<le> k" "grown A P k h b h1 fl1 P1"
      using GrowHeap_ok [OF K I fp n1 lim] by (elim disjE conjE exE) metis+
    then show ?thesis
    proof cases
      case abort
      then show ?thesis using R two by (auto simp: rooms_def)
    next
      case grow
      have I1: "ph_inv h1 A fl1 P1" and fp1: "free_pages h1 = word_of_nat (free_sum h1 fl1)" and P1: "P \<subseteq> P1" and f1: "ph_frame A h h1"
        and rm: "pha_room sizeof_Span (span_allocator h) 2 \<Longrightarrow> pha_room sizeof_Span (span_allocator h1) 1"
        using grow(3) by (simp_all add: grown_def numeral_2_eq_2)
      have ok1: "ph_ok h1 A P1" using I1 fp1 unfolding ph_ok_def by blast
      show ?thesis
      proof (cases b)
        case False
        then have "PH_New cfg n h = Some (Null, h1)" using R grow(1) ph_inv_Check [OF I1] by simp
        then show ?thesis using ok1 P1 f1 by blast
      next
        case True
        then have R1: "PH_New cfg n h = New_large cfg n h1" using R grow(1) by simp
        have up: "allocated A P (unat n) h s h' P1" if "allocated A P1 (unat n) h1 s h' P1" for s h'
          using that P1 ph_frame_trans [OF f1] by (auto simp: allocated_def)
        obtain c where c: "c = Null \<Longrightarrow> New_large cfg n h1 = Some (Null, h1)"
          "c \<noteq> Null \<Longrightarrow> New_large cfg n h1 = None \<and> \<not> pha_room sizeof_Span (span_allocator h1) 1 \<or>
            (\<exists>h'. New_large cfg n h1 = Some (c, h') \<and> allocated A P1 (unat n) h1 c h' P1 \<and> sst (spans_of h') c = sst (spans_of h1) c)"
          by (rule New_large_ok [OF K I1 fp1 n]) (rule that)
        show ?thesis
        proof (cases "c = Null")
          case True
          then have "PH_New cfg n h = Some (Null, h1)" using R1 c(1) by simp
          then show ?thesis using ok1 P1 f1 by blast
        next
          case False
          from c(2) [OF False] show ?thesis
          proof (elim disjE conjE exE)
            assume "New_large cfg n h1 = None" "\<not> pha_room sizeof_Span (span_allocator h1) 1"
            then show ?thesis using R1 rm by auto
          next
            fix h' assume "New_large cfg n h1 = Some (c, h')" "allocated A P1 (unat n) h1 c h' P1"
            then show ?thesis using R1 up by auto
          qed
        qed
      qed
    qed
  qed
qed

end
