(* ===== verification/PageHeapSpec.thy ===== *)
theory PageHeapSpec
  imports PageHeapGrow
begin

text \<open>
  The contract of \<open>TCMalloc_PageHeap\<close> for its callers: what \<open>New\<close>, \<open>Delete\<close>, \<open>Split\<close> and
  \<open>RegisterSizeClass\<close> promise of a heap in which the caller holds the spans \<open>A\<close> and the heap owns
  the pages \<open>P\<close> (\<open>ph_ok h A P\<close>), the step relation of a caller, its reachable states, and the
  interface \<open>page_provider\<close> that the page heap implements.
\<close>

section \<open>RegisterSizeClass\<close>

lemma register_pages_ok:
  "(\<And>i. i \<in> set is \<Longrightarrow> pmap h (st + i) \<noteq> None) \<Longrightarrow>
   \<exists>pm. register_pages is s (word_of_nat st) h = Some (h\<lparr>pagemap := pm\<rparr>) \<and>
     (\<forall>k. pmap (h\<lparr>pagemap := pm\<rparr>) k = (if \<exists>i\<in>set is. k = st + i then Some s else pmap h k)) \<and>
     (root_3 (pagemap h) \<noteq> None \<longrightarrow> root_3 pm \<noteq> None)"
proof (induction "is" arbitrary: h)
  case Nil
  show ?case by (rule exI [of _ "pagemap h"]) simp
next
  case (Cons i "is")
  obtain pm where pm: "pagemap_set (word_of_nat (st + i)) s h = Some (h\<lparr>pagemap := pm\<rparr>)"
    "pmap (h\<lparr>pagemap := pm\<rparr>) = (pmap h)(st + i := Some s)" "root_3 (pagemap h) \<noteq> None \<longrightarrow> root_3 pm \<noteq> None"
    using pmap_set [of h "st + i" s] Cons.prems [of i] by auto
  have pre: "pmap (h\<lparr>pagemap := pm\<rparr>) (st + j) \<noteq> None" if "j \<in> set is" for j
    unfolding pm(2) using Cons.prems [of j] that by simp
  from Cons.IH [OF pre] obtain pm' where pm':
    "register_pages is s (word_of_nat st) (h\<lparr>pagemap := pm\<rparr>) = Some (h\<lparr>pagemap := pm'\<rparr>)"
    "\<forall>k. pmap (h\<lparr>pagemap := pm'\<rparr>) k = (if \<exists>i\<in>set is. k = st + i then Some s else pmap (h\<lparr>pagemap := pm\<rparr>) k)"
    "root_3 pm \<noteq> None \<longrightarrow> root_3 pm' \<noteq> None"
    by auto
  show ?case
    by (rule exI [of _ pm']) (use pm(1,3) pm' in \<open>auto simp: pm(2)\<close>)
qed

definition registered :: "sref \<Rightarrow> u64 \<Rightarrow> 'a page_heap_scheme \<Rightarrow> 'a page_heap_scheme \<Rightarrow> bool" where
  "registered s sc h h' \<longleftrightarrow> spans_of h' = (spans_of h)(s := (spans_of h s)\<lparr>span_sizeclass := ucast sc\<rparr>) \<and>
     (\<forall>k\<in>pages_of (spans_of h) s. pmap h' k = Some s) \<and> (\<forall>k. k \<notin> pages_of (spans_of h) s \<longrightarrow> pmap h' k = pmap h k) \<and>
     (\<exists>pm. h' = h\<lparr>spans_of := spans_of h', pagemap := pm\<rparr>)"

lemma RegisterSizeClass_inv:
  assumes I: "ph_inv h A fl P" and s: "s \<in> A"
  shows "\<exists>h'. RegisterSizeClass s sc h = Some h' \<and> ph_inv h' A fl P \<and> registered s sc h h'"
proof -
  let ?\<sigma> = "spans_of h" let ?x = "?\<sigma> s"
  let ?y = "?x\<lparr>span_sizeclass := ucast sc\<rparr>"
  let ?h1 = "h\<lparr>spans_of := ?\<sigma>(s := ?y)\<rparr>"
  note T = ph_invD(2) [OF I]
  have sL: "s \<in> A \<union> frees fl" using s by blast
  note d = tilingD [OF T sL]
  have nf: "\<not> span_free ?x" using ph_invD(3) [OF I] s by (simp add: coloring_def)
  have I1: "ph_inv ?h1 A fl P" by (rule ph_inv_update_used [OF I s]) simp_all
  have len: "unat (span_length ?x - 1) = sln ?\<sigma> s - 1"
    using d(1) by (simp add: sln_def unat_sub word_le_nat_alt)
  have pre: "pmap ?h1 (sst ?\<sigma> s + i) \<noteq> None" if "i \<in> set [1..<sln ?\<sigma> s - 1]" for i
    using d(5) [of "sst ?\<sigma> s + i"] that by auto
  from register_pages_ok [OF pre, of "[1..<sln ?\<sigma> s - 1]" s] obtain pm where
    pm: "register_pages [1..<sln ?\<sigma> s - 1] s (span_start ?x) ?h1 = Some (?h1\<lparr>pagemap := pm\<rparr>)"
    "\<And>k. pmap (?h1\<lparr>pagemap := pm\<rparr>) k = (if \<exists>i\<in>set [1..<sln ?\<sigma> s - 1]. k = sst ?\<sigma> s + i then Some s else pmap h k)"
    "root_3 (pagemap h) \<noteq> None \<longrightarrow> root_3 pm \<noteq> None"
    by (auto simp: sst_def)
  let ?h' = "?h1\<lparr>pagemap := pm\<rparr>"
  have run: "RegisterSizeClass s sc h = Some ?h'"
    using pm(1) d(6) nf GetDescriptor_start [OF d(3)] GetDescriptor_last [OF d(1,4)]
    by (simp add: RegisterSizeClass_def option_monad rd_def wr_def on_spans_def len)
  have inside: "pmap ?h' k = Some s" if "k \<in> pages_of ?\<sigma> s" for k
  proof (cases "k = sst ?\<sigma> s \<or> k = sst ?\<sigma> s + sln ?\<sigma> s - 1")
    case True then show ?thesis using d(3,4) unfolding pm(2) by auto
  next
    case False
    then have "k - sst ?\<sigma> s \<in> set [1..<sln ?\<sigma> s - 1]" "k = sst ?\<sigma> s + (k - sst ?\<sigma> s)"
      using that by (auto simp: pages_of_def)
    then show ?thesis unfolding pm(2) by metis
  qed
  have outside: "pmap ?h' k = pmap h k" if "k \<notin> pages_of ?\<sigma> s" for k
    using that unfolding pm(2) by (auto simp: pages_of_def)
  have dom: "pmap ?h' k = None \<longleftrightarrow> pmap h k = None" for k
  proof (cases "k \<in> pages_of ?\<sigma> s")
    case True
    then have "pmap h k \<noteq> None" using d(5) by (auto simp: pages_of_def)
    then show ?thesis using inside [OF True] by simp
  qed (simp add: outside)
  have se: "sst (?\<sigma>(s := ?y)) x = sst ?\<sigma> x" "sln (?\<sigma>(s := ?y)) x = sln ?\<sigma> x" for x
    by (simp_all add: sst_def sln_def)
  have "tiling (?\<sigma>(s := ?y)) (pmap ?h') ((A \<union> frees fl - {s}) \<union> {s}) P"
  proof (rule tiling_replace [OF T])
    show "{s} \<subseteq> A \<union> frees fl" "finite {s}" "{s} \<inter> (A \<union> frees fl - {s}) = {}" using sL by auto
    show "{s} \<subseteq> range Obj" using tiling_finite(3) [OF T] sL by blast
    show "(\<Union>q\<in>{s}. pages_of (?\<sigma>(s := ?y)) q) = (\<Union>r\<in>{s}. pages_of ?\<sigma> r)" by (simp add: pages_of_def se)
    show "1 \<le> sln (?\<sigma>(s := ?y)) q \<and> pmap ?h' (sst (?\<sigma>(s := ?y)) q) = Some q \<and>
      pmap ?h' (sst (?\<sigma>(s := ?y)) q + sln (?\<sigma>(s := ?y)) q - 1) = Some q" if "q \<in> {s}" for q
      using that d(1) unfolding se by (auto intro!: inside simp: pages_of_def)
    show "pmap ?h' k = pmap h k" if "k \<notin> (\<Union>r\<in>{s}. pages_of ?\<sigma> r)" for k using that outside by simp
  qed (use se dom in auto)
  moreover have "A \<union> frees fl - {s} \<union> {s} = A \<union> frees fl" using sL by blast
  ultimately have "ph_inv ?h' A fl P"
    using I1 pm(3) unfolding ph_inv_def mem_ok_def by simp
  then show ?thesis using run inside outside unfolding registered_def by auto
qed

section \<open>Construction\<close>

lemma init_heads_ok:
  "distinct ls \<Longrightarrow> Null \<notin> set ls \<Longrightarrow> \<exists>\<sigma>'. init_heads ls \<sigma> = Some \<sigma>' \<and> (\<forall>l\<in>set ls. dll \<sigma>' l []) \<and>
     (\<forall>x. x \<notin> set ls \<longrightarrow> \<sigma>' x = \<sigma> x)"
proof (induction ls arbitrary: \<sigma>)
  case (Cons l ls)
  let ?\<sigma>1 = "\<sigma>(l := (\<sigma> l)\<lparr>span_next := l, span_prev := l\<rparr>)"
  from Cons.prems have "distinct ls" "Null \<notin> set ls" by simp_all
  from Cons.IH [OF this, of ?\<sigma>1] obtain \<sigma>' where s: "init_heads ls ?\<sigma>1 = Some \<sigma>'"
    "\<forall>l\<in>set ls. dll \<sigma>' l []" "\<forall>x. x \<notin> set ls \<longrightarrow> \<sigma>' x = ?\<sigma>1 x" by blast
  have "\<sigma>' l = ?\<sigma>1 l" using s(3) Cons.prems by simp
  moreover have l: "l \<noteq> Null" using Cons.prems by auto
  ultimately have "dll \<sigma>' l []" by (simp add: dll_def)
  moreover have "init_heads (l # ls) \<sigma> = Some \<sigma>'"
    using s(1) l by (simp add: DLL_Init_def wr_def option_monad)
  ultimately show ?case using s(2,3) by simp
qed simp

lemma PageMap3_init_ok:
  assumes K: "kernel_ok cfg" and S: "sys_ok (sys ms)" and run: "PageMap3_init (MetaDataAlloc cfg) PM_BITS ms = (pm, ms')"
  shows "sys_step ms ms' \<and> (pm = \<lparr>root_3 = None\<rparr> \<or> pm = \<lparr>root_3 = Some (\<lambda>_. None)\<rparr>)"
proof -
  obtain r where r: "MetaDataAlloc cfg (push_bit (INTERIOR_BITS PM_BITS) 8) ms = (r, ms')"
    using run by (auto simp: PageMap3_init_def PageMap3_NewNode_def Let_def split: prod.splits)
  have "unat (push_bit (INTERIOR_BITS PM_BITS) 8 :: u64) < 2 ^ 60"
    by (simp add: INTERIOR_BITS_def PM_BITS_def kPageShift_def)
  from MetaDataAlloc_ok [OF K S this r] have "sys_step ms ms'" by simp
  moreover have "pm = \<lparr>root_3 = if r \<noteq> 0 then Some (\<lambda>_. None) else None\<rparr>"
    using run r by (auto simp: PageMap3_init_def PageMap3_NewNode_def Let_def)
  ultimately show ?thesis by simp
qed

lemma mem_ok_step:
  assumes "mem_ok h U P" and "sys_step (meta h) (meta h')" and "span_allocator h' = span_allocator h"
    and "stacktrace_allocator h' = stacktrace_allocator h"
  shows "mem_ok h' U P"
proof -
  obtain M N T where "pha_ok sizeof_Span (span_allocator h) U M" "pha_ok sizeof_StackTrace (stacktrace_allocator h) T N"
    "M \<union> N \<union> page_bytes P \<subseteq> bytes_mapped (meta h)" "M \<inter> N = {}" "M \<inter> page_bytes P = {}" "N \<inter> page_bytes P = {}"
    using assms(1) by (auto simp: mem_ok_def)
  moreover have "bytes_mapped (meta h) \<subseteq> bytes_mapped (meta h')" using assms(2) by (simp add: sys_step_def)
  ultimately show ?thesis
    using assms unfolding mem_ok_def sys_step_def
    by (intro conjI exI [of _ M] exI [of _ N] exI [of _ T]) auto
qed

lemma PageHeap_init_ok:
  assumes K: "kernel_ok (sys_cfg cfg)" and M: "mem_ok h {} {}" and run: "PageHeap_init cfg h = Some h'"
    and root: "root_3 (pagemap h') \<noteq> None"
  shows "ph_ok h' {} {}"
proof -
  let ?ls = "LargeHead # map FreeHead [0..<unat kMaxPages]"
  obtain pm :: "sref PageMap3" and ms where pm: "PageMap3_init (MetaDataAlloc (sys_cfg cfg)) PM_BITS (meta h) = (pm, ms)" by fastforce
  have S: "sys_ok (sys (meta h))" using M by (simp add: mem_ok_def)
  have "distinct ?ls" "Null \<notin> set ?ls" by (auto simp: distinct_map inj_on_def)
  then obtain \<sigma> where s: "init_heads ?ls (spans_of h) = Some \<sigma>" "\<forall>l\<in>set ?ls. dll \<sigma> l []"
    using init_heads_ok by blast
  have h': "h' = h\<lparr>pagemap := pm, meta := ms, free_pages := 0, system_bytes := 0, spans_of := \<sigma>\<rparr>"
    using run pm s(1) by (simp add: PageHeap_init_def on_spans_def option_monad Let_def del: init_heads.simps)
  have r: "pm = \<lparr>root_3 = Some (\<lambda>_. None)\<rparr>" and st: "sys_step (meta h) ms"
    using PageMap3_init_ok [OF K S pm] root by (auto simp: h')
  have none: "pmap h' k = None" for k
    by (simp add: pmap_def GetDescriptor_def pagemap_get_def h' r PageMap3_get_def option_monad Let_def)
  have f: "frees (\<lambda>_. []) = {}" by (simp add: frees_def)
  have "heads = set ?ls" by (auto simp: heads_def)
  then have "lists_ok (spans_of h') (\<lambda>_. [])" using s(2) by (simp add: lists_ok_def h')
  moreover have "tiling (spans_of h') (pmap h') {} {}" using none by (simp add: tiling_def)
  moreover have "coloring (spans_of h') {} {}" by (simp add: coloring_def)
  moreover have "mem_ok h' {} {}" by (rule mem_ok_step [OF M]) (simp_all add: h' st)
  ultimately have "ph_inv h' {} (\<lambda>_. []) {}"
    by (simp add: ph_inv_def f h' r addrs_def)
  moreover have "free_pages h' = word_of_nat (free_sum h' (\<lambda>_. []))" by (simp add: h' free_sum_def f)
  ultimately show ?thesis unfolding ph_ok_def by blast
qed

section \<open>The contract of each operation\<close>

lemma ph_ok_held:
  assumes ok: "ph_ok h A P"
  shows "finite A" "\<And>s. s \<in> A \<Longrightarrow> GetDescriptor (span_start (spans_of h s)) h = Some s \<and>
      GetDescriptor (span_start (spans_of h s) + span_length (spans_of h s) - 1) h = Some s"
    "\<And>s. s \<in> A \<Longrightarrow> s \<in> range Obj \<and> \<not> span_free (spans_of h s) \<and> 1 \<le> sln (spans_of h) s \<and> pages_of (spans_of h) s \<subseteq> P"
    "\<And>s t. s \<in> A \<Longrightarrow> t \<in> A \<Longrightarrow> s \<noteq> t \<Longrightarrow> pages_of (spans_of h) s \<inter> pages_of (spans_of h) t = {}"
    "PH_Check h = Some ()"
    "free_pages h = word_of_nat (card P - (\<Sum>s\<in>A. sln (spans_of h) s))"
proof -
  obtain fl where I: "ph_inv h A fl P" and fp: "free_pages h = word_of_nat (free_sum h fl)"
    using ok by (auto simp: ph_ok_def)
  note T = ph_invD(2) [OF I]
  show "finite A" using tiling_finite(1) [OF T] by simp
  show "GetDescriptor (span_start (spans_of h s)) h = Some s \<and>
      GetDescriptor (span_start (spans_of h s) + span_length (spans_of h s) - 1) h = Some s" if "s \<in> A" for s
  proof -
    have sL: "s \<in> A \<union> frees fl" using that by blast
    show ?thesis using GetDescriptor_start [OF tilingD(3) [OF T sL]] GetDescriptor_last [OF tilingD(1,4) [OF T sL]] by simp
  qed
  show "s \<in> range Obj \<and> \<not> span_free (spans_of h s) \<and> 1 \<le> sln (spans_of h) s \<and> pages_of (spans_of h) s \<subseteq> P" if "s \<in> A" for s
  proof -
    have sL: "s \<in> A \<union> frees fl" using that by blast
    have "\<not> span_free (spans_of h s)" using ph_invD(3) [OF I] that by (simp add: coloring_def)
    moreover have "s \<in> range Obj" using tiling_finite(3) [OF T] sL by blast
    ultimately show ?thesis using tilingD(1,7) [OF T sL] by blast
  qed
  show "pages_of (spans_of h) s \<inter> pages_of (spans_of h) t = {}" if "s \<in> A" "t \<in> A" "s \<noteq> t" for s t
    using tiling_parts(2) [OF T] that by blast
  show "PH_Check h = Some ()" by (rule ph_inv_Check [OF I])
  have "card P = (\<Sum>s\<in>A \<union> frees fl. card (pages_of (spans_of h) s))"
    unfolding tiling_parts(1) [OF T]
    by (rule card_UN_disjoint [OF tiling_finite(1) [OF T]]) (use tiling_parts(2) [OF T] in auto)
  also have "\<dots> = (\<Sum>s\<in>A \<union> frees fl. sln (spans_of h) s)" by simp
  also have "\<dots> = (\<Sum>s\<in>A. sln (spans_of h) s) + free_sum h fl"
    unfolding free_sum_def using ph_inv_disjoint [OF I] tiling_finite(1) [OF T]
    by (intro sum.union_disjoint) auto
  finally show "free_pages h = word_of_nat (card P - (\<Sum>s\<in>A. sln (spans_of h) s))" using fp by simp
qed

lemma ph_frame_pages:
  assumes "ph_frame B h h'" and "s \<in> B"
  shows "spans_of h' s = spans_of h s" "pages_of (spans_of h') s = pages_of (spans_of h) s"
  using assms by (simp_all add: ph_frame_def pages_of_def sst_def sln_def)

definition parked :: "'a page_heap_scheme \<Rightarrow> sref \<Rightarrow> bool" where
  "parked h s \<longleftrightarrow> span_next (spans_of h s) = Null \<and> span_prev (spans_of h s) = Null"

lemma Delete_ok:
  assumes "ph_ok h A P" and "s \<in> A" and "parked h s"
  shows "\<exists>h'. PH_Delete s h = Some h' \<and> ph_ok h' (A - {s}) P \<and> ph_frame (A - {s}) h h' \<and>
    free_pages h' = free_pages h + span_length (spans_of h s)"
proof -
  obtain fl where I: "ph_inv h A fl P" and fp: "free_pages h = word_of_nat (free_sum h fl)"
    using assms(1) by (auto simp: ph_ok_def)
  obtain h' fl' where d: "PH_Delete s h = Some h'" "ph_inv h' (A - {s}) fl' P"
    "free_pages h' = free_pages h + span_length (spans_of h s)" "free_sum h' fl' = free_sum h fl + sln (spans_of h) s"
    "ph_frame (A - {s}) h h'"
    using Delete_inv [OF I assms(2)] assms(3) by (auto simp: parked_def)
  have "free_pages h' = word_of_nat (free_sum h' fl')" by (simp add: d(3,4) fp sln_def)
  then show ?thesis using d unfolding ph_ok_def by blast
qed

lemma Split_fine:
  assumes K: "kernel_ok (sys_cfg cfg)" and "ph_ok h A P" and "s \<in> A" and "0 < n" "unat n < sln (spans_of h) s"
    and "span_sizeclass (spans_of h s) = 0"
  shows "Split cfg s n h = None \<and> \<not> pha_room sizeof_Span (span_allocator h) 1 \<or>
    (\<exists>lo h'. Split cfg s n h = Some (lo, h') \<and> lo \<notin> A \<and> ph_ok h' (insert lo A) P \<and> ph_frame (A - {s}) h h' \<and>
      spans_of h' s = (spans_of h s)\<lparr>span_length := n\<rparr> \<and>
      spans_of h' lo = zero_span\<lparr>span_start := span_start (spans_of h s) + n, span_length := span_length (spans_of h s) - n\<rparr> \<and>
      system_bytes h' = system_bytes h)"
proof -
  obtain fl where I: "ph_inv h A fl P" and fp: "free_pages h = word_of_nat (free_sum h fl)"
    using assms(2) by (auto simp: ph_ok_def)
  have w: "(word_of_nat (sst (spans_of h) s + unat n) :: u64) = span_start (spans_of h s) + n"
    "(word_of_nat (sln (spans_of h) s - unat n) :: u64) = span_length (spans_of h s) - n"
    using assms(5) by (simp_all add: sst_def sln_def of_nat_diff)
  from Split_ok [OF K I assms(3-6)] show ?thesis
  proof (elim disjE exE conjE)
    fix lo h' assume r: "Split cfg s n h = Some (lo, h')" and "split_ok A P s (unat n) lo h fl h'"
    then have "lo \<notin> A" "ph_inv h' (insert lo A) fl P" "ph_frame (A - {s}) h h'" "new_same h h'"
      "free_pages h' = free_pages h" "free_sum h' fl = free_sum h fl" "spans_of h' s = (spans_of h s)\<lparr>span_length := n\<rparr>"
      "spans_of h' lo = zero_span\<lparr>span_start := span_start (spans_of h s) + n, span_length := span_length (spans_of h s) - n\<rparr>"
      by (simp_all add: split_ok_def w del: of_nat_add)
    with r fp show ?thesis unfolding ph_ok_def new_same_def by (intro disjI2 exI [of _ lo] exI [of _ h']) auto
  qed simp
qed

lemma Register_ok:
  assumes "ph_ok h A P" and "s \<in> A"
  shows "\<exists>h'. RegisterSizeClass s sc h = Some h' \<and> ph_ok h' A P \<and> registered s sc h h'"
proof -
  obtain fl where I: "ph_inv h A fl P" and fp: "free_pages h = word_of_nat (free_sum h fl)"
    using assms(1) by (auto simp: ph_ok_def)
  obtain h' where r: "RegisterSizeClass s sc h = Some h'" "ph_inv h' A fl P" "registered s sc h h'"
    using RegisterSizeClass_inv [OF I assms(2)] by blast
  have "free_pages h' = free_pages h" using r(3) by (metis registered_def page_heap.select_convs(8) page_heap.surjective page_heap.update_convs(4,7))
  moreover have "free_sum h' fl = free_sum h fl"
    unfolding free_sum_def using r(3) ph_inv_disjoint [OF I assms(2)]
    by (intro sum.cong) (auto simp: registered_def sln_def)
  ultimately show ?thesis using r fp unfolding ph_ok_def by auto
qed

section \<open>A caller of the page heap\<close>

text \<open>
  A state is the heap and the spans \<open>A\<close> the caller holds. \<open>caller_writes\<close> is everything a caller may do
  by itself: change its spans, but for their extent and the free flag, and anything outside the
  page heap. The heap stays below \<open>kMaxHeapPages\<close>, the longest span that \<open>CheckList\<close> accepts.
\<close>

definition caller_writes :: "sref set \<Rightarrow> 'a page_heap_scheme \<Rightarrow> 'a page_heap_scheme \<Rightarrow> bool" where
  "caller_writes A h h' \<longleftrightarrow> page_heap.truncate (h'\<lparr>spans_of := spans_of h\<rparr>) = page_heap.truncate h \<and>
     (\<forall>x. x \<in> range Obj \<union> heads \<longrightarrow> x \<notin> A \<longrightarrow> spans_of h' x = spans_of h x) \<and>
     (\<forall>x\<in>A. span_start (spans_of h' x) = span_start (spans_of h x) \<and>
        span_length (spans_of h' x) = span_length (spans_of h x) \<and> span_free (spans_of h' x) = span_free (spans_of h x))"

definition within_limit :: "u64 \<Rightarrow> 'a page_heap_scheme \<Rightarrow> bool" where
  "within_limit n h \<longleftrightarrow> unat (system_bytes h) + 4096 * max (unat n) 256 \<le> 4096 * kMaxHeapPages"

inductive ph_step :: "tc_config \<Rightarrow> 'a page_heap_scheme \<times> sref set \<Rightarrow> 'a page_heap_scheme \<times> sref set \<Rightarrow> bool" for cfg where
  step_New: "0 < n \<Longrightarrow> within_limit n h \<Longrightarrow> PH_New cfg n h = Some (s, h') \<Longrightarrow>
     ph_step cfg (h, A) (h', if s = Null then A else insert s A)"
| step_Delete: "s \<in> A \<Longrightarrow> parked h s \<Longrightarrow> PH_Delete s h = Some h' \<Longrightarrow> ph_step cfg (h, A) (h', A - {s})"
| step_Split: "s \<in> A \<Longrightarrow> 0 < n \<Longrightarrow> n < span_length (spans_of h s) \<Longrightarrow> span_sizeclass (spans_of h s) = 0 \<Longrightarrow>
     Split cfg s n h = Some (lo, h') \<Longrightarrow> ph_step cfg (h, A) (h', insert lo A)"
| step_Register: "s \<in> A \<Longrightarrow> RegisterSizeClass s sc h = Some h' \<Longrightarrow> ph_step cfg (h, A) (h', A)"
| step_caller: "caller_writes A h h' \<Longrightarrow> ph_step cfg (h, A) (h', A)"

inductive ph_reach :: "tc_config \<Rightarrow> 'a page_heap_scheme \<Rightarrow> 'a page_heap_scheme \<Rightarrow> sref set \<Rightarrow> bool" for cfg h0 where
  reach_init: "PageHeap_init cfg h0 = Some h \<Longrightarrow> root_3 (pagemap h) \<noteq> None \<Longrightarrow> ph_reach cfg h0 h {}"
| reach_step: "ph_reach cfg h0 h A \<Longrightarrow> ph_step cfg (h, A) (h', A') \<Longrightarrow> ph_reach cfg h0 h' A'"

inductive_cases ph_stepE: "ph_step cfg (h, A) (h', A')"

lemma caller_writes_ok:
  assumes ok: "ph_ok h A P" and c: "caller_writes A h h'"
  shows "ph_ok h' A P"
proof -
  obtain fl where I: "ph_inv h A fl P" and fp: "free_pages h = word_of_nat (free_sum h fl)"
    using ok by (auto simp: ph_ok_def)
  have t: "meta h' = meta h" "span_allocator h' = span_allocator h" "stacktrace_allocator h' = stacktrace_allocator h"
    "pagemap h' = pagemap h" "free_pages h' = free_pages h" "system_bytes h' = system_bytes h"
    using c by (simp_all add: caller_writes_def page_heap.defs)
  have fo: "frees fl \<subseteq> range Obj" by (rule frees_Obj [OF ph_invD(1) [OF I]])
  have same: "spans_of h' x = spans_of h x" if "x \<in> frees fl \<or> x \<in> heads" for x
  proof -
    have AO: "A \<subseteq> range Obj" using tiling_finite(3) [OF ph_invD(2) [OF I]] by blast
    have "x \<notin> A" using that ph_inv_disjoint [OF I] AO by (auto simp: heads_def)
    moreover have "x \<in> range Obj \<union> heads" using that fo by blast
    ultimately show ?thesis using c by (auto simp: caller_writes_def)
  qed
  have "ph_inv (h\<lparr>spans_of := spans_of h'\<rparr>) A fl P"
    by (rule ph_inv_spans_cong [OF I same]) (use c in \<open>auto simp: caller_writes_def\<close>)
  then have "ph_inv h' A fl P"
    using t pmap_cong [of h' h] unfolding ph_inv_def mem_ok_def by simp
  moreover have "free_sum h' fl = free_sum h fl"
    unfolding free_sum_def by (intro sum.cong) (simp_all add: sln_def same)
  ultimately show ?thesis using fp t unfolding ph_ok_def by auto
qed

lemma ph_step_ok:
  assumes K: "kernel_ok (sys_cfg cfg)" and ok: "ph_ok h A P" and st: "ph_step cfg (h, A) (h', A')"
  shows "\<exists>P'. ph_ok h' A' P' \<and> P \<subseteq> P'"
proof (rule ph_stepE [OF st])
  fix n s assume "A' = (if s = Null then A else insert s A)" "0 < n" "within_limit n h" "PH_New cfg n h = Some (s, h')"
  then show ?thesis using New_ok [OF K ok, of n] by (auto simp: allocated_def within_limit_def)
next
  fix s assume "A' = A - {s}" "s \<in> A" "parked h s" "PH_Delete s h = Some h'"
  then show ?thesis using Delete_ok [OF ok, of s] by auto
next
  fix s n lo assume "A' = insert lo A" "s \<in> A" "0 < n" "n < span_length (spans_of h s)" "span_sizeclass (spans_of h s) = 0"
    "Split cfg s n h = Some (lo, h')"
  then show ?thesis using Split_fine [OF K ok, of s n] by (auto simp: word_less_nat_alt sln_def)
next
  fix s sc assume "A' = A" "s \<in> A" "RegisterSizeClass s sc h = Some h'"
  then show ?thesis using Register_ok [OF ok, of s sc] by auto
next
  assume "A' = A" "caller_writes A h h'"
  then show ?thesis using caller_writes_ok [OF ok] by auto
qed

lemma ph_reach_ok:
  assumes K: "kernel_ok (sys_cfg cfg)" and M: "mem_ok h0 {} {}" and r: "ph_reach cfg h0 h A"
  shows "\<exists>P. ph_ok h A P"
  using r
proof (induction rule: ph_reach.induct)
  case (reach_init h)
  then show ?case using PageHeap_init_ok [OF K M] by blast
next
  case (reach_step h A h' A')
  then show ?case using ph_step_ok [OF K] by blast
qed

section \<open>The interface\<close>

text \<open>
  A provider of pages: \<open>held s A\<close> says that the caller may hold the set \<open>A\<close> in state \<open>s\<close>, \<open>may n s\<close>
  that a request for \<open>n\<close> pages is within the provider's limits. A request may be refused.
\<close>

locale page_provider =
  fixes held :: "'s \<Rightarrow> 'r set \<Rightarrow> bool"
    and pages :: "'s \<Rightarrow> 'r \<Rightarrow> nat set"
    and may :: "nat \<Rightarrow> 's \<Rightarrow> bool"
    and new :: "nat \<Rightarrow> 's \<Rightarrow> ('r option \<times> 's) option"
    and del :: "'r \<Rightarrow> 's \<Rightarrow> 's option"
  assumes fin: "held s A \<Longrightarrow> finite A"
    and apart: "held s A \<Longrightarrow> r \<in> A \<Longrightarrow> t \<in> A \<Longrightarrow> r \<noteq> t \<Longrightarrow> pages s r \<inter> pages s t = {}"
    and new_some: "held s A \<Longrightarrow> may n s \<Longrightarrow> new n s = Some (Some r, s') \<Longrightarrow>
      r \<notin> A \<and> held s' (insert r A) \<and> card (pages s' r) = n \<and> (\<forall>x\<in>A. pages s' x = pages s x)"
    and new_none: "held s A \<Longrightarrow> may n s \<Longrightarrow> new n s = Some (None, s') \<Longrightarrow>
      held s' A \<and> (\<forall>x\<in>A. pages s' x = pages s x)"
    and del_some: "held s A \<Longrightarrow> r \<in> A \<Longrightarrow>
      \<exists>s'. del r s = Some s' \<and> held s' (A - {r}) \<and> (\<forall>x\<in>A - {r}. pages s' x = pages s x)"
begin

primrec del_all :: "'r list \<Rightarrow> 's \<Rightarrow> 's option" where
  "del_all [] s = Some s"
| "del_all (r # rs) s = Option.bind (del r s) (del_all rs)"

text \<open>Everything can be given back, in any order.\<close>

lemma del_all_ok:
  "held s A \<Longrightarrow> distinct rs \<Longrightarrow> set rs \<subseteq> A \<Longrightarrow>
   \<exists>s'. del_all rs s = Some s' \<and> held s' (A - set rs) \<and> (\<forall>x\<in>A - set rs. pages s' x = pages s x)"
proof (induction rs arbitrary: s A)
  case (Cons r rs)
  obtain s1 where s1: "del r s = Some s1" "held s1 (A - {r})" "\<forall>x\<in>A - {r}. pages s1 x = pages s x"
    using del_some [OF Cons.prems(1), of r] Cons.prems(3) by auto
  obtain s' where s': "del_all rs s1 = Some s'" "held s' (A - {r} - set rs)"
    "\<forall>x\<in>A - {r} - set rs. pages s' x = pages s1 x"
    using Cons.IH [OF s1(2)] Cons.prems by (auto simp: subset_iff)
  have "A - {r} - set rs = A - set (r # rs)" by auto
  then show ?case using s1 s' by auto
qed simp

lemma new_then_del:
  assumes "held s A" and "may n s" and "new n s = Some (Some r, s')"
  shows "\<exists>s''. del r s' = Some s'' \<and> held s'' A \<and> (\<forall>x\<in>A. pages s'' x = pages s x)"
proof -
  note n = new_some [OF assms]
  obtain s'' where "del r s' = Some s''" "held s'' (insert r A - {r})" "\<forall>x\<in>insert r A - {r}. pages s'' x = pages s' x"
    using del_some [of s' "insert r A" r] n by blast
  moreover have "insert r A - {r} = A" using n by blast
  ultimately show ?thesis using n by auto
qed

lemma new_apart:
  assumes "held s A" and "may n s" and "new n s = Some (Some r, s')" and "t \<in> A"
  shows "pages s' r \<inter> pages s t = {}"
proof -
  note n = new_some [OF assms(1-3)]
  have "r \<noteq> t" using n assms(4) by blast
  then have "pages s' r \<inter> pages s' t = {}" using apart [of s' "insert r A" r t] n assms(4) by blast
  then show ?thesis using n assms(4) by simp
qed

end

definition ph_held :: "tc_config \<Rightarrow> 'a page_heap_scheme \<Rightarrow> sref set \<Rightarrow> bool" where
  "ph_held cfg h A \<longleftrightarrow> kernel_ok (sys_cfg cfg) \<and> (\<exists>P. ph_ok h A P) \<and> (\<forall>s\<in>A. parked h s)"

definition ph_may :: "nat \<Rightarrow> 'a page_heap_scheme \<Rightarrow> bool" where
  "ph_may n h \<longleftrightarrow> 0 < n \<and> n \<le> kMaxHeapPages \<and> within_limit (word_of_nat n) h"

definition ph_request :: "tc_config \<Rightarrow> nat \<Rightarrow> 'a page_heap_scheme \<Rightarrow> (sref option \<times> 'a page_heap_scheme) option" where
  "ph_request cfg n h = map_option (\<lambda>(s, h'). (if s = Null then None else Some s, h')) (PH_New cfg (word_of_nat n) h)"

lemma ph_request_ok:
  assumes H: "ph_held cfg h A" and m: "ph_may n h" and r: "PH_New cfg (word_of_nat n) h = Some (s, h')"
  shows "(\<forall>x\<in>A. pages_of (spans_of h') x = pages_of (spans_of h) x) \<and>
    (if s = Null then ph_held cfg h' A else s \<notin> A \<and> ph_held cfg h' (insert s A) \<and> sln (spans_of h') s = n)"
proof -
  obtain P where ok: "ph_ok h A P" and K: "kernel_ok (sys_cfg cfg)" and pk: "\<forall>s\<in>A. parked h s"
    using H by (auto simp: ph_held_def)
  have un: "unat (word_of_nat n :: u64) = n"
    using m by (simp add: ph_may_def kMaxHeapPages_def of_nat_inverse [OF refl])
  have pos: "(0 :: u64) < word_of_nat n" using m un by (simp add: word_less_nat_alt ph_may_def)
  obtain P' where p: "ph_frame A h h'" "s = Null \<and> ph_ok h' A P' \<or> allocated A P n h s h' P'"
    using New_ok [OF K ok pos] m r un by (auto simp: ph_may_def within_limit_def allocated_def)
  have "parked h' x" if "x \<in> A" for x
    using pk that ph_frame_pages(1) [OF p(1) that] by (simp add: parked_def)
  then show ?thesis
    using p K by (auto simp: ph_held_def allocated_def ph_frame_pages(2) [OF p(1)] parked_def)
qed

interpretation ph: page_provider "ph_held cfg" "\<lambda>h. pages_of (spans_of h)" ph_may "ph_request cfg" PH_Delete for cfg
proof
  fix h :: "'a page_heap_scheme" and A r t
  assume H: "ph_held cfg h A"
  then obtain P where ok: "ph_ok h A P" and K: "kernel_ok (sys_cfg cfg)" and pk: "\<forall>s\<in>A. parked h s"
    by (auto simp: ph_held_def)
  show "finite A" by (rule ph_ok_held(1) [OF ok])
  show "pages_of (spans_of h) r \<inter> pages_of (spans_of h) t = {}" if "r \<in> A" "t \<in> A" "r \<noteq> t"
    by (rule ph_ok_held(4) [OF ok that])
  show "\<exists>h'. PH_Delete r h = Some h' \<and> ph_held cfg h' (A - {r}) \<and>
    (\<forall>x\<in>A - {r}. pages_of (spans_of h') x = pages_of (spans_of h) x)" if r: "r \<in> A"
  proof -
    obtain h' where h': "PH_Delete r h = Some h'" "ph_ok h' (A - {r}) P" "ph_frame (A - {r}) h h'"
      using Delete_ok [OF ok r] pk r by blast
    have "parked h' x" if "x \<in> A - {r}" for x
      using pk that ph_frame_pages(1) [OF h'(3) that] by (simp add: parked_def)
    then show ?thesis using h' K ph_frame_pages(2) [OF h'(3)] by (auto simp: ph_held_def)
  qed
next
  fix h h' :: "'a page_heap_scheme" and A n r
  assume H: "ph_held cfg h A" and m: "ph_may n h"
  show "ph_request cfg n h = Some (Some r, h') \<Longrightarrow> r \<notin> A \<and> ph_held cfg h' (insert r A) \<and>
      card (pages_of (spans_of h') r) = n \<and> (\<forall>x\<in>A. pages_of (spans_of h') x = pages_of (spans_of h) x)"
    using ph_request_ok [OF H m] by (auto simp: ph_request_def split: if_splits)
  show "ph_request cfg n h = Some (None, h') \<Longrightarrow> ph_held cfg h' A \<and>
      (\<forall>x\<in>A. pages_of (spans_of h') x = pages_of (spans_of h) x)"
    using ph_request_ok [OF H m] by (auto simp: ph_request_def split: if_splits)
qed

end
