(* ===== verification/ObjectSpans.thy ===== *)
theory ObjectSpans
  imports CentralCache PageHeapSpec SizeSpec
begin

text \<open>
  The objects of a size class in their spans. \<open>objs_in \<sigma> cl s\<close> are the objects that a span of class \<open>cl\<close>
  is cut into; objects that are not the same share no byte, whatever spans they are in.
\<close>

section \<open>Classes\<close>

lemma class_facts:
  assumes "1 \<le> cl" and "cl \<le> 168"
  shows "8 \<le> csize cl" "csize cl \<le> 32768" "csize cl \<le> 4096 * unat (class_to_pages ferp_tables ! cl)"
    "4096 * unat (class_to_pages ferp_tables ! cl) < 2048 * csize cl" "1 \<le> unat (class_to_pages ferp_tables ! cl)"
    "unat (class_to_pages ferp_tables ! cl) < 14" "ByteSizeForClass ferp_tables (word_of_nat cl) = word_of_nat (csize cl)"
    "8 dvd csize cl" "unat (word_of_nat (csize cl) :: u64) = csize cl"
proof -
  show c: "8 \<le> csize cl" "csize cl \<le> 32768" "8 dvd csize cl" using assms csize_bound by (auto simp: csize_def)
  show "unat (word_of_nat (csize cl) :: u64) = csize cl" by (rule of_nat_inverse [OF refl]) (use c in simp)
  show "csize cl \<le> 4096 * unat (class_to_pages ferp_tables ! cl)" "4096 * unat (class_to_pages ferp_tables ! cl) < 2048 * csize cl"
    "1 \<le> unat (class_to_pages ferp_tables ! cl)" "unat (class_to_pages ferp_tables ! cl) < 14"
    using ferp_page_count [OF assms] by (simp_all add: page_count_ok_def)
  have "unat (word_of_nat cl :: u64) = cl" using assms(2) by (simp add: unat_of_nat)
  then show "ByteSizeForClass ferp_tables (word_of_nat cl) = word_of_nat (csize cl)"
    using assms by (simp add: ByteSizeForClass_def class_to_size_ferp)
qed

lemma class_word: "cl < 256 \<Longrightarrow> unat (word_of_nat cl :: u8) = cl" "cl < 256 \<Longrightarrow> unat (word_of_nat cl :: u64) = cl"
  "cl < 256 \<Longrightarrow> ucast (word_of_nat cl :: u64) = (word_of_nat cl :: u8)"
proof -
  assume a: "cl < 256"
  show b: "unat (word_of_nat cl :: u8) = cl" "unat (word_of_nat cl :: u64) = cl" by (rule of_nat_inverse [OF refl], use a in simp)+
  show "ucast (word_of_nat cl :: u64) = (word_of_nat cl :: u8)"
    unfolding word_unat_eq_iff b(1) unsigned_ucast_eq b(2) by (rule take_bit_nat_eq_self) (use a in simp)
qed

section \<open>Objects and their bytes\<close>

definition objs_in :: "spans \<Rightarrow> nat \<Rightarrow> sref \<Rightarrow> u64 set" where
  "objs_in \<sigma> cl s = {x. 4096 * sst \<sigma> s \<le> unat x \<and> unat x + csize cl \<le> 4096 * (sst \<sigma> s + sln \<sigma> s) \<and>
     csize cl dvd unat x - 4096 * sst \<sigma> s}"

definition obj_bytes :: "nat \<Rightarrow> u64 \<Rightarrow> nat set" where
  "obj_bytes cl x = {unat x ..< unat x + csize cl}"

definition page_bytes_of :: "spans \<Rightarrow> sref \<Rightarrow> nat set" where
  "page_bytes_of \<sigma> s = {4096 * sst \<sigma> s ..< 4096 * (sst \<sigma> s + sln \<sigma> s)}"

lemma objs_in_bytes: "x \<in> objs_in \<sigma> cl s \<Longrightarrow> obj_bytes cl x \<subseteq> page_bytes_of \<sigma> s"
  by (auto simp: objs_in_def obj_bytes_def page_bytes_of_def)

lemma page_bytes_of_disjoint:
  assumes "pages_of \<sigma> s \<inter> pages_of \<sigma>' t = {}"
  shows "page_bytes_of \<sigma> s \<inter> page_bytes_of \<sigma>' t = {}"
proof -
  have "b div 4096 \<in> pages_of \<tau> u" if "b \<in> page_bytes_of \<tau> u" for b \<tau> u
    using that by (auto simp: page_bytes_of_def pages_of_def div_less_iff_less_mult less_eq_div_iff_mult_less_eq algebra_simps)
  then show ?thesis using assms by blast
qed

lemma objs_apart_same:
  assumes "x \<in> objs_in \<sigma> cl s" and "y \<in> objs_in \<sigma> cl s" and "x \<noteq> y"
  shows "obj_bytes cl x \<inter> obj_bytes cl y = {}"
proof -
  have "unat a + csize cl \<le> unat b" if "a \<in> objs_in \<sigma> cl s" "b \<in> objs_in \<sigma> cl s" "unat a < unat b" for a b
  proof -
    let ?o = "4096 * sst \<sigma> s"
    have a: "?o \<le> unat a" "csize cl dvd unat a - ?o" and b: "?o \<le> unat b" "csize cl dvd unat b - ?o"
      using that(1,2) by (simp_all add: objs_in_def)
    have "csize cl dvd (unat b - ?o) - (unat a - ?o)" by (rule dvd_diff_nat [OF b(2) a(2)])
    moreover have "(unat b - ?o) - (unat a - ?o) = unat b - unat a" using a(1) b(1) that(3) by simp
    ultimately have "csize cl \<le> unat b - unat a" using that(3) by (auto dest: dvd_imp_le)
    then show ?thesis using that(3) by simp
  qed
  from this [OF assms(1,2)] this [OF assms(2,1)] assms(3) show ?thesis
    by (cases "unat x < unat y") (auto simp: obj_bytes_def word_unat_eq_iff)
qed

lemma apart_unat:
  assumes "unat x + 8 \<le> unat y" and "unat y + 8 \<le> 2 ^ 64"
  shows "apart x y"
proof -
  have "unat (y - x) = unat y - unat x" using assms(1) by (intro unat_minus_no_wrap) simp
  moreover have "unat (x - y) = unat x + 2 ^ 64 - unat y" using assms(1) by (simp add: unat_sub_if_size word_size)
  ultimately have "8 \<le> unat (y - x)" "8 \<le> unat (x - y)" using assms by linarith+
  then show ?thesis by (simp add: apart_def word_le_nat_alt)
qed

lemma bytes_apart:
  assumes "obj_bytes c x \<inter> obj_bytes d y = {}" and "8 \<le> csize c" "8 \<le> csize d"
    and "unat x + csize c \<le> 2 ^ 64" "unat y + csize d \<le> 2 ^ 64"
  shows "apart x y"
proof -
  have "unat x + csize c \<le> unat y \<or> unat y + csize d \<le> unat x"
  proof (rule ccontr)
    assume n: "\<not> ?thesis"
    then have "max (unat x) (unat y) \<in> obj_bytes c x \<inter> obj_bytes d y" using assms(2,3) by (auto simp: obj_bytes_def)
    then show False using assms(1) by blast
  qed
  then show ?thesis
    using apart_unat [of x y] apart_unat [of y x] assms(2-5) apart_sym [of x y] by linarith
qed

lemma card_objs_in:
  assumes "0 < csize cl"
  shows "finite (objs_in \<sigma> cl s) \<and> card (objs_in \<sigma> cl s) \<le> 4096 * sln \<sigma> s div csize cl"
proof -
  let ?f = "\<lambda>x :: u64. (unat x - 4096 * sst \<sigma> s) div csize cl"
  have inj: "inj_on ?f (objs_in \<sigma> cl s)"
  proof (rule inj_onI)
    fix x y assume a: "x \<in> objs_in \<sigma> cl s" "y \<in> objs_in \<sigma> cl s" "?f x = ?f y"
    have "unat z - 4096 * sst \<sigma> s = ?f z * csize cl" if "z \<in> objs_in \<sigma> cl s" for z
      using that by (simp add: objs_in_def)
    from this [OF a(1)] this [OF a(2)] have "unat x - 4096 * sst \<sigma> s = unat y - 4096 * sst \<sigma> s"
      by (simp only: a(3))
    moreover have "4096 * sst \<sigma> s \<le> unat x" "4096 * sst \<sigma> s \<le> unat y" using a(1,2) by (simp_all add: objs_in_def)
    ultimately have "unat x = unat y" by linarith
    then show "x = y" by (simp add: word_unat_eq_iff)
  qed
  have sub: "?f ` objs_in \<sigma> cl s \<subseteq> {..< 4096 * sln \<sigma> s div csize cl}"
  proof
    fix i assume "i \<in> ?f ` objs_in \<sigma> cl s"
    then obtain x where x: "x \<in> objs_in \<sigma> cl s" "i = ?f x" by blast
    then have d: "csize cl * i = unat x - 4096 * sst \<sigma> s" by (simp add: objs_in_def)
    have "4096 * sst \<sigma> s \<le> unat x" "unat x + csize cl \<le> 4096 * sst \<sigma> s + 4096 * sln \<sigma> s" using x(1) by (simp_all add: objs_in_def)
    then have "csize cl * i + csize cl \<le> 4096 * sln \<sigma> s" unfolding d by linarith
    then have "Suc i * csize cl \<le> 4096 * sln \<sigma> s" by (simp add: algebra_simps)
    then have "Suc i \<le> 4096 * sln \<sigma> s div csize cl" using assms by (simp only: less_eq_div_iff_mult_less_eq)
    then show "i \<in> {..< 4096 * sln \<sigma> s div csize cl}" by simp
  qed
  have "finite (?f ` objs_in \<sigma> cl s)" using finite_subset [OF sub] by simp
  then have fin: "finite (objs_in \<sigma> cl s)" using finite_imageD [OF _ inj] by blast
  have "card (objs_in \<sigma> cl s) = card (?f ` objs_in \<sigma> cl s)" using card_image [OF inj] by simp
  also have "\<dots> \<le> card {..< 4096 * sln \<sigma> s div csize cl}" by (rule card_mono [OF _ sub]) simp
  finally show ?thesis using fin by simp
qed

lemma card_class_objs:
  assumes "1 \<le> cl" "cl \<le> 168" and "sln \<sigma> s = unat (class_to_pages ferp_tables ! cl)"
  shows "finite (objs_in \<sigma> cl s)" "card (objs_in \<sigma> cl s) < 2048"
proof -
  note c = class_facts [OF assms(1,2)]
  have "0 < csize cl" using c(1) by simp
  from card_objs_in [OF this, of \<sigma> s] show "finite (objs_in \<sigma> cl s)" by blast
  have "4096 * sln \<sigma> s div csize cl < 2048" using c(1,4) unfolding assms(3) by (simp add: div_less_iff_less_mult)
  then show "card (objs_in \<sigma> cl s) < 2048" using card_objs_in [OF \<open>0 < csize cl\<close>, of \<sigma> s] by simp
qed

section \<open>Memory that an operation leaves alone\<close>

text \<open>Bytes that a store of a word at \<open>a\<close> does not touch keep their value.\<close>

lemma store64_other:
  assumes "unat b < unat a \<or> unat a + 8 \<le> unat b" and "unat a + 8 \<le> 2 ^ 64"
  shows "store64 a v m b = m b"
proof -
  have "\<not> b - a < 8"
  proof
    assume l: "b - a < 8"
    have "unat b = unat a + unat (b - a)"
    proof -
      have "unat (b - a) < 8" using l by (simp add: word_less_nat_alt)
      then have "unat (a + (b - a)) = unat a + unat (b - a)" using assms(2) by (intro unat_plus_no_wrap) simp
      then show ?thesis by simp
    qed
    then show False using assms(1) l by (auto simp: word_less_nat_alt)
  qed
  then show ?thesis by (simp add: store64_def)
qed

lemma load64_bytes:
  assumes "\<And>b. unat a \<le> unat b \<Longrightarrow> unat b < unat a + 8 \<Longrightarrow> m' b = m b" and "unat a + 8 \<le> 2 ^ 64"
  shows "load64 m' a = load64 m a"
proof (rule load64_cong)
  fix i :: u64 assume i: "i < 8"
  then have "unat (a + i) = unat a + unat i" using assms(2) by (intro unat_plus_no_wrap) (simp add: word_less_nat_alt)
  then show "m' (a + i) = m (a + i)" using i by (intro assms(1)) (simp_all add: word_less_nat_alt)
qed

end
