(* ===== verification/CentralInv.thy ===== *)
theory CentralInv
  imports ObjectSpans
begin

text \<open>
  The invariant of the spans that hold objects. \<open>es cl\<close> and \<open>ns cl\<close> are the spans in the two lists of the
  central free list of class \<open>cl\<close>, \<open>fo s\<close> the free objects of the span \<open>s\<close>, \<open>L\<close> the spans held whole by
  the client, \<open>X\<close> the spans an operation is working on, and \<open>out x = Some cl\<close> says that \<open>x\<close> is an object of class \<open>cl\<close> that is not in its span's
  list: with a client, in a thread's cache or in a transfer cache.
\<close>

section \<open>The invariant\<close>

type_synonym span_lists = "nat \<Rightarrow> sref list"

definition members :: "span_lists \<Rightarrow> span_lists \<Rightarrow> nat \<Rightarrow> sref set" where
  "members es ns cl = set (es cl) \<union> set (ns cl)"

definition span_for :: "'a tcmalloc_scheme \<Rightarrow> nat \<Rightarrow> sref \<Rightarrow> u64 list \<Rightarrow> bool" where
  "span_for h cl s f \<longleftrightarrow> 1 \<le> cl \<and> cl \<le> 168 \<and> span_sizeclass (spans_of h s) = word_of_nat cl \<and>
     \<not> span_sample (spans_of h s) \<and> sln (spans_of h) s = unat (class_to_pages ferp_tables ! cl) \<and>
     (\<forall>k\<in>pages_of (spans_of h) s. pmap h k = Some s) \<and> sll (mem h) (span_objects (spans_of h s)) f \<and> distinct f \<and>
     set f \<subseteq> objs_in (spans_of h) cl s \<and>
     unat (span_refcount (spans_of h s)) + length f = card (objs_in (spans_of h) cl s)"

definition large_span :: "'a tcmalloc_scheme \<Rightarrow> sref \<Rightarrow> bool" where
  "large_span h s \<longleftrightarrow> span_sizeclass (spans_of h s) = 0 \<and> \<not> span_sample (spans_of h s) \<and> parked h s"

definition held :: "span_lists \<Rightarrow> span_lists \<Rightarrow> sref set \<Rightarrow> sref set" where
  "held es ns L = L \<union> (\<Union>cl. members es ns cl)"

definition outside :: "spans \<Rightarrow> span_lists \<Rightarrow> span_lists \<Rightarrow> (sref \<Rightarrow> u64 list) \<Rightarrow> u64 \<Rightarrow> nat \<Rightarrow> bool" where
  "outside \<sigma> es ns fo x c \<longleftrightarrow> (\<exists>s\<in>members es ns c. x \<in> objs_in \<sigma> c s \<and> x \<notin> set (fo s))"

definition span_ok :: "'a tcmalloc_scheme \<Rightarrow> sref set \<Rightarrow> sref set \<Rightarrow> span_lists \<Rightarrow> span_lists \<Rightarrow> (sref \<Rightarrow> u64 list) \<Rightarrow>
    (u64 \<rightharpoonup> nat) \<Rightarrow> bool" where
  "span_ok h X L es ns fo out \<longleftrightarrow> (\<exists>P. ph_ok h (held es ns L \<union> X) P) \<and> X \<inter> held es ns L = {} \<and> tables h = ferp_tables \<and>
     (\<forall>cl<170. size_class (central h cl) = word_of_nat cl \<and> dll (spans_of h) (EmptyHead cl) (es cl) \<and>
        dll (spans_of h) (NonemptyHead cl) (ns cl)) \<and>
     (\<forall>cl. \<forall>s\<in>set (es cl). fo s = []) \<and> (\<forall>cl. \<forall>s\<in>set (ns cl). fo s \<noteq> []) \<and>
     (\<forall>cl. \<forall>s\<in>members es ns cl. span_for h cl s (fo s)) \<and> (\<forall>s\<in>L. large_span h s) \<and>
     (\<forall>x c. out x = Some c \<longleftrightarrow> outside (spans_of h) es ns fo x c)"

lemma span_okD:
  assumes "span_ok h X L es ns fo out"
  shows "\<exists>P. ph_ok h (held es ns L \<union> X) P" "X \<inter> held es ns L = {}" "tables h = ferp_tables" "cl < 170 \<Longrightarrow> size_class (central h cl) = word_of_nat cl"
    "cl < 170 \<Longrightarrow> dll (spans_of h) (EmptyHead cl) (es cl)" "cl < 170 \<Longrightarrow> dll (spans_of h) (NonemptyHead cl) (ns cl)"
    "s \<in> set (es cl) \<Longrightarrow> fo s = []" "s \<in> set (ns cl) \<Longrightarrow> fo s \<noteq> []"
    "s \<in> members es ns cl \<Longrightarrow> span_for h cl s (fo s)" "s \<in> L \<Longrightarrow> large_span h s"
    "out x = Some c \<longleftrightarrow> outside (spans_of h) es ns fo x c"
  using assms by (simp_all add: span_ok_def)

lemma ph_ok_bounds:
  assumes ok: "ph_ok h A P" and s: "s \<in> A"
  shows "1 \<le> sst (spans_of h) s" "4096 * (sst (spans_of h) s + sln (spans_of h) s) \<le> 2 ^ 47"
    "pmap h (sst (spans_of h) s) = Some s"
proof -
  obtain fl where I: "ph_inv h A fl P" using ok by (auto simp: ph_ok_def)
  have sL: "s \<in> A \<union> frees fl" using s by blast
  note d = tilingD [OF ph_invD(2) [OF I] sL]
  show "1 \<le> sst (spans_of h) s" "pmap h (sst (spans_of h) s) = Some s" by (rule d)+
  have "page_bytes P \<subseteq> {..<2 ^ 47}" using ph_invD(4) [OF I] unfolding mem_ok_def sys_ok_def by blast
  moreover have "4096 * (sst (spans_of h) s + sln (spans_of h) s) - 1 \<in> page_bytes P"
  proof -
    let ?e = "sst (spans_of h) s + sln (spans_of h) s"
    have "(4096 * ?e - 1) div 4096 = ?e - 1" using d(1) by (cases ?e) simp_all
    moreover have "?e - 1 \<in> pages_of (spans_of h) s" using d(1) by (auto simp: pages_of_def)
    ultimately show ?thesis using d(7) by (auto simp: page_bytes_def)
  qed
  ultimately have "4096 * (sst (spans_of h) s + sln (spans_of h) s) - 1 < 2 ^ 47" by blast
  then show "4096 * (sst (spans_of h) s + sln (spans_of h) s) \<le> 2 ^ 47" by linarith
qed

section \<open>What it says of spans and objects\<close>

lemma held_class: "s \<in> members es ns cl \<Longrightarrow> s \<in> held es ns L \<union> X"
  and held_large: "s \<in> L \<Longrightarrow> s \<in> held es ns L \<union> X"
  by (auto simp: held_def)

lemma span_forD:
  assumes "span_for h cl s f"
  shows "1 \<le> cl" "cl \<le> 168" "cl < 170" "span_sizeclass (spans_of h s) = word_of_nat cl" "\<not> span_sample (spans_of h s)"
    "sln (spans_of h) s = unat (class_to_pages ferp_tables ! cl)"
    "k \<in> pages_of (spans_of h) s \<Longrightarrow> pmap h k = Some s" "sll (mem h) (span_objects (spans_of h s)) f" "distinct f"
    "x \<in> set f \<Longrightarrow> x \<in> objs_in (spans_of h) cl s"
    "unat (span_refcount (spans_of h s)) + length f = card (objs_in (spans_of h) cl s)"
    "unat (span_sizeclass (spans_of h s)) = cl"
  using assms by (auto simp: span_for_def class_word)

lemma span_class_unique:
  assumes ok: "span_ok h X L es ns fo out" and s: "s \<in> members es ns c"
  shows "s \<in> members es ns d \<Longrightarrow> c = d" "s \<notin> L" "s \<notin> X"
proof -
  show "s \<notin> X" using span_okD(2) [OF ok] s by (auto simp: held_def)
  note sc = span_forD [OF span_okD(9) [OF ok s]]
  show "c = d" if "s \<in> members es ns d"
    using span_forD(12) [OF span_okD(9) [OF ok that]] sc(12) by simp
  show "s \<notin> L"
  proof
    assume "s \<in> L"
    then have "span_sizeclass (spans_of h s) = 0" using span_okD(10) [OF ok] by (simp add: large_span_def)
    then show False using sc(1,12) by simp
  qed
qed

lemma empty_nonempty_disjoint:
  assumes ok: "span_ok h X L es ns fo out" and "s \<in> set (es c)"
  shows "s \<notin> set (ns d)"
  using span_okD(7) [OF ok, of s c] span_okD(8) [OF ok, of s d] assms(2) by blast

lemma held_pages:
  assumes ok: "span_ok h X L es ns fo out" and "s \<in> held es ns L \<union> X" "t \<in> held es ns L \<union> X" "s \<noteq> t"
  shows "page_bytes_of (spans_of h) s \<inter> page_bytes_of (spans_of h) t = {}"
proof -
  obtain P where "ph_ok h (held es ns L \<union> X) P" using span_okD(1) [OF ok] by blast
  then show ?thesis using ph_ok_held(4) assms(2-) by (intro page_bytes_of_disjoint) blast
qed

lemma held_bounds:
  assumes ok: "span_ok h X L es ns fo out" and "s \<in> held es ns L \<union> X"
  shows "1 \<le> sst (spans_of h) s" "4096 * (sst (spans_of h) s + sln (spans_of h) s) \<le> 2 ^ 47" "s \<in> range Obj"
    "pmap h (sst (spans_of h) s) = Some s" "1 \<le> sln (spans_of h) s"
proof -
  obtain P where P: "ph_ok h (held es ns L \<union> X) P" using span_okD(1) [OF ok] by blast
  show "1 \<le> sst (spans_of h) s" "4096 * (sst (spans_of h) s + sln (spans_of h) s) \<le> 2 ^ 47"
    "pmap h (sst (spans_of h) s) = Some s" by (rule ph_ok_bounds [OF P assms(2)])+
  show "s \<in> range Obj" "1 \<le> sln (spans_of h) s" using ph_ok_held(3) [OF P assms(2)] by blast+
qed

lemma obj_facts:
  assumes ok: "span_ok h X L es ns fo out" and s: "s \<in> members es ns c" and x: "x \<in> objs_in (spans_of h) c s"
  shows "x \<noteq> 0" "unat x + csize c \<le> 2 ^ 64" "8 \<le> csize c" "unat x + 8 \<le> 2 ^ 64" "4096 \<le> unat x"
    "GetDescriptor (drop_bit 12 x) h = Some s"
proof -
  note b = held_bounds [OF ok held_class [OF s]]
  note f = span_forD [OF span_okD(9) [OF ok s]]
  show c8: "8 \<le> csize c" by (rule class_facts(1) [OF f(1,2)])
  have xb: "4096 * sst (spans_of h) s \<le> unat x" "unat x + csize c \<le> 4096 * (sst (spans_of h) s + sln (spans_of h) s)"
    using x by (simp_all add: objs_in_def)
  show u: "unat x + csize c \<le> 2 ^ 64" using xb(2) b(2) by simp
  show "unat x + 8 \<le> 2 ^ 64" using u c8 by linarith
  show l: "4096 \<le> unat x" using xb(1) b(1) by linarith
  show "x \<noteq> 0" using l by auto
  have "unat x div 4096 \<in> pages_of (spans_of h) s"
    using xb c8 by (simp add: pages_of_def less_eq_div_iff_mult_less_eq div_less_iff_less_mult algebra_simps)
  then have "pmap h (unat x div 4096) = Some s" by (rule f(7))
  then have "GetDescriptor (word_of_nat (unat x div 4096)) h = Some s" by (rule GetDescriptor_pmap)
  moreover have "word_of_nat (unat (drop_bit 12 x)) = drop_bit 12 x" by simp
  then have "drop_bit 12 x = word_of_nat (unat x div 4096)" by (simp add: unat_drop_bit_div)
  ultimately show "GetDescriptor (drop_bit 12 x) h = Some s" by simp
qed

lemma obj_owner:
  assumes ok: "span_ok h X L es ns fo out" and s: "s \<in> members es ns c" and x: "x \<in> objs_in (spans_of h) c s"
    and t: "t \<in> members es ns d" and y: "y \<in> objs_in (spans_of h) d t"
  shows "x \<noteq> y \<Longrightarrow> obj_bytes c x \<inter> obj_bytes d y = {}" "x \<noteq> y \<Longrightarrow> apart x y" "x = y \<Longrightarrow> s = t \<and> c = d"
proof -
  have st: "s = t" if "x = y"
    using obj_facts(6) [OF ok s x] obj_facts(6) [OF ok t y] that by simp
  then show "x = y \<Longrightarrow> s = t \<and> c = d" using span_class_unique(1) [OF ok s] t by auto
  show dis: "obj_bytes c x \<inter> obj_bytes d y = {}" if n: "x \<noteq> y"
  proof (cases "s = t")
    case True
    then have "c = d" using span_class_unique(1) [OF ok s] t by blast
    then show ?thesis using objs_apart_same [OF x _ n] y True by simp
  next
    case False
    have "page_bytes_of (spans_of h) s \<inter> page_bytes_of (spans_of h) t = {}"
      by (rule held_pages [OF ok held_class [OF s] held_class [OF t] False])
    then show ?thesis using objs_in_bytes [OF x] objs_in_bytes [OF y] by blast
  qed
  show "apart x y" if "x \<noteq> y"
    by (rule bytes_apart [OF dis [OF that] obj_facts(3) [OF ok s x] obj_facts(3) [OF ok t y]
        obj_facts(2) [OF ok s x] obj_facts(2) [OF ok t y]])
qed

lemma obj_span_eq:
  assumes ok: "span_ok h X L es ns fo out" and s: "s \<in> held es ns L \<union> X" and x: "x \<in> objs_in (spans_of h) c s" "0 < csize c"
    and t: "t \<in> held es ns L \<union> X" and y: "x \<in> objs_in (spans_of h) d t" "0 < csize d"
  shows "s = t"
proof (rule ccontr)
  assume "s \<noteq> t"
  have "unat x \<in> obj_bytes c x" "unat x \<in> obj_bytes d x" using x(2) y(2) by (auto simp: obj_bytes_def)
  then show False using objs_in_bytes [OF x(1)] objs_in_bytes [OF y(1)] held_pages [OF ok s t \<open>s \<noteq> t\<close>] by blast
qed

lemma out_span:
  assumes ok: "span_ok h X L es ns fo out" and "out x = Some c"
  obtains s where "s \<in> members es ns c" "x \<in> objs_in (spans_of h) c s" "x \<notin> set (fo s)"
  using assms(2) that unfolding span_okD(11) [OF ok] outside_def by blast

lemma out_None:
  assumes ok: "span_ok h X L es ns fo out" and s: "s \<in> members es ns c" and x: "x \<in> set (fo s)"
  shows "out x = None"
proof (rule ccontr)
  assume "out x \<noteq> None"
  then obtain d where "out x = Some d" by blast
  then obtain t where t: "t \<in> members es ns d" "x \<in> objs_in (spans_of h) d t" "x \<notin> set (fo t)" by (rule out_span [OF ok])
  have "x \<in> objs_in (spans_of h) c s" using span_forD(10) [OF span_okD(9) [OF ok s] x] .
  then have "s = t" using obj_owner(3) [OF ok s _ t(1,2) refl] by blast
  then show False using x t(3) by blast
qed

text \<open>Objects that are out share no byte with one another, nor with a span that is held whole.\<close>

lemma out_facts:
  assumes ok: "span_ok h X L es ns fo out" and x: "out x = Some c"
  shows "1 \<le> c \<and> c \<le> 168 \<and> x \<noteq> 0 \<and> unat x + csize c \<le> 2 ^ 64"
    "out y = Some d \<Longrightarrow> x \<noteq> y \<Longrightarrow> obj_bytes c x \<inter> obj_bytes d y = {}"
    "out y = Some d \<Longrightarrow> x \<noteq> y \<Longrightarrow> apart x y"
    "s \<in> L \<Longrightarrow> obj_bytes c x \<inter> page_bytes_of (spans_of h) s = {}"
proof -
  obtain t where t: "t \<in> members es ns c" "x \<in> objs_in (spans_of h) c t" by (rule out_span [OF ok x])
  note o = obj_facts [OF ok t] note f = span_forD [OF span_okD(9) [OF ok t(1)]]
  show "1 \<le> c \<and> c \<le> 168 \<and> x \<noteq> 0 \<and> unat x + csize c \<le> 2 ^ 64" using o(1,2) f(1,2) by blast
  show "obj_bytes c x \<inter> obj_bytes d y = {}" "apart x y" if "out y = Some d" "x \<noteq> y"
    using that out_span [OF ok that(1)] obj_owner(1,2) [OF ok t] by metis+
  show "obj_bytes c x \<inter> page_bytes_of (spans_of h) s = {}" if "s \<in> L"
  proof -
    have "t \<noteq> s" using span_class_unique(2) [OF ok t(1)] that by blast
    then show ?thesis using held_pages [OF ok held_class [OF t(1)] held_large [OF that]] objs_in_bytes [OF t(2)] by blast
  qed
qed

section \<open>What an operation leaves alone\<close>

text \<open>\<open>keeps out L h h'\<close>: no byte of an object that is out or of a span in \<open>L\<close> has changed.\<close>

definition keeps :: "(u64 \<rightharpoonup> nat) \<Rightarrow> sref set \<Rightarrow> 'a tcmalloc_scheme \<Rightarrow> 'a tcmalloc_scheme \<Rightarrow> bool" where
  "keeps out L h h' \<longleftrightarrow>
     (\<forall>x c. out x = Some c \<longrightarrow> (\<forall>b. unat b \<in> obj_bytes c x \<longrightarrow> mem h' b = mem h b)) \<and>
     (\<forall>s\<in>L. sst (spans_of h') s = sst (spans_of h) s \<and> sln (spans_of h') s = sln (spans_of h) s \<and>
        (\<forall>b. unat b \<in> page_bytes_of (spans_of h) s \<longrightarrow> mem h' b = mem h b))"

lemma keeps_refl [simp]: "keeps out L h h"
  by (simp add: keeps_def)

lemma keeps_trans: "keeps out L h h' \<Longrightarrow> keeps out L h' h'' \<Longrightarrow> keeps out L h h''"
  by (simp add: keeps_def page_bytes_of_def)

lemma keeps_mono: "keeps out L h h' \<Longrightarrow> out' \<subseteq>\<^sub>m out \<Longrightarrow> L' \<subseteq> L \<Longrightarrow> keeps out' L' h h'"
  unfolding keeps_def map_le_def dom_def by (metis (mono_tags, lifting) mem_Collect_eq option.discI subsetD)

lemma keeps_load:
  assumes ok: "span_ok h X L es ns fo out" and k: "keeps out' L' h h'" and x: "out' x = Some c" "out x = Some c"
  shows "load64 (mem h') x = load64 (mem h) x"
proof -
  obtain t where t: "t \<in> members es ns c" "x \<in> objs_in (spans_of h) c t" by (rule out_span [OF ok x(2)])
  note o = obj_facts [OF ok t]
  show ?thesis
    by (rule load64_bytes [OF _ o(4)]) (use k x(1) o(3) in \<open>auto simp: keeps_def obj_bytes_def\<close>)
qed

text \<open>The allocator's state outside the spans and the memory, but for the counters.\<close>

definition rest :: "'a tcmalloc_scheme \<Rightarrow> 'a tcmalloc_ext" where
  "rest h = page_heap.more (h\<lparr>mem := (\<lambda>_. 0), central := (\<lambda>cl. (central h cl)\<lparr>counter := 0\<rparr>)\<rparr>)"

lemma rest_simps [simp]: "rest (h\<lparr>spans_of := \<sigma>\<rparr>) = rest h" "rest (h\<lparr>mem := m\<rparr>) = rest h"
  by (cases h; simp add: rest_def)+

lemma rest_central [simp]:
  assumes "\<And>x. (c x)\<lparr>counter := 0\<rparr> = (central h x)\<lparr>counter := 0\<rparr>"
  shows "rest (h\<lparr>central := c\<rparr>) = rest h"
  using assms by (cases h) (simp add: rest_def fun_eq_iff)

lemma rest_frame: "page_heap.more h' = page_heap.more h \<Longrightarrow> rest h' = rest h \<and> mem h' = mem h \<and> central h' = central h"
  by (cases h; cases h'; simp add: rest_def)

lemma central_eq_counter: "(c :: central_free_list)\<lparr>counter := 0\<rparr> = d\<lparr>counter := 0\<rparr> \<longleftrightarrow>
   size_class c = size_class d \<and> tc_slots c = tc_slots d \<and> used_slots c = used_slots d \<and> cache_size c = cache_size d"
  by (cases c; cases d) auto

lemma rest_eqD:
  assumes "rest h' = rest h"
  shows "tables h' = tables h" "size_class (central h' cl) = size_class (central h cl)"
    "tc_slots (central h' cl) = tc_slots (central h cl)" "used_slots (central h' cl) = used_slots (central h cl)"
    "cache_size (central h' cl) = cache_size (central h cl)" "caches h' = caches h" "race_counter h' = race_counter h"
    "tsd_inited h' = tsd_inited h" "heap_key h' = heap_key h" "mth h' = mth h"
    "per_thread_cache_size h' = per_thread_cache_size h"
proof -
  have c: "(\<lambda>cl. (central h' cl)\<lparr>counter := 0\<rparr>) = (\<lambda>cl. (central h cl)\<lparr>counter := 0\<rparr>)"
    using assms by (cases h; cases h') (simp add: rest_def)
  then have "(central h' cl)\<lparr>counter := 0\<rparr> = (central h cl)\<lparr>counter := 0\<rparr>" for cl by (rule fun_cong)
  then show "size_class (central h' cl) = size_class (central h cl)" "tc_slots (central h' cl) = tc_slots (central h cl)"
    "used_slots (central h' cl) = used_slots (central h cl)" "cache_size (central h' cl) = cache_size (central h cl)"
    by (simp_all add: central_eq_counter)
  show "tables h' = tables h" "caches h' = caches h" "race_counter h' = race_counter h"
    "tsd_inited h' = tsd_inited h" "heap_key h' = heap_key h" "mth h' = mth h"
    "per_thread_cache_size h' = per_thread_cache_size h"
    using assms by (cases h; cases h'; simp add: rest_def)+
qed

end
