(* ===== verification/CentralOps.thy ===== *)
theory CentralOps
  imports CentralInv
begin

text \<open>
  The central free list over its spans: \<open>FetchFromSpans\<close>, \<open>ReleaseToSpans\<close>, \<open>ReleaseListToSpans\<close>,
  \<open>Populate\<close>. Each keeps the invariant \<open>span_ok\<close>, hands out objects that were not out, takes back
  objects that were, and changes no byte of any other object.
\<close>

section \<open>A change to one span of one list\<close>

lemma span_ok_update:
  fixes h h' :: "'a tcmalloc_scheme"
  assumes ok: "span_ok h X L es ns fo out" and s: "s \<in> members es ns cl \<union> X" and cl: "1 \<le> cl" "cl \<le> 168"
    and core: "page_heap.truncate (h'\<lparr>spans_of := spans_of h\<rparr>) = page_heap.truncate h" and r: "rest h' = rest h"
    and other: "\<And>t. t \<notin> insert s (members es ns cl) \<Longrightarrow> t \<noteq> EmptyHead cl \<Longrightarrow> t \<noteq> NonemptyHead cl \<Longrightarrow> spans_of h' t = spans_of h t"
    and data: "\<And>t. t \<noteq> s \<Longrightarrow> span_data (spans_of h' t) = span_data (spans_of h t)"
    and own: "span_start (spans_of h' s) = span_start (spans_of h s)" "span_length (spans_of h' s) = span_length (spans_of h s)"
      "span_free (spans_of h' s) = span_free (spans_of h s)"
    and dlls: "dll (spans_of h') (EmptyHead cl) e" "dll (spans_of h') (NonemptyHead cl) n"
    and sets: "set e \<union> set n - {s} = members es ns cl - {s}" "set e - {s} \<subseteq> set (es cl)" "set n - {s} \<subseteq> set (ns cl)"
    and X': "X' = (if s \<in> set e \<union> set n then X - {s} else insert s X)"
    and new: "s \<in> set e \<union> set n \<Longrightarrow> span_for h' cl s f" "s \<in> set e \<Longrightarrow> f = []" "s \<in> set n \<Longrightarrow> f \<noteq> []"
    and mm: "\<And>t d x. t \<in> members es ns d \<Longrightarrow> t \<noteq> s \<Longrightarrow> x \<in> set (fo t) \<Longrightarrow> load64 (mem h') x = load64 (mem h) x"
    and out': "\<And>x d. out' x = Some d \<longleftrightarrow>
      (if x \<in> objs_in (spans_of h) cl s then s \<in> set e \<union> set n \<and> d = cl \<and> x \<notin> set f else out x = Some d)"
  shows "span_ok h' X' L (es(cl := e)) (ns(cl := n)) (fo(s := f)) out'"
proof -
  let ?es = "es(cl := e)" and ?ns = "ns(cl := n)" and ?fo = "fo(s := f)"
  have cls: "s \<in> members es ns c \<Longrightarrow> c = cl" "s \<notin> L" for c
    using s span_class_unique [OF ok] span_okD(2) [OF ok] by (auto simp: held_def)
  have M: "members ?es ?ns c = (if c = cl then set e \<union> set n else members es ns c)" for c by (simp add: members_def)
  have Ms: "t \<in> members ?es ?ns c \<longleftrightarrow> t \<in> members es ns c" if "t \<noteq> s" for t c
    using that sets(1) unfolding M by auto
  have sM: "s \<in> members ?es ?ns c \<longleftrightarrow> c = cl \<and> s \<in> set e \<union> set n" for c using cls(1) [of c] unfolding M by auto
  have Hs: "s \<in> held ?es ?ns L \<longleftrightarrow> s \<in> set e \<union> set n" using cls(2) sM by (auto simp: held_def)
  have Ht: "t \<in> held ?es ?ns L \<longleftrightarrow> t \<in> held es ns L" if "t \<noteq> s" for t using Ms [OF that] by (auto simp: held_def)
  have sh: "s \<in> held es ns L \<union> X" using s held_class [of s es ns cl L X] by blast
  have H: "held ?es ?ns L \<union> X' = held es ns L \<union> X"
  proof (rule set_eqI)
    fix t show "t \<in> held ?es ?ns L \<union> X' \<longleftrightarrow> t \<in> held es ns L \<union> X"
      using Hs Ht [of t] sh by (cases "t = s") (auto simp: X')
  qed
  have "t \<notin> X' \<or> t \<notin> held ?es ?ns L" for t
    using span_okD(2) [OF ok] Hs Ht [of t] by (cases "t = s") (auto simp: X')
  then have XX: "X' \<inter> held ?es ?ns L = {}" by blast
  obtain P where P: "ph_ok h (held es ns L \<union> X) P" using span_okD(1) [OF ok] by blast
  have dt: "span_start (spans_of h' t) = span_start (spans_of h t)" "span_length (spans_of h' t) = span_length (spans_of h t)"
    "span_free (spans_of h' t) = span_free (spans_of h t)" for t
    using own data [of t] span_data_eqD [of "spans_of h' t" "spans_of h t"] by (cases "t = s"; simp)+
  have ext: "sst (spans_of h') = sst (spans_of h)" "sln (spans_of h') = sln (spans_of h)"
    by (simp_all add: fun_eq_iff sst_def sln_def dt)
  have oi: "objs_in (spans_of h') = objs_in (spans_of h)" "pages_of (spans_of h') = pages_of (spans_of h)"
    by (simp_all add: fun_eq_iff objs_in_def pages_of_def ext)
  have obj: "t \<in> range Obj" if "t \<in> held es ns L \<union> X" for t by (rule held_bounds(3) [OF ok that])
  have "caller_writes (held es ns L \<union> X) h h'"
    unfolding caller_writes_def
  proof (intro conjI allI ballI impI)
    fix t assume t: "t \<in> range Obj \<union> heads" "t \<notin> held es ns L \<union> X"
    have "t \<notin> insert s (members es ns cl)" using t(2) sh held_class [of t es ns cl L X] by blast
    then show "spans_of h' t = spans_of h t" by (rule other) (use t in \<open>auto simp: heads_def\<close>)
  qed (use core dt in simp_all)
  from caller_writes_ok [OF P this] have P': "ph_ok h' (held ?es ?ns L \<union> X') P" unfolding H .
  have pm: "pmap h' = pmap h" by (rule pmap_cong) (use core in \<open>simp add: page_heap.defs\<close>)
  have far: "spans_of h' t = spans_of h t" if "t \<in> L \<or> t \<in> members es ns c \<and> c \<noteq> cl \<or> t = EmptyHead c \<and> c \<noteq> cl \<or> t = NonemptyHead c \<and> c \<noteq> cl" for t c
  proof (rule other)
    have m: "u \<in> range Obj" if "u \<in> insert s (members es ns d)" for u d
      using that obj sh held_class [of u es ns d L X] by blast
    have u: "u \<notin> L \<and> (u \<in> members es ns c \<longrightarrow> c = cl)" if "u \<in> members es ns cl" for u
      using span_class_unique(1) [OF ok that, of c] span_class_unique(2) [OF ok that] by auto
    show "t \<notin> insert s (members es ns cl)" using that u [of t] cls m [of t cl] by auto
    have "t \<in> range Obj" if "t \<in> L" by (rule obj [OF held_large [OF that]])
    moreover have "t \<in> range Obj" if "t \<in> members es ns c" using m that by blast
    ultimately show "t \<noteq> EmptyHead cl" "t \<noteq> NonemptyHead cl" using that by auto
  qed
  have dl: "dll (spans_of h') (EmptyHead c) (?es c) \<and> dll (spans_of h') (NonemptyHead c) (?ns c)" if "c < 170" for c
  proof (cases "c = cl")
    case False
    have "t \<in> set (es c) \<or> t \<in> set (ns c) \<or> t = EmptyHead c \<or> t = NonemptyHead c \<Longrightarrow> spans_of h' t = spans_of h t" for t
      using far [of t c] False by (auto simp: members_def)
    then have "dll (spans_of h') (EmptyHead c) (es c)" "dll (spans_of h') (NonemptyHead c) (ns c)"
      by (rule_tac dll_cong [OF span_okD(5) [OF ok that]] dll_cong [OF span_okD(6) [OF ok that]]; auto)+
    then show ?thesis using False by simp
  qed (use dlls in simp)
  have e': "?fo t = []" if "t \<in> set (?es c)" for t c
  proof (cases "t = s")
    case True
    then have "c = cl" using that sM [of c] by (auto simp: members_def)
    then show ?thesis using that True new(2) by simp
  next
    case False
    then have "t \<in> set (es c)" using that sets(2) by (cases "c = cl") auto
    then show ?thesis using span_okD(7) [OF ok] False by simp
  qed
  have n': "?fo t \<noteq> []" if "t \<in> set (?ns c)" for t c
  proof (cases "t = s")
    case True
    then have "c = cl" using that sM [of c] by (auto simp: members_def)
    then show ?thesis using that True new(3) by simp
  next
    case False
    then have "t \<in> set (ns c)" using that sets(3) by (cases "c = cl") auto
    then show ?thesis using span_okD(8) [OF ok] False by simp
  qed
  have sf: "span_for h' c t (?fo t)" if t: "t \<in> members ?es ?ns c" for t c
  proof (cases "t = s")
    case True then show ?thesis using sM [of c] t new(1) by simp
  next
    case False
    have t': "t \<in> members es ns c" using t Ms [OF False] by blast
    note b = span_okD(9) [OF ok t']
    have "sll (mem h') (span_objects (spans_of h t)) (fo t)"
      using sll_cong [of "fo t" "mem h'" "mem h"] mm [OF t' False] span_forD(8) [OF b] by simp
    then show ?thesis using b False span_data_eqD [OF data [OF False]]
      by (simp add: span_for_def oi pm ext)
  qed
  have c0: "0 < csize cl" using class_facts(1) [OF cl] by simp
  have only: "t = s" if "t \<in> members es ns d" "x \<in> objs_in (spans_of h) d t" "x \<in> objs_in (spans_of h) cl s" for t d x
    using obj_span_eq [OF ok sh that(3) c0 held_class [OF that(1)] that(2)] obj_facts(3) [OF ok that(1,2)] by simp
  have os: "outside (spans_of h') ?es ?ns ?fo x d \<longleftrightarrow> out' x = Some d" for x d
  proof (cases "x \<in> objs_in (spans_of h) cl s")
    case True
    have "(\<exists>t\<in>members ?es ?ns d. x \<in> objs_in (spans_of h) d t \<and> x \<notin> set (?fo t)) \<longleftrightarrow>
      s \<in> set e \<union> set n \<and> d = cl \<and> x \<notin> set f" (is "?l = ?r")
    proof
      assume ?l
      then obtain t where t: "t \<in> members ?es ?ns d" "x \<in> objs_in (spans_of h) d t" "x \<notin> set (?fo t)" by blast
      then have "t = s" using only [OF _ t(2) True] Ms by blast
      then show ?r using t sM by auto
    next
      assume ?r then show ?l using sM [of cl] True by (intro bexI [of _ s]) auto
    qed
    then show ?thesis using True by (simp add: outside_def oi out')
  next
    case False
    have "x \<in> objs_in (spans_of h) d s \<Longrightarrow> s \<notin> members ?es ?ns d \<and> s \<notin> members es ns d" for d
      using False sM [of d] cls(1) [of d] by auto
    then have "(\<exists>t\<in>members ?es ?ns d. x \<in> objs_in (spans_of h) d t \<and> x \<notin> set (?fo t)) \<longleftrightarrow> outside (spans_of h) es ns fo x d"
      unfolding outside_def using Ms by (metis fun_upd_other)
    then show ?thesis using False span_okD(11) [OF ok, of x d] by (simp add: outside_def oi out')
  qed
  have lg: "large_span h' t" if "t \<in> L" for t
    using span_okD(10) [OF ok that] far [of t] that by (simp add: large_span_def parked_def)
  show ?thesis
    unfolding span_ok_def
    using P' XX dl e' n' sf lg os rest_eqD(1,2) [OF r] span_okD(3,4) [OF ok] by (intro conjI allI ballI impI exI [of _ P]) auto
qed

text \<open>Moving a span from one list to the front of another.\<close>

lemma move_span:
  assumes "dll \<sigma> l (xs @ s # ys)" and "dll \<sigma> k zs" and "set (l # xs @ s # ys) \<inter> set (k # zs) = {}"
  shows "\<exists>\<sigma>1 \<sigma>2. DLL_Remove s \<sigma> = Some \<sigma>1 \<and> DLL_Prepend k s \<sigma>1 = Some \<sigma>2 \<and> dll \<sigma>2 l (xs @ ys) \<and>
    dll \<sigma>2 k (s # zs) \<and> relinked (set (l # xs @ s # ys) \<union> set (k # zs)) \<sigma> \<sigma>2"
proof -
  obtain \<sigma>1 where 1: "DLL_Remove s \<sigma> = Some \<sigma>1" "dll \<sigma>1 l (xs @ ys)" "relinked (set (l # xs @ s # ys)) \<sigma> \<sigma>1"
    "span_next (\<sigma>1 s) = Null" "span_prev (\<sigma>1 s) = Null" using DLL_Remove_spec [OF assms(1)] by blast
  have k: "dll \<sigma>1 k zs" by (rule dll_relinked [OF assms(2) 1(3) assms(3)])
  have s: "s \<notin> set (k # zs)" "s \<noteq> Null" "s \<notin> set (l # xs @ ys)" using assms(1,3) by (auto simp: dll_def)
  obtain \<sigma>2 where 2: "DLL_Prepend k s \<sigma>1 = Some \<sigma>2" "dll \<sigma>2 k (s # zs)" "relinked (insert s (set (k # zs))) \<sigma>1 \<sigma>2"
    using DLL_Prepend_spec [OF k s(1,2) 1(4,5)] by blast
  have "dll \<sigma>2 l (xs @ ys)" by (rule dll_relinked [OF 1(2) 2(3)]) (use s(3) assms(3) in auto)
  moreover have "relinked (set (l # xs @ s # ys) \<union> set (k # zs)) \<sigma> \<sigma>2"
    using 1(3) 2(3) by (auto simp: relinked_def)
  ultimately show ?thesis using 1(1) 2(1,2) by blast
qed

section \<open>\<open>FetchFromSpans\<close>\<close>

lemma keeps_same_mem:
  assumes "mem h' = mem h" and "\<And>t. t \<in> L \<Longrightarrow> spans_of h' t = spans_of h t"
  shows "keeps out L h h'"
  using assms by (simp add: keeps_def sst_def sln_def)

lemma refcount_Suc:
  assumes "unat (r :: 11 word) + Suc n = m" and "m < 2048"
  shows "unat (r + 1) = Suc (unat r)"
  using assms by (subst unat_plus_if_size) (simp add: word_size)

lemma class_span_lists:
  assumes ok: "span_ok h X L es ns fo out" and cl: "cl < 170"
  shows "set (EmptyHead cl # es cl) \<inter> set (NonemptyHead cl # ns cl) = {}"
    "relinked (set (EmptyHead cl # es cl) \<union> set (NonemptyHead cl # ns cl)) \<sigma> \<sigma>' \<Longrightarrow> t \<notin> members es ns cl \<Longrightarrow>
      t \<noteq> EmptyHead cl \<Longrightarrow> t \<noteq> NonemptyHead cl \<Longrightarrow> \<sigma>' t = \<sigma> t"
proof -
  have o: "t \<in> range Obj" if "t \<in> members es ns cl" for t by (rule held_bounds(3) [OF ok held_class [OF that]])
  then have "EmptyHead cl \<notin> members es ns cl" "NonemptyHead cl \<notin> members es ns cl" by blast+
  then show "set (EmptyHead cl # es cl) \<inter> set (NonemptyHead cl # ns cl) = {}"
    using empty_nonempty_disjoint [OF ok] by (auto simp: members_def)
  show "relinked (set (EmptyHead cl # es cl) \<union> set (NonemptyHead cl # ns cl)) \<sigma> \<sigma>' \<Longrightarrow> t \<notin> members es ns cl \<Longrightarrow>
      t \<noteq> EmptyHead cl \<Longrightarrow> t \<noteq> NonemptyHead cl \<Longrightarrow> \<sigma>' t = \<sigma> t"
    by (rule relinked_other) (auto simp: members_def)
qed

lemma FetchFromSpans_none:
  assumes ok: "span_ok h X L es ns fo out" and cl: "cl < 170" and "ns cl = []"
  shows "FetchFromSpans cl h = Some (0, h)"
  using DLL_IsEmpty_dll [OF span_okD(6) [OF ok cl]] assms(3) by (simp add: FetchFromSpans_def)

lemma FetchFromSpans_some:
  assumes ok: "span_ok h X L es ns fo out" and cl: "cl < 170" and ne: "ns cl \<noteq> []"
  shows "\<exists>x h' es' ns' fo'. FetchFromSpans cl h = Some (x, h') \<and> x \<noteq> 0 \<and> out x = None \<and>
    span_ok h' X L es' ns' fo' (out(x \<mapsto> cl)) \<and> keeps out L h h' \<and> rest h' = rest h"
proof -
  let ?\<sigma> = "spans_of h"
  obtain s ss where ns: "ns cl = s # ss" using ne by (cases "ns cl") auto
  have s: "s \<in> members es ns cl" by (simp add: members_def ns)
  note b = span_forD [OF span_okD(9) [OF ok s]]
  obtain x fs where f: "fo s = x # fs" using span_okD(8) [OF ok, of s cl] ns by (cases "fo s") auto
  have d: "dll ?\<sigma> (EmptyHead cl) (es cl)" "dll ?\<sigma> (NonemptyHead cl) ([] @ s # ss)"
    using span_okD(5,6) [OF ok cl] by (simp_all add: ns)
  define q where "q = load64 (mem h) x"
  have x: "span_objects (?\<sigma> s) = x" "x \<noteq> 0" "sll (mem h) q fs" using b(8) f by (simp_all add: q_def)
  have xo: "x \<in> objs_in ?\<sigma> cl s" "x \<notin> set fs" "distinct fs" using b(9,10) f by auto
  have rc: "unat (span_refcount (?\<sigma> s) + 1) = Suc (unat (span_refcount (?\<sigma> s)))"
    by (rule refcount_Suc [where n = "length fs", OF _ card_class_objs(2) [OF b(1,2,6)]]) (use b(11) f in simp)
  have sN: "s \<noteq> Null" and emp: "\<not> DLL_IsEmpty (NonemptyHead cl) ?\<sigma>" "span_next (?\<sigma> (NonemptyHead cl)) = s"
    using d(2) DLL_IsEmpty_dll [OF d(2)] by (auto simp: dll_def)
  define y where "y = (?\<sigma> s)\<lparr>span_refcount := span_refcount (?\<sigma> s) + 1, span_objects := q\<rparr>"
  define \<sigma>1 where "\<sigma>1 = ?\<sigma>(s := y)"
  have d1: "dll \<sigma>1 (EmptyHead cl) (es cl)" "dll \<sigma>1 (NonemptyHead cl) ([] @ s # ss)"
    unfolding \<sigma>1_def by (rule dll_update [OF d(1)] dll_update [OF d(2)]; simp add: y_def)+
  obtain \<sigma>2 e n where r: "(if q = 0 then do { \<sigma> \<leftarrow> DLL_Remove s \<sigma>1; DLL_Prepend (EmptyHead cl) s \<sigma> } else Some \<sigma>1) = Some \<sigma>2"
    and dl: "dll \<sigma>2 (EmptyHead cl) e" "dll \<sigma>2 (NonemptyHead cl) n"
    and rl: "relinked (set (EmptyHead cl # es cl) \<union> set (NonemptyHead cl # ns cl)) \<sigma>1 \<sigma>2"
    and sets: "set e \<union> set n = members es ns cl" "set e - {s} \<subseteq> set (es cl)" "set n - {s} \<subseteq> set (ns cl)"
    and fe: "s \<in> set e \<Longrightarrow> fs = []" "s \<in> set n \<Longrightarrow> fs \<noteq> []"
  proof (cases "q = 0")
    case True
    have "fs = []" using x(3) True by (simp add: sll_0)
    moreover have "set (NonemptyHead cl # [] @ s # ss) \<inter> set (EmptyHead cl # es cl) = {}"
      using class_span_lists(1) [OF ok cl] ns by auto
    from move_span [OF d1(2,1) this] obtain \<sigma>0 \<sigma>2 where m: "DLL_Remove s \<sigma>1 = Some \<sigma>0" "DLL_Prepend (EmptyHead cl) s \<sigma>0 = Some \<sigma>2"
      "dll \<sigma>2 (NonemptyHead cl) ss" "dll \<sigma>2 (EmptyHead cl) (s # es cl)"
      "relinked (set (EmptyHead cl # es cl) \<union> set (NonemptyHead cl # ns cl)) \<sigma>1 \<sigma>2" by (auto simp: ns Un_commute)
    ultimately show thesis using d(2) True by (intro that [of \<sigma>2 "s # es cl" ss]) (auto simp: members_def ns dll_def)
  next
    case False
    then have "fs \<noteq> []" using x(3) by auto
    moreover have "s \<notin> set (es cl)" using empty_nonempty_disjoint [OF ok, of s cl cl] ns by auto
    ultimately show thesis using d1 False by (intro that [of \<sigma>1 "es cl" "ns cl"]) (auto simp: members_def ns relinked_def)
  qed
  define h' where "h' = upd_central cl (\<lambda>c. c\<lparr>counter := counter c - 1\<rparr>) (h\<lparr>spans_of := \<sigma>2\<rparr>)"
  have run: "FetchFromSpans cl h = Some (x, h')"
    using r sN emp x by (cases "q = 0")
      (auto simp: FetchFromSpans_def rd_def wr_def on_spans_def SLL_Next_def q_def [symmetric] h'_def \<sigma>1_def y_def option_monad)
  have sp: "span_data (\<sigma>2 t) = span_data (\<sigma>1 t)" for t using rl by (simp add: relinked_def)
  note y2 = relinked_data [OF rl, of s]
  have out': "(out(x \<mapsto> cl)) z = Some c \<longleftrightarrow> (if z \<in> objs_in ?\<sigma> cl s then c = cl \<and> z \<notin> set fs else out z = Some c)" for z c
  proof (cases "z = x")
    case True then show ?thesis using xo by auto
  next
    case False
    have "out z = Some c \<longleftrightarrow> c = cl \<and> z \<notin> set fs" if z: "z \<in> objs_in ?\<sigma> cl s"
    proof
      assume "out z = Some c"
      then obtain t where "t \<in> members es ns c" "z \<in> objs_in ?\<sigma> c t" "z \<notin> set (fo t)" by (rule out_span [OF ok])
      with obj_owner(3) [OF ok s z this(1,2)] f show "c = cl \<and> z \<notin> set fs" by auto
    next
      assume "c = cl \<and> z \<notin> set fs"
      then show "out z = Some c" unfolding span_okD(11) [OF ok] outside_def
        using s z f False by (intro bexI [of _ s]) auto
    qed
    then show ?thesis using False by simp
  qed
  have "span_ok h' X L (es(cl := e)) (ns(cl := n)) (fo(s := fs)) (out(x \<mapsto> cl))"
  proof (rule span_ok_update [where f = fs, OF ok _ b(1,2) _ _ _ _ _ _ _ _ _ _ sets(2,3)])
    show "page_heap.truncate (h'\<lparr>spans_of := spans_of h\<rparr>) = page_heap.truncate h" by (simp add: h'_def page_heap.defs)
    show "rest h' = rest h" by (simp add: h'_def)
    show "spans_of h' t = spans_of h t" if "t \<notin> insert s (members es ns cl)" "t \<noteq> EmptyHead cl" "t \<noteq> NonemptyHead cl" for t
      using class_span_lists(2) [OF ok cl rl _ that(2,3)] that(1) by (simp add: h'_def \<sigma>1_def)
    show "span_data (spans_of h' t) = span_data (spans_of h t)" if "t \<noteq> s" for t
      using sp [of t] that by (simp add: h'_def \<sigma>1_def)
    show "dll (spans_of h') (EmptyHead cl) e" "dll (spans_of h') (NonemptyHead cl) n" using dl by (simp_all add: h'_def)
    have eq: "sst \<sigma>2 s = sst ?\<sigma> s" "sln \<sigma>2 s = sln ?\<sigma> s" "pages_of \<sigma>2 s = pages_of ?\<sigma> s" "objs_in \<sigma>2 cl s = objs_in ?\<sigma> cl s"
      by (simp_all add: sst_def sln_def pages_of_def objs_in_def y2 \<sigma>1_def y_def)
    have pm: "pmap h' = pmap h" by (rule pmap_cong) (simp add: h'_def)
    show "((out(x \<mapsto> cl)) z = Some c) = (if z \<in> objs_in ?\<sigma> cl s then s \<in> set e \<union> set n \<and> c = cl \<and> z \<notin> set fs else out z = Some c)"
      for z c using out' [of z c] sets(1) s by auto
    show "span_for h' cl s fs"
      using span_okD(9) [OF ok s] xo x(3) rc f unfolding span_for_def pm
      by (simp add: h'_def eq y2 \<sigma>1_def y_def)
  qed (use y2 s sets(1) fe span_class_unique(3) [OF ok s] in \<open>auto simp: h'_def \<sigma>1_def y_def\<close>)
  moreover have "keeps out L h h'"
  proof (rule keeps_same_mem)
    fix t assume "t \<in> L"
    then have "t \<notin> members es ns cl" "t \<in> range Obj" using span_class_unique(2) [OF ok] held_bounds(3) [OF ok held_large] by blast+
    then show "spans_of h' t = spans_of h t"
      using class_span_lists(2) [OF ok cl rl, of t] s by (auto simp: h'_def \<sigma>1_def)
  qed (simp add: h'_def)
  moreover have "out x = None" by (rule out_None [OF ok s]) (simp add: f)
  moreover have "rest h' = rest h" by (simp add: h'_def)
  ultimately show ?thesis using run x(2) by blast
qed

section \<open>The page heap's operations\<close>

lemma span_ok_frame:
  assumes ok: "span_ok h X L es ns fo out" and ph: "ph_ok h' (held es ns L \<union> X') P'"
    and dis: "X' \<inter> held es ns L = {}" and fr: "ph_frame (held es ns L) h h'"
  shows "span_ok h' X' L es ns fo out \<and> rest h' = rest h \<and> keeps out L h h'"
proof -
  have m: "rest h' = rest h" "mem h' = mem h" "central h' = central h"
    using rest_frame [of h' h] fr by (simp_all add: ph_frame_def)
  have sp: "spans_of h' t = spans_of h t" if "t \<in> held es ns L \<or> t \<notin> range Obj \<union> heads" for t
    using fr that by (auto simp: ph_frame_def)
  have mem_held: "t \<in> held es ns L" if "t \<in> members es ns c" for t c using held_class [OF that, of L "{}"] by simp
  have pm: "pmap h' k = pmap h k" if "t \<in> held es ns L" "k \<in> pages_of (spans_of h) t" for t k
    using fr that by (auto simp: ph_frame_def)
  have hd: "spans_of h' (EmptyHead c) = spans_of h (EmptyHead c)" "spans_of h' (NonemptyHead c) = spans_of h (NonemptyHead c)" for c
    by (rule sp; auto simp: heads_def)+
  have oi: "objs_in (spans_of h') c t = objs_in (spans_of h) c t" "pages_of (spans_of h') t = pages_of (spans_of h) t"
    "sln (spans_of h') t = sln (spans_of h) t" "sst (spans_of h') t = sst (spans_of h) t" if "t \<in> held es ns L" for t c
    using sp [of t] that by (simp_all add: objs_in_def pages_of_def sst_def sln_def)
  have dl: "dll (spans_of h') (EmptyHead c) (es c)" "dll (spans_of h') (NonemptyHead c) (ns c)" if "c < 170" for c
  proof -
    have "t \<in> set (es c) \<or> t \<in> set (ns c) \<Longrightarrow> spans_of h' t = spans_of h t" for t
      using sp [of t] mem_held [of t c] by (auto simp: members_def)
    then show "dll (spans_of h') (EmptyHead c) (es c)" "dll (spans_of h') (NonemptyHead c) (ns c)"
      using hd by (rule_tac dll_cong [OF span_okD(5) [OF ok that]] dll_cong [OF span_okD(6) [OF ok that]]; auto)+
  qed
  have sf: "span_for h' c t (fo t)" if "t \<in> members es ns c" for t c
    using span_okD(9) [OF ok that] oi [OF mem_held [OF that]] sp [of t] mem_held [OF that] pm [OF mem_held [OF that]]
    by (simp add: span_for_def m)
  have lg: "large_span h' t" if "t \<in> L" for t
    using span_okD(10) [OF ok that] sp [of t] that by (simp add: large_span_def parked_def held_def)
  have os: "outside (spans_of h') es ns fo x c \<longleftrightarrow> outside (spans_of h) es ns fo x c" for x c
    unfolding outside_def using oi(1) [OF mem_held] by (intro bex_cong refl) auto
  have "span_ok h' X' L es ns fo out"
    unfolding span_ok_def os
    using ph dis dl sf lg rest_eqD(1) [OF m(1)] span_okD(3,4,7,8,11) [OF ok] m(3)
    by (intro conjI allI ballI impI exI [of _ P']) auto
  moreover have "keeps out L h h'"
    by (rule keeps_same_mem [OF m(2)]) (simp add: sp held_def)
  ultimately show ?thesis using m(1) by blast
qed

lemma span_ok_delete:
  assumes ok: "span_ok h (insert s X) L es ns fo out" and s: "s \<notin> X" and pk: "parked h s"
  shows "\<exists>h'. PH_Delete s h = Some h' \<and> span_ok h' X L es ns fo out \<and> rest h' = rest h \<and> keeps out L h h'"
proof -
  obtain P where P: "ph_ok h (held es ns L \<union> insert s X) P" using span_okD(1) [OF ok] by blast
  have d: "insert s X \<inter> held es ns L = {}" by (rule span_okD(2) [OF ok])
  have A: "held es ns L \<union> insert s X - {s} = held es ns L \<union> X" using d s by blast
  obtain h' where h': "PH_Delete s h = Some h'" "ph_ok h' (held es ns L \<union> X) P" "ph_frame (held es ns L \<union> X) h h'"
    using Delete_ok [OF P _ pk] unfolding A by blast
  have "span_ok h' X L es ns fo out \<and> rest h' = rest h \<and> keeps out L h h'"
    by (rule span_ok_frame [OF ok h'(2) _ ph_frame_mono [OF h'(3)]]) (use d in auto)
  then show ?thesis using h'(1) by blast
qed

section \<open>\<open>ReleaseToSpans\<close>\<close>

lemma refcount_pred:
  assumes "0 < unat (r :: 11 word)"
  shows "unat (r - 1) = unat r - 1" "r \<noteq> 0"
  using assms by (auto simp: unat_gt_0 unat_minus_one)

text \<open>The span, in the list of spans with free objects even if it had none.\<close>

lemma release_list:
  assumes ok: "span_ok h X L es ns fo out" and cl: "cl < 170" and s: "s \<in> members es ns cl"
  obtains \<sigma>1 e xs ys where
    "(if span_objects (spans_of h s) = 0 then do { \<sigma> \<leftarrow> DLL_Remove s (spans_of h); DLL_Prepend (NonemptyHead cl) s \<sigma> }
      else Some (spans_of h)) = Some \<sigma>1"
    "dll \<sigma>1 (EmptyHead cl) e" "dll \<sigma>1 (NonemptyHead cl) (xs @ s # ys)" "s \<notin> set e"
    "relinked (set (EmptyHead cl # es cl) \<union> set (NonemptyHead cl # ns cl)) (spans_of h) \<sigma>1"
    "set e \<union> set (xs @ s # ys) = members es ns cl" "set e \<subseteq> set (es cl)" "set (xs @ ys) \<subseteq> set (ns cl)"
    "span_objects (spans_of h s) = 0 \<longleftrightarrow> fo s = []"
proof -
  let ?\<sigma> = "spans_of h"
  note b = span_forD [OF span_okD(9) [OF ok s]]
  have d: "dll ?\<sigma> (EmptyHead cl) (es cl)" "dll ?\<sigma> (NonemptyHead cl) (ns cl)" using span_okD(5,6) [OF ok cl] by simp_all
  have z: "span_objects (?\<sigma> s) = 0 \<longleftrightarrow> fo s = []" using b(8) by (cases "fo s") auto
  show thesis
  proof (cases "fo s = []")
    case True
    then have "s \<in> set (es cl)" using s span_okD(8) [OF ok, of s cl] by (auto simp: members_def)
    then obtain xs ys where es: "es cl = xs @ s # ys" by (auto simp: in_set_conv_decomp)
    have "set (EmptyHead cl # xs @ s # ys) \<inter> set (NonemptyHead cl # ns cl) = {}"
      using class_span_lists(1) [OF ok cl] by (simp only: es)
    from move_span [OF d(1) [unfolded es] d(2) this] obtain \<sigma>0 \<sigma>1 where m: "DLL_Remove s ?\<sigma> = Some \<sigma>0"
      "DLL_Prepend (NonemptyHead cl) s \<sigma>0 = Some \<sigma>1" "dll \<sigma>1 (EmptyHead cl) (xs @ ys)" "dll \<sigma>1 (NonemptyHead cl) (s # ns cl)"
      "relinked (set (EmptyHead cl # es cl) \<union> set (NonemptyHead cl # ns cl)) ?\<sigma> \<sigma>1" by (auto simp: es)
    then show thesis using True z d(1)
      by (intro that [of \<sigma>1 "xs @ ys" "[]" "ns cl"]) (auto simp: members_def es dll_def)
  next
    case False
    then have n: "s \<in> set (ns cl)" "s \<notin> set (es cl)" using s span_okD(7) [OF ok, of s cl] by (auto simp: members_def)
    then obtain xs ys where ns: "ns cl = xs @ s # ys" by (auto simp: in_set_conv_decomp)
    show thesis using False z d n
      by (intro that [of ?\<sigma> "es cl" xs ys]) (auto simp: members_def ns relinked_def)
  qed
qed

text \<open>A link written into the first word of an object touches nothing else that is out.\<close>

lemma keeps_store:
  assumes ok: "span_ok h X L es ns fo out" and x: "out x = Some c"
    and m: "mem h' = store64 x v (mem h)" and L: "\<And>t. t \<in> L \<Longrightarrow> spans_of h' t = spans_of h t"
  shows "keeps (out(x := None)) L h h'"
proof -
  obtain s where s: "s \<in> members es ns c" "x \<in> objs_in (spans_of h) c s" by (rule out_span [OF ok x])
  note o = obj_facts [OF ok s]
  have st: "store64 x v (mem h) b = mem h b" if "unat b \<notin> obj_bytes c x" for b
    by (rule store64_other [OF _ o(4)]) (use that o(3) in \<open>auto simp: obj_bytes_def\<close>)
  have "mem h' b = mem h b" if y: "(out(x := None)) y = Some d" and b: "unat b \<in> obj_bytes d y" for y d b
  proof -
    have "x \<noteq> y" "out y = Some d" using y by (auto split: if_splits)
    then have "obj_bytes c x \<inter> obj_bytes d y = {}" using out_facts(2) [OF ok x] by blast
    then show ?thesis using b st [of b] unfolding m by blast
  qed
  moreover have "mem h' b = mem h b" if t: "t \<in> L" and b: "unat b \<in> page_bytes_of (spans_of h) t" for t b
    using out_facts(4) [OF ok x t] b st [of b] unfolding m by blast
  ultimately show ?thesis using L by (simp add: keeps_def sst_def sln_def)
qed

lemma ByteSize_span:
  assumes "1 \<le> cl" "cl \<le> 168"
  shows "ByteSizeForClass ferp_tables (ucast (word_of_nat cl :: u8)) = word_of_nat (csize cl)" "(word_of_nat (csize cl) :: u64) \<noteq> 0"
proof -
  have "unat (ucast (word_of_nat cl :: u8) :: u64) = unat (word_of_nat cl :: u64)"
    using assms class_word(1,2) [of cl] by (simp add: unat_ucast_wider)
  then have "ucast (word_of_nat cl :: u8) = (word_of_nat cl :: u64)" by (simp only: word_unat_eq_iff)
  then show "ByteSizeForClass ferp_tables (ucast (word_of_nat cl :: u8)) = word_of_nat (csize cl)"
    using class_facts(7) [OF assms] by simp
  show "(word_of_nat (csize cl) :: u64) \<noteq> 0" using class_facts(1,9) [OF assms] by (metis not_numeral_le_zero unat_0)
qed

lemma ReleaseToSpans_ok:
  assumes ok: "span_ok h X L es ns fo out" and x: "out x = Some cl"
  shows "\<exists>h' es' ns' fo'. ReleaseToSpans cl x h = Some h' \<and> span_ok h' X L es' ns' fo' (out(x := None)) \<and>
    keeps (out(x := None)) L h h' \<and> rest h' = rest h"
proof -
  let ?\<sigma> = "spans_of h"
  obtain s where s: "s \<in> members es ns cl" and xo: "x \<in> objs_in ?\<sigma> cl s" "x \<notin> set (fo s)" by (rule out_span [OF ok x])
  note b = span_forD [OF span_okD(9) [OF ok s]] note o = obj_facts [OF ok s xo(1)]
  note u = span_class_unique [OF ok s]
  have sN: "s \<noteq> Null" using held_bounds(3) [OF ok held_class [OF s]] by auto
  note co = card_class_objs [OF b(1,2,6)]
  have sub: "insert x (set (fo s)) \<subseteq> objs_in ?\<sigma> cl s" using b(10) xo by auto
  have "Suc (length (fo s)) \<le> card (objs_in ?\<sigma> cl s)"
    using card_mono [OF co(1) sub] distinct_card [OF b(9)] xo(2) by simp
  then have rc: "0 < unat (span_refcount (?\<sigma> s))" using b(11) by linarith
  note rp = refcount_pred [OF rc]
  obtain \<sigma>1 e xs ys where r1: "(if span_objects (?\<sigma> s) = 0 then do { \<sigma> \<leftarrow> DLL_Remove s ?\<sigma>; DLL_Prepend (NonemptyHead cl) s \<sigma> }
      else Some ?\<sigma>) = Some \<sigma>1"
    and d1: "dll \<sigma>1 (EmptyHead cl) e" "dll \<sigma>1 (NonemptyHead cl) (xs @ s # ys)" "s \<notin> set e"
    and rl: "relinked (set (EmptyHead cl # es cl) \<union> set (NonemptyHead cl # ns cl)) ?\<sigma> \<sigma>1"
    and sets: "set e \<union> set (xs @ s # ys) = members es ns cl" "set e \<subseteq> set (es cl)" "set (xs @ ys) \<subseteq> set (ns cl)"
    and z: "span_objects (?\<sigma> s) = 0 \<longleftrightarrow> fo s = []" by (rule release_list [OF ok b(3) s])
  have r1': "(if span_objects (?\<sigma> s) = 0 then do { h \<leftarrow> on_spans (DLL_Remove s) h; on_spans (DLL_Prepend (NonemptyHead cl) s) h }
      else Some h) = Some (h\<lparr>spans_of := \<sigma>1\<rparr>)"
    using r1 by (auto simp: on_spans_def option_monad split: if_splits)
  note y1 = relinked_data [OF rl, of s]
  let ?y = "(\<sigma>1 s)\<lparr>span_refcount := span_refcount (\<sigma>1 s) - 1\<rparr>"
  define \<sigma>2 where "\<sigma>2 = \<sigma>1(s := ?y)"
  have d2: "dll \<sigma>2 (EmptyHead cl) e" "dll \<sigma>2 (NonemptyHead cl) (xs @ s # ys)"
    unfolding \<sigma>2_def by (rule dll_update [OF d1(1)] dll_update [OF d1(2)]; simp)+
  have other2: "\<sigma>2 t = ?\<sigma> t" if "t \<notin> insert s (members es ns cl)" "t \<noteq> EmptyHead cl" "t \<noteq> NonemptyHead cl" for t
    using class_span_lists(2) [OF ok b(3) rl _ that(2,3)] that(1) by (auto simp: \<sigma>2_def)
  have data2: "span_data (\<sigma>2 t) = span_data (?\<sigma> t)" if "t \<noteq> s" for t using rl that by (simp add: \<sigma>2_def relinked_def)
  have farL: "t \<notin> insert s (members es ns cl) \<and> t \<noteq> EmptyHead cl \<and> t \<noteq> NonemptyHead cl" if "t \<in> L" for t
    using that s span_class_unique(2) [OF ok] held_bounds(3) [OF ok held_large [OF that]] by auto
  have dist: "distinct (xs @ s # ys)" using d2(2) by (simp add: dll_def)
  have ofo: "out z = Some d \<longleftrightarrow> d = cl \<and> z \<notin> set (fo s)" if "z \<in> objs_in ?\<sigma> cl s" for z d
  proof
    assume "out z = Some d"
    then obtain t where "t \<in> members es ns d" "z \<in> objs_in ?\<sigma> d t" "z \<notin> set (fo t)" by (rule out_span [OF ok])
    with obj_owner(3) [OF ok s that this(1,2)] show "d = cl \<and> z \<notin> set (fo s)" by auto
  next
    assume "d = cl \<and> z \<notin> set (fo s)"
    then show "out z = Some d" unfolding span_okD(11) [OF ok] outside_def using s that by blast
  qed
  show ?thesis
  proof (cases "span_refcount (?\<sigma> s) - 1 = 0")
    case True
    then have all: "objs_in ?\<sigma> cl s = insert x (set (fo s))"
      using rp(1) rc b(11) xo(2) distinct_card [OF b(9)] by (intro card_subset_eq [OF co(1) sub, symmetric]) simp
    obtain \<sigma>3 where m: "DLL_Remove s \<sigma>2 = Some \<sigma>3" "dll \<sigma>3 (NonemptyHead cl) (xs @ ys)"
      "relinked (set (NonemptyHead cl # xs @ s # ys)) \<sigma>2 \<sigma>3" "span_next (\<sigma>3 s) = Null" "span_prev (\<sigma>3 s) = Null"
      using DLL_Remove_spec [OF d2(2)] by blast
    have d3: "dll \<sigma>3 (EmptyHead cl) e"
    proof (rule dll_relinked [OF d2(1) m(3)])
      show "set (NonemptyHead cl # xs @ s # ys) \<inter> set (EmptyHead cl # e) = {}"
        using class_span_lists(1) [OF ok b(3)] sets d1(3) d2 held_bounds(3) [OF ok held_class] by (auto simp: members_def dll_def)
    qed
    note y3 = relinked_data [OF m(3), of s]
    define n where "n = counter (central h cl) + 1 - push_bit kPageShift (span_length (\<sigma>2 s)) div word_of_nat (csize cl)"
    define h2 where "h2 = h\<lparr>central := (central h)(cl := (central h cl)\<lparr>counter := n\<rparr>), spans_of := \<sigma>3\<rparr>"
    have ok2: "span_ok h2 (insert s X) L (es(cl := e)) (ns(cl := xs @ ys)) (fo(s := [])) (out(x := None))"
    proof (rule span_ok_update [OF ok _ b(1,2)])
      show "page_heap.truncate (h2\<lparr>spans_of := spans_of h\<rparr>) = page_heap.truncate h" by (simp add: h2_def page_heap.defs)
      show "rest h2 = rest h" by (simp add: h2_def)
      show "spans_of h2 t = ?\<sigma> t" if "t \<notin> insert s (members es ns cl)" "t \<noteq> EmptyHead cl" "t \<noteq> NonemptyHead cl" for t
        using other2 [OF that] relinked_other [OF m(3), of t] that sets(1) by (auto simp: h2_def)
      show "span_data (spans_of h2 t) = span_data (?\<sigma> t)" if "t \<noteq> s" for t
        using data2 [OF that] m(3) by (simp add: h2_def relinked_def)
      show "((out(x := None)) z = Some d) = (if z \<in> objs_in ?\<sigma> cl s then s \<in> set e \<union> set (xs @ ys) \<and> d = cl \<and> z \<notin> set [] else out z = Some d)"
        for z d using dist d1(3) ofo [of z d] unfolding all by auto
      show "insert s X = (if s \<in> set e \<union> set (xs @ ys) then X - {s} else insert s X)" using dist d1(3) by simp
    qed (use m(2) d3 s sets dist d1(3) y1 y3 in \<open>auto simp: h2_def \<sigma>2_def\<close>)
    have "parked h2 s" using m(4,5) by (simp add: parked_def h2_def)
    from span_ok_delete [OF ok2 u(3) this] obtain h' where h': "PH_Delete s h2 = Some h'"
      "span_ok h' X L (es(cl := e)) (ns(cl := xs @ ys)) (fo(s := [])) (out(x := None))" "rest h' = rest h2"
      "keeps (out(x := None)) L h2 h'" by blast
    have "ReleaseToSpans cl x h = PH_Delete s h2"
      using rc rp(2) sN m(1) True o(6) y1 b(4) ByteSize_span [OF b(1,2)] span_okD(3) [OF ok]
      by (simp add: ReleaseToSpans_def r1' kPageShift_def rd_def wr_def on_spans_def h2_def n_def \<sigma>2_def Let_def word_gt_0)
    moreover have "keeps (out(x := None)) L h h2"
    proof (rule keeps_same_mem)
      fix t assume "t \<in> L"
      note t = farL [OF this]
      then have "t \<notin> set (NonemptyHead cl # xs @ s # ys)" using sets(1) by auto
      then show "spans_of h2 t = ?\<sigma> t" using t other2 [of t] relinked_other [OF m(3), of t] by (simp add: h2_def)
    qed (simp add: h2_def)
    moreover have "rest h2 = rest h" by (simp add: h2_def)
    ultimately show ?thesis using h' keeps_trans by metis
  next
    case False
    define h2 where "h2 = h\<lparr>spans_of := \<sigma>2(s := (\<sigma>2 s)\<lparr>span_objects := x\<rparr>), mem := store64 x (span_objects (?\<sigma> s)) (mem h),
      central := (central h)(cl := (central h cl)\<lparr>counter := counter (central h cl) + 1\<rparr>)\<rparr>"
    let ?\<sigma>3 = "\<sigma>2(s := (\<sigma>2 s)\<lparr>span_objects := x\<rparr>)"
    have d3: "dll ?\<sigma>3 (EmptyHead cl) e" "dll ?\<sigma>3 (NonemptyHead cl) (xs @ s # ys)"
      by (rule dll_update [OF d2(1)] dll_update [OF d2(2)]; simp)+
    have ap: "load64 (mem h2) z = load64 (mem h) z" if "t \<in> members es ns d" "z \<in> set (fo t)" for t d z
    proof -
      have z: "z \<in> objs_in ?\<sigma> d t" using span_forD(10) [OF span_okD(9) [OF ok that(1)] that(2)] .
      have "x \<noteq> z" using xo(2) obj_owner(3) [OF ok s xo(1) that(1) z] that(2) by auto
      then have "apart x z" using obj_owner(2) [OF ok s xo(1) that(1) z] by blast
      then show ?thesis by (simp add: h2_def)
    qed
    have sl: "sll (mem h2) x (x # fo s)"
      using sll_cong [of "fo s" "mem h2" "mem h"] ap [OF s] b(8) o(1) by (simp add: h2_def)
    have "span_ok h2 X L (es(cl := e)) (ns(cl := xs @ s # ys)) (fo(s := x # fo s)) (out(x := None))"
    proof (rule span_ok_update [OF ok _ b(1,2)])
      show "page_heap.truncate (h2\<lparr>spans_of := spans_of h\<rparr>) = page_heap.truncate h" by (simp add: h2_def page_heap.defs)
      show "rest h2 = rest h" by (simp add: h2_def)
      show "spans_of h2 t = ?\<sigma> t" if "t \<notin> insert s (members es ns cl)" "t \<noteq> EmptyHead cl" "t \<noteq> NonemptyHead cl" for t
        using other2 [OF that] that by (simp add: h2_def)
      show "span_data (spans_of h2 t) = span_data (?\<sigma> t)" if "t \<noteq> s" for t using data2 [OF that] that by (simp add: h2_def)
      show "((out(x := None)) z = Some d) = (if z \<in> objs_in ?\<sigma> cl s then s \<in> set e \<union> set (xs @ s # ys) \<and> d = cl \<and> z \<notin> set (x # fo s) else out z = Some d)"
        for z d using ofo [of z d] xo by auto
      show "X = (if s \<in> set e \<union> set (xs @ s # ys) then X - {s} else insert s X)" using u(3) by simp
      have eq: "sst ?\<sigma>3 s = sst ?\<sigma> s" "sln ?\<sigma>3 s = sln ?\<sigma> s" "pages_of ?\<sigma>3 s = pages_of ?\<sigma> s" "objs_in ?\<sigma>3 cl s = objs_in ?\<sigma> cl s"
        by (simp_all add: sst_def sln_def pages_of_def objs_in_def y1 \<sigma>2_def)
      have pm: "pmap h2 = pmap h" by (rule pmap_cong) (simp add: h2_def)
      have h2s: "spans_of h2 = ?\<sigma>3" by (simp add: h2_def)
      have "unat (span_refcount (?\<sigma>3 s)) + length (x # fo s) = card (objs_in ?\<sigma> cl s)"
        using rp(1) rc b(11) y1(7) by (simp add: \<sigma>2_def)
      then show "span_for h2 cl s (x # fo s)"
        using span_okD(9) [OF ok s] xo sl unfolding span_for_def pm h2s eq by (simp add: \<sigma>2_def y1)
    qed (use d3 s sets dist d1(3) y1 ap in \<open>auto simp: h2_def \<sigma>2_def\<close>)
    moreover have "ReleaseToSpans cl x h = Some h2"
      using rp(2) sN False o(1,6) y1
      by (simp add: ReleaseToSpans_def r1' kPageShift_def rd_def wr_def on_spans_def h2_def \<sigma>2_def Let_def SLL_SetNext_def word_gt_0)
    moreover have "keeps (out(x := None)) L h h2"
      by (rule keeps_store [OF ok x]) (use farL other2 in \<open>auto simp: h2_def\<close>)
    moreover have "rest h2 = rest h" by (simp add: h2_def)
    ultimately show ?thesis by blast
  qed
qed

end
