(* ===== verification/PopulateLoop.thy ===== *)
theory PopulateLoop
  imports ObjectSpans
begin

text \<open>
  The loop of \<open>Populate\<close>: it returns, after as many rounds as objects of the class fit into the span,
  and threads exactly these objects, in address order, into one null-terminated list.
\<close>

definition obj_at :: "nat \<Rightarrow> nat \<Rightarrow> nat \<Rightarrow> u64" where
  "obj_at base c j = word_of_nat (base + c * j)"

definition cut :: "nat \<Rightarrow> nat \<Rightarrow> nat \<Rightarrow> nat \<Rightarrow> bool" where
  "cut base c lim N \<longleftrightarrow> 8 \<le> c \<and> c \<le> 32768 \<and> base + c * N \<le> lim \<and> lim < base + c * N + c \<and> lim \<le> 2 ^ 47 \<and> 0 < base"

lemma cutD:
  assumes "cut base c lim N"
  shows "8 \<le> c" "c \<le> 32768" "base + c * N \<le> lim" "lim < base + c * N + c" "lim \<le> 2 ^ 47" "0 < base"
  using assms by (simp_all add: cut_def)

lemma below: "cut base c lim N \<Longrightarrow> j \<le> N \<Longrightarrow> base + c * j \<le> lim"
  using cutD(3) [of base c lim N] mult_le_mono2 [of j N c] by linarith

lemma pred_le: "cut base c lim N \<Longrightarrow> 1 \<le> i \<Longrightarrow> base + c * (i - 1) + 8 \<le> base + c * i"
  using cutD(1) [of base c lim N] by (cases i) simp_all

lemma unat_obj: "cut base c lim N \<Longrightarrow> j \<le> N \<Longrightarrow> unat (obj_at base c j) = base + c * j"
  using below [of base c lim N j] cutD(5) [of base c lim N] unfolding obj_at_def by (intro of_nat_inverse [OF refl]) simp

lemma obj_pos: "cut base c lim N \<Longrightarrow> j \<le> N \<Longrightarrow> obj_at base c j \<noteq> 0"
  using unat_obj [of base c lim N j] cutD(6) [of base c lim N] by force

lemma obj_Suc: "obj_at base c j + word_of_nat c = obj_at base c (Suc j)"
  by (simp add: obj_at_def algebra_simps)

lemma step_le:
  assumes C: "cut base c lim N" and j: "j \<le> N"
  shows "obj_at base c (Suc j) \<le> word_of_nat lim \<longleftrightarrow> j < N"
proof -
  note c = cutD(1,2) [OF C] and fit = cutD(3,4) [OF C] and top = cutD(5) [OF C] and pos = cutD(6) [OF C]
  note below = below [OF C] and pred_le = pred_le [OF C] and unat_obj = unat_obj [OF C] and obj_pos = obj_pos [OF C]
  have "base + c * Suc j \<le> 2 ^ 47 + 32768" using below [OF j] top c by simp
  then have "unat (obj_at base c (Suc j)) = base + c * Suc j" unfolding obj_at_def by (intro of_nat_inverse [OF refl]) simp
  moreover have "unat (word_of_nat lim :: u64) = lim" using top by (intro of_nat_inverse [OF refl]) simp
  moreover have "base + c * Suc j \<le> lim \<longleftrightarrow> j < N"
  proof
    assume "base + c * Suc j \<le> lim"
    then have "c * j < c * N" using fit(2) by (simp only: mult_Suc_right)
    then show "j < N" by simp
  next
    assume "j < N" then show "base + c * Suc j \<le> lim" using below [of "Suc j"] by simp
  qed
  ultimately show ?thesis by (simp add: word_le_nat_alt)
qed

lemma loop_from:
  assumes C: "cut base c lim N"
  shows "1 \<le> i \<Longrightarrow> i \<le> N \<Longrightarrow> \<exists>m1. Populate_loop (word_of_nat c) (word_of_nat lim) (obj_at base c i) (Some (obj_at base c (i - 1))) (p, m) num =
      Some (obj_at base c N, Some (obj_at base c (N - 1)), (p, m1), num + (N - i)) \<and>
    (let m' = store64 (obj_at base c (N - 1)) 0 m1 in
      sll m' (load64 m' (obj_at base c (i - 1))) (map (obj_at base c) [i..<N]) \<and>
      (\<forall>b. unat b < base + c * (i - 1) \<or> base + c * N \<le> unat b \<longrightarrow> m' b = m b))"
proof (induction "N - i" arbitrary: i m num)
  case 0
  then have i: "i = N" by simp
  note c = cutD(1,2) [OF C] and fit = cutD(3,4) [OF C] and top = cutD(5) [OF C] and pos = cutD(6) [OF C]
  note below = below [OF C] and pred_le = pred_le [OF C] and unat_obj = unat_obj [OF C] and obj_pos = obj_pos [OF C] and step_le = step_le [OF C]
  have u: "unat (obj_at base c (N - 1)) = base + c * (N - 1)" "base + c * (N - 1) + 8 \<le> base + c * N"
    using unat_obj [of "N - 1"] pred_le [of N] 0 by simp_all
  have "\<not> obj_at base c N + word_of_nat c \<le> word_of_nat lim" using step_le [of N] by (simp add: obj_Suc)
  then have "Populate_loop (word_of_nat c) (word_of_nat lim) (obj_at base c i) (Some (obj_at base c (i - 1))) (p, m) num =
      Some (obj_at base c N, Some (obj_at base c (N - 1)), (p, m), num + (N - i))"
    by (subst Populate_loop.simps) (simp add: i)
  moreover have "store64 (obj_at base c (N - 1)) 0 m b = m b"
    if "unat b < base + c * (N - 1) \<or> base + c * N \<le> unat b" for b
    by (rule store64_other) (use that u below [of N] top in auto)
  ultimately show ?case by (intro exI [of _ m]) (simp add: i Let_def)
next
  case (Suc k)
  then have i: "i < N" "k = N - Suc i" "1 \<le> Suc i" "Suc i \<le> N" by simp_all
  note c = cutD(1,2) [OF C] and fit = cutD(3,4) [OF C] and top = cutD(5) [OF C] and pos = cutD(6) [OF C]
  note below = below [OF C] and pred_le = pred_le [OF C] and unat_obj = unat_obj [OF C] and obj_pos = obj_pos [OF C] and step_le = step_le [OF C]
  let ?o = "obj_at base c"
  define m2 where "m2 = store64 (?o (i - 1)) (?o i) m"
  from Suc.hyps(1) [OF i(2,3,4), of m2 "Suc num"] obtain m1 where
    run: "Populate_loop (word_of_nat c) (word_of_nat lim) (?o (Suc i)) (Some (?o i)) (p, m2) (Suc num) =
      Some (?o N, Some (?o (N - 1)), (p, m1), Suc num + (N - Suc i))"
    and IH: "let m' = store64 (?o (N - 1)) 0 m1 in sll m' (load64 m' (?o i)) (map ?o [Suc i..<N]) \<and>
      (\<forall>b. unat b < base + c * i \<or> base + c * N \<le> unat b \<longrightarrow> m' b = m2 b)" by auto
  let ?m' = "store64 (?o (N - 1)) 0 m1"
  have sl: "sll ?m' (load64 ?m' (?o i)) (map ?o [Suc i..<N])"
    and fr: "\<And>b. unat b < base + c * i \<or> base + c * N \<le> unat b \<Longrightarrow> ?m' b = m2 b"
    using IH unfolding Let_def by blast+
  have u: "unat (?o (i - 1)) = base + c * (i - 1)" "base + c * (i - 1) + 8 \<le> base + c * i"
    using unat_obj [of "i - 1"] pred_le [of i] Suc.prems by simp_all
  have bi: "base + c * i \<le> base + c * N" using i(1) by simp
  have "unat (?o (i - 1)) + 8 \<le> 2 ^ 47" using u bi below [OF order_refl] top by linarith
  then have w: "unat (?o (i - 1)) + 8 \<le> 2 ^ 64" by simp
  have "load64 ?m' (?o (i - 1)) = load64 m2 (?o (i - 1))"
  proof (rule load64_bytes [OF _ w])
    show "?m' b = m2 b" if "unat b < unat (?o (i - 1)) + 8" for b
      by (rule fr) (use that u in linarith)
  qed
  then have ld: "load64 ?m' (?o (i - 1)) = ?o i" by (simp add: m2_def)
  have "[i..<N] = i # [Suc i..<N]" using i(1) by (rule upt_conv_Cons)
  then have "sll ?m' (load64 ?m' (?o (i - 1))) (map ?o [i..<N])" unfolding ld using sl obj_pos [of i] i(1) by simp
  moreover have "?m' b = m b" if "unat b < base + c * (i - 1) \<or> base + c * N \<le> unat b" for b
  proof -
    have "?m' b = m2 b" by (rule fr) (use that u in linarith)
    moreover have "m2 b = m b" unfolding m2_def by (rule store64_other [OF _ w]) (use that u bi in linarith)
    ultimately show ?thesis by simp
  qed
  moreover have "Populate_loop (word_of_nat c) (word_of_nat lim) (?o i) (Some (?o (i - 1))) (p, m) num =
      Some (?o N, Some (?o (N - 1)), (p, m1), num + (N - i))"
    using step_le [of i] i(1) run obj_pos [of "i - 1"]
    by (subst Populate_loop.simps) (simp add: obj_Suc put_tail_def SLL_SetNext_def m2_def Suc_diff_Suc)
  ultimately show ?case by (intro exI [of _ m1]) (simp add: Let_def)
qed

lemma loop_all:
  assumes C: "cut base c lim N" and "1 \<le> N"
  shows "\<exists>t st m'. Populate_loop (word_of_nat c) (word_of_nat lim) (word_of_nat base) None (p, m) 0 = Some (obj_at base c N, t, st, N) \<and>
    put_tail t 0 st = Some (obj_at base c 0, m') \<and> sll m' (obj_at base c 0) (map (obj_at base c) [0..<N]) \<and>
    (\<forall>b. unat b < base \<or> lim \<le> unat b \<longrightarrow> m' b = m b)"
proof -
  note c = cutD(1,2) [OF C] and fit = cutD(3,4) [OF C] and top = cutD(5) [OF C] and pos = cutD(6) [OF C]
  note below = below [OF C] and pred_le = pred_le [OF C] and unat_obj = unat_obj [OF C] and obj_pos = obj_pos [OF C] and step_le = step_le [OF C]
  let ?o = "obj_at base c"
  from loop_from [OF C, of 1 "?o 0" m 1] assms(2) obtain m1 where
    run: "Populate_loop (word_of_nat c) (word_of_nat lim) (?o 1) (Some (?o 0)) (?o 0, m) 1 = Some (?o N, Some (?o (N - 1)), (?o 0, m1), N)"
    and m1: "sll (store64 (?o (N - 1)) 0 m1) (load64 (store64 (?o (N - 1)) 0 m1) (?o 0)) (map ?o [1..<N])"
    "\<And>b. unat b < base \<or> base + c * N \<le> unat b \<Longrightarrow> store64 (?o (N - 1)) 0 m1 b = m b"
    using assms by (auto simp: Let_def)
  have b: "word_of_nat base = ?o 0" by (simp add: obj_at_def)
  have "Populate_loop (word_of_nat c) (word_of_nat lim) (?o 0) None (p, m) 0 = Some (?o N, Some (?o (N - 1)), (?o 0, m1), N)"
    using step_le [of 0] assms run by (subst Populate_loop.simps) (simp add: obj_Suc put_tail_def)
  moreover have "put_tail (Some (?o (N - 1))) 0 (?o 0, m1) = Some (?o 0, store64 (?o (N - 1)) 0 m1)"
    using obj_pos [of "N - 1"] by (simp add: put_tail_def SLL_SetNext_def)
  moreover have "[0..<N] = 0 # [1..<N]" using assms by (simp add: upt_conv_Cons)
  then have "sll (store64 (?o (N - 1)) 0 m1) (?o 0) (map ?o [0..<N])" using m1(1) obj_pos [of 0] by simp
  moreover have "\<forall>b. unat b < base \<or> lim \<le> unat b \<longrightarrow> store64 (?o (N - 1)) 0 m1 b = m b"
    using m1(2) fit(1) by auto
  ultimately show ?thesis unfolding b by blast
qed

lemma all_objects:
  assumes C: "cut base c lim N"
  shows "{x. base \<le> unat x \<and> unat x + c \<le> lim \<and> c dvd unat x - base} = set (map (obj_at base c) [0..<N])"
proof (rule set_eqI)
  note c = cutD(1,2) [OF C] and fit = cutD(3,4) [OF C] and top = cutD(5) [OF C] and pos = cutD(6) [OF C]
  note below = below [OF C] and pred_le = pred_le [OF C] and unat_obj = unat_obj [OF C] and obj_pos = obj_pos [OF C] and step_le = step_le [OF C]
  fix x show "x \<in> {x. base \<le> unat x \<and> unat x + c \<le> lim \<and> c dvd unat x - base} \<longleftrightarrow> x \<in> set (map (obj_at base c) [0..<N])"
  proof
    assume "x \<in> {x. base \<le> unat x \<and> unat x + c \<le> lim \<and> c dvd unat x - base}"
    then obtain j where j: "unat x - base = c * j" and x: "base \<le> unat x" "unat x + c \<le> lim" by (auto elim: dvdE)
    then have ux: "unat x = base + c * j" by linarith
    have "c * j < c * N" using x(2) fit(2) unfolding ux by linarith
    then have "j < N" by simp
    moreover have "x = obj_at base c j" using unat_obj [of j] \<open>j < N\<close> ux by (simp add: word_unat_eq_iff)
    ultimately show "x \<in> set (map (obj_at base c) [0..<N])" by auto
  next
    assume "x \<in> set (map (obj_at base c) [0..<N])"
    then obtain j where j: "j < N" "x = obj_at base c j" by auto
    then show "x \<in> {x. base \<le> unat x \<and> unat x + c \<le> lim \<and> c dvd unat x - base}"
      using unat_obj [of j] below [of "Suc j"] by simp
  qed
qed

lemma distinct_objects:
  assumes C: "cut base c lim N"
  shows "distinct (map (obj_at base c) [0..<N])"
proof -
  note c = cutD(1,2) [OF C] and fit = cutD(3,4) [OF C] and top = cutD(5) [OF C] and pos = cutD(6) [OF C]
  note below = below [OF C] and pred_le = pred_le [OF C] and unat_obj = unat_obj [OF C] and obj_pos = obj_pos [OF C] and step_le = step_le [OF C]
  have "inj_on (obj_at base c) {0..<N}"
  proof (rule inj_onI)
    fix i j assume "i \<in> {0..<N}" "j \<in> {0..<N}" "obj_at base c i = obj_at base c j"
    then have "base + c * i = base + c * j" using unat_obj [of i] unat_obj [of j] by (simp only: atLeastLessThan_iff less_imp_le)
    then show "i = j" using c by simp
  qed
  then show ?thesis by (simp add: distinct_map)
qed

end
