(* ===== verification/CentralPopulate.thy ===== *)
theory CentralPopulate
  imports CentralOps PopulateLoop
begin

text \<open>
  Fresh spans for a central free list: \<open>PH_New\<close> and \<open>RegisterSizeClass\<close> over the invariant \<open>span_ok\<close>,
  \<open>Populate\<close>, and with it \<open>FetchFromSpansSafe\<close> and the loop of \<open>RemoveRange\<close>. An operation that may
  need metadata either works or, when \<open>supplied\<close> does not hold, is the crash of \<open>PageHeapAllocator\<close>.
\<close>

definition supplied :: "'a page_heap_scheme \<Rightarrow> bool" where
  "supplied h \<longleftrightarrow> pha_room sizeof_Span (span_allocator h) 2 \<and> pha_room sizeof_StackTrace (stacktrace_allocator h) 1"

section \<open>A new span\<close>

lemma span_ok_new:
  assumes K: "kernel_ok (sys_cfg cfg)" and ok: "span_ok h X L es ns fo out" and n: "0 < n" and lim: "within_limit n h"
  shows "PH_New cfg n h = None \<and> \<not> supplied h \<or>
    (\<exists>s h'. PH_New cfg n h = Some (s, h') \<and> rest h' = rest h \<and> keeps out L h h' \<and>
      (s = Null \<and> span_ok h' X L es ns fo out \<or>
       s \<noteq> Null \<and> s \<notin> held es ns L \<union> X \<and> span_ok h' (insert s X) L es ns fo out \<and> sln (spans_of h') s = unat n \<and>
         parked h' s \<and> span_sizeclass (spans_of h' s) = 0 \<and> \<not> span_sample (spans_of h' s)))"
proof -
  obtain P where P: "ph_ok h (held es ns L \<union> X) P" using span_okD(1) [OF ok] by blast
  have d: "X \<inter> held es ns L = {}" by (rule span_okD(2) [OF ok])
  consider "PH_New cfg n h = None \<and> \<not> supplied h"
    | h' P' where "PH_New cfg n h = Some (Null, h')" "ph_ok h' (held es ns L \<union> X) P'" "ph_frame (held es ns L \<union> X) h h'"
    | s h' P' where "PH_New cfg n h = Some (s, h')" "allocated (held es ns L \<union> X) P (unat n) h s h' P'"
    using New_ok [OF K P n] lim by (auto simp: within_limit_def supplied_def)
  then show ?thesis
  proof cases
    case 1 then show ?thesis by blast
  next
    case (2 h' P')
    have "span_ok h' X L es ns fo out \<and> rest h' = rest h \<and> keeps out L h h'"
      by (rule span_ok_frame [OF ok 2(2) d ph_frame_mono [OF 2(3)]]) simp
    then show ?thesis using 2(1) by blast
  next
    case (3 s h' P')
    then have a: "s \<noteq> Null" "s \<notin> held es ns L \<union> X" "ph_ok h' (held es ns L \<union> insert s X) P'"
      "ph_frame (held es ns L \<union> X) h h'" "sln (spans_of h') s = unat n" "parked h' s"
      "span_sizeclass (spans_of h' s) = 0" "\<not> span_sample (spans_of h' s)"
      by (simp_all add: allocated_def parked_def)
    have "span_ok h' (insert s X) L es ns fo out \<and> rest h' = rest h \<and> keeps out L h h'"
      by (rule span_ok_frame [OF ok a(3) _ ph_frame_mono [OF a(4)]]) (use d a(2) in auto)
    then show ?thesis using 3(1) a by blast
  qed
qed

lemma span_ok_register:
  assumes ok: "span_ok h X L es ns fo out" and s: "s \<in> X"
  shows "\<exists>h'. RegisterSizeClass s sc h = Some h' \<and> span_ok h' X L es ns fo out \<and> rest h' = rest h \<and> keeps out L h h' \<and>
    spans_of h' = (spans_of h)(s := (spans_of h s)\<lparr>span_sizeclass := ucast sc\<rparr>) \<and>
    (\<forall>k\<in>pages_of (spans_of h) s. pmap h' k = Some s)"
proof -
  obtain P where P: "ph_ok h (held es ns L \<union> X) P" using span_okD(1) [OF ok] by blast
  have d: "X \<inter> held es ns L = {}" by (rule span_okD(2) [OF ok])
  obtain h' where h': "RegisterSizeClass s sc h = Some h'" "ph_ok h' (held es ns L \<union> X) P" "registered s sc h h'"
    using Register_ok [OF P, of s sc] s by blast
  then obtain pm where r: "spans_of h' = (spans_of h)(s := (spans_of h s)\<lparr>span_sizeclass := ucast sc\<rparr>)"
    "\<forall>k\<in>pages_of (spans_of h) s. pmap h' k = Some s" "\<forall>k. k \<notin> pages_of (spans_of h) s \<longrightarrow> pmap h' k = pmap h k"
    "h' = h\<lparr>spans_of := spans_of h', pagemap := pm\<rparr>" by (auto simp: registered_def)
  have "ph_frame (held es ns L) h h'"
    unfolding ph_frame_def
  proof (intro conjI allI ballI impI)
    have "page_heap.more (h\<lparr>spans_of := spans_of h', pagemap := pm\<rparr>) = page_heap.more h" by (cases h) simp
    then show "page_heap.more h' = page_heap.more h" using r(4) by metis
    have so: "s \<in> range Obj" using held_bounds(3) [OF ok, of s] s by blast
    show "spans_of h' x = spans_of h x" if "x \<in> held es ns L \<or> x \<notin> range Obj \<and> x \<notin> heads" for x
      using that d s so by (auto simp: r(1))
    show "pmap h' k = pmap h k" if "x \<in> held es ns L" "k \<in> pages_of (spans_of h) x" for x k
    proof -
      have "x \<noteq> s" using that(1) d s by blast
      then have "pages_of (spans_of h) x \<inter> pages_of (spans_of h) s = {}"
        using ph_ok_held(4) [OF P, of x s] that(1) s by blast
      then show ?thesis using r(3) that(2) by blast
    qed
  qed
  from span_ok_frame [OF ok h'(2) d this] h'(1) r(1,2) show ?thesis by blast
qed

section \<open>\<open>Populate\<close>\<close>

lemma Populate_cut:
  assumes ok: "span_ok h X L es ns fo out" and s: "s \<in> held es ns L \<union> X" and cl: "1 \<le> cl" "cl \<le> 168"
    and len: "sln (spans_of h) s = unat (class_to_pages ferp_tables ! cl)"
  defines "base \<equiv> 4096 * sst (spans_of h) s" and "lim \<equiv> 4096 * (sst (spans_of h) s + sln (spans_of h) s)"
    and "N \<equiv> 4096 * sln (spans_of h) s div csize cl"
  shows "cut base (csize cl) lim N" "1 \<le> N" "push_bit 12 (span_start (spans_of h s)) = word_of_nat base"
    "push_bit 12 (span_start (spans_of h s)) + push_bit 12 (class_to_pages ferp_tables ! cl) = word_of_nat lim"
    "set (map (obj_at base (csize cl)) [0..<N]) = objs_in (spans_of h) cl s"
proof -
  note c = class_facts [OF cl] note b = held_bounds [OF ok s]
  have m: "csize cl * N \<le> 4096 * sln (spans_of h) s" "4096 * sln (spans_of h) s < csize cl * N + csize cl"
  proof -
    have "4096 * sln (spans_of h) s = csize cl * N + 4096 * sln (spans_of h) s mod csize cl" unfolding N_def by simp
    moreover have "4096 * sln (spans_of h) s mod csize cl < csize cl" using c(1) by simp
    ultimately show "csize cl * N \<le> 4096 * sln (spans_of h) s" "4096 * sln (spans_of h) s < csize cl * N + csize cl" by linarith+
  qed
  show C: "cut base (csize cl) lim N"
    using m c(1,2) b(1,2) by (simp add: cut_def base_def lim_def)
  have "csize cl \<le> 4096 * sln (spans_of h) s" unfolding len by (rule c(3))
  then show "1 \<le> N" unfolding N_def using c(1) by (simp add: less_eq_div_iff_mult_less_eq)
  have w: "push_bit 12 x = (word_of_nat (4096 * unat x) :: u64)" for x :: u64 by (simp add: push_bit_eq_mult)
  show "push_bit 12 (span_start (spans_of h s)) = word_of_nat base" unfolding w base_def sst_def ..
  show "push_bit 12 (span_start (spans_of h s)) + push_bit 12 (class_to_pages ferp_tables ! cl) = word_of_nat lim"
    unfolding w lim_def sst_def len by (simp add: distrib_left)
  show "set (map (obj_at base (csize cl)) [0..<N]) = objs_in (spans_of h) cl s"
    unfolding all_objects [OF C, symmetric] by (auto simp: objs_in_def base_def lim_def)
qed

text \<open>The bytes of a span an operation works on belong to nobody else.\<close>

lemma loose_bytes:
  assumes ok: "span_ok h X L es ns fo out" and s: "s \<in> X"
    and m: "\<And>b. unat b \<notin> page_bytes_of (spans_of h) s \<Longrightarrow> m' b = mem h b"
  shows "t \<in> members es ns d \<Longrightarrow> x \<in> set (fo t) \<Longrightarrow> load64 m' x = load64 (mem h) x"
    "mem h' = m' \<Longrightarrow> (\<And>t. t \<in> L \<Longrightarrow> spans_of h' t = spans_of h t) \<Longrightarrow> keeps out L h h'"
proof -
  have apart: "page_bytes_of (spans_of h) t \<inter> page_bytes_of (spans_of h) s = {}" if "t \<in> held es ns L" for t
    using held_pages [OF ok, of t s] that s span_okD(2) [OF ok] by blast
  have mh: "t \<in> held es ns L" if "t \<in> members es ns d" for t d using held_class [OF that, of L "{}"] by simp
  have eq: "m' b = mem h b" if "t \<in> held es ns L" "unat b \<in> page_bytes_of (spans_of h) t" for t and b :: u64
    by (rule m) (use apart [OF that(1)] that(2) in blast)
  show "load64 m' x = load64 (mem h) x" if t: "t \<in> members es ns d" "x \<in> set (fo t)"
  proof -
    have x: "x \<in> objs_in (spans_of h) d t" using span_forD(10) [OF span_okD(9) [OF ok t(1)] t(2)] .
    note o = obj_facts [OF ok t(1) x]
    show ?thesis
    proof (rule load64_bytes [OF _ o(4)])
      fix b :: u64 assume "unat x \<le> unat b" "unat b < unat x + 8"
      then have "unat b \<in> obj_bytes d x" using o(3) by (simp add: obj_bytes_def)
      then show "m' b = mem h b" using eq [OF mh [OF t(1)]] objs_in_bytes [OF x] by blast
    qed
  qed
  show "keeps out L h h'" if "mem h' = m'" "\<And>t. t \<in> L \<Longrightarrow> spans_of h' t = spans_of h t"
    unfolding keeps_def
  proof (intro conjI allI impI ballI)
    fix x :: u64 and c and b :: u64 assume x: "out x = Some c" and b: "unat b \<in> obj_bytes c x"
    obtain t where t: "t \<in> members es ns c" "x \<in> objs_in (spans_of h) c t" by (rule out_span [OF ok x])
    show "mem h' b = mem h b" using eq [OF mh [OF t(1)]] objs_in_bytes [OF t(2)] b that(1) by blast
  next
    fix t and b :: u64 assume "t \<in> L" "unat b \<in> page_bytes_of (spans_of h) t"
    then show "mem h' b = mem h b" using eq [of t b] that(1) by (simp add: held_def)
  qed (use that(2) in \<open>simp_all add: sst_def sln_def\<close>)
qed

lemma Populate_ok:
  assumes K: "kernel_ok (sys_cfg cfg)" and ok: "span_ok h X L es ns fo out" and cl: "1 \<le> cl" "cl \<le> 168"
    and lim: "within_limit 1 h"
  shows "Populate cl cfg h = None \<and> \<not> supplied h \<or>
    (\<exists>h' es' ns' fo'. Populate cl cfg h = Some h' \<and> span_ok h' X L es' ns' fo' out \<and> keeps out L h h' \<and> rest h' = rest h)"
proof -
  let ?np = "class_to_pages ferp_tables ! cl" let ?sz = "word_of_nat (csize cl) :: u64"
  note c = class_facts [OF cl]
  have c170: "cl < 170" using cl by simp
  have np: "0 < ?np" "unat ?np \<le> 256" using c(5,6) by (auto simp: word_gt_0)
  have sc: "size_class (central h cl) = word_of_nat cl" "unat (word_of_nat cl :: u64) = cl" "tables h = ferp_tables"
    using span_okD(3,4) [OF ok] c170 class_word(2) [of cl] by simp_all
  have lim': "within_limit ?np h" using lim np(2) by (simp add: within_limit_def)
  from span_ok_new [OF K ok np(1) lim'] consider
    "PH_New cfg ?np h = None" "\<not> supplied h"
    | h1 where "PH_New cfg ?np h = Some (Null, h1)" "span_ok h1 X L es ns fo out" "rest h1 = rest h" "keeps out L h h1"
    | s h1 where "PH_New cfg ?np h = Some (s, h1)" "rest h1 = rest h" "keeps out L h h1" "s \<noteq> Null" "s \<notin> held es ns L \<union> X"
      "span_ok h1 (insert s X) L es ns fo out" "sln (spans_of h1) s = unat ?np" "parked h1 s" "\<not> span_sample (spans_of h1 s)"
    by (elim disjE exE conjE) simp_all
  then show ?thesis
  proof cases
    case 1 then show ?thesis by (simp add: Populate_def sc)
  next
    case (2 h1) then show ?thesis by (simp add: Populate_def sc) blast
  next
    case (3 s h1)
    obtain h2 where r: "RegisterSizeClass s (word_of_nat cl) h1 = Some h2" "span_ok h2 (insert s X) L es ns fo out"
      "rest h2 = rest h1" "keeps out L h1 h2" "spans_of h2 = (spans_of h1)(s := (spans_of h1 s)\<lparr>span_sizeclass := ucast (word_of_nat cl :: u64)\<rparr>)"
      "\<forall>k\<in>pages_of (spans_of h1) s. pmap h2 k = Some s" using span_ok_register [OF 3(6), of s "word_of_nat cl"] by blast
    have sh: "s \<in> held es ns L \<union> insert s X" by blast
    have ext: "sst (spans_of h2) s = sst (spans_of h1) s" "sln (spans_of h2) s = sln (spans_of h1) s"
      "pages_of (spans_of h2) s = pages_of (spans_of h1) s" by (simp_all add: r(5) sst_def sln_def pages_of_def)
    let ?base = "4096 * sst (spans_of h2) s" and ?lim = "4096 * (sst (spans_of h2) s + sln (spans_of h2) s)"
    let ?N = "4096 * sln (spans_of h2) s div csize cl"
    let ?f = "map (obj_at ?base (csize cl)) [0..<?N]"
    have len: "sln (spans_of h2) s = unat ?np" using 3(7) ext by simp
    note P = Populate_cut [OF r(2) sh cl len]
    have rest2: "rest h2 = rest h" "tables h2 = ferp_tables" "size_class (central h2 cl) = word_of_nat cl"
      "size_class (central h1 cl) = word_of_nat cl"
      using rest_eqD(1,2) [of h2 h] rest_eqD(2) [OF 3(2)] r(3) 3(2) sc by simp_all
    obtain t st m' where lp: "Populate_loop ?sz (word_of_nat ?lim) (word_of_nat ?base) None (span_objects (spans_of h2 s), mem h2) 0 =
        Some (obj_at ?base (csize cl) ?N, t, st, ?N)" "put_tail t 0 st = Some (obj_at ?base (csize cl) 0, m')"
      "sll m' (obj_at ?base (csize cl) 0) ?f" "\<And>b. unat b < ?base \<or> ?lim \<le> unat b \<Longrightarrow> m' b = mem h2 b"
      using loop_all [OF P(1,2), of "span_objects (spans_of h2 s)" "mem h2"] by blast
    have le: "obj_at ?base (csize cl) ?N \<le> word_of_nat ?lim"
    proof -
      have "unat (word_of_nat ?lim :: u64) = ?lim" using cutD(5) [OF P(1)] by (intro of_nat_inverse [OF refl]) simp
      then show ?thesis using below [OF P(1), of ?N] unat_obj [OF P(1), of ?N] by (simp add: word_le_nat_alt)
    qed
    define y where "y = (spans_of h2 s)\<lparr>span_objects := obj_at ?base (csize cl) 0, span_refcount := 0\<rparr>"
    define \<sigma>1 where "\<sigma>1 = (spans_of h2)(s := y)"
    have sX: "s \<notin> members es ns cl" "s \<notin> L" "s \<noteq> EmptyHead cl" "s \<noteq> NonemptyHead cl"
      using 3(5) held_class [of s es ns cl L "{}"] held_bounds(3) [OF r(2) sh] by (auto simp: held_def)
    have d1: "dll \<sigma>1 (EmptyHead cl) (es cl)" "dll \<sigma>1 (NonemptyHead cl) (ns cl)"
      unfolding \<sigma>1_def using parked_def [of h1 s] 3(8) r(5)
      by (rule_tac dll_update [OF span_okD(5) [OF r(2) c170]] dll_update [OF span_okD(6) [OF r(2) c170]]; simp add: y_def)+
    have "span_next (\<sigma>1 s) = Null" "span_prev (\<sigma>1 s) = Null" using 3(8) by (simp_all add: \<sigma>1_def y_def r(5) parked_def)
    then obtain \<sigma>2 where pp: "DLL_Prepend (NonemptyHead cl) s \<sigma>1 = Some \<sigma>2" "dll \<sigma>2 (NonemptyHead cl) (s # ns cl)"
      "relinked (insert s (set (NonemptyHead cl # ns cl))) \<sigma>1 \<sigma>2"
      using DLL_Prepend_spec [OF d1(2), of s] sX 3(4) by (auto simp: members_def)
    have d2: "dll \<sigma>2 (EmptyHead cl) (es cl)"
      by (rule dll_relinked [OF d1(1) pp(3)]) (use class_span_lists(1) [OF r(2) c170] sX in \<open>auto simp: members_def\<close>)
    note y2 = relinked_data [OF pp(3), of s]
    define h3 where "h3 = h2\<lparr>mem := m', spans_of := \<sigma>2, central := (central h2)(cl := (central h2 cl)\<lparr>counter := counter (central h2 cl) + word_of_nat ?N\<rparr>)\<rparr>"
    have run: "Populate cl cfg h = Some h3"
      using 3(1,4) r(1) lp(1,2) le pp(1) sc rest2 P(3,4) c(7)
      by (simp add: Populate_def rd_def wr_def on_spans_def kPageShift_def Let_def h3_def \<sigma>1_def y_def)
    have fs: "set ?f = objs_in (spans_of h2) cl s" by (rule P(5))
    have off: "m' b = mem h2 b" if "unat b \<notin> page_bytes_of (spans_of h2) s" for b
      by (rule lp(4)) (use that in \<open>auto simp: page_bytes_of_def\<close>)
    note lb = loose_bytes [OF r(2) _ off, of s]
    have h2s: "\<forall>k\<in>pages_of (spans_of h2) s. pmap h2 k = Some s" "\<not> span_sample (spans_of h2 s)"
      "span_sizeclass (spans_of h2 s) = word_of_nat cl"
      using r(6) 3(9) cl class_word(3) [of cl] by (simp_all only: ext) (simp_all add: r(5))
    have fne: "?f \<noteq> []" using P(2) by simp
    have "span_ok h3 X L (es(cl := es cl)) (ns(cl := s # ns cl)) (fo(s := ?f)) out"
    proof (rule span_ok_update [OF r(2) _ cl])
      show "page_heap.truncate (h3\<lparr>spans_of := spans_of h2\<rparr>) = page_heap.truncate h2" by (simp add: h3_def page_heap.defs)
      show "rest h3 = rest h2" by (simp add: h3_def)
      show "spans_of h3 t = spans_of h2 t" if "t \<notin> insert s (members es ns cl)" "t \<noteq> EmptyHead cl" "t \<noteq> NonemptyHead cl" for t
        using relinked_other [OF pp(3), of t] that by (simp add: h3_def \<sigma>1_def members_def)
      show "span_data (spans_of h3 t) = span_data (spans_of h2 t)" if "t \<noteq> s" for t
        using pp(3) that by (simp add: h3_def \<sigma>1_def relinked_def)
      show "(out z = Some d) = (if z \<in> objs_in (spans_of h2) cl s then s \<in> set (es cl) \<union> set (s # ns cl) \<and> d = cl \<and> z \<notin> set ?f else out z = Some d)"
        for z d
      proof (cases "z \<in> objs_in (spans_of h2) cl s")
        case True
        have "out z \<noteq> Some d"
        proof
          assume "out z = Some d"
          then obtain t where t: "t \<in> members es ns d" "z \<in> objs_in (spans_of h2) d t" by (rule out_span [OF r(2)])
          have "s = t" using obj_span_eq [OF r(2) sh True _ held_class [OF t(1)] t(2)] c(1) obj_facts(3) [OF r(2) t] by simp
          then show False using t(1) 3(5) held_class [of s es ns d L X] by simp
        qed
        then show ?thesis using True fs by simp
      qed simp
      show "X = (if s \<in> set (es cl) \<union> set (s # ns cl) then insert s X - {s} else insert s (insert s X))" using 3(5) by auto
      have eq: "sst \<sigma>2 s = sst (spans_of h2) s" "sln \<sigma>2 s = sln (spans_of h2) s" "pages_of \<sigma>2 s = pages_of (spans_of h2) s"
        "objs_in \<sigma>2 cl s = objs_in (spans_of h2) cl s"
        by (simp_all add: sst_def sln_def pages_of_def objs_in_def y2 \<sigma>1_def y_def)
      have pm: "pmap h3 = pmap h2" by (rule pmap_cong) (simp add: h3_def)
      have h3s: "spans_of h3 = \<sigma>2" "mem h3 = m'" by (simp_all add: h3_def)
      have "length ?f = card (objs_in (spans_of h2) cl s)"
        using distinct_card [OF distinct_objects [OF P(1)]] unfolding fs by simp
      then show "span_for h3 cl s ?f"
        using cl len lp(3) distinct_objects [OF P(1)] fs h2s unfolding span_for_def pm h3s eq
        by (simp add: y2 \<sigma>1_def y_def)
      show "load64 (mem h3) x = load64 (mem h2) x" if "t \<in> members es ns d" "x \<in> set (fo t)" for t d x
        unfolding h3s by (rule lb(1) [OF _ _ that]) simp_all
    qed (use d2 pp(2) y2 fne sX in \<open>auto simp: h3_def \<sigma>1_def y_def members_def\<close>)
    moreover have "keeps out L h2 h3"
    proof (rule lb(2))
      show "spans_of h3 t = spans_of h2 t" if "t \<in> L" for t
      proof -
        have "t \<notin> insert s (set (NonemptyHead cl # ns cl))" "t \<noteq> s"
          using that sX(2) span_class_unique(2) [OF r(2), of t cl] held_bounds(3) [OF r(2) held_large [OF that]]
          by (auto simp: members_def)
        then show ?thesis using relinked_other [OF pp(3), of t] by (simp add: h3_def \<sigma>1_def)
      qed
    qed (simp_all add: h3_def)
    moreover have "rest h3 = rest h" using rest2(1) by (simp add: h3_def)
    ultimately show ?thesis using run keeps_trans [OF 3(3) keeps_trans [OF r(4)]] by blast
  qed
qed

end
