(* ===== verification/CentralSpec.thy ===== *)
theory CentralSpec
  imports CentralPopulate
begin

text \<open>
  The contract of the spans of a central free list, with the lists of spans hidden: \<open>out_ok h L out\<close>.
  Objects move in and out of \<open>out\<close> one at a time or in null-terminated lists.
\<close>

definition out_ok :: "'a tcmalloc_scheme \<Rightarrow> sref set \<Rightarrow> (u64 \<rightharpoonup> nat) \<Rightarrow> bool" where
  "out_ok h L out \<longleftrightarrow> (\<exists>es ns fo. span_ok h {} L es ns fo out)"

lemma out_okE:
  assumes "out_ok h L out"
  obtains es ns fo where "span_ok h {} L es ns fo out"
  using assms by (auto simp: out_ok_def)

lemma out_okI: "span_ok h {} L es ns fo out \<Longrightarrow> out_ok h L out"
  by (auto simp: out_ok_def)

lemma out_okD:
  assumes ok: "out_ok h L out"
  shows "tables h = ferp_tables" "cl < 170 \<Longrightarrow> size_class (central h cl) = word_of_nat cl"
    "out x = Some c \<Longrightarrow> 1 \<le> c \<and> c \<le> 168 \<and> x \<noteq> 0 \<and> unat x + csize c \<le> 2 ^ 64"
    "out x = Some c \<Longrightarrow> out y = Some d \<Longrightarrow> x \<noteq> y \<Longrightarrow> obj_bytes c x \<inter> obj_bytes d y = {}"
    "out x = Some c \<Longrightarrow> out y = Some d \<Longrightarrow> x \<noteq> y \<Longrightarrow> apart x y"
    "out x = Some c \<Longrightarrow> s \<in> L \<Longrightarrow> obj_bytes c x \<inter> page_bytes_of (spans_of h) s = {}"
    "s \<in> L \<Longrightarrow> t \<in> L \<Longrightarrow> s \<noteq> t \<Longrightarrow> page_bytes_of (spans_of h) s \<inter> page_bytes_of (spans_of h) t = {}"
proof -
  obtain es ns fo where s: "span_ok h {} L es ns fo out" by (rule out_okE [OF ok])
  show "tables h = ferp_tables" "cl < 170 \<Longrightarrow> size_class (central h cl) = word_of_nat cl" using span_okD(3,4) [OF s] .
  show "out x = Some c \<Longrightarrow> 1 \<le> c \<and> c \<le> 168 \<and> x \<noteq> 0 \<and> unat x + csize c \<le> 2 ^ 64" by (rule out_facts(1) [OF s])
  show "out x = Some c \<Longrightarrow> out y = Some d \<Longrightarrow> x \<noteq> y \<Longrightarrow> obj_bytes c x \<inter> obj_bytes d y = {}" by (rule out_facts(2) [OF s])
  show "out x = Some c \<Longrightarrow> out y = Some d \<Longrightarrow> x \<noteq> y \<Longrightarrow> apart x y" by (rule out_facts(3) [OF s])
  show "out x = Some c \<Longrightarrow> s \<in> L \<Longrightarrow> obj_bytes c x \<inter> page_bytes_of (spans_of h) s = {}" for s by (rule out_facts(4) [OF s])
  show "s \<in> L \<Longrightarrow> t \<in> L \<Longrightarrow> s \<noteq> t \<Longrightarrow> page_bytes_of (spans_of h) s \<inter> page_bytes_of (spans_of h) t = {}" for s t
    by (rule held_pages [OF s]) (simp_all add: held_def)
qed

lemma keeps_sll:
  assumes ok: "out_ok h L out" and k: "keeps out' L' h h'" and x: "\<And>x. x \<in> set xs \<Longrightarrow> out' x = Some c \<and> out x = Some c"
  shows "sll (mem h') p xs = sll (mem h) p xs"
proof (rule sll_cong)
  fix y assume "y \<in> set xs"
  obtain es ns fo where s: "span_ok h {} L es ns fo out" by (rule out_okE [OF ok])
  show "load64 (mem h') y = load64 (mem h) y" using keeps_load [OF s k] x [OF \<open>y \<in> set xs\<close>] by blast
qed

text \<open>A write to an object that is out, by whoever holds it.\<close>

lemma out_ok_store:
  assumes ok: "out_ok h L out" and x: "out x = Some c"
  shows "out_ok (h\<lparr>mem := store64 x v (mem h)\<rparr>) L out" "keeps (out(x := None)) L h (h\<lparr>mem := store64 x v (mem h)\<rparr>)"
proof -
  let ?h = "h\<lparr>mem := store64 x v (mem h)\<rparr>"
  obtain es ns fo where s: "span_ok h {} L es ns fo out" by (rule out_okE [OF ok])
  show k: "keeps (out(x := None)) L h ?h" by (rule keeps_store [OF s x]) simp_all
  obtain t where t: "t \<in> members es ns c" "x \<in> objs_in (spans_of h) c t" by (rule out_span [OF s x])
  have ld: "load64 (store64 x v (mem h)) y = load64 (mem h) y" if u: "u \<in> members es ns d" "y \<in> set (fo u)" for u d y
  proof -
    have y: "y \<in> objs_in (spans_of h) d u" using span_forD(10) [OF span_okD(9) [OF s u(1)] u(2)] .
    have "x \<noteq> y" using out_None [where out = out, OF s u] x by auto
    then show ?thesis using obj_owner(2) [OF s t u(1) y] by simp
  qed
  have pm: "pmap ?h = pmap h" by (rule pmap_cong) simp
  have "span_for ?h d u (fo u)" if u: "u \<in> members es ns d" for u d
  proof -
    have "sll (store64 x v (mem h)) p (fo u) = sll (mem h) p (fo u)" for p by (rule sll_cong) (rule ld [OF u])
    then show ?thesis using span_okD(9) [OF s u] by (simp add: span_for_def pm)
  qed
  moreover obtain P where P: "ph_ok h (held es ns L \<union> {}) P" using span_okD(1) [OF s] by blast
  have "caller_writes (held es ns L \<union> {}) h ?h" by (simp add: caller_writes_def page_heap.defs)
  from caller_writes_ok [OF P this] have "\<exists>P. ph_ok ?h (held es ns L \<union> {}) P" by blast
  ultimately have "span_ok ?h {} L es ns fo out"
    using s unfolding span_ok_def by (simp add: large_span_def parked_def)
  then show "out_ok ?h L out" by (rule out_okI)
qed

section \<open>Lists of objects in and out\<close>

definition grant_objs :: "(u64 \<rightharpoonup> nat) \<Rightarrow> nat \<Rightarrow> u64 list \<Rightarrow> u64 \<rightharpoonup> nat" where
  "grant_objs out cl xs = (\<lambda>x. if x \<in> set xs then Some cl else out x)"

definition drop_objs :: "(u64 \<rightharpoonup> nat) \<Rightarrow> u64 list \<Rightarrow> u64 \<rightharpoonup> nat" where
  "drop_objs out xs = (\<lambda>x. if x \<in> set xs then None else out x)"

lemma grant_simps [simp]: "grant_objs out cl [] = out" "drop_objs out [] = out"
  "grant_objs (out(x \<mapsto> cl)) cl xs = grant_objs out cl (x # xs)" "drop_objs (out(x := None)) xs = drop_objs out (x # xs)"
  by (auto simp: grant_objs_def drop_objs_def fun_eq_iff)

lemma keeps_grow: "keeps (grant_objs out cl xs) L h h' \<Longrightarrow> (\<And>x. x \<in> set xs \<Longrightarrow> out x = None) \<Longrightarrow> keeps out L h h'"
  by (erule keeps_mono) (auto simp: grant_objs_def map_le_def)

lemma ReleaseListToSpans_ok:
  "out_ok h L out \<Longrightarrow> sll (mem h) p xs \<Longrightarrow> distinct xs \<Longrightarrow> (\<And>x. x \<in> set xs \<Longrightarrow> out x = Some cl) \<Longrightarrow>
   \<exists>h'. ReleaseListToSpans cl p h = Some h' \<and> out_ok h' L (drop_objs out xs) \<and> keeps (drop_objs out xs) L h h' \<and> rest h' = rest h"
proof (induction xs arbitrary: h p out)
  case Nil
  then show ?case by (subst ReleaseListToSpans.simps) simp
next
  case (Cons x xs)
  then have x: "p = x" "x \<noteq> 0" "sll (mem h) (load64 (mem h) x) xs" "out x = Some cl" by simp_all
  obtain es ns fo where s: "span_ok h {} L es ns fo out" by (rule out_okE [OF Cons.prems(1)])
  obtain h1 where h1: "ReleaseToSpans cl x h = Some h1" "out_ok h1 L (out(x := None))" "keeps (out(x := None)) L h h1" "rest h1 = rest h"
    using ReleaseToSpans_ok [OF s x(4)] out_okI by blast
  have o: "(out(x := None)) y = Some cl" "out y = Some cl" if "y \<in> set xs" for y using Cons.prems(3,4) that by auto
  have "sll (mem h1) (load64 (mem h) x) xs" using x(3) keeps_sll [OF Cons.prems(1) h1(3)] o by blast
  from Cons.IH [OF h1(2) this _ o(1)] Cons.prems(3) obtain h' where
    h': "ReleaseListToSpans cl (load64 (mem h) x) h1 = Some h'" "out_ok h' L (drop_objs out (x # xs))"
    "keeps (drop_objs out (x # xs)) L h1 h'" "rest h' = rest h1"
    unfolding grant_simps by (auto simp del: fun_upd_apply)
  have "keeps (drop_objs out (x # xs)) L h h1" by (rule keeps_mono [OF h1(3)]) (auto simp: map_le_def drop_objs_def)
  from keeps_trans [OF this h'(3)] show ?case
    using h1(1,4) h'(1,2,4) x(1,2) by (subst ReleaseListToSpans.simps) (simp add: SLL_Next_def)
qed

lemma FetchFromSpans_ok:
  assumes ok: "out_ok h L out" and cl: "cl < 170"
  shows "\<exists>x h'. FetchFromSpans cl h = Some (x, h') \<and> keeps out L h h' \<and> rest h' = rest h \<and>
    (x = 0 \<and> h' = h \<or> x \<noteq> 0 \<and> out x = None \<and> out_ok h' L (out(x \<mapsto> cl)))"
proof -
  obtain es ns fo where s: "span_ok h {} L es ns fo out" by (rule out_okE [OF ok])
  show ?thesis
  proof (cases "ns cl = []")
    case True
    then show ?thesis using FetchFromSpans_none [OF s cl] by simp
  next
    case False
    from FetchFromSpans_some [OF s cl False] show ?thesis using out_okI by blast
  qed
qed

lemma FetchFromSpansSafe_ok:
  assumes K: "kernel_ok (sys_cfg cfg)" and ok: "out_ok h L out" and cl: "1 \<le> cl" "cl \<le> 168" and lim: "within_limit 1 h"
  shows "FetchFromSpansSafe cl cfg h = None \<and> \<not> supplied h \<or>
    (\<exists>x h'. FetchFromSpansSafe cl cfg h = Some (x, h') \<and> keeps out L h h' \<and> rest h' = rest h \<and>
      (x = 0 \<and> out_ok h' L out \<or> x \<noteq> 0 \<and> out x = None \<and> out_ok h' L (out(x \<mapsto> cl))))"
proof -
  have c: "cl < 170" using cl by simp
  obtain x h1 where f: "FetchFromSpans cl h = Some (x, h1)" "keeps out L h h1" "rest h1 = rest h"
    "x = 0 \<and> h1 = h \<or> x \<noteq> 0 \<and> out x = None \<and> out_ok h1 L (out(x \<mapsto> cl))" using FetchFromSpans_ok [OF ok c] by blast
  show ?thesis
  proof (cases "x = 0")
    case False
    then show ?thesis using f by (auto simp: FetchFromSpansSafe_def)
  next
    case True
    then have h1: "h1 = h" using f(4) by blast
    obtain es ns fo where s: "span_ok h {} L es ns fo out" by (rule out_okE [OF ok])
    from Populate_ok [OF K s cl lim] consider "Populate cl cfg h = None" "\<not> supplied h"
      | h2 where "Populate cl cfg h = Some h2" "out_ok h2 L out" "keeps out L h h2" "rest h2 = rest h"
      by (elim disjE exE conjE) (simp_all add: out_okI)
    then show ?thesis
    proof cases
      case 1 then show ?thesis using f(1) True h1 by (simp add: FetchFromSpansSafe_def)
    next
      case (2 h2)
      obtain y h3 where g: "FetchFromSpans cl h2 = Some (y, h3)" "keeps out L h2 h3" "rest h3 = rest h2"
        "y = 0 \<and> h3 = h2 \<or> y \<noteq> 0 \<and> out y = None \<and> out_ok h3 L (out(y \<mapsto> cl))" using FetchFromSpans_ok [OF 2(2) c] by blast
      have "FetchFromSpansSafe cl cfg h = Some (y, h3)" using f(1) True h1 2(1) g(1) by (simp add: FetchFromSpansSafe_def)
      then show ?thesis using g 2 keeps_trans [OF 2(3) g(2)] by auto
    qed
  qed
qed

lemma RemoveRange_loop_ok:
  "out_ok h L out \<Longrightarrow> cl < 170 \<Longrightarrow> sll (mem h) p xs \<Longrightarrow> (\<And>x. x \<in> set xs \<Longrightarrow> out x = Some cl) \<Longrightarrow>
   \<exists>ys h'. RemoveRange_loop n cl p count h = Some (hd (ys @ [p]), count + int (length ys), h') \<and>
     sll (mem h') (hd (ys @ [p])) (ys @ xs) \<and> distinct ys \<and> (\<forall>y\<in>set ys. out y = None) \<and> length ys \<le> n \<and>
     out_ok h' L (grant_objs out cl ys) \<and> keeps out L h h' \<and> rest h' = rest h"
proof (induction n arbitrary: h out p xs count)
  case 0
  then show ?case by (intro exI [of _ "[]"]) auto
next
  case (Suc n)
  obtain x h1 where f: "FetchFromSpans cl h = Some (x, h1)" "keeps out L h h1" "rest h1 = rest h"
    "x = 0 \<and> h1 = h \<or> x \<noteq> 0 \<and> out x = None \<and> out_ok h1 L (out(x \<mapsto> cl))" using FetchFromSpans_ok [OF Suc.prems(1,2)] by blast
  show ?case
  proof (cases "x = 0")
    case True
    then show ?thesis using f Suc.prems by (intro exI [of _ "[]"]) auto
  next
    case False
    let ?out = "out(x \<mapsto> cl)"
    define h2 where "h2 = h1\<lparr>mem := store64 x p (mem h1)\<rparr>"
    have o: "out x = None" "out_ok h1 L ?out" using f(4) False by blast+
    have "?out x = Some cl" by simp
    note st = out_ok_store [OF o(2) this, of p]
    have upd: "?out(x := None) = out" using o(1) by auto
    have k2: "keeps out L h h2" by (rule keeps_trans [OF f(2)]) (use st(2) in \<open>simp only: h2_def upd\<close>)
    have xs: "sll (mem h2) p xs" using Suc.prems(3) keeps_sll [OF Suc.prems(1) k2] Suc.prems(4) by blast
    have "sll (mem h2) x (x # xs)" using xs False by (simp add: h2_def)
    moreover have "?out y = Some cl" if "y \<in> set (x # xs)" for y using that Suc.prems(4) by auto
    ultimately obtain ys h' where r: "RemoveRange_loop n cl x (count + 1) h2 = Some (hd (ys @ [x]), count + 1 + int (length ys), h')"
      "sll (mem h') (hd (ys @ [x])) (ys @ x # xs)" "distinct ys" "\<forall>y\<in>set ys. ?out y = None" "length ys \<le> n"
      "out_ok h' L (grant_objs ?out cl ys)" "keeps ?out L h2 h'" "rest h' = rest h2"
      using Suc.IH [of h2 ?out x "x # xs" "count + 1"] st(1) Suc.prems(2) unfolding h2_def by blast
    have run: "RemoveRange_loop (Suc n) cl p count h = Some (hd (ys @ [x]), count + 1 + int (length ys), h')"
      using f(1) False r(1) by (simp add: SLL_Push_def SLL_SetNext_def h2_def)
    have "x \<notin> set ys" using r(4) by auto
    have hd: "hd (ys @ [x, p]) = hd (ys @ [x])" by (cases ys) simp_all
    have "grant_objs ?out cl ys = grant_objs out cl (ys @ [x])" by (auto simp: grant_objs_def fun_eq_iff)
    moreover have "keeps out L h2 h'" by (rule keeps_mono [OF r(7)]) (use o(1) in \<open>auto simp: map_le_def\<close>)
    moreover have "\<forall>y\<in>set (ys @ [x]). out y = None" using r(4) o(1) by (auto split: if_splits)
    ultimately show ?thesis
      using run r(2,3,5,6,8) \<open>x \<notin> set ys\<close> f(3) keeps_trans [OF k2] unfolding h2_def
      by (intro exI [of _ "ys @ [x]"] exI [of _ h']) (simp add: hd algebra_simps)
  qed
qed

section \<open>Spans held whole\<close>

lemma span_ok_take:
  assumes ok: "span_ok h {s} L es ns fo out" and s: "large_span h s"
  shows "span_ok h {} (insert s L) es ns fo out"
proof -
  have "held es ns (insert s L) \<union> {} = held es ns L \<union> {s}" by (auto simp: held_def)
  then show ?thesis using ok s unfolding span_ok_def by simp
qed

lemma span_ok_give:
  assumes ok: "span_ok h {} L es ns fo out" and s: "s \<in> L"
  shows "span_ok h {s} (L - {s}) es ns fo out"
proof -
  have "s \<notin> members es ns c" for c using span_class_unique(2) [OF ok, of s c] s by blast
  then have d: "{s} \<inter> held es ns (L - {s}) = {}" and h: "held es ns (L - {s}) \<union> {s} = held es ns L \<union> {}"
    using s by (auto simp: held_def)
  show ?thesis using ok d unfolding span_ok_def h by simp
qed

lemma New_span_ok:
  assumes K: "kernel_ok (sys_cfg cfg)" and ok: "out_ok h L out" and n: "0 < n" and lim: "within_limit n h"
  shows "PH_New cfg n h = None \<and> \<not> supplied h \<or>
    (\<exists>s h'. PH_New cfg n h = Some (s, h') \<and> rest h' = rest h \<and> keeps out L h h' \<and>
      (s = Null \<and> out_ok h' L out \<or> s \<noteq> Null \<and> s \<notin> L \<and> out_ok h' (insert s L) out \<and> sln (spans_of h') s = unat n))"
proof -
  obtain es ns fo where s: "span_ok h {} L es ns fo out" by (rule out_okE [OF ok])
  from span_ok_new [OF K s n lim] show ?thesis
  proof (elim disjE exE conjE)
    fix s h' assume a: "PH_New cfg n h = Some (s, h')" "rest h' = rest h" "keeps out L h h'" "s \<noteq> Null" "s \<notin> held es ns L \<union> {}"
      "span_ok h' {s} L es ns fo out" "sln (spans_of h') s = unat n" "parked h' s" "span_sizeclass (spans_of h' s) = 0"
      "\<not> span_sample (spans_of h' s)"
    have "out_ok h' (insert s L) out" by (rule out_okI [OF span_ok_take [OF a(6)]]) (simp add: large_span_def a)
    moreover have "s \<notin> L" using a(5) by (simp add: held_def)
    ultimately show ?thesis using a by blast
  qed (auto intro: out_okI)
qed

lemma Delete_span_ok:
  assumes ok: "out_ok h L out" and s: "s \<in> L"
  shows "\<exists>h'. PH_Delete s h = Some h' \<and> out_ok h' (L - {s}) out \<and> keeps out (L - {s}) h h' \<and> rest h' = rest h"
proof -
  obtain es ns fo where o: "span_ok h {} L es ns fo out" by (rule out_okE [OF ok])
  have "parked h s" using span_okD(10) [OF o s] by (simp add: large_span_def)
  from span_ok_delete [OF span_ok_give [OF o s] _ this] show ?thesis using out_okI by blast
qed

text \<open>What the front end reads of a held span, and of an object's span.\<close>

lemma held_span:
  assumes ok: "out_ok h L out" and s: "s \<in> L"
  shows "GetDescriptor (span_start (spans_of h s)) h = Some s" "s \<noteq> Null" "\<not> span_free (spans_of h s)"
    "span_sizeclass (spans_of h s) = 0" "\<not> span_sample (spans_of h s)" "drop_bit 12 (push_bit 12 (span_start (spans_of h s))) = span_start (spans_of h s)"
    "unat (push_bit 12 (span_start (spans_of h s))) = 4096 * sst (spans_of h) s" "1 \<le> sst (spans_of h) s" "1 \<le> sln (spans_of h) s"
    "4096 * (sst (spans_of h) s + sln (spans_of h) s) \<le> 2 ^ 47"
proof -
  obtain es ns fo where o: "span_ok h {} L es ns fo out" by (rule out_okE [OF ok])
  have h: "s \<in> held es ns L \<union> {}" using s by (simp add: held_def)
  obtain P where P: "ph_ok h (held es ns L \<union> {}) P" using span_okD(1) [OF o] by blast
  note b = held_bounds [OF o h]
  show "GetDescriptor (span_start (spans_of h s)) h = Some s" "\<not> span_free (spans_of h s)"
    using ph_ok_held(2,3) [OF P h] by blast+
  show "s \<noteq> Null" using b(3) by auto
  show "span_sizeclass (spans_of h s) = 0" "\<not> span_sample (spans_of h s)" using span_okD(10) [OF o s] by (simp_all add: large_span_def)
  show "1 \<le> sst (spans_of h) s" "1 \<le> sln (spans_of h) s" "4096 * (sst (spans_of h) s + sln (spans_of h) s) \<le> 2 ^ 47"
    by (rule b)+
  have lt: "unat (word_of_nat (4096 * sst (spans_of h) s) :: u64) = 4096 * sst (spans_of h) s"
    by (rule of_nat_inverse [OF refl]) (use b(2) in simp)
  have "push_bit 12 (span_start (spans_of h s)) = word_of_nat (4096 * sst (spans_of h) s)"
    by (simp add: push_bit_eq_mult sst_def)
  then show u: "unat (push_bit 12 (span_start (spans_of h s))) = 4096 * sst (spans_of h) s"
    using lt by (simp only:)
  show "drop_bit 12 (push_bit 12 (span_start (spans_of h s))) = span_start (spans_of h s)"
    by (simp add: word_eq_iff_unat unat_drop_bit_div u sst_def)
qed

lemma out_descriptor:
  assumes ok: "out_ok h L out" and x: "out x = Some c"
  obtains s where "GetDescriptor (drop_bit 12 x) h = Some s" "s \<noteq> Null" "\<not> span_free (spans_of h s)"
    "span_sizeclass (spans_of h s) = word_of_nat c" "\<not> span_sample (spans_of h s)" "unat (span_sizeclass (spans_of h s)) = c"
proof -
  obtain es ns fo where o: "span_ok h {} L es ns fo out" by (rule out_okE [OF ok])
  obtain s where s: "s \<in> members es ns c" "x \<in> objs_in (spans_of h) c s" by (rule out_span [OF o x])
  obtain P where P: "ph_ok h (held es ns L \<union> {}) P" using span_okD(1) [OF o] by blast
  note f = span_forD [OF span_okD(9) [OF o s(1)]]
  have "\<not> span_free (spans_of h s)" using ph_ok_held(3) [OF P held_class [OF s(1)]] by blast
  then show thesis using that [of s] obj_facts(6) [OF o s] f held_bounds(3) [OF o held_class [OF s(1)]] by auto
qed

end
