(* ===== verification/TransferSpec.thy ===== *)
theory TransferSpec
  imports CentralSpec
begin

text \<open>
  The transfer caches on top of the spans. Free objects that are not in their spans sit in null-terminated
  lists at known places: the slots of the transfer caches and the free lists of the thread caches.
  \<open>heap_ok h C L U ls\<close> says that the list at each place is \<open>ls p\<close>, that \<open>C\<close> are the thread caches,
  \<open>L\<close> the spans held whole, and \<open>U\<close> all objects in other hands, by their class.
\<close>

section \<open>Places\<close>

datatype place = Slot nat nat | Cache u64 nat

primrec place_class :: "place \<Rightarrow> nat" where
  "place_class (Slot cl i) = cl"
| "place_class (Cache c cl) = cl"

definition batch :: "nat \<Rightarrow> int" where
  "batch cl = num_objects_to_move ferp_tables ! cl"

definition slot_ok :: "'a tcmalloc_scheme \<Rightarrow> nat \<Rightarrow> nat \<Rightarrow> u64 list \<Rightarrow> bool" where
  "slot_ok h cl i xs \<longleftrightarrow> (if cl < 170 \<and> int i < used_slots (central h cl)
     then xs \<noteq> [] \<and> sll (mem h) (fst (tc_slots (central h cl) i)) xs \<and> snd (tc_slots (central h cl) i) = last xs \<and>
       int (length xs) = batch cl
     else xs = [])"

definition cache_list_ok :: "u64 set \<Rightarrow> 'a tcmalloc_scheme \<Rightarrow> u64 \<Rightarrow> nat \<Rightarrow> u64 list \<Rightarrow> bool" where
  "cache_list_ok C h c cl xs \<longleftrightarrow> (if c \<in> C \<and> cl < 170
     then sll (mem h) (fl_list (tc_list (caches h c) cl)) xs \<and> unat (fl_length (tc_list (caches h c) cl)) = length xs \<and>
       fl_lowater (tc_list (caches h c) cl) \<le> fl_length (tc_list (caches h c) cl)
     else xs = [])"

primrec place_ok :: "u64 set \<Rightarrow> 'a tcmalloc_scheme \<Rightarrow> place \<Rightarrow> u64 list \<Rightarrow> bool" where
  "place_ok C h (Slot cl i) xs = slot_ok h cl i xs"
| "place_ok C h (Cache c cl) xs = cache_list_ok C h c cl xs"

definition pooled :: "(u64 \<rightharpoonup> nat) \<Rightarrow> (place \<Rightarrow> u64 list) \<Rightarrow> (u64 \<rightharpoonup> nat) \<Rightarrow> bool" where
  "pooled U ls out \<longleftrightarrow> (\<forall>x c. out x = Some c \<longleftrightarrow> U x = Some c \<or> (\<exists>p. place_class p = c \<and> x \<in> set (ls p)))"

definition slots_bound :: "'a tcmalloc_scheme \<Rightarrow> bool" where
  "slots_bound h \<longleftrightarrow> (\<forall>cl<170. 0 \<le> used_slots (central h cl) \<and> used_slots (central h cl) \<le> cache_size (central h cl) \<and>
     cache_size (central h cl) \<le> 170) \<and> 0 \<le> race_counter h"

definition heap_ok :: "'a tcmalloc_scheme \<Rightarrow> u64 set \<Rightarrow> sref set \<Rightarrow> (u64 \<rightharpoonup> nat) \<Rightarrow> (place \<Rightarrow> u64 list) \<Rightarrow> bool" where
  "heap_ok h C L U ls \<longleftrightarrow> (\<exists>out. out_ok h L out \<and> pooled U ls out) \<and>
     (\<forall>p. place_ok C h p (ls p) \<and> distinct (ls p) \<and> (\<forall>x\<in>set (ls p). U x = None)) \<and>
     (\<forall>p q. p \<noteq> q \<longrightarrow> set (ls p) \<inter> set (ls q) = {}) \<and> slots_bound h"

lemma heap_okD:
  assumes "heap_ok h C L U ls"
  shows "\<exists>out. out_ok h L out \<and> pooled U ls out" "place_ok C h p (ls p)" "distinct (ls p)"
    "x \<in> set (ls p) \<Longrightarrow> U x = None" "x \<in> set (ls p) \<Longrightarrow> p \<noteq> q \<Longrightarrow> x \<notin> set (ls q)" "slots_bound h"
  using assms unfolding heap_ok_def by (blast | simp)+

lemma slots_boundD:
  assumes "slots_bound h" "cl < 170"
  shows "0 \<le> used_slots (central h cl)" "used_slots (central h cl) \<le> cache_size (central h cl)" "cache_size (central h cl) \<le> 170"
    "0 \<le> race_counter h"
  using assms by (simp_all add: slots_bound_def)

lemma pooledD: "pooled U ls out \<Longrightarrow> U x = Some c \<Longrightarrow> out x = Some c"
  "pooled U ls out \<Longrightarrow> x \<in> set (ls p) \<Longrightarrow> out x = Some (place_class p)"
  by (auto simp: pooled_def)

lemma pooled_None: "pooled U ls out \<Longrightarrow> out x = None \<longleftrightarrow> U x = None \<and> (\<forall>p. x \<notin> set (ls p))"
  unfolding pooled_def by (metis not_Some_eq)

text \<open>What the objects in other hands know of one another.\<close>

lemma heap_facts:
  assumes H: "heap_ok h C L U ls"
  shows "U x = Some c \<Longrightarrow> 1 \<le> c \<and> c \<le> 168 \<and> x \<noteq> 0 \<and> unat x + csize c \<le> 2 ^ 64"
    "U x = Some c \<Longrightarrow> U y = Some d \<Longrightarrow> x \<noteq> y \<Longrightarrow> obj_bytes c x \<inter> obj_bytes d y = {}"
    "U x = Some c \<Longrightarrow> s \<in> L \<Longrightarrow> obj_bytes c x \<inter> page_bytes_of (spans_of h) s = {}"
    "tables h = ferp_tables" "cl < 170 \<Longrightarrow> size_class (central h cl) = word_of_nat cl"
    "x \<in> set (ls p) \<Longrightarrow> 1 \<le> place_class p \<and> place_class p \<le> 168"
    "U x = Some c \<Longrightarrow> y \<in> set (ls p) \<Longrightarrow> apart x y"
proof -
  obtain out where o: "out_ok h L out" "pooled U ls out" using heap_okD(1) [OF H] by blast
  note p = pooledD [OF o(2)]
  show "U x = Some c \<Longrightarrow> 1 \<le> c \<and> c \<le> 168 \<and> x \<noteq> 0 \<and> unat x + csize c \<le> 2 ^ 64" using out_okD(3) [OF o(1) p(1)] .
  show "U x = Some c \<Longrightarrow> U y = Some d \<Longrightarrow> x \<noteq> y \<Longrightarrow> obj_bytes c x \<inter> obj_bytes d y = {}"
    using out_okD(4) [OF o(1) p(1) p(1)] .
  show "U x = Some c \<Longrightarrow> s \<in> L \<Longrightarrow> obj_bytes c x \<inter> page_bytes_of (spans_of h) s = {}" using out_okD(6) [OF o(1) p(1)] .
  show "tables h = ferp_tables" "cl < 170 \<Longrightarrow> size_class (central h cl) = word_of_nat cl" using out_okD(1,2) [OF o(1)] .
  show "1 \<le> place_class p \<and> place_class p \<le> 168" if "x \<in> set (ls p)" for p using out_okD(3) [OF o(1) p(2) [OF that]] by blast
  show "apart x y" if "U x = Some c" "y \<in> set (ls p)" for p
  proof (rule out_okD(5) [OF o(1) p(1) [OF that(1)] p(2) [OF that(2)]])
    show "x \<noteq> y" using heap_okD(4) [OF H that(2)] that(1) by auto
  qed
qed

section \<open>Steps that move no object between spans and the rest\<close>

text \<open>A new assignment of lists to places and holders of the same objects.\<close>

lemma heap_ok_regroup:
  assumes H: "heap_ok h C L U ls" and o: "\<And>out. out_ok h L out \<Longrightarrow> pooled U ls out \<Longrightarrow> out_ok h' L out"
    and pl: "\<And>q. q \<noteq> p \<Longrightarrow> place_ok C' h' q (ls q)" and new: "place_ok C' h' p xs" "distinct xs" "slots_bound h'"
    and same: "\<And>x c. U x = Some c \<or> c = place_class p \<and> x \<in> set (ls p) \<longleftrightarrow> U' x = Some c \<or> c = place_class p \<and> x \<in> set xs"
    and sep: "\<And>x. x \<in> set xs \<Longrightarrow> U' x = None"
  shows "heap_ok h' C' L U' (ls(p := xs))"
proof -
  let ?l = "ls(p := xs)"
  obtain out where out: "out_ok h L out" "pooled U ls out" using heap_okD(1) [OF H] by blast
  have far: "x \<notin> set xs \<and> U' x = None" if "x \<in> set (ls q)" "q \<noteq> p" for x q
  proof -
    have "U x = None" "x \<notin> set (ls p)" using heap_okD(4,5) [OF H that(1)] that(2) by blast+
    then have "\<not> (U' x = Some c \<or> c = place_class p \<and> x \<in> set xs)" for c using same [of x c] by simp
    then show ?thesis by (metis not_Some_eq)
  qed
  have "pooled U' ?l out"
    unfolding pooled_def
  proof (intro allI)
    fix x c
    have "(\<exists>q. place_class q = c \<and> x \<in> set (?l q)) \<longleftrightarrow> c = place_class p \<and> x \<in> set xs \<or> (\<exists>q. q \<noteq> p \<and> place_class q = c \<and> x \<in> set (ls q))"
      by auto
    moreover have "(\<exists>q. place_class q = c \<and> x \<in> set (ls q)) \<longleftrightarrow> c = place_class p \<and> x \<in> set (ls p) \<or> (\<exists>q. q \<noteq> p \<and> place_class q = c \<and> x \<in> set (ls q))"
      by auto
    ultimately show "out x = Some c \<longleftrightarrow> U' x = Some c \<or> (\<exists>q. place_class q = c \<and> x \<in> set (?l q))"
      using out(2) same [of x c] unfolding pooled_def by blast
  qed
  moreover have "place_ok C' h' q (?l q) \<and> distinct (?l q) \<and> (\<forall>x\<in>set (?l q). U' x = None)" for q
    using pl [of q] new heap_okD(3) [OF H, of q] far [of _ q] sep by (cases "q = p") auto
  moreover have "set (?l q) \<inter> set (?l r) = {}" if "q \<noteq> r" for q r
    using that far [of _ q] far [of _ r] heap_okD(5) [OF H, of _ q r] by (cases "q = p"; cases "r = p") auto
  ultimately show ?thesis using o [OF out] new(3) unfolding heap_ok_def by blast
qed

section \<open>Steps of the spans\<close>

text \<open>The state outside the spans, the memory and the transfer caches.\<close>

definition outer :: "'a tcmalloc_scheme \<Rightarrow> 'a tcmalloc_ext" where
  "outer h = page_heap.more (h\<lparr>mem := (\<lambda>_. 0), central := (\<lambda>_. undefined), race_counter := 0\<rparr>)"

lemma outer_simps [simp]: "outer (h\<lparr>mem := m\<rparr>) = outer h" "outer (h\<lparr>central := c\<rparr>) = outer h"
  "outer (h\<lparr>race_counter := n\<rparr>) = outer h" "outer (h\<lparr>spans_of := \<sigma>\<rparr>) = outer h"
  by (cases h; simp add: outer_def)+

lemma outer_rest: "rest h' = rest h \<Longrightarrow> outer h' = outer h"
  by (cases h; cases h'; simp add: rest_def outer_def)

lemma outer_eqD:
  assumes "outer h' = outer h"
  shows "tables h' = tables h" "caches h' = caches h" "tsd_inited h' = tsd_inited h" "heap_key h' = heap_key h"
    "mth h' = mth h" "per_thread_cache_size h' = per_thread_cache_size h"
  using assms by (cases h; cases h'; simp add: outer_def)+

lemma place_ok_cong:
  assumes "place_ok C h p xs" and "\<And>q. sll (mem h') q xs = sll (mem h) q xs" and "caches h' = caches h"
    and "\<And>cl i. p = Slot cl i \<Longrightarrow> used_slots (central h' cl) = used_slots (central h cl) \<and>
      tc_slots (central h' cl) i = tc_slots (central h cl) i"
  shows "place_ok C h' p xs"
  using assms by (cases p) (simp_all add: slot_ok_def cache_list_ok_def)

lemma heap_ok_spans:
  assumes H: "heap_ok h C L U ls" and o: "out_ok h L out" and P: "pooled U ls out"
    and o': "out_ok h' L' out'" "pooled U' ls out'" and k: "keeps out0 L0 h h'" and r: "rest h' = rest h"
    and sub: "\<And>p x. x \<in> set (ls p) \<Longrightarrow> out0 x = Some (place_class p)"
    and sep: "\<And>p x. x \<in> set (ls p) \<Longrightarrow> U' x = None"
  shows "heap_ok h' C L' U' ls"
proof -
  note re = rest_eqD [OF r]
  have "place_ok C h' p (ls p)" for p
  proof (rule place_ok_cong [OF heap_okD(2) [OF H]])
    show "sll (mem h') q (ls p) = sll (mem h) q (ls p)" for q
      by (rule keeps_sll [OF o k]) (use sub pooledD(2) [OF P] in blast)
  qed (use re in simp_all)
  moreover have "slots_bound h'" using heap_okD(6) [OF H] by (simp add: slots_bound_def re)
  ultimately show ?thesis using o' sep heap_okD(3,5) [OF H] unfolding heap_ok_def by blast
qed

lemma pooled_grant: "pooled U ls out \<Longrightarrow> (\<And>x. x \<in> set xs \<Longrightarrow> out x = None) \<Longrightarrow> pooled (grant_objs U cl xs) ls (grant_objs out cl xs)"
  using pooled_None [of U ls out] by (auto simp: pooled_def grant_objs_def)

lemma pooled_drop:
  assumes "heap_ok h C L U ls" and "pooled U ls out" and "\<And>x. x \<in> set xs \<Longrightarrow> U x \<noteq> None"
  shows "pooled (drop_objs U xs) ls (drop_objs out xs)"
proof -
  have "x \<notin> set xs" if "x \<in> set (ls p)" for x p using heap_okD(4) [OF assms(1) that] assms(3) by blast
  then show ?thesis using assms(2) unfolding pooled_def drop_objs_def by (auto split: if_splits)
qed

lemma Release_list_heap:
  assumes H: "heap_ok h C L U ls" and xs: "sll (mem h) p xs" "distinct xs" "\<And>x. x \<in> set xs \<Longrightarrow> U x = Some cl"
  shows "\<exists>h'. ReleaseListToSpans cl p h = Some h' \<and> heap_ok h' C L (drop_objs U xs) ls \<and> keeps (drop_objs U xs) L h h' \<and> rest h' = rest h"
proof -
  obtain out where o: "out_ok h L out" "pooled U ls out" using heap_okD(1) [OF H] by blast
  have "out x = Some cl" if "x \<in> set xs" for x using pooledD(1) [OF o(2) xs(3) [OF that]] .
  from ReleaseListToSpans_ok [OF o(1) xs(1,2) this] obtain h' where h': "ReleaseListToSpans cl p h = Some h'"
    "out_ok h' L (drop_objs out xs)" "keeps (drop_objs out xs) L h h'" "rest h' = rest h" by blast
  have P: "pooled (drop_objs U xs) ls (drop_objs out xs)" by (rule pooled_drop [OF H o(2)]) (use xs(3) in auto)
  have nx: "x \<notin> set xs" if "x \<in> set (ls q)" for x q using heap_okD(4) [OF H that] xs(3) by auto
  have "heap_ok h' C L (drop_objs U xs) ls"
    by (rule heap_ok_spans [OF H o h'(2) P h'(3,4)])
      (use nx pooledD(2) [OF o(2)] heap_okD(4) [OF H] in \<open>auto simp: drop_objs_def\<close>)
  moreover have "keeps (drop_objs U xs) L h h'"
    by (rule keeps_mono [OF h'(3)]) (use pooledD(1) [OF o(2)] in \<open>auto simp: drop_objs_def map_le_def\<close>)
  ultimately show ?thesis using h'(1,4) by blast
qed

section \<open>The slots\<close>

lemma out_ok_same:
  fixes h h' :: "'a tcmalloc_scheme"
  assumes ok: "out_ok h L out" and t: "page_heap.truncate h' = page_heap.truncate h" "mem h' = mem h" "tables h' = tables h"
    and sc: "\<And>cl. cl < 170 \<Longrightarrow> size_class (central h' cl) = size_class (central h cl)"
  shows "out_ok h' L out"
proof -
  obtain es ns fo where s: "span_ok h {} L es ns fo out" by (rule out_okE [OF ok])
  have f: "spans_of h' = spans_of h" "pagemap h' = pagemap h" using t(1) by (simp_all add: page_heap.defs)
  have pm: "pmap h' = pmap h" by (rule pmap_cong) (rule f(2))
  obtain P where P: "ph_ok h (held es ns L \<union> {}) P" using span_okD(1) [OF s] by blast
  have "caller_writes (held es ns L \<union> {}) h h'" using t(1) by (simp add: caller_writes_def page_heap.defs f)
  from caller_writes_ok [OF P this] have "\<exists>P. ph_ok h' (held es ns L \<union> {}) P" by blast
  then have "span_ok h' {} L es ns fo out"
    using s sc t(2,3) unfolding span_ok_def span_for_def large_span_def parked_def pm f by simp
  then show ?thesis by (rule out_okI)
qed

lemma slot_pop:
  assumes H: "heap_ok h C L U ls" and cl: "cl < 170" and u: "0 < used_slots (central h cl)"
    and h': "h' = upd_central cl (\<lambda>c. c\<lparr>used_slots := used_slots c - 1, cache_size := n\<rparr>) h"
    and n: "used_slots (central h cl) - 1 \<le> n" "n \<le> 170"
  defines "i \<equiv> nat (used_slots (central h cl) - 1)" and "xs \<equiv> ls (Slot cl (nat (used_slots (central h cl) - 1)))"
  shows "heap_ok h' C L (grant_objs U cl xs) (ls(Slot cl i := []))" "slot_ok h cl i xs" "xs \<noteq> []"
    "\<And>x. x \<in> set xs \<Longrightarrow> U x = None" "distinct xs"
    "sll (mem h) (fst (tc_slots (central h cl) i)) xs" "snd (tc_slots (central h cl) i) = last xs" "int (length xs) = batch cl"
proof -
  have sl: "slot_ok h cl i xs" using heap_okD(2) [OF H, of "Slot cl i"] by (simp add: xs_def i_def)
  then show "slot_ok h cl i xs" .
  have i: "int i < used_slots (central h cl)" "int j < used_slots (central h cl) - 1 \<longleftrightarrow> int j < used_slots (central h cl) \<and> j \<noteq> i" for j
  proof -
    have "int i = used_slots (central h cl) - 1" using u by (simp add: i_def)
    then show "int i < used_slots (central h cl)" "int j < used_slots (central h cl) - 1 \<longleftrightarrow> int j < used_slots (central h cl) \<and> j \<noteq> i" by auto
  qed
  show "xs \<noteq> []" "sll (mem h) (fst (tc_slots (central h cl) i)) xs" "snd (tc_slots (central h cl) i) = last xs" "int (length xs) = batch cl"
    using sl i(1) cl by (simp_all add: slot_ok_def)
  show U: "U x = None" if "x \<in> set xs" for x using heap_okD(4) [OF H, of x "Slot cl i"] that by (simp add: xs_def i_def)
  show "distinct xs" using heap_okD(3) [OF H, of "Slot cl i"] by (simp add: xs_def i_def)
  show "heap_ok h' C L (grant_objs U cl xs) (ls(Slot cl i := []))"
  proof (rule heap_ok_regroup [OF H, where p = "Slot cl i"])
    show "out_ok h' L out" if "out_ok h L out" "pooled U ls out" for out
      by (rule out_ok_same [OF that(1)]) (simp_all add: h' page_heap.defs)
    show "place_ok C h' q (ls q)" if "q \<noteq> Slot cl i" for q
    proof (cases q)
      case (Slot d j)
      have "int j < used_slots (central h' d) \<longleftrightarrow> int j < used_slots (central h d)"
        using i(2) [of j] that Slot by (cases "d = cl") (simp_all add: h')
      moreover have "tc_slots (central h' d) = tc_slots (central h d)" "mem h' = mem h" by (simp_all add: h')
      ultimately show ?thesis using heap_okD(2) [OF H, of q] Slot by (simp add: slot_ok_def)
    qed (use heap_okD(2) [OF H, of q] in \<open>simp add: h' cache_list_ok_def\<close>)
    show "place_ok C h' (Slot cl i) []" using i(2) by (simp add: slot_ok_def h')
    show "slots_bound h'" using heap_okD(6) [OF H] u n by (simp add: slots_bound_def h')
    show "U x = Some c \<or> c = place_class (Slot cl i) \<and> x \<in> set (ls (Slot cl i)) \<longleftrightarrow>
      grant_objs U cl xs x = Some c \<or> c = place_class (Slot cl i) \<and> x \<in> set []" for x c
      using U [of x] by (auto simp: grant_objs_def xs_def i_def)
  qed simp_all
qed

lemma slot_push:
  assumes H: "heap_ok h C L U ls" and cl: "cl < 170" and u: "used_slots (central h cl) < cache_size (central h cl)"
    and h': "h' = upd_central cl (\<lambda>c. c\<lparr>used_slots := used_slots c + 1, tc_slots := (tc_slots c)(nat (used_slots c) := (p, last xs))\<rparr>) h"
    and xs: "xs \<noteq> []" "sll (mem h) p xs" "distinct xs" "int (length xs) = batch cl" "\<And>x. x \<in> set xs \<Longrightarrow> U x = Some cl"
  shows "heap_ok h' C L (drop_objs U xs) (ls(Slot cl (nat (used_slots (central h cl))) := xs))"
proof -
  let ?i = "nat (used_slots (central h cl))"
  note b = slots_boundD [OF heap_okD(6) [OF H] cl]
  have i: "int ?i = used_slots (central h cl)" using b(1) by simp
  have emp: "ls (Slot cl ?i) = []" using heap_okD(2) [OF H, of "Slot cl ?i"] i by (simp add: slot_ok_def)
  show ?thesis
  proof (rule heap_ok_regroup [OF H])
    show "out_ok h' L out" if "out_ok h L out" "pooled U ls out" for out
      by (rule out_ok_same [OF that(1)]) (simp_all add: h' page_heap.defs)
    show "place_ok C h' q (ls q)" if "q \<noteq> Slot cl ?i" for q
    proof (cases q)
      case (Slot d j)
      then have "j \<noteq> ?i" if "d = cl" using \<open>q \<noteq> Slot cl ?i\<close> that by simp
      then have "int j < used_slots (central h cl) + 1 \<longleftrightarrow> int j < used_slots (central h cl)" if "d = cl" using that i by auto
      then show ?thesis using heap_okD(2) [OF H, of q] Slot \<open>q \<noteq> Slot cl ?i\<close> by (auto simp: h' slot_ok_def)
    qed (use heap_okD(2) [OF H, of q] in \<open>simp add: h' cache_list_ok_def\<close>)
    show "place_ok C h' (Slot cl ?i) xs" using xs(1,2,4) cl i by (simp add: slot_ok_def h')
    show "slots_bound h'" using heap_okD(6) [OF H] u by (simp add: slots_bound_def h')
    show "U x = Some c \<or> c = place_class (Slot cl ?i) \<and> x \<in> set (ls (Slot cl ?i)) \<longleftrightarrow>
      drop_objs U xs x = Some c \<or> c = place_class (Slot cl ?i) \<and> x \<in> set xs" for x c
      using xs(5) [of x] by (auto simp: drop_objs_def emp)
  qed (use xs(3) in \<open>simp_all add: drop_objs_def\<close>)
qed

lemma slot_resize:
  assumes H: "heap_ok h C L U ls" and cl: "cl < 170" and n: "used_slots (central h cl) \<le> n" "n \<le> 170"
  shows "heap_ok (upd_central cl (\<lambda>c. c\<lparr>cache_size := n\<rparr>) h) C L U ls"
proof -
  let ?h = "upd_central cl (\<lambda>c. c\<lparr>cache_size := n\<rparr>) h"
  have "out_ok ?h L out" if "out_ok h L out" for out by (rule out_ok_same [OF that]) (simp_all add: page_heap.defs)
  moreover have "place_ok C ?h q (ls q)" for q by (rule place_ok_cong [OF heap_okD(2) [OF H]]) auto
  moreover have "slots_bound ?h" using heap_okD(6) [OF H] n by (simp add: slots_bound_def)
  ultimately show ?thesis using H unfolding heap_ok_def by blast
qed

lemma heap_ok_race:
  assumes H: "heap_ok h C L U ls" and "0 \<le> n"
  shows "heap_ok (h\<lparr>race_counter := n\<rparr>) C L U ls"
proof -
  let ?h = "h\<lparr>race_counter := n\<rparr>"
  have "out_ok ?h L out" if "out_ok h L out" for out by (rule out_ok_same [OF that]) (simp_all add: page_heap.defs)
  moreover have "place_ok C ?h q (ls q)" for q by (rule place_ok_cong [OF heap_okD(2) [OF H]]) auto
  moreover have "slots_bound ?h" using heap_okD(6) [OF H] assms(2) by (simp add: slots_bound_def)
  ultimately show ?thesis using H unfolding heap_ok_def by blast
qed

lemma drop_grant: "(\<And>x. x \<in> set xs \<Longrightarrow> U x = None) \<Longrightarrow> drop_objs (grant_objs U cl xs) xs = U"
  by (auto simp: drop_objs_def grant_objs_def fun_eq_iff)

lemma grant_in: "x \<in> set xs \<Longrightarrow> grant_objs U cl xs x = Some cl"
  by (simp add: grant_objs_def)

section \<open>Making space\<close>

text \<open>What making space for a class leaves alone.\<close>

definition made_room :: "(u64 \<rightharpoonup> nat) \<Rightarrow> sref set \<Rightarrow> 'a tcmalloc_scheme \<Rightarrow> 'a tcmalloc_scheme \<Rightarrow> bool" where
  "made_room U L h h' \<longleftrightarrow> keeps U L h h' \<and> outer h' = outer h"

lemma made_room_trans: "made_room U L h h' \<Longrightarrow> made_room U L h' h'' \<Longrightarrow> made_room U L h h''"
  using keeps_trans by (auto simp: made_room_def)

lemma ShrinkCache_ok:
  assumes H: "heap_ok h C L U ls" and cl: "cl < 170"
  shows "\<exists>b h' ls'. ShrinkCache cl force h = Some (b, h') \<and> heap_ok h' C L U ls' \<and> made_room U L h h' \<and>
    (\<forall>c. c \<noteq> cl \<longrightarrow> used_slots (central h' c) = used_slots (central h c) \<and> cache_size (central h' c) = cache_size (central h c))"
proof -
  note b = slots_boundD [OF heap_okD(6) [OF H] cl]
  let ?u = "used_slots (central h cl)" and ?n = "cache_size (central h cl)"
  consider "?n = 0 \<or> (?u = ?n \<and> \<not> force)" | "0 < ?n" "?u = ?n" force | "0 < ?n" "?u < ?n" using b(1,2) by linarith
  then show ?thesis
  proof cases
    case 1
    then have "ShrinkCache cl force h = Some (False, h)" by (auto simp: ShrinkCache_def)
    then show ?thesis using H by (auto simp: made_room_def)
  next
    case 2
    let ?h1 = "upd_central cl (\<lambda>c. c\<lparr>cache_size := cache_size c - 1, used_slots := used_slots c - 1\<rparr>) h"
    let ?i = "nat (?u - 1)" let ?xs = "ls (Slot cl ?i)"
    have h1: "?h1 = upd_central cl (\<lambda>c. c\<lparr>used_slots := used_slots c - 1, cache_size := ?n - 1\<rparr>) h"
      by (simp add: fun_eq_iff)
    note pop = slot_pop [OF H cl _ h1]
    have H1: "heap_ok ?h1 C L (grant_objs U cl ?xs) (ls(Slot cl ?i := []))" by (rule pop(1)) (use 2 b in simp_all)
    have xs: "sll (mem ?h1) (fst (tc_slots (central h cl) ?i)) ?xs" "distinct ?xs" "\<And>x. x \<in> set ?xs \<Longrightarrow> U x = None"
      using pop(4,5,6) 2 b by simp_all
    have dg: "drop_objs (grant_objs U cl ?xs) ?xs = U" by (rule drop_grant) (rule xs(3))
    have gi: "grant_objs U cl ?xs x = Some cl" if "x \<in> set ?xs" for x by (rule grant_in [OF that])
    from Release_list_heap [OF H1 xs(1,2) gi] obtain h' where
      h': "ReleaseListToSpans cl (fst (tc_slots (central h cl) ?i)) ?h1 = Some h'" "heap_ok h' C L U (ls(Slot cl ?i := []))"
      "keeps U L ?h1 h'" "rest h' = rest ?h1" unfolding dg by blast
    have "ShrinkCache cl force h = Some (True, h')" using 2 b h'(1) by (simp add: ShrinkCache_def Let_def)
    moreover have "keeps U L h ?h1" by (rule keeps_same_mem) simp_all
    ultimately show ?thesis using h'(2,3) keeps_trans outer_rest [OF h'(4)] rest_eqD(4,5) [OF h'(4)]
      unfolding made_room_def by (intro exI [of _ True] exI [of _ h'] exI [of _ "ls(Slot cl ?i := [])"]) auto
  next
    case 3
    let ?h1 = "upd_central cl (\<lambda>c. c\<lparr>cache_size := ?n - 1\<rparr>) h"
    have "ShrinkCache cl force h = Some (True, ?h1)" using 3 b by (simp add: ShrinkCache_def)
    moreover have "heap_ok ?h1 C L U ls" by (rule slot_resize [OF H cl]) (use 3 b in simp_all)
    moreover have "keeps U L h ?h1" by (rule keeps_same_mem) simp_all
    ultimately show ?thesis by (auto simp: made_room_def)
  qed
qed

lemma heap_keeps_sll:
  assumes H: "heap_ok h C L U ls" and k: "keeps U' L' h h'" and x: "\<And>x. x \<in> set xs \<Longrightarrow> U x = Some c \<and> U' x = Some c"
  shows "sll (mem h') p xs = sll (mem h) p xs"
proof -
  obtain out where o: "out_ok h L out" "pooled U ls out" using heap_okD(1) [OF H] by blast
  show ?thesis by (rule keeps_sll [OF o(1) k]) (use x pooledD(1) [OF o(2)] in blast)
qed

lemma class_int32: "cl < 170 \<Longrightarrow> to_int32 (word_of_nat cl) = int cl"
  using class_word(2) [of cl] by (subst to_int32_small) (simp_all add: uint_nat)

lemma batch_of_class: "heap_ok h C L U ls \<Longrightarrow> cl < 170 \<Longrightarrow> batch_of cl h = batch cl"
  using heap_facts(4) [of h C L U ls] heap_facts(5) [of h C L U ls cl] class_word(2) [of cl] by (simp add: batch_of_def batch_def)

lemma Evict_ok:
  assumes H: "heap_ok h C L U ls" and cl: "cl < 170"
  shows "\<exists>b h' ls'. EvictRandomSizeClass (word_of_nat cl) force h = Some (b, h') \<and> heap_ok h' C L U ls' \<and> made_room U L h h' \<and>
    used_slots (central h' cl) = used_slots (central h cl) \<and> cache_size (central h' cl) = cache_size (central h cl)"
proof -
  let ?t = "race_counter h" let ?t' = "if int 170 \<le> ?t then ?t mod int 170 else ?t"
  let ?h1 = "h\<lparr>race_counter := if int 170 \<le> ?t then ?t mod int 170 else ?t + 1\<rparr>"
  have t: "0 \<le> ?t" using heap_okD(6) [OF H] by (simp add: slots_bound_def)
  then have t': "0 \<le> ?t'" "?t' < 170" by auto
  have H1: "heap_ok ?h1 C L U ls" by (rule heap_ok_race [OF H]) (use t in simp)
  have k1: "made_room U L h ?h1" by (simp add: made_room_def keeps_same_mem)
  have run: "EvictRandomSizeClass (word_of_nat cl) force h = (if ?t' = int cl then Some (False, ?h1) else ShrinkCache (nat ?t') force ?h1)"
    using t t' cl by (simp add: EvictRandomSizeClass_def Let_def kNumClasses_def class_int32 [OF cl])
  show ?thesis
  proof (cases "?t' = int cl")
    case True
    have "EvictRandomSizeClass (word_of_nat cl) force h = Some (False, ?h1)" unfolding run if_P [OF True] by (simp only: refl)
    moreover have "central ?h1 = central h" by simp
    ultimately show ?thesis using H1 k1 by (intro exI [of _ False] exI [of _ ?h1] exI [of _ ls] conjI) (simp_all only:)
  next
    case False
    have n: "nat ?t' < 170" "cl \<noteq> nat ?t'" using t' False by linarith+
    obtain b h' ls' where h': "ShrinkCache (nat ?t') force ?h1 = Some (b, h')" "heap_ok h' C L U ls'" "made_room U L ?h1 h'"
      "\<forall>c. c \<noteq> nat ?t' \<longrightarrow> used_slots (central h' c) = used_slots (central ?h1 c) \<and> cache_size (central h' c) = cache_size (central ?h1 c)"
      using ShrinkCache_ok [OF H1 n(1), of force] by blast
    have "EvictRandomSizeClass (word_of_nat cl) force h = Some (b, h')" using h'(1) unfolding run if_not_P [OF False] .
    moreover have "used_slots (central h' cl) = used_slots (central h cl) \<and> cache_size (central h' cl) = cache_size (central h cl)"
      using h'(4) n(2) by simp
    ultimately show ?thesis using h'(2) made_room_trans [OF k1 h'(3)] by blast
  qed
qed

lemma MakeCacheSpace_ok:
  assumes H: "heap_ok h C L U ls" and cl: "cl < 170"
  shows "\<exists>b h' ls'. MakeCacheSpace cl h = Some (b, h') \<and> heap_ok h' C L U ls' \<and> made_room U L h h' \<and>
    (b \<longrightarrow> used_slots (central h' cl) < cache_size (central h' cl))"
proof -
  let ?u = "used_slots (central h cl)" and ?n = "cache_size (central h cl)"
  note b = slots_boundD [OF heap_okD(6) [OF H] cl]
  have sc: "size_class (central g cl) = word_of_nat cl" if "heap_ok g C L U gs" for g gs using heap_facts(5) [OF that cl] .
  show ?thesis
  proof (cases "?u < ?n \<or> ?n = 170")
    case True
    then have "MakeCacheSpace cl h = Some (?u < ?n, h)" by (auto simp: MakeCacheSpace_def kNumTransferEntries_def)
    then show ?thesis using H by (auto simp: made_room_def)
  next
    case False
    let ?k = "\<lambda>g. used_slots (central g cl) = ?u \<and> cache_size (central g cl) = ?n"
    obtain b1 h1 l1 where 1: "EvictRandomSizeClass (word_of_nat cl) False h = Some (b1, h1)" "heap_ok h1 C L U l1" "made_room U L h h1" "?k h1"
      using Evict_ok [OF H cl] by blast
    obtain b2 h2 l2 where 2: "(if b1 then Some (True, h1) else EvictRandomSizeClass (word_of_nat cl) True h1) = Some (b2, h2)"
      "heap_ok h2 C L U l2" "made_room U L h1 h2" "?k h2"
    proof (cases b1)
      case True then show thesis using that [of True h1 l1] 1 by (simp add: made_room_def)
    next
      case False
      obtain b h' ls' where "EvictRandomSizeClass (word_of_nat cl) True h1 = Some (b, h')" "heap_ok h' C L U ls'" "made_room U L h1 h'"
        "used_slots (central h' cl) = used_slots (central h1 cl) \<and> cache_size (central h' cl) = cache_size (central h1 cl)"
        using Evict_ok [OF 1(2) cl] by blast
      then show thesis using that [of b h' ls'] False 1(4) by simp
    qed
    have k: "made_room U L h h2" by (rule made_room_trans [OF 1(3) 2(3)])
    have run: "MakeCacheSpace cl h = Some (if b2 then (True, upd_central cl (\<lambda>c. c\<lparr>cache_size := ?n + 1\<rparr>) h2) else (False, h2))"
      using False 1(1,4) 2(1,4) sc [OF H] sc [OF 1(2)]
      by (auto simp: MakeCacheSpace_def kNumTransferEntries_def)
    show ?thesis
    proof (cases b2)
      case True
      let ?h3 = "upd_central cl (\<lambda>c. c\<lparr>cache_size := ?n + 1\<rparr>) h2"
      have "heap_ok ?h3 C L U l2" by (rule slot_resize [OF 2(2) cl]) (use 2(4) b False in simp_all)
      moreover have "made_room U L h2 ?h3" by (simp add: made_room_def keeps_same_mem)
      moreover have "used_slots (central ?h3 cl) < cache_size (central ?h3 cl)" using 2(4) b by simp
      ultimately show ?thesis using run True made_room_trans [OF k] by auto
    qed (use run 2(2) k in auto)
  qed
qed

section \<open>\<open>InsertRange\<close> and \<open>RemoveRange\<close>\<close>

lemma InsertRange_ok:
  assumes H: "heap_ok h C L U ls" and cl: "cl < 170" and xs: "xs \<noteq> []" "sll (mem h) p xs" "distinct xs" "\<And>x. x \<in> set xs \<Longrightarrow> U x = Some cl"
    and N: "N = int (length xs)"
  shows "\<exists>h' ls'. InsertRange cl p (last xs) N h = Some h' \<and> heap_ok h' C L (drop_objs U xs) ls' \<and>
    keeps (drop_objs U xs) L h h' \<and> outer h' = outer h"
proof -
  obtain b h1 l1 where 1: "(if N = batch_of cl h then MakeCacheSpace cl h else Some (False, h)) = Some (b, h1)" "heap_ok h1 C L U l1"
    "made_room U L h h1" "b \<Longrightarrow> N = batch cl \<and> used_slots (central h1 cl) < cache_size (central h1 cl)"
    using MakeCacheSpace_ok [OF H cl] H batch_of_class [OF H cl] by (cases "N = batch_of cl h") (auto simp: made_room_def)
  have k: "keeps U L h h1" "outer h1 = outer h" using 1(3) by (simp_all add: made_room_def)
  have "sll (mem h1) p xs = sll (mem h) p xs" by (rule heap_keeps_sll [OF H k(1)]) (use xs(4) in auto)
  then have s1: "sll (mem h1) p xs" using xs(2) by simp
  have k0: "keeps (drop_objs U xs) L h h1" by (rule keeps_mono [OF k(1)]) (auto simp: drop_objs_def map_le_def)
  show ?thesis
  proof (cases b)
    case True
    let ?h2 = "upd_central cl (\<lambda>c. c\<lparr>used_slots := used_slots c + 1, tc_slots := (tc_slots c)(nat (used_slots c) := (p, last xs))\<rparr>) h1"
    note u = slots_boundD [OF heap_okD(6) [OF 1(2)] cl]
    have "heap_ok ?h2 C L (drop_objs U xs) (l1(Slot cl (nat (used_slots (central h1 cl))) := xs))"
      by (rule slot_push [OF 1(2) cl _ refl xs(1) s1 xs(3) _ xs(4)]) (use 1(4) True N in auto)
    moreover have "InsertRange cl p (last xs) N h = Some ?h2"
      using 1(1,4) True u by (simp add: InsertRange_def Let_def kNumTransferEntries_def)
    moreover have "keeps (drop_objs U xs) L h1 ?h2" by (rule keeps_same_mem) simp_all
    moreover have "outer ?h2 = outer h1" by simp
    ultimately show ?thesis using keeps_trans [OF k0] k(2) by (metis (no_types, lifting))
  next
    case False
    from Release_list_heap [OF 1(2) s1 xs(3,4)] obtain h' where h': "ReleaseListToSpans cl p h1 = Some h'"
      "heap_ok h' C L (drop_objs U xs) l1" "keeps (drop_objs U xs) L h1 h'" "rest h' = rest h1" by blast
    then show ?thesis using 1(1) False k(2) keeps_trans [OF k0 h'(3)] outer_rest [OF h'(4)]
      by (intro exI [of _ h'] exI [of _ l1]) (simp add: InsertRange_def)
  qed
qed

text \<open>Objects from the spans alone.\<close>

lemma RemoveRange_spans:
  assumes K: "kernel_ok (sys_cfg cfg)" and ok: "out_ok h L out" and cl: "1 \<le> cl" "cl \<le> 168" and lim: "within_limit 1 h"
    and no: "\<not> (num = batch_of cl h \<and> 0 < used_slots (central h cl))" and num: "0 < num"
  shows "RemoveRange cl cfg num h = None \<and> \<not> supplied h \<or>
    (\<exists>p t n h' xs. RemoveRange cl cfg num h = Some (p, t, n, h') \<and> sll (mem h') p xs \<and> n = int (length xs) \<and> n \<le> num \<and>
      (xs \<noteq> [] \<longrightarrow> t = last xs) \<and> distinct xs \<and> (\<forall>x\<in>set xs. out x = None) \<and> out_ok h' L (grant_objs out cl xs) \<and>
      keeps out L h h' \<and> rest h' = rest h)"
proof -
  have red: "RemoveRange cl cfg num h = do {
       (tail, h) \<leftarrow> FetchFromSpansSafe cl cfg h;
       if tail = 0 then Some (0, 0, 0, h)
       else do {
         m \<leftarrow> SLL_SetNext tail 0 (mem h);
         (head, count, h) \<leftarrow> RemoveRange_loop (nat (num - 1)) cl tail 1 (h\<lparr>mem := m\<rparr>);
         Some (head, tail, count, h) } }"
    unfolding RemoveRange_def if_not_P [OF no] using num by simp
  from FetchFromSpansSafe_ok [OF K ok cl lim] consider
    "FetchFromSpansSafe cl cfg h = None" "\<not> supplied h"
    | h1 where "FetchFromSpansSafe cl cfg h = Some (0, h1)" "keeps out L h h1" "rest h1 = rest h" "out_ok h1 L out"
    | x h1 where "FetchFromSpansSafe cl cfg h = Some (x, h1)" "keeps out L h h1" "rest h1 = rest h" "x \<noteq> 0" "out x = None"
      "out_ok h1 L (out(x \<mapsto> cl))" by auto
  then show ?thesis
  proof cases
    case 1 then show ?thesis by (simp add: red)
  next
    case (2 h1)
    then have "RemoveRange cl cfg num h = Some (0, 0, 0, h1)" by (simp add: red)
    then show ?thesis using 2 num
      by (intro disjI2 exI [of _ 0] exI [of _ 0] exI [of _ 0] exI [of _ h1] exI [of _ "[]"]) simp
  next
    case (3 x h1)
    let ?out = "out(x \<mapsto> cl)" and ?h2 = "h1\<lparr>mem := store64 x 0 (mem h1)\<rparr>"
    have "?out x = Some cl" by simp
    note st = out_ok_store [OF 3(6) this, of 0]
    have upd: "?out(x := None) = out" using 3(5) by auto
    have k2: "keeps out L h ?h2" by (rule keeps_trans [OF 3(2)]) (use st(2) in \<open>simp only: upd\<close>)
    have "sll (mem ?h2) x [x]" using 3(4) by simp
    moreover have "?out y = Some cl" if "y \<in> set [x]" for y using that by simp
    moreover have "cl < 170" using cl by simp
    ultimately obtain ys h' where r: "RemoveRange_loop (nat (num - 1)) cl x 1 ?h2 = Some (hd (ys @ [x]), 1 + int (length ys), h')"
      "sll (mem h') (hd (ys @ [x])) (ys @ [x])" "distinct ys" "\<forall>y\<in>set ys. ?out y = None" "length ys \<le> nat (num - 1)"
      "out_ok h' L (grant_objs ?out cl ys)" "keeps ?out L ?h2 h'" "rest h' = rest ?h2"
      using RemoveRange_loop_ok [OF st(1), of cl x "[x]" "nat (num - 1)" 1] by blast
    have "RemoveRange cl cfg num h = Some (hd (ys @ [x]), x, 1 + int (length ys), h')"
      using 3(1,4) r(1) by (simp add: red SLL_SetNext_def)
    moreover have "x \<notin> set ys" using r(4) by auto
    moreover have "grant_objs ?out cl ys = grant_objs out cl (ys @ [x])" by (auto simp: grant_objs_def fun_eq_iff)
    moreover have "keeps out L h h'"
      by (rule keeps_trans [OF k2 keeps_mono [OF r(7)]]) (use 3(5) in \<open>auto simp: map_le_def\<close>)
    moreover have "\<forall>y\<in>set (ys @ [x]). out y = None" using r(4) 3(5) by (auto split: if_splits)
    ultimately show ?thesis using r(2,3,5,6,8) 3(3) num
      by (intro disjI2 exI [of _ "hd (ys @ [x])"] exI [of _ x] exI [of _ "1 + int (length ys)"] exI [of _ h'] exI [of _ "ys @ [x]"])
        (simp add: le_nat_iff)
  qed
qed

lemma RemoveRange_ok:
  assumes K: "kernel_ok (sys_cfg cfg)" and H: "heap_ok h C L U ls" and cl: "1 \<le> cl" "cl \<le> 168" and lim: "within_limit 1 h"
    and num: "0 < num"
  shows "RemoveRange cl cfg num h = None \<and> \<not> supplied h \<or>
    (\<exists>p t n h' xs ls'. RemoveRange cl cfg num h = Some (p, t, n, h') \<and> sll (mem h') p xs \<and> n = int (length xs) \<and> n \<le> num \<and>
      (xs \<noteq> [] \<longrightarrow> t = last xs) \<and> distinct xs \<and> (\<forall>x\<in>set xs. U x = None) \<and> heap_ok h' C L (grant_objs U cl xs) ls' \<and>
      keeps U L h h' \<and> outer h' = outer h)"
proof (cases "num = batch_of cl h \<and> 0 < used_slots (central h cl)")
  case True
  have c: "cl < 170" using cl by simp
  let ?u = "used_slots (central h cl)" let ?xs = "ls (Slot cl (nat (?u - 1)))"
  let ?h1 = "upd_central cl (\<lambda>c. c\<lparr>used_slots := used_slots c - 1\<rparr>) h"
  have h1: "?h1 = upd_central cl (\<lambda>c. c\<lparr>used_slots := used_slots c - 1, cache_size := cache_size (central h cl)\<rparr>) h" by simp
  note b = slots_boundD [OF heap_okD(6) [OF H] c]
  have u0: "0 < ?u" "?u - 1 \<le> cache_size (central h cl)" "cache_size (central h cl) \<le> 170" using True b by simp_all
  note pop = slot_pop [OF H c u0(1) h1 u0(2,3)]
  obtain p t where pt: "tc_slots (central h cl) (nat (?u - 1)) = (p, t)" by fastforce
  have "RemoveRange cl cfg num h = Some (p, t, num, ?h1)"
    using True num pt by (simp add: RemoveRange_def Let_def)
  moreover have "keeps U L h ?h1" by (rule keeps_same_mem) simp_all
  moreover have "num = int (length ?xs)" using pop(8) True batch_of_class [OF H c] by simp
  moreover have "sll (mem ?h1) p ?xs" "t = last ?xs" using pop(6,7) pt by simp_all
  moreover have "outer ?h1 = outer h" by simp
  ultimately show ?thesis using pop(1,4,5)
    by (intro disjI2 exI [of _ p] exI [of _ t] exI [of _ num] exI [of _ ?h1] exI [of _ ?xs]) blast
next
  case False
  obtain out where o: "out_ok h L out" "pooled U ls out" using heap_okD(1) [OF H] by blast
  from RemoveRange_spans [OF K o(1) cl lim False num] show ?thesis
  proof (elim disjE exE conjE)
    fix p t n h' xs assume r: "RemoveRange cl cfg num h = Some (p, t, n, h')" "sll (mem h') p xs" "n = int (length xs)" "n \<le> num"
      "xs \<noteq> [] \<longrightarrow> t = last xs" "distinct xs" "\<forall>x\<in>set xs. out x = None" "out_ok h' L (grant_objs out cl xs)" "keeps out L h h'" "rest h' = rest h"
    have U: "\<forall>x\<in>set xs. U x = None" "\<And>x q. x \<in> set xs \<Longrightarrow> x \<notin> set (ls q)" using r(7) pooled_None [OF o(2)] by blast+
    have P: "pooled (grant_objs U cl xs) ls (grant_objs out cl xs)" by (rule pooled_grant [OF o(2)]) (use r(7) in blast)
    have "heap_ok h' C L (grant_objs U cl xs) ls"
      by (rule heap_ok_spans [OF H o r(8) P r(9,10)])
        (use U(2) pooledD(2) [OF o(2)] heap_okD(4) [OF H] in \<open>auto simp: grant_objs_def\<close>)
    moreover have "keeps U L h h'" by (rule keeps_mono [OF r(9)]) (use pooledD(1) [OF o(2)] in \<open>auto simp: map_le_def\<close>)
    ultimately show ?thesis using r(1-6) U(1) outer_rest [OF r(10)] by blast
  qed simp
qed

end
