(* ===== verification/ThreadCache.thy ===== *)
theory ThreadCache
  imports CentralCache
begin

text \<open>
  \<open>TCMalloc_ThreadCache_FreeList\<close> and \<open>TCMalloc_ThreadCache\<close>: the free lists of one thread, their
  exchange with the central lists, sampling, and the registry of the caches of all threads.

  A cache is named by its address \<open>c\<close> (\<open>caches h c\<close>); \<open>me\<close> is the calling thread.
\<close>

section \<open>Constants\<close>

definition kMinThreadCacheSize :: u64 where "kMinThreadCacheSize = kMaxSize * 2"
definition kMaxThreadCacheSize :: u64 where "kMaxThreadCacheSize = push_bit 20 2"
definition kDefaultOverallThreadCacheSize :: u64 where "kDefaultOverallThreadCacheSize = push_bit 20 16"

definition primes_list :: "u32 list" where
  "primes_list = [32771, 65537, 131101, 262147, 524309, 1048583, 2097169, 4194319, 8388617, 16777259, 33554467]"

definition sizeof_ThreadCache :: u64 where "sizeof_ThreadCache = 2776"

section \<open>One free list\<close>

definition FL_Init :: free_list where
  "FL_Init = \<lparr>fl_list = 0, fl_length = 0, fl_lowater = 0\<rparr>"

definition FL_empty :: "free_list \<Rightarrow> bool" where
  "FL_empty l \<longleftrightarrow> fl_list l = 0"

definition FL_clear_lowwatermark :: "free_list \<Rightarrow> free_list" where
  "FL_clear_lowwatermark l = l\<lparr>fl_lowater := fl_length l\<rparr>"

definition FL_Push :: "u64 \<Rightarrow> free_list \<Rightarrow> mem \<Rightarrow> (free_list \<times> mem) option" where
  "FL_Push ptr l m = do {
     (head, m) \<leftarrow> SLL_Push (fl_list l) ptr m;
     Some (l\<lparr>fl_list := head, fl_length := fl_length l + 1\<rparr>, m) }"

definition FL_Pop :: "free_list \<Rightarrow> mem \<Rightarrow> (u64 \<times> free_list) option" where
  "FL_Pop l m = do {
     ASSERT (fl_list l \<noteq> 0);
     let l = l\<lparr>fl_length := fl_length l - 1\<rparr>;
     let l = (if fl_length l < fl_lowater l then l\<lparr>fl_lowater := fl_length l\<rparr> else l);
     (result, rest) \<leftarrow> SLL_Pop (fl_list l) m;
     Some (result, l\<lparr>fl_list := rest\<rparr>) }"

definition FL_PushRange :: "int \<Rightarrow> u64 \<Rightarrow> u64 \<Rightarrow> free_list \<Rightarrow> mem \<Rightarrow> (free_list \<times> mem) option" where
  "FL_PushRange N start fin l m = do {
     (head, m) \<leftarrow> SLL_PushRange (fl_list l) start fin m;
     Some (l\<lparr>fl_list := head, fl_length := fl_length l + word_of_int N\<rparr>, m) }"

definition FL_PopRange :: "int \<Rightarrow> free_list \<Rightarrow> mem \<Rightarrow> (u64 \<times> u64 \<times> free_list \<times> mem) option" where
  "FL_PopRange N l m = do {
     (start, fin, head, m) \<leftarrow> SLL_PopRange (fl_list l) N m;
     let l = l\<lparr>fl_list := head\<rparr>;
     ASSERT (uint (fl_length l) \<ge> N);
     let l = l\<lparr>fl_length := fl_length l - word_of_int N\<rparr>;
     let l = (if fl_length l < fl_lowater l then l\<lparr>fl_lowater := fl_length l\<rparr> else l);
     Some (start, fin, l, m) }"

section \<open>Exchange with the central lists\<close>

abbreviation upd_cache :: "u64 \<Rightarrow> (thread_cache \<Rightarrow> thread_cache) \<Rightarrow> 'a tcmalloc_scheme \<Rightarrow> 'a tcmalloc_scheme" where
  "upd_cache c f h \<equiv> h\<lparr>caches := (caches h)(c := f (caches h c))\<rparr>"

definition set_fl :: "nat \<Rightarrow> free_list \<Rightarrow> thread_cache \<Rightarrow> thread_cache" where
  "set_fl cl l t = t\<lparr>tc_list := (tc_list t)(cl := l)\<rparr>"

definition FetchFromCentralCache :: "u64 \<Rightarrow> nat \<Rightarrow> tc_config \<Rightarrow> 'a tcmalloc_scheme \<Rightarrow> 'a tcmalloc_scheme option" where
  "FetchFromCentralCache c cl cfg h = do {
     let fetch_count = num_objects_to_move (tables h) ! cl;
     (start, fin, fetch_count, h) \<leftarrow> RemoveRange cl cfg fetch_count h;
     (l, m) \<leftarrow> FL_PushRange fetch_count start fin (tc_list (caches h c) cl) (mem h);
     let h = h\<lparr>mem := m\<rparr>;
     Some (upd_cache c (\<lambda>t. (set_fl cl l t)\<lparr>tc_size := tc_size t
       + ByteSizeForClass (tables h) (word_of_nat cl) * word_of_int fetch_count\<rparr>) h) }"

definition Release_batch :: "u64 \<Rightarrow> nat \<Rightarrow> int \<Rightarrow> 'a tcmalloc_scheme \<Rightarrow> 'a tcmalloc_scheme option" where
  "Release_batch c cl n h = do {
     (head, tail, l, m) \<leftarrow> FL_PopRange n (tc_list (caches h c) cl) (mem h);
     InsertRange cl head tail n (upd_cache c (set_fl cl l) (h\<lparr>mem := m\<rparr>)) }"

partial_function (option) Release_loop :: "u64 \<Rightarrow> nat \<Rightarrow> int \<Rightarrow> int \<Rightarrow> 'a tcmalloc_scheme \<Rightarrow> 'a tcmalloc_scheme option" where
  "Release_loop c cl batch_size N h =
     (if N > batch_size
      then Option.bind (Release_batch c cl batch_size h) (Release_loop c cl batch_size (N - batch_size))
      else Release_batch c cl N h)"

declare Release_loop.simps [code]

definition ReleaseToCentralCache :: "u64 \<Rightarrow> nat \<Rightarrow> int \<Rightarrow> 'a tcmalloc_scheme \<Rightarrow> 'a tcmalloc_scheme option" where
  "ReleaseToCentralCache c cl N h = do {
     ASSERT (N > 0);
     let len = uint (fl_length (tc_list (caches h c) cl));
     let N = (if N > len then len else N);
     let h = upd_cache c (\<lambda>t. t\<lparr>tc_size := tc_size t
               - word_of_int N * ByteSizeForClass (tables h) (word_of_nat cl)\<rparr>) h;
     Release_loop c cl (num_objects_to_move (tables h) ! cl) N h }"

fun Scavenge_classes :: "nat list \<Rightarrow> u64 \<Rightarrow> 'a tcmalloc_scheme \<Rightarrow> 'a tcmalloc_scheme option" where
  "Scavenge_classes [] c h = Some h"
| "Scavenge_classes (cl # cls) c h = do {
     let lowmark = uint (fl_lowater (tc_list (caches h c) cl));
     h \<leftarrow> (if lowmark > 0
           then ReleaseToCentralCache c cl (if lowmark > 1 then lowmark div 2 else 1) h else Some h);
     Scavenge_classes cls c
       (upd_cache c (\<lambda>t. set_fl cl (FL_clear_lowwatermark (tc_list t cl)) t) h) }"

definition Scavenge :: "u64 \<Rightarrow> 'a tcmalloc_scheme \<Rightarrow> 'a tcmalloc_scheme option" where
  "Scavenge c h = Scavenge_classes [0..<kNumClasses] c h"

fun Cleanup_classes :: "nat list \<Rightarrow> u64 \<Rightarrow> 'a tcmalloc_scheme \<Rightarrow> 'a tcmalloc_scheme option" where
  "Cleanup_classes [] c h = Some h"
| "Cleanup_classes (cl # cls) c h = do {
     let len = uint (fl_length (tc_list (caches h c) cl));
     h \<leftarrow> (if len > 0 then ReleaseToCentralCache c cl len h else Some h);
     Cleanup_classes cls c h }"

definition Cleanup :: "u64 \<Rightarrow> 'a tcmalloc_scheme \<Rightarrow> 'a tcmalloc_scheme option" where
  "Cleanup c h = Cleanup_classes [0..<kNumClasses] c h"

section \<open>Allocation and release of one object\<close>

definition TC_Allocate :: "u64 \<Rightarrow> tc_config \<Rightarrow> u64 \<Rightarrow> 'a tcmalloc_scheme \<Rightarrow> (u64 \<times> 'a tcmalloc_scheme) option" where
  "TC_Allocate c cfg sz h = do {
     ASSERT (sz \<le> kMaxSize);
     let cl = unat (SizeClass (tables h) sz);
     h \<leftarrow> (if FL_empty (tc_list (caches h c) cl) then FetchFromCentralCache c cl cfg h else Some h);
     if FL_empty (tc_list (caches h c) cl) then Some (0, h)
     else do {
       let h = upd_cache c (\<lambda>t. t\<lparr>tc_size := tc_size t - ByteSizeForClass (tables h) (word_of_nat cl)\<rparr>) h;
       (result, l) \<leftarrow> FL_Pop (tc_list (caches h c) cl) (mem h);
       Some (result, upd_cache c (set_fl cl l) h) } }"

definition TC_Deallocate :: "u64 \<Rightarrow> u64 \<Rightarrow> nat \<Rightarrow> 'a tcmalloc_scheme \<Rightarrow> 'a tcmalloc_scheme option" where
  "TC_Deallocate c ptr cl h = do {
     let h = upd_cache c (\<lambda>t. t\<lparr>tc_size := tc_size t + ByteSizeForClass (tables h) (word_of_nat cl)\<rparr>) h;
     (l, m) \<leftarrow> FL_Push ptr (tc_list (caches h c) cl) (mem h);
     let h = upd_cache c (set_fl cl l) (h\<lparr>mem := m\<rparr>);
     h \<leftarrow> (if uint (fl_length l) > kMaxFreeListLength
           then ReleaseToCentralCache c cl (num_objects_to_move (tables h) ! cl) h else Some h);
     if tc_size (caches h c) \<ge> per_thread_cache_size h then Scavenge c h else Some h }"

section \<open>Sampling\<close>

definition kPoly :: u32 where
  "kPoly = push_bit 22 1 OR push_bit 2 1 OR push_bit 1 1 OR push_bit 0 1"

text \<open>One step of the shift register: the sign bit of \<open>r\<close> selects the polynomial.\<close>

definition rnd_step :: "u32 \<Rightarrow> u32" where
  "rnd_step r = push_bit 1 r XOR (signed_drop_bit 31 r AND kPoly)"

text \<open>
  The search for a prime compares \<open>unsigned\<close> with \<open>int\<close>, that is as unsigned, and stops at the
  last prime at the latest.
\<close>

fun find_prime :: "u32 \<Rightarrow> u32 list \<Rightarrow> u32" where
  "find_prime v [] = 0"
| "find_prime v [q] = q"
| "find_prime v (q # qs) = (if q \<ge> v then q else find_prime v qs)"

definition PickNextSample :: "u64 \<Rightarrow> tc_config \<Rightarrow> 'a tcmalloc_scheme \<Rightarrow> 'a tcmalloc_scheme" where
  "PickNextSample c cfg h =
     (let r = rnd_step (rnd (caches h c));
          flag_value = sint (word_of_int (FLAGS_tcmalloc_sample_parameter cfg) :: u32);
          h = (if flag_value \<noteq> last_flag_value h
               then h\<lparr>sample_period := ucast (find_prime (word_of_int flag_value) primes_list),
                      last_flag_value := flag_value\<rparr>
               else h)
      in upd_cache c (\<lambda>t. t\<lparr>rnd := r, bytes_until_sample := ucast r mod sample_period h\<rparr>) h)"

definition SampleAllocation :: "u64 \<Rightarrow> tc_config \<Rightarrow> u64 \<Rightarrow> 'a tcmalloc_scheme \<Rightarrow> bool \<times> 'a tcmalloc_scheme" where
  "SampleAllocation c cfg k h =
     (if bytes_until_sample (caches h c) < k then (True, PickNextSample c cfg h)
      else (False, upd_cache c (\<lambda>t. t\<lparr>bytes_until_sample := bytes_until_sample t - k\<rparr>) h))"

section \<open>Creation and destruction of caches\<close>

definition TC_Init :: "u64 \<Rightarrow> tc_config \<Rightarrow> u64 \<Rightarrow> 'a tcmalloc_scheme \<Rightarrow> 'a tcmalloc_scheme" where
  "TC_Init c cfg tid h =
     (PickNextSample c cfg ^^ 100)
       (upd_cache c (\<lambda>t. t\<lparr>tc_size := 0, tc_next := 0, tc_prev := 0, tc_tid := tid, in_setspecific := False,
          tc_list := \<lambda>cl. if cl < kNumClasses then FL_Init else tc_list t cl, rnd := ucast c\<rparr>) h)"

definition RecomputeThreadCacheSize :: "'a tcmalloc_scheme \<Rightarrow> 'a tcmalloc_scheme" where
  "RecomputeThreadCacheSize h =
     (let n = (if thread_heap_count h > 0 then thread_heap_count h else 1);
          space = overall_thread_cache_size h div word_of_int n;
          space = (if space < kMinThreadCacheSize then kMinThreadCacheSize else space);
          space = (if space > kMaxThreadCacheSize then kMaxThreadCacheSize else space)
      in h\<lparr>per_thread_cache_size := space\<rparr>)"

fun Central_Inits :: "nat list \<Rightarrow> 'a tcmalloc_scheme \<Rightarrow> 'a tcmalloc_scheme option" where
  "Central_Inits [] h = Some h"
| "Central_Inits (cl # cls) h = Option.bind (Central_Init cl h) (Central_Inits cls)"

definition PHA_Init_span :: "tc_config \<Rightarrow> 'a tcmalloc_scheme \<Rightarrow> 'a tcmalloc_scheme option" where
  "PHA_Init_span cfg h = do {
     (a, ms) \<leftarrow> PHA_Init (sys_cfg cfg) sizeof_Span (span_allocator h) (meta h);
     (_, a, ms) \<leftarrow> PHA_New (sys_cfg cfg) sizeof_Span a ms;
     (_, a, ms) \<leftarrow> PHA_New (sys_cfg cfg) sizeof_Span a ms;
     Some (h\<lparr>span_allocator := a, meta := ms\<rparr>) }"

definition InitModule :: "tc_config \<Rightarrow> 'a tcmalloc_scheme \<Rightarrow> 'a tcmalloc_scheme option" where
  "InitModule cfg h =
     (if phinited h then Some h
      else do {
        t \<leftarrow> InitSizeClasses (tables h);
        let h = h\<lparr>tables := t\<rparr>;
        (a, ms) \<leftarrow> PHA_Init (sys_cfg cfg) sizeof_ThreadCache (threadheap_allocator h) (meta h);
        let h = h\<lparr>threadheap_allocator := a, meta := ms\<rparr>;
        h \<leftarrow> PHA_Init_span cfg h;
        (a, ms) \<leftarrow> PHA_Init (sys_cfg cfg) sizeof_StackTrace (stacktrace_allocator h) (meta h);
        let h = h\<lparr>stacktrace_allocator := a, meta := ms\<rparr>;
        h \<leftarrow> on_spans (DLL_Init SampledHead) h;
        h \<leftarrow> Central_Inits [0..<kNumClasses] h;
        h \<leftarrow> PageHeap_init cfg h;
        Some (h\<lparr>phinited := True\<rparr>) })"

text \<open>Walking \<open>thread_heaps\<close>: the first cache of a thread.\<close>

partial_function (option) find_heap :: "'a tcmalloc_scheme \<Rightarrow> u64 \<Rightarrow> u64 \<Rightarrow> u64 option" where
  "find_heap h me c =
     (if c = 0 then Some 0 else if tc_tid (caches h c) = me then Some c
      else find_heap h me (tc_next (caches h c)))"

partial_function (option) InitTSD_loop :: "u64 \<Rightarrow> u64 \<Rightarrow> 'a tcmalloc_scheme \<Rightarrow> 'a tcmalloc_scheme option" where
  "InitTSD_loop me c h =
     (if c = 0 then Some h
      else InitTSD_loop me (tc_next (caches h c))
        (if tc_tid (caches h c) = 0 then upd_cache c (\<lambda>t. t\<lparr>tc_tid := me\<rparr>) h else h))"

declare find_heap.simps [code] InitTSD_loop.simps [code]

text \<open>The result of \<open>perftools_pthread_key_create\<close> is ignored: without a key, \<open>heap_key\<close> stays what it was.\<close>

definition InitTSD :: "u64 \<Rightarrow> 'a tcmalloc_scheme \<Rightarrow> 'a tcmalloc_scheme option" where
  "InitTSD me h = do {
     ASSERT (\<not> tsd_inited h);
     (key, ts) \<leftarrow> perftools_pthread_key_create (mth h);
     let h = h\<lparr>heap_key := (case key of None \<Rightarrow> heap_key h | Some k \<Rightarrow> k), mth := ts, tsd_inited := True\<rparr>;
     InitTSD_loop me (thread_heaps h) h }"

definition CreateCache :: "tc_config \<Rightarrow> u64 \<Rightarrow> 'a tcmalloc_scheme \<Rightarrow> (u64 \<times> 'a tcmalloc_scheme) option" where
  "CreateCache cfg me h = do {
     (heap, a, ms) \<leftarrow> PHA_New (sys_cfg cfg) sizeof_ThreadCache (threadheap_allocator h) (meta h);
     ASSERT (heap \<noteq> 0);
     let h = TC_Init heap cfg me (h\<lparr>threadheap_allocator := a, meta := ms\<rparr>);
     let h = upd_cache heap (\<lambda>t. t\<lparr>tc_next := thread_heaps h, tc_prev := 0\<rparr>) h;
     let h = (if thread_heaps h \<noteq> 0 then upd_cache (thread_heaps h) (\<lambda>t. t\<lparr>tc_prev := heap\<rparr>) h else h);
     Some (heap, RecomputeThreadCacheSize (h\<lparr>thread_heaps := heap, thread_heap_count := thread_heap_count h + 1\<rparr>)) }"

definition CreateCacheIfNecessary :: "tc_config \<Rightarrow> u64 \<Rightarrow> 'a tcmalloc_scheme \<Rightarrow> (u64 \<times> 'a tcmalloc_scheme) option" where
  "CreateCacheIfNecessary cfg self h = do {
     let me = (if \<not> tsd_inited h then 0 else self);
     heap \<leftarrow> find_heap h me (thread_heaps h);
     (heap, h) \<leftarrow> (if heap = 0 then CreateCache cfg me h else Some (heap, h));
     if \<not> in_setspecific (caches h heap) \<and> tsd_inited h then do {
       let h = upd_cache heap (\<lambda>t. t\<lparr>in_setspecific := True\<rparr>) h;
       ts \<leftarrow> perftools_pthread_setspecific self (heap_key h) heap (mth h);
       Some (heap, upd_cache heap (\<lambda>t. t\<lparr>in_setspecific := False\<rparr>) (h\<lparr>mth := ts\<rparr>)) }
     else Some (heap, h) }"

definition GetCache :: "tc_config \<Rightarrow> u64 \<Rightarrow> 'a tcmalloc_scheme \<Rightarrow> (u64 \<times> 'a tcmalloc_scheme) option" where
  "GetCache cfg self h = do {
     (ptr, h) \<leftarrow> (if \<not> tsd_inited h then map_option (Pair 0) (InitModule cfg h)
                  else map_option (\<lambda>p. (p, h)) (perftools_pthread_getspecific self (heap_key h) (mth h)));
     if ptr = 0 then CreateCacheIfNecessary cfg self h else Some (ptr, h) }"

definition GetCacheIfPresent :: "u64 \<Rightarrow> 'a tcmalloc_scheme \<Rightarrow> u64 option" where
  "GetCacheIfPresent self h =
     (if \<not> tsd_inited h then Some 0 else perftools_pthread_getspecific self (heap_key h) (mth h))"

definition DeleteCache :: "u64 \<Rightarrow> 'a tcmalloc_scheme \<Rightarrow> 'a tcmalloc_scheme option" where
  "DeleteCache heap h = do {
     h \<leftarrow> Cleanup heap h;
     let t = caches h heap;
     let h = (if tc_next t \<noteq> 0 then upd_cache (tc_next t) (\<lambda>u. u\<lparr>tc_prev := tc_prev t\<rparr>) h else h);
     let t = caches h heap;
     let h = (if tc_prev t \<noteq> 0 then upd_cache (tc_prev t) (\<lambda>u. u\<lparr>tc_next := tc_next t\<rparr>) h else h);
     let h = (if thread_heaps h = heap then h\<lparr>thread_heaps := tc_next (caches h heap)\<rparr> else h);
     let h = RecomputeThreadCacheSize (h\<lparr>thread_heap_count := thread_heap_count h - 1\<rparr>);
     a \<leftarrow> PHA_Delete heap (threadheap_allocator h);
     Some (h\<lparr>threadheap_allocator := a\<rparr>) }"

end
