(* ===== verification/CacheSpec.thy ===== *)
theory CacheSpec
  imports TransferSpec ThreadCache
begin

text \<open>
  The thread caches: their free lists hold objects of their class that nobody else holds, and the
  exchange with the central lists, the scavenger and the allocation and release of one object keep it so.
\<close>

section \<open>Lists of objects\<close>

lemma objs_of_out:
  assumes ok: "out_ok h L out" and "distinct xs" "\<And>x. x \<in> set xs \<Longrightarrow> out x = Some c"
  shows "objs xs"
  using assms(2,3)
proof (induction xs)
  case (Cons x xs)
  have x: "out x = Some c" using Cons.prems(2) by simp
  have "apart x y" if "y \<in> set xs" for y
    using out_okD(5) [OF ok x, of y c] Cons.prems that by auto
  then show ?case using Cons out_okD(3) [OF ok x] by (simp add: list_all_iff)
qed simp

section \<open>A change to one list of one cache\<close>

text \<open>The state outside the page heap, the memory, the central lists and the caches.\<close>

definition globals :: "'a tcmalloc_scheme \<Rightarrow> 'a tcmalloc_ext" where
  "globals h = page_heap.more (h\<lparr>mem := (\<lambda>_. 0), central := (\<lambda>_. undefined), race_counter := 0, caches := (\<lambda>_. undefined)\<rparr>)"

lemma globals_simps [simp]: "globals (h\<lparr>mem := m\<rparr>) = globals h" "globals (h\<lparr>caches := t\<rparr>) = globals h"
  by (cases h; simp add: globals_def)+

lemma globals_outer: "outer h' = outer h \<Longrightarrow> globals h' = globals h"
  by (cases h; cases h'; simp add: outer_def globals_def)

lemma globals_eqD:
  assumes "globals h' = globals h"
  shows "tables h' = tables h" "tsd_inited h' = tsd_inited h" "heap_key h' = heap_key h"
    "mth h' = mth h" "per_thread_cache_size h' = per_thread_cache_size h" "errno h' = errno h"
  using assms by (cases h; cases h'; simp add: globals_def)+

definition cache_changed :: "u64 \<Rightarrow> nat \<Rightarrow> 'a tcmalloc_scheme \<Rightarrow> 'a tcmalloc_scheme \<Rightarrow> bool" where
  "cache_changed c cl h h' \<longleftrightarrow> page_heap.truncate h' = page_heap.truncate h \<and> central h' = central h \<and>
     race_counter h' = race_counter h \<and> globals h' = globals h \<and>
     (\<forall>d e. d \<noteq> c \<or> e \<noteq> cl \<longrightarrow> tc_list (caches h' d) e = tc_list (caches h d) e)"

lemma cache_step:
  assumes H: "heap_ok h C L U ls" and ch: "cache_changed c cl h h'"
    and m: "mem h' = mem h \<or> (\<exists>a v. (U a = Some cl \<or> a \<in> set (ls (Cache c cl))) \<and> mem h' = store64 a v (mem h))"
    and new: "cache_list_ok C h' c cl xs" "distinct xs"
    and same: "\<And>x d. U x = Some d \<or> d = cl \<and> x \<in> set (ls (Cache c cl)) \<longleftrightarrow> U' x = Some d \<or> d = cl \<and> x \<in> set xs"
    and sep: "\<And>x. x \<in> set xs \<Longrightarrow> U' x = None"
  shows "heap_ok h' C L U' (ls(Cache c cl := xs))"
proof -
  have t: "page_heap.truncate h' = page_heap.truncate h" "central h' = central h" "race_counter h' = race_counter h" "tables h' = tables h"
    using ch globals_eqD(1) [of h' h] by (simp_all add: cache_changed_def)
  have tl: "tc_list (caches h' d) e = tc_list (caches h d) e" if "d \<noteq> c \<or> e \<noteq> cl" for d e using ch that by (simp add: cache_changed_def)
  have ap: "mem h' = mem h \<or> (\<exists>a v. out a = Some cl \<and> (\<forall>q y. q \<noteq> Cache c cl \<longrightarrow> y \<in> set (ls q) \<longrightarrow> apart a y) \<and> mem h' = store64 a v (mem h))"
    if o: "out_ok h L out" "pooled U ls out" for out
    using m
  proof (elim disjE exE conjE)
    fix a v assume a: "U a = Some cl" "mem h' = store64 a v (mem h)"
    then show ?thesis using pooledD(1) [OF o(2) a(1)] heap_facts(7) [OF H a(1)] by blast
  next
    fix a v assume a: "a \<in> set (ls (Cache c cl))" "mem h' = store64 a v (mem h)"
    have oa: "out a = Some cl" using pooledD(2) [OF o(2) a(1)] by simp
    have "apart a y" if "q \<noteq> Cache c cl" "y \<in> set (ls q)" for q y
      using out_okD(5) [OF o(1) oa pooledD(2) [OF o(2) that(2)]] heap_okD(5) [OF H a(1), of q] that by blast
    then show ?thesis using oa a(2) by blast
  qed simp
  show ?thesis
  proof (rule heap_ok_regroup [OF H])
    show "out_ok h' L out" if o: "out_ok h L out" "pooled U ls out" for out
      using ap [OF o]
    proof (elim disjE exE conjE)
      assume "mem h' = mem h"
      then show ?thesis by (intro out_ok_same [OF o(1)]) (use t in simp_all)
    next
      fix a v assume a: "out a = Some cl" "mem h' = store64 a v (mem h)"
      show ?thesis by (rule out_ok_same [OF out_ok_store(1) [OF o(1) a(1), of v]]) (use t a(2) in \<open>simp_all add: page_heap.defs\<close>)
    qed
    show "place_ok C h' q (ls q)" if q: "q \<noteq> Cache c cl" for q
    proof -
      obtain out where o: "out_ok h L out" "pooled U ls out" using heap_okD(1) [OF H] by blast
      have "sll (mem h') p (ls q) = sll (mem h) p (ls q)" for p
        using ap [OF o]
      proof (elim disjE exE conjE)
        fix a v assume a: "\<forall>q y. q \<noteq> Cache c cl \<longrightarrow> y \<in> set (ls q) \<longrightarrow> apart a y" "mem h' = store64 a v (mem h)"
        then have "list_all (apart a) (ls q)" using q by (simp add: list_all_iff)
        then show ?thesis unfolding a(2) by (rule sll_store)
      qed simp
      then show ?thesis using heap_okD(2) [OF H, of q] t(2) tl q
        by (cases q) (auto simp: slot_ok_def cache_list_ok_def)
    qed
    show "slots_bound h'" using heap_okD(6) [OF H] by (simp add: slots_bound_def t)
  qed (use new same sep in simp_all)
qed

lemma cache_keeps:
  assumes H: "heap_ok h C L U ls" and ch: "cache_changed c cl h h'"
    and m: "mem h' = mem h \<or> (\<exists>a v. (U a = Some cl \<and> U' a = None \<or> a \<in> set (ls (Cache c cl))) \<and> mem h' = store64 a v (mem h))"
    and sub: "U' \<subseteq>\<^sub>m U"
  shows "keeps U' L h h'"
proof -
  obtain out where o: "out_ok h L out" "pooled U ls out" using heap_okD(1) [OF H] by blast
  have sp: "spans_of h' = spans_of h" using ch by (simp add: cache_changed_def page_heap.defs)
  show ?thesis
    using m
  proof (elim disjE exE)
    assume "mem h' = mem h" then show ?thesis by (rule keeps_same_mem) (simp add: sp)
  next
    fix a v assume a: "(U a = Some cl \<and> U' a = None \<or> a \<in> set (ls (Cache c cl))) \<and> mem h' = store64 a v (mem h)"
    have oa: "out a = Some cl" using a pooledD [OF o(2)] by fastforce
    have le: "U' x = Some d \<Longrightarrow> U x = Some d" for x d using sub unfolding map_le_def by (metis domI)
    have U'a: "U' a = None"
    proof (cases "U' a")
      case (Some d)
      then have "U a \<noteq> None" using le [of a d] by simp
      then show ?thesis using a heap_okD(4) [OF H, of a "Cache c cl"] Some by auto
    qed
    have "keeps (out(a := None)) L h (h\<lparr>mem := store64 a v (mem h)\<rparr>)" by (rule out_ok_store(2) [OF o(1) oa])
    then have "keeps (out(a := None)) L h h'" using a by (simp add: keeps_def sp)
    moreover have "U' \<subseteq>\<^sub>m out(a := None)"
    proof (unfold map_le_def, intro ballI)
      fix x assume "x \<in> dom U'"
      then obtain d where "U' x = Some d" "U x = Some d" using le by blast
      then show "U' x = (out(a := None)) x" using U'a pooledD(1) [OF o(2), of x d] by auto
    qed
    ultimately show ?thesis by (rule keeps_mono) simp
  qed
qed

section \<open>One free list\<close>

definition fl_ok :: "mem \<Rightarrow> free_list \<Rightarrow> u64 list \<Rightarrow> bool" where
  "fl_ok m l xs \<longleftrightarrow> sll m (fl_list l) xs \<and> unat (fl_length l) = length xs \<and> fl_lowater l \<le> fl_length l"

lemma cache_list_fl: "c \<in> C \<Longrightarrow> cl < 170 \<Longrightarrow> cache_list_ok C h c cl xs \<longleftrightarrow> fl_ok (mem h) (tc_list (caches h c) cl) xs"
  by (simp add: cache_list_ok_def fl_ok_def)

lemma u16_arith:
  "unat (a :: u16) + n < 65536 \<Longrightarrow> unat (a + word_of_nat n) = unat a + n"
  "n \<le> unat (a :: u16) \<Longrightarrow> unat (a - word_of_nat n) = unat a - n"
proof -
  assume a: "unat a + n < 65536"
  have n: "unat (word_of_nat n :: u16) = n" by (rule of_nat_inverse [OF refl]) (use a in simp)
  show "unat (a + word_of_nat n) = unat a + n" using a by (subst unat_plus_no_wrap) (simp_all add: n)
next
  assume a: "n \<le> unat a"
  have "unat a < 2 ^ LENGTH(16)" by (rule unsigned_less)
  then have n: "unat (word_of_nat n :: u16) = n" using a by (intro of_nat_inverse [OF refl]) simp
  show "unat (a - word_of_nat n) = unat a - n" using a by (subst unat_minus_no_wrap) (simp_all add: n)
qed

lemma FL_Pop_ok:
  assumes "fl_ok m l (x # xs)"
  shows "\<exists>l'. FL_Pop l m = Some (x, l') \<and> fl_ok m l' xs"
proof -
  have a: "fl_list l = x" "x \<noteq> 0" "sll m (load64 m x) xs" "unat (fl_length l) = Suc (length xs)" using assms by (simp_all add: fl_ok_def)
  have "unat (fl_length l - 1) = length xs" using u16_arith(2) [of 1 "fl_length l"] a(4) by simp
  then show ?thesis using a by (simp add: FL_Pop_def SLL_Pop_def SLL_Next_def Let_def fl_ok_def not_less)
qed

lemma FL_Push_ok:
  assumes "fl_ok m l xs" "objs (x # xs)" "length xs < 65535"
  shows "\<exists>l'. FL_Push x l m = Some (l', store64 x (fl_list l) m) \<and> fl_ok (store64 x (fl_list l) m) l' (x # xs)"
proof -
  have a: "sll m (fl_list l) xs" "unat (fl_length l) = length xs" "fl_lowater l \<le> fl_length l" "x \<noteq> 0" "list_all (apart x) xs"
    using assms(1,2) by (simp_all add: fl_ok_def)
  have u: "unat (fl_length l + 1) = Suc (length xs)" using u16_arith(1) [of "fl_length l" 1] a(2) assms(3) by simp
  then have "fl_lowater l \<le> fl_length l + 1" using a(2,3) by (simp add: word_le_nat_alt)
  then show ?thesis using a u by (simp add: FL_Push_def SLL_Push_def SLL_SetNext_def fl_ok_def sll_store)
qed

lemma FL_PopRange_ok:
  assumes "fl_ok m l (xs @ ys)" "objs (xs @ ys)" "xs \<noteq> []"
  shows "\<exists>l'. FL_PopRange (int (length xs)) l m = Some (fl_list l, last xs, l', store64 (last xs) 0 m) \<and>
    sll (store64 (last xs) 0 m) (fl_list l) xs \<and> fl_ok (store64 (last xs) 0 m) l' ys"
proof -
  have a: "sll m (fl_list l) (xs @ ys)" "unat (fl_length l) = length xs + length ys" using assms(1) by (simp_all add: fl_ok_def)
  obtain q m' where r: "SLL_PopRange (fl_list l) (int (length xs)) m = Some (fl_list l, last xs, q, m')" "sll m' (fl_list l) xs" "sll m' q ys"
    using SLL_PopRange_spec [OF a(1) assms(2,3)] by blast
  have m': "m' = store64 (last xs) 0 m"
    using r(1) assms(3) by (auto simp: SLL_PopRange_def SLL_SetNext_def SLL_Next_def option_monad split: if_splits)
  have u: "unat (fl_length l - word_of_nat (length xs)) = length ys" using u16_arith(2) [of "length xs" "fl_length l"] a(2) by simp
  have "int (length xs) \<le> uint (fl_length l)" using a(2) by (simp add: uint_nat)
  then show ?thesis using r u by (simp add: FL_PopRange_def Let_def fl_ok_def m' not_less)
qed

lemma FL_PushRange_ok:
  assumes "fl_ok m l ys" "sll m s xs" "objs (xs @ ys)" "length xs + length ys < 65536" "xs \<noteq> [] \<Longrightarrow> t = last xs"
  shows "\<exists>l' m'. FL_PushRange (int (length xs)) s t l m = Some (l', m') \<and>
    (m' = m \<or> xs \<noteq> [] \<and> m' = store64 (last xs) (fl_list l) m) \<and> fl_ok m' l' (xs @ ys)"
proof (cases "xs = []")
  case True
  then show ?thesis using assms(1,2) by (simp add: FL_PushRange_def SLL_PushRange_def)
next
  case False
  have a: "sll m (fl_list l) ys" "unat (fl_length l) = length ys" "fl_lowater l \<le> fl_length l" using assms(1) by (simp_all add: fl_ok_def)
  obtain m' where r: "SLL_PushRange (fl_list l) s (last xs) m = Some (s, m')" "sll m' s (xs @ ys)"
    using SLL_PushRange_spec [OF assms(2) a(1) assms(3) False] by blast
  have s: "s \<noteq> 0" using assms(2) False by (cases xs) auto
  have m': "m' = store64 (last xs) (fl_list l) m"
    using r(1) s by (auto simp: SLL_PushRange_def SLL_SetNext_def option_monad split: if_splits)
  have u: "unat (fl_length l + word_of_nat (length xs)) = length ys + length xs"
    using u16_arith(1) [of "fl_length l" "length xs"] a(2) assms(4) by simp
  then have "fl_lowater l \<le> fl_length l + word_of_nat (length xs)" using a(2,3) by (simp add: word_le_nat_alt)
  then show ?thesis using r(2) u False r(1) assms(5) by (simp add: FL_PushRange_def fl_ok_def m')
qed

section \<open>The lists in the heap\<close>

lemma cache_list_objs:
  assumes H: "heap_ok h C L U ls" and "c \<in> C" "cl < 170"
  shows "fl_ok (mem h) (tc_list (caches h c) cl) (ls (Cache c cl))" "objs (ls (Cache c cl))"
    "U x = Some cl \<Longrightarrow> objs (x # ls (Cache c cl))"
    "distinct xs \<Longrightarrow> (\<And>x. x \<in> set xs \<Longrightarrow> U x = Some cl) \<Longrightarrow> objs (xs @ ls (Cache c cl))"
proof -
  let ?ys = "ls (Cache c cl)"
  obtain out where o: "out_ok h L out" "pooled U ls out" using heap_okD(1) [OF H] by blast
  show "fl_ok (mem h) (tc_list (caches h c) cl) ?ys"
    using heap_okD(2) [OF H, of "Cache c cl"] assms(2,3) by (simp add: cache_list_fl)
  have y: "distinct ?ys" "\<And>x. x \<in> set ?ys \<Longrightarrow> out x = Some cl" using heap_okD(3) [OF H] pooledD(2) [OF o(2), of _ "Cache c cl"] by simp_all
  show "objs ?ys" by (rule objs_of_out [OF o(1) y])
  show 4: "objs (xs @ ?ys)" if x: "distinct xs" "\<And>x. x \<in> set xs \<Longrightarrow> U x = Some cl" for xs
  proof (rule objs_of_out [OF o(1)])
    have "z \<notin> set ?ys" if "z \<in> set xs" for z using x(2) [OF that] heap_okD(4) [OF H, of z "Cache c cl"] by auto
    then show "distinct (xs @ ?ys)" using x(1) y(1) by auto
    show "out z = Some cl" if "z \<in> set (xs @ ?ys)" for z using that x(2) y(2) pooledD(1) [OF o(2)] by auto
  qed
  show "objs (x # ?ys)" if "U x = Some cl" using 4 [of "[x]"] that by simp
qed

section \<open>Exchange with the central lists\<close>

lemma batch_bounds: "1 \<le> cl \<Longrightarrow> cl \<le> 168 \<Longrightarrow> 2 \<le> batch cl \<and> batch cl \<le> 32"
proof -
  assume cl: "1 \<le> cl" "cl \<le> 168"
  have "batch cl = NumMoveSize (word_of_nat (csize cl))" using cl by (simp add: batch_def ferp_tables_def nth_append)
  moreover have "(word_of_nat (csize cl) :: u64) \<noteq> 0" by (rule ByteSize_span(2) [OF cl])
  ultimately show ?thesis by (simp add: NumMoveSize_def Let_def kMaxFreeListLength_def)
qed

definition fl_len :: "'a tcmalloc_scheme \<Rightarrow> u64 \<Rightarrow> nat \<Rightarrow> nat" where
  "fl_len h c cl = unat (fl_length (tc_list (caches h c) cl))"

lemma fl_len_ls: "heap_ok h C L U ls \<Longrightarrow> c \<in> C \<Longrightarrow> cl < 170 \<Longrightarrow> fl_len h c cl = length (ls (Cache c cl))"
  using cache_list_objs(1) by (fastforce simp: fl_len_def fl_ok_def)

lemma fl_len_class: "heap_ok h C L U ls \<Longrightarrow> c \<in> C \<Longrightarrow> cl < 170 \<Longrightarrow> 0 < fl_len h c cl \<Longrightarrow> 1 \<le> cl \<and> cl \<le> 168"
proof -
  assume a: "heap_ok h C L U ls" "c \<in> C" "cl < 170" "0 < fl_len h c cl"
  then obtain x where "x \<in> set (ls (Cache c cl))" using fl_len_ls [OF a(1-3)] by (cases "ls (Cache c cl)") auto
  then show ?thesis using heap_facts(6) [OF a(1)] by fastforce
qed

definition others_same :: "u64 \<Rightarrow> nat \<Rightarrow> 'a tcmalloc_scheme \<Rightarrow> 'a tcmalloc_scheme \<Rightarrow> bool" where
  "others_same c cl h h' \<longleftrightarrow> globals h' = globals h \<and> (\<forall>d e. d \<noteq> c \<or> e \<noteq> cl \<longrightarrow> fl_len h' d e = fl_len h d e)"

lemma others_same_trans: "others_same c cl h h' \<Longrightarrow> others_same c cl h' h'' \<Longrightarrow> others_same c cl h h''"
  by (simp add: others_same_def)

lemma FetchFromCentralCache_ok:
  assumes K: "kernel_ok (sys_cfg cfg)" and H: "heap_ok h C L U ls" and c: "c \<in> C" and cl: "1 \<le> cl" "cl \<le> 168"
    and lim: "within_limit 1 h" and len: "fl_len h c cl \<le> 256"
  shows "FetchFromCentralCache c cl cfg h = None \<and> \<not> supplied h \<or>
    (\<exists>h' ls'. FetchFromCentralCache c cl cfg h = Some h' \<and> heap_ok h' C L U ls' \<and> keeps U L h h' \<and> others_same c cl h h' \<and>
      fl_len h' c cl \<le> fl_len h c cl + 32)"
proof -
  have cl170: "cl < 170" using cl by simp
  have n: "num_objects_to_move (tables h) ! cl = batch cl" "0 < batch cl" "batch cl \<le> 32"
    using heap_facts(4) [OF H] batch_bounds [OF cl] by (simp_all add: batch_def)
  from RemoveRange_ok [OF K H cl lim n(2)] consider "RemoveRange cl cfg (batch cl) h = None" "\<not> supplied h"
    | p t k h1 xs l1 where "RemoveRange cl cfg (batch cl) h = Some (p, t, k, h1)" "sll (mem h1) p xs" "k = int (length xs)" "k \<le> batch cl"
      "xs \<noteq> [] \<longrightarrow> t = last xs" "distinct xs" "\<forall>x\<in>set xs. U x = None" "heap_ok h1 C L (grant_objs U cl xs) l1"
      "keeps U L h h1" "outer h1 = outer h" by (elim disjE exE conjE) simp_all
  then show ?thesis
  proof cases
    case 1 then show ?thesis by (simp add: FetchFromCentralCache_def Let_def n)
  next
    case (2 p t k h1 xs l1)
    let ?ys = "l1 (Cache c cl)" and ?U = "grant_objs U cl xs" and ?l = "tc_list (caches h1 c) cl"
    have ca: "caches h1 = caches h" and gl: "globals h1 = globals h" and tb: "tables h1 = tables h"
      using outer_eqD [OF 2(10)] globals_outer [OF 2(10)] by simp_all
    note o = cache_list_objs [OF 2(8) c cl170]
    have ob: "objs (xs @ ?ys)" by (rule o(4) [OF 2(6) grant_in])
    have ly: "length ?ys = fl_len h c cl" using fl_len_ls [OF 2(8) c cl170] by (simp add: fl_len_def ca)
    have lx: "length xs \<le> 32" using 2(3,4) n(3) by simp
    obtain l' m' where f: "FL_PushRange (int (length xs)) p t ?l (mem h1) = Some (l', m')"
      "m' = mem h1 \<or> xs \<noteq> [] \<and> m' = store64 (last xs) (fl_list ?l) (mem h1)" "fl_ok m' l' (xs @ ?ys)"
      using FL_PushRange_ok [OF o(1) 2(2) ob _, of t] ly lx len 2(5) by auto
    define h2 where "h2 = upd_cache c (\<lambda>t. (set_fl cl l' t)\<lparr>tc_size := tc_size t
       + ByteSizeForClass (tables h1) (word_of_nat cl) * word_of_int k\<rparr>) (h1\<lparr>mem := m'\<rparr>)"
    have h2: "cache_changed c cl h1 h2" "mem h2 = m'" "tc_list (caches h2 c) cl = l'"
      by (simp_all add: h2_def cache_changed_def set_fl_def page_heap.defs)
    have m: "mem h2 = mem h1 \<or> (\<exists>a v. (?U a = Some cl \<and> U a = None \<or> a \<in> set ?ys) \<and> mem h2 = store64 a v (mem h1))"
      using f(2) 2(7) last_in_set [of xs] unfolding h2(2) by (auto simp: grant_objs_def)
    have "heap_ok h2 C L U (l1(Cache c cl := xs @ ?ys))"
    proof (rule cache_step [OF 2(8) h2(1)])
      show "cache_list_ok C h2 c cl (xs @ ?ys)" using f(3) c cl170 by (simp add: cache_list_fl h2)
      have yU: "x \<notin> set xs \<and> U x = None" if "x \<in> set ?ys" for x
        using heap_okD(4) [OF 2(8) that] by (auto simp: grant_objs_def split: if_splits)
      then show "distinct (xs @ ?ys)" using 2(6) heap_okD(3) [OF 2(8)] by auto
      show "?U x = Some d \<or> d = cl \<and> x \<in> set ?ys \<longleftrightarrow> U x = Some d \<or> d = cl \<and> x \<in> set (xs @ ?ys)" for x d
        using 2(7) by (auto simp: grant_objs_def)
      show "U x = None" if "x \<in> set (xs @ ?ys)" for x using that 2(7) yU [of x] by auto
    qed (use m in blast)
    moreover have "keeps U L h1 h2"
      by (rule cache_keeps [OF 2(8) h2(1) m]) (use 2(7) in \<open>auto simp: map_le_def grant_objs_def\<close>)
    moreover have "others_same c cl h h2"
      using h2(1) gl by (simp add: others_same_def cache_changed_def fl_len_def ca)
    moreover have "FetchFromCentralCache c cl cfg h = Some h2"
      using 2(1,3) f(1) by (simp add: FetchFromCentralCache_def Let_def n h2_def)
    moreover have "fl_len h2 c cl \<le> fl_len h c cl + 32" using f(3) ly lx by (simp add: fl_len_def h2(3) fl_ok_def)
    ultimately show ?thesis using keeps_trans [OF 2(9)] by blast
  qed
qed

text \<open>A change of the counters of a cache.\<close>

lemma cache_counters:
  assumes H: "heap_ok h C L U ls" and f: "\<And>t. tc_list (f t) = tc_list t"
  shows "heap_ok (upd_cache c f h) C L U ls" "keeps U L h (upd_cache c f h)" "others_same c cl h (upd_cache c f h)"
    "fl_len (upd_cache c f h) d e = fl_len h d e"
proof -
  let ?h = "upd_cache c f h"
  have ch: "cache_changed c 0 h ?h" by (simp add: cache_changed_def page_heap.defs f)
  have "cache_list_ok C ?h c 0 (ls (Cache c 0))" using heap_okD(2) [OF H, of "Cache c 0"] by (simp add: cache_list_ok_def f)
  then have "heap_ok ?h C L U (ls(Cache c 0 := ls (Cache c 0)))"
    by (intro cache_step [OF H ch]) (use heap_okD(3,4) [OF H] in auto)
  then show "heap_ok ?h C L U ls" by simp
  show "keeps U L h ?h" by (rule keeps_same_mem) simp_all
  show "others_same c cl h ?h" "fl_len ?h d e = fl_len h d e" by (auto simp: others_same_def fl_len_def f)
qed

lemma Release_batch_ok:
  assumes H: "heap_ok h C L U ls" and c: "c \<in> C" and cl: "cl < 170" and n: "0 < n" "n \<le> fl_len h c cl"
  shows "\<exists>h' ls'. Release_batch c cl (int n) h = Some h' \<and> heap_ok h' C L U ls' \<and> keeps U L h h' \<and> others_same c cl h h' \<and>
    fl_len h' c cl = fl_len h c cl - n"
proof -
  let ?zs = "ls (Cache c cl)" and ?l = "tc_list (caches h c) cl"
  define xs ys where "xs = take n ?zs" and "ys = drop n ?zs"
  have len: "fl_len h c cl = length ?zs" by (rule fl_len_ls [OF H c cl])
  have z: "?zs = xs @ ys" "length xs = n" "xs \<noteq> []" using n len by (auto simp: xs_def ys_def)
  note o = cache_list_objs(1,2) [OF H c cl]
  obtain l' where f: "FL_PopRange (int n) ?l (mem h) = Some (fl_list ?l, last xs, l', store64 (last xs) 0 (mem h))"
    "sll (store64 (last xs) 0 (mem h)) (fl_list ?l) xs" "fl_ok (store64 (last xs) 0 (mem h)) l' ys"
    using FL_PopRange_ok [of "mem h" ?l xs ys] o z by auto
  define h1 where "h1 = upd_cache c (set_fl cl l') (h\<lparr>mem := store64 (last xs) 0 (mem h)\<rparr>)"
  have h1: "cache_changed c cl h h1" "mem h1 = store64 (last xs) 0 (mem h)" "tc_list (caches h1 c) cl = l'"
    by (simp_all add: h1_def cache_changed_def set_fl_def page_heap.defs)
  have m: "mem h1 = mem h \<or> (\<exists>a v. (U a = Some cl \<and> U a = None \<or> a \<in> set ?zs) \<and> mem h1 = store64 a v (mem h))"
    unfolding h1(2) z(1) using last_in_set [OF z(3)] by (intro disjI2 exI [of _ "last xs"] exI [of _ 0]) simp
  have dz: "distinct (xs @ ys)" "\<And>x. x \<in> set (xs @ ys) \<Longrightarrow> U x = None"
    using heap_okD(3) [OF H, of "Cache c cl"] heap_okD(4) [OF H, of _ "Cache c cl"] unfolding z(1) by simp_all
  have H1: "heap_ok h1 C L (grant_objs U cl xs) (ls(Cache c cl := ys))"
  proof (rule cache_step [OF H h1(1)])
    show "cache_list_ok C h1 c cl ys" using f(3) c cl by (simp add: cache_list_fl h1)
    show "U x = Some d \<or> d = cl \<and> x \<in> set ?zs \<longleftrightarrow> grant_objs U cl xs x = Some d \<or> d = cl \<and> x \<in> set ys" for x d
      using dz(2) [of x] unfolding z(1) by (auto simp: grant_objs_def)
    show "grant_objs U cl xs x = None" if "x \<in> set ys" for x using dz that by (auto simp: grant_objs_def)
  qed (use m dz(1) in auto)
  have k1: "keeps U L h h1" by (rule cache_keeps [OF H h1(1) m]) simp
  have "\<exists>h' ls'. InsertRange cl (fl_list ?l) (last xs) (int n) h1 = Some h' \<and> heap_ok h' C L (drop_objs (grant_objs U cl xs) xs) ls' \<and>
      keeps (drop_objs (grant_objs U cl xs) xs) L h1 h' \<and> outer h' = outer h1"
    by (rule InsertRange_ok [OF H1 cl z(3)]) (use f(2) dz(1) z(2) h1(2) in \<open>auto simp: grant_objs_def\<close>)
  moreover have "drop_objs (grant_objs U cl xs) xs = U" by (rule drop_grant) (use dz(2) in simp)
  ultimately obtain h' ls' where h': "InsertRange cl (fl_list ?l) (last xs) (int n) h1 = Some h'" "heap_ok h' C L U ls'"
    "keeps U L h1 h'" "outer h' = outer h1" by auto
  have "Release_batch c cl (int n) h = Some h'" using f(1) h'(1) by (simp add: Release_batch_def h1_def)
  moreover have "caches h' = caches h1" "globals h' = globals h1" using outer_eqD(2) [OF h'(4)] globals_outer [OF h'(4)] by simp_all
  moreover have "length ys = fl_len h c cl - n" using len by (simp add: ys_def)
  ultimately show ?thesis using h'(2) keeps_trans [OF k1 h'(3)] h1(1,3) f(3)
    by (intro exI [of _ h'] exI [of _ ls']) (auto simp: others_same_def cache_changed_def fl_len_def fl_ok_def)
qed

lemma Release_loop_ok:
  assumes c: "c \<in> C" and cl: "cl < 170" and b: "0 < b"
  shows "heap_ok h C L U ls \<Longrightarrow> 0 < n \<Longrightarrow> n \<le> fl_len h c cl \<Longrightarrow>
    \<exists>h' ls'. Release_loop c cl (int b) (int n) h = Some h' \<and> heap_ok h' C L U ls' \<and> keeps U L h h' \<and> others_same c cl h h' \<and>
      fl_len h' c cl = fl_len h c cl - n"
proof (induction n arbitrary: h ls rule: less_induct)
  case (less n)
  show ?case
  proof (cases "b < n")
    case True
    then have "b \<le> fl_len h c cl" using less.prems by simp
    from Release_batch_ok [OF less.prems(1) c cl b this] obtain h1 l1 where 1: "Release_batch c cl (int b) h = Some h1" "heap_ok h1 C L U l1"
      "keeps U L h h1" "others_same c cl h h1" "fl_len h1 c cl = fl_len h c cl - b" by blast
    have "n - b < n" "0 < n - b" "n - b \<le> fl_len h1 c cl" using True b less.prems(3) 1(5) by simp_all
    from less.IH [OF this(1) 1(2) this(2,3)] obtain h' ls' where 2: "Release_loop c cl (int b) (int (n - b)) h1 = Some h'"
      "heap_ok h' C L U ls'" "keeps U L h1 h'" "others_same c cl h1 h'" "fl_len h' c cl = fl_len h1 c cl - (n - b)" by blast
    have "Release_loop c cl (int b) (int n) h = Some h'"
      using True 1(1) 2(1) by (subst Release_loop.simps) (simp add: of_nat_diff)
    then show ?thesis using 2(2,5) 1(5) True keeps_trans [OF 1(3) 2(3)] others_same_trans [OF 1(4) 2(4)] by auto
  next
    case False
    from Release_batch_ok [OF less.prems(1) c cl less.prems(2,3)] show ?thesis
      using False by (subst Release_loop.simps) simp
  qed
qed

lemma ReleaseToCentralCache_ok:
  assumes H: "heap_ok h C L U ls" and c: "c \<in> C" and cl: "cl < 170" and N: "0 < N" and len: "0 < fl_len h c cl"
  shows "\<exists>h' ls'. ReleaseToCentralCache c cl N h = Some h' \<and> heap_ok h' C L U ls' \<and> keeps U L h h' \<and> others_same c cl h h' \<and>
    fl_len h' c cl = fl_len h c cl - nat N"
proof -
  let ?len = "uint (fl_length (tc_list (caches h c) cl))"
  have l: "?len = int (fl_len h c cl)" by (simp only: fl_len_def uint_nat)
  define n where "n = min (nat N) (fl_len h c cl)"
  have n: "(if ?len < N then ?len else N) = int n" "0 < n" "n \<le> fl_len h c cl" "fl_len h c cl - n = fl_len h c cl - nat N"
    using N len by (auto simp: n_def l)
  define h0 where "h0 = upd_cache c (\<lambda>t. t\<lparr>tc_size := tc_size t - word_of_int (int n) * ByteSizeForClass (tables h) (word_of_nat cl)\<rparr>) h"
  have ct: "tc_list (t\<lparr>tc_size := tc_size t - word_of_int (int n) * ByteSizeForClass (tables h) (word_of_nat cl)\<rparr>) = tc_list t" for t by simp
  note k = cache_counters [OF H ct, of c, folded h0_def]
  have b: "1 \<le> cl" "cl \<le> 168" using fl_len_class [OF H c cl len] by simp_all
  have bt: "num_objects_to_move (tables h) ! cl = int (nat (batch cl))" "0 < nat (batch cl)"
    using heap_facts(4) [OF H] batch_bounds [OF b] by (simp_all add: batch_def)
  have "n \<le> fl_len h0 c cl" using n(3) k(4) by simp
  from Release_loop_ok [OF c cl bt(2) k(1) n(2) this] obtain h' ls' where h': "Release_loop c cl (int (nat (batch cl))) (int n) h0 = Some h'"
    "heap_ok h' C L U ls'" "keeps U L h0 h'" "others_same c cl h0 h'" "fl_len h' c cl = fl_len h0 c cl - n" by blast
  have "ReleaseToCentralCache c cl N h = Release_loop c cl (num_objects_to_move (tables h0) ! cl) (int n) h0"
    unfolding ReleaseToCentralCache_def Let_def n(1) h0_def using N by (simp only: ASSERT_simps Option.bind.simps)
  then have "ReleaseToCentralCache c cl N h = Some h'" using h'(1) bt(1) by (simp add: h0_def)
  then show ?thesis using h'(2,5) keeps_trans [OF k(2) h'(3)] others_same_trans [OF k(3) h'(4)] n(4) k(4) by auto
qed

section \<open>Scavenging\<close>

lemma clear_lowwatermark_ok:
  fixes c :: u64 and cl :: nat
  assumes H: "heap_ok h C L U ls"
  defines "h' \<equiv> upd_cache c (\<lambda>t. set_fl cl (FL_clear_lowwatermark (tc_list t cl)) t) h"
  shows "heap_ok h' C L U ls" "keeps U L h h'" "globals h' = globals h" "fl_len h' d e = fl_len h d e"
proof -
  have ch: "cache_changed c cl h h'" by (simp add: h'_def cache_changed_def set_fl_def page_heap.defs)
  have "cache_list_ok C h' c cl (ls (Cache c cl))"
    using heap_okD(2) [OF H, of "Cache c cl"] by (simp add: cache_list_ok_def h'_def set_fl_def FL_clear_lowwatermark_def split: if_splits)
  then have "heap_ok h' C L U (ls(Cache c cl := ls (Cache c cl)))"
    by (intro cache_step [OF H ch]) (use heap_okD(3,4) [OF H] in \<open>auto simp: h'_def\<close>)
  then show "heap_ok h' C L U ls" by simp
  show "keeps U L h h'" by (rule keeps_same_mem) (simp_all add: h'_def)
  show "globals h' = globals h" "fl_len h' d e = fl_len h d e"
    by (simp_all add: h'_def fl_len_def set_fl_def FL_clear_lowwatermark_def)
qed

lemma Scavenge_classes_ok:
  "heap_ok h C L U ls \<Longrightarrow> c \<in> C \<Longrightarrow> set cls \<subseteq> {..<170} \<Longrightarrow>
   \<exists>h' ls'. Scavenge_classes cls c h = Some h' \<and> heap_ok h' C L U ls' \<and> keeps U L h h' \<and> globals h' = globals h \<and>
     (\<forall>d e. fl_len h' d e \<le> fl_len h d e)"
proof (induction cls arbitrary: h ls)
  case (Cons cl cls)
  note H = Cons.prems(1)
  have cl: "cl < 170" using Cons.prems(3) by simp
  let ?low = "uint (fl_lowater (tc_list (caches h c) cl))"
  obtain h1 l1 where 1: "(if 0 < ?low then ReleaseToCentralCache c cl (if 1 < ?low then ?low div 2 else 1) h else Some h) = Some h1"
    "heap_ok h1 C L U l1" "keeps U L h h1" "globals h1 = globals h" "\<forall>d e. fl_len h1 d e \<le> fl_len h d e"
  proof (cases "0 < ?low")
    case True
    have "fl_lowater (tc_list (caches h c) cl) \<le> fl_length (tc_list (caches h c) cl)"
      using cache_list_objs(1) [OF H Cons.prems(2) cl] by (simp add: fl_ok_def)
    moreover have "fl_lowater (tc_list (caches h c) cl) \<noteq> 0" using True by auto
    then have "0 < unat (fl_lowater (tc_list (caches h c) cl))" by (simp add: unat_gt_0)
    ultimately have "0 < fl_len h c cl" unfolding fl_len_def word_le_nat_alt by linarith
    moreover have N: "0 < (if 1 < ?low then ?low div 2 else 1)" by (simp add: pos_imp_zdiv_pos_iff)
    ultimately obtain h' ls' where r: "ReleaseToCentralCache c cl (if 1 < ?low then ?low div 2 else 1) h = Some h'"
      "heap_ok h' C L U ls'" "keeps U L h h'" "others_same c cl h h'"
      "fl_len h' c cl = fl_len h c cl - nat (if 1 < ?low then ?low div 2 else 1)"
      using ReleaseToCentralCache_ok [OF H Cons.prems(2) cl N] by blast
    have "fl_len h' d e \<le> fl_len h d e" for d e
      using r(4,5) by (cases "d = c \<and> e = cl") (auto simp: others_same_def)
    then show thesis using that [of h' ls'] True r by (simp add: others_same_def)
  qed (use that [of h ls] H in simp)
  note k = clear_lowwatermark_ok [OF 1(2), of c cl]
  have "set cls \<subseteq> {..<170}" using Cons.prems(3) by simp
  from Cons.IH [OF k(1) Cons.prems(2) this] obtain h' ls' where
    2: "Scavenge_classes cls c (upd_cache c (\<lambda>t. set_fl cl (FL_clear_lowwatermark (tc_list t cl)) t) h1) = Some h'" "heap_ok h' C L U ls'"
      "keeps U L (upd_cache c (\<lambda>t. set_fl cl (FL_clear_lowwatermark (tc_list t cl)) t) h1) h'"
      "globals h' = globals (upd_cache c (\<lambda>t. set_fl cl (FL_clear_lowwatermark (tc_list t cl)) t) h1)"
      "\<forall>d e. fl_len h' d e \<le> fl_len (upd_cache c (\<lambda>t. set_fl cl (FL_clear_lowwatermark (tc_list t cl)) t) h1) d e" by blast
  have "Scavenge_classes (cl # cls) c h = Some h'" using 1(1) 2(1) by (simp add: Let_def)
  moreover have "fl_len h' d e \<le> fl_len h d e" for d e
    using 2(5) 1(5) k(4) [of d e] by (metis order_trans)
  ultimately show ?case using 2(2) keeps_trans [OF 1(3) keeps_trans [OF k(2) 2(3)]] 2(4) k(3) 1(4) by auto
qed auto

section \<open>One object\<close>

definition short :: "'a tcmalloc_scheme \<Rightarrow> u64 set \<Rightarrow> bool" where
  "short h C \<longleftrightarrow> (\<forall>c\<in>C. \<forall>cl<170. fl_len h c cl \<le> 256)"

lemma SizeClass_fits:
  assumes "sz \<le> kMaxSize"
  obtains cl where "unat (SizeClass ferp_tables sz) = cl" "1 \<le> cl" "cl \<le> 168" "unat sz \<le> csize cl"
proof -
  have sz: "unat sz \<le> 32768" using assms by (simp add: word_le_nat_alt kMaxSize_def kPageSize_def)
  have c: "0 < cclass (unat sz)" "cclass (unat sz) \<le> 168" using cclass_pos cclass_bound [OF sz] by auto
  then have "unat (SizeClass ferp_tables sz) = cclass (unat sz)" by (simp add: SizeClass_ferp [OF sz] unat_of_nat)
  then show thesis using that c csize_cclass [of "unat sz"] by simp
qed

lemma cache_pop:
  assumes H: "heap_ok h C L U ls" and c: "c \<in> C" and cl: "cl < 170" and ne: "\<not> FL_empty (tc_list (caches h c) cl)"
  shows "\<exists>x l'. FL_Pop (tc_list (caches h c) cl) (mem h) = Some (x, l') \<and> x \<noteq> 0 \<and> U x = None \<and>
    (\<exists>ls'. heap_ok (upd_cache c (set_fl cl l') h) C L (U(x \<mapsto> cl)) ls') \<and> keeps U L h (upd_cache c (set_fl cl l') h) \<and>
    others_same c cl h (upd_cache c (set_fl cl l') h) \<and> fl_len (upd_cache c (set_fl cl l') h) c cl \<le> fl_len h c cl"
proof -
  note f = cache_list_objs(1) [OF H c cl]
  obtain x xs where ls: "ls (Cache c cl) = x # xs" using f ne by (cases "ls (Cache c cl)") (auto simp: fl_ok_def FL_empty_def)
  obtain l' where p: "FL_Pop (tc_list (caches h c) cl) (mem h) = Some (x, l')" "fl_ok (mem h) l' xs"
    using FL_Pop_ok f unfolding ls by blast
  let ?h = "upd_cache c (set_fl cl l') h"
  have ch: "cache_changed c cl h ?h" by (simp add: cache_changed_def set_fl_def page_heap.defs)
  have d: "x \<notin> set xs" "distinct xs" "U x = None" "\<And>y. y \<in> set xs \<Longrightarrow> U y = None"
    using heap_okD(3) [OF H, of "Cache c cl"] heap_okD(4) [OF H, of _ "Cache c cl"] unfolding ls by auto
  have "heap_ok ?h C L (U(x \<mapsto> cl)) (ls(Cache c cl := xs))"
  proof (rule cache_step [OF H ch])
    show "cache_list_ok C ?h c cl xs" using p(2) c cl by (simp add: cache_list_fl set_fl_def)
    show "U y = Some e \<or> e = cl \<and> y \<in> set (ls (Cache c cl)) \<longleftrightarrow> (U(x \<mapsto> cl)) y = Some e \<or> e = cl \<and> y \<in> set xs" for y e
      using d(3) by (auto simp: ls)
  qed (use d in auto)
  moreover have "keeps U L h ?h" by (rule keeps_same_mem) simp_all
  moreover have "others_same c cl h ?h" by (simp add: others_same_def fl_len_def set_fl_def)
  moreover have "fl_len ?h c cl \<le> fl_len h c cl" using p(2) f by (simp add: fl_len_def set_fl_def fl_ok_def ls)
  moreover have "x \<noteq> 0" using cache_list_objs(2) [OF H c cl] by (simp add: ls)
  ultimately show ?thesis using p(1) d(3) by blast
qed

lemma TC_Allocate_ok:
  assumes K: "kernel_ok (sys_cfg cfg)" and H: "heap_ok h C L U ls" and c: "c \<in> C" and sz: "sz \<le> kMaxSize"
    and lim: "within_limit 1 h" and sh: "short h C"
  shows "TC_Allocate c cfg sz h = None \<and> \<not> supplied h \<or>
    (\<exists>r h' ls' U'. TC_Allocate c cfg sz h = Some (r, h') \<and> heap_ok h' C L U' ls' \<and> keeps U L h h' \<and> globals h' = globals h \<and> short h' C \<and>
      (r = 0 \<and> U' = U \<or> r \<noteq> 0 \<and> U r = None \<and> (\<exists>cl. U' = U(r \<mapsto> cl) \<and> unat sz \<le> csize cl)))"
proof -
  obtain cl where cl: "unat (SizeClass ferp_tables sz) = cl" "1 \<le> cl" "cl \<le> 168" "unat sz \<le> csize cl" by (rule SizeClass_fits [OF sz])
  have cl170: "cl < 170" using cl by simp
  have T: "unat (SizeClass (tables h) sz) = cl" using cl(1) heap_facts(4) [OF H] by simp
  have len: "fl_len h c cl \<le> 256" using sh c cl170 by (simp add: short_def)
  have keep_short: "short h' C" if "others_same c cl h h'" "fl_len h' c cl \<le> 256" for h'
    unfolding short_def
  proof (intro ballI allI impI)
    fix d e assume "d \<in> C" "e < (170::nat)"
    then show "fl_len h' d e \<le> 256" using sh that by (cases "d = c \<and> e = cl") (auto simp: short_def others_same_def)
  qed
  consider "FL_empty (tc_list (caches h c) cl)" "FetchFromCentralCache c cl cfg h = None" "\<not> supplied h"
    | h1 l1 where "(if FL_empty (tc_list (caches h c) cl) then FetchFromCentralCache c cl cfg h else Some h) = Some h1" "heap_ok h1 C L U l1"
      "keeps U L h h1" "others_same c cl h h1" "fl_len h1 c cl \<le> 256"
  proof (cases "FL_empty (tc_list (caches h c) cl)")
    case True
    have z: "fl_len h c cl = 0" using cache_list_objs(1) [OF H c cl170] True by (auto simp: FL_empty_def fl_ok_def sll_0 fl_len_def)
    from FetchFromCentralCache_ok [OF K H c cl(2,3) lim len] show thesis
    proof (elim disjE exE conjE)
      fix h' ls' assume a: "FetchFromCentralCache c cl cfg h = Some h'" "heap_ok h' C L U ls'" "keeps U L h h'" "others_same c cl h h'"
        "fl_len h' c cl \<le> fl_len h c cl + 32"
      then show thesis using True z by (intro that(2) [of h' ls']) simp_all
    qed (use True that(1) in blast)
  qed (use that(2) [of h ls] H len in \<open>simp add: others_same_def\<close>)
  then show ?thesis
  proof cases
    case 1 then show ?thesis using sz T by (simp add: TC_Allocate_def Let_def)
  next
    case (2 h1 l1)
    show ?thesis
    proof (cases "FL_empty (tc_list (caches h1 c) cl)")
      case True
      then have "TC_Allocate c cfg sz h = Some (0, h1)" using 2(1) sz T by (simp add: TC_Allocate_def Let_def)
      then show ?thesis using 2 keep_short [OF 2(4,5)] by (auto simp: others_same_def)
    next
      case False
      let ?h2 = "upd_cache c (\<lambda>t. t\<lparr>tc_size := tc_size t - ByteSizeForClass (tables h1) (word_of_nat cl)\<rparr>) h1"
      have ct: "tc_list (t\<lparr>tc_size := tc_size t - ByteSizeForClass (tables h1) (word_of_nat cl)\<rparr>) = tc_list t" for t by simp
      note k = cache_counters [OF 2(2) ct, of c]
      have ne: "\<not> FL_empty (tc_list (caches ?h2 c) cl)" using False by simp
      obtain x l' l2 where p: "FL_Pop (tc_list (caches ?h2 c) cl) (mem ?h2) = Some (x, l')" "x \<noteq> 0" "U x = None"
        "heap_ok (upd_cache c (set_fl cl l') ?h2) C L (U(x \<mapsto> cl)) l2" "keeps U L ?h2 (upd_cache c (set_fl cl l') ?h2)"
        "others_same c cl ?h2 (upd_cache c (set_fl cl l') ?h2)" "fl_len (upd_cache c (set_fl cl l') ?h2) c cl \<le> fl_len ?h2 c cl"
        using cache_pop [OF k(1) c cl170 ne] by blast
      have "TC_Allocate c cfg sz h = Some (x, upd_cache c (set_fl cl l') ?h2)"
        using 2(1) False sz T p(1) by (simp add: TC_Allocate_def Let_def)
      moreover have os: "others_same c cl h (upd_cache c (set_fl cl l') ?h2)"
        by (rule others_same_trans [OF others_same_trans [OF 2(4) k(3)] p(6)])
      moreover have "fl_len (upd_cache c (set_fl cl l') ?h2) c cl \<le> 256" using p(7) k(4) [of c cl] 2(5) by linarith
      note keep_short [OF os this]
      moreover have "keeps U L h (upd_cache c (set_fl cl l') ?h2)" by (rule keeps_trans [OF keeps_trans [OF 2(3) k(2)] p(5)])
      ultimately show ?thesis using p(2,3,4) cl(4)
        by (intro disjI2 exI [of _ x] exI [of _ "upd_cache c (set_fl cl l') ?h2"] exI [of _ l2] exI [of _ "U(x \<mapsto> cl)"]) (auto simp: others_same_def)
    qed
  qed
qed

lemma cache_push:
  assumes H: "heap_ok h C L U ls" and c: "c \<in> C" and cl: "cl < 170" and x: "U x = Some cl" and len: "fl_len h c cl \<le> 256"
  shows "\<exists>l' m' ls'. FL_Push x (tc_list (caches h c) cl) (mem h) = Some (l', m') \<and>
    heap_ok (upd_cache c (set_fl cl l') (h\<lparr>mem := m'\<rparr>)) C L (U(x := None)) ls' \<and>
    keeps (U(x := None)) L h (upd_cache c (set_fl cl l') (h\<lparr>mem := m'\<rparr>)) \<and>
    others_same c cl h (upd_cache c (set_fl cl l') (h\<lparr>mem := m'\<rparr>)) \<and> unat (fl_length l') = Suc (fl_len h c cl)"
proof -
  let ?xs = "ls (Cache c cl)" and ?l = "tc_list (caches h c) cl"
  note f = cache_list_objs(1) [OF H c cl] and o = cache_list_objs(3) [OF H c cl x]
  have "length ?xs < 65535" using fl_len_ls [OF H c cl] len by simp
  from FL_Push_ok [OF f o this] obtain l' where p: "FL_Push x ?l (mem h) = Some (l', store64 x (fl_list ?l) (mem h))"
    "fl_ok (store64 x (fl_list ?l) (mem h)) l' (x # ?xs)" by blast
  let ?h = "upd_cache c (set_fl cl l') (h\<lparr>mem := store64 x (fl_list ?l) (mem h)\<rparr>)"
  have ch: "cache_changed c cl h ?h" by (simp add: cache_changed_def set_fl_def page_heap.defs)
  have d: "distinct ?xs" "\<And>y. y \<in> set ?xs \<Longrightarrow> U y = None" using heap_okD(3) [OF H] heap_okD(4) [OF H, of _ "Cache c cl"] by auto
  have nx: "x \<notin> set ?xs" using d(2) x by auto
  have m: "mem ?h = mem h \<or> (\<exists>a v. (U a = Some cl \<and> (U(x := None)) a = None \<or> a \<in> set ?xs) \<and> mem ?h = store64 a v (mem h))"
    using x by (intro disjI2 exI [of _ x] exI [of _ "fl_list ?l"]) simp
  have "heap_ok ?h C L (U(x := None)) (ls(Cache c cl := x # ?xs))"
  proof (rule cache_step [OF H ch])
    show "cache_list_ok C ?h c cl (x # ?xs)" using p(2) c cl by (simp add: cache_list_fl set_fl_def)
    show "U y = Some e \<or> e = cl \<and> y \<in> set ?xs \<longleftrightarrow> (U(x := None)) y = Some e \<or> e = cl \<and> y \<in> set (x # ?xs)" for y e
      using x by auto
  qed (use d nx m in auto)
  moreover have "keeps (U(x := None)) L h ?h" by (rule cache_keeps [OF H ch m]) (auto simp: map_le_def)
  moreover have "others_same c cl h ?h" by (simp add: others_same_def fl_len_def set_fl_def)
  moreover have "unat (fl_length l') = Suc (fl_len h c cl)" using p(2) fl_len_ls [OF H c cl] by (simp add: fl_ok_def)
  ultimately show ?thesis using p(1) by blast
qed

lemma TC_Deallocate_ok:
  assumes H: "heap_ok h C L U ls" and c: "c \<in> C" and x: "U x = Some cl" and sh: "short h C"
  shows "\<exists>h' ls'. TC_Deallocate c x cl h = Some h' \<and> heap_ok h' C L (U(x := None)) ls' \<and> keeps (U(x := None)) L h h' \<and>
    globals h' = globals h \<and> short h' C"
proof -
  let ?U = "U(x := None)"
  have cl: "1 \<le> cl" "cl \<le> 168" "cl < 170" using heap_facts(1) [OF H x] by simp_all
  have len: "fl_len h c cl \<le> 256" using sh c cl by (simp add: short_def)
  let ?h0 = "upd_cache c (\<lambda>t. t\<lparr>tc_size := tc_size t + ByteSizeForClass (tables h) (word_of_nat cl)\<rparr>) h"
  have ct: "tc_list (t\<lparr>tc_size := tc_size t + ByteSizeForClass (tables h) (word_of_nat cl)\<rparr>) = tc_list t" for t by simp
  note k = cache_counters [OF H ct, of c]
  have len0: "fl_len ?h0 c cl \<le> 256" using k(4) [of c cl] len by simp
  obtain l' m' l1 where p: "FL_Push x (tc_list (caches ?h0 c) cl) (mem ?h0) = Some (l', m')"
    and h1: "heap_ok (upd_cache c (set_fl cl l') (?h0\<lparr>mem := m'\<rparr>)) C L ?U l1" "keeps ?U L ?h0 (upd_cache c (set_fl cl l') (?h0\<lparr>mem := m'\<rparr>))"
      "others_same c cl ?h0 (upd_cache c (set_fl cl l') (?h0\<lparr>mem := m'\<rparr>))" "unat (fl_length l') = Suc (fl_len ?h0 c cl)"
    using cache_push [OF k(1) c cl(3) x len0] by blast
  define g where "g = upd_cache c (set_fl cl l') (?h0\<lparr>mem := m'\<rparr>)"
  note h1 = h1 [folded g_def]
  have k0: "keeps ?U L h ?h0" by (rule keeps_mono [OF k(2)]) (auto simp: map_le_def)
  have kg: "keeps ?U L h g" "others_same c cl h g" using keeps_trans [OF k0 h1(2)] others_same_trans [OF k(3) h1(3)] by blast+
  have lg: "fl_len g c cl = unat (fl_length l')" by (simp add: g_def fl_len_def set_fl_def)
  have ll: "uint (fl_length l') > kMaxFreeListLength \<longleftrightarrow> 256 < fl_len g c cl"
    unfolding lg kMaxFreeListLength_def uint_nat by linarith
  let ?r = "if uint (fl_length l') > kMaxFreeListLength then ReleaseToCentralCache c cl (num_objects_to_move (tables g) ! cl) g else Some g"
  obtain g2 l2 where 2: "?r = Some g2" "heap_ok g2 C L ?U l2" "keeps ?U L g g2" "others_same c cl g g2" "fl_len g2 c cl \<le> 256"
  proof (cases "256 < fl_len g c cl")
    case True
    have b: "num_objects_to_move (tables g) ! cl = batch cl" "0 < batch cl" "2 \<le> nat (batch cl)"
      using heap_facts(4) [OF h1(1)] batch_bounds [OF cl(1,2)] by (auto simp: batch_def le_nat_iff)
    have "0 < fl_len g c cl" using True by simp
    from ReleaseToCentralCache_ok [OF h1(1) c cl(3) b(2) this] obtain h' ls' where r: "ReleaseToCentralCache c cl (batch cl) g = Some h'"
      "heap_ok h' C L ?U ls'" "keeps ?U L g h'" "others_same c cl g h'" "fl_len h' c cl = fl_len g c cl - nat (batch cl)" by blast
    have "fl_len g c cl \<le> 257" using lg h1(4) len0 by simp
    then show thesis using that [of h' ls'] True r b ll by simp
  qed (use that [of g l1] h1 ll in \<open>simp add: others_same_def\<close>)
  have os: "others_same c cl h g2" by (rule others_same_trans [OF kg(2) 2(4)])
  have sh2: "short g2 C"
    unfolding short_def
  proof (intro ballI allI impI)
    fix d e assume "d \<in> C" "e < (170::nat)"
    then show "fl_len g2 d e \<le> 256" using sh os 2(5) by (cases "d = c \<and> e = cl") (auto simp: short_def others_same_def)
  qed
  have k2: "keeps ?U L h g2" by (rule keeps_trans [OF kg(1) 2(3)])
  have run: "TC_Deallocate c x cl h = (if tc_size (caches g2 c) \<ge> per_thread_cache_size g2 then Scavenge c g2 else Some g2)"
    unfolding TC_Deallocate_def Let_def p prod.case Option.bind.simps g_def [symmetric] 2(1) ..
  show ?thesis
  proof (cases "tc_size (caches g2 c) \<ge> per_thread_cache_size g2")
    case True
    have "set [0..<170] \<subseteq> {..<170::nat}" by auto
    from Scavenge_classes_ok [OF 2(2) c this] obtain h' ls' where s: "Scavenge_classes [0..<170] c g2 = Some h'" "heap_ok h' C L ?U ls'"
      "keeps ?U L g2 h'" "globals h' = globals g2" "\<forall>d e. fl_len h' d e \<le> fl_len g2 d e" by blast
    have "TC_Deallocate c x cl h = Some h'" using run True s(1) by (simp add: Scavenge_def kNumClasses_def)
    moreover have "short h' C" using sh2 s(5) unfolding short_def by (meson order_trans)
    ultimately show ?thesis using s(2,4) keeps_trans [OF k2 s(3)] os by (auto simp: others_same_def)
  next
    case False
    then show ?thesis using run 2(2) k2 sh2 os by (auto simp: others_same_def)
  qed
qed

end
