(* ===== verification/FrontEnd.thy ===== *)
theory FrontEnd
  imports ThreadCache
begin

text \<open>
  The entry points of \<open>tcmalloc.cpp\<close>: \<open>malloc\<close>, \<open>free\<close>, \<open>calloc\<close>, \<open>realloc\<close>, the \<open>memalign\<close>
  family, and the \<open>new\<close> and \<open>delete\<close> operators, over \<open>do_malloc\<close>, \<open>do_free\<close> and \<open>do_memalign\<close>;
  and the allocation hooks.

  \<open>me\<close> is the calling thread. The hooks of \<open>mallochk.hpp\<close> run code of the client; the model
  records their calls, latest first, in \<open>hook_trace\<close>.
\<close>

definition ENOMEM :: int where "ENOMEM = 12"
definition EINVAL :: int where "EINVAL = 22"

section \<open>Hooks\<close>

definition InvokeNewHook :: "u64 \<Rightarrow> u64 \<Rightarrow> 'a tcmalloc_scheme \<Rightarrow> 'a tcmalloc_scheme" where
  "InvokeNewHook p s h =
     (if new_hook h \<noteq> 0 then h\<lparr>hook_trace := NewEvent (new_hook h) p s # hook_trace h\<rparr> else h)"

definition InvokeDeleteHook :: "u64 \<Rightarrow> 'a tcmalloc_scheme \<Rightarrow> 'a tcmalloc_scheme" where
  "InvokeDeleteHook p h =
     (if delete_hook h \<noteq> 0 then h\<lparr>hook_trace := DeleteEvent (delete_hook h) p # hook_trace h\<rparr> else h)"

definition SetNewHook :: "u64 \<Rightarrow> 'a tcmalloc_scheme \<Rightarrow> u64 \<times> 'a tcmalloc_scheme" where
  "SetNewHook hook h = (new_hook h, h\<lparr>new_hook := hook\<rparr>)"

definition SetDeleteHook :: "u64 \<Rightarrow> 'a tcmalloc_scheme \<Rightarrow> u64 \<times> 'a tcmalloc_scheme" where
  "SetDeleteHook hook h = (delete_hook h, h\<lparr>delete_hook := hook\<rparr>)"

section \<open>\<open>do_malloc\<close>, \<open>do_free\<close>, \<open>do_memalign\<close>\<close>

definition span_address :: "sref \<Rightarrow> 'a page_heap_scheme \<Rightarrow> u64" where
  "span_address s h = push_bit kPageShift (span_start (spans_of h s))"

definition DoSampledAllocation :: "tc_config \<Rightarrow> u64 \<Rightarrow> 'a tcmalloc_scheme \<Rightarrow> (sref \<times> 'a tcmalloc_scheme) option" where
  "DoSampledAllocation cfg sz h = do {
     (s, h) \<leftarrow> PH_New cfg (pages (if sz = 0 then 1 else sz)) h;
     if s = Null then Some (Null, h)
     else do {
       (stack, a, ms) \<leftarrow> PHA_New (sys_cfg cfg) sizeof_StackTrace (stacktrace_allocator h) (meta h);
       let h = h\<lparr>stacktrace_allocator := a, meta := ms\<rparr>;
       if stack = 0 then Some (s, h)
       else do {
         let frames = take kMaxStackDepth (GetStackTrace cfg (trace_calls h));
         let h = h\<lparr>trace_calls := Suc (trace_calls h), traces := (traces h)(stack :=
                   \<lparr>st_size = sz, st_depth = length frames,
                    st_stack = fill_stack frames (st_stack (traces h stack))\<rparr>)\<rparr>;
         h \<leftarrow> on_spans (wr s (\<lambda>x. x\<lparr>span_sample := True, span_objects := stack\<rparr>)) h;
         h \<leftarrow> on_spans (DLL_Prepend SampledHead s) h;
         Some (s, h) } } }"

definition do_malloc :: "tc_config \<Rightarrow> u64 \<Rightarrow> u64 \<Rightarrow> 'a tcmalloc_scheme \<Rightarrow> (u64 \<times> 'a tcmalloc_scheme) option" where
  "do_malloc cfg me sz h = do {
     (heap, h) \<leftarrow> GetCache cfg me h;
     let (sampled, h) = (if FLAGS_tcmalloc_sample_parameter cfg > 0 then SampleAllocation heap cfg sz h
                         else (False, h));
     (ret, h) \<leftarrow> (if sampled then do {
                    (s, h) \<leftarrow> DoSampledAllocation cfg sz h;
                    Some (if s \<noteq> Null then span_address s h else 0, h) }
                  else if sz > kMaxSize then do {
                    (s, h) \<leftarrow> PH_New cfg (pages sz) h;
                    Some (if s \<noteq> Null then span_address s h else 0, h) }
                  else TC_Allocate heap cfg sz h);
     Some (ret, if ret = 0 then h\<lparr>errno := ENOMEM\<rparr> else h) }"

definition do_free :: "u64 \<Rightarrow> u64 \<Rightarrow> 'a tcmalloc_scheme \<Rightarrow> 'a tcmalloc_scheme option" where
  "do_free me ptr h =
     (if ptr = 0 then Some h
      else do {
        let p = drop_bit kPageShift ptr;
        s \<leftarrow> GetDescriptor p h;
        ASSERT (s \<noteq> Null);
        x \<leftarrow> rd s (spans_of h);
        ASSERT (\<not> span_free x);
        let cl = span_sizeclass x;
        if cl \<noteq> 0 then do {
          ASSERT (\<not> span_sample x);
          heap \<leftarrow> GetCacheIfPresent me h;
          if heap \<noteq> 0 then TC_Deallocate heap ptr (unat cl) h
          else do {
            m \<leftarrow> SLL_SetNext ptr 0 (mem h);
            InsertRange (unat cl) ptr ptr 1 (h\<lparr>mem := m\<rparr>) } }
        else do {
          ASSERT (ptr mod kPageSize = 0);
          ASSERT (span_start x = p);
          h \<leftarrow> (if span_sample x then do {
                  h \<leftarrow> on_spans (DLL_Remove s) h;
                  a \<leftarrow> PHA_Delete (span_objects x) (stacktrace_allocator h);
                  on_spans (wr s (\<lambda>x. x\<lparr>span_objects := 0\<rparr>)) (h\<lparr>stacktrace_allocator := a\<rparr>) }
                else Some h);
          PH_Delete s h } })"

text \<open>The first class at or above \<open>cl\<close> whose size is a multiple of the alignment.\<close>

function aligned_class :: "size_tables \<Rightarrow> u64 \<Rightarrow> nat \<Rightarrow> nat" where
  "aligned_class t align cl =
     (if cl < kNumClasses \<and> class_to_size t ! cl AND (align - 1) \<noteq> 0
      then aligned_class t align (Suc cl) else cl)"
  by auto
termination by (relation "measure (\<lambda>(t, align, cl). kNumClasses - cl)") auto

declare aligned_class.simps [simp del]

text \<open>Pages to skip until the span's address is aligned.\<close>

partial_function (option) memalign_skip :: "u64 \<Rightarrow> u64 \<Rightarrow> u64 \<Rightarrow> u64 option" where
  "memalign_skip start align skip =
     (if push_bit kPageShift (start + skip) AND (align - 1) \<noteq> 0
      then memalign_skip start align (skip + 1) else Some skip)"

declare memalign_skip.simps [code]

definition memalign_pages :: "tc_config \<Rightarrow> u64 \<Rightarrow> u64 \<Rightarrow> 'a tcmalloc_scheme \<Rightarrow> (u64 \<times> 'a tcmalloc_scheme) option" where
  "memalign_pages cfg align sz h =
     (if align \<le> kPageSize then do {
        (s, h) \<leftarrow> PH_New cfg (pages sz) h;
        Some (if s = Null then 0 else span_address s h, h) }
      else do {
        let alloc = to_int32 (pages (sz + align));
        (s, h) \<leftarrow> PH_New cfg (word_of_int alloc) h;
        if s = Null then Some (0, h)
        else do {
          skip \<leftarrow> memalign_skip (span_start (spans_of h s)) align 0;
          ASSERT (uint skip < alloc);
          (s, h) \<leftarrow> (if skip > 0 then do {
                       (rest, h) \<leftarrow> Split cfg s skip h;
                       h \<leftarrow> PH_Delete s h;
                       Some (rest, h) }
                     else Some (s, h));
          let needed = word_of_int (to_int32 (pages sz));
          ASSERT (span_length (spans_of h s) \<ge> needed);
          h \<leftarrow> (if span_length (spans_of h s) > needed then do {
                  (trailer, h) \<leftarrow> Split cfg s needed h;
                  PH_Delete trailer h }
                else Some h);
          Some (span_address s h, h) } })"

text \<open>\<open>pageheap == NULL\<close> compares the address of a static buffer: it is never true.\<close>

definition do_memalign :: "tc_config \<Rightarrow> u64 \<Rightarrow> u64 \<Rightarrow> u64 \<Rightarrow> 'a tcmalloc_scheme \<Rightarrow> (u64 \<times> 'a tcmalloc_scheme) option" where
  "do_memalign cfg me align sz h = do {
     ASSERT (align AND (align - 1) = 0);
     ASSERT (align > 0);
     if sz + align < sz then Some (0, h)
     else do {
       let sz = (if sz = 0 then 1 else sz);
       let cl = aligned_class (tables h) align (unat (SizeClass (tables h) sz));
       if sz \<le> kMaxSize \<and> align < kPageSize \<and> cl < kNumClasses then do {
         (heap, h) \<leftarrow> GetCache cfg me h;
         TC_Allocate heap cfg (class_to_size (tables h) ! cl) h }
       else memalign_pages cfg align sz h } }"

section \<open>The C entry points\<close>

definition malloc :: "tc_config \<Rightarrow> u64 \<Rightarrow> u64 \<Rightarrow> 'a tcmalloc_scheme \<Rightarrow> (u64 \<times> 'a tcmalloc_scheme) option" where
  "malloc cfg me sz h = do {
     (result, h) \<leftarrow> do_malloc cfg me sz h;
     Some (result, InvokeNewHook result sz h) }"

definition free :: "u64 \<Rightarrow> u64 \<Rightarrow> 'a tcmalloc_scheme \<Rightarrow> 'a tcmalloc_scheme option" where
  "free me ptr h = do_free me ptr (InvokeDeleteHook ptr h)"

definition cfree :: "u64 \<Rightarrow> u64 \<Rightarrow> 'a tcmalloc_scheme \<Rightarrow> 'a tcmalloc_scheme option" where
  "cfree me ptr h = do_free me ptr (InvokeDeleteHook ptr h)"

definition calloc :: "tc_config \<Rightarrow> u64 \<Rightarrow> u64 \<Rightarrow> u64 \<Rightarrow> 'a tcmalloc_scheme \<Rightarrow> (u64 \<times> 'a tcmalloc_scheme) option" where
  "calloc cfg me n elem_size h =
     (let sz = n * elem_size
      in if elem_size \<noteq> 0 \<and> sz div elem_size \<noteq> n then Some (0, h)
         else do {
           (result, h) \<leftarrow> do_malloc cfg me sz h;
           let h = (if result \<noteq> 0 then h\<lparr>mem := memset result 0 sz (mem h)\<rparr> else h);
           Some (result, InvokeNewHook result sz h) })"

definition realloc_old_size :: "u64 \<Rightarrow> 'a tcmalloc_scheme \<Rightarrow> u64 option" where
  "realloc_old_size old_ptr h = do {
     s \<leftarrow> GetDescriptor (drop_bit kPageShift old_ptr) h;
     x \<leftarrow> rd s (spans_of h);
     Some (if span_sizeclass x \<noteq> 0 then ByteSizeForClass (tables h) (ucast (span_sizeclass x))
           else push_bit kPageShift (span_length x)) }"

definition realloc :: "tc_config \<Rightarrow> u64 \<Rightarrow> u64 \<Rightarrow> u64 \<Rightarrow> 'a tcmalloc_scheme \<Rightarrow> (u64 \<times> 'a tcmalloc_scheme) option" where
  "realloc cfg me old_ptr new_size h =
     (if old_ptr = 0 then do {
        (result, h) \<leftarrow> do_malloc cfg me new_size h;
        Some (result, InvokeNewHook result new_size h) }
      else if new_size = 0 then do {
        h \<leftarrow> do_free me old_ptr (InvokeDeleteHook old_ptr h);
        Some (0, h) }
      else do {
        old_size \<leftarrow> realloc_old_size old_ptr h;
        if new_size > old_size \<or> AllocationSize (tables h) new_size < old_size then do {
          (new_ptr, h) \<leftarrow> do_malloc cfg me new_size h;
          if new_ptr = 0 then Some (0, h)
          else do {
            let h = InvokeNewHook new_ptr new_size h;
            let h = h\<lparr>mem := memcpy new_ptr old_ptr (if old_size < new_size then old_size else new_size) (mem h)\<rparr>;
            h \<leftarrow> do_free me old_ptr (InvokeDeleteHook old_ptr h);
            Some (new_ptr, h) } }
        else Some (old_ptr, h) })"

definition memalign :: "tc_config \<Rightarrow> u64 \<Rightarrow> u64 \<Rightarrow> u64 \<Rightarrow> 'a tcmalloc_scheme \<Rightarrow> (u64 \<times> 'a tcmalloc_scheme) option" where
  "memalign cfg me align sz h = do {
     (result, h) \<leftarrow> do_memalign cfg me align sz h;
     Some (result, InvokeNewHook result sz h) }"

text \<open>The result, and the pointer stored through \<open>result_ptr\<close> when it is 0.\<close>

definition posix_memalign :: "tc_config \<Rightarrow> u64 \<Rightarrow> u64 \<Rightarrow> u64 \<Rightarrow> 'a tcmalloc_scheme \<Rightarrow> (int \<times> u64 option \<times> 'a tcmalloc_scheme) option" where
  "posix_memalign cfg me align sz h =
     (if align mod 8 \<noteq> 0 \<or> align AND (align - 1) \<noteq> 0 \<or> align = 0 then Some (EINVAL, None, h)
      else do {
        (result, h) \<leftarrow> do_memalign cfg me align sz h;
        let h = InvokeNewHook result sz h;
        Some (if result = 0 then (ENOMEM, None, h) else (0, Some result, h)) })"

definition valloc_setup :: "tc_config \<Rightarrow> 'a tcmalloc_scheme \<Rightarrow> 'a tcmalloc_scheme" where
  "valloc_setup cfg h = (if valloc_pagesize h = 0 then h\<lparr>valloc_pagesize := page_size (sys_cfg cfg)\<rparr> else h)"

definition valloc :: "tc_config \<Rightarrow> u64 \<Rightarrow> u64 \<Rightarrow> 'a tcmalloc_scheme \<Rightarrow> (u64 \<times> 'a tcmalloc_scheme) option" where
  "valloc cfg me sz h = do {
     let h = valloc_setup cfg h;
     (result, h) \<leftarrow> do_memalign cfg me (valloc_pagesize h) sz h;
     Some (result, InvokeNewHook result sz h) }"

definition pvalloc :: "tc_config \<Rightarrow> u64 \<Rightarrow> u64 \<Rightarrow> 'a tcmalloc_scheme \<Rightarrow> (u64 \<times> 'a tcmalloc_scheme) option" where
  "pvalloc cfg me sz h = do {
     let h = valloc_setup cfg h;
     let sz = (sz + valloc_pagesize h - 1) AND NOT (valloc_pagesize h - 1);
     (result, h) \<leftarrow> do_memalign cfg me (valloc_pagesize h) sz h;
     Some (result, InvokeNewHook result sz h) }"

section \<open>The operators\<close>

text \<open>
  \<open>operator new\<close> retries as long as a new-handler is installed and returns. A handler is code of
  the client: \<open>handler\<close> is its effect on the state and whether it threw \<open>bad_alloc\<close>, or \<open>None\<close>
  when none is installed at that moment.
\<close>

datatype new_result = Pointer u64 | BadAlloc

partial_function (option) cpp_alloc ::
  "tc_config \<Rightarrow> ('a tcmalloc_scheme \<Rightarrow> ('a tcmalloc_scheme \<times> bool) option) \<Rightarrow> u64 \<Rightarrow> u64 \<Rightarrow> bool \<Rightarrow>
   'a tcmalloc_scheme \<Rightarrow> (new_result \<times> 'a tcmalloc_scheme) option" where
  "cpp_alloc cfg handler me sz nothrow h =
     Option.bind (do_malloc cfg me sz h) (\<lambda>(p, h).
       if p = 0 then
         (case handler h of
            None \<Rightarrow> Some (if nothrow then Pointer 0 else BadAlloc, h)
          | Some (h, threw) \<Rightarrow>
              if threw then Some (if \<not> nothrow then (BadAlloc, h) else (Pointer p, InvokeNewHook p sz h))
              else cpp_alloc cfg handler me sz nothrow h)
       else Some (Pointer p, InvokeNewHook p sz h))"

declare cpp_alloc.simps [code]

definition operator_new ::
  "tc_config \<Rightarrow> ('a tcmalloc_scheme \<Rightarrow> ('a tcmalloc_scheme \<times> bool) option) \<Rightarrow> u64 \<Rightarrow> u64 \<Rightarrow>
   'a tcmalloc_scheme \<Rightarrow> (new_result \<times> 'a tcmalloc_scheme) option" where
  "operator_new cfg handler me sz h = cpp_alloc cfg handler me sz False h"

definition operator_new_nothrow ::
  "tc_config \<Rightarrow> ('a tcmalloc_scheme \<Rightarrow> ('a tcmalloc_scheme \<times> bool) option) \<Rightarrow> u64 \<Rightarrow> u64 \<Rightarrow>
   'a tcmalloc_scheme \<Rightarrow> (new_result \<times> 'a tcmalloc_scheme) option" where
  "operator_new_nothrow cfg handler me sz h = cpp_alloc cfg handler me sz True h"

definition operator_delete :: "u64 \<Rightarrow> u64 \<Rightarrow> 'a tcmalloc_scheme \<Rightarrow> 'a tcmalloc_scheme option" where
  "operator_delete me p h = do_free me p (InvokeDeleteHook p h)"

section \<open>Start-up\<close>

text \<open>Static storage before any constructor runs, with the thread library linked or not.\<close>

definition tc_static :: "bool \<Rightarrow> tcmalloc" where
  "tc_static linked = \<lparr>meta = \<lparr>sys = sys_init, metadata_system_bytes = 0\<rparr>,
     span_allocator = \<lparr>free_area = 0, free_avail = 0, pha_free_list = 0, inuse = 0, pha_link = \<lambda>_. 0\<rparr>,
     stacktrace_allocator = \<lparr>free_area = 0, free_avail = 0, pha_free_list = 0, inuse = 0, pha_link = \<lambda>_. 0\<rparr>,
     spans_of = \<lambda>_. zero_span, traces = \<lambda>_. \<lparr>st_size = 0, st_depth = 0, st_stack = \<lambda>_. 0\<rparr>,
     trace_calls = 0, pagemap = \<lparr>root_3 = None\<rparr>, free_pages = 0, system_bytes = 0,
     tables = zero_tables, mem = \<lambda>_. 0,
     central = \<lambda>_. \<lparr>size_class = 0, counter = 0, tc_slots = \<lambda>_. (0, 0), used_slots = 0, cache_size = 0\<rparr>,
     race_counter = 0,
     caches = \<lambda>_. \<lparr>tc_size = 0, tc_tid = 0, in_setspecific = False, tc_list = \<lambda>_. FL_Init, rnd = 0,
       bytes_until_sample = 0, tc_next = 0, tc_prev = 0\<rparr>,
     threadheap_allocator = \<lparr>free_area = 0, free_avail = 0, pha_free_list = 0, inuse = 0, pha_link = \<lambda>_. 0\<rparr>,
     thread_heaps = 0, thread_heap_count = 0,
     overall_thread_cache_size = kDefaultOverallThreadCacheSize, per_thread_cache_size = kMaxThreadCacheSize,
     tsd_inited = False, phinited = False, heap_key = 0, mth = mthreads_init linked,
     sample_period = 262147, last_flag_value = -1, errno = 0, valloc_pagesize = 0,
     new_hook = 0, delete_hook = 0, hook_trace = []\<rparr>"

end
