(* ===== verification/MallocSpec.thy ===== *)
theory MallocSpec
  imports CacheSpec FrontEnd
begin

text \<open>
  The allocator for its clients. \<open>serves h C own\<close>: in state \<open>h\<close>, with the thread caches \<open>C\<close>, the clients own
  the blocks \<open>own\<close>, a map from the address of a block to its bytes. The lemmas say what \<open>do_malloc\<close>,
  \<open>do_free\<close> and the clients' own writes do to this view.
\<close>

section \<open>Writes of the clients\<close>

text \<open>Only bytes of objects that are out and of spans held whole change.\<close>

definition client_write :: "(u64 \<rightharpoonup> nat) \<Rightarrow> sref set \<Rightarrow> 'a tcmalloc_scheme \<Rightarrow> mem \<Rightarrow> bool" where
  "client_write U L h m \<longleftrightarrow> (\<forall>b. (\<forall>x c. U x = Some c \<longrightarrow> unat b \<notin> obj_bytes c x) \<and>
     (\<forall>s\<in>L. unat b \<notin> page_bytes_of (spans_of h) s) \<longrightarrow> m b = mem h b)"

lemma out_ok_write:
  assumes ok: "out_ok h L out" and w: "client_write out L h m"
  shows "out_ok (h\<lparr>mem := m\<rparr>) L out"
proof -
  let ?h = "h\<lparr>mem := m\<rparr>"
  obtain es ns fo where s: "span_ok h {} L es ns fo out" by (rule out_okE [OF ok])
  have ld: "load64 m y = load64 (mem h) y" if u: "u \<in> members es ns d" "y \<in> set (fo u)" for u d y
  proof -
    have y: "y \<in> objs_in (spans_of h) d u" using span_forD(10) [OF span_okD(9) [OF s u(1)] u(2)] .
    note o = obj_facts [OF s u(1) y]
    show ?thesis
    proof (rule load64_bytes [OF _ o(4)])
      fix b :: u64 assume "unat y \<le> unat b" "unat b < unat y + 8"
      then have b: "unat b \<in> obj_bytes d y" using o(3) by (simp add: obj_bytes_def)
      have "unat b \<notin> obj_bytes c x" if x: "out x = Some c" for x c
      proof -
        obtain t where t: "t \<in> members es ns c" "x \<in> objs_in (spans_of h) c t" by (rule out_span [OF s x])
        have "y \<noteq> x" using out_None [where out = out, OF s u] x by auto
        then have "obj_bytes d y \<inter> obj_bytes c x = {}" by (rule obj_owner(1) [OF s u(1) y t])
        then show ?thesis using b by blast
      qed
      moreover have "unat b \<notin> page_bytes_of (spans_of h) t" if "t \<in> L" for t
      proof -
        have "u \<noteq> t" using span_class_unique(2) [OF s u(1)] that by blast
        then have "page_bytes_of (spans_of h) u \<inter> page_bytes_of (spans_of h) t = {}"
          by (rule held_pages [OF s held_class [OF u(1)] held_large [OF that]])
        then show ?thesis using b objs_in_bytes [OF y] by blast
      qed
      ultimately show "m b = mem h b" using w by (simp add: client_write_def)
    qed
  qed
  have pm: "pmap ?h = pmap h" by (rule pmap_cong) simp
  have "span_for ?h d u (fo u)" if u: "u \<in> members es ns d" for u d
  proof -
    have "sll m p (fo u) = sll (mem h) p (fo u)" for p by (rule sll_cong) (rule ld [OF u])
    then show ?thesis using span_okD(9) [OF s u] by (simp add: span_for_def pm)
  qed
  moreover obtain P where P: "ph_ok h (held es ns L \<union> {}) P" using span_okD(1) [OF s] by blast
  have "caller_writes (held es ns L \<union> {}) h ?h" by (simp add: caller_writes_def page_heap.defs)
  from caller_writes_ok [OF P this] have "\<exists>P. ph_ok ?h (held es ns L \<union> {}) P" by blast
  ultimately have "span_ok ?h {} L es ns fo out"
    using s unfolding span_ok_def by (simp add: large_span_def parked_def)
  then show "out_ok ?h L out" by (rule out_okI)
qed

lemma heap_ok_write:
  assumes H: "heap_ok h C L U ls" and w: "client_write U L h m"
  shows "heap_ok (h\<lparr>mem := m\<rparr>) C L U ls"
proof -
  let ?h = "h\<lparr>mem := m\<rparr>"
  obtain out where o: "out_ok h L out" "pooled U ls out" using heap_okD(1) [OF H] by blast
  have "client_write out L h m" using w pooledD(1) [OF o(2)] unfolding client_write_def by blast
  then have "out_ok ?h L out" by (rule out_ok_write [OF o(1)])
  moreover have "place_ok C ?h p (ls p)" for p
  proof (rule place_ok_cong [OF heap_okD(2) [OF H]])
    show "sll (mem ?h) q (ls p) = sll (mem h) q (ls p)" for q
    proof (rule sll_cong)
      fix y assume y: "y \<in> set (ls p)"
      have oy: "out y = Some (place_class p)" by (rule pooledD(2) [OF o(2) y])
      have c8: "8 \<le> csize (place_class p)" using out_okD(3) [OF o(1) oy] class_facts(1) by blast
      have top: "unat y + 8 \<le> 2 ^ 64" using out_okD(3) [OF o(1) oy] c8 by linarith
      have "m b = mem h b" if b: "unat b \<in> obj_bytes (place_class p) y" for b
      proof -
        have "unat b \<notin> obj_bytes c x" if x: "U x = Some c" for x c
        proof -
          have "y \<noteq> x" using heap_okD(4) [OF H y] x by auto
          then show ?thesis using out_okD(4) [OF o(1) oy pooledD(1) [OF o(2) x]] b by blast
        qed
        moreover have "unat b \<notin> page_bytes_of (spans_of h) s" if "s \<in> L" for s
          using out_okD(6) [OF o(1) oy that] b by blast
        ultimately show ?thesis using w by (simp add: client_write_def)
      qed
      then show "load64 (mem ?h) y = load64 (mem h) y"
        using c8 by (intro load64_bytes [OF _ top]) (simp add: obj_bytes_def)
    qed
  qed simp_all
  moreover have "slots_bound ?h" using heap_okD(6) [OF H] by (simp add: slots_bound_def)
  ultimately show ?thesis using H o(2) unfolding heap_ok_def by blast
qed

section \<open>The view of the clients\<close>

definition heap_state :: "'a tcmalloc_scheme \<Rightarrow> u64 set \<Rightarrow> sref set \<Rightarrow> (u64 \<rightharpoonup> nat) \<Rightarrow> bool" where
  "heap_state h C L U \<longleftrightarrow> (\<exists>ls. heap_ok h C L U ls) \<and> short h C \<and> 0 \<notin> C"

definition block :: "'a tcmalloc_scheme \<Rightarrow> sref set \<Rightarrow> (u64 \<rightharpoonup> nat) \<Rightarrow> u64 \<Rightarrow> nat set \<Rightarrow> bool" where
  "block h L U p B \<longleftrightarrow> (\<exists>c. U p = Some c \<and> B = obj_bytes c p) \<or>
     (\<exists>s\<in>L. p = span_address s h \<and> B = page_bytes_of (spans_of h) s)"

definition serves :: "'a tcmalloc_scheme \<Rightarrow> u64 set \<Rightarrow> (u64 \<rightharpoonup> nat set) \<Rightarrow> bool" where
  "serves h C own \<longleftrightarrow> (\<exists>L U. heap_state h C L U \<and> (\<forall>p B. own p = Some B \<longleftrightarrow> block h L U p B))"

lemma large_block:
  assumes H: "heap_ok h C L U ls" and s: "s \<in> L"
  shows "unat (span_address s h) = 4096 * sst (spans_of h) s" "span_address s h \<noteq> 0" "unat (span_address s h) \<in> page_bytes_of (spans_of h) s"
    "U (span_address s h) = None"
proof -
  obtain out where o: "out_ok h L out" "pooled U ls out" using heap_okD(1) [OF H] by blast
  note f = held_span [OF o(1) s]
  show u: "unat (span_address s h) = 4096 * sst (spans_of h) s" using f(7) by (simp add: span_address_def kPageShift_def)
  then show "span_address s h \<noteq> 0" using f(8) by auto
  show b: "unat (span_address s h) \<in> page_bytes_of (spans_of h) s" using u f(9) by (simp add: page_bytes_of_def)
  show "U (span_address s h) = None"
  proof (rule ccontr)
    assume "U (span_address s h) \<noteq> None"
    then obtain c where c: "U (span_address s h) = Some c" by blast
    have "8 \<le> csize c" using heap_facts(1) [OF H c] class_facts(1) by blast
    then have "unat (span_address s h) \<in> obj_bytes c (span_address s h)" by (simp add: obj_bytes_def)
    then show False using heap_facts(3) [OF H c s] b by blast
  qed
qed

lemma blocks_disjoint:
  assumes H: "heap_ok h C L U ls" and "block h L U p A" "block h L U q B"
  shows "p \<noteq> q \<Longrightarrow> A \<inter> B = {}" "p = q \<Longrightarrow> A = B"
proof -
  obtain out where o: "out_ok h L out" "pooled U ls out" using heap_okD(1) [OF H] by blast
  have ls: "span_address s h \<noteq> span_address t h \<longrightarrow> page_bytes_of (spans_of h) s \<inter> page_bytes_of (spans_of h) t = {}"
    "span_address s h = span_address t h \<longrightarrow> s = t" if "s \<in> L" "t \<in> L" for s t
    using out_okD(7) [OF o(1) that] large_block(3) [OF H that(1)] large_block(3) [OF H that(2)] by (cases "s = t"; auto)+
  from assms(2,3) show "A \<inter> B = {}" if n: "p \<noteq> q"
    unfolding block_def
  proof (elim disjE exE bexE conjE)
    fix c d assume "U p = Some c" "A = obj_bytes c p" "U q = Some d" "B = obj_bytes d q"
    then show ?thesis using heap_facts(2) [OF H] n by simp
  next
    fix c s assume "U p = Some c" "A = obj_bytes c p" "s \<in> L" "B = page_bytes_of (spans_of h) s"
    then show ?thesis using heap_facts(3) [OF H] by simp
  next
    fix s d assume "s \<in> L" "A = page_bytes_of (spans_of h) s" "U q = Some d" "B = obj_bytes d q"
    then show ?thesis using heap_facts(3) [OF H, of q d s] by auto
  next
    fix s t assume "s \<in> L" "p = span_address s h" "A = page_bytes_of (spans_of h) s" "t \<in> L" "q = span_address t h" "B = page_bytes_of (spans_of h) t"
    then show ?thesis using ls(1) [of s t] n by simp
  qed
  from assms(2,3) show "A = B" if n: "p = q"
    unfolding block_def
  proof (elim disjE exE bexE conjE)
    fix c s assume "U p = Some c" "s \<in> L" "q = span_address s h"
    then show ?thesis using large_block(4) [OF H] n by simp
  next
    fix s d assume "s \<in> L" "p = span_address s h" "U q = Some d"
    then show ?thesis using large_block(4) [OF H] n by simp
  next
    fix s t assume a: "s \<in> L" "p = span_address s h" "A = page_bytes_of (spans_of h) s" "t \<in> L" "q = span_address t h" "B = page_bytes_of (spans_of h) t"
    have "span_address s h = span_address t h" using n unfolding a(2,5) .
    then have "s = t" using ls(2) [OF a(1,4)] by blast
    then show ?thesis unfolding a(3,6) by (rule arg_cong)
  qed (use n in simp)
qed

text \<open>The view exists for every state of the heap.\<close>

lemma view_exists:
  assumes H: "heap_ok h C L U ls"
  shows "\<exists>own. \<forall>p B. own p = Some B \<longleftrightarrow> block h L U p B"
proof -
  let ?own = "\<lambda>p. if \<exists>B. block h L U p B then Some (SOME B. block h L U p B) else None"
  have "?own p = Some B \<longleftrightarrow> block h L U p B" for p B
  proof
    assume "?own p = Some B"
    then show "block h L U p B" by (metis option.distinct(1) option.inject someI_ex)
  next
    assume b: "block h L U p B"
    then have "block h L U p (SOME B. block h L U p B)" by (rule someI)
    from blocks_disjoint(2) [OF H this b refl] have e: "(SOME B. block h L U p B) = B" .
    have ex: "\<exists>B. block h L U p B" using b by blast
    show "?own p = Some B" unfolding if_P [OF ex] e by (rule refl)
  qed
  then show ?thesis by (intro exI [of _ ?own] allI)
qed

lemma block_word: "block h L U p B \<Longrightarrow> heap_ok h C L U ls \<Longrightarrow> p \<noteq> 0 \<and> unat p \<in> B"
proof -
  assume b: "block h L U p B" and H: "heap_ok h C L U ls"
  show ?thesis
    using b unfolding block_def
  proof (elim disjE exE bexE conjE)
    fix c assume c: "U p = Some c" "B = obj_bytes c p"
    have f: "1 \<le> c" "c \<le> 168" "p \<noteq> 0" using heap_facts(1) [OF H c(1)] by blast+
    then show ?thesis using class_facts(1) [OF f(1,2)] c(2) by (simp add: obj_bytes_def)
  qed (use large_block(2,3) [OF H] in auto)
qed

text \<open>Blocks that an operation keeps keep their bytes.\<close>

lemma keeps_block:
  assumes k: "keeps U' L' h h'" and b: "block h L' U' p B"
  shows "block h' L' U' p B" "unat a \<in> B \<Longrightarrow> mem h' a = mem h a"
proof -
  have "span_address s h' = span_address s h \<and> page_bytes_of (spans_of h') s = page_bytes_of (spans_of h) s" if "s \<in> L'" for s
  proof -
    have e: "sst (spans_of h') s = sst (spans_of h) s" "sln (spans_of h') s = sln (spans_of h) s" using k that by (simp_all add: keeps_def)
    then have "span_start (spans_of h' s) = span_start (spans_of h s)" by (simp add: sst_def word_unat_eq_iff)
    then show ?thesis by (simp add: span_address_def page_bytes_of_def e)
  qed
  then show "block h' L' U' p B" using b unfolding block_def by metis
  show "mem h' a = mem h a" if "unat a \<in> B" using b k that by (auto simp: block_def keeps_def)
qed

lemma keeps_block_iff:
  assumes "keeps U L h h'"
  shows "block h' L U p B \<longleftrightarrow> block h L U p B"
proof -
  have "span_address s h' = span_address s h \<and> page_bytes_of (spans_of h') s = page_bytes_of (spans_of h) s" if "s \<in> L" for s
  proof -
    have e: "sst (spans_of h') s = sst (spans_of h) s" "sln (spans_of h') s = sln (spans_of h) s" using assms that by (simp_all add: keeps_def)
    then have "span_start (spans_of h' s) = span_start (spans_of h s)" by (simp add: sst_def word_unat_eq_iff)
    then show ?thesis by (simp add: span_address_def page_bytes_of_def e)
  qed
  then show ?thesis unfolding block_def by metis
qed

lemma block_small:
  assumes H: "heap_ok h C L U ls" and r: "U r = Some c"
  shows "block h L U p B \<longleftrightarrow> (if p = r then B = obj_bytes c r else block h L (U(r := None)) p B)"
proof -
  have "span_address s h \<noteq> r" if "s \<in> L" for s using large_block(4) [OF H that] r by auto
  then show ?thesis using r unfolding block_def by auto
qed

lemma block_large:
  assumes H: "heap_ok h C L U ls" and s: "s \<in> L"
  shows "block h L U p B \<longleftrightarrow> (if p = span_address s h then B = page_bytes_of (spans_of h) s else block h (L - {s}) U p B)"
proof (cases "p = span_address s h")
  case True
  have "block h L U p (page_bytes_of (spans_of h) s)" using s True by (auto simp: block_def)
  then show ?thesis using True blocks_disjoint(2) [OF H, of p B p "page_bytes_of (spans_of h) s"] by auto
next
  case False
  then show ?thesis unfolding block_def by auto
qed

section \<open>\<open>do_malloc\<close>\<close>

lemma heap_ok_misc:
  fixes h h' :: "'a tcmalloc_scheme"
  assumes H: "heap_ok h C L U ls" and t: "page_heap.truncate h' = page_heap.truncate h" "mem h' = mem h" "tables h' = tables h"
    "central h' = central h" "caches h' = caches h" "race_counter h' = race_counter h"
  shows "heap_ok h' C L U ls"
proof -
  have "out_ok h' L out" if "out_ok h L out" for out by (rule out_ok_same [OF that]) (use t in simp_all)
  moreover have "place_ok C h' p (ls p)" for p by (rule place_ok_cong [OF heap_okD(2) [OF H]]) (use t in simp_all)
  moreover have "slots_bound h'" using heap_okD(6) [OF H] by (simp add: slots_bound_def t)
  ultimately show ?thesis using H unfolding heap_ok_def by blast
qed

lemma heap_state_misc:
  fixes h h' :: "'a tcmalloc_scheme"
  assumes S: "heap_state h C L U" and t: "page_heap.truncate h' = page_heap.truncate h" "mem h' = mem h" "tables h' = tables h"
    "central h' = central h" "caches h' = caches h" "race_counter h' = race_counter h"
  shows "heap_state h' C L U" "keeps U' L' h h'"
proof -
  show "heap_state h' C L U" using S heap_ok_misc [OF _ t] unfolding heap_state_def short_def fl_len_def t(5) by blast
  show "keeps U' L' h h'" by (rule keeps_same_mem [OF t(2)]) (use t(1) in \<open>simp add: page_heap.defs\<close>)
qed

lemma GetCacheIfPresent_globals: "globals h' = globals h \<Longrightarrow> GetCacheIfPresent me h' = GetCacheIfPresent me h"
  using globals_eqD(2-4) [of h' h] by (simp add: GetCacheIfPresent_def)

lemma GetCache_present:
  assumes "GetCacheIfPresent me h = Some c" "c \<noteq> 0"
  shows "GetCache cfg me h = Some (c, h)"
  using assms by (auto simp: GetCacheIfPresent_def GetCache_def split: if_splits)

text \<open>A call that is not sampled, and a request the heap can still grow for.\<close>

definition unsampled :: "tc_config \<Rightarrow> u64 \<Rightarrow> u64 \<Rightarrow> 'a tcmalloc_scheme \<Rightarrow> bool" where
  "unsampled cfg c sz h \<longleftrightarrow> FLAGS_tcmalloc_sample_parameter cfg \<le> 0 \<or> sz \<le> bytes_until_sample (caches h c)"

definition in_reach :: "u64 \<Rightarrow> 'a tcmalloc_scheme \<Rightarrow> bool" where
  "in_reach sz h \<longleftrightarrow> unat sz + 4095 < 2 ^ 64 \<and> within_limit (if kMaxSize < sz then pages sz else 1) h"

lemma large_pages:
  assumes "unat sz + 4095 < 2 ^ 64" "kMaxSize < sz"
  shows "0 < pages sz" "unat sz \<le> 4096 * unat (pages sz)"
proof -
  have p: "unat (pages sz) = (unat sz + 4095) div 4096" using assms(1) by (simp add: pages_unat)
  have "32768 < unat sz" using assms(2) by (simp add: word_less_nat_alt kMaxSize_def kPageSize_def)
  then have "0 < unat (pages sz)" unfolding p by (simp add: div_greater_zero_iff)
  then show "0 < pages sz" by (simp add: word_less_nat_alt)
  show "unat sz \<le> 4096 * unat (pages sz)" unfolding p by linarith
qed

text \<open>The block that \<open>do_malloc\<close> returns, over the spans and the objects in client hands.\<close>

definition new_block :: "sref set \<Rightarrow> (u64 \<rightharpoonup> nat) \<Rightarrow> u64 \<Rightarrow> u64 \<Rightarrow> 'a tcmalloc_scheme \<Rightarrow> sref set \<Rightarrow> (u64 \<rightharpoonup> nat) \<Rightarrow> bool" where
  "new_block L U sz r h' L' U' \<longleftrightarrow>
     r = 0 \<and> L' = L \<and> U' = U \<or>
     r \<noteq> 0 \<and> L' = L \<and> U r = None \<and> (\<exists>cl. U' = U(r \<mapsto> cl) \<and> unat sz \<le> csize cl) \<or>
     r \<noteq> 0 \<and> U' = U \<and> (\<exists>s. s \<notin> L \<and> L' = insert s L \<and> r = span_address s h' \<and> unat sz \<le> 4096 * sln (spans_of h') s)"

lemma do_malloc_state:
  assumes K: "kernel_ok (sys_cfg cfg)" and S: "heap_state h C L U" and c: "GetCacheIfPresent me h = Some c" "c \<in> C"
    and un: "unsampled cfg c sz h" and lim: "in_reach sz h"
  shows "do_malloc cfg me sz h = None \<and> \<not> supplied h \<or>
    (\<exists>r h' L' U'. do_malloc cfg me sz h = Some (r, h') \<and> heap_state h' C L' U' \<and> keeps U L h h' \<and>
      (\<forall>me. GetCacheIfPresent me h' = GetCacheIfPresent me h) \<and> new_block L U sz r h' L' U')"
proof -
  obtain ls where H: "heap_ok h C L U ls" and sh: "short h C" and c0: "0 \<notin> C" using S by (auto simp: heap_state_def)
  have cn: "c \<noteq> 0" using c(2) c0 by auto
  define h0 where "h0 = (if FLAGS_tcmalloc_sample_parameter cfg > 0 then upd_cache c (\<lambda>t. t\<lparr>bytes_until_sample := bytes_until_sample t - sz\<rparr>) h else h)"
  have ct: "tc_list (t\<lparr>bytes_until_sample := bytes_until_sample t - sz\<rparr>) = tc_list t" for t by simp
  note k = cache_counters [OF H ct, of c]
  have smp: "(if FLAGS_tcmalloc_sample_parameter cfg > 0 then SampleAllocation c cfg sz h else (False, h)) = (False, h0)"
    using un by (auto simp: h0_def unsampled_def SampleAllocation_def not_less)
  have 0: "heap_ok h0 C L U ls" "keeps U L h h0" "globals h0 = globals h" "short h0 C" "page_heap.truncate h0 = page_heap.truncate h"
    using k H sh by (auto simp: h0_def others_same_def short_def page_heap.defs)
  have eq: "supplied h0 = supplied h" "within_limit n h0 = within_limit n h" for n
    using 0(5) by (simp_all add: supplied_def within_limit_def page_heap.defs)
  note get = GetCache_present [OF c(1) cn, of cfg]
  have fin: "?thesis" if run: "do_malloc cfg me sz h = Some (r, if r = 0 then h'\<lparr>errno := ENOMEM\<rparr> else h')" and st: "heap_state h' C L' U'"
    and k': "keeps U L h0 h'" and g: "globals h' = globals h" and nb: "new_block L U sz r h' L' U'" for r h' L' U'
  proof -
    let ?h = "if r = 0 then h'\<lparr>errno := ENOMEM\<rparr> else h'"
    have m: "page_heap.truncate ?h = page_heap.truncate h'" "mem ?h = mem h'" "tables ?h = tables h'" "central ?h = central h'"
      "caches ?h = caches h'" "race_counter ?h = race_counter h'" by (simp_all add: page_heap.defs)
    note mm = heap_state_misc [OF st m]
    have "keeps U L h ?h" by (rule keeps_trans [OF keeps_trans [OF 0(2) k'] mm(2)])
    moreover have "GetCacheIfPresent me ?h = GetCacheIfPresent me h" for me
    proof -
      have "GetCacheIfPresent me ?h = GetCacheIfPresent me h'" by (simp add: GetCacheIfPresent_def)
      then show ?thesis unfolding GetCacheIfPresent_globals [OF g] .
    qed
    moreover have "new_block L U sz r ?h L' U'" using nb by (auto simp: new_block_def span_address_def)
    ultimately show ?thesis using run mm(1) by blast
  qed
  show ?thesis
  proof (cases "kMaxSize < sz")
    case True
    note lp = large_pages [OF _ True]
    have big: "unat sz + 4095 < 2 ^ 64" "within_limit (pages sz) h0" using lim True eq(2) by (simp_all add: in_reach_def)
    obtain out where o: "out_ok h0 L out" "pooled U ls out" using heap_okD(1) [OF 0(1)] by blast
    from New_span_ok [OF K o(1) lp(1) [OF big(1)] big(2)] consider "PH_New cfg (pages sz) h0 = None" "\<not> supplied h"
      | s h' where "PH_New cfg (pages sz) h0 = Some (s, h')" "rest h' = rest h0" "keeps out L h0 h'"
        "s = Null \<and> out_ok h' L out \<or> s \<noteq> Null \<and> s \<notin> L \<and> out_ok h' (insert s L) out \<and> sln (spans_of h') s = unat (pages sz)"
      unfolding eq(1) by (elim disjE exE conjE) blast+
    then show ?thesis
    proof cases
      case 1 then show ?thesis using True by (simp add: do_malloc_def get smp)
    next
      case (2 s h')
      let ?L = "if s = Null then L else insert s L" and ?r = "if s \<noteq> Null then span_address s h' else 0"
      have H': "heap_ok h' C ?L U ls"
        by (rule heap_ok_spans [OF 0(1) o _ o(2) 2(3,2)]) (use 2(4) pooledD(2) [OF o(2)] heap_okD(4) [OF 0(1)] in auto)
      have ca: "caches h' = caches h0" "globals h' = globals h0" using outer_eqD(2) globals_outer outer_rest [OF 2(2)] by blast+
      have st: "heap_state h' C ?L U" using H' 0(4) c0 ca(1) by (auto simp: heap_state_def short_def fl_len_def)
      have k': "keeps U L h0 h'" by (rule keeps_mono [OF 2(3)]) (use pooledD(1) [OF o(2)] in \<open>auto simp: map_le_def\<close>)
      have run: "do_malloc cfg me sz h = Some (?r, if ?r = 0 then h'\<lparr>errno := ENOMEM\<rparr> else h')"
        using True 2(1) by (simp add: do_malloc_def get smp)
      have nb: "new_block L U sz ?r h' ?L U"
        using 2(4) large_block(2) [OF H', of s] lp(2) [OF big(1)] by (auto simp: new_block_def)
      show ?thesis by (rule fin [OF run st k' _ nb]) (use ca(2) 0(3) in simp)
    qed
  next
    case False
    then have sz: "sz \<le> kMaxSize" by simp
    have "within_limit 1 h0" using lim False eq(2) by (simp add: in_reach_def)
    from TC_Allocate_ok [OF K 0(1) c(2) sz this 0(4)] show ?thesis
    proof (elim disjE exE conjE)
      fix r h' ls' U' assume a: "TC_Allocate c cfg sz h0 = Some (r, h')" "heap_ok h' C L U' ls'" "keeps U L h0 h'" "globals h' = globals h0"
        "short h' C" "r = 0" "U' = U"
      have run: "do_malloc cfg me sz h = Some (r, if r = 0 then h'\<lparr>errno := ENOMEM\<rparr> else h')"
        using False a(1) by (simp add: do_malloc_def get smp)
      show ?thesis by (rule fin [OF run _ a(3)]) (use a 0(3) c0 in \<open>auto simp: heap_state_def new_block_def\<close>)
    next
      fix r h' ls' U' cl assume a: "TC_Allocate c cfg sz h0 = Some (r, h')" "heap_ok h' C L U' ls'" "keeps U L h0 h'" "globals h' = globals h0"
        "short h' C" "r \<noteq> 0" "U r = None" "U' = U(r \<mapsto> cl)" "unat sz \<le> csize cl"
      have run: "do_malloc cfg me sz h = Some (r, if r = 0 then h'\<lparr>errno := ENOMEM\<rparr> else h')"
        using False a(1) by (simp add: do_malloc_def get smp)
      have st: "heap_state h' C L U'" using a c0 by (auto simp: heap_state_def)
      have nb: "new_block L U sz r h' L U'" using a by (auto simp: new_block_def)
      show ?thesis by (rule fin [OF run st a(3) _ nb]) (use a(4) 0(3) in simp)
    next
      assume "TC_Allocate c cfg sz h0 = None" "\<not> supplied h0"
      then show ?thesis using False eq(1) by (simp add: do_malloc_def get smp)
    qed
  qed
qed

text \<open>The same, as the clients see it.\<close>

definition gains :: "(u64 \<rightharpoonup> nat set) \<Rightarrow> u64 \<Rightarrow> u64 \<Rightarrow> (u64 \<rightharpoonup> nat set) \<Rightarrow> bool" where
  "gains own sz r own' \<longleftrightarrow> (if r = 0 then own' = own
     else own r = None \<and> (\<exists>B. own' = own(r \<mapsto> B) \<and> {unat r..<unat r + unat sz} \<subseteq> B \<and> (\<forall>q A. own q = Some A \<longrightarrow> A \<inter> B = {})))"

definition untouched :: "(u64 \<rightharpoonup> nat set) \<Rightarrow> 'a tcmalloc_scheme \<Rightarrow> 'a tcmalloc_scheme \<Rightarrow> bool" where
  "untouched own h h' \<longleftrightarrow> (\<forall>p B a. own p = Some B \<longrightarrow> unat a \<in> B \<longrightarrow> mem h' a = mem h a) \<and>
     (\<forall>me. GetCacheIfPresent me h' = GetCacheIfPresent me h)"

lemma serves_fresh:
  assumes H: "heap_ok h' C L' U' ls" and o: "\<And>p B. own p = Some B \<longleftrightarrow> block h' L U p B"
    and new: "\<And>p B. block h' L' U' p B \<longleftrightarrow> (if p = r then B = R else block h' L U p B)" and none: "own r = None"
    and sz: "{unat r..<unat r + unat sz} \<subseteq> R" and r: "r \<noteq> 0"
  shows "(\<forall>p B. (own(r \<mapsto> R)) p = Some B \<longleftrightarrow> block h' L' U' p B) \<and> gains own sz r (own(r \<mapsto> R))"
proof
  show v: "\<forall>p B. (own(r \<mapsto> R)) p = Some B \<longleftrightarrow> block h' L' U' p B" using o new by auto
  have "A \<inter> R = {}" if q: "own q = Some A" for q A
  proof -
    have "q \<noteq> r" using q none by auto
    then have "block h' L' U' q A" "block h' L' U' r R" using new o q by auto
    then show ?thesis by (rule blocks_disjoint(1) [OF H]) (rule \<open>q \<noteq> r\<close>)
  qed
  then show "gains own sz r (own(r \<mapsto> R))" using r none sz unfolding gains_def by auto
qed

lemma do_malloc_serves:
  assumes K: "kernel_ok (sys_cfg cfg)" and S: "serves h C own" and c: "GetCacheIfPresent me h = Some c" "c \<in> C"
    and un: "unsampled cfg c sz h" and lim: "in_reach sz h"
  shows "do_malloc cfg me sz h = None \<and> \<not> supplied h \<or>
    (\<exists>r h' own'. do_malloc cfg me sz h = Some (r, h') \<and> serves h' C own' \<and> gains own sz r own' \<and> untouched own h h')"
proof -
  obtain L U where st: "heap_state h C L U" and o: "\<And>p B. own p = Some B \<longleftrightarrow> block h L U p B" using S by (auto simp: serves_def)
  from do_malloc_state [OF K st c un lim] show ?thesis
  proof (elim disjE exE conjE)
    fix r h' L' U'
    assume run: "do_malloc cfg me sz h = Some (r, h')" and st': "heap_state h' C L' U'" and k: "keeps U L h h'"
      and g: "\<forall>me. GetCacheIfPresent me h' = GetCacheIfPresent me h" and nb: "new_block L U sz r h' L' U'"
    obtain ls where H: "heap_ok h' C L' U' ls" using st' by (auto simp: heap_state_def)
    have o': "own p = Some B \<longleftrightarrow> block h' L U p B" for p B using o keeps_block_iff [OF k] by simp
    have un: "untouched own h h'" using g o keeps_block(2) [OF k] by (auto simp: untouched_def)
    have "\<exists>own'. (\<forall>p B. own' p = Some B \<longleftrightarrow> block h' L' U' p B) \<and> gains own sz r own'"
      using nb unfolding new_block_def
    proof (elim disjE exE conjE)
      assume "r = 0" "L' = L" "U' = U" then show ?thesis using o' by (auto simp: gains_def)
    next
      fix cl assume a: "r \<noteq> 0" "L' = L" "U r = None" "U' = U(r \<mapsto> cl)" "unat sz \<le> csize cl"
      have UU: "U'(r := None) = U" "U' r = Some cl" using a(3,4) by auto
      have bs: "block h' L' U' p B \<longleftrightarrow> (if p = r then B = obj_bytes cl r else block h' L U p B)" for p B
        using block_small [OF H UU(2)] unfolding UU(1) a(2) .
      have "span_address s h' \<noteq> r" if "s \<in> L" for s using large_block(4) [OF H, of s] UU(2) a(2) that by auto
      then have none: "own r = None" using o' [of r] a(3) by (metis block_def not_Some_eq)
      show ?thesis by (rule exI, rule serves_fresh [OF H o' bs none _ a(1)]) (use a(5) in \<open>auto simp: obj_bytes_def\<close>)
    next
      fix s assume a: "r \<noteq> 0" "U' = U" "s \<notin> L" "L' = insert s L" "r = span_address s h'" "unat sz \<le> 4096 * sln (spans_of h') s"
      have s: "s \<in> L'" "L' - {s} = L" using a(3,4) by auto
      have bs: "block h' L' U' p B \<longleftrightarrow> (if p = r then B = page_bytes_of (spans_of h') s else block h' L U p B)" for p B
        using block_large [OF H s(1)] unfolding s(2) a(2,5) .
      have none: "own r = None"
      proof (rule ccontr)
        assume "own r \<noteq> None"
        then obtain B where "block h' L U r B" using o' by blast
        then show False unfolding block_def
        proof (elim disjE exE bexE conjE)
          fix c assume "U r = Some c" then show False using large_block(4) [OF H s(1)] a(2,5) by simp
        next
          fix t assume t: "t \<in> L" "r = span_address t h'"
          obtain out where ok: "out_ok h' L' out" using heap_okD(1) [OF H] by blast
          have "page_bytes_of (spans_of h') t \<inter> page_bytes_of (spans_of h') s = {}"
            by (rule out_okD(7) [OF ok]) (use t a(3,4) in auto)
          moreover have "unat r \<in> page_bytes_of (spans_of h') t" "unat r \<in> page_bytes_of (spans_of h') s"
            using large_block(3) [OF H, of t] large_block(3) [OF H s(1)] t a(4,5) by auto
          ultimately show False by blast
        qed
      qed
      show ?thesis
        by (rule exI, rule serves_fresh [OF H o' bs none _ a(1)]) (use a(6) large_block(1) [OF H s(1)] a(5) in \<open>auto simp: page_bytes_of_def\<close>)
    qed
    then show ?thesis using run st' un unfolding serves_def by blast
  qed blast
qed

section \<open>\<open>do_free\<close>\<close>

lemma do_free_state:
  assumes S: "heap_state h C L U" and c: "GetCacheIfPresent me h = Some c" "c = 0 \<or> c \<in> C" and b: "block h L U p B"
  shows "\<exists>h' L' U'. do_free me p h = Some h' \<and> heap_state h' C L' U' \<and> keeps U' L' h h' \<and>
    (\<forall>me. GetCacheIfPresent me h' = GetCacheIfPresent me h) \<and> (\<forall>q B. block h L' U' q B \<longleftrightarrow> q \<noteq> p \<and> block h L U q B)"
proof -
  obtain ls where H: "heap_ok h C L U ls" and sh: "short h C" and c0: "0 \<notin> C" using S by (auto simp: heap_state_def)
  obtain out where o: "out_ok h L out" "pooled U ls out" using heap_okD(1) [OF H] by blast
  from b [unfolded block_def] show ?thesis
  proof (elim disjE exE bexE conjE)
    fix cl assume x: "U p = Some cl"
    let ?U = "U(p := None)"
    note hf = heap_facts(1) [OF H x]
    have p: "p \<noteq> 0" "cl < 170" using hf by auto
    obtain s where s: "GetDescriptor (drop_bit 12 p) h = Some s" "s \<noteq> Null" "\<not> span_free (spans_of h s)"
      "span_sizeclass (spans_of h s) = word_of_nat cl" "\<not> span_sample (spans_of h s)" "unat (span_sizeclass (spans_of h s)) = cl"
      by (rule out_descriptor [OF o(1) pooledD(1) [OF o(2) x]])
    have n0: "span_sizeclass (spans_of h s) \<noteq> 0" using s(6) hf by auto
    have run: "do_free me p h = (if c \<noteq> 0 then TC_Deallocate c p cl h
        else do { m \<leftarrow> SLL_SetNext p 0 (mem h); InsertRange cl p p 1 (h\<lparr>mem := m\<rparr>) })"
      unfolding do_free_def Let_def if_not_P [OF p(1)] kPageShift_def s(1) bind.bind_lunit ASSERT_def if_P [OF s(2)] rd_def if_P [OF s(3)]
        if_P [OF n0] if_P [OF s(5)] c(1) s(6) by (rule refl)
    have bl: "block h L ?U q B \<longleftrightarrow> q \<noteq> p \<and> block h L U q B" for q B
    proof (cases "q = p")
      case True
      have "span_address s h \<noteq> p" if "s \<in> L" for s using large_block(4) [OF H that] x by auto
      then show ?thesis using True by (auto simp: block_def)
    qed (use block_small [OF H x, of q B] in simp)
    have "\<exists>h' ls'. do_free me p h = Some h' \<and> heap_ok h' C L ?U ls' \<and> keeps ?U L h h' \<and> globals h' = globals h \<and> short h' C"
    proof (cases "c = 0")
      case False
      with c(2) TC_Deallocate_ok [OF H _ x sh] run show ?thesis by simp
    next
      case True
      let ?m = "store64 p 0 (mem h)" let ?h = "h\<lparr>mem := ?m\<rparr>"
      have eight: "8 \<le> csize cl" using class_facts(1) hf by blast
      have st: "?m a = mem h a" if "unat a \<notin> obj_bytes cl p" for a
        by (rule store64_other) (use that eight hf in \<open>auto simp: obj_bytes_def\<close>)
      have "client_write U L h ?m" using st x by (auto simp: client_write_def)
      then have H1: "heap_ok ?h C L U ls" by (rule heap_ok_write [OF H])
      have k1: "keeps ?U L h ?h" by (rule keeps_mono [OF out_ok_store(2) [OF o(1) pooledD(1) [OF o(2) x]]]) (use pooledD(1) [OF o(2)] in \<open>auto simp: map_le_def\<close>)
      have sl: "sll (mem ?h) p [p]" using p(1) by simp
      have dr: "drop_objs U [p] = ?U" by (auto simp: drop_objs_def)
      obtain h2 ls' where 2: "InsertRange cl p p 1 ?h = Some h2" "heap_ok h2 C L ?U ls'" "keeps ?U L ?h h2" "outer h2 = outer ?h"
        using InsertRange_ok [OF H1 p(2) _ sl, of 1] x unfolding dr by auto
      have "do_free me p h = Some h2" using run True 2(1) p(1) by (simp add: SLL_SetNext_def)
      moreover have "globals h2 = globals h" "caches h2 = caches h" using globals_outer [OF 2(4)] outer_eqD(2) [OF 2(4)] by (simp_all add: globals_def)
      ultimately show ?thesis using 2(2) keeps_trans [OF k1 2(3)] sh by (auto simp: short_def fl_len_def)
    qed
    then show ?thesis using bl c0 GetCacheIfPresent_globals unfolding heap_state_def by blast
  next
    fix s assume s: "s \<in> L" "p = span_address s h"
    note f = held_span [OF o(1) s(1)]
    note lb = large_block [OF H s(1)]
    obtain h' where d: "PH_Delete s h = Some h'" "out_ok h' (L - {s}) out" "keeps out (L - {s}) h h'" "rest h' = rest h"
      using Delete_span_ok [OF o(1) s(1)] by blast
    have H': "heap_ok h' C (L - {s}) U ls"
      by (rule heap_ok_spans [OF H o d(2) o(2) d(3,4)]) (use pooledD(2) [OF o(2)] heap_okD(4) [OF H] in auto)
    have al: "p mod kPageSize = 0"
      unfolding s(2) span_address_def kPageSize_def kPageShift_def using f(7) by (simp add: word_unat_eq_iff unat_mod)
    have run: "do_free me p h = Some h'"
      using lb(2) f d(1) al s(2) unfolding do_free_def Let_def by (simp add: kPageShift_def rd_def ASSERT_def span_address_def)
    have ca: "caches h' = caches h" "globals h' = globals h" using outer_eqD(2) globals_outer outer_rest [OF d(4)] by blast+
    have st: "heap_state h' C (L - {s}) U" using H' sh c0 ca(1) by (auto simp: heap_state_def short_def fl_len_def)
    have k: "keeps U (L - {s}) h h'" by (rule keeps_mono [OF d(3)]) (use pooledD(1) [OF o(2)] in \<open>auto simp: map_le_def\<close>)
    have bl: "block h (L - {s}) U q B \<longleftrightarrow> q \<noteq> p \<and> block h L U q B" for q B
    proof (cases "q = p")
      case True
      have "t = s" if t: "t \<in> L" "span_address t h = p" for t
      proof (rule ccontr)
        assume "t \<noteq> s"
        then have "page_bytes_of (spans_of h) t \<inter> page_bytes_of (spans_of h) s = {}" using out_okD(7) [OF o(1) t(1) s(1)] by blast
        then show False using large_block(3) [OF H t(1)] lb(3) t(2) s(2) by auto
      qed
      then show ?thesis using True lb(4) s(2) by (auto simp: block_def)
    qed (use block_large [OF H s(1), of q B] s(2) in simp)
    show ?thesis using run st k bl GetCacheIfPresent_globals [OF ca(2)] by blast
  qed
qed

lemma do_free_serves:
  assumes S: "serves h C own" and c: "GetCacheIfPresent me h = Some c" "c = 0 \<or> c \<in> C" and p: "own p = Some B"
  shows "\<exists>h'. do_free me p h = Some h' \<and> serves h' C (own(p := None)) \<and> untouched (own(p := None)) h h'"
proof -
  obtain L U where st: "heap_state h C L U" and o: "\<And>p B. own p = Some B \<longleftrightarrow> block h L U p B" using S by (auto simp: serves_def)
  obtain h' L' U' where f: "do_free me p h = Some h'" "heap_state h' C L' U'" "keeps U' L' h h'"
    "\<And>me. GetCacheIfPresent me h' = GetCacheIfPresent me h" "\<And>q B. block h L' U' q B \<longleftrightarrow> q \<noteq> p \<and> block h L U q B"
    using do_free_state [OF st c, of p B] o p by metis
  have o': "(own(p := None)) q = Some A \<longleftrightarrow> block h L' U' q A" for q A using o f(5) by auto
  then have "serves h' C (own(p := None))" using f(2) keeps_block_iff [OF f(3)] unfolding serves_def by metis
  moreover have "untouched (own(p := None)) h h'" using keeps_block(2) [OF f(3)] f(4) o' unfolding untouched_def by blast
  ultimately show ?thesis using f(1) by blast
qed

lemma do_free_null: "do_free me 0 h = Some h"
  by (simp add: do_free_def)

text \<open>The clients write into their own blocks.\<close>

definition own_write :: "(u64 \<rightharpoonup> nat set) \<Rightarrow> 'a tcmalloc_scheme \<Rightarrow> mem \<Rightarrow> bool" where
  "own_write own h m \<longleftrightarrow> (\<forall>b. (\<forall>p B. own p = Some B \<longrightarrow> unat b \<notin> B) \<longrightarrow> m b = mem h b)"

lemma serves_write:
  assumes S: "serves h C own" and w: "own_write own h m"
  shows "serves (h\<lparr>mem := m\<rparr>) C own"
proof -
  obtain L U ls where H: "heap_ok h C L U ls" and st: "heap_state h C L U" and o: "\<And>p B. own p = Some B \<longleftrightarrow> block h L U p B"
    using S by (auto simp: serves_def heap_state_def)
  have "client_write U L h m" using w o unfolding own_write_def client_write_def block_def by metis
  then have "heap_ok (h\<lparr>mem := m\<rparr>) C L U ls" by (rule heap_ok_write [OF H])
  then have "heap_state (h\<lparr>mem := m\<rparr>) C L U" using st by (auto simp: heap_state_def short_def fl_len_def)
  moreover have "block (h\<lparr>mem := m\<rparr>) L U p B \<longleftrightarrow> block h L U p B" for p B by (simp add: block_def span_address_def)
  ultimately show ?thesis using o unfolding serves_def by metis
qed

lemma serves_disjoint: "serves h C own \<Longrightarrow> own p = Some A \<Longrightarrow> own q = Some B \<Longrightarrow> p \<noteq> q \<Longrightarrow> A \<inter> B = {}"
  unfolding serves_def heap_state_def using blocks_disjoint(1) by blast

lemma serves_word: "serves h C own \<Longrightarrow> own p = Some B \<Longrightarrow> p \<noteq> 0 \<and> unat p \<in> B"
  unfolding serves_def heap_state_def using block_word by blast

end
