(* ===== verification/MallocClient.thy ===== *)
theory MallocClient
  imports MallocSpec
begin

text \<open>
  The allocator's interface and two of its clients inside \<open>tcmalloc.cpp\<close>: \<open>calloc\<close>, which fills a
  block, and \<open>realloc\<close>, which copies one block over another and frees the first. The interface is the locale
  \<open>block_store\<close>; the model of the allocator is an instance of it for each thread.
\<close>

section \<open>Byte ranges\<close>

definition span64 :: "u64 \<Rightarrow> u64 \<Rightarrow> nat set" where
  "span64 p n = {unat p..<unat p + unat n}"

lemma offset_in:
  assumes "unat p + unat n \<le> 2 ^ 64"
  shows "x - p < n \<longleftrightarrow> unat x \<in> span64 p n"
proof -
  show ?thesis using assms by (auto simp: span64_def word_less_nat_alt word_le_nat_alt unat_sub_if')
qed

lemma unat_offset:
  assumes "unat p + unat n \<le> 2 ^ 64" "i < unat n"
  shows "unat (p + of_nat i) = unat p + i" "unat (p + of_nat i) \<in> span64 p n" "p + of_nat i - p = of_nat i" "(of_nat i :: u64) < n"
proof -
  have "i < 2 ^ 64" using order_less_trans [OF assms(2) unat_u64_less] by simp
  then have i: "unat (of_nat i :: u64) = i" by (intro of_nat_inverse [OF refl]) simp
  then show u: "unat (p + of_nat i) = unat p + i" using assms by (intro trans [OF unat_add_lem [THEN iffD1]]) simp_all
  show "unat (p + of_nat i) \<in> span64 p n" using u assms(2) by (simp add: span64_def)
  show "(of_nat i :: u64) < n" using i assms(2) by (simp add: word_less_nat_alt)
qed simp

lemma span64_bound: "span64 p n \<subseteq> B \<Longrightarrow> B \<subseteq> {..<2 ^ 64} \<Longrightarrow> unat p + unat n \<le> 2 ^ 64"
proof (cases "unat n = 0")
  case False
  assume "span64 p n \<subseteq> B" "B \<subseteq> {..<2 ^ 64}"
  moreover have "unat p + unat n - 1 \<in> span64 p n" using False by (simp add: span64_def)
  ultimately have "unat p + unat n - 1 \<in> {..<2 ^ 64}" by blast
  then show ?thesis by simp
qed (simp add: order_less_imp_le [OF unat_u64_less])

section \<open>The interface\<close>

locale block_store =
  fixes serves :: "'s \<Rightarrow> (u64 \<rightharpoonup> nat set) \<Rightarrow> bool" and bytes :: "'s \<Rightarrow> mem" and put :: "mem \<Rightarrow> 's \<Rightarrow> 's"
    and release :: "u64 \<Rightarrow> 's \<Rightarrow> 's option"
  assumes ranged: "serves h own \<Longrightarrow> own p = Some B \<Longrightarrow> B \<subseteq> {..<2 ^ 64}"
    and separate: "serves h own \<Longrightarrow> own p = Some A \<Longrightarrow> own q = Some B \<Longrightarrow> p \<noteq> q \<Longrightarrow> A \<inter> B = {}"
    and bytes_put: "bytes (put m h) = m"
    and put_ok: "serves h own \<Longrightarrow> (\<And>b. (\<And>p B. own p = Some B \<Longrightarrow> unat b \<notin> B) \<Longrightarrow> m b = bytes h b) \<Longrightarrow> serves (put m h) own"
    and release_ok: "serves h own \<Longrightarrow> own p = Some B \<Longrightarrow>
      \<exists>h'. release p h = Some h' \<and> serves h' (own(p := None)) \<and>
        (\<forall>q A b. (own(p := None)) q = Some A \<longrightarrow> unat b \<in> A \<longrightarrow> bytes h' b = bytes h b)"
begin

lemma fill:
  assumes S: "serves h own" and r: "own r = Some B" and n: "span64 r n \<subseteq> B"
  shows "serves (put (memset r v n (bytes h)) h) own" "i < unat n \<Longrightarrow> memset r v n (bytes h) (r + of_nat i) = v"
    "own q = Some A \<Longrightarrow> q \<noteq> r \<Longrightarrow> unat b \<in> A \<Longrightarrow> memset r v n (bytes h) b = bytes h b"
proof -
  have bd: "unat r + unat n \<le> 2 ^ 64" by (rule span64_bound [OF n ranged [OF S r]])
  note at = offset_in [OF bd]
  show "serves (put (memset r v n (bytes h)) h) own"
    by (rule put_ok [OF S]) (use r n in \<open>auto simp: memset_def at\<close>)
  show "i < unat n \<Longrightarrow> memset r v n (bytes h) (r + of_nat i) = v" using unat_offset(3,4) [OF bd] by (simp add: memset_def)
  show "memset r v n (bytes h) b = bytes h b" if "own q = Some A" "q \<noteq> r" "unat b \<in> A"
    using separate [OF S that(1) r that(2)] that(3) n by (auto simp: memset_def at)
qed

lemma copy_over:
  assumes S: "serves h own" and r: "own r = Some B" and p: "own p = Some D" and ne: "p \<noteq> r"
    and k: "span64 r k \<subseteq> B" "span64 p k \<subseteq> D"
  shows "serves (put (memcpy r p k (bytes h)) h) own" "\<exists>h'. release p (put (memcpy r p k (bytes h)) h) = Some h' \<and> serves h' (own(p := None)) \<and>
    (\<forall>i<unat k. bytes h' (r + of_nat i) = bytes h (p + of_nat i)) \<and>
    (\<forall>q A b. q \<noteq> p \<longrightarrow> q \<noteq> r \<longrightarrow> own q = Some A \<longrightarrow> unat b \<in> A \<longrightarrow> bytes h' b = bytes h b)"
proof -
  let ?m = "memcpy r p k (bytes h)"
  have bd: "unat r + unat k \<le> 2 ^ 64" by (rule span64_bound [OF k(1) ranged [OF S r]])
  note at = offset_in [OF bd]
  show S1: "serves (put ?m h) own" by (rule put_ok [OF S]) (use r k in \<open>auto simp: memcpy_def at\<close>)
  obtain h' where h': "release p (put ?m h) = Some h'" "serves h' (own(p := None))"
    "\<And>q A b. (own(p := None)) q = Some A \<Longrightarrow> unat b \<in> A \<Longrightarrow> bytes h' b = ?m b"
    using release_ok [OF S1 p] unfolding bytes_put by blast
  have "bytes h' (r + of_nat i) = bytes h (p + of_nat i)" if "i < unat k" for i
    using h'(3) [of r B] r ne k(1) unat_offset(2-4) [OF bd that] that by (auto simp: memcpy_def)
  moreover have "bytes h' b = bytes h b" if q: "q \<noteq> p" "q \<noteq> r" "own q = Some A" and b: "unat b \<in> A" for q A b
  proof -
    have "?m b = bytes h b" using separate [OF S q(3) r q(2)] b k(1) by (auto simp: memcpy_def at)
    then show ?thesis using h'(3) [of q A] q b by simp
  qed
  ultimately show "\<exists>h'. release p (put ?m h) = Some h' \<and> serves h' (own(p := None)) \<and>
    (\<forall>i<unat k. bytes h' (r + of_nat i) = bytes h (p + of_nat i)) \<and>
    (\<forall>q A b. q \<noteq> p \<longrightarrow> q \<noteq> r \<longrightarrow> own q = Some A \<longrightarrow> unat b \<in> A \<longrightarrow> bytes h' b = bytes h b)" using h'(1,2) by blast
qed

end

section \<open>The allocator is such a store\<close>

lemma heap_state_block_range:
  assumes H: "heap_ok h C L U ls" and b: "block h L U p B"
  shows "B \<subseteq> {..<2 ^ 64}" "\<exists>n. realloc_old_size p h = Some n \<and> B = span64 p n"
proof -
  obtain out where o: "out_ok h L out" "pooled U ls out" using heap_okD(1) [OF H] by blast
  have "B \<subseteq> {..<2 ^ 64} \<and> (\<exists>n. realloc_old_size p h = Some n \<and> B = span64 p n)"
    using b [unfolded block_def]
  proof (elim disjE exE bexE conjE)
    fix cl assume x: "U p = Some cl" "B = obj_bytes cl p"
    note f = heap_facts(1) [OF H x(1)]
    obtain s where s: "GetDescriptor (drop_bit 12 p) h = Some s" "s \<noteq> Null" "span_sizeclass (spans_of h s) = word_of_nat cl"
        "unat (span_sizeclass (spans_of h s)) = cl"
      using out_descriptor [OF o(1) pooledD(1) [OF o(2) x(1)]] by metis
    have n0: "span_sizeclass (spans_of h s) \<noteq> 0" using s(4) f by auto
    have u: "unat (ByteSizeForClass (tables h) (ucast (span_sizeclass (spans_of h s)))) = csize cl"
      unfolding s(3) heap_facts(4) [OF H] using f ByteSize_span(1) [of cl] class_facts(9) [of cl] by simp
    have "realloc_old_size p h = Some (ByteSizeForClass (tables h) (ucast (span_sizeclass (spans_of h s))))"
      using s(2) n0 by (simp add: realloc_old_size_def kPageShift_def s(1) rd_def ASSERT_def)
    then show ?thesis using u f x(2) by (auto simp: span64_def obj_bytes_def)
  next
    fix s assume s: "s \<in> L" "p = span_address s h" "B = page_bytes_of (spans_of h) s"
    note f = held_span [OF o(1) s(1)]
    note lb = large_block [OF H s(1)]
    have sl: "unat (span_length (spans_of h s)) = sln (spans_of h) s" by (simp add: sln_def)
    have u: "unat (push_bit 12 (span_length (spans_of h s)) :: u64) = 4096 * sln (spans_of h) s"
      using f(10) sl by (simp add: push_bit_eq_mult unat_word_ariths)
    have "realloc_old_size p h = Some (push_bit 12 (span_length (spans_of h s)))"
      using f(1,2,4,6) s(2) by (simp add: realloc_old_size_def kPageShift_def rd_def ASSERT_def span_address_def)
    then show ?thesis using u f(10) lb(1) s by (auto simp: span64_def page_bytes_of_def)
  qed
  then show "B \<subseteq> {..<2 ^ 64}" "\<exists>n. realloc_old_size p h = Some n \<and> B = span64 p n" by blast+
qed

lemma serves_range:
  assumes S: "serves h C own" and p: "own p = Some B"
  shows "B \<subseteq> {..<2 ^ 64}" "\<exists>n. realloc_old_size p h = Some n \<and> B = span64 p n"
proof -
  obtain L U ls where "heap_ok h C L U ls" "block h L U p B" using S p by (auto simp: serves_def heap_state_def)
  from heap_state_block_range [OF this] show "B \<subseteq> {..<2 ^ 64}" "\<exists>n. realloc_old_size p h = Some n \<and> B = span64 p n" .
qed

text \<open>The hooks change nothing that the allocator reads.\<close>

lemma serves_hooks [simp]: "serves (InvokeNewHook p n h) C own = serves h C own" "serves (InvokeDeleteHook p h) C own = serves h C own"
proof -
  have "serves (h\<lparr>hook_trace := t\<rparr>) C own = serves h C own" for t and h :: "'a tcmalloc_scheme"
  proof -
    have keep: "serves h' C own" if S: "serves h C own" and t: "h' = h\<lparr>hook_trace := t\<rparr>" for h h' :: "'a tcmalloc_scheme" and t
    proof -
      obtain L U where st: "heap_state h C L U" and o: "\<And>p B. own p = Some B \<longleftrightarrow> block h L U p B" using S by (auto simp: serves_def)
      have "heap_state h' C L U" by (rule heap_state_misc [OF st]) (simp_all add: t page_heap.defs)
      moreover have "block h' L U p B \<longleftrightarrow> block h L U p B" for p B by (simp add: block_def span_address_def t)
      ultimately show ?thesis using o unfolding serves_def by blast
    qed
    show ?thesis
    proof
      show "serves h C own" if "serves (h\<lparr>hook_trace := t\<rparr>) C own" by (rule keep [OF that, of h "hook_trace h"]) simp
    qed (rule keep [OF _ refl])
  qed
  then show "serves (InvokeNewHook p n h) C own = serves h C own" "serves (InvokeDeleteHook p h) C own = serves h C own"
    by (simp_all add: InvokeNewHook_def InvokeDeleteHook_def)
qed

lemma hooks_same [simp]: "mem (InvokeNewHook p n h) = mem h" "mem (InvokeDeleteHook p h) = mem h"
  "GetCacheIfPresent me (InvokeNewHook p n h) = GetCacheIfPresent me h"
  "GetCacheIfPresent me (InvokeDeleteHook p h) = GetCacheIfPresent me h"
  "GetCacheIfPresent me (h\<lparr>mem := m\<rparr>) = GetCacheIfPresent me h"
  by (simp_all add: InvokeNewHook_def InvokeDeleteHook_def GetCacheIfPresent_def)

text \<open>A thread that may call \<open>free\<close>: it has a cache of its own, or none.\<close>

definition attached :: "'a tcmalloc_scheme \<Rightarrow> u64 set \<Rightarrow> u64 \<Rightarrow> bool" where
  "attached h C me \<longleftrightarrow> (\<exists>c. GetCacheIfPresent me h = Some c \<and> (c = 0 \<or> c \<in> C))"

lemma free_serves:
  assumes S: "serves h C own" and a: "attached h C me" and p: "own p = Some B"
  shows "\<exists>h'. free me p h = Some h' \<and> serves h' C (own(p := None)) \<and> untouched (own(p := None)) h h'"
proof -
  obtain c where c: "GetCacheIfPresent me h = Some c" "c = 0 \<or> c \<in> C" using a by (auto simp: attached_def)
  have "\<exists>h'. do_free me p (InvokeDeleteHook p h) = Some h' \<and> serves h' C (own(p := None)) \<and>
      untouched (own(p := None)) (InvokeDeleteHook p h) h'"
    by (rule do_free_serves [where c = c and B = B]) (use S c p in simp_all)
  then show ?thesis by (simp add: free_def untouched_def)
qed

lemma untouchedD: "untouched own h h' \<Longrightarrow> own p = Some B \<Longrightarrow> unat b \<in> B \<Longrightarrow> mem h' b = mem h b"
  "untouched own h h' \<Longrightarrow> GetCacheIfPresent me h' = GetCacheIfPresent me h" "untouched own h h' \<Longrightarrow> attached h' C me = attached h C me"
  unfolding untouched_def attached_def by (blast | simp)+

interpretation tc: block_store "\<lambda>h own. serves h C own \<and> attached h C me" mem "\<lambda>m h. h\<lparr>mem := m\<rparr>" "free me" for C me
proof
  show "B \<subseteq> {..<2 ^ 64}" if "serves h C own \<and> attached h C me" "own p = Some B" for h :: "'a tcmalloc_scheme" and own p B
    using serves_range(1) that by blast
  show "A \<inter> B = {}" if "serves h C own \<and> attached h C me" "own p = Some A" "own q = Some B" "p \<noteq> q"
    for h :: "'a tcmalloc_scheme" and own p q A B
    using serves_disjoint that by blast
  show "serves (h\<lparr>mem := m\<rparr>) C own \<and> attached (h\<lparr>mem := m\<rparr>) C me"
    if "serves h C own \<and> attached h C me" "\<And>b. (\<And>p B. own p = Some B \<Longrightarrow> unat b \<notin> B) \<Longrightarrow> m b = mem h b"
    for h :: "'a tcmalloc_scheme" and own m
    using that serves_write [of h C own m] by (auto simp: own_write_def attached_def)
  show "\<exists>h'. free me p h = Some h' \<and> (serves h' C (own(p := None)) \<and> attached h' C me) \<and>
        (\<forall>q A b. (own(p := None)) q = Some A \<longrightarrow> unat b \<in> A \<longrightarrow> mem h' b = mem h b)"
    if "serves h C own \<and> attached h C me" "own p = Some B" for h :: "'a tcmalloc_scheme" and own p B
    using free_serves [of h C own me p B] that untouchedD by metis
qed simp

section \<open>\<open>malloc\<close> and \<open>calloc\<close>\<close>

text \<open>A call that the hypotheses of the model cover: the thread's cache exists, the call is not sampled, and
  the heap may still grow by the request.\<close>

definition may_call :: "tc_config \<Rightarrow> 'a tcmalloc_scheme \<Rightarrow> u64 set \<Rightarrow> u64 \<Rightarrow> u64 \<Rightarrow> bool" where
  "may_call cfg h C me n \<longleftrightarrow> (\<exists>c\<in>C. GetCacheIfPresent me h = Some c \<and> unsampled cfg c n h) \<and> in_reach n h"

lemma may_call_attached: "may_call cfg h C me n \<Longrightarrow> attached h C me"
  by (auto simp: may_call_def attached_def)

lemma do_malloc_ok:
  assumes "kernel_ok (sys_cfg cfg)" "serves h C own" "may_call cfg h C me n"
  shows "do_malloc cfg me n h = None \<and> \<not> supplied h \<or>
    (\<exists>r h' own'. do_malloc cfg me n h = Some (r, h') \<and> serves h' C own' \<and> gains own n r own' \<and> untouched own h h')"
proof -
  obtain c where "c \<in> C" "GetCacheIfPresent me h = Some c" "unsampled cfg c n h" "in_reach n h"
    using assms(3) by (auto simp: may_call_def)
  then show ?thesis using do_malloc_serves [OF assms(1,2)] by blast
qed

lemma untouched_mem: "mem h'' = mem h' \<Longrightarrow> (\<And>me. GetCacheIfPresent me h'' = GetCacheIfPresent me h') \<Longrightarrow> untouched own h h'' = untouched own h h'"
  by (simp add: untouched_def)

lemma malloc_serves:
  assumes "kernel_ok (sys_cfg cfg)" "serves h C own" "may_call cfg h C me n"
  shows "malloc cfg me n h = None \<and> \<not> supplied h \<or>
    (\<exists>r h' own'. malloc cfg me n h = Some (r, h') \<and> serves h' C own' \<and> gains own n r own' \<and> untouched own h h')"
  using do_malloc_ok [OF assms]
proof (elim disjE exE conjE)
  fix r h' own' assume "do_malloc cfg me n h = Some (r, h')" "serves h' C own'" "gains own n r own'" "untouched own h h'"
  then have "malloc cfg me n h = Some (r, InvokeNewHook r n h') \<and> serves (InvokeNewHook r n h') C own' \<and> gains own n r own' \<and>
      untouched own h (InvokeNewHook r n h')"
    by (simp add: malloc_def untouched_def)
  then show ?thesis by blast
qed (simp add: malloc_def)

text \<open>The test in \<open>calloc\<close> catches every overflow and nothing else.\<close>

lemma calloc_overflow: "e \<noteq> 0 \<and> n * e div e \<noteq> n \<longleftrightarrow> 2 ^ 64 \<le> unat n * unat (e :: u64)"
proof (cases "e = 0")
  case False
  then have e: "0 < unat e" by (simp add: unat_gt_0)
  show ?thesis
  proof (cases "unat n * unat e < 2 ^ 64")
    case True
    then have "unat (n * e) = unat n * unat e" by (simp add: unat_word_ariths)
    then have "unat (n * e div e) = unat n" using e by (simp add: unat_div)
    then show ?thesis using True False by (simp add: word_unat_eq_iff)
  next
    case big: False
    have "n * e div e \<noteq> n"
    proof
      assume "n * e div e = n"
      then have "unat n = unat (n * e) div unat e" by (metis unat_div)
      then have "unat n * unat e \<le> unat (n * e)" by simp
      then show False using big unat_u64_less [of "n * e"] by simp
    qed
    then show ?thesis using big False by simp
  qed
qed simp

lemma calloc_refuses: "2 ^ 64 \<le> unat n * unat e \<Longrightarrow> calloc cfg me n e h = Some (0, h)"
  using calloc_overflow [of e n] by (simp add: calloc_def)

lemma calloc_serves:
  assumes K: "kernel_ok (sys_cfg cfg)" and S: "serves h C own" and a: "may_call cfg h C me (n * e)"
    and fit: "unat n * unat e < 2 ^ 64"
  shows "calloc cfg me n e h = None \<and> \<not> supplied h \<or>
    (\<exists>r h' own'. calloc cfg me n e h = Some (r, h') \<and> serves h' C own' \<and> gains own (n * e) r own' \<and> untouched own h h' \<and>
      (r \<noteq> 0 \<longrightarrow> (\<forall>i<unat n * unat e. mem h' (r + of_nat i) = 0)))"
proof -
  have no: "\<not> (e \<noteq> 0 \<and> n * e div e \<noteq> n)" using calloc_overflow [of e n] fit by simp
  have sz: "unat (n * e) = unat n * unat e" using fit by (simp add: unat_word_ariths)
  from do_malloc_ok [OF K S a] show ?thesis
  proof (elim disjE exE conjE)
    fix r h' own' assume m: "do_malloc cfg me (n * e) h = Some (r, h')" and S': "serves h' C own'" and g: "gains own (n * e) r own'"
      and u: "untouched own h h'"
    let ?h = "if r \<noteq> 0 then h'\<lparr>mem := memset r 0 (n * e) (mem h')\<rparr> else h'"
    have run: "calloc cfg me n e h = Some (r, InvokeNewHook r (n * e) ?h)"
      unfolding calloc_def Let_def if_not_P [OF no] m by simp
    have "serves ?h C own' \<and> untouched own h ?h \<and> (r \<noteq> 0 \<longrightarrow> (\<forall>i<unat n * unat e. mem ?h (r + of_nat i) = 0))"
    proof (cases "r = 0")
      case False
      obtain B where B: "own r = None" "own' = own(r \<mapsto> B)" "span64 r (n * e) \<subseteq> B" using g False by (auto simp: gains_def span64_def)
      have r: "own' r = Some B" using B(2) by simp
      have "attached h' C me" using untouchedD(3) [OF u] may_call_attached [OF a] by simp
      note f = tc.fill [where v = 0, OF conjI [OF S' this] r B(3)]
      have "untouched own h ?h"
      proof -
        have "memset r 0 (n * e) (mem h') b = mem h b" if q: "own q = Some A" "unat b \<in> A" for q A b
        proof -
          have qr: "q \<noteq> r" "own' q = Some A" using q(1) B(1,2) by auto
          show ?thesis using f(3) [OF qr(2,1) q(2)] untouchedD(1) [OF u q] by simp
        qed
        then show ?thesis using False u by (simp add: untouched_def)
      qed
      then show ?thesis using f(1,2) False sz by simp
    qed (use S' u in simp)
    then have "serves (InvokeNewHook r (n * e) ?h) C own' \<and> untouched own h (InvokeNewHook r (n * e) ?h) \<and>
        (r \<noteq> 0 \<longrightarrow> (\<forall>i<unat n * unat e. mem (InvokeNewHook r (n * e) ?h) (r + of_nat i) = 0))"
      unfolding serves_hooks hooks_same untouched_mem [OF hooks_same(1) hooks_same(3)] .
    then show ?thesis using run g by blast
  next
    assume m: "do_malloc cfg me (n * e) h = None" "\<not> supplied h"
    have "calloc cfg me n e h = None" unfolding calloc_def Let_def if_not_P [OF no] m(1) by simp
    then show ?thesis using m(2) by blast
  qed
qed

section \<open>\<open>realloc\<close>\<close>

lemma realloc_serves:
  assumes K: "kernel_ok (sys_cfg cfg)" and S: "serves h C own" and a: "may_call cfg h C me n" and p: "own p = Some D" and n: "n \<noteq> 0"
  shows "realloc cfg me p n h = None \<and> \<not> supplied h \<or>
    (\<exists>r h'. realloc cfg me p n h = Some (r, h') \<and>
      (r = 0 \<and> serves h' C own \<and> untouched own h h' \<or>
       r = p \<and> h' = h \<and> span64 p n \<subseteq> D \<or>
       r \<noteq> 0 \<and> own r = None \<and> (\<exists>B. serves h' C ((own(p := None))(r \<mapsto> B)) \<and> span64 r n \<subseteq> B) \<and>
         untouched (own(p := None)) h h' \<and>
         (\<forall>i<unat n. unat p + i \<in> D \<longrightarrow> mem h' (r + of_nat i) = mem h (p + of_nat i))))"
proof -
  have p0: "p \<noteq> 0" using serves_word [OF S p] by blast
  obtain m where m: "realloc_old_size p h = Some m" "D = span64 p m" using serves_range(2) [OF S p] by blast
  have step: "realloc cfg me p n h = (if m < n \<or> AllocationSize (tables h) n < m then do {
          (r, h) \<leftarrow> do_malloc cfg me n h;
          if r = 0 then Some (0, h)
          else do {
            h \<leftarrow> free me p ((InvokeNewHook r n h)\<lparr>mem := memcpy r p (if m < n then m else n) (mem h)\<rparr>);
            Some (r, h) } }
        else Some (p, h))"
    unfolding realloc_def if_not_P [OF p0] if_not_P [OF n] m(1) bind.bind_lunit Let_def free_def hooks_same by (rule refl)
  show ?thesis
  proof (cases "m < n \<or> AllocationSize (tables h) n < m")
    case False
    then have "n \<le> m" by (simp add: not_less)
    then have "span64 p n \<subseteq> D" using m(2) by (auto simp: span64_def word_le_nat_alt)
    then show ?thesis using step False by simp
  next
    case True
    from do_malloc_ok [OF K S a] show ?thesis
    proof (elim disjE exE conjE)
      assume "do_malloc cfg me n h = None" "\<not> supplied h" then show ?thesis using step True by simp
    next
      fix r h1 own1 assume d: "do_malloc cfg me n h = Some (r, h1)" and S1: "serves h1 C own1" and g: "gains own n r own1" and u: "untouched own h h1"
      show ?thesis
      proof (cases "r = 0")
        case True
        then have "realloc cfg me p n h = Some (0, h1)" "own1 = own" using step d \<open>m < n \<or> _\<close> g by (simp_all add: gains_def)
        then show ?thesis using S1 u by blast
      next
        case r0: False
        obtain B where B: "own r = None" "own1 = own(r \<mapsto> B)" "span64 r n \<subseteq> B" using g r0 by (auto simp: gains_def span64_def)
        let ?k = "if m < n then m else n" let ?h = "InvokeNewHook r n h1"
        have pr: "p \<noteq> r" using B(1) p by auto
        have o1: "own1 r = Some B" "own1 p = Some D" using B(2) p pr by auto
        have kk: "span64 r ?k \<subseteq> B" "span64 p ?k \<subseteq> D" "unat ?k = min (unat m) (unat n)"
          using B(3) m(2) by (auto simp: span64_def word_less_nat_alt)
        have "attached h1 C me" using untouchedD(3) [OF u] may_call_attached [OF a] by simp
        then have "serves ?h C own1 \<and> attached ?h C me" using S1 by (simp add: attached_def)
        note co = tc.copy_over [OF this o1 pr kk(1,2)]
        let ?g = "?h\<lparr>mem := memcpy r p ?k (mem ?h)\<rparr>"
        obtain h' where h': "free me p ?g = Some h'" "serves h' C (own1(p := None))"
          "\<And>i. i < unat ?k \<Longrightarrow> mem h' (r + of_nat i) = mem ?h (p + of_nat i)"
          "\<And>q A b. q \<noteq> p \<Longrightarrow> q \<noteq> r \<Longrightarrow> own1 q = Some A \<Longrightarrow> unat b \<in> A \<Longrightarrow> mem h' b = mem ?h b" using co(2) by blast
        have get: "GetCacheIfPresent me h' = GetCacheIfPresent me h1" for me
          using free_serves [OF conjunct1 [OF co(1)] conjunct2 [OF co(1)] o1(2)] h'(1) untouchedD(2) by fastforce
        have run: "realloc cfg me p n h = Some (r, h')" using step d True r0 h'(1) by simp
        have "untouched (own(p := None)) h h'"
          unfolding untouched_def
        proof (intro conjI allI impI)
          fix q A and b :: u64 assume q: "(own(p := None)) q = Some A" "unat b \<in> A"
          then have "q \<noteq> p" "q \<noteq> r" "own q = Some A" "own1 q = Some A" using B(1,2) by (auto split: if_splits)
          then show "mem h' b = mem h b" using h'(4) q(2) untouchedD(1) [OF u] by simp
        qed (simp add: get untouchedD(2) [OF u])
        moreover have "own1(p := None) = (own(p := None))(r \<mapsto> B)" using B(2) pr by auto
        moreover have "mem h' (r + of_nat i) = mem h (p + of_nat i)" if i: "i < unat n" "unat p + i \<in> D" for i
        proof -
          have im: "i < unat m" using i(2) m(2) by (simp add: span64_def)
          have "unat p + unat m \<le> 2 ^ 64" using span64_bound [OF order_refl] serves_range(1) [OF S p] m(2) by blast
          then have "unat (p + of_nat i) \<in> D" using unat_offset(2) [OF _ im] m(2) by blast
          then have "mem h1 (p + of_nat i) = mem h (p + of_nat i)" by (rule untouchedD(1) [OF u p])
          then show ?thesis using h'(3) [of i] i im kk(3) by simp
        qed
        ultimately show ?thesis using run r0 B(1,3) h'(2) by auto
      qed
    qed
  qed
qed

section \<open>The clients' machine\<close>

text \<open>
  Threads call the C entry points, in any order, and store into the blocks they hold. \<open>live\<close> maps the address
  of a block to the size that was asked for. Calls of different threads interleave at the granularity of a
  call, as the locks of the allocator allow for its shared parts.
\<close>

inductive client_step :: "tc_config \<Rightarrow> u64 set \<Rightarrow> 'a tcmalloc_scheme \<times> (u64 \<rightharpoonup> u64) \<Rightarrow> 'a tcmalloc_scheme \<times> (u64 \<rightharpoonup> u64) \<Rightarrow> bool"
  for cfg C where
  step_malloc: "may_call cfg h C me n \<Longrightarrow> malloc cfg me n h = Some (r, h') \<Longrightarrow>
     client_step cfg C (h, live) (h', if r = 0 then live else live(r \<mapsto> n))"
| step_calloc: "may_call cfg h C me (n * e) \<Longrightarrow> calloc cfg me n e h = Some (r, h') \<Longrightarrow>
     client_step cfg C (h, live) (h', if r = 0 then live else live(r \<mapsto> n * e))"
| step_realloc: "may_call cfg h C me n \<Longrightarrow> live p = Some m \<Longrightarrow> n \<noteq> 0 \<Longrightarrow> realloc cfg me p n h = Some (r, h') \<Longrightarrow>
     client_step cfg C (h, live) (h', if r = 0 then live else (live(p := None))(r \<mapsto> n))"
| step_free: "attached h C me \<Longrightarrow> live p = Some n \<Longrightarrow> free me p h = Some h' \<Longrightarrow> client_step cfg C (h, live) (h', live(p := None))"
| step_store: "live p = Some n \<Longrightarrow> i < unat n \<Longrightarrow> client_step cfg C (h, live) (h\<lparr>mem := (mem h)(p + of_nat i := v)\<rparr>, live)"

definition holds :: "'a tcmalloc_scheme \<Rightarrow> u64 set \<Rightarrow> (u64 \<rightharpoonup> u64) \<Rightarrow> bool" where
  "holds h C live \<longleftrightarrow> (\<exists>own. serves h C own \<and> dom own = dom live \<and>
     (\<forall>p n B. live p = Some n \<longrightarrow> own p = Some B \<longrightarrow> span64 p n \<subseteq> B))"

lemma holdsE:
  assumes "holds h C live"
  obtains own where "serves h C own" "\<And>p. own p = None \<longleftrightarrow> live p = None"
    "\<And>p n B. live p = Some n \<Longrightarrow> own p = Some B \<Longrightarrow> span64 p n \<subseteq> B"
proof -
  obtain own where o: "serves h C own" "dom own = dom live" "\<And>p n B. live p = Some n \<Longrightarrow> own p = Some B \<Longrightarrow> span64 p n \<subseteq> B"
    using assms by (auto simp: holds_def)
  have "own p = None \<longleftrightarrow> live p = None" for p using o(2) by (metis domIff)
  then show thesis using that o(1,3) by blast
qed

lemma holdsI:
  assumes "serves h C own" "\<And>p. own p = None \<longleftrightarrow> live p = None" "\<And>p n B. live p = Some n \<Longrightarrow> own p = Some B \<Longrightarrow> span64 p n \<subseteq> B"
  shows "holds h C live"
proof -
  have "dom own = dom live" using assms(2) by (auto simp: dom_def)
  then show ?thesis using assms(1,3) unfolding holds_def by blast
qed

lemma holds_gains:
  assumes "serves h' C own'" "gains own n r own'" "\<And>p. own p = None \<longleftrightarrow> live p = None" "\<And>p n B. live p = Some n \<Longrightarrow> own p = Some B \<Longrightarrow> span64 p n \<subseteq> B"
  shows "holds h' C (if r = 0 then live else live(r \<mapsto> n))"
proof (rule holdsI [OF assms(1)])
  show "own' p = None \<longleftrightarrow> (if r = 0 then live else live(r \<mapsto> n)) p = None" for p
    using assms(2,3) by (auto simp: gains_def split: if_splits)
  show "(if r = 0 then live else live(r \<mapsto> n)) p = Some k \<Longrightarrow> own' p = Some B \<Longrightarrow> span64 p k \<subseteq> B" for p k B
    using assms(2,4) by (auto simp: gains_def span64_def split: if_splits)
qed

lemma client_step_holds:
  assumes K: "kernel_ok (sys_cfg cfg)" and step: "client_step cfg C s s'" and H: "holds (fst s) C (snd s)"
  shows "holds (fst s') C (snd s')"
  using step H
proof (induction rule: client_step.induct)
  case (step_malloc h me n r h' live)
  obtain own where o: "serves h C own" "\<And>p. own p = None \<longleftrightarrow> live p = None" "\<And>p n B. live p = Some n \<Longrightarrow> own p = Some B \<Longrightarrow> span64 p n \<subseteq> B"
    using step_malloc(3) by (auto elim: holdsE)
  from malloc_serves [OF K o(1) step_malloc(1)] step_malloc(2) show ?case by (auto dest: holds_gains [OF _ _ o(2,3)])
next
  case (step_calloc h me n e r h' live)
  obtain own where o: "serves h C own" "\<And>p. own p = None \<longleftrightarrow> live p = None" "\<And>p n B. live p = Some n \<Longrightarrow> own p = Some B \<Longrightarrow> span64 p n \<subseteq> B"
    using step_calloc(3) by (auto elim: holdsE)
  show ?case
  proof (cases "unat n * unat e < 2 ^ 64")
    case True
    from calloc_serves [OF K o(1) step_calloc(1) True] step_calloc(2) show ?thesis by (auto dest: holds_gains [OF _ _ o(2,3)])
  next
    case False
    then show ?thesis using calloc_refuses [of n e cfg me h] step_calloc(2,3) by simp
  qed
next
  case (step_realloc h me n live p m r h')
  obtain own where o: "serves h C own" "\<And>p. own p = None \<longleftrightarrow> live p = None" "\<And>p n B. live p = Some n \<Longrightarrow> own p = Some B \<Longrightarrow> span64 p n \<subseteq> B"
    using step_realloc(5) by (auto elim: holdsE)
  obtain D where D: "own p = Some D" using o(2) [of p] step_realloc(2) by auto
  have p0: "p \<noteq> 0" using serves_word [OF o(1) D] by blast
  from realloc_serves [OF K o(1) step_realloc(1) D step_realloc(3)] step_realloc(4)
  consider "r = 0" "serves h' C own" | "r = p" "h' = h" "span64 p n \<subseteq> D"
    | B where "r \<noteq> 0" "own r = None" "serves h' C ((own(p := None))(r \<mapsto> B))" "span64 r n \<subseteq> B"
    by auto
  then show ?case
  proof cases
    case 1 then show ?thesis using holdsI [OF 1(2) o(2,3)] by simp
  next
    case 2
    let ?l = "(live(p := None))(r \<mapsto> n)"
    have "own q = None \<longleftrightarrow> ?l q = None" for q using o(2) [of q] D 2(1) by auto
    moreover have "span64 q k \<subseteq> B" if "?l q = Some k" "own q = Some B" for q k B
      using that o(3) [of q k B] 2(1,3) D by (cases "q = p") simp_all
    ultimately show ?thesis using holdsI [OF o(1)] 2(1,2) p0 by simp
  next
    case 3
    let ?l = "(live(p := None))(r \<mapsto> n)" and ?o = "(own(p := None))(r \<mapsto> B)"
    have "?o q = None \<longleftrightarrow> ?l q = None" for q using o(2) [of q] by auto
    moreover have "span64 q k \<subseteq> A" if "?l q = Some k" "?o q = Some A" for q k A
      using that o(3) [of q k A] 3(4) by (cases "q = r"; cases "q = p") simp_all
    ultimately show ?thesis using holdsI [OF 3(3)] 3(1) by simp
  qed
next
  case (step_free h me live p n h')
  obtain own where o: "serves h C own" "\<And>p. own p = None \<longleftrightarrow> live p = None" "\<And>p n B. live p = Some n \<Longrightarrow> own p = Some B \<Longrightarrow> span64 p n \<subseteq> B"
    using step_free(4) by (auto elim: holdsE)
  obtain D where D: "own p = Some D" using o(2) [of p] step_free(2) by auto
  have "serves h' C (own(p := None))" using free_serves [OF o(1) step_free(1) D] step_free(3) by auto
  moreover have "(own(p := None)) q = None \<longleftrightarrow> (live(p := None)) q = None" for q using o(2) by simp
  moreover have "span64 q k \<subseteq> A" if "(live(p := None)) q = Some k" "(own(p := None)) q = Some A" for q k A
    using that o(3) [of q k A] by (cases "q = p") simp_all
  ultimately have "holds h' C (live(p := None))" by (rule holdsI)
  then show ?case unfolding fst_conv snd_conv .
next
  case (step_store live p n i h v)
  obtain own where o: "serves h C own" "\<And>p. own p = None \<longleftrightarrow> live p = None" "\<And>p n B. live p = Some n \<Longrightarrow> own p = Some B \<Longrightarrow> span64 p n \<subseteq> B"
    using step_store(3) by (auto elim: holdsE)
  obtain D where D: "own p = Some D" using o(2) [of p] step_store(1) by auto
  have sub: "span64 p n \<subseteq> D" by (rule o(3) [OF step_store(1) D])
  have "unat (p + of_nat i) \<in> D" using unat_offset(2) [OF span64_bound [OF sub serves_range(1) [OF o(1) D]] step_store(2)] sub by blast
  then have "serves (h\<lparr>mem := (mem h)(p + of_nat i := v)\<rparr>) C own" by (intro serves_write [OF o(1)]) (use D in \<open>auto simp: own_write_def\<close>)
  from holdsI [OF this o(2,3)] show ?case by simp
qed

lemma client_run_holds:
  assumes K: "kernel_ok (sys_cfg cfg)" and run: "(client_step cfg C)\<^sup>*\<^sup>* s s'" and H: "holds (fst s) C (snd s)"
  shows "holds (fst s') C (snd s')"
  using run by (induction rule: rtranclp_induct) (use H client_step_holds [OF K] in blast)+

lemma holds_block:
  assumes H: "holds h C live" and p: "live p = Some n"
  obtains own B where "serves h C own" "own p = Some B" "span64 p n \<subseteq> B"
    "\<And>q m. live q = Some m \<Longrightarrow> \<exists>D. own q = Some D \<and> span64 q m \<subseteq> D"
proof (rule holdsE [OF H])
  fix own assume o: "serves h C own" "\<And>p. own p = None \<longleftrightarrow> live p = None" "\<And>p n B. live p = Some n \<Longrightarrow> own p = Some B \<Longrightarrow> span64 p n \<subseteq> B"
  have all: "\<exists>D. own q = Some D \<and> span64 q m \<subseteq> D" if "live q = Some m" for q m
    using o(2) [of q] o(3) [OF that] that by auto
  show thesis using that [OF o(1)] all all [OF p] by blast
qed

lemma holds_apart:
  assumes H: "holds h C live" and p: "live p = Some n" and q: "live q = Some m" and ne: "p \<noteq> q"
  shows "span64 p n \<inter> span64 q m = {}"
proof -
  obtain own B where o: "serves h C own" "own p = Some B" "span64 p n \<subseteq> B" "\<And>q m. live q = Some m \<Longrightarrow> \<exists>D. own q = Some D \<and> span64 q m \<subseteq> D"
    using holds_block [OF H p] by blast
  obtain D where D: "own q = Some D" "span64 q m \<subseteq> D" using o(4) [OF q] by blast
  show ?thesis using serves_disjoint [OF o(1,2) D(1) ne] o(3) D(2) by blast
qed

lemma holds_inside:
  assumes H: "holds h C live" and p: "live p = Some n"
  shows "p \<noteq> 0" "unat p + unat n \<le> 2 ^ 64" "attached h C me \<Longrightarrow> \<exists>h'. free me p h = Some h'"
proof -
  obtain own B where o: "serves h C own" "own p = Some B" "span64 p n \<subseteq> B" using holds_block [OF H p] by metis
  show "p \<noteq> 0" using serves_word [OF o(1,2)] by blast
  show "unat p + unat n \<le> 2 ^ 64" by (rule span64_bound [OF o(3) serves_range(1) [OF o(1,2)]])
  show "attached h C me \<Longrightarrow> \<exists>h'. free me p h = Some h'" using free_serves [OF o(1) _ o(2)] by blast
qed

end
