(* ===== verification/Kernel.thy ===== *)
theory Kernel
  imports SysAlloc
begin

text \<open>
  Concrete kernels for the witnesses: grants come one after the other, each above everything granted
  before.
\<close>

text \<open>The first address above all grants of the history.\<close>

fun break_of :: "(kcall \<times> u64) list \<Rightarrow> nat" where
  "break_of [] = 0x10000"
| "break_of ((c, r) # t) = (case c of
     Sbrk n \<Rightarrow> max (break_of t) (unat r + unat n)
   | Mmap n \<Rightarrow> max (break_of t) (unat r + unat n)
   | MmapDevMem n off \<Rightarrow> max (break_of t) (unat r + unat n)
   | _ \<Rightarrow> break_of t)"

lemma break_of_above: "4096 \<le> break_of t \<and> (\<forall>a\<in>mapped t. a < break_of t)"
proof (induction t rule: break_of.induct)
  case (2 c r t)
  then show ?case by (auto simp: grant_def span_of_def less_max_iff_disj split: kcall.splits if_splits)
qed simp

text \<open>A kernel that maps whole pages and has no break.\<close>

definition page_grant :: "(kcall \<times> u64) list \<Rightarrow> kcall \<Rightarrow> u64" where
  "page_grant t c = (case c of
     Mmap n \<Rightarrow> let b = (break_of t + 4095) div 4096 * 4096
       in if 0 < n \<and> b + unat n < 2 ^ 40 then word_of_nat b else - 1
   | Munmap p n \<Rightarrow> 0
   | _ \<Rightarrow> - 1)"

definition page_kernel :: sys_config where
  "page_kernel = \<lparr>HAVE_SBRK = False, HAVE_MMAP = True, FLAGS_malloc_devmem_start = 0,
     FLAGS_malloc_devmem_limit = 0, page_size = 4096, kernel = page_grant\<rparr>"

lemma page_kernel_ok: "kernel_ok page_kernel"
proof -
  have "let r = page_grant t c in
     grant c r \<inter> mapped t = {} \<and>
     (r \<noteq> MAP_FAILED \<longrightarrow> (case c of
        Sbrk n \<Rightarrow> 4096 \<le> unat r \<and> unat r + unat n < 2 ^ 47
      | Mmap n \<Rightarrow> 0 < n \<and> 4096 \<le> unat r \<and> unat r + unat n < 2 ^ 47 \<and> unat r mod 4096 = 0
      | MmapDevMem n off \<Rightarrow> 0 < n \<and> 4096 \<le> unat r \<and> unat r + unat n < 2 ^ 47 \<and> unat r mod 4096 = 0
      | _ \<Rightarrow> True))" for t c
  proof (cases c)
    case (Mmap n)
    define b where "b = (break_of t + 4095) div 4096 * 4096"
    have above: "4096 \<le> break_of t" "\<And>a. a \<in> mapped t \<Longrightarrow> a < break_of t" using break_of_above [of t] by auto
    have b: "break_of t \<le> b" "b mod 4096 = 0" by (simp_all add: b_def)
    show ?thesis
    proof (cases "0 < n \<and> b + unat n < 2 ^ 40")
      case True
      then have "unat (word_of_nat b :: u64) = b" by (intro of_nat_inverse [OF refl]) simp
      then show ?thesis using above b True Mmap
        by (auto simp: page_grant_def Let_def b_def [symmetric] grant_def span_of_def dest!: above(2))
    next
      case False
      then have "page_grant t c = MAP_FAILED" unfolding page_grant_def Mmap kcall.case Let_def b_def [symmetric] MAP_FAILED_def by (simp only: if_False)
      then show ?thesis by (simp add: Mmap grant_def)
    qed
  qed (simp_all add: page_grant_def grant_def MAP_FAILED_def)
  then show ?thesis by (simp add: kernel_ok_def page_kernel_def)
qed

end
