(* ===== verification/PageHeapProps.thy ===== *)
theory PageHeapProps
  imports PageHeapSpec Kernel
begin

text \<open>
  The properties of the page heap, and the concrete heaps that the witnesses run on.
\<close>

section \<open>Concrete inputs\<close>

text \<open>A kernel that moves the break up from \<open>0x10000\<close> and refuses everything else.\<close>

definition bump_grant :: "(kcall \<times> u64) list \<Rightarrow> kcall \<Rightarrow> u64" where
  "bump_grant t c = (case c of
     Sbrk n \<Rightarrow> if break_of t + unat n < 2 ^ 40 then word_of_nat (break_of t) else - 1
   | _ \<Rightarrow> - 1)"

definition bump_cfg :: tc_config where
  "bump_cfg = \<lparr>sys_cfg = \<lparr>HAVE_SBRK = True, HAVE_MMAP = True, FLAGS_malloc_devmem_start = 0,
     FLAGS_malloc_devmem_limit = 0, page_size = 4096, kernel = bump_grant\<rparr>,
     GetStackTrace = \<lambda>_. [], FLAGS_tcmalloc_sample_parameter = 0\<rparr>"

lemma bump_cfg_ok: "kernel_ok (sys_cfg bump_cfg)"
proof -
  have "let r = bump_grant t c in
     grant c r \<inter> mapped t = {} \<and>
     (r \<noteq> MAP_FAILED \<longrightarrow> (case c of
        Sbrk n \<Rightarrow> 4096 \<le> unat r \<and> unat r + unat n < 2 ^ 47
      | Mmap n \<Rightarrow> 0 < n \<and> 4096 \<le> unat r \<and> unat r + unat n < 2 ^ 47 \<and> unat r mod 4096 = 0
      | MmapDevMem n off \<Rightarrow> 0 < n \<and> 4096 \<le> unat r \<and> unat r + unat n < 2 ^ 47 \<and> unat r mod 4096 = 0
      | _ \<Rightarrow> True))" for t c
  proof (cases c)
    case (Sbrk n)
    have above: "4096 \<le> break_of t" "\<And>a. a \<in> mapped t \<Longrightarrow> a < break_of t" using break_of_above [of t] by auto
    show ?thesis
    proof (cases "break_of t + unat n < 2 ^ 40")
      case True
      then have "unat (word_of_nat (break_of t) :: u64) = break_of t" by (intro of_nat_inverse [OF refl]) simp
      then show ?thesis using above True Sbrk
        by (auto simp: bump_grant_def Let_def grant_def span_of_def dest!: above(2))
    qed (simp add: bump_grant_def Sbrk grant_def MAP_FAILED_def)
  qed (simp_all add: bump_grant_def grant_def MAP_FAILED_def)
  then show ?thesis by (simp add: kernel_ok_def bump_cfg_def)
qed

text \<open>
  A heap of ten pages from page 100 on, all in the span at \<open>0x10000\<close>, which a caller holds, with
  metadata chunks of both allocators and the list heads in place.
\<close>

definition demo_span :: sref where "demo_span = Obj 0x10000"

lemma demo_span_Obj [simp]: "demo_span \<in> range Obj" "demo_span \<noteq> Null"
  by (auto simp: demo_span_def)

definition demo_spans :: spans where
  "demo_spans = (\<lambda>x. if x = demo_span then zero_span\<lparr>span_start := 100, span_length := 10\<rparr>
     else zero_span\<lparr>span_next := x, span_prev := x\<rparr>)"

definition demo_sys :: sys_state where
  "demo_sys = sys_init\<lparr>pagesize := 4096, sys_trace := [(Sbrk 0x100000, 0x10000)]\<rparr>"

definition demo_blank :: page_heap where
  "demo_blank = \<lparr>meta = \<lparr>sys = demo_sys, metadata_system_bytes = 0\<rparr>,
     span_allocator = \<lparr>free_area = 0x20000, free_avail = 0x20000, pha_free_list = 0, inuse = 1, pha_link = \<lambda>_. 0\<rparr>,
     stacktrace_allocator = \<lparr>free_area = 0x40000, free_avail = 0x20000, pha_free_list = 0, inuse = 0, pha_link = \<lambda>_. 0\<rparr>,
     spans_of = demo_spans, traces = \<lambda>_. \<lparr>st_size = 0, st_depth = 0, st_stack = \<lambda>_. 0\<rparr>,
     trace_calls = 0, pagemap = \<lparr>root_3 = Some (\<lambda>_. Some (\<lambda>_. Some (\<lambda>_. Null)))\<rparr>, free_pages = 0, system_bytes = 40960\<rparr>"

definition demo_heap :: page_heap where
  "demo_heap = the (Option.bind (pagemap_set 100 demo_span demo_blank) (pagemap_set 109 demo_span))"

lemma demo_blank_pmap: "pmap demo_blank k = (if k < 2 ^ 52 then Some Null else None)"
proof -
  have "drop_bit PM_BITS (word_of_nat k :: u64) = 0" if "k < 2 ^ 52"
  proof (rule unat_eq_zero [THEN iffD1], unfold unat_drop_bit_eq)
    have "unat (word_of_nat k :: u64) = k" using that by (intro of_nat_inverse [OF refl]) simp
    then show "drop_bit PM_BITS (unat (word_of_nat k :: u64)) = 0"
      using that by (simp add: drop_bit_eq_div PM_BITS_def kPageShift_def)
  qed
  then show ?thesis
    by (simp add: pmap_def GetDescriptor_def pagemap_get_def demo_blank_def PageMap3_get_def option_monad Let_def)
qed

lemma demo_heap_map:
  "\<exists>pm. demo_heap = demo_blank\<lparr>pagemap := pm\<rparr> \<and>
     pmap demo_heap = (pmap demo_blank)(100 := Some demo_span, 109 := Some demo_span) \<and> root_3 pm \<noteq> None"
proof -
  have "pmap demo_blank 100 \<noteq> None" by (simp add: demo_blank_pmap)
  from pmap_set [OF this, of demo_span] obtain pm where
    1: "pagemap_set 100 demo_span demo_blank = Some (demo_blank\<lparr>pagemap := pm\<rparr>)"
    "pmap (demo_blank\<lparr>pagemap := pm\<rparr>) = (pmap demo_blank)(100 := Some demo_span)" "root_3 pm \<noteq> None"
    by (auto simp: demo_blank_def)
  have "pmap (demo_blank\<lparr>pagemap := pm\<rparr>) 109 \<noteq> None" unfolding 1(2) by (simp add: demo_blank_pmap)
  from pmap_set [OF this, of demo_span] obtain pm' where
    2: "pagemap_set 109 demo_span (demo_blank\<lparr>pagemap := pm\<rparr>) = Some (demo_blank\<lparr>pagemap := pm'\<rparr>)"
    "pmap (demo_blank\<lparr>pagemap := pm'\<rparr>) = (pmap demo_blank)(100 := Some demo_span, 109 := Some demo_span)"
    "root_3 pm' \<noteq> None"
    using 1(3) by (auto simp: 1(2))
  then show ?thesis using 1(1) by (auto simp: demo_heap_def)
qed

lemma demo_heap_ok: "ph_ok demo_heap {demo_span} {100..<110}"
proof -
  obtain pm where d: "demo_heap = demo_blank\<lparr>pagemap := pm\<rparr>"
    "pmap demo_heap = (pmap demo_blank)(100 := Some demo_span, 109 := Some demo_span)" "root_3 pm \<noteq> None"
    using demo_heap_map by blast
  have \<sigma>: "spans_of demo_heap = demo_spans" by (simp add: d(1) demo_blank_def)
  have x: "demo_spans demo_span = zero_span\<lparr>span_start := 100, span_length := 10\<rparr>"
    "sst demo_spans demo_span = 100" "sln demo_spans demo_span = 10"
    by (simp_all add: demo_spans_def sst_def sln_def)
  have f: "frees (\<lambda>_. []) = {}" by (simp add: frees_def)
  have hd: "l \<noteq> demo_span" if "l \<in> heads" for l using that by (auto simp: heads_def demo_span_def)
  have "lists_ok demo_spans (\<lambda>_. [])"
    using hd by (auto simp: lists_ok_def dll_def demo_spans_def heads_def)
  moreover have "tiling demo_spans (pmap demo_heap) {demo_span} {100..<110}"
    unfolding tiling_def d(2) using demo_span_Obj by (auto simp: x pages_of_def demo_blank_pmap split: if_splits)
  moreover have "coloring demo_spans {demo_span} {}" by (simp add: coloring_def x zero_span_def)
  moreover have "mem_ok demo_heap (addrs {demo_span}) {100..<110}"
  proof -
    let ?M = "{0x10000..<0x40000}" and ?N = "{0x40000..<0x60000}"
    have a: "addrs {demo_span} = {0x10000}" by (auto simp: addrs_def demo_span_def)
    have "objects_ok sizeof_Span {0x10000} 0x20000 0x20000 ?M"
      by (auto simp: objects_ok_def span_of_def sizeof_Span_def)
    then have M: "pha_ok sizeof_Span (span_allocator demo_heap) (addrs {demo_span}) ?M"
      unfolding pha_ok_def a by (intro exI [of _ "[]"]) (simp add: d(1) demo_blank_def)
    have "objects_ok sizeof_StackTrace {} 0x40000 0x20000 ?N" by (auto simp: objects_ok_def span_of_def)
    then have N: "pha_ok sizeof_StackTrace (stacktrace_allocator demo_heap) {} ?N"
      unfolding pha_ok_def by (intro exI [of _ "[]"]) (simp add: d(1) demo_blank_def)
    have pb: "page_bytes {100..<110} = {0x64000..<0x6E000}"
      by (auto simp: page_bytes_def)
    have "bytes_mapped (meta demo_heap) = {0x10000..<0x110000}"
      by (simp add: d(1) demo_blank_def demo_sys_def grant_def span_of_def MAP_FAILED_def)
    moreover have "sys_ok (sys (meta demo_heap))" by (auto simp: d(1) demo_blank_def demo_sys_def sys_ok_def sys_init_def grant_def span_of_def MAP_FAILED_def)
    ultimately show ?thesis
      unfolding mem_ok_def pb using M N by (intro conjI exI [of _ ?M] exI [of _ ?N] exI [of _ "{}"]) auto
  qed
  ultimately have "ph_inv demo_heap {demo_span} (\<lambda>_. []) {100..<110}"
    unfolding ph_inv_def \<sigma> f using d(3) by (simp add: d(1) demo_blank_def kMaxHeapPages_def)
  moreover have "free_pages demo_heap = word_of_nat (free_sum demo_heap (\<lambda>_. []))"
    by (simp add: d(1) demo_blank_def free_sum_def f)
  ultimately show ?thesis unfolding ph_ok_def by blast
qed

lemma demo_facts:
  "spans_of demo_heap demo_span = zero_span\<lparr>span_start := 100, span_length := 10\<rparr>" "parked demo_heap demo_span"
  "system_bytes demo_heap = 40960" "free_pages demo_heap = 0"
  "pha_room sizeof_Span (span_allocator demo_heap) 2" "pha_room sizeof_StackTrace (stacktrace_allocator demo_heap) 1"
proof -
  obtain pm where d: "demo_heap = demo_blank\<lparr>pagemap := pm\<rparr>" using demo_heap_map by blast
  show "spans_of demo_heap demo_span = zero_span\<lparr>span_start := 100, span_length := 10\<rparr>" "parked demo_heap demo_span"
    "system_bytes demo_heap = 40960" "free_pages demo_heap = 0"
    by (simp_all add: d demo_blank_def demo_spans_def parked_def zero_span_def)
  show "pha_room sizeof_Span (span_allocator demo_heap) 2" "pha_room sizeof_StackTrace (stacktrace_allocator demo_heap) 1"
    by (simp_all add: pha_room_def d demo_blank_def sizeof_Span_def sizeof_StackTrace_def kAlignedSize_def
        kAlignment_def kAlignShift_def exI [of _ "[]"])
qed

section \<open>Properties\<close>

lemma allocated_len: "allocated A P (unat n) h s h' P' \<Longrightarrow> span_length (spans_of h' s) = n"
  and same_start: "sst \<sigma>' s = sst \<sigma> s \<Longrightarrow> span_start (\<sigma>' s) = span_start (\<sigma> s)"
  by (simp_all add: allocated_def sln_def sst_def word_unat_eq_iff)

text \<open>
  C7. The page heap stays correct whatever its caller does. In every state that calls of \<open>New\<close>,
  \<open>Delete\<close>, \<open>Split\<close>, \<open>RegisterSizeClass\<close> and writes of the caller to its own spans can reach from
  \<open>init\<close>, the heap's self-check succeeds, the spans that the caller holds are non-empty, not marked
  free, pairwise disjoint and found in the page map under their first and last page, and each of
  them that is on no list can be given back to \<open>Delete\<close> without abnormal termination.
\<close>

theorem page_heap_reachable:
  assumes "kernel_ok (sys_cfg cfg)" and "mem_ok h0 {} {}" and "ph_reach cfg h0 h A"
  shows "PH_Check h = Some () \<and>
    (\<forall>s\<in>A. 0 < span_length (spans_of h s) \<and> \<not> span_free (spans_of h s) \<and>
       GetDescriptor (span_start (spans_of h s)) h = Some s \<and>
       GetDescriptor (span_start (spans_of h s) + span_length (spans_of h s) - 1) h = Some s \<and>
       (\<forall>t\<in>A. s \<noteq> t \<longrightarrow> pages_of (spans_of h) s \<inter> pages_of (spans_of h) t = {}) \<and>
       (parked h s \<longrightarrow> PH_Delete s h \<noteq> None))"
proof -
  obtain P where ok: "ph_ok h A P" using ph_reach_ok [OF assms] by blast
  note d = ph_ok_held [OF ok]
  have "0 < span_length (spans_of h s)" if "s \<in> A" for s
    using d(3) [OF that] by (simp add: sln_def word_less_nat_alt)
  moreover have "PH_Delete s h \<noteq> None" if "s \<in> A" "parked h s" for s
    using Delete_ok [OF ok that] by auto
  ultimately show ?thesis using d by blast
qed

lemma demo_blank_mem: "mem_ok demo_blank {} {}"
proof -
  have M: "pha_ok sizeof_Span (span_allocator demo_blank) {} {0x20000..<0x40000}"
    and N: "pha_ok sizeof_StackTrace (stacktrace_allocator demo_blank) {} {0x40000..<0x60000}"
    by (rule exI [of _ "[]", folded pha_ok_def] | simp add: pha_ok_def demo_blank_def objects_ok_def span_of_def exI [of _ "[]"])+
  have "bytes_mapped (meta demo_blank) = {0x10000..<0x110000}"
    by (simp add: demo_blank_def demo_sys_def grant_def span_of_def MAP_FAILED_def)
  moreover have "sys_ok (sys (meta demo_blank))" by (auto simp: demo_blank_def demo_sys_def sys_ok_def sys_init_def grant_def span_of_def MAP_FAILED_def)
  moreover have "page_bytes {} = {}" by (simp add: page_bytes_def)
  ultimately show ?thesis
    unfolding mem_ok_def using M N by (intro conjI exI [of _ "{0x20000..<0x40000}"] exI [of _ "{0x40000..<0x60000}"] exI [of _ "{}"]) auto
qed

lemma demo_init: "\<exists>h. PageHeap_init bump_cfg demo_blank = Some h \<and> root_3 (pagemap h) \<noteq> None \<and>
  span_allocator h = span_allocator demo_blank \<and> stacktrace_allocator h = stacktrace_allocator demo_blank \<and> system_bytes h = 0"
proof -
  let ?ls = "LargeHead # map FreeHead [0..<unat kMaxPages]"
  have "distinct ?ls" "Null \<notin> set ?ls" by (auto simp: distinct_map inj_on_def)
  then obtain \<sigma> where s: "init_heads ?ls (spans_of demo_blank) = Some \<sigma>" using init_heads_ok by blast
  have "fst (MetaDataAlloc (sys_cfg bump_cfg) (push_bit (INTERIOR_BITS PM_BITS) 8) (meta demo_blank)) = 0x110000"
    by (simp add: MetaDataAlloc_def TCMalloc_SystemAlloc_def SystemAlloc_pass_def TryDevMem_def TrySbrk_def bump_cfg_def
      bump_grant_def demo_blank_def demo_sys_def sys_init_def syscall_def round_up_def MAP_FAILED_def Let_def word_sless_alt
      INTERIOR_BITS_def PM_BITS_def kPageShift_def)
  then have "root_3 (fst (PageMap3_init (MetaDataAlloc (sys_cfg bump_cfg)) PM_BITS (meta demo_blank)) :: sref PageMap3) \<noteq> None"
    by (auto simp: PageMap3_init_def PageMap3_NewNode_def Let_def split: prod.splits)
  then show ?thesis
    using s by (auto simp: PageHeap_init_def on_spans_def option_monad Let_def demo_blank_def split: prod.splits simp del: init_heads.simps)
qed

lemma page_heap_reachable_witness:
  "\<exists>h s h'. PageHeap_init bump_cfg demo_blank = Some h \<and> PH_New bump_cfg 10 h = Some (s, h') \<and>
     ph_reach bump_cfg demo_blank h' (if s = Null then {} else {s}) \<and> PH_Check h' = Some ()"
proof -
  obtain pm where d: "demo_heap = demo_blank\<lparr>pagemap := pm\<rparr>" using demo_heap_map by blast
  have "span_allocator demo_heap = span_allocator demo_blank" "stacktrace_allocator demo_heap = stacktrace_allocator demo_blank"
    by (simp_all add: d)
  then obtain h where h: "PageHeap_init bump_cfg demo_blank = Some h" "root_3 (pagemap h) \<noteq> None"
    "span_allocator h = span_allocator demo_heap" "stacktrace_allocator h = stacktrace_allocator demo_heap" "system_bytes h = 0"
    using demo_init by metis
  have r: "ph_reach bump_cfg demo_blank h {}" by (rule reach_init [OF h(1,2)])
  have ok: "ph_ok h {} {}" by (rule PageHeap_init_ok [OF bump_cfg_ok demo_blank_mem h(1,2)])
  have lim: "within_limit 10 h" by (simp add: within_limit_def h(5) kMaxHeapPages_def)
  obtain s h' where n: "PH_New bump_cfg 10 h = Some (s, h')"
    using New_ok [OF bump_cfg_ok ok, of 10] lim demo_facts(5,6) h(3,4) by (auto simp: within_limit_def)
  have "ph_reach bump_cfg demo_blank h' (if s = Null then {} else insert s {})"
    by (rule reach_step [OF r step_New [OF _ lim n]]) simp
  moreover from page_heap_reachable [OF bump_cfg_ok demo_blank_mem this] have "PH_Check h' = Some ()" by blast
  ultimately show ?thesis using h(1) n by auto
qed

text \<open>
  C10. \<open>Delete\<close> takes back any span that the caller holds, without abnormal termination; the heap
  stays correct without that span, no other held span changes and \<open>free_pages_\<close> grows by its length.
\<close>

theorem PH_Delete_correct:
  assumes "ph_ok h A P" and "s \<in> A" and "parked h s"
  shows "\<exists>h'. PH_Delete s h = Some h' \<and> ph_ok h' (A - {s}) P \<and>
    (\<forall>x\<in>A - {s}. spans_of h' x = spans_of h x) \<and> free_pages h' = free_pages h + span_length (spans_of h s)"
  using Delete_ok [OF assms] by (auto simp: ph_frame_def)

lemma PH_Delete_correct_witness:
  "\<exists>h'. PH_Delete demo_span demo_heap = Some h' \<and> ph_ok h' {} {100..<110} \<and> free_pages h' = 10"
  using PH_Delete_correct [OF demo_heap_ok _ demo_facts(2)] demo_facts by simp

text \<open>
  C9. \<open>New\<close> hands out fresh memory. A call either returns null, with the heap as correct as before,
  or a span of exactly the pages asked for, disjoint from every span handed out before and not yet
  given back, none of which it changes; it fails to return only when a metadata chunk is needed.
\<close>

theorem PH_New_correct:
  assumes "kernel_ok (sys_cfg cfg)" and "ph_ok h A P" and "0 < n" and "within_limit n h"
    and "pha_room sizeof_Span (span_allocator h) 2" and "pha_room sizeof_StackTrace (stacktrace_allocator h) 1"
  shows "\<exists>s h' P'. PH_New cfg n h = Some (s, h') \<and> P \<subseteq> P' \<and> (\<forall>x\<in>A. spans_of h' x = spans_of h x) \<and>
    (if s = Null then ph_ok h' A P'
     else s \<notin> A \<and> ph_ok h' (insert s A) P' \<and> span_length (spans_of h' s) = n \<and> parked h' s \<and>
       (\<forall>x\<in>A. pages_of (spans_of h') s \<inter> pages_of (spans_of h) x = {}))"
proof -
  from New_ok [OF assms(1-3) assms(4) [unfolded within_limit_def]] assms(5,6) obtain s h' P' where
    r: "PH_New cfg n h = Some (s, h')"
    "s = Null \<and> ph_ok h' A P' \<and> P \<subseteq> P' \<and> ph_frame A h h' \<or> allocated A P (unat n) h s h' P'" by blast
  then have f: "P \<subseteq> P'" "ph_frame A h h'" by (auto simp: allocated_def)
  have "pages_of (spans_of h') s \<inter> pages_of (spans_of h) x = {}" if x: "x \<in> A" and a: "allocated A P (unat n) h s h' P'" for x
  proof -
    have "pages_of (spans_of h') s \<inter> pages_of (spans_of h') x = {}"
      using ph_ok_held(4) [of h' "insert s A" P' s x] x a by (auto simp: allocated_def)
    then show ?thesis using ph_frame_pages(2) [OF f(2) x] by simp
  qed
  moreover have "span_length (spans_of h' s) = n" if "allocated A P (unat n) h s h' P'"
    by (rule allocated_len [OF that])
  ultimately show ?thesis
    using r f by (intro exI [of _ s] exI [of _ h'] exI [of _ P']) (auto simp: allocated_def parked_def ph_frame_def)
qed

lemma PH_New_correct_witness:
  "\<exists>s h'. PH_New bump_cfg 4 demo_heap = Some (s, h') \<and> spans_of h' demo_span = spans_of demo_heap demo_span"
  using PH_New_correct [OF bump_cfg_ok demo_heap_ok, of 4] demo_facts by (auto simp: within_limit_def kMaxHeapPages_def)

text \<open>
  C14. Memory given back is used again: after \<open>Delete\<close> of a span, \<open>New\<close> of at most as many pages
  returns a span, and it does not grow the heap for it.
\<close>

theorem PH_Delete_then_New:
  assumes "kernel_ok (sys_cfg cfg)" and "ph_ok h A P" and "s \<in> A" and "parked h s"
    and "pha_room sizeof_Span (span_allocator h) 1" and "0 < n" and "n \<le> span_length (spans_of h s)"
  shows "\<exists>h1 t h2. PH_Delete s h = Some h1 \<and> PH_New cfg n h1 = Some (t, h2) \<and> t \<noteq> Null \<and>
    ph_ok h2 (insert t (A - {s})) P \<and> span_length (spans_of h2 t) = n"
proof -
  obtain fl where I: "ph_inv h A fl P" and fp: "free_pages h = word_of_nat (free_sum h fl)"
    using assms(2) by (auto simp: ph_ok_def)
  obtain h1 fl1 where d: "PH_Delete s h = Some h1" "ph_inv h1 (A - {s}) fl1 P"
    "free_pages h1 = free_pages h + span_length (spans_of h s)" "free_sum h1 fl1 = free_sum h fl + sln (spans_of h) s"
    "s \<in> frees fl1" "sln (spans_of h) s \<le> sln (spans_of h1) s" "del_same h h1"
    using Delete_inv [OF I assms(3)] assms(4) by (auto simp: parked_def)
  have fp1: "free_pages h1 = word_of_nat (free_sum h1 fl1)" by (simp add: d(3,4) fp sln_def)
  have room: "pha_room sizeof_Span (span_allocator h1) 1" using d(7) assms(5) by (simp add: del_same_def)
  have fits: "unat n \<le> sln (spans_of h1) s"
    using assms(7) d(6) by (simp add: word_le_nat_alt sln_def)
  from New_fit_ok [OF assms(1) d(2) fp1 assms(6) d(5) fits] room obtain t h2 where
    n: "PH_New cfg n h1 = Some (t, h2)" "allocated (A - {s}) P (unat n) h1 t h2 P" by blast
  have "span_length (spans_of h2 t) = n" by (rule allocated_len [OF n(2)])
  then show ?thesis using d(1) n by (auto simp: allocated_def)
qed

lemma PH_Delete_then_New_witness:
  "\<exists>h1 t h2. PH_Delete demo_span demo_heap = Some h1 \<and> PH_New bump_cfg 7 h1 = Some (t, h2) \<and> t \<noteq> Null \<and>
    span_length (spans_of h2 t) = 7"
proof -
  have "pha_room sizeof_Span (span_allocator demo_heap) 1" using demo_facts(5) by (force simp: pha_room_def)
  from PH_Delete_then_New [OF bump_cfg_ok demo_heap_ok _ demo_facts(2) this, of 7] demo_facts(1) show ?thesis by auto
qed

text \<open>
  C16. \<open>New\<close> is best fit: while some free span is long enough, it takes the start of a shortest such
  span, and the heap does not grow.
\<close>

theorem PH_New_best_fit:
  assumes "kernel_ok (sys_cfg cfg)" and "ph_inv h A fl P" and "free_pages h = word_of_nat (free_sum h fl)" and "0 < n"
    and "t \<in> frees fl" and "n \<le> span_length (spans_of h t)" and "pha_room sizeof_Span (span_allocator h) 1"
  shows "\<exists>s h'. PH_New cfg n h = Some (s, h') \<and> s \<in> frees fl \<and>
    span_start (spans_of h' s) = span_start (spans_of h s) \<and> span_length (spans_of h' s) = n \<and>
    ph_ok h' (insert s A) P \<and>
    (\<forall>u\<in>frees fl. n \<le> span_length (spans_of h u) \<longrightarrow> span_length (spans_of h s) \<le> span_length (spans_of h u))"
proof -
  have "unat n \<le> sln (spans_of h) t" using assms(6) by (simp add: word_le_nat_alt sln_def)
  from New_fit_ok [OF assms(1-5) this] assms(7) obtain s h' where
    r: "PH_New cfg n h = Some (s, h')" "allocated A P (unat n) h s h' P" "sst (spans_of h') s = sst (spans_of h) s"
    "s \<in> frees fl" "\<forall>u\<in>frees fl. unat n \<le> sln (spans_of h) u \<longrightarrow> sln (spans_of h) s \<le> sln (spans_of h) u"
    by blast
  then show ?thesis
    using allocated_len [OF r(2)] same_start [OF r(3)]
    by (intro exI [of _ s] exI [of _ h']) (auto simp: allocated_def sln_def word_le_nat_alt)
qed

lemma PH_New_best_fit_witness:
  "\<exists>h fl s h'. PH_Delete demo_span demo_heap = Some h \<and> PH_New bump_cfg 10 h = Some (s, h') \<and> s \<in> frees fl \<and>
     (\<forall>u\<in>frees fl. 10 \<le> span_length (spans_of h u) \<longrightarrow> span_length (spans_of h s) \<le> span_length (spans_of h u))"
proof -
  obtain fl where I: "ph_inv demo_heap {demo_span} fl {100..<110}" and fp: "free_pages demo_heap = word_of_nat (free_sum demo_heap fl)"
    using demo_heap_ok by (auto simp: ph_ok_def)
  have l: "sln (spans_of demo_heap) demo_span = 10" by (simp add: sln_def demo_facts(1))
  obtain h fl' where d: "PH_Delete demo_span demo_heap = Some h" "ph_inv h {} fl' {100..<110}"
    "free_pages h = free_pages demo_heap + 10" "free_sum h fl' = free_sum demo_heap fl + 10"
    "demo_span \<in> frees fl'" "10 \<le> sln (spans_of h) demo_span" "del_same demo_heap h"
    using Delete_inv [OF I] demo_facts(1,2) l by (auto simp: parked_def)
  have fp': "free_pages h = word_of_nat (free_sum h fl')" by (simp add: d(3,4) fp)
  have w: "10 \<le> span_length (spans_of h demo_span)" using d(6) by (simp add: sln_def word_le_nat_alt)
  have "pha_room sizeof_Span (span_allocator demo_heap) 1" using demo_facts(5) by (force simp: pha_room_def)
  then have room: "pha_room sizeof_Span (span_allocator h) 1" using d(7) by (simp add: del_same_def)
  from PH_New_best_fit [OF bump_cfg_ok d(2) fp' _ d(5) w room] d(1) show ?thesis by auto
qed

text \<open>
  C18. \<open>Split\<close> divides a span without a size class in two that are both held afterwards: the first \<open>n\<close>
  pages keep the old span, the rest is a fresh one that starts right after them.
\<close>

theorem Split_correct:
  assumes "kernel_ok (sys_cfg cfg)" and "ph_ok h A P" and "s \<in> A" and "0 < n" and "n < span_length (spans_of h s)"
    and "span_sizeclass (spans_of h s) = 0" and "pha_room sizeof_Span (span_allocator h) 1"
  shows "\<exists>lo h'. Split cfg s n h = Some (lo, h') \<and> lo \<notin> A \<and> ph_ok h' (insert lo A) P \<and>
    span_start (spans_of h' s) = span_start (spans_of h s) \<and> span_length (spans_of h' s) = n \<and>
    span_start (spans_of h' lo) = span_start (spans_of h s) + n \<and>
    span_length (spans_of h' lo) = span_length (spans_of h s) - n"
  using Split_fine [OF assms(1-4) _ assms(6)] assms(5,7) by (auto simp: word_less_nat_alt sln_def)

lemma Split_correct_witness:
  "\<exists>lo h'. Split bump_cfg demo_span 3 demo_heap = Some (lo, h') \<and> ph_ok h' {lo, demo_span} {100..<110} \<and>
     span_start (spans_of h' lo) = 103 \<and> span_length (spans_of h' lo) = 7"
proof -
  have "pha_room sizeof_Span (span_allocator demo_heap) 1" using demo_facts(5) by (force simp: pha_room_def)
  from Split_correct [OF bump_cfg_ok demo_heap_ok, of demo_span 3] this demo_facts(1) show ?thesis
    by (auto simp: zero_span_def)
qed

text \<open>
  After \<open>RegisterSizeClass\<close> the page map takes every page of the span to the span, as \<open>free\<close> needs
  it for pointers inside the span, and the map of all other pages is as before.
\<close>

lemma RegisterSizeClass_correct:
  assumes "ph_ok h A P" and "s \<in> A"
  shows "\<exists>h'. RegisterSizeClass s sc h = Some h' \<and> ph_ok h' A P \<and> span_sizeclass (spans_of h' s) = ucast sc \<and>
    (\<forall>k. k < 2 ^ 52 \<longrightarrow> GetDescriptor (word_of_nat k) h' =
      (if k \<in> pages_of (spans_of h) s then Some s else GetDescriptor (word_of_nat k) h))"
proof -
  obtain h' where r: "RegisterSizeClass s sc h = Some h'" "ph_ok h' A P" "registered s sc h h'"
    using Register_ok [OF assms] by blast
  have "GetDescriptor (word_of_nat k) h' = (if k \<in> pages_of (spans_of h) s then Some s else GetDescriptor (word_of_nat k) h)"
    if "k < 2 ^ 52" for k
  proof -
    have "pmap h' k = (if k \<in> pages_of (spans_of h) s then Some s else pmap h k)"
      using r(3) by (auto simp: registered_def)
    then show ?thesis using that by (simp add: pmap_def)
  qed
  then show ?thesis using r by (intro exI [of _ h']) (auto simp: registered_def)
qed

lemma RegisterSizeClass_correct_witness:
  "\<exists>h'. RegisterSizeClass demo_span 5 demo_heap = Some h' \<and> GetDescriptor 104 h' = Some demo_span"
proof -
  obtain h' where "RegisterSizeClass demo_span 5 demo_heap = Some h'"
    "\<forall>k. k < 2 ^ 52 \<longrightarrow> GetDescriptor (word_of_nat k) h' =
      (if k \<in> pages_of (spans_of demo_heap) demo_span then Some demo_span else GetDescriptor (word_of_nat k) demo_heap)"
    using RegisterSizeClass_correct [OF demo_heap_ok, of demo_span 5] by auto
  moreover from this(2) [rule_format, of 104] have "GetDescriptor 104 h' = Some demo_span"
    by (simp add: pages_of_def sst_def sln_def demo_facts(1))
  ultimately show ?thesis by blast
qed

text \<open>
  C19. Everything comes back: whatever spans a caller of the page heap holds, giving all of them back,
  in any order, runs through, and then the whole heap is free, its size on record in \<open>free_pages_\<close>.
\<close>

theorem give_everything_back:
  assumes "ph_held cfg h (set ss)" and "distinct ss"
  shows "\<exists>h' P. ph.del_all ss h = Some h' \<and> ph_ok h' {} P \<and> free_pages h' = word_of_nat (card P)"
proof -
  from ph.del_all_ok [OF assms subset_refl] obtain h' where
    h': "ph.del_all ss h = Some h'" "ph_held cfg h' {}" by auto
  then obtain P where ok: "ph_ok h' {} P" by (auto simp: ph_held_def)
  from ph_ok_held(6) [OF ok] h'(1) ok show ?thesis by auto
qed

lemma give_everything_back_witness:
  "\<exists>h' P. ph.del_all [demo_span] demo_heap = Some h' \<and> ph_ok h' {} P \<and> free_pages h' = word_of_nat (card P)"
proof -
  have "ph_held bump_cfg demo_heap (set [demo_span])"
    using demo_heap_ok demo_facts(2) bump_cfg_ok by (auto simp: ph_held_def)
  from give_everything_back [OF this] show ?thesis by simp
qed

end
