(* ===== verification/MallocDemo.thy ===== *)
theory MallocDemo
  imports MallocClient PageHeapProps
begin

text \<open>
  A concrete state of the whole allocator, for the witnesses: the heap of ten pages of \<open>PageHeapProps\<close>, held by
  a client as one large block at \<open>0x64000\<close>, the initialised central lists, and the cache of one thread.
\<close>

definition demo_tc :: tcmalloc where
  "demo_tc = (tc_static True)\<lparr>meta := meta demo_heap, span_allocator := span_allocator demo_heap,
     stacktrace_allocator := stacktrace_allocator demo_heap, spans_of := demo_spans, pagemap := pagemap demo_heap,
     system_bytes := 40960, tables := ferp_tables,
     central := \<lambda>cl. \<lparr>size_class = word_of_nat cl, counter = 0, tc_slots = \<lambda>_. (0, 0), used_slots = 0, cache_size = 1\<rparr>,
     tsd_inited := True, phinited := True, mth := (mthreads_init True)\<lparr>pthread_vals := \<lambda>_ _. 0x1000\<rparr>\<rparr>"

lemma demo_tc_spans: "spans_of demo_tc = demo_spans" "spans_of demo_heap = demo_spans"
proof -
  obtain pm where d: "demo_heap = demo_blank\<lparr>pagemap := pm\<rparr>" using demo_heap_map by blast
  show "spans_of demo_heap = demo_spans" unfolding d by (simp add: demo_blank_def)
  show "spans_of demo_tc = demo_spans" by (simp add: demo_tc_def)
qed

lemma demo_tc_ph: "ph_ok demo_tc {demo_span} {100..<110}"
proof -
  have f: "meta demo_tc = meta demo_heap" "span_allocator demo_tc = span_allocator demo_heap"
    "stacktrace_allocator demo_tc = stacktrace_allocator demo_heap" "spans_of demo_tc = spans_of demo_heap"
    "pagemap demo_tc = pagemap demo_heap" "system_bytes demo_tc = system_bytes demo_heap" "free_pages demo_tc = free_pages demo_heap"
    using demo_facts(3,4) demo_tc_spans by (simp_all add: demo_tc_def tc_static_def)
  have pm: "pmap demo_tc = pmap demo_heap" by (simp add: pmap_def GetDescriptor_def pagemap_get_def f fun_eq_iff)
  show ?thesis
    using demo_heap_ok unfolding ph_ok_def ph_inv_def mem_ok_def free_sum_def pm f .
qed

lemma demo_tc_out: "out_ok demo_tc {demo_span} Map.empty"
proof -
  have "span_ok demo_tc {} {demo_span} (\<lambda>_. []) (\<lambda>_. []) (\<lambda>_. []) Map.empty"
    unfolding span_ok_def
  proof (intro conjI)
    show "\<exists>P. ph_ok demo_tc (held (\<lambda>_. []) (\<lambda>_. []) {demo_span} \<union> {}) P"
      using demo_tc_ph by (auto simp: held_def members_def)
    show "\<forall>cl<170. size_class (central demo_tc cl) = word_of_nat cl \<and> dll (spans_of demo_tc) (EmptyHead cl) [] \<and>
        dll (spans_of demo_tc) (NonemptyHead cl) []"
      by (auto simp: demo_tc_spans dll_def demo_spans_def demo_span_def) (simp_all add: demo_tc_def)
    show "\<forall>s\<in>{demo_span}. large_span demo_tc s"
      by (simp add: large_span_def parked_def demo_tc_spans demo_spans_def zero_span_def)
  qed (auto simp: members_def outside_def demo_tc_def)
  then show ?thesis by (rule out_okI)
qed

lemma demo_tc_heap: "heap_ok demo_tc {0x1000} {demo_span} Map.empty (\<lambda>_. [])"
proof -
  have "place_ok {0x1000} demo_tc p []" for p
    by (cases p) (auto simp: slot_ok_def cache_list_ok_def demo_tc_def tc_static_def FL_Init_def)
  moreover have "slots_bound demo_tc" by (simp add: slots_bound_def demo_tc_def tc_static_def)
  moreover have "pooled Map.empty (\<lambda>_. []) Map.empty" by (simp add: pooled_def)
  ultimately show ?thesis using demo_tc_out unfolding heap_ok_def by auto
qed

definition demo_owned :: "u64 \<rightharpoonup> u64" where
  "demo_owned = [0x64000 \<mapsto> 40960]"

lemma demo_tc_serves: "serves demo_tc {0x1000} [0x64000 \<mapsto> {0x64000..<0x6E000}]"
proof -
  have b: "span_address demo_span demo_tc = 0x64000" "page_bytes_of (spans_of demo_tc) demo_span = {0x64000..<0x6E000}"
    by (simp_all add: span_address_def page_bytes_of_def sst_def sln_def demo_tc_spans demo_spans_def kPageShift_def push_bit_eq_mult)
  have "short demo_tc {0x1000}" by (simp add: short_def fl_len_def demo_tc_def tc_static_def FL_Init_def)
  then have "heap_state demo_tc {0x1000} {demo_span} Map.empty" using demo_tc_heap by (auto simp: heap_state_def)
  moreover have "block demo_tc {demo_span} Map.empty p B \<longleftrightarrow> [0x64000 \<mapsto> {0x64000..<0x6E000}] p = Some B" for p B
    by (auto simp: block_def b)
  ultimately show ?thesis unfolding serves_def by metis
qed

lemma demo_tc_holds: "holds demo_tc {0x1000} demo_owned"
  by (rule holdsI [OF demo_tc_serves]) (auto simp: demo_owned_def span64_def split: if_splits)

lemma demo_tc_may: "unat n + 4095 < 2 ^ 64 \<Longrightarrow> unat (pages n) \<le> 1000000 \<Longrightarrow> may_call bump_cfg demo_tc {0x1000} me n"
  "attached demo_tc {0x1000} me"
  by (auto simp: may_call_def attached_def unsampled_def in_reach_def within_limit_def kMaxHeapPages_def GetCacheIfPresent_def
      perftools_pthread_getspecific_def demo_tc_def tc_static_def mthreads_init_def bump_cfg_def)

lemma demo_tc_supplied: "supplied demo_tc"
  using demo_facts(5,6) by (simp add: supplied_def demo_tc_def)

end
