(* ===== verification/MallocProps.thy ===== *)
theory MallocProps
  imports MallocDemo
begin

text \<open>
  What the allocator promises its clients, over the live blocks and the sizes they asked for: the contracts
  of \<open>malloc\<close>, \<open>free\<close>, \<open>calloc\<close> and \<open>realloc\<close>, the safety of every run of the clients' machine, and the
  central layer below. The hypotheses are the documented behaviour of the kernel, a thread with a cache, a call
  that is not sampled, and room below the model's bound on the heap; a call ends without a result only
  when the page heap may have to ask for metadata that the kernel does not give.
\<close>

definition kept :: "(u64 \<rightharpoonup> u64) \<Rightarrow> 'a tcmalloc_scheme \<Rightarrow> 'a tcmalloc_scheme \<Rightarrow> bool" where
  "kept live h h' \<longleftrightarrow> (\<forall>p n b. live p = Some n \<longrightarrow> unat b \<in> span64 p n \<longrightarrow> mem h' b = mem h b)"

lemma kept_owned:
  assumes "untouched own h h'" "\<And>p n. live p = Some n \<Longrightarrow> \<exists>B. own p = Some B \<and> span64 p n \<subseteq> B"
  shows "kept live h h'"
  unfolding kept_def
proof (intro allI impI)
  fix p n and b :: u64 assume p: "live p = Some n" "unat b \<in> span64 p n"
  obtain B where "own p = Some B" "span64 p n \<subseteq> B" using assms(2) [OF p(1)] by blast
  then show "mem h' b = mem h b" using untouchedD(1) [OF assms(1)] p(2) by blast
qed

lemma holds_owned:
  assumes "holds h C live"
  obtains own where "serves h C own" "\<And>p. own p = None \<longleftrightarrow> live p = None"
    "\<And>p n. live p = Some n \<Longrightarrow> \<exists>B. own p = Some B \<and> span64 p n \<subseteq> B"
proof (rule holdsE [OF assms])
  fix own assume o: "serves h C own" "\<And>p. own p = None \<longleftrightarrow> live p = None" "\<And>p n B. live p = Some n \<Longrightarrow> own p = Some B \<Longrightarrow> span64 p n \<subseteq> B"
  have "\<exists>B. own p = Some B \<and> span64 p n \<subseteq> B" if "live p = Some n" for p n
    using o(2) [of p] o(3) [OF that] that by auto
  then show thesis using that o(1,2) by blast
qed

lemma holds_gained:
  assumes o: "\<And>p. own p = None \<longleftrightarrow> live p = None" "\<And>p n. live p = Some n \<Longrightarrow> \<exists>B. own p = Some B \<and> span64 p n \<subseteq> B"
    and S: "serves h' C own'" and g: "gains own n r own'"
  shows "holds h' C (if r = 0 then live else live(r \<mapsto> n))"
    "r \<noteq> 0 \<Longrightarrow> live r = None \<and> (\<forall>p m. live p = Some m \<longrightarrow> span64 p m \<inter> span64 r n = {})"
proof -
  have o2: "span64 p n \<subseteq> B" if "live p = Some n" "own p = Some B" for p n B using o(2) [OF that(1)] that(2) by simp
  show "holds h' C (if r = 0 then live else live(r \<mapsto> n))" by (rule holds_gains [OF S g o(1) o2])
  assume r: "r \<noteq> 0"
  then obtain B where B: "own r = None" "span64 r n \<subseteq> B" "\<And>q A. own q = Some A \<Longrightarrow> A \<inter> B = {}"
    using g by (auto simp: gains_def span64_def)
  have "span64 p m \<inter> span64 r n = {}" if p: "live p = Some m" for p m
  proof -
    obtain A where "own p = Some A" "span64 p m \<subseteq> A" using o(2) [OF p] by blast
    then show ?thesis using B(2,3) by blast
  qed
  then show "live r = None \<and> (\<forall>p m. live p = Some m \<longrightarrow> span64 p m \<inter> span64 r n = {})" using o(1) B(1) by blast
qed

section \<open>The entry points\<close>

text \<open>
  C2. \<open>malloc\<close> gives fresh memory: it returns, unless the kernel denies it metadata, either null with the
  blocks as they were, or a block of the size asked for that shares no byte with a live block; no byte
  of a live block changes.
\<close>

theorem malloc_contract:
  assumes "kernel_ok (sys_cfg cfg)" "holds h C live" "may_call cfg h C me n"
  shows "malloc cfg me n h = None \<and> \<not> supplied h \<or>
    (\<exists>r h'. malloc cfg me n h = Some (r, h') \<and> holds h' C (if r = 0 then live else live(r \<mapsto> n)) \<and> kept live h h' \<and>
      (r \<noteq> 0 \<longrightarrow> live r = None \<and> (\<forall>p m. live p = Some m \<longrightarrow> span64 p m \<inter> span64 r n = {})))"
proof (rule holds_owned [OF assms(2)])
  fix own assume o: "serves h C own" "\<And>p. own p = None \<longleftrightarrow> live p = None"
    "\<And>p n. live p = Some n \<Longrightarrow> \<exists>B. own p = Some B \<and> span64 p n \<subseteq> B"
  from malloc_serves [OF assms(1) o(1) assms(3)] show ?thesis
  proof (elim disjE exE conjE)
    fix r h' own' assume m: "malloc cfg me n h = Some (r, h')" "serves h' C own'" "gains own n r own'" "untouched own h h'"
    show ?thesis using m(1) holds_gained [OF o(2,3) m(2,3)] kept_owned [OF m(4) o(3)] by blast
  qed blast
qed

lemma malloc_contract_witness:
  "\<exists>r h'. malloc bump_cfg 7 100 demo_tc = Some (r, h') \<and> holds h' {0x1000} (if r = 0 then demo_owned else demo_owned(r \<mapsto> 100)) \<and>
     kept demo_owned demo_tc h'"
proof -
  have "may_call bump_cfg demo_tc {0x1000} 7 100" by (rule demo_tc_may) (simp_all add: pages_unat)
  from malloc_contract [OF bump_cfg_ok demo_tc_holds this] show ?thesis using demo_tc_supplied by blast
qed

text \<open>
  C3. \<open>free\<close> of a live block always returns, never at an assertion: the block is gone, all others keep their
  bytes. \<open>free\<close> of null changes nothing but the trace of the hooks.
\<close>

theorem free_contract:
  assumes "holds h C live" "attached h C me" "live p = Some n"
  shows "(\<exists>h'. free me p h = Some h' \<and> holds h' C (live(p := None)) \<and> kept (live(p := None)) h h') \<and>
    free me 0 h = Some (InvokeDeleteHook 0 h)"
proof (rule holds_owned [OF assms(1)])
  fix own assume o: "serves h C own" "\<And>p. own p = None \<longleftrightarrow> live p = None"
    "\<And>p n. live p = Some n \<Longrightarrow> \<exists>B. own p = Some B \<and> span64 p n \<subseteq> B"
  obtain B where B: "own p = Some B" using o(3) [OF assms(3)] by blast
  obtain h' where h': "free me p h = Some h'" "serves h' C (own(p := None))" "untouched (own(p := None)) h h'"
    using free_serves [OF o(1) assms(2) B] by blast
  have all: "\<exists>B. (own(p := None)) q = Some B \<and> span64 q n \<subseteq> B" if "(live(p := None)) q = Some n" for q n
    using o(3) [of q n] that by (auto split: if_splits)
  have "holds h' C (live(p := None))"
  proof (rule holdsI [OF h'(2)])
    show "(own(p := None)) q = None \<longleftrightarrow> (live(p := None)) q = None" for q using o(2) by simp
    show "span64 q n \<subseteq> D" if "(live(p := None)) q = Some n" "(own(p := None)) q = Some D" for q n D
      using all [OF that(1)] that(2) by simp
  qed
  moreover have "kept (live(p := None)) h h'" by (rule kept_owned [OF h'(3) all])
  moreover have "free me 0 h = Some (InvokeDeleteHook 0 h)" unfolding free_def by (rule do_free_null)
  ultimately show ?thesis using h'(1) by blast
qed

lemma free_contract_witness:
  "\<exists>h'. free 7 0x64000 demo_tc = Some h' \<and> holds h' {0x1000} (demo_owned(0x64000 := None))"
proof -
  have "demo_owned 0x64000 = Some 40960" by (simp add: demo_owned_def)
  from free_contract [OF demo_tc_holds demo_tc_may(2) this] show ?thesis by blast
qed

text \<open>
  C5. \<open>calloc\<close> refuses exactly the requests whose product does not fit in 64 bits; otherwise a block that it
  returns has room for \<open>n\<close> elements, is zero throughout, and no live block changes.
\<close>

theorem calloc_contract:
  assumes "kernel_ok (sys_cfg cfg)" "holds h C live" "may_call cfg h C me (n * e)"
  shows "if 2 ^ 64 \<le> unat n * unat e then calloc cfg me n e h = Some (0, h)
    else calloc cfg me n e h = None \<and> \<not> supplied h \<or>
      (\<exists>r h'. calloc cfg me n e h = Some (r, h') \<and> holds h' C (if r = 0 then live else live(r \<mapsto> n * e)) \<and> kept live h h' \<and>
        (r \<noteq> 0 \<longrightarrow> live r = None \<and> unat (n * e) = unat n * unat e \<and> (\<forall>i<unat n * unat e. mem h' (r + of_nat i) = 0)))"
proof (cases "2 ^ 64 \<le> unat n * unat e")
  case True
  then show ?thesis using calloc_refuses by auto
next
  case False
  then have fit: "unat n * unat e < 2 ^ 64" by simp
  then have sz: "unat (n * e) = unat n * unat e" by (simp add: unat_word_ariths)
  have "calloc cfg me n e h = None \<and> \<not> supplied h \<or>
      (\<exists>r h'. calloc cfg me n e h = Some (r, h') \<and> holds h' C (if r = 0 then live else live(r \<mapsto> n * e)) \<and> kept live h h' \<and>
        (r \<noteq> 0 \<longrightarrow> live r = None \<and> unat (n * e) = unat n * unat e \<and> (\<forall>i<unat n * unat e. mem h' (r + of_nat i) = 0)))"
  proof (rule holds_owned [OF assms(2)])
    fix own assume o: "serves h C own" "\<And>p. own p = None \<longleftrightarrow> live p = None"
      "\<And>p n. live p = Some n \<Longrightarrow> \<exists>B. own p = Some B \<and> span64 p n \<subseteq> B"
    from calloc_serves [OF assms(1) o(1) assms(3) fit] show ?thesis
    proof (elim disjE exE conjE)
      fix r h' own' assume m: "calloc cfg me n e h = Some (r, h')" "serves h' C own'" "gains own (n * e) r own'" "untouched own h h'"
        "r \<noteq> 0 \<longrightarrow> (\<forall>i<unat n * unat e. mem h' (r + of_nat i) = 0)"
      show ?thesis using m(1,5) sz holds_gained [OF o(2,3) m(2,3)] kept_owned [OF m(4) o(3)] by blast
    qed blast
  qed
  then show ?thesis using False by simp
qed

lemma calloc_contract_witness:
  "\<exists>r h'. calloc bump_cfg 7 10 10 demo_tc = Some (r, h') \<and> (r \<noteq> 0 \<longrightarrow> (\<forall>i<100. mem h' (r + of_nat i) = 0))"
proof -
  have "may_call bump_cfg demo_tc {0x1000} 7 (10 * 10)" by (rule demo_tc_may) (simp_all add: pages_unat)
  from calloc_contract [OF bump_cfg_ok demo_tc_holds this] show ?thesis using demo_tc_supplied by auto
qed

text \<open>
  C4. \<open>realloc\<close> of a live block keeps its contents: unless it fails with the block left alone, the block
  it returns has the new size and starts with the old block's bytes, up to the smaller of the two sizes; every other
  block is kept.
\<close>

theorem realloc_contract:
  assumes "kernel_ok (sys_cfg cfg)" "holds h C live" "may_call cfg h C me n" "live p = Some m" "n \<noteq> 0"
  shows "realloc cfg me p n h = None \<and> \<not> supplied h \<or>
    (\<exists>r h'. realloc cfg me p n h = Some (r, h') \<and> holds h' C (if r = 0 then live else (live(p := None))(r \<mapsto> n)) \<and>
      kept (if r = 0 then live else live(p := None)) h h' \<and>
      (r \<noteq> 0 \<longrightarrow> (\<forall>i<min (unat m) (unat n). mem h' (r + of_nat i) = mem h (p + of_nat i))))"
proof (rule holds_owned [OF assms(2)])
  fix own assume o: "serves h C own" "\<And>p. own p = None \<longleftrightarrow> live p = None"
    "\<And>p n. live p = Some n \<Longrightarrow> \<exists>B. own p = Some B \<and> span64 p n \<subseteq> B"
  obtain D where D: "own p = Some D" "span64 p m \<subseteq> D" using o(3) [OF assms(4)] by blast
  have p0: "p \<noteq> 0" using serves_word [OF o(1) D(1)] by blast
  have all: "\<exists>B. (own(p := None)) q = Some B \<and> span64 q n \<subseteq> B" if "(live(p := None)) q = Some n" for q n
    using o(3) [of q n] that by (auto split: if_splits)
  have holds: "holds h' C (if r = 0 then live else (live(p := None))(r \<mapsto> n))" if "realloc cfg me p n h = Some (r, h')" for r h'
    using client_step_holds [OF assms(1) step_realloc [where live = live and p = p and m = m, OF assms(3-5) that]] assms(2) unfolding fst_conv snd_conv by blast
  from realloc_serves [OF assms(1) o(1) assms(3) D(1) assms(5)] show ?thesis
  proof (elim disjE exE conjE)
    fix r h' assume m: "realloc cfg me p n h = Some (r, h')" "r = 0" "untouched own h h'"
    then show ?thesis using holds [OF m(1)] kept_owned [OF m(3) o(3)] by auto
  next
    fix r h' assume m: "realloc cfg me p n h = Some (r, h')" "r = p" "h' = h"
    then show ?thesis using holds [OF m(1)] p0 by (auto simp: kept_def)
  next
    fix r h' B assume m: "realloc cfg me p n h = Some (r, h')" "r \<noteq> 0" "untouched (own(p := None)) h h'"
      "\<forall>i<unat n. unat p + i \<in> D \<longrightarrow> mem h' (r + of_nat i) = mem h (p + of_nat i)"
    have "unat p + i \<in> D" if "i < unat m" for i using D(2) that by (auto simp: span64_def)
    then have "\<forall>i<min (unat m) (unat n). mem h' (r + of_nat i) = mem h (p + of_nat i)" using m(4) by simp
    moreover have "kept (live(p := None)) h h'" by (rule kept_owned [OF m(3) all])
    ultimately have "holds h' C (if r = 0 then live else (live(p := None))(r \<mapsto> n)) \<and> kept (if r = 0 then live else live(p := None)) h h' \<and>
        (r \<noteq> 0 \<longrightarrow> (\<forall>i<min (unat m) (unat n). mem h' (r + of_nat i) = mem h (p + of_nat i)))"
      using m(2) holds [OF m(1)] by simp
    then show ?thesis using m(1) by blast
  qed blast
qed

lemma realloc_contract_witness:
  "\<exists>r h'. realloc bump_cfg 7 0x64000 100 demo_tc = Some (r, h') \<and>
     (r \<noteq> 0 \<longrightarrow> (\<forall>i<100. mem h' (r + of_nat i) = mem demo_tc (0x64000 + of_nat i)))"
proof -
  have may: "may_call bump_cfg demo_tc {0x1000} 7 100" by (rule demo_tc_may) (simp_all add: pages_unat)
  have live: "demo_owned 0x64000 = Some 40960" by (simp add: demo_owned_def)
  from realloc_contract [OF bump_cfg_ok demo_tc_holds may live] show ?thesis using demo_tc_supplied by auto
qed

section \<open>Runs of the clients\<close>

text \<open>
  C1. After any interleaving of \<open>malloc\<close>, \<open>calloc\<close>, \<open>realloc\<close>, \<open>free\<close> and stores into live blocks by any number of
  threads, no live block is at null, all lie below the end of the address space, and no two overlap.
\<close>

theorem live_blocks_apart:
  assumes "kernel_ok (sys_cfg cfg)" "holds h C live" "(client_step cfg C)\<^sup>*\<^sup>* (h, live) (h', live')" "live' p = Some n"
  shows "p \<noteq> 0 \<and> unat p + unat n \<le> 2 ^ 64 \<and> (\<forall>q m. live' q = Some m \<longrightarrow> q \<noteq> p \<longrightarrow> span64 p n \<inter> span64 q m = {})"
proof -
  have H: "holds h' C live'" using client_run_holds [OF assms(1,3)] assms(2) by simp
  show ?thesis using holds_inside(1,2) [OF H assms(4)] holds_apart [OF H assms(4)] by auto
qed

lemma live_blocks_apart_witness:
  "\<exists>r h'. malloc bump_cfg 7 100 demo_tc = Some (r, h') \<and>
     (\<forall>q m. (if r = 0 then demo_owned else demo_owned(r \<mapsto> 100)) q = Some m \<longrightarrow> q \<noteq> 0x64000 \<longrightarrow> span64 0x64000 40960 \<inter> span64 q m = {})"
proof -
  have may: "may_call bump_cfg demo_tc {0x1000} 7 100" by (rule demo_tc_may) (simp_all add: pages_unat)
  obtain own where own: "serves demo_tc {0x1000} own" "own 0x64000 \<noteq> None" using demo_tc_serves by fastforce
  obtain r h' own' where m: "malloc bump_cfg 7 100 demo_tc = Some (r, h')" "gains own 100 r own'"
    using malloc_serves [OF bump_cfg_ok own(1) may] demo_tc_supplied by blast
  have "r \<noteq> 0x64000" using m(2) own(2) by (auto simp: gains_def)
  then have "(if r = 0 then demo_owned else demo_owned(r \<mapsto> 100)) 0x64000 = Some 40960" by (simp add: demo_owned_def)
  from live_blocks_apart [OF bump_cfg_ok demo_tc_holds r_into_rtranclp [where r = "client_step bump_cfg {0x1000}", OF step_malloc [OF may m(1)]] this]
  show ?thesis using m(1) by blast
qed

text \<open>
  C6. The allocator's data stay well formed in every such run: the page heap's spans tile its pages, each object of each
  size class is in exactly one of the client's hands, a span's free list, a transfer cache slot or a thread cache, and the
  lengths the code keeps are those of the lists.
\<close>

theorem allocator_well_formed:
  assumes "kernel_ok (sys_cfg cfg)" "holds h C live" "(client_step cfg C)\<^sup>*\<^sup>* (h, live) (h', live')"
  shows "\<exists>L U ls. heap_ok h' C L U ls \<and> short h' C \<and> dom live' = dom U \<union> (\<lambda>s. span_address s h') ` L"
proof (rule holdsE)
  show "holds h' C live'" using client_run_holds [OF assms(1,3)] assms(2) by simp
next
  fix own assume o: "serves h' C own" "\<And>p. own p = None \<longleftrightarrow> live' p = None"
  obtain L U ls where H: "heap_ok h' C L U ls" "short h' C" "\<And>p B. own p = Some B \<longleftrightarrow> block h' L U p B"
    using o(1) by (auto simp: serves_def heap_state_def)
  have "p \<in> dom live' \<longleftrightarrow> p \<in> dom U \<union> (\<lambda>s. span_address s h') ` L" for p
  proof -
    have "p \<in> dom live' \<longleftrightarrow> (\<exists>B. block h' L U p B)" using o(2) [of p] H(3) [of p] by (metis domIff not_Some_eq)
    also have "\<dots> \<longleftrightarrow> p \<in> dom U \<union> (\<lambda>s. span_address s h') ` L" unfolding block_def by blast
    finally show ?thesis .
  qed
  then show ?thesis using H(1,2) by blast
qed

lemma allocator_well_formed_witness:
  "\<exists>L U ls. heap_ok (demo_tc\<lparr>mem := (mem demo_tc)(0x64005 := 9)\<rparr>) {0x1000} L U ls \<and> {0x64000} = dom U \<union> (\<lambda>s. span_address s demo_tc) ` L"
proof -
  have "client_step bump_cfg {0x1000} (demo_tc, demo_owned) (demo_tc\<lparr>mem := (mem demo_tc)(0x64000 + of_nat 5 := 9)\<rparr>, demo_owned)"
    by (rule step_store [of demo_owned _ 40960]) (simp_all add: demo_owned_def)
  from allocator_well_formed [OF bump_cfg_ok demo_tc_holds r_into_rtranclp [where r = "client_step bump_cfg {0x1000}", OF this]]
  show ?thesis by (simp add: demo_owned_def span_address_def) blast
qed

section \<open>The central layer\<close>

text \<open>
  C23. A batch taken from the central cache of a class is a null-terminated list of distinct objects that no one else
  has, at most as many as asked for, with the tail reported right; and \<open>InsertRange\<close> takes it back whole.
\<close>

theorem RemoveRange_InsertRange:
  assumes "kernel_ok (sys_cfg cfg)" "heap_ok h C L U ls" "1 \<le> cl" "cl \<le> 168" "within_limit 1 h" "0 < num"
  shows "RemoveRange cl cfg num h = None \<and> \<not> supplied h \<or>
    (\<exists>p t n h1 xs. RemoveRange cl cfg num h = Some (p, t, n, h1) \<and> sll (mem h1) p xs \<and> n = int (length xs) \<and> n \<le> num \<and>
      distinct xs \<and> (\<forall>x\<in>set xs. U x = None) \<and>
      (xs = [] \<or> t = last xs \<and> (\<exists>h2 ls'. InsertRange cl p t n h1 = Some h2 \<and> heap_ok h2 C L U ls')))"
  using RemoveRange_ok [OF assms]
proof (elim disjE exE conjE)
  fix p t n h1 xs ls1 assume r: "RemoveRange cl cfg num h = Some (p, t, n, h1)" "sll (mem h1) p xs" "n = int (length xs)" "n \<le> num"
    "xs \<noteq> [] \<longrightarrow> t = last xs" "distinct xs" "\<forall>x\<in>set xs. U x = None" "heap_ok h1 C L (grant_objs U cl xs) ls1"
  have "\<exists>h2 ls'. InsertRange cl p t n h1 = Some h2 \<and> heap_ok h2 C L U ls'" if x: "xs \<noteq> []"
  proof -
    have d: "drop_objs (grant_objs U cl xs) xs = U" using r(7) by (auto simp: drop_objs_def grant_objs_def fun_eq_iff)
    have t: "t = last xs" and c: "cl < 170" using r(5) x assms(4) by simp_all
    have g: "grant_objs U cl xs y = Some cl" if "y \<in> set xs" for y using that by (simp add: grant_objs_def)
    show ?thesis using InsertRange_ok [OF r(8) c x r(2,6) g r(3)] unfolding d t by blast
  qed
  then show ?thesis using r by blast
qed blast

lemma RemoveRange_InsertRange_witness:
  "\<exists>p t n h1 xs. RemoveRange 1 bump_cfg 32 demo_tc = Some (p, t, n, h1) \<and> sll (mem h1) p xs \<and> n = int (length xs) \<and> n \<le> 32"
proof -
  have "within_limit 1 demo_tc" using demo_tc_may(1) [of 100] by (simp add: may_call_def in_reach_def kMaxSize_def kPageSize_def pages_unat)
  from RemoveRange_InsertRange [OF bump_cfg_ok demo_tc_heap _ _ this, of 1 32] show ?thesis using demo_tc_supplied by auto
qed

text \<open>
  C24. \<open>Populate\<close> returns: its loop over the objects of a new span, whose bound is an address computed with wrap-around, ends
  for every class, and the span, its list of objects and the counts are well formed.
\<close>

theorem Populate_returns:
  assumes "kernel_ok (sys_cfg cfg)" "out_ok h L out" "1 \<le> cl" "cl \<le> 168" "within_limit 1 h" "supplied h"
  shows "\<exists>h'. Populate cl cfg h = Some h' \<and> out_ok h' L out \<and> keeps out L h h'"
  using assms(2)
proof (rule out_okE)
  fix es ns fo assume "span_ok h {} L es ns fo out"
  from Populate_ok [OF assms(1) this assms(3-5)] assms(6) show ?thesis using out_okI by blast
qed

lemma Populate_returns_witness: "\<exists>h'. Populate 5 bump_cfg demo_tc = Some h' \<and> out_ok h' {demo_span} Map.empty"
proof -
  have "within_limit 1 demo_tc" using demo_tc_may(1) [of 100] by (simp add: may_call_def in_reach_def kMaxSize_def kPageSize_def pages_unat)
  from Populate_returns [OF bump_cfg_ok demo_tc_out _ _ this demo_tc_supplied, of 5] show ?thesis by auto
qed

end
