(* ===== verification/MallocStart.thy ===== *)
theory MallocStart
  imports MallocDemo
begin

text \<open>
  The start of the program (\<open>InitModule\<close>, \<open>CreateCache\<close>, \<open>InitTSD\<close> of \<open>tcmalloc.cpp\<close>): from zeroed static storage, the first call into the allocator builds the tables, the page
  heap, the central lists and a first cache; after \<open>InitTSD\<close> the thread's next call finds that cache. The state is then
  one that serves clients who hold nothing.
\<close>

section \<open>The module\<close>

lemma object_size_ThreadCache: "object_size sizeof_ThreadCache"
  by (simp add: object_size_def sizeof_ThreadCache_def kAlignedSize_def kAlignment_def kAlignShift_def kAllocIncrement_def)

lemma pha_ok_forget: "pha_ok sz a U M \<Longrightarrow> pha_ok sz a {} M"
  unfolding pha_ok_def objects_ok_def by (elim exE, rule_tac x = xs in exI) simp

lemma sys_step_mapped: "sys_step ms ms' \<Longrightarrow> bytes_mapped ms \<subseteq> bytes_mapped ms'"
  by (simp add: sys_step_def)

lemma PHA_Init_span_ok:
  assumes K: "kernel_ok (sys_cfg cfg)" and S: "sys_ok (sys (meta h))" and run: "PHA_Init_span cfg h = Some h'"
  shows "\<exists>a ms M. h' = h\<lparr>span_allocator := a, meta := ms\<rparr> \<and> sys_step (meta h) ms \<and> pha_ok sizeof_Span a {} M \<and> M \<subseteq> bytes_mapped ms"
proof -
  obtain a0 m0 r1 a1 m1 r2 a2 m2 where r: "PHA_Init (sys_cfg cfg) sizeof_Span (span_allocator h) (meta h) = Some (a0, m0)"
    "PHA_New (sys_cfg cfg) sizeof_Span a0 m0 = Some (r1, a1, m1)" "PHA_New (sys_cfg cfg) sizeof_Span a1 m1 = Some (r2, a2, m2)"
    "h' = h\<lparr>span_allocator := a2, meta := m2\<rparr>"
    using run by (auto simp: PHA_Init_span_def option_monad)
  obtain M0 where 0: "sys_step (meta h) m0" "M0 \<subseteq> bytes_mapped m0" "pha_ok sizeof_Span a0 {} M0"
    using PHA_Init_ok [OF K S object_size_Span r(1)] by blast
  have S0: "sys_ok (sys m0)" using 0(1) S by (simp add: sys_step_def)
  obtain G1 where 1: "sys_step m0 m1" "G1 \<subseteq> bytes_mapped m1" "pha_ok sizeof_Span a1 {r1} (M0 \<union> G1)"
    using PHA_New_ok [OF K S0 0(3,2) object_size_Span r(2)] by auto
  have S1: "sys_ok (sys m1)" using 1(1) S0 by (simp add: sys_step_def)
  have M1: "M0 \<union> G1 \<subseteq> bytes_mapped m1" using 0(2) 1(2) sys_step_mapped [OF 1(1)] by blast
  obtain G2 where 2: "sys_step m1 m2" "G2 \<subseteq> bytes_mapped m2" "pha_ok sizeof_Span a2 {r2, r1} (M0 \<union> G1 \<union> G2)"
    using PHA_New_ok [OF K S1 1(3) M1 object_size_Span r(3)] by auto
  have "M0 \<union> G1 \<union> G2 \<subseteq> bytes_mapped m2" using M1 2(2) sys_step_mapped [OF 2(1)] by blast
  moreover have "sys_step (meta h) m2" using 0(1) 1(1) 2(1) sys_step_trans by blast
  ultimately show ?thesis using r(4) pha_ok_forget [OF 2(3)] by blast
qed

lemma Central_Inits_ok:
  "distinct cls \<Longrightarrow> \<exists>\<sigma> ce. Central_Inits cls h = Some (h\<lparr>spans_of := \<sigma>, central := ce\<rparr>) \<and>
     (\<forall>cl\<in>set cls. dll \<sigma> (EmptyHead cl) [] \<and> dll \<sigma> (NonemptyHead cl) [] \<and> size_class (ce cl) = word_of_nat cl \<and>
        used_slots (ce cl) = 0 \<and> cache_size (ce cl) = 1) \<and>
     (\<forall>x. x \<notin> EmptyHead ` set cls \<union> NonemptyHead ` set cls \<longrightarrow> \<sigma> x = spans_of h x) \<and> (\<forall>cl. cl \<notin> set cls \<longrightarrow> ce cl = central h cl)"
proof (induction cls arbitrary: h)
  case Nil
  show ?case by (rule exI [of _ "spans_of h"], rule exI [of _ "central h"]) simp
next
  case (Cons cl cls)
  define \<sigma>1 where "\<sigma>1 = (spans_of h)(EmptyHead cl := (spans_of h (EmptyHead cl))\<lparr>span_next := EmptyHead cl, span_prev := EmptyHead cl\<rparr>,
    NonemptyHead cl := (spans_of h (NonemptyHead cl))\<lparr>span_next := NonemptyHead cl, span_prev := NonemptyHead cl\<rparr>)"
  define ce1 where "ce1 = (central h)(cl := (central h cl)\<lparr>size_class := word_of_nat cl, counter := 0, cache_size := 1, used_slots := 0\<rparr>)"
  let ?h1 = "h\<lparr>spans_of := \<sigma>1, central := ce1\<rparr>"
  have init: "Central_Init cl h = Some ?h1"
    by (simp add: Central_Init_def on_spans_def DLL_Init_def wr_def ASSERT_def \<sigma>1_def ce1_def)
  from Cons.prems have d: "distinct cls" "cl \<notin> set cls" by simp_all
  from Cons.IH [OF d(1), of ?h1] obtain \<sigma> ce where s: "Central_Inits cls ?h1 = Some (?h1\<lparr>spans_of := \<sigma>, central := ce\<rparr>)"
    "\<forall>cl\<in>set cls. dll \<sigma> (EmptyHead cl) [] \<and> dll \<sigma> (NonemptyHead cl) [] \<and> size_class (ce cl) = word_of_nat cl \<and>
        used_slots (ce cl) = 0 \<and> cache_size (ce cl) = 1"
    "\<forall>x. x \<notin> EmptyHead ` set cls \<union> NonemptyHead ` set cls \<longrightarrow> \<sigma> x = \<sigma>1 x" "\<forall>cl. cl \<notin> set cls \<longrightarrow> ce cl = ce1 cl" by auto
  have "\<sigma> (EmptyHead cl) = \<sigma>1 (EmptyHead cl)" "\<sigma> (NonemptyHead cl) = \<sigma>1 (NonemptyHead cl)" "ce cl = ce1 cl" using s(3,4) d(2) by auto
  then have "dll \<sigma> (EmptyHead cl) [] \<and> dll \<sigma> (NonemptyHead cl) [] \<and> size_class (ce cl) = word_of_nat cl \<and> used_slots (ce cl) = 0 \<and> cache_size (ce cl) = 1"
    by (simp add: dll_def \<sigma>1_def ce1_def)
  moreover have "\<forall>x. x \<notin> EmptyHead ` set (cl # cls) \<union> NonemptyHead ` set (cl # cls) \<longrightarrow> \<sigma> x = spans_of h x"
    using s(3) by (simp add: \<sigma>1_def)
  moreover have "\<forall>c. c \<notin> set (cl # cls) \<longrightarrow> ce c = central h c" using s(4) by (simp add: ce1_def)
  moreover have "Central_Inits (cl # cls) h = Some (h\<lparr>spans_of := \<sigma>, central := ce\<rparr>)" using init s(1) by simp
  ultimately show ?case using s(2) by (intro exI [of _ \<sigma>] exI [of _ ce]) auto
qed

text \<open>The statics that \<open>InitModule\<close> leaves alone.\<close>

definition same_threads :: "'a tcmalloc_scheme \<Rightarrow> 'a tcmalloc_scheme \<Rightarrow> bool" where
  "same_threads h h' \<longleftrightarrow> caches h' = caches h \<and> thread_heaps h' = thread_heaps h \<and> tsd_inited h' = tsd_inited h \<and>
     heap_key h' = heap_key h \<and> mth h' = mth h"

lemma InitModule_run:
  assumes n: "\<not> phinited h" and t: "tables h = zero_tables" and run: "InitModule cfg h = Some h'"
  obtains a1 m1 h2 a3 m3 \<sigma> h5 where
    "PHA_Init (sys_cfg cfg) sizeof_ThreadCache (threadheap_allocator h) (meta h) = Some (a1, m1)"
    "PHA_Init_span cfg (h\<lparr>tables := ferp_tables, threadheap_allocator := a1, meta := m1\<rparr>) = Some h2"
    "PHA_Init (sys_cfg cfg) sizeof_StackTrace (stacktrace_allocator h2) (meta h2) = Some (a3, m3)"
    "DLL_Init SampledHead (spans_of h2) = Some \<sigma>"
    "Option.bind (Central_Inits [0..<kNumClasses] (h2\<lparr>stacktrace_allocator := a3, meta := m3, spans_of := \<sigma>\<rparr>)) (PageHeap_init cfg) = Some h5"
    "h' = h5\<lparr>phinited := True\<rparr>"
  using run unfolding InitModule_def if_not_P [OF n] t InitSizeClasses_ferp bind.bind_lunit Let_def
  by (auto simp: bind_eq_Some_conv on_spans_def)

lemma InitModule_ok:
  assumes K: "kernel_ok (sys_cfg cfg)" and n: "\<not> phinited h" and t: "tables h = zero_tables" and S: "sys_ok (sys (meta h))"
    and rc: "0 \<le> race_counter h" and run: "InitModule cfg h = Some h'" and root: "root_3 (pagemap h') \<noteq> None"
  shows "heap_ok h' {} {} Map.empty (\<lambda>_. [])" "\<exists>Z. pha_ok sizeof_ThreadCache (threadheap_allocator h') {} Z \<and> Z \<subseteq> bytes_mapped (meta h')"
    "phinited h'" "same_threads h h'"
proof -
  obtain a1 m1 h2 a3 m3 \<sigma> h5 where r:
    "PHA_Init (sys_cfg cfg) sizeof_ThreadCache (threadheap_allocator h) (meta h) = Some (a1, m1)"
    "PHA_Init_span cfg (h\<lparr>tables := ferp_tables, threadheap_allocator := a1, meta := m1\<rparr>) = Some h2"
    "PHA_Init (sys_cfg cfg) sizeof_StackTrace (stacktrace_allocator h2) (meta h2) = Some (a3, m3)"
    "DLL_Init SampledHead (spans_of h2) = Some \<sigma>"
    "Option.bind (Central_Inits [0..<kNumClasses] (h2\<lparr>stacktrace_allocator := a3, meta := m3, spans_of := \<sigma>\<rparr>)) (PageHeap_init cfg) = Some h5"
    "h' = h5\<lparr>phinited := True\<rparr>" by (rule InitModule_run [OF n t run])
  show "phinited h'" by (simp add: r(6))
  let ?h1 = "h\<lparr>tables := ferp_tables, threadheap_allocator := a1, meta := m1\<rparr>"
  obtain Z where Z: "sys_step (meta h) m1" "Z \<subseteq> bytes_mapped m1" "pha_ok sizeof_ThreadCache a1 {} Z"
    using PHA_Init_ok [OF K S object_size_ThreadCache r(1)] by blast
  have S1: "sys_ok (sys (meta ?h1))" using Z(1) S by (simp add: sys_step_def)
  obtain a2 m2 M where M: "h2 = ?h1\<lparr>span_allocator := a2, meta := m2\<rparr>" "sys_step m1 m2" "pha_ok sizeof_Span a2 {} M" "M \<subseteq> bytes_mapped m2"
    using PHA_Init_span_ok [OF K S1 r(2)] by auto
  have S2: "sys_ok (sys (meta h2))" using M(1,2) S1 by (simp add: sys_step_def)
  obtain N where N: "sys_step m2 m3" "N \<subseteq> bytes_mapped m3 - bytes_mapped m2" "pha_ok sizeof_StackTrace a3 {} N"
    using PHA_Init_ok [OF K S2 object_size_StackTrace r(3)] M(1) by auto
  let ?h3 = "h2\<lparr>stacktrace_allocator := a3, meta := m3, spans_of := \<sigma>\<rparr>"
  obtain \<sigma>4 ce where C: "Central_Inits [0..<kNumClasses] ?h3 = Some (?h3\<lparr>spans_of := \<sigma>4, central := ce\<rparr>)"
    "\<And>cl. cl < 170 \<Longrightarrow> dll \<sigma>4 (EmptyHead cl) [] \<and> dll \<sigma>4 (NonemptyHead cl) [] \<and> size_class (ce cl) = word_of_nat cl \<and>
        used_slots (ce cl) = 0 \<and> cache_size (ce cl) = 1"
    using Central_Inits_ok [of "[0..<kNumClasses]" ?h3] by (auto simp: kNumClasses_def)
  let ?h4 = "?h3\<lparr>spans_of := \<sigma>4, central := ce\<rparr>"
  have pr: "PageHeap_init cfg ?h4 = Some h5" using r(5) C(1) by simp
  have "mem_ok ?h4 {} {}"
  proof -
    have "M \<union> N \<subseteq> bytes_mapped m3" "M \<inter> N = {}" using M(4) N(1,2) sys_step_mapped [OF N(1)] by auto
    moreover have "sys_ok (sys m3)" using N(1) S2 M(1) by (simp add: sys_step_def)
    ultimately show ?thesis unfolding mem_ok_def using M(1,3) N(3) by (intro conjI exI [of _ M] exI [of _ N] exI [of _ "{}"]) (auto simp: page_bytes_def)
  qed
  from PageHeap_init_ok [OF K this pr] root have ph: "ph_ok h5 {} {}" by (simp add: r(6))
  let ?ls = "LargeHead # map FreeHead [0..<unat kMaxPages]"
  obtain pm m5 where pm: "PageMap3_init (MetaDataAlloc (sys_cfg cfg)) PM_BITS m3 = (pm :: sref PageMap3, m5)" by fastforce
  have "distinct ?ls" "Null \<notin> set ?ls" by (auto simp: distinct_map inj_on_def)
  then obtain \<sigma>5 where s5: "init_heads ?ls \<sigma>4 = Some \<sigma>5" "\<And>x. x \<notin> set ?ls \<Longrightarrow> \<sigma>5 x = \<sigma>4 x" using init_heads_ok by blast
  have h': "h5 = ?h4\<lparr>pagemap := pm, meta := m5, free_pages := 0, system_bytes := 0, spans_of := \<sigma>5\<rparr>"
    using pr pm s5(1) by (simp add: PageHeap_init_def on_spans_def option_monad Let_def del: init_heads.simps)
  have S3: "sys_ok (sys m3)" using N(1) S2 M(1) by (simp add: sys_step_def)
  have st5: "sys_step m3 m5" using PageMap3_init_ok [OF K S3 pm] by blast
  have f: "tables h' = ferp_tables" "central h' = ce" "spans_of h' = \<sigma>5" "threadheap_allocator h' = a1" "meta h' = m5" "caches h' = caches h"
    "race_counter h' = race_counter h" "thread_heaps h' = thread_heaps h" "tsd_inited h' = tsd_inited h" "heap_key h' = heap_key h" "mth h' = mth h"
    using arg_cong [OF h', of tables] arg_cong [OF h', of central] arg_cong [OF h', of spans_of] arg_cong [OF h', of threadheap_allocator]
      arg_cong [OF h', of meta] arg_cong [OF h', of caches] arg_cong [OF h', of race_counter] arg_cong [OF h', of thread_heaps]
      arg_cong [OF h', of tsd_inited] arg_cong [OF h', of heap_key] arg_cong [OF h', of mth] by (simp_all add: M(1) r(6))
  show "same_threads h h'" by (simp add: same_threads_def f)
  show "\<exists>Z. pha_ok sizeof_ThreadCache (threadheap_allocator h') {} Z \<and> Z \<subseteq> bytes_mapped (meta h')"
    using Z(2,3) sys_step_mapped [OF M(2)] sys_step_mapped [OF N(1)] sys_step_mapped [OF st5] unfolding f by blast
  have ph': "ph_ok h' {} {}"
  proof (rule caller_writes_ok [OF ph])
    show "caller_writes {} h5 h'" by (simp add: caller_writes_def page_heap.defs r(6))
  qed
  have away: "EmptyHead cl \<notin> set ?ls" "NonemptyHead cl \<notin> set ?ls" for cl by auto
  have heads: "dll \<sigma>5 (EmptyHead cl) []" "dll \<sigma>5 (NonemptyHead cl) []" if "cl < 170" for cl
    using C(2) [OF that] by (simp_all add: dll_def s5(2) [OF away(1)] s5(2) [OF away(2)])
  have "span_ok h' {} {} (\<lambda>_. []) (\<lambda>_. []) (\<lambda>_. []) Map.empty"
    unfolding span_ok_def using ph' C(2) heads by (auto simp: held_def members_def outside_def f)
  then have "out_ok h' {} Map.empty" by (rule out_okI)
  moreover have "place_ok {} h' p []" for p
    using C(2) by (cases p) (auto simp: slot_ok_def cache_list_ok_def f)
  moreover have "slots_bound h'" using C(2) rc by (simp add: slots_bound_def f)
  moreover have "pooled Map.empty (\<lambda>_. []) Map.empty" by (simp add: pooled_def)
  ultimately show "heap_ok h' {} {} Map.empty (\<lambda>_. [])" unfolding heap_ok_def by auto
qed

section \<open>The first cache\<close>

lemma ph_ok_step:
  assumes ok: "ph_ok h A P" and st: "sys_step (meta h) (meta h')" and t: "page_heap.truncate (h'\<lparr>meta := meta h\<rparr>) = page_heap.truncate h"
  shows "ph_ok h' A P"
proof -
  have f: "span_allocator h' = span_allocator h" "stacktrace_allocator h' = stacktrace_allocator h" "spans_of h' = spans_of h" "pagemap h' = pagemap h"
    "free_pages h' = free_pages h" "system_bytes h' = system_bytes h" using t by (simp_all add: page_heap.defs)
  have pm: "pmap h' = pmap h" by (rule pmap_cong) (rule f(4))
  obtain fl where I: "ph_inv h A fl P" "free_pages h = word_of_nat (free_sum h fl)" using ok by (auto simp: ph_ok_def)
  have "mem_ok h' (addrs (A \<union> frees fl)) P" by (rule mem_ok_step [OF ph_invD(4) [OF I(1)] st f(1,2)])
  then have "ph_inv h' A fl P" using I(1) unfolding ph_inv_def pm f by blast
  then show ?thesis using I(2) unfolding ph_ok_def free_sum_def f by blast
qed

lemma out_ok_step:
  fixes h h' :: "'a tcmalloc_scheme"
  assumes ok: "out_ok h L out" and st: "sys_step (meta h) (meta h')"
    and t: "page_heap.truncate (h'\<lparr>meta := meta h\<rparr>) = page_heap.truncate h" "mem h' = mem h" "tables h' = tables h" "central h' = central h"
  shows "out_ok h' L out"
proof -
  obtain es ns fo where s: "span_ok h {} L es ns fo out" by (rule out_okE [OF ok])
  have f: "spans_of h' = spans_of h" "pagemap h' = pagemap h" using t(1) by (simp_all add: page_heap.defs)
  have pm: "pmap h' = pmap h" by (rule pmap_cong) (rule f(2))
  obtain P where "ph_ok h (held es ns L \<union> {}) P" using span_okD(1) [OF s] by blast
  from ph_ok_step [OF this st t(1)] have "\<exists>P. ph_ok h' (held es ns L \<union> {}) P" by blast
  then have "span_ok h' {} L es ns fo out"
    using s t(2-4) unfolding span_ok_def span_for_def large_span_def parked_def pm f by simp
  then show ?thesis by (rule out_okI)
qed

lemma out_ok_sys: "out_ok h L out \<Longrightarrow> sys_ok (sys (meta h))"
proof -
  assume "out_ok h L out"
  then obtain es ns fo where s: "span_ok h {} L es ns fo out" by (rule out_okE)
  obtain P where "ph_ok h (held es ns L \<union> {}) P" using span_okD(1) [OF s] by blast
  then show ?thesis by (auto simp: ph_ok_def ph_inv_def mem_ok_def)
qed

lemma PickNextSample_shape:
  "\<exists>t' p' v'. PickNextSample c cfg ((upd_cache c (\<lambda>_. t) h)\<lparr>sample_period := p, last_flag_value := v\<rparr>) =
      (upd_cache c (\<lambda>_. t') h)\<lparr>sample_period := p', last_flag_value := v'\<rparr> \<and> tc_list t' = tc_list t \<and> tc_next t' = tc_next t \<and>
      tc_tid t' = tc_tid t \<and> in_setspecific t' = in_setspecific t"
proof -
  let ?r = "rnd_step (rnd t)" and ?f = "sint (word_of_int (FLAGS_tcmalloc_sample_parameter cfg) :: u32)"
  let ?p = "if ?f \<noteq> v then ucast (find_prime (word_of_int ?f) primes_list) else p"
  let ?t = "t\<lparr>rnd := ?r, bytes_until_sample := ucast ?r mod ?p\<rparr>"
  have "PickNextSample c cfg ((upd_cache c (\<lambda>_. t) h)\<lparr>sample_period := p, last_flag_value := v\<rparr>) =
      (upd_cache c (\<lambda>_. ?t) h)\<lparr>sample_period := ?p, last_flag_value := ?f\<rparr>"
    by (cases "?f = v") (simp_all add: PickNextSample_def Let_def)
  then show ?thesis by (intro exI [of _ ?t] exI [of _ ?p] exI [of _ ?f]) simp
qed

lemma PickNextSample_frame:
  "\<exists>t p v. (PickNextSample c cfg ^^ k) h = (upd_cache c (\<lambda>_. t) h)\<lparr>sample_period := p, last_flag_value := v\<rparr> \<and> tc_list t = tc_list (caches h c) \<and>
     tc_next t = tc_next (caches h c) \<and> tc_tid t = tc_tid (caches h c) \<and> in_setspecific t = in_setspecific (caches h c)"
proof (induction k)
  case 0
  have "h = (upd_cache c (\<lambda>_. caches h c) h)\<lparr>sample_period := sample_period h, last_flag_value := last_flag_value h\<rparr>" by simp
  then show ?case by (metis funpow_0)
next
  case (Suc k)
  obtain t p v where k: "(PickNextSample c cfg ^^ k) h = (upd_cache c (\<lambda>_. t) h)\<lparr>sample_period := p, last_flag_value := v\<rparr>"
    "tc_list t = tc_list (caches h c)" "tc_next t = tc_next (caches h c)" "tc_tid t = tc_tid (caches h c)"
    "in_setspecific t = in_setspecific (caches h c)" using Suc by blast
  have "(PickNextSample c cfg ^^ Suc k) h = PickNextSample c cfg ((upd_cache c (\<lambda>_. t) h)\<lparr>sample_period := p, last_flag_value := v\<rparr>)"
    by (simp only: funpow.simps comp_apply k(1))
  moreover obtain t' p' v' where "PickNextSample c cfg ((upd_cache c (\<lambda>_. t) h)\<lparr>sample_period := p, last_flag_value := v\<rparr>) =
      (upd_cache c (\<lambda>_. t') h)\<lparr>sample_period := p', last_flag_value := v'\<rparr>" "tc_list t' = tc_list t" "tc_next t' = tc_next t"
      "tc_tid t' = tc_tid t" "in_setspecific t' = in_setspecific t"
    using PickNextSample_shape [where c = c and cfg = cfg and t = t and h = h and p = p and v = v] by blast
  ultimately show ?case using k(2-5) by (intro exI [of _ t'] exI [of _ p'] exI [of _ v']) (simp add: fun_upd_def)
qed

definition new_cache :: "u64 \<Rightarrow> u64 \<Rightarrow> 'a tcmalloc_scheme \<Rightarrow> 'a tcmalloc_scheme \<Rightarrow> bool" where
  "new_cache c me h h' \<longleftrightarrow> page_heap.truncate (h'\<lparr>meta := meta h\<rparr>) = page_heap.truncate h \<and> mem h' = mem h \<and> tables h' = tables h \<and>
     central h' = central h \<and> race_counter h' = race_counter h \<and>
     (\<forall>d cl. tc_list (caches h' d) cl = (if d = c \<and> cl < 170 then FL_Init else tc_list (caches h d) cl)) \<and>
     tc_tid (caches h' c) = me \<and> tc_next (caches h' c) = thread_heaps h \<and> \<not> in_setspecific (caches h' c) \<and>
     (\<forall>d. d \<noteq> c \<longrightarrow> tc_tid (caches h' d) = tc_tid (caches h d) \<and> tc_next (caches h' d) = tc_next (caches h d)) \<and> thread_heaps h' = c \<and>
     tsd_inited h' = tsd_inited h \<and> phinited h' = phinited h \<and> heap_key h' = heap_key h \<and> mth h' = mth h"

lemma CreateCache_run:
  assumes run: "CreateCache cfg me h = Some (c, h')"
  shows "\<exists>a ms. PHA_New (sys_cfg cfg) sizeof_ThreadCache (threadheap_allocator h) (meta h) = Some (c, a, ms) \<and> c \<noteq> 0 \<and>
    threadheap_allocator h' = a \<and> meta h' = ms \<and> new_cache c me h h'"
proof -
  obtain a ms where n: "PHA_New (sys_cfg cfg) sizeof_ThreadCache (threadheap_allocator h) (meta h) = Some (c, a, ms)" "c \<noteq> 0"
    using run by (auto simp: CreateCache_def option_monad Let_def)
  let ?u = "upd_cache c (\<lambda>t. t\<lparr>tc_size := 0, tc_next := 0, tc_prev := 0, tc_tid := me, in_setspecific := False,
          tc_list := \<lambda>cl. if cl < kNumClasses then FL_Init else tc_list t cl, rnd := ucast c\<rparr>) (h\<lparr>threadheap_allocator := a, meta := ms\<rparr>)"
  obtain t p v where t: "TC_Init c cfg me (h\<lparr>threadheap_allocator := a, meta := ms\<rparr>) = (upd_cache c (\<lambda>_. t) ?u)\<lparr>sample_period := p, last_flag_value := v\<rparr>"
    "tc_list t = tc_list (caches ?u c)" "tc_next t = tc_next (caches ?u c)" "tc_tid t = tc_tid (caches ?u c)" "in_setspecific t = in_setspecific (caches ?u c)"
    using PickNextSample_frame [where c = c and cfg = cfg and k = 100 and h = ?u] unfolding TC_Init_def by blast
  define h1 where "h1 = TC_Init c cfg me (h\<lparr>threadheap_allocator := a, meta := ms\<rparr>)"
  have h1: "caches h1 = (caches h)(c := t)" "thread_heaps h1 = thread_heaps h" "page_heap.truncate (h1\<lparr>meta := meta h\<rparr>) = page_heap.truncate h"
    "mem h1 = mem h" "tables h1 = tables h" "central h1 = central h" "race_counter h1 = race_counter h" "tsd_inited h1 = tsd_inited h"
    "phinited h1 = phinited h" "heap_key h1 = heap_key h" "mth h1 = mth h" "threadheap_allocator h1 = a" "meta h1 = ms"
    unfolding h1_def t(1) by (simp_all add: page_heap.defs)
  define h2 where "h2 = upd_cache c (\<lambda>t. t\<lparr>tc_next := thread_heaps h1, tc_prev := 0\<rparr>) h1"
  define h3 where "h3 = (if thread_heaps h2 \<noteq> 0 then upd_cache (thread_heaps h2) (\<lambda>t. t\<lparr>tc_prev := c\<rparr>) h2 else h2)"
  have h': "h' = RecomputeThreadCacheSize (h3\<lparr>thread_heaps := c, thread_heap_count := thread_heap_count h3 + 1\<rparr>)"
    using run n(2) unfolding CreateCache_def n(1) h3_def h2_def h1_def Let_def ASSERT_def by (simp split del: if_split)
  have t': "tc_list t = (\<lambda>cl. if cl < 170 then FL_Init else tc_list (caches h c) cl)" "tc_tid t = me" "\<not> in_setspecific t"
    using t(2-5) by (simp_all add: kNumClasses_def cong: if_cong)
  have c3: "tc_list (caches h3 d) cl = (if d = c \<and> cl < 170 then FL_Init else tc_list (caches h d) cl)"
    "tc_tid (caches h3 c) = me" "tc_next (caches h3 c) = thread_heaps h" "\<not> in_setspecific (caches h3 c)"
    "d \<noteq> c \<Longrightarrow> tc_tid (caches h3 d) = tc_tid (caches h d) \<and> tc_next (caches h3 d) = tc_next (caches h d)" for d cl
    by (simp_all add: h3_def h2_def h1 t')
  have r3: "page_heap.truncate (h3\<lparr>meta := meta h\<rparr>) = page_heap.truncate h" "mem h3 = mem h" "tables h3 = tables h" "central h3 = central h"
    "race_counter h3 = race_counter h" "tsd_inited h3 = tsd_inited h" "phinited h3 = phinited h" "heap_key h3 = heap_key h" "mth h3 = mth h"
    "threadheap_allocator h3 = a" "meta h3 = ms"
    using h1 by (simp_all add: h3_def h2_def page_heap.defs)
  have "new_cache c me h h'"
    unfolding new_cache_def h' using c3 r3 by (simp add: RecomputeThreadCacheSize_def Let_def page_heap.defs)
  moreover have "threadheap_allocator h' = a" "meta h' = ms" unfolding h' using r3 by (simp_all add: RecomputeThreadCacheSize_def Let_def)
  ultimately show ?thesis using n by blast
qed

lemma CreateCache_ok:
  assumes K: "kernel_ok (sys_cfg cfg)" and H: "heap_ok h C L U ls" and sh: "short h C"
    and Z: "pha_ok sizeof_ThreadCache (threadheap_allocator h) C Z" "Z \<subseteq> bytes_mapped (meta h)" and run: "CreateCache cfg me h = Some (c, h')"
  shows "c \<noteq> 0" "c \<notin> C" "new_cache c me h h'" "heap_ok h' (insert c C) L U ls" "short h' (insert c C)"
    "\<exists>Z'. pha_ok sizeof_ThreadCache (threadheap_allocator h') (insert c C) Z' \<and> Z' \<subseteq> bytes_mapped (meta h')"
proof -
  obtain a ms where n: "PHA_New (sys_cfg cfg) sizeof_ThreadCache (threadheap_allocator h) (meta h) = Some (c, a, ms)" "c \<noteq> 0"
    "threadheap_allocator h' = a" "meta h' = ms" "new_cache c me h h'" using CreateCache_run [OF run] by blast
  show "c \<noteq> 0" "new_cache c me h h'" using n by blast+
  obtain out where o: "out_ok h L out" "pooled U ls out" using heap_okD(1) [OF H] by blast
  obtain G where G: "c \<notin> C" "sys_step (meta h) ms" "G \<subseteq> bytes_mapped ms - bytes_mapped (meta h)" "pha_ok sizeof_ThreadCache a (insert c C) (Z \<union> G)"
    using PHA_New_ok [OF K out_ok_sys [OF o(1)] Z object_size_ThreadCache n(1)] by blast
  show cC: "c \<notin> C" by (rule G(1))
  show "\<exists>Z'. pha_ok sizeof_ThreadCache (threadheap_allocator h') (insert c C) Z' \<and> Z' \<subseteq> bytes_mapped (meta h')"
    using G(3,4) Z(2) sys_step_mapped [OF G(2)] unfolding n(3,4) by blast
  have f: "mem h' = mem h" "tables h' = tables h" "central h' = central h" "race_counter h' = race_counter h"
    "\<And>d cl. tc_list (caches h' d) cl = (if d = c \<and> cl < 170 then FL_Init else tc_list (caches h d) cl)"
    using n(5) by (simp_all add: new_cache_def)
  have "out_ok h' L out" if "out_ok h L out" for out
    by (rule out_ok_step [OF that]) (use n(5) G(2) in \<open>simp_all add: new_cache_def n(4)\<close>)
  moreover have "place_ok (insert c C) h' p (ls p)" for p
  proof (cases p)
    case (Slot cl i)
    then show ?thesis using heap_okD(2) [OF H, of p] by (simp add: slot_ok_def f)
  next
    case (Cache d cl)
    then show ?thesis using heap_okD(2) [OF H, of p] cC
      by (cases "d = c") (auto simp: cache_list_ok_def f FL_Init_def split: if_splits)
  qed
  moreover have "slots_bound h'" using heap_okD(6) [OF H] by (simp add: slots_bound_def f)
  ultimately show "heap_ok h' (insert c C) L U ls" using H unfolding heap_ok_def by blast
  show "short h' (insert c C)" using sh by (auto simp: short_def fl_len_def f FL_Init_def)
qed

section \<open>The first two calls\<close>

lemma heap_ok_caches:
  fixes h h' :: "'a tcmalloc_scheme"
  assumes H: "heap_state h C L U"
    and t: "page_heap.truncate h' = page_heap.truncate h" "mem h' = mem h" "tables h' = tables h" "central h' = central h"
      "race_counter h' = race_counter h" "\<And>d. tc_list (caches h' d) = tc_list (caches h d)"
  shows "heap_state h' C L U"
proof -
  obtain ls where k: "heap_ok h C L U ls" "short h C" "0 \<notin> C" using H by (auto simp: heap_state_def)
  have st: "sys_step (meta h) (meta h')" using t(1) by (simp add: page_heap.defs sys_step_def)
  have tr: "page_heap.truncate (h'\<lparr>meta := meta h\<rparr>) = page_heap.truncate h" using t(1) by (simp add: page_heap.defs)
  have "out_ok h' L out" if "out_ok h L out" for out by (rule out_ok_step [OF that st tr t(2-4)])
  moreover have "place_ok C h' p (ls p)" for p
    using heap_okD(2) [OF k(1), of p] by (cases p) (simp_all add: slot_ok_def cache_list_ok_def t)
  moreover have "slots_bound h'" using heap_okD(6) [OF k(1)] by (simp add: slots_bound_def t)
  ultimately have "heap_ok h' C L U ls" using k(1) unfolding heap_ok_def by blast
  moreover have "short h' C" using k(2) by (simp add: short_def fl_len_def t)
  ultimately show ?thesis using k(3) by (auto simp: heap_state_def)
qed

lemma heap_state_empty: "heap_state h C {} Map.empty \<Longrightarrow> holds h C Map.empty"
  by (rule holdsI [of h C Map.empty]) (auto simp: serves_def block_def intro!: exI [of _ "{}"] exI [of _ Map.empty])

lemma CreateCache_frame:
  assumes "CreateCache cfg me h = Some (c, h')"
  shows "pagemap h' = pagemap h" "tsd_inited h' = tsd_inited h"
proof -
  have "new_cache c me h h'" using CreateCache_run [OF assms] by blast
  then show "pagemap h' = pagemap h" "tsd_inited h' = tsd_inited h" by (auto simp: new_cache_def page_heap.defs)
qed

lemma CreateCacheIfNecessary_pagemap:
  "CreateCacheIfNecessary cfg me h = Some (c, h') \<Longrightarrow> pagemap h' = pagemap h"
  by (auto simp: CreateCacheIfNecessary_def option_monad Let_def dest: CreateCache_frame split: if_splits)

lemma sys_ok_init: "sys_ok sys_init"
  by (simp add: sys_ok_def sys_init_def)

lemma first_GetCache:
  assumes K: "kernel_ok (sys_cfg cfg)" and run: "GetCache cfg me (tc_static linked) = Some (c, h)" and root: "root_3 (pagemap h) \<noteq> None"
  shows "c \<noteq> 0" "heap_state h {c} {} Map.empty" "thread_heaps h = c" "tc_next (caches h c) = 0" "tc_tid (caches h c) = 0"
    "\<not> in_setspecific (caches h c)" "\<not> tsd_inited h" "mth h = mthreads_init linked" "phinited h"
proof -
  let ?s = "tc_static linked"
  have s0: "\<not> tsd_inited ?s" "thread_heaps ?s = 0" "tables ?s = zero_tables" "\<not> phinited ?s" "mth ?s = mthreads_init linked"
    "race_counter ?s = 0" "sys (meta ?s) = sys_init" by (simp_all add: tc_static_def)
  obtain h0 where i: "InitModule cfg ?s = Some h0" "CreateCacheIfNecessary cfg me h0 = Some (c, h)"
    using run s0(1) by (auto simp: GetCache_def option_monad)
  have "pagemap h = pagemap h0" by (rule CreateCacheIfNecessary_pagemap [OF i(2)])
  then have root0: "root_3 (pagemap h0) \<noteq> None" using root by simp
  have S: "sys_ok (sys (meta ?s))" by (simp add: s0(7) sys_ok_init)
  have 0: "heap_ok h0 {} {} Map.empty (\<lambda>_. [])" "\<exists>Z. pha_ok sizeof_ThreadCache (threadheap_allocator h0) {} Z \<and> Z \<subseteq> bytes_mapped (meta h0)"
    "phinited h0" "same_threads ?s h0"
    using InitModule_ok [OF K s0(4,3) S _ i(1) root0] s0(6) by simp_all
  have t0: "thread_heaps h0 = 0" "\<not> tsd_inited h0" "mth h0 = mthreads_init linked" using 0(4) s0 by (simp_all add: same_threads_def)
  have run1: "CreateCache cfg 0 h0 = Some (c, h)"
    using i(2) t0(1,2) by (auto simp: CreateCacheIfNecessary_def find_heap.simps option_monad dest: CreateCache_frame(2) split: if_splits)
  obtain Z where Z: "pha_ok sizeof_ThreadCache (threadheap_allocator h0) {} Z" "Z \<subseteq> bytes_mapped (meta h0)" using 0(2) by blast
  have "short h0 {}" by (simp add: short_def)
  note C = CreateCache_ok [OF K 0(1) this Z run1]
  show "c \<noteq> 0" by (rule C(1))
  show "heap_state h {c} {} Map.empty" using C(1,4,5) by (auto simp: heap_state_def)
  show "thread_heaps h = c" "tc_next (caches h c) = 0" "tc_tid (caches h c) = 0"
    "\<not> in_setspecific (caches h c)" "\<not> tsd_inited h" "mth h = mthreads_init linked" "phinited h"
    using C(3) t0 0(3) by (simp_all add: new_cache_def)
qed

lemma second_GetCache:
  assumes "thread_heaps h = c" "tc_next (caches h c) = 0" "tc_tid (caches h c) = 0" "\<not> tsd_inited h" "mth h = mthreads_init linked"
    "c \<noteq> 0" "\<not> in_setspecific (caches h c)"
  shows "\<exists>h2 h3. InitTSD me h = Some h2 \<and> GetCache cfg me h2 = Some (c, h3) \<and> GetCacheIfPresent me h3 = Some c \<and>
    page_heap.truncate h3 = page_heap.truncate h \<and> mem h3 = mem h \<and> tables h3 = tables h \<and> central h3 = central h \<and>
    race_counter h3 = race_counter h \<and> (\<forall>d. tc_list (caches h3 d) = tc_list (caches h d))"
proof -
  let ?k = "if linked then (mthreads_init linked)\<lparr>pthread_keys := 1\<rparr> else (mthreads_init linked)\<lparr>next_key := 1\<rparr>"
  let ?h2 = "upd_cache c (\<lambda>t. t\<lparr>tc_tid := me\<rparr>) (h\<lparr>heap_key := 0, mth := ?k, tsd_inited := True\<rparr>)"
  have k: "perftools_pthread_key_create (mth h) = Some (Some 0, ?k)"
    by (simp add: assms perftools_pthread_key_create_def mthreads_init_def MAX_PERTHREAD_VALS_def PTHREAD_KEYS_MAX_def ASSERT_def)
  have 2: "InitTSD me h = Some ?h2"
    unfolding InitTSD_def k using assms by (simp add: ASSERT_def Let_def InitTSD_loop.simps)
  have g: "perftools_pthread_getspecific me (heap_key ?h2) (mth ?h2) = Some 0"
    by (simp add: perftools_pthread_getspecific_def mthreads_init_def MAX_PERTHREAD_VALS_def ASSERT_def)
  have "\<exists>ts. perftools_pthread_setspecific me 0 c ?k = Some ts \<and> perftools_pthread_getspecific me 0 ts = Some c"
    by (cases linked) (simp_all add: perftools_pthread_setspecific_def perftools_pthread_getspecific_def mthreads_init_def MAX_PERTHREAD_VALS_def ASSERT_def)
  then obtain ts where ts: "perftools_pthread_setspecific me 0 c ?k = Some ts" "perftools_pthread_getspecific me 0 ts = Some c" by blast
  have f: "find_heap ?h2 me (thread_heaps ?h2) = Some c" using assms by (simp add: find_heap.simps)
  let ?h3 = "upd_cache c (\<lambda>t. t\<lparr>in_setspecific := False\<rparr>) ((upd_cache c (\<lambda>t. t\<lparr>in_setspecific := True\<rparr>) ?h2)\<lparr>mth := ts\<rparr>)"
  have 3: "GetCache cfg me ?h2 = Some (c, ?h3)"
    unfolding GetCache_def g using assms f ts(1) by (simp add: CreateCacheIfNecessary_def Let_def)
  have 4: "GetCacheIfPresent me ?h3 = Some c" using ts(2) by (simp add: GetCacheIfPresent_def)
  show ?thesis
    by (rule exI [of _ ?h2], rule exI [of _ ?h3], intro conjI, rule 2, rule 3, rule 4) (simp_all add: page_heap.defs)
qed

text \<open>
  C8. From zeroed static storage, a first call of \<open>GetCache\<close> that the kernel does not refuse
  memory builds an allocator that serves clients who hold nothing yet, with one cache that belongs
  to no thread; \<open>InitTSD\<close> then gives that cache to the calling thread, whose next \<open>GetCache\<close> finds
  it, and \<open>GetCacheIfPresent\<close> after that, with the thread library linked or not. The calls of
  \<open>malloc\<close> and \<open>free\<close> of the runs above start here.
\<close>

theorem start_up_serves:
  assumes K: "kernel_ok (sys_cfg cfg)" and run: "GetCache cfg me (tc_static linked) = Some (c, h1)" and root: "root_3 (pagemap h1) \<noteq> None"
  shows "c \<noteq> 0 \<and> holds h1 {c} Map.empty \<and> (\<exists>h2 h3. InitTSD me h1 = Some h2 \<and> GetCache cfg me h2 = Some (c, h3) \<and>
    GetCacheIfPresent me h3 = Some c \<and> holds h3 {c} Map.empty)"
proof -
  note F = first_GetCache [OF K run root]
  obtain h2 h3 where "InitTSD me h1 = Some h2" "GetCache cfg me h2 = Some (c, h3)" "GetCacheIfPresent me h3 = Some c"
    "page_heap.truncate h3 = page_heap.truncate h1" "mem h3 = mem h1" "tables h3 = tables h1" "central h3 = central h1"
    "race_counter h3 = race_counter h1" "\<And>d. tc_list (caches h3 d) = tc_list (caches h1 d)"
    using second_GetCache [OF F(3,4,5,7,8,1,6)] by blast
  then show ?thesis using F(1) heap_state_empty [OF F(2)] heap_state_empty [OF heap_ok_caches [OF F(2)]] by blast
qed


text \<open>With the kernel of the other examples, which grants what \<open>sbrk\<close> asks for, the first call succeeds.\<close>

definition quiet :: "nat \<Rightarrow> meta_state \<Rightarrow> bool" where
  "quiet b ms \<longleftrightarrow> use_sbrk (sys ms) \<and> \<not> sbrk_failure (sys ms) \<and> break_of (sys_trace (sys ms)) = b"

lemma bump_alloc:
  assumes q: "quiet b ms" and n: "n \<in> {0x20000, 0x200000}" and b: "b \<in> {0x10000, 0x30000, 0x50000, 0x70000}"
  obtains ms' where "MetaDataAlloc (sys_cfg bump_cfg) n ms = (word_of_nat b, ms')" "quiet (b + unat n) ms'"
proof -
  let ?s = "sys ms"
  have nf: "n + 0 = n" "n + 8 <s 0 \<longleftrightarrow> False" "round_up n 8 = n" "b + unat n < 2 ^ 40"
    using n b by (auto simp: round_up_def word_sless_alt)
  have bf: "(word_of_nat b :: u64) \<noteq> 0" "(word_of_nat b :: u64) \<noteq> MAP_FAILED" "(word_of_nat b :: u64) AND 7 = 0"
    using b by (auto simp: MAP_FAILED_def)
  have g: "bump_grant (sys_trace ?s) (Sbrk n) = word_of_nat b" using q nf(4) by (simp add: bump_grant_def quiet_def)
  let ?t = "?s\<lparr>sys_trace := (Sbrk n, word_of_nat b) # sys_trace ?s\<rparr>"
  have "TrySbrk (sys_cfg bump_cfg) n 8 ?s = (word_of_nat b, ?t)"
    unfolding TrySbrk_def nf syscall_def using bf g by (simp add: bump_cfg_def Let_def)
  then have "SystemAlloc_pass (sys_cfg bump_cfg) n 8 ?s = (word_of_nat b, ?t)"
    using q bf(1) by (simp add: SystemAlloc_pass_def TryDevMem_def bump_cfg_def quiet_def Let_def)
  then have "MetaDataAlloc (sys_cfg bump_cfg) n ms = (word_of_nat b, ms\<lparr>sys := ?t, metadata_system_bytes := metadata_system_bytes ms + n\<rparr>)"
    using bf(1) by (simp add: MetaDataAlloc_def TCMalloc_SystemAlloc_def Let_def)
  moreover have "quiet (b + unat n) (ms\<lparr>sys := ?t, metadata_system_bytes := metadata_system_bytes ms + n\<rparr>)"
    using q b by (auto simp: quiet_def)
  ultimately show thesis by (rule that)
qed

lemma bump_Init:
  assumes q: "quiet b ms" and b: "b \<in> {0x10000, 0x30000, 0x50000}" and sz: "0 < kAlignedSize sz" "kAlignedSize sz \<le> kAllocIncrement"
  obtains a' ms' where "PHA_Init (sys_cfg bump_cfg) sz a ms = Some (a', ms')" "quiet (b + 0x20000) ms'" "pha_free_list a' = word_of_nat b"
    "pha_link a' (word_of_nat b) = 0" "free_avail a' = kAllocIncrement - kAlignedSize sz" "free_area a' = word_of_nat b + kAlignedSize sz"
proof -
  have inc: "kAllocIncrement = 0x20000" by (simp add: kAllocIncrement_def)
  obtain ms' where m: "MetaDataAlloc (sys_cfg bump_cfg) kAllocIncrement ms = (word_of_nat b, ms')" "quiet (b + 0x20000) ms'"
  proof (rule bump_alloc [OF q, of kAllocIncrement])
    show "kAllocIncrement \<in> {0x20000, 0x200000}" by (simp add: inc)
    show "b \<in> {0x10000, 0x30000, 0x50000, 0x70000}" using b by blast
    fix ms' assume "MetaDataAlloc (sys_cfg bump_cfg) kAllocIncrement ms = (word_of_nat b, ms')" "quiet (b + unat kAllocIncrement) ms'"
    then show thesis using that by (simp add: inc)
  qed
  have b0: "(word_of_nat b :: u64) \<noteq> 0" using b by auto
  have "\<exists>a'. PHA_Init (sys_cfg bump_cfg) sz a ms = Some (a', ms') \<and> pha_free_list a' = word_of_nat b \<and>
    pha_link a' (word_of_nat b) = 0 \<and> free_avail a' = kAllocIncrement - kAlignedSize sz \<and> free_area a' = word_of_nat b + kAlignedSize sz"
    using sz b0 by (simp add: PHA_Init_def PHA_New_def PHA_Delete_def ASSERT_def Let_def m(1))
  then show thesis using that m(2) by blast
qed

lemma bump_sizes:
  "0 < kAlignedSize sizeof_ThreadCache" "kAlignedSize sizeof_ThreadCache \<le> kAllocIncrement"
  "0 < kAlignedSize sizeof_Span" "kAlignedSize sizeof_Span \<le> kAllocIncrement - kAlignedSize sizeof_Span" "kAlignedSize sizeof_Span \<le> kAllocIncrement"
  "0 < kAlignedSize sizeof_StackTrace" "kAlignedSize sizeof_StackTrace \<le> kAllocIncrement"
  by (simp_all add: kAllocIncrement_def kAlignedSize_def kAlignment_def kAlignShift_def sizeof_ThreadCache_def sizeof_Span_def sizeof_StackTrace_def)

lemma bump_Init_span:
  assumes q: "quiet 0x30000 (meta h)"
  obtains h' where "PHA_Init_span bump_cfg h = Some h'" "quiet 0x50000 (meta h')" "threadheap_allocator h' = threadheap_allocator h"
    "spans_of h' = spans_of h" "thread_heaps h' = thread_heaps h" "tsd_inited h' = tsd_inited h"
proof -
  obtain a m where 1: "PHA_Init (sys_cfg bump_cfg) sizeof_Span (span_allocator h) (meta h) = Some (a, m)" "quiet (0x30000 + 0x20000) m"
    "pha_free_list a = word_of_nat 0x30000" "pha_link a (word_of_nat 0x30000) = 0" "free_avail a = kAllocIncrement - kAlignedSize sizeof_Span"
    using bump_Init [OF q _ bump_sizes(3,5)] by blast
  have "\<exists>x a1. PHA_New (sys_cfg bump_cfg) sizeof_Span a m = Some (x, a1, m) \<and> pha_free_list a1 = 0 \<and> free_avail a1 = kAllocIncrement - kAlignedSize sizeof_Span"
    using 1(3-5) by (simp add: PHA_New_def Let_def)
  then obtain x a1 where 2: "PHA_New (sys_cfg bump_cfg) sizeof_Span a m = Some (x, a1, m)" "pha_free_list a1 = 0"
    "free_avail a1 = kAllocIncrement - kAlignedSize sizeof_Span" by blast
  have "\<not> free_avail a1 < kAlignedSize sizeof_Span" using bump_sizes(4) 2(3) by (simp add: not_less)
  then obtain y a2 where 3: "PHA_New (sys_cfg bump_cfg) sizeof_Span a1 m = Some (y, a2, m)"
    using 2(2) by (simp add: PHA_New_def)
  have "PHA_Init_span bump_cfg h = Some (h\<lparr>span_allocator := a2, meta := m\<rparr>)"
    by (simp add: PHA_Init_span_def 1(1) 2(1) 3)
  from that [OF this] 1(2) show thesis by simp
qed

lemma bump_start: "\<exists>c h. GetCache bump_cfg me (tc_static linked) = Some (c, h) \<and> root_3 (pagemap h) \<noteq> None"
proof -
  let ?s = "(tc_static linked)\<lparr>tables := ferp_tables\<rparr>"
  have n: "\<not> phinited (tc_static linked)" and t: "tables (tc_static linked) = zero_tables" by (simp_all add: tc_static_def)
  have q: "quiet 0x10000 (meta ?s)" by (simp add: quiet_def tc_static_def sys_init_def)
  obtain a1 m1 where 1: "PHA_Init (sys_cfg bump_cfg) sizeof_ThreadCache (threadheap_allocator ?s) (meta ?s) = Some (a1, m1)"
    "quiet (0x10000 + 0x20000) m1" "pha_free_list a1 = word_of_nat 0x10000"
    using bump_Init [OF q _ bump_sizes(1,2)] by blast
  let ?h1 = "?s\<lparr>threadheap_allocator := a1, meta := m1\<rparr>"
  obtain h2 where 2: "PHA_Init_span bump_cfg ?h1 = Some h2" "quiet 0x50000 (meta h2)" "threadheap_allocator h2 = a1" "thread_heaps h2 = 0" "\<not> tsd_inited h2"
    using bump_Init_span [of ?h1] 1(2) by (auto simp: tc_static_def)
  obtain a3 m3 where 3: "PHA_Init (sys_cfg bump_cfg) sizeof_StackTrace (stacktrace_allocator h2) (meta h2) = Some (a3, m3)" "quiet (0x50000 + 0x20000) m3"
    using bump_Init [OF 2(2) _ bump_sizes(6,7)] by blast
  let ?h3 = "h2\<lparr>stacktrace_allocator := a3, meta := m3\<rparr>"
  obtain \<sigma> where s: "DLL_Init SampledHead (spans_of ?h3) = Some \<sigma>" by (simp add: DLL_Init_def wr_def ASSERT_def)
  obtain \<sigma>4 ce where c: "Central_Inits [0..<kNumClasses] (?h3\<lparr>spans_of := \<sigma>\<rparr>) = Some (?h3\<lparr>spans_of := \<sigma>4, central := ce\<rparr>)"
    using Central_Inits_ok [of "[0..<kNumClasses]" "?h3\<lparr>spans_of := \<sigma>\<rparr>"] by auto
  let ?h4 = "?h3\<lparr>spans_of := \<sigma>4, central := ce\<rparr>"
  obtain m5 where 5: "MetaDataAlloc (sys_cfg bump_cfg) 0x200000 m3 = (0x70000, m5)"
    using bump_alloc [of "0x70000" m3 "0x200000"] 3(2) by auto
  have bits: "push_bit (INTERIOR_BITS PM_BITS) 8 = (0x200000 :: u64)" by (simp add: INTERIOR_BITS_def PM_BITS_def kPageShift_def)
  obtain r where pm: "PageMap3_init (MetaDataAlloc (sys_cfg bump_cfg)) PM_BITS m3 = (\<lparr>root_3 = Some r\<rparr> :: sref PageMap3, m5)"
    unfolding PageMap3_init_def PageMap3_NewNode_def bits using 5 by (simp add: Let_def)
  let ?ls = "LargeHead # map FreeHead [0..<unat kMaxPages]"
  have "distinct ?ls" "Null \<notin> set ?ls" by (auto simp: distinct_map inj_on_def)
  then obtain \<sigma>5 where s5: "init_heads ?ls \<sigma>4 = Some \<sigma>5" using init_heads_ok by blast
  define h5 where "h5 = ?h4\<lparr>pagemap := \<lparr>root_3 = Some r\<rparr>, meta := m5, free_pages := 0, system_bytes := 0, spans_of := \<sigma>5, phinited := True\<rparr>"
  have "PageHeap_init bump_cfg ?h4 = Some (?h4\<lparr>pagemap := \<lparr>root_3 = Some r\<rparr>, meta := m5, free_pages := 0, system_bytes := 0, spans_of := \<sigma>5\<rparr>)"
    unfolding PageHeap_init_def using pm s5 by (simp add: on_spans_def option_monad Let_def del: init_heads.simps)
  then have "InitModule bump_cfg (tc_static linked) = Some h5"
    unfolding InitModule_def if_not_P [OF n] t InitSizeClasses_ferp bind.bind_lunit Let_def 1(1) prod.case 2(1) 3(1) h5_def
    using s c by (simp add: on_spans_def)
  moreover have "\<exists>c h. CreateCacheIfNecessary bump_cfg me h5 = Some (c, h) \<and> root_3 (pagemap h) \<noteq> None"
  proof -
    have f: "thread_heaps h5 = 0" "\<not> tsd_inited h5" "threadheap_allocator h5 = a1" "pagemap h5 = \<lparr>root_3 = Some r\<rparr>"
      by (simp_all add: h5_def 2(3-5))
    have "\<exists>h. CreateCache bump_cfg 0 h5 = Some (0x10000, h)"
      by (simp add: CreateCache_def PHA_New_def f(3) 1(3) ASSERT_def Let_def)
    then obtain h where h: "CreateCache bump_cfg 0 h5 = Some (0x10000, h)" by blast
    then show ?thesis using CreateCache_frame [OF h] f by (simp add: CreateCacheIfNecessary_def find_heap.simps)
  qed
  ultimately show ?thesis by (auto simp: GetCache_def option_monad tc_static_def)
qed

lemma start_up_serves_witness:
  "\<exists>c h1 h2 h3. GetCache bump_cfg 7 (tc_static True) = Some (c, h1) \<and> InitTSD 7 h1 = Some h2 \<and>
     GetCache bump_cfg 7 h2 = Some (c, h3) \<and> GetCacheIfPresent 7 h3 = Some c \<and> holds h3 {c} Map.empty"
proof -
  obtain c h where "GetCache bump_cfg 7 (tc_static True) = Some (c, h)" "root_3 (pagemap h) \<noteq> None" using bump_start by blast
  then show ?thesis using start_up_serves [OF bump_cfg_ok] by blast
qed

end
