(* ===== verification/AddressMap.thy ===== *)
theory AddressMap
  imports Prelude "HOL-Library.AList"
begin

text \<open>
  \<open>AddressMap\<close> of \<open>addressmap.hpp\<close>: the hash table from addresses to values that the heap
  profiler and the heap checker use. A cluster covers 1 MB of address space as \<open>2 ^ 13\<close> blocks
  of \<open>2 ^ 7\<close> bytes; clusters hang in chains off a table of \<open>2 ^ 12\<close> buckets, and the entries of
  a block form a list.

  A chain and a block are lists in the order of their \<open>next\<close> pointers. Entries are taken from a
  free list that is refilled 64 at a time; a free entry carries no information, so \<open>free_entries\<close> is
  the number of them. The allocator and the deallocator given to the constructor are functions
  on a state of their own; a null result of the allocator is written through by \<open>memset\<close>, which
  is abnormal termination.
\<close>

section \<open>Data\<close>

definition kBlockBits :: nat where "kBlockBits = 7"
definition kClusterBits :: nat where "kClusterBits = 13"
definition kClusterBlocks :: u64 where "kClusterBlocks = push_bit kClusterBits 1"
definition kHashBits :: nat where "kHashBits = 12"
definition kHashSize :: nat where "kHashSize = 4096"
definition ALLOC_COUNT :: nat where "ALLOC_COUNT = 64"
definition kHashMultiplier :: u32 where "kHashMultiplier = 2654435769"

lemmas address_map_consts = kBlockBits_def kClusterBits_def kClusterBlocks_def kHashBits_def
  kHashSize_def ALLOC_COUNT_def kHashMultiplier_def

type_synonym 'v entries = "(u64 \<times> 'v) list"

record 'v Cluster =
  cluster_id :: u64
  blocks :: "nat \<Rightarrow> 'v entries"

record 'v AddressMap =
  hashtable :: "nat \<Rightarrow> 'v Cluster list"
  free_entries :: nat
  allocated :: "u64 list"

definition HashInt :: "u64 \<Rightarrow> nat" where
  "HashInt x = (let m = ucast x * kHashMultiplier :: u32 in unat (drop_bit (32 - kHashBits) m))"

definition BlockID :: "u64 \<Rightarrow> nat" where
  "BlockID address = unat (drop_bit kBlockBits address AND (kClusterBlocks - 1))"

section \<open>Operations\<close>

text \<open>\<open>New<T>(num)\<close>: \<open>bytes\<close> is \<open>num * sizeof(T)\<close>; every object is linked into \<open>allocated\<close>.\<close>

definition AM_New :: "(u64 \<Rightarrow> 's \<Rightarrow> u64 \<times> 's) \<Rightarrow> u64 \<Rightarrow> 'v AddressMap \<times> 's \<Rightarrow> ('v AddressMap \<times> 's) option" where
  "AM_New alloc bytes = (\<lambda>(m, s).
     let (ptr, s) = alloc (8 + bytes) s
     in if ptr = 0 then None else Some (m\<lparr>allocated := ptr # allocated m\<rparr>, s))"

definition AM_init :: "(u64 \<Rightarrow> 's \<Rightarrow> u64 \<times> 's) \<Rightarrow> 's \<Rightarrow> ('v AddressMap \<times> 's) option" where
  "AM_init alloc s =
     AM_New alloc (word_of_nat kHashSize * 8) (\<lparr>hashtable = \<lambda>_. [], free_entries = 0, allocated = []\<rparr>, s)"

definition AM_destroy :: "(u64 \<Rightarrow> 's \<Rightarrow> 's) \<Rightarrow> 'v AddressMap \<Rightarrow> 's \<Rightarrow> 's" where
  "AM_destroy dealloc m s = fold dealloc (allocated m) s"

fun find_cluster :: "'v Cluster list \<Rightarrow> u64 \<Rightarrow> nat option" where
  "find_cluster [] cid = None"
| "find_cluster (c # cs) cid =
     (if cluster_id c = cid then Some 0 else map_option Suc (find_cluster cs cid))"

text \<open>A found cluster is named by its bucket and its position in the chain.\<close>

definition FindCluster ::
  "(u64 \<Rightarrow> 's \<Rightarrow> u64 \<times> 's) \<Rightarrow> u64 \<Rightarrow> bool \<Rightarrow> 'v AddressMap \<times> 's \<Rightarrow>
   ((nat \<times> nat) option \<times> 'v AddressMap \<times> 's) option" where
  "FindCluster alloc address create = (\<lambda>(m, s).
     let cid = drop_bit (kBlockBits + kClusterBits) address;
         h = HashInt cid
     in case find_cluster (hashtable m h) cid of
          Some i \<Rightarrow> Some (Some (h, i), m, s)
        | None \<Rightarrow>
            if create then do {
              (m, s) \<leftarrow> AM_New alloc (16 + 8 * kClusterBlocks) (m, s);
              let c = \<lparr>cluster_id = cid, blocks = \<lambda>_. []\<rparr>;
              Some (Some (h, 0), m\<lparr>hashtable := (hashtable m)(h := c # hashtable m h)\<rparr>, s) }
            else Some (None, m, s))"

fun find_entry :: "'v entries \<Rightarrow> u64 \<Rightarrow> 'v option" where
  "find_entry [] key = None"
| "find_entry ((k, v) # es) key = (if k = key then Some v else find_entry es key)"

definition AM_Find :: "'v AddressMap \<Rightarrow> u64 \<Rightarrow> 'v option" where
  "AM_Find m key =
     (let cid = drop_bit (kBlockBits + kClusterBits) key;
          h = HashInt cid
      in case find_cluster (hashtable m h) cid of
           Some i \<Rightarrow> find_entry (blocks (hashtable m h ! i) (BlockID key)) key
         | None \<Rightarrow> None)"

fun update_entry :: "'v entries \<Rightarrow> u64 \<Rightarrow> 'v \<Rightarrow> 'v entries option" where
  "update_entry [] key value = None"
| "update_entry ((k, v) # es) key value =
     (if k = key then Some ((k, value) # es) else map_option ((#) (k, v)) (update_entry es key value))"

text \<open>Replacing the entries of block \<open>b\<close> of the \<open>i\<close>-th cluster of bucket \<open>h\<close>.\<close>

definition set_block :: "nat \<Rightarrow> nat \<Rightarrow> nat \<Rightarrow> 'v entries \<Rightarrow> 'v AddressMap \<Rightarrow> 'v AddressMap" where
  "set_block h i b es m = m\<lparr>hashtable := (hashtable m)(h :=
     (hashtable m h)[i := (hashtable m h ! i)\<lparr>blocks := (blocks (hashtable m h ! i))(b := es)\<rparr>])\<rparr>"

text \<open>\<open>vsz\<close> is \<open>sizeof(Entry)\<close>, the only trace of the value type in the code's behaviour.\<close>

definition AM_Insert ::
  "(u64 \<Rightarrow> 's \<Rightarrow> u64 \<times> 's) \<Rightarrow> u64 \<Rightarrow> u64 \<Rightarrow> 'v \<Rightarrow> 'v AddressMap \<times> 's \<Rightarrow> ('v AddressMap \<times> 's) option" where
  "AM_Insert alloc vsz key value ms = do {
     (c, m, s) \<leftarrow> FindCluster alloc key True ms;
     (h, i) \<leftarrow> c;
     let b = BlockID key;
     let es = blocks (hashtable m h ! i) b;
     case update_entry es key value of
       Some es' \<Rightarrow> Some (set_block h i b es' m, s)
     | None \<Rightarrow> do {
         (m, s) \<leftarrow> (if free_entries m = 0 then do {
                       (m, s) \<leftarrow> AM_New alloc (word_of_nat ALLOC_COUNT * vsz) (m, s);
                       Some (m\<lparr>free_entries := ALLOC_COUNT\<rparr>, s) }
                    else Some (m, s));
         Some (set_block h i b ((key, value) # es) (m\<lparr>free_entries := free_entries m - 1\<rparr>), s) } }"

fun remove_entry :: "'v entries \<Rightarrow> u64 \<Rightarrow> ('v \<times> 'v entries) option" where
  "remove_entry [] key = None"
| "remove_entry ((k, v) # es) key =
     (if k = key then Some (v, es) else map_option (apsnd ((#) (k, v))) (remove_entry es key))"

definition AM_FindAndRemove :: "u64 \<Rightarrow> 'v AddressMap \<Rightarrow> 'v option \<times> 'v AddressMap" where
  "AM_FindAndRemove key m =
     (let cid = drop_bit (kBlockBits + kClusterBits) key;
          h = HashInt cid
      in case find_cluster (hashtable m h) cid of
           None \<Rightarrow> (None, m)
         | Some i \<Rightarrow>
             (let b = BlockID key in
              case remove_entry (blocks (hashtable m h ! i) b) key of
                None \<Rightarrow> (None, m)
              | Some (v, es) \<Rightarrow> (Some v, set_block h i b es (m\<lparr>free_entries := Suc (free_entries m)\<rparr>))))"

text \<open>The order in which \<open>Iterate\<close> visits the entries.\<close>

definition AM_entries :: "'v AddressMap \<Rightarrow> 'v entries" where
  "AM_entries m =
     concat (map (\<lambda>h. concat (map (\<lambda>c. concat (map (blocks c) [0..<unat kClusterBlocks])) (hashtable m h)))
       [0..<kHashSize])"

definition AM_Iterate :: "(u64 \<Rightarrow> 'v \<Rightarrow> 's \<Rightarrow> 's) \<Rightarrow> 'v AddressMap \<Rightarrow> 's \<Rightarrow> 's" where
  "AM_Iterate callback m s = fold (\<lambda>(key, value). callback key value) (AM_entries m) s"

section \<open>Entry lists and chains\<close>

lemma find_entry_map_of: "find_entry es = map_of es"
proof
  show "find_entry es k = map_of es k" for k by (induction es) auto
qed

lemma update_entry_spec:
  "update_entry es key v = (if key \<in> fst ` set es then Some (AList.update key v es) else None)"
proof (induction es)
  case (Cons e es)
  then show ?case by (cases e) (simp add: insert_iff)
qed simp

lemma remove_entry_None: "remove_entry es key = None \<longleftrightarrow> map_of es key = None"
  by (induction es) (auto simp: weak_map_of_SomeI)

lemma remove_entry_Some:
  "distinct (map fst es) \<Longrightarrow> remove_entry es key = Some (v, es') \<Longrightarrow>
   map_of es key = Some v \<and> map_of es' = (map_of es)(key := None) \<and> distinct (map fst es')
   \<and> set es' \<subseteq> set es"
proof (induction es arbitrary: es')
  case (Cons e es)
  obtain k w where e: "e = (k, w)" by fastforce
  show ?case
  proof (cases "k = key")
    case True
    have "map_of es key = None"
      using Cons.prems(1) e True by (auto simp: map_of_eq_None_iff)
    then show ?thesis using Cons.prems e True by (auto simp: fun_upd_idem)
  next
    case False
    then obtain es1 where es1: "remove_entry es key = Some (v, es1)" "es' = (k, w) # es1"
      using Cons.prems(2) e by auto
    from Cons.IH [OF _ es1(1)] Cons.prems(1) e False es1(2) show ?thesis
      by (auto simp: fun_upd_twist)
  qed
qed simp

lemma find_cluster_cong: "map cluster_id cs = map cluster_id cs' \<Longrightarrow> find_cluster cs cid = find_cluster cs' cid"
proof (induction cs arbitrary: cs')
  case (Cons c cs)
  then show ?case by (cases cs') auto
qed simp

lemma find_cluster_Some:
  "find_cluster cs cid = Some i \<Longrightarrow> i < length cs \<and> cluster_id (cs ! i) = cid"
  by (induction cs arbitrary: i) (auto split: if_splits)

lemma find_cluster_None: "find_cluster cs cid = None \<longleftrightarrow> cid \<notin> cluster_id ` set cs"
  by (induction cs) auto

lemma find_cluster_mem:
  "distinct (map cluster_id cs) \<Longrightarrow> c \<in> set cs \<Longrightarrow>
   \<exists>i. find_cluster cs (cluster_id c) = Some i \<and> cs ! i = c"
  by (induction cs) (force split: if_splits)+

section \<open>The map as a function of its keys\<close>

definition block_of :: "'v AddressMap \<Rightarrow> nat \<Rightarrow> u64 \<Rightarrow> nat \<Rightarrow> 'v entries" where
  "block_of m h cid b =
     (case find_cluster (hashtable m h) cid of Some i \<Rightarrow> blocks (hashtable m h ! i) b | None \<Rightarrow> [])"

definition key_cluster :: "u64 \<Rightarrow> u64" where
  "key_cluster key = drop_bit (kBlockBits + kClusterBits) key"

abbreviation block_at :: "'v AddressMap \<Rightarrow> u64 \<Rightarrow> 'v entries" where
  "block_at m key \<equiv> block_of m (HashInt (key_cluster key)) (key_cluster key) (BlockID key)"

lemma AM_Find_block: "AM_Find m key = map_of (block_at m key) key"
  by (simp add: AM_Find_def Let_def block_of_def key_cluster_def find_entry_map_of split: option.split)

lemma block_of_set_block:
  assumes "find_cluster (hashtable m h) cid = Some i"
  shows "block_of (set_block h i b es m) h' cid' b' =
    (if h' = h \<and> cid' = cid \<and> b' = b then es else block_of m h' cid' b')"
proof -
  have i: "i < length (hashtable m h)" "cluster_id (hashtable m h ! i) = cid"
    using find_cluster_Some [OF assms] by auto
  have "map cluster_id ((hashtable m h)[i := (hashtable m h ! i)\<lparr>blocks := bs\<rparr>])
      = map cluster_id (hashtable m h)" for bs
    by (rule nth_equalityI) (use i in \<open>simp_all add: nth_list_update\<close>)
  then have same: "find_cluster ((hashtable m h)[i := (hashtable m h ! i)\<lparr>blocks := bs\<rparr>]) c
      = find_cluster (hashtable m h) c" for bs c
    by (rule find_cluster_cong)
  show ?thesis
    using i assms find_cluster_Some [of "hashtable m h" cid']
    by (auto simp: block_of_def set_block_def same nth_list_update split: option.split)
qed

lemma block_of_other_fields [simp]:
  "block_of (m\<lparr>free_entries := n\<rparr>) = block_of m" "block_of (m\<lparr>allocated := l\<rparr>) = block_of m"
  by (simp_all add: block_of_def fun_eq_iff cong: option.case_cong)

section \<open>The invariant\<close>

definition entries_wf :: "u64 \<Rightarrow> nat \<Rightarrow> 'v entries \<Rightarrow> bool" where
  "entries_wf cid b es \<longleftrightarrow> distinct (map fst es) \<and> (\<forall>k \<in> fst ` set es. key_cluster k = cid \<and> BlockID k = b)"

definition AM_wf :: "'v AddressMap \<Rightarrow> bool" where
  "AM_wf m \<longleftrightarrow> (\<forall>h. distinct (map cluster_id (hashtable m h)) \<and>
     (\<forall>c \<in> set (hashtable m h). HashInt (cluster_id c) = h \<and> (\<forall>b. entries_wf (cluster_id c) b (blocks c b))))"

lemma AM_wf_block: "AM_wf m \<Longrightarrow> entries_wf cid b (block_of m h cid b)"
proof (cases "find_cluster (hashtable m h) cid")
  case None
  then show ?thesis by (simp add: block_of_def entries_wf_def)
next
  case (Some i)
  then have "hashtable m h ! i \<in> set (hashtable m h)" "cluster_id (hashtable m h ! i) = cid"
    using find_cluster_Some by fastforce+
  moreover assume "AM_wf m"
  ultimately show ?thesis using Some unfolding AM_wf_def block_of_def by auto
qed

lemma AM_wf_set_block:
  assumes "AM_wf m" and "find_cluster (hashtable m h) cid = Some i" and "entries_wf cid b es"
  shows "AM_wf (set_block h i b es m)"
proof -
  have i: "i < length (hashtable m h)" "cluster_id (hashtable m h ! i) = cid"
    using find_cluster_Some [OF assms(2)] by auto
  have ids: "map cluster_id ((hashtable m h)[i := (hashtable m h ! i)\<lparr>blocks := bs\<rparr>])
      = map cluster_id (hashtable m h)" for bs
    by (rule nth_equalityI) (use i in \<open>simp_all add: nth_list_update\<close>)
  have oldwf: "entries_wf (cluster_id (hashtable m h ! i)) b' (blocks (hashtable m h ! i) b')" for b'
    using assms(1) nth_mem [OF i(1)] unfolding AM_wf_def by blast
  show ?thesis
    using assms(1,3) i oldwf unfolding AM_wf_def
    by (auto simp: set_block_def ids dest!: subsetD [OF set_update_subset_insert])
qed

lemma AM_wf_other_fields [simp]:
  "AM_wf (m\<lparr>free_entries := n\<rparr>) = AM_wf m" "AM_wf (m\<lparr>allocated := l\<rparr>) = AM_wf m"
  by (simp_all add: AM_wf_def)

lemma AM_New_frame:
  "AM_New alloc n (m, s) = Some (m', s') \<Longrightarrow> \<exists>l. m' = m\<lparr>allocated := l\<rparr>"
  by (auto simp: AM_New_def Let_def split: prod.splits if_splits)

text \<open>\<open>FindCluster\<close> with \<open>create\<close> leaves a chain that holds the cluster, and the same blocks.\<close>

lemma FindCluster_create:
  assumes "FindCluster alloc key True (m, s) = Some (r, m', s')" and "AM_wf m"
  shows "\<exists>i. r = Some (HashInt (key_cluster key), i) \<and>
      find_cluster (hashtable m' (HashInt (key_cluster key))) (key_cluster key) = Some i \<and>
      block_of m' = block_of m \<and> AM_wf m'"
proof (cases "find_cluster (hashtable m (HashInt (key_cluster key))) (key_cluster key)")
  case None
  let ?h = "HashInt (key_cluster key)"
  let ?c = "\<lparr>cluster_id = key_cluster key, blocks = \<lambda>_. []\<rparr> :: 'a Cluster"
  have n: "key_cluster key \<notin> cluster_id ` set (hashtable m ?h)" using None by (simp add: find_cluster_None)
  obtain l where r: "r = Some (?h, 0)" and m': "m' = m\<lparr>allocated := l, hashtable := (hashtable m)(?h := ?c # hashtable m ?h)\<rparr>"
    using assms(1) None AM_New_frame
    by (fastforce simp: FindCluster_def Let_def key_cluster_def Option.bind_eq_Some_conv)
  have "block_of m' h cid b = block_of m h cid b" for h cid b
    using None unfolding block_of_def m' by (auto split: option.split)
  moreover have "AM_wf m'"
    using assms(2) n unfolding AM_wf_def m' by (auto simp: entries_wf_def)
  ultimately show ?thesis using r m' by (auto simp: fun_eq_iff)
next
  case (Some i)
  then show ?thesis using assms by (auto simp: FindCluster_def Let_def key_cluster_def)
qed

lemma AM_Insert_new:
  assumes "AM_Insert alloc vsz key v (m, s) = Some (m', s')"
    and "FindCluster alloc key True (m, s) = Some (Some (h, i), m1, s1)"
    and "key \<notin> fst ` set (blocks (hashtable m1 h ! i) (BlockID key))"
  shows "\<exists>m2. m' = set_block h i (BlockID key) ((key, v) # blocks (hashtable m1 h ! i) (BlockID key)) m2
    \<and> block_of m2 = block_of m1 \<and> AM_wf m2 = AM_wf m1 \<and> hashtable m2 = hashtable m1"
proof (cases "free_entries m1 = 0")
  case True
  then obtain m3 s3 where m3: "AM_New alloc (word_of_nat ALLOC_COUNT * vsz) (m1, s1) = Some (m3, s3)"
    and m': "m' = set_block h i (BlockID key) ((key, v) # blocks (hashtable m1 h ! i) (BlockID key))
      (m3\<lparr>free_entries := ALLOC_COUNT - 1\<rparr>)"
    using assms by (auto simp: AM_Insert_def update_entry_spec Option.bind_eq_Some_conv Let_def)
  obtain l where "m3 = m1\<lparr>allocated := l\<rparr>" using AM_New_frame [OF m3] by blast
  then show ?thesis using m' by (intro exI [of _ "m3\<lparr>free_entries := ALLOC_COUNT - 1\<rparr>"]) simp
next
  case False
  then show ?thesis using assms
    by (intro exI [of _ "m1\<lparr>free_entries := free_entries m1 - 1\<rparr>"])
      (simp add: AM_Insert_def update_entry_spec Let_def)
qed

lemma AM_Insert_spec:
  assumes "AM_Insert alloc vsz key v (m, s) = Some (m', s')" and "AM_wf m"
  shows "AM_Find m' = (AM_Find m)(key := Some v) \<and> AM_wf m'"
proof -
  let ?h = "HashInt (key_cluster key)" and ?cid = "key_cluster key" and ?b = "BlockID key"
  obtain r m1 s1 where f: "FindCluster alloc key True (m, s) = Some (r, m1, s1)"
    using assms(1) by (auto simp: AM_Insert_def Option.bind_eq_Some_conv)
  from FindCluster_create [OF f assms(2)] obtain i where i: "r = Some (?h, i)"
    "find_cluster (hashtable m1 ?h) ?cid = Some i" "block_of m1 = block_of m" "AM_wf m1" by blast
  have blk: "blocks (hashtable m1 ?h ! i) ?b = block_at m key"
    using i(2,3) by (simp add: block_of_def fun_eq_iff) (metis option.simps(5))
  have wfb: "entries_wf ?cid ?b (block_at m key)" by (rule AM_wf_block [OF assms(2)])
  obtain m2 es where m2: "m' = set_block ?h i ?b es m2" "block_of m2 = block_of m" "AM_wf m2"
    "find_cluster (hashtable m2 ?h) ?cid = Some i"
    and es: "map_of es = (map_of (block_at m key))(key := Some v)" "entries_wf ?cid ?b es"
  proof (cases "key \<in> fst ` set (block_at m key)")
    case True
    then have "m' = set_block ?h i ?b (AList.update key v (block_at m key)) m1"
      using assms(1) f i(1) blk by (simp add: AM_Insert_def update_entry_spec Let_def)
    moreover have "entries_wf ?cid ?b (AList.update key v (block_at m key))"
    proof -
      have "fst ` set (AList.update key v (block_at m key)) = fst ` set (block_at m key)"
        using True by (auto simp: dom_update)
      then show ?thesis using wfb by (simp add: entries_wf_def distinct_update)
    qed
    ultimately show thesis using that i by (simp add: update_conv')
  next
    case False
    obtain m2 where "m' = set_block ?h i ?b ((key, v) # block_at m key) m2"
      "block_of m2 = block_of m1" "AM_wf m2 = AM_wf m1" "hashtable m2 = hashtable m1"
      using AM_Insert_new [OF assms(1) f [unfolded i(1)]] blk False by auto
    moreover have "entries_wf ?cid ?b ((key, v) # block_at m key)"
      using wfb False by (auto simp: entries_wf_def)
    ultimately show thesis using that i by simp
  qed
  have "AM_Find m' j = (if j = key then Some v else AM_Find m j)" for j
    unfolding AM_Find_block m2(1) block_of_set_block [OF m2(4)] m2(2) using es(1) by auto
  moreover have "AM_wf m'" unfolding m2(1) by (rule AM_wf_set_block [OF m2(3,4) es(2)])
  ultimately show ?thesis by (auto simp: fun_eq_iff)
qed

lemma AM_FindAndRemove_spec:
  assumes "AM_wf m"
  shows "fst (AM_FindAndRemove key m) = AM_Find m key"
    and "AM_Find (snd (AM_FindAndRemove key m)) = (AM_Find m)(key := None)"
    and "AM_wf (snd (AM_FindAndRemove key m))"
proof -
  let ?h = "HashInt (key_cluster key)" and ?cid = "key_cluster key" and ?b = "BlockID key"
  have wfb: "entries_wf ?cid ?b (block_at m key)" by (rule AM_wf_block [OF assms])
  have *: "fst (AM_FindAndRemove key m) = AM_Find m key \<and>
    AM_Find (snd (AM_FindAndRemove key m)) = (AM_Find m)(key := None) \<and> AM_wf (snd (AM_FindAndRemove key m))"
  proof (cases "find_cluster (hashtable m ?h) ?cid")
    case None
    then have "AM_FindAndRemove key m = (None, m)"
      by (simp add: AM_FindAndRemove_def Let_def key_cluster_def)
    moreover have "AM_Find m key = None" using None by (simp add: AM_Find_block block_of_def)
    ultimately show ?thesis using assms by (auto simp: fun_eq_iff)
  next
    case (Some i)
    have blk: "blocks (hashtable m ?h ! i) ?b = block_at m key" using Some by (simp add: block_of_def)
    have run: "AM_FindAndRemove key m = (case remove_entry (block_at m key) key of None \<Rightarrow> (None, m)
        | Some (v, es) \<Rightarrow> (Some v, set_block ?h i ?b es (m\<lparr>free_entries := Suc (free_entries m)\<rparr>)))"
      using Some blk unfolding AM_FindAndRemove_def Let_def key_cluster_def [symmetric] by simp
    show ?thesis
    proof (cases "remove_entry (block_at m key) key")
      case None
      then have "AM_Find m key = None" by (simp add: AM_Find_block remove_entry_None)
      then show ?thesis using run None assms by (auto simp: fun_eq_iff)
    next
      case (Some ves)
      obtain v es where ves: "ves = (v, es)" by fastforce
      from remove_entry_Some [OF _ Some [unfolded ves]] wfb
      have r: "map_of (block_at m key) key = Some v" "map_of es = (map_of (block_at m key))(key := None)"
        and wf: "entries_wf ?cid ?b es" by (auto simp: entries_wf_def)
      let ?m = "m\<lparr>free_entries := Suc (free_entries m)\<rparr>"
      have fc: "find_cluster (hashtable ?m ?h) ?cid = Some i"
        using \<open>find_cluster (hashtable m ?h) ?cid = Some i\<close> by simp
      have "AM_Find (set_block ?h i ?b es ?m) j = (if j = key then None else AM_Find m j)" for j
        unfolding AM_Find_block block_of_set_block [OF fc] using r by auto
      moreover have "AM_wf (set_block ?h i ?b es ?m)"
        by (rule AM_wf_set_block [OF _ fc wf]) (simp add: assms)
      ultimately show ?thesis using run Some ves r by (auto simp: fun_eq_iff AM_Find_block)
    qed
  qed
  then show "fst (AM_FindAndRemove key m) = AM_Find m key"
    and "AM_Find (snd (AM_FindAndRemove key m)) = (AM_Find m)(key := None)"
    and "AM_wf (snd (AM_FindAndRemove key m))" by blast+
qed

section \<open>The contract of a map\<close>

text \<open>
  What the profilers rely on: a finite map with insertion and removal, under an invariant of the
  provider.
\<close>

locale keyed_map =
  fixes find :: "'m \<Rightarrow> 'k \<Rightarrow> 'v option" and insert :: "'k \<Rightarrow> 'v \<Rightarrow> 'm \<Rightarrow> 'm option"
    and remove :: "'k \<Rightarrow> 'm \<Rightarrow> 'v option \<times> 'm" and inv :: "'m \<Rightarrow> bool"
  assumes find_insert: "inv m \<Longrightarrow> insert k v m = Some m' \<Longrightarrow> find m' = (find m)(k := Some v)"
    and insert_inv: "inv m \<Longrightarrow> insert k v m = Some m' \<Longrightarrow> inv m'"
    and remove_found: "inv m \<Longrightarrow> fst (remove k m) = find m k"
    and find_remove: "inv m \<Longrightarrow> find (snd (remove k m)) = (find m)(k := None)"
    and remove_inv: "inv m \<Longrightarrow> inv (snd (remove k m))"
begin

lemma remove_after_insert:
  assumes "inv m" "insert k v m = Some m'"
  shows "fst (remove k m') = Some v" and "find (snd (remove k m')) = (find m)(k := None)"
  using assms find_insert insert_inv by (simp_all add: remove_found find_remove)

lemma insert_twice:
  assumes "inv m" "insert k v m = Some m'" "insert k w m' = Some m''"
  shows "find m'' = (find m)(k := Some w)"
  using find_insert [OF assms(1,2)] find_insert [OF insert_inv [OF assms(1,2)] assms(3)] by simp

lemma remove_twice: "inv m \<Longrightarrow> fst (remove k (snd (remove k m))) = None"
  by (simp add: remove_found remove_inv find_remove)

end

text \<open>The map with the state of its allocator.\<close>

definition AM_Find_st :: "'v AddressMap \<times> 's \<Rightarrow> u64 \<Rightarrow> 'v option" where
  "AM_Find_st ms key = AM_Find (fst ms) key"

definition AM_Remove_st :: "u64 \<Rightarrow> 'v AddressMap \<times> 's \<Rightarrow> 'v option \<times> 'v AddressMap \<times> 's" where
  "AM_Remove_st key ms = (let (r, m) = AM_FindAndRemove key (fst ms) in (r, m, snd ms))"

interpretation am: keyed_map AM_Find_st "AM_Insert alloc vsz" AM_Remove_st "\<lambda>ms. AM_wf (fst ms)"
  for alloc vsz
proof unfold_locales
  fix ms ms' :: "'a AddressMap \<times> 'b" and k v
  assume "AM_wf (fst ms)" "AM_Insert alloc vsz k v ms = Some ms'"
  then show "AM_Find_st ms' = (AM_Find_st ms)(k := Some v)" "AM_wf (fst ms')"
    using AM_Insert_spec [of alloc vsz k v "fst ms" "snd ms" "fst ms'" "snd ms'"]
    by (simp_all add: AM_Find_st_def fun_eq_iff)
next
  fix ms :: "'a AddressMap \<times> 'b" and k
  assume "AM_wf (fst ms)"
  then show "fst (AM_Remove_st k ms) = AM_Find_st ms k"
    "AM_Find_st (snd (AM_Remove_st k ms)) = (AM_Find_st ms)(k := None)"
    "AM_wf (fst (snd (AM_Remove_st k ms)))"
    using AM_FindAndRemove_spec [of "fst ms" k]
    by (simp_all add: AM_Find_st_def AM_Remove_st_def fun_eq_iff case_prod_beta)
qed

section \<open>Iteration\<close>

lemma distinct_concat_map:
  "distinct xs \<Longrightarrow> (\<And>x. x \<in> set xs \<Longrightarrow> distinct (f x)) \<Longrightarrow>
   (\<And>x y. x \<in> set xs \<Longrightarrow> y \<in> set xs \<Longrightarrow> x \<noteq> y \<Longrightarrow> set (f x) \<inter> set (f y) = {}) \<Longrightarrow>
   distinct (concat (map f xs))"
  by (induction xs) auto

lemma HashInt_bound: "HashInt x < kHashSize"
proof -
  have "unat (drop_bit 20 y :: u32) < 4096" for y
    unfolding unat_drop_bit_div by (rule less_mult_imp_div_less) (use unsigned_less [of y, where 'a = nat] in simp)
  then show ?thesis by (simp add: HashInt_def Let_def address_map_consts)
qed

lemma BlockID_bound: "BlockID key < unat kClusterBlocks"
proof -
  have "unat (x AND 8191 :: u64) < 8192" for x
    by (rule le_less_trans [OF word_le_nat_alt [THEN iffD1, OF word_and_le1]]) simp
  then show ?thesis by (simp add: BlockID_def address_map_consts)
qed

lemma AM_wf_cluster:
  assumes "AM_wf m" "c \<in> set (hashtable m h)" "k \<in> fst ` set (blocks c b)"
  shows "cluster_id c = key_cluster k \<and> h = HashInt (key_cluster k) \<and> b = BlockID k"
  using assms unfolding AM_wf_def entries_wf_def by metis

lemma AM_entries_mem:
  assumes "AM_wf m"
  shows "(k, v) \<in> set (AM_entries m) \<longleftrightarrow> AM_Find m k = Some v"
proof -
  let ?h = "HashInt (key_cluster k)" and ?cid = "key_cluster k" and ?b = "BlockID k"
  have d: "distinct (map fst (block_at m k))"
    using AM_wf_block [OF assms] unfolding entries_wf_def by blast
  have "(k, v) \<in> set (AM_entries m) \<longleftrightarrow>
      (\<exists>h < kHashSize. \<exists>c \<in> set (hashtable m h). \<exists>b < unat kClusterBlocks. (k, v) \<in> set (blocks c b))"
    unfolding AM_entries_def by force
  also have "\<dots> \<longleftrightarrow> (\<exists>c \<in> set (hashtable m ?h). cluster_id c = ?cid \<and> (k, v) \<in> set (blocks c ?b))"
    using AM_wf_cluster [OF assms] HashInt_bound BlockID_bound by (metis fst_conv image_eqI)
  also have "\<dots> \<longleftrightarrow> (k, v) \<in> set (block_at m k)"
  proof -
    have dis: "distinct (map cluster_id (hashtable m ?h))" using assms by (simp add: AM_wf_def)
    show ?thesis
    proof (cases "find_cluster (hashtable m ?h) ?cid")
      case None
      then show ?thesis
        by (simp add: block_of_def) (metis None find_cluster_None imageI)
    next
      case (Some i)
      then show ?thesis
        using find_cluster_Some [OF Some] find_cluster_mem [OF dis] nth_mem
        by (fastforce simp: block_of_def)
    qed
  qed
  also have "\<dots> \<longleftrightarrow> AM_Find m k = Some v"
    unfolding AM_Find_block using d by (metis map_of_eq_Some_iff)
  finally show ?thesis .
qed

lemma AM_entries_distinct:
  assumes "AM_wf m"
  shows "distinct (map fst (AM_entries m))"
proof -
  note mem = AM_wf_cluster [OF assms]
  have wf: "distinct (map fst (blocks c b))" if "c \<in> set (hashtable m h)" for c h b
    using assms that unfolding AM_wf_def entries_wf_def by blast
  have dc: "distinct (hashtable m h)" and inj: "inj_on cluster_id (set (hashtable m h))" for h
    using assms unfolding AM_wf_def by (auto simp: distinct_map)
  have cl: "distinct (concat (map (\<lambda>b. map fst (blocks c b)) [0..<unat kClusterBlocks]))"
    if "c \<in> set (hashtable m h)" for c h
    by (rule distinct_concat_map) (use that wf mem in \<open>auto simp: disjoint_iff\<close>, metis fst_conv image_eqI)
  have hs: "distinct (concat (map (\<lambda>c. concat (map (\<lambda>b. map fst (blocks c b)) [0..<unat kClusterBlocks])) (hashtable m h)))"
    for h
  proof (rule distinct_concat_map)
    fix c d assume c: "c \<in> set (hashtable m h)" "d \<in> set (hashtable m h)" "c \<noteq> d"
    then have "cluster_id c \<noteq> cluster_id d" using inj by (auto dest: inj_onD)
    then show "set (concat (map (\<lambda>b. map fst (blocks c b)) [0..<unat kClusterBlocks])) \<inter>
      set (concat (map (\<lambda>b. map fst (blocks d b)) [0..<unat kClusterBlocks])) = {}"
      using mem [OF c(1)] mem [OF c(2)] by (auto simp: disjoint_iff) (metis fst_conv image_eqI)
  qed (use dc cl in auto)
  have "map fst (AM_entries m) = concat (map (\<lambda>h. concat (map (\<lambda>c. concat (map (\<lambda>b. map fst (blocks c b))
      [0..<unat kClusterBlocks])) (hashtable m h))) [0..<kHashSize])"
    by (simp add: AM_entries_def map_concat comp_def)
  also have "distinct \<dots>"
  proof (rule distinct_concat_map)
    fix h h' assume "h \<noteq> (h'::nat)"
    then show "set (concat (map (\<lambda>c. concat (map (\<lambda>b. map fst (blocks c b)) [0..<unat kClusterBlocks])) (hashtable m h))) \<inter>
      set (concat (map (\<lambda>c. concat (map (\<lambda>b. map fst (blocks c b)) [0..<unat kClusterBlocks])) (hashtable m h'))) = {}"
      using mem by (auto simp: disjoint_iff) (metis fst_conv image_eqI)
  qed (use hs in auto)
  finally show ?thesis .
qed

section \<open>Properties\<close>

lemma AM_init_empty:
  "AM_init alloc s = Some (m, s') \<Longrightarrow> AM_wf m \<and> AM_Find m = (\<lambda>_. None)"
  by (auto simp: AM_init_def AM_New_def Let_def AM_wf_def AM_Find_def fun_eq_iff split: prod.splits if_splits)

text \<open>
  C20. The address map is a finite map: an insertion changes the value of its key only, a removal
  reports the value stored last and forgets it, and the cluster, block and chain structure that
  this rests on is kept by both.
\<close>

theorem AddressMap_is_map:
  assumes "AM_wf m" and "AM_Insert alloc vsz key v (m, s) = Some (m', s')"
  shows "AM_wf m' \<and> AM_Find m' = (AM_Find m)(key := Some v) \<and>
    fst (AM_FindAndRemove key m') = Some v \<and>
    AM_Find (snd (AM_FindAndRemove key m')) = (AM_Find m)(key := None) \<and>
    AM_wf (snd (AM_FindAndRemove key m'))"
  using am.insert_inv [of "(m, s)" alloc vsz key v "(m', s')"] am.find_insert [of "(m, s)" alloc vsz key v "(m', s')"]
    am.remove_after_insert [of "(m, s)" alloc vsz key v "(m', s')"] am.remove_inv [of "(m', s')" key] assms
  by (simp add: AM_Find_st_def AM_Remove_st_def case_prod_beta fun_eq_iff)

text \<open>A run: construct, insert at 4100, with an allocator that hands out consecutive memory.\<close>

definition bump :: "u64 \<Rightarrow> u64 \<Rightarrow> u64 \<times> u64" where
  "bump n s = (s, s + n)"

lemma bump_run:
  "\<exists>m s m' s'. AM_init bump 4096 = Some (m, s) \<and> AM_Insert bump 24 4100 (7 :: nat) (m, s) = Some (m', s')
     \<and> AM_Find m' 4100 = Some 7 \<and> AM_Find m' 4101 = None"
  by (simp add: AM_init_def AM_Insert_def FindCluster_def AM_New_def bump_def Let_def AM_Find_def
      address_map_consts set_block_def HashInt_def)

lemma AddressMap_is_map_witness:
  "\<exists>m s m' s'. AM_init bump 4096 = Some (m, s) \<and> AM_Insert bump 24 4100 (7 :: nat) (m, s) = Some (m', s') \<and>
     AM_wf m' \<and> fst (AM_FindAndRemove 4100 m') = Some 7"
proof -
  obtain m s m' s' where r: "AM_init bump 4096 = Some (m, s)"
    "AM_Insert bump 24 4100 (7 :: nat) (m, s) = Some (m', s')" using bump_run by blast
  have "AM_wf m" using AM_init_empty [OF r(1)] by blast
  from AddressMap_is_map [OF this r(2)] r show ?thesis by blast
qed

text \<open>
  \<open>Iterate\<close> calls the callback on every stored pair, and on each key once: the recorded
  sequence of calls is an enumeration of the map.
\<close>

theorem AM_Iterate_visits:
  assumes "AM_wf m"
  shows "let calls = AM_Iterate (\<lambda>k v calls. calls @ [(k, v)]) m [] in
    set calls = {(k, v). AM_Find m k = Some v} \<and> distinct (map fst calls)"
proof -
  have "fold (\<lambda>(k, v) calls. calls @ [(k, v)]) es acc = acc @ es" for es acc :: "(u64 \<times> 'a) list"
    by (induction es arbitrary: acc) auto
  then show ?thesis
    using AM_entries_mem [OF assms] AM_entries_distinct [OF assms] by (auto simp: AM_Iterate_def Let_def)
qed

lemma AM_Iterate_visits_witness:
  "\<exists>m s m' s'. AM_init bump 4096 = Some (m, s) \<and> AM_Insert bump 24 4100 (7 :: nat) (m, s) = Some (m', s') \<and>
     (4100, 7) \<in> set (AM_Iterate (\<lambda>k v calls. calls @ [(k, v)]) m' [])"
proof -
  obtain m s m' s' where r: "AM_init bump 4096 = Some (m, s)"
    "AM_Insert bump 24 4100 (7 :: nat) (m, s) = Some (m', s')" "AM_Find m' 4100 = Some 7"
    using bump_run by blast
  have "AM_wf m'" using AM_Insert_spec [OF r(2)] AM_init_empty [OF r(1)] by blast
  from AM_Iterate_visits [OF this] r show ?thesis by (fastforce simp: Let_def)
qed

end
