(* ===== verification/Stats.thy ===== *)
theory Stats
  imports FrontEnd
begin

text \<open>
  What the allocator reports about itself: \<open>ExtractStats\<close>, the numeric properties of
  \<open>TCMallocImplementation\<close>, \<open>mallinfo\<close>, the reports of \<open>DumpStats\<close> and
  \<open>TCMalloc_PageHeap::Dump\<close>, the sampled stack traces, and the bounded \<open>TCMalloc_Printer\<close>.

  A \<open>printf\<close> of a report is recorded as its label and the integers it prints; sizes in megabytes
  appear as the byte counts that the code divides.
\<close>

section \<open>Counters\<close>

record tcmalloc_stats =
  st_system_bytes :: u64
  st_thread_bytes :: u64
  st_central_bytes :: u64
  st_transfer_bytes :: u64
  st_pageheap_bytes :: u64
  st_metadata_bytes :: u64

text \<open>The addresses of the caches in \<open>thread_heaps\<close>, in list order.\<close>

partial_function (option) heap_list :: "'a tcmalloc_scheme \<Rightarrow> u64 \<Rightarrow> u64 list \<Rightarrow> u64 list option" where
  "heap_list h c acc = (if c = 0 then Some acc else heap_list h (tc_next (caches h c)) (acc @ [c]))"

declare heap_list.simps [code]

definition ExtractStats :: "'a tcmalloc_scheme \<Rightarrow> (tcmalloc_stats \<times> (nat \<Rightarrow> u64)) option" where
  "ExtractStats h = do {
     cs \<leftarrow> heap_list h (thread_heaps h) [];
     let sz = (\<lambda>cl. ByteSizeForClass (tables h) (word_of_nat cl));
     Some (\<lparr>st_system_bytes = system_bytes h,
            st_thread_bytes = (\<Sum>c\<leftarrow>cs. tc_size (caches h c)),
            st_central_bytes = (\<Sum>cl\<leftarrow>[0..<kNumClasses]. sz cl * word_of_int (Central_length cl h)),
            st_transfer_bytes = (\<Sum>cl\<leftarrow>[0..<kNumClasses]. sz cl * word_of_int (Central_tc_length cl h)),
            st_pageheap_bytes = FreeBytes h,
            st_metadata_bytes = metadata_system_bytes (meta h)\<rparr>,
           \<lambda>cl. word_of_int (Central_length cl h + Central_tc_length cl h)
             + (\<Sum>c\<leftarrow>cs. ucast (fl_length (tc_list (caches h c) cl)))) }"

section \<open>Numeric properties\<close>

definition GetNumericProperty :: "string \<Rightarrow> 'a tcmalloc_scheme \<Rightarrow> u64 option option" where
  "GetNumericProperty name h = do {
     (st, _) \<leftarrow> ExtractStats h;
     Some (if name = ''generic.current_allocated_bytes'' then
             Some (st_system_bytes st - st_thread_bytes st - st_central_bytes st - st_pageheap_bytes st)
           else if name = ''generic.heap_size'' then Some (st_system_bytes st)
           else if name = ''tcmalloc.slack_bytes'' then Some (FreeBytes h)
           else if name = ''tcmalloc.max_total_thread_cache_bytes'' then Some (overall_thread_cache_size h)
           else if name = ''tcmalloc.current_total_thread_cache_bytes'' then Some (st_thread_bytes st)
           else None) }"

definition SetNumericProperty :: "string \<Rightarrow> u64 \<Rightarrow> 'a tcmalloc_scheme \<Rightarrow> bool \<times> 'a tcmalloc_scheme" where
  "SetNumericProperty name value h =
     (if name = ''tcmalloc.max_total_thread_cache_bytes'' then
        let value = (if value < kMinThreadCacheSize then kMinThreadCacheSize else value);
            value = (if value > push_bit 30 1 then push_bit 30 1 else value)
        in (True, RecomputeThreadCacheSize (h\<lparr>overall_thread_cache_size := value\<rparr>))
      else (False, h))"

record mallinfo_t =
  mi_arena :: int
  mi_fsmblks :: int
  mi_uordblks :: int
  mi_fordblks :: int

definition mallinfo :: "'a tcmalloc_scheme \<Rightarrow> mallinfo_t option" where
  "mallinfo h = do {
     (st, _) \<leftarrow> ExtractStats h;
     Some \<lparr>mi_arena = to_int32 (st_system_bytes st),
           mi_fsmblks = to_int32 (st_thread_bytes st + st_central_bytes st + st_transfer_bytes st),
           mi_uordblks = to_int32 (st_system_bytes st - st_thread_bytes st - st_central_bytes st
                                   - st_transfer_bytes st - st_pageheap_bytes st),
           mi_fordblks = to_int32 (st_pageheap_bytes st)\<rparr> }"

definition mallopt :: "int \<Rightarrow> int \<Rightarrow> int" where
  "mallopt cmd value = 1"

section \<open>Reports\<close>

type_synonym report = "(string \<times> u64 list) list"

text \<open>One line per non-empty free list: length, spans, bytes, cumulated bytes.\<close>

fun Dump_sizes :: "nat list \<Rightarrow> u64 \<Rightarrow> 'a page_heap_scheme \<Rightarrow> (report \<times> u64) option" where
  "Dump_sizes [] cumulative h = Some ([], cumulative)"
| "Dump_sizes (s # ss) cumulative h =
     (if \<not> DLL_IsEmpty (FreeHead s) (spans_of h) then do {
        list_length \<leftarrow> DLL_Length (FreeHead s) (spans_of h);
        let s_pages = word_of_nat s * word_of_nat list_length;
        let cumulative = cumulative + s_pages;
        (rest, total) \<leftarrow> Dump_sizes ss cumulative h;
        Some ((''free list'', [word_of_nat s, word_of_nat list_length, push_bit kPageShift s_pages,
               push_bit kPageShift cumulative]) # rest, total) }
      else Dump_sizes ss cumulative h)"

partial_function (option) Dump_large :: "'a page_heap_scheme \<Rightarrow> sref \<Rightarrow> report \<Rightarrow> u64 \<Rightarrow> u64 \<Rightarrow> (report \<times> u64 \<times> u64) option" where
  "Dump_large h s out large_pages large_spans =
     (if s = LargeHead then Some (out, large_pages, large_spans)
      else Option.bind (rd s (spans_of h)) (\<lambda>x.
        Dump_large h (span_next x) (out @ [(''large span'', [span_length x])])
          (large_pages + span_length x) (large_spans + 1)))"

declare Dump_large.simps [code]

definition PH_Dump :: "'a page_heap_scheme \<Rightarrow> report option" where
  "PH_Dump h = do {
     let nonempty_sizes = length (filter (\<lambda>s. \<not> DLL_IsEmpty (FreeHead s) (spans_of h)) [0..<unat kMaxPages]);
     (sizes, cumulative) \<leftarrow> Dump_sizes [0..<unat kMaxPages] 0 h;
     (larges, large_pages, large_spans) \<leftarrow> Dump_large h (span_next (spans_of h LargeHead)) [] 0 0;
     let cumulative = cumulative + large_pages;
     Some ([(''PageHeap'', [word_of_nat nonempty_sizes, free_pages h * kPageSize])] @ sizes @ larges
       @ [(''large'', [large_spans, push_bit kPageShift large_pages, push_bit kPageShift cumulative])]) }"

fun Dump_classes :: "nat list \<Rightarrow> (nat \<Rightarrow> u64) \<Rightarrow> u64 \<Rightarrow> 'a tcmalloc_scheme \<Rightarrow> report" where
  "Dump_classes [] class_count cumulative h = []"
| "Dump_classes (cl # cls) class_count cumulative h =
     (if class_count cl > 0 then
        let class_bytes = class_count cl * ByteSizeForClass (tables h) (word_of_nat cl);
            cumulative = cumulative + class_bytes
        in (''class'', [word_of_nat cl, ByteSizeForClass (tables h) (word_of_nat cl), class_count cl,
              class_bytes, cumulative]) # Dump_classes cls class_count cumulative h
      else Dump_classes cls class_count cumulative h)"

definition DumpStats :: "int \<Rightarrow> 'a tcmalloc_scheme \<Rightarrow> report option" where
  "DumpStats level h = do {
     (st, class_count) \<leftarrow> ExtractStats h;
     detail \<leftarrow> (if level \<ge> 2 then do {
                  heap \<leftarrow> PH_Dump h;
                  Some (Dump_classes [0..<kNumClasses] class_count 0 h @ heap) }
                else Some []);
     let bytes_in_use = st_system_bytes st - st_pageheap_bytes st - st_central_bytes st
                        - st_transfer_bytes st - st_thread_bytes st;
     Some (detail @ [(''MALLOC'', [st_system_bytes st, bytes_in_use, st_pageheap_bytes st,
       st_central_bytes st, st_transfer_bytes st, st_thread_bytes st,
       word_of_int (inuse (span_allocator h)), word_of_int (inuse (threadheap_allocator h)),
       st_metadata_bytes st])]) }"

definition GetStats :: "int \<Rightarrow> 'a tcmalloc_scheme \<Rightarrow> report option" where
  "GetStats buffer_length h = do {
     ASSERT (buffer_length > 0);
     if buffer_length < 10000 then DumpStats 1 h else DumpStats 2 h }"

section \<open>Sampled stack traces\<close>

text \<open>The traces on \<open>sampled_objects\<close>, in list order.\<close>

partial_function (option) sampled_list :: "'a page_heap_scheme \<Rightarrow> sref \<Rightarrow> stack_trace list \<Rightarrow> stack_trace list option" where
  "sampled_list h s acc =
     (if s = SampledHead then Some acc
      else Option.bind (rd s (spans_of h)) (\<lambda>x. sampled_list h (span_next x) (acc @ [traces h (span_objects x)])))"

declare sampled_list.simps [code]

definition needed_slots :: "stack_trace list \<Rightarrow> nat" where
  "needed_slots sts = (let n = (\<Sum>t\<leftarrow>sts. 3 + st_depth t) + 100 in n + n div 8)"

fun trace_words :: "nat \<Rightarrow> nat \<Rightarrow> stack_trace list \<Rightarrow> u64 list option" where
  "trace_words needed used [] = Some [0]"
| "trace_words needed used (t # ts) = do {
     ASSERT (used < needed);
     if used + 3 + st_depth t \<ge> needed then Some [0]
     else do {
       rest \<leftarrow> trace_words needed (used + 3 + st_depth t) ts;
       Some ([1, st_size t, word_of_nat (st_depth t)] @ map (st_stack t) [0..<st_depth t] @ rest) } }"

definition write_words :: "u64 \<Rightarrow> u64 list \<Rightarrow> mem \<Rightarrow> mem" where
  "write_words p vs m = fold (\<lambda>(i, v). store64 (p + word_of_nat (8 * i)) v) (enumerate 0 vs) m"

text \<open>
  \<open>DumpStackTraces\<close> allocates its result with \<open>operator new[]\<close>, then walks the list again. The
  walk writes the words and a final 0 into the array.
\<close>

definition DumpStackTraces ::
  "tc_config \<Rightarrow> ('a tcmalloc_scheme \<Rightarrow> ('a tcmalloc_scheme \<times> bool) option) \<Rightarrow> u64 \<Rightarrow>
   'a tcmalloc_scheme \<Rightarrow> (new_result \<times> 'a tcmalloc_scheme) option" where
  "DumpStackTraces cfg handler me h = do {
     sts \<leftarrow> sampled_list h (span_next (spans_of h SampledHead)) [];
     let needed = needed_slots sts;
     (result, h) \<leftarrow> operator_new cfg handler me (8 * word_of_nat needed) h;
     case result of
       BadAlloc \<Rightarrow> Some (BadAlloc, h)
     | Pointer p \<Rightarrow>
         if p = 0 then Some (Pointer 0, h)
         else do {
           sts \<leftarrow> sampled_list h (span_next (spans_of h SampledHead)) [];
           words \<leftarrow> trace_words needed 0 sts;
           Some (Pointer p, h\<lparr>mem := write_words p words (mem h)\<rparr>) } }"

section \<open>The printer\<close>

text \<open>
  \<open>TCMalloc_Printer::printf\<close> on the text \<open>s\<close> that the format expands to: \<open>vsnprintf\<close> stores at
  most \<open>left_ - 1\<close> characters and returns the length of \<open>s\<close>. \<open>pr_text\<close> is what the buffer holds.
\<close>

record printer =
  pr_text :: string
  pr_left :: int

definition Printer_init :: "int \<Rightarrow> printer" where
  "Printer_init len = \<lparr>pr_text = [], pr_left = len\<rparr>"

definition Printer_printf :: "string \<Rightarrow> printer \<Rightarrow> printer" where
  "Printer_printf s p =
     (if pr_left p > 0 then
        let r = int (length s);
            p = p\<lparr>pr_text := pr_text p @ take (nat (pr_left p - 1)) s\<rparr>
        in if r > pr_left p then p\<lparr>pr_left := 0\<rparr> else p\<lparr>pr_left := pr_left p - r\<rparr>
      else p)"

lemma Printer_printf_bound:
  assumes "int (length (pr_text p)) + pr_left p \<le> n" and "int (length (pr_text p)) < n" and "0 \<le> pr_left p"
  shows "int (length (pr_text (Printer_printf s p))) < n \<and> 0 \<le> pr_left (Printer_printf s p)
    \<and> (0 < pr_left (Printer_printf s p) \<longrightarrow> int (length (pr_text (Printer_printf s p))) + pr_left (Printer_printf s p) \<le> n)"
  using assms by (auto simp: Printer_printf_def Let_def)

text \<open>
  However much is printed, the text in the buffer stays shorter than the buffer, and as long
  as every \<open>printf\<close> fits nothing is cut: the buffer holds the concatenation of all texts.
\<close>

theorem Printer_bounded:
  assumes "0 < n"
  shows "let p = fold Printer_printf texts (Printer_init n) in
    int (length (pr_text p)) < n \<and>
    (int (length (concat texts)) < n \<longrightarrow> pr_text p = concat texts \<and> pr_left p = n - int (length (concat texts)))"
proof -
  let ?I = "\<lambda>p. int (length (pr_text p)) < n \<and> 0 \<le> pr_left p \<and> (0 < pr_left p \<longrightarrow> int (length (pr_text p)) + pr_left p \<le> n)"
  have step: "?I (Printer_printf s p)" if "?I p" for s p
  proof (cases "0 < pr_left p")
    case True
    then show ?thesis using that Printer_printf_bound [of p n s] by simp
  next
    case False
    then show ?thesis using that by (simp add: Printer_printf_def)
  qed
  have "?I (fold Printer_printf texts p)" if "?I p" for texts p
    using that by (induction texts arbitrary: p) (simp_all add: step)
  from this [of "Printer_init n" texts] have 1: "int (length (pr_text (fold Printer_printf texts (Printer_init n)))) < n"
    using assms by (simp add: Printer_init_def)
  have "pr_text (fold Printer_printf ts p) = pr_text p @ concat ts \<and> pr_left (fold Printer_printf ts p) = pr_left p - int (length (concat ts))"
    if "int (length (concat ts)) < pr_left p" for ts p
    using that
  proof (induction ts arbitrary: p)
    case (Cons s ts)
    then show ?case using Cons.IH [of "Printer_printf s p"] by (simp add: Printer_printf_def Let_def)
  qed simp
  from this [of texts "Printer_init n"] 1 show ?thesis by (simp add: Printer_init_def Let_def)
qed

lemma Printer_bounded_witness:
  "length (pr_text (fold Printer_printf [''abc'', ''defgh''] (Printer_init 6))) < 6"
  using Printer_bounded [of 6 "[''abc'', ''defgh'']"] by (simp add: Let_def)

lemma clamp_eq:
  "(if (if v < a then a else v) > b then b else (if v < a then a else v)) = max a (min b v)"
  if "a \<le> b" for a b v :: u64
  using that by (auto simp: max_def min_def not_le not_less intro: order_trans)

lemma RecomputeThreadCacheSize_eq:
  "RecomputeThreadCacheSize h = h\<lparr>per_thread_cache_size := max 0x10000 (min 0x200000
     (overall_thread_cache_size h div word_of_int (max 1 (thread_heap_count h))))\<rparr>"
proof -
  have c: "kMinThreadCacheSize = 0x10000" "kMaxThreadCacheSize = 0x200000"
    by (simp_all add: kMinThreadCacheSize_def kMaxThreadCacheSize_def kMaxSize_def kPageSize_def)
  have n: "(if thread_heap_count h > 0 then thread_heap_count h else 1) = max 1 (thread_heap_count h)" by simp
  have le: "(0x10000 :: u64) \<le> 0x200000" by simp
  show ?thesis unfolding RecomputeThreadCacheSize_def Let_def c n clamp_eq [OF le] ..
qed

text \<open>
  Setting the budget of all thread caches stores the value clamped to between 64 KB and 1 GB,
  reads back as that, and leaves every thread an equal share of it, clamped to between 64 KB and
  2 MB; an unknown property name changes nothing.
\<close>

theorem SetNumericProperty_clamps:
  "SetNumericProperty name v h =
     (if name = ''tcmalloc.max_total_thread_cache_bytes''
      then (True, h\<lparr>overall_thread_cache_size := max 0x10000 (min 0x40000000 v),
                    per_thread_cache_size := max 0x10000 (min 0x200000
                      (max 0x10000 (min 0x40000000 v) div word_of_int (max 1 (thread_heap_count h))))\<rparr>)
      else (False, h))"
proof (cases "name = ''tcmalloc.max_total_thread_cache_bytes''")
  case True
  have c: "kMinThreadCacheSize = 0x10000" "push_bit 30 1 = (0x40000000 :: u64)"
    by (simp_all add: kMinThreadCacheSize_def kMaxSize_def kPageSize_def)
  have le: "(0x10000 :: u64) \<le> 0x40000000" by simp
  show ?thesis
    unfolding SetNumericProperty_def Let_def c clamp_eq [OF le] if_P [OF True]
    by (simp only: RecomputeThreadCacheSize_eq) simp
next
  case False
  then show ?thesis by (simp only: SetNumericProperty_def if_False)
qed

end
