(* ===== verification/MallocHk.thy ===== *)
theory MallocHk
  imports Prelude
begin

text \<open>
  The allocation hooks: \<open>MallocHk\<close> of \<open>mallochk.hpp\<close> and the wrappers of \<open>mmap\<close> and \<open>munmap\<close> in
  \<open>malloc_hook.cpp\<close>, for both x86 builds.

  A hook is the address of a function of the client, 0 for none. What it does is not modelled; the
  calls are recorded in \<open>hk_calls\<close>, latest first. The kernel is a parameter: a function from the
  call and a state of its own to the result and the new state.
\<close>

section \<open>Hooks\<close>

datatype hk_call =
    New_call u64 u64 u64
  | Delete_call u64 u64
  | Mmap_call u64 u64 u64 u64 int int int u64
  | Munmap_call u64 u64 u64

record malloc_hk =
  hk_new :: u64
  hk_delete :: u64
  hk_mmap :: u64
  hk_munmap :: u64
  hk_calls :: "hk_call list"

definition malloc_hk_init :: malloc_hk where
  "malloc_hk_init = \<lparr>hk_new = 0, hk_delete = 0, hk_mmap = 0, hk_munmap = 0, hk_calls = []\<rparr>"

definition Hk_SetNewHook :: "u64 \<Rightarrow> 'a malloc_hk_scheme \<Rightarrow> u64 \<times> 'a malloc_hk_scheme" where
  "Hk_SetNewHook hook h = (hk_new h, h\<lparr>hk_new := hook\<rparr>)"

definition Hk_SetDeleteHook :: "u64 \<Rightarrow> 'a malloc_hk_scheme \<Rightarrow> u64 \<times> 'a malloc_hk_scheme" where
  "Hk_SetDeleteHook hook h = (hk_delete h, h\<lparr>hk_delete := hook\<rparr>)"

definition SetMmapHook :: "u64 \<Rightarrow> 'a malloc_hk_scheme \<Rightarrow> u64 \<times> 'a malloc_hk_scheme" where
  "SetMmapHook hook h = (hk_mmap h, h\<lparr>hk_mmap := hook\<rparr>)"

definition SetMunmapHook :: "u64 \<Rightarrow> 'a malloc_hk_scheme \<Rightarrow> u64 \<times> 'a malloc_hk_scheme" where
  "SetMunmapHook hook h = (hk_munmap h, h\<lparr>hk_munmap := hook\<rparr>)"

definition Hk_InvokeNewHook :: "u64 \<Rightarrow> u64 \<Rightarrow> 'a malloc_hk_scheme \<Rightarrow> 'a malloc_hk_scheme" where
  "Hk_InvokeNewHook p s h =
     (if hk_new h \<noteq> 0 then h\<lparr>hk_calls := New_call (hk_new h) p s # hk_calls h\<rparr> else h)"

definition Hk_InvokeDeleteHook :: "u64 \<Rightarrow> 'a malloc_hk_scheme \<Rightarrow> 'a malloc_hk_scheme" where
  "Hk_InvokeDeleteHook p h =
     (if hk_delete h \<noteq> 0 then h\<lparr>hk_calls := Delete_call (hk_delete h) p # hk_calls h\<rparr> else h)"

definition InvokeMmapHook :: "u64 \<Rightarrow> u64 \<Rightarrow> u64 \<Rightarrow> int \<Rightarrow> int \<Rightarrow> int \<Rightarrow> u64 \<Rightarrow> 'a malloc_hk_scheme \<Rightarrow> 'a malloc_hk_scheme" where
  "InvokeMmapHook result start len prot flags fd offset h =
     (if hk_mmap h \<noteq> 0 then h\<lparr>hk_calls := Mmap_call (hk_mmap h) result start len prot flags fd offset # hk_calls h\<rparr> else h)"

definition InvokeMunmapHook :: "u64 \<Rightarrow> u64 \<Rightarrow> 'a malloc_hk_scheme \<Rightarrow> 'a malloc_hk_scheme" where
  "InvokeMunmapHook p len h =
     (if hk_munmap h \<noteq> 0 then h\<lparr>hk_calls := Munmap_call (hk_munmap h) p len # hk_calls h\<rparr> else h)"

section \<open>The wrappers\<close>

text \<open>The system calls, with the error number that the kernel sets (unchanged on success).\<close>

datatype sys_call =
    SYS_mmap u64 u64 int int int u64
  | SYS_mmap2 u64 u64 int int int u32
  | SYS_munmap u64 u64

definition MMAP_FAILED :: u64 where "MMAP_FAILED = - 1"
definition E_INVAL :: int where "E_INVAL = 22"
definition E_NOSYS :: int where "E_NOSYS = 38"

type_synonym 's kern = "sys_call \<Rightarrow> 's \<Rightarrow> (u64 \<times> int) \<times> 's"

definition mmap64_x86_64 ::
  "'s kern \<Rightarrow> u64 \<Rightarrow> u64 \<Rightarrow> int \<Rightarrow> int \<Rightarrow> int \<Rightarrow> u64 \<Rightarrow> 'a malloc_hk_scheme \<times> 's \<Rightarrow> u64 \<times> 'a malloc_hk_scheme \<times> 's" where
  "mmap64_x86_64 kern start len prot flags fd offset = (\<lambda>(h, s).
     let ((result, _), s) = kern (SYS_mmap start len prot flags fd offset) s
     in (result, InvokeMmapHook result start len prot flags fd offset h, s))"

definition mmap_x86_64 ::
  "'s kern \<Rightarrow> u64 \<Rightarrow> u64 \<Rightarrow> int \<Rightarrow> int \<Rightarrow> int \<Rightarrow> u64 \<Rightarrow> 'a malloc_hk_scheme \<times> 's \<Rightarrow> u64 \<times> 'a malloc_hk_scheme \<times> 's" where
  "mmap_x86_64 = mmap64_x86_64"

definition munmap_hooked :: "'s kern \<Rightarrow> u64 \<Rightarrow> u64 \<Rightarrow> 'a malloc_hk_scheme \<times> 's \<Rightarrow> u64 \<times> 'a malloc_hk_scheme \<times> 's" where
  "munmap_hooked kern start len = (\<lambda>(h, s).
     let h = InvokeMunmapHook start len h;
         ((result, _), s) = kern (SYS_munmap start len) s
     in (result, h, s))"

text \<open>
  The 32-bit build: \<open>mmap2\<close> takes the offset in pages, as a 32-bit number; when the kernel has no \<open>mmap2\<close> the old
  call is used, now and from then on, and its offset is an \<open>off_t\<close>, which has 32 bits there; so has the offset that the
  hook gets. \<open>pagesize\<close> is what \<open>getpagesize\<close> returns; the state is \<open>have_mmap2\<close>, \<open>errno\<close> and the hooks. The
  division of the source is signed and exact, so that its low 32 bits are those of the unsigned one.
\<close>

definition off_t_i386 :: "u64 \<Rightarrow> u64" where
  "off_t_i386 offset = scast (ucast offset :: u32)"

record i386_state = malloc_hk +
  have_mmap2 :: bool
  hk_errno :: int

definition mmap64_i386_old ::
  "'s kern \<Rightarrow> u64 \<Rightarrow> u64 \<Rightarrow> int \<Rightarrow> int \<Rightarrow> int \<Rightarrow> u64 \<Rightarrow> i386_state \<times> 's \<Rightarrow> u64 \<times> i386_state \<times> 's" where
  "mmap64_i386_old kern start len prot flags fd offset = (\<lambda>(h, s).
     if off_t_i386 offset \<noteq> offset then (MMAP_FAILED, h\<lparr>hk_errno := E_INVAL\<rparr>, s)
     else let ((result, e), s) = kern (SYS_mmap start len prot flags fd (off_t_i386 offset)) s
          in (result, if result = MMAP_FAILED then h\<lparr>hk_errno := e\<rparr> else h, s))"

definition mmap64_i386 ::
  "u64 \<Rightarrow> 's kern \<Rightarrow> u64 \<Rightarrow> u64 \<Rightarrow> int \<Rightarrow> int \<Rightarrow> int \<Rightarrow> u64 \<Rightarrow> i386_state \<times> 's \<Rightarrow> u64 \<times> i386_state \<times> 's" where
  "mmap64_i386 pagesize kern start len prot flags fd offset = (\<lambda>(h, s).
     let (result, h, s) =
       (if have_mmap2 h then
          if offset AND (pagesize - 1) \<noteq> 0 then (MMAP_FAILED, h\<lparr>hk_errno := E_INVAL\<rparr>, s)
          else let ((result, e), s) = kern (SYS_mmap2 start len prot flags fd (ucast (offset div pagesize))) s;
                   h = (if result = MMAP_FAILED then h\<lparr>hk_errno := e\<rparr> else h)
               in if result \<noteq> MMAP_FAILED \<or> hk_errno h \<noteq> E_NOSYS then (result, h, s)
                  else mmap64_i386_old kern start len prot flags fd offset (h\<lparr>have_mmap2 := False\<rparr>, s)
        else mmap64_i386_old kern start len prot flags fd offset (h, s))
     in (result, InvokeMmapHook result start len prot flags fd (off_t_i386 offset) h, s))"

section \<open>Properties\<close>

definition recording :: "(sys_call list \<Rightarrow> sys_call \<Rightarrow> u64 \<times> int) \<Rightarrow> sys_call list kern" where
  "recording f c cs = (f cs c, c # cs)"

text \<open>What a call of the kernel may be, for the arguments of \<open>mmap64\<close> and a page size of \<open>2 ^ k\<close>.\<close>

definition mmap_call_ok :: "nat \<Rightarrow> u64 \<Rightarrow> u64 \<Rightarrow> int \<Rightarrow> int \<Rightarrow> int \<Rightarrow> u64 \<Rightarrow> sys_call \<Rightarrow> bool" where
  "mmap_call_ok k start len prot flags fd offset c = (case c of
     SYS_mmap a l p f d off \<Rightarrow> (a, l, p, f, d) = (start, len, prot, flags, fd) \<and> off = offset \<and> off_t_i386 offset = offset
   | SYS_mmap2 a l p f d off \<Rightarrow> (a, l, p, f, d) = (start, len, prot, flags, fd) \<and> 2 ^ k dvd uint offset \<and>
       uint off * 2 ^ k = uint offset mod 2 ^ (32 + k)
   | SYS_munmap _ _ \<Rightarrow> False)"

lemma page_multiple:
  assumes "pagesize = 2 ^ k" "k < 31" and "(offset :: u64) AND (pagesize - 1) = 0"
  shows "2 ^ k dvd uint offset" "uint (ucast (offset div pagesize) :: u32) * 2 ^ k = uint offset mod 2 ^ (32 + k)"
proof -
  have "offset AND mask k = 0" using assms(1,3) by (simp add: mask_eq_exp_minus_1)
  then show d: "2 ^ k dvd uint offset" by (simp only: and_mask_dvd)
  have "uint pagesize = 2 ^ k"
    unfolding assms(1) by (rule uint_2p) (use assms(2) in \<open>simp add: word_gt_0 exp_eq_zero_iff\<close>)
  moreover obtain q where q: "uint offset = q * 2 ^ k" using d by (metis dvd_def mult.commute)
  ultimately have "uint (ucast (offset div pagesize) :: u32) = q mod 2 ^ 32"
    by (simp add: uint_div unsigned_ucast_eq take_bit_eq_mod)
  then show "uint (ucast (offset div pagesize) :: u32) * 2 ^ k = uint offset mod 2 ^ (32 + k)"
    by (simp add: q power_add mod_mult_mult2)
qed

lemma mmap64_i386_old_calls:
  assumes "mmap64_i386_old (recording f) start len prot flags fd offset (h, cs) = (result, h', cs')"
  shows "\<And>k. \<forall>c\<in>set cs'. c \<in> set cs \<or> mmap_call_ok k start len prot flags fd offset c"
    "hk_calls h' = hk_calls h \<and> hk_mmap h' = hk_mmap h"
    "if off_t_i386 offset = offset then cs' \<noteq> [] else cs' = cs \<and> result = MMAP_FAILED \<and> hk_errno h' = E_INVAL"
proof -
  obtain r e where "f cs (SYS_mmap start len prot flags fd offset) = (r, e)" by fastforce
  then have "\<forall>c\<in>set cs'. c \<in> set cs \<or> mmap_call_ok k start len prot flags fd offset c"
    "hk_calls h' = hk_calls h \<and> hk_mmap h' = hk_mmap h"
    "if off_t_i386 offset = offset then cs' \<noteq> [] else cs' = cs \<and> result = MMAP_FAILED \<and> hk_errno h' = E_INVAL" for k
    using assms by (auto simp: mmap64_i386_old_def recording_def mmap_call_ok_def split: if_splits)
  then show "\<And>k. \<forall>c\<in>set cs'. c \<in> set cs \<or> mmap_call_ok k start len prot flags fd offset c"
    "hk_calls h' = hk_calls h \<and> hk_mmap h' = hk_mmap h"
    "if off_t_i386 offset = offset then cs' \<noteq> [] else cs' = cs \<and> result = MMAP_FAILED \<and> hk_errno h' = E_INVAL" by blast+
qed

text \<open>
  C39. The 32-bit \<open>mmap64\<close>, with a kernel that records its calls. It makes no call exactly when the offset is not a
  multiple of the page size, or, with a kernel known to have no \<open>mmap2\<close>, is not within 32 signed bits; it then fails
  with \<open>EINVAL\<close>. Every call it makes has the other arguments as given; the old call has the offset itself, and
  \<open>mmap2\<close> has it modulo \<open>2 ^ 32\<close> pages. The hook, if there is one, sees the returned result and the arguments with
  the offset cut to 32 signed bits.
\<close>

theorem mmap64_i386_offset:
  assumes "pagesize = 2 ^ k" "k < 31"
    and "mmap64_i386 pagesize (recording f) start len prot flags fd offset (h, []) = (result, h', cs)"
  shows "(cs = [] \<longleftrightarrow> (if have_mmap2 h then offset AND (pagesize - 1) \<noteq> 0 else off_t_i386 offset \<noteq> offset)) \<and>
    (cs = [] \<longrightarrow> result = MMAP_FAILED \<and> hk_errno h' = E_INVAL) \<and>
    (\<forall>c\<in>set cs. mmap_call_ok k start len prot flags fd offset c) \<and>
    hk_calls h' = (if hk_mmap h = 0 then hk_calls h
      else Mmap_call (hk_mmap h) result start len prot flags fd (off_t_i386 offset) # hk_calls h)"
proof -
  let ?c2 = "SYS_mmap2 start len prot flags fd (ucast (offset div pagesize))"
  have page: "mmap_call_ok k start len prot flags fd offset ?c2" if "offset AND (pagesize - 1) = 0"
    using page_multiple [OF assms(1,2) that] by (simp add: mmap_call_ok_def)
  define body where "body = (if have_mmap2 h then
          if offset AND (pagesize - 1) \<noteq> 0 then (MMAP_FAILED, h\<lparr>hk_errno := E_INVAL\<rparr>, [])
          else let ((result, e), s) = recording f ?c2 [];
                   h = (if result = MMAP_FAILED then h\<lparr>hk_errno := e\<rparr> else h)
               in if result \<noteq> MMAP_FAILED \<or> hk_errno h \<noteq> E_NOSYS then (result, h, s)
                  else mmap64_i386_old (recording f) start len prot flags fd offset (h\<lparr>have_mmap2 := False\<rparr>, s)
        else mmap64_i386_old (recording f) start len prot flags fd offset (h, []))"
  obtain r h1 cs1 where r: "body = (r, h1, cs1)" by (cases body)
  obtain r2 e2 where f2: "f [] ?c2 = (r2, e2)" by fastforce
  note old = mmap64_i386_old_calls [where f = f and start = start and len = len and prot = prot and flags = flags and fd = fd
      and offset = offset]
  have "(cs1 = [] \<longleftrightarrow> (if have_mmap2 h then offset AND (pagesize - 1) \<noteq> 0 else off_t_i386 offset \<noteq> offset)) \<and>
    (cs1 = [] \<longrightarrow> r = MMAP_FAILED \<and> hk_errno h1 = E_INVAL) \<and>
    (\<forall>c\<in>set cs1. mmap_call_ok k start len prot flags fd offset c) \<and> hk_calls h1 = hk_calls h \<and> hk_mmap h1 = hk_mmap h"
  proof (cases "have_mmap2 h")
    case False
    then have b: "mmap64_i386_old (recording f) start len prot flags fd offset (h, []) = (r, h1, cs1)" using r by (simp add: body_def)
    show ?thesis using old(1) [OF b, of k] old(2,3) [OF b] False by (auto split: if_splits)
  next
    case True
    show ?thesis
    proof (cases "offset AND (pagesize - 1) = 0 \<and> r2 = MMAP_FAILED \<and> e2 = E_NOSYS")
      case ok: True
      then have b: "mmap64_i386_old (recording f) start len prot flags fd offset (h\<lparr>hk_errno := E_NOSYS, have_mmap2 := False\<rparr>, [?c2]) = (r, h1, cs1)"
        using r True f2 by (simp add: body_def recording_def)
      show ?thesis using old(1) [OF b, of k] old(2,3) [OF b] True ok page by (auto split: if_splits)
    next
      case no: False
      then show ?thesis using r True f2 page by (auto simp: body_def recording_def Let_def split: if_splits)
    qed
  qed
  moreover have "result = r \<and> h' = InvokeMmapHook r start len prot flags fd (off_t_i386 offset) h1 \<and> cs = cs1"
    using assms(3) r by (auto simp: mmap64_i386_def simp flip: body_def)
  ultimately show ?thesis by (simp add: InvokeMmapHook_def)
qed

text \<open>A kernel without \<open>mmap2\<close>: the second call has the offset in bytes.\<close>

lemma mmap64_i386_offset_witness:
  "let h = \<lparr>hk_new = 0, hk_delete = 0, hk_mmap = 7, hk_munmap = 0, hk_calls = [], have_mmap2 = True, hk_errno = 0\<rparr>;
       f = (\<lambda>cs c. if cs = [] then (MMAP_FAILED, E_NOSYS) else (0x5000, 0));
       (result, h', cs) = mmap64_i386 4096 (recording f) 0 8192 3 2 (- 1) 0x3000 (h, [])
   in result = 0x5000 \<and> \<not> have_mmap2 h' \<and> length cs = 2 \<and> (\<forall>c\<in>set cs. mmap_call_ok 12 0 8192 3 2 (- 1) 0x3000 c)"
proof -
  define f where "f = (\<lambda>cs :: sys_call list. \<lambda>c :: sys_call. if cs = [] then (MMAP_FAILED, E_NOSYS) else (0x5000, 0))"
  define h where "h = \<lparr>hk_new = 0, hk_delete = 0, hk_mmap = 7, hk_munmap = 0, hk_calls = [], have_mmap2 = True, hk_errno = 0\<rparr>"
  have r: "mmap64_i386 4096 (recording f) 0 8192 3 2 (- 1) 0x3000 (h, []) =
    (0x5000, h\<lparr>have_mmap2 := False, hk_errno := E_NOSYS, hk_calls := [Mmap_call 7 0x5000 0 8192 3 2 (- 1) 0x3000]\<rparr>,
     [SYS_mmap 0 8192 3 2 (- 1) 0x3000, SYS_mmap2 0 8192 3 2 (- 1) 3])"
    by (simp add: mmap64_i386_def mmap64_i386_old_def recording_def f_def h_def MMAP_FAILED_def E_NOSYS_def off_t_i386_def
        InvokeMmapHook_def Let_def)
  from mmap64_i386_offset [OF _ _ r, of 12] r show ?thesis by (simp add: Let_def flip: h_def f_def)
qed

text \<open>With \<open>mmap2\<close>, offset \<open>2 ^ 44\<close> maps offset 0, and the hook of a map at \<open>2 ^ 32\<close> is told offset 0.\<close>

lemma mmap2_offset_wraps:
  "fst (snd (mmap64_i386 4096 (recording (\<lambda>_ _. (0x5000, 0))) 0 4096 1 2 3 (2 ^ 44) (\<lparr>hk_new = 0, hk_delete = 0, hk_mmap = 7, hk_munmap = 0,
      hk_calls = [], have_mmap2 = True, hk_errno = 0\<rparr>, []))) =
    \<lparr>hk_new = 0, hk_delete = 0, hk_mmap = 7, hk_munmap = 0, hk_calls = [Mmap_call 7 0x5000 0 4096 1 2 3 0], have_mmap2 = True, hk_errno = 0\<rparr>"
  "snd (snd (mmap64_i386 4096 (recording (\<lambda>_ _. (0x5000, 0))) 0 4096 1 2 3 (2 ^ 44) (\<lparr>hk_new = 0, hk_delete = 0, hk_mmap = 7, hk_munmap = 0,
      hk_calls = [], have_mmap2 = True, hk_errno = 0\<rparr>, []))) = [SYS_mmap2 0 4096 1 2 3 0]"
  by (simp_all add: mmap64_i386_def recording_def MMAP_FAILED_def off_t_i386_def InvokeMmapHook_def Let_def)

end
