(* ===== verification/HeapProfiler.thy ===== *)
theory HeapProfiler
  imports MallocHk AddressMap SysAlloc "HOL-Library.Char_ord"
begin

text \<open>
  \<open>HeapProfiler\<close> of \<open>heap-profiler.cpp\<close>: the profiler's private memory, the table of call stacks with
  their counters, the map of live allocations, the dump policy, the profile text, and the life
  cycle of the profiler.

  One operation of the model is one critical section of \<open>heap_lock\<close>. \<open>DumpLocked\<close> releases the lock
  while it writes, so it is two operations, \<open>DumpLocked_begin\<close> and \<open>DumpLocked_end\<close>, between which other
  operations run; \<open>RecordAlloc\<close> says whether a dump has to follow. Messages are left out.

  A bucket is named by its address, 0 is null; a chain of the table is the list of its buckets in the
  order of \<open>next_\<close>. \<open>hp_env\<close> is what the process gives: the kernel, the frames of each call of
  \<open>GetStackTrace\<close>, flags, files.
\<close>

section \<open>Numbers as text\<close>

fun digits_of :: "nat \<Rightarrow> nat \<Rightarrow> string" where
  "digits_of b n = (if b < 2 \<or> n < b then [char_of (if n < 10 then 48 + n else 87 + n)]
     else digits_of b (n div b) @ [char_of (if n mod b < 10 then 48 + n mod b else 87 + n mod b)])"

declare digits_of.simps [simp del]

definition show_int :: "int \<Rightarrow> string" where
  "show_int i = (if i < 0 then ''-'' @ digits_of 10 (nat (- i)) else digits_of 10 (nat i))"

definition pad_left :: "char \<Rightarrow> nat \<Rightarrow> string \<Rightarrow> string" where
  "pad_left c w s = replicate (w - length s) c @ s"

text \<open>\<open>"%6d: %8lld [%6d: %8lld] @"\<close>\<close>

definition counts_text :: "int \<Rightarrow> int \<Rightarrow> int \<Rightarrow> int \<Rightarrow> string" where
  "counts_text a b c d = pad_left CHR '' '' 6 (show_int a) @ '': '' @ pad_left CHR '' '' 8 (show_int b) @ '' ['' @
     pad_left CHR '' '' 6 (show_int c) @ '': '' @ pad_left CHR '' '' 8 (show_int d) @ ''] @''"

text \<open>\<open>" 0x%08lx"\<close>\<close>

definition frame_text :: "u64 \<Rightarrow> string" where
  "frame_text p = '' 0x'' @ pad_left CHR ''0'' 8 (digits_of 16 (unat p))"

section \<open>State\<close>

record heap_memory = malloc_hk +
  nblocks :: nat
  hpm_blocks :: "nat \<Rightarrow> u64 \<times> u64"
  current :: u64
  pos :: u64
  hp_sys :: sys_state

record bucket =
  b_hash :: u64
  b_stack :: "u64 list"
  b_allocs :: u32
  b_frees :: u32
  b_alloc_size :: u64
  b_free_size :: u64

type_synonym alloc_value = "u64 \<times> u64"

record heap_profiler = heap_memory +
  is_on :: bool
  need_for_leaks :: bool
  init_has_been_called :: bool
  self_disable :: bool
  self_disabled_tid :: u64
  hp_ignored :: "u64 list option"
  dump_for_leaks :: bool
  dumping :: bool
  total :: bucket
  profile_total :: bucket
  self_disabled :: bucket
  filename_prefix :: "string option"
  bucket_table :: "(nat \<Rightarrow> u64 list) option"
  buckets :: "u64 \<Rightarrow> bucket"
  allocation :: "alloc_value AddressMap"
  self_disabled_allocation :: "alloc_value AddressMap"
  num_buckets :: int
  total_stack_depth :: int
  dump_count :: int
  last_dump :: u64
  high_water_mark :: u64
  strip_frames :: int
  done_first_alloc :: bool
  reference_position :: u64
  hp_stack_calls :: nat
  hp_files :: "(string \<times> string) list"
  hp_unlinked :: "string list"

record hp_env =
  hpe_sys :: sys_config
  hpe_stack :: "nat \<Rightarrow> int \<Rightarrow> u64 list"
  hpe_first_alloc :: u64
  FLAGS_allocation_interval :: u64
  FLAGS_inuse_interval :: u64
  FLAGS_mmap_profile :: bool
  FLAGS_cleanup_old_heap_profiles :: bool
  hpe_fopen :: "string \<Rightarrow> bool"
  hpe_maps :: string
  hpe_glob :: "string \<Rightarrow> string list"
  addr_NewHook :: u64
  addr_DeleteHook :: u64
  addr_MmapHook :: u64
  addr_MunmapHook :: u64

definition zero_bucket :: bucket where
  "zero_bucket = \<lparr>b_hash = 0, b_stack = [], b_allocs = 0, b_frees = 0, b_alloc_size = 0, b_free_size = 0\<rparr>"

definition kBlockSize :: u64 where "kBlockSize = push_bit 20 1"
definition kMaxBlocks :: nat where "kMaxBlocks = 1024"
definition kMaxStackTrace :: nat where "kMaxStackTrace = 32"
definition kHashTableSize :: nat where "kHashTableSize = 179999"
definition kFirstAllocationNumBytes :: u64 where "kFirstAllocationNumBytes = 23"
definition sizeof_Bucket :: u64 where "sizeof_Bucket = 56"
definition sizeof_AllocationMap :: u64 where "sizeof_AllocationMap = 40"
definition sizeof_AllocEntry :: u64 where "sizeof_AllocEntry = 32"

section \<open>\<open>HeapProfilerMemory\<close>\<close>

text \<open>The kernel behind \<open>mmap\<close> and \<open>munmap\<close>.\<close>

definition hp_kern :: "sys_config \<Rightarrow> sys_state kern" where
  "hp_kern cfg c st = (case c of
     SYS_mmap start len prot flags fd off \<Rightarrow> let (r, st) = syscall cfg (Mmap len) st in ((r, 0), st)
   | SYS_mmap2 start len prot flags fd off \<Rightarrow> let (r, st) = syscall cfg (Mmap len) st in ((r, 0), st)
   | SYS_munmap p len \<Rightarrow> let (r, st) = syscall cfg (Munmap p len) st in ((r, 0), st))"

definition hp_mmap :: "sys_config \<Rightarrow> u64 \<Rightarrow> 'a heap_memory_scheme \<Rightarrow> u64 \<times> 'a heap_memory_scheme" where
  "hp_mmap cfg len h = (let (ptr, h, s) = mmap_x86_64 (hp_kern cfg) 0 len 3 34 (- 1) 0 (h, hp_sys h) in (ptr, h\<lparr>hp_sys := s\<rparr>))"

definition hp_munmap :: "sys_config \<Rightarrow> u64 \<Rightarrow> u64 \<Rightarrow> 'a heap_memory_scheme \<Rightarrow> u64 \<times> 'a heap_memory_scheme" where
  "hp_munmap cfg p len h = (let (r, h, s) = munmap_hooked (hp_kern cfg) p len (h, hp_sys h) in (r, h\<lparr>hp_sys := s\<rparr>))"

text \<open>\<open>AllocBlock\<close> does not advance \<open>nblocks_\<close>.\<close>

definition AllocBlock :: "sys_config \<Rightarrow> u64 \<Rightarrow> 'a heap_memory_scheme \<Rightarrow> (u64 \<times> 'a heap_memory_scheme) option" where
  "AllocBlock cfg sz h = do {
     let pagesize = page_size cfg;
     let sz = ((sz + pagesize - 1) div pagesize) * pagesize;
     ASSERT (nblocks h \<noteq> kMaxBlocks);
     let (saved, h) = SetMmapHook 0 h;
     let (ptr, h) = hp_mmap cfg sz h;
     let (_, h) = SetMmapHook saved h;
     ASSERT (ptr \<noteq> MAP_FAILED);
     Some (ptr, h\<lparr>hpm_blocks := (hpm_blocks h)(nblocks h := (ptr, sz))\<rparr>) }"

definition HPM_Init :: "'a heap_memory_scheme \<Rightarrow> 'a heap_memory_scheme" where
  "HPM_Init h = h\<lparr>nblocks := 0, current := 0, pos := kBlockSize\<rparr>"

fun Clear_blocks :: "sys_config \<Rightarrow> nat list \<Rightarrow> 'a heap_memory_scheme \<Rightarrow> 'a heap_memory_scheme option" where
  "Clear_blocks cfg [] h = Some h"
| "Clear_blocks cfg (i # is) h =
     (let (r, h) = hp_munmap cfg (fst (hpm_blocks h i)) (snd (hpm_blocks h i)) h
      in Option.bind (ASSERT (r = 0)) (\<lambda>_. Clear_blocks cfg is h))"

definition HPM_Clear :: "sys_config \<Rightarrow> 'a heap_memory_scheme \<Rightarrow> 'a heap_memory_scheme option" where
  "HPM_Clear cfg h = do {
     let (saved, h) = SetMunmapHook 0 h;
     h \<leftarrow> Clear_blocks cfg [0..<nblocks h] h;
     let (_, h) = SetMunmapHook saved h;
     Some (h\<lparr>nblocks := 0, current := 0, pos := kBlockSize\<rparr>) }"

definition HPM_Alloc :: "sys_config \<Rightarrow> u64 \<Rightarrow> 'a heap_memory_scheme \<Rightarrow> (u64 \<times> 'a heap_memory_scheme) option" where
  "HPM_Alloc cfg bytes h =
     (if bytes \<ge> kBlockSize div 8 then AllocBlock cfg bytes h
      else do {
        h \<leftarrow> (if pos h + bytes > kBlockSize then do {
                (b, h) \<leftarrow> AllocBlock cfg kBlockSize h;
                Some (h\<lparr>current := b, pos := 0\<rparr>) }
              else Some h);
        Some (current h + pos h, h\<lparr>pos := (pos h + bytes + 7) AND NOT 7\<rparr>) })"

text \<open>\<open>Malloc\<close> as the allocator of an address map, for which an abort is a null result.\<close>

definition HP_Malloc :: "sys_config \<Rightarrow> u64 \<Rightarrow> 'a heap_memory_scheme \<Rightarrow> u64 \<times> 'a heap_memory_scheme" where
  "HP_Malloc cfg bytes h = (case HPM_Alloc cfg bytes h of Some r \<Rightarrow> r | None \<Rightarrow> (0, h))"

section \<open>Stack traces and buckets\<close>

definition hp_GetStackTrace :: "hp_env \<Rightarrow> nat \<Rightarrow> int \<Rightarrow> heap_profiler \<Rightarrow> u64 list \<times> heap_profiler" where
  "hp_GetStackTrace env max_depth skip h =
     (take max_depth (hpe_stack env (hp_stack_calls h) skip), h\<lparr>hp_stack_calls := Suc (hp_stack_calls h)\<rparr>)"

definition bucket_hash :: "u64 list \<Rightarrow> u64" where
  "bucket_hash key = fold (\<lambda>pc h. (push_bit 8 h OR drop_bit 56 h) + (pc * 31 + pc * 7 + pc * 3)) key 0"

definition bucket_slot :: "u64 \<Rightarrow> nat" where
  "bucket_slot h = unat (ucast h :: u32) mod kHashTableSize"

fun find_bucket :: "(u64 \<Rightarrow> bucket) \<Rightarrow> u64 \<Rightarrow> u64 list \<Rightarrow> u64 list \<Rightarrow> u64 option" where
  "find_bucket bs hsh key [] = None"
| "find_bucket bs hsh key (b # chain) =
     (if b_hash (bs b) = hsh \<and> length (b_stack (bs b)) = length key \<and> b_stack (bs b) = key then Some b
      else find_bucket bs hsh key chain)"

definition GetBucket_key :: "hp_env \<Rightarrow> u64 list \<Rightarrow> heap_profiler \<Rightarrow> (u64 \<times> heap_profiler) option" where
  "GetBucket_key env key h = do {
     let hsh = bucket_hash key;
     let buck = bucket_slot hsh;
     tbl \<leftarrow> bucket_table h;
     case find_bucket (buckets h) hsh key (tbl buck) of
       Some b \<Rightarrow> Some (b, h)
     | None \<Rightarrow> do {
         (kcopy, h) \<leftarrow> HPM_Alloc (hpe_sys env) (8 * word_of_nat (length key)) h;
         (b, h) \<leftarrow> HPM_Alloc (hpe_sys env) sizeof_Bucket h;
         Some (b, h\<lparr>buckets := (buckets h)(b := zero_bucket\<lparr>b_hash := hsh, b_stack := key\<rparr>),
                    bucket_table := Some (tbl(buck := b # tbl buck)),
                    num_buckets := num_buckets h + 1,
                    total_stack_depth := total_stack_depth h + int (length key)\<rparr>) } }"

definition GetBucket :: "hp_env \<Rightarrow> int \<Rightarrow> heap_profiler \<Rightarrow> (u64 \<times> heap_profiler) option" where
  "GetBucket env skip_count h =
     (let (key, h) = hp_GetStackTrace env kMaxStackTrace (skip_count + 1) h in GetBucket_key env key h)"

section \<open>Recording\<close>

definition count_alloc :: "u64 \<Rightarrow> bucket \<Rightarrow> bucket" where
  "count_alloc bytes b = b\<lparr>b_allocs := b_allocs b + 1, b_alloc_size := b_alloc_size b + bytes\<rparr>"

definition count_free :: "u64 \<Rightarrow> bucket \<Rightarrow> bucket" where
  "count_free bytes b = b\<lparr>b_frees := b_frees b + 1, b_free_size := b_free_size b + bytes\<rparr>"

definition allocation_Insert :: "hp_env \<Rightarrow> u64 \<Rightarrow> alloc_value \<Rightarrow> heap_profiler \<Rightarrow> heap_profiler option" where
  "allocation_Insert env ptr v h = do {
     (m, h) \<leftarrow> AM_Insert (HP_Malloc (hpe_sys env)) sizeof_AllocEntry ptr v (allocation h, h);
     Some (h\<lparr>allocation := m\<rparr>) }"

text \<open>The first call only finds out how many frames the hooks put on the stack.\<close>

definition strip_from_stack :: "u64 list \<Rightarrow> u64 \<Rightarrow> int \<Rightarrow> int" where
  "strip_from_stack stack here strip =
     fold (\<lambda>i strip. if stack ! i = here then int i - 1 else strip) [0..<length stack] strip"

definition RecordAlloc_first :: "hp_env \<Rightarrow> u64 \<Rightarrow> heap_profiler \<Rightarrow> heap_profiler option" where
  "RecordAlloc_first env bytes h = do {
     let h = h\<lparr>done_first_alloc := True\<rparr>;
     ASSERT (bytes = kFirstAllocationNumBytes);
     ASSERT (strip_frames h = 0);
     let (stack, h) = hp_GetStackTrace env 32 1 h;
     let h = h\<lparr>strip_frames := strip_from_stack stack (reference_position h) (strip_frames h)\<rparr>;
     ASSERT (strip_frames h \<noteq> 0);
     Some h }"

text \<open>Whether and why to dump now, with the marks moved.\<close>

datatype dump_reason = Allocated_MB int | InUse_MB int | Leak_check | Dump_request string

definition dump_due :: "hp_env \<Rightarrow> heap_profiler \<Rightarrow> dump_reason option \<times> heap_profiler" where
  "dump_due env h =
     (let inuse_bytes = b_alloc_size (total h) - b_free_size (total h)
      in if dumping h then (None, h)
         else if sint (b_alloc_size (total h)) \<ge> sint (last_dump h + FLAGS_allocation_interval env) then
           (Some (Allocated_MB (sint (b_alloc_size (total h)) div 2 ^ 20)), h\<lparr>last_dump := b_alloc_size (total h)\<rparr>)
         else if sint inuse_bytes > sint (high_water_mark h + FLAGS_inuse_interval env) then
           (Some (InUse_MB (sint inuse_bytes div 2 ^ 20)), h\<lparr>high_water_mark := inuse_bytes\<rparr>)
         else (None, h))"

definition RecordAlloc ::
  "hp_env \<Rightarrow> u64 \<Rightarrow> u64 \<Rightarrow> u64 \<Rightarrow> int \<Rightarrow> heap_profiler \<Rightarrow> (dump_reason option \<times> heap_profiler) option" where
  "RecordAlloc env me ptr bytes skip_count h =
     (if \<not> done_first_alloc h then do { h \<leftarrow> RecordAlloc_first env bytes h; Some (None, h) }
      else if self_disable h \<and> self_disabled_tid h = me then do {
        let h = h\<lparr>self_disabled := count_alloc bytes (self_disabled h)\<rparr>;
        (m, h) \<leftarrow> AM_Insert (HP_Malloc (hpe_sys env)) sizeof_AllocEntry ptr (0, bytes) (self_disabled_allocation h, h);
        Some (None, h\<lparr>self_disabled_allocation := m\<rparr>) }
      else if is_on h then do {
        (b, h) \<leftarrow> GetBucket env (skip_count + 1) h;
        let h = h\<lparr>buckets := (buckets h)(b := count_alloc bytes (buckets h b)), total := count_alloc bytes (total h)\<rparr>;
        h \<leftarrow> allocation_Insert env ptr (b, bytes) h;
        Some (dump_due env h) }
      else Some (None, h))"

definition RecordFree :: "u64 \<Rightarrow> u64 \<Rightarrow> heap_profiler \<Rightarrow> heap_profiler option" where
  "RecordFree me ptr h =
     (if self_disable h \<and> self_disabled_tid h = me then
        (case AM_FindAndRemove ptr (self_disabled_allocation h) of
           (Some (_, bytes), m) \<Rightarrow> Some (h\<lparr>self_disabled_allocation := m, self_disabled := count_free bytes (self_disabled h)\<rparr>)
         | (None, m) \<Rightarrow> Some (h\<lparr>self_disabled := (self_disabled h)
               \<lparr>b_free_size := b_free_size (self_disabled h) + 100000000, b_frees := b_frees (self_disabled h) + 100000000\<rparr>\<rparr>))
      else if is_on h then
        (case AM_FindAndRemove ptr (allocation h) of
           (Some (b, bytes), m) \<Rightarrow> do {
             ASSERT (b \<noteq> 0);
             Some (h\<lparr>allocation := m, buckets := (buckets h)(b := count_free bytes (buckets h b)), total := count_free bytes (total h)\<rparr>) }
         | (None, m) \<Rightarrow> Some h)
      else Some h)"

text \<open>A pointer to an object, or into an array or a string right behind the header of the object.\<close>

definition find_inside :: "u64 \<Rightarrow> u64 \<Rightarrow> alloc_value AddressMap \<Rightarrow> (u64 \<times> alloc_value) option" where
  "find_inside off ptr m = (case AM_Find m (ptr - off) of
     Some v \<Rightarrow> if snd v > off then Some (ptr - off, v) else None
   | None \<Rightarrow> None)"

definition HaveOnHeapLocked :: "u64 \<Rightarrow> heap_profiler \<Rightarrow> (u64 \<times> alloc_value) option option" where
  "HaveOnHeapLocked ptr h = do {
     ASSERT (is_on h);
     Some (case AM_Find (allocation h) ptr of
       Some v \<Rightarrow> Some (ptr, v)
     | None \<Rightarrow> (case find_inside 4 ptr (allocation h) of
         Some r \<Rightarrow> Some r
       | None \<Rightarrow> find_inside 12 ptr (allocation h))) }"

definition HaveOnHeap :: "u64 \<Rightarrow> heap_profiler \<Rightarrow> (u64 \<times> alloc_value) option option" where
  "HaveOnHeap ptr h = (if is_on h then HaveOnHeapLocked ptr h else Some None)"

definition HP_NewHook :: "hp_env \<Rightarrow> u64 \<Rightarrow> u64 \<Rightarrow> u64 \<Rightarrow> heap_profiler \<Rightarrow> (dump_reason option \<times> heap_profiler) option" where
  "HP_NewHook env me ptr sz h = (if ptr \<noteq> 0 then RecordAlloc env me ptr sz (strip_frames h) h else Some (None, h))"

definition HP_DeleteHook :: "u64 \<Rightarrow> u64 \<Rightarrow> heap_profiler \<Rightarrow> heap_profiler option" where
  "HP_DeleteHook me ptr h = (if ptr \<noteq> 0 then RecordFree me ptr h else Some h)"

definition HP_MmapHook :: "hp_env \<Rightarrow> u64 \<Rightarrow> u64 \<Rightarrow> u64 \<Rightarrow> heap_profiler \<Rightarrow> (dump_reason option \<times> heap_profiler) option" where
  "HP_MmapHook env me result sz h =
     (if result \<noteq> MAP_FAILED \<and> FLAGS_mmap_profile env \<and> is_on h then RecordAlloc env me result sz (strip_frames h) h
      else Some (None, h))"

definition HP_MunmapHook :: "hp_env \<Rightarrow> u64 \<Rightarrow> u64 \<Rightarrow> heap_profiler \<Rightarrow> heap_profiler option" where
  "HP_MunmapHook env me ptr h = (if FLAGS_mmap_profile env \<and> is_on h then RecordFree me ptr h else Some h)"

section \<open>The profile\<close>

text \<open>
  \<open>snprintf\<close> at the end of a buffer of \<open>bufsize\<close> bytes that holds \<open>txt\<close>: nothing is added when the
  text does not fit with its terminating 0.
\<close>

definition print_at :: "int \<Rightarrow> string \<Rightarrow> string \<Rightarrow> string option" where
  "print_at bufsize txt s = (if int (length s) \<ge> bufsize - int (length txt) then None else Some (txt @ s))"

fun print_frames :: "int \<Rightarrow> u64 list \<Rightarrow> string \<Rightarrow> bool \<times> string" where
  "print_frames bufsize [] txt = (True, txt)"
| "print_frames bufsize (p # ps) txt = (case print_at bufsize txt (frame_text p) of
     None \<Rightarrow> (False, txt) | Some txt \<Rightarrow> print_frames bufsize ps txt)"

definition add_bucket :: "bucket \<Rightarrow> bucket \<Rightarrow> bucket" where
  "add_bucket b p = p\<lparr>b_allocs := b_allocs p + b_allocs b, b_alloc_size := b_alloc_size p + b_alloc_size b,
     b_frees := b_frees p + b_frees b, b_free_size := b_free_size p + b_free_size b\<rparr>"

definition UnparseBucket :: "int \<Rightarrow> bucket \<Rightarrow> string \<times> heap_profiler \<Rightarrow> string \<times> heap_profiler" where
  "UnparseBucket bufsize b = (\<lambda>(txt, h).
     let h = h\<lparr>profile_total := add_bucket b (profile_total h)\<rparr>
     in if dump_for_leaks h \<and> b_allocs b - b_frees b = 0 \<and> b_alloc_size b - b_free_size b = 0 then (txt, h)
        else (case print_at bufsize txt (counts_text (sint (b_allocs b - b_frees b)) (sint (b_alloc_size b - b_free_size b))
                     (sint (b_allocs b)) (sint (b_alloc_size b))) of
                None \<Rightarrow> (txt, h)
              | Some txt \<Rightarrow>
                  (case print_frames bufsize (b_stack b) txt of
                     (False, txt) \<Rightarrow> (txt, h)
                   | (True, txt) \<Rightarrow> (case print_at bufsize txt [CHR 0x0A] of None \<Rightarrow> (txt, h) | Some txt \<Rightarrow> (txt, h)))))"

fun AdjustByIgnoredObjects :: "int \<Rightarrow> u64 list \<Rightarrow> heap_profiler \<Rightarrow> heap_profiler option" where
  "AdjustByIgnoredObjects adjust [] h = Some h"
| "AdjustByIgnoredObjects adjust (i # is) h =
     Option.bind (AM_Find (allocation h) i) (\<lambda>(b, bytes).
     let x = (buckets h b)\<lparr>b_allocs := b_allocs (buckets h b) + word_of_int adjust,
                           b_alloc_size := b_alloc_size (buckets h b) + word_of_int adjust * bytes\<rparr>
     in Option.bind (ASSERT (sint (b_allocs x) \<ge> 0 \<and> sint (b_alloc_size x) \<ge> 0)) (\<lambda>_.
        AdjustByIgnoredObjects adjust is (h\<lparr>buckets := (buckets h)(b := x)\<rparr>)))"

definition adjust_ignored :: "int \<Rightarrow> heap_profiler \<Rightarrow> heap_profiler option" where
  "adjust_ignored adjust h = (case hp_ignored h of
     None \<Rightarrow> Some h
   | Some is \<Rightarrow> do { ASSERT (dump_for_leaks h); AdjustByIgnoredObjects adjust is h })"

definition table_buckets :: "(nat \<Rightarrow> u64 list) \<Rightarrow> u64 list" where
  "table_buckets tbl = concat (map tbl [0..<kHashTableSize])"

text \<open>\<open>std::sort\<close> by the space in use, largest first; equal ones stay in the order of the table.\<close>

definition by_allocated_space :: "(u64 \<Rightarrow> bucket) \<Rightarrow> u64 list \<Rightarrow> u64 list" where
  "by_allocated_space bs = sort_key (\<lambda>b. - sint (b_alloc_size (bs b) - b_free_size (bs b)))"

definition kProfileSize :: int where "kProfileSize = 2 ^ 20"

text \<open>The critical section of \<open>GetHeapProfile\<close>; the empty text when the profiler is off.\<close>

definition GetHeapProfile :: "heap_profiler \<Rightarrow> (string \<times> heap_profiler) option" where
  "GetHeapProfile h =
     (if \<not> is_on h then Some ([], h)
      else do {
        tbl \<leftarrow> bucket_table h;
        let bs = table_buckets tbl;
        ASSERT (int (length bs) = num_buckets h);
        let bs = by_allocated_space (buckets h) bs;
        let (txt, h) = UnparseBucket (kProfileSize - 1) (total h) (''heap profile: '', h);
        let h = h\<lparr>profile_total := zero_bucket\<rparr>;
        h \<leftarrow> adjust_ignored (- 1) h;
        let (txt, h) = fold (\<lambda>b (txt, h). UnparseBucket (kProfileSize - 1) (buckets h b) (txt, h)) bs (txt, h);
        h \<leftarrow> adjust_ignored 1 h;
        ASSERT (int (length txt) < kProfileSize);
        Some (txt, h) })"

definition DumpLocked_begin :: "string option \<Rightarrow> heap_profiler \<Rightarrow> (string option \<times> heap_profiler) option" where
  "DumpLocked_begin file_name h = do {
     ASSERT (is_on h);
     if filename_prefix h = None \<and> file_name = None then Some (None, h)
     else do {
       let h = h\<lparr>dumping := True\<rparr>;
       case file_name of
         Some f \<Rightarrow> Some (Some f, h)
       | None \<Rightarrow> do {
           let h = h\<lparr>dump_count := dump_count h + 1\<rparr>;
           prefix \<leftarrow> filename_prefix h;
           Some (Some (take 999 (prefix @ ''.'' @ pad_left CHR ''0'' 4 (show_int (dump_count h)) @ ''.heap'')), h) } } }"

definition DumpLocked_write :: "hp_env \<Rightarrow> string \<Rightarrow> heap_profiler \<Rightarrow> heap_profiler option" where
  "DumpLocked_write env f h =
     (if hpe_fopen env f then do {
        (profile, h) \<leftarrow> GetHeapProfile h;
        Some (h\<lparr>hp_files := (f, profile @ [CHR 0x0A] @ ''MAPPED_LIBRARIES:'' @ [CHR 0x0A] @ hpe_maps env) # hp_files h\<rparr>) }
      else do { ASSERT (\<not> dump_for_leaks h); Some h })"

definition DumpLocked_end :: "heap_profiler \<Rightarrow> heap_profiler" where
  "DumpLocked_end h = h\<lparr>dumping := False\<rparr>"

text \<open>\<open>DumpLocked\<close> when nothing runs while it writes.\<close>

definition DumpLocked :: "hp_env \<Rightarrow> string option \<Rightarrow> heap_profiler \<Rightarrow> heap_profiler option" where
  "DumpLocked env file_name h = do {
     (f, h) \<leftarrow> DumpLocked_begin file_name h;
     case f of None \<Rightarrow> Some h
     | Some f \<Rightarrow> do { h \<leftarrow> DumpLocked_write env f h; Some (DumpLocked_end h) } }"

definition HeapProfilerDump :: "hp_env \<Rightarrow> heap_profiler \<Rightarrow> heap_profiler option" where
  "HeapProfilerDump env h =
     (if is_on h \<and> num_buckets h > 0 \<and> \<not> dumping h then DumpLocked env None h else Some h)"

section \<open>Start and stop\<close>

definition EarlyStartLocked :: "hp_env \<Rightarrow> u64 \<Rightarrow> heap_profiler \<Rightarrow> heap_profiler option" where
  "EarlyStartLocked env me h = do {
     ASSERT (\<not> is_on h);
     let h = (HPM_Init h)\<lparr>is_on := True\<rparr>;
     ASSERT (\<not> need_for_leaks h);
     ASSERT (\<not> self_disable h);
     ASSERT (filename_prefix h = None);
     (_, h) \<leftarrow> HPM_Alloc (hpe_sys env) (word_of_nat kHashTableSize * 8) h;
     let h = h\<lparr>bucket_table := Some (\<lambda>_. [])\<rparr>;
     (_, h) \<leftarrow> HPM_Alloc (hpe_sys env) sizeof_AllocationMap h;
     (m, h) \<leftarrow> AM_init (HP_Malloc (hpe_sys env)) h;
     let h = h\<lparr>allocation := m, total := zero_bucket, num_buckets := 0, total_stack_depth := 0, last_dump := 0\<rparr>;
     let (_, h) = Hk_SetNewHook (addr_NewHook env) h;
     let (here, h) = hp_GetStackTrace env 2 1 h;
     let h = h\<lparr>reference_position := here ! 0, done_first_alloc := False\<rparr>;
     (_, h) \<leftarrow> HP_NewHook env me (hpe_first_alloc env) kFirstAllocationNumBytes h;
     let (_, h) = Hk_SetDeleteHook (addr_DeleteHook env) h;
     Some h }"

definition StartLocked :: "hp_env \<Rightarrow> u64 \<Rightarrow> string \<Rightarrow> heap_profiler \<Rightarrow> heap_profiler option" where
  "StartLocked env me prefix h =
     (if filename_prefix h \<noteq> None then Some h
      else do {
        h \<leftarrow> (if \<not> is_on h then EarlyStartLocked env me h else Some h);
        (_, h) \<leftarrow> HPM_Alloc (hpe_sys env) (word_of_nat (length prefix + 1)) h;
        Some (h\<lparr>filename_prefix := Some prefix\<rparr>) })"

definition StopLocked :: "hp_env \<Rightarrow> heap_profiler \<Rightarrow> heap_profiler option" where
  "StopLocked env h =
     (if \<not> is_on h then Some h
      else let h = h\<lparr>filename_prefix := None\<rparr>
           in if need_for_leaks h then Some h
              else do {
                let (_, h) = Hk_SetNewHook 0 h;
                let (_, h) = Hk_SetDeleteHook 0 h;
                h \<leftarrow> HPM_Clear (hpe_sys env) h;
                Some (h\<lparr>bucket_table := None, is_on := False\<rparr>) })"

definition StartForLeaks :: "hp_env \<Rightarrow> u64 \<Rightarrow> heap_profiler \<Rightarrow> heap_profiler option" where
  "StartForLeaks env me h = do {
     h \<leftarrow> (if \<not> is_on h then EarlyStartLocked env me h else Some h);
     let h = h\<lparr>need_for_leaks := True, self_disabled := zero_bucket\<rparr>;
     (_, h) \<leftarrow> HPM_Alloc (hpe_sys env) sizeof_AllocationMap h;
     (m, h) \<leftarrow> AM_init (HP_Malloc (hpe_sys env)) h;
     Some (h\<lparr>self_disabled_allocation := m\<rparr>) }"

definition StopForLeaks :: "hp_env \<Rightarrow> heap_profiler \<Rightarrow> heap_profiler option" where
  "StopForLeaks env h =
     (let h = h\<lparr>need_for_leaks := False\<rparr> in if filename_prefix h = None then StopLocked env h else Some h)"

text \<open>
  The profile's name from a non-empty \<open>HEAPPROFILE\<close>, and the variable's new value: the first process
  sets the high bit of the first character, its children see it and append their pid.
\<close>

definition HEAPPROFILE_name :: "string \<Rightarrow> string \<Rightarrow> string \<times> string" where
  "HEAPPROFILE_name heapprofile pid =
     (let c = of_char (hd heapprofile) :: nat
      in if c AND 128 \<noteq> 0 then (take 4095 (char_of (c AND 127) # tl heapprofile @ ''_'' @ pid), heapprofile)
         else (take 4095 heapprofile, char_of (c OR 128) # tl heapprofile))"

text \<open>Old profiles are removed: the files that \<open>glob\<close> finds and that begin with the prefix.\<close>

definition CleanupProfiles :: "hp_env \<Rightarrow> string \<Rightarrow> heap_profiler \<Rightarrow> heap_profiler" where
  "CleanupProfiles env prefix h =
     (if \<not> FLAGS_cleanup_old_heap_profiles env then h
      else h\<lparr>hp_unlinked := filter (\<lambda>f. length f \<ge> length prefix \<and> take (length prefix) f = prefix)
        (hpe_glob env (prefix @ ''.*.heap'')) @ hp_unlinked h\<rparr>)"

text \<open>\<open>Init\<close>: the environment variable, its owner, the pid, and \<open>mmap_log\<close>; the new value of the variable.\<close>

definition HP_Init ::
  "hp_env \<Rightarrow> u64 \<Rightarrow> string option \<Rightarrow> bool \<Rightarrow> string \<Rightarrow> bool \<Rightarrow> heap_profiler \<Rightarrow> (string option \<times> heap_profiler) option" where
  "HP_Init env me heapprofile setuid pid mmap_log h =
     (if init_has_been_called h then Some (heapprofile, h)
      else do {
        let h = h\<lparr>init_has_been_called := True\<rparr>;
        let h = (if FLAGS_mmap_profile env \<or> mmap_log
                 then snd (SetMunmapHook (addr_MunmapHook env) (snd (SetMmapHook (addr_MmapHook env) h))) else h);
        case heapprofile of
          None \<Rightarrow> Some (heapprofile, h)
        | Some v \<Rightarrow>
            if v = [] \<or> setuid then Some (heapprofile, h)
            else do {
              let (fname, v') = HEAPPROFILE_name v pid;
              h \<leftarrow> StartLocked env me fname (CleanupProfiles env fname h);
              Some (Some v', h) } })"

definition HeapProfilerStart :: "hp_env \<Rightarrow> u64 \<Rightarrow> string \<Rightarrow> heap_profiler \<Rightarrow> heap_profiler option" where
  "HeapProfilerStart env me prefix h = StartLocked env me prefix h"

definition HeapProfilerStop :: "hp_env \<Rightarrow> heap_profiler \<Rightarrow> heap_profiler option" where
  "HeapProfilerStop env h = StopLocked env h"

text \<open>Static storage.\<close>

definition heap_profiler_static :: heap_profiler where
  "heap_profiler_static = \<lparr>hk_new = 0, hk_delete = 0, hk_mmap = 0, hk_munmap = 0, hk_calls = [],
     nblocks = 0, hpm_blocks = \<lambda>_. (0, 0), current = 0, pos = 0, hp_sys = sys_init,
     is_on = False, need_for_leaks = False, init_has_been_called = False, self_disable = False,
     self_disabled_tid = 0, hp_ignored = None, dump_for_leaks = False, dumping = False,
     total = zero_bucket, profile_total = zero_bucket, self_disabled = zero_bucket, filename_prefix = None,
     bucket_table = None, buckets = \<lambda>_. zero_bucket,
     allocation = \<lparr>hashtable = \<lambda>_. [], free_entries = 0, allocated = []\<rparr>,
     self_disabled_allocation = \<lparr>hashtable = \<lambda>_. [], free_entries = 0, allocated = []\<rparr>,
     num_buckets = 0, total_stack_depth = 0, dump_count = 0, last_dump = 0, high_water_mark = 0,
     strip_frames = 0, done_first_alloc = False, reference_position = 0, hp_stack_calls = 0, hp_files = [], hp_unlinked = []\<rparr>"

end
