(* ===== verification/MallocExt.thy ===== *)
theory MallocExt
  imports FrontEnd HeapProfiler
begin

text \<open>
  \<open>mallocext.cpp\<close>: the extension interface with its default answers, the registered implementation, and the
  text of a heap sample, made from an array of traces: for each trace a count, a size, the depth and the program
  counters, with a count of 0 at the end. The array is the list of its words; a read past its end is \<open>None\<close>.
\<close>

section \<open>The registered implementation\<close>

record mallocext =
  module_init :: int
  default_instance :: u64
  current_instance :: u64

definition mallocext_static :: mallocext where
  "mallocext_static = \<lparr>module_init = 0, default_instance = 0, current_instance = 0\<rparr>"

text \<open>\<open>fresh\<close> is the address that \<open>new MallocExt\<close> returns.\<close>

definition Ext_InitModule :: "u64 \<Rightarrow> mallocext \<Rightarrow> mallocext" where
  "Ext_InitModule fresh s = (let s = s\<lparr>default_instance := fresh\<rparr> in s\<lparr>current_instance := default_instance s\<rparr>)"

definition Ext_once :: "u64 \<Rightarrow> mallocext \<Rightarrow> mallocext" where
  "Ext_once fresh s = (let (ctl, s) = perftools_pthread_once (Ext_InitModule fresh) (module_init s, s) in s\<lparr>module_init := ctl\<rparr>)"

definition Ext_instance :: "u64 \<Rightarrow> mallocext \<Rightarrow> u64 \<times> mallocext" where
  "Ext_instance fresh s = (let s = Ext_once fresh s in (current_instance s, s))"

definition Ext_Register :: "u64 \<Rightarrow> u64 \<Rightarrow> mallocext \<Rightarrow> mallocext" where
  "Ext_Register fresh implementation s = (let s = Ext_once fresh s in s\<lparr>current_instance := implementation\<rparr>)"

text \<open>
  The constructor of \<open>TCMallocGuard\<close> in \<open>tcmalloc.cpp\<close>, which registers the allocator; the verbosity level is not
  modelled. A \<open>std::bad_alloc\<close> in a constructor of a static object ends the process.
\<close>

definition sizeof_MallocExt :: u64 where "sizeof_MallocExt = 8"

definition new_object ::
  "tc_config \<Rightarrow> ('a tcmalloc_scheme \<Rightarrow> ('a tcmalloc_scheme \<times> bool) option) \<Rightarrow> u64 \<Rightarrow> u64 \<Rightarrow> 'a tcmalloc_scheme \<Rightarrow> (u64 \<times> 'a tcmalloc_scheme) option" where
  "new_object cfg handler me sz h = do {
     (r, h) \<leftarrow> operator_new cfg handler me sz h;
     case r of Pointer p \<Rightarrow> Some (p, h) | BadAlloc \<Rightarrow> None }"

definition TCMallocGuard ::
  "tc_config \<Rightarrow> ('a tcmalloc_scheme \<Rightarrow> ('a tcmalloc_scheme \<times> bool) option) \<Rightarrow> u64 \<Rightarrow> 'a tcmalloc_scheme \<times> mallocext \<Rightarrow> ('a tcmalloc_scheme \<times> mallocext) option" where
  "TCMallocGuard cfg handler me = (\<lambda>(h, x). do {
     (p, h) \<leftarrow> do_malloc cfg me 1 h;
     h \<leftarrow> do_free me p h;
     h \<leftarrow> InitTSD me h;
     (p, h) \<leftarrow> do_malloc cfg me 1 h;
     h \<leftarrow> do_free me p h;
     (implementation, h) \<leftarrow> new_object cfg handler me sizeof_MallocExt h;
     (fresh, h) \<leftarrow> (if module_init x = 0 then new_object cfg handler me sizeof_MallocExt h else Some (0, h));
     Some (h, Ext_Register fresh implementation x) })"

text \<open>\<open>Initialize\<close>: the first call sets the two variables unless they are set.\<close>

definition setenv_new :: "string \<Rightarrow> string \<Rightarrow> (string \<rightharpoonup> string) \<Rightarrow> (string \<rightharpoonup> string)" where
  "setenv_new name v env = (if env name = None then env(name \<mapsto> v) else env)"

definition Ext_Initialize :: "bool \<times> (string \<rightharpoonup> string) \<Rightarrow> bool \<times> (string \<rightharpoonup> string)" where
  "Ext_Initialize = (\<lambda>(called, env). if called then (called, env)
     else (True, setenv_new ''GLIBCXX_FORCE_NEW'' ''1'' (setenv_new ''GLIBCPP_FORCE_NEW'' ''1'' env)))"

section \<open>The default answers\<close>

definition Ext_VerifyAllMemory :: bool where "Ext_VerifyAllMemory = True"
definition Ext_VerifyNewMemory :: "u64 \<Rightarrow> bool" where "Ext_VerifyNewMemory p = True"
definition Ext_VerifyArrayNewMemory :: "u64 \<Rightarrow> bool" where "Ext_VerifyArrayNewMemory p = True"
definition Ext_VerifyMallocMemory :: "u64 \<Rightarrow> bool" where "Ext_VerifyMallocMemory p = True"
definition Ext_GetNumericProperty :: "string \<Rightarrow> u64 option" where "Ext_GetNumericProperty property = None"
definition Ext_SetNumericProperty :: "string \<Rightarrow> u64 \<Rightarrow> bool" where "Ext_SetNumericProperty property v = False"

definition Ext_GetStats :: "int \<Rightarrow> string option" where
  "Ext_GetStats len = do { ASSERT (len > 0); Some '''' }"

text \<open>
  \<open>MallocMemoryStats\<close>: the result, the number of blocks and the total, and the histogram in memory. The arguments
  of \<open>memset\<close> are swapped: it stores the size of a pointer, to no byte.
\<close>

definition Ext_MallocMemoryStats :: "u64 \<Rightarrow> mem \<Rightarrow> bool \<times> int \<times> u64 \<times> mem" where
  "Ext_MallocMemoryStats histogram m = (True, 0, 0, memset histogram 8 0 m)"

definition Ext_ReadStackTraces :: "u64 list option" where "Ext_ReadStackTraces = None"
definition Ext_ReadHeapGrowthStackTraces :: "u64 list option" where "Ext_ReadHeapGrowthStackTraces = None"

section \<open>Entries\<close>

definition te_count :: "u64 list \<Rightarrow> nat \<Rightarrow> u64" where "te_count ws e = ws ! e"
definition te_size :: "u64 list \<Rightarrow> nat \<Rightarrow> u64" where "te_size ws e = ws ! (e + 1)"
definition te_depth :: "u64 list \<Rightarrow> nat \<Rightarrow> u64" where "te_depth ws e = ws ! (e + 2)"
definition te_pc :: "u64 list \<Rightarrow> nat \<Rightarrow> nat \<Rightarrow> u64" where "te_pc ws e i = ws ! (e + (3 + i))"

definition te_next :: "u64 list \<Rightarrow> nat \<Rightarrow> nat" where
  "te_next ws e = e + (3 + unat (te_depth ws e))"

text \<open>An entry whose words are all in the array.\<close>

definition te_inside :: "u64 list \<Rightarrow> nat \<Rightarrow> bool" where
  "te_inside ws e \<longleftrightarrow> e + 2 < length ws \<and> te_next ws e \<le> length ws"

definition StackTraceHash :: "u64 list \<Rightarrow> nat \<Rightarrow> u64" where
  "StackTraceHash ws e = fold (\<lambda>i h.
     let pc = te_pc ws e i; h = push_bit 8 h OR drop_bit 56 h in h + (pc * 31 + pc * 7 + pc * 3)) [0..<unat (te_depth ws e)] 0"

fun pcs_less :: "(nat \<Rightarrow> u64) \<Rightarrow> (nat \<Rightarrow> u64) \<Rightarrow> nat list \<Rightarrow> bool" where
  "pcs_less p q [] = False"
| "pcs_less p q (i # is) = (if p i \<noteq> q i then p i < q i else pcs_less p q is)"

definition StackTraceLess :: "u64 list \<Rightarrow> nat \<Rightarrow> nat \<Rightarrow> bool" where
  "StackTraceLess ws a b = (if te_depth ws a \<noteq> te_depth ws b then te_depth ws a < te_depth ws b
     else pcs_less (te_pc ws a) (te_pc ws b) [0..<unat (te_depth ws a)])"

definition StackTraceEqual :: "u64 list \<Rightarrow> nat \<Rightarrow> nat \<Rightarrow> bool" where
  "StackTraceEqual ws a b = (if te_depth ws a \<noteq> te_depth ws b then False
     else list_all (\<lambda>i. te_pc ws a i = te_pc ws b i) [0..<unat (te_depth ws a)])"

section \<open>Text\<close>

function header_totals :: "u64 list \<Rightarrow> nat \<Rightarrow> u64 \<times> u64 \<Rightarrow> (u64 \<times> u64) option" where
  "header_totals ws e t =
     (if length ws \<le> e then None
      else if te_count ws e = 0 then Some t
      else if \<not> te_inside ws e then None
      else header_totals ws (te_next ws e) (fst t + te_count ws e, snd t + te_size ws e))"
  by pat_completeness auto
termination by (relation "measure (\<lambda>(ws, e, t). length ws - e)") (auto simp: te_next_def)

declare header_totals.simps [simp del]

definition header_text :: "string \<Rightarrow> u64 \<Rightarrow> u64 \<Rightarrow> string" where
  "header_text label total_count total_size =
     take 199 (''heap profile: '' @ counts_text (sint total_count) (sint total_size) (sint total_count) (sint total_size) @
       '' '' @ label @ [char_of (10 :: nat)])"

definition PrintHeader :: "string \<Rightarrow> u64 list \<Rightarrow> string option" where
  "PrintHeader label ws = do {
     (total_count, total_size) \<leftarrow> header_totals ws 0 (0, 0);
     Some (header_text label total_count total_size) }"

text \<open>\<open>" %p"\<close>\<close>

definition pointer_text :: "u64 \<Rightarrow> string" where
  "pointer_text p = '' '' @ (if p = 0 then ''(nil)'' else ''0x'' @ digits_of 16 (unat p))"

definition PrintStackEntry :: "u64 list \<Rightarrow> nat \<Rightarrow> string" where
  "PrintStackEntry ws e =
     take 99 (counts_text (to_int32 (te_count ws e)) (to_int32 (te_size ws e)) (to_int32 (te_count ws e)) (to_int32 (te_size ws e))) @
     concat (map (\<lambda>i. take 99 (pointer_text (te_pc ws e i))) [0..<unat (te_depth ws e)]) @ [char_of (10 :: nat)]"

section \<open>The heap sample\<close>

text \<open>
  \<open>StackTraceTable\<close> is a hash set of the library, keyed by \<open>StackTraceHash\<close> and \<open>StackTraceEqual\<close>; \<open>table\<close> lists
  its entries in the order of insertion. \<open>merge_stacks\<close> is the loop of \<open>GetHeapSample\<close>: the first entry of a stack
  takes the counts of the others.
\<close>

function merge_stacks :: "u64 list \<Rightarrow> nat \<Rightarrow> nat list \<Rightarrow> (u64 list \<times> nat list) option" where
  "merge_stacks ws e table =
     (if length ws \<le> e then None
      else if te_count ws e = 0 then Some (ws, table)
      else if \<not> te_inside ws e then None
      else (case find (\<lambda>c. StackTraceEqual ws c e) table of
              None \<Rightarrow> merge_stacks ws (te_next ws e) (table @ [e])
            | Some canonical \<Rightarrow>
                let ws' = ws[canonical := te_count ws canonical + te_count ws e];
                    ws' = ws'[canonical + 1 := te_size ws' canonical + te_size ws' e]
                in merge_stacks ws' (te_next ws e) table))"
  by pat_completeness auto
termination by (relation "measure (\<lambda>(ws, e, t). length ws - e)") (auto simp: te_next_def Let_def)

declare merge_stacks.simps [simp del]

text \<open>\<open>order\<close> is the order in which the set is iterated.\<close>

definition Ext_GetHeapSample :: "(nat list \<Rightarrow> nat list) \<Rightarrow> u64 list option \<Rightarrow> string option" where
  "Ext_GetHeapSample order entries =
     (case entries of
        None \<Rightarrow> Some (''This malloc implementation does not support sampling.'' @ [char_of (10 :: nat)] @
          ''As of 2005/01/26, only tcmalloc supports sampling, and you'' @ [char_of (10 :: nat)] @
          ''are probably running a binary that does not use tcmalloc.'' @ [char_of (10 :: nat)])
      | Some ws \<Rightarrow> do {
          (ws, table) \<leftarrow> merge_stacks ws 0 [];
          header \<leftarrow> PrintHeader ''heap'' ws;
          Some (header @ concat (map (PrintStackEntry ws) (order table))) })"

function growth_entries :: "u64 list \<Rightarrow> nat \<Rightarrow> string option" where
  "growth_entries ws e =
     (if length ws \<le> e then None
      else if te_count ws e = 0 then Some ''''
      else if \<not> te_inside ws e then None
      else map_option ((@) (PrintStackEntry ws e)) (growth_entries ws (te_next ws e)))"
  by pat_completeness auto
termination by (relation "measure (\<lambda>(ws, e). length ws - e)") (auto simp: te_next_def)

declare growth_entries.simps [simp del]

definition Ext_GetHeapGrowthStacks :: "u64 list option \<Rightarrow> string option" where
  "Ext_GetHeapGrowthStacks entries =
     (case entries of
        None \<Rightarrow> Some (''This malloc implementation does not support '' @ ''ReadHeapGrowhStackTraces().'' @ [char_of (10 :: nat)] @
          ''As of 2005/09/27, only tcmalloc supports this, and you'' @ [char_of (10 :: nat)] @
          ''are probably running a binary that does not use tcmalloc.'' @ [char_of (10 :: nat)])
      | Some ws \<Rightarrow> do {
          header \<leftarrow> PrintHeader ''growth'' ws;
          body \<leftarrow> growth_entries ws 0;
          Some (header @ body) })"

end
