(* ===== verification/MallocExtProps.thy ===== *)
theory MallocExtProps
  imports MallocExt Stats
begin

text \<open>
  Merging the traces of a heap sample: the entries that stay carry the totals of their stack, so the lines of the
  report add up to the sample; the header, which is computed after the merge, counts what was merged twice.
\<close>

section \<open>The entries of an array\<close>

function entries_from :: "u64 list \<Rightarrow> nat \<Rightarrow> nat list option" where
  "entries_from ws e =
     (if length ws \<le> e then None else if te_count ws e = 0 then Some [] else if \<not> te_inside ws e then None
      else map_option ((#) e) (entries_from ws (te_next ws e)))"
  by pat_completeness auto
termination by (relation "measure (\<lambda>(ws, e). length ws - e)") (auto simp: te_next_def)

declare entries_from.simps [simp del]

lemma entries_from_SomeE:
  assumes "entries_from ws e = Some es"
  obtains "es = []" "e < length ws" "te_count ws e = 0"
    | fs where "es = e # fs" "te_count ws e \<noteq> 0" "te_inside ws e" "e < length ws" "entries_from ws (te_next ws e) = Some fs"
  using assms by (subst (asm) entries_from.simps) (auto split: if_splits)

lemma header_totals_entries:
  "entries_from ws e = Some es \<Longrightarrow> header_totals ws e t = Some (fst t + (\<Sum>x\<leftarrow>es. te_count ws x), snd t + (\<Sum>x\<leftarrow>es. te_size ws x))"
proof (induction ws e t arbitrary: es rule: header_totals.induct)
  case (1 ws e t)
  from 1(2) show ?case
  proof (cases rule: entries_from_SomeE)
    case 1
    then show ?thesis by (subst header_totals.simps) simp
  next
    case (2 fs)
    have "header_totals ws e t = header_totals ws (te_next ws e) (fst t + te_count ws e, snd t + te_size ws e)"
      using 2 by (subst header_totals.simps) simp
    also have "\<dots> = Some (fst t + te_count ws e + (\<Sum>x\<leftarrow>fs. te_count ws x), snd t + te_size ws e + (\<Sum>x\<leftarrow>fs. te_size ws x))"
      using 1(1) [OF _ _ _ 2(5)] 2(2-4) by simp
    finally show ?thesis using 2(1) by (simp add: add.assoc)
  qed
qed

definition later :: "u64 list \<Rightarrow> nat \<Rightarrow> nat \<Rightarrow> bool" where
  "later ws a b \<longleftrightarrow> te_next ws a \<le> b"

lemma entries_sorted: "entries_from ws e = Some es \<Longrightarrow> sorted_wrt (later ws) es \<and> (\<forall>x\<in>set es. e \<le> x \<and> te_inside ws x)"
proof (induction ws e arbitrary: es rule: entries_from.induct)
  case (1 ws e)
  from 1(2) show ?case
  proof (cases rule: entries_from_SomeE)
    case (2 fs)
    have "sorted_wrt (later ws) fs \<and> (\<forall>x\<in>set fs. te_next ws e \<le> x \<and> te_inside ws x)" using 1(1) [OF _ _ _ 2(5)] 2(2-4) by simp
    then have f: "sorted_wrt (later ws) fs" "\<And>x. x \<in> set fs \<Longrightarrow> later ws e x \<and> te_inside ws x" unfolding later_def by blast+
    have "e \<le> x" if "later ws e x" for x using that by (simp add: later_def te_next_def)
    then show ?thesis using f 2(1,3) by auto
  qed simp
qed

lemma entries_from_cong:
  "length vs = length ws \<Longrightarrow> (\<And>i. e \<le> i \<Longrightarrow> vs ! i = ws ! i) \<Longrightarrow> entries_from vs e = entries_from ws e"
proof (induction ws e rule: entries_from.induct)
  case (1 ws e)
  have s: "te_count vs e = te_count ws e" "te_inside vs e = te_inside ws e" "te_next vs e = te_next ws e"
    using 1(2,3) by (simp_all add: te_count_def te_inside_def te_next_def te_depth_def)
  have n: "e \<le> te_next ws e" by (simp add: te_next_def)
  show ?case
  proof (cases "\<not> length ws \<le> e \<and> te_count ws e \<noteq> 0 \<and> te_inside ws e")
    case True
    then have "entries_from vs (te_next ws e) = entries_from ws (te_next ws e)"
      using 1(1) [OF _ _ _ 1(2)] 1(3) n by simp
    then show ?thesis using s 1(2) True by (subst (1 2) entries_from.simps) simp
  next
    case False
    then show ?thesis using s 1(2) by (subst (1 2) entries_from.simps) auto
  qed
qed

section \<open>One merge\<close>

definition merge_one :: "nat \<Rightarrow> u64 list \<times> nat list \<Rightarrow> u64 list \<times> nat list" where
  "merge_one e = (\<lambda>(ws, table). case find (\<lambda>c. StackTraceEqual ws c e) table of
      None \<Rightarrow> (ws, table @ [e])
    | Some c \<Rightarrow> (let ws' = ws[c := te_count ws c + te_count ws e] in (ws'[c + 1 := te_size ws' c + te_size ws' e], table)))"

lemma find_in: "find P xs = Some x \<Longrightarrow> x \<in> set xs \<and> P x"
  by (auto simp: find_Some_iff)

lemma merge_stacks_fold:
  "entries_from ws e = Some es \<Longrightarrow> (\<And>c. c \<in> set table \<Longrightarrow> c + 2 < e) \<Longrightarrow> merge_stacks ws e table = Some (fold merge_one es (ws, table))"
proof (induction ws e table arbitrary: es rule: merge_stacks.induct)
  case (1 ws e table)
  from 1(3) show ?case
  proof (cases rule: entries_from_SomeE)
    case 1
    then show ?thesis by (subst merge_stacks.simps) simp
  next
    case (2 fs)
    have n: "e + 2 < te_next ws e" by (simp add: te_next_def)
    show ?thesis
    proof (cases "find (\<lambda>c. StackTraceEqual ws c e) table")
      case None
      have "merge_stacks ws e table = merge_stacks ws (te_next ws e) (table @ [e])"
        using 2 None by (subst merge_stacks.simps) simp
      also have "\<dots> = Some (fold merge_one fs (ws, table @ [e]))"
        by (rule 1(1) [OF _ _ _ None 2(5)]) (use 2(2-4) 1(4) n in \<open>auto dest!: 1(4)\<close>)
      moreover have "merge_one e (ws, table) = (ws, table @ [e])" using None by (simp add: merge_one_def)
      ultimately show ?thesis using 2(1) by simp
    next
      case (Some c)
      have c: "c + 2 < e" using 1(4) find_in [OF Some] by blast
      let ?v = "ws[c := te_count ws c + te_count ws e]"
      let ?w = "?v[c + 1 := te_size ?v c + te_size ?v e]"
      have "merge_stacks ws e table = merge_stacks ?w (te_next ws e) table"
        using 2 Some by (subst merge_stacks.simps) (simp add: Let_def)
      also have "\<dots> = Some (fold merge_one fs (?w, table))"
      proof (rule 1(2) [OF _ _ _ Some refl refl])
        have "entries_from ?w (te_next ws e) = entries_from ws (te_next ws e)"
          by (rule entries_from_cong) (use c n in \<open>auto simp: nth_list_update\<close>)
        then show "entries_from ?w (te_next ws e) = Some fs" using 2(5) by simp
        show "d + 2 < te_next ws e" if "d \<in> set table" for d using 1(4) [OF that] n by simp
      qed (use 2(2-4) in auto)
      finally have "merge_stacks ws e table = Some (fold merge_one fs (?w, table))" .
      moreover have "merge_one e (ws, table) = (?w, table)" using Some by (simp add: merge_one_def Let_def)
      ultimately show ?thesis using 2(1) by simp
    qed
  qed
qed

section \<open>All merges\<close>

definition sampled_stack :: "u64 list \<Rightarrow> nat \<Rightarrow> u64 \<times> u64 list" where
  "sampled_stack ws e = (te_depth ws e, map (te_pc ws e) [0..<unat (te_depth ws e)])"

lemma StackTraceEqual_iff: "StackTraceEqual ws a b \<longleftrightarrow> sampled_stack ws a = sampled_stack ws b"
  by (auto simp: StackTraceEqual_def sampled_stack_def list_all_iff)

text \<open>What the hash set needs of its parameters.\<close>

lemma StackTraceHash_cong:
  assumes "StackTraceEqual ws a b"
  shows "StackTraceHash ws a = StackTraceHash ws b"
proof -
  have d: "te_depth ws a = te_depth ws b" and p: "\<And>i. i < unat (te_depth ws b) \<Longrightarrow> te_pc ws a i = te_pc ws b i"
    using assms by (auto simp: StackTraceEqual_def list_all_iff split: if_splits)
  show ?thesis unfolding StackTraceHash_def d by (rule fold_cong) (simp_all add: p)
qed

definition laid_out :: "u64 list \<Rightarrow> nat list \<Rightarrow> bool" where
  "laid_out ws es \<longleftrightarrow> distinct es \<and> (\<forall>x\<in>set es. te_inside ws x) \<and>
     (\<forall>a\<in>set es. \<forall>b\<in>set es. a \<noteq> b \<longrightarrow> later ws a b \<or> later ws b a)"

lemma entries_laid_out: "entries_from ws e = Some es \<Longrightarrow> laid_out ws es"
proof -
  assume "entries_from ws e = Some es"
  then have "sorted_wrt (later ws) es" "\<forall>x\<in>set es. te_inside ws x" using entries_sorted by blast+
  then show ?thesis
  proof (induction es)
    case (Cons x xs)
    then have "x \<notin> set xs" by (auto simp: later_def te_next_def)
    then show ?case using Cons by (auto simp: laid_out_def)
  qed (simp add: laid_out_def)
qed

definition same_stacks :: "u64 list \<Rightarrow> u64 list \<Rightarrow> nat list \<Rightarrow> bool" where
  "same_stacks ws vs es \<longleftrightarrow> length vs = length ws \<and>
     (\<forall>e\<in>set es. te_depth vs e = te_depth ws e \<and> (\<forall>i<unat (te_depth ws e). te_pc vs e i = te_pc ws e i)) \<and>
     (\<forall>i. (\<forall>e\<in>set es. i \<noteq> e \<and> i \<noteq> e + 1) \<longrightarrow> vs ! i = ws ! i)"

lemma same_stacks_of: "same_stacks ws vs es \<Longrightarrow> e \<in> set es \<Longrightarrow> sampled_stack vs e = sampled_stack ws e"
  by (auto simp: same_stacks_def sampled_stack_def)

lemma merge_write:
  assumes L: "laid_out ws es" and S: "same_stacks ws vs es" and c: "c \<in> set es"
  shows "same_stacks ws (vs[c := x, c + 1 := y]) es"
    "e \<in> set es \<Longrightarrow> te_count (vs[c := x, c + 1 := y]) e = (if e = c then x else te_count vs e)"
    "e \<in> set es \<Longrightarrow> te_size (vs[c := x, c + 1 := y]) e = (if e = c then y else te_size vs e)"
proof -
  let ?w = "vs[c := x, c + 1 := y]"
  have len: "length vs = length ws" using S by (simp add: same_stacks_def)
  have cin: "c + 2 < length ws" using L c by (auto simp: laid_out_def te_inside_def)
  have far: "c \<notin> {e..<te_next ws e} \<and> c + 1 \<notin> {e..<te_next ws e}" if "e \<in> set es" "e \<noteq> c" for e
  proof -
    have "te_next ws e \<le> c \<or> te_next ws c \<le> e" using L c that by (auto simp: laid_out_def later_def)
    then show ?thesis by (auto simp: te_next_def)
  qed
  have w: "?w ! j = vs ! j" if "e \<in> set es" "e \<noteq> c" "e \<le> j" "j < te_next ws e" for e j
    using far [OF that(1,2)] that(3,4) by (auto simp: nth_list_update)
  have own: "?w ! j = vs ! j" if "c + 1 < j" for j using that by simp
  have "te_depth ?w e = te_depth vs e \<and> (\<forall>i<unat (te_depth ws e). te_pc ?w e i = te_pc vs e i)" if e: "e \<in> set es" for e
    using w [OF e] own unfolding te_depth_def te_pc_def te_next_def by (cases "e = c") auto
  moreover have "?w ! i = vs ! i" if "\<forall>e\<in>set es. i \<noteq> e \<and> i \<noteq> e + 1" for i using that c by auto
  ultimately show "same_stacks ws ?w es" using S by (auto simp: same_stacks_def)
  show "te_count ?w e = (if e = c then x else te_count vs e)" if e: "e \<in> set es"
    using w [OF e _ order_refl] cin len by (auto simp: te_count_def te_next_def)
  show "te_size ?w e = (if e = c then y else te_size vs e)" if e: "e \<in> set es"
    using w [OF e, of "e + 1"] cin len by (auto simp: te_size_def te_next_def)
qed

definition group :: "u64 list \<Rightarrow> nat list \<Rightarrow> nat \<Rightarrow> nat list" where
  "group ws es c = filter (\<lambda>e. sampled_stack ws e = sampled_stack ws c) es"

definition merged :: "u64 list \<Rightarrow> nat list \<Rightarrow> nat list \<Rightarrow> u64 list \<times> nat list \<Rightarrow> bool" where
  "merged ws es pre = (\<lambda>(vs, table). same_stacks ws vs es \<and> set table \<subseteq> set pre \<and> distinct table \<and>
     inj_on (sampled_stack ws) (set table) \<and> sampled_stack ws ` set table = sampled_stack ws ` set pre \<and>
     (\<forall>e\<in>set es. te_count vs e = (if e \<in> set table then \<Sum>d\<leftarrow>group ws pre e. te_count ws d else te_count ws e) \<and>
        te_size vs e = (if e \<in> set table then \<Sum>d\<leftarrow>group ws pre e. te_size ws d else te_size ws e)))"

lemma merge_one_merged:
  assumes L: "laid_out ws es" and M: "merged ws es pre (vs, table)" and e: "e \<in> set es" "e \<notin> set pre" and sub: "set pre \<subseteq> set es"
  shows "merged ws es (pre @ [e]) (merge_one e (vs, table))"
proof -
  have S: "same_stacks ws vs es" and T: "set table \<subseteq> set pre" "distinct table" "inj_on (sampled_stack ws) (set table)"
      "sampled_stack ws ` set table = sampled_stack ws ` set pre"
    and N: "\<And>d. d \<in> set es \<Longrightarrow> te_count vs d = (if d \<in> set table then \<Sum>x\<leftarrow>group ws pre d. te_count ws x else te_count ws d)"
      "\<And>d. d \<in> set es \<Longrightarrow> te_size vs d = (if d \<in> set table then \<Sum>x\<leftarrow>group ws pre d. te_size ws x else te_size ws d)"
    using M by (simp_all add: merged_def)
  have et: "e \<notin> set table" using T(1) e(2) by blast
  have eq: "StackTraceEqual vs c e \<longleftrightarrow> sampled_stack ws c = sampled_stack ws e" if "c \<in> set table" for c
    using same_stacks_of [OF S] e(1) that T(1) sub by (auto simp: StackTraceEqual_iff)
  have g: "group ws (pre @ [e]) d = group ws pre d @ (if sampled_stack ws e = sampled_stack ws d then [e] else [])" for d
    by (simp add: group_def)
  show ?thesis
  proof (cases "find (\<lambda>c. StackTraceEqual vs c e) table")
    case None
    have new: "sampled_stack ws e \<notin> sampled_stack ws ` set table" using None eq by (auto simp: find_None_iff)
    then have "group ws pre e = []" unfolding T(4) group_def filter_empty_conv by (metis imageI)
    moreover have "sampled_stack ws e \<noteq> sampled_stack ws d" if "d \<in> set table" for d using new that by auto
    ultimately have "merged ws es (pre @ [e]) (vs, table @ [e])"
      using S T N et new e unfolding merged_def by (auto simp: g)
    then show ?thesis using None by (simp add: merge_one_def)
  next
    case (Some c)
    have c: "c \<in> set table" "sampled_stack ws c = sampled_stack ws e" using find_in [OF Some] eq by blast+
    have ces: "c \<in> set es" and ce: "c \<noteq> e" using c(1) T(1) sub et by auto
    let ?x = "te_count vs c + te_count vs e" and ?y = "te_size vs c + te_size vs e"
    have "te_size (vs[c := ?x]) c + te_size (vs[c := ?x]) e = ?y"
    proof -
      have "te_size (vs[c := ?x]) c = te_size vs c" by (simp add: te_size_def)
      moreover have "te_size (vs[c := ?x]) e = te_size vs e"
      proof -
        have "te_next ws e \<le> c \<or> te_next ws c \<le> e" using L ces e(1) ce by (auto simp: laid_out_def later_def)
        then have "e + 1 \<noteq> c" by (auto simp: te_next_def)
        then show ?thesis by (simp add: te_size_def)
      qed
      ultimately show ?thesis by simp
    qed
    then have m: "merge_one e (vs, table) = (vs[c := ?x, c + 1 := ?y], table)" using Some by (simp add: merge_one_def Let_def)
    note w = merge_write [where x = ?x and y = ?y, OF L S ces]
    have only: "d = c" if "d \<in> set table" "sampled_stack ws e = sampled_stack ws d" for d
      using T(3) that c by (auto dest: inj_onD)
    have "sampled_stack ws e \<in> sampled_stack ws ` set pre" using imageI [OF c(1), of "sampled_stack ws"] unfolding T(4) c(2) .
    then have "sampled_stack ws ` set table = sampled_stack ws ` set (pre @ [e])" unfolding T(4) by auto
    moreover have "te_count (vs[c := ?x, c + 1 := ?y]) d = (if d \<in> set table then \<Sum>x\<leftarrow>group ws (pre @ [e]) d. te_count ws x else te_count ws d) \<and>
        te_size (vs[c := ?x, c + 1 := ?y]) d = (if d \<in> set table then \<Sum>x\<leftarrow>group ws (pre @ [e]) d. te_size ws x else te_size ws d)"
      if d: "d \<in> set es" for d
    proof (cases "d = c")
      case True
      then show ?thesis using w(2,3) [OF ces] N [OF ces] N [OF e(1)] c et by (simp add: g)
    next
      case False
      then have "group ws (pre @ [e]) d = group ws pre d" if "d \<in> set table" using only [OF that] by (auto simp: g)
      then show ?thesis using w(2,3) [OF d] N [OF d] False by simp
    qed
    moreover have "set table \<subseteq> set (pre @ [e])" using T(1) by auto
    ultimately show ?thesis unfolding m merged_def prod.case using w(1) T(2,3) by blast
  qed
qed

lemma merge_all:
  assumes L: "laid_out ws es"
  shows "es = pre @ post \<Longrightarrow> merged ws es pre (fold merge_one pre (ws, []))"
proof (induction pre arbitrary: post rule: rev_induct)
  case Nil
  then show ?case by (simp add: merged_def same_stacks_def)
next
  case (snoc e pre)
  obtain vs table where f: "fold merge_one pre (ws, []) = (vs, table)" by fastforce
  have "merged ws es pre (vs, table)" using snoc.IH [of "e # post"] snoc.prems f by simp
  moreover have "e \<in> set es" "e \<notin> set pre" "set pre \<subseteq> set es" using snoc.prems L by (auto simp: laid_out_def)
  ultimately have "merged ws es (pre @ [e]) (merge_one e (vs, table))" by (rule merge_one_merged [OF L])
  then show ?case by (simp add: f)
qed

lemma merge_stacks_merged:
  assumes "entries_from ws 0 = Some es"
  shows "\<exists>vs table. merge_stacks ws 0 [] = Some (vs, table) \<and> merged ws es es (vs, table)"
proof -
  obtain vs table where f: "fold merge_one es (ws, []) = (vs, table)" by fastforce
  have "merged ws es es (vs, table)" using merge_all [OF entries_laid_out [OF assms], of es "[]"] f by simp
  then show ?thesis using merge_stacks_fold [OF assms, of "[]"] f by auto
qed

lemma entries_from_after:
  "entries_from ws e = Some es \<Longrightarrow> same_stacks ws vs all \<Longrightarrow> set es \<subseteq> set all \<Longrightarrow> \<forall>d\<in>set all. te_count vs d \<noteq> 0 \<Longrightarrow>
   \<forall>d\<in>set all. d \<in> set es \<or> te_next ws d \<le> e \<Longrightarrow> entries_from vs e = Some es"
proof (induction ws e arbitrary: es rule: entries_from.induct)
  case (1 ws e)
  have len: "length vs = length ws" using 1(3) by (simp add: same_stacks_def)
  from 1(2) show ?case
  proof (cases rule: entries_from_SomeE)
    case stop: 1
    have "e \<noteq> d \<and> e \<noteq> d + 1" if "d \<in> set all" for d using 1(6) that stop(1) by (auto simp: te_next_def)
    then have "vs ! e = ws ! e" using 1(3) by (simp add: same_stacks_def)
    then have "te_count vs e = 0" using stop(3) by (simp add: te_count_def)
    then show ?thesis using stop(1,2) len by (subst entries_from.simps) simp
  next
    case more: (2 fs)
    have e: "e \<in> set all" using 1(4) more(1) by simp
    then have d: "te_depth vs e = te_depth ws e" using 1(3) by (simp add: same_stacks_def)
    then have n: "te_next vs e = te_next ws e" "te_inside vs e = te_inside ws e" using len by (simp_all add: te_next_def te_inside_def)
    have later: "\<forall>x\<in>set es. e \<le> x" using entries_sorted [OF 1(2)] by blast
    have "entries_from vs (te_next ws e) = Some fs"
    proof (rule 1(1) [OF _ _ _ more(5) 1(3) _ 1(5)])
      show "\<forall>d\<in>set all. d \<in> set fs \<or> te_next ws d \<le> te_next ws e"
      proof
        fix d assume "d \<in> set all"
        then have "d = e \<or> d \<in> set fs \<or> te_next ws d \<le> e" using 1(6) more(1) by auto
        then show "d \<in> set fs \<or> te_next ws d \<le> te_next ws e" by (auto simp: te_next_def)
      qed
    qed (use more 1(4) in auto)
    then show ?thesis using more(1,3,4) e 1(5) n len by (subst entries_from.simps) simp
  qed
qed

lemma groups_sum:
  fixes f :: "nat \<Rightarrow> u64"
  assumes d: "distinct es" "distinct table" and i: "inj_on (sampled_stack ws) (set table)" "sampled_stack ws ` set table = sampled_stack ws ` set es"
  shows "(\<Sum>c\<leftarrow>table. \<Sum>x\<leftarrow>group ws es c. f x) = (\<Sum>x\<leftarrow>es. f x)"
proof -
  have g: "(\<Sum>x\<leftarrow>group ws es c. f x) = sum f {x \<in> set es. sampled_stack ws x = sampled_stack ws c}" for c
    using d(1) by (simp add: group_def sum_list_distinct_conv_sum_set)
  have "(\<Sum>c\<leftarrow>table. \<Sum>x\<leftarrow>group ws es c. f x) = (\<Sum>c\<in>set table. sum f {x \<in> set es. sampled_stack ws x = sampled_stack ws c})"
    using d(2) by (simp add: g sum_list_distinct_conv_sum_set)
  also have "\<dots> = (\<Sum>k\<in>sampled_stack ws ` set table. sum f {x \<in> set es. sampled_stack ws x = k})"
    by (simp add: sum.reindex [OF i(1)])
  also have "\<dots> = sum f (set es)" unfolding i(2) by (rule sum.group) simp_all
  finally show ?thesis using d(1) by (simp add: sum_list_distinct_conv_sum_set)
qed

section \<open>Properties\<close>

text \<open>
  C26. Merging the traces of a heap sample loses and invents nothing: it always ends, keeps one entry of every stack
  that occurs, and that entry carries the sums of the counts and sizes of all entries with the stack.
\<close>

theorem heap_sample_conserves:
  assumes "entries_from ws 0 = Some es"
  shows "\<exists>vs table. merge_stacks ws 0 [] = Some (vs, table) \<and> distinct table \<and> set table \<subseteq> set es \<and>
    (\<forall>e\<in>set es. \<exists>!c. c \<in> set table \<and> StackTraceEqual ws c e) \<and>
    (\<forall>c\<in>set table. sampled_stack vs c = sampled_stack ws c \<and>
       te_count vs c = (\<Sum>e\<leftarrow>filter (\<lambda>e. StackTraceEqual ws e c) es. te_count ws e) \<and>
       te_size vs c = (\<Sum>e\<leftarrow>filter (\<lambda>e. StackTraceEqual ws e c) es. te_size ws e))"
proof -
  obtain vs table where m: "merge_stacks ws 0 [] = Some (vs, table)" "merged ws es es (vs, table)"
    using merge_stacks_merged [OF assms] by blast
  then have T: "same_stacks ws vs es" "set table \<subseteq> set es" "distinct table" "inj_on (sampled_stack ws) (set table)"
      "sampled_stack ws ` set table = sampled_stack ws ` set es"
    and N: "\<And>c. c \<in> set table \<Longrightarrow> te_count vs c = (\<Sum>x\<leftarrow>group ws es c. te_count ws x) \<and> te_size vs c = (\<Sum>x\<leftarrow>group ws es c. te_size ws x)"
    by (auto simp: merged_def)
  have "\<exists>!c. c \<in> set table \<and> StackTraceEqual ws c e" if e: "e \<in> set es" for e
  proof -
    have "sampled_stack ws e \<in> sampled_stack ws ` set table" unfolding T(5) using e by (rule imageI)
    then show ?thesis unfolding StackTraceEqual_iff using T(4) by (metis imageE inj_onD)
  qed
  moreover have "sampled_stack vs c = sampled_stack ws c" if "c \<in> set table" for c using same_stacks_of [OF T(1)] T(2) that by blast
  ultimately show ?thesis using m(1) T(2,3) N unfolding group_def StackTraceEqual_iff by blast
qed

definition demo_trace :: "u64 list" where
  "demo_trace = [1, 16, 2, 7, 9, 1, 32, 1, 5, 1, 8, 2, 7, 9, 0]"

lemma demo_trace_entries: "entries_from demo_trace 0 = Some [0, 5, 9]"
  by (simp add: entries_from.simps demo_trace_def te_count_def te_inside_def te_next_def te_depth_def)

lemma heap_sample_conserves_witness:
  "\<exists>vs table. merge_stacks demo_trace 0 [] = Some (vs, table) \<and> set table \<subseteq> {0, 5, 9} \<and> (\<forall>e\<in>{0, 5, 9}. \<exists>!c. c \<in> set table \<and> StackTraceEqual demo_trace c e)"
  using heap_sample_conserves [OF demo_trace_entries] by auto

text \<open>An array that \<open>DumpStackTraces\<close> fills.\<close>

lemma trace_words_entries:
  "trace_words needed used ts = Some ws \<Longrightarrow> \<forall>t\<in>set ts. st_depth t < 2 ^ 64 \<Longrightarrow>
   \<exists>es. entries_from (pre @ ws) (length pre) = Some es \<and> (\<forall>e\<in>set es. te_count (pre @ ws) e = 1)"
proof (induction needed used ts arbitrary: ws pre rule: trace_words.induct)
  case (1 needed used)
  then have w: "ws = [0]" by simp
  have "entries_from (pre @ ws) (length pre) = Some []" unfolding w by (subst entries_from.simps) (simp add: te_count_def)
  then show ?case by auto
next
  case (2 needed used t ts)
  show ?case
  proof (cases "used + 3 + st_depth t \<ge> needed")
    case True
    then have w: "ws = [0]" using 2(2) by auto
    have "entries_from (pre @ ws) (length pre) = Some []" unfolding w by (subst entries_from.simps) (simp add: te_count_def)
    then show ?thesis by auto
  next
    case False
    then obtain rest where r: "used < needed" "trace_words needed (used + 3 + st_depth t) ts = Some rest"
      "ws = [1, st_size t, word_of_nat (st_depth t)] @ map (st_stack t) [0..<st_depth t] @ rest"
      using 2(2) by (auto simp: bind_eq_Some_conv)
    let ?p = "pre @ [1, st_size t, word_of_nat (st_depth t)] @ map (st_stack t) [0..<st_depth t]"
    have u: "unat (word_of_nat (st_depth t) :: u64) = st_depth t" using 2(3) by (intro of_nat_inverse [OF refl]) simp
    obtain es where es: "entries_from (?p @ rest) (length ?p) = Some es" "\<forall>e\<in>set es. te_count (?p @ rest) e = 1"
      using 2(1) [where pre = ?p, OF _ False r(2)] r(1) 2(3) by auto
    have w: "?p @ rest = pre @ ws" using r(3) by simp
    have c: "te_count (pre @ ws) (length pre) = 1" "te_depth (pre @ ws) (length pre) = word_of_nat (st_depth t)"
      using r(3) by (simp_all add: te_count_def te_depth_def nth_append)
    then have n: "te_next (pre @ ws) (length pre) = length ?p" using u by (simp add: te_next_def)
    then have "te_inside (pre @ ws) (length pre)" using r(3) by (simp add: te_inside_def)
    then have "entries_from (pre @ ws) (length pre) = Some (length pre # es)"
      using c(1) es(1) n w r(3) by (subst entries_from.simps) simp
    then show ?thesis using c(1) es(2) w by auto
  qed
qed

text \<open>
  C31. The header of a heap sample is wrong as soon as two sampled objects have one stack: \<open>GetHeapSample\<close> prints it
  after the merge, where the kept entries already hold the sums, so that the merged entries are added again. Whatever
  the order in which the hash set is iterated, the lines below it add up to the number and bytes of the sampled
  objects; the header reports that number plus one, and those bytes plus its own, for every merged entry.
\<close>

theorem heap_sample_header_overcounts:
  assumes "trace_words needed 0 ts = Some ws" "\<forall>t\<in>set ts. st_depth t < 2 ^ 64" "length ws < 2 ^ 64"
    and order: "\<And>xs. distinct xs \<Longrightarrow> distinct (order xs) \<and> set (order xs) = set xs"
  shows "\<exists>es vs lines. entries_from ws 0 = Some es \<and>
    Ext_GetHeapSample order (Some ws) = Some (header_text ''heap'' (of_nat (length es + (length es - length lines)))
        ((\<Sum>e\<leftarrow>es. te_size ws e) + (\<Sum>e\<leftarrow>filter (\<lambda>e. e \<notin> set lines) es. te_size ws e)) @ concat (map (PrintStackEntry vs) lines)) \<and>
    (\<Sum>c\<leftarrow>lines. te_count vs c) = of_nat (length es) \<and> (\<Sum>c\<leftarrow>lines. te_size vs c) = (\<Sum>e\<leftarrow>es. te_size ws e) \<and>
    distinct lines \<and> set lines \<subseteq> set es \<and> (\<forall>e\<in>set es. \<exists>!c. c \<in> set lines \<and> StackTraceEqual ws c e)"
proof -
  obtain es where e: "entries_from ws 0 = Some es" "\<forall>e\<in>set es. te_count ws e = 1"
    using trace_words_entries [OF assms(1,2), of "[]"] by auto
  obtain vs table where m: "merge_stacks ws 0 [] = Some (vs, table)" "merged ws es es (vs, table)"
    using merge_stacks_merged [OF e(1)] by blast
  have L: "laid_out ws es" by (rule entries_laid_out [OF e(1)])
  then have de: "distinct es" by (simp add: laid_out_def)
  have T: "same_stacks ws vs es" "set table \<subseteq> set es" "distinct table" "inj_on (sampled_stack ws) (set table)"
      "sampled_stack ws ` set table = sampled_stack ws ` set es"
    and N: "\<And>d. d \<in> set es \<Longrightarrow> te_count vs d = (if d \<in> set table then \<Sum>x\<leftarrow>group ws es d. te_count ws x else te_count ws d)"
      "\<And>d. d \<in> set es \<Longrightarrow> te_size vs d = (if d \<in> set table then \<Sum>x\<leftarrow>group ws es d. te_size ws x else te_size ws d)"
    using m(2) by (simp_all add: merged_def)
  have sum: "(\<Sum>c\<leftarrow>table. g c) = (\<Sum>x\<leftarrow>es. f x)" "(\<Sum>x\<leftarrow>es. g x) = (\<Sum>x\<leftarrow>es. f x) + (\<Sum>x\<leftarrow>filter (\<lambda>x. x \<notin> set table) es. f x)"
    if g: "\<And>d. d \<in> set es \<Longrightarrow> g d = (if d \<in> set table then \<Sum>x\<leftarrow>group ws es d. f x else f d)" for f g :: "nat \<Rightarrow> u64"
  proof -
    have "(\<Sum>c\<leftarrow>table. g c) = (\<Sum>c\<leftarrow>table. \<Sum>x\<leftarrow>group ws es c. f x)" using g T(2) by (intro arg_cong [where f = sum_list] map_cong) auto
    also have "\<dots> = (\<Sum>x\<leftarrow>es. f x)" by (rule groups_sum [OF de T(3-5)])
    finally show t: "(\<Sum>c\<leftarrow>table. g c) = (\<Sum>x\<leftarrow>es. f x)" .
    have "(\<Sum>x\<leftarrow>es. g x) = sum g (set table) + sum g (set es - set table)"
      using de sum.subset_diff [OF T(2), of g] by (simp add: sum_list_distinct_conv_sum_set add.commute)
    also have "sum g (set table) = (\<Sum>x\<leftarrow>es. f x)" using t T(3) by (simp add: sum_list_distinct_conv_sum_set)
    also have "sum g (set es - set table) = (\<Sum>x\<leftarrow>filter (\<lambda>x. x \<notin> set table) es. f x)"
      using de g by (simp add: sum_list_distinct_conv_sum_set set_diff_eq)
    finally show "(\<Sum>x\<leftarrow>es. g x) = (\<Sum>x\<leftarrow>es. f x) + (\<Sum>x\<leftarrow>filter (\<lambda>x. x \<notin> set table) es. f x)" .
  qed
  note cnt = sum [OF N(1)] and siz = sum [OF N(2)]
  have one: "(\<Sum>x\<leftarrow>xs. te_count ws x) = of_nat (length xs)" if "set xs \<subseteq> set es" for xs
    using that e(2) by (induction xs) simp_all
  have lt: "length es \<le> length ws"
  proof -
    have "set es \<subseteq> {..<length ws}" using L by (auto simp: laid_out_def te_inside_def)
    then show ?thesis using card_mono [of "{..<length ws}" "set es"] distinct_card [OF de] by simp
  qed
  have "te_count vs d \<noteq> 0" if d: "d \<in> set es" for d
  proof (cases "d \<in> set table")
    case True
    have sub: "set (group ws es d) \<subseteq> set es" by (auto simp: group_def)
    have "d \<in> set (group ws es d)" using d by (simp add: group_def)
    then have "0 < length (group ws es d)" by (rule length_pos_if_in_set)
    moreover have "length (group ws es d) < 2 ^ 64" using lt assms(3) length_filter_le [of _ es] unfolding group_def by (meson le_less_trans)
    ultimately have "(of_nat (length (group ws es d)) :: u64) \<noteq> 0"
      using of_nat_inverse [OF refl, of "length (group ws es d)", where 'a = 64] by auto
    then show ?thesis using N(1) [OF d] True one [OF sub] by simp
  qed (use N(1) [OF d] e(2) d in simp)
  then have E: "entries_from vs 0 = Some es" by (intro entries_from_after [OF e(1) T(1)]) auto
  have rest: "length (filter (\<lambda>x. x \<notin> set table) es) = length es - length table"
  proof -
    have "card (set es - set table) = card (set es) - card (set table)" by (rule card_Diff_subset) (use T(2) in simp_all)
    then show ?thesis using de T(3) distinct_card [OF distinct_filter [OF de]] by (simp add: distinct_card set_diff_eq)
  qed
  have "header_totals vs 0 (0, 0) = Some (of_nat (length es + (length es - length table)),
      (\<Sum>e\<leftarrow>es. te_size ws e) + (\<Sum>e\<leftarrow>filter (\<lambda>e. e \<notin> set table) es. te_size ws e))"
    using header_totals_entries [OF E, of "(0, 0)"] cnt(2) siz(2) one [of es] one [of "filter (\<lambda>x. x \<notin> set table) es"] rest by simp
  moreover have "(\<Sum>c\<leftarrow>table. te_count vs c) = of_nat (length es)" using cnt(1) one [of es] by simp
  moreover have "(\<Sum>c\<leftarrow>order table. f c) = (\<Sum>c\<leftarrow>table. f c)" for f :: "nat \<Rightarrow> u64"
    using order [OF T(3)] T(3) by (simp add: sum_list_distinct_conv_sum_set)
  moreover have "distinct (order table)" "set (order table) = set table" "length (order table) = length table"
    using order [OF T(3)] distinct_card [of "order table"] distinct_card [OF T(3)] by auto
  moreover have "\<exists>!c. c \<in> set table \<and> StackTraceEqual ws c e" if e: "e \<in> set es" for e
  proof -
    have "sampled_stack ws e \<in> sampled_stack ws ` set table" unfolding T(5) using e by (rule imageI)
    then show ?thesis unfolding StackTraceEqual_iff using T(4) by (metis imageE inj_onD)
  qed
  ultimately show ?thesis using e(1) m(1) siz(1) T(2)
    by (intro exI [of _ es] exI [of _ vs] exI [of _ "order table"]) (simp add: Ext_GetHeapSample_def PrintHeader_def)
qed

definition demo_twice :: "stack_trace list" where
  "demo_twice = replicate 2 \<lparr>st_size = 16, st_depth = 1, st_stack = \<lambda>_. 7\<rparr>"

lemma demo_twice_words: "trace_words 100 0 demo_twice = Some [1, 16, 1, 7, 1, 16, 1, 7, 0]"
  by (simp add: demo_twice_def eval_nat_numeral)

lemma demo_twice_merge: "merge_stacks [1, 16, 1, 7, 1, 16, 1, 7, 0] 0 [] = Some ([2, 32, 1, 7, 1, 16, 1, 7, 0], [0])"
  "entries_from [1, 16, 1, 7, 1, 16, 1, 7, 0] 0 = Some [0, 4]"
  by (simp_all add: merge_stacks.simps entries_from.simps te_count_def te_size_def te_depth_def te_pc_def te_next_def te_inside_def
      StackTraceEqual_def Let_def)

lemma heap_sample_header_overcounts_witness:
  "\<exists>vs lines. Ext_GetHeapSample rev (Some [1, 16, 1, 7, 1, 16, 1, 7, 0]) = Some (header_text ''heap'' 3 48 @ concat (map (PrintStackEntry vs) lines)) \<and>
     (\<Sum>c\<leftarrow>lines. te_count vs c) = 2"
proof -
  let ?ws = "[1, 16, 1, 7, 1, 16, 1, 7, 0] :: u64 list"
  have d: "\<forall>t\<in>set demo_twice. st_depth t < 2 ^ 64" by (simp add: demo_twice_def)
  obtain es vs lines where r: "entries_from ?ws 0 = Some es"
    "Ext_GetHeapSample rev (Some ?ws) = Some (header_text ''heap'' (of_nat (length es + (length es - length lines)))
        ((\<Sum>e\<leftarrow>es. te_size ?ws e) + (\<Sum>e\<leftarrow>filter (\<lambda>e. e \<notin> set lines) es. te_size ?ws e)) @ concat (map (PrintStackEntry vs) lines))"
    "(\<Sum>c\<leftarrow>lines. te_count vs c) = of_nat (length es)" "distinct lines" "set lines \<subseteq> set es"
    "\<forall>e\<in>set es. \<exists>!c. c \<in> set lines \<and> StackTraceEqual ?ws c e"
  proof -
    have o: "distinct (rev xs) \<and> set (rev xs) = set xs" if "distinct xs" for xs :: "nat list" using that by simp
    have l: "length ?ws < 2 ^ 64" by simp
    note H = heap_sample_header_overcounts [OF demo_twice_words d l o]
    show ?thesis by (rule exE [OF H], assumption, elim exE conjE) (rule that)
  qed
  have es: "es = [0, 4]" using r(1) demo_twice_merge(2) by simp
  have "StackTraceEqual ?ws 0 0" "StackTraceEqual ?ws 0 4" "StackTraceEqual ?ws 4 0" "StackTraceEqual ?ws 4 4"
    by (simp_all add: StackTraceEqual_def te_depth_def te_pc_def)
  then have eq: "StackTraceEqual ?ws a b" if "a \<in> {0, 4}" "b \<in> {0, 4}" for a b
    using that by blast
  have in04: "x \<in> {0, 4}" if "x \<in> set lines" for x using that r(5) by (auto simp: es)
  have "\<exists>!c. c \<in> set lines \<and> StackTraceEqual ?ws c 0" using r(6) by (simp add: es)
  then obtain c where "c \<in> set lines" "\<And>x. x \<in> set lines \<and> StackTraceEqual ?ws x 0 \<Longrightarrow> x = c" by (elim ex1E) blast
  moreover have "StackTraceEqual ?ws x 0" if "x \<in> set lines" for x using eq [OF in04 [OF that]] by simp
  ultimately have c: "set lines = {c}" by blast
  then have "length lines = 1" using distinct_card [OF r(4)] by simp
  moreover have "c = 0 \<or> c = 4" using r(5) c by (auto simp: es)
  ultimately show ?thesis using r(2,3) c by (intro exI [of _ vs] exI [of _ lines]) (auto simp: es te_size_def)
qed

end
