(* ===== verification/Profiler.thy ===== *)
theory Profiler
  imports Prelude
begin

text \<open>
  The CPU profiler's \<open>ProfileData\<close> (\<open>profiler.cpp\<close>): a hash table of stack traces with counts,
  four entries to a bucket, an eviction buffer, and the profile file.

  The table is a function of bucket and position. The eviction buffer is the list of its first
  \<open>num_evicted_\<close> words, the file the list of the bytes written to it. The counters of type \<open>int\<close> wrap at their
  32 bits. The operating system is a
  parameter: \<open>os_write\<close> gives the result of the \<open>k\<close>-th call for a number of bytes, negative for an
  error, on which the program exits (abnormal termination). The signal handler runs \<open>Add\<close> with
  the interrupted pc and the frames of \<open>GetStackTrace\<close>. The mutexes are left out.

  The results: no sample is lost and none is invented, whatever the evictions and however short
  the writes: the records in the file and the buffer together with the table add up to exactly
  the samples taken.
\<close>

section \<open>State\<close>

definition kMaxStackDepth_p :: nat where "kMaxStackDepth_p = 64"
definition kMaxFrequency :: int where "kMaxFrequency = 4000"
definition kDefaultFrequency :: int where "kDefaultFrequency = 100"
definition kAssociativity :: nat where "kAssociativity = 4"
definition kBuckets :: nat where "kBuckets = 1024"
definition kBufferLength :: nat where "kBufferLength = 262144"

lemmas profiler_consts = kMaxStackDepth_p_def kMaxFrequency_def kDefaultFrequency_def
  kAssociativity_def kBuckets_def kBufferLength_def

record entry =
  e_count :: u64
  e_depth :: u64
  e_stack :: "nat \<Rightarrow> u64"

record profile_data =
  hash :: "nat \<times> nat \<Rightarrow> entry"
  evict :: "u64 list"
  out :: int
  count :: u32
  evictions :: u32
  total_bytes :: u64
  fname :: "u8 list"
  frequency :: int
  start_time :: int
  handler_on :: bool
  writes :: nat
  prof_file :: "u8 list"

record prof_env =
  os_write :: "nat \<Rightarrow> nat \<Rightarrow> int"
  proc_maps :: "u8 list list"

definition zero_entry :: entry where
  "zero_entry = \<lparr>e_count = 0, e_depth = 0, e_stack = \<lambda>_. 0\<rparr>"

definition enabled :: "profile_data \<Rightarrow> bool" where
  "enabled p \<longleftrightarrow> out p \<ge> 0"

text \<open>
  The constructor's frequency: \<open>fr\<close> is the number in \<open>PROFILEFREQUENCY\<close> when the variable is
  set and holds a number and nothing else.
\<close>

definition ProfileData_frequency :: "int option \<Rightarrow> int" where
  "ProfileData_frequency fr = (case fr of
      Some f \<Rightarrow> if f > 0 then (if f > kMaxFrequency then kMaxFrequency else f) else kDefaultFrequency
    | None \<Rightarrow> kDefaultFrequency)"

definition ProfileData_init :: "int option \<Rightarrow> profile_data" where
  "ProfileData_init fr = \<lparr>hash = \<lambda>_. zero_entry, evict = [], out = -1, count = 0, evictions = 0,
     total_bytes = 0, fname = [], frequency = ProfileData_frequency fr, start_time = 0,
     handler_on = False, writes = 0, prof_file = []\<rparr>"

text \<open>
  The profile's name from a non-empty \<open>CPUPROFILE\<close>, and the variable's new value: the first
  process sets the high bit of the first character, its children see it and append their pid.
\<close>

definition CPUPROFILE_name :: "u8 list \<Rightarrow> u8 list \<Rightarrow> u8 list \<times> u8 list" where
  "CPUPROFILE_name cpuprofile pid =
     (if hd cpuprofile AND 128 \<noteq> 0
      then (take 4095 ((hd cpuprofile AND 127) # tl cpuprofile @ [95] @ pid), cpuprofile)
      else (take 4095 cpuprofile, (hd cpuprofile OR 128) # tl cpuprofile))"

text \<open>The interval timer of \<open>ProfilerRegisterThread\<close>, in microseconds.\<close>

definition ProfilerRegisterThread_usec :: "profile_data \<Rightarrow> int" where
  "ProfilerRegisterThread_usec p = 1000000 div frequency p"

section \<open>Writing out\<close>

definition word_bytes :: "u64 \<Rightarrow> u8 list" where
  "word_bytes w = map (\<lambda>i. ucast (drop_bit (8 * i) w)) [0..<8]"

definition bytes_of :: "u64 list \<Rightarrow> u8 list" where
  "bytes_of ws = concat (map word_bytes ws)"

partial_function (option) Flush_loop :: "prof_env \<Rightarrow> u8 list \<Rightarrow> profile_data \<Rightarrow> profile_data option" where
  "Flush_loop env buf p =
     (if buf = [] then Some p
      else let r = os_write env (writes p) (length buf)
           in if r < 0 then None
              else Flush_loop env (drop (nat r) buf)
                     (p\<lparr>writes := Suc (writes p), prof_file := prof_file p @ take (nat r) buf\<rparr>))"

declare Flush_loop.simps [code]

definition FlushEvicted :: "prof_env \<Rightarrow> profile_data \<Rightarrow> profile_data option" where
  "FlushEvicted env p = do {
     p \<leftarrow> Flush_loop env (bytes_of (evict p)) (p\<lparr>total_bytes := total_bytes p + 8 * word_of_nat (length (evict p))\<rparr>);
     Some (p\<lparr>evict := []\<rparr>) }"

definition Evict :: "prof_env \<Rightarrow> entry \<Rightarrow> profile_data \<Rightarrow> profile_data option" where
  "Evict env e p = do {
     let d = unat (e_depth e);
     let nslots = d + 2;
     p \<leftarrow> (if length (evict p) + nslots > kBufferLength then do {
             p \<leftarrow> FlushEvicted env p;
             ASSERT (evict p = []);
             ASSERT (nslots \<le> kBufferLength);
             Some p }
           else Some p);
     Some (p\<lparr>evict := evict p @ [e_count e, word_of_nat d] @ map (e_stack e) [0..<d]\<rparr>) }"

text \<open>All slots of the table in the order of the nested loops.\<close>

definition table_slots :: "(nat \<times> nat) list" where
  "table_slots = List.product [0..<kBuckets] [0..<kAssociativity]"

section \<open>Start, stop, flush\<close>

definition Prof_Start :: "u8 list \<Rightarrow> int \<Rightarrow> int \<Rightarrow> profile_data \<Rightarrow> bool \<times> profile_data" where
  "Prof_Start name fd now p =
     (if enabled p then (False, p)
      else if fd < 0 then (False, p)
      else (True, p\<lparr>start_time := now, fname := name, count := 0, evictions := 0, total_bytes := 0,
              out := fd, hash := \<lambda>_. zero_entry, prof_file := [],
              evict := [0, 3, 0, word_of_int (1000000 div frequency p), 0], handler_on := True\<rparr>))"

fun Stop_evict :: "prof_env \<Rightarrow> (nat \<times> nat) list \<Rightarrow> profile_data \<Rightarrow> profile_data option" where
  "Stop_evict env [] p = Some p"
| "Stop_evict env (x # xs) p = do {
     p \<leftarrow> (if e_count (hash p x) > 0 then Evict env (hash p x) p else Some p);
     Stop_evict env xs p }"

text \<open>
  The copy of \<open>/proc/self/maps\<close> at the end: \<open>proc_maps\<close> lists what the reads return, of at most 100 bytes each. The
  code does not look at the results of these writes: what a short write leaves out is missing from the file.
\<close>

fun copy_maps :: "prof_env \<Rightarrow> u8 list list \<Rightarrow> profile_data \<Rightarrow> profile_data" where
  "copy_maps env [] p = p"
| "copy_maps env (buf # bufs) p =
     (let r = os_write env (writes p) (length buf)
      in copy_maps env bufs (p\<lparr>writes := Suc (writes p), prof_file := prof_file p @ take (nat r) buf\<rparr>))"

definition Prof_Stop :: "prof_env \<Rightarrow> profile_data \<Rightarrow> profile_data option" where
  "Prof_Stop env p =
     (let p = p\<lparr>handler_on := False\<rparr>
      in if out p < 0 then Some p
         else do {
           p \<leftarrow> Stop_evict env table_slots p;
           p \<leftarrow> (if length (evict p) + 3 > kBufferLength then FlushEvicted env p else Some p);
           p \<leftarrow> FlushEvicted env (p\<lparr>evict := evict p @ [0, 1, 0]\<rparr>);
           Some ((copy_maps env (proc_maps env) p)\<lparr>fname := [], start_time := 0, out := -1\<rparr>) })"

fun FlushTable_evict :: "prof_env \<Rightarrow> (nat \<times> nat) list \<Rightarrow> profile_data \<Rightarrow> profile_data option" where
  "FlushTable_evict env [] p = Some p"
| "FlushTable_evict env (x # xs) p = do {
     p \<leftarrow> (if e_count (hash p x) > 0 then do {
             p \<leftarrow> Evict env (hash p x) p;
             Some (p\<lparr>hash := (hash p)(x := (hash p x)\<lparr>e_depth := 0, e_count := 0\<rparr>)\<rparr>) }
           else Some p);
     FlushTable_evict env xs p }"

definition FlushTable :: "prof_env \<Rightarrow> profile_data \<Rightarrow> profile_data option" where
  "FlushTable env p =
     (if out p < 0 then Some p
      else do {
        p \<leftarrow> FlushTable_evict env table_slots (p\<lparr>handler_on := False\<rparr>);
        p \<leftarrow> FlushEvicted env p;
        Some (p\<lparr>handler_on := True\<rparr>) })"

record profiler_state =
  ps_enabled :: bool
  ps_start_time :: int
  ps_samples_gathered :: int
  ps_profile_name :: "u8 list"

text \<open>\<open>profile_name\<close> has 1024 bytes, the last of them a terminator.\<close>

definition GetCurrentState :: "profile_data \<Rightarrow> profiler_state" where
  "GetCurrentState p =
     (if enabled p
      then \<lparr>ps_enabled = True, ps_start_time = start_time p, ps_samples_gathered = sint (count p),
             ps_profile_name = take 1023 (fname p)\<rparr>
      else \<lparr>ps_enabled = False, ps_start_time = 0, ps_samples_gathered = 0, ps_profile_name = []\<rparr>)"

section \<open>Taking a sample\<close>

definition Add_stack :: "u64 \<Rightarrow> u64 list \<Rightarrow> u64 list" where
  "Add_stack pc frames = pc # take (kMaxStackDepth_p - 1) frames"

definition Add_hash :: "u64 list \<Rightarrow> u64" where
  "Add_hash stack = fold (\<lambda>slot h. (push_bit 8 h OR drop_bit 56 h) + (slot * 31 + slot * 7 + slot * 3)) stack 0"

definition entry_matches :: "u64 list \<Rightarrow> entry \<Rightarrow> bool" where
  "entry_matches stack e \<longleftrightarrow> e_depth e = word_of_nat (length stack) \<and>
     list_all (\<lambda>i. e_stack e i = stack ! i) [0..<length stack]"

fun find_match :: "u64 list \<Rightarrow> profile_data \<Rightarrow> nat \<Rightarrow> nat list \<Rightarrow> nat option" where
  "find_match stack p b [] = None"
| "find_match stack p b (a # as) = (if entry_matches stack (hash p (b, a)) then Some a else find_match stack p b as)"

text \<open>The entry with the smallest count, the first of equals.\<close>

definition victim :: "profile_data \<Rightarrow> nat \<Rightarrow> nat" where
  "victim p b = fold (\<lambda>a e. if e_count (hash p (b, a)) < e_count (hash p (b, e)) then a else e) [1..<kAssociativity] 0"

definition Add :: "prof_env \<Rightarrow> u64 \<Rightarrow> u64 list \<Rightarrow> profile_data \<Rightarrow> profile_data option" where
  "Add env pc frames p = do {
     let stack = Add_stack pc frames;
     let p = p\<lparr>count := count p + 1\<rparr>;
     let b = unat (Add_hash stack) mod kBuckets;
     case find_match stack p b [0..<kAssociativity] of
       Some a \<Rightarrow> Some (p\<lparr>hash := (hash p)((b, a) := (hash p (b, a))\<lparr>e_count := e_count (hash p (b, a)) + 1\<rparr>)\<rparr>)
     | None \<Rightarrow> do {
         let a = victim p b;
         p \<leftarrow> (if e_count (hash p (b, a)) > 0
               then Evict env (hash p (b, a)) (p\<lparr>evictions := evictions p + 1\<rparr>) else Some p);
         Some (p\<lparr>hash := (hash p)((b, a) :=
           \<lparr>e_count = 1, e_depth = word_of_nat (length stack),
            e_stack = \<lambda>i. if i < length stack then stack ! i else e_stack (hash p (b, a)) i\<rparr>)\<rparr>) } }"

section \<open>Writing never loses bytes\<close>

text \<open>A \<open>write\<close> that makes progress: short writes are allowed, errors are not.\<close>

definition good_writer :: "prof_env \<Rightarrow> bool" where
  "good_writer env \<longleftrightarrow> (\<forall>k n. 0 < n \<longrightarrow> 0 < os_write env k n \<and> os_write env k n \<le> int n)"

lemma Flush_loop_ok:
  assumes "good_writer env"
  shows "\<exists>w. Flush_loop env buf p = Some (p\<lparr>writes := w, prof_file := prof_file p @ buf\<rparr>)"
proof (induction "length buf" arbitrary: buf p rule: less_induct)
  case less
  show ?case
  proof (cases "buf = []")
    case True
    then show ?thesis by (subst Flush_loop.simps) (auto intro: exI [of _ "writes p"])
  next
    case False
    let ?r = "os_write env (writes p) (length buf)"
    have r: "0 < ?r" "?r \<le> int (length buf)" using assms False by (auto simp: good_writer_def)
    then have "length (drop (nat ?r) buf) < length buf" using False by simp
    from less [OF this, of "p\<lparr>writes := Suc (writes p), prof_file := prof_file p @ take (nat ?r) buf\<rparr>"]
    show ?thesis using False r by (subst Flush_loop.simps) (auto simp: Let_def)
  qed
qed

text \<open>The words the profiler has produced so far: the file followed by the buffer.\<close>

definition stream :: "profile_data \<Rightarrow> u8 list" where
  "stream p = prof_file p @ bytes_of (evict p)"

definition same_table :: "profile_data \<Rightarrow> profile_data \<Rightarrow> bool" where
  "same_table p p' \<longleftrightarrow> hash p' = hash p \<and> out p' = out p \<and> frequency p' = frequency p"

lemma same_table_refl [simp]: "same_table p p"
  by (simp add: same_table_def)

lemma bytes_of_Nil [simp]: "bytes_of [] = []"
  by (simp add: bytes_of_def)

lemma bytes_of_append: "bytes_of (xs @ ys) = bytes_of xs @ bytes_of ys"
  by (simp add: bytes_of_def)

lemma FlushEvicted_ok:
  assumes "good_writer env"
  shows "\<exists>p'. FlushEvicted env p = Some p' \<and> same_table p p' \<and> evict p' = [] \<and> stream p' = stream p"
  using Flush_loop_ok [OF assms, of "bytes_of (evict p)"
      "p\<lparr>total_bytes := total_bytes p + 8 * word_of_nat (length (evict p))\<rparr>"]
  by (auto simp: FlushEvicted_def same_table_def stream_def bytes_of_def)

section \<open>Records and tables\<close>

definition stack_of :: "entry \<Rightarrow> u64 list" where
  "stack_of e = map (e_stack e) [0..<unat (e_depth e)]"

definition enc :: "u64 \<times> u64 list \<Rightarrow> u64 list" where
  "enc = (\<lambda>(c, st). [c, word_of_nat (length st)] @ st)"

definition rec_count :: "(u64 \<times> u64 list) list \<Rightarrow> u64 list \<Rightarrow> nat" where
  "rec_count es st = (\<Sum>(c, st') \<leftarrow> es. if st' = st then unat c else 0)"

definition entry_count :: "u64 list \<Rightarrow> entry \<Rightarrow> nat" where
  "entry_count st e = (if stack_of e = st then unat (e_count e) else 0)"

definition table_count :: "(nat \<times> nat \<Rightarrow> entry) \<Rightarrow> u64 list \<Rightarrow> nat" where
  "table_count h st = (\<Sum>x \<in> set table_slots. entry_count st (h x))"

lemma rec_count_append: "rec_count (es @ [(c, st')]) st = rec_count es st + (if st' = st then unat c else 0)"
  by (simp add: rec_count_def)

lemma sum_fun_upd:
  fixes f :: "'b \<Rightarrow> nat"
  assumes "finite S" "x \<in> S"
  shows "(\<Sum>y \<in> S. f ((h(x := e)) y)) + f (h x) = (\<Sum>y \<in> S. f (h y)) + f e"
proof -
  have "(\<Sum>y \<in> S - {x}. f ((h(x := e)) y)) = (\<Sum>y \<in> S - {x}. f (h y))" by (rule sum.cong) auto
  then show ?thesis
    using sum.remove [OF assms, of "\<lambda>y. f ((h(x := e)) y)"] sum.remove [OF assms, of "\<lambda>y. f (h y)"] by simp
qed

lemma table_count_upd:
  "x \<in> set table_slots \<Longrightarrow>
   table_count (h(x := e)) st + entry_count st (h x) = table_count h st + entry_count st e"
  unfolding table_count_def by (rule sum_fun_upd) simp_all

lemma entry_count_le: "x \<in> set table_slots \<Longrightarrow> entry_count st (h x) \<le> table_count h st"
  unfolding table_count_def by (rule member_le_sum) simp_all

lemma Profiler_Evict_ok:
  assumes "good_writer env" and "unat (e_depth e) \<le> 64"
  shows "\<exists>p'. Evict env e p = Some p' \<and> same_table p p' \<and>
    stream p' = stream p @ bytes_of (enc (e_count e, stack_of e))"
proof -
  have enc: "[e_count e, word_of_nat (unat (e_depth e))] @ map (e_stack e) [0..<unat (e_depth e)]
      = enc (e_count e, stack_of e)" by (simp add: enc_def stack_of_def)
  have n: "unat (e_depth e) + 2 \<le> kBufferLength" using assms(2) by (simp add: kBufferLength_def)
  show ?thesis
  proof (cases "length (evict p) + (unat (e_depth e) + 2) > kBufferLength")
    case True
    obtain p1 where "FlushEvicted env p = Some p1" "same_table p p1" "evict p1 = []" "stream p1 = stream p"
      using FlushEvicted_ok [OF assms(1)] by blast
    then show ?thesis using True n enc
      by (auto simp: Evict_def Let_def same_table_def stream_def bytes_of_append)
  next
    case False
    then show ?thesis using enc
      by (auto simp: Evict_def Let_def same_table_def stream_def bytes_of_append)
  qed
qed

section \<open>The invariant\<close>

definition header :: "int \<Rightarrow> u64 list" where
  "header f = [0, 3, 0, word_of_int (1000000 div f), 0]"

text \<open>\<open>T\<close> is the number of samples taken of each stack.\<close>

definition prof_inv :: "int \<Rightarrow> profile_data \<Rightarrow> (u64 list \<Rightarrow> nat) \<Rightarrow> (u64 \<times> u64 list) list \<Rightarrow> bool" where
  "prof_inv f p T es \<longleftrightarrow> frequency p = f \<and> 0 \<le> out p \<and> (\<forall>x. unat (e_depth (hash p x)) \<le> 64) \<and>
     stream p = bytes_of (header f @ concat (map enc es)) \<and>
     (\<forall>st. T st = rec_count es st + table_count (hash p) st)"

lemma prof_inv_Evict:
  assumes inv: "prof_inv f p T es" and W: "good_writer env"
  shows "\<exists>p'. Evict env (hash p x) p = Some p' \<and> same_table p p' \<and>
    stream p' = bytes_of (header f @ concat (map enc (es @ [(e_count (hash p x), stack_of (hash p x))])))"
proof -
  have "unat (e_depth (hash p x)) \<le> 64" using inv unfolding prof_inv_def by blast
  from Profiler_Evict_ok [OF W this, of p] inv show ?thesis by (simp add: prof_inv_def bytes_of_append)
qed

text \<open>Replacing a slot whose samples have been written out.\<close>

lemma prof_inv_replace:
  assumes inv: "prof_inv f p T es" and x: "x \<in> set table_slots"
    and p': "same_table p p'" "stream p' = bytes_of (header f @ concat (map enc es'))"
    and e: "unat (e_depth e) \<le> 64"
    and T': "\<And>st. T' st + rec_count es st + entry_count st (hash p x) = T st + rec_count es' st + entry_count st e"
  shows "prof_inv f (p'\<lparr>hash := (hash p')(x := e), count := n, handler_on := hn\<rparr>) T' es'"
proof -
  have "T' st = rec_count es' st + table_count ((hash p)(x := e)) st" for st
  proof -
    have "T st = rec_count es st + table_count (hash p) st" using inv by (simp add: prof_inv_def)
    then show ?thesis using table_count_upd [OF x, of "hash p" e st] T' [of st] by linarith
  qed
  then show ?thesis using inv p' e by (auto simp: prof_inv_def same_table_def stream_def)
qed

lemma table_slots_mem: "b < kBuckets \<Longrightarrow> a < kAssociativity \<Longrightarrow> (b, a) \<in> set table_slots"
  by (simp add: table_slots_def)

lemma victim_bound: "victim p b < kAssociativity"
proof -
  have "fold (\<lambda>a e. if f a e then a else e) xs z < n" if "\<forall>a \<in> set xs. a < n" "z < n" for f xs z and n :: nat
    using that by (induction xs arbitrary: z) auto
  then show ?thesis by (simp add: victim_def kAssociativity_def)
qed

lemma find_match_Some:
  "find_match st p b as = Some a \<Longrightarrow> a \<in> set as \<and> entry_matches st (hash p (b, a))"
  by (induction as) (auto split: if_splits)

lemma entry_matches_stack:
  assumes "entry_matches st e" and "length st \<le> 64"
  shows "stack_of e = st"
proof -
  have "unat (e_depth e) = length st" using assms by (simp add: entry_matches_def unat_of_nat)
  then show ?thesis using assms(1) by (auto simp: stack_of_def entry_matches_def list_all_iff intro: nth_equalityI)
qed

lemma Add_stack_length: "length (Add_stack pc frames) \<le> 64"
  by (simp add: Add_stack_def kMaxStackDepth_p_def)

lemma Add_ok:
  assumes inv: "prof_inv f p T es" and W: "good_writer env"
    and st: "st = Add_stack pc frames" and small: "T st + 1 < 2 ^ 64"
  shows "\<exists>p' es'. Add env pc frames p = Some p' \<and> prof_inv f p' (T(st := T st + 1)) es'"
proof -
  define b where "b = unat (Add_hash st) mod kBuckets"
  have b: "b < kBuckets" by (simp add: b_def kBuckets_def)
  have len: "length st \<le> 64" unfolding st by (rule Add_stack_length)
  show ?thesis
  proof (cases "find_match st (p\<lparr>count := count p + 1\<rparr>) b [0..<kAssociativity]")
    case (Some a)
    let ?e = "hash p (b, a)"
    from find_match_Some [OF Some] have a: "a < kAssociativity" and m: "entry_matches st ?e" by simp_all
    note x = table_slots_mem [OF b a]
    have so: "stack_of ?e = st" by (rule entry_matches_stack [OF m len])
    have "unat (e_count ?e) \<le> T st"
      using entry_count_le [OF x, of st "hash p"] so inv by (simp add: prof_inv_def entry_count_def)
    then have c: "unat (e_count ?e + 1) = unat (e_count ?e) + 1"
      using small by (subst unat_plus_no_wrap) simp_all
    have "prof_inv f (p\<lparr>hash := (hash p)((b, a) := ?e\<lparr>e_count := e_count ?e + 1\<rparr>), count := count p + 1,
        handler_on := handler_on p\<rparr>) (T(st := T st + 1)) es"
      by (rule prof_inv_replace [OF inv x])
        (use inv so c in \<open>auto simp: prof_inv_def entry_count_def stack_of_def\<close>)
    moreover have "Add env pc frames p = Some (p\<lparr>hash := (hash p)((b, a) := ?e\<lparr>e_count := e_count ?e + 1\<rparr>),
        count := count p + 1, handler_on := handler_on p\<rparr>)"
      using Some by (simp add: Add_def Let_def st [symmetric] b_def [symmetric])
    ultimately show ?thesis by blast
  next
    case None
    define q where "q = p\<lparr>count := count p + 1\<rparr>"
    define a where "a = victim q b"
    have hq: "hash q = hash p" by (simp add: q_def)
    have a: "a < kAssociativity" unfolding a_def by (rule victim_bound)
    note x = table_slots_mem [OF b a]
    let ?e = "hash p (b, a)"
    define e' where "e' h = \<lparr>e_count = 1, e_depth = word_of_nat (length st),
            e_stack = \<lambda>i. if i < length st then st ! i else e_stack (h (b, a)) i\<rparr>" for h :: "nat \<times> nat \<Rightarrow> entry"
    have so: "stack_of (e' h) = st" "e_count (e' h) = 1" "unat (e_depth (e' h)) \<le> 64" for h
      using len by (auto simp: e'_def stack_of_def unat_of_nat intro: nth_equalityI)
    have run: "Add env pc frames p = Option.bind (if e_count ?e > 0 then Evict env ?e (q\<lparr>evictions := evictions q + 1\<rparr>) else Some q)
        (\<lambda>p. Some (p\<lparr>hash := (hash p)((b, a) := e' (hash p))\<rparr>))"
      using None [folded q_def] hq
      unfolding Add_def Let_def st [symmetric] b_def [symmetric] q_def [symmetric] a_def [symmetric]
      by (simp add: e'_def)
    show ?thesis
    proof (cases "e_count ?e > 0")
      case True
      have "prof_inv f (q\<lparr>evictions := evictions q + 1\<rparr>) T es"
        using inv by (simp add: prof_inv_def q_def stream_def)
      from prof_inv_Evict [OF this W, of "(b, a)"] obtain p1 where p1:
        "Evict env ?e (q\<lparr>evictions := evictions q + 1\<rparr>) = Some p1" "same_table p p1"
        "stream p1 = bytes_of (header f @ concat (map enc (es @ [(e_count ?e, stack_of ?e)])))"
        by (auto simp: q_def same_table_def)
      have "prof_inv f (p1\<lparr>hash := (hash p1)((b, a) := e' (hash p1)), count := count p1, handler_on := handler_on p1\<rparr>)
          (T(st := T st + 1)) (es @ [(e_count ?e, stack_of ?e)])"
        by (rule prof_inv_replace [OF inv x p1(2,3)])
          (auto simp: so entry_count_def rec_count_append)
      then show ?thesis using run True p1(1) by auto
    next
      case False
      then have z: "e_count ?e = 0" by (simp add: word_gt_0)
      have "prof_inv f (p\<lparr>hash := (hash p)((b, a) := e' (hash p)), count := count p + 1, handler_on := handler_on p\<rparr>)
          (T(st := T st + 1)) es"
        by (rule prof_inv_replace [OF inv x])
          (use inv z in \<open>auto simp: prof_inv_def so entry_count_def\<close>)
      moreover have "Add env pc frames p = Some (p\<lparr>hash := (hash p)((b, a) := e' (hash p)), count := count p + 1,
          handler_on := handler_on p\<rparr>)" using run False by (simp add: q_def)
      ultimately show ?thesis by blast
    qed
  qed
qed

section \<open>Flushing and stopping\<close>

lemma prof_inv_handler: "prof_inv f (p\<lparr>handler_on := b\<rparr>) T es = prof_inv f p T es"
  by (simp add: prof_inv_def stream_def)

lemma FlushTable_evict_ok:
  assumes W: "good_writer env"
  shows "prof_inv f p T es \<Longrightarrow> set xs \<subseteq> set table_slots \<Longrightarrow>
    \<exists>p' es'. FlushTable_evict env xs p = Some p' \<and> prof_inv f p' T es'"
proof (induction xs arbitrary: p es)
  case (Cons x xs)
  show ?case
  proof (cases "e_count (hash p x) > 0")
    case True
    let ?e = "(hash p x)\<lparr>e_depth := 0, e_count := 0\<rparr>"
    from prof_inv_Evict [OF Cons.prems(1) W, of x] obtain p1 where
      p1: "Evict env (hash p x) p = Some p1" "same_table p p1"
      "stream p1 = bytes_of (header f @ concat (map enc (es @ [(e_count (hash p x), stack_of (hash p x))])))"
      by blast
    have "prof_inv f (p1\<lparr>hash := (hash p1)(x := ?e), count := count p1, handler_on := handler_on p1\<rparr>) T
        (es @ [(e_count (hash p x), stack_of (hash p x))])"
      by (rule prof_inv_replace [OF Cons.prems(1) _ p1(2,3)])
        (use Cons.prems(2) in \<open>auto simp: entry_count_def rec_count_append\<close>)
    from Cons.IH [OF this] Cons.prems(2) True p1 show ?thesis by (auto simp: same_table_def)
  next
    case False
    then show ?thesis using Cons.IH [OF Cons.prems(1)] Cons.prems(2) by simp
  qed
qed auto

lemma FlushTable_ok:
  assumes inv: "prof_inv f p T es" and W: "good_writer env"
  shows "\<exists>p' es'. FlushTable env p = Some p' \<and> prof_inv f p' T es'"
proof -
  have "prof_inv f (p\<lparr>handler_on := False\<rparr>) T es" using inv by (simp add: prof_inv_handler)
  from FlushTable_evict_ok [OF W this order.refl] obtain p1 es1 where
    1: "FlushTable_evict env table_slots (p\<lparr>handler_on := False\<rparr>) = Some p1" "prof_inv f p1 T es1" by blast
  obtain p2 where 2: "FlushEvicted env p1 = Some p2" "same_table p1 p2" "stream p2 = stream p1"
    using FlushEvicted_ok [OF W] by blast
  have "prof_inv f (p2\<lparr>handler_on := True\<rparr>) T es1"
    using 1(2) 2 by (simp add: prof_inv_def same_table_def stream_def)
  then show ?thesis using inv 1(1) 2(1) by (auto simp: FlushTable_def prof_inv_def)
qed

text \<open>\<open>Stop\<close> writes out the table without clearing it: what is still to come is a sum over the
  remaining slots.\<close>

lemma Stop_evict_ok:
  assumes W: "good_writer env"
  shows "\<forall>x. unat (e_depth (hash p x)) \<le> 64 \<Longrightarrow>
    \<exists>p'. Stop_evict env xs p = Some p' \<and> same_table p p' \<and>
      stream p' = stream p @ bytes_of (concat (map enc
        (map (\<lambda>x. (e_count (hash p x), stack_of (hash p x))) (filter (\<lambda>x. e_count (hash p x) > 0) xs))))"
proof (induction xs arbitrary: p)
  case (Cons x xs)
  show ?case
  proof (cases "e_count (hash p x) > 0")
    case True
    have "unat (e_depth (hash p x)) \<le> 64" using Cons.prems by blast
    from Profiler_Evict_ok [OF W this, of p] obtain p1 where p1: "Evict env (hash p x) p = Some p1" "same_table p p1"
      "stream p1 = stream p @ bytes_of (enc (e_count (hash p x), stack_of (hash p x)))" by blast
    then have h: "hash p1 = hash p" by (simp add: same_table_def)
    from Cons.IH [of p1] Cons.prems h obtain p' where "Stop_evict env xs p1 = Some p'" "same_table p1 p'"
      "stream p' = stream p1 @ bytes_of (concat (map enc
        (map (\<lambda>x. (e_count (hash p x), stack_of (hash p x))) (filter (\<lambda>x. e_count (hash p x) > 0) xs))))"
      by auto
    then show ?thesis using True p1 by (simp add: same_table_def bytes_of_append)
  next
    case False
    then show ?thesis using Cons.IH [OF Cons.prems] by simp
  qed
qed simp

lemma rec_count_table:
  assumes "distinct xs"
  shows "rec_count (map (\<lambda>x. (e_count (h x), stack_of (h x))) (filter (\<lambda>x. e_count (h x) > 0) xs)) st
    = (\<Sum>x \<in> set xs. entry_count st (h x))"
  using assms
proof (induction xs)
  case (Cons x xs)
  then show ?case
    by (cases "e_count (h x) > 0") (auto simp: rec_count_def entry_count_def word_neq_0_conv [symmetric])
qed (simp add: rec_count_def)

definition trailer :: "u64 list" where "trailer = [0, 1, 0]"

text \<open>What the copy adds: of each block what its write takes, the whole block if it takes everything.\<close>

fun copied :: "prof_env \<Rightarrow> nat \<Rightarrow> u8 list list \<Rightarrow> u8 list" where
  "copied env k [] = []"
| "copied env k (buf # bufs) = take (nat (os_write env k (length buf))) buf @ copied env (Suc k) bufs"

lemma copy_maps_copied:
  "\<exists>w. copy_maps env bufs p = p\<lparr>writes := w, prof_file := prof_file p @ copied env (writes p) bufs\<rparr>"
proof (induction bufs arbitrary: p)
  case Nil
  show ?case by (intro exI [of _ "writes p"]) simp
next
  case (Cons buf bufs)
  from Cons.IH [of "p\<lparr>writes := Suc (writes p), prof_file := prof_file p @ take (nat (os_write env (writes p) (length buf))) buf\<rparr>"]
  show ?case by auto
qed

lemma copied_whole: "\<forall>k n. os_write env k n = int n \<Longrightarrow> copied env k bufs = concat bufs"
  by (induction bufs arbitrary: k) simp_all

lemma Stop_ok:
  assumes inv: "prof_inv f p T es" and W: "good_writer env"
  shows "\<exists>p' es' k. Prof_Stop env p = Some p' \<and> out p' = -1 \<and>
    prof_file p' = bytes_of (header f @ concat (map enc es') @ trailer) @ copied env k (proc_maps env) \<and>
    (\<forall>st. rec_count es' st = T st)"
proof -
  define p0 where "p0 = p\<lparr>handler_on := False\<rparr>"
  have "\<forall>x. unat (e_depth (hash p0 x)) \<le> 64" using inv by (simp add: prof_inv_def p0_def)
  from Stop_evict_ok [OF W this, of table_slots] obtain p1 where
    1: "Stop_evict env table_slots p0 = Some p1" "same_table p0 p1"
      "stream p1 = stream p0 @ bytes_of (concat (map enc
        (map (\<lambda>x. (e_count (hash p0 x), stack_of (hash p0 x))) (filter (\<lambda>x. e_count (hash p0 x) > 0) table_slots))))"
    by blast
  let ?es' = "es @ map (\<lambda>x. (e_count (hash p x), stack_of (hash p x))) (filter (\<lambda>x. e_count (hash p x) > 0) table_slots)"
  obtain p2 where 2: "(if length (evict p1) + 3 > kBufferLength then FlushEvicted env p1 else Some p1) = Some p2"
    "stream p2 = stream p1" using FlushEvicted_ok [OF W, of p1]
    by (cases "length (evict p1) + 3 > kBufferLength") auto
  obtain p3 where 3: "FlushEvicted env (p2\<lparr>evict := evict p2 @ [0, 1, 0]\<rparr>) = Some p3" "evict p3 = []"
    "stream p3 = stream (p2\<lparr>evict := evict p2 @ [0, 1, 0]\<rparr>)" using FlushEvicted_ok [OF W] by blast
  have "prof_file p3 = stream p3" using 3(2) by (simp add: stream_def)
  also have "\<dots> = stream p2 @ bytes_of trailer"
    using 3(3) by (simp add: stream_def bytes_of_append trailer_def)
  also have "stream p2 = bytes_of (header f @ concat (map enc ?es'))"
    using inv 1(3) 2(2) by (simp add: prof_inv_def p0_def stream_def bytes_of_append)
  finally have f: "prof_file p3 = bytes_of (header f @ concat (map enc ?es') @ trailer)"
    by (simp add: bytes_of_append)
  have "distinct table_slots" by (simp add: table_slots_def distinct_product)
  then have c: "rec_count ?es' st = T st" for st
    using inv rec_count_table [of table_slots "hash p" st]
    by (simp add: prof_inv_def rec_count_def table_count_def)
  obtain w where w: "copy_maps env (proc_maps env) p3 = p3\<lparr>writes := w, prof_file := prof_file p3 @ copied env (writes p3) (proc_maps env)\<rparr>"
    using copy_maps_copied by blast
  have "Prof_Stop env p = Some ((copy_maps env (proc_maps env) p3)\<lparr>fname := [], start_time := 0, out := -1\<rparr>)"
    using inv 1(1) 2(1) 3(1) by (simp add: Prof_Stop_def p0_def [symmetric]) (simp add: p0_def prof_inv_def)
  then show ?thesis using f c w by (intro exI [of _ "_ \<lparr>out := -1\<rparr>"] exI [of _ ?es'] exI [of _ "writes p3"]) auto
qed

section \<open>A whole profiling run\<close>

datatype prof_op = Sample u64 "u64 list" | Flush

fun run_ops :: "prof_env \<Rightarrow> prof_op list \<Rightarrow> profile_data \<Rightarrow> profile_data option" where
  "run_ops env [] p = Some p"
| "run_ops env (Sample pc frames # ops) p = Option.bind (Add env pc frames p) (run_ops env ops)"
| "run_ops env (Flush # ops) p = Option.bind (FlushTable env p) (run_ops env ops)"

definition samples :: "prof_op list \<Rightarrow> u64 list \<Rightarrow> nat" where
  "samples ops st = length (filter (\<lambda>op. \<exists>pc frames. op = Sample pc frames \<and> Add_stack pc frames = st) ops)"

lemma samples_Cons:
  "samples (op # ops) st = (case op of Sample pc frames \<Rightarrow> if Add_stack pc frames = st then 1 else 0 | Flush \<Rightarrow> 0) + samples ops st"
  by (cases op) (auto simp: samples_def)

lemma samples_le: "samples ops st \<le> length ops"
  by (simp add: samples_def)

lemma run_ops_ok:
  assumes W: "good_writer env"
  shows "prof_inv f p T es \<Longrightarrow> (\<And>st. T st + length ops < 2 ^ 64) \<Longrightarrow>
    \<exists>p' es'. run_ops env ops p = Some p' \<and> prof_inv f p' (\<lambda>st. T st + samples ops st) es'"
proof (induction ops arbitrary: p T es)
  case Nil
  then show ?case by (auto simp: samples_def)
next
  case (Cons op ops)
  show ?case
  proof (cases op)
    case (Sample pc frames)
    let ?st = "Add_stack pc frames"
    have "T ?st + 1 < 2 ^ 64" using Cons.prems(2) [of ?st] by simp
    from Add_ok [OF Cons.prems(1) W refl this] obtain p1 es1 where
      p1: "Add env pc frames p = Some p1" "prof_inv f p1 (T(?st := T ?st + 1)) es1" by blast
    have "(T(?st := T ?st + 1)) st + length ops < 2 ^ 64" for st
      using Cons.prems(2) [of st] Cons.prems(2) [of ?st] by simp
    from Cons.IH [OF p1(2) this] obtain p' es' where
      p': "run_ops env ops p1 = Some p'" "prof_inv f p' (\<lambda>st. (T(?st := T ?st + 1)) st + samples ops st) es'" by blast
    have T: "(\<lambda>st. (T(?st := T ?st + 1)) st + samples ops st) = (\<lambda>st. T st + samples (op # ops) st)"
      using Sample by (auto simp: samples_Cons fun_eq_iff)
    show ?thesis using p' p1(1) Sample T by auto
  next
    case Flush
    from FlushTable_ok [OF Cons.prems(1) W] obtain p1 es1 where
      p1: "FlushTable env p = Some p1" "prof_inv f p1 T es1" by blast
    have "T st + length ops < 2 ^ 64" for st using Cons.prems(2) [of st] by simp
    from Cons.IH [OF p1(2) this] show ?thesis
      using p1(1) Flush by (auto simp: samples_Cons)
  qed
qed

lemma Start_inv:
  assumes "\<not> enabled p" and "0 \<le> fd"
  shows "fst (Prof_Start name fd now p)" and "prof_inv (frequency p) (snd (Prof_Start name fd now p)) (\<lambda>_. 0) []"
proof -
  have "table_count (\<lambda>_. zero_entry) st = 0" for st
    by (simp add: table_count_def entry_count_def zero_entry_def)
  then show "fst (Prof_Start name fd now p)" "prof_inv (frequency p) (snd (Prof_Start name fd now p)) (\<lambda>_. 0) []"
    using assms by (simp_all add: Prof_Start_def prof_inv_def stream_def zero_entry_def rec_count_def header_def)
qed

text \<open>
  C12. A profiling run loses no sample and invents none: after a start, any sequence of samples and
  flushes, and a stop, with writes that may be short but do not fail, the profile file holds the
  header, a list of records, the trailer and the memory map, and for every stack the counts of
  its records add up to the number of times it was sampled. Of the memory map the file holds what a single
  write of each block takes, which is all of it when no write is short.
\<close>

theorem profile_conserves_samples:
  assumes "good_writer env" and "\<not> enabled p" and "0 \<le> fd" and "length ops < 2 ^ 64"
  shows "\<exists>p' es. Option.bind (run_ops env ops (snd (Prof_Start name fd now p))) (Prof_Stop env) = Some p' \<and>
    (\<exists>k. prof_file p' = bytes_of (header (frequency p) @ concat (map enc es) @ trailer) @ copied env k (proc_maps env)) \<and>
    ((\<forall>k n. os_write env k n = int n) \<longrightarrow>
      prof_file p' = bytes_of (header (frequency p) @ concat (map enc es) @ trailer) @ concat (proc_maps env)) \<and>
    (\<forall>st. rec_count es st = samples ops st)"
proof -
  obtain p1 es1 where 1: "run_ops env ops (snd (Prof_Start name fd now p)) = Some p1"
    "prof_inv (frequency p) p1 (\<lambda>st. 0 + samples ops st) es1"
    using run_ops_ok [OF assms(1) Start_inv(2) [OF assms(2,3), of name now], of ops] assms(4)
    by (simp only: add_0) blast
  obtain p' es k where 2: "Prof_Stop env p1 = Some p'" "\<forall>st. rec_count es st = samples ops st"
    "prof_file p' = bytes_of (header (frequency p) @ concat (map enc es) @ trailer) @ copied env k (proc_maps env)"
    using Stop_ok [OF 1(2) assms(1)] by auto
  show ?thesis using 1(1) 2 copied_whole by (intro exI [of _ p'] exI [of _ es]) auto
qed

text \<open>
  A failed or refused start changes nothing: while profiling is on, or when the file cannot be
  opened, \<open>Start\<close> returns false and leaves the state alone; \<open>Stop\<close> and \<open>FlushTable\<close> outside a
  run only return.
\<close>

theorem Start_refused:
  "(enabled p \<or> fd < 0 \<longrightarrow> Prof_Start name fd now p = (False, p)) \<and>
   (\<not> enabled p \<longrightarrow> FlushTable env p = Some p \<and> Prof_Stop env p = Some (p\<lparr>handler_on := False\<rparr>))"
  by (simp add: Prof_Start_def FlushTable_def Prof_Stop_def enabled_def Let_def not_le)

definition whole_writer :: prof_env where
  "whole_writer = \<lparr>os_write = \<lambda>_ n. int n, proc_maps = []\<rparr>"

lemma profile_conserves_samples_witness:
  "\<exists>p' es. Option.bind (run_ops whole_writer [Sample 5 [6], Flush, Sample 5 [6]]
       (snd (Prof_Start [112] 3 0 (ProfileData_init None)))) (Prof_Stop whole_writer) = Some p' \<and>
     rec_count es [5, 6] = 2"
proof -
  have "good_writer whole_writer" "\<not> enabled (ProfileData_init None)"
    by (simp_all add: good_writer_def whole_writer_def enabled_def ProfileData_init_def)
  from profile_conserves_samples [OF this, of 3 "[Sample 5 [6], Flush, Sample 5 [6]]" "[112]" 0]
  obtain p' es where "Option.bind (run_ops whole_writer [Sample 5 [6], Flush, Sample 5 [6]]
       (snd (Prof_Start [112] 3 0 (ProfileData_init None)))) (Prof_Stop whole_writer) = Some p'"
    and "rec_count es [5, 6] = samples [Sample 5 [6], Flush, Sample 5 [6]] [5, 6]" by auto
  moreover have "samples [Sample 5 [6], Flush, Sample 5 [6]] [5, 6] = 2"
    by (simp add: samples_def Add_stack_def kMaxStackDepth_p_def)
  ultimately show ?thesis by metis
qed

lemma Start_refused_witness:
  "Prof_Start [112] (-1) 0 (ProfileData_init None) = (False, ProfileData_init None) \<and>
   FlushTable whole_writer (ProfileData_init None) = Some (ProfileData_init None)"
  using Start_refused [of "ProfileData_init None" "-1" "[112]" 0 whole_writer]
  by (simp add: enabled_def ProfileData_init_def)

end
