(* ===== verification/SpinLock.thy ===== *)
theory SpinLock
  imports Prelude
begin

text \<open>
  \<open>TCMalloc_SpinLock\<close> of \<open>internl.hpp\<close> (x86 build) under an arbitrary interleaving of threads.

  Every thread is at a point of \<open>Lock\<close>, \<open>TCMalloc_SlowLock\<close> or \<open>Unlock\<close>; the only shared state is
  \<open>private_lockword_\<close>. One step of a thread is one atomic instruction: \<open>xchgl\<close>, the plain store of
  \<open>Unlock\<close>, or the return of \<open>sched_yield\<close> or \<open>nanosleep\<close>, which may come at any time.
\<close>

section \<open>The lock\<close>

datatype lock_pc =
    Outside
  | Lock_xchg
  | Slow_yield
  | Slow_xchg
  | Slow_sleep
  | Inside

record spin_state =
  private_lockword :: u32
  lock_pcs :: "nat \<Rightarrow> lock_pc"

text \<open>\<open>xchgl\<close> with 1: the old value of the word.\<close>

definition xchg1 :: "spin_state \<Rightarrow> u32 \<times> spin_state" where
  "xchg1 s = (private_lockword s, s\<lparr>private_lockword := 1\<rparr>)"

definition goto :: "nat \<Rightarrow> lock_pc \<Rightarrow> spin_state \<Rightarrow> spin_state" where
  "goto t pc s = s\<lparr>lock_pcs := (lock_pcs s)(t := pc)\<rparr>"

definition Lock_step :: "nat \<Rightarrow> spin_state \<Rightarrow> spin_state" where
  "Lock_step t s = (let (r, s) = xchg1 s in goto t (if r \<noteq> 0 then Slow_yield else Inside) s)"

definition SlowLock_step :: "nat \<Rightarrow> spin_state \<Rightarrow> spin_state" where
  "SlowLock_step t s = (let (r, s) = xchg1 s in goto t (if r = 0 then Inside else Slow_sleep) s)"

definition Unlock_step :: "nat \<Rightarrow> spin_state \<Rightarrow> spin_state" where
  "Unlock_step t s = goto t Outside (s\<lparr>private_lockword := 0\<rparr>)"

text \<open>The next step of thread \<open>t\<close>; outside of the lock it enters \<open>Lock\<close>.\<close>

definition thread_step :: "nat \<Rightarrow> spin_state \<Rightarrow> spin_state" where
  "thread_step t s = (case lock_pcs s t of
     Outside \<Rightarrow> goto t Lock_xchg s
   | Lock_xchg \<Rightarrow> Lock_step t s
   | Slow_yield \<Rightarrow> goto t Slow_xchg s
   | Slow_xchg \<Rightarrow> SlowLock_step t s
   | Slow_sleep \<Rightarrow> goto t Slow_xchg s
   | Inside \<Rightarrow> Unlock_step t s)"

definition SpinLock_Init :: spin_state where
  "SpinLock_Init = \<lparr>private_lockword = 0, lock_pcs = \<lambda>_. Outside\<rparr>"

inductive spin_reach :: "spin_state \<Rightarrow> bool" where
  spin_start: "spin_reach SpinLock_Init"
| spin_step: "spin_reach s \<Longrightarrow> spin_reach (thread_step t s)"

section \<open>The invariant\<close>

text \<open>The word is 1 exactly while one thread is inside, and never anything but 0 or 1.\<close>

definition spin_inv :: "spin_state \<Rightarrow> bool" where
  "spin_inv s \<longleftrightarrow> private_lockword s = 0 \<and> (\<forall>t. lock_pcs s t \<noteq> Inside) \<or>
     private_lockword s = 1 \<and> (\<exists>x. \<forall>t. lock_pcs s t = Inside \<longleftrightarrow> t = x)"

lemmas spin_defs = thread_step_def Lock_step_def SlowLock_step_def Unlock_step_def xchg1_def goto_def

lemma spin_inv_step:
  assumes "spin_inv s"
  shows "spin_inv (thread_step t s)"
proof -
  from assms consider (free) "private_lockword s = 0" "\<forall>t. lock_pcs s t \<noteq> Inside"
    | (held) x where "private_lockword s = 1" "\<forall>t. lock_pcs s t = Inside \<longleftrightarrow> t = x"
    unfolding spin_inv_def by blast
  then show ?thesis
  proof cases
    case free
    then show ?thesis by (cases "lock_pcs s t") (auto simp: spin_defs spin_inv_def)
  next
    case (held x)
    show ?thesis
    proof (cases "t = x")
      case True
      have "lock_pcs s x = Inside" using held(2) by simp
      then have "thread_step t s = goto x Outside (s\<lparr>private_lockword := 0\<rparr>)"
        by (simp add: True thread_step_def Unlock_step_def)
      then show ?thesis using held(2) by (simp add: goto_def spin_inv_def)
    next
      case False
      then have "lock_pcs s t \<noteq> Inside" using held by simp
      then have "private_lockword (thread_step t s) = 1 \<and> (\<forall>u. lock_pcs (thread_step t s) u = Inside \<longleftrightarrow> u = x)"
        using held False by (cases "lock_pcs s t") (auto simp: spin_defs)
      then show ?thesis unfolding spin_inv_def by blast
    qed
  qed
qed

lemma spin_reach_inv: "spin_reach s \<Longrightarrow> spin_inv s"
  by (induction rule: spin_reach.induct) (simp_all add: spin_inv_step, simp add: spin_inv_def SpinLock_Init_def)

text \<open>
  C22. Mutual exclusion: in every state that any interleaving of any threads can reach, at most one
  thread is between \<open>Lock\<close> and \<open>Unlock\<close>, the lock word is 1 exactly when there is one, and 0 exactly
  when there is none.
\<close>

theorem SpinLock_mutual_exclusion:
  assumes "spin_reach s"
  shows "(\<forall>t u. lock_pcs s t = Inside \<longrightarrow> lock_pcs s u = Inside \<longrightarrow> t = u) \<and>
    (private_lockword s = 1 \<longleftrightarrow> (\<exists>t. lock_pcs s t = Inside)) \<and> (private_lockword s = 0 \<longleftrightarrow> (\<forall>t. lock_pcs s t \<noteq> Inside))"
proof -
  from spin_reach_inv [OF assms] consider (free) "private_lockword s = 0" "\<forall>t. lock_pcs s t \<noteq> Inside"
    | (held) x where "private_lockword s = 1" "\<forall>t. lock_pcs s t = Inside \<longleftrightarrow> t = x"
    unfolding spin_inv_def by blast
  then show ?thesis by cases auto
qed

lemma SpinLock_mutual_exclusion_witness:
  "let s = thread_step 2 (thread_step 1 (thread_step 2 (thread_step 1 SpinLock_Init)))
   in lock_pcs s 1 = Inside \<and> private_lockword s = 1 \<and> lock_pcs s 2 \<noteq> Inside \<and> private_lockword (thread_step 1 s) = 0"
proof -
  let ?s = "thread_step 2 (thread_step 1 (thread_step 2 (thread_step 1 SpinLock_Init)))"
  have r: "spin_reach ?s" "spin_reach (thread_step 1 ?s)" by (intro spin_step spin_start)+
  have i: "lock_pcs ?s 1 = Inside" "\<And>u. lock_pcs (thread_step 1 ?s) u \<noteq> Inside" by (simp_all add: spin_defs SpinLock_Init_def)
  have "lock_pcs ?s 2 \<noteq> Inside"
  proof
    assume "lock_pcs ?s 2 = Inside"
    with SpinLock_mutual_exclusion [OF r(1)] i(1) have "(1 :: nat) = 2" by blast
    then show False by simp
  qed
  moreover have "private_lockword ?s = 1" using SpinLock_mutual_exclusion [OF r(1)] i(1) by blast
  moreover have "private_lockword (thread_step 1 ?s) = 0" using SpinLock_mutual_exclusion [OF r(2)] i(2) by blast
  ultimately show ?thesis using i(1) by (simp add: Let_def)
qed

text \<open>
  C25. A free lock is taken: in every reachable state in which no thread is inside, a thread that has
  called \<open>Lock\<close> is inside after at most two steps of its own, whatever it was doing in the slow path.
\<close>

theorem SpinLock_progress:
  assumes "spin_reach s" and "lock_pcs s t \<noteq> Outside" and "\<forall>u. lock_pcs s u \<noteq> Inside"
  shows "\<exists>n\<in>{1, 2}. lock_pcs ((thread_step t ^^ n) s) t = Inside"
proof -
  have w: "private_lockword s = 0" using spin_reach_inv [OF assms(1)] assms(3) by (simp add: spin_inv_def)
  show ?thesis using assms(2,3) w by (cases "lock_pcs s t") (auto simp: spin_defs numeral_2_eq_2)
qed

lemma SpinLock_progress_witness:
  "let s = thread_step 1 (thread_step 2 (thread_step 1 (thread_step 2 (thread_step 1 SpinLock_Init))))
   in lock_pcs s 2 = Slow_yield \<and> (\<exists>n\<in>{1, 2}. lock_pcs ((thread_step 2 ^^ n) s) 2 = Inside)"
proof -
  let ?s = "thread_step 1 (thread_step 2 (thread_step 1 (thread_step 2 (thread_step 1 SpinLock_Init))))"
  have r: "spin_reach ?s" by (intro spin_step spin_start)
  have p: "lock_pcs ?s u = (if u = 2 then Slow_yield else Outside)" for u
    by (simp add: spin_defs SpinLock_Init_def)
  have "lock_pcs ?s 2 \<noteq> Outside" "\<forall>u. lock_pcs ?s u \<noteq> Inside" unfolding p by simp_all
  from SpinLock_progress [OF r this] p [of 2] show ?thesis unfolding Let_def by simp
qed

end
