(* ===== verification/HeapProfilerSpec.thy ===== *)
theory HeapProfilerSpec
  imports HeapProfiler
begin

text \<open>
  The heap profiler is exact: its private memory never hands out the same bytes twice, the table has
  one bucket for each call stack, and the counters of a bucket are the sums over the live allocations
  that were made with its stack.
\<close>

section \<open>Private memory\<close>

text \<open>
  \<open>hpm_ok h Used\<close>: the blocks handed out so far, as pairs of address and length, are mapped and do
  not overlap, neither each other nor what is left of the current block.
\<close>

definition block_bytes :: "nat \<times> nat \<Rightarrow> nat set" where
  "block_bytes x = {fst x ..< fst x + snd x}"

definition hpm_free :: "'a heap_memory_scheme \<Rightarrow> nat set" where
  "hpm_free h = (if pos h < kBlockSize then {unat (current h) + unat (pos h) ..< unat (current h) + 2 ^ 20} else {})"

definition apart_all :: "(nat \<times> nat) set \<Rightarrow> bool" where
  "apart_all U \<longleftrightarrow> (\<forall>x\<in>U. \<forall>y\<in>U. x \<noteq> y \<longrightarrow> block_bytes x \<inter> block_bytes y = {})"

lemma apart_all_insert:
  assumes "apart_all U" and "\<And>y. y \<in> U \<Longrightarrow> block_bytes x \<inter> block_bytes y = {}"
  shows "apart_all (insert x U)"
  unfolding apart_all_def
proof (intro ballI impI)
  fix a b assume ab: "a \<in> insert x U" "b \<in> insert x U" "a \<noteq> b"
  have "block_bytes b \<inter> block_bytes x = {}" if "b \<in> U" for b using assms(2) [OF that] by (simp add: Int_commute)
  then show "block_bytes a \<inter> block_bytes b = {}"
    using ab assms unfolding apart_all_def by blast
qed

definition hpm_ok :: "'a heap_memory_scheme \<Rightarrow> (nat \<times> nat) set \<Rightarrow> bool" where
  "hpm_ok h Used \<longleftrightarrow> unat (pos h) \<le> 2 ^ 20 \<and> unat (pos h) mod 8 = 0 \<and> (pos h < kBlockSize \<longrightarrow> 0 < unat (current h) \<and> unat (current h) < 2 ^ 47) \<and>
     hpm_free h \<subseteq> mapped (sys_trace (hp_sys h)) \<and>
     (\<forall>x\<in>Used. 0 < fst x \<and> block_bytes x \<subseteq> mapped (sys_trace (hp_sys h)) \<and> block_bytes x \<inter> hpm_free h = {}) \<and>
     apart_all Used"

lemma hpm_okD:
  assumes "hpm_ok h Used"
  shows "unat (pos h) \<le> 2 ^ 20" "unat (pos h) mod 8 = 0" "pos h < kBlockSize \<Longrightarrow> 0 < unat (current h) \<and> unat (current h) < 2 ^ 47"
    "hpm_free h \<subseteq> mapped (sys_trace (hp_sys h))" "apart_all Used" "x \<in> Used \<Longrightarrow> 0 < fst x"
    "x \<in> Used \<Longrightarrow> block_bytes x \<subseteq> mapped (sys_trace (hp_sys h))" "x \<in> Used \<Longrightarrow> block_bytes x \<inter> hpm_free h = {}"
  using assms unfolding hpm_ok_def by blast+

lemma hpm_okI:
  assumes "unat (pos h) \<le> 2 ^ 20" "unat (pos h) mod 8 = 0" "pos h < kBlockSize \<Longrightarrow> 0 < unat (current h) \<and> unat (current h) < 2 ^ 47"
    "hpm_free h \<subseteq> mapped (sys_trace (hp_sys h))" "apart_all Used" "\<And>x. x \<in> Used \<Longrightarrow> 0 < fst x"
    "\<And>x. x \<in> Used \<Longrightarrow> block_bytes x \<subseteq> mapped (sys_trace (hp_sys h))" "\<And>x. x \<in> Used \<Longrightarrow> block_bytes x \<inter> hpm_free h = {}"
  shows "hpm_ok h Used"
  using assms unfolding hpm_ok_def by blast

lemma kBlockSize_nat: "unat kBlockSize = 2 ^ 20"
  by (simp add: kBlockSize_def)

lemma AllocBlock_ok:
  assumes K: "kernel_ok cfg" and sz: "unat sz \<le> 2 ^ 40" and run: "AllocBlock cfg sz h = Some (p, h')"
  shows "heap_memory.more h' = heap_memory.more h \<and> malloc_hk.truncate h' = malloc_hk.truncate h \<and>
    current h' = current h \<and> pos h' = pos h \<and> nblocks h' = nblocks h \<and>
    mapped (sys_trace (hp_sys h)) \<subseteq> mapped (sys_trace (hp_sys h')) \<and> 4096 \<le> unat p \<and> unat p < 2 ^ 47 \<and>
    {unat p ..< unat p + unat sz} \<subseteq> mapped (sys_trace (hp_sys h')) - mapped (sys_trace (hp_sys h))"
proof -
  let ?t = "sys_trace (hp_sys h)"
  have pg: "page_size cfg = 4096" using K by (simp add: kernel_ok_def)
  define m where "m = ((sz + 4095) div 4096) * 4096"
  have up: "unat sz \<le> unat m"
  proof -
    have "unat (sz + 4095) = unat sz + 4095" using sz by (simp add: unat_plus_no_wrap)
    then have q: "unat ((sz + 4095) div 4096) = (unat sz + 4095) div 4096" by (simp add: unat_div)
    have "(unat sz + 4095) div 4096 * 4096 \<le> unat sz + 4095" by simp
    then have "(unat sz + 4095) div 4096 * 4096 < 2 ^ 64" using sz by simp
    with q have "unat ((sz + 4095) div 4096 * 4096) = unat ((sz + 4095) div 4096) * unat (4096 :: u64)"
      by (intro unat_mult_no_wrap) simp
    then have "unat m = (unat sz + 4095) div 4096 * 4096" unfolding m_def q by simp
    then show ?thesis by linarith
  qed
  obtain r st where c: "syscall cfg (Mmap m) (hp_sys h) = (r, st)" by fastforce
  have run': "r \<noteq> MAP_FAILED" "p = r" "h' = h\<lparr>hp_sys := st, hpm_blocks := (hpm_blocks h)(nblocks h := (r, m))\<rparr>"
    using run c by (auto simp: AllocBlock_def pg option_monad Let_def SetMmapHook_def hp_mmap_def mmap_x86_64_def
        mmap64_x86_64_def hp_kern_def InvokeMmapHook_def m_def add.commute)
  show ?thesis
    using syscall_grant [OF K c _ run'(1), of m 0] up by (auto simp: run' malloc_hk.defs span_of_def disjoint_iff)
qed

text \<open>What an allocation leaves alone.\<close>

definition hpm_same :: "'a heap_memory_scheme \<Rightarrow> 'a heap_memory_scheme \<Rightarrow> bool" where
  "hpm_same h h' \<longleftrightarrow> heap_memory.more h' = heap_memory.more h \<and> malloc_hk.truncate h' = malloc_hk.truncate h"

lemma hpm_same_refl [simp]: "hpm_same h h"
  by (simp add: hpm_same_def)

lemma hpm_same_trans: "hpm_same h h' \<Longrightarrow> hpm_same h' h'' \<Longrightarrow> hpm_same h h''"
  by (simp add: hpm_same_def)

lemma hpm_ok_new_block:
  assumes ok: "hpm_ok h Used" and p: "4096 \<le> unat p" "unat p < 2 ^ 47"
    and m: "mapped (sys_trace (hp_sys h)) \<subseteq> mapped (sys_trace (hp_sys h'))"
      "{unat p ..< unat p + n} \<subseteq> mapped (sys_trace (hp_sys h')) - mapped (sys_trace (hp_sys h))"
    and same: "current h' = current h" "pos h' = pos h"
  shows "hpm_ok h' (insert (unat p, n) Used)"
proof -
  have f: "hpm_free h' = hpm_free h" using same by (simp add: hpm_free_def)
  have new: "block_bytes (unat p, n) \<inter> X = {}" if "X \<subseteq> mapped (sys_trace (hp_sys h))" for X
    using m(2) that by (auto simp: block_bytes_def)
  show ?thesis
  proof (rule hpm_okI)
    show "apart_all (insert (unat p, n) Used)"
      by (rule apart_all_insert [OF hpm_okD(5) [OF ok]]) (rule new [OF hpm_okD(7) [OF ok]])
    show "0 < fst x" if "x \<in> insert (unat p, n) Used" for x using that p(1) hpm_okD(6) [OF ok, of x] by auto
    show "block_bytes x \<subseteq> mapped (sys_trace (hp_sys h'))" if "x \<in> insert (unat p, n) Used" for x
      using that m hpm_okD(7) [OF ok, of x] by (auto simp: block_bytes_def)
    show "block_bytes x \<inter> hpm_free h' = {}" if "x \<in> insert (unat p, n) Used" for x
      using that new [OF hpm_okD(4) [OF ok]] hpm_okD(8) [OF ok, of x] unfolding f by blast
  qed (use hpm_okD [OF ok] m(1) f same in auto)
qed

text \<open>Using up the front of the free part.\<close>

lemma hpm_ok_take:
  assumes ok: "hpm_ok h Used" and fit: "unat (pos h) + n \<le> 2 ^ 20" and n: "0 < n" and c: "0 < unat (current h)"
    and h': "hp_sys h' = hp_sys h" "current h' = current h" "unat (pos h') = (unat (pos h) + n + 7) div 8 * 8"
  shows "hpm_ok h' (insert (unat (current h) + unat (pos h), n) Used)"
proof -
  let ?q = "(unat (pos h) + n + 7) div 8 * 8"
  have q: "unat (pos h) + n \<le> ?q" "?q mod 8 = 0" by simp_all
  have "(unat (pos h) + n + 7) div 8 \<le> 131072" using fit by simp
  then have q2: "?q \<le> 2 ^ 20" by simp
  have lt: "pos h < kBlockSize" using fit n by (simp add: word_less_nat_alt kBlockSize_nat)
  have old: "hpm_free h = {unat (current h) + unat (pos h) ..< unat (current h) + 2 ^ 20}" using lt by (simp add: hpm_free_def)
  have sub: "hpm_free h' \<subseteq> hpm_free h"
    using q h' unfolding old by (auto simp: hpm_free_def)
  have b: "block_bytes (unat (current h) + unat (pos h), n) \<subseteq> hpm_free h"
    unfolding old using fit by (auto simp: block_bytes_def)
  have "block_bytes (unat (current h) + unat (pos h), n) \<inter> hpm_free h' = {}"
    using q h' by (auto simp: block_bytes_def hpm_free_def)
  moreover have "unat (current h) < 2 ^ 47" using hpm_okD(3) [OF ok lt] by blast
  ultimately show ?thesis
  proof (intro hpm_okI)
    let ?x = "(unat (current h) + unat (pos h), n)"
    assume d: "block_bytes ?x \<inter> hpm_free h' = {}" and c47: "unat (current h) < 2 ^ 47"
    show "apart_all (insert ?x Used)"
      by (rule apart_all_insert [OF hpm_okD(5) [OF ok]]) (use hpm_okD(8) [OF ok] b in blast)
    show "0 < fst x" if "x \<in> insert ?x Used" for x using that c hpm_okD(6) [OF ok, of x] by auto
    show "block_bytes x \<subseteq> mapped (sys_trace (hp_sys h'))" if "x \<in> insert ?x Used" for x
      using that b hpm_okD(4) [OF ok] hpm_okD(7) [OF ok, of x] unfolding h'(1) by blast
    show "block_bytes x \<inter> hpm_free h' = {}" if "x \<in> insert ?x Used" for x
      using that d sub hpm_okD(8) [OF ok, of x] by blast
    show "hpm_free h' \<subseteq> mapped (sys_trace (hp_sys h'))" using sub hpm_okD(4) [OF ok] unfolding h'(1) by blast
  qed (use q2 h' c in auto)
qed

lemma HPM_Alloc_ok:
  assumes K: "kernel_ok cfg" and ok: "hpm_ok h Used" and n: "0 < bytes" "unat bytes \<le> 2 ^ 40"
    and run: "HPM_Alloc cfg bytes h = Some (p, h')"
  shows "hpm_same h h' \<and> hpm_ok h' (insert (unat p, unat bytes) Used) \<and>
    {unat p ..< unat p + unat bytes} \<inter> (\<Union>x\<in>Used. block_bytes x) = {} \<and> 0 < unat p"
proof (cases "bytes \<ge> kBlockSize div 8")
  case True
  then have r: "AllocBlock cfg bytes h = Some (p, h')" using run by (simp add: HPM_Alloc_def)
  note a = AllocBlock_ok [OF K n(2) r]
  have "hpm_ok h' (insert (unat p, unat bytes) Used)" by (rule hpm_ok_new_block [OF ok]) (use a in auto)
  moreover have "{unat p ..< unat p + unat bytes} \<inter> (\<Union>x\<in>Used. block_bytes x) = {}"
    using a hpm_okD(7) [OF ok] by blast
  ultimately show ?thesis using a by (auto simp: hpm_same_def)
next
  case False
  have b: "unat bytes < 2 ^ 17" using False by (simp add: kBlockSize_def word_le_nat_alt not_le)
  have n0: "0 < unat bytes" using n(1) by (simp add: word_less_nat_alt)
  have take: ?thesis if ok1: "hpm_ok h1 Used" and same: "hpm_same h h1" and fit: "pos h1 + bytes \<le> kBlockSize"
    and r: "p = current h1 + pos h1" "h' = h1\<lparr>pos := (pos h1 + bytes + 7) AND NOT 7\<rparr>" and c: "0 < unat (current h1)" for h1
  proof -
    have p20: "unat (pos h1) \<le> 2 ^ 20" by (rule hpm_okD(1) [OF ok1])
    have s: "unat (pos h1 + bytes) = unat (pos h1) + unat bytes" using p20 b by (intro unat_plus_no_wrap) simp
    have fit': "unat (pos h1) + unat bytes \<le> 2 ^ 20" using fit by (simp add: word_le_nat_alt s kBlockSize_nat)
    have lt: "pos h1 < kBlockSize" using fit' n0 by (simp add: word_less_nat_alt kBlockSize_nat)
    have cp: "unat (current h1 + pos h1) = unat (current h1) + unat (pos h1)"
      using hpm_okD(3) [OF ok1 lt] p20 by (intro unat_plus_no_wrap) simp
    have s7: "unat (pos h1 + bytes + 7) = unat (pos h1) + unat bytes + 7"
      using s fit' by (subst unat_plus_no_wrap) simp_all
    have m7: "(7 :: u64) = mask 3" by (simp add: mask_eq_exp_minus_1)
    have "x AND NOT (mask 3) = push_bit 3 (drop_bit 3 x)" for x :: u64
      by (rule bit_word_eqI) (auto simp: bit_simps)
    from this [of "pos h1 + bytes + 7"] have "(pos h1 + bytes + 7) AND NOT 7 = push_bit 3 (drop_bit 3 (pos h1 + bytes + 7))"
      unfolding m7 [symmetric] .
    then have q: "unat (pos h') = (unat (pos h1) + unat bytes + 7) div 8 * 8"
      unfolding r(2) using fit' s7 by (simp add: unat_push_bit_no_wrap unat_drop_bit_div)
    have "hpm_ok h' (insert (unat (current h1) + unat (pos h1), unat bytes) Used)"
      by (rule hpm_ok_take [OF ok1 fit' n0 c]) (use q in \<open>simp_all add: r(2)\<close>)
    moreover have "{unat p ..< unat p + unat bytes} \<subseteq> hpm_free h1"
      unfolding r(1) cp using lt fit' by (auto simp: hpm_free_def)
    then have "{unat p ..< unat p + unat bytes} \<inter> (\<Union>x\<in>Used. block_bytes x) = {}" using hpm_okD(8) [OF ok1] by blast
    moreover have "hpm_same h1 h'" by (simp add: r(2) hpm_same_def malloc_hk.defs)
    ultimately show ?thesis using hpm_same_trans [OF same] c by (simp add: r(1) cp)
  qed
  show ?thesis
  proof (cases "pos h + bytes > kBlockSize")
    case True
    then obtain q h1 where a: "AllocBlock cfg kBlockSize h = Some (q, h1)" and
      r: "p = q + 0" "h' = h1\<lparr>current := q, pos := (0 + bytes + 7) AND NOT 7\<rparr>"
      using run False by (auto simp: HPM_Alloc_def option_monad)
    have "unat kBlockSize \<le> 2 ^ 40" by (simp add: kBlockSize_nat)
    note a' = AllocBlock_ok [OF K this a, unfolded kBlockSize_nat]
    show ?thesis
    proof (rule take)
      show "hpm_ok (h1\<lparr>current := q, pos := 0\<rparr>) Used"
      proof (rule hpm_okI)
        show "block_bytes x \<subseteq> mapped (sys_trace (hp_sys (h1\<lparr>current := q, pos := 0\<rparr>)))"
          and "block_bytes x \<inter> hpm_free (h1\<lparr>current := q, pos := 0\<rparr>) = {}" if "x \<in> Used" for x
          using a' hpm_okD(7) [OF ok that] by (auto simp: hpm_free_def kBlockSize_def)
      qed (use a' hpm_okD [OF ok] in \<open>auto simp: hpm_free_def kBlockSize_def\<close>)
      show "hpm_same h (h1\<lparr>current := q, pos := 0\<rparr>)" using a' by (simp add: hpm_same_def malloc_hk.defs)
      show "pos (h1\<lparr>current := q, pos := 0\<rparr>) + bytes \<le> kBlockSize" using b by (simp add: word_le_nat_alt kBlockSize_nat)
    qed (use r a' in auto)
  next
    case small: False
    then have r: "p = current h + pos h" "h' = h\<lparr>pos := (pos h + bytes + 7) AND NOT 7\<rparr>"
      using run False by (auto simp: HPM_Alloc_def option_monad)
    show ?thesis
    proof (rule take [OF ok _ _ r])
      have s: "unat (pos h + bytes) = unat (pos h) + unat bytes"
        using hpm_okD(1) [OF ok] b by (intro unat_plus_no_wrap) simp
      have "unat (pos h) + unat bytes \<le> 2 ^ 20" using small by (simp add: word_le_nat_alt s kBlockSize_nat not_less)
      then have "pos h < kBlockSize" using n0 by (simp add: word_less_nat_alt kBlockSize_nat)
      then show "0 < unat (current h)" using hpm_okD(3) [OF ok] by blast
    qed (use small in auto)
  qed
qed

section \<open>The address map on private memory\<close>

text \<open>Insertion keeps every property of the allocator's state that the allocator keeps.\<close>

lemma AM_New_keeps:
  assumes "AM_New alloc n (m, s) = Some (m', s')" and "Q s" and "\<And>n s. Q s \<Longrightarrow> fst (alloc n s) \<noteq> 0 \<Longrightarrow> 8 \<le> n \<Longrightarrow> n \<le> 2 ^ 32 \<Longrightarrow> Q (snd (alloc n s))"
    and "unat n \<le> 2 ^ 31"
  shows "Q s'"
proof -
  have u: "unat (8 + n) = 8 + unat n" using assms(4) by (simp add: unat_plus_no_wrap)
  have "8 \<le> 8 + n" "8 + n \<le> 2 ^ 32" using assms(4) by (simp_all add: word_le_nat_alt u)
  then show ?thesis using assms(3) [OF assms(2), of "8 + n"] assms(1) by (auto simp: AM_New_def Let_def split: prod.splits if_splits)
qed

lemma AM_Insert_keeps:
  assumes run: "AM_Insert alloc vsz key v (m, s) = Some (m', s')" and Q: "Q s"
    and keep: "\<And>n s. Q s \<Longrightarrow> fst (alloc n s) \<noteq> 0 \<Longrightarrow> 8 \<le> n \<Longrightarrow> n \<le> 2 ^ 32 \<Longrightarrow> Q (snd (alloc n s))" and vsz: "unat vsz \<le> 2 ^ 24"
  shows "Q s'"
proof -
  obtain c m1 s1 where f: "FindCluster alloc key True (m, s) = Some (c, m1, s1)"
    using run by (auto simp: AM_Insert_def option_monad)
  have Q1: "Q s1"
  proof (cases "find_cluster (hashtable m (HashInt (drop_bit (kBlockBits + kClusterBits) key))) (drop_bit (kBlockBits + kClusterBits) key)")
    case (Some i)
    then show ?thesis using f Q by (simp add: FindCluster_def Let_def)
  next
    case None
    then obtain m2 where n: "AM_New alloc (16 + 8 * kClusterBlocks) (m, s) = Some (m2, s1)"
      using f by (auto simp: FindCluster_def Let_def option_monad)
    show ?thesis by (rule AM_New_keeps [OF n Q keep]) (simp_all add: kClusterBlocks_def kClusterBits_def)
  qed
  obtain h i where c: "c = Some (h, i)" using run f by (auto simp: AM_Insert_def option_monad)
  have z: "unat (word_of_nat ALLOC_COUNT * vsz) \<le> 2 ^ 31"
    using vsz by (simp add: ALLOC_COUNT_def unat_mult_no_wrap)
  show ?thesis
  proof (cases "update_entry (blocks (hashtable m1 h ! i) (BlockID key)) key v")
    case (Some es)
    then show ?thesis using run f c Q1 by (simp add: AM_Insert_def option_monad Let_def)
  next
    case None
    show ?thesis
    proof (cases "free_entries m1 = 0")
      case True
      then obtain m2 where n: "AM_New alloc (word_of_nat ALLOC_COUNT * vsz) (m1, s1) = Some (m2, s')"
        using run f c None by (auto simp: AM_Insert_def option_monad Let_def)
      show ?thesis by (rule AM_New_keeps [OF n Q1 keep z])
    next
      case False
      then show ?thesis using run f c None Q1 by (simp add: AM_Insert_def option_monad Let_def)
    qed
  qed
qed

text \<open>Memory and frame of the operations that allocate.\<close>

definition hpm_ext :: "'a heap_memory_scheme \<Rightarrow> (nat \<times> nat) set \<Rightarrow> 'a heap_memory_scheme \<Rightarrow> bool" where
  "hpm_ext h Used h' \<longleftrightarrow> hpm_same h h' \<and> (\<exists>Used'. Used \<subseteq> Used' \<and> hpm_ok h' Used')"

lemma hpm_ext_refl: "hpm_ok h Used \<Longrightarrow> hpm_ext h Used h"
  by (auto simp: hpm_ext_def)

lemma HP_Malloc_ext:
  assumes K: "kernel_ok cfg" and e: "hpm_ext h0 Used h" and n: "8 \<le> n" "n \<le> 2 ^ 32" and ok: "fst (HP_Malloc cfg n h) \<noteq> 0"
  shows "hpm_ext h0 Used (snd (HP_Malloc cfg n h))"
proof -
  obtain Used' where u: "Used \<subseteq> Used'" "hpm_ok h Used'" using e by (auto simp: hpm_ext_def)
  obtain p h' where r: "HPM_Alloc cfg n h = Some (p, h')" using ok by (auto simp: HP_Malloc_def split: option.splits)
  have "0 < n" "unat n \<le> 2 ^ 40" using n by (auto simp: word_le_nat_alt word_less_nat_alt)
  note a = HPM_Alloc_ok [OF K u(2) this r]
  have "hpm_same h0 h'" using e a by (auto simp: hpm_ext_def intro: hpm_same_trans)
  moreover have "Used \<subseteq> insert (unat p, unat n) Used'" using u(1) by blast
  ultimately show ?thesis using a r unfolding hpm_ext_def HP_Malloc_def by auto
qed

lemma allocation_Insert_ok:
  assumes K: "kernel_ok (hpe_sys env)" and ok: "hpm_ok h Used" and wf: "AM_wf (allocation h)"
    and run: "allocation_Insert env ptr v h = Some h'"
  shows "\<exists>h1 m. hpm_ext h Used h1 \<and> h' = h1\<lparr>allocation := m\<rparr> \<and> AM_wf m \<and> AM_Find m = (AM_Find (allocation h))(ptr \<mapsto> v)"
proof -
  obtain m h1 where r: "AM_Insert (HP_Malloc (hpe_sys env)) sizeof_AllocEntry ptr v (allocation h, h) = Some (m, h1)"
    "h' = h1\<lparr>allocation := m\<rparr>"
    using run by (auto simp: allocation_Insert_def option_monad)
  have "hpm_ext h Used h1"
    by (rule AM_Insert_keeps [OF r(1), where Q = "hpm_ext h Used"])
      (use ok in \<open>simp_all add: hpm_ext_refl HP_Malloc_ext [OF K] sizeof_AllocEntry_def\<close>)
  moreover note AM_Insert_spec [OF r(1) wf]
  ultimately show ?thesis using r(2) by (intro exI [of _ h1] exI [of _ m]) (auto simp: fun_eq_iff)
qed

section \<open>The table of stacks\<close>

definition table_set :: "(nat \<Rightarrow> u64 list) \<Rightarrow> u64 set" where
  "table_set tbl = (\<Union>i<kHashTableSize. set (tbl i))"

definition chains_ok :: "(nat \<Rightarrow> u64 list) \<Rightarrow> (u64 \<Rightarrow> bucket) \<Rightarrow> bool" where
  "chains_ok tbl bs \<longleftrightarrow> (\<forall>i. distinct (tbl i)) \<and>
     (\<forall>i. \<forall>b\<in>set (tbl i). b_hash (bs b) = bucket_hash (b_stack (bs b)) \<and> bucket_slot (bucket_hash (b_stack (bs b))) = i) \<and>
     inj_on (\<lambda>b. b_stack (bs b)) (table_set tbl)"

lemma bucket_slot_less [simp]: "bucket_slot x < kHashTableSize"
  by (simp add: bucket_slot_def kHashTableSize_def)

lemma finite_table_set [simp]: "finite (table_set tbl)"
  by (simp add: table_set_def)

lemma find_bucket_mem:
  "find_bucket bs hsh key chain = Some b \<Longrightarrow> b \<in> set chain \<and> b_hash (bs b) = hsh \<and> b_stack (bs b) = key"
  by (induction chain) (auto split: if_splits)

lemma find_bucket_None:
  "find_bucket bs hsh key chain = None \<Longrightarrow> b \<in> set chain \<Longrightarrow> b_hash (bs b) = hsh \<Longrightarrow> b_stack (bs b) \<noteq> key"
  by (induction chain) (auto split: if_splits)

lemma find_bucket_iff:
  assumes C: "chains_ok tbl bs"
  shows "find_bucket bs (bucket_hash key) key (tbl (bucket_slot (bucket_hash key))) = Some b \<longleftrightarrow>
    b \<in> table_set tbl \<and> b_stack (bs b) = key"
proof
  assume "find_bucket bs (bucket_hash key) key (tbl (bucket_slot (bucket_hash key))) = Some b"
  then show "b \<in> table_set tbl \<and> b_stack (bs b) = key" using find_bucket_mem by (fastforce simp: table_set_def)
next
  assume b: "b \<in> table_set tbl \<and> b_stack (bs b) = key"
  then obtain i where i: "b \<in> set (tbl i)" by (auto simp: table_set_def)
  then have h: "b_hash (bs b) = bucket_hash key" "i = bucket_slot (bucket_hash key)" using C b by (auto simp: chains_ok_def)
  show "find_bucket bs (bucket_hash key) key (tbl (bucket_slot (bucket_hash key))) = Some b"
  proof (cases "find_bucket bs (bucket_hash key) key (tbl (bucket_slot (bucket_hash key)))")
    case None
    then show ?thesis using find_bucket_None [OF None _ h(1)] i h b by blast
  next
    case (Some c)
    then have c: "c \<in> table_set tbl" "b_stack (bs c) = key" using find_bucket_mem by (fastforce simp: table_set_def)+
    then have "c = b" using C b unfolding chains_ok_def inj_on_def by metis
    then show ?thesis using Some by simp
  qed
qed

text \<open>A fresh bucket at the front of its chain.\<close>

lemma chains_ok_add:
  assumes C: "chains_ok tbl bs" and b: "b \<notin> table_set tbl" "\<forall>i. b \<notin> set (tbl i)"
    and key: "\<forall>c\<in>table_set tbl. b_stack (bs c) \<noteq> key"
    and x: "b_hash x = bucket_hash key" "b_stack x = key"
  shows "chains_ok (tbl(bucket_slot (bucket_hash key) := b # tbl (bucket_slot (bucket_hash key)))) (bs(b := x)) \<and>
    table_set (tbl(bucket_slot (bucket_hash key) := b # tbl (bucket_slot (bucket_hash key)))) = insert b (table_set tbl)"
proof -
  let ?i = "bucket_slot (bucket_hash key)"
  have s: "table_set (tbl(?i := b # tbl ?i)) = insert b (table_set tbl)"
    by (auto simp: table_set_def split: if_splits) (rule bexI [of _ ?i], simp_all)
  have "inj_on (\<lambda>c. b_stack ((bs(b := x)) c)) (insert b (table_set tbl))"
    using C b(1) key x unfolding chains_ok_def inj_on_def by auto
  moreover have "\<forall>j. distinct ((tbl(?i := b # tbl ?i)) j)" using C b(2) by (simp add: chains_ok_def)
  moreover have "\<forall>j. \<forall>c\<in>set ((tbl(?i := b # tbl ?i)) j). b_hash ((bs(b := x)) c) = bucket_hash (b_stack ((bs(b := x)) c)) \<and>
      bucket_slot (bucket_hash (b_stack ((bs(b := x)) c))) = j"
    using C b(2) x by (auto simp: chains_ok_def)
  ultimately show ?thesis unfolding chains_ok_def s by blast
qed

lemma chains_ok_cong:
  assumes "chains_ok tbl bs" and "\<And>b. b_hash (bs' b) = b_hash (bs b) \<and> b_stack (bs' b) = b_stack (bs b)"
  shows "chains_ok tbl bs'"
  using assms unfolding chains_ok_def by simp

section \<open>The counters\<close>

definition live_of :: "(u64 \<Rightarrow> alloc_value option) \<Rightarrow> u64 \<Rightarrow> u64 set" where
  "live_of a b = {p. \<exists>n. a p = Some (b, n)}"

definition bytes_of_live :: "(u64 \<Rightarrow> alloc_value option) \<Rightarrow> u64 \<Rightarrow> u64" where
  "bytes_of_live a b = (\<Sum>p\<in>live_of a b. snd (the (a p)))"

definition counts_ok :: "(u64 \<Rightarrow> bucket) \<Rightarrow> u64 set \<Rightarrow> bucket \<Rightarrow> (u64 \<Rightarrow> alloc_value option) \<Rightarrow> bool" where
  "counts_ok bs B tot a \<longleftrightarrow>
     b_allocs tot = (\<Sum>b\<in>B. b_allocs (bs b)) \<and> b_frees tot = (\<Sum>b\<in>B. b_frees (bs b)) \<and>
     b_alloc_size tot = (\<Sum>b\<in>B. b_alloc_size (bs b)) \<and> b_free_size tot = (\<Sum>b\<in>B. b_free_size (bs b)) \<and>
     (\<forall>b\<in>B. b_allocs (bs b) - b_frees (bs b) = word_of_nat (card (live_of a b)) \<and>
        b_alloc_size (bs b) - b_free_size (bs b) = bytes_of_live a b) \<and>
     (\<forall>p b n. a p = Some (b, n) \<longrightarrow> b \<in> B) \<and> finite (dom a)"

lemma live_of_finite: "finite (dom a) \<Longrightarrow> finite (live_of a b)"
  by (erule rev_finite_subset) (auto simp: live_of_def)

lemma live_of_insert: "a p = None \<Longrightarrow> live_of (a(p \<mapsto> (b, n))) c = (if c = b then insert p (live_of a c) else live_of a c)"
  by (auto simp: live_of_def)

lemma live_of_delete: "live_of (a(p := None)) c = live_of a c - {p}"
  by (auto simp: live_of_def)

lemma bytes_insert:
  assumes "finite (dom a)" and "a p = None"
  shows "bytes_of_live (a(p \<mapsto> (b, n))) c = bytes_of_live a c + (if c = b then n else 0)"
proof -
  have p: "p \<notin> live_of a c" using assms(2) by (simp add: live_of_def)
  let ?f = "\<lambda>q. snd (the ((a(p \<mapsto> (b, n))) q))"
  have "sum ?f (live_of a c) = bytes_of_live a c"
    unfolding bytes_of_live_def using p by (intro sum.cong) auto
  moreover have "sum ?f (insert p (live_of a c)) = ?f p + sum ?f (live_of a c)"
    by (rule sum.insert [OF live_of_finite [OF assms(1)] p])
  moreover have "?f p = n" by simp
  moreover have "bytes_of_live (a(p \<mapsto> (b, n))) c = sum ?f (if c = b then insert p (live_of a c) else live_of a c)"
    unfolding bytes_of_live_def live_of_insert [where a = a and p = p, OF assms(2)] ..
  ultimately show ?thesis by (simp only: add.commute if_True if_False add_0_right split: if_split) simp
qed

lemma bytes_delete:
  assumes "finite (dom a)" and "a p = Some (b, n)"
  shows "bytes_of_live (a(p := None)) c = bytes_of_live a c - (if c = b then n else 0)"
proof -
  have e: "(\<Sum>q\<in>live_of a c - {p}. snd (the ((a(p := None)) q))) = (\<Sum>q\<in>live_of a c - {p}. snd (the (a q)))"
    by (rule sum.cong) auto
  show ?thesis
  proof (cases "c = b")
    case True
    then have "p \<in> live_of a c" using assms(2) by (simp add: live_of_def)
    from sum.remove [OF live_of_finite [OF assms(1)] this, of "\<lambda>q. snd (the (a q))"] show ?thesis
      using True assms(2) e by (simp add: bytes_of_live_def live_of_delete del: fun_upd_apply)
  next
    case False
    then have "live_of a c - {p} = live_of a c" using assms(2) by (auto simp: live_of_def)
    then show ?thesis using False e by (simp add: bytes_of_live_def live_of_delete del: fun_upd_apply)
  qed
qed

lemma sum_upd:
  fixes f :: "bucket \<Rightarrow> 'b::len word"
  assumes "finite B" "b \<in> B"
  shows "(\<Sum>c\<in>B. f ((bs(b := x)) c)) = (\<Sum>c\<in>B. f (bs c)) + (f x - f (bs b))"
proof -
  have "(\<Sum>c\<in>B - {b}. f ((bs(b := x)) c)) = (\<Sum>c\<in>B - {b}. f (bs c))" by (rule sum.cong) auto
  then show ?thesis
    using sum.remove [OF assms, of "\<lambda>c. f ((bs(b := x)) c)"] sum.remove [OF assms, of "\<lambda>c. f (bs c)"] by simp
qed

lemma counts_alloc:
  assumes C: "counts_ok bs B tot a" and B: "finite B" "b \<in> B" and p: "a p = None"
  shows "counts_ok (bs(b := count_alloc n (bs b))) B (count_alloc n tot) (a(p \<mapsto> (b, n)))"
proof -
  have fin: "finite (dom a)" using C by (simp add: counts_ok_def)
  have "p \<notin> live_of a b" using p by (simp add: live_of_def)
  then have card: "card (live_of (a(p \<mapsto> (b, n))) c) = card (live_of a c) + (if c = b then 1 else 0)" for c
    using live_of_finite [OF fin] by (simp add: live_of_insert [where a = a and p = p, OF p])
  have sums: "(\<Sum>c\<in>B. f ((bs(b := count_alloc n (bs b))) c)) = (\<Sum>c\<in>B. f (bs c)) + (f (count_alloc n (bs b)) - f (bs b))"
    for f :: "bucket \<Rightarrow> 'b::len word"
    by (rule sum_upd [OF B])
  show ?thesis
    unfolding counts_ok_def sums
    using C B(2) fin by (auto simp: counts_ok_def count_alloc_def card bytes_insert [where a = a and p = p, OF fin p] algebra_simps simp del: fun_upd_apply)
      (auto simp: algebra_simps split: if_splits)
qed

lemma counts_free:
  assumes C: "counts_ok bs B tot a" and B: "finite B" and p: "a p = Some (b, n)"
  shows "counts_ok (bs(b := count_free n (bs b))) B (count_free n tot) (a(p := None))"
proof -
  have fin: "finite (dom a)" and b: "b \<in> B" using C p by (auto simp: counts_ok_def)
  have m: "p \<in> live_of a c \<longleftrightarrow> c = b" for c using p by (auto simp: live_of_def)
  have "0 < card (live_of a b)" using m live_of_finite [OF fin] by (auto simp: card_gt_0_iff)
  then have card: "(word_of_nat (card (live_of (a(p := None)) c)) :: u32) = word_of_nat (card (live_of a c)) - (if c = b then 1 else 0)" for c
    using m [of c] live_of_finite [OF fin] by (auto simp: live_of_delete of_nat_diff)
  have sums: "(\<Sum>c\<in>B. f ((bs(b := count_free n (bs b))) c)) = (\<Sum>c\<in>B. f (bs c)) + (f (count_free n (bs b)) - f (bs b))"
    for f :: "bucket \<Rightarrow> 'b::len word"
    by (rule sum_upd [OF B b])
  show ?thesis
    unfolding counts_ok_def sums
    using C b fin by (auto simp: counts_ok_def count_free_def card bytes_delete [where a = a and p = p, OF fin p] algebra_simps simp del: fun_upd_apply)
      (auto simp: algebra_simps split: if_splits)
qed

lemma counts_new_bucket:
  assumes C: "counts_ok bs B tot a" and B: "finite B" "b \<notin> B"
    and x: "b_allocs x = 0" "b_frees x = 0" "b_alloc_size x = 0" "b_free_size x = 0"
  shows "counts_ok (bs(b := x)) (insert b B) tot a"
proof -
  have l: "live_of a b = {}" using C B(2) by (auto simp: counts_ok_def live_of_def)
  have sums: "(\<Sum>c\<in>insert b B. f ((bs(b := x)) c)) = (\<Sum>c\<in>B. f (bs c))" if "f x = 0" for f :: "bucket \<Rightarrow> 'b::len word"
  proof -
    have "(\<Sum>c\<in>B. f ((bs(b := x)) c)) = (\<Sum>c\<in>B. f (bs c))" using B(2) by (intro sum.cong) auto
    then show ?thesis using B that by simp
  qed
  show ?thesis
    unfolding counts_ok_def sums [of b_allocs, OF x(1)] sums [of b_frees, OF x(2)]
      sums [of b_alloc_size, OF x(3)] sums [of b_free_size, OF x(4)]
    using C B(2) x l by (auto simp: counts_ok_def bytes_of_live_def)
qed

section \<open>The invariant\<close>

lemma hpm_same_fields:
  fixes h h' :: heap_profiler
  assumes "hpm_same h h'"
  shows "is_on h' = is_on h" "done_first_alloc h' = done_first_alloc h" "self_disable h' = self_disable h"
    "bucket_table h' = bucket_table h" "buckets h' = buckets h" "allocation h' = allocation h" "total h' = total h"
    "num_buckets h' = num_buckets h" "hp_stack_calls h' = hp_stack_calls h" "strip_frames h' = strip_frames h"
    "reference_position h' = reference_position h" "filename_prefix h' = filename_prefix h" "dumping h' = dumping h"
    "need_for_leaks h' = need_for_leaks h" "hp_ignored h' = hp_ignored h"
  using assms by (cases h; cases h'; simp add: hpm_same_def)+

lemma hpm_ok_cong:
  assumes "hpm_ok h Used" and "hp_sys h' = hp_sys h" "current h' = current h" "pos h' = pos h"
  shows "hpm_ok h' Used"
proof -
  have "hpm_free h' = hpm_free h" using assms by (simp add: hpm_free_def)
  then show ?thesis using assms unfolding hpm_ok_def by simp
qed

lemma HPM_Alloc_zero:
  assumes ok: "hpm_ok h Used" and run: "HPM_Alloc cfg 0 h = Some (p, h')"
  shows "hpm_same h h' \<and> hpm_ok h' Used"
proof -
  have p20: "unat (pos h) \<le> 2 ^ 20" "8 dvd unat (pos h)" using hpm_okD(1,2) [OF ok] by auto
  have "\<not> pos h > kBlockSize" using p20 by (simp add: word_less_nat_alt kBlockSize_nat)
  then have h': "h' = h\<lparr>pos := (pos h + 7) AND NOT 7\<rparr>"
    using run by (auto simp: HPM_Alloc_def kBlockSize_def option_monad)
  have m7: "(7 :: u64) = mask 3" by (simp add: mask_eq_exp_minus_1)
  have "x AND NOT (mask 3) = push_bit 3 (drop_bit 3 x)" for x :: u64
    by (rule bit_word_eqI) (auto simp: bit_simps)
  from this [of "pos h + 7"] have e: "(pos h + 7) AND NOT 7 = push_bit 3 (drop_bit 3 (pos h + 7))"
    unfolding m7 [symmetric] .
  have s7: "unat (pos h + 7) = unat (pos h) + 7" using p20 by (subst unat_plus_no_wrap) simp_all
  obtain k where k: "unat (pos h) = 8 * k" using p20(2) by blast
  have "unat (push_bit 3 (drop_bit 3 (pos h + 7))) = unat (pos h)"
    using p20 s7 k by (simp add: unat_push_bit_no_wrap unat_drop_bit_div)
  then have "(pos h + 7) AND NOT 7 = pos h" unfolding e word_eq_iff_unat .
  then have "h' = h\<lparr>pos := pos h\<rparr>" unfolding h' by (simp only:)
  then have "pos h' = pos h" by simp
  moreover have "hp_sys h' = hp_sys h" "current h' = current h" "hpm_same h h'" by (simp_all add: h' hpm_same_def malloc_hk.defs)
  ultimately show ?thesis using hpm_ok_cong [OF ok, of h'] by simp
qed

lemma HPM_Alloc_ext:
  assumes K: "kernel_ok cfg" and ok: "hpm_ok h Used" and n: "unat bytes \<le> 2 ^ 40" and run: "HPM_Alloc cfg bytes h = Some (p, h')"
  shows "hpm_ext h Used h'"
proof (cases "bytes = 0")
  case True
  then show ?thesis using HPM_Alloc_zero [OF ok] run by (auto simp: hpm_ext_def)
next
  case False
  then have "0 < bytes" by (simp add: word_gt_0)
  from HPM_Alloc_ok [OF K ok this n run] show ?thesis by (auto simp: hpm_ext_def)
qed

definition hp_tab :: "heap_profiler \<Rightarrow> (nat \<Rightarrow> u64 list) \<Rightarrow> (nat \<times> nat) set \<Rightarrow> bool" where
  "hp_tab h tbl Used \<longleftrightarrow> bucket_table h = Some tbl \<and> hpm_ok h Used \<and> (\<forall>b\<in>table_set tbl. (unat b, 56) \<in> Used) \<and>
     chains_ok tbl (buckets h) \<and> counts_ok (buckets h) (table_set tbl) (total h) (AM_Find (allocation h)) \<and>
     AM_wf (allocation h) \<and> num_buckets h = int (card (table_set tbl))"

definition hp_inv :: "heap_profiler \<Rightarrow> bool" where
  "hp_inv h \<longleftrightarrow> is_on h \<and> done_first_alloc h \<and> \<not> self_disable h \<and> (\<exists>tbl Used. hp_tab h tbl Used)"

text \<open>The live allocations with the stack and the size of each.\<close>

definition hp_live :: "heap_profiler \<Rightarrow> u64 \<Rightarrow> (u64 list \<times> u64) option" where
  "hp_live h p = map_option (\<lambda>(b, n). (b_stack (buckets h b), n)) (AM_Find (allocation h) p)"

lemma hp_tab_ext:
  assumes T: "hp_tab h tbl Used" and e: "hpm_ext h Used h'"
  shows "\<exists>Used'. Used \<subseteq> Used' \<and> hp_tab h' tbl Used'"
proof -
  obtain Used' where u: "hpm_same h h'" "Used \<subseteq> Used'" "hpm_ok h' Used'" using e by (auto simp: hpm_ext_def)
  then show ?thesis using T unfolding hp_tab_def hpm_same_fields [OF u(1)] by blast
qed

definition same_switches :: "heap_profiler \<Rightarrow> heap_profiler \<Rightarrow> bool" where
  "same_switches h h' \<longleftrightarrow> is_on h' = is_on h \<and> done_first_alloc h' = done_first_alloc h \<and> self_disable h' = self_disable h \<and>
     hp_stack_calls h' = hp_stack_calls h \<and> hp_ignored h' = hp_ignored h"

lemma GetBucket_key_ok:
  assumes K: "kernel_ok (hpe_sys env)" and T: "hp_tab h tbl Used" and len: "length key \<le> 32"
    and run: "GetBucket_key env key h = Some (b, h')"
  shows "\<exists>tbl' Used'. hp_tab h' tbl' Used' \<and> b \<in> table_set tbl' \<and> table_set tbl \<subseteq> table_set tbl' \<and>
    b_stack (buckets h' b) = key \<and> (\<forall>c\<in>table_set tbl. buckets h' c = buckets h c) \<and>
    allocation h' = allocation h \<and> same_switches h h'"
proof -
  note t = T [unfolded hp_tab_def]
  let ?i = "bucket_slot (bucket_hash key)"
  have C: "chains_ok tbl (buckets h)" using t by blast
  show ?thesis
  proof (cases "find_bucket (buckets h) (bucket_hash key) key (tbl ?i)")
    case (Some c)
    then have "b = c" "h' = h" using run t by (auto simp: GetBucket_key_def Let_def)
    then show ?thesis using T Some find_bucket_iff [OF C] by (auto simp: same_switches_def)
  next
    case None
    have "unat (8 * word_of_nat (length key) :: u64) = 8 * length key"
    proof -
      have "unat (word_of_nat (length key) :: u64) = length key" using len by (intro of_nat_inverse [OF refl]) simp
      then show ?thesis using len by (simp add: unat_mult_no_wrap)
    qed
    then have k40: "unat (8 * word_of_nat (length key) :: u64) \<le> 2 ^ 40" using len by simp
    obtain kcopy h1 h2 where r: "HPM_Alloc (hpe_sys env) (8 * word_of_nat (length key)) h = Some (kcopy, h1)"
      "HPM_Alloc (hpe_sys env) sizeof_Bucket h1 = Some (b, h2)"
      "h' = h2\<lparr>buckets := (buckets h2)(b := zero_bucket\<lparr>b_hash := bucket_hash key, b_stack := key\<rparr>),
          bucket_table := Some (tbl(?i := b # tbl ?i)), num_buckets := num_buckets h2 + 1,
          total_stack_depth := total_stack_depth h2 + int (length key)\<rparr>"
      using run t None by (auto simp: GetBucket_key_def Let_def option_monad)
    have e1: "hpm_ext h Used h1" by (rule HPM_Alloc_ext [OF K _ k40 r(1)]) (use t in blast)
    obtain U1 where T1: "Used \<subseteq> U1" "hp_tab h1 tbl U1" using hp_tab_ext [OF T e1] by blast
    note t1 = T1(2) [unfolded hp_tab_def]
    have a: "hpm_same h1 h2" "hpm_ok h2 (insert (unat b, 56) U1)"
      "{unat b ..< unat b + 56} \<inter> (\<Union>x\<in>U1. block_bytes x) = {}"
      using HPM_Alloc_ok [OF K _ _ _ r(2), of U1] t1 by (simp_all add: sizeof_Bucket_def)
    have same: "hpm_same h h2" using e1 a(1) by (auto simp: hpm_ext_def intro: hpm_same_trans)
    note f = hpm_same_fields [OF same]
    have fresh: "b \<notin> table_set tbl"
    proof
      assume "b \<in> table_set tbl"
      then have "(unat b, 56) \<in> U1" using t1 by blast
      then have "unat b \<in> (\<Union>x\<in>U1. block_bytes x)" by (force simp: block_bytes_def)
      then have "unat b \<in> {unat b ..< unat b + 56} \<inter> (\<Union>x\<in>U1. block_bytes x)" by simp
      then show False unfolding a(3) by simp
    qed
    have nowhere: "\<forall>i. b \<notin> set (tbl i)"
    proof (intro allI notI)
      fix i assume b: "b \<in> set (tbl i)"
      then have "bucket_slot (bucket_hash (b_stack (buckets h b))) = i" using C by (auto simp: chains_ok_def)
      then have "i < kHashTableSize" using bucket_slot_less by metis
      then show False using b fresh by (auto simp: table_set_def)
    qed
    have new: "\<forall>c\<in>table_set tbl. b_stack (buckets h c) \<noteq> key" using find_bucket_iff [OF C, of key] None by auto
    let ?x = "zero_bucket\<lparr>b_hash := bucket_hash key, b_stack := key\<rparr>"
    note C' = chains_ok_add [OF C fresh nowhere new, of ?x]
    have N: "counts_ok ((buckets h)(b := ?x)) (insert b (table_set tbl)) (total h) (AM_Find (allocation h))"
      by (rule counts_new_bucket) (use t fresh in \<open>simp_all add: zero_bucket_def\<close>)
    let ?tbl = "tbl(?i := b # tbl ?i)"
    have "hp_tab h' ?tbl (insert (unat b, 56) U1)"
      unfolding hp_tab_def
    proof (intro conjI)
      show "hpm_ok h' (insert (unat b, 56) U1)" by (rule hpm_ok_cong [OF a(2)]) (simp_all add: r(3))
      show "\<forall>c\<in>table_set ?tbl. (unat c, 56) \<in> insert (unat b, 56) U1" using C' t1 by auto
    qed (use C' N t fresh in \<open>simp_all add: r(3) f\<close>)
    moreover have "b \<in> table_set ?tbl" "table_set tbl \<subseteq> table_set ?tbl" using C' by auto
    moreover have "\<forall>c\<in>table_set tbl. buckets h' c = buckets h c" using fresh by (auto simp: r(3) f)
    ultimately show ?thesis by (intro exI [of _ ?tbl] exI) (auto simp: r(3) f same_switches_def)
  qed
qed

section \<open>Recording keeps the profile exact\<close>

definition alloc_key :: "hp_env \<Rightarrow> int \<Rightarrow> heap_profiler \<Rightarrow> u64 list" where
  "alloc_key env skip_count h = take kMaxStackTrace (hpe_stack env (hp_stack_calls h) (skip_count + 2))"

lemma dump_due_fields:
  "dump_due env h = (r, h') \<Longrightarrow> bucket_table h' = bucket_table h \<and> buckets h' = buckets h \<and> allocation h' = allocation h \<and>
     total h' = total h \<and> num_buckets h' = num_buckets h \<and> same_switches h h' \<and>
     hp_sys h' = hp_sys h \<and> current h' = current h \<and> pos h' = pos h"
  by (auto simp: dump_due_def Let_def same_switches_def split: if_splits)

lemma hp_tab_cong:
  assumes "hp_tab h tbl Used" and "bucket_table h' = bucket_table h" "buckets h' = buckets h" "allocation h' = allocation h"
    "total h' = total h" "num_buckets h' = num_buckets h" "hp_sys h' = hp_sys h" "current h' = current h" "pos h' = pos h"
  shows "hp_tab h' tbl Used"
  using assms hpm_ok_cong [of h Used h'] unfolding hp_tab_def by simp

lemma RecordAlloc_ok:
  assumes K: "kernel_ok (hpe_sys env)" and I: "hp_inv h" and fresh: "hp_live h ptr = None"
    and run: "RecordAlloc env me ptr bytes skip_count h = Some (r, h')"
  shows "hp_inv h' \<and> hp_live h' = (hp_live h)(ptr \<mapsto> (alloc_key env skip_count h, bytes)) \<and>
    hp_stack_calls h' = Suc (hp_stack_calls h) \<and> hp_ignored h' = hp_ignored h"
proof -
  obtain tbl Used where T: "hp_tab h tbl Used" and on: "is_on h" "done_first_alloc h" "\<not> self_disable h"
    using I by (auto simp: hp_inv_def)
  let ?key = "alloc_key env skip_count h"
  let ?h0 = "h\<lparr>hp_stack_calls := Suc (hp_stack_calls h)\<rparr>"
  obtain b h1 h3 where g: "GetBucket_key env ?key ?h0 = Some (b, h1)"
    and i: "allocation_Insert env ptr (b, bytes) (h1\<lparr>buckets := (buckets h1)(b := count_alloc bytes (buckets h1 b)),
      total := count_alloc bytes (total h1)\<rparr>) = Some h3"
    and d: "dump_due env h3 = (r, h')"
    using run on by (auto simp: RecordAlloc_def GetBucket_def hp_GetStackTrace_def Let_def option_monad alloc_key_def add.assoc)
  have T0: "hp_tab ?h0 tbl Used" by (rule hp_tab_cong [OF T]) simp_all
  have len: "length ?key \<le> 32" by (simp add: alloc_key_def kMaxStackTrace_def)
  obtain tbl1 U1 where T1: "hp_tab h1 tbl1 U1" "b \<in> table_set tbl1" "table_set tbl \<subseteq> table_set tbl1"
    "b_stack (buckets h1 b) = ?key" "\<forall>c\<in>table_set tbl. buckets h1 c = buckets h c" "allocation h1 = allocation h"
    "same_switches ?h0 h1"
    using GetBucket_key_ok [OF K T0 len g] by auto
  note t1 = T1(1) [unfolded hp_tab_def]
  define h2 where "h2 = h1\<lparr>buckets := (buckets h1)(b := count_alloc bytes (buckets h1 b)), total := count_alloc bytes (total h1)\<rparr>"
  have ok2: "hpm_ok h2 U1" by (rule hpm_ok_cong [of h1]) (use t1 in \<open>simp_all add: h2_def\<close>)
  obtain h2' m where m: "hpm_ext h2 U1 h2'" "h3 = h2'\<lparr>allocation := m\<rparr>" "AM_wf m" "AM_Find m = (AM_Find (allocation h))(ptr \<mapsto> (b, bytes))"
    using allocation_Insert_ok [OF K ok2 _ i [folded h2_def]] t1 T1(6) by (auto simp: h2_def)
  obtain U2 where u: "hpm_same h2 h2'" "U1 \<subseteq> U2" "hpm_ok h2' U2" using m(1) by (auto simp: hpm_ext_def)
  note f = hpm_same_fields [OF u(1)]
  have none: "AM_Find (allocation h1) ptr = None" using fresh T1(6) by (simp add: hp_live_def)
  have cnt: "counts_ok (buckets h2) (table_set tbl1) (total h2) ((AM_Find (allocation h))(ptr \<mapsto> (b, bytes)))"
    unfolding T1(6) [symmetric] using counts_alloc [where a = "AM_Find (allocation h1)" and b = b and n = bytes and p = ptr, OF _ _ T1(2) none] t1 by (simp add: h2_def)
  have chains: "chains_ok tbl1 (buckets h2)" by (rule chains_ok_cong [of _ "buckets h1"]) (use t1 in \<open>simp_all add: h2_def count_alloc_def\<close>)
  have "hp_tab h3 tbl1 U2"
    unfolding hp_tab_def
  proof (intro conjI)
    show "hpm_ok h3 U2" by (rule hpm_ok_cong [OF u(3)]) (simp_all add: m(2))
    show "\<forall>b\<in>table_set tbl1. (unat b, 56) \<in> U2" using t1 u(2) by blast
  qed (use cnt chains m t1 f in \<open>simp_all add: h2_def\<close>)
  then have "hp_tab h' tbl1 U2" by (rule hp_tab_cong) (use dump_due_fields [OF d] in simp_all)
  moreover have sw: "same_switches h3 h'" using dump_due_fields [OF d] by blast
  moreover have "same_switches ?h0 h3" using T1(7) f by (simp add: same_switches_def m(2) h2_def)
  ultimately have inv: "hp_inv h'" "hp_stack_calls h' = Suc (hp_stack_calls h)" "hp_ignored h' = hp_ignored h"
    using on by (auto simp: hp_inv_def same_switches_def)
  have st: "b_stack (buckets h' c) = b_stack (buckets h1 c)" for c
    using dump_due_fields [OF d] f by (simp add: m(2) h2_def count_alloc_def)
  have old: "b_stack (buckets h1 c) = b_stack (buckets h c)" if "AM_Find (allocation h) p = Some (c, n)" for p c n
  proof -
    have "counts_ok (buckets h) (table_set tbl) (total h) (AM_Find (allocation h))" using T by (simp add: hp_tab_def)
    then have "c \<in> table_set tbl" unfolding counts_ok_def using that by blast
    then show ?thesis using T1(5) by simp
  qed
  have "AM_Find (allocation h') = (AM_Find (allocation h))(ptr \<mapsto> (b, bytes))" using dump_due_fields [OF d] m by simp
  then have "hp_live h' p = ((hp_live h)(ptr \<mapsto> (?key, bytes))) p" for p
    using st T1(4) old by (cases "AM_Find (allocation h) p") (auto simp: hp_live_def)
  then show ?thesis using inv by auto
qed

lemma RecordFree_ok:
  assumes I: "hp_inv h" and run: "RecordFree me ptr h = Some h'"
  shows "hp_inv h' \<and> hp_live h' = (hp_live h)(ptr := None) \<and> hp_stack_calls h' = hp_stack_calls h \<and> hp_ignored h' = hp_ignored h"
proof -
  obtain tbl Used where T: "hp_tab h tbl Used" and on: "is_on h" "done_first_alloc h" "\<not> self_disable h"
    using I by (auto simp: hp_inv_def)
  note t = T [unfolded hp_tab_def]
  have wf: "AM_wf (allocation h)" using t by blast
  note am = AM_FindAndRemove_spec [OF wf, of ptr]
  obtain v m where r: "AM_FindAndRemove ptr (allocation h) = (v, m)" by fastforce
  show ?thesis
  proof (cases v)
    case None
    then have "h' = h" "AM_Find (allocation h) ptr = None" using run on r am(1) by (auto simp: RecordFree_def)
    then show ?thesis using I by (simp add: hp_live_def fun_eq_iff)
  next
    case (Some x)
    then obtain b n where v: "v = Some (b, n)" by (cases x) auto
    have a: "AM_Find (allocation h) ptr = Some (b, n)" "AM_Find m = (AM_Find (allocation h))(ptr := None)" "AM_wf m"
      using am r v by simp_all
    have h': "h' = h\<lparr>allocation := m, buckets := (buckets h)(b := count_free n (buckets h b)), total := count_free n (total h)\<rparr>"
      using run on r v by (auto simp: RecordFree_def option_monad)
    have "counts_ok (buckets h') (table_set tbl) (total h') (AM_Find (allocation h'))"
      using counts_free [where a = "AM_Find (allocation h)" and p = ptr, OF _ _ a(1)] t a(2) by (simp add: h')
    moreover have "chains_ok tbl (buckets h')" by (rule chains_ok_cong [of _ "buckets h"]) (use t in \<open>simp_all add: h' count_free_def\<close>)
    moreover have "hpm_ok h' Used" by (rule hpm_ok_cong [of h]) (use t in \<open>simp_all add: h'\<close>)
    ultimately have "hp_tab h' tbl Used" using t a(3) unfolding hp_tab_def by (simp add: h')
    moreover have "b_stack (buckets h' c) = b_stack (buckets h c)" for c by (simp add: h' count_free_def)
    then have "hp_live h' = (hp_live h)(ptr := None)" by (simp add: hp_live_def h' a(2) fun_eq_iff)
    ultimately show ?thesis using on by (auto simp: hp_inv_def h')
  qed
qed

section \<open>Start\<close>

lemma AM_init_ext:
  assumes K: "kernel_ok cfg" and ok: "hpm_ok h Used" and run: "AM_init (HP_Malloc cfg) h = Some (m, h')"
  shows "hpm_ext h Used h' \<and> AM_wf m \<and> AM_Find m = (\<lambda>_. None)"
proof -
  have "hpm_ext h Used h'"
    by (rule AM_New_keeps [OF run [unfolded AM_init_def], where Q = "hpm_ext h Used"])
      (use ok in \<open>simp_all add: hpm_ext_refl HP_Malloc_ext [OF K] kHashSize_def\<close>)
  then show ?thesis using AM_init_empty [OF run] by simp
qed

lemma EarlyStart_ok:
  assumes K: "kernel_ok (hpe_sys env)" and first: "hpe_first_alloc env \<noteq> 0" and run: "EarlyStartLocked env me h = Some h'"
  shows "hp_inv h' \<and> hp_live h' = (\<lambda>_. None) \<and> hp_ignored h' = hp_ignored h"
proof -
  let ?h0 = "(HPM_Init h)\<lparr>is_on := True\<rparr>"
  obtain p1 h1 p2 h2 m h3 x h4 where r: "\<not> self_disable h"
    "HPM_Alloc (hpe_sys env) (word_of_nat kHashTableSize * 8) ?h0 = Some (p1, h1)"
    "HPM_Alloc (hpe_sys env) sizeof_AllocationMap (h1\<lparr>bucket_table := Some (\<lambda>_. [])\<rparr>) = Some (p2, h2)"
    "AM_init (HP_Malloc (hpe_sys env)) h2 = Some (m, h3)"
    "HP_NewHook env me (hpe_first_alloc env) kFirstAllocationNumBytes
       (h3\<lparr>allocation := m, total := zero_bucket, num_buckets := 0, total_stack_depth := 0,
          last_dump := 0, hk_new := addr_NewHook env, hp_stack_calls := Suc (hp_stack_calls h3),
          reference_position := hpe_stack env (hp_stack_calls h3) 1 ! 0, done_first_alloc := False\<rparr>) = Some (x, h4)"
    "h' = h4\<lparr>hk_delete := addr_DeleteHook env\<rparr>"
    using run by (auto simp: EarlyStartLocked_def option_monad Let_def HPM_Init_def Hk_SetNewHook_def Hk_SetDeleteHook_def hp_GetStackTrace_def)
  have ok0: "hpm_ok ?h0 {}"
    by (simp add: hpm_ok_def hpm_free_def HPM_Init_def apart_all_def kBlockSize_nat)
  have "unat (word_of_nat kHashTableSize * 8 :: u64) \<le> 2 ^ 40" "unat sizeof_AllocationMap \<le> 2 ^ 40"
    by (simp_all add: kHashTableSize_def sizeof_AllocationMap_def)
  note n = this
  obtain U1 where e1: "hpm_same ?h0 h1" "hpm_ok h1 U1" using HPM_Alloc_ext [OF K ok0 n(1) r(2)] by (auto simp: hpm_ext_def)
  have "hpm_ok (h1\<lparr>bucket_table := Some (\<lambda>_. [])\<rparr>) U1" by (rule hpm_ok_cong [OF e1(2)]) simp_all
  then obtain U2 where e2: "hpm_same (h1\<lparr>bucket_table := Some (\<lambda>_. [])\<rparr>) h2" "hpm_ok h2 U2"
    using HPM_Alloc_ext [OF K _ n(2) r(3)] by (auto simp: hpm_ext_def)
  obtain U3 where e3: "hpm_same h2 h3" "hpm_ok h3 U3" "AM_wf m" "AM_Find m = (\<lambda>_. None)"
    using AM_init_ext [OF K e2(2) r(4)] by (auto simp: hpm_ext_def)
  note f = hpm_same_fields [OF e1(1)] hpm_same_fields [OF e2(1)] hpm_same_fields [OF e3(1)]
  have h3: "is_on h3" "\<not> self_disable h3" "bucket_table h3 = Some (\<lambda>_. [])"
    using f r(1) by (simp_all add: HPM_Init_def)
  define h3' where "h3' = h3\<lparr>allocation := m, total := zero_bucket, num_buckets := 0, total_stack_depth := 0,
          last_dump := 0, hk_new := addr_NewHook env, hp_stack_calls := Suc (hp_stack_calls h3),
          reference_position := hpe_stack env (hp_stack_calls h3) 1 ! 0, done_first_alloc := False\<rparr>"
  have "RecordAlloc_first env kFirstAllocationNumBytes h3' = Some h4"
    using r(5) first unfolding h3'_def by (auto simp: HP_NewHook_def RecordAlloc_def option_monad)
  then obtain sf where h4: "h4 = h3'\<lparr>done_first_alloc := True, hp_stack_calls := Suc (hp_stack_calls h3'), strip_frames := sf\<rparr>"
    by (auto simp: RecordAlloc_first_def option_monad Let_def hp_GetStackTrace_def)
  have t0: "table_set (\<lambda>_. []) = {}" by (simp add: table_set_def)
  have "hpm_ok h' U3" by (rule hpm_ok_cong [OF e3(2)]) (simp_all add: r(6) h4 h3'_def)
  then have "hp_tab h' (\<lambda>_. []) U3"
    unfolding hp_tab_def t0
    by (simp add: r(6) h4 h3'_def h3 e3 chains_ok_def t0 counts_ok_def zero_bucket_def)
  moreover have "is_on h'" "done_first_alloc h'" "\<not> self_disable h'" by (simp_all add: r(6) h4 h3'_def h3)
  moreover have "hp_ignored h' = hp_ignored h" using f by (simp add: r(6) h4 h3'_def HPM_Init_def)
  moreover have "hp_live h' = (\<lambda>_. None)" by (simp add: hp_live_def r(6) h4 h3'_def e3 fun_eq_iff)
  ultimately show ?thesis unfolding hp_inv_def by blast
qed

end
