(* ===== verification/HeapProfilerProps.thy ===== *)
theory HeapProfilerProps
  imports HeapProfilerSpec Kernel
begin

text \<open>
  Properties of the heap profiler over whole runs: the profile is exact at every moment, writing it out
  neither fails nor changes it, and the private memory is never handed out twice.
\<close>

section \<open>Writing the profile\<close>

lemma print_at_bound: "print_at n buf s = Some buf' \<Longrightarrow> int (length buf') < n"
  by (auto simp: print_at_def split: if_splits)

lemma print_frames_bound: "print_frames n ps buf = (ok, buf') \<Longrightarrow> int (length buf) < n \<Longrightarrow> int (length buf') < n"
proof (induction ps arbitrary: buf)
  case (Cons p ps)
  then show ?case using print_at_bound [of n buf "frame_text p"] by (auto split: option.splits)
qed simp

lemma UnparseBucket_spec:
  assumes "UnparseBucket n b (buf, h) = (buf', h')" and "int (length buf) < n"
  shows "int (length buf') < n \<and> h' = h\<lparr>profile_total := add_bucket b (profile_total h)\<rparr>"
  using assms print_at_bound print_frames_bound
  by (auto simp: UnparseBucket_def Let_def split: if_splits option.splits prod.splits bool.splits)

lemma UnparseBuckets_spec:
  assumes "fold (\<lambda>b (buf, h). UnparseBucket n (buckets h b) (buf, h)) bs (buf, h) = (buf', h')" and "int (length buf) < n"
  shows "int (length buf') < n \<and> h' = h\<lparr>profile_total := fold (\<lambda>b. add_bucket (buckets h b)) bs (profile_total h)\<rparr>"
  using assms
proof (induction bs arbitrary: buf h)
  case (Cons b bs)
  obtain buf1 h1 where u: "UnparseBucket n (buckets h b) (buf, h) = (buf1, h1)" by fastforce
  note s = UnparseBucket_spec [OF u Cons.prems(2)]
  have "fold (\<lambda>b (buf, h). UnparseBucket n (buckets h b) (buf, h)) bs (buf1, h1) = (buf', h')" using Cons.prems(1) u by simp
  from Cons.IH [OF this] s show ?case by simp
qed simp

lemma fold_add_bucket:
  "b_allocs (fold (\<lambda>b. add_bucket (f b)) bs p) = b_allocs p + (\<Sum>b\<leftarrow>bs. b_allocs (f b)) \<and>
   b_frees (fold (\<lambda>b. add_bucket (f b)) bs p) = b_frees p + (\<Sum>b\<leftarrow>bs. b_frees (f b)) \<and>
   b_alloc_size (fold (\<lambda>b. add_bucket (f b)) bs p) = b_alloc_size p + (\<Sum>b\<leftarrow>bs. b_alloc_size (f b)) \<and>
   b_free_size (fold (\<lambda>b. add_bucket (f b)) bs p) = b_free_size p + (\<Sum>b\<leftarrow>bs. b_free_size (f b))"
  by (induction bs arbitrary: p) (simp_all add: add_bucket_def algebra_simps)

lemma table_buckets_enum:
  assumes C: "chains_ok tbl bs"
  shows "distinct (table_buckets tbl) \<and> set (table_buckets tbl) = table_set tbl"
proof
  have "distinct (concat (map tbl ns))" if "distinct ns" for ns
    using that
  proof (induction ns)
    case (Cons n ns)
    have "set (tbl n) \<inter> set (concat (map tbl ns)) = {}"
    proof (rule ccontr)
      assume "\<not> ?thesis"
      then obtain b k where k: "b \<in> set (tbl n)" "b \<in> set (tbl k)" "k \<in> set ns" by auto
      have "k = n" using C k(1,2) unfolding chains_ok_def by metis
      then show False using k(3) Cons.prems by simp
    qed
    then show ?case using Cons C by (simp add: chains_ok_def)
  qed simp
  then show "distinct (table_buckets tbl)" by (simp add: table_buckets_def)
  show "set (table_buckets tbl) = table_set tbl" by (auto simp: table_buckets_def table_set_def)
qed

text \<open>The counters of a bucket, without its stack.\<close>

definition counters :: "bucket \<Rightarrow> u32 \<times> u32 \<times> u64 \<times> u64" where
  "counters b = (b_allocs b, b_frees b, b_alloc_size b, b_free_size b)"

lemma GetHeapProfile_inv:
  assumes I: "hp_inv h" and ig: "hp_ignored h = None"
  shows "\<exists>txt p. GetHeapProfile h = Some (txt, h\<lparr>profile_total := p\<rparr>) \<and> int (length txt) < kProfileSize - 1 \<and>
    counters p = counters (total h)"
proof -
  obtain tbl Used where T: "hp_tab h tbl Used" and on: "is_on h" using I by (auto simp: hp_inv_def)
  have C: "chains_ok tbl (buckets h)" "bucket_table h = Some tbl" "num_buckets h = int (card (table_set tbl))"
    and cnt: "counts_ok (buckets h) (table_set tbl) (total h) (AM_Find (allocation h))"
    using T by (simp_all add: hp_tab_def)
  note tb = table_buckets_enum [OF C(1)]
  let ?bs = "by_allocated_space (buckets h) (table_buckets tbl)"
  have bs: "distinct ?bs" "set ?bs = table_set tbl" using tb by (simp_all add: by_allocated_space_def)
  have len: "int (length (table_buckets tbl)) = num_buckets h" using tb C(3) by (metis distinct_card)
  obtain txt1 h1 where u1: "UnparseBucket (kProfileSize - 1) (total h) (''heap profile: '', h) = (txt1, h1)" by fastforce
  have "int (length (''heap profile: '' :: string)) < kProfileSize - 1" by (simp add: kProfileSize_def)
  note s1 = UnparseBucket_spec [OF u1 this]
  obtain txt2 h2 where u2: "fold (\<lambda>b (txt, h). UnparseBucket (kProfileSize - 1) (buckets h b) (txt, h)) ?bs
    (txt1, h1\<lparr>profile_total := zero_bucket\<rparr>) = (txt2, h2)" by fastforce
  note s2 = UnparseBuckets_spec [OF u2]
  let ?p = "fold (\<lambda>b. add_bucket (buckets h b)) ?bs zero_bucket"
  have h2: "h2 = h\<lparr>profile_total := ?p\<rparr>" "int (length txt2) < kProfileSize - 1" using s1 s2 by simp_all
  have g: "GetHeapProfile h = Some (txt2, h2)"
    using on C(2) len u1 u2 s1 ig h2 by (simp add: GetHeapProfile_def Let_def adjust_ignored_def)
  have sums: "(\<Sum>b\<leftarrow>?bs. f (buckets h b)) = (\<Sum>b\<in>table_set tbl. f (buckets h b))" for f :: "bucket \<Rightarrow> 'b::len word"
    using sum_list_distinct_conv_sum_set [OF bs(1), of "\<lambda>b. f (buckets h b)"] bs(2) by simp
  have "counters ?p = counters (total h)"
    using cnt fold_add_bucket [of "buckets h" ?bs zero_bucket] sums [of b_allocs] sums [of b_frees] sums [of b_alloc_size] sums [of b_free_size]
    by (simp add: counters_def counts_ok_def zero_bucket_def)
  then show ?thesis using g h2 by blast
qed

section \<open>Runs\<close>

text \<open>
  A run of the profiler with the live allocations \<open>L\<close> of the program: address to stack and size. It begins with
  \<open>EarlyStartLocked\<close>, with which both starts of a profiler that is off begin; what follows it in \<open>StartLocked\<close> and
  \<open>StartForLeaks\<close> is what these do to one that is on. The allocator does not hand out an address that is live.
  Dumps begin, write and end at any time. The run ends with the stop that turns the profiler off. The length of a
  prefix is an \<open>int\<close> of the code.
\<close>

inductive hp_reach :: "hp_env \<Rightarrow> heap_profiler \<Rightarrow> (u64 \<Rightarrow> (u64 list \<times> u64) option) \<Rightarrow> bool" for env where
  hp_start: "hp_ignored h0 = None \<Longrightarrow> EarlyStartLocked env me h0 = Some h \<Longrightarrow> hp_reach env h (\<lambda>_. None)"
| hp_alloc: "hp_reach env h L \<Longrightarrow> L p = None \<Longrightarrow> RecordAlloc env me p n skip h = Some (r, h') \<Longrightarrow>
    hp_reach env h' (L(p \<mapsto> (alloc_key env skip h, n)))"
| hp_free: "hp_reach env h L \<Longrightarrow> RecordFree me p h = Some h' \<Longrightarrow> hp_reach env h' (L(p := None))"
| hp_dump_begin: "hp_reach env h L \<Longrightarrow> DumpLocked_begin f h = Some (g, h') \<Longrightarrow> hp_reach env h' L"
| hp_dump_write: "hp_reach env h L \<Longrightarrow> DumpLocked_write env f h = Some h' \<Longrightarrow> hp_reach env h' L"
| hp_dump_end: "hp_reach env h L \<Longrightarrow> hp_reach env (DumpLocked_end h) L"
| hp_prefix: "hp_reach env h L \<Longrightarrow> length prefix < 2 ^ 31 \<Longrightarrow> StartLocked env me prefix h = Some h' \<Longrightarrow> hp_reach env h' L"
| hp_leaks: "hp_reach env h L \<Longrightarrow> StartForLeaks env me h = Some h' \<Longrightarrow> hp_reach env h' L"
| hp_stop: "hp_reach env h L \<Longrightarrow> StopLocked env h = Some h' \<Longrightarrow> is_on h' \<Longrightarrow> hp_reach env h' L"
| hp_stop_leaks: "hp_reach env h L \<Longrightarrow> StopForLeaks env h = Some h' \<Longrightarrow> is_on h' \<Longrightarrow> hp_reach env h' L"

text \<open>What a dump may change.\<close>

definition dump_same :: "heap_profiler \<Rightarrow> heap_profiler \<Rightarrow> bool" where
  "dump_same h h' \<longleftrightarrow> bucket_table h' = bucket_table h \<and> buckets h' = buckets h \<and> allocation h' = allocation h \<and>
     total h' = total h \<and> num_buckets h' = num_buckets h \<and> same_switches h h' \<and> hp_sys h' = hp_sys h \<and>
     current h' = current h \<and> pos h' = pos h \<and> hp_ignored h' = hp_ignored h \<and> strip_frames h' = strip_frames h"

lemma hp_inv_dump_same:
  assumes "hp_inv h" and "dump_same h h'"
  shows "hp_inv h' \<and> hp_live h' = hp_live h"
proof -
  obtain tbl Used where T: "hp_tab h tbl Used" using assms(1) by (auto simp: hp_inv_def)
  have "hp_tab h' tbl Used" by (rule hp_tab_cong [OF T]) (use assms(2) in \<open>simp_all add: dump_same_def\<close>)
  moreover have "hp_live h' = hp_live h" using assms(2) by (simp add: dump_same_def hp_live_def fun_eq_iff)
  ultimately show ?thesis using assms by (auto simp: hp_inv_def dump_same_def same_switches_def)
qed

lemma dump_begin_same: "DumpLocked_begin f h = Some (g, h') \<Longrightarrow> dump_same h h'"
  by (auto simp: DumpLocked_begin_def option_monad Let_def dump_same_def same_switches_def split: if_splits option.splits)

lemma dump_write_same:
  assumes "hp_inv h" and "hp_ignored h = None" and "DumpLocked_write env f h = Some h'"
  shows "dump_same h h'"
  using GetHeapProfile_inv [OF assms(1,2)] assms(3)
  by (auto simp: DumpLocked_write_def option_monad dump_same_def same_switches_def split: if_splits)

text \<open>Starts and stops of a profiler that is on and stays on: private memory is used, and four fields change.\<close>

definition control_same :: "(nat \<times> nat) set \<Rightarrow> heap_profiler \<Rightarrow> heap_profiler \<Rightarrow> bool" where
  "control_same Used h h' \<longleftrightarrow> bucket_table h' = bucket_table h \<and> buckets h' = buckets h \<and> allocation h' = allocation h \<and>
     total h' = total h \<and> num_buckets h' = num_buckets h \<and> same_switches h h' \<and> strip_frames h' = strip_frames h \<and>
     (\<exists>Used'. Used \<subseteq> Used' \<and> hpm_ok h' Used')"

lemma control_same_ext:
  assumes "hpm_ext h Used h1"
    and "bucket_table h' = bucket_table h1 \<and> buckets h' = buckets h1 \<and> allocation h' = allocation h1 \<and> total h' = total h1 \<and>
      num_buckets h' = num_buckets h1 \<and> same_switches h1 h' \<and> strip_frames h' = strip_frames h1 \<and>
      hp_sys h' = hp_sys h1 \<and> current h' = current h1 \<and> pos h' = pos h1"
  shows "control_same Used h h'"
proof -
  obtain U where U: "hpm_same h h1" "Used \<subseteq> U" "hpm_ok h1 U" using assms(1) by (auto simp: hpm_ext_def)
  have "hpm_ok h' U" by (rule hpm_ok_cong [OF U(3)]) (use assms(2) in simp_all)
  then show ?thesis using U(2) hpm_same_fields [OF U(1)] assms(2) by (auto simp: control_same_def same_switches_def)
qed

lemma StartLocked_on:
  assumes K: "kernel_ok (hpe_sys env)" and ok: "hpm_ok h Used" and on: "is_on h" and len: "length prefix < 2 ^ 31"
    and run: "StartLocked env me prefix h = Some h'"
  shows "control_same Used h h'"
proof (cases "filename_prefix h")
  case (Some x)
  then show ?thesis using run by (intro control_same_ext [OF hpm_ext_refl [OF ok]]) (simp add: StartLocked_def same_switches_def)
next
  case None
  obtain p h1 where r: "HPM_Alloc (hpe_sys env) (word_of_nat (length prefix + 1)) h = Some (p, h1)"
    "h' = h1\<lparr>filename_prefix := Some prefix\<rparr>"
    using run on None by (auto simp: StartLocked_def option_monad)
  have "unat (word_of_nat (length prefix + 1) :: u64) \<le> length prefix + 1" by (simp add: unsigned_of_nat take_bit_eq_mod del: of_nat_Suc)
  then have n: "unat (word_of_nat (length prefix + 1) :: u64) \<le> 2 ^ 40" by (rule order_trans) (use len in simp)
  show ?thesis by (rule control_same_ext [OF HPM_Alloc_ext [OF K ok n r(1)]]) (simp add: r(2) same_switches_def)
qed

lemma StartForLeaks_on:
  assumes K: "kernel_ok (hpe_sys env)" and ok: "hpm_ok h Used" and on: "is_on h" and run: "StartForLeaks env me h = Some h'"
  shows "control_same Used h h'"
proof -
  let ?h0 = "h\<lparr>need_for_leaks := True, self_disabled := zero_bucket\<rparr>"
  obtain p h1 m h2 where r: "HPM_Alloc (hpe_sys env) sizeof_AllocationMap ?h0 = Some (p, h1)"
    "AM_init (HP_Malloc (hpe_sys env)) h1 = Some (m, h2)" "h' = h2\<lparr>self_disabled_allocation := m\<rparr>"
    using run on by (auto simp: StartForLeaks_def option_monad)
  have ok0: "hpm_ok ?h0 Used" by (rule hpm_ok_cong [OF ok]) simp_all
  have n: "unat sizeof_AllocationMap \<le> 2 ^ 40" by (simp add: sizeof_AllocationMap_def)
  obtain U1 where e1: "hpm_same ?h0 h1" "Used \<subseteq> U1" "hpm_ok h1 U1" using HPM_Alloc_ext [OF K ok0 n r(1)] by (auto simp: hpm_ext_def)
  obtain U2 where e2: "hpm_same h1 h2" "U1 \<subseteq> U2" "hpm_ok h2 U2" using AM_init_ext [OF K e1(3) r(2)] by (auto simp: hpm_ext_def)
  have "hpm_ext ?h0 Used h2" using e1 e2 by (auto simp: hpm_ext_def intro: hpm_same_trans)
  then have "control_same Used ?h0 h'" by (rule control_same_ext) (simp add: r(3) same_switches_def)
  then show ?thesis by (simp add: control_same_def same_switches_def)
qed

lemma Clear_blocks_prefix: "Clear_blocks cfg is h = Some h' \<Longrightarrow> filename_prefix h' = filename_prefix h"
  by (induction "is" arbitrary: h)
    (fastforce simp: Let_def option_monad hp_munmap_def munmap_hooked_def InvokeMunmapHook_def split: prod.splits)+

text \<open>A stop leaves a profiler on that is also needed for the other use.\<close>

lemma StopLocked_on:
  assumes "is_on h" and "StopLocked env h = Some h'"
  shows "is_on h' = need_for_leaks h" "is_on h' \<Longrightarrow> h' = h\<lparr>filename_prefix := None\<rparr>" "filename_prefix h' = None"
  using assms by (auto simp: StopLocked_def Let_def option_monad HPM_Clear_def Hk_SetNewHook_def Hk_SetDeleteHook_def SetMunmapHook_def
    split: if_splits dest!: Clear_blocks_prefix)

lemma StopForLeaks_on:
  assumes "is_on h" and "StopForLeaks env h = Some h'"
  shows "is_on h' = (filename_prefix h \<noteq> None)" "is_on h' \<Longrightarrow> h' = h\<lparr>need_for_leaks := False\<rparr>" "\<not> is_on h' \<Longrightarrow> filename_prefix h' = None"
  using assms StopLocked_on [of "h\<lparr>need_for_leaks := False\<rparr>" env h'] by (auto simp: StopForLeaks_def Let_def split: if_splits)

lemma hp_inv_control_same:
  assumes "hp_inv h" and C: "\<And>Used. hpm_ok h Used \<Longrightarrow> control_same Used h h'"
  shows "hp_inv h' \<and> hp_live h' = hp_live h \<and> hp_ignored h' = hp_ignored h \<and> strip_frames h' = strip_frames h"
proof -
  obtain tbl Used where T: "hp_tab h tbl Used" using assms(1) by (auto simp: hp_inv_def)
  then have c: "control_same Used h h'" by (intro C) (simp add: hp_tab_def)
  then obtain Used' where u: "Used \<subseteq> Used'" "hpm_ok h' Used'" by (auto simp: control_same_def)
  have "hp_tab h' tbl Used'" using T c u by (auto simp: hp_tab_def control_same_def)
  moreover have "hp_live h' = hp_live h" using c by (simp add: control_same_def hp_live_def fun_eq_iff)
  ultimately show ?thesis using assms(1) c by (auto simp: hp_inv_def control_same_def same_switches_def)
qed

lemma control_step:
  assumes K: "kernel_ok (hpe_sys env)" and I: "hp_inv h"
    and step: "length prefix < 2 ^ 31 \<and> StartLocked env me prefix h = Some h' \<or> StartForLeaks env me h = Some h' \<or>
      is_on h' \<and> (StopLocked env h = Some h' \<or> StopForLeaks env h = Some h')"
  shows "hp_inv h' \<and> hp_live h' = hp_live h \<and> hp_ignored h' = hp_ignored h \<and> strip_frames h' = strip_frames h"
proof (rule hp_inv_control_same [OF I])
  fix Used assume ok: "hpm_ok h Used"
  have on: "is_on h" using I by (simp add: hp_inv_def)
  consider "length prefix < 2 ^ 31" "StartLocked env me prefix h = Some h'" | "StartForLeaks env me h = Some h'"
    | "is_on h'" "StopLocked env h = Some h'" | "is_on h'" "StopForLeaks env h = Some h'" using step by blast
  then show "control_same Used h h'"
  proof cases
    case 3
    show ?thesis by (rule control_same_ext [OF hpm_ext_refl [OF ok]]) (simp add: StopLocked_on(2) [OF on 3(2,1)] same_switches_def)
  next
    case 4
    show ?thesis by (rule control_same_ext [OF hpm_ext_refl [OF ok]]) (simp add: StopForLeaks_on(2) [OF on 4(2,1)] same_switches_def)
  qed (rule StartLocked_on [OF K ok on], assumption+, rule StartForLeaks_on [OF K ok on], assumption)
qed

lemma hp_reach_inv:
  assumes "kernel_ok (hpe_sys env)" and "hpe_first_alloc env \<noteq> 0" and "hp_reach env h L"
  shows "hp_inv h \<and> hp_live h = L \<and> hp_ignored h = None"
  using assms(3)
proof (induction rule: hp_reach.induct)
  case (hp_start h0 me h)
  then show ?case using EarlyStart_ok [OF assms(1,2) hp_start(2)] by simp
next
  case (hp_alloc h L p me n skip r h')
  then have "hp_live h p = None" by simp
  with hp_alloc RecordAlloc_ok [OF assms(1) _ this hp_alloc(3)] show ?case by simp
next
  case (hp_free h L me p h')
  then show ?case using RecordFree_ok [OF _ hp_free(2)] by simp
next
  case (hp_dump_begin h L f g h')
  note d = dump_begin_same [OF hp_dump_begin(2)]
  then show ?case using hp_inv_dump_same [OF _ d] hp_dump_begin by (simp add: dump_same_def)
next
  case (hp_dump_write h L f h')
  note d = dump_write_same [OF _ _ hp_dump_write(2)]
  then show ?case using hp_inv_dump_same [OF _ d] hp_dump_write by (simp add: dump_same_def)
next
  case (hp_dump_end h L)
  have "dump_same h (DumpLocked_end h)" by (simp add: dump_same_def same_switches_def DumpLocked_end_def)
  then show ?case using hp_inv_dump_same [of h "DumpLocked_end h"] hp_dump_end by (simp add: DumpLocked_end_def)
next
  case (hp_prefix h L prefix me h')
  then show ?case using control_step [OF assms(1)] by metis
next
  case (hp_leaks h L me h')
  then show ?case using control_step [OF assms(1)] by metis
next
  case (hp_stop h L h')
  then show ?case using control_step [OF assms(1)] by metis
next
  case (hp_stop_leaks h L h')
  then show ?case using control_step [OF assms(1)] by metis
qed

section \<open>Exactness\<close>

text \<open>What the profile says of a call stack: allocations and bytes in use.\<close>

definition stack_counts :: "heap_profiler \<Rightarrow> u64 list \<Rightarrow> u32 \<times> u64" where
  "stack_counts h key = (case bucket_table h of None \<Rightarrow> (0, 0) | Some tbl \<Rightarrow>
     (case find_bucket (buckets h) (bucket_hash key) key (tbl (bucket_slot (bucket_hash key))) of
        None \<Rightarrow> (0, 0)
      | Some b \<Rightarrow> (b_allocs (buckets h b) - b_frees (buckets h b), b_alloc_size (buckets h b) - b_free_size (buckets h b))))"

text \<open>What is true of it, from the live allocations.\<close>

definition live_counts :: "(u64 \<Rightarrow> (u64 list \<times> u64) option) \<Rightarrow> (u64 list \<Rightarrow> bool) \<Rightarrow> u32 \<times> u64" where
  "live_counts L P = (let S = {p. \<exists>key n. L p = Some (key, n) \<and> P key}
     in (word_of_nat (card S), \<Sum>p\<in>S. snd (the (L p))))"

lemma stack_counts_live:
  assumes "hp_inv h"
  shows "stack_counts h key = live_counts (hp_live h) (\<lambda>k. k = key)"
proof -
  obtain tbl Used where T: "hp_tab h tbl Used" using assms by (auto simp: hp_inv_def)
  let ?a = "AM_Find (allocation h)"
  have C: "chains_ok tbl (buckets h)" "bucket_table h = Some tbl"
    and cnt: "counts_ok (buckets h) (table_set tbl) (total h) ?a" using T by (simp_all add: hp_tab_def)
  define S where "S = {p. \<exists>n. hp_live h p = Some (key, n)}"
  have lc: "live_counts (hp_live h) (\<lambda>k. k = key) = (word_of_nat (card S), \<Sum>p\<in>S. snd (the (hp_live h p)))"
    by (simp add: live_counts_def Let_def S_def)
  have mem: "c \<in> table_set tbl" if "?a p = Some (c, n)" for p c n using cnt that by (auto simp: counts_ok_def)
  note F = find_bucket_iff [OF C(1), of key]
  show ?thesis
  proof (cases "find_bucket (buckets h) (bucket_hash key) key (tbl (bucket_slot (bucket_hash key)))")
    case None
    then have "S = {}" using F mem by (auto simp: hp_live_def S_def)
    then show ?thesis using None C(2) unfolding lc by (simp add: stack_counts_def)
  next
    case (Some b)
    then have b: "b \<in> table_set tbl" "b_stack (buckets h b) = key" using F by auto
    have "c = b" if "?a p = Some (c, n)" "b_stack (buckets h c) = key" for p c n
      using mem [OF that(1)] that(2) b C(1) unfolding chains_ok_def inj_on_def by metis
    then have S: "S = live_of ?a b" using b(2) by (auto simp: hp_live_def live_of_def S_def)
    have "(\<Sum>p\<in>live_of ?a b. snd (the (hp_live h p))) = bytes_of_live ?a b"
      unfolding bytes_of_live_def by (rule sum.cong) (auto simp: live_of_def hp_live_def)
    then show ?thesis using Some C(2) cnt b(1) unfolding lc S by (simp add: stack_counts_def counts_ok_def)
  qed
qed

lemma total_live:
  assumes "hp_inv h"
  shows "(b_allocs (total h) - b_frees (total h), b_alloc_size (total h) - b_free_size (total h)) = live_counts (hp_live h) (\<lambda>_. True)"
proof -
  obtain tbl Used where T: "hp_tab h tbl Used" using assms by (auto simp: hp_inv_def)
  let ?a = "AM_Find (allocation h)" and ?B = "table_set tbl"
  have cnt: "counts_ok (buckets h) ?B (total h) ?a" using T by (simp add: hp_tab_def)
  have fin: "finite (dom ?a)" using cnt by (simp add: counts_ok_def)
  have dom: "dom ?a = (\<Union>b\<in>?B. live_of ?a b)" using cnt by (force simp: counts_ok_def live_of_def)
  have dis: "\<forall>b\<in>?B. \<forall>c\<in>?B. b \<noteq> c \<longrightarrow> live_of ?a b \<inter> live_of ?a c = {}" by (auto simp: live_of_def)
  have fl: "\<forall>b\<in>?B. finite (live_of ?a b)" using live_of_finite [OF fin] by blast
  have S: "{p. \<exists>key n. hp_live h p = Some (key, n)} = dom ?a" by (auto simp: hp_live_def)
  have "card (dom ?a) = (\<Sum>b\<in>?B. card (live_of ?a b))"
    unfolding dom by (rule card_UN_disjoint) (use fl dis in auto)
  then have "(word_of_nat (card (dom ?a)) :: u32) = (\<Sum>b\<in>?B. word_of_nat (card (live_of ?a b)))" by simp
  also have "\<dots> = (\<Sum>b\<in>?B. b_allocs (buckets h b) - b_frees (buckets h b))"
    by (rule sum.cong) (use cnt in \<open>simp_all add: counts_ok_def\<close>)
  also have "\<dots> = b_allocs (total h) - b_frees (total h)" unfolding sum_subtractf using cnt by (simp add: counts_ok_def)
  finally have c: "(word_of_nat (card (dom ?a)) :: u32) = b_allocs (total h) - b_frees (total h)" .
  have "(\<Sum>p\<in>dom ?a. snd (the (hp_live h p))) = (\<Sum>p\<in>dom ?a. snd (the (?a p)))"
    by (rule sum.cong) (auto simp: hp_live_def)
  also have "\<dots> = (\<Sum>b\<in>?B. bytes_of_live ?a b)"
    unfolding bytes_of_live_def dom by (rule sum.UNION_disjoint) (use fl dis in auto)
  also have "\<dots> = (\<Sum>b\<in>?B. b_alloc_size (buckets h b) - b_free_size (buckets h b))"
    by (rule sum.cong) (use cnt in \<open>simp_all add: counts_ok_def\<close>)
  also have "\<dots> = b_alloc_size (total h) - b_free_size (total h)" unfolding sum_subtractf using cnt by (simp add: counts_ok_def)
  finally show ?thesis using c by (simp add: live_counts_def Let_def S)
qed


lemma AllocBlock_strip: "AllocBlock cfg sz h = Some (p, h') \<Longrightarrow> strip_frames h' = strip_frames h"
  by (auto simp: AllocBlock_def option_monad Let_def SetMmapHook_def hp_mmap_def mmap_x86_64_def
        mmap64_x86_64_def hp_kern_def InvokeMmapHook_def split: prod.splits)

lemma HPM_Alloc_strip: "HPM_Alloc cfg n h = Some (p, h') \<Longrightarrow> strip_frames h' = strip_frames h"
  by (auto simp: HPM_Alloc_def option_monad split: if_splits dest: AllocBlock_strip)

lemma AM_init_strip: "AM_init (HP_Malloc cfg) h = Some (m, h') \<Longrightarrow> strip_frames h' = strip_frames h"
  by (auto simp: AM_init_def AM_New_def HP_Malloc_def Let_def split: prod.splits if_splits option.splits dest: HPM_Alloc_strip)

lemma AM_Insert_strip:
  assumes "AM_Insert (HP_Malloc cfg) sizeof_AllocEntry p v (m, h) = Some (m', h')"
  shows "strip_frames h' = strip_frames h"
  by (rule AM_Insert_keeps [OF assms, where Q = "\<lambda>s. strip_frames s = strip_frames h"])
    (auto simp: HP_Malloc_def sizeof_AllocEntry_def split: option.splits dest: HPM_Alloc_strip)

lemma EarlyStart_needs_fresh:
  assumes "strip_frames h \<noteq> 0" and "hpe_first_alloc env \<noteq> 0"
  shows "EarlyStartLocked env me h = None"
proof (rule ccontr)
  assume "EarlyStartLocked env me h \<noteq> None"
  then obtain p1 h1 p2 h2 m h3 x h4 where r:
    "HPM_Alloc (hpe_sys env) (word_of_nat kHashTableSize * 8) ((HPM_Init h)\<lparr>is_on := True\<rparr>) = Some (p1, h1)"
    "HPM_Alloc (hpe_sys env) sizeof_AllocationMap (h1\<lparr>bucket_table := Some (\<lambda>_. [])\<rparr>) = Some (p2, h2)"
    "AM_init (HP_Malloc (hpe_sys env)) h2 = Some (m, h3)"
    "HP_NewHook env me (hpe_first_alloc env) kFirstAllocationNumBytes
       (h3\<lparr>allocation := m, total := zero_bucket, num_buckets := 0, total_stack_depth := 0,
          last_dump := 0, hk_new := addr_NewHook env, hp_stack_calls := Suc (hp_stack_calls h3),
          reference_position := hpe_stack env (hp_stack_calls h3) 1 ! 0, done_first_alloc := False\<rparr>) = Some (x, h4)"
    by (auto simp: EarlyStartLocked_def option_monad Let_def HPM_Init_def Hk_SetNewHook_def Hk_SetDeleteHook_def hp_GetStackTrace_def)
  have "strip_frames h3 = strip_frames h"
    using HPM_Alloc_strip [OF r(1)] HPM_Alloc_strip [OF r(2)] AM_init_strip [OF r(3)] by (simp add: HPM_Init_def)
  then show False using r(4) assms by (auto simp: HP_NewHook_def RecordAlloc_def RecordAlloc_first_def option_monad)
qed

lemma EarlyStart_strip:
  assumes "hpe_first_alloc env \<noteq> 0" and "EarlyStartLocked env me h = Some h'"
  shows "strip_frames h' \<noteq> 0"
proof -
  obtain h1 x h2 where r: "HP_NewHook env me (hpe_first_alloc env) kFirstAllocationNumBytes h1 = Some (x, h2)"
    "\<not> done_first_alloc h1" "h' = h2\<lparr>hk_delete := addr_DeleteHook env\<rparr>"
    using assms(2) by (auto simp: EarlyStartLocked_def option_monad Let_def Hk_SetNewHook_def Hk_SetDeleteHook_def hp_GetStackTrace_def)
  then show ?thesis using assms(1) by (auto simp: HP_NewHook_def RecordAlloc_def RecordAlloc_first_def option_monad Let_def hp_GetStackTrace_def)
qed

lemma GetBucket_key_strip: "GetBucket_key env key h = Some (b, h') \<Longrightarrow> strip_frames h' = strip_frames h"
  by (auto simp: GetBucket_key_def Let_def option_monad split: option.splits dest!: HPM_Alloc_strip)

lemma RecordAlloc_strip:
  assumes "done_first_alloc h" and "RecordAlloc env me p n skip h = Some (r, h')"
  shows "strip_frames h' = strip_frames h"
proof -
  have d: "strip_frames k' = strip_frames k" if "dump_due env k = (r, k')" for r k k'
    using that by (auto simp: dump_due_def Let_def split: if_splits)
  show ?thesis
    using assms by (auto simp: RecordAlloc_def GetBucket_def hp_GetStackTrace_def Let_def option_monad allocation_Insert_def
      split: if_splits dest!: d GetBucket_key_strip AM_Insert_strip)
qed

lemma RecordFree_strip: "RecordFree me p h = Some h' \<Longrightarrow> strip_frames h' = strip_frames h"
  by (auto simp: RecordFree_def option_monad split: if_splits option.splits prod.splits)

lemma Clear_blocks_strip: "Clear_blocks cfg is h = Some h' \<Longrightarrow> strip_frames h' = strip_frames h"
  by (induction "is" arbitrary: h)
    (fastforce simp: Let_def option_monad hp_munmap_def munmap_hooked_def InvokeMunmapHook_def split: prod.splits)+

lemma StopLocked_strip: "StopLocked env h = Some h' \<Longrightarrow> strip_frames h' = strip_frames h"
  by (auto simp: StopLocked_def HPM_Clear_def Let_def option_monad Hk_SetNewHook_def Hk_SetDeleteHook_def SetMunmapHook_def
    split: if_splits dest!: Clear_blocks_strip)

lemma StopForLeaks_strip: "StopForLeaks env h = Some h' \<Longrightarrow> strip_frames h' = strip_frames h"
  by (auto simp: StopForLeaks_def Let_def split: if_splits dest!: StopLocked_strip)

lemma hp_reach_strip:
  assumes "kernel_ok (hpe_sys env)" and "hpe_first_alloc env \<noteq> 0" and "hp_reach env h L"
  shows "strip_frames h \<noteq> 0"
  using assms(3)
proof (induction rule: hp_reach.induct)
  case (hp_start h0 me h)
  then show ?case using EarlyStart_strip [OF assms(2)] by blast
next
  case (hp_alloc h L p me n skip r h')
  have "done_first_alloc h" using hp_reach_inv [OF assms(1,2) hp_alloc(1)] by (simp add: hp_inv_def)
  from RecordAlloc_strip [OF this hp_alloc(3)] hp_alloc show ?case by simp
next
  case (hp_free h L me p h')
  then show ?case using RecordFree_strip by simp
next
  case (hp_dump_begin h L f g h')
  then show ?case using dump_begin_same by (simp add: dump_same_def)
next
  case (hp_dump_write h L f h')
  then show ?case using hp_reach_inv [OF assms(1,2) hp_dump_write(1)] dump_write_same [OF _ _ hp_dump_write(2)] hp_dump_write by (simp add: dump_same_def)
next
  case (hp_prefix h L prefix me h')
  have "hp_inv h" using hp_reach_inv [OF assms(1,2) hp_prefix(1)] by blast
  with hp_prefix show ?case using control_step [OF assms(1)] by metis
next
  case (hp_leaks h L me h')
  have "hp_inv h" using hp_reach_inv [OF assms(1,2) hp_leaks(1)] by blast
  with hp_leaks show ?case using control_step [OF assms(1)] by metis
next
  case (hp_stop h L h')
  have "hp_inv h" using hp_reach_inv [OF assms(1,2) hp_stop(1)] by blast
  with hp_stop show ?case using control_step [OF assms(1)] by metis
next
  case (hp_stop_leaks h L h')
  have "hp_inv h" using hp_reach_inv [OF assms(1,2) hp_stop_leaks(1)] by blast
  with hp_stop_leaks show ?case using control_step [OF assms(1)] by metis
qed (simp add: DumpLocked_end_def)

section \<open>A concrete run\<close>

text \<open>A start, three allocations, one of them freed, and a stop.\<close>

definition demo_env :: hp_env where
  "demo_env = \<lparr>hpe_sys = page_kernel, hpe_stack = \<lambda>k skip. if skip = 1 then (if k = 0 then [30] else [10, 20, 30]) else [7, 8],
     hpe_first_alloc = 0x5000, FLAGS_allocation_interval = 1000, FLAGS_inuse_interval = 100, FLAGS_mmap_profile = False,
     FLAGS_cleanup_old_heap_profiles = False, hpe_fopen = \<lambda>_. True, hpe_maps = [], hpe_glob = \<lambda>_. [],
     addr_NewHook = 0x400, addr_DeleteHook = 0x410, addr_MmapHook = 0x420, addr_MunmapHook = 0x430\<rparr>"

definition demo_run :: "(heap_profiler \<times> heap_profiler) option" where
  "demo_run = do {
     h \<leftarrow> EarlyStartLocked demo_env 1 heap_profiler_static;
     (_, h) \<leftarrow> RecordAlloc demo_env 1 0x6000 40 1 h;
     (_, h) \<leftarrow> RecordAlloc demo_env 1 0x7000 24 1 h;
     (_, h) \<leftarrow> RecordAlloc demo_env 1 0x7F0000001000 16 1 h;
     h \<leftarrow> RecordFree 1 0x6000 h;
     h' \<leftarrow> StopLocked demo_env h;
     Some (h, h') }"

lemma demo_run_returns:
  "\<exists>h h' k. demo_run = Some (h, h') \<and> \<not> dumping h \<and> \<not> need_for_leaks h \<and> self_disabled h = zero_bucket \<and>
     (\<forall>b. b_stack (buckets h b) = [7, 8] \<longrightarrow> b_allocs (buckets h b) = 3 \<and> b_alloc_size (buckets h b) = 80) \<and>
     hk_new h \<noteq> 0 \<and> strip_frames h = 1 \<and> RecordAlloc demo_env 1 0x9000 2 1 h = Some (None, k) \<and> \<not> dumping k \<and> self_disabled k = zero_bucket \<and>
     (\<forall>b. b_stack (buckets k b) = [7, 8] \<longrightarrow> b_allocs (buckets k b) = 4 \<and> b_alloc_size (buckets k b) = 82)"
  by (simp add: demo_run_def EarlyStartLocked_def demo_env_def HPM_Init_def heap_profiler_static_def kHashTableSize_def
    page_kernel_def page_grant_def HPM_Alloc_def AllocBlock_def hp_mmap_def mmap_x86_64_def mmap64_x86_64_def hp_kern_def
    InvokeMmapHook_def SetMmapHook_def syscall_def Let_def ASSERT_def kBlockSize_def sys_init_def MAP_FAILED_def kMaxBlocks_def
    sizeof_AllocationMap_def AM_init_def AM_New_def HP_Malloc_def address_map_consts
    Hk_SetNewHook_def Hk_SetDeleteHook_def hp_GetStackTrace_def HP_NewHook_def RecordAlloc_def RecordAlloc_first_def
    strip_from_stack_def upt_rec kFirstAllocationNumBytes_def GetBucket_def GetBucket_key_def bucket_hash_def bucket_slot_def
    zero_bucket_def count_alloc_def allocation_Insert_def AM_Insert_def FindCluster_def HashInt_def set_block_def
    sizeof_AllocEntry_def sizeof_Bucket_def dump_due_def kMaxStackTrace_def RecordFree_def AM_FindAndRemove_def count_free_def
    StopLocked_def HPM_Clear_def SetMunmapHook_def cong: bind_weak_cong)

definition demo_live :: "u64 \<Rightarrow> (u64 list \<times> u64) option" where
  "demo_live = [0x7000 \<mapsto> ([7, 8], 24), 0x7F0000001000 \<mapsto> ([7, 8], 16)]"

text \<open>The state before the stop, and after one more allocation from the hook.\<close>

lemma demo_reach_more:
  "\<exists>h h' k. hp_reach demo_env h demo_live \<and> StopLocked demo_env h = Some h' \<and> \<not> dumping h \<and> \<not> need_for_leaks h \<and> self_disabled h = zero_bucket \<and>
     (\<forall>b. b_stack (buckets h b) = [7, 8] \<longrightarrow> b_allocs (buckets h b) = 3 \<and> b_alloc_size (buckets h b) = 80) \<and>
     hk_new h \<noteq> 0 \<and> HP_NewHook demo_env 1 0x9000 2 h = Some (None, k) \<and> hp_reach demo_env k (demo_live(0x9000 \<mapsto> ([7, 8], 2))) \<and>
     \<not> dumping k \<and> self_disabled k = zero_bucket \<and>
     (\<forall>b. b_stack (buckets k b) = [7, 8] \<longrightarrow> b_allocs (buckets k b) = 4 \<and> b_alloc_size (buckets k b) = 82)"
proof -
  obtain h1 r2 h2 r3 h3 r4 h4 h5 h6 k where r: "EarlyStartLocked demo_env 1 heap_profiler_static = Some h1"
    "RecordAlloc demo_env 1 0x6000 40 1 h1 = Some (r2, h2)" "RecordAlloc demo_env 1 0x7000 24 1 h2 = Some (r3, h3)"
    "RecordAlloc demo_env 1 0x7F0000001000 16 1 h3 = Some (r4, h4)"
    "RecordFree 1 0x6000 h4 = Some h5" "StopLocked demo_env h5 = Some h6" "\<not> dumping h5" "\<not> need_for_leaks h5" "self_disabled h5 = zero_bucket"
    "\<forall>b. b_stack (buckets h5 b) = [7, 8] \<longrightarrow> b_allocs (buckets h5 b) = 3 \<and> b_alloc_size (buckets h5 b) = 80"
    "hk_new h5 \<noteq> 0" "strip_frames h5 = 1" "RecordAlloc demo_env 1 0x9000 2 1 h5 = Some (None, k)" "\<not> dumping k" "self_disabled k = zero_bucket"
    "\<forall>b. b_stack (buckets k b) = [7, 8] \<longrightarrow> b_allocs (buckets k b) = 4 \<and> b_alloc_size (buckets k b) = 82"
    using demo_run_returns by (auto simp: demo_run_def option_monad)
  have k: "alloc_key demo_env 1 h = [7, 8]" for h by (simp add: alloc_key_def demo_env_def kMaxStackTrace_def)
  have "hp_reach demo_env h1 (\<lambda>_. None)" by (rule hp_start [OF _ r(1)]) (simp add: heap_profiler_static_def)
  from hp_alloc [OF this _ r(2)] have "hp_reach demo_env h2 [0x6000 \<mapsto> ([7, 8], 40)]" by (simp add: k)
  from hp_alloc [OF this _ r(3)] have "hp_reach demo_env h3 [0x6000 \<mapsto> ([7, 8], 40), 0x7000 \<mapsto> ([7, 8], 24)]" by (simp add: k)
  from hp_alloc [OF this _ r(4)]
  have "hp_reach demo_env h4 [0x6000 \<mapsto> ([7, 8], 40), 0x7000 \<mapsto> ([7, 8], 24), 0x7F0000001000 \<mapsto> ([7, 8], 16)]" by (simp add: k)
  from hp_free [OF this r(5)]
  have "hp_reach demo_env h5 ([0x6000 \<mapsto> ([7, 8], 40), 0x7000 \<mapsto> ([7, 8], 24), 0x7F0000001000 \<mapsto> ([7, 8], 16)](0x6000 := None))" .
  moreover have "[0x6000 \<mapsto> ([7, 8], 40), 0x7000 \<mapsto> ([7, 8], 24), 0x7F0000001000 \<mapsto> ([7, 8], 16)](0x6000 := None) = demo_live"
    by (auto simp: fun_eq_iff demo_live_def)
  ultimately have h5: "hp_reach demo_env h5 demo_live" by simp
  have "demo_live 0x9000 = None" by (simp add: demo_live_def)
  from hp_alloc [OF h5 this r(13)] have "hp_reach demo_env k (demo_live(0x9000 \<mapsto> ([7, 8], 2)))" by (simp add: k)
  moreover have "HP_NewHook demo_env 1 0x9000 2 h5 = Some (None, k)" using r(12,13) by (simp add: HP_NewHook_def)
  ultimately show ?thesis using h5 r(6-11,14-16) by metis
qed

lemma demo_reach:
  "\<exists>h h'. hp_reach demo_env h demo_live \<and> StopLocked demo_env h = Some h' \<and> \<not> dumping h \<and> \<not> need_for_leaks h \<and> self_disabled h = zero_bucket \<and>
     (\<forall>b. b_stack (buckets h b) = [7, 8] \<longrightarrow> b_allocs (buckets h b) = 3 \<and> b_alloc_size (buckets h b) = 80)"
  using demo_reach_more by blast

lemma demo_env_ok: "kernel_ok (hpe_sys demo_env) \<and> hpe_first_alloc demo_env \<noteq> 0"
  by (simp add: demo_env_def page_kernel_ok)

section \<open>Properties\<close>

text \<open>
  C13. The heap profile is exact. At every moment of a run, for every call stack, the profile shows as many
  allocations and bytes in use as the live allocations made with this stack have, and the totals are those
  of all live allocations.
\<close>

theorem heap_profile_exact:
  assumes "kernel_ok (hpe_sys env)" and "hpe_first_alloc env \<noteq> 0" and "hp_reach env h L"
  shows "hp_live h = L \<and> stack_counts h key = live_counts L (\<lambda>k. k = key) \<and>
    (b_allocs (total h) - b_frees (total h), b_alloc_size (total h) - b_free_size (total h)) = live_counts L (\<lambda>_. True)"
proof -
  have "hp_inv h" "hp_live h = L" using hp_reach_inv [OF assms] by auto
  then show ?thesis using stack_counts_live total_live by auto
qed

lemma heap_profile_exact_witness:
  "\<exists>h. hp_reach demo_env h demo_live \<and> stack_counts h [7, 8] = (2, 40) \<and> stack_counts h [7] = (0, 0)"
proof -
  obtain h where r: "hp_reach demo_env h demo_live" using demo_reach by blast
  have S: "{p. \<exists>key n. demo_live p = Some (key, n) \<and> key = [7, 8]} = {0x7000, 0x7F0000001000}" by (auto simp: demo_live_def split: if_splits)
  have "live_counts demo_live (\<lambda>k. k = [7, 8]) = (2, 40)"
    unfolding live_counts_def S by (simp add: demo_live_def)
  moreover have "live_counts demo_live (\<lambda>k. k = [7]) = (0, 0)" by (simp add: live_counts_def demo_live_def)
  ultimately show ?thesis using heap_profile_exact [OF _ _ r] demo_env_ok r by fastforce
qed

text \<open>
  C28. Writing the profile out never aborts at any moment of a run, its text always fits in the buffer with its
  terminating 0, the counters it adds up over the buckets are the totals kept while recording, and nothing else
  of the profiler changes.
\<close>

theorem GetHeapProfile_total:
  assumes "kernel_ok (hpe_sys env)" and "hpe_first_alloc env \<noteq> 0" and "hp_reach env h L"
  shows "\<exists>profile p. GetHeapProfile h = Some (profile, h\<lparr>profile_total := p\<rparr>) \<and>
    int (length profile) < kProfileSize - 1 \<and> counters p = counters (total h)"
  using hp_reach_inv [OF assms] GetHeapProfile_inv by blast

lemma GetHeapProfile_total_witness:
  "\<exists>h profile h'. hp_reach demo_env h demo_live \<and> GetHeapProfile h = Some (profile, h')"
  using demo_reach GetHeapProfile_total demo_env_ok by blast

text \<open>
  C35. A profiler that was turned off cannot be started again. Take any run, begun by a start whose first \<open>malloc\<close> got
  memory, and either stop. The profiler stays on exactly when it is still needed for the other use - leak checking for \<open>StopLocked\<close>, profiles for \<open>StopForLeaks\<close> -
  and then nothing recorded is lost. Otherwise it is off, and the next start, for profiles or for leaks, aborts if
  its first \<open>malloc\<close> gets memory, because \<open>strip_frames_\<close> keeps its value and the first recording checks that it is 0.
\<close>

theorem profiler_restart_aborts:
  assumes "kernel_ok (hpe_sys env)" and "hpe_first_alloc env \<noteq> 0" and "hp_reach env h L"
    and "StopLocked env h = Some h' \<or> StopForLeaks env h = Some h'" and "hpe_first_alloc env' \<noteq> 0"
  shows "(StopLocked env h = Some h' \<longrightarrow> is_on h' = need_for_leaks h) \<and>
    (StopForLeaks env h = Some h' \<longrightarrow> is_on h' = (filename_prefix h \<noteq> None)) \<and>
    (is_on h' \<longrightarrow> hp_live h' = L) \<and>
    (\<not> is_on h' \<longrightarrow> HeapProfilerStart env' me prefix h' = None \<and> StartForLeaks env' me h' = None)"
proof -
  have R: "hp_inv h" "hp_live h = L" using hp_reach_inv [OF assms(1-3)] by auto
  then have on: "is_on h" by (simp add: hp_inv_def)
  have "strip_frames h' = strip_frames h" using assms(4) StopLocked_strip StopForLeaks_strip by blast
  then have "EarlyStartLocked env' me h' = None" using EarlyStart_needs_fresh assms(5) hp_reach_strip [OF assms(1-3)] by metis
  moreover have "filename_prefix h' = None" if "\<not> is_on h'"
    using assms(4) StopLocked_on(3) [OF on] StopForLeaks_on(3) [OF on] that by blast
  ultimately have "\<not> is_on h' \<Longrightarrow> HeapProfilerStart env' me prefix h' = None \<and> StartForLeaks env' me h' = None"
    by (simp add: HeapProfilerStart_def StartLocked_def StartForLeaks_def)
  moreover have "is_on h' \<Longrightarrow> hp_live h' = L" using control_step [OF assms(1) R(1)] assms(4) R(2) by metis
  ultimately show ?thesis using StopLocked_on(1) [OF on] StopForLeaks_on(1) [OF on] by blast
qed

lemma profiler_restart_aborts_witness:
  "\<exists>h h'. hp_reach demo_env h demo_live \<and> StopLocked demo_env h = Some h' \<and> \<not> is_on h' \<and>
     HeapProfilerStart demo_env 1 ''p'' h' = None \<and> StartForLeaks demo_env 1 h' = None"
proof -
  obtain h h' where r: "hp_reach demo_env h demo_live" "StopLocked demo_env h = Some h'" "\<not> need_for_leaks h"
    using demo_reach by blast
  then show ?thesis
    using profiler_restart_aborts [OF _ _ r(1), of h' demo_env 1 "''p''"] demo_env_ok by blast
qed

end
