(* ===== verification/LiveObjects.thy ===== *)
theory LiveObjects
  imports HeapProfiler MThreads "HOL-Library.List_Lexorder"
begin

text \<open>
  The leak checker of \<open>heapcheck.cpp\<close>, first half: the objects it treats as live. It searches memory
  from its roots (thread stacks and registers, objects the program asked to ignore, allocations of
  disabled code, writable data of libraries) for words that point into heap objects.

  \<open>heap_check\<close> holds the statics of the file beside the profiler it works on. The memory that is searched
  stands still during a check: it is a function from addresses to 32-bit words, as the code reads it. An
  ordered \<open>map\<close> is its list of pairs in the order of the keys, a hash set the list of its elements. The
  memory of these containers, all freed again within a check, is left out, except for the objects the
  code itself tells the checker to ignore.
\<close>

section \<open>Containers and strings\<close>

fun omap_insert :: "'k::linorder \<Rightarrow> 'v \<Rightarrow> ('k \<times> 'v) list \<Rightarrow> bool \<times> ('k \<times> 'v) list" where
  "omap_insert k v [] = (True, [(k, v)])"
| "omap_insert k v ((k', v') # m) =
     (if k < k' then (True, (k, v) # (k', v') # m)
      else if k = k' then (False, (k', v') # m)
      else apsnd ((#) (k', v')) (omap_insert k v m))"

definition omap_upper_bound :: "'k::linorder \<Rightarrow> ('k \<times> 'v) list \<Rightarrow> ('k \<times> 'v) option" where
  "omap_upper_bound k m = find (\<lambda>(k', _). k < k') m"

definition omap_lower_bound :: "'k::linorder \<Rightarrow> ('k \<times> 'v) list \<Rightarrow> ('k \<times> 'v) option" where
  "omap_lower_bound k m = find (\<lambda>(k', _). k \<le> k') m"

definition omap_erase :: "'k \<Rightarrow> ('k \<times> 'v) list \<Rightarrow> ('k \<times> 'v) list" where
  "omap_erase k m = filter (\<lambda>(k', _). k' \<noteq> k) m"

fun strstr :: "string \<Rightarrow> string \<Rightarrow> string option" where
  "strstr [] needle = (if needle = [] then Some [] else None)"
| "strstr (c # s) needle = (if take (length needle) (c # s) = needle then Some (c # s) else strstr s needle)"

section \<open>State\<close>

datatype ObjectPlacement = MUST_BE_ON_HEAP | IGNORED_ON_HEAP | IN_GLOBAL_DATA | THREAD_STACK | THREAD_REGISTERS

record AllocObject =
  ao_ptr :: u64
  ao_size :: u64
  ao_place :: ObjectPlacement

record RangeValue =
  rv_start :: u64
  rv_max_depth :: int

record StackExtent =
  se_have :: bool
  se_top :: u64
  se_bottom :: u64

datatype thread_listing = CALLBACK_NOT_STARTED | CALLBACK_STARTED | CALLBACK_COMPLETED

record HeapLeakCheck =
  lc_name :: "(u64 \<times> string) option"
  start_inuse_bytes :: u64
  start_inuse_allocs :: u64
  has_checked :: bool
  inuse_bytes_increase :: u64
  inuse_allocs_increase :: u64

record heap_check =
  hck_prof :: heap_profiler
  FLAGS_report :: bool
  FLAGS_before_constructors :: bool
  FLAGS_after_destructors :: bool
  FLAGS_strict_check :: bool
  FLAGS_ignore_global_live :: bool
  FLAGS_ignore_thread_live :: bool
  flags_pprof :: "string option"
  hck_dump_directory :: "string option"
  disabled_regexp :: "string option"
  profile_prefix :: "string option"
  main_heap_checker :: "(u64 \<times> HeapLeakCheck) option"
  heap_checker_on :: bool
  heap_checker_pid :: int
  constructor_heap_profiling :: bool
  ignored_objects :: "(u64 \<times> u64) list option"
  live_objects :: "AllocObject list option"
  library_live_objects :: "(string \<times> AllocObject list) list option"
  disabled_addresses :: "u64 list option"
  disabled_ranges :: "(u64 \<times> RangeValue) list option"
  stack_ranges :: "(u64 \<times> u64) list option"
  live_objects_total :: u64
  live_bytes_total :: u64
  self_thread_pid :: int
  thread_listing_status :: thread_listing
  self_thread_stack :: StackExtent
  main_thread_pid :: int
  heap_cleanups :: "nat list option"
  hck_ran :: "nat list"
  hck_atexit :: nat
  hck_news :: nat
  hck_environ :: "(string \<times> string) list"
  hck_threads :: mthreads

text \<open>A line of \<open>/proc/self/maps\<close> as \<open>sscanf\<close> reads it, and what is read of an ELF file.\<close>

record proc_map =
  pm_start :: u64
  pm_end :: u64
  pm_permissions :: string
  pm_offset :: u64
  pm_inode :: u64
  pm_filename :: string

record elf_segment =
  p_type :: nat
  p_flags :: u32
  p_offset :: u64
  p_vaddr :: u64
  p_paddr :: u64
  p_memsz :: u64

record elf_file =
  elf_magic :: bool
  e_version :: nat
  e_type :: nat
  e_phentsize :: nat
  e_phdrs :: "elf_segment list option"
  e_closes :: bool

text \<open>A thread of the process as \<open>ptrace\<close> shows it: its registers, none when the call fails.\<close>

record thread_state =
  th_regs :: "u64 list"
  th_SP :: u64
  th_BP :: u64

text \<open>
  What \<open>ListAllProcessThreads\<close> does: it fails before its callback, the callback dies, or it runs the
  callback, whose result it returns or replaces by -1.
\<close>

datatype listing = Not_listed | Listing_died | Listed bool

record hc_env =
  hce_hp :: hp_env
  hce_malloc :: "nat \<Rightarrow> u64"
  hce_load32 :: "u64 \<Rightarrow> u32"
  hce_getpid :: int
  hce_self :: u64
  hce_maps :: "proc_map list option"
  hce_elf :: "string \<Rightarrow> elf_file option"
  hce_threads :: "(int \<times> thread_state option) list"
  hce_listing :: listing
  hce_registers_at :: u64
  hce_GetStackExtent :: "u64 \<Rightarrow> (u64 \<times> u64) option"
  hce_sizeof_map :: u64
  hce_sizeof_set :: u64
  hce_sizeof_string :: u64
  hce_pprof_runs :: bool
  hce_pprof :: "string \<Rightarrow> (int \<times> string) option"
  hce_readable :: "string \<Rightarrow> bool"
  hce_setuid :: bool
  hce_invocation_name :: string
  hce_invocation_path :: string
  hce_getcwd :: "string option"
  hce_mmap_log :: bool

section \<open>Allocation by the checker\<close>

text \<open>\<open>new\<close>: memory from the allocator, announced to the profiler, which may want to dump.\<close>

definition hc_new :: "hc_env \<Rightarrow> u64 \<Rightarrow> heap_check \<Rightarrow> (u64 \<times> heap_check) option" where
  "hc_new env sz c = do {
     let p = hce_malloc env (hck_news c);
     let c = c\<lparr>hck_news := Suc (hck_news c)\<rparr>;
     h \<leftarrow> (if hk_new (hck_prof c) = 0 then Some (hck_prof c)
          else do {
            (reason, h) \<leftarrow> HP_NewHook (hce_hp env) (hce_self env) p sz (hck_prof c);
            if reason = None then Some h else DumpLocked (hce_hp env) None h });
     Some (p, c\<lparr>hck_prof := h\<rparr>) }"

definition hc_delete :: "hc_env \<Rightarrow> u64 \<Rightarrow> heap_check \<Rightarrow> heap_check option" where
  "hc_delete env p c = do {
     h \<leftarrow> (if hk_delete (hck_prof c) = 0 then Some (hck_prof c) else HP_DeleteHook (hce_self env) p (hck_prof c));
     Some (c\<lparr>hck_prof := h\<rparr>) }"

section \<open>Searching memory\<close>

text \<open>The running search: the profiler with its set of ignored objects, the objects to look into, the counts.\<close>

record search =
  sr_prof :: heap_profiler
  sr_live :: "AllocObject list"
  sr_count :: u64
  sr_bytes :: u64

definition ignore_insert :: "u64 \<Rightarrow> heap_profiler \<Rightarrow> (bool \<times> heap_profiler) option" where
  "ignore_insert p h = do {
     S \<leftarrow> hp_ignored h;
     Some (if p \<in> set S then (False, h) else (True, h\<lparr>hp_ignored := Some (p # S)\<rparr>)) }"

text \<open>One word of an object. \<open>UNALIGNED_LOAD32\<close> is what the code reads a pointer with.\<close>

definition try_pointer :: "(u64 \<Rightarrow> u32) \<Rightarrow> u64 \<Rightarrow> search \<Rightarrow> search option" where
  "try_pointer load object s =
     (let ptr = ucast (load object) :: u64
      in if ptr = 0 then Some s
         else do {
           r \<leftarrow> HaveOnHeapLocked ptr (sr_prof s);
           case r of None \<Rightarrow> Some s
           | Some (p, _, bytes) \<Rightarrow> do {
               (new, h) \<leftarrow> ignore_insert p (sr_prof s);
               Some (if new then s\<lparr>sr_prof := h, sr_count := sr_count s + 1, sr_bytes := sr_bytes s + bytes,
                       sr_live := \<lparr>ao_ptr = p, ao_size = bytes, ao_place = IGNORED_ON_HEAP\<rparr> # sr_live s\<rparr>
                     else s) } })"

function search_object :: "(u64 \<Rightarrow> u32) \<Rightarrow> u64 \<Rightarrow> u64 \<Rightarrow> search \<Rightarrow> search option" where
  "search_object load object sz s =
     (if sz \<ge> 8 then Option.bind (try_pointer load object s) (search_object load (object + 8) (sz - 8)) else Some s)"
  by pat_completeness auto

termination
  by (relation "measure (\<lambda>(load, object, sz, s). unat sz)") (auto simp: word_le_nat_alt unat_sub)

declare search_object.simps [simp del]

text \<open>The part of an object from its first aligned word on.\<close>

definition align_object :: "u64 \<Rightarrow> u64 \<Rightarrow> u64 \<times> u64" where
  "align_object object sz =
     (let remainder = object mod 8
      in if remainder \<noteq> 0 then (object + (8 - remainder), if sz \<ge> 8 - remainder then sz - (8 - remainder) else 0)
         else (object, sz))"

text \<open>Each object is ignored at most once, so the search ends.\<close>

definition not_ignored :: "heap_profiler \<Rightarrow> u64 set" where
  "not_ignored h = {p. case hp_ignored h of None \<Rightarrow> True | Some S \<Rightarrow> p \<notin> set S}"

definition search_rank :: "search \<Rightarrow> nat" where
  "search_rank s = card (not_ignored (sr_prof s)) + length (sr_live s)"

lemma ignore_insert_rank:
  "ignore_insert p h = Some (new, h') \<Longrightarrow>
     card (not_ignored h') + (if new then 1 else 0) = card (not_ignored h)"
proof -
  assume r: "ignore_insert p h = Some (new, h')"
  then obtain S where S: "hp_ignored h = Some S" by (auto simp: ignore_insert_def option_monad)
  show ?thesis
  proof (cases "p \<in> set S")
    case True
    then show ?thesis using r S by (simp add: ignore_insert_def)
  next
    case False
    then have h': "new" "h' = h\<lparr>hp_ignored := Some (p # S)\<rparr>" using r S by (auto simp: ignore_insert_def)
    have "not_ignored h = insert p (not_ignored h')" "p \<notin> not_ignored h'"
      using False S by (auto simp: not_ignored_def h')
    then show ?thesis using h' by simp
  qed
qed

lemma try_pointer_rank: "try_pointer load object s = Some s' \<Longrightarrow> search_rank s' \<le> search_rank s"
  by (auto simp: try_pointer_def Let_def option_monad search_rank_def split: if_splits option.splits dest!: ignore_insert_rank)

lemma search_object_rank: "search_object load object sz s = Some s' \<Longrightarrow> search_rank s' \<le> search_rank s"
proof (induction load object sz s arbitrary: s' rule: search_object.induct)
  case (1 load object sz s)
  show ?case
  proof (cases "sz \<ge> 8")
    case True
    then obtain t where "try_pointer load object s = Some t" "search_object load (object + 8) (sz - 8) t = Some s'"
      using 1(2) by (auto simp: option_monad search_object.simps [of load object sz])
    then show ?thesis using 1(1) [OF True] try_pointer_rank by fastforce
  next
    case False
    then show ?thesis using 1(2) by (simp add: search_object.simps [of load object sz])
  qed
qed

text \<open>Taking an object off the stack, before its words are searched.\<close>

definition take_object :: "AllocObject \<Rightarrow> search \<Rightarrow> (u64 \<times> search) option" where
  "take_object x s =
     (if ao_place x = MUST_BE_ON_HEAP then do {
        r \<leftarrow> HaveOnHeapLocked (ao_ptr x) (sr_prof s);
        case r of None \<Rightarrow> Some (ao_ptr x, s)
        | Some (p, _, _) \<Rightarrow> do {
            (new, h) \<leftarrow> ignore_insert p (sr_prof s);
            Some (p, if new then s\<lparr>sr_prof := h, sr_count := sr_count s + 1, sr_bytes := sr_bytes s + ao_size x\<rparr> else s) } }
      else Some (ao_ptr x, s))"

definition search_step :: "(u64 \<Rightarrow> u32) \<Rightarrow> AllocObject \<Rightarrow> search \<Rightarrow> search option" where
  "search_step load x s = do {
     (object, s) \<leftarrow> take_object x s;
     let (object, sz) = align_object object (ao_size x);
     search_object load object sz s }"

lemma take_object_rank: "take_object x s = Some (p, s') \<Longrightarrow> search_rank s' \<le> search_rank s"
  by (auto simp: take_object_def option_monad search_rank_def split: if_splits option.splits dest!: ignore_insert_rank)

lemma search_step_rank:
  assumes "search_step load x s = Some s'"
  shows "search_rank s' \<le> search_rank s"
proof -
  obtain object t where "take_object x s = Some (object, t)"
    "search_object load (fst (align_object object (ao_size x))) (snd (align_object object (ao_size x))) t = Some s'"
    using assms by (auto simp: search_step_def option_monad case_prod_beta)
  then show ?thesis using take_object_rank search_object_rank by fastforce
qed

function search_all :: "(u64 \<Rightarrow> u32) \<Rightarrow> search \<Rightarrow> search option" where
  "search_all load s =
     (case sr_live s of [] \<Rightarrow> Some s
      | x # live \<Rightarrow> Option.bind (search_step load x (s\<lparr>sr_live := live\<rparr>)) (search_all load))"
  by pat_completeness auto

termination
proof (relation "measure (\<lambda>(load, s). search_rank s)")
  fix load s x live s'
  assume "sr_live s = x # live" "search_step load x (s\<lparr>sr_live := live\<rparr>) = Some s'"
  then show "((load, s'), load, s) \<in> measure (\<lambda>(load, s). search_rank s)"
    using search_step_rank [of load x "s\<lparr>sr_live := live\<rparr>" s'] by (simp add: search_rank_def)
qed simp

declare search_all.simps [simp del]

definition IgnoreLiveObjectsLocked :: "(u64 \<Rightarrow> u32) \<Rightarrow> heap_check \<Rightarrow> heap_check option" where
  "IgnoreLiveObjectsLocked load c = do {
     live \<leftarrow> live_objects c;
     s \<leftarrow> search_all load \<lparr>sr_prof = hck_prof c, sr_live = live, sr_count = 0, sr_bytes = 0\<rparr>;
     Some (c\<lparr>hck_prof := sr_prof s, live_objects := Some [], live_objects_total := live_objects_total c + sr_count s,
             live_bytes_total := live_bytes_total c + sr_bytes s\<rparr>) }"


section \<open>Objects to ignore\<close>

definition ignore_object_insert :: "u64 \<Rightarrow> u64 \<Rightarrow> heap_check \<Rightarrow> heap_check option" where
  "ignore_object_insert p bytes c = do {
     m \<leftarrow> ignored_objects c;
     let (new, m) = omap_insert p bytes m;
     ASSERT new;
     Some (c\<lparr>ignored_objects := Some m\<rparr>) }"

text \<open>The map of ignored objects, when it is new, is itself the first of them.\<close>

definition IgnoreObjectLocked_rec :: "u64 \<Rightarrow> heap_check \<Rightarrow> heap_check option" where
  "IgnoreObjectLocked_rec ptr c = do {
     r \<leftarrow> HaveOnHeap ptr (hck_prof c);
     case r of None \<Rightarrow> Some c | Some (p, _, bytes) \<Rightarrow> ignore_object_insert p bytes c }"

definition IgnoreObjectLocked :: "hc_env \<Rightarrow> u64 \<Rightarrow> heap_check \<Rightarrow> heap_check option" where
  "IgnoreObjectLocked env ptr c = do {
     r \<leftarrow> HaveOnHeap ptr (hck_prof c);
     case r of None \<Rightarrow> Some c
     | Some (p, _, bytes) \<Rightarrow> do {
         c \<leftarrow> (if ignored_objects c = None then do {
                  (m, c) \<leftarrow> hc_new env (hce_sizeof_map env) c;
                  IgnoreObjectLocked_rec m (c\<lparr>ignored_objects := Some []\<rparr>) }
               else Some c);
         ignore_object_insert p bytes c } }"

definition IgnoreObject :: "hc_env \<Rightarrow> u64 \<Rightarrow> heap_check \<Rightarrow> heap_check option" where
  "IgnoreObject env ptr c = (if \<not> heap_checker_on c then Some c else IgnoreObjectLocked env ptr c)"

definition UnIgnoreObject :: "u64 \<Rightarrow> heap_check \<Rightarrow> heap_check option" where
  "UnIgnoreObject ptr c =
     (if \<not> heap_checker_on c then Some c
      else do {
        r \<leftarrow> HaveOnHeap ptr (hck_prof c);
        (p, _, bytes) \<leftarrow> r;
        m \<leftarrow> ignored_objects c;
        ASSERT (map_of m p = Some bytes);
        Some (c\<lparr>ignored_objects := Some (omap_erase p m)\<rparr>) })"

section \<open>Disabled code\<close>

definition DisableChecksAtLocked :: "hc_env \<Rightarrow> u64 \<Rightarrow> heap_check \<Rightarrow> heap_check option" where
  "DisableChecksAtLocked env address c = do {
     c \<leftarrow> (if disabled_addresses c = None then do {
              (p, c) \<leftarrow> hc_new env (hce_sizeof_set env) c;
              IgnoreObjectLocked env p (c\<lparr>disabled_addresses := Some []\<rparr>) }
           else Some c);
     S \<leftarrow> disabled_addresses c;
     Some (c\<lparr>disabled_addresses := Some (if address \<in> set S then S else address # S)\<rparr>) }"

definition DisableChecksAt :: "hc_env \<Rightarrow> u64 \<Rightarrow> heap_check \<Rightarrow> heap_check option" where
  "DisableChecksAt env address c = (if \<not> heap_checker_on c then Some c else DisableChecksAtLocked env address c)"

text \<open>The address of a frame above; the trace has to have it.\<close>

definition frame_up :: "hc_env \<Rightarrow> int \<Rightarrow> heap_check \<Rightarrow> (u64 \<times> heap_check) option" where
  "frame_up env skip c = do {
     let (stack, h) = hp_GetStackTrace (hce_hp env) 1 skip (hck_prof c);
     ASSERT (length stack = 1);
     Some (stack ! 0, c\<lparr>hck_prof := h\<rparr>) }"

definition DisableChecksUp :: "hc_env \<Rightarrow> int \<Rightarrow> heap_check \<Rightarrow> heap_check option" where
  "DisableChecksUp env stack_frames c =
     (if \<not> heap_checker_on c then Some c
      else do {
        ASSERT (stack_frames \<ge> 1);
        (a, c) \<leftarrow> frame_up env (stack_frames + 1) c;
        DisableChecksAt env a c })"

definition HaveDisabledChecksAt :: "u64 \<Rightarrow> heap_check \<Rightarrow> bool" where
  "HaveDisabledChecksAt address c =
     (heap_checker_on c \<and> (case disabled_addresses c of None \<Rightarrow> False | Some S \<Rightarrow> address \<in> set S))"

definition HaveDisabledChecksUp :: "hc_env \<Rightarrow> int \<Rightarrow> heap_check \<Rightarrow> (bool \<times> heap_check) option" where
  "HaveDisabledChecksUp env stack_frames c =
     (if \<not> heap_checker_on c then Some (False, c)
      else do {
        ASSERT (stack_frames \<ge> 1);
        (a, c) \<leftarrow> frame_up env (stack_frames + 1) c;
        Some (HaveDisabledChecksAt a c, c) })"

text \<open>The regular expression handed to \<open>pprof\<close>.\<close>

definition DisableChecksInLocked :: "hc_env \<Rightarrow> string \<Rightarrow> heap_check \<Rightarrow> heap_check option" where
  "DisableChecksInLocked env pattern c = do {
     c \<leftarrow> (if disabled_regexp c = None then do {
              (p, c) \<leftarrow> hc_new env (hce_sizeof_string env) c;
              IgnoreObjectLocked env p (c\<lparr>disabled_regexp := Some []\<rparr>) }
           else Some c);
     re \<leftarrow> disabled_regexp c;
     Some (c\<lparr>disabled_regexp := Some ((if re \<noteq> [] then re @ ''|'' else re) @ pattern)\<rparr>) }"

definition DisableChecksIn :: "hc_env \<Rightarrow> string \<Rightarrow> heap_check \<Rightarrow> heap_check option" where
  "DisableChecksIn env pattern c = (if \<not> heap_checker_on c then Some c else DisableChecksInLocked env pattern c)"

text \<open>Ranges are keyed by their end; a range whose end is taken is dropped.\<close>

definition DisableChecksFromTo :: "hc_env \<Rightarrow> u64 \<Rightarrow> u64 \<Rightarrow> int \<Rightarrow> heap_check \<Rightarrow> heap_check option" where
  "DisableChecksFromTo env start_address end_address max_depth c = do {
     ASSERT (start_address < end_address);
     c \<leftarrow> (if disabled_ranges c = None then do {
              (p, c) \<leftarrow> hc_new env (hce_sizeof_map env) c;
              IgnoreObjectLocked env p (c\<lparr>disabled_ranges := Some []\<rparr>) }
           else Some c);
     m \<leftarrow> disabled_ranges c;
     Some (c\<lparr>disabled_ranges := Some (snd (omap_insert end_address \<lparr>rv_start = start_address, rv_max_depth = max_depth\<rparr> m))\<rparr>) }"

definition GetDisableChecksStart :: "hc_env \<Rightarrow> heap_check \<Rightarrow> (u64 \<times> heap_check) option" where
  "GetDisableChecksStart env c = (if \<not> heap_checker_on c then Some (0, c) else frame_up env 1 c)"

definition DisableChecksToHereFrom :: "hc_env \<Rightarrow> u64 \<Rightarrow> heap_check \<Rightarrow> heap_check option" where
  "DisableChecksToHereFrom env start_address c =
     (if \<not> heap_checker_on c then Some c
      else do {
        (end_address, c) \<leftarrow> frame_up env 1 c;
        if start_address > end_address then DisableChecksFromTo env end_address start_address 10000 c
        else DisableChecksFromTo env start_address end_address 10000 c })"

text \<open>Whether a call stack goes through disabled code.\<close>

fun stack_disabled :: "heap_check \<Rightarrow> u64 list \<Rightarrow> int \<Rightarrow> bool" where
  "stack_disabled c [] depth = False"
| "stack_disabled c (addr # stack) depth =
     ((case disabled_addresses c of None \<Rightarrow> False | Some S \<Rightarrow> addr \<in> set S) \<or>
      (case disabled_ranges c of None \<Rightarrow> False
       | Some m \<Rightarrow> (case omap_upper_bound addr m of None \<Rightarrow> False
                 | Some (_, v) \<Rightarrow> rv_start v < addr \<and> rv_max_depth v > depth)) \<or>
      stack_disabled c stack (depth + 1))"

text \<open>An allocation made by disabled code is live unless it holds a thread's stack.\<close>

definition MakeDisabledLiveCallback :: "u64 \<Rightarrow> alloc_value \<Rightarrow> heap_check \<Rightarrow> heap_check option" where
  "MakeDisabledLiveCallback ptr v c =
     (if stack_disabled c (b_stack (buckets (hck_prof c) (fst v))) 0 then do {
        ranges \<leftarrow> stack_ranges c;
        case omap_lower_bound ptr ranges of
          Some (_, e) \<Rightarrow> if e \<le> ptr + snd v then Some c
            else do { live \<leftarrow> live_objects c;
                      Some (c\<lparr>live_objects := Some (\<lparr>ao_ptr = ptr, ao_size = snd v, ao_place = MUST_BE_ON_HEAP\<rparr> # live)\<rparr>) }
        | None \<Rightarrow> do { live \<leftarrow> live_objects c;
                     Some (c\<lparr>live_objects := Some (\<lparr>ao_ptr = ptr, ao_size = snd v, ao_place = MUST_BE_ON_HEAP\<rparr> # live)\<rparr>) } }
      else Some c)"

definition IsLibraryNamed :: "string \<Rightarrow> string \<Rightarrow> bool" where
  "IsLibraryNamed library library_base = (case strstr library library_base of None \<Rightarrow> False
     | Some p \<Rightarrow> (case drop (length library_base) p of [] \<Rightarrow> False | c # _ \<Rightarrow> c = CHR ''.'' \<or> c = CHR ''-''))"

definition library_depth :: "string \<Rightarrow> int" where
  "library_depth library =
     (if IsLibraryNamed library ''/libpthread'' \<or> IsLibraryNamed library ''/libdl'' \<or> IsLibraryNamed library ''/libcrypto'' then 1
      else if IsLibraryNamed library ''/ld'' then 2 else 0)"

definition DisableLibraryAllocs :: "hc_env \<Rightarrow> string \<Rightarrow> u64 \<Rightarrow> u64 \<Rightarrow> heap_check \<Rightarrow> heap_check option" where
  "DisableLibraryAllocs env library start_address end_address c =
     (let depth = library_depth library
      in if depth \<noteq> 0 then DisableChecksFromTo env start_address end_address depth c else Some c)"

end
