(* ===== verification/LiveRoots.thy ===== *)
theory LiveRoots
  imports LiveObjects
begin

text \<open>
  The leak checker, its roots: the writable data of the mapped files, stacks and registers of the threads,
  objects to ignore and allocations of disabled code, and the order in which they are searched.
\<close>

section \<open>Mapped files\<close>

definition PT_LOAD :: nat where "PT_LOAD = 1"
definition PF_W :: u32 where "PF_W = 2"
definition EV_CURRENT :: nat where "EV_CURRENT = 1"
definition ET_EXEC :: nat where "ET_EXEC = 2"
definition ET_DYN :: nat where "ET_DYN = 3"
definition sizeof_Phdr :: nat where "sizeof_Phdr = 56"

text \<open>\<open>(*library_live_objects)[filename].push_back\<close>\<close>

fun library_push :: "string \<Rightarrow> AllocObject \<Rightarrow> (string \<times> AllocObject list) list \<Rightarrow> (string \<times> AllocObject list) list" where
  "library_push f x [] = [(f, [x])]"
| "library_push f x ((g, xs) # m) =
     (if f < g then (f, [x]) # (g, xs) # m
      else if f = g then (g, x # xs) # m
      else (g, xs) # library_push f x m)"

text \<open>
  The loop over the segments of a file, for the mapping of \<open>file_offset\<close> at \<open>start_address\<close>: false when the
  file makes no sense, otherwise whether a segment was found and the object to record.
\<close>

definition segment_start :: "u64 \<Rightarrow> elf_segment \<Rightarrow> u64" where
  "segment_start page e = p_offset e AND NOT (page - 1)"

definition segment_end :: "u64 \<Rightarrow> elf_segment \<Rightarrow> u64" where
  "segment_end page e = (p_offset e + p_memsz e + (page - 1)) AND NOT (page - 1)"

fun find_segment :: "u64 \<Rightarrow> u64 \<Rightarrow> u64 \<Rightarrow> u64 \<Rightarrow> elf_segment list \<Rightarrow> AllocObject option \<Rightarrow> AllocObject option option" where
  "find_segment page start_address end_address file_offset [] found = Some found"
| "find_segment page start_address end_address file_offset (e # es) found =
     (if p_type e = PT_LOAD \<and> p_flags e AND PF_W \<noteq> 0 then
        if p_vaddr e \<noteq> p_paddr e then None
        else if p_vaddr e AND (page - 1) \<noteq> p_offset e AND (page - 1) then None
        else if segment_end page e < segment_start page e then None
        else if file_offset \<ge> segment_start page e \<and> file_offset < segment_end page e then
          if found \<noteq> None then None
          else if end_address < start_address \<or> end_address - start_address > segment_end page e - file_offset then None
          else if file_offset - segment_start page e > start_address then None
          else find_segment page start_address end_address file_offset es
            (Some \<lparr>ao_ptr = start_address - (file_offset - segment_start page e),
                   ao_size = segment_end page e - segment_start page e, ao_place = IN_GLOBAL_DATA\<rparr>)
        else find_segment page start_address end_address file_offset es found
      else find_segment page start_address end_address file_offset es found)"

text \<open>The result of \<open>RecordGlobalDataLocked\<close>, and the state; \<open>None\<close> is an abort.\<close>

definition RecordGlobalDataLocked :: "hc_env \<Rightarrow> proc_map \<Rightarrow> heap_check \<Rightarrow> (bool \<times> heap_check) option" where
  "RecordGlobalDataLocked env pm c =
     (if CHR ''w'' \<notin> set (pm_permissions pm) then Some (True, c)
      else if pm_inode pm = 0 then Some (True, c)
      else if pm_filename pm = ''/dev/zero'' then Some (True, c)
      else (case hce_elf env (pm_filename pm) of
        None \<Rightarrow> Some (False, c)
      | Some f \<Rightarrow>
          if \<not> elf_magic f \<or> e_version f \<noteq> EV_CURRENT \<or> (e_type f \<noteq> ET_EXEC \<and> e_type f \<noteq> ET_DYN) \<or> e_phentsize f \<noteq> sizeof_Phdr
          then Some (False, c)
          else (case e_phdrs f of
            None \<Rightarrow> Some (False, c)
          | Some es \<Rightarrow> do {
              let page = page_size (hpe_sys (hce_hp env));
              ASSERT (page \<noteq> 0 \<and> page AND (page - 1) = 0);
              case find_segment page (pm_start pm) (pm_end pm) (pm_offset pm) es None of
                None \<Rightarrow> Some (False, c)
              | Some None \<Rightarrow> Some (False, c)
              | Some (Some x) \<Rightarrow> do {
                  m \<leftarrow> library_live_objects c;
                  Some (e_closes f, c\<lparr>library_live_objects := Some (library_push (pm_filename pm) x m)\<rparr>) } })))"

datatype ProcMapsTask = RECORD_GLOBAL_DATA_LOCKED | DISABLE_LIBRARY_ALLOCS

datatype ProcMapsResult = PROC_MAPS_USED | CANT_OPEN_PROC_MAPS | NO_SHARED_LIBS_IN_PROC_MAPS

definition shared_lib :: "proc_map \<Rightarrow> bool" where
  "shared_lib pm \<longleftrightarrow> pm_inode pm \<noteq> 0 \<and> strstr (pm_filename pm) ''lib'' \<noteq> None \<and> strstr (pm_filename pm) ''.so'' \<noteq> None"

definition proc_map_task :: "hc_env \<Rightarrow> ProcMapsTask \<Rightarrow> proc_map \<Rightarrow> heap_check \<Rightarrow> heap_check option" where
  "proc_map_task env task pm c = (case task of
     DISABLE_LIBRARY_ALLOCS \<Rightarrow>
       if pm_inode pm \<noteq> 0 \<and> take 4 (pm_permissions pm) = ''r-xp''
       then DisableLibraryAllocs env (pm_filename pm) (pm_start pm) (pm_end pm) c else Some c
   | RECORD_GLOBAL_DATA_LOCKED \<Rightarrow> do {
       (ok, c) \<leftarrow> RecordGlobalDataLocked env pm c;
       ASSERT ok;
       Some c })"

fun proc_maps_loop :: "hc_env \<Rightarrow> ProcMapsTask \<Rightarrow> proc_map list \<Rightarrow> bool \<Rightarrow> heap_check \<Rightarrow> (bool \<times> heap_check) option" where
  "proc_maps_loop env task [] saw c = Some (saw, c)"
| "proc_maps_loop env task (pm # pms) saw c =
     (if pm_start pm \<ge> pm_end pm then
        if pm_inode pm \<noteq> 0 then None else proc_maps_loop env task pms saw c
      else Option.bind (proc_map_task env task pm c) (proc_maps_loop env task pms (saw \<or> shared_lib pm)))"

definition UseProcMaps :: "hc_env \<Rightarrow> ProcMapsTask \<Rightarrow> heap_check \<Rightarrow> (ProcMapsResult \<times> heap_check) option" where
  "UseProcMaps env task c = (case hce_maps env of
     None \<Rightarrow> Some (CANT_OPEN_PROC_MAPS, c)
   | Some pms \<Rightarrow> do {
       (saw, c) \<leftarrow> proc_maps_loop env task pms False c;
       Some (if saw then PROC_MAPS_USED else NO_SHARED_LIBS_IN_PROC_MAPS, c) })"

section \<open>Threads\<close>

definition RegisterStackRange :: "u64 \<Rightarrow> u64 \<Rightarrow> heap_check \<Rightarrow> heap_check option" where
  "RegisterStackRange tp bottom c = do {
     let p1 = min tp bottom;
     let p2 = max tp bottom;
     live \<leftarrow> live_objects c;
     ranges \<leftarrow> stack_ranges c;
     Some (c\<lparr>live_objects := Some (\<lparr>ao_ptr = p1, ao_size = p2 - p1, ao_place = THREAD_STACK\<rparr> # live),
             stack_ranges := Some (snd (omap_insert p1 p2 ranges))\<rparr>) }"

text \<open>What follows when the stacks and registers of the other threads are done with.\<close>

fun push_ignored :: "(u64 \<times> u64) list \<Rightarrow> heap_check \<Rightarrow> heap_check option" where
  "push_ignored [] c = Some c"
| "push_ignored ((ptr, bytes) # os) c = do {
     live \<leftarrow> live_objects c;
     r \<leftarrow> HaveOnHeapLocked ptr (hck_prof c);
     (p, _, n) \<leftarrow> r;
     ASSERT (bytes = n);
     push_ignored os (c\<lparr>live_objects := Some (\<lparr>ao_ptr = ptr, ao_size = bytes, ao_place = MUST_BE_ON_HEAP\<rparr> # live)\<rparr>) }"

fun search_libraries :: "hc_env \<Rightarrow> (string \<times> AllocObject list) list \<Rightarrow> heap_check \<Rightarrow> heap_check option" where
  "search_libraries env [] c = Some c"
| "search_libraries env ((f, xs) # ls) c = do {
     live \<leftarrow> live_objects c;
     ASSERT (live = []);
     c \<leftarrow> IgnoreLiveObjectsLocked (hce_load32 env) (c\<lparr>live_objects := Some xs\<rparr>);
     search_libraries env ls c }"

definition disabled_live :: "heap_check \<Rightarrow> heap_check option" where
  "disabled_live c = AM_Iterate (\<lambda>p v r. Option.bind r (MakeDisabledLiveCallback p v)) (allocation (hck_prof c)) (Some c)"

definition IgnoreNonThreadLiveObjectsLocked :: "hc_env \<Rightarrow> heap_check \<Rightarrow> heap_check option" where
  "IgnoreNonThreadLiveObjectsLocked env c = do {
     c \<leftarrow> (if se_have (self_thread_stack c) then do {
              c \<leftarrow> RegisterStackRange (se_top (self_thread_stack c)) (se_bottom (self_thread_stack c)) c;
              IgnoreLiveObjectsLocked (hce_load32 env) c }
           else Some c);
     c \<leftarrow> (case ignored_objects c of None \<Rightarrow> Some c
           | Some os \<Rightarrow> do { c \<leftarrow> push_ignored os c; IgnoreLiveObjectsLocked (hce_load32 env) c });
     c \<leftarrow> disabled_live c;
     c \<leftarrow> IgnoreLiveObjectsLocked (hce_load32 env) c;
     if FLAGS_ignore_global_live c then do {
       ls \<leftarrow> library_live_objects c;
       c \<leftarrow> search_libraries env ls c;
       Some (c\<lparr>library_live_objects := None\<rparr>) }
     else Some c }"

text \<open>Memory as the search of the copied registers sees it; the copy is aligned.\<close>

definition registers_load :: "hc_env \<Rightarrow> u64 list \<Rightarrow> u64 \<Rightarrow> u32" where
  "registers_load env regs a =
     (let i = unat (a - hce_registers_at env)
      in if i < 8 * length regs then ucast (drop_bit (8 * (i mod 8)) (regs ! (i div 8)))
         else hce_load32 env a)"

fun thread_roots :: "hc_env \<Rightarrow> (int \<times> thread_state option) list \<Rightarrow> u64 list \<Rightarrow> int \<Rightarrow> heap_check \<Rightarrow> (u64 list \<times> int \<times> heap_check) option" where
  "thread_roots env [] regs failures c = Some (regs, failures, c)"
| "thread_roots env ((pid, t) # ts) regs failures c =
     (if pid = self_thread_pid c then thread_roots env ts regs failures c
      else (case t of
        None \<Rightarrow> thread_roots env ts regs (failures + 1) c
      | Some t \<Rightarrow> (case hce_GetStackExtent env (th_BP t) of
            Some (_, bottom) \<Rightarrow> do {
              c \<leftarrow> RegisterStackRange (th_SP t) bottom c;
              thread_roots env ts (regs @ th_regs t) failures c }
          | None \<Rightarrow> thread_roots env ts (regs @ th_regs t) (failures + 1) c)))"

definition IgnoreLiveThreads :: "hc_env \<Rightarrow> (int \<times> thread_state option) list \<Rightarrow> heap_check \<Rightarrow> (int \<times> heap_check) option" where
  "IgnoreLiveThreads env threads c = do {
     let c = c\<lparr>thread_listing_status := CALLBACK_STARTED\<rparr>;
     (regs, failures, c) \<leftarrow> thread_roots env threads [] 0 c;
     c \<leftarrow> IgnoreLiveObjectsLocked (hce_load32 env) c;
     c \<leftarrow> (if regs \<noteq> [] then do {
              live \<leftarrow> live_objects c;
              IgnoreLiveObjectsLocked (registers_load env regs)
                (c\<lparr>live_objects := Some (\<lparr>ao_ptr = hce_registers_at env, ao_size = word_of_nat (length regs) * 8, ao_place = THREAD_REGISTERS\<rparr> # live)\<rparr>) }
           else Some c);
     c \<leftarrow> IgnoreNonThreadLiveObjectsLocked env c;
     Some (failures, c\<lparr>thread_listing_status := CALLBACK_COMPLETED\<rparr>) }"

text \<open>\<open>ListAllProcessThreads\<close> with its callback: the result and the state it leaves.\<close>

definition list_threads :: "hc_env \<Rightarrow> heap_check \<Rightarrow> (int \<times> heap_check) option" where
  "list_threads env c = (case hce_listing env of
     Not_listed \<Rightarrow> Some (- 1, c)
   | Listing_died \<Rightarrow> Some (- 1, c\<lparr>thread_listing_status := CALLBACK_STARTED\<rparr>)
   | Listed passed_on \<Rightarrow> do {
       (r, c) \<leftarrow> IgnoreLiveThreads env (hce_threads env) c;
       Some (if passed_on then r else - 1, c) })"

definition IgnoreAllLiveObjectsLocked :: "hc_env \<Rightarrow> StackExtent \<Rightarrow> heap_check \<Rightarrow> heap_check option" where
  "IgnoreAllLiveObjectsLocked env self_stack c = do {
     ASSERT (live_objects c = None);
     let c = c\<lparr>live_objects := Some [], stack_ranges := Some []\<rparr>;
     ASSERT (hp_ignored (hck_prof c) = None);
     let c = c\<lparr>hck_prof := (hck_prof c)\<lparr>hp_ignored := Some []\<rparr>\<rparr>;
     c \<leftarrow> (if FLAGS_ignore_global_live c then do {
              (_, c) \<leftarrow> UseProcMaps env RECORD_GLOBAL_DATA_LOCKED (c\<lparr>library_live_objects := Some []\<rparr>);
              Some c }
           else Some c);
     let c = c\<lparr>thread_listing_status := CALLBACK_NOT_STARTED, self_thread_pid := hce_getpid env, self_thread_stack := self_stack\<rparr>;
     (need, c) \<leftarrow>
       (if FLAGS_ignore_thread_live c then do {
          (r, c) \<leftarrow> list_threads env c;
          if r < 0 then do {
            ASSERT (thread_listing_status c \<noteq> CALLBACK_STARTED);
            Some (thread_listing_status c \<noteq> CALLBACK_COMPLETED, c) }
          else Some (False, c) }
        else Some (True, c));
     c \<leftarrow> (if need then IgnoreNonThreadLiveObjectsLocked env c else Some c);
     Some (c\<lparr>live_objects := None, stack_ranges := None\<rparr>) }"

end
