(* ===== verification/LiveSpec.thy ===== *)
theory LiveSpec
  imports LiveRoots
begin

text \<open>
  The search of the leak checker finds exactly the heap objects that are reachable from its roots: the
  usual argument of a marking collector, on the code's stack of objects to look into.
\<close>

section \<open>Reachability\<close>

text \<open>The object a word points to: its start and size.\<close>

definition resolve :: "alloc_value AddressMap \<Rightarrow> u64 \<Rightarrow> (u64 \<times> u64) option" where
  "resolve A ptr = (case AM_Find A ptr of
     Some v \<Rightarrow> Some (ptr, snd v)
   | None \<Rightarrow> (case find_inside 4 ptr A of
       Some (p, v) \<Rightarrow> Some (p, snd v)
     | None \<Rightarrow> map_option (\<lambda>(p, v). (p, snd v)) (find_inside 12 ptr A)))"

definition object_bytes :: "alloc_value AddressMap \<Rightarrow> u64 \<Rightarrow> u64" where
  "object_bytes A p = (case AM_Find A p of None \<Rightarrow> 0 | Some v \<Rightarrow> snd v)"

lemma HaveOnHeapLocked_resolve:
  assumes "is_on h"
  shows "\<exists>r. HaveOnHeapLocked ptr h = Some r \<and> map_option (\<lambda>(p, v). (p, snd v)) r = resolve (allocation h) ptr"
  using assms by (auto simp: HaveOnHeapLocked_def resolve_def split: option.splits)

lemma resolve_bytes: "resolve A x = Some (p, n) \<Longrightarrow> n = object_bytes A p \<and> AM_Find A p \<noteq> None"
  by (auto simp: resolve_def object_bytes_def find_inside_def split: option.splits if_splits)

text \<open>The words of an object, and the objects they point to.\<close>

definition words_from :: "u64 \<Rightarrow> u64 \<Rightarrow> u64 set" where
  "words_from a sz = (\<lambda>i. a + 8 * word_of_nat i) ` {..<unat sz div 8}"

definition words_of :: "u64 \<Rightarrow> u64 \<Rightarrow> u64 set" where
  "words_of a sz = words_from (fst (align_object a sz)) (snd (align_object a sz))"

definition targets :: "(u64 \<Rightarrow> u32) \<Rightarrow> alloc_value AddressMap \<Rightarrow> u64 set \<Rightarrow> u64 set" where
  "targets load A W = {p. \<exists>a\<in>W. \<exists>n. load a \<noteq> 0 \<and> resolve A (ucast (load a)) = Some (p, n)}"

definition root_object :: "alloc_value AddressMap \<Rightarrow> AllocObject \<Rightarrow> u64 set" where
  "root_object A x = (if ao_place x = MUST_BE_ON_HEAP then {p. \<exists>n. resolve A (ao_ptr x) = Some (p, n)} else {})"

inductive_set reached :: "(u64 \<Rightarrow> u32) \<Rightarrow> alloc_value AddressMap \<Rightarrow> AllocObject set \<Rightarrow> u64 set \<Rightarrow> u64 set"
  for load A roots I where
  reached_start: "p \<in> I \<Longrightarrow> p \<in> reached load A roots I"
| reached_root: "x \<in> roots \<Longrightarrow> p \<in> root_object A x \<Longrightarrow> p \<in> reached load A roots I"
| reached_from_root: "x \<in> roots \<Longrightarrow> p \<in> targets load A (words_of (ao_ptr x) (ao_size x)) \<Longrightarrow> p \<in> reached load A roots I"
| reached_from: "p \<in> reached load A roots I \<Longrightarrow> q \<in> targets load A (words_of p (object_bytes A p)) \<Longrightarrow> q \<in> reached load A roots I"

lemma reached_least:
  assumes "I \<subseteq> X" and "\<And>x. x \<in> roots \<Longrightarrow> root_object A x \<subseteq> X"
    and "\<And>x. x \<in> roots \<Longrightarrow> targets load A (words_of (ao_ptr x) (ao_size x)) \<subseteq> X"
    and "\<And>p. p \<in> X \<Longrightarrow> targets load A (words_of p (object_bytes A p)) \<subseteq> X"
  shows "reached load A roots I \<subseteq> X"
proof
  fix p assume "p \<in> reached load A roots I"
  then show "p \<in> X" by induction (use assms in blast)+
qed

lemma reached_closed: "p \<in> reached load A roots I \<Longrightarrow> targets load A (words_of p (object_bytes A p)) \<subseteq> reached load A roots I"
  using reached_from by blast

section \<open>One object\<close>

text \<open>From \<open>s\<close> to \<open>s'\<close> the objects \<open>T\<close> were found: the new ones are ignored, counted and to be searched.\<close>

definition found :: "alloc_value AddressMap \<Rightarrow> u64 set \<Rightarrow> search \<Rightarrow> search \<Rightarrow> bool" where
  "found A T s s' \<longleftrightarrow> (\<exists>S S' new. hp_ignored (sr_prof s) = Some S \<and> sr_prof s' = (sr_prof s)\<lparr>hp_ignored := Some S'\<rparr> \<and>
     set S' = set S \<union> T \<and> (distinct S \<longrightarrow> distinct S') \<and> sr_live s' = new @ sr_live s \<and>
     set new = (\<lambda>p. \<lparr>ao_ptr = p, ao_size = object_bytes A p, ao_place = IGNORED_ON_HEAP\<rparr>) ` (T - set S) \<and>
     sr_count s' = sr_count s + word_of_nat (card (T - set S)) \<and> sr_bytes s' = sr_bytes s + (\<Sum>p\<in>T - set S. object_bytes A p))"

lemma hp_ignored_same: "hp_ignored h = Some S \<Longrightarrow> h\<lparr>hp_ignored := Some S\<rparr> = (h :: heap_profiler)"
  by (cases h) simp

lemma found_same:
  assumes "hp_ignored (sr_prof s) = Some S" and "T \<subseteq> set S"
  shows "found A T s s"
proof -
  have T: "T - set S = {}" "set S \<union> T = set S" using assms(2) by auto
  show ?thesis unfolding found_def
    by (intro exI [of _ S] exI [of _ "[]"]) (simp add: T assms(1) hp_ignored_same [OF assms(1)])
qed

lemma found_none:
  assumes "hp_ignored (sr_prof s) \<noteq> None"
  shows "found A {} s s"
proof -
  obtain S where "hp_ignored (sr_prof s) = Some S" using assms by blast
  then show ?thesis by (rule found_same) simp
qed

lemma found_trans:
  assumes "found A T s t" and "found A U t u"
  shows "found A (T \<union> U) s u"
proof -
  obtain S S' new where a: "hp_ignored (sr_prof s) = Some S" "sr_prof t = (sr_prof s)\<lparr>hp_ignored := Some S'\<rparr>"
    "set S' = set S \<union> T" "distinct S \<longrightarrow> distinct S'" "sr_live t = new @ sr_live s"
    "set new = (\<lambda>p. \<lparr>ao_ptr = p, ao_size = object_bytes A p, ao_place = IGNORED_ON_HEAP\<rparr>) ` (T - set S)"
    "sr_count t = sr_count s + word_of_nat (card (T - set S))" "sr_bytes t = sr_bytes s + (\<Sum>p\<in>T - set S. object_bytes A p)"
    using assms(1) unfolding found_def by blast
  obtain S'' new' where b: "sr_prof u = (sr_prof t)\<lparr>hp_ignored := Some S''\<rparr>"
    "set S'' = set S' \<union> U" "distinct S' \<longrightarrow> distinct S''" "sr_live u = new' @ sr_live t"
    "set new' = (\<lambda>p. \<lparr>ao_ptr = p, ao_size = object_bytes A p, ao_place = IGNORED_ON_HEAP\<rparr>) ` (U - set S')"
    "sr_count u = sr_count t + word_of_nat (card (U - set S'))" "sr_bytes u = sr_bytes t + (\<Sum>p\<in>U - set S'. object_bytes A p)"
    using assms(2) a(2) unfolding found_def by auto
  have split: "T \<union> U - set S = (T - set S) \<union> (U - set S')" "(T - set S) \<inter> (U - set S') = {}" using a(3) by auto
  have "card (T \<union> U - set S) = card (T - set S) + card (U - set S')"
    unfolding split(1) by (rule card_Un_disjoint) (simp_all add: split(2))
  moreover have "(\<Sum>p\<in>T \<union> U - set S. object_bytes A p) = (\<Sum>p\<in>T - set S. object_bytes A p) + (\<Sum>p\<in>U - set S'. object_bytes A p)"
    unfolding split(1) by (rule sum.union_disjoint) (simp_all add: split(2))
  moreover have "set (new' @ new) = (\<lambda>p. \<lparr>ao_ptr = p, ao_size = object_bytes A p, ao_place = IGNORED_ON_HEAP\<rparr>) ` (T \<union> U - set S)"
    unfolding split(1) image_Un set_append a(6) b(5) by (rule Un_commute)
  ultimately have "hp_ignored (sr_prof s) = Some S \<and> sr_prof u = (sr_prof s)\<lparr>hp_ignored := Some S''\<rparr> \<and>
     set S'' = set S \<union> (T \<union> U) \<and> (distinct S \<longrightarrow> distinct S'') \<and> sr_live u = (new' @ new) @ sr_live s \<and>
     set (new' @ new) = (\<lambda>p. \<lparr>ao_ptr = p, ao_size = object_bytes A p, ao_place = IGNORED_ON_HEAP\<rparr>) ` (T \<union> U - set S) \<and>
     sr_count u = sr_count s + word_of_nat (card (T \<union> U - set S)) \<and> sr_bytes u = sr_bytes s + (\<Sum>p\<in>T \<union> U - set S. object_bytes A p)"
    using a(1,2,3,4,5,7,8) b(1,2,3,4,6,7) by (intro conjI) (simp_all only: Un_assoc append_assoc of_nat_add add.assoc, simp_all)
  then show ?thesis unfolding found_def by blast
qed

lemma found_fields:
  assumes "found A T s s'"
  shows "is_on (sr_prof s') = is_on (sr_prof s)" "allocation (sr_prof s') = allocation (sr_prof s)" "hp_ignored (sr_prof s') \<noteq> None"
  using assms by (auto simp: found_def)

text \<open>The operations work whenever the profiler is on and the set exists.\<close>

definition searching :: "alloc_value AddressMap \<Rightarrow> search \<Rightarrow> bool" where
  "searching A s \<longleftrightarrow> is_on (sr_prof s) \<and> allocation (sr_prof s) = A \<and> hp_ignored (sr_prof s) \<noteq> None"

lemma found_searching: "found A T s s' \<Longrightarrow> searching A s \<Longrightarrow> searching A s'"
  by (simp add: searching_def found_fields)

lemma try_pointer_spec:
  assumes "searching A s"
  shows "\<exists>s'. try_pointer load a s = Some s' \<and> found A (targets load A {a}) s s'"
proof -
  obtain S where S: "hp_ignored (sr_prof s) = Some S" and on: "is_on (sr_prof s)" "allocation (sr_prof s) = A"
    using assms by (auto simp: searching_def)
  have z: "(ucast (load a) :: u64) = 0 \<longleftrightarrow> load a = 0" by (simp add: word_eq_iff_unat unat_ucast_wider)
  show ?thesis
  proof (cases "load a = 0")
    case True
    then have "targets load A {a} = {}" by (simp add: targets_def)
    then show ?thesis using True S by (simp add: try_pointer_def found_none)
  next
    case False
    obtain r where r: "HaveOnHeapLocked (ucast (load a)) (sr_prof s) = Some r" "map_option (\<lambda>(p, v). (p, snd v)) r = resolve A (ucast (load a))"
      using HaveOnHeapLocked_resolve [OF on(1)] on(2) by blast
    show ?thesis
    proof (cases r)
      case None
      then have "resolve A (ucast (load a)) = None" using r(2) by simp
      then have "targets load A {a} = {}" by (simp add: targets_def)
      then show ?thesis using False S r(1) None z by (simp add: try_pointer_def found_none)
    next
      case (Some x)
      obtain p b n where x: "x = (p, b, n)" by (cases x)
      then have R: "resolve A (ucast (load a)) = Some (p, n)" using r(2) Some by simp
      then have n: "n = object_bytes A p" using resolve_bytes by blast
      have T: "targets load A {a} = {p}" using R False by (auto simp: targets_def)
      show ?thesis unfolding T
      proof (cases "p \<in> set S")
        case True
        then show "\<exists>s'. try_pointer load a s = Some s' \<and> found A {p} s s'"
          using False z r(1) Some x S found_same [OF S, of "{p}" A] by (simp add: try_pointer_def ignore_insert_def)
      next
        case new: False
        then show "\<exists>s'. try_pointer load a s = Some s' \<and> found A {p} s s'"
          using False z r(1) Some x S by (auto simp: try_pointer_def ignore_insert_def found_def n insert_Diff_if)
      qed
    qed
  qed
qed

lemma words_from_step:
  assumes "8 \<le> sz"
  shows "words_from a sz = insert a (words_from (a + 8) (sz - 8))"
proof -
  have u: "unat sz div 8 = Suc (unat (sz - 8) div 8)"
    using assms by (simp add: unat_sub word_le_nat_alt le_div_geq)
  have "a + 8 * word_of_nat (Suc i) = a + 8 + 8 * word_of_nat i" for i by (simp add: algebra_simps)
  then show ?thesis unfolding words_from_def u lessThan_Suc_eq_insert_0 image_insert image_image by (simp add: add.assoc)
qed

lemma words_from_none: "\<not> 8 \<le> sz \<Longrightarrow> words_from a sz = {}"
  by (simp add: words_from_def word_le_nat_alt)

lemma targets_Un: "targets load A (X \<union> Y) = targets load A X \<union> targets load A Y"
  by (auto simp: targets_def)

lemma search_object_spec:
  "searching A s \<Longrightarrow> \<exists>s'. search_object load a sz s = Some s' \<and> found A (targets load A (words_from a sz)) s s'"
proof (induction load a sz s rule: search_object.induct)
  case (1 load a sz s)
  show ?case
  proof (cases "8 \<le> sz")
    case True
    obtain t where t: "try_pointer load a s = Some t" "found A (targets load A {a}) s t"
      using try_pointer_spec [OF 1(2)] by blast
    obtain s' where s': "search_object load (a + 8) (sz - 8) t = Some s'" "found A (targets load A (words_from (a + 8) (sz - 8))) t s'"
      using 1(1) [OF True t(1) found_searching [OF t(2) 1(2)]] by blast
    have "found A (targets load A {a} \<union> targets load A (words_from (a + 8) (sz - 8))) s s'" by (rule found_trans [OF t(2) s'(2)])
    moreover have "words_from a sz = {a} \<union> words_from (a + 8) (sz - 8)" using words_from_step [OF True] by simp
    ultimately have "found A (targets load A (words_from a sz)) s s'" by (simp only: targets_Un)
    then show ?thesis using True t(1) s'(1) by (simp add: search_object.simps [of load a sz])
  next
    case False
    then show ?thesis using 1(2) found_none [of s A] by (simp add: search_object.simps [of load a sz] words_from_none targets_def searching_def)
  qed
qed

section \<open>The whole search\<close>

text \<open>A root that has to be on the heap is one of its objects, with its size, or not there at all.\<close>

definition root_ok :: "alloc_value AddressMap \<Rightarrow> AllocObject \<Rightarrow> bool" where
  "root_ok A x \<longleftrightarrow> (ao_place x = MUST_BE_ON_HEAP \<longrightarrow>
     (\<forall>p n. resolve A (ao_ptr x) = Some (p, n) \<longrightarrow> p = ao_ptr x \<and> n = ao_size x))"

definition ignored_of :: "search \<Rightarrow> u64 set" where
  "ignored_of s = (case hp_ignored (sr_prof s) of None \<Rightarrow> {} | Some S \<Rightarrow> set S)"

text \<open>Every ignored object has been searched or is on the stack.\<close>

definition grey :: "(u64 \<Rightarrow> u32) \<Rightarrow> alloc_value AddressMap \<Rightarrow> search \<Rightarrow> bool" where
  "grey load A s \<longleftrightarrow> (\<forall>p\<in>ignored_of s. targets load A (words_of p (object_bytes A p)) \<subseteq> ignored_of s \<or>
     (\<exists>x\<in>set (sr_live s). ao_ptr x = p \<and> ao_size x = object_bytes A p))"

text \<open>What a search leaves alone, and what it counts.\<close>

definition searched :: "alloc_value AddressMap \<Rightarrow> search \<Rightarrow> search \<Rightarrow> bool" where
  "searched A s s' \<longleftrightarrow> (\<exists>S S'. hp_ignored (sr_prof s) = Some S \<and> sr_prof s' = (sr_prof s)\<lparr>hp_ignored := Some S'\<rparr> \<and>
     set S \<subseteq> set S' \<and> (distinct S \<longrightarrow> distinct S') \<and> sr_count s' = sr_count s + word_of_nat (card (set S' - set S)) \<and>
     sr_bytes s' = sr_bytes s + (\<Sum>p\<in>set S' - set S. object_bytes A p))"

lemma searched_trans:
  assumes "searched A s t" and "searched A t u"
  shows "searched A s u"
proof -
  obtain S S' where a: "hp_ignored (sr_prof s) = Some S" "sr_prof t = (sr_prof s)\<lparr>hp_ignored := Some S'\<rparr>"
    "set S \<subseteq> set S'" "distinct S \<longrightarrow> distinct S'" "sr_count t = sr_count s + word_of_nat (card (set S' - set S))"
    "sr_bytes t = sr_bytes s + (\<Sum>p\<in>set S' - set S. object_bytes A p)"
    using assms(1) unfolding searched_def by blast
  obtain S'' where b: "sr_prof u = (sr_prof t)\<lparr>hp_ignored := Some S''\<rparr>"
    "set S' \<subseteq> set S''" "distinct S' \<longrightarrow> distinct S''" "sr_count u = sr_count t + word_of_nat (card (set S'' - set S'))"
    "sr_bytes u = sr_bytes t + (\<Sum>p\<in>set S'' - set S'. object_bytes A p)"
    using assms(2) a(2) unfolding searched_def by auto
  have split: "set S'' - set S = (set S' - set S) \<union> (set S'' - set S')" "(set S' - set S) \<inter> (set S'' - set S') = {}"
    using a(3) b(2) by auto
  have "card (set S'' - set S) = card (set S' - set S) + card (set S'' - set S')"
    unfolding split(1) by (rule card_Un_disjoint) (simp_all add: split(2))
  moreover have "(\<Sum>p\<in>set S'' - set S. object_bytes A p) = (\<Sum>p\<in>set S' - set S. object_bytes A p) + (\<Sum>p\<in>set S'' - set S'. object_bytes A p)"
    unfolding split(1) by (rule sum.union_disjoint) (simp_all add: split(2))
  ultimately have "hp_ignored (sr_prof s) = Some S \<and> sr_prof u = (sr_prof s)\<lparr>hp_ignored := Some S''\<rparr> \<and>
     set S \<subseteq> set S'' \<and> (distinct S \<longrightarrow> distinct S'') \<and> sr_count u = sr_count s + word_of_nat (card (set S'' - set S)) \<and>
     sr_bytes u = sr_bytes s + (\<Sum>p\<in>set S'' - set S. object_bytes A p)"
    using a b by (intro conjI) (simp_all add: add.assoc)
  then show ?thesis unfolding searched_def by blast
qed

lemma found_searched: "found A T s s' \<Longrightarrow> searched A s s' \<and> ignored_of s' = ignored_of s \<union> T"
proof -
  assume "found A T s s'"
  then obtain S S' where f: "hp_ignored (sr_prof s) = Some S" "sr_prof s' = (sr_prof s)\<lparr>hp_ignored := Some S'\<rparr>"
    "set S' = set S \<union> T" "distinct S \<longrightarrow> distinct S'" "sr_count s' = sr_count s + word_of_nat (card (T - set S))"
    "sr_bytes s' = sr_bytes s + (\<Sum>p\<in>T - set S. object_bytes A p)"
    unfolding found_def by blast
  have "set S' - set S = T - set S" using f(3) by auto
  then show ?thesis using f unfolding searched_def ignored_of_def by auto
qed

lemma searched_searching: "searched A s s' \<Longrightarrow> searching A s \<Longrightarrow> searching A s'"
  by (auto simp: searching_def searched_def)

lemma take_object_spec:
  assumes "searching A s" and "root_ok A x"
  shows "\<exists>s'. take_object x s = Some (ao_ptr x, s') \<and> searched A s s' \<and> sr_live s' = sr_live s \<and>
    ignored_of s' = ignored_of s \<union> root_object A x"
proof -
  obtain S where S: "hp_ignored (sr_prof s) = Some S" and on: "is_on (sr_prof s)" "allocation (sr_prof s) = A"
    using assms by (auto simp: searching_def)
  have same: "searched A s s" using found_searched [OF found_same [OF S, of "{}" A]] by simp
  obtain r where r: "HaveOnHeapLocked (ao_ptr x) (sr_prof s) = Some r" "map_option (\<lambda>(p, v). (p, snd v)) r = resolve A (ao_ptr x)"
    using HaveOnHeapLocked_resolve [OF on(1)] on(2) by blast
  show ?thesis
  proof (cases "ao_place x = MUST_BE_ON_HEAP \<and> r \<noteq> None")
    case False
    then have "root_object A x = {}" using r(2) by (auto simp: root_object_def)
    then show ?thesis using False r(1) same by (cases r) (auto simp: take_object_def)
  next
    case True
    then obtain p b n where x: "r = Some (p, b, n)" by (cases r) auto
    then have R: "resolve A (ao_ptr x) = Some (p, n)" using r(2) by simp
    then have p: "p = ao_ptr x" "n = ao_size x" "n = object_bytes A p"
      using assms(2) True resolve_bytes [OF R] by (auto simp: root_ok_def)
    have T: "root_object A x = {p}" using R True by (auto simp: root_object_def)
    show ?thesis
    proof (cases "p \<in> set S")
      case old: True
      then show ?thesis using True r(1) x S same T p(1) by (auto simp: take_object_def ignore_insert_def ignored_of_def)
    next
      case new: False
      have "insert p (set S) - set S = {p}" using new by auto
      then show ?thesis using True r(1) x S T p new
        by (auto simp: take_object_def ignore_insert_def ignored_of_def searched_def)
    qed
  qed
qed

lemma search_step_spec:
  assumes "searching A s" and "root_ok A x"
  shows "\<exists>s'. search_step load x s = Some s' \<and> searched A s s' \<and>
    ignored_of s' = ignored_of s \<union> root_object A x \<union> targets load A (words_of (ao_ptr x) (ao_size x)) \<and>
    (\<exists>new. sr_live s' = new @ sr_live s \<and> set new = (\<lambda>p. \<lparr>ao_ptr = p, ao_size = object_bytes A p, ao_place = IGNORED_ON_HEAP\<rparr>) `
      (targets load A (words_of (ao_ptr x) (ao_size x)) - (ignored_of s \<union> root_object A x)))"
proof -
  obtain t where t: "take_object x s = Some (ao_ptr x, t)" "searched A s t" "sr_live t = sr_live s" "ignored_of t = ignored_of s \<union> root_object A x"
    using take_object_spec [OF assms] by blast
  obtain s' where s': "search_object load (fst (align_object (ao_ptr x) (ao_size x))) (snd (align_object (ao_ptr x) (ao_size x))) t = Some s'"
    "found A (targets load A (words_of (ao_ptr x) (ao_size x))) t s'"
    using search_object_spec [OF searched_searching [OF t(2) assms(1)]] unfolding words_of_def by blast
  have "search_step load x s = Some s'" using t(1) s'(1) by (simp add: search_step_def case_prod_beta)
  moreover have "\<exists>new. sr_live s' = new @ sr_live s \<and> set new = (\<lambda>p. \<lparr>ao_ptr = p, ao_size = object_bytes A p, ao_place = IGNORED_ON_HEAP\<rparr>) `
      (targets load A (words_of (ao_ptr x) (ao_size x)) - ignored_of t)"
    using s'(2) t(3) unfolding found_def ignored_of_def by auto
  ultimately show ?thesis using found_searched [OF s'(2)] searched_trans [OF t(2)] t(4) by auto
qed

lemma reached_step:
  assumes "set live' = insert x (set live)" and "I \<union> root_object A x \<union> targets load A (words_of (ao_ptr x) (ao_size x)) = I'"
    and "set new = (\<lambda>p. \<lparr>ao_ptr = p, ao_size = object_bytes A p, ao_place = IGNORED_ON_HEAP\<rparr>) ` N" "N \<subseteq> I'"
  shows "reached load A (set live') I = reached load A (set new \<union> set live) I'"
proof
  let ?R = "reached load A (set new \<union> set live) I'"
  have I: "I' \<subseteq> ?R" using reached_start by blast
  have live: "root_object A y \<subseteq> ?R" "targets load A (words_of (ao_ptr y) (ao_size y)) \<subseteq> ?R" if "y \<in> set live" for y
    using that reached_root [of y "set new \<union> set live"] reached_from_root [of y "set new \<union> set live"] by blast+
  have x: "I \<subseteq> ?R" "root_object A x \<subseteq> ?R" "targets load A (words_of (ao_ptr x) (ao_size x)) \<subseteq> ?R"
    using I unfolding assms(2) [symmetric] by blast+
  show "reached load A (set live') I \<subseteq> ?R"
  proof (rule reached_least)
    show "I \<subseteq> ?R" by (rule x)
    show "root_object A y \<subseteq> ?R" "targets load A (words_of (ao_ptr y) (ao_size y)) \<subseteq> ?R" if "y \<in> set live'" for y
      using that live [of y] x(2,3) unfolding assms(1) by blast+
  qed (rule reached_closed)
next
  let ?R = "reached load A (set live') I"
  have x: "x \<in> set live'" using assms(1) by simp
  have I: "I' \<subseteq> ?R" unfolding assms(2) [symmetric]
    using reached_start [of _ I] reached_root [OF x] reached_from_root [OF x] by blast
  have new: "root_object A y \<subseteq> ?R \<and> targets load A (words_of (ao_ptr y) (ao_size y)) \<subseteq> ?R" if y: "y \<in> set new" for y
  proof -
    obtain p where p: "p \<in> N" "y = \<lparr>ao_ptr = p, ao_size = object_bytes A p, ao_place = IGNORED_ON_HEAP\<rparr>" using y assms(3) by auto
    then have "p \<in> ?R" using assms(4) I by blast
    from reached_closed [OF this] show ?thesis by (simp add: p root_object_def)
  qed
  have live: "root_object A y \<subseteq> ?R \<and> targets load A (words_of (ao_ptr y) (ao_size y)) \<subseteq> ?R" if "y \<in> set live" for y
    using that assms(1) reached_root [of y "set live'"] reached_from_root [of y "set live'"] by blast
  show "reached load A (set new \<union> set live) I' \<subseteq> ?R"
  proof (rule reached_least)
    show "root_object A y \<subseteq> ?R" "targets load A (words_of (ao_ptr y) (ao_size y)) \<subseteq> ?R" if "y \<in> set new \<union> set live" for y
      using that new [of y] live [of y] by blast+
  qed (rule I, rule reached_closed)
qed

lemma grey_step:
  assumes G: "grey load A s" and s: "sr_live s = x # live"
    and I: "ignored_of s' = ignored_of s \<union> root_object A x \<union> targets load A (words_of (ao_ptr x) (ao_size x))"
    and live: "sr_live s' = new @ live"
    and new: "set new = (\<lambda>p. \<lparr>ao_ptr = p, ao_size = object_bytes A p, ao_place = IGNORED_ON_HEAP\<rparr>) `
      (targets load A (words_of (ao_ptr x) (ao_size x)) - (ignored_of s \<union> root_object A x))"
    and ok: "root_ok A x"
  shows "grey load A s'"
  unfolding grey_def
proof
  fix p assume p: "p \<in> ignored_of s'"
  show "targets load A (words_of p (object_bytes A p)) \<subseteq> ignored_of s' \<or> (\<exists>y\<in>set (sr_live s'). ao_ptr y = p \<and> ao_size y = object_bytes A p)"
  proof (cases "ao_ptr x = p \<and> ao_size x = object_bytes A p")
    case True
    then show ?thesis using I by auto
  next
    case other: False
    consider "p \<in> ignored_of s" | "p \<in> root_object A x" | "p \<in> targets load A (words_of (ao_ptr x) (ao_size x)) - (ignored_of s \<union> root_object A x)"
      using p I by blast
    then show ?thesis
    proof cases
      case 1
      then show ?thesis using G other I s live unfolding grey_def by auto
    next
      case 2
      then obtain n where n: "ao_place x = MUST_BE_ON_HEAP" "resolve A (ao_ptr x) = Some (p, n)" by (auto simp: root_object_def split: if_splits)
      then have "ao_ptr x = p \<and> ao_size x = object_bytes A p" using ok resolve_bytes [OF n(2)] by (auto simp: root_ok_def)
      then show ?thesis using other by simp
    next
      case 3
      then have "\<lparr>ao_ptr = p, ao_size = object_bytes A p, ao_place = IGNORED_ON_HEAP\<rparr> \<in> set (sr_live s')" unfolding live set_append new by blast
      then show ?thesis by force
    qed
  qed
qed

lemma search_all_spec:
  "searching A s \<Longrightarrow> grey load A s \<Longrightarrow> \<forall>x\<in>set (sr_live s). root_ok A x \<Longrightarrow>
    \<exists>s'. search_all load s = Some s' \<and> sr_live s' = [] \<and> searched A s s' \<and>
      ignored_of s' = reached load A (set (sr_live s)) (ignored_of s) \<and> grey load A s'"
proof (induction load s rule: search_all.induct)
  case (1 load s)
  show ?case
  proof (cases "sr_live s")
    case Nil
    obtain S where S: "hp_ignored (sr_prof s) = Some S" using 1(2) by (auto simp: searching_def)
    have "reached load A {} (ignored_of s) = ignored_of s"
    proof
      show "reached load A {} (ignored_of s) \<subseteq> ignored_of s"
        by (rule reached_least) (use 1(3) Nil in \<open>auto simp: grey_def\<close>)
    qed (use reached_start in blast)
    then show ?thesis using Nil 1(3) found_searched [OF found_same [OF S, of "{}" A]] by (simp add: search_all.simps)
  next
    case (Cons x live)
    let ?s = "s\<lparr>sr_live := live\<rparr>"
    have ss: "searching A ?s" using 1(2) by (simp add: searching_def)
    have ok: "root_ok A x" using 1(4) Cons by simp
    have ig: "ignored_of ?s = ignored_of s" by (simp add: ignored_of_def)
    obtain t new where t: "search_step load x ?s = Some t" "searched A ?s t"
      "ignored_of t = ignored_of s \<union> root_object A x \<union> targets load A (words_of (ao_ptr x) (ao_size x))"
      "sr_live t = new @ live" "set new = (\<lambda>p. \<lparr>ao_ptr = p, ao_size = object_bytes A p, ao_place = IGNORED_ON_HEAP\<rparr>) `
        (targets load A (words_of (ao_ptr x) (ao_size x)) - (ignored_of s \<union> root_object A x))"
      using search_step_spec [OF ss ok, of load] unfolding ig by auto
    have g: "grey load A t" by (rule grey_step [OF 1(3) Cons t(3,4,5) ok])
    have roots: "\<forall>x\<in>set (sr_live t). root_ok A x" using 1(4) Cons t(4,5) by (auto simp: root_ok_def)
    obtain s' where s': "search_all load t = Some s'" "sr_live s' = []" "searched A t s'"
      "ignored_of s' = reached load A (set (sr_live t)) (ignored_of t)" "grey load A s'"
      using 1(1) [OF Cons t(1) searched_searching [OF t(2) ss] g roots] by blast
    have "searched A s t" using t(2) by (simp add: searched_def)
    moreover have "reached load A (set (sr_live s)) (ignored_of s) = reached load A (set new \<union> set live) (ignored_of t)"
      by (rule reached_step [OF _ t(3) [symmetric] t(5)]) (use Cons t(3) in auto)
    ultimately show ?thesis using Cons t(1,4) s' searched_trans [OF _ s'(3)] by (simp add: search_all.simps [of load s])
  qed
qed

end
