(* ===== verification/LiveProps.thy ===== *)
theory LiveProps
  imports LiveSpec
begin

text \<open>
  The searches of a check one after the other: stacks, registers, objects to ignore, disabled code and
  libraries. Each leaves a closed set of ignored objects, so that the whole sequence is one search from all roots.
\<close>

section \<open>A search of the checker\<close>

definition closed_under :: "(u64 \<Rightarrow> u32) \<Rightarrow> alloc_value AddressMap \<Rightarrow> u64 set \<Rightarrow> bool" where
  "closed_under load A I \<longleftrightarrow> (\<forall>p\<in>I. targets load A (words_of p (object_bytes A p)) \<subseteq> I)"

lemma reached_closed_under: "closed_under load A (reached load A roots I)"
  using reached_closed by (auto simp: closed_under_def)

lemma reached_mono: "roots \<subseteq> roots' \<Longrightarrow> I \<subseteq> I' \<Longrightarrow> reached load A roots I \<subseteq> reached load A roots' I'"
  by (rule reached_least) (blast intro: reached.intros reached_closed)+

lemma reached_Un: "reached load A (R \<union> R') I = reached load A R' (reached load A R I)"
proof
  let ?X = "reached load A R' (reached load A R I)"
  have sub: "reached load A R I \<subseteq> ?X" using reached_start by blast
  show "reached load A (R \<union> R') I \<subseteq> ?X"
  proof (rule reached_least)
    show "I \<subseteq> ?X" using sub reached_start by blast
    show "root_object A x \<subseteq> ?X" if "x \<in> R \<union> R'" for x
      using that sub reached_root [of x R] reached_root [of x R'] by blast
    show "targets load A (words_of (ao_ptr x) (ao_size x)) \<subseteq> ?X" if "x \<in> R \<union> R'" for x
      using that sub reached_from_root [of x R] reached_from_root [of x R'] by blast
  qed (rule reached_closed)
  show "?X \<subseteq> reached load A (R \<union> R') I"
  proof (rule reached_least)
    show "reached load A R I \<subseteq> reached load A (R \<union> R') I" by (rule reached_mono) auto
    show "root_object A x \<subseteq> reached load A (R \<union> R') I" if "x \<in> R'" for x
      using that reached_root [of x "R \<union> R'"] by blast
    show "targets load A (words_of (ao_ptr x) (ao_size x)) \<subseteq> reached load A (R \<union> R') I" if "x \<in> R'" for x
      using that reached_from_root [of x "R \<union> R'"] by blast
  qed (rule reached_closed)
qed

lemma reached_empty: "closed_under load A I \<Longrightarrow> reached load A {} I = I"
  using reached_least [of I I "{}" A load] reached_start [of _ I load A "{}"] by (auto simp: closed_under_def)

text \<open>The checker in the middle of a check: the heap \<open>A\<close> and the set \<open>S\<close> of ignored objects.\<close>

definition in_check :: "alloc_value AddressMap \<Rightarrow> u64 list \<Rightarrow> heap_check \<Rightarrow> bool" where
  "in_check A S c \<longleftrightarrow> is_on (hck_prof c) \<and> allocation (hck_prof c) = A \<and> hp_ignored (hck_prof c) = Some S \<and> distinct S"

text \<open>After a search: \<open>S'\<close> is ignored, the new objects are counted, nothing else has changed.\<close>

definition after_search :: "heap_check \<Rightarrow> u64 list \<Rightarrow> u64 list \<Rightarrow> heap_check \<Rightarrow> heap_check" where
  "after_search c S S' c0 = c0\<lparr>hck_prof := (hck_prof c)\<lparr>hp_ignored := Some S'\<rparr>, live_objects := Some [],
     live_objects_total := live_objects_total c + word_of_nat (card (set S' - set S)),
     live_bytes_total := live_bytes_total c + (\<Sum>p\<in>set S' - set S. object_bytes (allocation (hck_prof c)) p)\<rparr>"

lemma in_check_after: "in_check A S c \<Longrightarrow> distinct S' \<Longrightarrow> in_check A S' (after_search c S S' c0)"
  by (simp add: in_check_def after_search_def)

lemma after_search_twice:
  assumes "set S \<subseteq> set S1" "set S1 \<subseteq> set S2"
  shows "after_search (after_search (c\<lparr>live_objects := l\<rparr>) S S1 (c\<lparr>live_objects := l\<rparr>)) S1 S2 (after_search (c\<lparr>live_objects := l\<rparr>) S S1 (c\<lparr>live_objects := l\<rparr>)) = after_search c S S2 c"
proof -
  have split: "set S2 - set S = (set S1 - set S) \<union> (set S2 - set S1)" "(set S1 - set S) \<inter> (set S2 - set S1) = {}" using assms by auto
  have "card (set S2 - set S) = card (set S1 - set S) + card (set S2 - set S1)"
    unfolding split(1) by (rule card_Un_disjoint) (simp_all add: split(2))
  moreover have "(\<Sum>p\<in>set S2 - set S. f p) = (\<Sum>p\<in>set S1 - set S. f p) + (\<Sum>p\<in>set S2 - set S1. f p)" for f :: "u64 \<Rightarrow> u64"
    unfolding split(1) by (rule sum.union_disjoint) (simp_all add: split(2))
  ultimately show ?thesis by (simp add: after_search_def add.assoc)
qed

lemma IgnoreLive_spec:
  assumes C: "in_check A S c" and live: "live_objects c = Some live" and ok: "\<forall>x\<in>set live. root_ok A x"
    and cl: "closed_under load A (set S)"
  shows "\<exists>S'. IgnoreLiveObjectsLocked load c = Some (after_search c S S' c) \<and> distinct S' \<and>
    set S' = reached load A (set live) (set S)"
proof -
  let ?s = "\<lparr>sr_prof = hck_prof c, sr_live = live, sr_count = 0, sr_bytes = 0\<rparr>"
  have I: "ignored_of ?s = set S" using C by (simp add: ignored_of_def in_check_def)
  have "searching A ?s" using C by (simp add: searching_def in_check_def)
  moreover have "grey load A ?s" using cl unfolding grey_def I by (simp add: closed_under_def)
  ultimately obtain s' where s': "search_all load ?s = Some s'" "searched A ?s s'" "ignored_of s' = reached load A (set live) (set S)"
    using search_all_spec [of A ?s load] ok unfolding I by auto
  obtain S' where S': "sr_prof s' = (hck_prof c)\<lparr>hp_ignored := Some S'\<rparr>" "distinct S'"
    "sr_count s' = word_of_nat (card (set S' - set S))" "sr_bytes s' = (\<Sum>p\<in>set S' - set S. object_bytes A p)"
    using s'(2) C unfolding searched_def in_check_def by auto
  have "set S' = reached load A (set live) (set S)" using s'(3) by (simp add: ignored_of_def S'(1))
  then show ?thesis using live s'(1) S' C by (intro exI [of _ S']) (auto simp: IgnoreLiveObjectsLocked_def after_search_def in_check_def)
qed

section \<open>The roots\<close>

definition stack_roots :: "heap_check \<Rightarrow> AllocObject set" where
  "stack_roots c = (if se_have (self_thread_stack c)
     then {\<lparr>ao_ptr = min (se_top (self_thread_stack c)) (se_bottom (self_thread_stack c)),
            ao_size = max (se_top (self_thread_stack c)) (se_bottom (self_thread_stack c)) - min (se_top (self_thread_stack c)) (se_bottom (self_thread_stack c)),
            ao_place = THREAD_STACK\<rparr>} else {})"

definition ignored_roots :: "heap_check \<Rightarrow> AllocObject set" where
  "ignored_roots c = (case ignored_objects c of None \<Rightarrow> {}
     | Some os \<Rightarrow> {\<lparr>ao_ptr = p, ao_size = n, ao_place = MUST_BE_ON_HEAP\<rparr> | p n. (p, n) \<in> set os})"

definition own_stack_range :: "heap_check \<Rightarrow> (u64 \<times> u64) list \<Rightarrow> (u64 \<times> u64) list" where
  "own_stack_range c ranges = (if se_have (self_thread_stack c)
     then snd (omap_insert (min (se_top (self_thread_stack c)) (se_bottom (self_thread_stack c)))
       (max (se_top (self_thread_stack c)) (se_bottom (self_thread_stack c))) ranges) else ranges)"

definition holds_stack :: "(u64 \<times> u64) list \<Rightarrow> u64 \<Rightarrow> u64 \<Rightarrow> bool" where
  "holds_stack ranges p n = (case omap_lower_bound p ranges of None \<Rightarrow> False | Some (_, e) \<Rightarrow> e \<le> p + n)"

definition disabled_roots :: "heap_check \<Rightarrow> (u64 \<times> u64) list \<Rightarrow> AllocObject set" where
  "disabled_roots c ranges = {\<lparr>ao_ptr = p, ao_size = n, ao_place = MUST_BE_ON_HEAP\<rparr> | p b n.
     AM_Find (allocation (hck_prof c)) p = Some (b, n) \<and> stack_disabled c (b_stack (buckets (hck_prof c) b)) 0 \<and> \<not> holds_stack ranges p n}"

definition library_roots :: "heap_check \<Rightarrow> AllocObject set" where
  "library_roots c = (if FLAGS_ignore_global_live c then (case library_live_objects c of None \<Rightarrow> {} | Some ls \<Rightarrow> (\<Union>(f, xs)\<in>set ls. set xs)) else {})"

lemma push_ignored_spec:
  assumes "\<forall>(p, n)\<in>set os. \<exists>b. AM_Find A p = Some (b, n)" and "is_on (hck_prof c)" "allocation (hck_prof c) = A" "live_objects c = Some live"
  shows "push_ignored os c = Some (c\<lparr>live_objects := Some (map (\<lambda>(p, n). \<lparr>ao_ptr = p, ao_size = n, ao_place = MUST_BE_ON_HEAP\<rparr>) (rev os) @ live)\<rparr>)"
  using assms
proof (induction os arbitrary: c live)
  case (Cons x os)
  obtain p n where x: "x = (p, n)" by (cases x)
  then obtain b where "AM_Find A p = Some (b, n)" using Cons.prems(1) by auto
  then have h: "HaveOnHeapLocked p (hck_prof c) = Some (Some (p, b, n))" using Cons.prems by (simp add: HaveOnHeapLocked_def)
  show ?case using Cons.IH [of "c\<lparr>live_objects := Some (\<lparr>ao_ptr = p, ao_size = n, ao_place = MUST_BE_ON_HEAP\<rparr> # live)\<rparr>"] Cons.prems
    by (simp add: x h)
qed simp

lemma stack_disabled_live: "stack_disabled (c\<lparr>live_objects := l\<rparr>) st d = stack_disabled c st d"
  by (induction st arbitrary: d) simp_all

lemma disabled_fold:
  assumes "stack_ranges c = Some ranges" and "live_objects c = Some live"
  shows "\<exists>new. fold (\<lambda>(p, v) r. Option.bind r (MakeDisabledLiveCallback p v)) es (Some c) = Some (c\<lparr>live_objects := Some (new @ live)\<rparr>) \<and>
    set new = {\<lparr>ao_ptr = p, ao_size = n, ao_place = MUST_BE_ON_HEAP\<rparr> | p b n. (p, b, n) \<in> set es \<and>
      stack_disabled c (b_stack (buckets (hck_prof c) b)) 0 \<and> \<not> holds_stack ranges p n}"
  using assms
proof (induction es arbitrary: c live)
  case Nil
  then show ?case by (cases c) auto
next
  case (Cons x es)
  obtain p b n where x: "x = (p, b, n)" by (cases x)
  let ?o = "\<lparr>ao_ptr = p, ao_size = n, ao_place = MUST_BE_ON_HEAP\<rparr>"
  let ?d = "stack_disabled c (b_stack (buckets (hck_prof c) b)) 0 \<and> \<not> holds_stack ranges p n"
  have cb: "MakeDisabledLiveCallback p (b, n) c = Some (c\<lparr>live_objects := Some ((if ?d then [?o] else []) @ live)\<rparr>)"
    using Cons.prems by (cases c) (auto simp: MakeDisabledLiveCallback_def holds_stack_def split: option.splits)
  let ?c = "c\<lparr>live_objects := Some ((if ?d then [?o] else []) @ live)\<rparr>"
  obtain new where new: "fold (\<lambda>(p, v) r. Option.bind r (MakeDisabledLiveCallback p v)) es (Some ?c) =
      Some (?c\<lparr>live_objects := Some (new @ (if ?d then [?o] else []) @ live)\<rparr>)"
    "set new = {\<lparr>ao_ptr = p, ao_size = n, ao_place = MUST_BE_ON_HEAP\<rparr> | p b n. (p, b, n) \<in> set es \<and>
      stack_disabled c (b_stack (buckets (hck_prof c) b)) 0 \<and> \<not> holds_stack ranges p n}"
    using Cons.IH [of ?c "(if ?d then [?o] else []) @ live"] Cons.prems by (auto simp: stack_disabled_live)
  show ?case
    using new by (intro exI [of _ "new @ (if ?d then [?o] else [])"]) (auto simp: x cb)
qed

lemma search_libraries_spec:
  assumes "in_check A S c" and "live_objects c = Some []" and "\<forall>(f, xs)\<in>set ls. \<forall>x\<in>set xs. root_ok A x"
    and "closed_under (hce_load32 env) A (set S)"
  shows "\<exists>S'. search_libraries env ls c = Some (after_search c S S' c) \<and> distinct S' \<and>
    set S' = reached (hce_load32 env) A (\<Union>(f, xs)\<in>set ls. set xs) (set S)"
  using assms
proof (induction ls arbitrary: c S)
  case Nil
  have "after_search c S S c = c" using Nil by (cases c) (simp add: after_search_def in_check_def hp_ignored_same)
  then show ?case using Nil reached_empty [OF Nil(4)] by (intro exI [of _ S]) (simp add: in_check_def)
next
  case (Cons x ls)
  obtain f xs where x: "x = (f, xs)" by (cases x)
  let ?c = "c\<lparr>live_objects := Some xs\<rparr>"
  have C: "in_check A S ?c" using Cons.prems(1) by (simp add: in_check_def)
  obtain S1 where S1: "IgnoreLiveObjectsLocked (hce_load32 env) ?c = Some (after_search ?c S S1 ?c)" "distinct S1"
    "set S1 = reached (hce_load32 env) A (set xs) (set S)"
    using IgnoreLive_spec [OF C _ _ Cons.prems(4)] Cons.prems(3) x by auto
  let ?c1 = "after_search ?c S S1 ?c"
  have l1: "live_objects ?c1 = Some []" by (simp add: after_search_def)
  have ls: "\<forall>(f, xs)\<in>set ls. \<forall>x\<in>set xs. root_ok A x" using Cons.prems(3) by simp
  have cl: "closed_under (hce_load32 env) A (set S1)" unfolding S1(3) by (rule reached_closed_under)
  obtain S2 where S2: "search_libraries env ls ?c1 = Some (after_search ?c1 S1 S2 ?c1)" "distinct S2"
    "set S2 = reached (hce_load32 env) A (\<Union>(f, xs)\<in>set ls. set xs) (set S1)"
    using Cons.IH [OF in_check_after [OF C S1(2), of ?c] l1 ls cl] by blast
  have sub: "set S \<subseteq> set S1" "set S1 \<subseteq> set S2" using reached_start S1(3) S2(3) by blast+
  have "set S2 = reached (hce_load32 env) A (\<Union>(f, xs)\<in>set (x # ls). set xs) (set S)"
    unfolding S2(3) S1(3) reached_Un [symmetric] by (simp add: x)
  moreover have "after_search ?c1 S1 S2 ?c1 = after_search c S S2 c" by (rule after_search_twice [OF sub])
  ultimately show ?case using S1 S2 Cons.prems(2) by (intro exI [of _ S2]) (simp add: x)
qed

text \<open>What the stages of a check keep of the checker.\<close>

definition blank_check_state :: "heap_check \<Rightarrow> heap_check" where
  "blank_check_state c = c\<lparr>hck_prof := (hck_prof c)\<lparr>hp_ignored := None\<rparr>, live_objects := None, stack_ranges := None,
     live_objects_total := 0, live_bytes_total := 0, thread_listing_status := CALLBACK_NOT_STARTED\<rparr>"

definition same_check :: "heap_check \<Rightarrow> heap_check \<Rightarrow> bool" where
  "same_check c c' \<longleftrightarrow> blank_check_state c = blank_check_state c'"

lemma same_check_refl [simp]: "same_check c c"
  by (simp add: same_check_def)

lemma same_check_trans: "same_check c c' \<Longrightarrow> same_check c' c'' \<Longrightarrow> same_check c c''"
  by (simp add: same_check_def)

lemma same_check_fields:
  assumes "same_check c c'"
  shows "ignored_objects c' = ignored_objects c" "self_thread_stack c' = self_thread_stack c" "library_live_objects c' = library_live_objects c"
    "FLAGS_ignore_global_live c' = FLAGS_ignore_global_live c" "buckets (hck_prof c') = buckets (hck_prof c)"
    "allocation (hck_prof c') = allocation (hck_prof c)" "disabled_addresses c' = disabled_addresses c" "disabled_ranges c' = disabled_ranges c"
proof -
  have f: "f (blank_check_state c') = f (blank_check_state c)" for f :: "heap_check \<Rightarrow> 'b" using assms by (simp add: same_check_def)
  show "ignored_objects c' = ignored_objects c" "self_thread_stack c' = self_thread_stack c" "library_live_objects c' = library_live_objects c"
    "FLAGS_ignore_global_live c' = FLAGS_ignore_global_live c" "buckets (hck_prof c') = buckets (hck_prof c)"
    "allocation (hck_prof c') = allocation (hck_prof c)" "disabled_addresses c' = disabled_addresses c" "disabled_ranges c' = disabled_ranges c"
    using f [of ignored_objects] f [of self_thread_stack] f [of library_live_objects] f [of FLAGS_ignore_global_live]
      f [of "\<lambda>c. buckets (hck_prof c)"] f [of "\<lambda>c. allocation (hck_prof c)"] f [of disabled_addresses] f [of disabled_ranges]
    by (simp_all add: blank_check_state_def)
qed

lemma same_check_disabled: "same_check c c' \<Longrightarrow> stack_disabled c' st d = stack_disabled c st d"
  by (induction st arbitrary: d) (simp_all add: same_check_fields)

lemma after_search_same: "same_check c (after_search c S S' c)"
  by (simp add: same_check_def blank_check_state_def after_search_def)

text \<open>One stage: new objects to look into, and a search.\<close>

lemma stage:
  assumes C: "in_check A S c" and cl: "closed_under load A (set S)" and live: "live_objects c = Some []"
    and ok: "\<forall>x\<in>set live. root_ok A x" and s: "same_check c c1" and c1: "live_objects c1 = Some live" "hck_prof c1 = hck_prof c"
  shows "\<exists>S' c'. IgnoreLiveObjectsLocked load c1 = Some c' \<and> in_check A S' c' \<and> closed_under load A (set S') \<and> same_check c c' \<and>
    set S' = reached load A (set live) (set S) \<and> live_objects c' = Some [] \<and> stack_ranges c' = stack_ranges c1"
proof -
  have C1: "in_check A S c1" using C c1(2) by (simp add: in_check_def)
  obtain S' where S': "IgnoreLiveObjectsLocked load c1 = Some (after_search c1 S S' c1)" "distinct S'" "set S' = reached load A (set live) (set S)"
    using IgnoreLive_spec [OF C1 c1(1) ok cl] by blast
  have "same_check c1 (after_search c1 S S' c1)" by (rule after_search_same)
  then have "same_check c (after_search c1 S S' c1)" by (rule same_check_trans [OF s])
  moreover have "in_check A S' (after_search c1 S S' c1)" by (rule in_check_after [OF C1 S'(2)])
  moreover have "closed_under load A (set S')" unfolding S'(3) by (rule reached_closed_under)
  moreover have "live_objects (after_search c1 S S' c1) = Some []" "stack_ranges (after_search c1 S S' c1) = stack_ranges c1"
    by (simp_all add: after_search_def)
  ultimately show ?thesis using S'(1,3) by blast
qed

definition ignored_objects_on_heap :: "heap_check \<Rightarrow> bool" where
  "ignored_objects_on_heap c \<longleftrightarrow> (\<forall>os. ignored_objects c = Some os \<longrightarrow> (\<forall>(p, n)\<in>set os. \<exists>b. AM_Find (allocation (hck_prof c)) p = Some (b, n)))"

definition libraries_ready :: "heap_check \<Rightarrow> bool" where
  "libraries_ready c \<longleftrightarrow> (FLAGS_ignore_global_live c \<longrightarrow> (\<exists>ls. library_live_objects c = Some ls \<and>
     (\<forall>(f, xs)\<in>set ls. \<forall>x\<in>set xs. ao_place x = IN_GLOBAL_DATA)))"

definition all_roots :: "heap_check \<Rightarrow> (u64 \<times> u64) list \<Rightarrow> AllocObject set" where
  "all_roots c ranges = stack_roots c \<union> ignored_roots c \<union> disabled_roots c (own_stack_range c ranges) \<union> library_roots c"

lemma live_same: "same_check c (c\<lparr>live_objects := l\<rparr>)"
  by (simp add: same_check_def blank_check_state_def)

lemma live_ranges_same: "same_check c (c\<lparr>live_objects := l, stack_ranges := r\<rparr>)"
  by (simp add: same_check_def blank_check_state_def)

lemma IgnoreNonThread_spec:
  assumes C: "in_check A S c" and wf: "AM_wf A" and live: "live_objects c = Some []" and rg: "stack_ranges c = Some ranges"
    and cl: "closed_under (hce_load32 env) A (set S)" and on: "ignored_objects_on_heap c" and lib: "libraries_ready c"
  shows "\<exists>S' c'. IgnoreNonThreadLiveObjectsLocked env c = Some c' \<and> in_check A S' c' \<and>
    set S' = reached (hce_load32 env) A (all_roots c ranges) (set S) \<and> live_objects c' = Some [] \<and>
    (\<exists>c''. same_check c c'' \<and> (c' = c'' \<or> c' = c''\<lparr>library_live_objects := None\<rparr>))"
proof -
  let ?load = "hce_load32 env"
  have A: "allocation (hck_prof c) = A" using C by (simp add: in_check_def)
  define step1 where "step1 = (if se_have (self_thread_stack c) then do {
      c \<leftarrow> RegisterStackRange (se_top (self_thread_stack c)) (se_bottom (self_thread_stack c)) c;
      IgnoreLiveObjectsLocked ?load c } else Some c)"
  obtain S1 c1 where s1: "step1 = Some c1" "in_check A S1 c1" "closed_under ?load A (set S1)" "same_check c c1"
    "set S1 = reached ?load A (stack_roots c) (set S)" "live_objects c1 = Some []" "stack_ranges c1 = Some (own_stack_range c ranges)"
  proof (cases "se_have (self_thread_stack c)")
    case False
    then show ?thesis using that [of c S] C cl live rg reached_empty [OF cl]
      by (simp add: step1_def stack_roots_def own_stack_range_def)
  next
    case True
    let ?p1 = "min (se_top (self_thread_stack c)) (se_bottom (self_thread_stack c))"
    let ?p2 = "max (se_top (self_thread_stack c)) (se_bottom (self_thread_stack c))"
    let ?x = "\<lparr>ao_ptr = ?p1, ao_size = ?p2 - ?p1, ao_place = THREAD_STACK\<rparr>"
    let ?c = "c\<lparr>live_objects := Some [?x], stack_ranges := Some (snd (omap_insert ?p1 ?p2 ranges))\<rparr>"
    have ok: "\<forall>x\<in>set [?x]. root_ok A x" by (simp add: root_ok_def)
    obtain S1 c1 where s: "IgnoreLiveObjectsLocked ?load ?c = Some c1" "in_check A S1 c1" "closed_under ?load A (set S1)" "same_check c c1"
      "set S1 = reached ?load A (set [?x]) (set S)" "live_objects c1 = Some []" "stack_ranges c1 = stack_ranges ?c"
      using stage [OF C cl live ok, of ?c] live_ranges_same by auto
    have "step1 = Some c1" using True s(1) live rg by (simp add: step1_def RegisterStackRange_def Let_def)
    then show ?thesis using that [of c1 S1] s True by (simp add: stack_roots_def own_stack_range_def)
  qed
  note f1 = same_check_fields [OF s1(4)]
  define step2 where "step2 = (case ignored_objects c1 of None \<Rightarrow> Some c1
     | Some os \<Rightarrow> do { c \<leftarrow> push_ignored os c1; IgnoreLiveObjectsLocked ?load c })"
  obtain S2 c2 where s2: "step2 = Some c2" "in_check A S2 c2" "closed_under ?load A (set S2)" "same_check c c2"
    "set S2 = reached ?load A (ignored_roots c) (set S1)" "live_objects c2 = Some []" "stack_ranges c2 = Some (own_stack_range c ranges)"
  proof (cases "ignored_objects c")
    case None
    then show ?thesis using that [of c1 S1] s1 f1 reached_empty [OF s1(3)] by (simp add: step2_def ignored_roots_def)
  next
    case (Some os)
    let ?live = "map (\<lambda>(p, n). \<lparr>ao_ptr = p, ao_size = n, ao_place = MUST_BE_ON_HEAP\<rparr>) (rev os)"
    have heap: "\<forall>(p, n)\<in>set os. \<exists>b. AM_Find A p = Some (b, n)" using on Some A by (simp add: ignored_objects_on_heap_def)
    then have p: "push_ignored os c1 = Some (c1\<lparr>live_objects := Some ?live\<rparr>)"
      using push_ignored_spec [of os A c1 "[]"] s1(2,6) by (simp add: in_check_def)
    have "\<forall>x\<in>set ?live. root_ok A x" using heap by (auto simp: root_ok_def resolve_def)
    then obtain S2 c2 where s: "IgnoreLiveObjectsLocked ?load (c1\<lparr>live_objects := Some ?live\<rparr>) = Some c2" "in_check A S2 c2" "closed_under ?load A (set S2)"
      "same_check c1 c2" "set S2 = reached ?load A (set ?live) (set S1)" "live_objects c2 = Some []" "stack_ranges c2 = stack_ranges c1"
      using stage [OF s1(2,3,6) _ live_same [of c1 "Some ?live"], of ?live] by auto
    have "set ?live = ignored_roots c" using Some by (auto simp: ignored_roots_def)
    then show ?thesis using that [of c2 S2] s s1 f1 p Some same_check_trans [OF s1(4) s(4)] by (simp add: step2_def)
  qed
  note f2 = same_check_fields [OF s2(4)]
  obtain new where new: "disabled_live c2 = Some (c2\<lparr>live_objects := Some (new @ [])\<rparr>)"
    "set new = {\<lparr>ao_ptr = p, ao_size = n, ao_place = MUST_BE_ON_HEAP\<rparr> | p b n. (p, b, n) \<in> set (AM_entries (allocation (hck_prof c2))) \<and>
      stack_disabled c2 (b_stack (buckets (hck_prof c2) b)) 0 \<and> \<not> holds_stack (own_stack_range c ranges) p n}"
    using disabled_fold [OF s2(7,6), of "AM_entries (allocation (hck_prof c2))"] unfolding disabled_live_def AM_Iterate_def by blast
  have n: "set new = disabled_roots c (own_stack_range c ranges)"
    unfolding new(2) disabled_roots_def f2 A same_check_disabled [OF s2(4)] using AM_entries_mem [OF wf] by auto
  have "\<forall>x\<in>set new. root_ok A x" unfolding n by (auto simp: disabled_roots_def root_ok_def resolve_def A)
  then obtain S3 c3 where s3: "IgnoreLiveObjectsLocked ?load (c2\<lparr>live_objects := Some new\<rparr>) = Some c3" "in_check A S3 c3" "closed_under ?load A (set S3)"
    "same_check c2 c3" "set S3 = reached ?load A (set new) (set S2)" "live_objects c3 = Some []"
    using stage [OF s2(2,3,6) _ live_same [of c2 "Some new"]] by auto
  note sc3 = same_check_trans [OF s2(4) s3(4)]
  note f3 = same_check_fields [OF sc3]
  have run: "IgnoreNonThreadLiveObjectsLocked env c = (if FLAGS_ignore_global_live c3 then do {
       ls \<leftarrow> library_live_objects c3; c \<leftarrow> search_libraries env ls c3; Some (c\<lparr>library_live_objects := None\<rparr>) } else Some c3)"
    unfolding IgnoreNonThreadLiveObjectsLocked_def step1_def [symmetric] using s1(1) s2(1) new(1) s3(1) by (simp add: step2_def)
  show ?thesis
  proof (cases "FLAGS_ignore_global_live c")
    case False
    have "set S3 = reached ?load A (all_roots c ranges) (set S)"
      unfolding s3(5) s2(5) s1(5) n all_roots_def reached_Un using False reached_empty [OF reached_closed_under] by (simp add: library_roots_def)
    then show ?thesis using run False f3 s3 sc3 by auto
  next
    case True
    then obtain ls where ls: "library_live_objects c = Some ls" "\<forall>(f, xs)\<in>set ls. \<forall>x\<in>set xs. ao_place x = IN_GLOBAL_DATA"
      using lib by (auto simp: libraries_ready_def)
    then have "\<forall>(f, xs)\<in>set ls. \<forall>x\<in>set xs. root_ok A x" by (auto simp: root_ok_def)
    then obtain S4 where S4: "search_libraries env ls c3 = Some (after_search c3 S3 S4 c3)" "distinct S4"
      "set S4 = reached ?load A (\<Union>(f, xs)\<in>set ls. set xs) (set S3)"
      using search_libraries_spec [OF s3(2,6) _ s3(3)] by blast
    have "set S4 = reached ?load A (all_roots c ranges) (set S)"
      unfolding S4(3) s3(5) s2(5) s1(5) n all_roots_def reached_Un using True ls by (simp add: library_roots_def)
    moreover have "same_check c (after_search c3 S3 S4 c3)" by (rule same_check_trans [OF sc3 after_search_same])
    moreover have "in_check A S4 ((after_search c3 S3 S4 c3)\<lparr>library_live_objects := None\<rparr>)"
      using in_check_after [OF s3(2) S4(2), of c3] by (simp add: in_check_def)
    ultimately show ?thesis using run True f3 ls(1) S4(1)
      by (intro exI [of _ S4] exI [of _ "(after_search c3 S3 S4 c3)\<lparr>library_live_objects := None\<rparr>"]) (auto simp: after_search_def)
  qed
qed

section \<open>The other threads\<close>

lemma reached_add: "reached load A {} (reached load A R I \<union> T) = reached load A R (I \<union> T)"
proof
  show "reached load A {} (reached load A R I \<union> T) \<subseteq> reached load A R (I \<union> T)"
  proof (rule reached_least)
    have "reached load A R I \<subseteq> reached load A R (I \<union> T)" by (rule reached_mono) auto
    then show "reached load A R I \<union> T \<subseteq> reached load A R (I \<union> T)" using reached_start [of _ "I \<union> T"] by blast
  qed (simp_all add: reached_closed)
  let ?X = "reached load A {} (reached load A R I \<union> T)"
  have sub: "reached load A R I \<union> T \<subseteq> ?X" using reached_start by blast
  show "reached load A R (I \<union> T) \<subseteq> ?X"
  proof (rule reached_least)
    show "I \<union> T \<subseteq> ?X" using sub reached_start [of _ I load A R] by blast
    show "root_object A x \<subseteq> ?X" "targets load A (words_of (ao_ptr x) (ao_size x)) \<subseteq> ?X" if "x \<in> R" for x
      using that sub reached_root [of x R _ A load I] reached_from_root [of x R _ load A I] by blast+
  qed (rule reached_closed)
qed

text \<open>Everything that is reached is on the heap.\<close>

definition heap_of :: "alloc_value AddressMap \<Rightarrow> u64 set" where
  "heap_of A = {p. AM_Find A p \<noteq> None}"

lemma reached_heap:
  assumes "I \<subseteq> heap_of A"
  shows "reached load A R I \<subseteq> heap_of A"
  by (rule reached_least) (use assms resolve_bytes in \<open>auto simp: heap_of_def targets_def root_object_def split: if_splits\<close>)

text \<open>Two memories that agree on the heap objects reach the same from objects on the heap.\<close>

lemma targets_cong: "(\<And>a. a \<in> W \<Longrightarrow> load a = load' a) \<Longrightarrow> targets load A W = targets load' A W"
  by (auto simp: targets_def)

definition register_copy :: "hc_env \<Rightarrow> u64 list \<Rightarrow> u64 set" where
  "register_copy env regs = {a. unat (a - hce_registers_at env) < 8 * length regs}"

text \<open>The copy of the registers is aligned, fits and is not inside a recorded object.\<close>

definition copy_ok :: "hc_env \<Rightarrow> u64 list \<Rightarrow> alloc_value AddressMap \<Rightarrow> bool" where
  "copy_ok env regs A \<longleftrightarrow> unat (hce_registers_at env) mod 8 = 0 \<and> length regs < 2 ^ 32 \<and>
     (\<forall>p\<in>heap_of A. words_of p (object_bytes A p) \<inter> register_copy env regs = {})"

definition register_targets :: "alloc_value AddressMap \<Rightarrow> u64 list \<Rightarrow> u64 set" where
  "register_targets A regs = {p. \<exists>r\<in>set regs. \<exists>n. (ucast r :: u32) \<noteq> 0 \<and> resolve A (ucast (ucast r :: u32)) = Some (p, n)}"

lemma registers_load_heap:
  assumes "copy_ok env regs A" and "p \<in> heap_of A"
  shows "targets (registers_load env regs) A (words_of p (object_bytes A p)) = targets (hce_load32 env) A (words_of p (object_bytes A p))"
proof (rule targets_cong)
  fix a assume "a \<in> words_of p (object_bytes A p)"
  then have "a \<notin> register_copy env regs" using assms by (auto simp: copy_ok_def)
  then show "registers_load env regs a = hce_load32 env a" by (simp add: registers_load_def register_copy_def Let_def)
qed

lemma registers_targets:
  assumes "copy_ok env regs A"
  shows "targets (registers_load env regs) A (words_of (hce_registers_at env) (word_of_nat (length regs) * 8)) = register_targets A regs"
proof -
  let ?R = "hce_registers_at env" and ?n = "length regs"
  have n: "?n < 2 ^ 32" and R: "unat ?R mod 8 = 0" using assms by (simp_all add: copy_ok_def)
  have "unat (word_of_nat ?n :: u64) = ?n" using n by (intro of_nat_inverse [OF refl]) simp
  then have sz: "unat (word_of_nat ?n * 8 :: u64) = 8 * ?n" using n by (simp add: unat_mult_no_wrap)
  have "?R mod 8 = 0" by (rule word_unat_eq_iff [THEN iffD2]) (simp add: unat_mod R)
  then have w: "words_of ?R (word_of_nat ?n * 8) = (\<lambda>i. ?R + 8 * word_of_nat i) ` {..<?n}"
    by (simp add: words_of_def align_object_def words_from_def sz)
  have l: "registers_load env regs (?R + 8 * word_of_nat i) = ucast (regs ! i)" if "i < ?n" for i
  proof -
    have "unat (word_of_nat i :: u64) = i" using n that by (intro of_nat_inverse [OF refl]) simp
    then have "unat (8 * word_of_nat i :: u64) = 8 * i" using n that by (simp add: unat_mult_no_wrap)
    then show ?thesis using that by (simp add: registers_load_def Let_def)
  qed
  have "targets (registers_load env regs) A (words_of ?R (word_of_nat ?n * 8)) =
    {p. \<exists>i<?n. \<exists>m. (ucast (regs ! i) :: u32) \<noteq> 0 \<and> resolve A (ucast (ucast (regs ! i) :: u32)) = Some (p, m)}"
    unfolding w targets_def using l by auto
  also have "\<dots> = register_targets A regs"
    unfolding register_targets_def set_conv_nth by blast
  finally show ?thesis .
qed

text \<open>The stage that searches the registers, in terms of the memory itself.\<close>

lemma registers_reach:
  assumes ok: "copy_ok env regs A" and S: "set S \<subseteq> heap_of A" and cl: "closed_under (hce_load32 env) A (set S)"
    and x: "x = \<lparr>ao_ptr = hce_registers_at env, ao_size = word_of_nat (length regs) * 8, ao_place = THREAD_REGISTERS\<rparr>"
  shows "reached (registers_load env regs) A {x} (set S) = reached (hce_load32 env) A {} (set S \<union> register_targets A regs)"
proof -
  let ?T = "register_targets A regs" and ?L = "registers_load env regs" and ?M = "hce_load32 env"
  have T: "targets ?L A (words_of (ao_ptr x) (ao_size x)) = ?T" using registers_targets [OF ok] by (simp add: x)
  have heap: "set S \<union> ?T \<subseteq> heap_of A" using S resolve_bytes by (auto simp: register_targets_def heap_of_def)
  have r0: "root_object A x = {}" by (simp add: root_object_def x)
  have h1: "reached ?L A {x} (set S) \<subseteq> heap_of A" by (rule reached_heap [OF S])
  have h2: "reached ?M A {} (set S \<union> ?T) \<subseteq> heap_of A" by (rule reached_heap [OF heap])
  show ?thesis
  proof
    show "reached ?L A {x} (set S) \<subseteq> reached ?M A {} (set S \<union> ?T)"
    proof (rule reached_least)
      show "set S \<subseteq> reached ?M A {} (set S \<union> ?T)" using reached_start [of _ "set S \<union> ?T"] by blast
      show "targets ?L A (words_of (ao_ptr y) (ao_size y)) \<subseteq> reached ?M A {} (set S \<union> ?T)" if "y \<in> {x}" for y
        using that T reached_start [of _ "set S \<union> ?T"] by blast
      show "targets ?L A (words_of p (object_bytes A p)) \<subseteq> reached ?M A {} (set S \<union> ?T)" if "p \<in> reached ?M A {} (set S \<union> ?T)" for p
        using registers_load_heap [OF ok, of p] h2 that reached_closed [OF that] by blast
    qed (use r0 in auto)
    show "reached ?M A {} (set S \<union> ?T) \<subseteq> reached ?L A {x} (set S)"
    proof (rule reached_least)
      show "set S \<union> ?T \<subseteq> reached ?L A {x} (set S)"
        using reached_start [of _ "set S" ?L A "{x}"] reached_from_root [of x "{x}" _ ?L A "set S"] T by blast
      show "targets ?M A (words_of p (object_bytes A p)) \<subseteq> reached ?L A {x} (set S)" if "p \<in> reached ?L A {x} (set S)" for p
        using registers_load_heap [OF ok, of p] h1 that reached_closed [OF that] by blast
    qed auto
  qed
qed

definition other_thread :: "int \<Rightarrow> int \<times> thread_state option \<Rightarrow> thread_state option" where
  "other_thread self x = (if fst x = self then None else snd x)"

definition thread_stacks :: "hc_env \<Rightarrow> int \<Rightarrow> (int \<times> thread_state option) list \<Rightarrow> AllocObject set" where
  "thread_stacks env self ts = {\<lparr>ao_ptr = min (th_SP t) b, ao_size = max (th_SP t) b - min (th_SP t) b, ao_place = THREAD_STACK\<rparr> | t tp b.
     \<exists>x\<in>set ts. other_thread self x = Some t \<and> hce_GetStackExtent env (th_BP t) = Some (tp, b)}"

definition thread_registers :: "int \<Rightarrow> (int \<times> thread_state option) list \<Rightarrow> u64 list" where
  "thread_registers self ts = concat (map (\<lambda>x. case other_thread self x of None \<Rightarrow> [] | Some t \<Rightarrow> th_regs t) ts)"

fun thread_ranges :: "hc_env \<Rightarrow> int \<Rightarrow> (int \<times> thread_state option) list \<Rightarrow> (u64 \<times> u64) list \<Rightarrow> (u64 \<times> u64) list" where
  "thread_ranges env self [] ranges = ranges"
| "thread_ranges env self (x # ts) ranges = thread_ranges env self ts
     (case other_thread self x of None \<Rightarrow> ranges
      | Some t \<Rightarrow> (case hce_GetStackExtent env (th_BP t) of None \<Rightarrow> ranges
                 | Some (_, b) \<Rightarrow> snd (omap_insert (min (th_SP t) b) (max (th_SP t) b) ranges)))"

lemma thread_roots_spec:
  assumes "live_objects c = Some live" and "stack_ranges c = Some ranges"
  shows "\<exists>new f'. thread_roots env ts regs f c = Some (regs @ thread_registers (self_thread_pid c) ts, f',
      c\<lparr>live_objects := Some (new @ live), stack_ranges := Some (thread_ranges env (self_thread_pid c) ts ranges)\<rparr>) \<and>
    set new = thread_stacks env (self_thread_pid c) ts"
  using assms
proof (induction ts arbitrary: regs f c live ranges)
  case Nil
  then show ?case by (cases c) (auto simp: thread_registers_def thread_stacks_def)
next
  case (Cons x ts)
  obtain pid st where x: "x = (pid, st)" by (cases x)
  let ?self = "self_thread_pid c"
  show ?case
  proof (cases "other_thread ?self x")
    case None
    then have "\<exists>f'. thread_roots env (x # ts) regs f c = thread_roots env ts regs f' c"
      by (auto simp: x other_thread_def split: if_splits)
    moreover have "thread_stacks env ?self (x # ts) = thread_stacks env ?self ts"
      "thread_registers ?self (x # ts) = thread_registers ?self ts"
      using None by (auto simp: thread_stacks_def thread_registers_def)
    ultimately show ?thesis using Cons.IH [OF Cons.prems, of regs] None by fastforce
  next
    case (Some t)
    then have t: "pid \<noteq> ?self" "st = Some t" by (auto simp: other_thread_def x split: if_splits)
    have rg: "thread_registers ?self (x # ts) = th_regs t @ thread_registers ?self ts" using Some by (simp add: thread_registers_def)
    show ?thesis
    proof (cases "hce_GetStackExtent env (th_BP t)")
      case None
      have "thread_stacks env ?self (x # ts) = thread_stacks env ?self ts"
        using None Some by (auto simp: thread_stacks_def)
      then show ?thesis using Cons.IH [OF Cons.prems, of "regs @ th_regs t" "f + 1"] None Some t rg by (simp add: x)
    next
      case (Some e)
      obtain tp b where e: "e = (tp, b)" by (cases e)
      let ?o = "\<lparr>ao_ptr = min (th_SP t) b, ao_size = max (th_SP t) b - min (th_SP t) b, ao_place = THREAD_STACK\<rparr>"
      let ?r = "snd (omap_insert (min (th_SP t) b) (max (th_SP t) b) ranges)"
      let ?c = "c\<lparr>live_objects := Some (?o # live), stack_ranges := Some ?r\<rparr>"
      have run: "thread_roots env (x # ts) regs f c = thread_roots env ts (regs @ th_regs t) f ?c"
        using Some e t Cons.prems by (simp add: x RegisterStackRange_def Let_def)
      obtain new f' where IH: "thread_roots env ts (regs @ th_regs t) f ?c = Some ((regs @ th_regs t) @ thread_registers ?self ts, f',
          ?c\<lparr>live_objects := Some (new @ ?o # live), stack_ranges := Some (thread_ranges env ?self ts ?r)\<rparr>)"
        "set new = thread_stacks env ?self ts"
        using Cons.IH [of ?c "?o # live" ?r "regs @ th_regs t" f] by auto
      have "thread_stacks env ?self (x # ts) = insert ?o (thread_stacks env ?self ts)"
        using \<open>other_thread ?self x = Some t\<close> Some e by (auto simp: thread_stacks_def)
      then show ?thesis using run IH rg \<open>other_thread ?self x = Some t\<close> Some e
        by (intro exI [of _ "new @ [?o]"] exI [of _ f']) simp
    qed
  qed
qed

section \<open>A whole check\<close>

text \<open>Reading the mapped files changes only the list of their data.\<close>

definition library_data :: "heap_check \<Rightarrow> bool" where
  "library_data c \<longleftrightarrow> (\<exists>ls. library_live_objects c = Some ls \<and> (\<forall>(f, xs)\<in>set ls. \<forall>x\<in>set xs. ao_place x = IN_GLOBAL_DATA))"

lemma library_push_all: "\<forall>(f, xs)\<in>set m. \<forall>x\<in>set xs. P x \<Longrightarrow> P x \<Longrightarrow> \<forall>(f, xs)\<in>set (library_push f x m). \<forall>x\<in>set xs. P x"
  unfolding split_beta by (induction f x m rule: library_push.induct) simp_all

lemma find_segment_place:
  "find_segment page s e off es fnd = Some (Some x) \<Longrightarrow> (\<forall>y. fnd = Some y \<longrightarrow> ao_place y = IN_GLOBAL_DATA) \<Longrightarrow> ao_place x = IN_GLOBAL_DATA"
  by (induction es arbitrary: fnd) (auto split: if_splits)

definition lib_same :: "heap_check \<Rightarrow> heap_check \<Rightarrow> bool" where
  "lib_same c c' \<longleftrightarrow> c'\<lparr>library_live_objects := None\<rparr> = c\<lparr>library_live_objects := None\<rparr>"

lemma RecordGlobalData_data:
  assumes "RecordGlobalDataLocked env pm c = Some (b, c')" and "library_data c"
  shows "library_data c' \<and> lib_same c c'"
proof (cases "c' = c")
  case True
  then show ?thesis using assms(2) by (simp add: lib_same_def)
next
  case False
  then obtain x m where r: "find_segment (page_size (hpe_sys (hce_hp env))) (pm_start pm) (pm_end pm) (pm_offset pm) (the (e_phdrs (the (hce_elf env (pm_filename pm))))) None = Some (Some x)"
    "library_live_objects c = Some m" "c' = c\<lparr>library_live_objects := Some (library_push (pm_filename pm) x m)\<rparr>"
    using assms(1) by (auto simp: RecordGlobalDataLocked_def option_monad Let_def split: if_splits option.splits)
  have "ao_place x = IN_GLOBAL_DATA" using find_segment_place [OF r(1)] by simp
  then have "library_data c'" using assms(2) r(2) library_push_all [of m "\<lambda>x. ao_place x = IN_GLOBAL_DATA" x] unfolding library_data_def r(3) by simp
  then show ?thesis using r(3) by (simp add: lib_same_def)
qed

lemma proc_maps_data:
  assumes "proc_maps_loop env RECORD_GLOBAL_DATA_LOCKED pms saw c = Some (r, c')" and "library_data c"
  shows "library_data c' \<and> lib_same c c'"
  using assms
proof (induction pms arbitrary: saw c)
  case Nil
  then show ?case by (simp add: lib_same_def)
next
  case (Cons pm pms)
  show ?case
  proof (cases "pm_start pm \<ge> pm_end pm")
    case True
    then show ?thesis using Cons by (auto split: if_splits)
  next
    case False
    then obtain c1 where c1: "RecordGlobalDataLocked env pm c = Some (True, c1)"
      "proc_maps_loop env RECORD_GLOBAL_DATA_LOCKED pms (saw \<or> shared_lib pm) c1 = Some (r, c')"
      using Cons.prems(1) by (auto simp: proc_map_task_def option_monad)
    have d: "library_data c1" "lib_same c c1" using RecordGlobalData_data [OF c1(1) Cons.prems(2)] by auto
    from Cons.IH [OF c1(2) d(1)] d(2) show ?thesis by (simp add: lib_same_def)
  qed
qed

lemma UseProcMaps_data:
  assumes "UseProcMaps env RECORD_GLOBAL_DATA_LOCKED c = Some (r, c')" and "library_data c"
  shows "library_data c' \<and> lib_same c c'"
proof (cases "hce_maps env")
  case None
  then show ?thesis using assms by (simp add: UseProcMaps_def lib_same_def)
next
  case (Some pms)
  then obtain saw where "proc_maps_loop env RECORD_GLOBAL_DATA_LOCKED pms False c = Some (saw, c')"
    using assms(1) by (auto simp: UseProcMaps_def option_monad split: if_splits)
  then show ?thesis using proc_maps_data assms(2) by blast
qed

text \<open>The callback: stacks and registers of the other threads, then the rest.\<close>

lemma IgnoreLiveThreads_spec:
  assumes C: "in_check A [] c" and wf: "AM_wf A" and live: "live_objects c = Some []" and rg: "stack_ranges c = Some []"
    and on: "ignored_objects_on_heap c" and lib: "libraries_ready c"
    and copy: "copy_ok env (thread_registers (self_thread_pid c) ts) A"
  shows "\<exists>f S' c'. IgnoreLiveThreads env ts c = Some (f, c') \<and> in_check A S' c' \<and>
    set S' = reached (hce_load32 env) A (thread_stacks env (self_thread_pid c) ts \<union> all_roots c (thread_ranges env (self_thread_pid c) ts []))
      (register_targets A (thread_registers (self_thread_pid c) ts)) \<and> thread_listing_status c' = CALLBACK_COMPLETED \<and>
    (\<exists>c''. same_check c c'' \<and> (c' = c'' \<or> c' = c''\<lparr>library_live_objects := None\<rparr>))"
proof -
  let ?load = "hce_load32 env" and ?self = "self_thread_pid c"
  let ?regs = "thread_registers ?self ts" and ?ranges = "thread_ranges env ?self ts []"
  let ?T = "register_targets A ?regs"
  let ?c0 = "c\<lparr>thread_listing_status := CALLBACK_STARTED\<rparr>"
  have C0: "in_check A [] ?c0" using C by (simp add: in_check_def)
  have cl0: "closed_under ?load A (set [])" by (simp add: closed_under_def)
  obtain new f where r: "thread_roots env ts [] 0 ?c0 = Some (?regs, f, ?c0\<lparr>live_objects := Some new, stack_ranges := Some ?ranges\<rparr>)"
    "set new = thread_stacks env ?self ts"
    using thread_roots_spec [of ?c0 "[]" "[]" env ts "[]" 0] live rg by auto
  let ?c1 = "?c0\<lparr>live_objects := Some new, stack_ranges := Some ?ranges\<rparr>"
  have ok: "\<forall>x\<in>set new. root_ok A x" unfolding r(2) by (auto simp: thread_stacks_def root_ok_def)
  have l0: "live_objects ?c0 = Some []" using live by simp
  obtain S2 c2 where s2: "IgnoreLiveObjectsLocked ?load ?c1 = Some c2" "in_check A S2 c2" "closed_under ?load A (set S2)" "same_check ?c0 c2"
    "set S2 = reached ?load A (set new) (set [])" "live_objects c2 = Some []" "stack_ranges c2 = Some ?ranges"
    using stage [OF C0 cl0 l0 ok, of ?c1] live_ranges_same [of ?c0] by auto
  have heap2: "set S2 \<subseteq> heap_of A" unfolding s2(5) by (rule reached_heap) simp
  let ?x = "\<lparr>ao_ptr = hce_registers_at env, ao_size = word_of_nat (length ?regs) * 8, ao_place = THREAD_REGISTERS\<rparr>"
  define step3 where "step3 = (if ?regs \<noteq> [] then do {
     live \<leftarrow> live_objects c2; IgnoreLiveObjectsLocked (registers_load env ?regs) (c2\<lparr>live_objects := Some (?x # live)\<rparr>) } else Some c2)"
  obtain S3 c3 where s3: "step3 = Some c3" "in_check A S3 c3" "closed_under ?load A (set S3)" "same_check ?c0 c3"
    "set S3 = reached ?load A {} (set S2 \<union> ?T)" "live_objects c3 = Some []" "stack_ranges c3 = Some ?ranges"
  proof (cases "?regs = []")
    case True
    then have "?T = {}" by (simp add: register_targets_def)
    then show ?thesis using that [of c2 S2] s2 True reached_empty [OF s2(3)] by (simp add: step3_def)
  next
    case False
    have clr: "closed_under (registers_load env ?regs) A (set S2)"
      unfolding closed_under_def
    proof
      fix p assume p: "p \<in> set S2"
      then have "p \<in> heap_of A" using heap2 by blast
      then show "targets (registers_load env ?regs) A (words_of p (object_bytes A p)) \<subseteq> set S2"
        using s2(3) p unfolding registers_load_heap [OF copy \<open>p \<in> heap_of A\<close>] closed_under_def by blast
    qed
    have okx: "\<forall>y\<in>set [?x]. root_ok A y" by (simp add: root_ok_def)
    obtain S3 c3 where s: "IgnoreLiveObjectsLocked (registers_load env ?regs) (c2\<lparr>live_objects := Some [?x]\<rparr>) = Some c3" "in_check A S3 c3"
      "same_check c2 c3" "set S3 = reached (registers_load env ?regs) A (set [?x]) (set S2)" "live_objects c3 = Some []" "stack_ranges c3 = stack_ranges c2"
      using stage [OF s2(2) clr s2(6) okx live_same] by auto
    have S3: "set S3 = reached ?load A {} (set S2 \<union> ?T)" using s(4) registers_reach [OF copy heap2 s2(3) refl] by simp
    then have "closed_under ?load A (set S3)" using reached_closed_under by simp
    then show ?thesis using that [of c3 S3] s S3 s2(6,7) False same_check_trans [OF s2(4) s(3)] by (simp add: step3_def)
  qed
  have cc0: "same_check c ?c0" by (simp add: same_check_def blank_check_state_def)
  note sc = same_check_trans [OF cc0 s3(4)]
  note f3 = same_check_fields [OF sc]
  have on3: "ignored_objects_on_heap c3" and lib3: "libraries_ready c3"
    using on lib by (simp_all add: ignored_objects_on_heap_def libraries_ready_def f3)
  obtain S4 c4 where s4: "IgnoreNonThreadLiveObjectsLocked env c3 = Some c4" "in_check A S4 c4"
    "set S4 = reached ?load A (all_roots c3 ?ranges) (set S3)" "\<exists>c''. same_check c3 c'' \<and> (c4 = c'' \<or> c4 = c''\<lparr>library_live_objects := None\<rparr>)"
    using IgnoreNonThread_spec [OF s3(2) wf s3(6,7,3) on3 lib3] by blast
  have roots: "all_roots c3 ?ranges = all_roots c ?ranges"
    by (simp add: all_roots_def stack_roots_def ignored_roots_def disabled_roots_def own_stack_range_def library_roots_def f3 same_check_disabled [OF sc])
  have S4: "set S4 = reached ?load A (thread_stacks env ?self ts \<union> all_roots c ?ranges) ?T"
    unfolding s4(3) roots s3(5) s2(5) r(2) reached_add reached_Un by simp
  let ?c5 = "c4\<lparr>thread_listing_status := CALLBACK_COMPLETED\<rparr>"
  have run: "IgnoreLiveThreads env ts c = Some (f, ?c5)"
    unfolding IgnoreLiveThreads_def using r(1) s2(1) s3(1) s4(1) by (simp add: step3_def Let_def)
  obtain c'' where c'': "same_check c3 c''" "c4 = c'' \<or> c4 = c''\<lparr>library_live_objects := None\<rparr>" using s4(4) by blast
  let ?c6 = "c''\<lparr>thread_listing_status := CALLBACK_COMPLETED\<rparr>"
  have "same_check c'' ?c6" by (simp add: same_check_def blank_check_state_def)
  then have "same_check c ?c6" using same_check_trans [OF sc same_check_trans [OF c''(1)]] by blast
  moreover have "?c5 = ?c6 \<or> ?c5 = ?c6\<lparr>library_live_objects := None\<rparr>" using c''(2) by auto
  moreover have "in_check A S4 ?c5" using s4(2) by (simp add: in_check_def)
  ultimately show ?thesis using run S4 by (intro exI [of _ f] exI [of _ S4] exI [of _ ?c5]) auto
qed

end
