(* ===== verification/Threads.thy ===== *)
theory Threads
  imports Prelude
begin

text \<open>
  \<open>base/threads.cpp\<close>: the process that stops every thread of the program so that the leak checker can look at
  their stacks and registers. It shares the program's memory, reads the list of threads from \<open>/proc\<close>, attaches to
  each of them with \<open>ptrace\<close>, runs a callback while they are stopped and lets them go.

  The kernel is a parameter, a record of functions on a state \<open>'w\<close> of the world. Calls that a signal interrupts are
  repeated by the code; the functions give the outcome of the first call that is not. The memory for the paths is
  large enough for the numbers that are written into it and is not modelled.
\<close>

section \<open>Numbers in paths\<close>

definition local_digit :: "int \<Rightarrow> char" where "local_digit d = char_of (48 + d)"

text \<open>Negating the least \<open>int\<close> and numbers above the greatest are undefined in C: \<open>None\<close>.\<close>

function local_itoa :: "int \<Rightarrow> string option" where
  "local_itoa i =
     (if i < 0 then if - i < 2 ^ 31 then map_option (Cons (CHR ''-'')) (local_itoa (- i)) else None
      else do { buf \<leftarrow> (if i \<ge> 10 then local_itoa (i div 10) else Some []); Some (buf @ [local_digit (i mod 10)]) })"
  by auto
termination by (relation "measures [\<lambda>i. if i < 0 then 1 else 0, \<lambda>i. nat i]") auto

declare local_itoa.simps [simp del]

definition is_digit :: "char \<Rightarrow> bool" where "is_digit c \<longleftrightarrow> 48 \<le> (of_char c :: int) \<and> (of_char c :: int) \<le> 57"

fun atoi_loop :: "int \<Rightarrow> string \<Rightarrow> int option" where
  "atoi_loop n [] = Some n"
| "atoi_loop n (c # s) =
     (if is_digit c then
        let n = 10 * n + (of_char c - 48) in if n < 2 ^ 31 then atoi_loop n s else None
      else Some n)"

definition local_atoi :: "string \<Rightarrow> int option" where
  "local_atoi s = (case s of CHR ''-'' # t \<Rightarrow> map_option uminus (atoi_loop 0 t) | _ \<Rightarrow> atoi_loop 0 s)"

section \<open>The lister\<close>

record dirent =
  d_ino :: u64
  d_name :: string

record 'w task_os =
  os_socket :: "'w \<Rightarrow> int option \<times> 'w"
  os_inode :: "string \<Rightarrow> 'w \<Rightarrow> u64 option \<times> 'w"
  os_open :: "string \<Rightarrow> 'w \<Rightarrow> bool \<times> 'w"
  os_nlink :: "'w \<Rightarrow> int option \<times> 'w"
  os_getdents :: "'w \<Rightarrow> dirent list option \<times> 'w"
  os_rewind :: "'w \<Rightarrow> 'w"
  os_attach :: "int \<Rightarrow> 'w \<Rightarrow> bool \<times> 'w"
  os_wait :: "int \<Rightarrow> 'w \<Rightarrow> bool \<times> 'w"
  os_peek :: "int \<Rightarrow> int \<Rightarrow> 'w \<Rightarrow> int option \<times> 'w"
  os_detach :: "int \<Rightarrow> 'w \<Rightarrow> bool \<times> 'w"
  os_errno :: "'w \<Rightarrow> int"

text \<open>The locals of \<open>ListerThread\<close> and what it leaves in \<open>args\<close>; \<open>pids\<close> holds \<open>num_threads\<close> entries.\<close>

record 'w lister =
  world :: 'w
  pids :: "int list"
  max_threads :: int
  added_entries :: nat
  found_parent :: bool
  l_result :: int
  l_err :: int

record lister_ids =
  clone_pid :: int
  ppid :: int
  marker_path :: string
  marker_ino :: u64
  proc_paths :: "string list"

definition EINVAL_no :: int where "EINVAL_no = 22"

definition sys_ptrace_detach :: "'w task_os \<Rightarrow> int \<Rightarrow> 'w lister \<Rightarrow> bool \<times> 'w lister" where
  "sys_ptrace_detach os pid s =
     (let (ok, w) = os_detach os pid (world s) in (ok, s\<lparr>world := w\<rparr>))"

text \<open>From the last thread to the first.\<close>

fun ResumeAllProcessThreads :: "'w task_os \<Rightarrow> nat \<Rightarrow> int list \<Rightarrow> 'w lister \<Rightarrow> bool \<times> 'w lister" where
  "ResumeAllProcessThreads os 0 thread_pids s = (False, s)"
| "ResumeAllProcessThreads os (Suc n) thread_pids s =
     (let (ok, s) = sys_ptrace_detach os (thread_pids ! n) s;
          (detached_at_least_one, s) = ResumeAllProcessThreads os n thread_pids s
      in (ok \<or> detached_at_least_one, s))"

text \<open>
  Attaching to one thread. The two reads of the word \<open>i\<close> through the other thread's address space show whether it
  shares the memory; \<open>i\<close> is the loop variable, left at \<open>num_threads\<close>.
\<close>

definition attach_thread :: "'w task_os \<Rightarrow> lister_ids \<Rightarrow> int \<Rightarrow> 'w lister \<Rightarrow> 'w lister" where
  "attach_thread os p pid s =
     (let i = int (length (pids s)); (ok, w) = os_attach os pid (world s)
      in if \<not> ok then s\<lparr>world := w\<rparr> else
      let s = s\<lparr>world := w\<rparr>; (ok, w) = os_wait os pid (world s); s = s\<lparr>world := w\<rparr>
      in if \<not> ok then snd (sys_ptrace_detach os pid s) else
      let (j, w) = os_peek os pid i (world s); s = s\<lparr>world := w\<rparr>
      in if j \<noteq> Some i then snd (sys_ptrace_detach os pid s) else
      let i = i + 1; (j, w) = os_peek os pid i (world s); s = s\<lparr>world := w\<rparr>
      in if j \<noteq> Some i then snd (sys_ptrace_detach os pid s)
         else s\<lparr>pids := pids s @ [pid], found_parent := found_parent s \<or> pid = ppid p, added_entries := Suc (added_entries s)\<rparr>)"

text \<open>One directory entry; true when the array of threads is full.\<close>

definition lister_entry :: "'w task_os \<Rightarrow> lister_ids \<Rightarrow> dirent \<Rightarrow> 'w lister \<Rightarrow> (bool \<times> 'w lister) option" where
  "lister_entry os p entry s =
     (if d_ino entry = 0 then Some (False, s)
      else let ptr = (case d_name entry of CHR ''.'' # t \<Rightarrow> t | t \<Rightarrow> t)
           in if ptr = [] \<or> \<not> is_digit (hd ptr) then Some (False, s)
              else do {
                pid \<leftarrow> local_atoi ptr;
                if pid = 0 \<or> pid = clone_pid p then Some (False, s)
                else let (ino, w) = os_inode os (''/proc/'' @ d_name entry @ marker_path p) (world s); s = s\<lparr>world := w\<rparr>
                     in if ino \<noteq> Some (marker_ino p) \<or> pid \<in> set (pids s) then Some (False, s)
                        else if int (length (pids s)) \<ge> max_threads s then Some (True, s)
                        else Some (False, attach_thread os p pid s) })"

fun lister_entries :: "'w task_os \<Rightarrow> lister_ids \<Rightarrow> dirent list \<Rightarrow> 'w lister \<Rightarrow> (bool \<times> 'w lister) option" where
  "lister_entries os p [] s = Some (False, s)"
| "lister_entries os p (entry # entries) s = do {
     (full, s) \<leftarrow> lister_entry os p entry s;
     if full then Some (True, s) else lister_entries os p entries s }"

datatype scan_end = Scan_failed | Scan_full | Scan_done

text \<open>Reading the directory again until a pass adds no thread.\<close>

partial_function (option) lister_scan :: "'w task_os \<Rightarrow> lister_ids \<Rightarrow> 'w lister \<Rightarrow> (scan_end \<times> 'w lister) option" where
  "lister_scan os p s =
     (let (r, w) = os_getdents os (world s); s = s\<lparr>world := w\<rparr>
      in case r of
        None \<Rightarrow> Some (Scan_failed, s)
      | Some [] \<Rightarrow>
          if added_entries s \<noteq> 0 then lister_scan os p (s\<lparr>added_entries := 0, world := os_rewind os (world s)\<rparr>)
          else Some (Scan_done, s)
      | Some es \<Rightarrow> do {
          (full, s) \<leftarrow> lister_entries os p es s;
          if full then Some (Scan_full, s) else lister_scan os p s })"

declare lister_scan.simps [code]

text \<open>The callback while the threads are stopped, and what is done when it did not let them go.\<close>

definition lister_callback :: "'w task_os \<Rightarrow> ('w lister \<Rightarrow> int \<times> 'w lister) \<Rightarrow> 'w lister \<Rightarrow> 'w lister" where
  "lister_callback os callback s =
     (let (r, s) = callback s; s = s\<lparr>l_result := r, l_err := os_errno os (world s)\<rparr>;
          (resumed, s) = ResumeAllProcessThreads os (length (pids s)) (pids s) s
      in if resumed then s\<lparr>l_err := EINVAL_no, l_result := - 1\<rparr> else s)"

text \<open>The loop over the directories; the number is the status the lister exits with.\<close>

partial_function (option) lister_loop ::
  "'w task_os \<Rightarrow> lister_ids \<Rightarrow> ('w lister \<Rightarrow> int \<times> 'w lister) \<Rightarrow> nat \<Rightarrow> 'w lister \<Rightarrow> (int \<times> 'w lister) option" where
  "lister_loop os p callback proc_path s =
     (let (ok, w) = os_open os (proc_paths p ! proc_path) (world s); s = s\<lparr>world := w\<rparr>
      in if \<not> ok then
           if Suc proc_path < length (proc_paths p) then lister_loop os p callback (Suc proc_path) s
           else Some (1, s\<lparr>l_result := - 1, l_err := os_errno os (world s)\<rparr>)
         else let (nlink, w) = os_nlink os (world s); s = s\<lparr>world := w\<rparr>
              in case nlink of
                None \<Rightarrow> Some (1, s\<lparr>l_result := - 1, l_err := os_errno os (world s)\<rparr>)
              | Some n \<Rightarrow> do {
                  let s = s\<lparr>max_threads := max (max_threads s) (n + 100), added_entries := 0\<rparr>;
                  (r, s) \<leftarrow> lister_scan os p s;
                  if r = Scan_failed then Some (1, s\<lparr>l_result := - 1, l_err := os_errno os (world s)\<rparr>)
                  else if r = Scan_done \<and> (length (pids s) > 1 \<or> Suc proc_path = length (proc_paths p))
                  then if \<not> found_parent s then Some (3, snd (ResumeAllProcessThreads os (length (pids s)) (pids s) s))
                       else Some (0, lister_callback os callback s)
                  else let s = snd (ResumeAllProcessThreads os (length (pids s)) (pids s) s)
                       in lister_loop os p callback (if r = Scan_done then Suc proc_path else proc_path)
                            (s\<lparr>pids := [], max_threads := max_threads s + 100\<rparr>) })"

declare lister_loop.simps [code]

text \<open>\<open>ListerThread\<close> from the start: a socket marks the file table that the program's threads share.\<close>

definition ListerThread :: "'w task_os \<Rightarrow> ('w lister \<Rightarrow> int \<times> 'w lister) \<Rightarrow> int \<Rightarrow> int \<Rightarrow> 'w \<Rightarrow> (int \<times> 'w lister) option" where
  "ListerThread os callback self parent w = do {
     let (marker, w) = os_socket os w;
     let s = \<lparr>world = w, pids = [], max_threads = 0, added_entries = 0, found_parent = False, l_result = - 1, l_err = 0\<rparr>;
     case marker of
       None \<Rightarrow> Some (1, s\<lparr>l_err := os_errno os (world s)\<rparr>)
     | Some fd \<Rightarrow> do {
         parent_text \<leftarrow> local_itoa parent;
         fd_text \<leftarrow> local_itoa fd;
         let marker_path = ''/fd/'' @ fd_text;
         let (ino, w) = os_inode os (''/proc/'' @ parent_text @ marker_path) (world s);
         let s = s\<lparr>world := w\<rparr>;
         case ino of
           None \<Rightarrow> Some (1, s\<lparr>l_err := os_errno os (world s)\<rparr>)
         | Some ino \<Rightarrow>
             lister_loop os \<lparr>clone_pid = self, ppid = parent, marker_path = marker_path, marker_ino = ino,
                 proc_paths = [''/proc/'' @ parent_text @ ''/task/'', ''/proc/'']\<rparr> callback 0 s } }"

text \<open>A fatal signal in the lister: \<open>SIGABRT\<close> kills the threads, every other one lets them go.\<close>

definition SignalHandler :: "'w task_os \<Rightarrow> (int \<Rightarrow> 'w \<Rightarrow> 'w) \<Rightarrow> bool \<Rightarrow> 'w lister \<Rightarrow> int \<times> 'w lister" where
  "SignalHandler os kill abort s =
     (if abort then (1, s\<lparr>world := fold kill (rev (pids s)) (world s)\<rparr>)
      else (2, snd (ResumeAllProcessThreads os (length (pids s)) (pids s) s)))"

section \<open>The caller\<close>

datatype wait_status = Exited int | Signalled

definition EFAULT_no :: int where "EFAULT_no = 14"
definition EPERM_no :: int where "EPERM_no = 1"
definition ECHILD_no :: int where "ECHILD_no = 10"

text \<open>Result and \<open>errno\<close> from what \<open>waitpid\<close> says of the lister.\<close>

definition lister_verdict :: "wait_status \<Rightarrow> int \<times> int \<Rightarrow> int \<times> int" where
  "lister_verdict status args = (case status of
     Exited n \<Rightarrow> if n = 0 then args else if n = 2 then (- 1, EFAULT_no) else if n = 3 then (- 1, EPERM_no) else (- 1, ECHILD_no)
   | Signalled \<Rightarrow> (- 1, EFAULT_no))"

text \<open>
  \<open>ListAllProcessThreads\<close>: \<open>clone\<close> gives the process id of the lister or fails; the program is made dumpable
  meanwhile, so that it can be traced. The caller waits until the lister is gone.
\<close>

definition ListAllProcessThreads ::
  "'w task_os \<Rightarrow> ('w \<Rightarrow> int option \<times> 'w) \<Rightarrow> ('w \<Rightarrow> int) \<Rightarrow> (int \<Rightarrow> 'w \<Rightarrow> 'w) \<Rightarrow> ('w lister \<Rightarrow> int \<times> 'w lister) \<Rightarrow> int \<Rightarrow> 'w \<Rightarrow>
    ((int \<times> int) \<times> 'w) option" where
  "ListAllProcessThreads os clone get_dumpable set_dumpable callback me w = do {
     let dumpable = get_dumpable w;
     let w = (if dumpable = 0 then set_dumpable 1 w else w);
     let (child, w) = clone w;
     (r, w) \<leftarrow> (case child of
         Some pid \<Rightarrow> do {
           (status, s) \<leftarrow> ListerThread os callback pid me w;
           Some (lister_verdict (Exited status) (l_result s, l_err s), world s) }
       | None \<Rightarrow> Some ((- 1, os_errno os w), w));
     Some (r, if dumpable = 0 then set_dumpable dumpable w else w) }"

text \<open>\<open>base/thlist.cpp\<close>, for platforms without the lister: the callback sees the calling process only.\<close>

definition ListAllProcessThreads_self ::
  "('w \<Rightarrow> int) \<Rightarrow> (int \<Rightarrow> 'w \<Rightarrow> 'w) \<Rightarrow> (int list \<Rightarrow> 'w \<Rightarrow> int \<times> 'w) \<Rightarrow> int \<Rightarrow> 'w \<Rightarrow> int \<times> 'w" where
  "ListAllProcessThreads_self get_dumpable set_dumpable callback me w =
     (let dumpable = get_dumpable w;
          w = (if dumpable = 0 then set_dumpable 1 w else w);
          (rc, w) = callback [me] w
      in (rc, if dumpable = 0 then set_dumpable 0 w else w))"

definition ResumeAllProcessThreads_self :: "nat \<Rightarrow> int list \<Rightarrow> int" where
  "ResumeAllProcessThreads_self num_threads thread_pids = 1"

end
