(* ===== verification/ThreadsProps.thy ===== *)
theory ThreadsProps
  imports Threads
begin

text \<open>
  The lister stops each thread once, looks at them only while they are stopped, and lets them go unless a call of the
  kernel has failed; it ends for every finite set of threads. The numbers it writes into paths are the numbers it reads back.
\<close>

section \<open>Numbers\<close>

lemma local_digit: "0 \<le> d \<Longrightarrow> d \<le> 9 \<Longrightarrow> is_digit (local_digit d) \<and> (of_char (local_digit d) :: int) = 48 + d"
  by (simp add: is_digit_def local_digit_def)

lemma atoi_loop_digits:
  "0 \<le> i \<Longrightarrow> i < 2 ^ 31 \<Longrightarrow> \<exists>s. local_itoa i = Some s \<and> s \<noteq> [] \<and> hd s \<noteq> CHR ''-'' \<and>
     (\<forall>t. atoi_loop 0 (s @ t) = atoi_loop i t)"
proof (induction i rule: local_itoa.induct)
  case (1 i)
  have d: "is_digit (local_digit (i mod 10))" "(of_char (local_digit (i mod 10)) :: int) = 48 + i mod 10"
    using local_digit [of "i mod 10"] by auto
  have m: "local_digit (i mod 10) \<noteq> CHR ''-''" using d(1) by (auto simp: is_digit_def)
  have e: "10 * (i div 10) + i mod 10 = i" by simp
  show ?case
  proof (cases "i \<ge> 10")
    case True
    obtain s where s: "local_itoa (i div 10) = Some s" "s \<noteq> []" "hd s \<noteq> CHR ''-''" "\<And>t. atoi_loop 0 (s @ t) = atoi_loop (i div 10) t"
    proof -
      have "0 \<le> i div 10" "i div 10 < 2 ^ 31" "\<not> i < 0" using 1(3,4) by auto
      then show thesis using 1(2) [OF _ True] that by blast
    qed
    then show ?thesis using 1(3,4) True d e by (simp add: local_itoa.simps [of i])
  next
    case False
    then show ?thesis using 1(3,4) d m by (simp add: local_itoa.simps [of i])
  qed
qed

text \<open>
  \<open>local_itoa\<close> writes every \<open>int\<close> but the least one, and \<open>local_atoi\<close> reads the same number back.
\<close>

lemma local_atoi_itoa:
  assumes "- (2 ^ 31) < i" "i < 2 ^ 31"
  shows "\<exists>s. local_itoa i = Some s \<and> local_atoi s = Some i"
proof -
  obtain s where s: "local_itoa \<bar>i\<bar> = Some s" "s \<noteq> []" "hd s \<noteq> CHR ''-''" "\<And>t. atoi_loop 0 (s @ t) = atoi_loop \<bar>i\<bar> t"
  proof -
    have "0 \<le> \<bar>i\<bar>" "\<bar>i\<bar> < 2 ^ 31" using assms by auto
    then show thesis using atoi_loop_digits [of "\<bar>i\<bar>"] that by blast
  qed
  have l: "atoi_loop 0 s = Some \<bar>i\<bar>" using s(4) [of "[]"] by simp
  show ?thesis
  proof (cases "i < 0")
    case True
    then have "local_itoa i = Some (CHR ''-'' # s)" using s(1) assms by (simp add: local_itoa.simps [of i])
    then show ?thesis using l True by (simp add: local_atoi_def)
  next
    case False
    moreover have "local_atoi s = atoi_loop 0 s" using s(2,3) by (cases s) (auto simp: local_atoi_def split: char.splits)
    ultimately show ?thesis using s(1) l by simp
  qed
qed

lemma local_itoa_Some:
  assumes "- (2 ^ 31) < i" "i < 2 ^ 31"
  shows "\<exists>s. local_itoa i = Some s"
  using atoi_loop_digits [of i] atoi_loop_digits [of "- i"] assms by (cases "i < 0") (auto simp: local_itoa.simps [of i])

lemma local_atoi_itoa_witness: "\<exists>s. local_itoa (- 4711) = Some s \<and> local_atoi s = Some (- 4711)"
  using local_atoi_itoa [of "- 4711"] by simp

section \<open>The threads that are stopped\<close>

text \<open>The number in the name of a directory entry, if it starts with a digit after a dot or without one.\<close>

definition entry_digits :: "dirent \<Rightarrow> string" where
  "entry_digits e = (case d_name e of CHR ''.'' # t \<Rightarrow> t | t \<Rightarrow> t)"

definition entry_fits :: "dirent \<Rightarrow> bool" where
  "entry_fits e \<longleftrightarrow> (let t = entry_digits e in t \<noteq> [] \<longrightarrow> is_digit (hd t) \<longrightarrow> local_atoi t \<noteq> None)"

text \<open>How the lister traces a thread: not at all, attached and not yet seen to stop, or stopped.\<close>

datatype tracee = Untraced | Attached | Stopped

text \<open>
  What is relied on of the kernel, with \<open>tr w\<close> the state of each thread in the world \<open>w\<close>. Reading a directory comes to
  its end, whatever else is done meanwhile; the numbers in it are process numbers; a process can attach to the tasks
  \<open>T\<close> at most, and descriptors are small. As \<open>ptrace\<close> and \<open>waitpid\<close> document: the wait for an attached thread succeeds
  when it stops or ends and fails when it is no longer traced; only a stopped thread can be read; after a detach from
  a thread that is not merely attached it is not traced, also when the call fails, because it then is gone. No other
  call changes this state: nobody else kills a thread that is stopped.
\<close>

definition task_os_reads :: "'w task_os \<Rightarrow> ('w \<Rightarrow> nat) \<Rightarrow> int set \<Rightarrow> bool" where
  "task_os_reads os left T \<longleftrightarrow>
     (\<forall>w e es w'. os_getdents os w = (Some (e # es), w') \<longrightarrow> left w' < left w \<and> (\<forall>x\<in>set (e # es). entry_fits x)) \<and>
     (\<forall>w x. left (snd (os_inode os x w)) = left w) \<and>
     (\<forall>w pid. left (snd (os_attach os pid w)) = left w \<and> (fst (os_attach os pid w) \<longrightarrow> pid \<in> T)) \<and>
     (\<forall>w pid. left (snd (os_wait os pid w)) = left w) \<and> (\<forall>w pid i. left (snd (os_peek os pid i w)) = left w) \<and>
     (\<forall>w pid. left (snd (os_detach os pid w)) = left w) \<and>
     (\<forall>w fd w'. os_socket os w = (Some fd, w') \<longrightarrow> 0 \<le> fd \<and> fd < 2 ^ 31)"

definition task_os_traces :: "'w task_os \<Rightarrow> ('w \<Rightarrow> int \<Rightarrow> tracee) \<Rightarrow> bool" where
  "task_os_traces os tr \<longleftrightarrow>
     (\<forall>w. tr (snd (os_socket os w)) = tr w \<and> tr (snd (os_nlink os w)) = tr w \<and> tr (snd (os_getdents os w)) = tr w \<and> tr (os_rewind os w) = tr w) \<and>
     (\<forall>w x. tr (snd (os_inode os x w)) = tr w \<and> tr (snd (os_open os x w)) = tr w) \<and>
     (\<forall>w pid. tr (snd (os_attach os pid w)) = (if fst (os_attach os pid w) then (tr w)(pid := Attached) else tr w)) \<and>
     (\<forall>w pid. tr w pid = Attached \<longrightarrow> tr (snd (os_wait os pid w)) = (tr w)(pid := Untraced) \<or>
       fst (os_wait os pid w) \<and> tr (snd (os_wait os pid w)) = (tr w)(pid := Stopped)) \<and>
     (\<forall>w pid i. tr (snd (os_peek os pid i w)) = tr w \<and> (fst (os_peek os pid i w) \<noteq> None \<longrightarrow> tr w pid = Stopped)) \<and>
     (\<forall>w pid. tr w pid \<noteq> Attached \<longrightarrow> tr (snd (os_detach os pid w)) = (tr w)(pid := Untraced))"

definition task_os_ok :: "'w task_os \<Rightarrow> ('w \<Rightarrow> nat) \<Rightarrow> int set \<Rightarrow> ('w \<Rightarrow> int \<Rightarrow> tracee) \<Rightarrow> bool" where
  "task_os_ok os left T tr \<longleftrightarrow> task_os_reads os left T \<and> task_os_traces os tr"

lemma task_os_okD:
  assumes "task_os_ok os left T tr"
  shows "os_getdents os w = (Some (e # es), w') \<Longrightarrow> left w' < left w"
    "os_getdents os w = (Some (e # es), w') \<Longrightarrow> x \<in> set (e # es) \<Longrightarrow> entry_fits x"
    "os_inode os n w = (ino, w') \<Longrightarrow> left w' = left w" "os_attach os pid w = (ok, w') \<Longrightarrow> left w' = left w"
    "os_attach os pid w = (True, w') \<Longrightarrow> pid \<in> T" "os_wait os pid w = (ok, w') \<Longrightarrow> left w' = left w"
    "os_peek os pid i w = (j, w') \<Longrightarrow> left w' = left w" "os_detach os pid w = (ok, w') \<Longrightarrow> left w' = left w"
    "os_socket os w = (Some fd, w') \<Longrightarrow> 0 \<le> fd \<and> fd < 2 ^ 31"
proof -
  have R: "task_os_reads os left T" using assms by (simp add: task_os_ok_def)
  show "os_getdents os w = (Some (e # es), w') \<Longrightarrow> left w' < left w" using R unfolding task_os_reads_def by blast
  show "os_getdents os w = (Some (e # es), w') \<Longrightarrow> x \<in> set (e # es) \<Longrightarrow> entry_fits x" using R unfolding task_os_reads_def by blast
  show "os_socket os w = (Some fd, w') \<Longrightarrow> 0 \<le> fd \<and> fd < 2 ^ 31" using R unfolding task_os_reads_def by blast
  have "left (snd (os_inode os n w)) = left w" "left (snd (os_attach os pid w)) = left w" "fst (os_attach os pid w) \<Longrightarrow> pid \<in> T"
    "left (snd (os_wait os pid w)) = left w" "left (snd (os_peek os pid i w)) = left w" "left (snd (os_detach os pid w)) = left w"
    using R unfolding task_os_reads_def by blast+
  then show "os_inode os n w = (ino, w') \<Longrightarrow> left w' = left w" "os_attach os pid w = (ok, w') \<Longrightarrow> left w' = left w"
    "os_attach os pid w = (True, w') \<Longrightarrow> pid \<in> T" "os_wait os pid w = (ok, w') \<Longrightarrow> left w' = left w"
    "os_peek os pid i w = (j, w') \<Longrightarrow> left w' = left w" "os_detach os pid w = (ok, w') \<Longrightarrow> left w' = left w" by simp_all
qed

lemma task_os_ok_tr:
  assumes "task_os_ok os left T tr"
  shows "os_socket os w = (fd, w') \<Longrightarrow> tr w' = tr w" "os_nlink os w = (n, w') \<Longrightarrow> tr w' = tr w"
    "os_getdents os w = (ds, w') \<Longrightarrow> tr w' = tr w" "tr (os_rewind os w) = tr w"
    "os_inode os name w = (ino, w') \<Longrightarrow> tr w' = tr w" "os_open os name w = (opened, w') \<Longrightarrow> tr w' = tr w"
    "os_attach os pid w = (ok, w') \<Longrightarrow> tr w' = (if ok then (tr w)(pid := Attached) else tr w)"
    "os_wait os pid w = (ok, w') \<Longrightarrow> tr w pid = Attached \<Longrightarrow> tr w' = (tr w)(pid := Untraced) \<or> ok \<and> tr w' = (tr w)(pid := Stopped)"
    "os_peek os pid i w = (v, w') \<Longrightarrow> tr w' = tr w" "os_peek os pid i w = (Some j, w') \<Longrightarrow> tr w pid = Stopped"
    "os_detach os pid w = (ok, w') \<Longrightarrow> tr w pid \<noteq> Attached \<Longrightarrow> tr w' = (tr w)(pid := Untraced)"
proof -
  have R: "task_os_traces os tr" using assms by (simp add: task_os_ok_def)
  have "tr (snd (os_socket os w)) = tr w" "tr (snd (os_nlink os w)) = tr w" "tr (snd (os_getdents os w)) = tr w" "tr (os_rewind os w) = tr w"
    "tr (snd (os_inode os name w)) = tr w" "tr (snd (os_open os name w)) = tr w"
    "tr (snd (os_attach os pid w)) = (if fst (os_attach os pid w) then (tr w)(pid := Attached) else tr w)"
    "tr w pid = Attached \<Longrightarrow> tr (snd (os_wait os pid w)) = (tr w)(pid := Untraced) \<or>
       fst (os_wait os pid w) \<and> tr (snd (os_wait os pid w)) = (tr w)(pid := Stopped)"
    "tr (snd (os_peek os pid i w)) = tr w" "fst (os_peek os pid i w) \<noteq> None \<Longrightarrow> tr w pid = Stopped"
    "tr w pid \<noteq> Attached \<Longrightarrow> tr (snd (os_detach os pid w)) = (tr w)(pid := Untraced)"
    using R unfolding task_os_traces_def by blast+
  then show "os_socket os w = (fd, w') \<Longrightarrow> tr w' = tr w" "os_nlink os w = (n, w') \<Longrightarrow> tr w' = tr w"
    "os_getdents os w = (ds, w') \<Longrightarrow> tr w' = tr w" "tr (os_rewind os w) = tr w"
    "os_inode os name w = (ino, w') \<Longrightarrow> tr w' = tr w" "os_open os name w = (opened, w') \<Longrightarrow> tr w' = tr w"
    "os_attach os pid w = (ok, w') \<Longrightarrow> tr w' = (if ok then (tr w)(pid := Attached) else tr w)"
    "os_wait os pid w = (ok, w') \<Longrightarrow> tr w pid = Attached \<Longrightarrow> tr w' = (tr w)(pid := Untraced) \<or> ok \<and> tr w' = (tr w)(pid := Stopped)"
    "os_peek os pid i w = (v, w') \<Longrightarrow> tr w' = tr w" "os_peek os pid i w = (Some j, w') \<Longrightarrow> tr w pid = Stopped"
    "os_detach os pid w = (ok, w') \<Longrightarrow> tr w pid \<noteq> Attached \<Longrightarrow> tr w' = (tr w)(pid := Untraced)" by simp_all
qed

text \<open>The threads of the array are stopped, and no other is traced.\<close>

definition traced_are :: "('w \<Rightarrow> int \<Rightarrow> tracee) \<Rightarrow> 'w lister \<Rightarrow> bool" where
  "traced_are tr s \<longleftrightarrow> tr (world s) = (\<lambda>pid. if pid \<in> set (pids s) then Stopped else Untraced)"

definition lister_inv :: "int set \<Rightarrow> ('w \<Rightarrow> int \<Rightarrow> tracee) \<Rightarrow> int \<Rightarrow> 'w lister \<Rightarrow> bool" where
  "lister_inv T tr self s \<longleftrightarrow> distinct (pids s) \<and> traced_are tr s \<and> set (pids s) \<subseteq> T \<and> self \<notin> set (pids s) \<and>
     added_entries s \<le> length (pids s)"

text \<open>What does not change while a directory is read: threads are only added, and counted when they are.\<close>

definition scanning :: "('w \<Rightarrow> nat) \<Rightarrow> 'w lister \<Rightarrow> 'w lister \<Rightarrow> bool" where
  "scanning left s s' \<longleftrightarrow> left (world s') = left (world s) \<and> max_threads s' = max_threads s \<and>
     length (pids s') - added_entries s' = length (pids s) - added_entries s"

lemma scanning_trans: "scanning left s t \<Longrightarrow> scanning left t u \<Longrightarrow> scanning left s u"
  by (simp add: scanning_def)

lemma detach_ok:
  assumes "task_os_ok os left T tr"
  shows "pids (snd (sys_ptrace_detach os pid s)) = pids s" "added_entries (snd (sys_ptrace_detach os pid s)) = added_entries s"
    "max_threads (snd (sys_ptrace_detach os pid s)) = max_threads s" "found_parent (snd (sys_ptrace_detach os pid s)) = found_parent s"
    "left (world (snd (sys_ptrace_detach os pid s))) = left (world s)"
    "tr (world s) pid \<noteq> Attached \<Longrightarrow> tr (world (snd (sys_ptrace_detach os pid s))) = (tr (world s))(pid := Untraced)"
  using task_os_okD(8) [OF assms, of pid "world s"] task_os_ok_tr(11) [OF assms, of pid "world s"]
  by (auto simp: sys_ptrace_detach_def split: prod.splits)

lemma attach_thread_ok:
  assumes K: "task_os_ok os left T tr" and I: "lister_inv T tr (clone_pid p) s" and new: "pid \<notin> set (pids s)" "pid \<noteq> clone_pid p"
  shows "lister_inv T tr (clone_pid p) (attach_thread os p pid s) \<and> scanning left s (attach_thread os p pid s)"
proof -
  note f = task_os_okD(4-8) [OF K]
  obtain ok w where a: "os_attach os pid (world s) = (ok, w)" by fastforce
  show ?thesis
  proof (cases ok)
    case False
    then show ?thesis using a I f(1) [OF a] task_os_ok_tr(7) [OF K a] by (simp add: attach_thread_def lister_inv_def scanning_def traced_are_def Let_def)
  next
    case True
    define s1 where "s1 = s\<lparr>world := w\<rparr>"
    have leave: "lister_inv T tr (clone_pid p) (snd (sys_ptrace_detach os pid t)) \<and> scanning left s (snd (sys_ptrace_detach os pid t))"
      if "pids t = pids s" "tr (world t) = (tr (world s))(pid := x)" "x \<noteq> Attached" "added_entries t = added_entries s" "max_threads t = max_threads s"
        "left (world t) = left (world s)" for t x
      using that I new detach_ok [OF K, where pid = pid and s = t] by (auto simp: lister_inv_def scanning_def traced_are_def fun_eq_iff)
    obtain ok2 w2 where w: "os_wait os pid w = (ok2, w2)" by fastforce
    obtain j3 w3 where p3: "os_peek os pid (int (length (pids s))) w2 = (j3, w3)" by fastforce
    obtain j4 w4 where p4: "os_peek os pid (int (length (pids s)) + 1) w3 = (j4, w4)" by fastforce
    have l: "left w = left (world s)" "left w2 = left (world s)" "left w3 = left (world s)" "left w4 = left (world s)"
      using f(1) [OF a] f(3) [OF w] f(4) [OF p3] f(4) [OF p4] by simp_all
    obtain x where x: "tr w2 = (tr (world s))(pid := x)" "x \<noteq> Attached" "\<not> ok2 \<Longrightarrow> x = Untraced"
      using task_os_ok_tr(7) [OF K a] task_os_ok_tr(8) [OF K w] True by fastforce
    have x34: "tr w3 = (tr (world s))(pid := x)" "tr w4 = (tr (world s))(pid := x)"
      using task_os_ok_tr(9) [OF K p3] task_os_ok_tr(9) [OF K p4] x(1) by simp_all
    have T: "pid \<in> T" using f(2) [of pid "world s" w] a True by simp
    consider "\<not> ok2" | "ok2" "j3 \<noteq> Some (int (length (pids s)))" | "ok2" "j3 = Some (int (length (pids s)))" "j4 \<noteq> Some (int (length (pids s)) + 1)"
      | "ok2" "j3 = Some (int (length (pids s)))" "j4 = Some (int (length (pids s)) + 1)" by blast
    then show ?thesis
    proof cases
      case 1
      then have "attach_thread os p pid s = snd (sys_ptrace_detach os pid (s1\<lparr>world := w2\<rparr>))"
        using True a w by (simp add: attach_thread_def s1_def Let_def)
      then show ?thesis using leave [of "s1\<lparr>world := w2\<rparr>" x] l x by (simp add: s1_def)
    next
      case 2
      then have "attach_thread os p pid s = snd (sys_ptrace_detach os pid (s1\<lparr>world := w3\<rparr>))"
        using True a w p3 by (simp add: attach_thread_def s1_def Let_def)
      then show ?thesis using leave [of "s1\<lparr>world := w3\<rparr>" x] l x(2) x34 by (simp add: s1_def)
    next
      case 3
      then have "attach_thread os p pid s = snd (sys_ptrace_detach os pid (s1\<lparr>world := w4\<rparr>))"
        using True a w p3 p4 by (simp add: attach_thread_def s1_def Let_def)
      then show ?thesis using leave [of "s1\<lparr>world := w4\<rparr>" x] l x(2) x34 by (simp add: s1_def)
    next
      case 4
      then have "attach_thread os p pid s = s1\<lparr>world := w4, pids := pids s @ [pid], found_parent := found_parent s \<or> pid = ppid p,
          added_entries := Suc (added_entries s)\<rparr>"
        using True a w p3 p4 by (simp add: attach_thread_def s1_def Let_def)
      moreover have "x = Stopped" using task_os_ok_tr(10) [OF K] p3 4 x(1) by fastforce
      ultimately show ?thesis using I new T l x34 by (auto simp: lister_inv_def scanning_def s1_def traced_are_def fun_eq_iff)
    qed
  qed
qed

lemma lister_entry_ok:
  assumes K: "task_os_ok os left T tr" and I: "lister_inv T tr (clone_pid p) s" and e: "entry_fits e"
  shows "\<exists>full s'. lister_entry os p e s = Some (full, s') \<and> lister_inv T tr (clone_pid p) s' \<and> scanning left s s' \<and>
    (full \<longrightarrow> max_threads s' \<le> int (length (pids s')))"
proof -
  let ?t = "entry_digits e"
  consider "d_ino e = 0 \<or> ?t = [] \<or> \<not> is_digit (hd ?t)" | pid where "d_ino e \<noteq> 0" "?t \<noteq> []" "is_digit (hd ?t)" "local_atoi ?t = Some pid"
    using e by (auto simp: entry_fits_def Let_def)
  then show ?thesis
  proof cases
    case 1
    then show ?thesis using I by (auto simp: lister_entry_def entry_digits_def [symmetric] Let_def scanning_def)
  next
    case (2 pid)
    obtain ino w where i: "os_inode os (''/proc/'' @ d_name e @ marker_path p) (world s) = (ino, w)" by fastforce
    note w = task_os_okD(3) [OF K i] task_os_ok_tr(5) [OF K i]
    have I': "lister_inv T tr (clone_pid p) (s\<lparr>world := w\<rparr>)" "scanning left s (s\<lparr>world := w\<rparr>)"
      using I w by (simp_all add: lister_inv_def scanning_def traced_are_def)
    have run: "lister_entry os p e s = (if pid = 0 \<or> pid = clone_pid p then Some (False, s)
        else if ino \<noteq> Some (marker_ino p) \<or> pid \<in> set (pids s) then Some (False, s\<lparr>world := w\<rparr>)
        else if int (length (pids s)) \<ge> max_threads s then Some (True, s\<lparr>world := w\<rparr>)
        else Some (False, attach_thread os p pid (s\<lparr>world := w\<rparr>)))"
      using 2 i by (simp add: lister_entry_def entry_digits_def [symmetric] Let_def)
    show ?thesis
      unfolding run using I I' attach_thread_ok [OF K I'(1), of pid] scanning_trans [OF I'(2)] by (auto simp: scanning_def)
  qed
qed

lemma lister_entries_ok:
  assumes K: "task_os_ok os left T tr"
  shows "lister_inv T tr (clone_pid p) s \<Longrightarrow> \<forall>e\<in>set es. entry_fits e \<Longrightarrow>
    \<exists>full s'. lister_entries os p es s = Some (full, s') \<and> lister_inv T tr (clone_pid p) s' \<and> scanning left s s' \<and>
      (full \<longrightarrow> max_threads s' \<le> int (length (pids s')))"
proof (induction es arbitrary: s)
  case Nil
  then show ?case by (intro exI [of _ False] exI [of _ s]) (simp add: scanning_def)
next
  case (Cons e es)
  have fit: "entry_fits e" "\<forall>x\<in>set es. entry_fits x" using Cons.prems(2) by simp_all
  obtain full s1 where 1: "lister_entry os p e s = Some (full, s1)" "lister_inv T tr (clone_pid p) s1" "scanning left s s1"
    "full \<longrightarrow> max_threads s1 \<le> int (length (pids s1))" using lister_entry_ok [OF K Cons.prems(1) fit(1)] by blast
  show ?case
  proof (cases full)
    case True
    then show ?thesis using 1 by (intro exI [of _ True] exI [of _ s1]) simp
  next
    case False
    obtain g s2 where "lister_entries os p es s1 = Some (g, s2)" "lister_inv T tr (clone_pid p) s2" "scanning left s1 s2"
      "g \<longrightarrow> max_threads s2 \<le> int (length (pids s2))" using Cons.IH [OF 1(2) fit(2)] by blast
    then show ?thesis using 1(1) False scanning_trans [OF 1(3)] by simp
  qed
qed

lemma lister_scan_ok:
  assumes K: "task_os_ok os left T tr" and fin: "finite T"
  shows "lister_inv T tr (clone_pid p) s \<Longrightarrow> \<exists>r s'. lister_scan os p s = Some (r, s') \<and> lister_inv T tr (clone_pid p) s' \<and>
    max_threads s' = max_threads s \<and> (r = Scan_full \<longrightarrow> max_threads s' \<le> int (length (pids s')))"
proof (induction s rule: wf_induct_rule [OF wf_measures [of "[\<lambda>s. card T - (length (pids s) - added_entries s), \<lambda>s. left (world s)]"]])
  case (1 s)
  note IH = 1(1) note I = 1(2)
  obtain r w where g: "os_getdents os (world s) = (r, w)" by fastforce
  let ?s = "s\<lparr>world := w\<rparr>"
  have I': "lister_inv T tr (clone_pid p) ?s" using I task_os_ok_tr(3) [OF K g] by (simp add: lister_inv_def traced_are_def)
  consider "r = None" | "r = Some []" | e es where "r = Some (e # es)" by (metis list.exhaust option.exhaust)
  then show ?case
  proof cases
    case 1
    then show ?thesis using g I' by (simp add: lister_scan.simps [of os p s])
  next
    case 2
    show ?thesis
    proof (cases "added_entries s = 0")
      case True
      then show ?thesis using 2 g I' by (simp add: lister_scan.simps [of os p s])
    next
      case False
      let ?t = "s\<lparr>added_entries := 0, world := os_rewind os w\<rparr>"
      have run: "lister_scan os p s = lister_scan os p ?t" using 2 g False by (simp add: lister_scan.simps [of os p s])
      have "length (pids s) \<le> card T" using I card_mono [OF fin, of "set (pids s)"] by (auto simp: lister_inv_def distinct_card)
      then have "(?t, s) \<in> measures [\<lambda>s. card T - (length (pids s) - added_entries s), \<lambda>s. left (world s)]"
        using False I by (auto simp: lister_inv_def)
      moreover have "lister_inv T tr (clone_pid p) ?t" using I' task_os_ok_tr(4) [OF K, of w] by (simp add: lister_inv_def traced_are_def)
      ultimately show ?thesis unfolding run using IH [of ?t] by simp
    qed
  next
    case (3 e es)
    note d = task_os_okD(1,2) [OF K g [unfolded 3]]
    obtain full s1 where e: "lister_entries os p (e # es) ?s = Some (full, s1)" "lister_inv T tr (clone_pid p) s1" "scanning left ?s s1"
      "full \<longrightarrow> max_threads s1 \<le> int (length (pids s1))"
      using lister_entries_ok [OF K I', of "e # es"] d(2) by blast
    have m: "max_threads s1 = max_threads s" using e(3) by (simp add: scanning_def)
    show ?thesis
    proof (cases full)
      case True
      then have "lister_scan os p s = Some (Scan_full, s1)" using 3 g e(1) by (simp add: lister_scan.simps [of os p s] del: lister_entries.simps)
      then show ?thesis using True e(2,4) m by simp
    next
      case False
      then have run: "lister_scan os p s = lister_scan os p s1" using 3 g e(1) by (simp add: lister_scan.simps [of os p s] del: lister_entries.simps)
      have "(s1, s) \<in> measures [\<lambda>s. card T - (length (pids s) - added_entries s), \<lambda>s. left (world s)]"
        using e(3) d(1) by (simp add: scanning_def)
      then show ?thesis unfolding run using IH [of s1] e(2) m by simp
    qed
  qed
qed

lemma Resume_ok:
  assumes K: "task_os_ok os left T tr"
  shows "n \<le> length ps \<Longrightarrow> \<forall>x. tr (world s) x \<noteq> Attached \<Longrightarrow> ResumeAllProcessThreads os n ps s = (r, s') \<Longrightarrow>
    pids s' = pids s \<and> tr (world s') = (\<lambda>x. if x \<in> set (take n ps) then Untraced else tr (world s) x) \<and> max_threads s' = max_threads s"
proof (induction n arbitrary: s r s')
  case (Suc n)
  obtain ok s1 where 1: "sys_ptrace_detach os (ps ! n) s = (ok, s1)" by fastforce
  obtain r2 s2 where 2: "ResumeAllProcessThreads os n ps s1 = (r2, s2)" by fastforce
  have s1: "pids s1 = pids s" "max_threads s1 = max_threads s" "tr (world s1) = (tr (world s))(ps ! n := Untraced)"
    using detach_ok [OF K, where pid = "ps ! n" and s = s] Suc.prems(2) 1 by simp_all
  have "s' = s2" using Suc.prems(3) 1 2 by simp
  moreover have "\<forall>x. tr (world s1) x \<noteq> Attached" using Suc.prems(2) s1(3) by simp
  ultimately show ?case using Suc.IH [OF _ _ 2] Suc.prems(1) s1 by (auto simp: take_Suc_conv_app_nth)
qed simp

lemma Resume_all:
  assumes K: "task_os_ok os left T tr" and s: "\<forall>x. tr (world s) x = Untraced \<or> x \<in> set (pids s) \<and> tr (world s) x = Stopped"
  shows "tr (world (snd (ResumeAllProcessThreads os (length (pids s)) (pids s) s))) = (\<lambda>_. Untraced)"
    "max_threads (snd (ResumeAllProcessThreads os (length (pids s)) (pids s) s)) = max_threads s"
proof -
  obtain r t where r: "ResumeAllProcessThreads os (length (pids s)) (pids s) s = (r, t)" by fastforce
  have "\<forall>x. tr (world s) x \<noteq> Attached" using s by (metis tracee.distinct(1,5))
  from Resume_ok [OF K order_refl this r] s
  show "tr (world (snd (ResumeAllProcessThreads os (length (pids s)) (pids s) s))) = (\<lambda>_. Untraced)"
    "max_threads (snd (ResumeAllProcessThreads os (length (pids s)) (pids s) s)) = max_threads s" unfolding r by (auto simp: fun_eq_iff)
qed

definition all_stopped :: "('w \<Rightarrow> int \<Rightarrow> tracee) \<Rightarrow> int \<Rightarrow> 'w lister \<Rightarrow> bool" where
  "all_stopped tr self s \<longleftrightarrow> distinct (pids s) \<and> traced_are tr s \<and> self \<notin> set (pids s) \<and> found_parent s"

lemma lister_loop_ok:
  assumes K: "task_os_ok os left T tr" and fin: "finite T"
  shows "k < length (proc_paths p) \<Longrightarrow> pids s = [] \<Longrightarrow> tr (world s) = (\<lambda>_. Untraced) \<Longrightarrow>
    \<exists>status s'. lister_loop os p callback k s = Some (status, s') \<and>
      (status = 0 \<and> (\<exists>t. all_stopped tr (clone_pid p) t \<and> s' = lister_callback os callback t) \<or>
       status = 1 \<and> traced_are tr s' \<or> status = 3 \<and> tr (world s') = (\<lambda>_. Untraced))"
proof (induction "(k, s)" arbitrary: k s
    rule: wf_induct_rule [OF wf_measures [of "[\<lambda>x. length (proc_paths p) - fst x, \<lambda>x. nat (int (card T) + 1 - max_threads (snd x))]"]])
  case 1
  note IH = 1(1) note pre = 1(2-4)
  obtain ok w where o: "os_open os (proc_paths p ! k) (world s) = (ok, w)" by fastforce
  show ?case
  proof (cases ok)
    case False
    have run: "lister_loop os p callback k s = (if Suc k < length (proc_paths p) then lister_loop os p callback (Suc k) (s\<lparr>world := w\<rparr>)
        else Some (1, s\<lparr>world := w, l_result := - 1, l_err := os_errno os w\<rparr>))"
      using False o by (simp add: lister_loop.simps [of os p callback k s])
    show ?thesis unfolding run using IH [of "Suc k" "s\<lparr>world := w\<rparr>"] pre task_os_ok_tr(6) [OF K o] by (auto simp: traced_are_def)
  next
    case True
    obtain nl w2 where n: "os_nlink os w = (nl, w2)" by fastforce
    have w2: "tr w2 = (\<lambda>_. Untraced)" using task_os_ok_tr(6) [OF K o] task_os_ok_tr(2) [OF K n] pre(3) by simp
    show ?thesis
    proof (cases nl)
      case None
      then show ?thesis using True o n w2 pre(2) by (simp add: lister_loop.simps [of os p callback k s] traced_are_def)
    next
      case (Some m)
      define s1 where "s1 = s\<lparr>world := w2, max_threads := max (max_threads s) (m + 100), added_entries := 0\<rparr>"
      have I: "lister_inv T tr (clone_pid p) s1" using pre w2 by (simp add: lister_inv_def s1_def traced_are_def)
      obtain r s2 where sc: "lister_scan os p s1 = Some (r, s2)" "lister_inv T tr (clone_pid p) s2" "max_threads s2 = max_threads s1"
        "r = Scan_full \<longrightarrow> max_threads s2 \<le> int (length (pids s2))" using lister_scan_ok [OF K fin I] by blast
      let ?s3 = "snd (ResumeAllProcessThreads os (length (pids s2)) (pids s2) s2)"
      let ?k = "if r = Scan_done then Suc k else k" and ?s4 = "?s3\<lparr>pids := [], max_threads := max_threads ?s3 + 100\<rparr>"
      have tr2: "traced_are tr s2" using sc(2) by (simp add: lister_inv_def)
      have st: "tr (world ?s3) = (\<lambda>_. Untraced)" "max_threads ?s3 = max_threads s2" using Resume_all [OF K, of s2] tr2 by (auto simp: traced_are_def)
      have run: "lister_loop os p callback k s =
         (if r = Scan_failed then Some (1, s2\<lparr>l_result := - 1, l_err := os_errno os (world s2)\<rparr>)
          else if r = Scan_done \<and> (length (pids s2) > 1 \<or> Suc k = length (proc_paths p))
          then if \<not> found_parent s2 then Some (3, ?s3) else Some (0, lister_callback os callback s2)
          else lister_loop os p callback ?k ?s4)"
        using True o n Some sc(1) by (subst lister_loop.simps) (simp add: s1_def Let_def split del: if_split cong: if_cong)
      consider "r = Scan_failed" | "r = Scan_done" "length (pids s2) > 1 \<or> Suc k = length (proc_paths p)"
        | "r \<noteq> Scan_failed" "\<not> (r = Scan_done \<and> (length (pids s2) > 1 \<or> Suc k = length (proc_paths p)))" by blast
      then show ?thesis
      proof cases
        case 1
        then show ?thesis unfolding run using tr2 by (simp add: traced_are_def)
      next
        case 2
        have "found_parent s2 \<Longrightarrow> all_stopped tr (clone_pid p) s2" using sc(2) by (simp add: all_stopped_def lister_inv_def)
        then show ?thesis unfolding run using 2 st(1) by auto
      next
        case 3
        have less: "((?k, ?s4), (k, s)) \<in> measures [\<lambda>x. length (proc_paths p) - fst x, \<lambda>x. nat (int (card T) + 1 - max_threads (snd x))]"
        proof (cases "r = Scan_done")
          case True
          moreover have "length (proc_paths p) - Suc k < length (proc_paths p) - k" using pre(1) by arith
          ultimately show ?thesis by simp
        next
          case False
          then have "max_threads s2 \<le> int (length (pids s2))" using 3(1) sc(4) by (cases r) auto
          moreover have "length (pids s2) \<le> card T" using sc(2) card_mono [OF fin, of "set (pids s2)"] by (auto simp: lister_inv_def distinct_card)
          moreover have "max_threads s \<le> max_threads s2" using sc(3) by (simp add: s1_def)
          ultimately show ?thesis using False st(2) by simp
        qed
        have run3: "lister_loop os p callback k s = lister_loop os p callback ?k ?s4"
          unfolding run if_not_P [OF 3(1)] if_not_P [OF 3(2)] by (rule refl)
        show ?thesis unfolding run3 by (rule IH [OF less]) (use 3(2) pre(1) st(1) in auto)
      qed
    qed
  qed
qed

text \<open>
  C27. The lister always comes to an end, however the threads come and go: with 0 after a single call of the
  callback, with 1 when a call of the kernel failed, or with 3 when it did not find the thread that started it. The
  callback runs while each thread of the array is stopped, no other is traced and the lister itself is not among them.
  If the callback keeps the array and leaves each thread as it is or lets it go, then no thread is traced any more when
  the lister ends with 0 or 3. When it ends with 1 the threads of the array are still stopped: that they run again is left to the kernel, which lets the threads of a tracer go that exits.
\<close>

theorem threads_stopped_and_released:
  assumes K: "task_os_ok os left T tr" and fin: "finite T" and parent: "- (2 ^ 31) < parent" "parent < 2 ^ 31"
    and start: "tr w = (\<lambda>_. Untraced)"
    and cb: "\<And>s. pids (snd (callback s)) = pids s \<and> (\<forall>x. tr (world (snd (callback s))) x \<in> {tr (world s) x, Untraced})"
  shows "\<exists>status s'. ListerThread os callback self parent w = Some (status, s') \<and> status \<in> {0, 1, 3} \<and>
    (status = 0 \<longrightarrow> (\<exists>s. all_stopped tr self s \<and> s' = lister_callback os callback s)) \<and>
    (status = 1 \<longrightarrow> traced_are tr s') \<and> (status \<noteq> 1 \<longrightarrow> tr (world s') = (\<lambda>_. Untraced))"
proof -
  have released: "tr (world (lister_callback os callback s)) = (\<lambda>_. Untraced)" if s: "all_stopped tr self s" for s
  proof -
    obtain r t where t: "callback s = (r, t)" by fastforce
    let ?t = "t\<lparr>l_result := r, l_err := os_errno os (world t)\<rparr>"
    have "\<forall>x. tr (world ?t) x = Untraced \<or> x \<in> set (pids ?t) \<and> tr (world ?t) x = Stopped"
    proof
      fix x show "tr (world ?t) x = Untraced \<or> x \<in> set (pids ?t) \<and> tr (world ?t) x = Stopped"
        using cb [of s] t s spec [of _ x] by (auto simp: all_stopped_def traced_are_def split: if_splits)
    qed
    then have "tr (world (snd (ResumeAllProcessThreads os (length (pids ?t)) (pids ?t) ?t))) = (\<lambda>_. Untraced)" by (intro Resume_all(1) [OF K])
    moreover obtain b u where "ResumeAllProcessThreads os (length (pids ?t)) (pids ?t) ?t = (b, u)" by fastforce
    ultimately show ?thesis using t by (simp add: lister_callback_def Let_def)
  qed
  obtain marker w1 where m: "os_socket os w = (marker, w1)" by fastforce
  note w1 = task_os_ok_tr(1) [OF K m]
  obtain pt where pt: "local_itoa parent = Some pt" using local_itoa_Some [OF parent] by blast
  show ?thesis
  proof (cases marker)
    case None
    then show ?thesis using m w1 start by (simp add: ListerThread_def traced_are_def)
  next
    case (Some fd)
    obtain ft where ft: "local_itoa fd = Some ft" using local_itoa_Some [of fd] task_os_okD(9) [OF K, of w fd w1] m Some by auto
    obtain ino w2 where i: "os_inode os (''/proc/'' @ pt @ ''/fd/'' @ ft) w1 = (ino, w2)" by fastforce
    have w2: "tr w2 = (\<lambda>_. Untraced)" using task_os_ok_tr(5) [OF K i] w1 start by simp
    show ?thesis
    proof (cases ino)
      case None
      then show ?thesis using m Some pt ft i w2 by (simp add: ListerThread_def traced_are_def)
    next
      case ino: (Some n)
      let ?p = "\<lparr>clone_pid = self, ppid = parent, marker_path = ''/fd/'' @ ft, marker_ino = n, proc_paths = [''/proc/'' @ pt @ ''/task/'', ''/proc/'']\<rparr>"
      let ?s = "\<lparr>world = w2, pids = [], max_threads = 0, added_entries = 0, found_parent = False, l_result = - 1, l_err = 0\<rparr>"
      have run: "ListerThread os callback self parent w = lister_loop os ?p callback 0 ?s"
        using m Some pt ft i ino by (simp add: ListerThread_def)
      show ?thesis unfolding run using lister_loop_ok [OF K fin, of 0 ?p ?s callback] released w2 by auto
    qed
  qed
qed

text \<open>
  A world with one thread, the program itself; its directory is read in one piece. The world is the entries left to
  read and the state of the thread.
\<close>

definition demo_task_os :: "(nat \<times> tracee) task_os" where
  "demo_task_os = \<lparr>os_socket = \<lambda>w. (Some 5, w), os_inode = \<lambda>_ w. (Some 99, w), os_open = \<lambda>_ (k, x). (True, (1, x)), os_nlink = \<lambda>w. (Some 3, w),
     os_getdents = \<lambda>(k, x). (if k = 0 then Some [] else Some [\<lparr>d_ino = 8, d_name = ''42''\<rparr>], (0, x)), os_rewind = \<lambda>(k, x). (1, x),
     os_attach = \<lambda>pid (k, x). if pid = 42 then (True, (k, Attached)) else (False, (k, x)),
     os_wait = \<lambda>pid (k, x). if pid = 42 then (True, (k, Stopped)) else (False, (k, x)),
     os_peek = \<lambda>pid i (k, x). (if pid = 42 \<and> x = Stopped then Some i else None, (k, x)),
     os_detach = \<lambda>pid (k, x). if pid = 42 then (x = Stopped, (k, Untraced)) else (False, (k, x)), os_errno = \<lambda>_. 0\<rparr>"

definition demo_tracee :: "nat \<times> tracee \<Rightarrow> int \<Rightarrow> tracee" where
  "demo_tracee = (\<lambda>(k, x) pid. if pid = 42 then x else Untraced)"

lemma demo_task_os_ok: "task_os_ok demo_task_os fst {42} demo_tracee"
  unfolding task_os_ok_def task_os_reads_def task_os_traces_def
  by (intro conjI)
    (auto simp: demo_task_os_def demo_tracee_def fun_eq_iff entry_fits_def entry_digits_def is_digit_def local_atoi_def Let_def split: if_splits prod.splits)

lemma demo_lister_exits:
  "\<exists>s'. ListerThread demo_task_os (Pair 7) 43 42 (0, Untraced) = Some (0, s') \<and> l_result s' = - 1 \<and> pids s' = [42]"
  by (simp add: ListerThread_def demo_task_os_def local_itoa.simps local_digit_def lister_loop.simps lister_scan.simps lister_entry_def attach_thread_def
      is_digit_def local_atoi_def lister_callback_def sys_ptrace_detach_def Let_def)

lemma threads_stopped_and_released_witness:
  "\<exists>s'. ListerThread demo_task_os (Pair 7) 43 42 (0, Untraced) = Some (0, s') \<and> demo_tracee (world s') = (\<lambda>_. Untraced)"
proof -
  have "demo_tracee (0, Untraced) = (\<lambda>_. Untraced)" by (simp add: demo_tracee_def fun_eq_iff)
  from threads_stopped_and_released [OF demo_task_os_ok _ _ _ this, of 42 "Pair 7" 43] demo_lister_exits show ?thesis by auto
qed

end
