(* ===== verification/HeapCheck.thy ===== *)
theory HeapCheck
  imports LiveRoots
begin

text \<open>
  The leak checker, second half: a check from its construction to its verdict, the whole-program check,
  and how the checker is turned on from the environment.

  Deleting an object runs the delete hook; messages are left out. \<open>pprof\<close>, the files and the working
  directory belong to \<open>hc_env\<close>.
\<close>

section \<open>Settings\<close>

definition set_heap_check_report :: "bool \<Rightarrow> heap_check \<Rightarrow> heap_check" where
  "set_heap_check_report b c = c\<lparr>FLAGS_report := b\<rparr>"

definition set_pprof_path :: "string \<Rightarrow> heap_check \<Rightarrow> heap_check" where
  "set_pprof_path s c = c\<lparr>flags_pprof := Some s\<rparr>"

definition set_dump_directory :: "string \<Rightarrow> heap_check \<Rightarrow> heap_check" where
  "set_dump_directory s c = c\<lparr>hck_dump_directory := Some s\<rparr>"

definition heap_check_report :: "heap_check \<Rightarrow> bool" where
  "heap_check_report c = FLAGS_report c"

definition pprof_path :: "heap_check \<Rightarrow> string" where
  "pprof_path c = (case flags_pprof c of None \<Rightarrow> ''/bin/pprof'' | Some s \<Rightarrow> s)"

definition dump_directory :: "heap_check \<Rightarrow> string" where
  "dump_directory c = (case hck_dump_directory c of None \<Rightarrow> ''/tmp'' | Some s \<Rightarrow> s)"

section \<open>The environment of the process\<close>

fun env_index :: "string \<Rightarrow> (string \<times> string) list \<Rightarrow> nat option" where
  "env_index name [] = None"
| "env_index name ((n, v) # es) = (if n = name then Some 0 else map_option Suc (env_index name es))"

definition getenv :: "string \<Rightarrow> (string \<times> string) list \<Rightarrow> string option" where
  "getenv name es = map_option (\<lambda>i. snd (es ! i)) (env_index name es)"

text \<open>\<open>v[-2] = ch\<close> for the value \<open>v\<close> of entry \<open>i\<close>: the last character of its name.\<close>

definition env_patch :: "nat \<Rightarrow> char \<Rightarrow> (string \<times> string) list \<Rightarrow> (string \<times> string) list" where
  "env_patch i ch es = es[i := (butlast (fst (es ! i)) @ [ch], snd (es ! i))]"

text \<open>
  \<open>GetStatusOutput\<close> hides \<open>HEAPCHECK\<close> and \<open>LD_PRELOAD\<close> from the command. It restores the second through
  the pointer of the first.
\<close>

definition hide_env :: "string \<Rightarrow> (string \<times> string) list \<Rightarrow> nat option \<times> (string \<times> string) list" where
  "hide_env name es = (case env_index name es of None \<Rightarrow> (None, es) | Some i \<Rightarrow> (Some i, env_patch i CHR ''?'' es))"

definition GetStatusOutput :: "hc_env \<Rightarrow> string \<Rightarrow> heap_check \<Rightarrow> ((int \<times> string) \<times> heap_check) option" where
  "GetStatusOutput env command c = do {
     let (heapcheck, es) = hide_env ''HEAPCHECK'' (hck_environ c);
     let ldpreload = env_index ''LD_PRELOAD'' (hck_environ c);
     let es = (case ldpreload of None \<Rightarrow> es | Some i \<Rightarrow> env_patch i CHR ''?'' es);
     r \<leftarrow> hce_pprof env command;
     let es = (case heapcheck of None \<Rightarrow> es | Some i \<Rightarrow> env_patch i CHR ''K'' es);
     es \<leftarrow> (if ldpreload = None then Some es
           else (case heapcheck of None \<Rightarrow> None | Some i \<Rightarrow> Some (env_patch i CHR ''D'' es)));
     Some (r, c\<lparr>hck_environ := es\<rparr>) }"

section \<open>Checks\<close>

definition DumpProfileLocked :: "hc_env \<Rightarrow> bool \<Rightarrow> string \<Rightarrow> StackExtent \<Rightarrow> heap_check \<Rightarrow> heap_check option" where
  "DumpProfileLocked env start name self_stack c = do {
     ASSERT (\<not> dumping (hck_prof c));
     ASSERT (\<not> self_disable (hck_prof c));
     let c = c\<lparr>hck_prof := (hck_prof c)\<lparr>self_disabled_tid := hce_self env, self_disable := True\<rparr>\<rparr>;
     c \<leftarrow> IgnoreAllLiveObjectsLocked env self_stack c;
     prefix \<leftarrow> profile_prefix c;
     h \<leftarrow> DumpLocked (hce_hp env) (Some (prefix @ ''.'' @ name @ (if start then ''-beg.heap'' else ''-end.heap'')))
            ((hck_prof c)\<lparr>dump_for_leaks := True\<rparr>);
     let h = h\<lparr>dump_for_leaks := False, hp_ignored := None, self_disable := False\<rparr>;
     ASSERT (b_alloc_size (self_disabled h) - b_free_size (self_disabled h) = 0 \<and>
             b_allocs (self_disabled h) - b_frees (self_disabled h) = 0);
     Some (c\<lparr>hck_prof := h\<rparr>) }"

text \<open>Bytes and objects in use in the profile just written.\<close>

definition profile_bytes :: "heap_check \<Rightarrow> u64" where
  "profile_bytes c = b_alloc_size (profile_total (hck_prof c)) - b_free_size (profile_total (hck_prof c))"

definition profile_allocs :: "heap_check \<Rightarrow> u64" where
  "profile_allocs c = scast (b_allocs (profile_total (hck_prof c)) - b_frees (profile_total (hck_prof c)))"

definition self_extent :: "hc_env \<Rightarrow> StackExtent" where
  "self_extent env = (case hce_GetStackExtent env 0 of
     Some (tp, bottom) \<Rightarrow> \<lparr>se_have = True, se_top = tp, se_bottom = bottom\<rparr>
   | None \<Rightarrow> \<lparr>se_have = False, se_top = 0, se_bottom = 0\<rparr>)"

definition blank_check :: HeapLeakCheck where
  "blank_check = \<lparr>lc_name = None, start_inuse_bytes = 0, start_inuse_allocs = 0, has_checked = False,
     inuse_bytes_increase = 0, inuse_allocs_increase = 0\<rparr>"

definition Create :: "hc_env \<Rightarrow> string \<Rightarrow> heap_check \<Rightarrow> (HeapLeakCheck \<times> heap_check) option" where
  "Create env name c = do {
     (n, c) \<leftarrow> hc_new env (word_of_nat (length name + 1)) c;
     c \<leftarrow> IgnoreObject env n c;
     if heap_checker_on c then do {
       ASSERT (CHR ''/'' \<notin> set name);
       c \<leftarrow> DumpProfileLocked env True name (self_extent env) c;
       Some (blank_check\<lparr>lc_name := Some (n, name), start_inuse_bytes := profile_bytes c, start_inuse_allocs := profile_allocs c\<rparr>, c) }
     else do {
       c \<leftarrow> UnIgnoreObject n c;
       c \<leftarrow> hc_delete env n c;
       Some (blank_check, c) } }"

definition new_HeapLeakCheck :: "hc_env \<Rightarrow> string \<Rightarrow> heap_check \<Rightarrow> (HeapLeakCheck \<times> heap_check) option" where
  "new_HeapLeakCheck env name c = do { ASSERT (name \<noteq> ''_main_''); Create env name c }"

definition BytesLeaked :: "HeapLeakCheck \<Rightarrow> int option" where
  "BytesLeaked l = do { ASSERT (has_checked l); Some (sint (inuse_bytes_increase l)) }"

definition ObjectsLeaked :: "HeapLeakCheck \<Rightarrow> int option" where
  "ObjectsLeaked l = do { ASSERT (has_checked l); Some (sint (inuse_allocs_increase l)) }"

definition kPathMax :: nat where "kPathMax = 4096"

definition ignore_option :: "heap_check \<Rightarrow> string" where
  "ignore_option c = (case disabled_regexp c of None \<Rightarrow> [] | Some re \<Rightarrow> '' --ignore='' @ [CHR 0x27, CHR 0x5E] @ re @ [CHR 0x24, CHR 0x27])"

text \<open>The names of the profiles and the command that compares them.\<close>

definition profile_name :: "string \<Rightarrow> string \<Rightarrow> string \<Rightarrow> string" where
  "profile_name prefix name which = take kPathMax (prefix @ ''.'' @ name @ which)"

definition pprof_command :: "hc_env \<Rightarrow> bool \<Rightarrow> bool \<Rightarrow> string \<Rightarrow> string \<Rightarrow> heap_check \<Rightarrow> string" where
  "pprof_command env use_initial same_heap prefix name c =
     (let n = 6 * kPathMax + 199;
          base = take n (if use_initial
            then pprof_path c @ '' --base=\"'' @ profile_name prefix name ''-beg.heap'' @ ''\" '' @ (if same_heap then [] else '' --drop_negative'') @ '' ''
            else pprof_path c)
      in take n (base @ '' '' @ hce_invocation_path env @ '' \"'' @ profile_name prefix name ''-end.heap'' @ ''\" '' @
           ignore_option c @ '' --inuse_objects --lines''))"

text \<open>Running \<open>pprof\<close> on a suspected leak: the verdict and the text.\<close>

definition run_pprof :: "hc_env \<Rightarrow> string \<Rightarrow> bool \<Rightarrow> heap_check \<Rightarrow> ((bool \<times> string) \<times> heap_check) option" where
  "run_pprof env command see_leaks c = do {
     (output, c) \<leftarrow>
       (if \<not> hce_pprof_runs env then Some ([], c)
        else do {
          ((checked_leaks, output), c) \<leftarrow> GetStatusOutput env (take (6 * kPathMax + 199) (command @ '' --text 2>/dev/null'')) c;
          ASSERT (checked_leaks = 0);
          Some (output, c) });
     let see_leaks = (if see_leaks \<and> disabled_regexp c \<noteq> None \<and> output = [] then False else see_leaks);
     let output = (if \<not> see_leaks \<and> strstr output ''nm: '' \<noteq> None \<and> strstr output '': no symbols'' \<noteq> None then [] else output);
     Some ((see_leaks, output), c) }"

definition leak_verdict ::
  "hc_env \<Rightarrow> bool \<Rightarrow> bool \<Rightarrow> bool \<Rightarrow> bool \<Rightarrow> bool \<Rightarrow> string \<Rightarrow> heap_check \<Rightarrow> (bool \<times> heap_check) option" where
  "leak_verdict env use_initial same_heap do_full do_report see_leaks name c =
     (if \<not> (see_leaks \<or> do_full) then Some (see_leaks, c)
      else do {
        prefix \<leftarrow> profile_prefix c;
        _ \<leftarrow> hce_getcwd env;
        ((see_leaks, output), c) \<leftarrow>
          (if (see_leaks \<and> do_report) \<or> do_full
           then run_pprof env (pprof_command env use_initial same_heap prefix name c) see_leaks c
           else Some ((see_leaks, []), c));
        ASSERT (hce_readable env (profile_name prefix name ''-end.heap''));
        ASSERT (use_initial \<longrightarrow> hce_readable env (profile_name prefix name ''-beg.heap''));
        Some (see_leaks \<or> output \<noteq> [], c) })"

text \<open>\<open>is_main\<close>: the check is \<open>main_heap_checker\<close>.\<close>

definition DoNoLeaks ::
  "hc_env \<Rightarrow> bool \<Rightarrow> bool \<Rightarrow> bool \<Rightarrow> bool \<Rightarrow> HeapLeakCheck \<Rightarrow> heap_check \<Rightarrow> (bool \<times> HeapLeakCheck \<times> heap_check) option" where
  "DoNoLeaks env is_main same_heap do_full do_report l c =
     (if heap_checker_on c then do {
        (n, name) \<leftarrow> lc_name l;
        c \<leftarrow> DumpProfileLocked env False name (self_extent env) c;
        let use_initial = (\<not> (FLAGS_before_constructors c \<and> is_main));
        let l = (if use_initial then l else l\<lparr>start_inuse_bytes := 0, start_inuse_allocs := 0\<rparr>);
        let l = l\<lparr>inuse_bytes_increase := profile_bytes c - start_inuse_bytes l,
                  inuse_allocs_increase := profile_allocs c - start_inuse_allocs l, has_checked := True\<rparr>;
        let see_leaks = (if same_heap then inuse_bytes_increase l \<noteq> 0 \<or> inuse_allocs_increase l \<noteq> 0
                         else sint (inuse_bytes_increase l) > 0 \<or> sint (inuse_allocs_increase l) > 0);
        (see_leaks, c) \<leftarrow> leak_verdict env use_initial same_heap do_full do_report see_leaks name c;
        c \<leftarrow> UnIgnoreObject n c;
        c \<leftarrow> hc_delete env n c;
        Some (\<not> see_leaks, l\<lparr>lc_name := None\<rparr>, c) }
      else do { ASSERT (lc_name l = None); Some (True, l, c) })"

definition NoLeaks where "NoLeaks env l c = DoNoLeaks env False False True True l c"
definition QuickNoLeaks where "QuickNoLeaks env l c = DoNoLeaks env False False False True l c"
definition BriefNoLeaks where "BriefNoLeaks env l c = DoNoLeaks env False False False False l c"
definition SameHeap where "SameHeap env l c = DoNoLeaks env False True True True l c"
definition QuickSameHeap where "QuickSameHeap env l c = DoNoLeaks env False True False True l c"
definition BriefSameHeap where "BriefSameHeap env l c = DoNoLeaks env False True False False l c"

definition destroy_HeapLeakCheck :: "HeapLeakCheck \<Rightarrow> unit option" where
  "destroy_HeapLeakCheck l = ASSERT (lc_name l = None)"

section \<open>The whole-program check\<close>

definition HeapCleaner :: "nat \<Rightarrow> heap_check \<Rightarrow> heap_check" where
  "HeapCleaner f c = c\<lparr>heap_cleanups := Some ((case heap_cleanups c of None \<Rightarrow> [] | Some fs \<Rightarrow> fs) @ [f])\<rparr>"

definition HeapCleaner_Run :: "heap_check \<Rightarrow> heap_check" where
  "HeapCleaner_Run c = (case heap_cleanups c of None \<Rightarrow> c
     | Some fs \<Rightarrow> c\<lparr>hck_ran := hck_ran c @ fs, heap_cleanups := None\<rparr>)"

definition DoMainHeapCheck :: "hc_env \<Rightarrow> heap_check \<Rightarrow> heap_check option" where
  "DoMainHeapCheck env c = do {
     ASSERT (heap_checker_pid c = hce_getpid env);
     case main_heap_checker c of None \<Rightarrow> Some c
     | Some (p, l) \<Rightarrow> do {
         let same_heap = (FLAGS_strict_check c \<or> FLAGS_before_constructors c);
         (ok, l, c) \<leftarrow> DoNoLeaks env True same_heap (\<not> same_heap) (FLAGS_report c) l c;
         ASSERT ok;
         destroy_HeapLeakCheck l;
         c \<leftarrow> hc_delete env p c;
         Some (c\<lparr>main_heap_checker := None\<rparr>) } }"

definition RunHeapCleanups :: "hc_env \<Rightarrow> heap_check \<Rightarrow> heap_check option" where
  "RunHeapCleanups env c =
     (if heap_checker_pid c = hce_getpid env then
        let c = HeapCleaner_Run c in if \<not> FLAGS_after_destructors c then DoMainHeapCheck env c else Some c
      else Some c)"

definition AfterDestructors :: "hc_env \<Rightarrow> heap_check \<Rightarrow> heap_check option" where
  "AfterDestructors env c =
     (if heap_checker_pid c = hce_getpid env \<and> FLAGS_after_destructors c \<and> main_heap_checker c \<noteq> None
      then DoMainHeapCheck env c else Some c)"

section \<open>Turning the checker on\<close>

definition sizeof_HeapLeakCheck :: u64 where "sizeof_HeapLeakCheck = 48"

text \<open>The flags a \<open>HEAPCHECK\<close> type stands for; \<open>None\<close> for an unknown type, which ends the process.\<close>

definition check_type_flags :: "string \<Rightarrow> heap_check \<Rightarrow> heap_check option" where
  "check_type_flags ty c =
     (if ty = ''minimal'' then Some (c\<lparr>FLAGS_before_constructors := False, FLAGS_after_destructors := False, FLAGS_strict_check := False,
        FLAGS_ignore_thread_live := True, FLAGS_ignore_global_live := True\<rparr>)
      else if ty = ''normal'' then Some (c\<lparr>FLAGS_before_constructors := True, FLAGS_after_destructors := False, FLAGS_strict_check := True,
        FLAGS_ignore_thread_live := True, FLAGS_ignore_global_live := True\<rparr>)
      else if ty = ''strict'' then Some (c\<lparr>FLAGS_before_constructors := True, FLAGS_after_destructors := True, FLAGS_strict_check := True,
        FLAGS_ignore_thread_live := True, FLAGS_ignore_global_live := True\<rparr>)
      else if ty = ''draconian'' then Some (c\<lparr>FLAGS_before_constructors := True, FLAGS_after_destructors := True, FLAGS_strict_check := True,
        FLAGS_ignore_thread_live := False, FLAGS_ignore_global_live := False\<rparr>)
      else if ty = ''as-is'' \<or> ty = ''local'' then Some c
      else None)"

definition on_prof :: "(heap_profiler \<Rightarrow> heap_profiler option) \<Rightarrow> heap_check \<Rightarrow> heap_check option" where
  "on_prof f c = map_option (\<lambda>h. c\<lparr>hck_prof := h\<rparr>) (f (hck_prof c))"

definition InternalInitStart :: "hc_env \<Rightarrow> string \<Rightarrow> heap_check \<Rightarrow> heap_check option" where
  "InternalInitStart env ty c =
     (if ty = [] then
        (let c = c\<lparr>heap_checker_on := False\<rparr>
         in if constructor_heap_profiling c then on_prof (StopForLeaks (hce_hp env)) c else Some c)
      else if main_heap_checker c \<noteq> None then Some c
      else do {
        ASSERT (constructor_heap_profiling c);
        c \<leftarrow> check_type_flags ty c;
        ASSERT (heap_checker_pid c = hce_getpid env);
        let c = c\<lparr>heap_checker_on := True\<rparr>;
        ASSERT (is_on (hck_prof c));
        (r, c) \<leftarrow> UseProcMaps env DISABLE_LIBRARY_ALLOCS c;
        if r \<noteq> PROC_MAPS_USED then on_prof (StopForLeaks (hce_hp env)) (c\<lparr>heap_checker_on := False\<rparr>)
        else do {
          let prefix = dump_directory c @ ''/'' @ hce_invocation_name env;
          let c = c\<lparr>hck_prof := CleanupProfiles (hce_hp env) prefix (hck_prof c)\<rparr>;
          let c = (if main_thread_pid c = 0 then c\<lparr>main_thread_pid := hce_getpid env\<rparr> else c);
          let c = c\<lparr>profile_prefix := Some (prefix @ take 14 (''.'' @ show_int (main_thread_pid c)))\<rparr>;
          ASSERT (need_for_leaks (hck_prof c));
          (p, c) \<leftarrow> hc_new env 5 c;
          r \<leftarrow> HaveOnHeap p (hck_prof c);
          ASSERT (r \<noteq> None);
          c \<leftarrow> hc_delete env p c;
          r \<leftarrow> HaveOnHeap p (hck_prof c);
          ASSERT (r = None);
          if ty \<noteq> ''local'' then do {
            let c = c\<lparr>hck_atexit := Suc (hck_atexit c)\<rparr>;
            (p, c) \<leftarrow> hc_new env sizeof_HeapLeakCheck c;
            (l, c) \<leftarrow> Create env ''_main_'' c;
            Some (c\<lparr>main_heap_checker := Some (p, l)\<rparr>) }
          else Some c } })"

definition kKeyBlock :: nat where "kKeyBlock = 32"

fun create_keys :: "nat \<Rightarrow> mthreads \<Rightarrow> mthreads option" where
  "create_keys 0 s = Some s"
| "create_keys (Suc n) s = do {
     (key, s) \<leftarrow> perftools_pthread_key_create s;
     ASSERT (key \<noteq> None);
     create_keys n s }"

definition PThreadSpecificHack :: "mthreads \<Rightarrow> mthreads option" where
  "PThreadSpecificHack s = create_keys kKeyBlock s"

definition BeforeConstructors :: "hc_env \<Rightarrow> heap_check \<Rightarrow> heap_check option" where
  "BeforeConstructors env c = (case getenv ''HEAPCHECK'' (hck_environ c) of
     None \<Rightarrow> Some c
   | Some ty \<Rightarrow>
       if hce_setuid env then Some c
       else do {
         ASSERT (\<not> constructor_heap_profiling c);
         let c = c\<lparr>constructor_heap_profiling := True\<rparr>;
         (heapprofile, h) \<leftarrow> HP_Init (hce_hp env) (hce_self env) (getenv ''HEAPPROFILE'' (hck_environ c)) (hce_setuid env)
            (show_int (hce_getpid env)) (hce_mmap_log env) (hck_prof c);
         let es = (case (env_index ''HEAPPROFILE'' (hck_environ c), heapprofile) of
             (Some i, Some v) \<Rightarrow> (hck_environ c)[i := (''HEAPPROFILE'', v)] | _ \<Rightarrow> hck_environ c);
         h \<leftarrow> StartForLeaks (hce_hp env) (hce_self env) h;
         s \<leftarrow> PThreadSpecificHack (hck_threads c);
         let c = c\<lparr>hck_prof := h, hck_environ := es, heap_checker_on := True, hck_threads := s\<rparr>;
         if ty = [] then Some c
         else InternalInitStart env (if ty \<in> {''minimal'', ''normal'', ''strict'', ''draconian'', ''local''} then ty else ''normal'') c })"

definition HeapLeakCheck_BeforeConstructors :: "hc_env \<Rightarrow> heap_check \<Rightarrow> heap_check option" where
  "HeapLeakCheck_BeforeConstructors env c = BeforeConstructors env (c\<lparr>heap_checker_pid := hce_getpid env\<rparr>)"

text \<open>\<open>heapch_bc.cpp\<close>: every file that includes it counts up before its constructors and down after its destructors.\<close>

definition GlobalPrePost_construct :: "hc_env \<Rightarrow> int \<times> heap_check \<Rightarrow> (int \<times> heap_check) option" where
  "GlobalPrePost_construct env = (\<lambda>(count, c). do {
     c \<leftarrow> (if count = 0 then HeapLeakCheck_BeforeConstructors env c else Some c);
     Some (count + 1, c) })"

definition GlobalPrePost_destroy :: "hc_env \<Rightarrow> int \<times> heap_check \<Rightarrow> (int \<times> heap_check) option" where
  "GlobalPrePost_destroy env = (\<lambda>(count, c). do {
     ASSERT (count > 0);
     c \<leftarrow> (if count - 1 = 0 then AfterDestructors env c else Some c);
     Some (count - 1, c) })"

text \<open>Static storage.\<close>

definition heap_check_static :: "hc_env \<Rightarrow> bool \<Rightarrow> (string \<times> string) list \<Rightarrow> heap_check" where
  "heap_check_static env linked es = \<lparr>hck_prof = heap_profiler_static, FLAGS_report = True, FLAGS_before_constructors = True,
     FLAGS_after_destructors = False, FLAGS_strict_check = True, FLAGS_ignore_global_live = True, FLAGS_ignore_thread_live = True,
     flags_pprof = None, hck_dump_directory = None, disabled_regexp = None, profile_prefix = None, main_heap_checker = None,
     heap_checker_on = False, heap_checker_pid = 0, constructor_heap_profiling = False, ignored_objects = None,
     live_objects = None, library_live_objects = None, disabled_addresses = None, disabled_ranges = None, stack_ranges = None,
     live_objects_total = 0, live_bytes_total = 0, self_thread_pid = 0, thread_listing_status = CALLBACK_NOT_STARTED,
     self_thread_stack = \<lparr>se_have = False, se_top = 0, se_bottom = 0\<rparr>, main_thread_pid = hce_getpid env, heap_cleanups = None,
     hck_ran = [], hck_atexit = 0, hck_news = 0, hck_environ = es, hck_threads = mthreads_init linked\<rparr>"

end
