(* ===== verification/LeakCheck.thy ===== *)
theory LeakCheck
  imports LiveProps HeapCheck HeapProfilerProps
begin

text \<open>
  A leak check ignores exactly what is reachable from its roots; what its 32-bit loads make of that on a
  64-bit machine; and what a check then reports.
\<close>

section \<open>The search of a check\<close>

text \<open>The checker when the search begins, and the threads that are searched.\<close>

definition check_setup :: "hc_env \<Rightarrow> StackExtent \<Rightarrow> heap_check \<Rightarrow> heap_check option" where
  "check_setup env st c = (let c = c\<lparr>live_objects := Some [], stack_ranges := Some [], hck_prof := (hck_prof c)\<lparr>hp_ignored := Some []\<rparr>\<rparr>
     in map_option (\<lambda>c. c\<lparr>thread_listing_status := CALLBACK_NOT_STARTED, self_thread_pid := hce_getpid env, self_thread_stack := st\<rparr>)
       (if FLAGS_ignore_global_live c
        then map_option snd (UseProcMaps env RECORD_GLOBAL_DATA_LOCKED (c\<lparr>library_live_objects := Some []\<rparr>)) else Some c))"

definition searched_threads :: "hc_env \<Rightarrow> heap_check \<Rightarrow> (int \<times> thread_state option) list" where
  "searched_threads env c = (if FLAGS_ignore_thread_live c \<and> hce_listing env \<noteq> Not_listed then hce_threads env else [])"

definition check_roots :: "hc_env \<Rightarrow> heap_check \<Rightarrow> AllocObject set" where
  "check_roots env c = (let ts = searched_threads env c
     in thread_stacks env (self_thread_pid c) ts \<union> all_roots c (thread_ranges env (self_thread_pid c) ts []))"

definition check_registers :: "hc_env \<Rightarrow> heap_check \<Rightarrow> u64 list" where
  "check_registers env c = thread_registers (self_thread_pid c) (searched_threads env c)"

text \<open>What the search leaves alone: everything but its own work lists.\<close>

definition settled :: "heap_check \<Rightarrow> heap_check" where
  "settled c = c\<lparr>hck_prof := (hck_prof c)\<lparr>hp_ignored := None\<rparr>, live_objects := None, stack_ranges := None, live_objects_total := 0,
     live_bytes_total := 0, thread_listing_status := CALLBACK_NOT_STARTED, library_live_objects := None, self_thread_pid := 0,
     self_thread_stack := \<lparr>se_have = False, se_top = 0, se_bottom = 0\<rparr>\<rparr>"

lemma settled_blank: "settled (blank_check_state c) = settled c"
  by (simp add: settled_def blank_check_state_def)

lemma settled_same: "same_check c c' \<Longrightarrow> settled c' = settled c"
  unfolding same_check_def by (metis settled_blank)

lemma IgnoreAll_setup:
  assumes "live_objects c = None" and "hp_ignored (hck_prof c) = None"
  shows "IgnoreAllLiveObjectsLocked env st c = do {
     c \<leftarrow> check_setup env st c;
     (need, c) \<leftarrow>
       (if FLAGS_ignore_thread_live c then do {
          (r, c) \<leftarrow> list_threads env c;
          if r < 0 then do {
            ASSERT (thread_listing_status c \<noteq> CALLBACK_STARTED);
            Some (thread_listing_status c \<noteq> CALLBACK_COMPLETED, c) }
          else Some (False, c) }
        else Some (True, c));
     c \<leftarrow> (if need then IgnoreNonThreadLiveObjectsLocked env c else Some c);
     Some (c\<lparr>live_objects := None, stack_ranges := None\<rparr>) }"
  using assms
  by (cases "UseProcMaps env RECORD_GLOBAL_DATA_LOCKED (c\<lparr>live_objects := Some [], stack_ranges := Some [], hck_prof := (hck_prof c)\<lparr>hp_ignored := Some []\<rparr>, library_live_objects := Some []\<rparr>)")
    (auto simp: IgnoreAllLiveObjectsLocked_def check_setup_def Let_def split: prod.splits)

text \<open>Setting up changes nothing that the roots of the program depend on.\<close>

lemma check_setup_ok:
  assumes s: "check_setup env st c = Some c1"
  shows "live_objects c1 = Some []" "stack_ranges c1 = Some []" "hck_prof c1 = (hck_prof c)\<lparr>hp_ignored := Some []\<rparr>"
    "self_thread_pid c1 = hce_getpid env" "self_thread_stack c1 = st" "FLAGS_ignore_thread_live c1 = FLAGS_ignore_thread_live c"
    "FLAGS_ignore_global_live c1 = FLAGS_ignore_global_live c" "ignored_objects c1 = ignored_objects c"
    "thread_listing_status c1 = CALLBACK_NOT_STARTED" "libraries_ready c1" "settled c1 = settled c"
proof -
  let ?c = "c\<lparr>live_objects := Some [], stack_ranges := Some [], hck_prof := (hck_prof c)\<lparr>hp_ignored := Some []\<rparr>\<rparr>"
  obtain c0 where c0: "c1 = c0\<lparr>thread_listing_status := CALLBACK_NOT_STARTED, self_thread_pid := hce_getpid env, self_thread_stack := st\<rparr>"
    "lib_same ?c c0" "FLAGS_ignore_global_live c \<longrightarrow> library_data c0"
  proof (cases "FLAGS_ignore_global_live c")
    case True
    then obtain r c0 where u: "UseProcMaps env RECORD_GLOBAL_DATA_LOCKED (?c\<lparr>library_live_objects := Some []\<rparr>) = Some (r, c0)"
      "c1 = c0\<lparr>thread_listing_status := CALLBACK_NOT_STARTED, self_thread_pid := hce_getpid env, self_thread_stack := st\<rparr>"
      using s by (auto simp: check_setup_def Let_def)
    have "library_data (?c\<lparr>library_live_objects := Some []\<rparr>)" by (simp add: library_data_def)
    from UseProcMaps_data [OF u(1) this] show ?thesis using that [OF u(2)] by (simp add: lib_same_def)
  next
    case False
    then show ?thesis using that [of ?c] s by (simp add: check_setup_def Let_def lib_same_def)
  qed
  have f: "f (c0\<lparr>library_live_objects := None\<rparr>) = f (?c\<lparr>library_live_objects := None\<rparr>)" for f :: "heap_check \<Rightarrow> 'b"
    using c0(2) by (simp add: lib_same_def)
  have fl: "FLAGS_ignore_global_live c1 = FLAGS_ignore_global_live c" using f [of FLAGS_ignore_global_live] by (simp add: c0(1))
  then show "FLAGS_ignore_global_live c1 = FLAGS_ignore_global_live c" .
  show "live_objects c1 = Some []" "stack_ranges c1 = Some []" "hck_prof c1 = (hck_prof c)\<lparr>hp_ignored := Some []\<rparr>"
    "self_thread_pid c1 = hce_getpid env" "self_thread_stack c1 = st" "FLAGS_ignore_thread_live c1 = FLAGS_ignore_thread_live c"
    "ignored_objects c1 = ignored_objects c" "thread_listing_status c1 = CALLBACK_NOT_STARTED"
    using f [of live_objects] f [of stack_ranges] f [of hck_prof] f [of FLAGS_ignore_thread_live] f [of ignored_objects] by (simp_all add: c0(1))
  have "settled c1 = settled (c0\<lparr>library_live_objects := None\<rparr>)" by (simp add: c0(1) settled_def)
  also have "\<dots> = settled c" using f [of settled] by (simp add: settled_def)
  finally show "settled c1 = settled c" .
  show "libraries_ready c1" using c0(3) fl by (auto simp: libraries_ready_def library_data_def c0(1))
qed

lemma same_or_no_library_prof:
  assumes "\<exists>c''. same_check c c'' \<and> (c' = c'' \<or> c' = c''\<lparr>library_live_objects := None\<rparr>)"
  shows "(hck_prof c')\<lparr>hp_ignored := None\<rparr> = (hck_prof c)\<lparr>hp_ignored := None\<rparr>"
proof -
  obtain c'' where "same_check c c''" "hck_prof c' = hck_prof c''" using assms by auto
  moreover from this have "hck_prof (blank_check_state c'') = hck_prof (blank_check_state c)" by (simp add: same_check_def)
  ultimately show ?thesis by (simp add: blank_check_state_def)
qed

lemma prof_ignored_eq:
  "h'\<lparr>hp_ignored := None\<rparr> = h\<lparr>hp_ignored := None\<rparr> \<Longrightarrow> hp_ignored h' = S \<Longrightarrow> h' = (h :: heap_profiler)\<lparr>hp_ignored := S\<rparr>"
  by (cases h; cases h'; simp)

lemma check_roots_ok:
  assumes "x \<in> check_roots env c" and "ignored_objects_on_heap c" and "allocation (hck_prof c) = A" and "libraries_ready c"
  shows "root_ok A x"
proof -
  have "ao_place x \<noteq> MUST_BE_ON_HEAP \<or> (\<exists>b. AM_Find A (ao_ptr x) = Some (b, ao_size x))"
    using assms by (force simp: check_roots_def all_roots_def thread_stacks_def stack_roots_def ignored_roots_def disabled_roots_def library_roots_def
        ignored_objects_on_heap_def libraries_ready_def Let_def split: if_splits option.splits)
  then show ?thesis by (auto simp: root_ok_def resolve_def)
qed

lemma IgnoreAll_reaches:
  assumes "is_on (hck_prof c)" and "AM_wf (allocation (hck_prof c))" and "live_objects c = None" and "hp_ignored (hck_prof c) = None"
    and "ignored_objects_on_heap c" and "check_setup env st c = Some c1" and "FLAGS_ignore_thread_live c \<longrightarrow> hce_listing env \<noteq> Listing_died"
    and "copy_ok env (check_registers env c1) (allocation (hck_prof c))"
  shows "\<exists>S c'. IgnoreAllLiveObjectsLocked env st c = Some c' \<and> hck_prof c' = (hck_prof c)\<lparr>hp_ignored := Some S\<rparr> \<and>
    settled c' = settled c \<and> live_objects c' = None \<and> distinct S \<and>
    set S = reached (hce_load32 env) (allocation (hck_prof c)) (check_roots env c1)
      (register_targets (allocation (hck_prof c)) (check_registers env c1))"
proof -
  let ?A = "allocation (hck_prof c)" and ?load = "hce_load32 env"
  note u = check_setup_ok [OF assms(6)]
  have C: "in_check ?A [] c1" using assms(1) by (simp add: in_check_def u(3))
  have on: "ignored_objects_on_heap c1" using assms(5) by (simp add: ignored_objects_on_heap_def u(3,8))
  have cl0: "closed_under ?load ?A (set [])" by (simp add: closed_under_def)
  obtain c2 need where l: "(if FLAGS_ignore_thread_live c1 then do {
          (r, c) \<leftarrow> list_threads env c1;
          if r < 0 then do {
            ASSERT (thread_listing_status c \<noteq> CALLBACK_STARTED);
            Some (thread_listing_status c \<noteq> CALLBACK_COMPLETED, c) }
          else Some (False, c) }
        else Some (True, c1)) = Some (need, c2)"
    and n: "need \<longrightarrow> c2 = c1 \<and> searched_threads env c1 = []"
    and d: "\<not> need \<longrightarrow> (\<exists>S'. in_check ?A S' c2 \<and> set S' = reached ?load ?A (check_roots env c1) (register_targets ?A (check_registers env c1)) \<and>
      (\<exists>c''. same_check c1 c'' \<and> (c2 = c'' \<or> c2 = c''\<lparr>library_live_objects := None\<rparr>)))"
  proof (cases "FLAGS_ignore_thread_live c1 \<and> hce_listing env \<noteq> Not_listed")
    case False
    then show ?thesis using that [of True c1] u(9) by (auto simp: list_threads_def searched_threads_def)
  next
    case True
    then obtain b where b: "hce_listing env = Listed b" using assms(7) u(6) by (cases "hce_listing env") auto
    have ts: "searched_threads env c1 = hce_threads env" using True by (simp add: searched_threads_def)
    obtain f S' c2 where r: "IgnoreLiveThreads env (hce_threads env) c1 = Some (f, c2)" "in_check ?A S' c2"
      "set S' = reached ?load ?A (check_roots env c1) (register_targets ?A (check_registers env c1))" "thread_listing_status c2 = CALLBACK_COMPLETED"
      "\<exists>c''. same_check c1 c'' \<and> (c2 = c'' \<or> c2 = c''\<lparr>library_live_objects := None\<rparr>)"
      using IgnoreLiveThreads_spec [OF C assms(2) u(1,2) on u(10), of env "hce_threads env"] assms(8)
      unfolding check_roots_def check_registers_def ts Let_def by blast
    show ?thesis by (rule that [of False c2]) (use True b r in \<open>auto simp: list_threads_def\<close>)
  qed
  obtain S' c3 where s: "(if need then IgnoreNonThreadLiveObjectsLocked env c2 else Some c2) = Some c3" "in_check ?A S' c3"
    "set S' = reached ?load ?A (check_roots env c1) (register_targets ?A (check_registers env c1))"
    "\<exists>c''. same_check c1 c'' \<and> (c3 = c'' \<or> c3 = c''\<lparr>library_live_objects := None\<rparr>)"
  proof (cases need)
    case True
    then have "check_roots env c1 = all_roots c1 []" "register_targets ?A (check_registers env c1) = set []"
      using n by (simp_all add: check_roots_def check_registers_def thread_stacks_def thread_registers_def register_targets_def)
    then show ?thesis using IgnoreNonThread_spec [OF C assms(2) u(1,2) cl0 on u(10)] that True n by metis
  next
    case False
    then show ?thesis using d that by auto
  qed
  have run: "IgnoreAllLiveObjectsLocked env st c = Some (c3\<lparr>live_objects := None, stack_ranges := None\<rparr>)"
    unfolding IgnoreAll_setup [OF assms(3,4)] using assms(6) l s(1) by simp
  have "(hck_prof c3)\<lparr>hp_ignored := None\<rparr> = (hck_prof c)\<lparr>hp_ignored := None\<rparr>"
    using same_or_no_library_prof [OF s(4)] by (simp add: u(3))
  then have "hck_prof c3 = (hck_prof c)\<lparr>hp_ignored := Some S'\<rparr>" by (rule prof_ignored_eq) (use s(2) in \<open>simp add: in_check_def\<close>)
  moreover have "distinct S'" using s(2) by (simp add: in_check_def)
  moreover have "settled (c3\<lparr>live_objects := None, stack_ranges := None\<rparr>) = settled c"
    using s(4) settled_same u(11) by (auto simp: settled_def)
  ultimately show ?thesis using run s(3) by (intro exI [of _ S']) auto
qed

text \<open>
  C15. A leak check ignores exactly the live objects: whatever the listing of the threads does short of dying,
  the objects it ignores are those reachable, by words that point to an object or right behind the header
  of an array or a string, from the stacks and registers of the threads, the objects the program asked to
  ignore, the allocations of disabled code and the writable data of the mapped files. The search always
  ends and changes nothing but its own work lists.
\<close>

theorem leak_check_ignores_reachable:
  assumes "is_on (hck_prof c)" and "AM_wf (allocation (hck_prof c))" and "live_objects c = None" and "hp_ignored (hck_prof c) = None"
    and "ignored_objects_on_heap c" and "check_setup env st c = Some c1" and "FLAGS_ignore_thread_live c \<longrightarrow> hce_listing env \<noteq> Listing_died"
    and "copy_ok env (check_registers env c1) (allocation (hck_prof c))"
  shows "\<exists>S c'. IgnoreAllLiveObjectsLocked env st c = Some c' \<and> hck_prof c' = (hck_prof c)\<lparr>hp_ignored := Some S\<rparr> \<and>
    settled c' = settled c \<and> live_objects c' = None \<and> distinct S \<and>
    set S = reached (hce_load32 env) (allocation (hck_prof c)) (check_roots env c1)
      (register_targets (allocation (hck_prof c)) (check_registers env c1))"
  using assms by (rule IgnoreAll_reaches)

text \<open>The run of the profiler with two live objects; a stack that points to both of them.\<close>

definition demo_hc :: hc_env where
  "demo_hc = \<lparr>hce_hp = demo_env, hce_malloc = \<lambda>k. 0x9000 + 64 * word_of_nat k, hce_load32 = \<lambda>a. if a = 0x8000 then 0x7000 else if a = 0x8008 then 0x1000 else 0,
     hce_getpid = 42, hce_self = 1, hce_maps = Some [], hce_elf = \<lambda>_. None, hce_threads = [], hce_listing = Not_listed,
     hce_registers_at = 0xA000, hce_GetStackExtent = \<lambda>_. Some (0x8000, 0x8010), hce_sizeof_map = 48, hce_sizeof_set = 64, hce_sizeof_string = 32,
     hce_pprof_runs = False, hce_pprof = \<lambda>_. None, hce_readable = \<lambda>_. True, hce_setuid = False, hce_invocation_name = ''demo'',
     hce_invocation_path = ''demo'', hce_getcwd = Some [], hce_mmap_log = False\<rparr>"

definition demo_extent :: StackExtent where
  "demo_extent = \<lparr>se_have = True, se_top = 0x8000, se_bottom = 0x8010\<rparr>"

definition demo_check :: "heap_profiler \<Rightarrow> heap_check" where
  "demo_check h = (heap_check_static demo_hc True [])\<lparr>hck_prof := h, FLAGS_ignore_global_live := False\<rparr>"

definition demo_ready :: "heap_profiler \<Rightarrow> heap_check" where
  "demo_ready h = (demo_check h)\<lparr>live_objects := Some [], stack_ranges := Some [], hck_prof := h\<lparr>hp_ignored := Some []\<rparr>, self_thread_pid := 42, self_thread_stack := demo_extent\<rparr>"

lemma demo_setup: "check_setup demo_hc demo_extent (demo_check h) = Some (demo_ready h)"
  by (simp add: check_setup_def demo_check_def demo_ready_def heap_check_static_def demo_hc_def Let_def)

lemma demo_heap_find:
  assumes "hp_live h = demo_live"
  shows "\<exists>b. AM_Find (allocation h) 0x7000 = Some (b, 24)" "\<exists>b. AM_Find (allocation h) 0x7F0000001000 = Some (b, 16)"
    "p \<noteq> 0x7000 \<Longrightarrow> p \<noteq> 0x7F0000001000 \<Longrightarrow> AM_Find (allocation h) p = None"
proof -
  have e: "hp_live h x = demo_live x" for x by (simp add: assms)
  show "\<exists>b. AM_Find (allocation h) 0x7000 = Some (b, 24)" "\<exists>b. AM_Find (allocation h) 0x7F0000001000 = Some (b, 16)"
    "p \<noteq> 0x7000 \<Longrightarrow> p \<noteq> 0x7F0000001000 \<Longrightarrow> AM_Find (allocation h) p = None"
    using e [of "0x7000"] e [of "0x7F0000001000"] e [of p] by (auto simp: hp_live_def demo_live_def split: if_splits)
qed

lemma demo_prof:
  "\<exists>h. hp_reach demo_env h demo_live \<and> is_on h \<and> AM_wf (allocation h) \<and> hp_ignored h = None \<and> hp_live h = demo_live"
proof -
  obtain h where r: "hp_reach demo_env h demo_live" using demo_reach by blast
  then have i: "hp_inv h" "hp_live h = demo_live" "hp_ignored h = None" using hp_reach_inv demo_env_ok by auto
  then show ?thesis using r by (auto simp: hp_inv_def hp_tab_def)
qed

lemma demo_start:
  assumes "is_on h" and "AM_wf (allocation h)" and "hp_ignored h = None"
  shows "is_on (hck_prof (demo_check h)) \<and> AM_wf (allocation (hck_prof (demo_check h))) \<and> live_objects (demo_check h) = None \<and>
    hp_ignored (hck_prof (demo_check h)) = None \<and> ignored_objects_on_heap (demo_check h) \<and>
    (FLAGS_ignore_thread_live (demo_check h) \<longrightarrow> hce_listing demo_hc \<noteq> Listing_died) \<and>
    copy_ok demo_hc (check_registers demo_hc (demo_ready h)) (allocation (hck_prof (demo_check h)))"
  using assms by (auto simp: demo_check_def heap_check_static_def ignored_objects_on_heap_def demo_hc_def copy_ok_def check_registers_def
        searched_threads_def thread_registers_def register_copy_def)

lemma leak_check_ignores_reachable_witness:
  "\<exists>h S c'. hp_reach demo_env h demo_live \<and> IgnoreAllLiveObjectsLocked demo_hc demo_extent (demo_check h) = Some c' \<and>
     hp_ignored (hck_prof c') = Some S \<and> 0x7000 \<in> set S"
proof -
  obtain h where h: "hp_reach demo_env h demo_live" "is_on h" "AM_wf (allocation h)" "hp_ignored h = None" "hp_live h = demo_live"
    using demo_prof by blast
  have prof: "hck_prof (demo_check h) = h" by (simp add: demo_check_def)
  obtain S c' where s: "IgnoreAllLiveObjectsLocked demo_hc demo_extent (demo_check h) = Some c'" "hck_prof c' = h\<lparr>hp_ignored := Some S\<rparr>"
    "set S = reached (hce_load32 demo_hc) (allocation h) (check_roots demo_hc (demo_ready h)) (register_targets (allocation h) (check_registers demo_hc (demo_ready h)))"
    using leak_check_ignores_reachable [OF _ _ _ _ _ demo_setup [of h]] demo_start [OF h(2-4)] prof by fastforce
  have root: "\<lparr>ao_ptr = 0x8000, ao_size = 0x10, ao_place = THREAD_STACK\<rparr> \<in> check_roots demo_hc (demo_ready h)"
    by (simp add: check_roots_def all_roots_def stack_roots_def demo_ready_def demo_extent_def Let_def)
  have "0x8000 \<in> words_of 0x8000 0x10"
    unfolding words_of_def words_from_def by (rule image_eqI [of _ _ 0]) (simp_all add: align_object_def)
  moreover have "hce_load32 demo_hc 0x8000 \<noteq> 0" by (simp add: demo_hc_def)
  moreover have "resolve (allocation h) (ucast (hce_load32 demo_hc 0x8000)) = Some (0x7000, 24)"
    using demo_heap_find(1) [OF h(5)] by (auto simp: demo_hc_def resolve_def)
  ultimately have "0x7000 \<in> targets (hce_load32 demo_hc) (allocation h) (words_of 0x8000 0x10)"
    unfolding targets_def by blast
  with root have "0x7000 \<in> set S" unfolding s(3) by (intro reached_from_root [of "\<lparr>ao_ptr = 0x8000, ao_size = 0x10, ao_place = THREAD_STACK\<rparr>"]) simp_all
  then show ?thesis using h(1) s(1,2) by auto
qed

section \<open>Pointers of 64 bits\<close>

lemma resolve_low:
  assumes "resolve A (ucast (w :: u32)) = Some (p, n)"
  shows "unat p < 2 ^ 32 \<or> 2 ^ 64 - 12 \<le> unat p"
proof -
  let ?w = "ucast w :: u64"
  have w: "unat ?w < 2 ^ 32" using unsigned_less [of w] by (simp add: unat_ucast_wider)
  have sub: "unat (?w - k) < 2 ^ 32 \<or> 2 ^ 64 - 12 \<le> unat (?w - k)" if "unat k \<le> 12" for k
  proof (cases "unat k \<le> unat ?w")
    case True
    then have "unat (?w - k) = unat ?w - unat k" by (simp add: unat_sub word_le_nat_alt)
    then show ?thesis using w by linarith
  next
    case False
    then have "unat (?w - k) = 2 ^ 64 - unat k + unat ?w" using w that by (simp add: unat_sub_if_size word_size)
    then show ?thesis using that by arith
  qed
  have "p = ?w \<or> p = ?w - 4 \<or> p = ?w - 12"
    using assms by (auto simp: resolve_def find_inside_def split: option.splits if_splits)
  then show ?thesis using w sub [of 4] sub [of 12] by auto
qed

text \<open>
  C29. On a machine with 64-bit pointers the search misses every object above 4 GB: \<open>UNALIGNED_LOAD32\<close> reads
  the lower half of each word, so an object there is never found through a pointer. Unless the program asked to
  ignore it or disabled code allocated it, it stays among the leaks, whatever points to it.
\<close>

theorem objects_above_4GB_missed:
  assumes "is_on (hck_prof c)" and "AM_wf (allocation (hck_prof c))" and "live_objects c = None" and "hp_ignored (hck_prof c) = None"
    and "ignored_objects_on_heap c" and "check_setup env st c = Some c1" and "FLAGS_ignore_thread_live c \<longrightarrow> hce_listing env \<noteq> Listing_died"
    and "copy_ok env (check_registers env c1) (allocation (hck_prof c))"
    and "IgnoreAllLiveObjectsLocked env st c = Some c'" and "hp_ignored (hck_prof c') = Some S"
    and "2 ^ 32 \<le> unat p" and "unat p < 2 ^ 64 - 12" and "\<forall>x\<in>check_roots env c1. ao_place x = MUST_BE_ON_HEAP \<longrightarrow> ao_ptr x \<noteq> p"
  shows "p \<notin> set S"
proof
  let ?A = "allocation (hck_prof c)"
  assume p: "p \<in> set S"
  have S: "set S = reached (hce_load32 env) ?A (check_roots env c1) (register_targets ?A (check_registers env c1))"
    using IgnoreAll_reaches [OF assms(1-8)] assms(9,10) by auto
  have "reached (hce_load32 env) ?A (check_roots env c1) (register_targets ?A (check_registers env c1)) \<subseteq>
    {q. unat q < 2 ^ 32 \<or> 2 ^ 64 - 12 \<le> unat q} \<union> (\<Union>x\<in>check_roots env c1. root_object ?A x)"
    by (rule reached_least) (auto simp: targets_def register_targets_def dest: resolve_low)
  then obtain x where x: "x \<in> check_roots env c1" "p \<in> root_object ?A x" using p S assms(11,12) by auto
  note u = check_setup_ok [OF assms(6)]
  have "root_ok ?A x" by (rule check_roots_ok [OF x(1)]) (use assms(5) u in \<open>simp_all add: ignored_objects_on_heap_def\<close>)
  then have "ao_ptr x = p" "ao_place x = MUST_BE_ON_HEAP" using x(2) by (auto simp: root_object_def root_ok_def split: if_splits)
  then show False using assms(13) x(1) by blast
qed

lemma stack_not_disabled: "disabled_addresses c = None \<Longrightarrow> disabled_ranges c = None \<Longrightarrow> \<not> stack_disabled c st d"
  by (induction st arbitrary: d) simp_all

lemma demo_ready_fields:
  "disabled_addresses (demo_ready h) = None" "disabled_ranges (demo_ready h) = None" "ignored_objects (demo_ready h) = None"
  "\<not> FLAGS_ignore_global_live (demo_ready h)" "hce_listing demo_hc = Not_listed" "self_thread_stack (demo_ready h) = demo_extent"
  by (simp_all add: demo_ready_def demo_check_def heap_check_static_def demo_hc_def)

lemma objects_above_4GB_missed_witness:
  "\<exists>h S c'. hp_reach demo_env h demo_live \<and> IgnoreAllLiveObjectsLocked demo_hc demo_extent (demo_check h) = Some c' \<and>
     hp_ignored (hck_prof c') = Some S \<and> 0x7F0000001000 \<notin> set S"
proof -
  obtain h where h: "hp_reach demo_env h demo_live" "is_on h" "AM_wf (allocation h)" "hp_ignored h = None" "hp_live h = demo_live"
    using demo_prof by blast
  obtain S c' where s: "IgnoreAllLiveObjectsLocked demo_hc demo_extent (demo_check h) = Some c'" "hp_ignored (hck_prof c') = Some S"
    using IgnoreAll_reaches [OF _ _ _ _ _ demo_setup [of h]] demo_start [OF h(2-4)] by fastforce
  have "\<forall>x\<in>check_roots demo_hc (demo_ready h). ao_place x = MUST_BE_ON_HEAP \<longrightarrow> ao_ptr x \<noteq> 0x7F0000001000"
    by (auto simp: check_roots_def all_roots_def stack_roots_def searched_threads_def thread_stacks_def ignored_roots_def
        disabled_roots_def library_roots_def demo_ready_fields stack_not_disabled)
  moreover have "is_on (hck_prof (demo_check h))" "AM_wf (allocation (hck_prof (demo_check h)))" "live_objects (demo_check h) = None"
    "hp_ignored (hck_prof (demo_check h)) = None" "ignored_objects_on_heap (demo_check h)"
    "FLAGS_ignore_thread_live (demo_check h) \<longrightarrow> hce_listing demo_hc \<noteq> Listing_died"
    "copy_ok demo_hc (check_registers demo_hc (demo_ready h)) (allocation (hck_prof (demo_check h)))"
    using demo_start [OF h(2-4)] by blast+
  ultimately have "0x7F0000001000 \<notin> set S"
    using s by (intro objects_above_4GB_missed [OF _ _ _ _ _ demo_setup]) simp_all
  then show ?thesis using h(1) s by blast
qed

end
