(* ===== verification/LeakProfile.thy ===== *)
theory LeakProfile
  imports HeapProfilerProps
begin

text \<open>
  The profile of a leak check: while it is written, the ignored objects are taken out of the counters of
  their buckets; afterwards they are put back.
\<close>

section \<open>Taking objects out of the counters\<close>

definition take_out :: "int \<Rightarrow> (u64 \<Rightarrow> alloc_value option) \<Rightarrow> u64 set \<Rightarrow> (u64 \<Rightarrow> bucket) \<Rightarrow> u64 \<Rightarrow> bucket" where
  "take_out adjust a S bs b = (bs b)\<lparr>b_allocs := b_allocs (bs b) + word_of_int adjust * word_of_nat (card (live_of a b \<inter> S)),
     b_alloc_size := b_alloc_size (bs b) + word_of_int adjust * (\<Sum>p\<in>live_of a b \<inter> S. snd (the (a p)))\<rparr>"

text \<open>No counter turns negative, whichever of the objects have been treated.\<close>

definition stays_positive :: "int \<Rightarrow> (u64 \<Rightarrow> alloc_value option) \<Rightarrow> u64 set \<Rightarrow> (u64 \<Rightarrow> bucket) \<Rightarrow> bool" where
  "stays_positive adjust a S bs \<longleftrightarrow> (\<forall>b T. T \<subseteq> live_of a b \<inter> S \<longrightarrow> T \<noteq> {} \<longrightarrow>
     0 \<le> sint (b_allocs (bs b) + word_of_int adjust * word_of_nat (card T)) \<and>
     0 \<le> sint (b_alloc_size (bs b) + word_of_int adjust * (\<Sum>p\<in>T. snd (the (a p)))))"

lemma take_out_empty [simp]: "take_out adjust a {} bs = bs"
  by (simp add: take_out_def fun_eq_iff)

lemma live_of_cases: "a i = Some (c, n) \<Longrightarrow> i \<in> live_of a b \<longleftrightarrow> b = c"
  by (auto simp: live_of_def)

lemma take_out_insert:
  assumes "a i = Some (c, n)" and "i \<notin> S" and "finite S"
  shows "take_out adjust a (insert i S) bs = take_out adjust a S
    (bs(c := (bs c)\<lparr>b_allocs := b_allocs (bs c) + word_of_int adjust, b_alloc_size := b_alloc_size (bs c) + word_of_int adjust * n\<rparr>))"
proof
  fix b
  show "take_out adjust a (insert i S) bs b = take_out adjust a S
    (bs(c := (bs c)\<lparr>b_allocs := b_allocs (bs c) + word_of_int adjust, b_alloc_size := b_alloc_size (bs c) + word_of_int adjust * n\<rparr>)) b"
  proof (cases "b = c")
    case True
    then have e: "live_of a b \<inter> insert i S = insert i (live_of a b \<inter> S)" using live_of_cases [where a = a and i = i, OF assms(1)] by auto
    show ?thesis unfolding take_out_def e using True assms by (simp add: algebra_simps)
  next
    case False
    then have "live_of a b \<inter> insert i S = live_of a b \<inter> S" using live_of_cases [where a = a and i = i, OF assms(1)] by auto
    then show ?thesis using False by (simp add: take_out_def)
  qed
qed

lemma stays_positive_insert:
  assumes "a i = Some (c, n)" and "i \<notin> S" and "finite S" and "stays_positive adjust a (insert i S) bs"
  shows "0 \<le> sint (b_allocs (bs c) + word_of_int adjust) \<and> 0 \<le> sint (b_alloc_size (bs c) + word_of_int adjust * n) \<and>
    stays_positive adjust a S
      (bs(c := (bs c)\<lparr>b_allocs := b_allocs (bs c) + word_of_int adjust, b_alloc_size := b_alloc_size (bs c) + word_of_int adjust * n\<rparr>))"
proof -
  have p: "0 \<le> sint (b_allocs (bs b) + word_of_int adjust * word_of_nat (card T)) \<and>
    0 \<le> sint (b_alloc_size (bs b) + word_of_int adjust * (\<Sum>p\<in>T. snd (the (a p))))" if "T \<subseteq> live_of a b \<inter> insert i S" "T \<noteq> {}" for b T
    using assms(4) that unfolding stays_positive_def by blast
  have i: "i \<in> live_of a c" using live_of_cases [where a = a and i = i, OF assms(1)] by simp
  have one: "0 \<le> sint (b_allocs (bs c) + word_of_int adjust) \<and> 0 \<le> sint (b_alloc_size (bs c) + word_of_int adjust * n)"
    using p [of "{i}" c] i assms(1) by simp
  have "0 \<le> sint (b_allocs (bs c) + word_of_int adjust + word_of_int adjust * word_of_nat (card T)) \<and>
    0 \<le> sint (b_alloc_size (bs c) + word_of_int adjust * n + word_of_int adjust * (\<Sum>p\<in>T. snd (the (a p))))"
    if T: "T \<subseteq> live_of a c \<inter> S" for T
  proof -
    have "i \<notin> T" "finite T" using T assms(2,3) by (auto intro: finite_subset)
    then show ?thesis using p [of "insert i T" c] T i assms(1) by (auto simp: algebra_simps)
  qed
  then show ?thesis using one p unfolding stays_positive_def by simp blast
qed

lemma AdjustByIgnoredObjects_spec:
  assumes "distinct S" and "\<forall>p\<in>set S. AM_Find (allocation h) p \<noteq> None"
    and "stays_positive adjust (AM_Find (allocation h)) (set S) (buckets h)"
  shows "AdjustByIgnoredObjects adjust S h = Some (h\<lparr>buckets := take_out adjust (AM_Find (allocation h)) (set S) (buckets h)\<rparr>)"
  using assms
proof (induction S arbitrary: h)
  case (Cons i S)
  obtain c n where f: "AM_Find (allocation h) i = Some (c, n)" using Cons.prems(2) by fastforce
  have i: "i \<notin> set S" "finite (set S)" using Cons.prems(1) by simp_all
  let ?h = "h\<lparr>buckets := (buckets h)(c := (buckets h c)\<lparr>b_allocs := b_allocs (buckets h c) + word_of_int adjust,
    b_alloc_size := b_alloc_size (buckets h c) + word_of_int adjust * n\<rparr>)\<rparr>"
  have s: "stays_positive adjust (AM_Find (allocation h)) (insert i (set S)) (buckets h)" using Cons.prems(3) by simp
  note q = stays_positive_insert [where a = "AM_Find (allocation h)" and i = i, OF f i s]
  have "AdjustByIgnoredObjects adjust S ?h = Some (?h\<lparr>buckets := take_out adjust (AM_Find (allocation ?h)) (set S) (buckets ?h)\<rparr>)"
    by (rule Cons.IH) (use Cons.prems q in \<open>simp_all add: fun_upd_def\<close>)
  then show ?case using f q by (simp add: Let_def ASSERT_def take_out_insert [where a = "AM_Find (allocation h)" and i = i, OF f i])
qed simp

section \<open>Counters that have not wrapped\<close>

text \<open>
  The counts of allocations are cumulative; they have not wrapped while each is at least what is live.
\<close>

definition counted :: "heap_profiler \<Rightarrow> bool" where
  "counted h \<longleftrightarrow> (let a = AM_Find (allocation h) in \<forall>b. live_of a b \<noteq> {} \<longrightarrow>
     int (card (live_of a b)) \<le> sint (b_allocs (buckets h b)) \<and>
     (\<Sum>p\<in>live_of a b. uint (snd (the (a p)))) \<le> sint (b_alloc_size (buckets h b)))"

lemma sint_minus_le:
  fixes x :: "'a::len word"
  assumes "0 \<le> k" and "k \<le> sint x"
  shows "0 \<le> sint (x - word_of_int k)"
proof -
  have "x - word_of_int k = word_of_int (sint x - k)" by simp
  moreover have "sint (word_of_int (sint x - k) :: 'a word) = sint x - k"
    unfolding sint_sbintrunc' by (rule signed_take_bit_int_eq_self)
      (use assms sint_less [of x] in \<open>auto intro: order_trans [of _ 0]\<close>)
  ultimately show ?thesis using assms by simp
qed

lemma counted_positive:
  assumes "counted h" and "finite (dom (AM_Find (allocation h)))"
  shows "stays_positive (- 1) (AM_Find (allocation h)) S (buckets h)"
    "stays_positive 1 (AM_Find (allocation h)) S (take_out (- 1) (AM_Find (allocation h)) S (buckets h))"
proof -
  let ?a = "AM_Find (allocation h)"
  have pos: "0 \<le> sint (b_allocs (buckets h b) - word_of_nat (card T)) \<and> 0 \<le> sint (b_alloc_size (buckets h b) - (\<Sum>p\<in>T. snd (the (?a p))))"
    if "T \<subseteq> live_of ?a b" "live_of ?a b \<noteq> {}" for b T
  proof -
    have fin: "finite (live_of ?a b)" by (rule live_of_finite [OF assms(2)])
    have c: "int (card T) \<le> sint (b_allocs (buckets h b))"
      using assms(1) that card_mono [OF fin that(1)] by (force simp: counted_def Let_def)
    have "(\<Sum>p\<in>T. uint (snd (the (?a p)))) \<le> (\<Sum>p\<in>live_of ?a b. uint (snd (the (?a p))))"
      by (rule sum_mono2 [OF fin that(1)]) simp
    then have s: "(\<Sum>p\<in>T. uint (snd (the (?a p)))) \<le> sint (b_alloc_size (buckets h b))"
      using assms(1) that by (force simp: counted_def Let_def)
    have "(\<Sum>p\<in>T. snd (the (?a p))) = word_of_int (\<Sum>p\<in>T. uint (snd (the (?a p))))" by simp
    moreover have "(word_of_nat (card T) :: u32) = word_of_int (int (card T))" by simp
    ultimately show ?thesis using sint_minus_le [OF _ c] sint_minus_le [OF _ s] by (simp add: sum_nonneg)
  qed
  show "stays_positive (- 1) ?a S (buckets h)" unfolding stays_positive_def using pos by simp blast
  have "0 \<le> sint (b_allocs (take_out (- 1) ?a S (buckets h) b) + word_of_nat (card T)) \<and>
    0 \<le> sint (b_alloc_size (take_out (- 1) ?a S (buckets h) b) + (\<Sum>p\<in>T. snd (the (?a p))))"
    if T: "T \<subseteq> live_of ?a b \<inter> S" "T \<noteq> {}" for b T
  proof -
    let ?L = "live_of ?a b \<inter> S"
    have fin: "finite ?L" using live_of_finite [OF assms(2)] by blast
    have fT: "finite T" by (rule finite_subset [OF T(1) fin])
    have "card ?L = card (?L - T) + card T" using card_Diff_subset [OF fT T(1)] card_mono [OF fin T(1)] by simp
    moreover have "(\<Sum>p\<in>?L. snd (the (?a p))) = (\<Sum>p\<in>?L - T. snd (the (?a p))) + (\<Sum>p\<in>T. snd (the (?a p)))"
      by (rule sum.subset_diff [OF T(1) fin])
    moreover have "?L - T \<subseteq> live_of ?a b" "live_of ?a b \<noteq> {}" using T by auto
    ultimately show ?thesis using pos [of "?L - T" b] by (simp add: take_out_def algebra_simps)
  qed
  then show "stays_positive 1 ?a S (take_out (- 1) ?a S (buckets h))" unfolding stays_positive_def by simp
qed

lemma take_out_back: "take_out 1 a S (take_out (- 1) a S bs) = bs"
  by (simp add: take_out_def fun_eq_iff)

section \<open>The profile of a check\<close>

text \<open>Number and bytes of the live allocations that are not ignored.\<close>

definition unignored :: "(u64 \<Rightarrow> (u64 list \<times> u64) option) \<Rightarrow> u64 set \<Rightarrow> u32 \<times> u64" where
  "unignored L S = (word_of_nat (card (dom L - S)), \<Sum>p\<in>dom L - S. snd (the (L p)))"

lemma take_out_sums:
  assumes cnt: "counts_ok bs B tot a"
  shows "(\<Sum>b\<in>B. b_allocs (take_out (- 1) a S bs b)) - (\<Sum>b\<in>B. b_frees (take_out (- 1) a S bs b)) = word_of_nat (card (dom a - S))"
    "(\<Sum>b\<in>B. b_alloc_size (take_out (- 1) a S bs b)) - (\<Sum>b\<in>B. b_free_size (take_out (- 1) a S bs b)) =
      (\<Sum>p\<in>dom a - S. snd (the (a p)))"
proof -
  have fin: "finite (dom a)" using cnt by (simp add: counts_ok_def)
  have fl: "\<forall>b\<in>B. finite (live_of a b - S)" using live_of_finite [OF fin] by blast
  have dom: "dom a - S = (\<Union>b\<in>B. live_of a b - S)" using cnt by (force simp: counts_ok_def live_of_def)
  have dis: "\<forall>b\<in>B. \<forall>c\<in>B. b \<noteq> c \<longrightarrow> (live_of a b - S) \<inter> (live_of a c - S) = {}" by (auto simp: live_of_def)
  have split: "live_of a b = (live_of a b \<inter> S) \<union> (live_of a b - S)" "(live_of a b \<inter> S) \<inter> (live_of a b - S) = {}" for b by auto
  have one: "b_allocs (take_out (- 1) a S bs b) - b_frees (take_out (- 1) a S bs b) = word_of_nat (card (live_of a b - S))"
    if "b \<in> B" for b
  proof -
    have "card (live_of a b) = card (live_of a b \<inter> S) + card (live_of a b - S)"
      by (subst split(1), rule card_Un_disjoint) (use live_of_finite [OF fin] split(2) in auto)
    moreover have "b_allocs (bs b) - b_frees (bs b) = word_of_nat (card (live_of a b))" using cnt that by (simp add: counts_ok_def)
    ultimately show ?thesis by (simp add: take_out_def algebra_simps)
  qed
  have two: "b_alloc_size (take_out (- 1) a S bs b) - b_free_size (take_out (- 1) a S bs b) = (\<Sum>p\<in>live_of a b - S. snd (the (a p)))"
    if "b \<in> B" for b
  proof -
    have "bytes_of_live a b = (\<Sum>p\<in>live_of a b \<inter> S. snd (the (a p))) + (\<Sum>p\<in>live_of a b - S. snd (the (a p)))"
      unfolding bytes_of_live_def
      by (subst split(1), rule sum.union_disjoint) (use live_of_finite [OF fin] split(2) in auto)
    moreover have "b_alloc_size (bs b) - b_free_size (bs b) = bytes_of_live a b" using cnt that by (simp add: counts_ok_def)
    ultimately show ?thesis by (simp add: take_out_def algebra_simps)
  qed
  have "card (dom a - S) = (\<Sum>b\<in>B. card (live_of a b - S))"
    unfolding dom by (rule card_UN_disjoint) (use fl dis in auto)
  then show "(\<Sum>b\<in>B. b_allocs (take_out (- 1) a S bs b)) - (\<Sum>b\<in>B. b_frees (take_out (- 1) a S bs b)) = word_of_nat (card (dom a - S))"
    unfolding sum_subtractf [symmetric] using one by simp
  have "(\<Sum>p\<in>dom a - S. snd (the (a p))) = (\<Sum>b\<in>B. \<Sum>p\<in>live_of a b - S. snd (the (a p)))"
    unfolding dom by (rule sum.UNION_disjoint) (use fl dis in auto)
  then show "(\<Sum>b\<in>B. b_alloc_size (take_out (- 1) a S bs b)) - (\<Sum>b\<in>B. b_free_size (take_out (- 1) a S bs b)) =
      (\<Sum>p\<in>dom a - S. snd (the (a p)))"
    unfolding sum_subtractf [symmetric] using two by simp
qed

lemma unignored_alloc:
  "unignored (hp_live h) S = (word_of_nat (card (dom (AM_Find (allocation h)) - S)), \<Sum>p\<in>dom (AM_Find (allocation h)) - S. snd (the (AM_Find (allocation h) p)))"
proof -
  have "dom (hp_live h) = dom (AM_Find (allocation h))" by (auto simp: hp_live_def dom_def)
  moreover have "(\<Sum>p\<in>dom (AM_Find (allocation h)) - S. snd (the (hp_live h p))) =
    (\<Sum>p\<in>dom (AM_Find (allocation h)) - S. snd (the (AM_Find (allocation h) p)))"
    by (rule sum.cong) (auto simp: hp_live_def)
  ultimately show ?thesis by (simp add: unignored_def)
qed

lemma GetHeapProfile_ignoring:
  assumes T: "hp_tab h tbl Used" and on: "is_on h" and leaks: "dump_for_leaks h" and cn: "counted h"
    and ig: "hp_ignored h = Some S" "distinct S" "set S \<subseteq> dom (AM_Find (allocation h))"
  shows "\<exists>txt p. GetHeapProfile h = Some (txt, h\<lparr>profile_total := p\<rparr>) \<and> int (length txt) < kProfileSize - 1 \<and>
    (b_allocs p - b_frees p, b_alloc_size p - b_free_size p) = unignored (hp_live h) (set S)"
proof -
  let ?a = "AM_Find (allocation h)"
  let ?t = "take_out (- 1) ?a (set S) (buckets h)"
  have C: "chains_ok tbl (buckets h)" "bucket_table h = Some tbl" "num_buckets h = int (card (table_set tbl))"
    and cnt: "counts_ok (buckets h) (table_set tbl) (total h) ?a"
    using T by (simp_all add: hp_tab_def)
  have fin: "finite (dom ?a)" using cnt by (simp add: counts_ok_def)
  note tb = table_buckets_enum [OF C(1)]
  let ?bs = "by_allocated_space (buckets h) (table_buckets tbl)"
  have bs: "distinct ?bs" "set ?bs = table_set tbl" using tb by (simp_all add: by_allocated_space_def)
  have len: "int (length (table_buckets tbl)) = num_buckets h" using tb C(3) by (metis distinct_card)
  have mem: "\<forall>p\<in>set S. ?a p \<noteq> None" using ig(3) by blast
  obtain txt1 h1 where u1: "UnparseBucket (kProfileSize - 1) (total h) (''heap profile: '', h) = (txt1, h1)" by fastforce
  have "int (length (''heap profile: '' :: string)) < kProfileSize - 1" by (simp add: kProfileSize_def)
  note s1 = UnparseBucket_spec [OF u1 this]
  let ?h = "h\<lparr>profile_total := zero_bucket\<rparr>"
  have a1: "AdjustByIgnoredObjects (- 1) S ?h = Some (?h\<lparr>buckets := ?t\<rparr>)"
    using AdjustByIgnoredObjects_spec [OF ig(2), of ?h "- 1"] mem counted_positive(1) [OF cn fin] by simp
  obtain txt2 h2 where u2: "fold (\<lambda>b (txt, h). UnparseBucket (kProfileSize - 1) (buckets h b) (txt, h)) ?bs
    (txt1, ?h\<lparr>buckets := ?t\<rparr>) = (txt2, h2)" by fastforce
  note s2 = UnparseBuckets_spec [OF u2]
  let ?p = "fold (\<lambda>b. add_bucket (?t b)) ?bs zero_bucket"
  have h2: "h2 = (?h\<lparr>buckets := ?t\<rparr>)\<lparr>profile_total := ?p\<rparr>" "int (length txt2) < kProfileSize - 1" using s1 s2 by simp_all
  have a2: "AdjustByIgnoredObjects 1 S h2 = Some (h\<lparr>profile_total := ?p\<rparr>)"
    using AdjustByIgnoredObjects_spec [OF ig(2), of h2 1] mem counted_positive(2) [OF cn fin, of "set S"] h2(1)
    by (simp add: take_out_back)
  have g: "GetHeapProfile h = Some (txt2, h\<lparr>profile_total := ?p\<rparr>)"
    using on C(2) len u1 u2 s1 ig(1) h2 leaks a1 a2 by (simp add: GetHeapProfile_def Let_def adjust_ignored_def)
  have sums: "(\<Sum>b\<leftarrow>?bs. f (?t b)) = (\<Sum>b\<in>table_set tbl. f (?t b))" for f :: "bucket \<Rightarrow> 'b::len word"
    using sum_list_distinct_conv_sum_set [OF bs(1), of "\<lambda>b. f (?t b)"] bs(2) by simp
  have "(b_allocs ?p - b_frees ?p, b_alloc_size ?p - b_free_size ?p) = unignored (hp_live h) (set S)"
    using take_out_sums [OF cnt, of "set S"] fold_add_bucket [of ?t ?bs zero_bucket]
      sums [of b_allocs] sums [of b_frees] sums [of b_alloc_size] sums [of b_free_size]
    by (simp add: unignored_alloc zero_bucket_def)
  then show ?thesis using g h2(2) by blast
qed

end
