(* ===== verification/LeakVerdict.thy ===== *)
theory LeakVerdict
  imports LeakCheck LeakProfile
begin

text \<open>
  What a leak check reports: the profile it writes counts exactly the objects that are not reachable, and the
  verdict follows from it, as long as \<open>pprof\<close> is not involved.
\<close>

section \<open>The profile of a check\<close>

text \<open>The checker as the search sees it; the objects the search reaches; the number and bytes of the others.\<close>

definition self_disabling :: "hc_env \<Rightarrow> heap_check \<Rightarrow> heap_check" where
  "self_disabling env c = c\<lparr>hck_prof := (hck_prof c)\<lparr>self_disabled_tid := hce_self env, self_disable := True\<rparr>\<rparr>"

definition still_live :: "hc_env \<Rightarrow> heap_check \<Rightarrow> u64 set" where
  "still_live env c1 = reached (hce_load32 env) (allocation (hck_prof c1)) (check_roots env c1)
     (register_targets (allocation (hck_prof c1)) (check_registers env c1))"

definition leaks :: "hc_env \<Rightarrow> heap_check \<Rightarrow> u32 \<times> u64" where
  "leaks env c1 = unignored (hp_live (hck_prof c1)) (still_live env c1)"

text \<open>Between two checks: nothing is under way, the counters have not wrapped, the profile can be written.\<close>

definition check_ready :: "hc_env \<Rightarrow> StackExtent \<Rightarrow> string \<Rightarrow> heap_check \<Rightarrow> heap_check \<Rightarrow> bool" where
  "check_ready env st which c c1 \<longleftrightarrow> hp_inv (hck_prof c) \<and> hp_ignored (hck_prof c) = None \<and> \<not> dumping (hck_prof c) \<and>
     live_objects c = None \<and> ignored_objects_on_heap c \<and> counted (hck_prof c) \<and>
     b_alloc_size (self_disabled (hck_prof c)) = b_free_size (self_disabled (hck_prof c)) \<and>
     b_allocs (self_disabled (hck_prof c)) = b_frees (self_disabled (hck_prof c)) \<and>
     (\<exists>prefix. profile_prefix c = Some prefix \<and> hpe_fopen (hce_hp env) (prefix @ ''.'' @ which)) \<and>
     (FLAGS_ignore_thread_live c \<longrightarrow> hce_listing env \<noteq> Listing_died) \<and>
     check_setup env st (self_disabling env c) = Some c1 \<and> copy_ok env (check_registers env c1) (allocation (hck_prof c))"

lemma resolve_in_dom: "resolve A x = Some (p, n) \<Longrightarrow> p \<in> dom (AM_Find A)"
  using resolve_bytes by blast

lemma reached_in_dom:
  "reached load A (check_roots env c1) (register_targets A regs) \<subseteq> dom (AM_Find A)"
  by (rule reached_least) (auto simp: targets_def register_targets_def root_object_def dest: resolve_in_dom split: if_splits)

lemma hp_inv_same_tables:
  assumes "hp_inv h" and "bucket_table h' = bucket_table h" "buckets h' = buckets h" "allocation h' = allocation h" "total h' = total h"
    "num_buckets h' = num_buckets h" "is_on h' = is_on h" "done_first_alloc h' = done_first_alloc h" "self_disable h' = self_disable h"
    "hp_sys h' = hp_sys h" "current h' = current h" "pos h' = pos h"
  shows "hp_inv h' \<and> hp_live h' = hp_live h"
proof -
  obtain tbl Used where T: "hp_tab h tbl Used" using assms(1) by (auto simp: hp_inv_def)
  have "hp_tab h' tbl Used" by (rule hp_tab_cong [OF T]) (use assms in simp_all)
  then show ?thesis using assms by (auto simp: hp_inv_def hp_live_def fun_eq_iff)
qed

lemma settled_fields:
  assumes "settled c' = settled c"
  shows "profile_prefix c' = profile_prefix c" "heap_checker_on c' = heap_checker_on c" "ignored_objects c' = ignored_objects c"
    "disabled_regexp c' = disabled_regexp c" "hck_environ c' = hck_environ c"
proof -
  have f: "f (settled c') = f (settled c)" for f :: "heap_check \<Rightarrow> 'b" by (simp add: assms)
  show "profile_prefix c' = profile_prefix c" "heap_checker_on c' = heap_checker_on c" "ignored_objects c' = ignored_objects c"
    "disabled_regexp c' = disabled_regexp c" "hck_environ c' = hck_environ c"
    using f [of profile_prefix] f [of heap_checker_on] f [of ignored_objects] f [of disabled_regexp] f [of hck_environ]
    by (simp_all add: settled_def)
qed

text \<open>
  What a dump leaves alone: every counter of the profiler - the buckets and their table, the totals, the self-disabled
  ones - and every live allocation. Only the totals of the profile just written and the list of files change, and the
  switches of the dump are off.
\<close>

definition dumped :: "heap_check \<Rightarrow> heap_check \<Rightarrow> bool" where
  "dumped c c' \<longleftrightarrow> profile_prefix c' = profile_prefix c \<and> heap_checker_on c' = heap_checker_on c \<and> ignored_objects c' = ignored_objects c \<and>
     disabled_regexp c' = disabled_regexp c \<and> hck_environ c' = hck_environ c \<and> live_objects c' = None \<and>
     hp_inv (hck_prof c') \<and> hp_live (hck_prof c') = hp_live (hck_prof c) \<and> allocation (hck_prof c') = allocation (hck_prof c) \<and>
     (\<exists>p fs t. hck_prof c' = (hck_prof c)\<lparr>profile_total := p, hp_files := fs, self_disabled_tid := t, dump_for_leaks := False,
        dumping := False, hp_ignored := None, self_disable := False\<rparr>)"

lemma dumped_counters:
  assumes "dumped c c'"
  shows "buckets (hck_prof c') = buckets (hck_prof c)" "bucket_table (hck_prof c') = bucket_table (hck_prof c)"
    "total (hck_prof c') = total (hck_prof c)" "self_disabled (hck_prof c') = self_disabled (hck_prof c)"
    "num_buckets (hck_prof c') = num_buckets (hck_prof c)" "total_stack_depth (hck_prof c') = total_stack_depth (hck_prof c)"
  using assms by (auto simp: dumped_def)

lemma DumpProfile_exact:
  assumes R: "check_ready env st (name @ (if start then ''-beg.heap'' else ''-end.heap'')) c c1"
  shows "\<exists>c'. DumpProfileLocked env start name st c = Some c' \<and> dumped c c' \<and>
    profile_allocs c' = scast (fst (leaks env c1)) \<and> profile_bytes c' = snd (leaks env c1)"
proof -
  note r = R [unfolded check_ready_def]
  let ?h = "hck_prof c" and ?c = "self_disabling env c"
  have inv: "hp_inv ?h" using r by blast
  obtain tbl Used where T: "hp_tab ?h tbl Used" using inv by (auto simp: hp_inv_def)
  have on: "is_on ?h" "\<not> self_disable ?h" using inv by (auto simp: hp_inv_def)
  have wf: "AM_wf (allocation ?h)" using T by (simp add: hp_tab_def)
  obtain prefix where pre: "profile_prefix c = Some prefix"
    "hpe_fopen (hce_hp env) (prefix @ ''.'' @ name @ (if start then ''-beg.heap'' else ''-end.heap''))" using r by auto
  have cs: "check_setup env st ?c = Some c1" using r by blast
  have h1: "hck_prof c1 = (hck_prof ?c)\<lparr>hp_ignored := Some []\<rparr>" using check_setup_ok(3) [OF cs] .
  have al: "allocation (hck_prof c1) = allocation ?h" "hp_live (hck_prof c1) = hp_live ?h"
    unfolding h1 by (simp_all add: self_disabling_def hp_live_def fun_eq_iff)
  obtain S c2 where s: "IgnoreAllLiveObjectsLocked env st ?c = Some c2" "hck_prof c2 = (hck_prof ?c)\<lparr>hp_ignored := Some S\<rparr>"
    "settled c2 = settled ?c" "live_objects c2 = None" "distinct S" "set S = still_live env c1"
    using IgnoreAll_reaches [OF _ _ _ _ _ cs] r on(1) wf
    by (auto simp: self_disabling_def ignored_objects_on_heap_def still_live_def h1)
  have dom: "set S \<subseteq> dom (AM_Find (allocation ?h))"
    unfolding s(6) still_live_def al by (rule reached_in_dom)
  have fld: "profile_prefix c2 = profile_prefix c" "heap_checker_on c2 = heap_checker_on c" "ignored_objects c2 = ignored_objects c"
    "disabled_regexp c2 = disabled_regexp c" "hck_environ c2 = hck_environ c"
    using settled_fields [OF s(3)] by (simp_all add: self_disabling_def)
  let ?f = "prefix @ ''.'' @ name @ (if start then ''-beg.heap'' else ''-end.heap'')"
  let ?h2 = "(hck_prof c2)\<lparr>dump_for_leaks := True, dumping := True\<rparr>"
  have same: "AM_Find (allocation ?h2) = AM_Find (allocation ?h)" "counted ?h2" "hp_live ?h2 = hp_live ?h"
    using r by (simp_all add: s(2) self_disabling_def counted_def hp_live_def fun_eq_iff)
  have "hp_tab ?h2 tbl Used" by (rule hp_tab_cong [OF T]) (simp_all add: s(2) self_disabling_def)
  then obtain buf p where g: "GetHeapProfile ?h2 = Some (buf, ?h2\<lparr>profile_total := p\<rparr>)"
    "(b_allocs p - b_frees p, b_alloc_size p - b_free_size p) = unignored (hp_live ?h) (set S)"
    using GetHeapProfile_ignoring [of ?h2 tbl Used S] same on s(2,5) dom by (auto simp: self_disabling_def)
  obtain fs where d: "DumpLocked (hce_hp env) (Some ?f) ((hck_prof c2)\<lparr>dump_for_leaks := True\<rparr>) =
    Some (?h2\<lparr>profile_total := p, hp_files := fs, dumping := False\<rparr>)"
    using g(1) on(1) pre(2) by (auto simp: DumpLocked_def DumpLocked_begin_def DumpLocked_write_def DumpLocked_end_def s(2) self_disabling_def)
  let ?h3 = "?h2\<lparr>profile_total := p, hp_files := fs, dumping := False, dump_for_leaks := False, hp_ignored := None, self_disable := False\<rparr>"
  have run: "DumpProfileLocked env start name st c = Some (c2\<lparr>hck_prof := ?h3\<rparr>)"
    using r on s(1) fld(1) pre(1) d by (simp add: DumpProfileLocked_def self_disabling_def Let_def s(2))
  have "hp_inv ?h3 \<and> hp_live ?h3 = hp_live ?h"
    by (rule hp_inv_same_tables [OF inv]) (use on in \<open>simp_all add: s(2) self_disabling_def\<close>)
  moreover have "?h3 = ?h\<lparr>profile_total := p, hp_files := fs, self_disabled_tid := hce_self env, dump_for_leaks := False,
      dumping := False, hp_ignored := None, self_disable := False\<rparr>" by (simp add: s(2) self_disabling_def)
  ultimately have "dumped c (c2\<lparr>hck_prof := ?h3\<rparr>)" using fld s(4) unfolding dumped_def by auto
  moreover have "profile_allocs (c2\<lparr>hck_prof := ?h3\<rparr>) = scast (fst (leaks env c1))" "profile_bytes (c2\<lparr>hck_prof := ?h3\<rparr>) = snd (leaks env c1)"
    using g(2) unfolding leaks_def al s(6) [symmetric] by (simp_all add: profile_allocs_def profile_bytes_def prod_eq_iff)
  ultimately show ?thesis using run by blast
qed

section \<open>The verdict\<close>

lemma bucket_nonzero:
  assumes "hp_tab h tbl Used" and "AM_Find (allocation h) p = Some (b, n)"
  shows "b \<noteq> 0"
proof -
  have "\<forall>p b n. AM_Find (allocation h) p = Some (b, n) \<longrightarrow> b \<in> table_set tbl" using assms(1) by (simp add: hp_tab_def counts_ok_def)
  then have "b \<in> table_set tbl" using assms(2) by blast
  then have "(unat b, 56) \<in> Used" using assms(1) by (simp add: hp_tab_def)
  then have "0 < unat b" using assms(1) hpm_okD(6) by (fastforce simp: hp_tab_def)
  then show ?thesis by auto
qed

lemma RecordFree_returns:
  assumes "hp_inv h"
  shows "\<exists>h'. RecordFree me p h = Some h'"
proof -
  obtain tbl Used where T: "hp_tab h tbl Used" and on: "is_on h" "\<not> self_disable h" using assms by (auto simp: hp_inv_def)
  have wf: "AM_wf (allocation h)" using T by (simp add: hp_tab_def)
  obtain v m where v: "AM_FindAndRemove p (allocation h) = (v, m)" by fastforce
  then have "v = AM_Find (allocation h) p" using AM_FindAndRemove_spec [OF wf, of p] by simp
  then show ?thesis using v on bucket_nonzero [OF T, of p] by (auto simp: RecordFree_def split: option.splits)
qed

text \<open>A check in use: its name, at \<open>n\<close>, is an object that the search ignores.\<close>

definition check_open :: "hc_env \<Rightarrow> u64 \<Rightarrow> string \<Rightarrow> heap_check \<Rightarrow> bool" where
  "check_open env n name c \<longleftrightarrow> heap_checker_on c \<and> hce_getcwd env \<noteq> None \<and> (\<exists>prefix m k.
     profile_prefix c = Some prefix \<and> ignored_objects c = Some m \<and> map_of m n = Some k \<and>
     hce_readable env (profile_name prefix name ''-beg.heap'') \<and> hce_readable env (profile_name prefix name ''-end.heap''))"

lemma close_check:
  assumes "hp_inv (hck_prof c)" and "heap_checker_on c" and "ignored_objects c = Some m" and "map_of m n = Some k"
    and "AM_Find (allocation (hck_prof c)) n = Some (b, k)"
  shows "\<exists>c'. Option.bind (UnIgnoreObject n c) (hc_delete env n) = Some c'"
proof -
  have on: "is_on (hck_prof c)" using assms(1) by (simp add: hp_inv_def)
  have u: "UnIgnoreObject n c = Some (c\<lparr>ignored_objects := Some (omap_erase n m)\<rparr>)"
    using assms on by (simp add: UnIgnoreObject_def HaveOnHeap_def HaveOnHeapLocked_def)
  show ?thesis using RecordFree_returns [OF assms(1), of "hce_self env" n] by (auto simp: u hc_delete_def HP_DeleteHook_def)
qed

text \<open>What a check makes of two profiles: bytes and objects gained since the counts it started with.\<close>

definition gained :: "HeapLeakCheck \<Rightarrow> u32 \<times> u64 \<Rightarrow> int \<times> int" where
  "gained l = (\<lambda>(n, bytes). (sint (bytes - start_inuse_bytes l), sint (scast n - start_inuse_allocs l)))"

definition suspects :: "bool \<Rightarrow> int \<times> int \<Rightarrow> bool" where
  "suspects same_heap = (\<lambda>(bytes, objects). if same_heap then bytes \<noteq> 0 \<or> objects \<noteq> 0 else bytes > 0 \<or> objects > 0)"

text \<open>From one state of the leaks to another, as 32 and 64 bits show it.\<close>

definition growth :: "u32 \<times> u64 \<Rightarrow> u32 \<times> u64 \<Rightarrow> int \<times> int" where
  "growth = (\<lambda>(n0, bytes0) (n, bytes). (sint (bytes - bytes0), sint (scast n - scast n0 :: u64)))"

text \<open>A check that is created records the leaks of this moment, which its profile counts.\<close>

lemma Create_records:
  assumes "hc_new env (word_of_nat (length name + 1)) c = Some (n, ca)" and "IgnoreObject env n ca = Some cb"
    and "heap_checker_on cb" and "CHR ''/'' \<notin> set name" and R: "check_ready env (self_extent env) (name @ ''-beg.heap'') cb c1"
  shows "\<exists>l c0. Create env name c = Some (l, c0) \<and> dumped cb c0 \<and> lc_name l = Some (n, name) \<and>
    (\<forall>x. gained l x = growth (leaks env c1) x)"
proof -
  obtain c0 where d: "DumpProfileLocked env True name (self_extent env) cb = Some c0" "dumped cb c0"
    "profile_allocs c0 = scast (fst (leaks env c1))" "profile_bytes c0 = snd (leaks env c1)"
    using DumpProfile_exact [of env "self_extent env" name True cb c1] R by auto
  let ?l = "blank_check\<lparr>lc_name := Some (n, name), start_inuse_bytes := profile_bytes c0, start_inuse_allocs := profile_allocs c0\<rparr>"
  have "Create env name c = Some (?l, c0)" using assms(1-4) d(1) by (simp add: Create_def)
  then show ?thesis using d(2-4) by (intro exI [of _ ?l] exI [of _ c0]) (simp add: gained_def growth_def split_beta)
qed

lemma DoNoLeaks_run:
  assumes N: "lc_name l = Some (n, name)" and R: "check_ready env (self_extent env) (name @ ''-end.heap'') c c1" and O: "check_open env n name c"
    and verdict: "\<And>prefix c2. dumped c c2 \<Longrightarrow> profile_prefix c = Some prefix \<Longrightarrow>
      \<exists>see es. leak_verdict env True same full rep (suspects same (gained l (leaks env c1))) name c2 = Some (see, c2\<lparr>hck_environ := es\<rparr>) \<and> P see"
  shows "\<exists>see l' c'. DoNoLeaks env False same full rep l c = Some (\<not> see, l', c') \<and> P see \<and>
    BytesLeaked l' = Some (fst (gained l (leaks env c1))) \<and> ObjectsLeaked l' = Some (snd (gained l (leaks env c1)))"
proof -
  obtain prefix m k where o: "heap_checker_on c" "lc_name l = Some (n, name)" "profile_prefix c = Some prefix"
    "ignored_objects c = Some m" "map_of m n = Some k" using O N by (auto simp: check_open_def)
  have oh: "ignored_objects_on_heap c" using R by (simp add: check_ready_def)
  obtain b where b: "AM_Find (allocation (hck_prof c)) n = Some (b, k)"
    using oh o(4) map_of_SomeD [OF o(5)] by (auto simp: ignored_objects_on_heap_def)
  obtain c2 where d: "DumpProfileLocked env False name (self_extent env) c = Some c2" "dumped c c2"
    "profile_allocs c2 = scast (fst (leaks env c1))" "profile_bytes c2 = snd (leaks env c1)"
    using DumpProfile_exact [of env "self_extent env" name False c c1] R o(2) by auto
  let ?l = "l\<lparr>inuse_bytes_increase := profile_bytes c2 - start_inuse_bytes l,
    inuse_allocs_increase := profile_allocs c2 - start_inuse_allocs l, has_checked := True\<rparr>"
  have see: "(if same then inuse_bytes_increase ?l \<noteq> 0 \<or> inuse_allocs_increase ?l \<noteq> 0
      else sint (inuse_bytes_increase ?l) > 0 \<or> sint (inuse_allocs_increase ?l) > 0) = suspects same (gained l (leaks env c1))"
    by (simp add: d(3,4) suspects_def gained_def split_beta signed_eq_0_iff)
  obtain s es where v: "leak_verdict env True same full rep (suspects same (gained l (leaks env c1))) name c2 = Some (s, c2\<lparr>hck_environ := es\<rparr>)" "P s"
    using verdict [OF d(2) o(3)] o(2) by auto
  obtain c3 where e: "Option.bind (UnIgnoreObject n (c2\<lparr>hck_environ := es\<rparr>)) (hc_delete env n) = Some c3"
    using close_check [of "c2\<lparr>hck_environ := es\<rparr>" m n k b env] d(2) o b by (auto simp: dumped_def)
  have "DoNoLeaks env False same full rep l c = Some (\<not> s, ?l\<lparr>lc_name := None\<rparr>, c3)"
    using o(1,2) d(1) v(1) e see by (auto simp: DoNoLeaks_def Let_def option_monad)
  then show ?thesis using v(2) by (auto simp: BytesLeaked_def ObjectsLeaked_def gained_def split_beta d(3,4))
qed

lemma run_pprof_missing:
  assumes "\<not> hce_pprof_runs env" and "disabled_regexp c \<noteq> None"
  shows "run_pprof env command see c = Some ((False, []), c)"
  using assms by (simp add: run_pprof_def Let_def)

section \<open>A check on the run of the profiler\<close>

definition demo_open :: "heap_profiler \<Rightarrow> heap_check" where
  "demo_open h = (demo_check h)\<lparr>heap_checker_on := True, ignored_objects := Some [(0x7000, 24)], profile_prefix := Some ''p'',
     disabled_regexp := Some ''f''\<rparr>"

definition demo_leak :: HeapLeakCheck where
  "demo_leak = blank_check\<lparr>lc_name := Some (0x7000, ''c'')\<rparr>"

lemma one_stack_counted:
  assumes "hp_live h = L" and L: "\<And>p key n. L p = Some (key, n) \<Longrightarrow> key = s \<and> p \<in> P" and P: "finite P" "P \<subseteq> dom L"
    and cnt: "\<And>b. b_stack (buckets h b) = s \<Longrightarrow> int (card P) \<le> sint (b_allocs (buckets h b)) \<and>
      (\<Sum>p\<in>P. uint (snd (the (L p)))) \<le> sint (b_alloc_size (buckets h b))"
  shows "counted h"
proof -
  let ?a = "AM_Find (allocation h)"
  have live: "map_option (\<lambda>(b, n). (b_stack (buckets h b), n)) (?a p) = L p" for p
    using fun_cong [OF assms(1), of p] by (simp add: hp_live_def)
  have size: "snd (the (?a p)) = snd (the (L p))" if "p \<in> P" for p
  proof -
    obtain key n where "L p = Some (key, n)" using P(2) \<open>p \<in> P\<close> by fastforce
    then show ?thesis using live [of p] by auto
  qed
  have "int (card (live_of ?a b)) \<le> sint (b_allocs (buckets h b)) \<and>
    (\<Sum>p\<in>live_of ?a b. uint (snd (the (?a p)))) \<le> sint (b_alloc_size (buckets h b))" if ne: "live_of ?a b \<noteq> {}" for b
  proof -
    have key: "b_stack (buckets h b) = s \<and> p \<in> P" if "p \<in> live_of ?a b" for p
    proof -
      obtain n where "?a p = Some (b, n)" using \<open>p \<in> live_of ?a b\<close> unfolding live_of_def by blast
      then have "L p = Some (b_stack (buckets h b), n)" using live [of p] by simp
      then show ?thesis by (rule L)
    qed
    then have sub: "live_of ?a b \<subseteq> P" by blast
    have "b_stack (buckets h b) = s" using key ne by blast
    note c = cnt [OF this]
    have "card (live_of ?a b) \<le> card P" by (rule card_mono [OF P(1) sub])
    moreover have "(\<Sum>p\<in>live_of ?a b. uint (snd (the (?a p)))) \<le> (\<Sum>p\<in>P. uint (snd (the (?a p))))"
      by (rule sum_mono2 [OF P(1) sub]) simp
    moreover have "(\<Sum>p\<in>P. uint (snd (the (?a p)))) = (\<Sum>p\<in>P. uint (snd (the (L p))))" by (rule sum.cong) (simp_all add: size)
    ultimately show ?thesis using c by linarith
  qed
  then show ?thesis by (simp add: counted_def Let_def)
qed

text \<open>A state of the checker is ready for a profile when its allocations all have one stack and are counted.\<close>

lemma demo_ready_for:
  assumes h: "hp_reach demo_env h L" "\<not> dumping h" "self_disabled h = zero_bucket" "counted h" and m: "\<forall>(p, n)\<in>set m. \<exists>key. L p = Some (key, n)"
  shows "\<exists>c1. \<forall>f. check_ready demo_hc (self_extent demo_hc) f ((demo_open h)\<lparr>ignored_objects := Some m, hck_news := k\<rparr>) c1"
proof -
  have i: "hp_inv h" "hp_live h = L" "hp_ignored h = None" using hp_reach_inv [OF _ _ h(1)] demo_env_ok by auto
  let ?c = "(demo_open h)\<lparr>ignored_objects := Some m, hck_news := k\<rparr>"
  obtain c1 where cs: "check_setup demo_hc (self_extent demo_hc) (self_disabling demo_hc ?c) = Some c1"
    by (simp add: check_setup_def self_disabling_def demo_open_def demo_check_def heap_check_static_def demo_hc_def Let_def)
  have "copy_ok demo_hc (check_registers demo_hc c1) (allocation h)"
    by (simp add: copy_ok_def check_registers_def searched_threads_def thread_registers_def register_copy_def demo_hc_def)
  moreover have "ignored_objects_on_heap ?c"
    using m i(2) by (fastforce simp: ignored_objects_on_heap_def demo_open_def demo_check_def hp_live_def)
  ultimately have "check_ready demo_hc (self_extent demo_hc) f ?c c1" for f
    unfolding check_ready_def using cs i h(2-4)
    by (simp add: demo_open_def demo_check_def heap_check_static_def demo_hc_def demo_env_def zero_bucket_def)
  then show ?thesis by blast
qed

lemma demo_open_ready:
  "\<exists>h c1. hp_reach demo_env h demo_live \<and> check_ready demo_hc (self_extent demo_hc) ''c-end.heap'' (demo_open h) c1 \<and>
     check_ready demo_hc (self_extent demo_hc) ''c-beg.heap'' (demo_open h) c1 \<and>
     check_open demo_hc 0x7000 ''c'' (demo_open h)"
proof -
  obtain h where h: "hp_reach demo_env h demo_live" "\<not> dumping h" "self_disabled h = zero_bucket"
    "\<forall>b. b_stack (buckets h b) = [7, 8] \<longrightarrow> b_allocs (buckets h b) = 3 \<and> b_alloc_size (buckets h b) = 80"
    using demo_reach by blast
  then have i: "hp_live h = demo_live" using hp_reach_inv demo_env_ok by auto
  have cn: "counted h" by (rule one_stack_counted [OF i, where s = "[7, 8]" and P = "{0x7000, 0x7F0000001000}"])
    (use h(4) in \<open>auto simp: demo_live_def split: if_splits\<close>)
  have o: "demo_open h = (demo_open h)\<lparr>ignored_objects := Some [(0x7000, 24)], hck_news := 0\<rparr>"
    by (simp add: demo_open_def demo_check_def heap_check_static_def)
  have "\<forall>(p, n)\<in>set [(0x7000, 24)]. \<exists>key. demo_live p = Some (key, n)" by (simp add: demo_live_def)
  from demo_ready_for [OF h(1-3) cn this, of 0] obtain c1 where "check_ready demo_hc (self_extent demo_hc) f (demo_open h) c1" for f
    using o by metis
  moreover have "check_open demo_hc 0x7000 ''c'' (demo_open h)"
    by (simp add: check_open_def demo_open_def demo_check_def heap_check_static_def demo_hc_def)
  ultimately show ?thesis using h(1) by blast
qed

text \<open>Creating a check named \<open>c\<close> in this state: its name is a new object, which is recorded and ignored.\<close>

lemma demo_creating:
  "\<exists>h ca cb c1. hp_reach demo_env h demo_live \<and> hc_new demo_hc (word_of_nat (length ''c'' + 1)) (demo_open h) = Some (0x9000, ca) \<and>
     IgnoreObject demo_hc 0x9000 ca = Some cb \<and> (\<forall>f. check_ready demo_hc (self_extent demo_hc) f cb c1) \<and> check_open demo_hc 0x9000 ''c'' cb"
proof -
  obtain h k where h: "hp_reach demo_env h demo_live" "hk_new h \<noteq> 0" "HP_NewHook demo_env 1 0x9000 2 h = Some (None, k)"
    "hp_reach demo_env k (demo_live(0x9000 \<mapsto> ([7, 8], 2)))" "\<not> dumping k" "self_disabled k = zero_bucket"
    "\<forall>b. b_stack (buckets k b) = [7, 8] \<longrightarrow> b_allocs (buckets k b) = 4 \<and> b_alloc_size (buckets k b) = 82"
    using demo_reach_more by blast
  let ?L = "demo_live(0x9000 \<mapsto> ([7, 8], 2))" and ?m = "[(0x7000, 24), (0x9000, 2)]"
  have i: "hp_inv k" "hp_live k = ?L" using hp_reach_inv [OF _ _ h(4)] demo_env_ok by auto
  have cn: "counted k" by (rule one_stack_counted [OF i(2), where s = "[7, 8]" and P = "{0x7000, 0x7F0000001000, 0x9000}"])
    (use h(7) in \<open>auto simp: demo_live_def split: if_splits\<close>)
  have on: "is_on k" using i(1) by (simp add: hp_inv_def)
  have "hp_live k 0x9000 = Some ([7, 8], 2)" by (simp add: i(2))
  then obtain b where b: "AM_Find (allocation k) 0x9000 = Some (b, 2)" by (auto simp: hp_live_def)
  let ?ca = "(demo_open h)\<lparr>hck_news := 1, hck_prof := k\<rparr>"
  let ?cb = "(demo_open k)\<lparr>ignored_objects := Some ?m, hck_news := 1\<rparr>"
  have "hc_new demo_hc (word_of_nat (length ''c'' + 1)) (demo_open h) = Some (0x9000, ?ca)"
    using h(2,3) by (simp add: hc_new_def demo_open_def demo_check_def heap_check_static_def demo_hc_def Let_def)
  moreover have "IgnoreObject demo_hc 0x9000 ?ca = Some ?cb"
    using on b by (simp add: IgnoreObject_def IgnoreObjectLocked_def HaveOnHeap_def HaveOnHeapLocked_def ignore_object_insert_def ASSERT_def
        demo_open_def demo_check_def heap_check_static_def Let_def)
  moreover have "\<forall>(p, n)\<in>set ?m. \<exists>key. ?L p = Some (key, n)" by (simp add: demo_live_def)
  from demo_ready_for [OF h(4-6) cn this, of 1] obtain c1 where "\<forall>f. check_ready demo_hc (self_extent demo_hc) f ?cb c1" by blast
  moreover have "check_open demo_hc 0x9000 ''c'' ?cb"
    by (simp add: check_open_def demo_open_def demo_check_def heap_check_static_def demo_hc_def)
  ultimately show ?thesis using h(1) by blast
qed

section \<open>Properties\<close>



text \<open>
  C21. The brief checks report exactly what they should. Take a check that \<open>Create\<close> makes, and any later state in which
  it is still open and a profile can be written: \<open>BriefNoLeaks\<close> succeeds unless the unreachable allocations grew in bytes
  or in number since the check was created, \<open>BriefSameHeap\<close> unless they changed; both record by how much.
\<close>

theorem brief_check_verdict:
  assumes "hc_new env0 (word_of_nat (length name + 1)) c = Some (n, ca)" and "IgnoreObject env0 n ca = Some cb"
    and "heap_checker_on cb" and "CHR ''/'' \<notin> set name" and "check_ready env0 (self_extent env0) (name @ ''-beg.heap'') cb c1"
    and "check_ready env (self_extent env) (name @ ''-end.heap'') c' c2" and "check_open env n name c'"
  shows "\<exists>l c0. Create env0 name c = Some (l, c0) \<and> dumped cb c0 \<and>
    (\<exists>l' c''. BriefNoLeaks env l c' = Some (\<not> suspects False (growth (leaks env0 c1) (leaks env c2)), l', c'') \<and>
      BytesLeaked l' = Some (fst (growth (leaks env0 c1) (leaks env c2))) \<and> ObjectsLeaked l' = Some (snd (growth (leaks env0 c1) (leaks env c2)))) \<and>
    (\<exists>l' c''. BriefSameHeap env l c' = Some (\<not> suspects True (growth (leaks env0 c1) (leaks env c2)), l', c'') \<and>
      BytesLeaked l' = Some (fst (growth (leaks env0 c1) (leaks env c2))) \<and> ObjectsLeaked l' = Some (snd (growth (leaks env0 c1) (leaks env c2))))"
proof -
  obtain l c0 where l: "Create env0 name c = Some (l, c0)" "dumped cb c0" "lc_name l = Some (n, name)"
    "gained l (leaks env c2) = growth (leaks env0 c1) (leaks env c2)" using Create_records [OF assms(1-5)] by blast
  have v: "\<exists>see es. leak_verdict env True same False False s name c2' = Some (see, c2'\<lparr>hck_environ := es\<rparr>) \<and> see = s"
    if "dumped c' c2'" "profile_prefix c' = Some prefix" for same s prefix c2'
    using that assms(7) by (auto simp: leak_verdict_def check_open_def dumped_def option_monad intro!: exI [of _ "hck_environ c2'"])
  have "\<exists>see l' c''. DoNoLeaks env False same False False l c' = Some (\<not> see, l', c'') \<and> see = suspects same (gained l (leaks env c2)) \<and>
    BytesLeaked l' = Some (fst (gained l (leaks env c2))) \<and> ObjectsLeaked l' = Some (snd (gained l (leaks env c2)))" for same
    by (rule DoNoLeaks_run [OF l(3) assms(6,7)]) (rule v)
  from this [of False] this [of True] show ?thesis unfolding BriefNoLeaks_def BriefSameHeap_def l(4)
    using l(1,2) by blast
qed

lemma brief_check_verdict_witness:
  "\<exists>h l c0 cb l' c''. hp_reach demo_env h demo_live \<and> Create demo_hc ''c'' (demo_open h) = Some (l, c0) \<and> dumped cb c0 \<and>
     BriefNoLeaks demo_hc l cb = Some (True, l', c'') \<and> BytesLeaked l' = Some 0 \<and> ObjectsLeaked l' = Some 0"
proof -
  obtain h ca cb c1 where h: "hp_reach demo_env h demo_live" "hc_new demo_hc (word_of_nat (length ''c'' + 1)) (demo_open h) = Some (0x9000, ca)"
    "IgnoreObject demo_hc 0x9000 ca = Some cb" "\<And>f. check_ready demo_hc (self_extent demo_hc) f cb c1" "check_open demo_hc 0x9000 ''c'' cb"
    using demo_creating by blast
  have "heap_checker_on cb" "CHR ''/'' \<notin> set ''c''" using h(5) by (simp_all add: check_open_def)
  from brief_check_verdict [OF h(2,3) this h(4) h(4) h(5)] show ?thesis using h(1) unfolding suspects_def growth_def split_beta by simp blast
qed

text \<open>
  C37. Without \<open>pprof\<close> a check passes whatever leaks once code has been disabled by a name pattern, which only
  \<open>DisableChecksIn\<close> does: the empty output of a command that never ran is taken for the output of \<open>pprof\<close> having
  filtered out every leak. The counts still say that there are leaks.
\<close>

theorem missing_pprof_hides_leaks:
  assumes "lc_name l = Some (n, name)" and "check_ready env (self_extent env) (name @ ''-end.heap'') c c1" and "check_open env n name c"
    and "\<not> hce_pprof_runs env" and "disabled_regexp c \<noteq> None"
  shows "(\<exists>l' c'. NoLeaks env l c = Some (True, l', c') \<and>
      BytesLeaked l' = Some (fst (gained l (leaks env c1))) \<and> ObjectsLeaked l' = Some (snd (gained l (leaks env c1)))) \<and>
    (\<exists>l' c'. QuickNoLeaks env l c = Some (True, l', c') \<and>
      BytesLeaked l' = Some (fst (gained l (leaks env c1))) \<and> ObjectsLeaked l' = Some (snd (gained l (leaks env c1)))) \<and>
    (\<exists>l' c'. SameHeap env l c = Some (True, l', c') \<and>
      BytesLeaked l' = Some (fst (gained l (leaks env c1))) \<and> ObjectsLeaked l' = Some (snd (gained l (leaks env c1)))) \<and>
    (\<exists>l' c'. QuickSameHeap env l c = Some (True, l', c') \<and>
      BytesLeaked l' = Some (fst (gained l (leaks env c1))) \<and> ObjectsLeaked l' = Some (snd (gained l (leaks env c1))))"
proof -
  have v: "\<exists>see es. leak_verdict env True same full True s name c2 = Some (see, c2\<lparr>hck_environ := es\<rparr>) \<and> \<not> see"
    if "dumped c c2" "profile_prefix c = Some prefix" for same full s prefix c2
  proof -
    have "disabled_regexp c2 \<noteq> None" using that(1) assms(5) by (simp add: dumped_def)
    from run_pprof_missing [OF assms(4) this]
    have "leak_verdict env True same full True s name c2 = Some (False, c2)"
      using that assms(3) by (auto simp: leak_verdict_def check_open_def dumped_def)
    then show ?thesis by (intro exI [of _ False] exI [of _ "hck_environ c2"]) simp
  qed
  have "\<exists>see l' c'. DoNoLeaks env False same full True l c = Some (\<not> see, l', c') \<and> \<not> see \<and>
    BytesLeaked l' = Some (fst (gained l (leaks env c1))) \<and> ObjectsLeaked l' = Some (snd (gained l (leaks env c1)))" for same full
    by (rule DoNoLeaks_run [OF assms(1-3)]) (rule v)
  then have "\<exists>l' c'. DoNoLeaks env False same full True l c = Some (True, l', c') \<and>
    BytesLeaked l' = Some (fst (gained l (leaks env c1))) \<and> ObjectsLeaked l' = Some (snd (gained l (leaks env c1)))" for same full
    by fastforce
  then show ?thesis unfolding NoLeaks_def QuickNoLeaks_def SameHeap_def QuickSameHeap_def by (intro conjI)
qed

lemma missing_pprof_hides_leaks_witness:
  "\<exists>h l' c'. hp_reach demo_env h demo_live \<and> QuickNoLeaks demo_hc demo_leak (demo_open h) = Some (True, l', c')"
proof -
  obtain h c1 where h: "hp_reach demo_env h demo_live" "check_ready demo_hc (self_extent demo_hc) ''c-end.heap'' (demo_open h) c1"
    "check_open demo_hc 0x7000 ''c'' (demo_open h)" using demo_open_ready by blast
  have "check_ready demo_hc (self_extent demo_hc) (''c'' @ ''-end.heap'') (demo_open h) c1" "lc_name demo_leak = Some (0x7000, ''c'')"
    using h(2) by (simp_all add: demo_leak_def)
  moreover have "\<not> hce_pprof_runs demo_hc" "disabled_regexp (demo_open h) \<noteq> None" by (simp_all add: demo_hc_def demo_open_def)
  ultimately show ?thesis using missing_pprof_hides_leaks h(1,3) by blast
qed

end
