(* ===== verification/LeakStart.thy ===== *)
theory LeakStart
  imports LeakCheck
begin

text \<open>
  Starting the leak checker from the environment, and what running \<open>pprof\<close> does to the environment.
\<close>

lemma create_keys_linked:
  "pthread_linked s \<Longrightarrow> create_keys n s =
     (if n = 0 \<or> pthread_keys s + n \<le> PTHREAD_KEYS_MAX then Some (s\<lparr>pthread_keys := pthread_keys s + n\<rparr>) else None)"
proof (induction n arbitrary: s)
  case (Suc n)
  let ?s = "s\<lparr>pthread_keys := Suc (pthread_keys s)\<rparr>"
  have "create_keys (Suc n) s = (if pthread_keys s < PTHREAD_KEYS_MAX then create_keys n ?s else None)"
    using Suc.prems by (simp add: perftools_pthread_key_create_def ASSERT_def)
  moreover have "create_keys n ?s = (if n = 0 \<or> Suc (pthread_keys s) + n \<le> PTHREAD_KEYS_MAX
      then Some (?s\<lparr>pthread_keys := Suc (pthread_keys s) + n\<rparr>) else None)"
    using Suc.IH [of ?s] Suc.prems by simp
  ultimately show ?case by simp
qed simp

lemma create_keys_unlinked:
  "\<not> pthread_linked s \<Longrightarrow> MAX_PERTHREAD_VALS < next_key s + n \<Longrightarrow> n > 0 \<Longrightarrow> create_keys n s = None"
  by (induction n arbitrary: s) (auto simp: perftools_pthread_key_create_def option_monad ASSERT_def split: if_splits)

lemma bind_nothing: "Option.bind x (\<lambda>(a, b). None) = None"
  by (cases x) auto

text \<open>
  C38. \<open>HEAPCHECK\<close> only works in programs linked with the thread library: in any other it ends the process before
  the first constructor, since the checker reserves 32 keys and there are 16. With the library the 32 keys are
  reserved when that many are left, and the process ends when they are not. Without the variable, or in a setuid
  program, nothing happens.
\<close>

theorem HEAPCHECK_needs_thread_library:
  "(getenv ''HEAPCHECK'' (hck_environ c) = None \<or> hce_setuid env \<longrightarrow>
     HeapLeakCheck_BeforeConstructors env c = Some (c\<lparr>heap_checker_pid := hce_getpid env\<rparr>)) \<and>
   (getenv ''HEAPCHECK'' (hck_environ c) \<noteq> None \<and> \<not> hce_setuid env \<and> \<not> pthread_linked (hck_threads c) \<longrightarrow>
     HeapLeakCheck_BeforeConstructors env c = None) \<and>
   (pthread_linked s \<longrightarrow> PThreadSpecificHack s =
     (if pthread_keys s + 32 \<le> PTHREAD_KEYS_MAX then Some (s\<lparr>pthread_keys := pthread_keys s + 32\<rparr>) else None))"
proof (intro conjI impI)
  assume "getenv ''HEAPCHECK'' (hck_environ c) = None \<or> hce_setuid env"
  then show "HeapLeakCheck_BeforeConstructors env c = Some (c\<lparr>heap_checker_pid := hce_getpid env\<rparr>)"
    by (auto simp: HeapLeakCheck_BeforeConstructors_def BeforeConstructors_def split: option.splits)
next
  assume a: "getenv ''HEAPCHECK'' (hck_environ c) \<noteq> None \<and> \<not> hce_setuid env \<and> \<not> pthread_linked (hck_threads c)"
  have "PThreadSpecificHack (hck_threads c) = None"
    using a by (simp add: PThreadSpecificHack_def kKeyBlock_def create_keys_unlinked MAX_PERTHREAD_VALS_def)
  then show "HeapLeakCheck_BeforeConstructors env c = None"
    using a by (auto simp: HeapLeakCheck_BeforeConstructors_def BeforeConstructors_def Let_def bind_nothing)
next
  assume "pthread_linked s"
  then show "PThreadSpecificHack s =
     (if pthread_keys s + 32 \<le> PTHREAD_KEYS_MAX then Some (s\<lparr>pthread_keys := pthread_keys s + 32\<rparr>) else None)"
    by (simp add: PThreadSpecificHack_def kKeyBlock_def create_keys_linked)
qed

lemma HEAPCHECK_needs_thread_library_witness:
  "HeapLeakCheck_BeforeConstructors demo_hc (heap_check_static demo_hc False [(''HEAPCHECK'', ''normal'')]) = None"
  using HEAPCHECK_needs_thread_library [of "heap_check_static demo_hc False [(''HEAPCHECK'', ''normal'')]" demo_hc]
  by (simp add: heap_check_static_def getenv_def mthreads_init_def demo_hc_def)

section \<open>The environment\<close>

lemma env_index_Some:
  "env_index name es = Some i \<Longrightarrow> i < length es \<and> fst (es ! i) = name"
proof (induction es arbitrary: i)
  case (Cons e es)
  then show ?case by (cases e) (auto split: if_splits)
qed simp

lemma env_index_None: "env_index name es = None \<longleftrightarrow> name \<notin> fst ` set es"
  by (induction es) (auto split: if_splits)

lemma env_patch_names: "i < length es \<Longrightarrow> map fst (env_patch i ch es) = (map fst es)[i := butlast (fst (es ! i)) @ [ch]]"
  by (simp add: env_patch_def map_update)

lemma env_patch_twice:
  "i < length es \<Longrightarrow> env_patch i b (env_patch i a es) = env_patch i b es"
  by (simp add: env_patch_def)

lemma env_patch_back:
  "i < length es \<Longrightarrow> fst (es ! i) \<noteq> [] \<Longrightarrow> last (fst (es ! i)) = ch \<Longrightarrow> env_patch i ch (env_patch i x es) = es"
  by (metis append_butlast_last_id env_patch_def env_patch_twice list_update_id prod.collapse)

text \<open>
  C40. Running \<open>pprof\<close> spoils the environment as soon as \<open>LD_PRELOAD\<close> is set, because the name of that
  variable is restored through the pointer of the other: alone it makes the program crash after the
  command, and with both set neither variable exists any more. Without it the environment is restored.
\<close>

theorem GetStatusOutput_environment:
  assumes "distinct (map fst (hck_environ c))" and "hce_pprof env command = Some r"
  shows "(env_index ''LD_PRELOAD'' (hck_environ c) = None \<longrightarrow> GetStatusOutput env command c = Some (r, c)) \<and>
    (env_index ''LD_PRELOAD'' (hck_environ c) \<noteq> None \<and> env_index ''HEAPCHECK'' (hck_environ c) = None \<longrightarrow>
       GetStatusOutput env command c = None) \<and>
    (env_index ''LD_PRELOAD'' (hck_environ c) \<noteq> None \<and> env_index ''HEAPCHECK'' (hck_environ c) \<noteq> None \<longrightarrow>
       (\<exists>c'. GetStatusOutput env command c = Some (r, c') \<and> env_index ''LD_PRELOAD'' (hck_environ c') = None \<and>
         env_index ''HEAPCHECK'' (hck_environ c') = None))"
proof (intro conjI impI)
  let ?es = "hck_environ c"
  assume l: "env_index ''LD_PRELOAD'' ?es = None"
  have "env_patch i CHR ''K'' (env_patch i CHR ''?'' ?es) = ?es" if i: "env_index ''HEAPCHECK'' ?es = Some i" for i
    by (rule env_patch_back) (use env_index_Some [OF i] in simp_all)
  then show "GetStatusOutput env command c = Some (r, c)"
    using l assms(2) by (cases "env_index ''HEAPCHECK'' ?es") (auto simp: GetStatusOutput_def hide_env_def)
next
  assume "env_index ''LD_PRELOAD'' (hck_environ c) \<noteq> None \<and> env_index ''HEAPCHECK'' (hck_environ c) = None"
  then show "GetStatusOutput env command c = None" using assms(2) by (auto simp: GetStatusOutput_def hide_env_def)
next
  let ?es = "hck_environ c"
  assume "env_index ''LD_PRELOAD'' ?es \<noteq> None \<and> env_index ''HEAPCHECK'' ?es \<noteq> None"
  then obtain i j where ij: "env_index ''HEAPCHECK'' ?es = Some i" "env_index ''LD_PRELOAD'' ?es = Some j" by auto
  note i = env_index_Some [OF ij(1)] and j = env_index_Some [OF ij(2)]
  have ne: "i \<noteq> j" using i j by auto
  let ?es' = "env_patch i CHR ''D'' (env_patch i CHR ''K'' (env_patch j CHR ''?'' (env_patch i CHR ''?'' ?es)))"
  have run: "GetStatusOutput env command c = Some (r, c\<lparr>hck_environ := ?es'\<rparr>)"
    using ij assms(2) by (simp add: GetStatusOutput_def hide_env_def)
  have names: "map fst ?es' = (map fst ?es)[j := ''LD_PRELOA?'', i := ''HEAPCHECD'']"
    using i j ne by (simp add: env_patch_def map_update list_update_swap)
  have "x \<notin> set (map fst ?es')" if x: "x = ''LD_PRELOAD'' \<or> x = ''HEAPCHECK''" for x
  proof
    assume "x \<in> set (map fst ?es')"
    then obtain k where k: "k < length ?es" "((map fst ?es)[j := ''LD_PRELOA?'', i := ''HEAPCHECD'']) ! k = x"
      unfolding names in_set_conv_nth by auto
    then have kk: "k \<noteq> i" "k \<noteq> j" "map fst ?es ! k = x" using x i j by (auto simp: nth_list_update split: if_splits)
    then have "map fst ?es ! k = map fst ?es ! i \<or> map fst ?es ! k = map fst ?es ! j" using x i j by auto
    then show False using assms(1) kk(1,2) k(1) i j by (simp add: distinct_conv_nth del: nth_map)
  qed
  then show "\<exists>c'. GetStatusOutput env command c = Some (r, c') \<and> env_index ''LD_PRELOAD'' (hck_environ c') = None \<and>
         env_index ''HEAPCHECK'' (hck_environ c') = None"
    unfolding run by (simp add: env_index_None)
qed

definition preload_env :: "(string \<times> string) list" where
  "preload_env = [(''HOME'', ''h''), (''LD_PRELOAD'', ''lib''), (''HEAPCHECK'', ''normal'')]"

definition demo_pprof :: hc_env where
  "demo_pprof = demo_hc\<lparr>hce_pprof := \<lambda>_. Some (0, [])\<rparr>"

lemma GetStatusOutput_environment_witness:
  "\<exists>c'. GetStatusOutput demo_pprof [] (heap_check_static demo_pprof True preload_env) = Some ((0, []), c') \<and>
     env_index ''HEAPCHECK'' (hck_environ c') = None"
proof -
  have "hck_environ (heap_check_static demo_pprof True preload_env) = preload_env" by (simp add: heap_check_static_def)
  moreover have "hce_pprof demo_pprof [] = Some (0, [])" by (simp add: demo_pprof_def)
  ultimately show ?thesis
    using GetStatusOutput_environment [of "heap_check_static demo_pprof True preload_env" demo_pprof "[]"] by (auto simp: preload_env_def)
qed

end
