(* ===== verification/Spec2Isabelle.thy ===== *)
theory Spec2Isabelle
  imports SizeSpec MallocProps MallocStart AddressMap Stats MallocExtProps Profiler PageHeapProps SpinLock MallocHk HeapProfilerProps LiveProps ThreadsProps HeapCheck LeakVerdict LeakStart
begin

text \<open>
  A model of ferp, a thread-caching memory allocator with a CPU profiler, a heap profiler and a leak checker (C++, the
  sources are under \<open>src/src\<close>), and the theorems that make it correct.

  \<^bold>\<open>The program.\<close> \<open>malloc\<close> and its relatives (\<open>tcmalloc.cpp\<close>) serve small requests from a cache of the calling thread: one
  list of free objects for each of 170 size classes. A cache exchanges batches of objects with the central list of the
  class, which first looks into its transfer slots and then into spans, runs of pages cut into objects. Spans, and the
  requests above 32 KB, come from the page heap, which splits and coalesces runs of pages and grows by asking
  \<open>systemalloc.cpp\<close> for memory from \<open>/dev/mem\<close>, \<open>sbrk\<close> or \<open>mmap\<close>. A page map (\<open>pagemap.hpp\<close>) takes an address back to its
  span. Every call of the allocator goes through hooks (\<open>malloc_hook.cpp\<close>), which the heap profiler
  (\<open>heap-profiler.cpp\<close>) uses to count the live allocations of each call stack in a hash table (\<open>addressmap.hpp\<close>), and the
  leak checker (\<open>heapcheck.cpp\<close>) uses the profiler: it stops all threads (\<open>base/threads.cpp\<close>), searches memory from its
  roots and reports what it did not reach. \<open>profiler.cpp\<close> counts the stacks at which a timer interrupts the program.

  \<^bold>\<open>How it is modelled.\<close> A class or struct is a record with the fields of the code, a function that may end abnormally is
  a function to \<open>option\<close> (\<open>None\<close> is an abort, a null dereference, or a loop without end), a pointer into the heap is a
  64-bit word, and a loop is a recursive function, by \<open>partial_function\<close> where it is not clear that it ends; every
  property concludes that there is a result. Spans and metadata are kept in stores indexed by reference, objects in a
  byte memory \<open>mem\<close>, because their free lists run through the memory the clients write to. The state grows with the
  components: \<open>meta_state\<close>, \<open>page_heap\<close>, \<open>tcmalloc\<close>; the heap profiler and the leak checker have records of their own. The kernel is a
  function from the calls made so far to their results (\<open>sys_config\<close>), or a record of functions where results are
  not words.

  \<^bold>\<open>The theories\<close>, in the order of the program:
  \<^item> \<open>Prelude\<close> (failure, words), \<open>Memory\<close> (bytes, the singly linked lists \<open>SLL_*\<close>), \<open>Kernel\<close> (kernels for examples).
  \<^item> \<open>SizeClasses\<close>, \<open>SizeTables\<close>, \<open>SizeSpec\<close>: \<open>LgFloor\<close>, \<open>SizeClass\<close>, \<open>InitSizeClasses\<close> of \<open>tcmalloc.cpp\<close>. The self-checks
    of the start-up pass; the class of a size is the smallest that fits; the geometry of class spans.
  \<^item> \<open>PageMap\<close>: the three page maps of \<open>pagemap.hpp\<close>, instances of one locale \<open>page_map\<close>.
  \<^item> \<open>SysAlloc\<close>: \<open>systemalloc.cpp\<close>. What is granted is aligned, new, and nothing else is unmapped.
  \<^item> \<open>Spans\<close>, \<open>SpanLists\<close>, \<open>MetaAlloc\<close>: \<open>Span\<close>, \<open>DLL_*\<close>, \<open>MetaDataAlloc\<close>, \<open>PageHeapAllocator\<close>. Circular lists refine lists;
    metadata objects are never handed out twice.
  \<^item> \<open>PageHeap\<close> (the operations of \<open>TCMalloc_PageHeap\<close>) and \<open>PageHeapInv\<close>, \<open>PageHeapNew\<close>, \<open>PageHeapDelete\<close>, \<open>PageHeapGrow\<close>,
    \<open>PageHeapSpec\<close>, \<open>PageHeapProps\<close>: the invariant \<open>ph_ok\<close>, spans tile the pages of the heap and no two free spans are
    neighbours; each operation keeps it; the machine of all callers; the contract as locale \<open>page_provider\<close>.
  \<^item> \<open>CentralCache\<close> (\<open>TCMalloc_Central_FreeList\<close>) and \<open>ObjectSpans\<close>, \<open>CentralInv\<close>, \<open>CentralOps\<close>, \<open>PopulateLoop\<close>,
    \<open>CentralPopulate\<close>, \<open>CentralSpec\<close>: \<open>out_ok h L out\<close> says that exactly the objects in \<open>out\<close> are in other hands and that
    those share no byte with each other, with free objects, or with the large blocks \<open>L\<close>.
  \<^item> \<open>TransferSpec\<close>: the transfer slots; \<open>heap_ok h C L U ls\<close> says where each free object outside its span is, and that \<open>U\<close>
    are the objects in the clients' hands. \<open>ThreadCache\<close> (\<open>TCMalloc_ThreadCache\<close>) and \<open>CacheSpec\<close> keep it.
  \<^item> \<open>MThreads\<close> (\<open>mthreads.cpp\<close>), \<open>FrontEnd\<close> (\<open>do_malloc\<close>, \<open>do_free\<close>, \<open>do_memalign\<close> and the C and C++ entry points) and
    \<open>MallocSpec\<close>, \<open>MallocClient\<close>, \<open>MallocProps\<close>, \<open>MallocStart\<close>: \<open>serves h C own\<close> hides all of the above, the clients own the
    bytes \<open>own p\<close> at \<open>p\<close>. The locale \<open>block_store\<close> is the interface its clients \<open>calloc\<close> and \<open>realloc\<close> rest on. \<open>client_step\<close> is the machine
    of any threads that call \<open>malloc\<close>, \<open>calloc\<close>, \<open>realloc\<close>, \<open>free\<close> and write to their blocks: in all its runs live blocks are apart and
    keep their bytes, and it starts in the state that \<open>GetCache\<close> builds from static storage. \<open>MallocDemo\<close> is an
    example.
  \<^item> \<open>Stats\<close> (counters, properties and reports of \<open>tcmalloc.cpp\<close>, \<open>TCMalloc_Printer\<close>) and \<open>MallocExt\<close>, \<open>MallocExtProps\<close>
    (\<open>mallocext.cpp\<close>, and \<open>TCMallocGuard\<close>, which registers the allocator there): merging the traces of a heap sample
    keeps every total, and the header printed afterwards does not.
  \<^item> \<open>SpinLock\<close> (\<open>internl.hpp\<close>, \<open>internl.cpp\<close>): mutual exclusion and progress under any interleaving of the threads' steps.
  \<^item> \<open>Profiler\<close> (\<open>profiler.cpp\<close>): the records in the file count every sample, with short writes too; the memory map
    behind them may lose bytes to these.
  \<^item> \<open>AddressMap\<close>: the hash table refines a finite map, instance of the locale \<open>keyed_map\<close>.
  \<^item> \<open>MallocHk\<close> (\<open>malloc_hook.cpp\<close>, \<open>mallochk.hpp\<close>), \<open>HeapProfiler\<close> and \<open>HeapProfilerSpec\<close>, \<open>HeapProfilerProps\<close>
    (\<open>heap-profiler.cpp\<close>): the profiler refines a map of live allocations in every run of recordings, dumps, starts and stops
    for profiles and for leaks (\<open>hp_reach\<close>), writing its report is total, and once off it cannot be started again. What 32-bit
    \<open>mmap64\<close> asks of the kernel, and where it cuts offsets.
  \<^item> \<open>Threads\<close>, \<open>ThreadsProps\<close> (\<open>base/threads.cpp\<close>, \<open>base/thlist.cpp\<close>): the process that stops the threads ends, and lets
    every thread go unless a call of the kernel has failed.
  \<^item> \<open>LiveObjects\<close>, \<open>LiveRoots\<close>, \<open>HeapCheck\<close> (\<open>heapcheck.cpp\<close>, \<open>heapch_bc.cpp\<close>) and \<open>LiveSpec\<close>, \<open>LiveProps\<close>, \<open>LeakCheck\<close>, \<open>LeakProfile\<close>,
    \<open>LeakVerdict\<close>, \<open>LeakStart\<close>: a check ignores exactly what is reachable from its roots, its profile counts exactly
    the rest and changes no counter, its verdict compares the profile with the one \<open>Create\<close> took; what the search misses on 64-bit machines; what \<open>pprof\<close> and the
    environment do to a check.

  \<^bold>\<open>Hypotheses and bounds.\<close> Of the kernel: \<open>kernel_ok\<close>, memory is granted below \<open>2 ^ 47\<close>, above the zero page and never
  twice, and page aligned where it is mapped; \<open>task_os_ok\<close> for the directories of \<open>/proc\<close> and for \<open>ptrace\<close>, with the state of
  each traced thread read off the world by a function \<open>tr\<close>. The thread library has \<open>PTHREAD_KEYS_MAX\<close> keys and then returns an error.
  \<open>std::sort\<close> leaves the order of equal buckets open: the model keeps that of the table, and no property rests on it. Requests are such that the
  heap stays below \<open>kMaxHeapPages\<close> (\<open>10 ^ 9\<close> pages, about 4 TB; \<open>within_limit\<close>, \<open>in_reach\<close>), where no count of pages or bytes
  wraps. A metadata allocator that gets no memory aborts; \<open>supplied\<close> says that it has room left, in theorems that conclude that a
  call returns. \<open>malloc\<close> is specified for requests that are not sampled (\<open>unsampled\<close>, in \<open>may_call\<close>), and for threads that
  have a cache, free also for those without (\<open>attached\<close>). Free lists of a cache hold at most 256 objects between calls
  (\<open>short\<close>), which every operation keeps. Every \<open>partial_function\<close> is shown to return where a property uses it:
  lists by their length, \<open>Populate\<close> by the objects that fit, the scans of the lister by the threads that are left.

  \<^bold>\<open>Not modelled.\<close> \<open>stacktrace.cpp\<close> has only includes of headers that are not in the repository, so stacks are a parameter.
  \<open>base/syscall.hpp\<close> and \<open>base/elfcore.hpp\<close> are assembly and register layouts; the other headers of \<open>base\<close> are types and
  macros. Text on standard error is left out. \<open>DumpHeapGrowthStackTraces\<close> does not type-check and has no meaning to
  model. The calls of the clients' machine are atomic, in any order of the threads; only the spin lock is modelled at
  the level of instructions. The sampled path of \<open>malloc\<close>, \<open>memalign\<close>, and caches that are created or
  destroyed while others are in use are defined in \<open>FrontEnd\<close> and \<open>ThreadCache\<close> but are not steps of that machine:
  these are what a further development would add.
\<close>

end
